(* ===== verification/Prelude.thy ===== *)
theory Prelude
  imports Main "HOL-Library.AList" "HOL-Library.List_Lexorder" "HOL-Library.Char_ord"
  "HOL-Library.Code_Target_Numeral"
begin

text \<open>
  Shared vocabulary of the development.

  Strings. A JavaScript string is represented by its UTF-8 bytes, a \<open>string\<close>
  (a list of 8-bit characters). Equality, concatenation and splitting at an ASCII
  character agree with JavaScript's on every well-formed string (one without an unpaired
  surrogate). Two operations see UTF-16 code units and are written out for this
  representation: \<open>jslen\<close> is the property \<open>.length\<close>, and \<open>js_less\<close> is the
  operator \<open><\<close> (and the order of \<open>Array.prototype.sort\<close>).

  Maps. A JavaScript \<open>Map\<close> iterates in insertion order and \<open>set\<close> on a present key
  keeps its position, which is an association list with \<open>AList.update\<close> and
  \<open>AList.delete\<close>; the locale \<open>js_map\<close> states the laws its users rely on.
\<close>

named_theorems js_str_simps \<open>laws of the string operations\<close>

section \<open>Strings\<close>

abbreviation code :: "char \<Rightarrow> nat" where
  "code c \<equiv> of_char c"

definition utf8_cont :: "char \<Rightarrow> bool" where
  "utf8_cont c \<longleftrightarrow> 128 \<le> code c \<and> code c < 192"

definition jslen :: "string \<Rightarrow> nat" where
  "jslen s = length (filter (\<lambda>c. \<not> utf8_cont c) s) + length (filter (\<lambda>c. 240 \<le> code c) s)"

text \<open>
  UTF-8 bytes sort like code points. UTF-16 code units differ in one place: the code points
  from U+E000 to U+FFFF (lead bytes 0xEE and 0xEF) come after the surrogate pairs (lead
  bytes 0xF0 to 0xF4).
\<close>

definition u16_byte :: "char \<Rightarrow> nat" where
  "u16_byte c = (if code c = 238 \<or> code c = 239 then code c + 100 else code c)"

definition u16_key :: "string \<Rightarrow> nat list" where
  "u16_key s = map u16_byte s"

definition js_less :: "string \<Rightarrow> string \<Rightarrow> bool" where
  "js_less s t \<longleftrightarrow> u16_key s < u16_key t"

definition js_sort :: "string list \<Rightarrow> string list" where
  "js_sort = sort_key u16_key"

fun starts_with :: "string \<Rightarrow> string \<Rightarrow> bool" where
  "starts_with [] s = True"
| "starts_with (p # ps) [] = False"
| "starts_with (p # ps) (c # cs) = (p = c \<and> starts_with ps cs)"

text \<open>\<open>index_of c s\<close> is \<open>s.indexOf(c)\<close> for an ASCII \<open>c\<close>, with \<open>None\<close> for \<open>-1\<close>.\<close>

fun index_of :: "char \<Rightarrow> string \<Rightarrow> nat option" where
  "index_of c [] = None"
| "index_of c (x # xs) = (if x = c then Some 0 else map_option Suc (index_of c xs))"

fun join :: "string \<Rightarrow> string list \<Rightarrow> string" where
  "join sep [] = []"
| "join sep [x] = x"
| "join sep (x # y # ys) = x @ sep @ join sep (y # ys)"

lemma code_bound: "code c < 256"
  by simp

lemma u16_byte_eq [simp]: "u16_byte c = u16_byte d \<longleftrightarrow> c = d"
proof
  assume h: "u16_byte c = u16_byte d"
  have "code c = code d"
    using h code_bound [of c] code_bound [of d]
    unfolding u16_byte_def by (auto simp del: of_char_eq_iff nat_of_char_less_256 split: if_splits)
  then show "c = d" by simp
qed simp

lemma inj_u16_key: "inj u16_key"
  unfolding u16_key_def by (rule inj_mapI) (simp add: inj_def)

lemma u16_key_eq [simp]: "u16_key s = u16_key t \<longleftrightarrow> s = t"
  using inj_u16_key by (auto dest: injD)

lemma js_less_linear: "js_less s t \<or> s = t \<or> js_less t s"
  unfolding js_less_def using less_linear [of "u16_key s" "u16_key t"] by auto

lemma js_less_trans [trans]: "js_less s t \<Longrightarrow> js_less t u \<Longrightarrow> js_less s u"
  unfolding js_less_def by (rule less_trans)

lemma js_less_irrefl [simp]: "\<not> js_less s s"
  unfolding js_less_def by simp

lemma js_less_asym: "js_less s t \<Longrightarrow> \<not> js_less t s"
  unfolding js_less_def by (rule less_not_sym)

lemma set_js_sort [simp]: "set (js_sort xs) = set xs"
  by (simp add: js_sort_def)

lemma length_js_sort [simp]: "length (js_sort xs) = length xs"
  by (simp add: js_sort_def)

lemma distinct_js_sort [simp]: "distinct (js_sort xs) = distinct xs"
  by (simp add: js_sort_def)

lemma jslen_append [simp, js_str_simps]: "jslen (s @ t) = jslen s + jslen t"
  by (simp add: jslen_def)

lemma jslen_Nil [simp, js_str_simps]: "jslen [] = 0"
  by (simp add: jslen_def)

lemma starts_with_append [simp, js_str_simps]: "starts_with p (p @ s)"
  by (induction p) auto

lemma starts_with_iff: "starts_with p s \<longleftrightarrow> (\<exists>r. s = p @ r)"
  by (induction p s rule: starts_with.induct) auto

lemma index_of_None [simp]: "index_of c s = None \<longleftrightarrow> c \<notin> set s"
  by (induction c s rule: index_of.induct) auto

lemma index_of_Some_length: "index_of c s = Some i \<Longrightarrow> i < length s"
  by (induction c s arbitrary: i rule: index_of.induct) (auto split: if_splits)

lemma index_of_split:
  "index_of c s = Some i \<Longrightarrow> s = take i s @ c # drop (Suc i) s \<and> c \<notin> set (take i s)"
  by (induction c s arbitrary: i rule: index_of.induct) (auto split: if_splits)

lemma index_of_append_skip [js_str_simps]:
  "c \<notin> set s \<Longrightarrow> index_of c (s @ c # t) = Some (length s)"
  by (induction s) auto

lemma index_of_Some_in: "index_of c s = Some i \<Longrightarrow> c \<in> set s"
  by (metis index_of_None option.distinct(1))

section \<open>Insertion-ordered maps\<close>

type_synonym ('k, 'v) jsmap = "('k \<times> 'v) list"

abbreviation mget :: "('k, 'v) jsmap \<Rightarrow> 'k \<Rightarrow> 'v option" where
  "mget \<equiv> map_of"

abbreviation mput :: "'k \<Rightarrow> 'v \<Rightarrow> ('k, 'v) jsmap \<Rightarrow> ('k, 'v) jsmap" where
  "mput \<equiv> AList.update"

abbreviation mdel :: "'k \<Rightarrow> ('k, 'v) jsmap \<Rightarrow> ('k, 'v) jsmap" where
  "mdel \<equiv> AList.delete"

abbreviation mkeys :: "('k, 'v) jsmap \<Rightarrow> 'k list" where
  "mkeys m \<equiv> map fst m"

abbreviation mvals :: "('k, 'v) jsmap \<Rightarrow> 'v list" where
  "mvals m \<equiv> map snd m"

definition mhas :: "('k, 'v) jsmap \<Rightarrow> 'k \<Rightarrow> bool" where
  "mhas m k \<longleftrightarrow> mget m k \<noteq> None"

definition mwf :: "('k, 'v) jsmap \<Rightarrow> bool" where
  "mwf m \<longleftrightarrow> distinct (mkeys m)"

text \<open>
  What the code relies on when it uses a \<open>Map\<close>: lookup after \<open>set\<close> and
  \<open>delete\<close>, and the iteration order of the keys.
\<close>

locale js_map =
  fixes get :: "'m \<Rightarrow> 'k \<Rightarrow> 'v option"
    and put :: "'k \<Rightarrow> 'v \<Rightarrow> 'm \<Rightarrow> 'm"
    and del :: "'k \<Rightarrow> 'm \<Rightarrow> 'm"
    and keys :: "'m \<Rightarrow> 'k list"
    and wf :: "'m \<Rightarrow> bool"
  assumes get_put: "get (put k v m) = (get m)(k \<mapsto> v)"
    and get_del: "get (del k m) = (get m)(k := None)"
    and dom_get: "dom (get m) = set (keys m)"
    and keys_put: "keys (put k v m) = (if k \<in> set (keys m) then keys m else keys m @ [k])"
    and keys_del: "keys (del k m) = filter (\<lambda>x. x \<noteq> k) (keys m)"
    and wf_keys: "wf m \<longleftrightarrow> distinct (keys m)"
begin

lemma wf_put: "wf m \<Longrightarrow> wf (put k v m)"
  by (auto simp: wf_keys keys_put)

lemma wf_del: "wf m \<Longrightarrow> wf (del k m)"
  by (simp add: wf_keys keys_del)

lemma has_iff: "get m k \<noteq> None \<longleftrightarrow> k \<in> set (keys m)"
  using dom_get [of m] by auto

lemma length_put_fresh: "get m k = None \<Longrightarrow> length (keys (put k v m)) = Suc (length (keys m))"
  using has_iff [of m k] by (simp add: keys_put)

lemma length_put_present: "get m k \<noteq> None \<Longrightarrow> length (keys (put k v m)) = length (keys m)"
  using has_iff [of m k] by (simp add: keys_put)

lemma length_del_le: "length (keys (del k m)) \<le> length (keys m)"
  by (simp add: keys_del)

lemma length_del_present:
  assumes "wf m" and "get m k \<noteq> None"
  shows "Suc (length (keys (del k m))) = length (keys m)"
proof -
  have k: "k \<in> set (keys m)" using assms(2) has_iff by simp
  have "filter (\<lambda>x. x \<noteq> k) (keys m) = remove1 k (keys m)"
    using assms(1) by (simp add: wf_keys distinct_remove1_removeAll removeAll_filter_not_eq)
      (metis)
  moreover have "0 < length (keys m)" using k by (auto simp: length_pos_if_in_set)
  ultimately show ?thesis using k by (simp add: keys_del length_remove1)
qed

text \<open>Taking an entry out and putting one back under another key keeps the size bounded.\<close>

lemma length_move_le:
  assumes "wf m" and "get m k \<noteq> None"
  shows "length (keys (put k' v (del k m))) \<le> length (keys m)"
proof -
  have "length (keys (put k' v (del k m))) \<le> Suc (length (keys (del k m)))"
    by (simp add: keys_put)
  with length_del_present [OF assms] show ?thesis by simp
qed

end

lemma delete_conv_fun: "mget (mdel k m) = (mget m)(k := None)"
  by (rule delete_conv')

lemma mkeys_update: "mkeys (mput k v m) = (if k \<in> set (mkeys m) then mkeys m else mkeys m @ [k])"
  by (induction m) auto

lemma mkeys_delete: "mkeys (mdel k m) = filter (\<lambda>x. x \<noteq> k) (mkeys m)"
  by (induction m) (auto simp: AList.delete_eq)

interpretation jm: js_map map_of AList.update AList.delete "map fst" mwf
  by unfold_locales
    (auto simp: update_conv' delete_conv_fun mkeys_update mkeys_delete mwf_def dom_map_of_conv_image_fst)

lemma mget_put [simp]: "mget (mput k v m) k' = (if k' = k then Some v else mget m k')"
  by (simp add: jm.get_put)

lemma mget_del [simp]: "mget (mdel k m) k' = (if k' = k then None else mget m k')"
  by (simp add: jm.get_del)

lemma mhas_put [simp]: "mhas (mput k v m) k' \<longleftrightarrow> k' = k \<or> mhas m k'"
  by (simp add: mhas_def)

lemma mhas_del [simp]: "mhas (mdel k m) k' \<longleftrightarrow> k' \<noteq> k \<and> mhas m k'"
  by (simp add: mhas_def)

lemma mhas_keys: "mhas m k \<longleftrightarrow> k \<in> set (mkeys m)"
  unfolding mhas_def by (rule jm.has_iff)

lemma mwf_Nil [simp]: "mwf []"
  by (simp add: mwf_def)

lemma mwf_put [simp]: "mwf m \<Longrightarrow> mwf (mput k v m)"
  by (rule jm.wf_put)

lemma mwf_del [simp]: "mwf m \<Longrightarrow> mwf (mdel k m)"
  by (rule jm.wf_del)

lemma mwf_mget: "mwf m \<Longrightarrow> (k, v) \<in> set m \<longleftrightarrow> mget m k = Some v"
  by (simp add: mwf_def)

lemma set_mput: "mwf m \<Longrightarrow> (k', v') \<in> set (mput k v m) \<longleftrightarrow>
    (if k' = k then v' = v else (k', v') \<in> set m)"
  using mwf_mget [of "mput k v m"] mwf_mget [of m] by auto

lemma set_mdel [simp]: "(k', v') \<in> set (mdel k m) \<longleftrightarrow> k' \<noteq> k \<and> (k', v') \<in> set m"
  by (auto simp: AList.delete_eq)

end
