(* ===== verification/Json.thy ===== *)
theory Json
  imports Prelude
begin

text \<open>
  JavaScript values as far as the code looks at them, and \<open>JSON.stringify\<close> and
  \<open>JSON.parse\<close> on text. \<open>JUndef\<close> is \<open>undefined\<close> (a missing property),
  \<open>JNonFin\<close> is NaN or an infinity; neither comes out of \<open>JSON.parse\<close>.
  Integers are exact (\<open>JInt\<close>); a number written with a fraction or an exponent is kept
  by its lexeme (\<open>JDbl\<close>), because the code modelled here only passes such numbers on.
  An escaped unpaired surrogate decodes to U+FFFD, its UTF-8 form.

  The parser spends one unit of fuel per nested call; \<open>json_parse\<close> starts with more than
  twice the length of the text, and \<open>parse_fuel_irrelevant\<close> shows that any larger amount
  gives the same result.
\<close>

datatype jv =
    JUndef
  | JNull
  | JBool bool
  | JInt int
  | JDbl string
  | JNonFin
  | JStr string
  | JArr "jv list"
  | JObj "(string \<times> jv) list"

definition DQ :: char where "DQ = CHR 0x22"
definition BSL :: char where "BSL = CHR 0x5C"
definition NL :: char where "NL = CHR 0x0A"

text \<open>Property access on any value: \<open>undefined\<close> when there is no such own property.\<close>

fun jget :: "jv \<Rightarrow> string \<Rightarrow> jv" where
  "jget (JObj kvs) k = (case mget kvs k of Some v \<Rightarrow> v | None \<Rightarrow> JUndef)"
| "jget _ k = JUndef"

fun has_own :: "jv \<Rightarrow> string \<Rightarrow> bool" where
  "has_own (JObj kvs) k = mhas kvs k"
| "has_own _ k = False"

text \<open>\<open>typeof v === "object"\<close>, with \<open>null\<close> excluded: objects and arrays.\<close>

fun is_objlike :: "jv \<Rightarrow> bool" where
  "is_objlike (JObj _) = True"
| "is_objlike (JArr _) = True"
| "is_objlike _ = False"

section \<open>JSON.stringify\<close>

definition hexdig :: "nat \<Rightarrow> char" where
  "hexdig n = (if n < 10 then char_of (48 + n) else char_of (87 + n))"

definition esc_char :: "char \<Rightarrow> string" where
  "esc_char c =
     (if c = DQ then [BSL, DQ]
      else if c = BSL then [BSL, BSL]
      else if code c = 8 then [BSL, CHR ''b'']
      else if code c = 12 then [BSL, CHR ''f'']
      else if code c = 10 then [BSL, CHR ''n'']
      else if code c = 13 then [BSL, CHR ''r'']
      else if code c = 9 then [BSL, CHR ''t'']
      else if code c < 32 then [BSL, CHR ''u'', CHR ''0'', CHR ''0'', hexdig (code c div 16), hexdig (code c mod 16)]
      else [c])"

definition quote :: "string \<Rightarrow> string" where
  "quote s = DQ # concat (map esc_char s) @ [DQ]"

fun show_nat :: "nat \<Rightarrow> string" where
  "show_nat n = (if n < 10 then [char_of (48 + n)] else show_nat (n div 10) @ [char_of (48 + n mod 10)])"

declare show_nat.simps [simp del]

definition show_int :: "int \<Rightarrow> string" where
  "show_int i = (if i < 0 then CHR ''-'' # show_nat (nat (- i)) else show_nat (nat i))"

fun stringify :: "jv \<Rightarrow> string"
  and str_elems :: "bool \<Rightarrow> jv list \<Rightarrow> string"
  and str_members :: "bool \<Rightarrow> (string \<times> jv) list \<Rightarrow> string"
where
  "stringify JUndef = ''null''"
| "stringify JNull = ''null''"
| "stringify (JBool b) = (if b then ''true'' else ''false'')"
| "stringify (JInt i) = show_int i"
| "stringify (JDbl l) = l"
| "stringify JNonFin = ''null''"
| "stringify (JStr s) = quote s"
| "stringify (JArr vs) = CHR ''['' # str_elems True vs @ '']''"
| "stringify (JObj kvs) = CHR ''{'' # str_members True kvs @ ''}''"
| "str_elems first [] = []"
| "str_elems first (v # vs) = (if first then [] else '','') @ stringify v @ str_elems False vs"
| "str_members first [] = []"
| "str_members first ((k, v) # kvs) =
     (if v = JUndef then str_members first kvs
      else (if first then [] else '','') @ quote k @ '':'' @ stringify v @ str_members False kvs)"

section \<open>JSON.parse\<close>

definition is_ws :: "char \<Rightarrow> bool" where
  "is_ws c \<longleftrightarrow> code c \<in> {32, 9, 10, 13}"

definition skip_ws :: "string \<Rightarrow> string" where
  "skip_ws = dropWhile is_ws"

definition hd_is :: "char \<Rightarrow> string \<Rightarrow> bool" where
  "hd_is c s = (case s of x # _ \<Rightarrow> x = c | [] \<Rightarrow> False)"

definition is_digit :: "char \<Rightarrow> bool" where
  "is_digit c \<longleftrightarrow> 48 \<le> code c \<and> code c < 58"

definition hexval :: "char \<Rightarrow> nat option" where
  "hexval c =
     (if is_digit c then Some (code c - 48)
      else if 97 \<le> code c \<and> code c < 103 then Some (code c - 87)
      else if 65 \<le> code c \<and> code c < 71 then Some (code c - 55)
      else None)"

definition hex4 :: "char \<Rightarrow> char \<Rightarrow> char \<Rightarrow> char \<Rightarrow> nat option" where
  "hex4 a b c d =
     (case (hexval a, hexval b, hexval c, hexval d) of
        (Some w, Some x, Some y, Some z) \<Rightarrow> Some (4096 * w + 256 * x + 16 * y + z)
      | _ \<Rightarrow> None)"

definition utf8_enc :: "nat \<Rightarrow> string" where
  "utf8_enc n =
     (if n < 128 then [char_of n]
      else if n < 2048 then [char_of (192 + n div 64), char_of (128 + n mod 64)]
      else if n < 65536 then [char_of (224 + n div 4096), char_of (128 + n div 64 mod 64), char_of (128 + n mod 64)]
      else [char_of (240 + n div 262144), char_of (128 + n div 4096 mod 64),
            char_of (128 + n div 64 mod 64), char_of (128 + n mod 64)])"

definition esc_of :: "char \<Rightarrow> char option" where
  "esc_of e =
     (if e = DQ then Some DQ else if e = BSL then Some BSL else if e = CHR ''/'' then Some (CHR ''/'')
      else if e = CHR ''b'' then Some (CHR 0x08) else if e = CHR ''f'' then Some (CHR 0x0C)
      else if e = CHR ''n'' then Some (CHR 0x0A) else if e = CHR ''r'' then Some (CHR 0x0D)
      else if e = CHR ''t'' then Some (CHR 0x09) else None)"

text \<open>
  A code unit written \<open>\\uXXXX\<close>; a high surrogate followed by an escaped low one is one
  code point. Gives the bytes and the number of characters after \<open>\\u\<close> that it takes.
\<close>

definition esc_unit :: "string \<Rightarrow> (string \<times> nat) option" where
  "esc_unit s =
     (case s of
        a # b # c # d # r \<Rightarrow>
          (case hex4 a b c d of
             None \<Rightarrow> None
           | Some u \<Rightarrow>
               if 55296 \<le> u \<and> u < 56320 then
                 (case r of
                    x # y # e # f # g # h # _ \<Rightarrow>
                      if x = BSL \<and> y = CHR ''u'' then
                        (case hex4 e f g h of
                           Some l \<Rightarrow> if 56320 \<le> l \<and> l < 57344
                             then Some (utf8_enc (65536 + (u - 55296) * 1024 + (l - 56320)), 10)
                             else Some (utf8_enc 65533, 4)
                         | None \<Rightarrow> Some (utf8_enc 65533, 4))
                      else Some (utf8_enc 65533, 4)
                  | _ \<Rightarrow> Some (utf8_enc 65533, 4))
               else if 56320 \<le> u \<and> u < 57344 then Some (utf8_enc 65533, 4)
               else Some (utf8_enc u, 4))
      | _ \<Rightarrow> None)"

function p_string :: "string \<Rightarrow> (string \<times> string) option" where
  "p_string s =
     (case s of
        [] \<Rightarrow> None
      | c # cs \<Rightarrow>
          if c = DQ then Some ([], cs)
          else if c = BSL then
            (case cs of
               [] \<Rightarrow> None
             | e # r \<Rightarrow>
                 if e = CHR ''u'' then
                   (case esc_unit r of
                      None \<Rightarrow> None
                    | Some (bs, k) \<Rightarrow> map_option (\<lambda>(t, q). (bs @ t, q)) (p_string (drop k r)))
                 else (case esc_of e of
                         None \<Rightarrow> None
                       | Some d \<Rightarrow> map_option (\<lambda>(t, q). (d # t, q)) (p_string r)))
          else if code c < 32 then None
          else map_option (\<lambda>(t, q). (c # t, q)) (p_string cs))"
  by pat_completeness auto
termination
  by (relation "measure length") auto

declare p_string.simps [simp del]

definition read_nat :: "string \<Rightarrow> nat" where
  "read_nat ds = foldl (\<lambda>a c. 10 * a + (code c - 48)) 0 ds"

definition p_digits :: "string \<Rightarrow> (string \<times> string) option" where
  "p_digits s = (let ds = takeWhile is_digit s in
     if ds = [] then None else Some (ds, dropWhile is_digit s))"

definition p_frac :: "string \<Rightarrow> (string \<times> string) option" where
  "p_frac s = (case s of
      c # r \<Rightarrow> if c = CHR ''.'' then map_option (\<lambda>(ds, q). (c # ds, q)) (p_digits r) else Some ([], s)
    | [] \<Rightarrow> Some ([], s))"

definition p_exp :: "string \<Rightarrow> (string \<times> string) option" where
  "p_exp s = (case s of
      c # r \<Rightarrow>
        if c = CHR ''e'' \<or> c = CHR ''E'' then
          (case r of
             g # q \<Rightarrow> if g = CHR ''+'' \<or> g = CHR ''-''
                      then map_option (\<lambda>(ds, t). (c # g # ds, t)) (p_digits q)
                      else map_option (\<lambda>(ds, t). (c # ds, t)) (p_digits r)
           | [] \<Rightarrow> None)
        else Some ([], s)
    | [] \<Rightarrow> Some ([], s))"

definition p_number :: "string \<Rightarrow> (jv \<times> string) option" where
  "p_number s =
     (let neg = hd_is (CHR ''-'') s; t = (if neg then tl s else s) in
      case p_digits t of
        None \<Rightarrow> None
      | Some (ds, r) \<Rightarrow>
          if 1 < length ds \<and> hd ds = CHR ''0'' then None
          else (case p_frac r of
                  None \<Rightarrow> None
                | Some (fs, r') \<Rightarrow>
                    (case p_exp r' of
                       None \<Rightarrow> None
                     | Some (es, r'') \<Rightarrow>
                         if fs = [] \<and> es = []
                         then Some (JInt (if neg then - int (read_nat ds) else int (read_nat ds)), r'')
                         else Some (JDbl ((if neg then ''-'' else []) @ ds @ fs @ es), r''))))"

definition p_literal :: "string \<Rightarrow> (jv \<times> string) option" where
  "p_literal s =
     (if starts_with ''null'' s then Some (JNull, drop 4 s)
      else if starts_with ''true'' s then Some (JBool True, drop 4 s)
      else if starts_with ''false'' s then Some (JBool False, drop 5 s)
      else None)"

text \<open>A repeated key overwrites the earlier member and keeps its place.\<close>

definition mk_obj :: "(string \<times> jv) list \<Rightarrow> (string \<times> jv) list" where
  "mk_obj kvs = fold (\<lambda>(k, v). mput k v) kvs []"

fun p_value :: "nat \<Rightarrow> string \<Rightarrow> (jv \<times> string) option"
  and p_elems :: "nat \<Rightarrow> string \<Rightarrow> (jv list \<times> string) option"
  and p_members :: "nat \<Rightarrow> string \<Rightarrow> ((string \<times> jv) list \<times> string) option"
where
  "p_value 0 s = None"
| "p_value (Suc n) s =
     (case skip_ws s of
        [] \<Rightarrow> None
      | c # cs \<Rightarrow>
          if c = DQ then map_option (\<lambda>(t, r). (JStr t, r)) (p_string cs)
          else if c = CHR ''['' then
            (if hd_is (CHR '']'') (skip_ws cs) then Some (JArr [], tl (skip_ws cs))
             else map_option (\<lambda>(vs, r). (JArr vs, r)) (p_elems n cs))
          else if c = CHR ''{'' then
            (if hd_is (CHR ''}'') (skip_ws cs) then Some (JObj [], tl (skip_ws cs))
             else map_option (\<lambda>(kvs, r). (JObj (mk_obj kvs), r)) (p_members n cs))
          else if c = CHR ''-'' \<or> is_digit c then p_number (c # cs)
          else p_literal (c # cs))"
| "p_elems 0 s = None"
| "p_elems (Suc n) s =
     (case p_value n s of
        None \<Rightarrow> None
      | Some (v, r) \<Rightarrow>
          (case skip_ws r of
             [] \<Rightarrow> None
           | c # cs \<Rightarrow>
               if c = CHR '','' then map_option (\<lambda>(vs, q). (v # vs, q)) (p_elems n cs)
               else if c = CHR '']'' then Some ([v], cs)
               else None))"
| "p_members 0 s = None"
| "p_members (Suc n) s =
     (case skip_ws s of
        [] \<Rightarrow> None
      | c # cs \<Rightarrow>
          if c \<noteq> DQ then None
          else
            (case p_string cs of
               None \<Rightarrow> None
             | Some (k, r) \<Rightarrow>
                 (case skip_ws r of
                    [] \<Rightarrow> None
                  | d # ds \<Rightarrow>
                      if d \<noteq> CHR '':'' then None
                      else
                        (case p_value n ds of
                           None \<Rightarrow> None
                         | Some (v, r') \<Rightarrow>
                             (case skip_ws r' of
                                [] \<Rightarrow> None
                              | e # es \<Rightarrow>
                                  if e = CHR '','' then map_option (\<lambda>(kvs, q). ((k, v) # kvs, q)) (p_members n es)
                                  else if e = CHR ''}'' then Some ([(k, v)], es)
                                  else None)))))"

definition json_parse :: "string \<Rightarrow> jv option" where
  "json_parse s =
     (case p_value (2 * length s + 2) s of
        Some (v, r) \<Rightarrow> if skip_ws r = [] then Some v else None
      | None \<Rightarrow> None)"


section \<open>What each parser leaves\<close>

lemma length_skip_ws: "length (skip_ws s) \<le> length s"
  by (simp add: skip_ws_def length_dropWhile_le)

lemma skip_ws_Cons_length: "skip_ws s = c # cs \<Longrightarrow> length cs < length s"
  using length_skip_ws [of s] by simp

lemma p_string_length: "p_string s = Some (t, r) \<Longrightarrow> length r < length s"
proof (induction s arbitrary: t r rule: p_string.induct)
  case (1 s)
  note IH = "1.IH" and prem = "1.prems"
  show ?case
    using prem IH
    by (subst (asm) p_string.simps) (fastforce split: list.splits if_splits option.splits)
qed

lemma p_digits_length: "p_digits s = Some (ds, r) \<Longrightarrow> length r < length s"
proof -
  assume a: "p_digits s = Some (ds, r)"
  then have "s = ds @ r" and "ds \<noteq> []"
    by (auto simp: p_digits_def Let_def split: if_splits)
  then show ?thesis by simp
qed

lemma p_frac_length: "p_frac s = Some (ds, r) \<Longrightarrow> length r \<le> length s"
  by (auto simp: p_frac_def split: list.splits if_splits dest!: p_digits_length)

lemma p_exp_length: "p_exp s = Some (ds, r) \<Longrightarrow> length r \<le> length s"
  by (auto simp: p_exp_def split: list.splits if_splits dest!: p_digits_length)

lemma p_number_length: "p_number s = Some (v, r) \<Longrightarrow> length r < length s"
proof -
  assume a: "p_number s = Some (v, r)"
  define t where "t = (if hd_is (CHR ''-'') s then tl s else s)"
  obtain ds q fs q' es where d: "p_digits t = Some (ds, q)" "p_frac q = Some (fs, q')"
      "p_exp q' = Some (es, r)"
    using a by (auto simp: p_number_def Let_def t_def split: option.splits if_splits)
  have "length t \<le> length s" by (simp add: t_def)
  moreover have "length q < length t" using d(1) by (rule p_digits_length)
  moreover have "length q' \<le> length q" using d(2) by (rule p_frac_length)
  moreover have "length r \<le> length q'" using d(3) by (rule p_exp_length)
  ultimately show ?thesis by linarith
qed

lemma p_literal_length: "p_literal s = Some (v, r) \<Longrightarrow> length r < length s"
  by (auto simp: p_literal_def starts_with_iff split: if_splits)

lemma p_length:
  "p_value n s = Some (v, r) \<Longrightarrow> length r < length s"
  "p_elems n s = Some (vs, r) \<Longrightarrow> length r < length s"
  "p_members n s = Some (kvs, r) \<Longrightarrow> length r < length s"
proof (induction n s and n s and n s arbitrary: v r and vs r and kvs r
    rule: p_value_p_elems_p_members.induct)
  case (2 n s)
  obtain c cs where s: "skip_ws s = c # cs" and l: "length cs < length s"
    using "2.prems" by (cases "skip_ws s") (auto dest: skip_ws_Cons_length)
  have tl: "length (tl (skip_ws cs)) \<le> length cs"
    using length_skip_ws [of cs] by simp
  have cs: "Suc (length cs) \<le> length s" using l by simp
  from "2.prems" s consider (str) t where "p_string cs = Some (t, r)"
    | (tl) "r = tl (skip_ws cs)"
    | (arr) xs where "c = CHR ''[''" "\<not> hd_is (CHR '']'') (skip_ws cs)" "p_elems n cs = Some (xs, r)"
    | (obj) xs where "c = CHR ''{''" "\<not> hd_is (CHR ''}'') (skip_ws cs)" "p_members n cs = Some (xs, r)"
    | (num) "p_number (c # cs) = Some (v, r)"
    | (lit) "p_literal (c # cs) = Some (v, r)"
    by (auto split: if_splits)
  then show ?case
  proof cases
    case str then show ?thesis using l p_string_length by fastforce
  next
    case tl then show ?thesis using l \<open>length (tl (skip_ws cs)) \<le> length cs\<close> by simp
  next
    case arr
    have "length r < length cs" using "2.IH"(1) [OF s _ _ arr(2) arr(3)] arr(1) by (simp add: DQ_def)
    then show ?thesis using l by simp
  next
    case obj
    have "length r < length cs" using "2.IH"(2) [OF s _ _ _ obj(2) obj(3)] obj(1) by (simp add: DQ_def)
    then show ?thesis using l by simp
  next
    case num then show ?thesis using cs p_number_length by fastforce
  next
    case lit then show ?thesis using cs p_literal_length by fastforce
  qed
next
  case (4 n s)
  then show ?case
    by (fastforce split: option.splits list.splits if_splits dest!: skip_ws_Cons_length)
next
  case (6 n s)
  then show ?case
    by (fastforce split: option.splits list.splits if_splits dest!: skip_ws_Cons_length p_string_length)
qed simp_all


section \<open>Fuel\<close>

lemma parse_fuel_irrelevant:
  "2 * length s + 1 \<le> n \<Longrightarrow> 2 * length s + 1 \<le> m \<Longrightarrow> p_value n s = p_value m s"
  "2 * length s + 2 \<le> n \<Longrightarrow> 2 * length s + 2 \<le> m \<Longrightarrow> p_elems n s = p_elems m s"
  "2 * length s + 2 \<le> n \<Longrightarrow> 2 * length s + 2 \<le> m \<Longrightarrow> p_members n s = p_members m s"
proof (induction n s and n s and n s arbitrary: m and m and m rule: p_value_p_elems_p_members.induct)
  case (2 n s)
  obtain m' where m: "m = Suc m'" using "2.prems"(2) by (cases m) auto
  show ?case
  proof (cases "skip_ws s")
    case (Cons c cs)
    then have l: "2 * length cs + 2 \<le> 2 * length s" using skip_ws_Cons_length by fastforce
    have "p_elems n cs = p_elems m' cs" if "c = CHR ''[''" "\<not> hd_is (CHR '']'') (skip_ws cs)"
      using "2.IH"(1) [OF Cons _ that(1,2), of m'] l "2.prems" m that(1) by (simp add: DQ_def)
    moreover have "p_members n cs = p_members m' cs" if "c = CHR ''{''" "\<not> hd_is (CHR ''}'') (skip_ws cs)"
      using "2.IH"(2) [OF Cons _ _ that(1,2), of m'] l "2.prems" m that(1) by (simp add: DQ_def)
    ultimately show ?thesis using Cons m by simp
  qed (simp add: m)
next
  case (4 n s)
  obtain m' where m: "m = Suc m'" using "4.prems"(2) by (cases m) auto
  have v: "p_value n s = p_value m' s" using "4.IH"(1) [of m'] "4.prems" m by simp
  have "p_elems n cs = p_elems m' cs"
    if "p_value n s = Some (x, r)" "skip_ws r = c # cs" "c = CHR '',''" for x r c cs
  proof -
    have "length cs < length s" using p_length(1) [OF that(1)] skip_ws_Cons_length [OF that(2)] by simp
    then show ?thesis using "4.IH"(2) [OF that(1) refl that(2,3), of m'] "4.prems" m by simp
  qed
  then show ?case using v m by (auto split: option.splits list.splits)
next
  case (6 n s)
  obtain m' where m: "m = Suc m'" using "6.prems"(2) by (cases m) auto
  have v: "p_value n ds = p_value m' ds"
    if "skip_ws s = c # cs" "\<not> c \<noteq> DQ" "p_string cs = Some (k, r)" "skip_ws r = d # ds" "\<not> d \<noteq> CHR '':''"
    for c cs k r d ds
  proof -
    have "length ds < length s"
      using skip_ws_Cons_length [OF that(1)] p_string_length [OF that(3)] skip_ws_Cons_length [OF that(4)] by simp
    then show ?thesis
      using "6.IH"(1) [OF that(1,2,3) refl that(4,5), of m'] "6.prems" m by simp
  qed
  have e: "p_members n es = p_members m' es"
    if "skip_ws s = c # cs" "\<not> c \<noteq> DQ" "p_string cs = Some (k, r)" "skip_ws r = d # ds" "\<not> d \<noteq> CHR '':''"
      "p_value n ds = Some (x, r')" "skip_ws r' = e # es" "e = CHR '',''"
    for c cs k r d ds x r' e es
  proof -
    have "length es < length s"
      using skip_ws_Cons_length [OF that(1)] p_string_length [OF that(3)] skip_ws_Cons_length [OF that(4)]
        p_length(1) [OF that(6)] skip_ws_Cons_length [OF that(7)] by simp
    then show ?thesis
      using "6.IH"(2) [OF that(1,2,3) refl that(4,5,6) refl that(7,8), of m'] "6.prems" m by simp
  qed
  show ?case using v e m by (auto split: option.splits list.splits)
qed simp_all

section \<open>The round trip\<close>

text \<open>
  The values \<open>JSON.parse\<close> can produce, up to the form of a fractional number:
  no \<open>undefined\<close>, no NaN, no repeated key.
\<close>

definition dbl_lexeme :: "string \<Rightarrow> bool" where
  "dbl_lexeme l \<longleftrightarrow> p_number l = Some (JDbl l, [])"

fun wf_json :: "jv \<Rightarrow> bool" where
  "wf_json JUndef = False"
| "wf_json JNonFin = False"
| "wf_json (JDbl l) = dbl_lexeme l"
| "wf_json (JArr vs) = list_all wf_json vs"
| "wf_json (JObj kvs) = (distinct (map fst kvs) \<and> list_all (\<lambda>p. wf_json (snd p)) kvs)"
| "wf_json _ = True"

text \<open>What follows a value inside a text: nothing, a delimiter or white space.\<close>

definition delim :: "string \<Rightarrow> bool" where
  "delim r \<longleftrightarrow> (case r of [] \<Rightarrow> True | c # _ \<Rightarrow> c \<in> {CHR '','', CHR '']'', CHR ''}''} \<or> is_ws c)"

lemma delim_simps [simp]: "delim []" "delim (c # r) \<longleftrightarrow> c \<in> {CHR '','', CHR '']'', CHR ''}''} \<or> is_ws c"
  by (simp_all add: delim_def)

lemma skip_ws_Cons [simp]: "\<not> is_ws c \<Longrightarrow> skip_ws (c # s) = c # s"
  by (simp add: skip_ws_def)

lemma skip_ws_Nil [simp]: "skip_ws [] = []"
  by (simp add: skip_ws_def)

lemma is_ws_delims [simp]: "\<not> is_ws (CHR '','')" "\<not> is_ws (CHR '']'')" "\<not> is_ws (CHR ''}'')"
    "\<not> is_ws (CHR '':'')" "\<not> is_ws (CHR ''['')" "\<not> is_ws (CHR ''{'')" "\<not> is_ws DQ"
  by (simp_all add: is_ws_def DQ_def)

lemma ctrl_escape:
  assumes "code c < 32"
  shows "hex4 (CHR ''0'') (CHR ''0'') (hexdig (code c div 16)) (hexdig (code c mod 16)) = Some (code c)"
proof -
  have "hexval (CHR ''0'') = Some 0" by (simp add: hexval_def is_digit_def)
  moreover have "hexval (hexdig n) = Some n" if "n < 16" for n
    using that by (simp add: hexval_def hexdig_def is_digit_def)
  ultimately show ?thesis using assms by (simp add: hex4_def)
qed

lemma quote_chars [simp]: "DQ \<noteq> BSL" "BSL \<noteq> DQ" "DQ \<noteq> CHR ''u''" "BSL \<noteq> CHR ''u''"
  by (simp_all add: DQ_def BSL_def)

lemma p_string_simps:
  "p_string (DQ # cs) = Some ([], cs)"
  "e \<noteq> CHR ''u'' \<Longrightarrow> p_string (BSL # e # r) =
     (case esc_of e of None \<Rightarrow> None | Some d \<Rightarrow> map_option (\<lambda>(t, q). (d # t, q)) (p_string r))"
  "p_string (BSL # CHR ''u'' # r) =
     (case esc_unit r of None \<Rightarrow> None
      | Some (bs, k) \<Rightarrow> map_option (\<lambda>(t, q). (bs @ t, q)) (p_string (drop k r)))"
  "c \<noteq> DQ \<Longrightarrow> c \<noteq> BSL \<Longrightarrow> \<not> code c < 32 \<Longrightarrow>
     p_string (c # cs) = map_option (\<lambda>(t, q). (c # t, q)) (p_string cs)"
  by (subst p_string.simps, simp)+

lemma char_of_ctrl:
  "code c = 8 \<Longrightarrow> c = CHR 0x08" "code c = 9 \<Longrightarrow> c = CHR 0x09" "code c = 10 \<Longrightarrow> c = CHR 0x0A"
  "code c = 12 \<Longrightarrow> c = CHR 0x0C" "code c = 13 \<Longrightarrow> c = CHR 0x0D"
  using of_char_eq_iff [of c "CHR 0x08", where ?'a = nat] of_char_eq_iff [of c "CHR 0x09", where ?'a = nat]
    of_char_eq_iff [of c "CHR 0x0A", where ?'a = nat] of_char_eq_iff [of c "CHR 0x0C", where ?'a = nat]
    of_char_eq_iff [of c "CHR 0x0D", where ?'a = nat]
  by simp_all

lemma p_string_esc: "p_string (esc_char c @ s) = map_option (\<lambda>(t, q). (c # t, q)) (p_string s)"
proof -
  have e: "esc_of DQ = Some DQ" "esc_of BSL = Some BSL"
    by (simp_all add: esc_of_def)
  have f: "esc_of (CHR ''b'') = Some (CHR 0x08)" "esc_of (CHR ''f'') = Some (CHR 0x0C)"
      "esc_of (CHR ''n'') = Some (CHR 0x0A)" "esc_of (CHR ''r'') = Some (CHR 0x0D)"
      "esc_of (CHR ''t'') = Some (CHR 0x09)"
    by (simp_all add: esc_of_def DQ_def BSL_def)
  consider "c = DQ" | "c = BSL" | (named) "code c \<in> {8, 9, 10, 12, 13}" "c \<noteq> DQ" "c \<noteq> BSL"
    | (ctl) "code c < 32" "code c \<notin> {8, 9, 10, 12, 13}" "c \<noteq> DQ" "c \<noteq> BSL"
    | (plain) "\<not> code c < 32" "c \<noteq> DQ" "c \<noteq> BSL" by blast
  then show ?thesis
  proof cases
    case named
    then show ?thesis
      using char_of_ctrl [of c] f by (auto simp: esc_char_def p_string_simps)
  next
    case ctl
    have "esc_unit (CHR ''0'' # CHR ''0'' # hexdig (code c div 16) # hexdig (code c mod 16) # s)
        = Some ([c], 4)"
      using ctl by (simp add: esc_unit_def ctrl_escape utf8_enc_def)
    then show ?thesis using ctl
      by (simp add: esc_char_def p_string_simps)
  qed (simp_all add: esc_char_def p_string_simps e)
qed

lemma p_string_quote: "p_string (concat (map esc_char s) @ DQ # r) = Some (s, r)"
proof (induction s)
  case Nil
  show ?case by (subst p_string.simps) simp
next
  case (Cons c s)
  then show ?case using p_string_esc [of c "concat (map esc_char s) @ DQ # r"] by simp
qed

lemma show_nat_digits: "list_all is_digit (show_nat n)"
proof (induction n rule: show_nat.induct)
  case (1 n)
  then show ?case
    by (subst show_nat.simps) (auto simp: is_digit_def list_all_iff)
qed

lemma show_nat_ne [simp]: "show_nat n \<noteq> []"
  by (subst show_nat.simps) simp

lemma show_nat_hd: "1 < length (show_nat n) \<Longrightarrow> hd (show_nat n) \<noteq> CHR ''0''"
proof (induction n rule: show_nat.induct)
  case (1 n)
  show ?case
  proof (cases "n < 100")
    case True
    show ?thesis
    proof (cases "n < 10")
      case False
      then have "n div 10 < 10" "n div 10 \<noteq> 0" using True by auto
      then have "hd (show_nat n) = char_of (48 + n div 10)"
        using False by (simp add: show_nat.simps [of n] show_nat.simps [of "n div 10"])
      moreover have "code (char_of (48 + n div 10)) \<noteq> code (CHR ''0'')"
        using \<open>n div 10 < 10\<close> \<open>n div 10 \<noteq> 0\<close> by simp
      then have "char_of (48 + n div 10) \<noteq> CHR ''0''" by metis
      ultimately show ?thesis by simp
    qed (use "1.prems" in \<open>simp add: show_nat.simps [of n]\<close>)
  next
    case False
    then have "1 < length (show_nat (n div 10))"
      by (subst show_nat.simps) (simp add: Suc_le_eq)
    with "1.IH" False have "hd (show_nat (n div 10)) \<noteq> CHR ''0''" by simp
    then show ?thesis using False by (subst show_nat.simps) simp
  qed
qed

lemma read_nat_snoc: "read_nat (ds @ [d]) = 10 * read_nat ds + (code d - 48)"
  by (simp add: read_nat_def)

lemma read_show_nat: "read_nat (show_nat n) = n"
proof (induction n rule: show_nat.induct)
  case (1 n)
  show ?case
  proof (cases "n < 10")
    case True
    then show ?thesis by (simp add: show_nat.simps [of n] read_nat_def)
  next
    case False
    then show ?thesis using 1 by (subst show_nat.simps) (simp add: read_nat_snoc)
  qed
qed

lemma p_digits_append:
  assumes "list_all is_digit ds" and "ds \<noteq> []" and "\<And>c q. r = c # q \<Longrightarrow> \<not> is_digit c"
  shows "p_digits (ds @ r) = Some (ds, r)"
proof -
  have "takeWhile is_digit (ds @ r) = ds \<and> dropWhile is_digit (ds @ r) = r"
    using assms(1,3) by (induction ds) (cases r; simp)+
  then show ?thesis using assms(2) by (simp add: p_digits_def)
qed

lemma delim_not_num:
  assumes "delim r" and "r = c # q"
  shows "\<not> is_digit c \<and> c \<noteq> CHR ''.'' \<and> c \<noteq> CHR ''e'' \<and> c \<noteq> CHR ''E''"
  using assms by (auto simp: is_digit_def is_ws_def)

lemma p_frac_exp_delim: "delim r \<Longrightarrow> p_frac r = Some ([], r) \<and> p_exp r = Some ([], r)"
  by (auto simp: p_frac_def p_exp_def delim_not_num split: list.splits)

lemma p_number_show_int:
  assumes "delim r"
  shows "p_number (show_int i @ r) = Some (JInt i, r)"
proof -
  have d: "p_digits (show_nat n @ r) = Some (show_nat n, r)" for n
    using assms delim_not_num by (intro p_digits_append show_nat_digits) auto
  have nz: "\<not> (1 < length (show_nat n) \<and> hd (show_nat n) = CHR ''0'')" for n
    using show_nat_hd by blast
  have hd: "\<not> hd_is (CHR ''-'') (show_nat n @ r)" for n
  proof -
    obtain c cs where c: "show_nat n = c # cs" by (cases "show_nat n") auto
    have "is_digit c" using show_nat_digits [of n] c by simp
    then show ?thesis using c by (auto simp: hd_is_def is_digit_def)
  qed
  show ?thesis
  proof (cases "i < 0")
    case True
    then show ?thesis using d nz p_frac_exp_delim [OF assms]
      by (simp add: show_int_def p_number_def Let_def hd_is_def read_show_nat)
  next
    case False
    then show ?thesis using d nz p_frac_exp_delim [OF assms] hd
      by (simp add: show_int_def p_number_def Let_def read_show_nat)
  qed
qed


text \<open>A number's lexeme is read the same way when a delimiter follows it.\<close>

lemma p_digits_extend:
  assumes "p_digits s = Some (ds, q)" and "\<And>c t. r = c # t \<Longrightarrow> \<not> is_digit c"
  shows "p_digits (s @ r) = Some (ds, q @ r)"
proof -
  have d: "ds = takeWhile is_digit s" "q = dropWhile is_digit s" "ds \<noteq> []"
    using assms(1) by (auto simp: p_digits_def Let_def split: if_splits)
  have "list_all is_digit ds" unfolding d(1) list_all_iff by (blast dest: set_takeWhileD)
  moreover have "\<not> is_digit c" if "q @ r = c # t" for c t
    using that assms(2) hd_dropWhile [of is_digit s] unfolding d(2)
    by (cases "dropWhile is_digit s") auto
  moreover have "s = ds @ q" unfolding d by simp
  ultimately show ?thesis using d(3) p_digits_append [of ds "q @ r"] by simp
qed

lemma delim_no_digit: "delim r \<Longrightarrow> r = c # t \<Longrightarrow> \<not> is_digit c"
  using delim_not_num by blast

lemma p_frac_extend:
  assumes "p_frac s = Some (fs, q)" and "delim r"
  shows "p_frac (s @ r) = Some (fs, q @ r)"
proof (cases s)
  case Nil
  then show ?thesis using assms by (simp add: p_frac_exp_delim)
next
  case (Cons c cs)
  show ?thesis
  proof (cases "c = CHR ''.''")
    case True
    then obtain ds where "p_digits cs = Some (ds, q)" "fs = c # ds"
      using assms(1) Cons by (auto simp: p_frac_def)
    then show ?thesis using True Cons p_digits_extend [OF _ delim_no_digit [OF assms(2)]]
      by (simp add: p_frac_def)
  qed (use assms(1) Cons in \<open>auto simp: p_frac_def\<close>)
qed

lemma p_exp_extend:
  assumes "p_exp s = Some (es, q)" and "delim r"
  shows "p_exp (s @ r) = Some (es, q @ r)"
proof (cases s)
  case Nil
  then show ?thesis using assms by (simp add: p_frac_exp_delim)
next
  case (Cons c cs)
  note ext = p_digits_extend [OF _ delim_no_digit [OF assms(2)]]
  show ?thesis
  proof (cases "c = CHR ''e'' \<or> c = CHR ''E''")
    case True
    then obtain g q' where cs: "cs = g # q'" using assms(1) Cons
      by (cases cs) (auto simp: p_exp_def)
    show ?thesis
    proof (cases "g = CHR ''+'' \<or> g = CHR ''-''")
      case g: True
      then obtain ds where "p_digits q' = Some (ds, q)" "es = c # g # ds"
        using assms(1) Cons True cs by (auto simp: p_exp_def)
      then show ?thesis using True g Cons cs ext by (simp add: p_exp_def)
    next
      case g: False
      then obtain ds where "p_digits cs = Some (ds, q)" "es = c # ds"
        using assms(1) Cons True cs by (auto simp: p_exp_def)
      then have "p_digits (g # q' @ r) = Some (ds, q @ r)" using ext [of cs] cs by simp
      then show ?thesis using True g Cons cs \<open>es = c # ds\<close> by (simp add: p_exp_def)
    qed
  qed (use assms(1) Cons in \<open>auto simp: p_exp_def\<close>)
qed

lemma p_number_extend:
  assumes "p_number s = Some (v, q)" and "delim r"
  shows "p_number (s @ r) = Some (v, q @ r)"
proof -
  have ne: "s \<noteq> []" using p_number_length [OF assms(1)] by auto
  define t where "t = (if hd_is (CHR ''-'') s then tl s else s)"
  obtain ds u fs u' es where d: "p_digits t = Some (ds, u)" "p_frac u = Some (fs, u')"
      "p_exp u' = Some (es, q)"
    using assms(1) by (auto simp: p_number_def Let_def t_def split: option.splits if_splits)
  have "p_digits (t @ r) = Some (ds, u @ r)"
    using d(1) delim_not_num [OF assms(2)] by (intro p_digits_extend) auto
  moreover have "hd_is (CHR ''-'') (s @ r) = hd_is (CHR ''-'') s"
      "(if hd_is (CHR ''-'') s then tl (s @ r) else s @ r) = t @ r"
    using ne by (cases s; simp add: hd_is_def t_def)+
  ultimately show ?thesis
    using assms(1) d p_frac_extend [OF d(2) assms(2)] p_exp_extend [OF d(3) assms(2)]
    unfolding p_number_def t_def [symmetric]
    by (cases "fs = [] \<and> es = []") (auto simp: Let_def t_def [symmetric] split: if_splits)
qed

lemma p_number_start: "p_number (c # cs) = Some x \<Longrightarrow> c = CHR ''-'' \<or> is_digit c"
  by (auto simp: p_number_def hd_is_def Let_def p_digits_def split: if_splits)

lemma stringify_start:
  assumes "wf_json v"
  obtains c cs where "stringify v = c # cs" "\<not> is_ws c" "c \<notin> {CHR '']'', CHR ''}'', CHR '',''}"
proof (cases v)
  case (JInt i)
  obtain c cs where c: "stringify v = c # cs" using JInt by (cases "show_int i") (auto simp: show_int_def split: if_splits)
  then have "p_number (c # cs) = Some (JInt i, [])" using p_number_show_int [of "[]" i] JInt by simp
  then have "c = CHR ''-'' \<or> is_digit c" by (rule p_number_start)
  then have "\<not> is_ws c \<and> c \<notin> {CHR '']'', CHR ''}'', CHR '',''}" by (auto simp: is_ws_def is_digit_def)
  then show ?thesis using c that by blast
next
  case (JDbl l)
  then have l: "p_number l = Some (JDbl l, [])" using assms by (simp add: dbl_lexeme_def)
  then obtain c cs where c: "l = c # cs" using p_number_length [OF l] by (cases l) auto
  then have "c = CHR ''-'' \<or> is_digit c" using l p_number_start by auto
  then have "\<not> is_ws c \<and> c \<notin> {CHR '']'', CHR ''}'', CHR '',''}" by (auto simp: is_ws_def is_digit_def)
  then show ?thesis using c that [of c cs] JDbl by simp
next
  case (JBool b)
  show ?thesis by (rule that [of "hd (stringify v)" "tl (stringify v)"]) (simp_all add: JBool is_ws_def)
qed (use assms that in \<open>auto simp: is_ws_def quote_def DQ_def split: if_splits\<close>)

lemma mk_obj_append: "distinct (mkeys (xs @ ys)) \<Longrightarrow> fold (\<lambda>(k, v). mput k v) ys xs = xs @ ys"
proof (induction ys arbitrary: xs)
  case (Cons y ys)
  obtain k v where y: "y = (k, v)" by fastforce
  have "mput k v xs = xs @ [(k, v)]" if "k \<notin> fst ` set xs" for xs :: "('a \<times> 'b) list"
    using that by (induction xs) auto
  with Cons y show ?case by simp
qed simp

lemma mk_obj_distinct: "distinct (mkeys kvs) \<Longrightarrow> mk_obj kvs = kvs"
  using mk_obj_append [of "[]" kvs] by (simp add: mk_obj_def)

lemma not_undef: "wf_json v \<Longrightarrow> v \<noteq> JUndef"
  by auto

lemma number_value:
  assumes "p_number (c # cs) = Some (v, r)"
  shows "p_value (Suc n) (c # cs) = Some (v, r)"
proof -
  have "c = CHR ''-'' \<or> is_digit c" using p_number_start [OF assms] by simp
  moreover from this have "\<not> is_ws c" "c \<noteq> DQ" "c \<noteq> CHR ''[''" "c \<noteq> CHR ''{''"
    by (auto simp: is_ws_def is_digit_def DQ_def)
  ultimately show ?thesis using assms by auto
qed

lemma str_elems_True [simp]: "str_elems True (v # vs) = stringify v @ str_elems False vs"
  by simp

lemma str_elems_False: "str_elems False vs = (if vs = [] then [] else CHR '','' # str_elems True vs)"
  by (cases vs) auto

lemma str_members_False:
  "list_all (\<lambda>p. wf_json (snd p)) kvs \<Longrightarrow>
     str_members False kvs = (if kvs = [] then [] else CHR '','' # str_members True kvs)"
  by (cases kvs) (auto dest: not_undef)

lemma parse_stringify_aux:
  fixes b b' :: bool
  shows "wf_json v \<Longrightarrow> delim r \<Longrightarrow> 2 * length (stringify v) + 1 \<le> n \<Longrightarrow>
     p_value n (stringify v @ r) = Some (v, r)"
  "list_all wf_json vs \<Longrightarrow> vs \<noteq> [] \<Longrightarrow> 2 * length (str_elems True vs) + 2 \<le> n \<Longrightarrow>
     p_elems n (str_elems True vs @ CHR '']'' # r) = Some (vs, r)"
  "list_all (\<lambda>p. wf_json (snd p)) kvs \<Longrightarrow> kvs \<noteq> [] \<Longrightarrow> 2 * length (str_members True kvs) + 2 \<le> n \<Longrightarrow>
     p_members n (str_members True kvs @ CHR ''}'' # r) = Some (kvs, r)"
proof (induction v and b vs and b' kvs arbitrary: n r and n r and n r
    rule: stringify_str_elems_str_members.induct)
  case (4 i)
  then obtain m where m: "n = Suc m" by (cases n) auto
  obtain c cs where c: "show_int i @ r = c # cs" by (cases "show_int i @ r") (auto simp: show_int_def split: if_splits)
  then show ?case using number_value [of c cs] p_number_show_int [OF "4.prems"(2), of i] m by simp
next
  case (5 l)
  then obtain m where m: "n = Suc m" by (cases n) auto
  have l: "p_number l = Some (JDbl l, [])" using "5.prems"(1) by (simp add: dbl_lexeme_def)
  then have e: "p_number (l @ r) = Some (JDbl l, r)" using p_number_extend "5.prems"(2) by fastforce
  obtain c cs where c: "l @ r = c # cs" using p_number_length [OF e] by (cases "l @ r") auto
  then show ?case using number_value [of c cs] e m by simp
next
  case (7 s)
  then obtain m where m: "n = Suc m" by (cases n) auto
  then show ?case using m by (simp add: quote_def p_string_quote)
next
  case (8 vs)
  then obtain m where m: "n = Suc m" by (cases n) auto
  show ?case
  proof (cases vs)
    case Nil then show ?thesis using m by (simp add: DQ_def hd_is_def)
  next
    case (Cons w ws)
    then obtain c cs where c: "stringify w = c # cs" "\<not> is_ws c" "c \<notin> {CHR '']'', CHR ''}'', CHR '',''}"
      using stringify_start [of w] "8.prems"(1) by auto
    then have "\<not> hd_is (CHR '']'') (skip_ws (str_elems True vs @ CHR '']'' # r))"
      using Cons by (simp add: hd_is_def)
    moreover have "p_elems m (str_elems True vs @ CHR '']'' # r) = Some (vs, r)"
      using "8.IH" "8.prems" Cons m by simp
    ultimately show ?thesis using m by (simp add: DQ_def)
  qed
next
  case (9 kvs)
  then obtain m where m: "n = Suc m" by (cases n) auto
  show ?case
  proof (cases kvs)
    case Nil then show ?thesis using m by (simp add: DQ_def hd_is_def)
  next
    case (Cons w ws)
    then obtain k x where w: "kvs = (k, x) # ws" "wf_json x" using "9.prems"(1) by (cases w) auto
    then have "\<not> hd_is (CHR ''}'') (skip_ws (str_members True kvs @ CHR ''}'' # r))"
      using not_undef [OF w(2)] by (simp add: hd_is_def quote_def DQ_def is_ws_def)
    moreover have "p_members m (str_members True kvs @ CHR ''}'' # r) = Some (kvs, r)"
      using "9.IH" "9.prems" Cons m by simp
    ultimately show ?thesis using m "9.prems"(1) by (simp add: DQ_def mk_obj_distinct)
  qed
next
  case (11 b v vs)
  then obtain m where m: "n = Suc m" by (cases n) auto
  have v: "p_value m (stringify v @ d) = Some (v, d)" if "delim d" for d
    using "11.IH"(1) "11.prems" m that by simp
  show ?case
  proof (cases vs)
    case Nil then show ?thesis using v [of "CHR '']'' # r"] m by simp
  next
    case (Cons w ws)
    have "p_elems m (str_elems True vs @ CHR '']'' # r) = Some (vs, r)"
      using "11.IH"(2) "11.prems" m Cons by (simp add: str_elems_False)
    moreover have "str_elems True (v # vs) = stringify v @ CHR '','' # str_elems True vs"
      using Cons by (simp add: str_elems_False)
    ultimately show ?thesis using v [of "CHR '','' # str_elems True vs @ CHR '']'' # r"] m
      by (simp del: str_elems.simps str_elems_True)
  qed
next
  case (13 b k v kvs)
  then obtain m where m: "n = Suc m" by (cases n) auto
  have u: "v \<noteq> JUndef" using "13.prems"(1) by auto
  have v: "p_value m (stringify v @ d) = Some (v, d)" if "delim d" for d
    using "13.IH"(2) u "13.prems" m that by (simp add: quote_def)
  have q: "p_string (concat (map esc_char k) @ DQ # t) = Some (k, t)" for t by (rule p_string_quote)
  show ?case
  proof (cases kvs)
    case Nil
    then show ?thesis using v [of "CHR ''}'' # r"] m u q by (simp add: quote_def)
  next
    case (Cons w ws)
    have F: "str_members False kvs = CHR '','' # str_members True kvs"
      using "13.prems"(1) Cons str_members_False [of kvs] by simp
    have "p_members m (str_members True kvs @ CHR ''}'' # r) = Some (kvs, r)"
      using "13.IH"(3) u "13.prems" m Cons F by simp
    then show ?thesis using v [of "CHR '','' # str_members True kvs @ CHR ''}'' # r"] m u q F
      by (simp add: quote_def)
  qed
next
  case 2
  then obtain m where m: "n = Suc m" by (cases n) auto
  then show ?case by (simp add: DQ_def p_literal_def is_ws_def is_digit_def)
next
  case (3 x)
  then obtain m where m: "n = Suc m" by (cases n) auto
  then show ?case by (simp add: DQ_def p_literal_def is_ws_def is_digit_def)
qed simp_all

text \<open>Printing and parsing again gives the value, with white space (the newline) after it.\<close>

theorem json_round_trip:
  assumes "wf_json v" and "list_all is_ws w"
  shows "json_parse (stringify v @ w) = Some v"
proof -
  have "delim w" using assms(2) by (cases w) auto
  then have "p_value (2 * length (stringify v @ w) + 2) (stringify v @ w) = Some (v, w)"
    using assms(1) by (intro parse_stringify_aux(1)) simp_all
  moreover have "skip_ws w = []" using assms(2) by (simp add: skip_ws_def list_all_iff)
  ultimately show ?thesis by (simp add: json_parse_def)
qed

section \<open>A printed value is one line\<close>

lemma digit_not_NL: "is_digit c \<Longrightarrow> c \<noteq> NL"
  by (auto simp: is_digit_def NL_def)

lemma esc_char_no_NL: "NL \<notin> set (esc_char c)"
proof -
  have h: "hexdig n \<noteq> NL" if "n < 16" for n
  proof -
    have "code (hexdig n) \<noteq> code NL" using that by (simp add: hexdig_def NL_def)
    then show ?thesis by metis
  qed
  have "hexdig (code c mod 16) \<noteq> NL" "code c < 32 \<Longrightarrow> hexdig (code c div 16) \<noteq> NL"
    by (simp_all add: h)
  then show ?thesis by (auto simp: esc_char_def DQ_def BSL_def NL_def)
qed

lemma quote_no_NL: "NL \<notin> set (quote s)"
  using esc_char_no_NL by (auto simp: quote_def DQ_def NL_def)

lemma show_int_no_NL: "NL \<notin> set (show_int i)"
  using show_nat_digits digit_not_NL by (auto simp: show_int_def list_all_iff NL_def)

lemma dbl_lexeme_no_NL:
  assumes "dbl_lexeme l"
  shows "NL \<notin> set l"
proof -
  have digs: "NL \<notin> set ds" if "p_digits s = Some (ds, q)" for s ds q
    using that digit_not_NL by (auto simp: p_digits_def Let_def split: if_splits dest!: set_takeWhileD)
  have nl: "NL \<noteq> CHR ''.''" "NL \<noteq> CHR ''e''" "NL \<noteq> CHR ''E''" "NL \<noteq> CHR ''+''" "NL \<noteq> CHR ''-''"
    by (simp_all add: NL_def)
  have fr: "NL \<notin> set fs" if "p_frac s = Some (fs, q)" for s fs q
    using that digs nl by (auto simp: p_frac_def split: list.splits if_splits)
  have ex: "NL \<notin> set es" if "p_exp s = Some (es, q)" for s es q
    using that digs nl by (auto simp: p_exp_def split: list.splits if_splits)
  obtain neg ds fs es t u u' where "p_digits t = Some (ds, u)" "p_frac u = Some (fs, u')"
      "p_exp u' = Some (es, [])" "l = (if neg then ''-'' else []) @ ds @ fs @ es"
    using assms unfolding dbl_lexeme_def p_number_def
    by (auto simp: Let_def split: option.splits if_splits)
  then show ?thesis using digs fr ex nl by (auto split: if_splits)
qed

lemma stringify_no_NL:
  fixes b b' :: bool
  shows "wf_json v \<Longrightarrow> NL \<notin> set (stringify v)"
    and "list_all wf_json vs \<Longrightarrow> NL \<notin> set (str_elems b vs)"
    and "list_all (\<lambda>p. wf_json (snd p)) kvs \<Longrightarrow> NL \<notin> set (str_members b' kvs)"
proof (induction v and b vs and b' kvs rule: stringify_str_elems_str_members.induct)
  case (5 l)
  then show ?case by (simp add: dbl_lexeme_no_NL)
qed (use quote_no_NL show_int_no_NL in \<open>auto simp: NL_def dest: not_undef\<close>)


section \<open>What is parsed is well formed\<close>

lemma p_digits_shape: "p_digits s = Some (ds, q) \<Longrightarrow> ds \<noteq> [] \<and> list_all is_digit ds"
  by (auto simp: p_digits_def Let_def list_all_iff split: if_splits dest: set_takeWhileD)

lemma p_frac_shape:
  assumes "p_frac s = Some (fs, q)" and "p_exp e = Some (es, [])" and "e = es"
  shows "p_frac (fs @ es) = Some (fs, es)" and "\<And>c t. fs @ es = c # t \<Longrightarrow> \<not> is_digit c"
proof -
  have es: "\<not> is_digit c \<and> c \<noteq> CHR ''.''" if "es = c # t" for c t
    using assms(2,3) that by (auto simp: p_exp_def is_digit_def split: list.splits if_splits)
  have fs: "fs = [] \<or> (\<exists>ds u. fs = CHR ''.'' # ds \<and> ds \<noteq> [] \<and> list_all is_digit ds)"
    using assms(1) by (auto simp: p_frac_def split: list.splits if_splits dest: p_digits_shape)
  have dig: "p_digits (ds @ es) = Some (ds, es)" if "ds \<noteq> []" "list_all is_digit ds" for ds
    using p_digits_append [OF that(2,1)] es by blast
  from fs show "p_frac (fs @ es) = Some (fs, es)"
    using es dig by (elim disjE) (auto simp: p_frac_def split: list.splits)
  from fs show "\<And>c t. fs @ es = c # t \<Longrightarrow> \<not> is_digit c"
    using es by (auto simp: is_digit_def)
qed

lemma p_exp_shape: "p_exp s = Some (es, q) \<Longrightarrow> p_exp es = Some (es, [])"
proof -
  assume a: "p_exp s = Some (es, q)"
  have d: "p_digits ds = Some (ds, [])" if "p_digits t = Some (ds, u)" for t ds u
    using p_digits_append [of ds "[]"] p_digits_shape [OF that] by simp
  have ne: "g \<noteq> CHR ''+'' \<and> g \<noteq> CHR ''-''" if "p_digits t = Some (g # ds, u)" for t g ds u
    using p_digits_shape [OF that] by (auto simp: is_digit_def)
  show ?thesis
  proof (cases "es = []")
    case False
    then obtain c r where s: "s = c # r" "c = CHR ''e'' \<or> c = CHR ''E''"
      using a by (auto simp: p_exp_def split: list.splits if_splits)
    from a s(2) obtain g r' where r: "r = g # r'" unfolding s(1) by (cases r) (auto simp: p_exp_def)
    show ?thesis
    proof (cases "g = CHR ''+'' \<or> g = CHR ''-''")
      case True
      with a s r obtain ds where "p_digits r' = Some (ds, q)" "es = c # g # ds"
        by (auto simp: p_exp_def)
      then show ?thesis using s(2) True d by (auto simp: p_exp_def)
    next
      case False
      with a s r obtain ds where ds: "p_digits r = Some (ds, q)" "es = c # ds"
        by (auto simp: p_exp_def)
      obtain h ds' where h: "ds = h # ds'" using p_digits_shape [OF ds(1)] by (cases ds) auto
      then show ?thesis using s(2) ds d [OF ds(1)] ne [of r h ds' q] by (simp add: p_exp_def)
    qed
  qed (simp add: p_exp_def)
qed

lemma p_number_wf: "p_number s = Some (v, r) \<Longrightarrow> wf_json v"
proof -
  assume a: "p_number s = Some (v, r)"
  define neg where "neg = hd_is (CHR ''-'') s"
  obtain ds u fs u' es where d: "p_digits (if neg then tl s else s) = Some (ds, u)" "p_frac u = Some (fs, u')"
      "p_exp u' = Some (es, r)"
    using a by (auto simp: p_number_def Let_def neg_def split: option.splits if_splits)
  have "\<not> (1 < length ds \<and> hd ds = CHR ''0'')" "fs = [] \<and> es = [] \<Longrightarrow> \<exists>i. v = JInt i"
      "\<not> (fs = [] \<and> es = []) \<Longrightarrow> v = JDbl ((if neg then ''-'' else []) @ ds @ fs @ es)"
    using a d unfolding p_number_def neg_def [symmetric] by (auto simp: Let_def split: if_splits)
  note p = d this
  show ?thesis
  proof (cases "fs = [] \<and> es = []")
    case False
    have e: "p_exp es = Some (es, [])" using p(3) by (rule p_exp_shape)
    note f = p_frac_shape [OF p(2) e refl]
    have ds: "ds \<noteq> []" "list_all is_digit ds" using p_digits_shape [OF p(1)] by auto
    have d: "p_digits (ds @ fs @ es) = Some (ds, fs @ es)"
      using p_digits_append [OF ds(2,1), of "fs @ es"] f(2) by simp
    have n: "\<not> hd_is (CHR ''-'') (ds @ fs @ es)"
      using ds by (cases ds) (auto simp: hd_is_def is_digit_def)
    have "p_number ((if neg then ''-'' else []) @ ds @ fs @ es)
        = Some (JDbl ((if neg then ''-'' else []) @ ds @ fs @ es), [])"
      using d f(1) e p(4) n False by (cases neg) (auto simp: p_number_def Let_def hd_is_def)
    then show ?thesis using p(6) [OF False] by (simp add: dbl_lexeme_def)
  qed (use p(5) in auto)
qed

lemma list_all_mput:
  "P v \<Longrightarrow> list_all (\<lambda>p. P (snd p)) m \<Longrightarrow> list_all (\<lambda>p. P (snd p)) (mput k v m)"
  by (induction m) auto

lemma mk_obj_fold:
  assumes "distinct (mkeys m)" and "list_all (\<lambda>p. P (snd p)) kvs" and "list_all (\<lambda>p. P (snd p)) m"
  shows "distinct (mkeys (fold (\<lambda>(k, v). mput k v) kvs m)) \<and>
     list_all (\<lambda>p. P (snd p)) (fold (\<lambda>(k, v). mput k v) kvs m)"
  using assms
proof (induction kvs arbitrary: m)
  case (Cons p kvs)
  obtain k v where p: "p = (k, v)" by fastforce
  have "list_all (\<lambda>p. P (snd p)) (mput k v m)"
    using Cons.prems p by (intro list_all_mput) simp_all
  then show ?case using Cons p jm.wf_put [of m k v] by (simp add: mwf_def)
qed simp

lemma parsed_wf:
  "p_value n s = Some (v, r) \<Longrightarrow> wf_json v"
  "p_elems n s = Some (vs, r) \<Longrightarrow> list_all wf_json vs"
  "p_members n s = Some (kvs, r) \<Longrightarrow> list_all (\<lambda>p. wf_json (snd p)) kvs"
proof (induction n s and n s and n s arbitrary: v r and vs r and kvs r
    rule: p_value_p_elems_p_members.induct)
  case (2 n s)
  from "2.prems" obtain c cs where s: "skip_ws s = c # cs" by (cases "skip_ws s") auto
  from "2.prems" s consider (str) t where "v = JStr t" | (nil) "v = JArr [] \<or> v = JObj []"
    | (arr) xs where "c = CHR ''[''" "\<not> hd_is (CHR '']'') (skip_ws cs)" "p_elems n cs = Some (xs, r)" "v = JArr xs"
    | (obj) xs where "c = CHR ''{''" "\<not> hd_is (CHR ''}'') (skip_ws cs)" "p_members n cs = Some (xs, r)" "v = JObj (mk_obj xs)"
    | (num) "p_number (c # cs) = Some (v, r)"
    | (lit) "p_literal (c # cs) = Some (v, r)"
    by (auto split: if_splits)
  then show ?case
  proof cases
    case arr
    then show ?thesis using "2.IH"(1) [OF s _ _ arr(2) arr(3)] by (simp add: DQ_def)
  next
    case obj
    then have "list_all (\<lambda>p. wf_json (snd p)) xs" using "2.IH"(2) [OF s _ _ _ obj(2) obj(3)] by (simp add: DQ_def)
    then show ?thesis using obj(4) mk_obj_fold [of "[]" wf_json xs] by (simp add: mk_obj_def)
  next
    case num then show ?thesis by (rule p_number_wf)
  next
    case lit then show ?thesis by (auto simp: p_literal_def split: if_splits)
  qed auto
next
  case (4 n s)
  then show ?case by (fastforce split: option.splits list.splits if_splits)
next
  case (6 n s)
  then show ?case by (fastforce split: option.splits list.splits if_splits)
qed simp_all

theorem json_parse_wf: "json_parse s = Some v \<Longrightarrow> wf_json v"
  by (auto simp: json_parse_def simp del: p_value.simps dest: parsed_wf(1)
      split: option.splits prod.splits if_splits)

end
