(* ===== verification/Envelope.thy ===== *)
theory Envelope
  imports Json "HOL-Library.Word"
begin

text \<open>
  The five-field envelope of the agent network and its JSONL framing:
  \<^verbatim>\<open>extension/src/session/envelope.ts\<close>, and the line splitter that the
  broker and the leader probe share (\<^verbatim>\<open>_onData\<close> of broker.ts, the data handler
  of \<^verbatim>\<open>_probeBroker\<close> in leader_election.ts).
\<close>

unbundle bit_operations_syntax

section \<open>Data\<close>

datatype dest = ToName string | ToList "string list"

record envelope =
  e_from :: string
  e_to :: dest
  e_id :: string
  e_re :: "string option"
  e_body :: jv

datatype env_error =
    NotJson | NotObject | BadFrom | BadTo | EmptyTo | EmptyToList | BadToEntry
  | BadId | BadRe | NoBody

section \<open>UUIDs\<close>

definition is_hex :: "char \<Rightarrow> bool" where
  "is_hex c \<longleftrightarrow> hexval c \<noteq> None"

text \<open>The regular expression \<open>UUID_RE\<close>: groups of hex digits separated by a dash.\<close>

fun hex_groups :: "nat list \<Rightarrow> string \<Rightarrow> bool" where
  "hex_groups [] s = False"
| "hex_groups [n] s = (length s = n \<and> list_all is_hex s)"
| "hex_groups (n # m # ns) s =
     (list_all is_hex (take n s) \<and> n < length s \<and> s ! n = CHR ''-'' \<and> hex_groups (m # ns) (drop (Suc n) s))"

definition uuid_re :: "string \<Rightarrow> bool" where
  "uuid_re s = hex_groups [8, 4, 4, 4, 12] s"

definition is_uuid :: "jv \<Rightarrow> bool" where
  "is_uuid v = (case v of JStr s \<Rightarrow> uuid_re s | _ \<Rightarrow> False)"

type_synonym byte = "8 word"

definition hex2 :: "byte \<Rightarrow> string" where
  "hex2 b = [hexdig (unat b div 16), hexdig (unat b mod 16)]"

definition hex_bytes :: "byte list \<Rightarrow> string" where
  "hex_bytes bs = concat (map hex2 bs)"

definition slice :: "nat \<Rightarrow> nat \<Rightarrow> string \<Rightarrow> string" where
  "slice i j s = drop i (take j s)"

text \<open>\<open>ts\<close> is \<open>Date.now()\<close>, \<open>rand\<close> the ten bytes of \<open>randomBytes(10)\<close>.\<close>

definition uuidv7 :: "nat \<Rightarrow> byte list \<Rightarrow> string" where
  "uuidv7 ts rand =
     (let buf = [word_of_nat (ts div 2 ^ 40), word_of_nat (ts div 2 ^ 32), word_of_nat (ts div 2 ^ 24),
                 word_of_nat (ts div 2 ^ 16), word_of_nat (ts div 2 ^ 8), word_of_nat ts] @ rand;
          buf = buf[6 := (buf ! 6 AND 0x0f) OR 0x70];
          buf = buf[8 := (buf ! 8 AND 0x3f) OR 0x80];
          hex = hex_bytes buf
      in slice 0 8 hex @ ''-'' @ slice 8 12 hex @ ''-'' @ slice 12 16 hex @ ''-'' @ slice 16 20 hex @ ''-'' @ drop 20 hex)"

section \<open>Transport errors\<close>

datatype transport_reason = Offline | NotAuthorized | BadEnvelope | UnknownPeer

definition TRANSPORT_ERROR_REASONS :: "(string \<times> transport_reason) list" where
  "TRANSPORT_ERROR_REASONS =
     [(''offline'', Offline), (''not_authorized'', NotAuthorized),
      (''bad_envelope'', BadEnvelope), (''unknown_peer'', UnknownPeer)]"

definition has_transport_error_type :: "jv \<Rightarrow> bool" where
  "has_transport_error_type v =
     (case v of JObj kvs \<Rightarrow> mget kvs ''type'' = Some (JStr ''transport_error'') | _ \<Rightarrow> False)"

definition as_transport_error_body :: "jv \<Rightarrow> transport_reason option" where
  "as_transport_error_body v =
     (if \<not> has_transport_error_type v \<or> \<not> has_own v ''reason'' then None
      else if jget v ''reason'' = JStr ''offline'' then Some Offline
      else if jget v ''reason'' = JStr ''not_authorized'' then Some NotAuthorized
      else if jget v ''reason'' = JStr ''bad_envelope'' then Some BadEnvelope
      else None)"

section \<open>Serialize and parse\<close>

fun dest_jv :: "dest \<Rightarrow> jv" where
  "dest_jv (ToName n) = JStr n"
| "dest_jv (ToList ns) = JArr (map JStr ns)"

definition re_jv :: "string option \<Rightarrow> jv" where
  "re_jv r = (case r of None \<Rightarrow> JNull | Some s \<Rightarrow> JStr s)"

definition env_jv :: "envelope \<Rightarrow> jv" where
  "env_jv e = JObj [(''from'', JStr (e_from e)), (''to'', dest_jv (e_to e)), (''id'', JStr (e_id e)),
     (''re'', re_jv (e_re e)), (''body'', e_body e)]"

definition serialize_jv :: "jv \<Rightarrow> string" where
  "serialize_jv v = stringify v @ [NL]"

definition serialize :: "envelope \<Rightarrow> string" where
  "serialize e = serialize_jv (env_jv e)"

text \<open>The names of a \<open>to\<close> array, \<open>None\<close> when an entry is no string or is empty.\<close>

fun to_names :: "jv list \<Rightarrow> string list option" where
  "to_names [] = Some []"
| "to_names (JStr s # vs) = (if s = [] then None else map_option (Cons s) (to_names vs))"
| "to_names (_ # vs) = None"

definition parse_to :: "jv \<Rightarrow> env_error + dest" where
  "parse_to v =
     (case v of
        JStr s \<Rightarrow> if s = [] then Inl EmptyTo else Inr (ToName s)
      | JArr vs \<Rightarrow>
          if vs = [] then Inl EmptyToList
          else (case to_names vs of None \<Rightarrow> Inl BadToEntry | Some ns \<Rightarrow> Inr (ToList ns))
      | _ \<Rightarrow> Inl BadTo)"

definition parse_env_jv :: "jv \<Rightarrow> env_error + envelope" where
  "parse_env_jv o' =
     (if \<not> is_objlike o' then Inl NotObject
      else (case jget o' ''from'' of
              JStr from \<Rightarrow>
                if from = [] then Inl BadFrom
                else (case parse_to (jget o' ''to'') of
                        Inl err \<Rightarrow> Inl err
                      | Inr to \<Rightarrow>
                          (case jget o' ''id'' of
                             JStr uid \<Rightarrow>
                               if \<not> uuid_re uid then Inl BadId
                               else (case jget o' ''re'' of
                                       JNull \<Rightarrow>
                                         if has_own o' ''body''
                                         then Inr \<lparr>e_from = from, e_to = to, e_id = uid, e_re = None, e_body = jget o' ''body''\<rparr>
                                         else Inl NoBody
                                     | JStr r \<Rightarrow>
                                         if \<not> uuid_re r then Inl BadRe
                                         else if has_own o' ''body''
                                         then Inr \<lparr>e_from = from, e_to = to, e_id = uid, e_re = Some r, e_body = jget o' ''body''\<rparr>
                                         else Inl NoBody
                                     | _ \<Rightarrow> Inl BadRe)
                           | _ \<Rightarrow> Inl BadId))
            | _ \<Rightarrow> Inl BadFrom))"

definition parse :: "string \<Rightarrow> env_error + envelope" where
  "parse line = (case json_parse line of None \<Rightarrow> Inl NotJson | Some raw \<Rightarrow> parse_env_jv raw)"

text \<open>\<open>envelope(from, to, body, re)\<close>, with the generated id as an argument.\<close>

definition mk_envelope :: "string \<Rightarrow> string \<Rightarrow> dest \<Rightarrow> jv \<Rightarrow> string option \<Rightarrow> envelope" where
  "mk_envelope uid from to body re =
     \<lparr>e_from = from, e_to = to, e_id = uid, e_re = re, e_body = body\<rparr>"

section \<open>Splitting a byte stream into lines\<close>

text \<open>
  The loop over \<open>conn.buf.indexOf("\\n")\<close>: the complete, non-empty lines in order and
  the unfinished rest of the buffer.
\<close>

function take_lines :: "string \<Rightarrow> string list \<times> string" where
  "take_lines buf =
     (case index_of NL buf of
        None \<Rightarrow> ([], buf)
      | Some i \<Rightarrow>
          (let (ls, r) = take_lines (drop (Suc i) buf)
           in (if i = 0 then ls else take i buf # ls, r)))"
  by pat_completeness auto
termination
  by (relation "measure length") (auto dest: index_of_Some_length)

declare take_lines.simps [simp del]


section \<open>Lemmas: line splitting\<close>

lemma take_lines_rest [simp]: "NL \<notin> set l \<Longrightarrow> take_lines l = ([], l)"
  by (subst take_lines.simps) (simp flip: index_of_None)

lemma take_lines_line:
  assumes "NL \<notin> set l"
  shows "take_lines (l @ NL # r) = (if l = [] then fst (take_lines r) else l # fst (take_lines r), snd (take_lines r))"
  using assms by (subst take_lines.simps) (simp add: index_of_append_skip split: prod.splits)

lemma take_lines_rest_no_NL: "NL \<notin> set (snd (take_lines b))"
proof (induction b rule: take_lines.induct)
  case (1 buf)
  then show ?case
    by (subst take_lines.simps) (auto split: option.splits prod.splits)
qed

text \<open>How the bytes are cut into chunks does not matter.\<close>

lemma take_lines_append:
  "take_lines (b @ c) =
     (fst (take_lines b) @ fst (take_lines (snd (take_lines b) @ c)), snd (take_lines (snd (take_lines b) @ c)))"
proof (induction b rule: take_lines.induct)
  case (1 b)
  show ?case
  proof (cases "index_of NL b")
    case None
    then show ?thesis by simp
  next
    case (Some i)
    define l r where "l = take i b" and "r = drop (Suc i) b"
    have b: "b = l @ NL # r" and l: "NL \<notin> set l"
      using index_of_split [OF Some] by (simp_all add: l_def r_def)
    have "take_lines (r @ c) = (fst (take_lines r) @ fst (take_lines (snd (take_lines r) @ c)),
        snd (take_lines (snd (take_lines r) @ c)))"
      using "1.IH" [OF Some] by (simp add: r_def)
    then show ?thesis using take_lines_line [OF l, of "r @ c"] take_lines_line [OF l, of r]
      unfolding b by simp
  qed
qed

section \<open>Lemmas: well-formed envelopes\<close>

fun wf_dest :: "dest \<Rightarrow> bool" where
  "wf_dest (ToName n) = (n \<noteq> [])"
| "wf_dest (ToList ns) = (ns \<noteq> [] \<and> [] \<notin> set ns)"

definition wf_env :: "envelope \<Rightarrow> bool" where
  "wf_env e \<longleftrightarrow> e_from e \<noteq> [] \<and> wf_dest (e_to e) \<and> uuid_re (e_id e) \<and>
     (\<forall>r. e_re e = Some r \<longrightarrow> uuid_re r)"

lemma to_names_map [simp]: "[] \<notin> set ns \<Longrightarrow> to_names (map JStr ns) = Some ns"
  by (induction ns) auto

lemma to_names_ne: "to_names vs = Some ns \<Longrightarrow> [] \<notin> set ns \<and> length ns = length vs"
  by (induction vs arbitrary: ns rule: to_names.induct) (auto split: if_splits)

lemma parse_to_dest [simp]: "wf_dest d \<Longrightarrow> parse_to (dest_jv d) = Inr d"
  by (cases d) (auto simp: parse_to_def)

lemma parse_to_wf: "parse_to v = Inr d \<Longrightarrow> wf_dest d"
  by (cases d) (auto simp: parse_to_def dest: to_names_ne split: jv.splits if_splits option.splits)

lemma parse_env_jv_wf: "parse_env_jv v = Inr e \<Longrightarrow> wf_env e"
  by (auto simp: parse_env_jv_def wf_env_def dest: parse_to_wf
      split: if_splits jv.splits sum.splits)

lemma parse_wf: "parse line = Inr e \<Longrightarrow> wf_env e"
  by (auto simp: parse_def dest: parse_env_jv_wf split: option.splits)

lemma parse_env_jv_env:
  assumes "wf_env e"
  shows "parse_env_jv (env_jv e) = Inr e"
  using assms
  by (cases "e_re e") (auto simp: parse_env_jv_def env_jv_def wf_env_def re_jv_def mhas_def)

lemma dest_jv_wf [simp]: "wf_json (dest_jv d)"
  by (cases d) (auto simp: list_all_iff)

lemma env_jv_wf: "wf_json (e_body e) \<Longrightarrow> wf_json (env_jv e)"
  by (auto simp: env_jv_def re_jv_def split: option.splits)

lemma json_parse_line: "wf_json v \<Longrightarrow> json_parse (serialize_jv v) = Some v"
  unfolding serialize_jv_def by (rule json_round_trip) (simp_all add: is_ws_def NL_def)

lemma parse_serialize: "wf_env e \<Longrightarrow> wf_json (e_body e) \<Longrightarrow> parse (serialize e) = Inr e"
  by (simp add: parse_def serialize_def json_parse_line env_jv_wf parse_env_jv_env)

lemma serialize_line:
  assumes "wf_json v"
  shows "take_lines (serialize_jv v @ r) = (stringify v # fst (take_lines r), snd (take_lines r))"
proof -
  have "stringify v \<noteq> []" using stringify_start [OF assms] by (metis list.distinct(1))
  then show ?thesis
    using take_lines_line [OF stringify_no_NL(1) [OF assms], of r] by (simp add: serialize_jv_def)
qed

text \<open>A stream of serialized values is cut back into exactly those values.\<close>

lemma take_lines_stream:
  "list_all wf_json vs \<Longrightarrow> take_lines (concat (map serialize_jv vs)) = (map stringify vs, [])"
  by (induction vs) (simp_all add: serialize_line)


lemma parse_body_wf: "parse line = Inr e \<Longrightarrow> wf_json (e_body e)"
proof -
  assume a: "parse line = Inr e"
  then obtain raw where r: "json_parse line = Some raw" "parse_env_jv raw = Inr e"
    by (auto simp: parse_def split: option.splits)
  have w: "wf_json raw" using r(1) by (rule json_parse_wf)
  from r(2) have h: "has_own raw ''body''" "e_body e = jget raw ''body''"
    by (auto simp: parse_env_jv_def split: if_splits jv.splits sum.splits)
  obtain kvs x where k: "raw = JObj kvs" "mget kvs ''body'' = Some x"
    using h(1) by (cases raw) (auto simp: mhas_def)
  then have "(''body'', x) \<in> set kvs" by (simp add: map_of_SomeD)
  then show ?thesis using w h(2) k by (auto simp: list_all_iff)
qed

section \<open>Lemmas: UUIDs\<close>

lemma is_hex_hexdig: "n < 16 \<Longrightarrow> is_hex (hexdig n)"
  by (simp add: is_hex_def hexval_def hexdig_def is_digit_def)

lemma unat_byte_less: "unat (b :: byte) < 256"
  using unsigned_less [of b] by simp

lemma hex_bytes_hex: "list_all is_hex (hex_bytes bs)"
proof (induction bs)
  case (Cons b bs)
  have "unat b div 16 < 16" using unat_byte_less [of b] by simp
  then show ?case using Cons by (simp add: hex_bytes_def hex2_def is_hex_hexdig)
qed (simp add: hex_bytes_def)

lemma length_hex_bytes [simp]: "length (hex_bytes bs) = 2 * length bs"
  by (induction bs) (simp_all add: hex_bytes_def hex2_def)

lemma uuid_re_join:
  assumes "list_all is_hex a" "length a = 8" "list_all is_hex b" "length b = 4"
    "list_all is_hex c" "length c = 4" "list_all is_hex d" "length d = 4"
    "list_all is_hex e" "length e = 12"
  shows "uuid_re (a @ ''-'' @ b @ ''-'' @ c @ ''-'' @ d @ ''-'' @ e)"
  using assms by (simp add: uuid_re_def nth_append)

lemma list_all_slice: "list_all P xs \<Longrightarrow> list_all P (slice i j xs)"
  by (auto simp: slice_def list_all_iff dest: in_set_dropD in_set_takeD)

lemma list_all_drop: "list_all P xs \<Longrightarrow> list_all P (drop i xs)"
  by (auto simp: list_all_iff dest: in_set_dropD)

lemma uuidv7_uuid:
  assumes "length rand = 10"
  shows "uuid_re (uuidv7 ts rand)"
  unfolding uuidv7_def Let_def
  by (rule uuid_re_join; (intro list_all_slice list_all_drop hex_bytes_hex)?)
    (simp_all add: slice_def assms)

text \<open>The first twelve hex digits are those of the time stamp, most significant first.\<close>

fun hexdigs :: "nat \<Rightarrow> nat \<Rightarrow> nat list" where
  "hexdigs 0 t = []"
| "hexdigs (Suc n) t = (t div 16 ^ n) mod 16 # hexdigs n t"

lemma hexdigs_mod: "n \<le> m \<Longrightarrow> hexdigs n (t mod 16 ^ m) = hexdigs n t"
proof (induction n)
  case (Suc n)
  then obtain k where m: "m = n + Suc k" by (metis Suc_le_D add_Suc_right less_iff_Suc_add less_eq_Suc_le)
  have "(t mod 16 ^ m) div 16 ^ n = t div 16 ^ n mod 16 ^ Suc k"
    unfolding m power_add by (subst mod_mult2_eq) simp
  moreover have "(16::nat) dvd 16 ^ Suc k" by simp
  ultimately have "(t mod 16 ^ m) div 16 ^ n mod 16 = t div 16 ^ n mod 16"
    by (simp only: mod_mod_cancel)
  then show ?case using Suc by simp
qed simp

lemma hexdigs_less: "t < t' \<Longrightarrow> t' < 16 ^ n \<Longrightarrow> hexdigs n t < hexdigs n t'"
proof (induction n arbitrary: t t')
  case (Suc n)
  define q q' where "q = t div 16 ^ n" and "q' = t' div 16 ^ n"
  have b: "q' < 16" "q \<le> q'"
    using Suc.prems by (simp_all add: q_def q'_def less_mult_imp_div_less div_le_mono mult.commute)
  show ?case
  proof (cases "q = q'")
    case True
    have "t mod 16 ^ n < t' mod 16 ^ n"
      using Suc.prems(1) True unfolding q_def q'_def
      by (metis add_less_cancel_left div_mult_mod_eq)
    then have "hexdigs n (t mod 16 ^ n) < hexdigs n (t' mod 16 ^ n)"
      by (rule Suc.IH) simp
    then show ?thesis using True by (simp add: hexdigs_mod q_def q'_def)
  next
    case False
    then show ?thesis using b by (simp add: q_def [symmetric] q'_def [symmetric])
  qed
qed simp


lemma hexdig_code: "n < 16 \<Longrightarrow> code (hexdig n) = (if n < 10 then 48 + n else 87 + n)"
  by (simp add: hexdig_def)

lemma u16_key_append: "u16_key (s @ t) = u16_key s @ u16_key t"
  by (simp add: u16_key_def)

lemma u16_key_hex_less:
  "xs < ys \<Longrightarrow> length xs = length ys \<Longrightarrow> list_all (\<lambda>n. n < 16) xs \<Longrightarrow> list_all (\<lambda>n. n < 16) ys \<Longrightarrow>
     u16_key (map hexdig xs) < u16_key (map hexdig ys)"
proof (induction xs ys rule: list_induct2')
  case (4 x xs y ys)
  have k: "u16_byte (hexdig n) = (if n < 10 then 48 + n else 87 + n)" if "n < 16" for n
    using that by (simp add: u16_byte_def hexdig_code)
  have "x < y \<Longrightarrow> u16_byte (hexdig x) < u16_byte (hexdig y)"
    using "4.prems" by (simp add: k)
  then show ?case using 4 by (auto simp: u16_key_def)
qed simp_all

lemma less_append: "(xs :: nat list) < ys \<Longrightarrow> length xs = length ys \<Longrightarrow> xs @ us < ys @ vs"
  by (induction xs ys rule: list_induct2') auto

lemma less_insert_at:
  "(xs :: nat list) < ys \<Longrightarrow> length xs = length ys \<Longrightarrow> take k xs @ d # drop k xs < take k ys @ d # drop k ys"
proof (induction k arbitrary: xs ys)
  case (Suc k)
  then show ?case by (cases xs; cases ys) auto
qed simp

lemma length_hexdigs [simp]: "length (hexdigs n t) = n"
  by (induction n) auto

lemma hexdigs_small: "list_all (\<lambda>d. d < 16) (hexdigs n t)"
  by (induction n) auto

lemma hex2_word: "hex2 (word_of_nat x) = [hexdig (x div 16 mod 16), hexdig (x mod 16)]"
proof -
  have "x mod 256 div 16 = x div 16 mod 16"
    using mod_mult2_eq [of x 16 16] by simp
  moreover have "x mod 256 mod 16 = x mod 16" by (rule mod_mod_cancel) simp
  ultimately show ?thesis by (simp add: hex2_def unsigned_of_nat take_bit_eq_mod)
qed

lemma hexdigs_2: "hexdigs 2 t = [t div 16 mod 16, t mod 16]"
  by (simp add: numeral_2_eq_2)

lemma hexdigs_12:
  "hexdigs 12 t = [t div 2 ^ 40 div 16 mod 16, t div 2 ^ 40 mod 16, t div 2 ^ 32 div 16 mod 16, t div 2 ^ 32 mod 16,
     t div 2 ^ 24 div 16 mod 16, t div 2 ^ 24 mod 16, t div 2 ^ 16 div 16 mod 16, t div 2 ^ 16 mod 16,
     t div 2 ^ 8 div 16 mod 16, t div 2 ^ 8 mod 16, t div 16 mod 16, t mod 16]"
  using hexdigs.simps(2) [of 11 t] hexdigs.simps(2) [of 10 t] hexdigs.simps(2) [of 9 t]
    hexdigs.simps(2) [of 8 t] hexdigs.simps(2) [of 7 t] hexdigs.simps(2) [of 6 t]
    hexdigs.simps(2) [of 5 t] hexdigs.simps(2) [of 4 t] hexdigs.simps(2) [of 3 t]
    hexdigs.simps(2) [of 2 t] hexdigs_2 [of t]
  by (simp flip: div_mult2_eq)

lemma uuidv7_prefix:
  assumes "length rand = 10"
  obtains r where "uuidv7 ts rand =
     take 8 (map hexdig (hexdigs 12 ts)) @ CHR ''-'' # drop 8 (map hexdig (hexdigs 12 ts)) @ r"
proof -
  define six where "six = [word_of_nat (ts div 2 ^ 40), word_of_nat (ts div 2 ^ 32), word_of_nat (ts div 2 ^ 24),
      word_of_nat (ts div 2 ^ 16), word_of_nat (ts div 2 ^ 8), word_of_nat ts :: byte]"
  have h: "hex_bytes six = map hexdig (hexdigs 12 ts)"
    unfolding six_def hexdigs_12 hex_bytes_def by (simp only: list.map concat.simps hex2_word append.simps)
  have l: "length six = 6" by (simp add: six_def)
  define tl10 where "tl10 = rand[0 := rand ! 0 AND 15 OR 112, 2 := rand ! 2 AND 63 OR 128]"
  have "(six @ rand)[6 := (six @ rand) ! 6 AND 15 OR 112] = six @ rand[0 := rand ! 0 AND 15 OR 112]"
    using l by (simp add: list_update_append nth_append)
  then have "(six @ rand)[6 := (six @ rand) ! 6 AND 15 OR 112,
        8 := (six @ rand)[6 := (six @ rand) ! 6 AND 15 OR 112] ! 8 AND 63 OR 128] = six @ tl10"
    using l assms by (simp add: list_update_append nth_append tl10_def)
  then have "uuidv7 ts rand = (let hex = hex_bytes (six @ tl10) in
      slice 0 8 hex @ ''-'' @ slice 8 12 hex @ ''-'' @ slice 12 16 hex @ ''-'' @ slice 16 20 hex @ ''-'' @ drop 20 hex)"
    unfolding uuidv7_def Let_def six_def [symmetric] by simp
  moreover have "slice 0 8 (hex_bytes (six @ tl10)) = take 8 (map hexdig (hexdigs 12 ts))"
      "slice 8 12 (hex_bytes (six @ tl10)) = drop 8 (map hexdig (hexdigs 12 ts))"
    using h by (simp_all add: slice_def hex_bytes_def)
  ultimately show ?thesis using that by (simp add: Let_def)
qed

text \<open>Ids made in different milliseconds sort by their time.\<close>

lemma uuidv7_order:
  assumes "ts < ts'" and "ts' < 2 ^ 48" and r: "length rand = 10" "length rand' = 10"
  shows "js_less (uuidv7 ts rand) (uuidv7 ts' rand')"
proof -
  have "(2::nat) ^ 48 = 16 ^ 12" by simp
  then have "hexdigs 12 ts < hexdigs 12 ts'" using assms(1,2) hexdigs_less [of ts ts' 12] by simp
  then have "u16_key (map hexdig (hexdigs 12 ts)) < u16_key (map hexdig (hexdigs 12 ts'))"
    by (rule u16_key_hex_less) (simp_all add: hexdigs_small)
  from less_insert_at [OF this, of 8 "u16_byte (CHR ''-'')"]
  have p: "u16_key (take 8 (map hexdig (hexdigs 12 ts)) @ CHR ''-'' # drop 8 (map hexdig (hexdigs 12 ts)))
      < u16_key (take 8 (map hexdig (hexdigs 12 ts')) @ CHR ''-'' # drop 8 (map hexdig (hexdigs 12 ts')))"
    by (simp add: u16_key_def take_map drop_map)
  obtain a b where "uuidv7 ts rand = (take 8 (map hexdig (hexdigs 12 ts)) @ CHR ''-'' # drop 8 (map hexdig (hexdigs 12 ts))) @ a"
      "uuidv7 ts' rand' = (take 8 (map hexdig (hexdigs 12 ts')) @ CHR ''-'' # drop 8 (map hexdig (hexdigs 12 ts'))) @ b"
    using uuidv7_prefix [OF r(1), of ts] uuidv7_prefix [OF r(2), of ts'] by (metis append.assoc append_Cons)
  then show ?thesis
    unfolding js_less_def using less_append [OF p]
    by (simp only: u16_key_append) (simp add: u16_key_def)
qed

end
