(* ===== verification/Names.thy ===== *)
theory Names
  imports Envelope
begin

text \<open>
  Names, addresses and their limits: \<^verbatim>\<open>sanitizeSegment\<close> and
  \<^verbatim>\<open>migrateAgentName\<close> of extension/src/session/local_config.ts,
  \<^verbatim>\<open>composeAddress\<close>, \<^verbatim>\<open>sanitizeMeshName\<close> and the cwd checks of
  session/broker.ts, the wire limits of session/peer_limits.ts and
  \<^verbatim>\<open>parseAddress\<close> of session/broker_remote.ts.

  Operations that look at characters work on \<open>chars\<close>, the UTF-8 groups of the string, so
  that JavaScript's non-ASCII white space is seen.
\<close>

section \<open>Characters of a string\<close>

function chars :: "string \<Rightarrow> string list" where
  "chars [] = []"
| "chars (c # cs) =
     (if code c < 128 then [c] # chars cs
      else (c # takeWhile utf8_cont cs) # chars (dropWhile utf8_cont cs))"
  by pat_completeness auto
termination
  by (relation "measure length") (auto simp: le_imp_less_Suc length_dropWhile_le)

text \<open>The white space of \<open>\\s\<close> and \<open>trim()\<close>, as UTF-8 groups.\<close>

definition js_spaces :: "string list" where
  "js_spaces =
     map utf8_enc [9, 10, 11, 12, 13, 32, 160, 5760, 8192, 8193, 8194, 8195, 8196, 8197, 8198,
       8199, 8200, 8201, 8202, 8232, 8233, 8239, 8287, 12288, 65279]"

definition js_space :: "string \<Rightarrow> bool" where
  "js_space g \<longleftrightarrow> g \<in> set js_spaces"

definition trim_end :: "('a \<Rightarrow> bool) \<Rightarrow> 'a list \<Rightarrow> 'a list" where
  "trim_end p xs = rev (dropWhile p (rev xs))"

definition strip :: "('a \<Rightarrow> bool) \<Rightarrow> 'a list \<Rightarrow> 'a list" where
  "strip p xs = trim_end p (dropWhile p xs)"

text \<open>\<open>trim()\<close>.\<close>

definition trimmed :: "string \<Rightarrow> string" where
  "trimmed s = concat (strip js_space (chars s))"

text \<open>\<open>replace(/p+/g, "-")\<close>: every maximal run becomes one dash.\<close>

function squash :: "(string \<Rightarrow> bool) \<Rightarrow> string list \<Rightarrow> string list" where
  "squash p [] = []"
| "squash p (g # gs) = (if p g then ''-'' # squash p (dropWhile p gs) else g # squash p gs)"
  by pat_completeness auto
termination
  by (relation "measure (\<lambda>(p, gs). length gs)") (auto simp: le_imp_less_Suc length_dropWhile_le)

definition is_sep :: "string \<Rightarrow> bool" where
  "is_sep g \<longleftrightarrow> g = ''/'' \<or> g = '':'' \<or> g = ''@'' \<or> g = ''#'' \<or> js_space g"

text \<open>
  \<open>toLowerCase\<close> on what can become a letter of the reserved words: the ASCII capitals and
  the Kelvin sign (U+212A), whose lower case is the letter k.
\<close>

definition lower_group :: "string \<Rightarrow> string" where
  "lower_group g =
     (if g = utf8_enc 8490 then ''k''
      else map (\<lambda>c. if 65 \<le> code c \<and> code c \<le> 90 then char_of (code c + 32) else c) g)"

definition lower :: "string \<Rightarrow> string" where
  "lower s = concat (map lower_group (chars s))"

section \<open>sanitizeSegment, migrateAgentName\<close>

definition sanitize_segment :: "string \<Rightarrow> string option" where
  "sanitize_segment v =
     (let token = concat (strip (\<lambda>g. g = ''-'')
                    (squash (\<lambda>g. g = ''-'') (squash is_sep (strip js_space (chars v)))))
      in if token = [] then None
         else if lower token = ''broadcast'' \<or> lower token = ''broker'' then None
         else Some token)"

text \<open>\<open>typeof v !== "string"\<close> gives \<open>undefined\<close>.\<close>

definition sanitizeSegment :: "jv \<Rightarrow> string option" where
  "sanitizeSegment v = (case v of JStr s \<Rightarrow> sanitize_segment s | _ \<Rightarrow> None)"

text \<open>
  The trailing \<open>#<digits>\<close> of a string: \<open>(base, Some suffix)\<close> when it has one,
  \<open>(s, None)\<close> otherwise.
\<close>

definition hash_suffix :: "string \<Rightarrow> string \<times> string option" where
  "hash_suffix s =
     (let ds = takeWhile is_digit (rev s); r = dropWhile is_digit (rev s)
      in case r of
           c # b \<Rightarrow> if ds \<noteq> [] \<and> c = CHR ''#'' then (rev b, Some (CHR ''#'' # rev ds)) else (s, None)
         | [] \<Rightarrow> (s, None))"

fun after_last :: "char \<Rightarrow> string \<Rightarrow> string" where
  "after_last c [] = []"
| "after_last c (x # xs) = (if c \<in> set xs then after_last c xs else if x = c then xs else x # xs)"

definition migrate_agent_name :: "string \<Rightarrow> string option" where
  "migrate_agent_name raw =
     (let leaf = after_last (CHR ''/'') raw;
          clean = concat (strip js_space (chars (fst (hash_suffix leaf))))
      in if clean \<noteq> [] then Some clean else None)"

section \<open>Mesh names and addresses\<close>

text \<open>Characters the regular expression's dot does not match.\<close>

definition line_terminator :: "string \<Rightarrow> bool" where
  "line_terminator g \<longleftrightarrow> g \<in> set (map utf8_enc [10, 13, 8232, 8233])"

definition sanitize_mesh_name :: "string \<Rightarrow> string" where
  "sanitize_mesh_name raw =
     (let m = (if list_ex line_terminator (chars raw) then (raw, None) else hash_suffix raw);
          base = (case sanitize_segment (fst m) of Some t \<Rightarrow> t | None \<Rightarrow> ''agent'')
      in case snd m of Some sfx \<Rightarrow> base @ sfx | None \<Rightarrow> base)"

text \<open>\<open>replace(/#\\d+$/, "")\<close>.\<close>

definition strip_hash :: "string \<Rightarrow> string" where
  "strip_hash s = fst (hash_suffix s)"

definition compose_address :: "string option \<Rightarrow> string \<Rightarrow> string \<Rightarrow> string" where
  "compose_address pc cwd name =
     (let base = (if cwd \<noteq> [] then cwd @ ''@'' @ name else name)
      in case pc of Some p \<Rightarrow> if p \<noteq> [] then p @ '':'' @ base else base | None \<Rightarrow> base)"

definition parse_address :: "string \<Rightarrow> (string \<times> string) option" where
  "parse_address to =
     (case index_of (CHR '':'') to of
        None \<Rightarrow> None
      | Some i \<Rightarrow> if i = 0 \<or> i = length to - 1 then None else Some (take i to, drop (Suc i) to))"

section \<open>Limits\<close>

definition MAX_PEERS_UPDATE_ENTRIES :: nat where "MAX_PEERS_UPDATE_ENTRIES = 1024"
definition MAX_CWD_LENGTH :: nat where "MAX_CWD_LENGTH = 4096"
definition MAX_NAME_LENGTH :: nat where "MAX_NAME_LENGTH = 256"
definition MAX_ADDRESS_LENGTH :: nat where "MAX_ADDRESS_LENGTH = 4352"

record peer_info =
  pi_pc :: "string option"
  pi_cwd :: string
  pi_name :: string
  pi_address :: string

definition peer_info_jv :: "peer_info \<Rightarrow> jv" where
  "peer_info_jv p =
     JObj ((case pi_pc p of Some pc \<Rightarrow> [(''pc'', JStr pc)] | None \<Rightarrow> []) @
       [(''cwd'', JStr (pi_cwd p)), (''name'', JStr (pi_name p)), (''address'', JStr (pi_address p))])"

fun str_at_most :: "nat \<Rightarrow> jv \<Rightarrow> bool" where
  "str_at_most n (JStr s) = (jslen s \<le> n)"
| "str_at_most n _ = False"

definition isBoundedPeerInfo :: "jv \<Rightarrow> bool" where
  "isBoundedPeerInfo v =
     (is_objlike v \<and> str_at_most MAX_CWD_LENGTH (jget v ''cwd'') \<and>
      str_at_most MAX_NAME_LENGTH (jget v ''name'') \<and> str_at_most MAX_ADDRESS_LENGTH (jget v ''address''))"

definition isBoundedPeerRoster :: "jv list \<Rightarrow> bool" where
  "isBoundedPeerRoster infos =
     (length infos \<le> MAX_PEERS_UPDATE_ENTRIES \<and> list_all isBoundedPeerInfo infos)"

definition isBoundedPeerAddresses :: "jv list \<Rightarrow> bool" where
  "isBoundedPeerAddresses addresses =
     (length addresses \<le> MAX_PEERS_UPDATE_ENTRIES \<and> list_all (str_at_most MAX_ADDRESS_LENGTH) addresses)"

section \<open>Registered working directories\<close>

definition is_letter :: "char \<Rightarrow> bool" where
  "is_letter c \<longleftrightarrow> (65 \<le> code c \<and> code c \<le> 90) \<or> (97 \<le> code c \<and> code c \<le> 122)"

definition is_slash :: "char \<Rightarrow> bool" where
  "is_slash c \<longleftrightarrow> c = CHR ''/'' \<or> c = BSL"

fun isWindowsDriveAbsolutePath :: "string \<Rightarrow> bool" where
  "isWindowsDriveAbsolutePath (a # b # c # _) = (is_letter a \<and> b = CHR '':'' \<and> is_slash c)"
| "isWindowsDriveAbsolutePath _ = False"

text \<open>\<open>posix.isAbsolute\<close>, and \<open>win32.isAbsolute\<close> together with the test for a UNC prefix.\<close>

definition posix_absolute :: "string \<Rightarrow> bool" where
  "posix_absolute v = hd_is (CHR ''/'') v"

fun unc_absolute :: "string \<Rightarrow> bool" where
  "unc_absolute (a # b # _) = (is_slash a \<and> is_slash b)"
| "unc_absolute _ = False"

definition isValidRegisteredCwd :: "string \<Rightarrow> bool" where
  "isValidRegisteredCwd v =
     (if v = [] then True
      else if MAX_CWD_LENGTH < jslen v \<or> list_ex (\<lambda>c. code c \<in> {0, 13, 10}) v then False
      else posix_absolute v \<or> isWindowsDriveAbsolutePath v \<or> unc_absolute v)"


section \<open>Lemmas: what a sanitized name looks like\<close>

lemma chars_ascii: "g \<in> set (chars s) \<Longrightarrow> c \<in> set g \<Longrightarrow> code c < 128 \<Longrightarrow> g = [c]"
proof (induction s rule: chars.induct)
  case (2 d cs)
  show ?case
  proof (cases "code d < 128")
    case False
    have "d \<noteq> c" using False "2.prems"(3) by auto
    moreover have "c \<notin> set (takeWhile utf8_cont cs)"
      using "2.prems"(3) by (auto dest: set_takeWhileD simp: utf8_cont_def)
    ultimately show ?thesis using 2 False by auto
  qed (use 2 in auto)
qed simp

lemma set_strip: "x \<in> set (strip p xs) \<Longrightarrow> x \<in> set xs"
  by (auto simp: strip_def trim_end_def dest!: set_dropWhileD)

lemma set_squash: "x \<in> set (squash p xs) \<Longrightarrow> x = ''-'' \<or> (x \<in> set xs \<and> \<not> p x)"
  by (induction p xs rule: squash.induct) (auto split: if_splits dest: set_dropWhileD)

definition clean_seg :: "string \<Rightarrow> bool" where
  "clean_seg t \<longleftrightarrow> t \<noteq> [] \<and> set t \<inter> {CHR ''/'', CHR '':'', CHR ''@'', CHR ''#''} = {} \<and>
     lower t \<noteq> ''broadcast'' \<and> lower t \<noteq> ''broker''"

lemma sanitize_segment_clean:
  assumes "sanitize_segment v = Some t"
  shows "clean_seg t"
proof -
  define gs where "gs = strip (\<lambda>g. g = ''-'') (squash (\<lambda>g. g = ''-'') (squash is_sep (strip js_space (chars v))))"
  have t: "t = concat gs" "t \<noteq> []" "lower t \<noteq> ''broadcast''" "lower t \<noteq> ''broker''"
    using assms by (auto simp: sanitize_segment_def Let_def gs_def split: if_splits)
  have g: "g = ''-'' \<or> (g \<in> set (chars v) \<and> \<not> is_sep g)" if "g \<in> set gs" for g
    using that unfolding gs_def by (auto dest!: set_strip set_squash)
  have "c \<notin> {CHR ''/'', CHR '':'', CHR ''@'', CHR ''#''}" if "c \<in> set t" for c
  proof
    assume c: "c \<in> {CHR ''/'', CHR '':'', CHR ''@'', CHR ''#''}"
    have "c \<in> set (concat gs)" using that t(1) by simp
    then obtain h where h: "h \<in> set gs" "c \<in> set h" unfolding set_concat by blast
    have "h \<noteq> ''-''" using c h(2) by auto
    with g [OF h(1)] have "h \<in> set (chars v)" "\<not> is_sep h" by auto
    moreover have "code c < 128" using c by auto
    ultimately have "h = [c]" using chars_ascii h(2) by blast
    with c \<open>\<not> is_sep h\<close> show False by (auto simp: is_sep_def)
  qed
  then show ?thesis using t by (auto simp: clean_seg_def)
qed

lemma agent_clean: "clean_seg ''agent''"
  by (simp add: clean_seg_def lower_def lower_group_def utf8_enc_def)

lemma hash_suffix_split: "hash_suffix s = (b, Some h) \<Longrightarrow>
    s = b @ h \<and> (\<exists>ds. h = CHR ''#'' # ds \<and> ds \<noteq> [] \<and> list_all is_digit ds)"
proof -
  assume a: "hash_suffix s = (b, Some h)"
  define ds r where "ds = takeWhile is_digit (rev s)" and "r = dropWhile is_digit (rev s)"
  obtain q where q: "r = CHR ''#'' # q" "ds \<noteq> []" "b = rev q" "h = CHR ''#'' # rev ds"
    using a by (auto simp: hash_suffix_def Let_def ds_def r_def split: list.splits if_splits)
  have "rev s = ds @ r" by (simp add: ds_def r_def)
  then have "s = rev r @ rev ds" by (metis rev_append rev_rev_ident)
  moreover have "list_all is_digit (rev ds)"
    by (auto simp: ds_def list_all_iff dest: set_takeWhileD)
  ultimately show ?thesis using q by simp
qed

lemma hash_suffix_None: "hash_suffix s = (b, None) \<Longrightarrow> b = s"
  by (auto simp: hash_suffix_def Let_def split: list.splits if_splits)

lemma hash_suffix_append:
  assumes "list_all is_digit ds" and "ds \<noteq> []"
  shows "hash_suffix (b @ CHR ''#'' # ds) = (b, Some (CHR ''#'' # ds))"
proof -
  have "\<not> is_digit (CHR ''#'')" by (simp add: is_digit_def)
  then have "takeWhile is_digit (es @ CHR ''#'' # q) = es \<and> dropWhile is_digit (es @ CHR ''#'' # q) = CHR ''#'' # q"
    if "list_all is_digit es" for es q
    using that by (induction es) auto
  from this [of "rev ds" "rev b"]
  have "takeWhile is_digit (rev ds @ CHR ''#'' # rev b) = rev ds \<and>
      dropWhile is_digit (rev ds @ CHR ''#'' # rev b) = CHR ''#'' # rev b"
    using assms(1) by (simp add: list_all_iff)
  then show ?thesis using assms(2) by (simp add: hash_suffix_def)
qed

lemma hash_suffix_no_hash: "CHR ''#'' \<notin> set s \<Longrightarrow> hash_suffix s = (s, None)"
  using hash_suffix_split [of s] by (cases "hash_suffix s"; cases "snd (hash_suffix s)")
    (auto dest: hash_suffix_None)

text \<open>A mesh name: a clean segment, possibly with a \<open>#N\<close> suffix.\<close>

definition mesh_name :: "string \<Rightarrow> bool" where
  "mesh_name n \<longleftrightarrow> clean_seg n \<or>
     (\<exists>b ds. clean_seg b \<and> ds \<noteq> [] \<and> list_all is_digit ds \<and> n = b @ CHR ''#'' # ds)"

lemma sanitize_mesh_name_ok: "mesh_name (sanitize_mesh_name raw)"
proof -
  define m where "m = (if list_ex line_terminator (chars raw) then (raw, None) else hash_suffix raw)"
  define base where "base = (case sanitize_segment (fst m) of Some t \<Rightarrow> t | None \<Rightarrow> ''agent'')"
  have b: "clean_seg base"
    by (auto simp: base_def agent_clean dest: sanitize_segment_clean split: option.splits)
  show ?thesis
  proof (cases "snd m")
    case None
    then show ?thesis using b unfolding sanitize_mesh_name_def Let_def m_def [symmetric] base_def [symmetric]
      by (simp add: mesh_name_def)
  next
    case (Some h)
    then have "hash_suffix raw = (fst m, Some h)" by (auto simp: m_def split: if_splits) (metis prod.collapse)
    then obtain ds where "h = CHR ''#'' # ds" "ds \<noteq> []" "list_all is_digit ds"
      using hash_suffix_split by blast
    then show ?thesis using b Some
      unfolding sanitize_mesh_name_def Let_def m_def [symmetric] base_def [symmetric]
      by (auto simp: mesh_name_def)
  qed
qed

lemma strip_hash_clean: "mesh_name n \<Longrightarrow> clean_seg (strip_hash n)"
  by (auto simp: mesh_name_def strip_hash_def clean_seg_def hash_suffix_append hash_suffix_no_hash)

lemma mesh_name_numbered: "clean_seg b \<Longrightarrow> mesh_name (b @ CHR ''#'' # show_nat n)"
  using show_nat_digits [of n] by (auto simp: mesh_name_def)

lemma mesh_name_chars:
  assumes "mesh_name n"
  shows "n \<noteq> []" "CHR ''/'' \<notin> set n" "CHR '':'' \<notin> set n" "CHR ''@'' \<notin> set n" "n \<noteq> ''broker''" "n \<noteq> ''broadcast''"
proof -
  have d: "is_digit c \<Longrightarrow> c \<notin> {CHR ''/'', CHR '':'', CHR ''@''}" for c
    by (auto simp: is_digit_def)
  have l: "lower ''broker'' = ''broker''" "lower ''broadcast'' = ''broadcast''"
    by (simp_all add: lower_def lower_group_def utf8_enc_def)
  have h: "CHR ''#'' \<notin> set ''broker''" "CHR ''#'' \<notin> set ''broadcast''" by simp_all
  show "n \<noteq> []" "CHR ''/'' \<notin> set n" "CHR '':'' \<notin> set n" "CHR ''@'' \<notin> set n"
    using assms d unfolding mesh_name_def clean_seg_def list_all_iff by fastforce+
  show "n \<noteq> ''broker''" "n \<noteq> ''broadcast''"
    using assms l h unfolding mesh_name_def clean_seg_def by (metis in_set_conv_decomp)+
qed

section \<open>Lemmas: addresses\<close>

lemma split_last_eq:
  assumes "x \<notin> set n" and "x \<notin> set n'" and "c @ x # n = c' @ x # n'"
  shows "c = c' \<and> n = n'"
proof -
  have tw: "takeWhile (\<lambda>y. y \<noteq> x) (rev (d @ x # m)) = rev m" if "x \<notin> set m" for d m
  proof -
    have "takeWhile (\<lambda>y. y \<noteq> x) (r @ x # q) = r" if "x \<notin> set r" for r q
      using that by (induction r) auto
    then show ?thesis using that by simp
  qed
  have "rev n = rev n'" using tw [OF assms(1), of c] tw [OF assms(2), of c'] assms(3) by simp
  then show ?thesis using assms(3) by simp
qed

lemma compose_address_inj:
  assumes "CHR ''@'' \<notin> set n" and "CHR ''@'' \<notin> set n'"
    and "compose_address None c n = compose_address None c' n'"
  shows "c = c' \<and> n = n'"
  using assms split_last_eq [OF assms(1,2), of c c']
  by (auto simp: compose_address_def split: if_splits)

lemma parse_address_split: "parse_address to = Some (l, r) \<longleftrightarrow>
    to = l @ '':'' @ r \<and> l \<noteq> [] \<and> r \<noteq> [] \<and> CHR '':'' \<notin> set l"
proof
  assume a: "parse_address to = Some (l, r)"
  then obtain i where i: "index_of (CHR '':'') to = Some i" "i \<noteq> 0" "i \<noteq> length to - 1"
      "l = take i to" "r = drop (Suc i) to"
    by (auto simp: parse_address_def split: option.splits if_splits)
  have "i < length to" using i(1) by (rule index_of_Some_length)
  then show "to = l @ '':'' @ r \<and> l \<noteq> [] \<and> r \<noteq> [] \<and> CHR '':'' \<notin> set l"
    using index_of_split [OF i(1)] i by auto
next
  assume a: "to = l @ '':'' @ r \<and> l \<noteq> [] \<and> r \<noteq> [] \<and> CHR '':'' \<notin> set l"
  then have "index_of (CHR '':'') to = Some (length l)" by (simp add: index_of_append_skip)
  then show "parse_address to = Some (l, r)" using a by (simp add: parse_address_def)
qed

lemma parse_compose_address:
  "pc \<noteq> [] \<Longrightarrow> CHR '':'' \<notin> set pc \<Longrightarrow> n \<noteq> [] \<Longrightarrow>
     parse_address (compose_address (Some pc) cwd n) = Some (pc, compose_address None cwd n)"
  unfolding parse_address_split by (simp add: compose_address_def)

lemma peer_info_jv_bounded:
  "isBoundedPeerInfo (peer_info_jv p) \<longleftrightarrow> jslen (pi_cwd p) \<le> MAX_CWD_LENGTH \<and>
     jslen (pi_name p) \<le> MAX_NAME_LENGTH \<and> jslen (pi_address p) \<le> MAX_ADDRESS_LENGTH"
  by (cases "pi_pc p") (simp_all add: isBoundedPeerInfo_def peer_info_jv_def)

lemma peer_info_jv_wf [simp]: "wf_json (peer_info_jv p)"
  by (cases "pi_pc p") (simp_all add: peer_info_jv_def)

end
