(* ===== verification/Broker.thy ===== *)
theory Broker
  imports Names
begin

text \<open>
  The broker of the local mesh: \<^verbatim>\<open>extension/src/session/broker.ts\<close>.

  A connection is a number; \<open>br_conns\<close> holds the \<^verbatim>\<open>PeerConn\<close> objects, \<open>br_peers\<close> is
  the map from address to connection, in insertion order. The effects (socket writes, socket
  destruction, audit lines, the \<open>onRouted\<close> callback) are appended to \<open>br_log\<close>. The
  host supplies what is not determined by the code: the clock and random bytes behind
  \<open>uuidv7()\<close>, and which sockets throw on \<open>write\<close>. The cross-PC router is an interface
  (\<^verbatim>\<open>RemoteRouter\<close>): a record of functions over its own state type \<open>'r\<close>, and a number
  for the identity of the router object.

  Reading a line never touches \<open>conn.buf\<close>, so the loop of \<open>_onData\<close> is
  \<open>take_lines\<close> followed by handling each line. The awaits of \<open>_route\<close> only order the
  audit line and the callback after the writes.
\<close>

section \<open>State\<close>

record peer_conn =
  pc_name :: string
  pc_cwd :: string
  pc_address :: string
  pc_buf :: string
  pc_destroyed :: bool

datatype ack_status = Received | Denied | UnknownTarget | NoAck

datatype effect =
    Write nat string
  | Destroy nat
  | Audit envelope "string list" ack_status bool
  | Routed envelope "string list"
  | ServerClosed
  | ServerUnref

record host =
  h_ts :: "nat \<Rightarrow> nat"
  h_rand :: "nat \<Rightarrow> byte list"
  h_throws :: "nat \<Rightarrow> bool"

record 'r router_ops =
  try_outbound :: "envelope \<Rightarrow> 'r \<Rightarrow> bool \<times> 'r"
  remote_peers :: "'r \<Rightarrow> string list \<times> 'r"
  remote_infos :: "'r \<Rightarrow> peer_info list \<times> 'r"

record 'r broker =
  br_conns :: "nat \<Rightarrow> peer_conn option"
  br_peers :: "(string, nat) jsmap"
  br_orphaned :: bool
  br_audit :: bool
  br_router :: "(nat \<times> 'r) option"
  br_uuids :: nat
  br_log :: "effect list"

definition BROKER_NAME :: string where "BROKER_NAME = ''broker''"

definition new_broker :: "bool \<Rightarrow> 'r broker" where
  "new_broker audit = \<lparr>br_conns = (\<lambda>_. None), br_peers = [], br_orphaned = False, br_audit = audit,
     br_router = None, br_uuids = 0, br_log = []\<rparr>"

definition new_conn :: peer_conn where
  "new_conn = \<lparr>pc_name = [], pc_cwd = [], pc_address = [], pc_buf = [], pc_destroyed = False\<rparr>"

definition next_uuid :: "host \<Rightarrow> 'r broker \<Rightarrow> string" where
  "next_uuid h b = uuidv7 (h_ts h (br_uuids b)) (h_rand h (br_uuids b))"

definition tick :: "'r broker \<Rightarrow> 'r broker" where
  "tick b = b\<lparr>br_uuids := Suc (br_uuids b)\<rparr>"

definition emit :: "effect \<Rightarrow> 'r broker \<Rightarrow> 'r broker" where
  "emit e b = b\<lparr>br_log := br_log b @ [e]\<rparr>"

text \<open>\<open>socket.write\<close> in a \<open>try\<close>: whether it went through, and the new state.\<close>

definition try_write :: "host \<Rightarrow> nat \<Rightarrow> string \<Rightarrow> 'r broker \<Rightarrow> bool \<times> 'r broker" where
  "try_write h c line b = (if h_throws h c then (False, b) else (True, emit (Write c line) b))"

definition set_conn :: "nat \<Rightarrow> peer_conn \<Rightarrow> 'r broker \<Rightarrow> 'r broker" where
  "set_conn c p b = b\<lparr>br_conns := (br_conns b)(c \<mapsto> p)\<rparr>"

text \<open>\<open>socket.destroy()\<close>.\<close>

definition destroy_conn :: "nat \<Rightarrow> 'r broker \<Rightarrow> 'r broker" where
  "destroy_conn c b =
     emit (Destroy c) (b\<lparr>br_conns := (br_conns b)(c := map_option (\<lambda>p. p\<lparr>pc_destroyed := True\<rparr>) (br_conns b c))\<rparr>)"

section \<open>Router slot\<close>

definition setRemoteRouter :: "(nat \<times> 'r) option \<Rightarrow> 'r broker \<Rightarrow> 'r broker" where
  "setRemoteRouter r b = b\<lparr>br_router := r\<rparr>"

definition clearRemoteRouter :: "nat \<Rightarrow> 'r broker \<Rightarrow> 'r broker" where
  "clearRemoteRouter expected b =
     (case br_router b of
        Some (i, _) \<Rightarrow> if i = expected then b\<lparr>br_router := None\<rparr> else b
      | None \<Rightarrow> b)"

section \<open>Rosters\<close>

definition peerNames :: "'r broker \<Rightarrow> string list" where
  "peerNames b = mkeys (br_peers b)"

definition conn_info :: "peer_conn \<Rightarrow> peer_info" where
  "conn_info p = \<lparr>pi_pc = None, pi_cwd = pc_cwd p, pi_name = pc_name p, pi_address = pc_address p\<rparr>"

definition localPeerInfos :: "'r broker \<Rightarrow> peer_info list" where
  "localPeerInfos b = map (\<lambda>c. conn_info (the (br_conns b c))) (mvals (br_peers b))"

definition allPeerNames :: "'r router_ops \<Rightarrow> 'r broker \<Rightarrow> string list \<times> 'r broker" where
  "allPeerNames R b =
     (case br_router b of
        None \<Rightarrow> (peerNames b, b)
      | Some (i, r) \<Rightarrow> (let (ns, r') = remote_peers R r in (peerNames b @ ns, b\<lparr>br_router := Some (i, r')\<rparr>)))"

definition allPeerInfos :: "'r router_ops \<Rightarrow> 'r broker \<Rightarrow> peer_info list \<times> 'r broker" where
  "allPeerInfos R b =
     (case br_router b of
        None \<Rightarrow> (localPeerInfos b, b)
      | Some (i, r) \<Rightarrow> (let (ps, r') = remote_infos R r in (localPeerInfos b @ ps, b\<lparr>br_router := Some (i, r')\<rparr>)))"

section \<open>Bodies and acknowledgements\<close>

definition status_str :: "ack_status \<Rightarrow> string" where
  "status_str s = (case s of Received \<Rightarrow> ''received'' | Denied \<Rightarrow> ''denied''
     | UnknownTarget \<Rightarrow> ''unknown_peer'' | NoAck \<Rightarrow> ''none'')"

definition ack_body :: "ack_status \<Rightarrow> string \<Rightarrow> jv" where
  "ack_body s target = JObj [(''type'', JStr ''ack''), (''status'', JStr (status_str s)), (''target'', JStr target)]"

definition peer_event_body :: "string \<Rightarrow> string \<Rightarrow> jv" where
  "peer_event_body ty address = JObj [(''type'', JStr ty), (''name'', JStr address), (''address'', JStr address)]"

definition roster_body :: "string list \<Rightarrow> peer_info list \<Rightarrow> jv" where
  "roster_body ns ps = JObj [(''type'', JStr ''list_peers_reply''), (''peers'', JArr (map JStr ns)),
     (''peers_detailed'', JArr (map peer_info_jv ps))]"

definition name_ack :: "string \<Rightarrow> string \<Rightarrow> string \<Rightarrow> jv" where
  "name_ack ty address name =
     (if ty = ''register_ack''
      then JObj [(''type'', JStr ty), (''address_assigned'', JStr address), (''name_assigned'', JStr name)]
      else JObj [(''type'', JStr ty), (''name_assigned'', JStr name), (''address_assigned'', JStr address)])"

definition broker_env :: "string \<Rightarrow> string \<Rightarrow> string option \<Rightarrow> jv \<Rightarrow> envelope" where
  "broker_env uid to re body = \<lparr>e_from = BROKER_NAME, e_to = ToName to, e_id = uid, e_re = re, e_body = body\<rparr>"

definition sendAckToSender :: "host \<Rightarrow> envelope \<Rightarrow> ack_status \<Rightarrow> string \<Rightarrow> 'r broker \<Rightarrow> 'r broker" where
  "sendAckToSender h env status target b =
     (case mget (br_peers b) (e_from env) of
        None \<Rightarrow> b
      | Some c \<Rightarrow>
          snd (try_write h c (serialize (broker_env (next_uuid h b) (e_from env) (Some (e_id env)) (ack_body status target)))
                (tick b)))"

text \<open>One envelope per registered peer other than \<open>exclude\<close>.\<close>

definition broadcastSystem :: "host \<Rightarrow> jv \<Rightarrow> string \<Rightarrow> 'r broker \<Rightarrow> 'r broker" where
  "broadcastSystem h body exclude b =
     fold (\<lambda>(address, c) b'. if address = exclude then b'
             else snd (try_write h c (serialize (broker_env (next_uuid h b') address None body)) (tick b')))
       (br_peers b) b"

section \<open>Registration\<close>

text \<open>The candidate addresses \<open>base#2\<close> to \<open>base#999\<close>.\<close>

definition candidate_for :: "string \<Rightarrow> string \<Rightarrow> (string \<times> string) option" where
  "candidate_for cwd name =
     (let address = compose_address None cwd name
      in if isBoundedPeerInfo (peer_info_jv \<lparr>pi_pc = None, pi_cwd = cwd, pi_name = name, pi_address = address\<rparr>)
         then Some (name, address) else None)"

function search_suffix :: "(string, nat) jsmap \<Rightarrow> string \<Rightarrow> string \<Rightarrow> nat \<Rightarrow> (string \<times> string) option" where
  "search_suffix peers cwd base n =
     (if n < 1000 then
        (case candidate_for cwd (base @ ''#'' @ show_nat n) of
           None \<Rightarrow> None
         | Some (name, address) \<Rightarrow>
             if \<not> mhas peers address then Some (name, address)
             else search_suffix peers cwd base (Suc n))
      else None)"
  by pat_completeness auto
termination
  by (relation "measure (\<lambda>(_, _, _, n). 1000 - n)") auto

declare search_suffix.simps [simp del]

text \<open>The result is \<open>(name, address, replace)\<close>.\<close>

definition identityForRegister ::
    "(string, nat) jsmap \<Rightarrow> string \<Rightarrow> string \<Rightarrow> bool \<Rightarrow> (string \<times> string \<times> bool) option" where
  "identityForRegister peers cwd requested takeover =
     (let sanitized = sanitize_mesh_name requested
      in case candidate_for cwd sanitized of
           None \<Rightarrow> None
         | Some (name, address) \<Rightarrow>
             if takeover \<and> cwd \<noteq> [] \<and> mhas peers address then Some (name, address, True)
             else if MAX_PEERS_UPDATE_ENTRIES \<le> length peers then None
             else if \<not> mhas peers address then Some (name, address, False)
             else map_option (\<lambda>(n, a). (n, a, False)) (search_suffix peers cwd (strip_hash sanitized) 2))"

definition dropPeerAt :: "string \<Rightarrow> 'r broker \<Rightarrow> 'r broker" where
  "dropPeerAt address b =
     (case mget (br_peers b) address of
        None \<Rightarrow> b
      | Some c \<Rightarrow>
          destroy_conn c
            (b\<lparr>br_peers := mdel address (br_peers b),
               br_conns := (br_conns b)(c := map_option (\<lambda>p. p\<lparr>pc_address := []\<rparr>) (br_conns b c))\<rparr>))"

definition handleRegister :: "host \<Rightarrow> nat \<Rightarrow> string \<Rightarrow> 'r broker \<Rightarrow> 'r broker" where
  "handleRegister h c line b =
     (case json_parse line of
        None \<Rightarrow> destroy_conn c b
      | Some req \<Rightarrow>
          if \<not> is_objlike req \<or> jget req ''type'' \<noteq> JStr ''register'' then destroy_conn c b
          else (case jget req ''name'' of
             JStr name \<Rightarrow>
               (case (if jget req ''cwd'' = JUndef then JStr [] else jget req ''cwd'') of
                  JStr cwd \<Rightarrow>
                    if \<not> isValidRegisteredCwd cwd then destroy_conn c b
                    else (case identityForRegister (br_peers b) cwd name (jget req ''takeover'' = JBool True) of
                       None \<Rightarrow> destroy_conn c b
                     | Some (nm, address, replace) \<Rightarrow>
                         (let conn = (the (br_conns b c))\<lparr>pc_cwd := cwd, pc_name := nm, pc_address := address\<rparr>;
                              b1 = set_conn c conn b;
                              b2 = (if replace then dropPeerAt address b1 else b1);
                              b3 = b2\<lparr>br_peers := mput address c (br_peers b2)\<rparr>;
                              b4 = snd (try_write h c (serialize_jv (name_ack ''register_ack'' address nm)) b3)
                          in broadcastSystem h (peer_event_body ''peer_joined'' address) address b4))
                | _ \<Rightarrow> destroy_conn c b)
           | _ \<Rightarrow> destroy_conn c b))"

section \<open>Probes of unregistered connections\<close>

definition probe_type :: "string \<Rightarrow> string \<Rightarrow> bool" where
  "probe_type ty line =
     (case json_parse line of None \<Rightarrow> False | Some v \<Rightarrow> is_objlike v \<and> jget v ''type'' = JStr ty)"

definition tryBrokerPing :: "host \<Rightarrow> nat \<Rightarrow> string \<Rightarrow> 'r broker \<Rightarrow> bool \<times> 'r broker" where
  "tryBrokerPing h c line b =
     (if \<not> probe_type ''broker_ping'' line then (False, b)
      else (True, snd (try_write h c
              (serialize (broker_env (next_uuid h b) ''observer'' None (JObj [(''type'', JStr ''broker_pong'')])))
              (tick b))))"

definition tryObserverProbe :: "host \<Rightarrow> 'r router_ops \<Rightarrow> nat \<Rightarrow> string \<Rightarrow> 'r broker \<Rightarrow> bool \<times> 'r broker" where
  "tryObserverProbe h R c line b =
     (if \<not> probe_type ''list_peers'' line then (False, b)
      else (let uid = next_uuid h b; (ns, b1) = allPeerNames R (tick b); (ps, b2) = allPeerInfos R b1
            in (True, snd (try_write h c (serialize (broker_env uid ''observer'' None (roster_body ns ps))) b2))))"

section \<open>Closing and renaming\<close>

definition onClose :: "host \<Rightarrow> nat \<Rightarrow> 'r broker \<Rightarrow> 'r broker" where
  "onClose h c b =
     (case br_conns b c of
        None \<Rightarrow> b
      | Some p \<Rightarrow>
          if pc_address p = [] then b
          else if mget (br_peers b) (pc_address p) \<noteq> Some c then b
          else broadcastSystem h (peer_event_body ''peer_left'' (pc_address p)) (pc_address p)
                 (b\<lparr>br_peers := mdel (pc_address p) (br_peers b)\<rparr>))"

definition sendRenameAck :: "host \<Rightarrow> nat \<Rightarrow> string \<Rightarrow> string \<Rightarrow> 'r broker \<Rightarrow> 'r broker" where
  "sendRenameAck h c name address b =
     snd (try_write h c (serialize_jv (name_ack ''rename_ack'' address name)) b)"

definition handleRename :: "host \<Rightarrow> nat \<Rightarrow> peer_conn \<Rightarrow> jv \<Rightarrow> 'r broker \<Rightarrow> 'r broker" where
  "handleRename h c conn msg b =
     (case jget msg ''name'' of
        JStr name \<Rightarrow>
          if name = [] then sendRenameAck h c (pc_name conn) (pc_address conn) b
          else
            (let b1 = b\<lparr>br_peers := mdel (pc_address conn) (br_peers b)\<rparr>
             in case identityForRegister (br_peers b1) (pc_cwd conn) name False of
                  None \<Rightarrow>
                    sendRenameAck h c (pc_name conn) (pc_address conn)
                      (b1\<lparr>br_peers := mput (pc_address conn) c (br_peers b1)\<rparr>)
                | Some (nm, address, _) \<Rightarrow>
                    (let b2 = set_conn c (conn\<lparr>pc_name := nm, pc_address := address\<rparr>) b1;
                         b3 = b2\<lparr>br_peers := mput address c (br_peers b2)\<rparr>;
                         b4 = broadcastSystem h (peer_event_body ''peer_left'' (pc_address conn)) address b3;
                         b5 = broadcastSystem h (peer_event_body ''peer_joined'' address) address b4
                     in sendRenameAck h c nm address b5))
      | _ \<Rightarrow> sendRenameAck h c (pc_name conn) (pc_address conn) b)"

section \<open>Routing\<close>

definition resolveTargets :: "envelope \<Rightarrow> 'r broker \<Rightarrow> string list" where
  "resolveTargets env b =
     (case e_to env of
        ToName to \<Rightarrow>
          if to = ''broadcast'' then
            (let scope = (case mget (br_peers b) (e_from env) of
                            None \<Rightarrow> [] | Some c \<Rightarrow> pc_cwd (the (br_conns b c)))
             in map pc_address
                  (filter (\<lambda>p. pc_address p \<noteq> e_from env \<and> pc_cwd p = scope)
                     (map (\<lambda>c. the (br_conns b c)) (mvals (br_peers b)))))
          else if to = e_from env then []
          else [to]
      | ToList ns \<Rightarrow> filter (\<lambda>n. n \<noteq> e_from env) ns)"

definition handleBrokerMessage :: "host \<Rightarrow> 'r router_ops \<Rightarrow> envelope \<Rightarrow> 'r broker \<Rightarrow> 'r broker" where
  "handleBrokerMessage h R env b =
     (if \<not> is_objlike (e_body env) \<or> jget (e_body env) ''type'' \<noteq> JStr ''list_peers'' then b
      else (let uid = next_uuid h b; (ns, b1) = allPeerNames R (tick b); (ps, b2) = allPeerInfos R b1
            in case mget (br_peers b2) (e_from env) of
                 None \<Rightarrow> b2
               | Some c \<Rightarrow>
                   snd (try_write h c (serialize (broker_env uid (e_from env) (Some (e_id env)) (roster_body ns ps))) b2)))"

text \<open>The delivery loop: the names delivered to, the status of the last ack, the state.\<close>

fun deliver_all :: "host \<Rightarrow> envelope \<Rightarrow> bool \<Rightarrow> string list \<Rightarrow> string list \<Rightarrow> ack_status \<Rightarrow> 'r broker
    \<Rightarrow> string list \<times> ack_status \<times> 'r broker" where
  "deliver_all h env uni [] delivered st b = (delivered, st, b)"
| "deliver_all h env uni (t # ts) delivered st b =
     (case mget (br_peers b) t of
        None \<Rightarrow>
          if uni then deliver_all h env uni ts delivered UnknownTarget (sendAckToSender h env UnknownTarget t b)
          else deliver_all h env uni ts delivered st b
      | Some c \<Rightarrow>
          (let (ok, b') = try_write h c (serialize env) b
           in if \<not> ok then deliver_all h env uni ts delivered st b'
              else if uni then deliver_all h env uni ts (delivered @ [t]) Received (sendAckToSender h env Received t b')
              else deliver_all h env uni ts (delivered @ [t]) st b'))"

definition appendAudit :: "envelope \<Rightarrow> string list \<Rightarrow> ack_status \<Rightarrow> bool \<Rightarrow> 'r broker \<Rightarrow> 'r broker" where
  "appendAudit env delivered st via_relay b =
     (if br_audit b then emit (Audit env delivered st via_relay) b else b)"

definition is_unicast :: "envelope \<Rightarrow> bool" where
  "is_unicast env = (case e_to env of ToName to \<Rightarrow> to \<noteq> ''broadcast'' | ToList _ \<Rightarrow> False)"

definition exact_windows_local :: "string \<Rightarrow> 'r broker \<Rightarrow> bool" where
  "exact_windows_local to b =
     (case mget (br_peers b) to of
        None \<Rightarrow> False
      | Some c \<Rightarrow> isWindowsDriveAbsolutePath (pc_cwd (the (br_conns b c))))"

text \<open>Offer the envelope to the router: claimed or not, and the router's new state.\<close>

definition offer_remote :: "'r router_ops \<Rightarrow> envelope \<Rightarrow> 'r broker \<Rightarrow> bool \<times> 'r broker" where
  "offer_remote R env b =
     (case (e_to env, br_router b) of
        (ToName to, Some (i, r)) \<Rightarrow>
          if exact_windows_local to b then (False, b)
          else (let (claimed, r') = try_outbound R env r in (claimed, b\<lparr>br_router := Some (i, r')\<rparr>))
      | _ \<Rightarrow> (False, b))"

definition route :: "host \<Rightarrow> 'r router_ops \<Rightarrow> envelope \<Rightarrow> 'r broker \<Rightarrow> 'r broker" where
  "route h R env b =
     (if e_to env = ToName BROKER_NAME then handleBrokerMessage h R env b
      else
        (let (claimed, b1) = offer_remote R env b
         in if claimed then b1
            else
              (let (delivered, st, b2) =
                     deliver_all h env (is_unicast env) (resolveTargets env b1) [] NoAck b1
               in emit (Routed env delivered) (appendAudit env delivered st False b2))))"

section \<open>Lines, chunks, connections\<close>

definition handleLine :: "host \<Rightarrow> 'r router_ops \<Rightarrow> nat \<Rightarrow> string \<Rightarrow> 'r broker \<Rightarrow> 'r broker" where
  "handleLine h R c line b =
     (case br_conns b c of
        None \<Rightarrow> b
      | Some conn \<Rightarrow>
          if pc_name conn = [] then
            (let (pinged, b1) = tryBrokerPing h c line b
             in if pinged then b1
                else (let (probed, b2) = tryObserverProbe h R c line b1
                      in if probed then b2 else handleRegister h c line b2))
          else if (case json_parse line of None \<Rightarrow> False | Some v \<Rightarrow> jget v ''type'' = JStr ''rename'')
          then handleRename h c conn (the (json_parse line)) b
          else (case parse line of
                  Inl _ \<Rightarrow> b
                | Inr env \<Rightarrow> route h R (env\<lparr>e_from := pc_address conn\<rparr>) b))"

definition onData :: "host \<Rightarrow> 'r router_ops \<Rightarrow> nat \<Rightarrow> string \<Rightarrow> 'r broker \<Rightarrow> 'r broker" where
  "onData h R c chunk b =
     (case br_conns b c of
        None \<Rightarrow> b
      | Some conn \<Rightarrow>
          (let (lines, rest) = take_lines (pc_buf conn @ chunk)
           in fold (handleLine h R c) lines (set_conn c (conn\<lparr>pc_buf := rest\<rparr>) b)))"

text \<open>An orphaned broker has a second listener that destroys the socket at once.\<close>

definition handleConnection :: "nat \<Rightarrow> 'r broker \<Rightarrow> 'r broker" where
  "handleConnection c b =
     (let b1 = set_conn c new_conn b in if br_orphaned b then destroy_conn c b1 else b1)"

section \<open>Injection from a remote PC, shutdown\<close>

definition injectFromRemote :: "host \<Rightarrow> envelope \<Rightarrow> 'r broker \<Rightarrow> ack_status \<times> 'r broker" where
  "injectFromRemote h env b =
     (case parse (serialize env) of
        Inl _ \<Rightarrow> (Denied, b)
      | Inr validated \<Rightarrow>
          (case e_to validated of
             ToList _ \<Rightarrow> (Denied, b)
           | ToName target \<Rightarrow>
               if target = ''broadcast'' \<or> target = BROKER_NAME then (Denied, b)
               else (case mget (br_peers b) target of
                       None \<Rightarrow> (Denied, b)
                     | Some c \<Rightarrow>
                         (let (ok, b1) = try_write h c (serialize validated) b
                          in if \<not> ok then (Denied, b1)
                             else (Received,
                               emit (Routed validated [target]) (appendAudit validated [target] Received True b1))))))"

definition destroy_all :: "'r broker \<Rightarrow> 'r broker" where
  "destroy_all b = fold destroy_conn (mvals (br_peers b)) b"

definition close_broker :: "'r broker \<Rightarrow> 'r broker" where
  "close_broker b = emit ServerClosed ((destroy_all b)\<lparr>br_peers := []\<rparr>)"

definition orphan :: "'r broker \<Rightarrow> 'r broker" where
  "orphan b = emit ServerUnref ((destroy_all (b\<lparr>br_orphaned := True\<rparr>))\<lparr>br_peers := []\<rparr>)"

text \<open>
  What can happen to a broker. Data arrives only on a socket that has not been destroyed;
  the close event of a socket comes after it ended or was destroyed.
\<close>

inductive broker_step :: "host \<Rightarrow> 'r router_ops \<Rightarrow> 'r broker \<Rightarrow> 'r broker \<Rightarrow> bool" for h R where
  connect: "br_conns b c = None \<Longrightarrow> broker_step h R b (handleConnection c b)"
| data: "br_conns b c = Some p \<Longrightarrow> \<not> pc_destroyed p \<Longrightarrow> broker_step h R b (onData h R c chunk b)"
| closed: "br_conns b c = Some p \<Longrightarrow> broker_step h R b (onClose h c (set_conn c (p\<lparr>pc_destroyed := True\<rparr>) b))"
| inject: "broker_step h R b (snd (injectFromRemote h env b))"
| attach: "broker_step h R b (setRemoteRouter r b)"
| detach: "broker_step h R b (clearRemoteRouter i b)"
| shut: "broker_step h R b (close_broker b)"
| displaced: "broker_step h R b (orphan b)"

inductive broker_reachable :: "host \<Rightarrow> 'r router_ops \<Rightarrow> 'r broker \<Rightarrow> bool" for h R where
  start: "broker_reachable h R (new_broker audit)"
| step: "broker_reachable h R b \<Longrightarrow> broker_step h R b b' \<Longrightarrow> broker_reachable h R b'"


section \<open>Frame lemmas: what leaves the registry alone\<close>

definition same_reg :: "'r broker \<Rightarrow> 'r broker \<Rightarrow> bool" where
  "same_reg b b' \<longleftrightarrow> br_peers b' = br_peers b \<and> br_conns b' = br_conns b"

named_theorems frame \<open>operations that keep the registry\<close>

lemma same_reg_refl [frame, simp]: "same_reg b b"
  by (simp add: same_reg_def)

lemma same_reg_trans: "same_reg a b \<Longrightarrow> same_reg b c \<Longrightarrow> same_reg a c"
  by (simp add: same_reg_def)

lemma same_reg_tick [frame]: "same_reg b (tick b)"
  by (simp add: same_reg_def tick_def)

lemma same_reg_emit [frame]: "same_reg b (emit e b)"
  by (simp add: same_reg_def emit_def)

lemma same_reg_write [frame]: "same_reg b (snd (try_write h c l b))"
  by (simp add: try_write_def same_reg_emit)

lemma same_reg_write_tick [frame]: "same_reg b (snd (try_write h c l (tick b)))"
  by (rule same_reg_trans [OF same_reg_tick same_reg_write])

lemma same_reg_ack [frame]: "same_reg b (sendAckToSender h env st t b)"
  by (simp add: sendAckToSender_def same_reg_write_tick split: option.splits)

lemma same_reg_fold:
  assumes "\<And>x b. same_reg b (f x b)"
  shows "same_reg b (fold f xs b)"
proof (induction xs arbitrary: b)
  case (Cons x xs)
  show ?case using same_reg_trans [OF assms Cons] by simp
qed simp

lemma same_reg_broadcast [frame]: "same_reg b (broadcastSystem h body ex b)"
  unfolding broadcastSystem_def
  by (rule same_reg_fold) (auto simp: same_reg_write_tick split: prod.splits)

lemma same_reg_names [frame]: "same_reg b (snd (allPeerNames R b))" "same_reg b (snd (allPeerInfos R b))"
  by (auto simp: allPeerNames_def allPeerInfos_def same_reg_def split: option.splits prod.splits)

lemma same_reg_names_infos: "same_reg b (snd (allPeerInfos R (snd (allPeerNames R (tick b)))))"
  by (meson same_reg_trans same_reg_tick same_reg_names)

lemma same_reg_deliver [frame]: "same_reg b (snd (snd (deliver_all h env uni ts d st b)))"
proof (induction ts arbitrary: d st b)
  case (Cons t ts)
  note chain = same_reg_trans [OF _ Cons.IH]
  show ?case
  proof (cases "mget (br_peers b) t")
    case None
    then show ?thesis using Cons.IH chain [OF same_reg_ack] by (cases uni) simp_all
  next
    case (Some c)
    obtain ok b' where w: "try_write h c (serialize env) b = (ok, b')" by fastforce
    have b': "same_reg b b'" using same_reg_write [of b h c "serialize env"] w by simp
    show ?thesis using Some w chain [OF b'] chain [OF same_reg_trans [OF b' same_reg_ack]]
      by (cases uni; cases ok) simp_all
  qed
qed simp

lemma same_reg_offer [frame]: "same_reg b (snd (offer_remote R env b))"
  by (auto simp: offer_remote_def same_reg_def split: dest.splits option.splits prod.splits)

lemma same_reg_audit [frame]: "same_reg b (appendAudit env d st v b)"
  by (simp add: appendAudit_def same_reg_emit)

lemma same_reg_broker_msg [frame]: "same_reg b (handleBrokerMessage h R env b)"
proof -
  obtain ns b1 where 1: "allPeerNames R (tick b) = (ns, b1)" by fastforce
  obtain ps b2 where 2: "allPeerInfos R b1 = (ps, b2)" by fastforce
  have "same_reg b b2" using same_reg_names_infos [of b R] 1 2 by simp
  then show ?thesis using 1 2 same_reg_trans [OF _ same_reg_write]
    by (auto simp: handleBrokerMessage_def Let_def split: option.splits)
qed

lemma same_reg_route [frame]: "same_reg b (route h R env b)"
proof -
  obtain cl b1 where 1: "offer_remote R env b = (cl, b1)" by fastforce
  obtain d st b2 where 2: "deliver_all h env (is_unicast env) (resolveTargets env b1) [] NoAck b1 = (d, st, b2)"
    using prod_cases3 by blast
  have "same_reg b b1" using same_reg_offer [of b R env] 1 by simp
  moreover have "same_reg b1 b2"
    using same_reg_deliver [of b1 h env "is_unicast env" "resolveTargets env b1" "[]" NoAck] 2 by simp
  ultimately have "same_reg b (emit (Routed env d) (appendAudit env d st False b2))"
    by (meson same_reg_trans same_reg_emit same_reg_audit)
  then show ?thesis using \<open>same_reg b b1\<close> 1 2 by (simp add: route_def same_reg_broker_msg)
qed

lemma same_reg_ping [frame]: "same_reg b (snd (tryBrokerPing h c l b))"
  by (simp add: tryBrokerPing_def same_reg_write_tick)

lemma same_reg_observer [frame]: "same_reg b (snd (tryObserverProbe h R c l b))"
proof -
  obtain ns b1 where 1: "allPeerNames R (tick b) = (ns, b1)" by fastforce
  obtain ps b2 where 2: "allPeerInfos R b1 = (ps, b2)" by fastforce
  have "same_reg b b2" using same_reg_names_infos [of b R] 1 2 by simp
  then show ?thesis using 1 2 same_reg_trans [OF _ same_reg_write]
    by (auto simp: tryObserverProbe_def Let_def)
qed

lemma same_reg_rename_ack [frame]: "same_reg b (sendRenameAck h c n a b)"
  by (simp add: sendRenameAck_def same_reg_write)

text \<open>The two outcomes of an injection.\<close>

lemma inject_cases:
  obtains (denied) "injectFromRemote h env b = (Denied, b)"
  | (received) v target c where "parse (serialize env) = Inr v" "e_to v = ToName target"
      "target \<noteq> ''broadcast''" "target \<noteq> BROKER_NAME" "mget (br_peers b) target = Some c" "\<not> h_throws h c"
      "injectFromRemote h env b = (Received, emit (Routed v [target])
         (appendAudit v [target] Received True (emit (Write c (serialize v)) b)))"
proof (cases "parse (serialize env)")
  case (Inl e)
  then show ?thesis using denied by (simp add: injectFromRemote_def)
next
  case v: (Inr v)
  show ?thesis
  proof (cases "e_to v")
    case (ToList ns)
    then show ?thesis using denied v by (simp add: injectFromRemote_def)
  next
    case to: (ToName t)
    show ?thesis
    proof (cases "t = ''broadcast'' \<or> t = BROKER_NAME")
      case True
      then show ?thesis using denied v to by (simp add: injectFromRemote_def)
    next
      case False
      show ?thesis
      proof (cases "mget (br_peers b) t")
        case None
        then show ?thesis using denied v to by (simp add: injectFromRemote_def)
      next
        case (Some c)
        then show ?thesis using denied received [OF v to _ _ Some] v to False
          by (cases "h_throws h c") (auto simp: injectFromRemote_def try_write_def)
      qed
    qed
  qed
qed

lemma same_reg_inject [frame]: "same_reg b (snd (injectFromRemote h env b))"
  by (rule inject_cases [of h env b])
    (auto intro: same_reg_trans [OF same_reg_trans [OF same_reg_emit same_reg_audit] same_reg_emit])

lemma same_reg_router [frame]: "same_reg b (setRemoteRouter r b)" "same_reg b (clearRemoteRouter i b)"
  by (auto simp: setRemoteRouter_def clearRemoteRouter_def same_reg_def split: option.splits prod.splits)

section \<open>The registry invariant\<close>

text \<open>An entry of the registry: the connection carries the address it is filed under, and
  the address is the encoding of its directory and name, within the wire limits.\<close>

definition entry_ok :: "'r broker \<Rightarrow> string \<Rightarrow> nat \<Rightarrow> bool" where
  "entry_ok b a c \<longleftrightarrow> (\<exists>p. br_conns b c = Some p \<and> pc_address p = a \<and>
     a = compose_address None (pc_cwd p) (pc_name p) \<and> mesh_name (pc_name p) \<and>
     isValidRegisteredCwd (pc_cwd p) \<and> isBoundedPeerInfo (peer_info_jv (conn_info p)))"

definition reg_ok :: "'r broker \<Rightarrow> bool" where
  "reg_ok b \<longleftrightarrow> mwf (br_peers b) \<and> length (br_peers b) \<le> MAX_PEERS_UPDATE_ENTRIES \<and>
     (\<forall>a c. mget (br_peers b) a = Some c \<longrightarrow> entry_ok b a c)"

text \<open>Registered and filed under its own address, or not registered.\<close>

definition filed :: "'r broker \<Rightarrow> nat \<Rightarrow> bool" where
  "filed b c \<longleftrightarrow> (\<forall>p. br_conns b c = Some p \<and> pc_name p \<noteq> [] \<longrightarrow> mget (br_peers b) (pc_address p) = Some c)"

definition live_ok :: "'r broker \<Rightarrow> bool" where
  "live_ok b \<longleftrightarrow> (\<forall>c p. br_conns b c = Some p \<and> \<not> pc_destroyed p \<longrightarrow> filed b c)"

definition broker_inv :: "'r broker \<Rightarrow> bool" where
  "broker_inv b \<longleftrightarrow> reg_ok b \<and> live_ok b"

lemma same_reg_inv: "same_reg b b' \<Longrightarrow> broker_inv b' = broker_inv b"
  by (simp add: same_reg_def broker_inv_def reg_ok_def live_ok_def filed_def entry_ok_def)

lemma same_reg_filed: "same_reg b b' \<Longrightarrow> filed b' c = filed b c"
  by (simp add: same_reg_def filed_def)

lemma same_reg_keep: "same_reg b b' \<Longrightarrow> broker_inv b \<and> filed b c \<Longrightarrow> broker_inv b' \<and> filed b' c"
  by (simp add: same_reg_inv same_reg_filed)

lemma new_broker_inv: "broker_inv (new_broker audit)"
  by (simp add: broker_inv_def reg_ok_def live_ok_def new_broker_def)

lemma length_eq_mkeys: "length m = length (mkeys m)"
  by simp

lemma candidate_for_Some: "candidate_for cwd n = Some (n', a) \<longleftrightarrow>
    n' = n \<and> a = compose_address None cwd n \<and>
    isBoundedPeerInfo (peer_info_jv \<lparr>pi_pc = None, pi_cwd = cwd, pi_name = n, pi_address = a\<rparr>)"
  by (auto simp: candidate_for_def Let_def)

lemma search_suffix_Some:
  "search_suffix peers cwd base n = Some (nm, a) \<Longrightarrow>
     (\<exists>k. n \<le> k \<and> k < 1000 \<and> nm = base @ ''#'' @ show_nat k) \<and> candidate_for cwd nm = Some (nm, a) \<and> \<not> mhas peers a"
proof (induction peers cwd base n rule: search_suffix.induct)
  case (1 peers cwd base n)
  have n: "n < 1000" using "1.prems" by (subst (asm) search_suffix.simps) (auto split: if_splits)
  then obtain nm' a' where c: "candidate_for cwd (base @ ''#'' @ show_nat n) = Some (nm', a')"
    using "1.prems" by (subst (asm) search_suffix.simps) (auto split: option.splits)
  show ?case
  proof (cases "mhas peers a'")
    case True
    then have "search_suffix peers cwd base (Suc n) = Some (nm, a)"
      using "1.prems" n c by (subst (asm) search_suffix.simps) simp
    then show ?thesis using "1.IH" [OF n c refl] True by (metis Suc_leD not_not)
  next
    case False
    then have "nm = nm'" "a = a'"
      using "1.prems" n c by (subst (asm) search_suffix.simps, simp)+
    then show ?thesis using False n c candidate_for_Some by fastforce
  qed
qed

text \<open>What a successful identity assignment guarantees.\<close>

lemma identity_Some:
  assumes "identityForRegister peers cwd req tk = Some (nm, a, rep)"
  shows "a = compose_address None cwd nm" "mesh_name nm"
    "isBoundedPeerInfo (peer_info_jv \<lparr>pi_pc = None, pi_cwd = cwd, pi_name = nm, pi_address = a\<rparr>)"
    "rep \<longleftrightarrow> mhas peers a" "rep \<Longrightarrow> tk \<and> cwd \<noteq> [] \<and> nm = sanitize_mesh_name req"
    "\<not> rep \<Longrightarrow> length peers < MAX_PEERS_UPDATE_ENTRIES"
proof -
  obtain nm' a' where d: "candidate_for cwd (sanitize_mesh_name req) = Some (nm', a')"
    using assms by (auto simp: identityForRegister_def Let_def split: option.splits)
  have direct: "nm' = sanitize_mesh_name req" "a' = compose_address None cwd nm'"
      "isBoundedPeerInfo (peer_info_jv \<lparr>pi_pc = None, pi_cwd = cwd, pi_name = nm', pi_address = a'\<rparr>)"
    using d by (auto simp: candidate_for_Some)
  have mn: "mesh_name (sanitize_mesh_name req)" by (rule sanitize_mesh_name_ok)
  consider (direct) "nm = nm'" "a = a'" "rep = mhas peers a'" "rep \<Longrightarrow> tk \<and> cwd \<noteq> []"
      "\<not> rep \<Longrightarrow> length peers < MAX_PEERS_UPDATE_ENTRIES"
    | (search) "search_suffix peers cwd (strip_hash (sanitize_mesh_name req)) 2 = Some (nm, a)" "\<not> rep"
      "length peers < MAX_PEERS_UPDATE_ENTRIES"
    using assms d by (auto simp: identityForRegister_def Let_def not_le split: if_splits)
  then have "a = compose_address None cwd nm \<and> mesh_name nm \<and>
      isBoundedPeerInfo (peer_info_jv \<lparr>pi_pc = None, pi_cwd = cwd, pi_name = nm, pi_address = a\<rparr>) \<and>
      (rep \<longleftrightarrow> mhas peers a) \<and> (rep \<longrightarrow> tk \<and> cwd \<noteq> [] \<and> nm = sanitize_mesh_name req) \<and>
      (\<not> rep \<longrightarrow> length peers < MAX_PEERS_UPDATE_ENTRIES)"
  proof cases
    case direct
    then show ?thesis using \<open>nm' = sanitize_mesh_name req\<close> \<open>a' = compose_address None cwd nm'\<close> mn
      \<open>isBoundedPeerInfo (peer_info_jv \<lparr>pi_pc = None, pi_cwd = cwd, pi_name = nm', pi_address = a'\<rparr>)\<close> by simp
  next
    case search
    from search_suffix_Some [OF search(1)] obtain k where
      "nm = strip_hash (sanitize_mesh_name req) @ ''#'' @ show_nat k" "candidate_for cwd nm = Some (nm, a)"
      "\<not> mhas peers a" by blast
    then show ?thesis using search mesh_name_numbered [OF strip_hash_clean [OF mn], of k]
      by (auto simp: candidate_for_Some)
  qed
  then show "a = compose_address None cwd nm" "mesh_name nm"
    "isBoundedPeerInfo (peer_info_jv \<lparr>pi_pc = None, pi_cwd = cwd, pi_name = nm, pi_address = a\<rparr>)"
    "rep \<longleftrightarrow> mhas peers a" "rep \<Longrightarrow> tk \<and> cwd \<noteq> [] \<and> nm = sanitize_mesh_name req"
    "\<not> rep \<Longrightarrow> length peers < MAX_PEERS_UPDATE_ENTRIES" by blast+
qed


section \<open>The invariant is kept\<close>

lemma entry_okD:
  assumes "entry_ok b a c"
  obtains p where "br_conns b c = Some p" "pc_address p = a" "a = compose_address None (pc_cwd p) (pc_name p)"
    "mesh_name (pc_name p)" "isValidRegisteredCwd (pc_cwd p)" "isBoundedPeerInfo (peer_info_jv (conn_info p))"
  using assms by (auto simp: entry_ok_def)

lemma reg_okD: "reg_ok b \<Longrightarrow> mget (br_peers b) a = Some c \<Longrightarrow> entry_ok b a c"
  by (simp add: reg_ok_def)

lemma entry_ok_unique: "reg_ok b \<Longrightarrow> mget (br_peers b) a = Some c \<Longrightarrow> mget (br_peers b) a' = Some c \<Longrightarrow> a = a'"
  by (metis entry_ok_def option.inject reg_okD)

lemma compose_ne: "mesh_name n \<Longrightarrow> compose_address None c n \<noteq> []"
  using mesh_name_chars(1) by (simp add: compose_address_def)

lemma address_ne: "entry_ok b a c \<Longrightarrow> a \<noteq> []"
  using compose_ne unfolding entry_ok_def by metis

lemma unfiled_unnamed:
  "reg_ok b \<Longrightarrow> br_conns b c = Some p \<Longrightarrow> pc_name p = [] \<Longrightarrow> mget (br_peers b) a \<noteq> Some c"
  using mesh_name_chars(1) [of "[]"] by (auto simp: entry_ok_def dest!: reg_okD)

lemma destroy_conn_simps [simp]:
  "br_peers (destroy_conn c b) = br_peers b"
  "br_conns (destroy_conn c b) d =
     (if d = c then map_option (\<lambda>p. p\<lparr>pc_destroyed := True\<rparr>) (br_conns b c) else br_conns b d)"
  by (simp_all add: destroy_conn_def emit_def)

lemma set_conn_simps [simp]:
  "br_peers (set_conn c p b) = br_peers b"
  "br_conns (set_conn c p b) d = (if d = c then Some p else br_conns b d)"
  by (simp_all add: set_conn_def)

text \<open>Changing the flag or the buffer of a connection keeps the invariant.\<close>

lemma conn_update_inv:
  assumes "broker_inv b" and "br_peers b' = br_peers b"
    and "\<And>d. (br_conns b' d = br_conns b d) \<or> (\<exists>p f buf. br_conns b d = Some p \<and>
          br_conns b' d = Some (p\<lparr>pc_destroyed := f, pc_buf := buf\<rparr>) \<and> (pc_destroyed p \<longrightarrow> f))"
  shows "broker_inv b'" and "filed b c \<Longrightarrow> filed b' c"
proof -
  have e: "entry_ok b' a d" if "entry_ok b a d" for a d
    using that assms(3) [of d] by (auto simp: entry_ok_def conn_info_def)
  have f: "filed b' d" if "filed b d" for d
    using that assms(2) assms(3) [of d] by (auto simp: filed_def)
  have "live_ok b'" unfolding live_ok_def
  proof (intro allI impI)
    fix d p assume "br_conns b' d = Some p \<and> \<not> pc_destroyed p"
    then obtain q where "br_conns b d = Some q" "\<not> pc_destroyed q" using assms(3) [of d] by force
    then show "filed b' d" using assms(1) f by (auto simp: broker_inv_def live_ok_def)
  qed
  then show "broker_inv b'" using assms(1,2) e by (simp add: broker_inv_def reg_ok_def)
  show "filed b c \<Longrightarrow> filed b' c" by (rule f)
qed

lemma destroy_inv:
  assumes "broker_inv b"
  shows "broker_inv (destroy_conn c b)" and "filed b d \<Longrightarrow> filed (destroy_conn c b) d"
proof -
  have "br_conns (destroy_conn c b) d = br_conns b d \<or> (\<exists>p f buf. br_conns b d = Some p \<and>
          br_conns (destroy_conn c b) d = Some (p\<lparr>pc_destroyed := f, pc_buf := buf\<rparr>) \<and> (pc_destroyed p \<longrightarrow> f))" for d
  proof (cases "d = c")
    case True
    then show ?thesis
    proof (cases "br_conns b c")
      case (Some p)
      then show ?thesis
        by (intro disjI2 exI [of _ p] exI [of _ True] exI [of _ "pc_buf p"]) (simp add: True)
    qed simp
  qed simp
  from conn_update_inv [OF assms _ this] show "broker_inv (destroy_conn c b)"
    "filed b d \<Longrightarrow> filed (destroy_conn c b) d" by simp_all
qed

text \<open>Filing a connection under a fresh address, after the entry it replaces is gone.\<close>

lemma file_inv:
  assumes inv: "broker_inv b" and free: "\<not> mhas (br_peers b) a" and un: "\<And>x. mget (br_peers b) x \<noteq> Some c"
    and room: "length (br_peers b) < MAX_PEERS_UPDATE_ENTRIES"
    and p: "pc_address p = a" "a = compose_address None (pc_cwd p) (pc_name p)" "mesh_name (pc_name p)"
      "isValidRegisteredCwd (pc_cwd p)" "isBoundedPeerInfo (peer_info_jv (conn_info p))"
    and b': "br_peers b' = mput a c (br_peers b)" "br_conns b' = (br_conns b)(c \<mapsto> p)"
  shows "broker_inv b' \<and> filed b' c"
proof -
  have len: "length (br_peers b') \<le> MAX_PEERS_UPDATE_ENTRIES"
    using jm.length_put_fresh [of "br_peers b" a c] free room by (simp add: b' mhas_def)
  have ent: "entry_ok b' x d" if "mget (br_peers b') x = Some d" for x d
  proof (cases "x = a")
    case True
    then have "d = c" using that by (simp add: b')
    then show ?thesis using True p by (simp add: entry_ok_def b')
  next
    case False
    then have x: "mget (br_peers b) x = Some d" using that by (simp add: b')
    then have "d \<noteq> c" using un by auto
    moreover have "entry_ok b x d" using x inv by (simp add: broker_inv_def reg_okD)
    ultimately show ?thesis by (simp add: entry_ok_def b')
  qed
  have fc: "filed b' c" using p by (simp add: filed_def b')
  have "live_ok b'" unfolding live_ok_def
  proof (intro allI impI)
    fix d q assume q: "br_conns b' d = Some q \<and> \<not> pc_destroyed q"
    show "filed b' d"
    proof (cases "d = c")
      case False
      then have "filed b d" using q inv by (auto simp: b' broker_inv_def live_ok_def)
      moreover have "pc_address q \<noteq> a" if "pc_name q \<noteq> []"
        using that \<open>filed b d\<close> q False free by (auto simp: b' filed_def mhas_def)
      ultimately show ?thesis using q False by (auto simp: filed_def b')
    qed (simp add: fc)
  qed
  then show ?thesis using inv len ent fc by (simp add: broker_inv_def reg_ok_def b')
qed

lemma length_mdel_less: "mwf m \<Longrightarrow> mhas m k \<Longrightarrow> length (mdel k m) < length m"
  using jm.length_del_present [of m k] by (simp add: mhas_def)

lemma dropPeerAt_simps:
  "br_peers (dropPeerAt a b) = (if mhas (br_peers b) a then mdel a (br_peers b) else br_peers b)"
  "br_conns (dropPeerAt a b) d = (if mget (br_peers b) a = Some d
     then map_option (\<lambda>p. p\<lparr>pc_address := [], pc_destroyed := True\<rparr>) (br_conns b d) else br_conns b d)"
  by (auto simp: dropPeerAt_def mhas_def split: option.splits) (cases "br_conns b d"; simp)

lemma dropPeerAt_inv:
  assumes "broker_inv b" and "mhas (br_peers b) a"
  shows "broker_inv (dropPeerAt a b)"
proof -
  obtain c where c: "mget (br_peers b) a = Some c" using assms(2) by (auto simp: mhas_def)
  have r: "reg_ok b" using assms(1) by (simp add: broker_inv_def)
  have "entry_ok (dropPeerAt a b) x d" if "mget (br_peers (dropPeerAt a b)) x = Some d" for x d
  proof -
    have x: "x \<noteq> a" "mget (br_peers b) x = Some d"
      using that assms(2) by (auto simp: dropPeerAt_simps split: if_splits)
    then have "d \<noteq> c" using entry_ok_unique [OF r c] by auto
    then show ?thesis using reg_okD [OF r x(2)] c by (simp add: entry_ok_def dropPeerAt_simps)
  qed
  moreover have "live_ok (dropPeerAt a b)" unfolding live_ok_def
  proof (intro allI impI)
    fix d q assume q: "br_conns (dropPeerAt a b) d = Some q \<and> \<not> pc_destroyed q"
    then have d: "d \<noteq> c" "br_conns b d = Some q"
      using c by (auto simp: dropPeerAt_simps split: if_splits)
    then have "filed b d" using q assms(1) by (auto simp: broker_inv_def live_ok_def)
    then show "filed (dropPeerAt a b) d" using d c by (auto simp: filed_def dropPeerAt_simps)
  qed
  moreover have "length (mdel a (br_peers b)) \<le> MAX_PEERS_UPDATE_ENTRIES"
    using r length_mdel_less [of "br_peers b" a] assms(2) by (simp add: reg_ok_def)
  ultimately show ?thesis using r assms(2) by (simp add: broker_inv_def reg_ok_def dropPeerAt_simps)
qed


text \<open>The record a connection gets when it registers or renames.\<close>

lemma assigned_ok:
  assumes "identityForRegister peers cwd req tk = Some (nm, a, rep)" and "pc_cwd p = cwd" "pc_name p = nm" "pc_address p = a"
  shows "a = compose_address None (pc_cwd p) (pc_name p)" "mesh_name (pc_name p)"
    "isBoundedPeerInfo (peer_info_jv (conn_info p))"
  using identity_Some(1-3) [OF assms(1)] assms(2-4) by (simp_all add: conn_info_def)

lemma set_conn_unfiled_inv:
  assumes inv: "broker_inv b" and un: "\<And>x. mget (br_peers b) x \<noteq> Some c"
    and d: "br_conns b c = Some q"
  shows "reg_ok (set_conn c p b)" "\<And>d. d \<noteq> c \<Longrightarrow> filed (set_conn c p b) d \<longleftrightarrow> filed b d"
    "\<And>x d. mget (br_peers b) x = Some d \<Longrightarrow> entry_ok (set_conn c p b) x d"
proof -
  show e: "entry_ok (set_conn c p b) x d" if "mget (br_peers b) x = Some d" for x d
  proof -
    have "d \<noteq> c" using that un by auto
    then show ?thesis using that inv by (auto simp: entry_ok_def broker_inv_def dest!: reg_okD)
  qed
  then show "reg_ok (set_conn c p b)" using inv by (simp add: reg_ok_def broker_inv_def)
  show "\<And>d. d \<noteq> c \<Longrightarrow> filed (set_conn c p b) d \<longleftrightarrow> filed b d" by (simp add: filed_def)
qed

lemma register_core_inv:
  assumes inv: "broker_inv b" and c: "br_conns b c = Some q" "pc_name q = []"
    and idt: "identityForRegister (br_peers b) cwd req tk = Some (nm, a, rep)"
    and cwd: "isValidRegisteredCwd cwd"
    and b2: "b2 = (if rep then dropPeerAt a (set_conn c p b) else set_conn c p b)"
    and p: "p = q\<lparr>pc_cwd := cwd, pc_name := nm, pc_address := a\<rparr>"
  shows "broker_inv (b2\<lparr>br_peers := mput a c (br_peers b2)\<rparr>) \<and> filed (b2\<lparr>br_peers := mput a c (br_peers b2)\<rparr>) c"
proof -
  have r: "reg_ok b" using inv by (simp add: broker_inv_def)
  have un: "mget (br_peers b) x \<noteq> Some c" for x using unfiled_unnamed [OF r c] .
  define b0 where "b0 = (if rep then dropPeerAt a b else b)"
  have b0: "broker_inv b0"
    using dropPeerAt_inv [OF inv, of a] identity_Some(4) [OF idt] inv by (simp add: b0_def)
  have free: "\<not> mhas (br_peers b0) a"
    using identity_Some(4) [OF idt] by (simp add: b0_def dropPeerAt_simps)
  have un0: "mget (br_peers b0) x \<noteq> Some c" for x
    using un by (simp add: b0_def dropPeerAt_simps)
  have room: "length (br_peers b0) < MAX_PEERS_UPDATE_ENTRIES"
  proof (cases rep)
    case True
    then have "mhas (br_peers b) a" using identity_Some(4) [OF idt] by simp
    then show ?thesis using True r length_mdel_less [of "br_peers b" a]
      by (simp add: b0_def dropPeerAt_simps reg_ok_def)
  next
    case False
    then show ?thesis using identity_Some(6) [OF idt] by (simp add: b0_def)
  qed
  have peers2: "br_peers b2 = br_peers b0"
    by (simp add: b2 b0_def dropPeerAt_simps)
  have conns2: "br_conns b2 = (br_conns b0)(c \<mapsto> p)"
    using un by (auto simp: b2 b0_def dropPeerAt_simps fun_eq_iff)
  show ?thesis
    by (rule file_inv [OF b0 free un0 room, where p = p])
      (use assigned_ok [OF idt, of p] cwd peers2 conns2 in \<open>simp_all add: p\<close>)
qed

lemma handleRegister_inv:
  assumes inv: "broker_inv b" and c: "br_conns b c = Some q" "pc_name q = []"
  shows "broker_inv (handleRegister h c line b) \<and> filed (handleRegister h c line b) c"
proof -
  have f: "filed b c" using c by (simp add: filed_def)
  then have d: "broker_inv (destroy_conn c b) \<and> filed (destroy_conn c b) c" using destroy_inv inv by blast
  show ?thesis
  proof (cases "json_parse line")
    case None
    then show ?thesis using d by (simp add: handleRegister_def)
  next
    case (Some req)
    show ?thesis
    proof (cases "\<exists>name cwd nm a rep. is_objlike req \<and> jget req ''type'' = JStr ''register'' \<and>
        jget req ''name'' = JStr name \<and>
        (if jget req ''cwd'' = JUndef then JStr [] else jget req ''cwd'') = JStr cwd \<and> isValidRegisteredCwd cwd \<and>
        identityForRegister (br_peers b) cwd name (jget req ''takeover'' = JBool True) = Some (nm, a, rep)")
      case True
      then obtain name cwd nm a rep where g: "is_objlike req" "jget req ''type'' = JStr ''register''"
          "jget req ''name'' = JStr name"
          "(if jget req ''cwd'' = JUndef then JStr [] else jget req ''cwd'') = JStr cwd" "isValidRegisteredCwd cwd"
          "identityForRegister (br_peers b) cwd name (jget req ''takeover'' = JBool True) = Some (nm, a, rep)"
        by blast
      define p where "p = q\<lparr>pc_cwd := cwd, pc_name := nm, pc_address := a\<rparr>"
      define b2 where "b2 = (if rep then dropPeerAt a (set_conn c p b) else set_conn c p b)"
      let ?b3 = "b2\<lparr>br_peers := mput a c (br_peers b2)\<rparr>"
      have "broker_inv ?b3 \<and> filed ?b3 c"
        by (rule register_core_inv [OF inv c g(6,5) b2_def p_def])
      moreover have "handleRegister h c line b = broadcastSystem h (peer_event_body ''peer_joined'' a) a
          (snd (try_write h c (serialize_jv (name_ack ''register_ack'' a nm)) ?b3))"
        using Some g c(1) by (simp add: handleRegister_def p_def b2_def Let_def)
      ultimately show ?thesis
        using same_reg_keep [OF same_reg_trans [OF same_reg_write same_reg_broadcast]] by metis
    next
      case False
      then have "handleRegister h c line b = destroy_conn c b"
        using Some by (auto simp: handleRegister_def split: jv.splits option.splits if_splits)
      then show ?thesis using d by simp
    qed
  qed
qed

lemma handleRename_inv:
  assumes inv: "broker_inv b" and c: "br_conns b c = Some conn" and f: "mget (br_peers b) (pc_address conn) = Some c"
  shows "broker_inv (handleRename h c conn msg b) \<and> filed (handleRename h c conn msg b) c"
proof -
  have r: "reg_ok b" using inv by (simp add: broker_inv_def)
  have fb: "filed b c" using c f by (simp add: filed_def)
  have keep: "broker_inv (sendRenameAck h c n x b) \<and> filed (sendRenameAck h c n x b) c" for n x
    using same_reg_keep [OF same_reg_rename_ack] inv fb by blast
  define b1 where "b1 = b\<lparr>br_peers := mdel (pc_address conn) (br_peers b)\<rparr>"
  have wf: "mwf (br_peers b)" and has: "mhas (br_peers b) (pc_address conn)"
    using r f by (auto simp: reg_ok_def mhas_def)
  have room: "length (br_peers b1) < MAX_PEERS_UPDATE_ENTRIES"
    using length_mdel_less [OF wf has] r by (simp add: b1_def reg_ok_def)
  have un1: "mget (br_peers b1) x \<noteq> Some c" for x
    using entry_ok_unique [OF r f, of x] by (auto simp: b1_def)
  obtain p where p: "conn = p" "entry_ok b (pc_address conn) c" using reg_okD [OF r f] by blast
  have own: "pc_address conn = compose_address None (pc_cwd conn) (pc_name conn)" "mesh_name (pc_name conn)"
      "isValidRegisteredCwd (pc_cwd conn)" "isBoundedPeerInfo (peer_info_jv (conn_info conn))"
    using p(2) c by (auto simp: entry_ok_def)
  have inv1: "broker_inv (b1\<lparr>br_conns := (br_conns b)(c \<mapsto> conn\<lparr>pc_name := [], pc_address := []\<rparr>)\<rparr>)"
    (is "broker_inv ?b1'")
  proof -
    have e: "entry_ok ?b1' x d" if "mget (br_peers ?b1') x = Some d" for x d
    proof -
      have x: "mget (br_peers b) x = Some d" using that by (simp add: b1_def split: if_splits)
      moreover have "d \<noteq> c" using un1 [of x] that by auto
      ultimately show ?thesis using reg_okD [OF r x] by (simp add: entry_ok_def)
    qed
    have "live_ok ?b1'" unfolding live_ok_def
    proof (intro allI impI)
      fix d q assume q: "br_conns ?b1' d = Some q \<and> \<not> pc_destroyed q"
      show "filed ?b1' d"
      proof (cases "d = c")
        case False
        then have "filed b d" using q inv by (auto simp: broker_inv_def live_ok_def)
        moreover have "pc_address q \<noteq> pc_address conn" if "mget (br_peers b) (pc_address q) = Some d"
          using that f False by auto
        ultimately show ?thesis using q False by (auto simp: filed_def b1_def)
      qed (simp add: filed_def)
    qed
    then show ?thesis using r e room by (simp add: broker_inv_def reg_ok_def b1_def)
  qed
  have filing: "broker_inv b' \<and> filed b' c"
    if "\<not> mhas (br_peers b1) a" "pc_address q = a" "a = compose_address None (pc_cwd q) (pc_name q)"
      "mesh_name (pc_name q)" "isValidRegisteredCwd (pc_cwd q)" "isBoundedPeerInfo (peer_info_jv (conn_info q))"
      "br_peers b' = mput a c (br_peers b1)" "br_conns b' = (br_conns b)(c \<mapsto> q)" for a q b'
    by (rule file_inv [OF inv1, where p = q]) (use that un1 room in \<open>simp_all add: fun_upd_def fun_eq_iff\<close>)
  show ?thesis
  proof (cases "\<exists>name. jget msg ''name'' = JStr name \<and> name \<noteq> []")
    case False
    then show ?thesis using keep by (auto simp: handleRename_def split: jv.splits)
  next
    case True
    then obtain name where nm: "jget msg ''name'' = JStr name" "name \<noteq> []" by blast
    show ?thesis
    proof (cases "identityForRegister (br_peers b1) (pc_cwd conn) name False")
      case None
      have "broker_inv (b1\<lparr>br_peers := mput (pc_address conn) c (br_peers b1)\<rparr>) \<and>
          filed (b1\<lparr>br_peers := mput (pc_address conn) c (br_peers b1)\<rparr>) c"
        by (rule filing [of "pc_address conn" conn]) (use own c in \<open>simp_all add: b1_def fun_upd_idem\<close>)
      then show ?thesis using nm None same_reg_keep [OF same_reg_rename_ack]
        by (simp add: handleRename_def b1_def [symmetric] Let_def)
    next
      case (Some idt)
      obtain n a rep where idt: "idt = (n, a, rep)" by (cases idt)
      have i: "identityForRegister (br_peers b1) (pc_cwd conn) name False = Some (n, a, rep)" using Some idt by simp
      let ?q = "conn\<lparr>pc_name := n, pc_address := a\<rparr>"
      let ?b3 = "(set_conn c ?q b1)\<lparr>br_peers := mput a c (br_peers (set_conn c ?q b1))\<rparr>"
      have "\<not> rep" using identity_Some(5) [OF i] by blast
      then have free: "\<not> mhas (br_peers b1) a" using identity_Some(4) [OF i] by simp
      have "broker_inv ?b3 \<and> filed ?b3 c"
        by (rule filing [of a ?q])
          (use free assigned_ok [OF i, of ?q] own in \<open>simp_all add: b1_def set_conn_def\<close>)
      moreover have "handleRename h c conn msg b =
          sendRenameAck h c n a (broadcastSystem h (peer_event_body ''peer_joined'' a) a
            (broadcastSystem h (peer_event_body ''peer_left'' (pc_address conn)) a ?b3))"
        using nm i by (simp add: handleRename_def b1_def [symmetric] Let_def)
      ultimately show ?thesis
        using same_reg_keep [OF same_reg_trans [OF same_reg_trans [OF same_reg_broadcast same_reg_broadcast] same_reg_rename_ack]]
        by metis
    qed
  qed
qed


lemma drop_entry_inv:
  assumes inv: "broker_inv b" and f: "mget (br_peers b) a = Some c"
    and dead: "\<And>p. br_conns b c = Some p \<Longrightarrow> pc_destroyed p"
  shows "broker_inv (b\<lparr>br_peers := mdel a (br_peers b)\<rparr>)"
proof -
  have r: "reg_ok b" using inv by (simp add: broker_inv_def)
  have "entry_ok (b\<lparr>br_peers := mdel a (br_peers b)\<rparr>) x d"
    if "mget (br_peers (b\<lparr>br_peers := mdel a (br_peers b)\<rparr>)) x = Some d" for x d
    using that reg_okD [OF r, of x d] by (auto simp: entry_ok_def split: if_splits)
  moreover have "live_ok (b\<lparr>br_peers := mdel a (br_peers b)\<rparr>)" unfolding live_ok_def
  proof (intro allI impI)
    fix d q assume q: "br_conns (b\<lparr>br_peers := mdel a (br_peers b)\<rparr>) d = Some q \<and> \<not> pc_destroyed q"
    then have "d \<noteq> c" and "filed b d" using dead inv by (auto simp: broker_inv_def live_ok_def)
    then show "filed (b\<lparr>br_peers := mdel a (br_peers b)\<rparr>) d" using f q by (auto simp: filed_def)
  qed
  moreover have "length (mdel a (br_peers b)) \<le> MAX_PEERS_UPDATE_ENTRIES"
    using r f length_mdel_less [of "br_peers b" a] by (simp add: reg_ok_def mhas_def)
  ultimately show ?thesis using r by (simp add: broker_inv_def reg_ok_def)
qed

lemma onClose_inv:
  assumes inv: "broker_inv b" and dead: "\<And>p. br_conns b c = Some p \<Longrightarrow> pc_destroyed p"
  shows "broker_inv (onClose h c b)"
proof (cases "\<exists>p. br_conns b c = Some p \<and> pc_address p \<noteq> [] \<and> mget (br_peers b) (pc_address p) = Some c")
  case True
  then obtain p where p: "br_conns b c = Some p" "pc_address p \<noteq> []" "mget (br_peers b) (pc_address p) = Some c" by blast
  have "broker_inv (b\<lparr>br_peers := mdel (pc_address p) (br_peers b)\<rparr>)"
    by (rule drop_entry_inv [OF inv p(3)]) (use dead in blast)
  then show ?thesis using p by (simp add: onClose_def same_reg_inv [OF same_reg_broadcast])
next
  case False
  then have "onClose h c b = b" by (auto simp: onClose_def split: option.splits)
  then show ?thesis using inv by simp
qed

lemma handleLine_inv:
  assumes "broker_inv b \<and> filed b c"
  shows "broker_inv (handleLine h R c line b) \<and> filed (handleLine h R c line b) c"
proof (cases "br_conns b c")
  case None
  then show ?thesis using assms by (simp add: handleLine_def)
next
  case (Some conn)
  show ?thesis
  proof (cases "pc_name conn = []")
    case True
    obtain x b1 where 1: "tryBrokerPing h c line b = (x, b1)" by fastforce
    obtain y b2 where 2: "tryObserverProbe h R c line b1 = (y, b2)" by fastforce
    have s1: "same_reg b b1" using same_reg_ping [of b h c line] 1 by simp
    have s2: "same_reg b b2" using same_reg_trans [OF s1] same_reg_observer [of b1 h R c line] 2 by simp
    have "br_conns b2 c = Some conn" using s2 Some by (simp add: same_reg_def)
    then have "broker_inv (handleRegister h c line b2) \<and> filed (handleRegister h c line b2) c"
      using handleRegister_inv True same_reg_inv [OF s2] assms by blast
    moreover have "broker_inv b1 \<and> filed b1 c" "broker_inv b2 \<and> filed b2 c"
      by (rule same_reg_keep [OF s1 assms], rule same_reg_keep [OF s2 assms])
    ultimately show ?thesis using Some True 1 2 by (simp add: handleLine_def)
  next
    case False
    then have "mget (br_peers b) (pc_address conn) = Some c" using assms Some by (simp add: filed_def)
    then have "broker_inv (handleRename h c conn msg b) \<and> filed (handleRename h c conn msg b) c" for msg
      using handleRename_inv Some assms by blast
    moreover have "broker_inv (route h R env b) \<and> filed (route h R env b) c" for env
      using same_reg_keep [OF same_reg_route] assms by blast
    ultimately show ?thesis using Some False assms by (simp add: handleLine_def split: sum.splits)
  qed
qed

lemma handleLines_inv:
  "broker_inv b \<and> filed b c \<Longrightarrow>
     broker_inv (fold (handleLine h R c) ls b) \<and> filed (fold (handleLine h R c) ls b) c"
proof (induction ls arbitrary: b)
  case (Cons l ls)
  then show ?case using handleLine_inv by fastforce
qed simp

lemma set_buf_inv:
  assumes "broker_inv b" and "br_conns b c = Some p" and "pc_destroyed p \<longrightarrow> f"
  shows "broker_inv (set_conn c (p\<lparr>pc_destroyed := f, pc_buf := buf\<rparr>) b)"
    and "filed b c \<Longrightarrow> filed (set_conn c (p\<lparr>pc_destroyed := f, pc_buf := buf\<rparr>) b) c"
proof -
  have "br_conns (set_conn c (p\<lparr>pc_destroyed := f, pc_buf := buf\<rparr>) b) d = br_conns b d \<or>
     (\<exists>q g u. br_conns b d = Some q \<and>
        br_conns (set_conn c (p\<lparr>pc_destroyed := f, pc_buf := buf\<rparr>) b) d = Some (q\<lparr>pc_destroyed := g, pc_buf := u\<rparr>) \<and>
        (pc_destroyed q \<longrightarrow> g))" for d
    using assms(2,3) by auto
  from conn_update_inv [OF assms(1) _ this]
  show "broker_inv (set_conn c (p\<lparr>pc_destroyed := f, pc_buf := buf\<rparr>) b)"
    and "filed b c \<Longrightarrow> filed (set_conn c (p\<lparr>pc_destroyed := f, pc_buf := buf\<rparr>) b) c" by simp_all
qed

lemma onData_inv:
  assumes inv: "broker_inv b" and c: "br_conns b c = Some p" "\<not> pc_destroyed p"
  shows "broker_inv (onData h R c chunk b)"
proof -
  obtain ls r where ls: "take_lines (pc_buf p @ chunk) = (ls, r)" by fastforce
  have f: "filed b c" using inv c by (auto simp: broker_inv_def live_ok_def)
  have "p\<lparr>pc_buf := r\<rparr> = p\<lparr>pc_destroyed := False, pc_buf := r\<rparr>" using c(2) by simp
  then have "broker_inv (set_conn c (p\<lparr>pc_buf := r\<rparr>) b) \<and> filed (set_conn c (p\<lparr>pc_buf := r\<rparr>) b) c"
    using set_buf_inv [OF inv c(1), of False r] f c(2) by metis
  then show ?thesis using c(1) ls by (simp add: onData_def handleLines_inv)
qed

lemma handleConnection_inv:
  assumes "broker_inv b" and "br_conns b c = None"
  shows "broker_inv (handleConnection c b)"
proof -
  have r: "reg_ok b" using assms by (simp add: broker_inv_def)
  have "mget (br_peers b) a \<noteq> Some c" for a
    using reg_okD [OF r, of a c] assms(2) by (auto simp: entry_ok_def)
  then have "entry_ok (set_conn c new_conn b) a d" if "mget (br_peers b) a = Some d" for a d
    using that reg_okD [OF r that] by (auto simp: entry_ok_def)
  moreover have "live_ok (set_conn c new_conn b)" unfolding live_ok_def
  proof (intro allI impI)
    fix d q assume "br_conns (set_conn c new_conn b) d = Some q \<and> \<not> pc_destroyed q"
    then show "filed (set_conn c new_conn b) d"
      using assms by (cases "d = c") (auto simp: filed_def new_conn_def broker_inv_def live_ok_def)
  qed
  ultimately have "broker_inv (set_conn c new_conn b)" using r by (simp add: broker_inv_def reg_ok_def)
  then show ?thesis by (simp add: handleConnection_def Let_def destroy_inv(1))
qed

lemma fold_destroy:
  "br_peers (fold destroy_conn cs b) = br_peers b"
  "br_conns (fold destroy_conn cs b) d =
     (if d \<in> set cs then map_option (\<lambda>p. p\<lparr>pc_destroyed := True\<rparr>) (br_conns b d) else br_conns b d)"
  by (induction cs arbitrary: b) (auto simp: option.map_comp comp_def)

lemma teardown_inv:
  assumes inv: "broker_inv b" and b': "br_peers b' = []" "br_conns b' = br_conns (destroy_all b)"
  shows "broker_inv b'"
proof -
  have "live_ok b'" unfolding live_ok_def
  proof (intro allI impI)
    fix d q assume q: "br_conns b' d = Some q \<and> \<not> pc_destroyed q"
    then have d: "d \<notin> snd ` set (br_peers b)" "br_conns b d = Some q"
      by (auto simp: b' destroy_all_def fold_destroy split: if_splits)
    then have "filed b d" using inv q by (auto simp: broker_inv_def live_ok_def)
    moreover have "mget (br_peers b) x \<noteq> Some d" for x
      using d(1) map_of_SomeD [of "br_peers b" x d] by (metis image_eqI snd_conv)
    ultimately have "pc_name q = []" using d(2) by (auto simp: filed_def)
    then show "filed b' d" using q by (simp add: filed_def)
  qed
  then show ?thesis by (simp add: broker_inv_def reg_ok_def b')
qed

lemma close_inv: "broker_inv b \<Longrightarrow> broker_inv (close_broker b)"
  by (rule teardown_inv) (simp_all add: close_broker_def emit_def)

lemma orphan_inv: "broker_inv b \<Longrightarrow> broker_inv (orphan b)"
proof -
  assume "broker_inv b"
  then have "broker_inv (b\<lparr>br_orphaned := True\<rparr>)"
    by (simp add: broker_inv_def reg_ok_def live_ok_def filed_def entry_ok_def)
  then show ?thesis by (rule teardown_inv) (simp_all add: orphan_def emit_def)
qed

lemma broker_step_inv: "broker_step h R b b' \<Longrightarrow> broker_inv b \<Longrightarrow> broker_inv b'"
proof (induction rule: broker_step.induct)
  case (closed b c p)
  have "p\<lparr>pc_destroyed := True\<rparr> = p\<lparr>pc_destroyed := True, pc_buf := pc_buf p\<rparr>" by simp
  then have "broker_inv (set_conn c (p\<lparr>pc_destroyed := True\<rparr>) b)"
    using set_buf_inv(1) [OF closed(2,1), of True "pc_buf p"] by simp
  then show ?case by (rule onClose_inv) auto
qed (auto simp: handleConnection_inv onData_inv same_reg_inv [OF same_reg_inject] close_inv orphan_inv
      same_reg_inv [OF same_reg_router(1)] same_reg_inv [OF same_reg_router(2)])

lemma broker_reachable_inv: "broker_reachable h R b \<Longrightarrow> broker_inv b"
  by (induction rule: broker_reachable.induct) (auto simp: new_broker_inv intro: broker_step_inv)

end
