(* ===== verification/KeyCodec.thy ===== *)
theory KeyCodec
  imports Envelope
begin

text \<open>
  Public keys as text: the key half of \<^verbatim>\<open>extension/src/mesh/encoding.ts\<close>. A key is a
  list of 32 bytes. \<open>b64_encode\<close> is \<^verbatim>\<open>Buffer.toString("base64")\<close>, and
  \<open>b64_decode\<close> is \<^verbatim>\<open>Buffer.from(s, "base64")\<close> on texts over the standard alphabet
  without their padding.
\<close>

section \<open>Codecs\<close>

text \<open>An encoder and a checking decoder that undoes it.\<close>

locale codec =
  fixes enc :: "'a \<Rightarrow> 'b"
    and dec :: "'b \<Rightarrow> 'e + 'a"
    and ok :: "'a \<Rightarrow> bool"
  assumes dec_enc: "ok x \<Longrightarrow> dec (enc x) = Inr x"
    and dec_ok: "dec y = Inr x \<Longrightarrow> ok x"
begin

lemma enc_inj: "ok x \<Longrightarrow> ok y \<Longrightarrow> enc x = enc y \<Longrightarrow> x = y"
  by (metis dec_enc sum.inject(2))

lemma dec_again: "dec y = Inr x \<Longrightarrow> dec (enc x) = Inr x"
  by (rule dec_enc, rule dec_ok)

end

section \<open>Base64\<close>

definition b64_alphabet :: string where
  "b64_alphabet = ''ABCDEFGHIJKLMNOPQRSTUVWXYZabcdefghijklmnopqrstuvwxyz0123456789+/''"

definition b64_char :: "nat \<Rightarrow> char" where
  "b64_char n = b64_alphabet ! n"

definition b64_val :: "char \<Rightarrow> nat option" where
  "b64_val c = index_of c b64_alphabet"

fun b64_encode :: "byte list \<Rightarrow> string" where
  "b64_encode [] = []"
| "b64_encode [a] = [b64_char (unat a div 4), b64_char (unat a mod 4 * 16), CHR ''='', CHR ''='']"
| "b64_encode [a, b] = [b64_char (unat a div 4), b64_char (unat a mod 4 * 16 + unat b div 16),
     b64_char (unat b mod 16 * 4), CHR ''='']"
| "b64_encode (a # b # c # r) = b64_char (unat a div 4) # b64_char (unat a mod 4 * 16 + unat b div 16)
     # b64_char (unat b mod 16 * 4 + unat c div 64) # b64_char (unat c mod 64) # b64_encode r"

fun b64_bytes :: "nat list \<Rightarrow> byte list" where
  "b64_bytes (v # w # x # y # r) = word_of_nat (v * 4 + w div 16) # word_of_nat (w mod 16 * 16 + x div 4)
     # word_of_nat (x mod 4 * 64 + y) # b64_bytes r"
| "b64_bytes [v, w, x] = [word_of_nat (v * 4 + w div 16), word_of_nat (w mod 16 * 16 + x div 4)]"
| "b64_bytes [v, w] = [word_of_nat (v * 4 + w div 16)]"
| "b64_bytes _ = []"

definition b64_decode :: "string \<Rightarrow> byte list" where
  "b64_decode s = b64_bytes (map (\<lambda>c. the (b64_val c)) s)"

text \<open>\<open>replace(/=+$/, "")\<close>.\<close>

definition strip_pad :: "string \<Rightarrow> string" where
  "strip_pad s = rev (dropWhile (\<lambda>c. c = CHR ''='') (rev s))"

definition to_std :: "string \<Rightarrow> string" where
  "to_std s = map (\<lambda>c. if c = CHR ''-'' then CHR ''+'' else if c = CHR ''_'' then CHR ''/'' else c) s"

definition to_url :: "string \<Rightarrow> string" where
  "to_url s = map (\<lambda>c. if c = CHR ''+'' then CHR ''-'' else if c = CHR ''/'' then CHR ''_'' else c) s"

section \<open>Keys\<close>

datatype key_fault = InvalidEncoding | MixedAlphabets | InvalidPadding | WrongLength nat | NonCanonicalBits

datatype key_error = MeshPublicKeyError string key_fault

definition ED25519_PUBLIC_KEY_BYTES :: nat where "ED25519_PUBLIC_KEY_BYTES = 32"

definition alnum :: "char \<Rightarrow> bool" where
  "alnum c \<longleftrightarrow> 65 \<le> code c \<and> code c \<le> 90 \<or> 97 \<le> code c \<and> code c \<le> 122 \<or> is_digit c"

definition split_padding :: "string \<Rightarrow> string \<times> string" where
  "split_padding raw = (case index_of (CHR ''='') raw of None \<Rightarrow> (raw, []) | Some i \<Rightarrow> (take i raw, drop i raw))"

definition std_only :: "char \<Rightarrow> bool" where "std_only c \<longleftrightarrow> c = CHR ''+'' \<or> c = CHR ''/''"
definition url_only :: "char \<Rightarrow> bool" where "url_only c \<longleftrightarrow> c = CHR ''-'' \<or> c = CHR ''_''"

definition body_pattern :: "bool \<Rightarrow> string \<Rightarrow> bool" where
  "body_pattern url body \<longleftrightarrow> body \<noteq> [] \<and> list_all (\<lambda>c. alnum c \<or> (if url then url_only c else std_only c)) body"

definition padding_pattern :: "string \<Rightarrow> bool" where
  "padding_pattern p \<longleftrightarrow> p = ''='' \<or> p = ''==''"

definition decodeEd25519PublicKey :: "string \<Rightarrow> string \<Rightarrow> key_error + byte list" where
  "decodeEd25519PublicKey raw field =
     (if raw = [] then Inl (MeshPublicKeyError field InvalidEncoding)
      else if list_ex std_only raw \<and> list_ex url_only raw then Inl (MeshPublicKeyError field MixedAlphabets)
      else
        (let (body, padding) = split_padding raw
         in if \<not> body_pattern (list_ex url_only raw) body \<or> (padding \<noteq> [] \<and> \<not> padding_pattern padding)
            then Inl (MeshPublicKeyError field InvalidEncoding)
            else
              (let required = (4 - length body mod 4) mod 4
               in if required = 3 \<or> (0 < length padding \<and> length padding \<noteq> required)
                  then Inl (MeshPublicKeyError field InvalidPadding)
                  else
                    (let normalized = to_std body; bytes = b64_decode normalized
                     in if length bytes \<noteq> ED25519_PUBLIC_KEY_BYTES
                        then Inl (MeshPublicKeyError field (WrongLength (length bytes)))
                        else
                          (let canonical = b64_encode bytes; input = normalized @ padding
                           in if input \<noteq> canonical \<and> input \<noteq> strip_pad canonical
                              then Inl (MeshPublicKeyError field NonCanonicalBits)
                              else Inr bytes)))))"

definition encodeEd25519PublicKey :: "byte list \<Rightarrow> string \<Rightarrow> key_error + string" where
  "encodeEd25519PublicKey bytes field =
     (if length bytes \<noteq> ED25519_PUBLIC_KEY_BYTES then Inl (MeshPublicKeyError field (WrongLength (length bytes)))
      else Inr (b64_encode bytes))"

definition canonicalizeEd25519PublicKey :: "string \<Rightarrow> string \<Rightarrow> key_error + string" where
  "canonicalizeEd25519PublicKey raw field =
     (case decodeEd25519PublicKey raw field of Inl e \<Rightarrow> Inl e | Inr bytes \<Rightarrow> encodeEd25519PublicKey bytes field)"

definition toBase64UrlNoPad :: "byte list \<Rightarrow> string" where
  "toBase64UrlNoPad bytes = strip_pad (to_url (b64_encode bytes))"

text \<open>SHA-256 is the platform's; it is an argument.\<close>

definition publicKeyFingerprint :: "(byte list \<Rightarrow> byte list) \<Rightarrow> byte list \<Rightarrow> string" where
  "publicKeyFingerprint sha256 bytes = take 8 (hex_bytes (sha256 bytes))"

fun bytes_from :: "byte list \<Rightarrow> byte list \<Rightarrow> bool" where
  "bytes_from (a # as) (b # bs) = (if a \<noteq> b then False else bytes_from as bs)"
| "bytes_from _ _ = True"

definition bytesEqual :: "byte list \<Rightarrow> byte list \<Rightarrow> bool" where
  "bytesEqual a b = (if length a \<noteq> length b then False else bytes_from a b)"

section \<open>The alphabet\<close>

definition b64_ok :: "char \<Rightarrow> bool" where
  "b64_ok c \<longleftrightarrow> alnum c \<or> c = CHR ''+'' \<or> c = CHR ''/''"

lemma index_of_nth: "distinct s \<Longrightarrow> i < length s \<Longrightarrow> index_of (s ! i) s = Some i"
  by (induction s arbitrary: i) (auto simp: nth_Cons' split: if_splits)

lemma b64_alphabet_distinct: "distinct b64_alphabet"
  by (simp add: b64_alphabet_def)

lemma b64_alphabet_length: "length b64_alphabet = 64"
  by (simp add: b64_alphabet_def)

lemma b64_alphabet_ok: "list_all b64_ok b64_alphabet"
  by (simp add: b64_alphabet_def b64_ok_def alnum_def is_digit_def)

lemma b64_char_val [simp]: "n < 64 \<Longrightarrow> b64_val (b64_char n) = Some n"
  unfolding b64_val_def b64_char_def by (rule index_of_nth) (simp_all add: b64_alphabet_distinct b64_alphabet_length)

lemma b64_char_class: "n < 64 \<Longrightarrow> b64_ok (b64_char n)"
  using b64_alphabet_ok by (simp add: list_all_length b64_alphabet_length b64_char_def)

lemma alnum_not: "alnum c \<Longrightarrow> c \<notin> {CHR ''='', CHR ''+'', CHR ''/'', CHR ''-'', CHR ''_'', CHR ''~''}"
  by (auto simp: alnum_def is_digit_def)

lemma b64_ok_not: "b64_ok c \<Longrightarrow> c \<noteq> CHR ''='' \<and> c \<noteq> CHR ''-'' \<and> c \<noteq> CHR ''_'' \<and> c \<noteq> CHR ''~''"
  using alnum_not by (auto simp: b64_ok_def)

lemma byte_parts: "unat (a :: byte) div 4 < 64" "unat a mod 4 * 16 + unat (b :: byte) div 16 < 64"
  "unat b mod 16 * 4 + unat (c :: byte) div 64 < 64" "unat a mod 4 * 16 < 64" "unat b mod 16 * 4 < 64" "unat a mod 64 < 64"
  using unat_byte_less [of a] unat_byte_less [of b] unat_byte_less [of c] by auto

lemma byte_rebuild:
  fixes a :: nat
  shows "y < 16 \<Longrightarrow> a div 4 * 4 + (a mod 4 * 16 + y) div 16 = a"
    and "b < 256 \<Longrightarrow> y < 4 \<Longrightarrow> (x * 16 + b div 16) mod 16 * 16 + (b mod 16 * 4 + y) div 4 = b"
    and "c < 256 \<Longrightarrow> (x * 4 + c div 64) mod 4 * 64 + c mod 64 = c"
proof -
  show "y < 16 \<Longrightarrow> a div 4 * 4 + (a mod 4 * 16 + y) div 16 = a" by simp
  show "(x * 16 + b div 16) mod 16 * 16 + (b mod 16 * 4 + y) div 4 = b" if "b < 256" "y < 4"
  proof -
    have "b div 16 < 16" using that(1) by simp
    then have "(x * 16 + b div 16) mod 16 = b div 16" by simp
    moreover have "(b mod 16 * 4 + y) div 4 = b mod 16" using that(2) by simp
    ultimately show ?thesis by simp
  qed
  show "(x * 4 + c div 64) mod 4 * 64 + c mod 64 = c" if "c < 256"
  proof -
    have "c div 64 < 4" using that by simp
    then have "(x * 4 + c div 64) mod 4 = c div 64" by simp
    then show ?thesis by simp
  qed
qed

lemma byte_div_less: "unat (b :: byte) div 16 < 16" "unat b div 64 < 4"
  using unat_byte_less [of b] by auto


section \<open>Encoding and decoding\<close>

fun b64_body :: "byte list \<Rightarrow> string" where
  "b64_body [] = []"
| "b64_body [a] = [b64_char (unat a div 4), b64_char (unat a mod 4 * 16)]"
| "b64_body [a, b] = [b64_char (unat a div 4), b64_char (unat a mod 4 * 16 + unat b div 16), b64_char (unat b mod 16 * 4)]"
| "b64_body (a # b # c # r) = b64_char (unat a div 4) # b64_char (unat a mod 4 * 16 + unat b div 16)
     # b64_char (unat b mod 16 * 4 + unat c div 64) # b64_char (unat c mod 64) # b64_body r"

definition b64_pad :: "byte list \<Rightarrow> string" where
  "b64_pad bs = replicate ((3 - length bs mod 3) mod 3) (CHR ''='')"

lemma b64_encode_split: "b64_encode bs = b64_body bs @ b64_pad bs"
  by (induction bs rule: b64_encode.induct) (simp_all add: b64_pad_def numeral_2_eq_2)

lemma b64_body_ok: "list_all b64_ok (b64_body bs)"
  by (induction bs rule: b64_body.induct) (simp_all add: b64_char_class byte_parts)

lemma b64_decode_body: "b64_decode (b64_body bs) = bs"
proof (induction bs rule: b64_body.induct)
  case (2 a)
  show ?case using byte_rebuild(1) [of 0 "unat a"] by (simp add: b64_decode_def byte_parts)
next
  case (3 a b)
  show ?case using byte_rebuild(1) [OF byte_div_less(1), of "unat a" b] byte_rebuild(2) [of "unat b" 0 "unat a mod 4"]
    by (simp add: b64_decode_def byte_parts unat_byte_less)
next
  case (4 a b c r)
  then show ?case
    using byte_rebuild(1) [OF byte_div_less(1), of "unat a" b] byte_rebuild(2) [OF unat_byte_less byte_div_less(2), of "unat a mod 4" b c]
      byte_rebuild(3) [OF unat_byte_less, of "unat b mod 16" c]
    by (simp add: b64_decode_def byte_parts)
qed (simp add: b64_decode_def)

lemma b64_body_length: "length (b64_body bs) = (4 * length bs + 2) div 3"
  by (induction bs rule: b64_body.induct) simp_all

lemma b64_body_chars: "c \<in> set (b64_body bs) \<Longrightarrow> b64_ok c"
  using b64_body_ok by (simp add: list_all_iff)

lemma dropWhile_pad: "dropWhile (\<lambda>c. c = x) (replicate n x @ ys) = dropWhile (\<lambda>c. c = x) ys"
  by (induction n) simp_all

lemma strip_pad_append: "CHR ''='' \<notin> set s \<Longrightarrow> strip_pad (s @ replicate n (CHR ''='')) = s"
  unfolding strip_pad_def
  by (cases s rule: rev_cases) (auto simp: dropWhile_pad dropWhile_pad [where ys = "[]", simplified])

lemma strip_pad_encode: "strip_pad (b64_encode bs) = b64_body bs"
  unfolding b64_encode_split b64_pad_def
  by (rule strip_pad_append) (use b64_body_chars b64_ok_not in blast)

lemma to_std_ok: "list_all b64_ok s \<Longrightarrow> to_std s = s"
  unfolding to_std_def by (induction s) (auto dest: b64_ok_not)

lemma to_std_url: "list_all b64_ok s \<Longrightarrow> to_std (to_url s) = s"
  unfolding to_std_def to_url_def by (induction s) (auto dest: b64_ok_not)

lemma to_url_std: "list_all (\<lambda>c. alnum c \<or> c = CHR ''_'' \<or> c = CHR ''-'') s \<Longrightarrow> to_url (to_std s) = s"
  unfolding to_std_def to_url_def using alnum_not by (induction s) auto

text \<open>The four spellings of a key: the standard or the URL-safe alphabet, padded or not.\<close>

definition key_spellings :: "byte list \<Rightarrow> string set" where
  "key_spellings bs = {b64_body bs, b64_body bs @ ''='', to_url (b64_body bs), to_url (b64_body bs) @ ''=''}"

lemma split_padding_append:
  "CHR ''='' \<notin> set s \<Longrightarrow> p \<in> {[], ''=''} \<Longrightarrow> split_padding (s @ p) = (s, p)"
proof -
  assume s: "CHR ''='' \<notin> set s" and p: "p \<in> {[], ''=''}"
  show ?thesis
  proof (cases "p = []")
    case True
    have "index_of (CHR ''='') s = None" using s index_of_None by blast
    then show ?thesis by (simp only: split_padding_def True append_Nil2 option.case)
  next
    case False
    then show ?thesis using p index_of_append_skip [OF s, of "[]"] by (simp add: split_padding_def)
  qed
qed

lemma split_padding_inv:
  "split_padding raw = (b, p) \<Longrightarrow> raw = b @ p \<and> CHR ''='' \<notin> set b" (is "_ \<Longrightarrow> ?thesis")
proof (cases "index_of (CHR ''='') raw")
  case None
  then have "CHR ''='' \<notin> set raw" using index_of_None by blast
  then show "split_padding raw = (b, p) \<Longrightarrow> ?thesis" using None by (auto simp: split_padding_def)
next
  case (Some i)
  then show "split_padding raw = (b, p) \<Longrightarrow> ?thesis" using index_of_split [OF Some] by (auto simp: split_padding_def)
qed

lemma pattern_url: "list_all b64_ok s \<Longrightarrow> list_all (\<lambda>c. alnum c \<or> url_only c) (to_url s)"
  unfolding to_url_def by (induction s) (auto simp: b64_ok_def url_only_def)

lemma pattern_std: "list_all b64_ok s \<longleftrightarrow> list_all (\<lambda>c. alnum c \<or> std_only c) s"
  by (simp add: b64_ok_def std_only_def list_all_iff)

lemma not_only: "alnum c \<Longrightarrow> \<not> std_only c" "alnum c \<Longrightarrow> \<not> url_only c" "url_only c \<Longrightarrow> \<not> std_only c"
  using alnum_not [of c] by (auto simp: std_only_def url_only_def)

lemma no_std: "list_all (\<lambda>c. alnum c \<or> url_only c) s \<Longrightarrow> \<not> list_ex std_only s"
  by (induction s) (auto dest: not_only)

lemma no_url: "list_all (\<lambda>c. alnum c \<or> std_only c) s \<Longrightarrow> \<not> list_ex url_only s"
  by (induction s) (auto dest: not_only)

lemma no_eq: "list_all (\<lambda>c. alnum c \<or> std_only c) s \<Longrightarrow> CHR ''='' \<notin> set s"
   "list_all (\<lambda>c. alnum c \<or> url_only c) s \<Longrightarrow> CHR ''='' \<notin> set s"
  by (induction s) (auto simp: std_only_def url_only_def alnum_def is_digit_def)

text \<open>A body of 43 characters that normalizes to the canonical one is accepted.\<close>

lemma decode_body:
  assumes l: "length bs = 32" and p: "p \<in> {[], ''=''}" and s: "to_std s = b64_body bs"
    and pat: "list_all (\<lambda>c. alnum c \<or> url_only c) s \<or> list_all (\<lambda>c. alnum c \<or> std_only c) s"
  shows "decodeEd25519PublicKey (s @ p) f = Inr bs"
proof -
  have ls: "length s = 43" using arg_cong [OF s, of length] l by (simp add: to_std_def b64_body_length)
  then have ne: "s \<noteq> []" by auto
  have eq: "CHR ''='' \<notin> set s" using pat no_eq by blast
  have px: "\<not> list_ex std_only p" "\<not> list_ex url_only p"
    using p by (auto simp: std_only_def url_only_def)
  have mixed: "\<not> (list_ex std_only (s @ p) \<and> list_ex url_only (s @ p))"
    using pat no_std no_url px by auto
  have "list_ex url_only (s @ p) = list_ex url_only s" using px by simp
  moreover have "body_pattern (list_ex url_only s) s"
  proof (cases "list_ex url_only s")
    case True
    then show ?thesis using pat no_url ne by (auto simp: body_pattern_def)
  next
    case False
    then have "list_all (\<lambda>c. alnum c \<or> std_only c) s" using pat by (auto simp: list_all_iff list_ex_iff)
    then show ?thesis using False ne by (simp add: body_pattern_def)
  qed
  ultimately have pattern: "body_pattern (list_ex url_only (s @ p)) s" by simp
  have dec: "b64_decode (to_std s) = bs" using s by (simp add: b64_decode_body)
  have enc: "b64_encode bs = b64_body bs @ ''=''" using l by (simp add: b64_encode_split b64_pad_def)
  have can: "\<not> (to_std s @ p \<noteq> b64_encode bs \<and> to_std s @ p \<noteq> strip_pad (b64_encode bs))"
    unfolding strip_pad_encode unfolding enc s using p by auto
  have pad: "\<not> (p \<noteq> [] \<and> \<not> padding_pattern p)" "\<not> (0 < length p \<and> length p \<noteq> (1 :: nat))"
    using p by (auto simp: padding_pattern_def)
  have lb: "length bs = ED25519_PUBLIC_KEY_BYTES" using l by (simp add: ED25519_PUBLIC_KEY_BYTES_def)
  have req: "(4 - length s mod 4) mod 4 = 1" using ls by simp
  show ?thesis
    unfolding decodeEd25519PublicKey_def split_padding_append [OF eq p] Let_def prod.case dec req
    using ne mixed pattern pad can lb by simp
qed

lemma decode_spelling:
  assumes l: "length bs = 32" and r: "raw \<in> key_spellings bs"
  shows "decodeEd25519PublicKey raw f = Inr bs"
proof -
  have ok: "list_all b64_ok (b64_body bs)" by (rule b64_body_ok)
  have B: "decodeEd25519PublicKey (b64_body bs @ p) f = Inr bs" if "p \<in> {[], ''=''}" for p
    by (rule decode_body [OF l that to_std_ok [OF ok]]) (use ok in \<open>simp add: pattern_std\<close>)
  have U: "decodeEd25519PublicKey (to_url (b64_body bs) @ p) f = Inr bs" if "p \<in> {[], ''=''}" for p
    by (rule decode_body [OF l that to_std_url [OF ok]]) (use pattern_url [OF ok] in simp)
  show ?thesis using r B [of "[]"] B [of "''=''"] U [of "[]"] U [of "''=''"] by (auto simp: key_spellings_def)
qed

lemma to_std_no_pad: "CHR ''='' \<in> set (to_std s) \<longleftrightarrow> CHR ''='' \<in> set s"
  by (auto simp: to_std_def)

lemma decode_checks:
  assumes "decodeEd25519PublicKey raw f = Inr bs" and "split_padding raw = (body, p)"
  shows "body_pattern (list_ex url_only raw) body" "p = [] \<or> padding_pattern p" "bs = b64_decode (to_std body)"
    "length bs = 32" "to_std body @ p = b64_encode bs \<or> to_std body @ p = strip_pad (b64_encode bs)"
  using assms(1) unfolding decodeEd25519PublicKey_def assms(2) Let_def prod.case ED25519_PUBLIC_KEY_BYTES_def
  by (simp_all split: if_split_asm)

lemma decode_only_spelling:
  assumes "decodeEd25519PublicKey raw f = Inr bs"
  shows "length bs = 32 \<and> raw \<in> key_spellings bs"
proof -
  obtain body p where bp: "split_padding raw = (body, p)" by fastforce
  have raw: "raw = body @ p" "CHR ''='' \<notin> set body" using split_padding_inv [OF bp] by auto
  note h = decode_checks [OF assms bp]
  have enc: "b64_encode bs = b64_body bs @ ''=''" using h(4) by (simp add: b64_encode_split b64_pad_def)
  have nB: "CHR ''='' \<notin> set (b64_body bs)" using b64_body_ok pattern_std no_eq(1) by blast
  have nS: "CHR ''='' \<notin> set (to_std body)" using raw(2) by (simp add: to_std_no_pad)
  have sp: "split_padding (u @ p') = (u, p')" if "CHR ''='' \<notin> set u" "p' = [] \<or> padding_pattern p'" for u p'
    using that split_padding_append [OF that(1), of p'] index_of_append_skip [OF that(1), of "''=''"]
    by (auto simp: padding_pattern_def split_padding_def)
  have "split_padding (to_std body @ p) = (to_std body, p)" by (rule sp [OF nS h(2)])
  moreover have "split_padding (b64_body bs @ ''='') = (b64_body bs, ''='')" "split_padding (b64_body bs @ []) = (b64_body bs, [])"
    by (rule sp [OF nB], simp add: padding_pattern_def)+
  moreover have "to_std body @ p = b64_body bs @ ''='' \<or> to_std body @ p = b64_body bs @ []"
    using h(5) unfolding strip_pad_encode unfolding enc by simp
  ultimately have eq: "to_std body = b64_body bs \<and> p \<in> {[], ''=''}"
    by (metis insertCI prod.inject)
  have "body \<in> {b64_body bs, to_url (b64_body bs)}"
  proof (cases "list_ex url_only raw")
    case True
    then have "list_all (\<lambda>c. alnum c \<or> c = CHR ''_'' \<or> c = CHR ''-'') body"
      using h(1) by (auto simp: body_pattern_def url_only_def list_all_iff)
    then show ?thesis using to_url_std [of body] eq by simp
  next
    case False
    then have "list_all b64_ok body" using h(1) by (simp add: body_pattern_def pattern_std)
    then show ?thesis using to_std_ok eq by simp
  qed
  then show ?thesis using h(4) eq raw(1) by (auto simp: key_spellings_def)
qed


section \<open>What the codec promises\<close>

definition key_ok :: "byte list \<Rightarrow> bool" where
  "key_ok bs \<longleftrightarrow> length bs = 32"

lemma b64_encode_spelling: "length bs = 32 \<Longrightarrow> b64_encode bs \<in> key_spellings bs"
  by (simp add: b64_encode_split b64_pad_def key_spellings_def)

interpretation kc: codec b64_encode "\<lambda>s. decodeEd25519PublicKey s f" key_ok for f
proof
  show "key_ok x \<Longrightarrow> decodeEd25519PublicKey (b64_encode x) f = Inr x" for x
    by (simp add: key_ok_def decode_spelling b64_encode_spelling)
  show "decodeEd25519PublicKey y f = Inr x \<Longrightarrow> key_ok x" for y x
    using decode_only_spelling by (simp add: key_ok_def)
qed

text \<open>A text is accepted as the public key \<open>bs\<close> exactly when \<open>bs\<close> has 32 bytes and the text is one of its
  four spellings: the standard or the URL-safe base64 alphabet, with its one padding character or without.
  Mixed alphabets, wrong padding, stray bits in the last character and other lengths are all refused.\<close>

theorem key_decode_iff:
  "decodeEd25519PublicKey raw field = Inr bs \<longleftrightarrow> length bs = 32 \<and>
     raw \<in> {b64_body bs, b64_body bs @ ''='', to_url (b64_body bs), to_url (b64_body bs) @ ''=''}"
  using decode_spelling [of bs raw field] decode_only_spelling [of raw field bs]
  unfolding key_spellings_def by blast

text \<open>Two texts have the same canonical form exactly when they are spellings of the same key, and the canonical form is
  itself a spelling of that key, left unchanged by a second pass. Comparing canonical texts is comparing keys.\<close>

theorem canonical_key_text:
  assumes "decodeEd25519PublicKey raw f = Inr bs" and "decodeEd25519PublicKey raw' f' = Inr bs'"
  shows "\<exists>c c'. canonicalizeEd25519PublicKey raw f = Inr c \<and> canonicalizeEd25519PublicKey raw' f' = Inr c' \<and>
     (c = c' \<longleftrightarrow> bs = bs') \<and> decodeEd25519PublicKey c f = Inr bs \<and> canonicalizeEd25519PublicKey c f = Inr c"
proof -
  have k: "key_ok bs" "key_ok bs'" using kc.dec_ok assms by blast+
  have "canonicalizeEd25519PublicKey raw f = Inr (b64_encode bs)" "canonicalizeEd25519PublicKey raw' f' = Inr (b64_encode bs')"
    using assms k by (simp_all add: canonicalizeEd25519PublicKey_def encodeEd25519PublicKey_def key_ok_def ED25519_PUBLIC_KEY_BYTES_def)
  moreover have d: "decodeEd25519PublicKey (b64_encode bs) f = Inr bs" by (rule kc.dec_enc [OF k(1)])
  moreover have "canonicalizeEd25519PublicKey (b64_encode bs) f = Inr (b64_encode bs)"
    using d k by (simp add: canonicalizeEd25519PublicKey_def encodeEd25519PublicKey_def key_ok_def ED25519_PUBLIC_KEY_BYTES_def)
  moreover have "b64_encode bs = b64_encode bs' \<longleftrightarrow> bs = bs'" using kc.enc_inj [OF k] by blast
  ultimately show ?thesis by blast
qed

definition demo_key :: "byte list" where
  "demo_key = map word_of_nat [0..<31] @ [255]"

lemma canonical_key_text_witness:
  "\<exists>c c'. canonicalizeEd25519PublicKey (b64_body demo_key) [] = Inr c \<and>
     canonicalizeEd25519PublicKey (to_url (b64_body demo_key)) [] = Inr c' \<and>
     (c = c' \<longleftrightarrow> demo_key = demo_key) \<and> decodeEd25519PublicKey c [] = Inr demo_key \<and>
     canonicalizeEd25519PublicKey c [] = Inr c"
  by (rule canonical_key_text) (simp_all add: decode_spelling key_spellings_def demo_key_def)

lemma bytesEqual_eq [simp]: "bytesEqual a b \<longleftrightarrow> a = b"
proof -
  have "length a = length b \<Longrightarrow> bytes_from a b \<longleftrightarrow> a = b" by (induction a b rule: list_induct2) auto
  then show ?thesis by (auto simp: bytesEqual_def)
qed

text \<open>The URL-safe form used in aliases: 43 characters of the alphabet without the tilde.\<close>

lemma toBase64UrlNoPad_body: "toBase64UrlNoPad bs = to_url (b64_body bs)"
proof -
  have n: "CHR ''='' \<notin> set (to_url (b64_body bs))"
    using no_eq(2) [OF pattern_url [OF b64_body_ok]] .
  have "to_url (s @ t) = to_url s @ to_url t" for s t by (simp add: to_url_def)
  moreover have "to_url (replicate n (CHR ''='')) = replicate n (CHR ''='')" for n by (simp add: to_url_def)
  ultimately show ?thesis
    unfolding toBase64UrlNoPad_def b64_encode_split b64_pad_def by (simp add: strip_pad_append [OF n])
qed

lemma toBase64UrlNoPad_inj:
  assumes "toBase64UrlNoPad a = toBase64UrlNoPad b"
  shows "a = b"
proof -
  have "b64_body a = b64_body b" using assms unfolding toBase64UrlNoPad_body by (metis to_std_url b64_body_ok)
  then show ?thesis by (metis b64_decode_body)
qed

lemma length_toBase64UrlNoPad: "length bs = 32 \<Longrightarrow> length (toBase64UrlNoPad bs) = 43"
  by (simp add: toBase64UrlNoPad_body to_url_def b64_body_length)

lemma toBase64UrlNoPad_chars: "c \<in> set (toBase64UrlNoPad bs) \<Longrightarrow> alnum c \<or> c = CHR ''-'' \<or> c = CHR ''_''"
  using pattern_url [OF b64_body_ok, of bs] by (auto simp: toBase64UrlNoPad_body list_all_iff url_only_def)

end
