(* ===== verification/Aliases.thy ===== *)
theory Aliases
  imports KeyCodec "HOL-Library.Multiset"
begin

text \<open>
  Routing aliases: the second half of \<^verbatim>\<open>extension/src/mesh/encoding.ts\<close>. A remote
  machine is addressed by an alias of its public key, the percent-encoded nickname or a
  prefix of the key; \<open>allocateRoutingAliases\<close> gives every key an alias of its own.
\<close>

section \<open>The alias alphabet\<close>

definition isRoutingAliasSafeByte :: "char \<Rightarrow> bool" where
  "isRoutingAliasSafeByte c \<longleftrightarrow>
     (65 \<le> code c \<and> code c \<le> 90) \<or> (97 \<le> code c \<and> code c \<le> 122) \<or> (48 \<le> code c \<and> code c \<le> 57) \<or>
     code c = 46 \<or> code c = 95 \<or> code c = 45"

definition HEXDIG :: "nat \<Rightarrow> char" where
  "HEXDIG n = (if n < 10 then char_of (48 + n) else char_of (55 + n))"

text \<open>\<open>toString(16).toUpperCase().padStart(2, "0")\<close> of a byte.\<close>

definition percent :: "char \<Rightarrow> string" where
  "percent c = [CHR ''%'', HEXDIG (code c div 16), HEXDIG (code c mod 16)]"

definition encodeRoutingAlias :: "string \<Rightarrow> string" where
  "encodeRoutingAlias raw = concat (map (\<lambda>c. if isRoutingAliasSafeByte c then [c] else percent c) raw)"

section \<open>Choosing a nickname\<close>

text \<open>The state of the loop: \<open>selected\<close> with its encoding. \<open>Buffer.compare\<close> orders bytes.\<close>

definition bytes_less :: "string \<Rightarrow> string \<Rightarrow> bool" where
  "bytes_less a b \<longleftrightarrow> map code a < map code b"

definition select_step :: "string \<Rightarrow> (string \<times> string) option \<Rightarrow> (string \<times> string) option" where
  "select_step candidate sel =
     (if candidate = [] then sel
      else
        (let encoded = encodeRoutingAlias candidate
         in case sel of
              None \<Rightarrow> Some (candidate, encoded)
            | Some (selected, selectedEncoded) \<Rightarrow>
                if js_less encoded selectedEncoded \<or> (encoded = selectedEncoded \<and> bytes_less candidate selected)
                then Some (candidate, encoded) else sel))"

definition selectRoutingNickname :: "string list \<Rightarrow> string option" where
  "selectRoutingNickname candidates = map_option fst (fold select_step candidates None)"

section \<open>Allocation\<close>

record alias_input =
  ai_pcPubkey :: string
  ai_nickname :: "string option"

record prepared =
  pr_pcPubkey :: string
  pr_keyUrl :: string
  pr_base :: string

datatype alias_error = BadKey key_error | DuplicateIdentity | CollisionInvariantFailed

definition base_for :: "string option \<Rightarrow> string \<Rightarrow> string" where
  "base_for nickname keyUrl =
     (case nickname of
        Some n \<Rightarrow> if n \<noteq> [] then encodeRoutingAlias n else ''pc-'' @ take 8 keyUrl
      | None \<Rightarrow> ''pc-'' @ take 8 keyUrl)"

fun prepare_all :: "nat \<Rightarrow> alias_input list \<Rightarrow> (string, prepared) jsmap \<Rightarrow> alias_error + (string, prepared) jsmap" where
  "prepare_all index [] m = Inr m"
| "prepare_all index (input # rest) m =
     (case decodeEd25519PublicKey (ai_pcPubkey input) (''routingAliases['' @ show_nat index @ ''].pcPubkey'') of
        Inl e \<Rightarrow> Inl (BadKey e)
      | Inr keyBytes \<Rightarrow>
          (case encodeEd25519PublicKey keyBytes ''public key'' of
             Inl e \<Rightarrow> Inl (BadKey e)
           | Inr pcPubkey \<Rightarrow>
               if mhas m pcPubkey then Inl DuplicateIdentity
               else
                 (let keyUrl = toBase64UrlNoPad keyBytes
                  in prepare_all (Suc index) rest
                       (mput pcPubkey \<lparr>pr_pcPubkey = pcPubkey, pr_keyUrl = keyUrl,
                          pr_base = base_for (ai_nickname input) keyUrl\<rparr> m))))"

definition add_to_group :: "prepared \<Rightarrow> (string, prepared list) jsmap \<Rightarrow> (string, prepared list) jsmap" where
  "add_to_group identity groups =
     (case mget groups (pr_base identity) of
        Some grp \<Rightarrow> mput (pr_base identity) (grp @ [identity]) groups
      | None \<Rightarrow> mput (pr_base identity) [identity] groups)"

text \<open>\<open>aliasByKey\<close> and \<open>allocatedAliases\<close>, the set in insertion order.\<close>

type_synonym alloc = "(string, string) jsmap \<times> string list"

definition give :: "string \<Rightarrow> string \<Rightarrow> alloc \<Rightarrow> alloc" where
  "give key alias a = (mput key alias (fst a), List.insert alias (snd a))"

definition give_single :: "prepared list \<Rightarrow> alloc \<Rightarrow> alloc" where
  "give_single grp a = (case grp of [identity] \<Rightarrow> give (pr_pcPubkey identity) (pr_base identity) a | _ \<Rightarrow> a)"

definition candidates_at :: "string \<Rightarrow> prepared list \<Rightarrow> nat \<Rightarrow> string list" where
  "candidates_at base grp n = map (\<lambda>identity. base @ ''~'' @ take n (pr_keyUrl identity)) grp"

function try_prefixes :: "string list \<Rightarrow> string list \<Rightarrow> string \<Rightarrow> prepared list \<Rightarrow> nat \<Rightarrow> nat \<Rightarrow> string list option" where
  "try_prefixes reserved allocated base grp full n =
     (if full < n then None
      else
        (let candidates = candidates_at base grp n;
             conflicts = list_ex (\<lambda>c. c \<in> set reserved \<or> c \<in> set allocated) candidates
         in if length (remdups candidates) \<noteq> length grp \<or> conflicts
            then try_prefixes reserved allocated base grp full (Suc n)
            else Some candidates))"
  by pat_completeness auto
termination
  by (relation "measure (\<lambda>(_, _, _, _, full, n). Suc full - n)") auto

declare try_prefixes.simps [simp del]

fun give_groups :: "string list \<Rightarrow> (string \<times> prepared list) list \<Rightarrow> alloc \<Rightarrow> alias_error + alloc" where
  "give_groups reserved [] a = Inr a"
| "give_groups reserved ((base, grp) # rest) a =
     (case try_prefixes reserved (snd a) base grp (length (pr_keyUrl (hd grp))) 8 of
        None \<Rightarrow> Inl CollisionInvariantFailed
      | Some candidates \<Rightarrow>
          give_groups reserved rest
            (fold (\<lambda>(identity, alias). give (pr_pcPubkey identity) alias) (zip grp candidates) a))"

definition alias_groups :: "prepared list \<Rightarrow> (string, prepared list) jsmap" where
  "alias_groups prepared = fold add_to_group prepared []"

definition colliding_groups :: "(string, prepared list) jsmap \<Rightarrow> (string \<times> prepared list) list" where
  "colliding_groups groups = sort_key (\<lambda>(base, _). u16_key base) (filter (\<lambda>(_, grp). 1 < length grp) groups)"

definition allocateRoutingAliases :: "alias_input list \<Rightarrow> alias_error + (string, string) jsmap" where
  "allocateRoutingAliases inputs =
     (case prepare_all 0 inputs [] of
        Inl e \<Rightarrow> Inl e
      | Inr preparedByKey \<Rightarrow>
          (let prepared = sort_key (\<lambda>p. u16_key (pr_pcPubkey p)) (mvals preparedByKey);
               groups = alias_groups prepared;
               singles = fold give_single (mvals groups) ([], [])
           in case give_groups (mkeys groups) (colliding_groups groups) singles of
                Inl e \<Rightarrow> Inl e
              | Inr a \<Rightarrow> Inr (map (\<lambda>p. (pr_pcPubkey p, the (mget (fst a) (pr_pcPubkey p)))) prepared)))"

section \<open>Encoding\<close>

definition alias_char :: "char \<Rightarrow> bool" where
  "alias_char c \<longleftrightarrow> isRoutingAliasSafeByte c \<or> c = CHR ''%''"

lemma HEXDIG_safe: "n < 16 \<Longrightarrow> isRoutingAliasSafeByte (HEXDIG n)"
  by (auto simp: HEXDIG_def isRoutingAliasSafeByte_def of_char_of take_bit_eq_mod)

lemma HEXDIG_inj: "n < 16 \<Longrightarrow> m < 16 \<Longrightarrow> HEXDIG n = HEXDIG m \<Longrightarrow> n = m"
proof -
  assume n: "n < 16" and m: "m < 16" and e: "HEXDIG n = HEXDIG m"
  have "code (HEXDIG k) = (if k < 10 then 48 + k else 55 + k)" if "k < 16" for k
    using that by (auto simp: HEXDIG_def of_char_of take_bit_eq_mod)
  from this [OF n] this [OF m] arg_cong [OF e, of code]
  have "(if n < 10 then 48 + n else 55 + n) = (if m < 10 then 48 + m else 55 + m)" by metis
  then show "n = m" by (simp split: if_split_asm)
qed

lemma code_div_16: "code c div 16 < 16"
  by (simp add: div_less_iff_less_mult)

lemma percent_inj: "percent c = percent d \<Longrightarrow> c = d"
proof -
  assume e: "percent c = percent d"
  have "code c div 16 = code d div 16" "code c mod 16 = code d mod 16"
    using e HEXDIG_inj [OF code_div_16 code_div_16, of c d] HEXDIG_inj [of "code c mod 16" "code d mod 16"]
    by (simp_all add: percent_def)
  then have "code c = code d" by (metis div_mult_mod_eq)
  then show "c = d" by simp
qed

lemma encode_alias_chars: "c \<in> set (encodeRoutingAlias s) \<Longrightarrow> alias_char c"
  by (auto simp: encodeRoutingAlias_def percent_def alias_char_def HEXDIG_safe code_div_16 split: if_splits)

lemma percent_not_safe: "\<not> isRoutingAliasSafeByte (CHR ''%'')"
  by (simp add: isRoutingAliasSafeByte_def)

lemma encodeRoutingAlias_simps [simp]:
  "encodeRoutingAlias [] = []"
  "encodeRoutingAlias (c # s) = (if isRoutingAliasSafeByte c then [c] else percent c) @ encodeRoutingAlias s"
  by (simp_all add: encodeRoutingAlias_def)

lemma encodeRoutingAlias_inj: "encodeRoutingAlias a = encodeRoutingAlias b \<Longrightarrow> a = b"
proof (induction a arbitrary: b)
  case Nil
  then show ?case by (cases b) (auto simp: percent_def split: if_splits)
next
  case (Cons c a)
  obtain d b' where b: "b = d # b'" using Cons.prems by (cases b) (auto simp: percent_def split: if_splits)
  have ne: "isRoutingAliasSafeByte x \<Longrightarrow> x \<noteq> CHR ''%''" for x using percent_not_safe by auto
  have "c = d \<and> encodeRoutingAlias a = encodeRoutingAlias b'"
  proof (cases "isRoutingAliasSafeByte c \<longleftrightarrow> isRoutingAliasSafeByte d")
    case True
    have "(if isRoutingAliasSafeByte c then [c] else percent c) = (if isRoutingAliasSafeByte d then [d] else percent d) \<and>
        encodeRoutingAlias a = encodeRoutingAlias b'"
      using Cons.prems True unfolding b by (auto simp: percent_def)
    then show ?thesis using True percent_inj by (auto split: if_splits)
  next
    case False
    then show ?thesis using Cons.prems ne unfolding b by (auto simp: percent_def split: if_splits)
  qed
  then show ?case using Cons.IH b by simp
qed

text \<open>The nickname chosen is the one whose encoding comes first.\<close>

lemma select_step_cases:
  "select_step x sel = (if x = [] then sel else
     case sel of None \<Rightarrow> Some (x, encodeRoutingAlias x)
       | Some (s, e) \<Rightarrow> if js_less (encodeRoutingAlias x) e \<or> (encodeRoutingAlias x = e \<and> bytes_less x s)
           then Some (x, encodeRoutingAlias x) else sel)"
  by (simp add: select_step_def Let_def)

definition best_of :: "string set \<Rightarrow> (string \<times> string) option \<Rightarrow> bool" where
  "best_of S sel \<longleftrightarrow> (case sel of None \<Rightarrow> S = {}
     | Some (s, e) \<Rightarrow> e = encodeRoutingAlias s \<and> s \<in> S \<and> (\<forall>t \<in> S. t = s \<or> js_less (encodeRoutingAlias s) (encodeRoutingAlias t)))"

lemma best_of_step: "best_of S sel \<Longrightarrow> best_of (S \<union> ({x} - {[]})) (select_step x sel)"
proof (cases sel)
  case (Some se)
  obtain s e where se: "se = (s, e)" by (cases se)
  assume "best_of S sel"
  then have h: "e = encodeRoutingAlias s" "s \<in> S" "\<And>t. t \<in> S \<Longrightarrow> t = s \<or> js_less (encodeRoutingAlias s) (encodeRoutingAlias t)"
    by (auto simp: best_of_def Some se)
  show ?thesis
  proof (cases "x = [] \<or> x = s")
    case True
    then show ?thesis using h
      by (auto simp: best_of_def select_step_cases Some se bytes_less_def)
  next
    case False
    then have ne: "encodeRoutingAlias x \<noteq> encodeRoutingAlias s" using encodeRoutingAlias_inj by blast
    show ?thesis
    proof (cases "js_less (encodeRoutingAlias x) (encodeRoutingAlias s)")
      case True
      have "\<forall>t \<in> S \<union> ({x} - {[]}). t = x \<or> js_less (encodeRoutingAlias x) (encodeRoutingAlias t)"
      proof
        fix t assume "t \<in> S \<union> ({x} - {[]})"
        then consider "t = x" | "t = s" | "js_less (encodeRoutingAlias s) (encodeRoutingAlias t)" using h(3) [of t] by blast
        then show "t = x \<or> js_less (encodeRoutingAlias x) (encodeRoutingAlias t)"
          using True js_less_trans [OF True] by cases auto
      qed
      then show ?thesis using True False h by (simp add: best_of_def select_step_cases Some se)
    next
      case no: False
      then have "js_less (encodeRoutingAlias s) (encodeRoutingAlias x)" using ne js_less_linear by metis
      then show ?thesis using no False ne h by (auto simp: best_of_def select_step_cases Some se)
    qed
  qed
qed (auto simp: best_of_def select_step_cases)

lemma best_of_fold: "best_of S sel \<Longrightarrow> best_of (S \<union> (set xs - {[]})) (fold select_step xs sel)"
proof (induction xs arbitrary: S sel)
  case (Cons x xs)
  have "S \<union> ({x} - {[]}) \<union> (set xs - {[]}) = S \<union> (set (x # xs) - {[]})" by auto
  then show ?case using Cons.IH [OF best_of_step [OF Cons.prems], of x] by (simp only: fold_simps)
qed simp


section \<open>Preparing the keys\<close>

definition key_bytes :: "alias_input \<Rightarrow> byte list" where
  "key_bytes i = (case decodeEd25519PublicKey (ai_pcPubkey i) [] of Inr bs \<Rightarrow> bs | Inl _ \<Rightarrow> [])"

definition prep :: "alias_input \<Rightarrow> prepared" where
  "prep i = \<lparr>pr_pcPubkey = b64_encode (key_bytes i), pr_keyUrl = toBase64UrlNoPad (key_bytes i),
     pr_base = base_for (ai_nickname i) (toBase64UrlNoPad (key_bytes i))\<rparr>"

definition valid_key :: "alias_input \<Rightarrow> bool" where
  "valid_key i \<longleftrightarrow> (\<exists>bs. decodeEd25519PublicKey (ai_pcPubkey i) [] = Inr bs)"

lemma decode_field: "decodeEd25519PublicKey raw f = Inr bs \<longleftrightarrow> decodeEd25519PublicKey raw f' = Inr bs"
  by (meson decode_only_spelling decode_spelling)

lemma mput_fresh: "\<not> mhas m k \<Longrightarrow> mput k v m = m @ [(k, v)]"
  by (induction m) (auto simp: mhas_def split: if_splits)

lemma prepare_all_iff:
  "prepare_all n inputs m = Inr m' \<longleftrightarrow> (\<forall>i \<in> set inputs. valid_key i) \<and>
     distinct (map (pr_pcPubkey \<circ> prep) inputs) \<and> (\<forall>i \<in> set inputs. \<not> mhas m (pr_pcPubkey (prep i))) \<and>
     m' = m @ map (\<lambda>i. (pr_pcPubkey (prep i), prep i)) inputs"
proof (induction inputs arbitrary: n m)
  case (Cons i inputs)
  show ?case
  proof (cases "decodeEd25519PublicKey (ai_pcPubkey i) (''routingAliases['' @ show_nat n @ ''].pcPubkey'')")
    case (Inl e)
    have "\<not> valid_key i"
    proof
      assume "valid_key i"
      then obtain bs where "decodeEd25519PublicKey (ai_pcPubkey i) [] = Inr bs" by (auto simp: valid_key_def)
      from iffD1 [OF decode_field this] Inl show False by simp
    qed
    then show ?thesis using Inl by simp
  next
    case (Inr bs)
    then have d: "decodeEd25519PublicKey (ai_pcPubkey i) [] = Inr bs" by (rule iffD1 [OF decode_field])
    then have kb: "key_bytes i = bs" and v: "valid_key i" by (simp_all add: key_bytes_def valid_key_def)
    have e: "encodeEd25519PublicKey bs ''public key'' = Inr (b64_encode bs)"
      using decode_only_spelling [OF d] by (simp add: encodeEd25519PublicKey_def ED25519_PUBLIC_KEY_BYTES_def)
    have p: "prep i = \<lparr>pr_pcPubkey = b64_encode bs, pr_keyUrl = toBase64UrlNoPad bs,
        pr_base = base_for (ai_nickname i) (toBase64UrlNoPad bs)\<rparr>" by (simp add: prep_def kb)
    show ?thesis
    proof (cases "mhas m (b64_encode bs)")
      case True
      then show ?thesis using Inr e p by simp
    next
      case False
      define k where "k = b64_encode bs"
      have pk: "pr_pcPubkey (prep i) = k" by (simp add: p k_def)
      have eq: "prepare_all n (i # inputs) m = prepare_all (Suc n) inputs (m @ [(k, prep i)])"
        using Inr e False by (simp add: mput_fresh p k_def Let_def)
      have has: "mhas (m @ [(k, prep i)]) x \<longleftrightarrow> mhas m x \<or> x = k" for x
        by (auto simp: mhas_def map_add_def split: option.splits)
      have "\<not> mhas m k" using False by (simp add: k_def)
      then show ?thesis unfolding eq Cons.IH has using v pk by (auto simp: image_iff comp_def)
    qed
  qed
qed auto

lemma prep_key_inj:
  "valid_key i \<Longrightarrow> valid_key j \<Longrightarrow> pr_pcPubkey (prep i) = pr_pcPubkey (prep j) \<longleftrightarrow> key_bytes i = key_bytes j"
proof -
  assume "valid_key i" "valid_key j"
  then have "length (key_bytes i) = 32" "length (key_bytes j) = 32"
    using decode_only_spelling by (auto simp: valid_key_def key_bytes_def)
  then show ?thesis using kc.enc_inj by (auto simp: prep_def key_ok_def)
qed

text \<open>What the rest of the allocation relies on.\<close>

abbreviation tilde_head :: "string \<Rightarrow> string" where
  "tilde_head \<equiv> takeWhile (\<lambda>c. c \<noteq> CHR ''~'')"

text \<open>No colon and no slash: what comes before the first colon of an address can be such an alias.\<close>

definition plain :: "string \<Rightarrow> bool" where
  "plain s \<longleftrightarrow> s \<noteq> [] \<and> CHR '':'' \<notin> set s \<and> CHR ''/'' \<notin> set s \<and> CHR 0x5C \<notin> set s"

definition alias_of :: "string \<Rightarrow> string \<Rightarrow> bool" where
  "alias_of b al \<longleftrightarrow> tilde_head al = b \<and> plain al"

definition prepared_ok :: "prepared list \<Rightarrow> bool" where
  "prepared_ok ps \<longleftrightarrow> distinct (map pr_pcPubkey ps) \<and> distinct (map pr_keyUrl ps) \<and>
     (\<forall>p \<in> set ps. length (pr_keyUrl p) = 43 \<and> CHR ''~'' \<notin> set (pr_base p) \<and>
        plain (pr_base p) \<and> plain (pr_keyUrl p))"

lemma safe_not_tilde: "isRoutingAliasSafeByte c \<Longrightarrow> c \<noteq> CHR ''~'' \<and> c \<noteq> CHR '':'' \<and> c \<noteq> CHR ''/'' \<and> c \<noteq> CHR 0x5C"
  by (auto simp: isRoutingAliasSafeByte_def)

lemma url_safe: "c \<in> set (toBase64UrlNoPad bs) \<Longrightarrow> isRoutingAliasSafeByte c"
  using toBase64UrlNoPad_chars by (fastforce simp: isRoutingAliasSafeByte_def alnum_def is_digit_def)

lemma base_for_chars:
  assumes "\<And>c. c \<in> set k \<Longrightarrow> isRoutingAliasSafeByte c" and "c \<in> set (base_for n k)"
  shows "alias_char c"
proof -
  have "alias_char c" if "c \<in> set (''pc-'' @ take 8 k)"
  proof -
    have "c = CHR ''p'' \<or> c = CHR ''c'' \<or> c = CHR ''-'' \<or> c \<in> set k"
      using that unfolding set_append by (auto dest: in_set_takeD [of c 8 k])
    then show ?thesis
    proof (elim disjE)
      assume "c \<in> set k"
      then show ?thesis by (simp add: alias_char_def assms(1))
    qed (simp_all add: alias_char_def isRoutingAliasSafeByte_def)
  qed
  then show ?thesis using assms(2) encode_alias_chars [of c]
    by (simp only: base_for_def split: option.splits if_splits)
qed

lemma base_for_ne: "base_for n k \<noteq> []"
proof (cases n)
  case (Some x)
  then show ?thesis by (cases x) (auto simp: base_for_def percent_def)
qed (simp add: base_for_def)

lemma prepare_ok:
  assumes "prepare_all 0 inputs [] = Inr m" and "mset ps = mset (mvals m)"
  shows "prepared_ok ps"
proof -
  have m: "m = map (\<lambda>i. (pr_pcPubkey (prep i), prep i)) inputs" and v: "\<forall>i \<in> set inputs. valid_key i"
    and d: "distinct (map (pr_pcPubkey \<circ> prep) inputs)"
    using assms(1) by (auto simp: prepare_all_iff)
  have mv: "mvals m = map prep inputs" by (simp add: m)
  have set: "set ps = prep ` set inputs" using mset_eq_setD [OF assms(2)] mv by simp
  have "mset (map pr_pcPubkey ps) = mset (map (pr_pcPubkey \<circ> prep) inputs)"
    "mset (map pr_keyUrl ps) = mset (map (pr_keyUrl \<circ> prep) inputs)"
    using assms(2) mv by (metis map_map mset_map)+
  moreover have "distinct (map (pr_keyUrl \<circ> prep) inputs)"
  proof -
    have "inj_on (pr_keyUrl \<circ> prep) (set inputs)"
    proof (rule inj_onI)
      fix i j assume ij: "i \<in> set inputs" "j \<in> set inputs" "(pr_keyUrl \<circ> prep) i = (pr_keyUrl \<circ> prep) j"
      then have "key_bytes i = key_bytes j" using toBase64UrlNoPad_inj by (simp add: prep_def)
      then have "(pr_pcPubkey \<circ> prep) i = (pr_pcPubkey \<circ> prep) j" by (simp add: prep_def)
      then show "i = j" using d ij(1,2) by (simp add: distinct_map inj_on_def)
    qed
    then show ?thesis using d by (simp add: distinct_map)
  qed
  ultimately have "distinct (map pr_pcPubkey ps)" "distinct (map pr_keyUrl ps)"
    using d by (metis mset_eq_imp_distinct_iff)+
  moreover have "length (pr_keyUrl p) = 43 \<and> CHR ''~'' \<notin> set (pr_base p) \<and> plain (pr_base p) \<and> plain (pr_keyUrl p)"
    if pin: "p \<in> set ps" for p
  proof -
    obtain i where i: "i \<in> set inputs" "p = prep i" using pin set by auto
    then have "length (key_bytes i) = 32" using v decode_only_spelling by (auto simp: valid_key_def key_bytes_def)
    then have len: "length (pr_keyUrl p) = 43" using i by (simp add: prep_def length_toBase64UrlNoPad)
    have safe: "c \<noteq> CHR ''~'' \<and> c \<noteq> CHR '':'' \<and> c \<noteq> CHR ''/'' \<and> c \<noteq> CHR 0x5C" if "alias_char c" for c
      using that safe_not_tilde by (auto simp: alias_char_def)
    have "alias_char c" if "c \<in> set (pr_base p)" for c
      by (rule base_for_chars [OF url_safe]) (use that i in \<open>simp_all add: prep_def\<close>)
    moreover have "alias_char c" if "c \<in> set (pr_keyUrl p)" for c
      using url_safe [of c "key_bytes i"] that i by (simp add: prep_def alias_char_def)
    moreover have "pr_base p \<noteq> []" using i by (auto simp: prep_def base_for_ne)
    ultimately show ?thesis using safe len unfolding plain_def by (metis list.size(3) zero_neq_numeral)
  qed
  ultimately show ?thesis by (simp add: prepared_ok_def)
qed


section \<open>Groups\<close>

lemma alias_groups_get:
  "mwf (alias_groups ps) \<and> mget (alias_groups ps) b =
     (let g = filter (\<lambda>p. pr_base p = b) ps in if g = [] then None else Some g)"
proof (induction ps rule: rev_induct)
  case (snoc p ps)
  have e: "alias_groups (ps @ [p]) = add_to_group p (alias_groups ps)" by (simp add: alias_groups_def)
  have w: "mwf (alias_groups (ps @ [p]))" using snoc by (simp add: e add_to_group_def split: option.split)
  show ?case
  proof (cases "b = pr_base p")
    case True
    then show ?thesis using snoc w by (auto simp: e add_to_group_def Let_def split: option.splits if_splits)
  next
    case False
    then show ?thesis using snoc w by (auto simp: e add_to_group_def Let_def split: option.splits)
  qed
qed (simp add: alias_groups_def)

lemma alias_groups_entry:
  "(b, grp) \<in> set (alias_groups ps) \<longleftrightarrow> grp = filter (\<lambda>p. pr_base p = b) ps \<and> grp \<noteq> []"
  using alias_groups_get [of ps b] by (auto simp: mwf_mget Let_def split: if_splits)

lemma alias_groups_keys: "set (mkeys (alias_groups ps)) = pr_base ` set ps"
proof -
  have "b \<in> set (mkeys (alias_groups ps)) \<longleftrightarrow> b \<in> pr_base ` set ps" for b
    using alias_groups_get [of ps b] mhas_keys [of "alias_groups ps" b]
    by (auto simp: mhas_def Let_def filter_empty_conv split: if_splits)
  then show ?thesis by blast
qed

section \<open>The allocation invariant\<close>

text \<open>The bases in \<open>done\<close> are finished: their keys have aliases that begin with the base, all distinct.\<close>

definition alloc_ok :: "prepared list \<Rightarrow> string set \<Rightarrow> alloc \<Rightarrow> bool" where
  "alloc_ok ps done a \<longleftrightarrow>
     (\<forall>k al. mget (fst a) k = Some al \<longrightarrow> (\<exists>p \<in> set ps. pr_pcPubkey p = k \<and> pr_base p \<in> done \<and> alias_of (pr_base p) al)) \<and>
     (\<forall>p \<in> set ps. pr_base p \<in> done \<longrightarrow> mhas (fst a) (pr_pcPubkey p)) \<and>
     (\<forall>k k' al. mget (fst a) k = Some al \<longrightarrow> mget (fst a) k' = Some al \<longrightarrow> k = k') \<and>
     (\<forall>al. al \<in> set (snd a) \<longleftrightarrow> (\<exists>k. mget (fst a) k = Some al))"

lemma alloc_okD: "alloc_ok ps done a \<Longrightarrow> mget (fst a) k = Some al \<Longrightarrow>
    \<exists>p \<in> set ps. pr_pcPubkey p = k \<and> pr_base p \<in> done \<and> alias_of (pr_base p) al"
  by (simp add: alloc_ok_def)

text \<open>Giving a list of aliases to a group.\<close>

abbreviation give_all :: "prepared list \<Rightarrow> string list \<Rightarrow> alloc \<Rightarrow> alloc" where
  "give_all grp cs a \<equiv> fold (\<lambda>(identity, alias). give (pr_pcPubkey identity) alias) (zip grp cs) a"

lemma give_all_get:
  "length grp = length cs \<Longrightarrow> distinct (map pr_pcPubkey grp) \<Longrightarrow>
     mget (fst (give_all grp cs a)) k =
       (case map_of (zip (map pr_pcPubkey grp) cs) k of Some al \<Rightarrow> Some al | None \<Rightarrow> mget (fst a) k) \<and>
     set (snd (give_all grp cs a)) = set (snd a) \<union> set cs"
proof (induction grp cs arbitrary: a rule: list_induct2)
  case (Cons p grp c cs)
  have "map_of (zip (map pr_pcPubkey grp) cs) (pr_pcPubkey p) = None"
    using Cons.prems Cons.hyps by (subst map_of_zip_is_None) simp_all
  note none = this
  define a' where "a' = give (pr_pcPubkey p) c a"
  have st: "give_all (p # grp) (c # cs) a = give_all grp cs a'" by (simp add: a'_def)
  have ih: "mget (fst (give_all grp cs a')) k =
       (case map_of (zip (map pr_pcPubkey grp) cs) k of Some al \<Rightarrow> Some al | None \<Rightarrow> mget (fst a') k)"
    "set (snd (give_all grp cs a')) = set (snd a') \<union> set cs"
    using Cons.IH [of a'] Cons.prems by simp_all
  have a': "mget (fst a') k = (if k = pr_pcPubkey p then Some c else mget (fst a) k)" "set (snd a') = insert c (set (snd a))"
    by (simp_all add: a'_def give_def)
  show ?case unfolding st ih a' using none by (cases "k = pr_pcPubkey p") auto
qed simp

lemma alloc_ok_step:
  assumes a: "alloc_ok ps done a" and b: "b \<notin> done" and ps: "prepared_ok ps"
    and g: "grp = filter (\<lambda>p. pr_base p = b) ps"
    and cs: "length cs = length grp" "distinct cs" "\<And>c. c \<in> set cs \<Longrightarrow> alias_of b c"
  shows "alloc_ok ps (insert b done) (give_all grp cs a)"
proof -
  define z where "z = zip (map pr_pcPubkey grp) cs"
  have dk: "distinct (map pr_pcPubkey grp)" using ps by (simp add: g prepared_ok_def distinct_map_filter)
  have len: "length grp = length cs" using cs(1) by simp
  have get: "mget (fst (give_all grp cs a)) k = (case map_of z k of Some al \<Rightarrow> Some al | None \<Rightarrow> mget (fst a) k)" for k
    using give_all_get [OF len dk] by (simp add: z_def)
  have alc: "set (snd (give_all grp cs a)) = set (snd a) \<union> set cs"
    using give_all_get [OF len dk] by simp
  have zS: "\<exists>p \<in> set grp. pr_pcPubkey p = k \<and> al \<in> set cs" if "map_of z k = Some al" for k al
    using map_of_SomeD [OF that] unfolding z_def by (metis in_set_zipE image_iff set_map)
  have zN: "map_of z k = None \<longleftrightarrow> k \<notin> pr_pcPubkey ` set grp" for k
    unfolding z_def using len by (subst map_of_zip_is_None) simp_all
  have z_inj: "k = k'" if "map_of z k = Some al" "map_of z k' = Some al" for k k' al
  proof -
    from map_of_SomeD [OF that(1)] obtain i where i: "i < length z" "z ! i = (k, al)" by (auto simp: in_set_conv_nth)
    from map_of_SomeD [OF that(2)] obtain j where j: "j < length z" "z ! j = (k', al)" by (auto simp: in_set_conv_nth)
    have "cs ! i = cs ! j" using i j by (simp add: z_def)
    moreover have "i < length cs" "j < length cs" using i j by (simp_all add: z_def)
    ultimately have "i = j" using nth_eq_iff_index_eq [OF cs(2)] by blast
    then show ?thesis using i j by simp
  qed
  have grp_in: "p \<in> set ps \<and> pr_base p = b" if "p \<in> set grp" for p using that by (simp add: g)
  have old: "\<exists>p \<in> set ps. pr_pcPubkey p = k \<and> pr_base p \<in> done \<and> alias_of (pr_base p) al" if "mget (fst a) k = Some al" for k al
    using a that by (auto simp: alloc_ok_def)
  have inj_key: "p = q" if "p \<in> set ps" "q \<in> set ps" "pr_pcPubkey p = pr_pcPubkey q" for p q
    using that ps by (auto simp: prepared_ok_def distinct_map inj_on_def)
  have fresh: "al \<notin> set cs" if "mget (fst a) k = Some al" for k al
    using old [OF that] cs(3) b by (auto simp: alias_of_def)
  have zfresh: "mget (fst a) k = None" if "map_of z k = Some al" for k al
  proof (rule ccontr)
    assume "mget (fst a) k \<noteq> None"
    then obtain al' where al': "mget (fst a) k = Some al'" by auto
    obtain p where p: "p \<in> set grp" "pr_pcPubkey p = k" using zS [OF \<open>map_of z k = Some al\<close>] by auto
    obtain q where q: "q \<in> set ps" "pr_pcPubkey q = k" "pr_base q \<in> done" using old [OF al'] by auto
    have "p = q" using inj_key [of p q] grp_in [OF p(1)] p q by simp
    then show False using grp_in [OF p(1)] q b by simp
  qed
  show ?thesis unfolding alloc_ok_def
  proof (intro conjI allI ballI impI)
    fix k al assume k: "mget (fst (give_all grp cs a)) k = Some al"
    show "\<exists>p \<in> set ps. pr_pcPubkey p = k \<and> pr_base p \<in> insert b done \<and> alias_of (pr_base p) al"
    proof (cases "map_of z k")
      case None
      then show ?thesis using k old [of k al] by (auto simp: get)
    next
      case (Some al')
      then show ?thesis using k zS [OF Some] grp_in cs(3) by (fastforce simp: get)
    qed
  next
    fix p assume p: "p \<in> set ps" "pr_base p \<in> insert b done"
    show "mhas (fst (give_all grp cs a)) (pr_pcPubkey p)"
    proof (cases "pr_base p = b")
      case True
      then have "p \<in> set grp" using p by (simp add: g)
      then have "map_of z (pr_pcPubkey p) \<noteq> None" by (simp add: zN)
      then show ?thesis by (auto simp: mhas_def get)
    next
      case False
      then have "mhas (fst a) (pr_pcPubkey p)" using p a by (simp add: alloc_ok_def)
      then show ?thesis by (auto simp: mhas_def get split: option.split)
    qed
  next
    fix k k' al assume k: "mget (fst (give_all grp cs a)) k = Some al" "mget (fst (give_all grp cs a)) k' = Some al"
    show "k = k'"
    proof (cases "map_of z k"; cases "map_of z k'")
      assume "map_of z k = None" "map_of z k' = None"
      then have "mget (fst a) k = Some al" "mget (fst a) k' = Some al" using k by (simp_all add: get)
      then show ?thesis using a unfolding alloc_ok_def by metis
    next
      fix x assume h: "map_of z k = None" "map_of z k' = Some x"
      then have "mget (fst a) k = Some al" "al \<in> set cs" using k zS [OF h(2)] by (auto simp: get)
      then show ?thesis using fresh by blast
    next
      fix x assume h: "map_of z k = Some x" "map_of z k' = None"
      then have "mget (fst a) k' = Some al" "al \<in> set cs" using k zS [OF h(1)] by (auto simp: get)
      then show ?thesis using fresh by blast
    next
      fix x y assume "map_of z k = Some x" "map_of z k' = Some y"
      then show ?thesis using k z_inj by (simp add: get)
    qed
  next
    fix al
    have "al \<in> set cs \<longleftrightarrow> (\<exists>k. map_of z k = Some al)"
    proof
      assume "al \<in> set cs"
      then obtain i where i: "i < length cs" "cs ! i = al" by (auto simp: in_set_conv_nth)
      then have "z ! i = (pr_pcPubkey (grp ! i), al)" "i < length z" using len by (simp_all add: z_def)
      then have "(pr_pcPubkey (grp ! i), al) \<in> set z" by (metis nth_mem)
      moreover have "distinct (map fst z)" using dk len by (simp add: z_def)
      ultimately show "\<exists>k. map_of z k = Some al" by (auto simp: map_of_eq_Some_iff)
    qed (use zS in blast)
    moreover have "al \<in> set (snd a) \<longleftrightarrow> (\<exists>k. mget (fst a) k = Some al)" using a by (simp add: alloc_ok_def)
    moreover have "(\<exists>k. mget (fst (give_all grp cs a)) k = Some al) \<longleftrightarrow> (\<exists>k. map_of z k = Some al) \<or> (\<exists>k. mget (fst a) k = Some al)"
    proof
      assume "\<exists>k. mget (fst (give_all grp cs a)) k = Some al"
      then show "(\<exists>k. map_of z k = Some al) \<or> (\<exists>k. mget (fst a) k = Some al)" by (auto simp: get split: option.splits)
    next
      assume "(\<exists>k. map_of z k = Some al) \<or> (\<exists>k. mget (fst a) k = Some al)"
      then show "\<exists>k. mget (fst (give_all grp cs a)) k = Some al"
      proof
        assume "\<exists>k. mget (fst a) k = Some al"
        then obtain k where k: "mget (fst a) k = Some al" by blast
        then have "map_of z k = None" using zfresh [of k] by (cases "map_of z k") auto
        then have "mget (fst (give_all grp cs a)) k = Some al" using k by (simp add: get)
        then show ?thesis by blast
      next
        assume "\<exists>k. map_of z k = Some al"
        then obtain k where "map_of z k = Some al" by blast
        then have "mget (fst (give_all grp cs a)) k = Some al" by (simp add: get)
        then show ?thesis by blast
      qed
    qed
    ultimately show "al \<in> set (snd (give_all grp cs a)) \<longleftrightarrow> (\<exists>k. mget (fst (give_all grp cs a)) k = Some al)"
      using alc by auto
  qed
qed


section \<open>The search for a prefix length always succeeds\<close>

lemma tilde_head_candidate: "CHR ''~'' \<notin> set b \<Longrightarrow> tilde_head (b @ ''~'' @ s) = b"
  by (induction b) auto

lemma candidates_tilde:
  assumes "CHR ''~'' \<notin> set b" and "plain b" and "\<forall>p \<in> set grp. plain (pr_keyUrl p)" and "c \<in> set (candidates_at b grp n)"
  shows "alias_of b c \<and> CHR ''~'' \<in> set c"
proof -
  obtain p where p: "p \<in> set grp" "c = b @ ''~'' @ take n (pr_keyUrl p)" using assms(4) by (auto simp: candidates_at_def)
  have "x \<notin> {CHR '':'', CHR ''/'', CHR 0x5C}" if "x \<in> set c" for x
  proof -
    have "x \<in> set b \<or> x = CHR ''~'' \<or> x \<in> set (pr_keyUrl p)"
      using that unfolding p(2) set_append by (auto dest: in_set_takeD [of x n "pr_keyUrl p"])
    moreover have "plain (pr_keyUrl p)" using assms(3) p(1) by blast
    ultimately show ?thesis using assms(2) unfolding plain_def by (elim disjE) auto
  qed
  moreover have "c \<noteq> []" by (simp add: p(2))
  ultimately have "plain c" unfolding plain_def by blast
  then show ?thesis using tilde_head_candidate [OF assms(1)] p(2) unfolding alias_of_def by simp
qed

lemma try_prefixes_Some:
  assumes "n \<le> full" and "distinct (candidates_at b grp full)"
    and "\<And>n c. c \<in> set (candidates_at b grp n) \<Longrightarrow> c \<notin> set reserved \<and> c \<notin> set allocated"
  shows "\<exists>k cs. try_prefixes reserved allocated b grp full n = Some cs \<and> cs = candidates_at b grp k \<and>
     n \<le> k \<and> k \<le> full \<and> distinct cs \<and> length cs = length grp"
  using assms(1)
proof (induction "full - n" arbitrary: n)
  case 0
  then have n: "n = full" by simp
  have "\<not> list_ex (\<lambda>c. c \<in> set reserved \<or> c \<in> set allocated) (candidates_at b grp n)"
    using assms(3) by (auto simp: list_ex_iff)
  then show ?case using assms(2) n
    by (subst try_prefixes.simps) (auto simp: distinct_remdups_id candidates_at_def Let_def)
next
  case (Suc d)
  have nc: "\<not> list_ex (\<lambda>c. c \<in> set reserved \<or> c \<in> set allocated) (candidates_at b grp n)"
    using assms(3) by (auto simp: list_ex_iff)
  show ?case
  proof (cases "distinct (candidates_at b grp n)")
    case True
    then show ?thesis using nc Suc.prems
      by (subst try_prefixes.simps) (auto simp: distinct_remdups_id candidates_at_def Let_def)
  next
    case False
    then have "length (remdups (candidates_at b grp n)) \<noteq> length grp"
      using length_remdups_card_conv [of "candidates_at b grp n"] card_distinct [of "candidates_at b grp n"]
      by (auto simp: candidates_at_def)
    then have "try_prefixes reserved allocated b grp full n = try_prefixes reserved allocated b grp full (Suc n)"
      using Suc.prems by (subst try_prefixes.simps) (simp add: Let_def)
    moreover have "d = full - Suc n" "Suc n \<le> full" using Suc.hyps(2) by auto
    ultimately show ?thesis using Suc.hyps(1) [of "Suc n"] by auto
  qed
qed

lemma give_groups_ok:
  assumes ps: "prepared_ok ps" and res: "set reserved = pr_base ` set ps"
  shows "alloc_ok ps done a \<Longrightarrow> distinct (map fst gs) \<Longrightarrow> fst ` set gs \<inter> done = {} \<Longrightarrow>
     \<forall>(b, grp) \<in> set gs. grp = filter (\<lambda>p. pr_base p = b) ps \<and> grp \<noteq> [] \<Longrightarrow>
     \<exists>a'. give_groups reserved gs a = Inr a' \<and> alloc_ok ps (done \<union> fst ` set gs) a'"
proof (induction gs arbitrary: a "done")
  case (Cons bg gs)
  obtain b grp where bg: "bg = (b, grp)" by (cases bg)
  have g: "grp = filter (\<lambda>p. pr_base p = b) ps" "grp \<noteq> []" using Cons.prems(4) by (auto simp: bg)
  have bd: "b \<notin> done" using Cons.prems(3) by (auto simp: bg)
  obtain p0 where p0: "p0 \<in> set ps" "pr_base p0 = b" using g by (auto simp: filter_empty_conv)
  then have bt: "CHR ''~'' \<notin> set b" using ps by (auto simp: prepared_ok_def)
  have bp: "plain b" and gp: "\<forall>p \<in> set grp. plain (pr_keyUrl p)" using p0 g(1) ps by (auto simp: prepared_ok_def)
  have hd: "hd grp \<in> set ps" using g by (metis filter_is_subset hd_in_set subsetD)
  then have full: "length (pr_keyUrl (hd grp)) = 43" using ps by (simp add: prepared_ok_def)
  have "candidates_at b grp 43 = map (\<lambda>p. b @ ''~'' @ pr_keyUrl p) grp"
    using ps g by (auto simp: candidates_at_def prepared_ok_def)
  moreover have "distinct (map (\<lambda>p. b @ ''~'' @ pr_keyUrl p) grp)"
    using ps g(1) by (auto simp: prepared_ok_def distinct_map inj_on_def)
  ultimately have dist: "distinct (candidates_at b grp 43)" by simp
  have free: "c \<notin> set reserved \<and> c \<notin> set (snd a)" if "c \<in> set (candidates_at b grp n)" for n c
  proof -
    note c = candidates_tilde [OF bt bp gp that]
    have "c \<notin> set reserved" using c ps res by (auto simp: prepared_ok_def)
    moreover have "c \<notin> set (snd a)"
    proof
      assume "c \<in> set (snd a)"
      then obtain k where "mget (fst a) k = Some c" using Cons.prems(1) by (auto simp: alloc_ok_def)
      from alloc_okD [OF Cons.prems(1) this] show False using c bd by (auto simp: alias_of_def)
    qed
    ultimately show ?thesis by simp
  qed
  obtain k cs where k: "try_prefixes reserved (snd a) b grp 43 8 = Some cs" "cs = candidates_at b grp k"
      "distinct cs" "length cs = length grp"
    using try_prefixes_Some [of 8 43 b grp reserved "snd a"] dist free by auto
  have "alloc_ok ps (insert b done) (give_all grp cs a)"
    by (rule alloc_ok_step [OF Cons.prems(1) bd ps g(1) k(4,3)]) (use candidates_tilde [OF bt bp gp] k(2) in blast)
  from Cons.IH [OF this] Cons.prems(2-4) bd
  have "\<exists>a'. give_groups reserved gs (give_all grp cs a) = Inr a' \<and> alloc_ok ps (insert b done \<union> fst ` set gs) a'"
    by (auto simp: bg)
  then show ?case using k(1) full by (auto simp: bg)
qed simp

lemma give_singles_ok:
  assumes ps: "prepared_ok ps"
  shows "alloc_ok ps done a \<Longrightarrow> distinct (map fst gs) \<Longrightarrow> fst ` set gs \<inter> done = {} \<Longrightarrow>
     \<forall>(b, grp) \<in> set gs. grp = filter (\<lambda>p. pr_base p = b) ps \<and> grp \<noteq> [] \<Longrightarrow>
     alloc_ok ps (done \<union> fst ` {bg \<in> set gs. length (snd bg) = 1}) (fold give_single (map snd gs) a)"
proof (induction gs arbitrary: a "done")
  case (Cons bg gs)
  obtain b grp where bg: "bg = (b, grp)" by (cases bg)
  have g: "grp = filter (\<lambda>p. pr_base p = b) ps" "grp \<noteq> []" using Cons.prems(4) by (auto simp: bg)
  have bd: "b \<notin> done" using Cons.prems(3) by (auto simp: bg)
  show ?case
  proof (cases "length grp = 1")
    case True
    then obtain p where p: "grp = [p]" by (auto simp: length_Suc_conv)
    then have pb: "pr_base p = b" "p \<in> set ps" using arg_cong [OF g(1), of set] by auto
    then have "alias_of b b" using ps by (auto simp: prepared_ok_def alias_of_def takeWhile_eq_all_conv)
    then have "alloc_ok ps (insert b done) (give_all grp [b] a)"
      by (intro alloc_ok_step [OF Cons.prems(1) bd ps g(1)]) (simp_all add: True)
    moreover have "give_single grp a = give_all grp [b] a" by (simp add: give_single_def p pb)
    ultimately have "alloc_ok ps (insert b done \<union> fst ` {bg \<in> set gs. length (snd bg) = 1}) (fold give_single (map snd gs) (give_single grp a))"
      using Cons.IH [of "insert b done"] Cons.prems(2-4) by (auto simp: bg)
    moreover have "{x \<in> set (bg # gs). length (snd x) = 1} = insert bg {x \<in> set gs. length (snd x) = 1}"
      using True by (auto simp: bg)
    ultimately show ?thesis by (simp add: bg)
  next
    case False
    then have "give_single grp a = a" by (auto simp: give_single_def split: list.split)
    moreover have "{x \<in> set (bg # gs). length (snd x) = 1} = {x \<in> set gs. length (snd x) = 1}"
      using False by (auto simp: bg)
    ultimately show ?thesis using Cons.IH [of "done" a] Cons.prems by (simp add: bg)
  qed
qed simp

lemma alloc_ok_empty: "alloc_ok ps {} ([], [])"
  by (simp add: alloc_ok_def)

text \<open>All groups are served.\<close>

lemma allocation_total:
  assumes ps: "prepared_ok ps"
  shows "\<exists>a. give_groups (mkeys (alias_groups ps)) (colliding_groups (alias_groups ps))
        (fold give_single (mvals (alias_groups ps)) ([], [])) = Inr a \<and> alloc_ok ps (pr_base ` set ps) a"
proof -
  let ?gs = "alias_groups ps" and ?cg = "colliding_groups (alias_groups ps)"
  have d: "distinct (map fst ?gs)" using alias_groups_get [of ps] by (simp add: mwf_def)
  have ent: "\<forall>(b, grp) \<in> set ?gs. grp = filter (\<lambda>p. pr_base p = b) ps \<and> grp \<noteq> []"
    using alias_groups_entry by blast
  have scg: "set ?cg = {bg \<in> set ?gs. 1 < length (snd bg)}" by (auto simp: colliding_groups_def)
  have one: "alloc_ok ps (fst ` {bg \<in> set ?gs. length (snd bg) = 1}) (fold give_single (mvals ?gs) ([], []))"
    using give_singles_ok [OF ps alloc_ok_empty d _ ent] by simp
  have dcg: "distinct (map fst ?cg)"
  proof -
    have "mset ?cg = mset (filter (\<lambda>(_, grp). 1 < length grp) ?gs)" by (simp add: colliding_groups_def)
    then have "mset (map fst ?cg) = mset (map fst (filter (\<lambda>(_, grp). 1 < length grp) ?gs))" by (metis mset_map)
    moreover have "distinct (map fst (filter (\<lambda>(_, grp). 1 < length grp) ?gs))" using d by (rule distinct_map_filter)
    ultimately show ?thesis by (metis mset_eq_imp_distinct_iff)
  qed
  have disj: "fst ` set ?cg \<inter> fst ` {bg \<in> set ?gs. length (snd bg) = 1} = {}"
  proof (rule ccontr)
    assume "\<not> ?thesis"
    then obtain x y where xy: "x \<in> set ?gs" "1 < length (snd x)" "y \<in> set ?gs" "length (snd y) = 1" "fst x = fst y"
      unfolding scg by auto
    moreover obtain b g where "x = (b, g)" by (cases x)
    moreover obtain b' g' where "y = (b', g')" by (cases y)
    ultimately have "(b, g) \<in> set ?gs" "(b, g') \<in> set ?gs" "1 < length g" "length g' = 1" by simp_all
    then show False using alias_groups_entry [of b g ps] alias_groups_entry [of b g' ps] by (metis less_irrefl_nat)
  qed
  have ecg: "\<forall>(b, grp) \<in> set ?cg. grp = filter (\<lambda>p. pr_base p = b) ps \<and> grp \<noteq> []"
  proof
    fix x assume "x \<in> set ?cg"
    then have "x \<in> set ?gs" by (simp add: scg)
    then show "case x of (b, grp) \<Rightarrow> grp = filter (\<lambda>p. pr_base p = b) ps \<and> grp \<noteq> []" by (rule bspec [OF ent])
  qed
  from give_groups_ok [OF ps alias_groups_keys one dcg disj ecg]
  obtain a where a: "give_groups (mkeys ?gs) ?cg (fold give_single (mvals ?gs) ([], [])) = Inr a"
    "alloc_ok ps (fst ` {bg \<in> set ?gs. length (snd bg) = 1} \<union> fst ` set ?cg) a" by blast
  have "length (snd bg) = 1 \<or> 1 < length (snd bg)" if "bg \<in> set ?gs" for bg
  proof -
    have "snd bg \<noteq> []" using bspec [OF ent that] by (auto split: prod.splits)
    then have "0 < length (snd bg)" by simp
    then show ?thesis by linarith
  qed
  then have "fst ` {bg \<in> set ?gs. length (snd bg) = 1} \<union> fst ` set ?cg = fst ` set ?gs" by (auto simp: scg)
  then show ?thesis using a alias_groups_keys [of ps] by simp
qed


section \<open>What the aliases promise\<close>

text \<open>The alias encoding loses nothing and stays inside its alphabet: two nicknames with the same encoding are the
  same bytes, and no encoding contains the colon that ends an alias in an address, a path separator,
  or the tilde that starts a disambiguating suffix.\<close>

theorem alias_encoding:
  "(encodeRoutingAlias a = encodeRoutingAlias b \<longleftrightarrow> a = b) \<and>
   set (encodeRoutingAlias a) \<inter> {CHR '':'', CHR ''/'', CHR ''~'', CHR ''@''} = {} \<and>
   (\<forall>c \<in> set (encodeRoutingAlias a). isRoutingAliasSafeByte c \<or> c = CHR ''%'')"
proof (intro conjI)
  have n: "x \<notin> {CHR '':'', CHR ''/'', CHR ''~'', CHR ''@''}" if "alias_char x" for x
    using that by (auto simp: alias_char_def isRoutingAliasSafeByte_def)
  show "set (encodeRoutingAlias a) \<inter> {CHR '':'', CHR ''/'', CHR ''~'', CHR ''@''} = {}"
    using n encode_alias_chars [of _ a] by blast
  show "encodeRoutingAlias a = encodeRoutingAlias b \<longleftrightarrow> a = b" using encodeRoutingAlias_inj by blast
  show "\<forall>c \<in> set (encodeRoutingAlias a). isRoutingAliasSafeByte c \<or> c = CHR ''%''"
    using encode_alias_chars unfolding alias_char_def by blast
qed

lemma alias_encoding_witness:
  "set (encodeRoutingAlias ''my pc:1'') \<inter> {CHR '':'', CHR ''/'', CHR ''~'', CHR ''@''} = {}"
  using alias_encoding [of "''my pc:1''" "''x''"] by blast

text \<open>The nickname chosen for a machine depends on the set of nicknames it was given, not on their order or
  repetition; it is one of them, and its encoding comes before that of every other; there is none exactly
  when no candidate is non-empty.\<close>

theorem nickname_choice:
  assumes "set xs = set ys"
  shows "selectRoutingNickname xs = selectRoutingNickname ys \<and>
    (case selectRoutingNickname xs of
       None \<Rightarrow> set xs \<subseteq> {[]}
     | Some s \<Rightarrow> s \<in> set xs \<and> s \<noteq> [] \<and>
         (\<forall>t \<in> set xs. t \<noteq> [] \<longrightarrow> t = s \<or> js_less (encodeRoutingAlias s) (encodeRoutingAlias t)))"
proof -
  have b: "best_of (set zs - {[]}) (fold select_step zs None)" for zs
    using best_of_fold [of "{}" None zs] by (simp add: best_of_def)
  define S where "S = set xs - {[]}"
  have hx: "best_of S (fold select_step xs None)" and hy: "best_of S (fold select_step ys None)"
    using b [of xs] b [of ys] assms by (simp_all add: S_def)
  have eq: "p = q" if "best_of S p" "best_of S q" for p q
  proof (cases p)
    case None
    then show ?thesis using that by (cases q) (auto simp: best_of_def)
  next
    case (Some pe)
    obtain t e where pe: "pe = (t, e)" by (cases pe)
    have t: "e = encodeRoutingAlias t" "t \<in> S" "\<And>u. u \<in> S \<Longrightarrow> u = t \<or> js_less (encodeRoutingAlias t) (encodeRoutingAlias u)"
      using that(1) by (simp_all add: best_of_def Some pe)
    show ?thesis
    proof (cases q)
      case None
      then show ?thesis using that(2) t(2) by (simp add: best_of_def)
    next
      case q: (Some qe)
      obtain u f where qe: "qe = (u, f)" by (cases qe)
      have u: "f = encodeRoutingAlias u" "u \<in> S" "\<And>x. x \<in> S \<Longrightarrow> x = u \<or> js_less (encodeRoutingAlias u) (encodeRoutingAlias x)"
        using that(2) by (simp_all add: best_of_def q qe)
      have "t = u" using t(3) [OF u(2)] u(3) [OF t(2)] js_less_asym by blast
      then show ?thesis using t(1) u(1) by (simp add: Some q pe qe)
    qed
  qed
  have "fold select_step xs None = fold select_step ys None" by (rule eq [OF hx hy])
  moreover have "case map_option fst (fold select_step xs None) of
       None \<Rightarrow> set xs \<subseteq> {[]}
     | Some s \<Rightarrow> s \<in> set xs \<and> s \<noteq> [] \<and>
         (\<forall>t \<in> set xs. t \<noteq> [] \<longrightarrow> t = s \<or> js_less (encodeRoutingAlias s) (encodeRoutingAlias t))"
    using hx by (cases "fold select_step xs None") (auto simp: best_of_def S_def)
  ultimately show ?thesis by (simp add: selectRoutingNickname_def)
qed

lemma nickname_choice_witness:
  "selectRoutingNickname [''b'', [], ''a''] = selectRoutingNickname [''a'', ''b'', [], ''a'']"
  using nickname_choice [of "[''b'', [], ''a'']" "[''a'', ''b'', [], ''a'']"] by (simp add: insert_commute)

text \<open>The result as a function of the prepared list.\<close>

lemma allocate_cases:
  "allocateRoutingAliases inputs =
     (case prepare_all 0 inputs [] of
        Inl e \<Rightarrow> Inl e
      | Inr m \<Rightarrow>
          (let ps = sort_key (\<lambda>p. u16_key (pr_pcPubkey p)) (mvals m);
               a = projr (give_groups (mkeys (alias_groups ps)) (colliding_groups (alias_groups ps))
                      (fold give_single (mvals (alias_groups ps)) ([], [])))
           in Inr (map (\<lambda>p. (pr_pcPubkey p, the (mget (fst a) (pr_pcPubkey p)))) ps)))"
proof (cases "prepare_all 0 inputs []")
  case (Inr m)
  define ps where "ps = sort_key (\<lambda>p. u16_key (pr_pcPubkey p)) (mvals m)"
  have ok: "prepared_ok ps" by (rule prepare_ok [OF Inr]) (simp add: ps_def)
  show ?thesis using allocation_total [OF ok] Inr
    by (auto simp: allocateRoutingAliases_def Let_def ps_def [symmetric])
qed (simp add: allocateRoutingAliases_def)

lemma prepare_error: "prepare_all n inputs m = Inl e \<Longrightarrow> e \<noteq> CollisionInvariantFailed"
proof (induction n inputs m rule: prepare_all.induct)
  case (2 index input rest m)
  then show ?case by (auto simp: Let_def split: sum.splits if_splits)
qed simp

lemma allocation_facts:
  "(case allocateRoutingAliases inputs of
      Inl e \<Rightarrow> e \<noteq> CollisionInvariantFailed \<and>
        \<not> ((\<forall>i \<in> set inputs. valid_key i) \<and> distinct (map (pr_pcPubkey \<circ> prep) inputs))
    | Inr m \<Rightarrow> distinct (mkeys m) \<and> distinct (mvals m) \<and> length m = length inputs \<and>
        set (mkeys m) = {k. \<exists>i \<in> set inputs. canonicalizeEd25519PublicKey (ai_pcPubkey i) [] = Inr k} \<and>
        sorted (map u16_key (mkeys m)) \<and>
        (\<forall>al \<in> set (mvals m). al \<noteq> [] \<and> CHR '':'' \<notin> set al \<and> CHR ''/'' \<notin> set al \<and> CHR 0x5C \<notin> set al))"
proof (cases "prepare_all 0 inputs []")
  case (Inl e)
  then show ?thesis using prepare_error prepare_all_iff [of 0 inputs "[]" "map (\<lambda>i. (pr_pcPubkey (prep i), prep i)) inputs"] by (auto simp: allocate_cases mhas_def)
next
  case (Inr m)
  define ps where "ps = sort_key (\<lambda>p. u16_key (pr_pcPubkey p)) (mvals m)"
  have ok: "prepared_ok ps" by (rule prepare_ok [OF Inr]) (simp add: ps_def)
  obtain a where a: "give_groups (mkeys (alias_groups ps)) (colliding_groups (alias_groups ps))
        (fold give_single (mvals (alias_groups ps)) ([], [])) = Inr a" "alloc_ok ps (pr_base ` set ps) a"
    using allocation_total [OF ok] by blast
  define r where "r = map (\<lambda>p. (pr_pcPubkey p, the (mget (fst a) (pr_pcPubkey p)))) ps"
  have res: "allocateRoutingAliases inputs = Inr r"
    using Inr a(1) by (simp add: allocateRoutingAliases_def Let_def ps_def [symmetric] r_def)
  have keys: "mkeys r = map pr_pcPubkey ps" by (simp add: r_def)
  have m: "m = map (\<lambda>i. (pr_pcPubkey (prep i), prep i)) inputs" and v: "\<forall>i \<in> set inputs. valid_key i"
    using Inr by (auto simp: prepare_all_iff)
  have dk: "distinct (map pr_pcPubkey ps)" using ok by (simp add: prepared_ok_def)
  have "distinct (mvals r)"
  proof -
    have "inj_on (\<lambda>p. the (mget (fst a) (pr_pcPubkey p))) (set ps)"
    proof (rule inj_onI)
      fix p q assume pq: "p \<in> set ps" "q \<in> set ps" "the (mget (fst a) (pr_pcPubkey p)) = the (mget (fst a) (pr_pcPubkey q))"
      have "mhas (fst a) (pr_pcPubkey p)" "mhas (fst a) (pr_pcPubkey q)" using a(2) pq by (simp_all add: alloc_ok_def)
      then obtain al where "mget (fst a) (pr_pcPubkey p) = Some al" "mget (fst a) (pr_pcPubkey q) = Some al"
        using pq(3) by (auto simp: mhas_def)
      then have "pr_pcPubkey p = pr_pcPubkey q" using a(2) unfolding alloc_ok_def by metis
      then show "p = q" using dk pq(1,2) by (simp add: distinct_map inj_on_def)
    qed
    moreover have "distinct ps" using dk by (simp add: distinct_map)
    ultimately show ?thesis by (simp add: r_def comp_def distinct_map)
  qed
  moreover have "set (mkeys r) = {k. \<exists>i \<in> set inputs. canonicalizeEd25519PublicKey (ai_pcPubkey i) [] = Inr k}"
  proof -
    have c: "canonicalizeEd25519PublicKey (ai_pcPubkey i) [] = Inr k \<longleftrightarrow> k = pr_pcPubkey (prep i)" if "i \<in> set inputs" for i k
    proof -
      obtain bs where bs: "decodeEd25519PublicKey (ai_pcPubkey i) [] = Inr bs" using v \<open>i \<in> set inputs\<close> by (auto simp: valid_key_def)
      then have "length bs = 32" using decode_only_spelling by blast
      then show ?thesis using bs
        by (auto simp: canonicalizeEd25519PublicKey_def encodeEd25519PublicKey_def ED25519_PUBLIC_KEY_BYTES_def prep_def key_bytes_def)
    qed
    have "set ps = prep ` set inputs" using m by (simp add: ps_def image_image)
    then show ?thesis using c by (auto simp: keys)
  qed
  moreover have "sorted (map u16_key (mkeys r))"
    using sorted_sort_key [of "\<lambda>p. u16_key (pr_pcPubkey p)" "mvals m"] by (simp add: keys comp_def ps_def)
  moreover have "plain al" if al: "al \<in> set (mvals r)" for al
  proof -
    obtain p where p: "p \<in> set ps" "al = the (mget (fst a) (pr_pcPubkey p))" using al by (auto simp: r_def)
    then have "mget (fst a) (pr_pcPubkey p) = Some al" using a(2) by (auto simp: alloc_ok_def mhas_def)
    from alloc_okD [OF a(2) this] show ?thesis by (auto simp: alias_of_def)
  qed
  ultimately show ?thesis using dk unfolding plain_def by (simp add: res keys r_def) (simp add: ps_def m comp_def)
qed

text \<open>C7: alias allocation is total and a bijection. It never reaches the internal collision error, whatever nicknames
  are chosen; it fails only on a bad or repeated key. When it succeeds, every input key, in canonical
  form, gets exactly one alias, no two keys share one, the entries come in the order of the keys, and no
  alias is empty or contains a colon or a path separator.\<close>

theorem allocation_bijective:
  "(case allocateRoutingAliases inputs of
      Inl e \<Rightarrow> e \<noteq> CollisionInvariantFailed
    | Inr m \<Rightarrow> distinct (mkeys m) \<and> distinct (mvals m) \<and> length m = length inputs \<and>
        set (mkeys m) = {k. \<exists>i \<in> set inputs. canonicalizeEd25519PublicKey (ai_pcPubkey i) [] = Inr k} \<and>
        sorted (map u16_key (mkeys m)) \<and>
        (\<forall>al \<in> set (mvals m). al \<noteq> [] \<and> CHR '':'' \<notin> set al \<and> CHR ''/'' \<notin> set al \<and> CHR 0x5C \<notin> set al))"
  using allocation_facts [of inputs] by (simp split: sum.splits)

text \<open>The allocation does not depend on the order of its inputs.\<close>

theorem allocation_order_independent:
  assumes "mset inputs = mset inputs'" and "allocateRoutingAliases inputs = Inr m"
  shows "allocateRoutingAliases inputs' = Inr m"
proof -
  obtain pm where pm: "prepare_all 0 inputs [] = Inr pm"
    using assms(2) by (cases "prepare_all 0 inputs []") (simp_all add: allocate_cases)
  then have v: "\<forall>i \<in> set inputs. valid_key i" and d: "distinct (map (pr_pcPubkey \<circ> prep) inputs)"
    and pmv: "mvals pm = map prep inputs" by (auto simp: prepare_all_iff)
  have "set inputs = set inputs'" using assms(1) by (rule mset_eq_setD)
  moreover have "distinct (map (pr_pcPubkey \<circ> prep) inputs')"
    using d assms(1) mset_eq_imp_distinct_iff [of "map (pr_pcPubkey \<circ> prep) inputs" "map (pr_pcPubkey \<circ> prep) inputs'"]
    by (simp add: mset_map)
  ultimately have "prepare_all 0 inputs' [] = Inr (map (\<lambda>i. (pr_pcPubkey (prep i), prep i)) inputs')"
    using v d by (subst prepare_all_iff) (simp add: mhas_def)
  moreover have "sort_key (\<lambda>p. u16_key (pr_pcPubkey p)) (map prep inputs) = sort_key (\<lambda>p. u16_key (pr_pcPubkey p)) (map prep inputs')"
  proof (rule sort_key_inj_key_eq)
    show "mset (map prep inputs) = mset (sort_key (\<lambda>p. u16_key (pr_pcPubkey p)) (map prep inputs'))"
      using assms(1) by (simp add: mset_map)
    show "inj_on (\<lambda>p. u16_key (pr_pcPubkey p)) (set (map prep inputs))"
      using d by (auto simp: distinct_map inj_on_def)
  qed simp
  ultimately show ?thesis using assms(2) pm pmv by (simp add: allocate_cases comp_def)
qed

definition demo_inputs :: "alias_input list" where
  "demo_inputs = [\<lparr>ai_pcPubkey = b64_body demo_key, ai_nickname = Some ''mac''\<rparr>,
     \<lparr>ai_pcPubkey = to_url (b64_body (rev demo_key)), ai_nickname = Some ''mac''\<rparr>]"

lemma demo_allocation: "\<exists>m. allocateRoutingAliases demo_inputs = Inr m"
proof -
  have l: "length demo_key = 32" "length (rev demo_key) = 32" by (simp_all add: demo_key_def)
  have "decodeEd25519PublicKey (b64_body demo_key) [] = Inr demo_key"
    "decodeEd25519PublicKey (to_url (b64_body (rev demo_key))) [] = Inr (rev demo_key)"
    by (rule decode_spelling [OF l(1)], simp add: key_spellings_def) (rule decode_spelling [OF l(2)], simp add: key_spellings_def)
  moreover have "b64_encode demo_key \<noteq> b64_encode (rev demo_key)"
  proof
    assume "b64_encode demo_key = b64_encode (rev demo_key)"
    then have "demo_key = rev demo_key" using kc.enc_inj l by (simp add: key_ok_def)
    then have "hd demo_key = hd (rev demo_key)" by simp
    then show False by (simp add: demo_key_def upt_rec)
  qed
  ultimately have "prepare_all 0 demo_inputs [] =
      Inr (map (\<lambda>i. (pr_pcPubkey (prep i), prep i)) demo_inputs)"
    by (subst prepare_all_iff) (auto simp: demo_inputs_def valid_key_def prep_def key_bytes_def mhas_def)
  then show ?thesis by (simp add: allocate_cases Let_def)
qed

lemma allocation_order_independent_witness:
  "\<exists>m. allocateRoutingAliases (rev demo_inputs) = Inr m"
proof -
  obtain m where "allocateRoutingAliases demo_inputs = Inr m" using demo_allocation by blast
  then show ?thesis using allocation_order_independent [of demo_inputs "rev demo_inputs" m] by simp
qed

lemma allocation_bijective_witness:
  "\<exists>m. allocateRoutingAliases demo_inputs = Inr m \<and> distinct (mvals m) \<and> length m = length demo_inputs"
proof -
  obtain m where m: "allocateRoutingAliases demo_inputs = Inr m" using demo_allocation by blast
  then show ?thesis using allocation_bijective [of demo_inputs] by simp
qed

end
