(* ===== verification/Mesh.thy ===== *)
theory Mesh
  imports KeyCodec "HOL-Library.Multiset"
begin

text \<open>
  Signed mesh membership: \<^verbatim>\<open>extension/src/mesh/canonical.ts\<close> (the canonical JSON that gets
  signed), \<^verbatim>\<open>mesh/types.ts\<close> and \<^verbatim>\<open>mesh/verify.ts\<close>. Signature verification is the
  platform's Ed25519 and is an argument. A blob is its bytes; \<open>text_decode\<close> is
  \<^verbatim>\<open>TextDecoder.decode\<close>, which replaces ill-formed UTF-8 by U+FFFD and drops a byte order mark.
\<close>

section \<open>Canonical JSON\<close>

definition brackets :: "string \<Rightarrow> string list option \<Rightarrow> string \<Rightarrow> string option" where
  "brackets l items r = map_option (\<lambda>xs. l @ join '','' xs @ r) items"

definition sort_members :: "(string \<times> 'a) list \<Rightarrow> (string \<times> 'a) list" where
  "sort_members = sort_key (\<lambda>(k, _). u16_key k)"

text \<open>\<open>None\<close> is the exception for a non-finite number.\<close>

fun canonicalize :: "jv \<Rightarrow> string option" where
  "canonicalize JUndef = Some ''null''"
| "canonicalize JNull = Some ''null''"
| "canonicalize (JBool b) = Some (if b then ''true'' else ''false'')"
| "canonicalize (JInt i) = Some (stringify (JInt i))"
| "canonicalize (JDbl l) = Some (stringify (JDbl l))"
| "canonicalize JNonFin = None"
| "canonicalize (JStr s) = Some (stringify (JStr s))"
| "canonicalize (JArr vs) = brackets ''['' (those (map canonicalize vs)) '']''"
| "canonicalize (JObj kvs) =
     brackets ''{''
       (those (map (\<lambda>(k, s). map_option (\<lambda>s. quote k @ '':'' @ s) s)
          (sort_members (map (\<lambda>(k, v). (k, canonicalize v)) (filter (\<lambda>(k, v). v \<noteq> JUndef) kvs)))))
       ''}''"

definition char_byte :: "char \<Rightarrow> byte" where
  "char_byte c = word_of_nat (code c)"

definition canonicalBytes :: "jv \<Rightarrow> byte list option" where
  "canonicalBytes v = map_option (map char_byte) (canonicalize v)"

section \<open>Decoding the blob\<close>

definition REPLACEMENT :: string where "REPLACEMENT = map char_of [239 :: nat, 191, 189]"

text \<open>The state is the number of continuation bytes still needed, their range and the bytes seen.\<close>

function utf8_run :: "nat \<Rightarrow> nat \<Rightarrow> nat \<Rightarrow> string \<Rightarrow> string \<Rightarrow> string" where
  "utf8_run need lo hi seen [] = (if need = 0 then [] else REPLACEMENT)"
| "utf8_run need lo hi seen (c # s) =
     (if need = 0 then
        (let n = code c
         in if n < 128 then c # utf8_run 0 128 191 [] s
            else if 194 \<le> n \<and> n \<le> 223 then utf8_run 1 128 191 [c] s
            else if n = 224 then utf8_run 2 160 191 [c] s
            else if n = 237 then utf8_run 2 128 159 [c] s
            else if 225 \<le> n \<and> n \<le> 239 then utf8_run 2 128 191 [c] s
            else if n = 240 then utf8_run 3 144 191 [c] s
            else if n = 244 then utf8_run 3 128 143 [c] s
            else if 241 \<le> n \<and> n \<le> 243 then utf8_run 3 128 191 [c] s
            else REPLACEMENT @ utf8_run 0 128 191 [] s)
      else if lo \<le> code c \<and> code c \<le> hi then
        (if need = 1 then seen @ c # utf8_run 0 128 191 [] s
         else utf8_run (need - 1) 128 191 (seen @ [c]) s)
      else REPLACEMENT @ utf8_run 0 128 191 [] (c # s))"
  by pat_completeness auto
termination
  by (relation "measure (\<lambda>(need, _, _, _, s). 2 * length s + (if need = 0 then 0 else 1))") (auto simp: Let_def)

definition text_decode :: "byte list \<Rightarrow> string" where
  "text_decode blob =
     (let s = map (\<lambda>b. char_of (unat b)) blob;
          s = (if starts_with (map char_of [239 :: nat, 187, 191]) s then drop 3 s else s)
      in utf8_run 0 128 191 [] s)"

section \<open>Membership\<close>

record mesh_member =
  mm_remoteEpk :: string
  mm_relayUrl :: string
  mm_pairedAt :: string
  mm_nickname :: "string option"

record mesh_header =
  mh_version :: int
  mh_issuedAt :: int
  mh_ownerPk :: "byte list"
  mh_members :: "mesh_member list"

record mesh_envelope =
  me_blob :: "byte list"
  me_sig :: "byte list"

datatype mesh_error =
    BlobNotJson
  | BlobNotObject
  | OwnerPkMissing
  | VersionMissing
  | IssuedAtMissing
  | MembersMissing
  | MemberNotObject nat
  | MemberInvalid nat string
  | KeyInvalid key_error
  | SignatureFailed

text \<open>
  The value of a number that \<open>Number.isInteger\<close> accepts. A lexeme with a fraction or an
  exponent is read as a decimal, a sign and a quotient of naturals; \<open>JSON.parse\<close> makes it the
  nearest double, ties to even. So \<open>1.0\<close> and \<open>15e1\<close> are integers, \<open>0.5\<close> and \<open>1e400\<close> are not,
  and \<open>9007199254740993\<close> is read as its even neighbour.
\<close>

definition digits_val :: "string \<Rightarrow> nat" where
  "digits_val = foldl (\<lambda>n c. 10 * n + (code c - 48)) 0"

definition lexeme_ratio :: "string \<Rightarrow> bool \<times> nat \<times> nat" where
  "lexeme_ratio l =
     (let (neg, l) = (case l of c # r \<Rightarrow> if c = CHR ''-'' then (True, r) else (False, l) | [] \<Rightarrow> (False, l));
          whole = takeWhile is_digit l; rest = dropWhile is_digit l;
          (frac, rest) = (case rest of c # r \<Rightarrow> if c = CHR ''.'' then (takeWhile is_digit r, dropWhile is_digit r) else ([], rest)
                          | [] \<Rightarrow> ([], rest));
          ex = (case rest of [] \<Rightarrow> 0
                | _ # c # r \<Rightarrow> if c = CHR ''-'' then - int (digits_val r) else if c = CHR ''+'' then int (digits_val r) else int (digits_val (c # r))
                | _ \<Rightarrow> 0);
          mant = digits_val (whole @ frac); shift = ex - int (length frac)
      in (neg, mant * 10 ^ nat shift, 10 ^ nat (- shift)))"

fun bit_len :: "nat \<Rightarrow> nat" where
  "bit_len n = (if n = 0 then 0 else Suc (bit_len (n div 2)))"

declare bit_len.simps [simp del]

text \<open>The integer nearest to \<open>n / d\<close>, ties to even.\<close>

definition half_even :: "nat \<Rightarrow> nat \<Rightarrow> nat" where
  "half_even n d =
     (let q = n div d; r = n mod d in if 2 * r < d \<or> (2 * r = d \<and> even q) then q else q + 1)"

text \<open>The double nearest to \<open>n / d\<close>, if it is finite and an integer. Doubles have 53 bits: from \<open>2 ^ 53\<close>
  on all are integers, spaced by powers of two, and there is none at \<open>2 ^ 1024\<close> or above; below, the
  spacing is a fraction of 1. Under 1 only the values that round to 1 and those that round to 0 count.\<close>

definition integer_double :: "nat \<Rightarrow> nat \<Rightarrow> nat option" where
  "integer_double n d =
     (let q = n div d; k = bit_len q in
      if n = 0 then Some 0
      else if 53 \<le> k then
        (let v = half_even n (d * 2 ^ (k - 53)) * 2 ^ (k - 53) in if v < 2 ^ 1024 then Some v else None)
      else if q = 0 then
        (if half_even (n * 2 ^ 53) d = 2 ^ 53 then Some 1 else if n * 2 ^ 1075 \<le> d then Some 0 else None)
      else
        (let m = half_even (n * 2 ^ (53 - k)) d in if 2 ^ (53 - k) dvd m then Some (m div 2 ^ (53 - k)) else None))"

definition js_integer :: "jv \<Rightarrow> int option" where
  "js_integer v =
     (case v of
        JInt i \<Rightarrow> map_option (\<lambda>n. if i < 0 then - int n else int n) (integer_double (nat \<bar>i\<bar>) 1)
      | JDbl l \<Rightarrow> (let (neg, n, d) = lexeme_ratio l in map_option (\<lambda>n. if neg then - int n else int n) (integer_double n d))
      | _ \<Rightarrow> None)"

lemma bit_len_le: "n < 2 ^ k \<Longrightarrow> bit_len n \<le> k"
proof (induction k arbitrary: n)
  case (Suc k)
  then show ?case using Suc.IH [of "n div 2"] by (cases "n = 0") (simp_all add: bit_len.simps [of n] bit_len.simps [of 0] less_mult_imp_div_less mult.commute)
qed (simp add: bit_len.simps)

text \<open>Safe integers are read as they are written.\<close>

lemma js_integer_safe: "\<bar>i\<bar> < 2 ^ 53 \<Longrightarrow> js_integer (JInt i) = Some i"
proof -
  assume i: "\<bar>i\<bar> < 2 ^ 53"
  define n where "n = nat \<bar>i\<bar>"
  have n: "n < 2 ^ 53" using i by (simp add: n_def nat_less_iff)
  have k: "bit_len n \<le> 53" using n by (rule bit_len_le)
  have h: "half_even x 1 = x" for x by (simp add: half_even_def)
  have "integer_double n 1 = Some n"
  proof (cases "bit_len n = 53")
    case True
    have "n < 2 ^ 1024" using n by (rule less_trans) simp
    then show ?thesis using True h by (simp add: integer_double_def Let_def)
  next
    case False
    then show ?thesis using k h by (simp add: integer_double_def Let_def)
  qed
  then show ?thesis by (auto simp: js_integer_def n_def [symmetric]) (simp_all add: n_def)
qed

lemma lexeme_examples:
  "lexeme_ratio ''1.0'' = (False, 10, 10)" "lexeme_ratio ''-15e1'' = (True, 150, 1)" "lexeme_ratio ''0.5'' = (False, 5, 10)"
  "lexeme_ratio ''25e-1'' = (False, 25, 10)"
  by code_simp+

lemma integer_double_examples:
  "integer_double 10 10 = Some 1" "integer_double 5 10 = None" "integer_double 9007199254740993 1 = Some 9007199254740992"
  "integer_double (10 ^ 20 - 1) (10 ^ 20) = Some 1" "integer_double (2 ^ 53 + 1) 2 = Some (2 ^ 52)"
  by (simp_all add: integer_double_def half_even_def bit_len.simps Let_def)

definition raw_member :: "nat \<Rightarrow> jv \<Rightarrow> mesh_error + mesh_member" where
  "raw_member index raw =
     (if \<not> is_objlike raw then Inl (MemberNotObject index)
      else (case jget raw ''remote_epk'' of
         JStr epk \<Rightarrow>
           (case jget raw ''relay_url'' of
              JStr url \<Rightarrow>
                (case jget raw ''paired_at'' of
                   JStr at \<Rightarrow>
                     (case jget raw ''nickname'' of
                        JStr n \<Rightarrow> Inr \<lparr>mm_remoteEpk = epk, mm_relayUrl = url, mm_pairedAt = at, mm_nickname = Some n\<rparr>
                      | JUndef \<Rightarrow> Inr \<lparr>mm_remoteEpk = epk, mm_relayUrl = url, mm_pairedAt = at, mm_nickname = None\<rparr>
                      | JNull \<Rightarrow> Inr \<lparr>mm_remoteEpk = epk, mm_relayUrl = url, mm_pairedAt = at, mm_nickname = None\<rparr>
                      | _ \<Rightarrow> Inl (MemberInvalid index ''nickname''))
                 | _ \<Rightarrow> Inl (MemberInvalid index ''paired_at''))
            | _ \<Rightarrow> Inl (MemberInvalid index ''relay_url''))
       | _ \<Rightarrow> Inl (MemberInvalid index ''remote_epk'')))"

fun raw_members :: "nat \<Rightarrow> jv list \<Rightarrow> mesh_error + mesh_member list" where
  "raw_members index [] = Inr []"
| "raw_members index (raw # rest) =
     (case raw_member index raw of
        Inl e \<Rightarrow> Inl e
      | Inr m \<Rightarrow> (case raw_members (Suc index) rest of Inl e \<Rightarrow> Inl e | Inr ms \<Rightarrow> Inr (m # ms)))"

fun canonical_members :: "nat \<Rightarrow> mesh_member list \<Rightarrow> mesh_error + mesh_member list" where
  "canonical_members index [] = Inr []"
| "canonical_members index (m # rest) =
     (case canonicalizeEd25519PublicKey (mm_remoteEpk m) (''members['' @ show_nat index @ ''].remote_epk'') of
        Inl e \<Rightarrow> Inl (KeyInvalid e)
      | Inr k \<Rightarrow> (case canonical_members (Suc index) rest of Inl e \<Rightarrow> Inl e | Inr ms \<Rightarrow> Inr (m\<lparr>mm_remoteEpk := k\<rparr> # ms)))"

definition verifyEnvelope :: "(byte list \<Rightarrow> byte list \<Rightarrow> byte list \<Rightarrow> bool) \<Rightarrow> mesh_envelope \<Rightarrow> mesh_error + mesh_header" where
  "verifyEnvelope ed25519Verify env =
     (case json_parse (text_decode (me_blob env)) of
        None \<Rightarrow> Inl BlobNotJson
      | Some parsed \<Rightarrow>
          if \<not> is_objlike parsed then Inl BlobNotObject
          else (case jget parsed ''owner_pk'' of
             JStr owner_pk \<Rightarrow>
               (case js_integer (jget parsed ''version'') of
                  None \<Rightarrow> Inl VersionMissing
                | Some version \<Rightarrow>
                    (case js_integer (jget parsed ''issued_at'') of
                       None \<Rightarrow> Inl IssuedAtMissing
                     | Some issued \<Rightarrow>
                         (case jget parsed ''members'' of
                            JArr raws \<Rightarrow>
                              (case raw_members 0 raws of
                                 Inl e \<Rightarrow> Inl e
                               | Inr ms \<Rightarrow>
                                   (case decodeEd25519PublicKey owner_pk ''owner_pk'' of
                                      Inl e \<Rightarrow> Inl (KeyInvalid e)
                                    | Inr ownerPk \<Rightarrow>
                                        if \<not> ed25519Verify ownerPk (me_blob env) (me_sig env) then Inl SignatureFailed
                                        else (case canonical_members 0 ms of
                                           Inl e \<Rightarrow> Inl e
                                         | Inr members \<Rightarrow> Inr \<lparr>mh_version = version, mh_issuedAt = issued,
                                             mh_ownerPk = ownerPk, mh_members = members\<rparr>)))
                          | _ \<Rightarrow> Inl MembersMissing)))
           | _ \<Rightarrow> Inl OwnerPkMissing))"


section \<open>Canonical form\<close>

text \<open>The value with the members of every object in key order.\<close>

fun canon_jv :: "jv \<Rightarrow> jv" where
  "canon_jv (JArr vs) = JArr (map canon_jv vs)"
| "canon_jv (JObj kvs) = JObj (sort_members (map (\<lambda>(k, v). (k, canon_jv v)) kvs))"
| "canon_jv v = v"

lemma set_sort_members [simp]: "set (sort_members xs) = set xs"
  by (simp add: sort_members_def)

lemma sort_members_map: "sort_members (map (\<lambda>(k, v). (k, f v)) xs) = map (\<lambda>(k, v). (k, f v)) (sort_members xs)"
  unfolding sort_members_def
proof (induction xs)
  case (Cons x xs)
  have "insort_key (\<lambda>(k, _). u16_key k) ((\<lambda>(k, v). (k, f v)) x) (map (\<lambda>(k, v). (k, f v)) ys) =
      map (\<lambda>(k, v). (k, f v)) (insort_key (\<lambda>(k, _). u16_key k) x ys)" for ys
    by (induction ys) (auto split: prod.splits)
  then show ?case using Cons by simp
qed simp

lemma sort_members_keys: "distinct (map fst xs) \<Longrightarrow> distinct (map fst (sort_members xs))"
proof -
  assume d: "distinct (map fst xs)"
  have "mset (map fst (sort_members xs)) = mset (map fst xs)" by (simp add: sort_members_def)
  then show ?thesis using d mset_eq_imp_distinct_iff by blast
qed

lemma str_elems_join: "str_elems b vs = (if b \<or> vs = [] then [] else '','') @ join '','' (map stringify vs)"
proof (induction vs arbitrary: b)
  case (Cons v vs)
  then show ?case by (cases vs) (auto simp: Cons)
qed simp

lemma str_members_join:
  "\<forall>kv \<in> set kvs. snd kv \<noteq> JUndef \<Longrightarrow>
   str_members b kvs = (if b \<or> kvs = [] then [] else '','') @ join '','' (map (\<lambda>(k, v). quote k @ '':'' @ stringify v) kvs)"
proof (induction kvs arbitrary: b)
  case (Cons kv kvs)
  have IH: "str_members False kvs = (if kvs = [] then [] else '','') @ join '','' (map (\<lambda>(k, v). quote k @ '':'' @ stringify v) kvs)"
    using Cons by simp
  obtain k v where kv: "kv = (k, v)" by (cases kv)
  have e: "str_members b (kv # kvs) = (if b then [] else '','') @ (quote k @ '':'' @ stringify v) @ str_members False kvs"
    using Cons.prems by (simp add: kv)
  show ?case unfolding e IH by (cases kvs) (simp_all add: kv)
qed simp

lemma those_map_Some: "(\<And>x. x \<in> set xs \<Longrightarrow> f x = Some (g x)) \<Longrightarrow> those (map f xs) = Some (map g xs)"
  by (induction xs) auto

lemma canon_wf: "wf_json v \<Longrightarrow> wf_json (canon_jv v) \<and> canon_jv v \<noteq> JUndef"
proof (induction v)
  case (JObj kvs)
  have k: "map fst (map (\<lambda>(k, v). (k, canon_jv v)) kvs) = map fst kvs" by auto
  have "\<forall>p \<in> set (map (\<lambda>(k, v). (k, canon_jv v)) kvs). wf_json (snd p)" using JObj by (fastforce simp: list_all_iff)
  moreover have "distinct (map fst (map (\<lambda>(k, v). (k, canon_jv v)) kvs))" unfolding k using JObj.prems by simp
  from sort_members_keys [OF this] have "distinct (map fst (sort_members (map (\<lambda>(k, v). (k, canon_jv v)) kvs)))" .
  ultimately show ?case by (simp only: canon_jv.simps wf_json.simps list_all_iff set_sort_members) simp
qed (auto simp: list_all_iff)

lemma canonicalize_canon: "wf_json v \<Longrightarrow> canonicalize v = Some (stringify (canon_jv v))"
proof (induction v)
  case (JArr vs)
  then have "those (map canonicalize vs) = Some (map (\<lambda>v. stringify (canon_jv v)) vs)"
    by (intro those_map_Some) (auto simp: list_all_iff)
  then show ?case by (simp add: brackets_def str_elems_join comp_def)
next
  case (JObj kvs)
  have w: "wf_json v" if "(k, v) \<in> set kvs" for k v using JObj.prems that by (auto simp: list_all_iff)
  have f: "filter (\<lambda>(k, v). v \<noteq> JUndef) kvs = kvs" by (rule filter_True) (use w not_undef in auto)
  have c: "canonicalize v = Some (stringify (canon_jv v))" if "(k, v) \<in> set kvs" for k v
    using JObj.IH [of "(k, v)" v] w that by auto
  have "map (\<lambda>(k, v). (k, canonicalize v)) kvs = map (\<lambda>(k, v). (k, Some (stringify (canon_jv v)))) kvs"
    using c by auto
  then have 1: "sort_members (map (\<lambda>(k, v). (k, canonicalize v)) (filter (\<lambda>(k, v). v \<noteq> JUndef) kvs)) =
      map (\<lambda>(k, v). (k, Some (stringify (canon_jv v)))) (sort_members kvs)"
    unfolding f by (simp add: sort_members_map)
  have 2: "map (\<lambda>(k, s). map_option (\<lambda>s. quote k @ '':'' @ s) s) (map (\<lambda>(k, v). (k, Some (stringify (canon_jv v)))) xs) =
      map (\<lambda>(k, v). Some (quote k @ '':'' @ stringify (canon_jv v))) xs" for xs by (induction xs) auto
  have 3: "those (map (\<lambda>(k, v). Some (quote k @ '':'' @ stringify (canon_jv v))) (sort_members kvs)) =
      Some (map (\<lambda>(k, v). quote k @ '':'' @ stringify (canon_jv v)) (sort_members kvs))"
    by (intro those_map_Some) auto
  have "canonicalize (JObj kvs) = Some (''{'' @ join '','' (map (\<lambda>(k, v). quote k @ '':'' @ stringify (canon_jv v)) (sort_members kvs)) @ ''}'')"
    unfolding canonicalize.simps 1 2 3 brackets_def by simp
  moreover have "stringify (canon_jv (JObj kvs)) =
      ''{'' @ join '','' (map (\<lambda>(k, v). quote k @ '':'' @ stringify (canon_jv v)) (sort_members kvs)) @ ''}''"
  proof -
    have "\<forall>kv \<in> set (map (\<lambda>(k, v). (k, canon_jv v)) (sort_members kvs)). snd kv \<noteq> JUndef"
      using w canon_wf by fastforce
    from str_members_join [OF this, of True] show ?thesis unfolding canon_jv.simps sort_members_map by (simp add: comp_def split_def)
  qed
  ultimately show ?case by simp
qed auto

text \<open>The canonical text of a JSON value is JSON for the same value with its members in key order, so
  parsing it back loses nothing, a second pass changes nothing, and two values have the same canonical text
  exactly when they differ only in the order of members.\<close>

theorem canonical_round_trip:
  assumes "wf_json v" and "wf_json w"
  shows "\<exists>s. canonicalize v = Some s \<and> json_parse s = Some (canon_jv v) \<and> canonicalize (canon_jv v) = Some s \<and>
     (canonicalize w = Some s \<longleftrightarrow> canon_jv v = canon_jv w)"
proof -
  have jp: "json_parse (stringify (canon_jv x)) = Some (canon_jv x)" if "wf_json x" for x
    using json_round_trip [of "canon_jv x" "[]"] canon_wf [OF that] by simp
  have sorted: "sort_members (sort_members xs) = sort_members xs" for xs :: "(string \<times> jv) list"
    by (simp add: sort_members_def sort_key_id_if_sorted)
  have idem: "canon_jv (canon_jv x) = canon_jv x" for x
  proof (induction x)
    case (JObj kvs)
    let ?g = "map (\<lambda>(k, v). (k, canon_jv v))"
    have g: "?g (?g kvs) = ?g kvs" using JObj by auto
    have "sort_members (?g (sort_members (?g kvs))) = ?g (sort_members (?g kvs))"
      by (simp only: sort_members_map sorted)
    also have "\<dots> = sort_members (?g (?g kvs))" by (simp only: sort_members_map)
    finally show ?case by (simp only: canon_jv.simps g)
  qed auto
  have "canonicalize (canon_jv v) = Some (stringify (canon_jv v))"
    using canonicalize_canon [of "canon_jv v"] canon_wf [OF assms(1)] by (simp add: idem)
  moreover have "stringify (canon_jv v) = stringify (canon_jv w) \<longleftrightarrow> canon_jv v = canon_jv w"
    using jp assms by (metis option.inject)
  ultimately show ?thesis using canonicalize_canon assms jp by auto
qed

text \<open>Producers may insert the members of an object in any order; what gets signed is the same.\<close>

theorem canonical_order_independent:
  assumes "mset kvs = mset kvs'" and "distinct (map fst kvs)"
  shows "canonicalize (JObj kvs) = canonicalize (JObj kvs')"
proof -
  let ?xs = "map (\<lambda>(k, v). (k, canonicalize v)) (filter (\<lambda>(k, v). v \<noteq> JUndef) kvs)"
  let ?ys = "map (\<lambda>(k, v). (k, canonicalize v)) (filter (\<lambda>(k, v). v \<noteq> JUndef) kvs')"
  have m: "mset ?xs = mset ?ys" using assms(1) by (simp add: mset_filter mset_map)
  have "distinct (map fst (filter (\<lambda>(k, v). v \<noteq> JUndef) kvs))" using assms(2) by (rule distinct_map_filter)
  then have "distinct (map fst ?xs)" by (simp add: comp_def split_def)
  then have "inj_on (\<lambda>(k, _). u16_key k) (set ?xs)" by (auto simp: distinct_map inj_on_def)
  then have "sort_members ?xs = sort_members ?ys"
    unfolding sort_members_def using m by (intro sort_key_inj_key_eq) simp_all
  then show ?thesis by simp
qed


lemma canonical_order_independent_witness:
  "canonicalize (JObj [(''b'', JInt 1), (''a'', JNull)]) = canonicalize (JObj [(''a'', JNull), (''b'', JInt 1)])"
  by (rule canonical_order_independent) simp_all

lemma canonical_round_trip_witness:
  "\<exists>s. canonicalize (JObj [(''b'', JInt 1), (''a'', JNull)]) = Some s \<and>
     json_parse s = Some (JObj [(''a'', JNull), (''b'', JInt 1)])"
proof -
  have e: "canon_jv (JObj [(''b'', JInt 1), (''a'', JNull)]) = JObj [(''a'', JNull), (''b'', JInt 1)]" by code_simp
  show ?thesis
    using canonical_round_trip [of "JObj [(''b'', JInt 1), (''a'', JNull)]" "JObj [(''b'', JInt 1), (''a'', JNull)]"]
    unfolding e by (simp del: canonicalize.simps) blast
qed

section \<open>Verification\<close>

lemma raw_members_length: "raw_members n raws = Inr ms \<Longrightarrow> length ms = length raws"
  by (induction n raws arbitrary: ms rule: raw_members.induct) (auto split: sum.splits)

lemma canonical_members_keys:
  "canonical_members n ms = Inr ms' \<Longrightarrow>
     length ms' = length ms \<and> (\<forall>m \<in> set ms'. \<exists>k. length k = 32 \<and> mm_remoteEpk m = b64_encode k)"
proof (induction n ms arbitrary: ms' rule: canonical_members.induct)
  case (2 index m rest)
  obtain k ks where k: "canonicalizeEd25519PublicKey (mm_remoteEpk m) (''members['' @ show_nat index @ ''].remote_epk'') = Inr k"
      "canonical_members (Suc index) rest = Inr ks" "ms' = m\<lparr>mm_remoteEpk := k\<rparr> # ks"
    using "2.prems" by (auto split: sum.splits)
  obtain bs where bs: "decodeEd25519PublicKey (mm_remoteEpk m) (''members['' @ show_nat index @ ''].remote_epk'') = Inr bs"
      "k = b64_encode bs"
    using k(1) by (auto simp: canonicalizeEd25519PublicKey_def encodeEd25519PublicKey_def split: sum.splits if_splits)
  then have "length bs = 32" using decode_only_spelling by blast
  then show ?case using "2.IH" [OF k(1,2)] k(3) bs(2) by auto
qed simp

lemma verify_cases:
  assumes "verifyEnvelope V env = Inr h"
  obtains parsed pk version issued raws ms where
    "json_parse (text_decode (me_blob env)) = Some parsed" "is_objlike parsed" "jget parsed ''owner_pk'' = JStr pk"
    "js_integer (jget parsed ''version'') = Some version" "js_integer (jget parsed ''issued_at'') = Some issued"
    "jget parsed ''members'' = JArr raws" "raw_members 0 raws = Inr ms"
    "decodeEd25519PublicKey pk ''owner_pk'' = Inr (mh_ownerPk h)"
    "V (mh_ownerPk h) (me_blob env) (me_sig env)" "canonical_members 0 ms = Inr (mh_members h)"
    "mh_version h = version" "mh_issuedAt h = issued"
proof -
  from assms obtain parsed where p: "json_parse (text_decode (me_blob env)) = Some parsed" "is_objlike parsed"
    by (auto simp: verifyEnvelope_def split: option.splits if_splits)
  from assms p obtain pk where pk: "jget parsed ''owner_pk'' = JStr pk"
    by (auto simp: verifyEnvelope_def split: jv.splits)
  from assms p pk obtain version where v: "js_integer (jget parsed ''version'') = Some version"
    by (auto simp: verifyEnvelope_def split: option.splits)
  from assms p pk v obtain issued where i: "js_integer (jget parsed ''issued_at'') = Some issued"
    by (auto simp: verifyEnvelope_def split: option.splits)
  from assms p pk v i obtain raws where r: "jget parsed ''members'' = JArr raws"
    by (auto simp: verifyEnvelope_def split: jv.splits)
  from assms p pk v i r obtain ms where m: "raw_members 0 raws = Inr ms"
    by (auto simp: verifyEnvelope_def split: sum.splits)
  from assms p pk v i r m obtain ok where o: "decodeEd25519PublicKey pk ''owner_pk'' = Inr ok"
    by (auto simp: verifyEnvelope_def split: sum.splits)
  from assms p pk v i r m o have s: "V ok (me_blob env) (me_sig env)"
    by (auto simp: verifyEnvelope_def split: if_splits)
  from assms p pk v i r m o s obtain cm where c: "canonical_members 0 ms = Inr cm"
    by (auto simp: verifyEnvelope_def split: sum.splits)
  from assms p pk v i r m o s c have h: "h = \<lparr>mh_version = version, mh_issuedAt = issued, mh_ownerPk = ok, mh_members = cm\<rparr>"
    by (simp add: verifyEnvelope_def)
  show ?thesis by (rule that [OF p pk v i r m _ _ _]) (use o s c h in simp_all)
qed

text \<open>C8: an envelope is accepted only if the signature over the bytes as received verifies under the owner key named inside
  them; the accepted header has the version and members written there, one for one, and every member
  key is in canonical form.\<close>

theorem verify_authentic:
  assumes "verifyEnvelope V env = Inr h"
  shows "V (mh_ownerPk h) (me_blob env) (me_sig env) \<and> length (mh_ownerPk h) = 32 \<and>
    (\<exists>parsed pk raws. json_parse (text_decode (me_blob env)) = Some parsed \<and> jget parsed ''owner_pk'' = JStr pk \<and>
       decodeEd25519PublicKey pk ''owner_pk'' = Inr (mh_ownerPk h) \<and> js_integer (jget parsed ''version'') = Some (mh_version h) \<and>
       jget parsed ''members'' = JArr raws \<and> length raws = length (mh_members h)) \<and>
    (\<forall>m \<in> set (mh_members h). \<exists>k. length k = 32 \<and> mm_remoteEpk m = b64_encode k)"
proof (rule verify_cases [OF assms])
  fix parsed pk version issued raws ms
  assume h: "json_parse (text_decode (me_blob env)) = Some parsed" "jget parsed ''owner_pk'' = JStr pk"
    "js_integer (jget parsed ''version'') = Some version" "jget parsed ''members'' = JArr raws" "raw_members 0 raws = Inr ms"
    "decodeEd25519PublicKey pk ''owner_pk'' = Inr (mh_ownerPk h)" "V (mh_ownerPk h) (me_blob env) (me_sig env)"
    "canonical_members 0 ms = Inr (mh_members h)" "mh_version h = version"
  then show ?thesis
    using decode_only_spelling [OF h(6)] canonical_members_keys [OF h(8)] raw_members_length [OF h(5)] by auto
qed

text \<open>The blob an owner signs, as the plan of the protocol lays it out.\<close>

definition member_jv :: "mesh_member \<Rightarrow> jv" where
  "member_jv m = JObj ([(''remote_epk'', JStr (mm_remoteEpk m)), (''relay_url'', JStr (mm_relayUrl m)),
      (''paired_at'', JStr (mm_pairedAt m))] @ (case mm_nickname m of None \<Rightarrow> [] | Some n \<Rightarrow> [(''nickname'', JStr n)]))"

definition header_jv :: "mesh_header \<Rightarrow> jv" where
  "header_jv h = JObj [(''version'', JInt (mh_version h)), (''issued_at'', JInt (mh_issuedAt h)),
      (''owner_pk'', JStr (b64_encode (mh_ownerPk h))), (''members'', JArr (map member_jv (mh_members h)))]"

lemma jget_canon:
  assumes "distinct (map fst kvs)" and "(k, v) \<in> set kvs"
  shows "jget (canon_jv (JObj kvs)) k = canon_jv v"
proof -
  have e: "map fst (map (\<lambda>(k, v). (k, canon_jv v)) kvs) = map fst kvs" by auto
  have "distinct (map fst (map (\<lambda>(k, v). (k, canon_jv v)) kvs))" unfolding e by (rule assms(1))
  then have "distinct (map fst (sort_members (map (\<lambda>(k, v). (k, canon_jv v)) kvs)))" by (rule sort_members_keys)
  moreover have "(k, canon_jv v) \<in> set (sort_members (map (\<lambda>(k, v). (k, canon_jv v)) kvs))" using assms(2) by force
  ultimately have "mget (sort_members (map (\<lambda>(k, v). (k, canon_jv v)) kvs)) k = Some (canon_jv v)" by (simp only: map_of_eq_Some_iff)
  then show ?thesis by simp
qed

lemma jget_canon_none: "k \<notin> fst ` set kvs \<Longrightarrow> jget (canon_jv (JObj kvs)) k = JUndef"
proof -
  assume k: "k \<notin> fst ` set kvs"
  have "k \<notin> fst ` set (sort_members (map (\<lambda>(k, v). (k, canon_jv v)) kvs))" using k by force
  then have "mget (sort_members (map (\<lambda>(k, v). (k, canon_jv v)) kvs)) k = None" by (simp add: map_of_eq_None_iff)
  then show ?thesis by simp
qed

lemma raw_member_jv: "raw_member n (canon_jv (member_jv m)) = Inr m"
proof -
  define kvs where "kvs = [(''remote_epk'', JStr (mm_remoteEpk m)), (''relay_url'', JStr (mm_relayUrl m)),
      (''paired_at'', JStr (mm_pairedAt m))] @ (case mm_nickname m of None \<Rightarrow> [] | Some n \<Rightarrow> [(''nickname'', JStr n)])"
  have m: "member_jv m = JObj kvs" by (simp add: member_jv_def kvs_def)
  have d: "distinct (map fst kvs)" by (simp add: kvs_def split: option.split)
  have "jget (canon_jv (JObj kvs)) ''remote_epk'' = JStr (mm_remoteEpk m)"
    "jget (canon_jv (JObj kvs)) ''relay_url'' = JStr (mm_relayUrl m)"
    "jget (canon_jv (JObj kvs)) ''paired_at'' = JStr (mm_pairedAt m)"
    using jget_canon [OF d] by (simp_all add: kvs_def)
  moreover have "jget (canon_jv (JObj kvs)) ''nickname'' = (case mm_nickname m of None \<Rightarrow> JUndef | Some n \<Rightarrow> JStr n)"
  proof (cases "mm_nickname m")
    case None
    then show ?thesis using jget_canon_none [of "''nickname''" kvs] by (simp add: kvs_def)
  next
    case (Some n)
    then show ?thesis using jget_canon [OF d, of "''nickname''"] by (simp add: kvs_def)
  qed
  moreover have "is_objlike (canon_jv (JObj kvs))" by simp
  ultimately show ?thesis unfolding raw_member_def m by (cases "mm_nickname m") (auto simp del: canon_jv.simps)
qed

lemma raw_members_jv: "raw_members n (map (\<lambda>m. canon_jv (member_jv m)) ms) = Inr ms"
  by (induction ms arbitrary: n) (simp_all add: raw_member_jv)

lemma canonical_members_id:
  "\<forall>m \<in> set ms. \<exists>k. length k = 32 \<and> mm_remoteEpk m = b64_encode k \<Longrightarrow> canonical_members n ms = Inr ms"
proof (induction ms arbitrary: n)
  case (Cons m ms)
  obtain k where k: "length k = 32" "mm_remoteEpk m = b64_encode k" using Cons.prems by auto
  have "decodeEd25519PublicKey (b64_encode k) f = Inr k" for f by (rule kc.dec_enc) (simp add: key_ok_def k)
  then have "canonicalizeEd25519PublicKey (mm_remoteEpk m) f = Inr (mm_remoteEpk m)" for f
    using k by (simp add: canonicalizeEd25519PublicKey_def encodeEd25519PublicKey_def ED25519_PUBLIC_KEY_BYTES_def)
  then show ?case using Cons by simp
qed simp

lemma verify_header_jv:
  assumes "length (mh_ownerPk h) = 32" and "\<forall>m \<in> set (mh_members h). \<exists>k. length k = 32 \<and> mm_remoteEpk m = b64_encode k"
    and "canonicalBytes (header_jv h) = Some blob" and "canonicalize (header_jv h) = Some (text_decode blob)"
    and "V (mh_ownerPk h) blob sig" and "\<bar>mh_version h\<bar> < 2 ^ 53" and "\<bar>mh_issuedAt h\<bar> < 2 ^ 53"
  shows "verifyEnvelope V \<lparr>me_blob = blob, me_sig = sig\<rparr> = Inr h"
proof -
  define kvs where "kvs = [(''version'', JInt (mh_version h)), (''issued_at'', JInt (mh_issuedAt h)),
      (''owner_pk'', JStr (b64_encode (mh_ownerPk h))), (''members'', JArr (map member_jv (mh_members h)))]"
  have h: "header_jv h = JObj kvs" by (simp add: header_jv_def kvs_def)
  have d: "distinct (map fst kvs)" by (simp add: kvs_def)
  have "wf_json (member_jv m)" for m by (simp add: member_jv_def split: option.split)
  then have wf: "wf_json (header_jv h)" by (simp add: header_jv_def list_all_iff)
  have jp: "json_parse (text_decode blob) = Some (canon_jv (JObj kvs))"
    using canonicalize_canon [OF wf] assms(4) json_round_trip [of "canon_jv (header_jv h)" "[]"] canon_wf [OF wf] h by simp
  have "jget (canon_jv (JObj kvs)) ''owner_pk'' = JStr (b64_encode (mh_ownerPk h))"
    "jget (canon_jv (JObj kvs)) ''version'' = JInt (mh_version h)"
    "jget (canon_jv (JObj kvs)) ''issued_at'' = JInt (mh_issuedAt h)"
    "jget (canon_jv (JObj kvs)) ''members'' = JArr (map (\<lambda>m. canon_jv (member_jv m)) (mh_members h))"
    using jget_canon [OF d] by (simp_all add: kvs_def)
  moreover have "decodeEd25519PublicKey (b64_encode (mh_ownerPk h)) ''owner_pk'' = Inr (mh_ownerPk h)"
    by (rule kc.dec_enc) (simp add: key_ok_def assms(1))
  moreover have "is_objlike (canon_jv (JObj kvs))" by simp
  ultimately show ?thesis
    using jp assms(5) raw_members_jv canonical_members_id [OF assms(2)]
    by (simp add: verifyEnvelope_def js_integer_safe [OF assms(6)] js_integer_safe [OF assms(7)] del: canon_jv.simps)
qed

text \<open>What an owner signs is what a verifier reads. Take any header with canonical member keys and numbers
  that a double can hold exactly, its canonical JSON as bytes
  (well-formed UTF-8), and a signature over those bytes that verifies: verification gives back exactly that
  header.\<close>

theorem verify_signed_header:
  assumes "length (mh_ownerPk h) = 32" and "\<forall>m \<in> set (mh_members h). \<exists>k. length k = 32 \<and> mm_remoteEpk m = b64_encode k"
    and "canonicalBytes (header_jv h) = Some blob" and "canonicalize (header_jv h) = Some (text_decode blob)"
    and "V (mh_ownerPk h) blob sig" and "\<bar>mh_version h\<bar> < 2 ^ 53" and "\<bar>mh_issuedAt h\<bar> < 2 ^ 53"
  shows "verifyEnvelope V \<lparr>me_blob = blob, me_sig = sig\<rparr> = Inr h"
  using assms by (rule verify_header_jv)

definition demo_header :: mesh_header where
  "demo_header = \<lparr>mh_version = 3, mh_issuedAt = 17, mh_ownerPk = demo_key,
     mh_members = [\<lparr>mm_remoteEpk = b64_encode (rev demo_key), mm_relayUrl = ''wss://r'', mm_pairedAt = ''t'', mm_nickname = Some ''mac''\<rparr>]\<rparr>"

definition demo_blob :: "byte list" where
  "demo_blob = the (canonicalBytes (header_jv demo_header))"

definition accept_key :: "byte list \<Rightarrow> byte list \<Rightarrow> byte list \<Rightarrow> bool" where
  "accept_key pk blob sig \<longleftrightarrow> sig = take 4 pk"

lemma byte_char [simp]: "char_of (unat (char_byte c)) = c"
  by (simp add: char_byte_def unat_of_nat)

text \<open>ASCII decodes to itself.\<close>

lemma utf8_run_ascii: "list_all (\<lambda>c. code c < 128) s \<Longrightarrow> utf8_run 0 128 191 [] s = s"
  by (induction s) (simp_all add: Let_def)

lemma text_decode_ascii:
  assumes "list_all (\<lambda>c. code c < 128) s"
  shows "text_decode (map char_byte s) = s"
proof -
  have "\<not> starts_with (map char_of [239 :: nat, 187, 191]) s"
    using assms by (cases s) auto
  then show ?thesis using utf8_run_ascii [OF assms] by (simp add: text_decode_def comp_def Let_def)
qed

lemma demo_header_ascii: "case canonicalize (header_jv demo_header) of None \<Rightarrow> False | Some s \<Rightarrow> list_all (\<lambda>c. code c < 128) s"
  by code_simp

lemma demo_blob_ok: "canonicalBytes (header_jv demo_header) = Some demo_blob" "canonicalize (header_jv demo_header) = Some (text_decode demo_blob)"
proof -
  obtain s where s: "canonicalize (header_jv demo_header) = Some s" "list_all (\<lambda>c. code c < 128) s"
    using demo_header_ascii by (auto split: option.splits)
  then show "canonicalBytes (header_jv demo_header) = Some demo_blob" "canonicalize (header_jv demo_header) = Some (text_decode demo_blob)"
    using text_decode_ascii [OF s(2)] by (simp_all add: demo_blob_def canonicalBytes_def)
qed

lemma demo_header_ok: "length (mh_ownerPk demo_header) = 32"
  "\<forall>m \<in> set (mh_members demo_header). \<exists>k. length k = 32 \<and> mm_remoteEpk m = b64_encode k"
  "accept_key (mh_ownerPk demo_header) demo_blob (take 4 demo_key)" "\<bar>mh_version demo_header\<bar> < 2 ^ 53" "\<bar>mh_issuedAt demo_header\<bar> < 2 ^ 53"
  by (auto simp: demo_header_def accept_key_def demo_key_def intro: exI [of _ "rev demo_key"])

lemma verify_signed_header_witness:
  "verifyEnvelope accept_key \<lparr>me_blob = demo_blob, me_sig = take 4 demo_key\<rparr> = Inr demo_header"
  using demo_header_ok(1,2) demo_blob_ok demo_header_ok(3-5) by (rule verify_signed_header)

lemma demo_verified: "verifyEnvelope accept_key \<lparr>me_blob = demo_blob, me_sig = take 4 demo_key\<rparr> = Inr demo_header"
  using demo_header_ok(1,2) demo_blob_ok demo_header_ok(3-5) by (rule verify_header_jv)

lemma verify_authentic_witness:
  "accept_key demo_key demo_blob (take 4 demo_key) \<and> length (mh_ownerPk demo_header) = 32"
  using verify_authentic [OF demo_verified] by (simp add: demo_header_def)

end
