(* ===== verification/Topology.thy ===== *)
theory Topology
  imports Aliases Mesh
begin

text \<open>
  Who is reachable on other machines: \<^verbatim>\<open>extension/src/mesh/siblings.ts\<close>. The mesh
  client (\<^verbatim>\<open>client.get\<close>), SHA-256 and Ed25519 verification are arguments. Warnings are
  returned as the list of lines logged.
\<close>

section \<open>Data\<close>

record identity =
  ri_pcPubkey :: string
  ri_pcLabel :: string
  ri_legacyPcLabel :: string

record topology =
  tp_self :: identity
  tp_siblings :: "identity list"

record membership =
  bm_ownerPubkey :: string
  bm_members :: "(string \<times> string option) list"

record owner_slot =
  sl_canonical :: string
  sl_ownerPk :: "byte list"
  sl_fingerprint :: string

datatype fetch = Fetched mesh_envelope | NotFound | FetchThrows

datatype topology_error = TopoKey key_error | TopoAlias alias_error | SelfAliasFailed

section \<open>Building a snapshot\<close>

fun normalize_members :: "nat \<Rightarrow> (string \<times> string option) list \<Rightarrow> key_error + (string \<times> string option) list" where
  "normalize_members index [] = Inr []"
| "normalize_members index ((k, nick) # rest) =
     (case canonicalizeEd25519PublicKey k (''membership.members['' @ show_nat index @ ''].pcPubkey'') of
        Inl e \<Rightarrow> Inl e
      | Inr c \<Rightarrow> (case normalize_members (Suc index) rest of Inl e \<Rightarrow> Inl e | Inr ms \<Rightarrow> Inr ((c, nick) # ms)))"

text \<open>A member adds its key and, when not empty, its nickname.\<close>

definition note_member :: "string \<times> string option \<Rightarrow> (string, string list) jsmap \<Rightarrow> (string, string list) jsmap" where
  "note_member m names =
     (let candidates = (case mget names (fst m) of Some cs \<Rightarrow> cs | None \<Rightarrow> [])
      in mput (fst m) (case snd m of Some n \<Rightarrow> if n \<noteq> [] then candidates @ [n] else candidates | None \<Rightarrow> candidates) names)"

fun note_memberships :: "string \<Rightarrow> membership list \<Rightarrow> (string, string list) jsmap \<Rightarrow> key_error + (string, string list) jsmap" where
  "note_memberships self [] names = Inr names"
| "note_memberships self (ms # rest) names =
     (case canonicalizeEd25519PublicKey (bm_ownerPubkey ms) ''membership.ownerPubkey'' of
        Inl e \<Rightarrow> Inl e
      | Inr _ \<Rightarrow>
          (case normalize_members 0 (bm_members ms) of
             Inl e \<Rightarrow> Inl e
           | Inr members \<Rightarrow>
               if \<not> list_ex (\<lambda>m. fst m = self) members then note_memberships self rest names
               else note_memberships self rest (fold note_member members names)))"

definition legacy_label :: "(string, string option) jsmap \<Rightarrow> string \<Rightarrow> string" where
  "legacy_label selected k = (case mget selected k of Some (Some n) \<Rightarrow> n | _ \<Rightarrow> take 8 k)"

definition buildTopologySnapshot :: "byte list \<Rightarrow> membership list \<Rightarrow> topology_error + topology" where
  "buildTopologySnapshot myPubkey memberships =
     (case encodeEd25519PublicKey myPubkey ''self public key'' of
        Inl e \<Rightarrow> Inl (TopoKey e)
      | Inr self \<Rightarrow>
          (case note_memberships self memberships [(self, [])] of
             Inl e \<Rightarrow> Inl (TopoKey e)
           | Inr names \<Rightarrow>
               (let selected = map (\<lambda>(k, cs). (k, selectRoutingNickname cs)) names
                in case allocateRoutingAliases (map (\<lambda>(k, n). \<lparr>ai_pcPubkey = k, ai_nickname = n\<rparr>) selected) of
                     Inl e \<Rightarrow> Inl (TopoAlias e)
                   | Inr aliases \<Rightarrow>
                       (case mget aliases self of
                          None \<Rightarrow> Inl SelfAliasFailed
                        | Some selfLabel \<Rightarrow>
                            if selfLabel = [] then Inl SelfAliasFailed
                            else Inr \<lparr>tp_self = \<lparr>ri_pcPubkey = self, ri_pcLabel = selfLabel,
                                   ri_legacyPcLabel = legacy_label selected self\<rparr>,
                                 tp_siblings =
                                   map (\<lambda>(k, l). \<lparr>ri_pcPubkey = k, ri_pcLabel = l, ri_legacyPcLabel = legacy_label selected k\<rparr>)
                                     (sort_members (filter (\<lambda>(k, _). k \<noteq> self) aliases))\<rparr>))))"

section \<open>Owner records\<close>

definition js_typeof :: "jv \<Rightarrow> string" where
  "js_typeof v = (case v of JUndef \<Rightarrow> ''undefined'' | JNull \<Rightarrow> ''object'' | JBool _ \<Rightarrow> ''boolean''
     | JInt _ \<Rightarrow> ''number'' | JDbl _ \<Rightarrow> ''number'' | JNonFin \<Rightarrow> ''number'' | JStr _ \<Rightarrow> ''string''
     | JArr _ \<Rightarrow> ''object'' | JObj _ \<Rightarrow> ''object'')"

definition rawOwnerFingerprint :: "(byte list \<Rightarrow> byte list) \<Rightarrow> jv \<Rightarrow> string" where
  "rawOwnerFingerprint sha256 raw =
     (let input = (case raw of
            JStr s \<Rightarrow> s
          | JNull \<Rightarrow> ''null:null''
          | JUndef \<Rightarrow> ''undefined:''
          | _ \<Rightarrow> js_typeof raw @ '':'' @ stringify raw)
      in take 8 (hex_bytes (sha256 (map char_byte input))))"

definition warn_line :: "string \<Rightarrow> string \<Rightarrow> string" where
  "warn_line event fp = ''[mesh] event='' @ event @ '' owner_fp='' @ fp"

definition slot_step :: "(byte list \<Rightarrow> byte list) \<Rightarrow> jv \<Rightarrow> (string, owner_slot) jsmap \<times> string list \<Rightarrow> (string, owner_slot) jsmap \<times> string list" where
  "slot_step sha256 raw st =
     (let bad = (fst st, snd st @ [warn_line ''invalid_owner_record'' (rawOwnerFingerprint sha256 raw)])
      in case raw of
           JStr s \<Rightarrow>
             (case decodeEd25519PublicKey s ''Owner record'' of
                Inl _ \<Rightarrow> bad
              | Inr ownerPk \<Rightarrow>
                  (case encodeEd25519PublicKey ownerPk ''public key'' of
                     Inl _ \<Rightarrow> bad
                   | Inr canonical \<Rightarrow>
                       if mhas (fst st) canonical then st
                       else (mput canonical \<lparr>sl_canonical = canonical, sl_ownerPk = ownerPk,
                               sl_fingerprint = publicKeyFingerprint sha256 ownerPk\<rparr> (fst st), snd st)))
         | _ \<Rightarrow> bad)"

definition canonicalOwnerSlots :: "(byte list \<Rightarrow> byte list) \<Rightarrow> jv list \<Rightarrow> owner_slot list \<times> string list" where
  "canonicalOwnerSlots sha256 raws =
     (let (slots, log) = fold (slot_step sha256) raws ([], [])
      in (sort_key (\<lambda>s. u16_key (sl_canonical s)) (mvals slots), log))"

section \<open>Discovery\<close>

definition header_membership :: "mesh_header \<Rightarrow> string \<Rightarrow> membership" where
  "header_membership h owner = \<lparr>bm_ownerPubkey = owner, bm_members = map (\<lambda>m. (mm_remoteEpk m, mm_nickname m)) (mh_members h)\<rparr>"

text \<open>One owner slot: the membership it contributes, if any, and what is logged.\<close>

definition discover_slot :: "(byte list \<Rightarrow> byte list) \<Rightarrow> (byte list \<Rightarrow> byte list \<Rightarrow> byte list \<Rightarrow> bool) \<Rightarrow> (string \<Rightarrow> fetch)
    \<Rightarrow> string \<Rightarrow> owner_slot \<Rightarrow> membership option \<times> string list" where
  "discover_slot sha256 V client self slot =
     (let failed = (None, [warn_line ''owner_discovery_failed'' (sl_fingerprint slot)])
      in case client (hex_bytes (sha256 (sl_ownerPk slot))) of
           FetchThrows \<Rightarrow> failed
         | NotFound \<Rightarrow> (None, [])
         | Fetched env \<Rightarrow>
             (case verifyEnvelope V env of
                Inl _ \<Rightarrow> failed
              | Inr header \<Rightarrow>
                  if \<not> bytesEqual (mh_ownerPk header) (sl_ownerPk slot)
                  then (None, [warn_line ''owner_slot_mismatch'' (sl_fingerprint slot)])
                  else if \<not> list_ex (\<lambda>m. mm_remoteEpk m = self) (mh_members header) then (None, [])
                  else (case encodeEd25519PublicKey (mh_ownerPk header) ''public key'' of
                     Inl _ \<Rightarrow> failed
                   | Inr owner \<Rightarrow> (Some (header_membership header owner), []))))"

definition discoverTopology :: "(byte list \<Rightarrow> byte list) \<Rightarrow> (byte list \<Rightarrow> byte list \<Rightarrow> byte list \<Rightarrow> bool) \<Rightarrow> (string \<Rightarrow> fetch)
    \<Rightarrow> jv list \<Rightarrow> byte list \<Rightarrow> (topology_error + topology) \<times> string list" where
  "discoverTopology sha256 V client ownerEpks myPubkey =
     (case encodeEd25519PublicKey myPubkey ''self public key'' of
        Inl e \<Rightarrow> (Inl (TopoKey e), [])
      | Inr self \<Rightarrow>
          (let (slots, log) = canonicalOwnerSlots sha256 ownerEpks;
               rs = map (discover_slot sha256 V client self) slots
           in (buildTopologySnapshot myPubkey (List.map_filter fst rs), log @ concat (map snd rs))))"

definition fallbackLabel :: "string \<Rightarrow> key_error + string" where
  "fallbackLabel pcPubkey =
     (case decodeEd25519PublicKey pcPubkey ''pcPubkey'' of
        Inl e \<Rightarrow> Inl e
      | Inr bytes \<Rightarrow> Inr (''pc-'' @ take 8 (toBase64UrlNoPad bytes)))"

definition discoverSelfLabel :: "(byte list \<Rightarrow> byte list) \<Rightarrow> (byte list \<Rightarrow> byte list \<Rightarrow> byte list \<Rightarrow> bool) \<Rightarrow> (string \<Rightarrow> fetch)
    \<Rightarrow> jv list \<Rightarrow> byte list \<Rightarrow> topology_error + string" where
  "discoverSelfLabel sha256 V client ownerEpks myPubkey =
     map_sum id (\<lambda>t. ri_pcLabel (tp_self t)) (fst (discoverTopology sha256 V client ownerEpks myPubkey))"

definition discoverSiblings :: "(byte list \<Rightarrow> byte list) \<Rightarrow> (byte list \<Rightarrow> byte list \<Rightarrow> byte list \<Rightarrow> bool) \<Rightarrow> (string \<Rightarrow> fetch)
    \<Rightarrow> jv list \<Rightarrow> byte list \<Rightarrow> topology_error + (string \<times> string) list" where
  "discoverSiblings sha256 V client ownerEpks myPubkey =
     map_sum id (\<lambda>t. map (\<lambda>i. (ri_pcLabel i, ri_pcPubkey i)) (tp_siblings t)) (fst (discoverTopology sha256 V client ownerEpks myPubkey))"


section \<open>Members and names\<close>

definition canon_key :: "string \<Rightarrow> bool" where
  "canon_key k \<longleftrightarrow> (\<exists>bs. length bs = 32 \<and> k = b64_encode bs)"

lemma canonicalize_Inr: "canonicalizeEd25519PublicKey raw f = Inr k \<Longrightarrow> canon_key k"
proof -
  assume "canonicalizeEd25519PublicKey raw f = Inr k"
  then obtain bs where "decodeEd25519PublicKey raw f = Inr bs" "k = b64_encode bs"
    by (auto simp: canonicalizeEd25519PublicKey_def encodeEd25519PublicKey_def split: sum.splits if_splits)
  then show ?thesis using decode_only_spelling unfolding canon_key_def by blast
qed

lemma canonicalize_canon_key: "canon_key k \<Longrightarrow> canonicalizeEd25519PublicKey k f = Inr k"
proof -
  assume "canon_key k"
  then obtain bs where bs: "length bs = 32" "k = b64_encode bs" by (auto simp: canon_key_def)
  have "decodeEd25519PublicKey (b64_encode bs) f = Inr bs" by (rule kc.dec_enc) (simp add: key_ok_def bs)
  then show ?thesis using bs by (simp add: canonicalizeEd25519PublicKey_def encodeEd25519PublicKey_def ED25519_PUBLIC_KEY_BYTES_def)
qed

lemma canon_key_valid: "canon_key k \<Longrightarrow> valid_key \<lparr>ai_pcPubkey = k, ai_nickname = n\<rparr> \<and> pr_pcPubkey (prep \<lparr>ai_pcPubkey = k, ai_nickname = n\<rparr>) = k"
proof -
  assume "canon_key k"
  then obtain bs where bs: "length bs = 32" "k = b64_encode bs" by (auto simp: canon_key_def)
  have "decodeEd25519PublicKey (b64_encode bs) [] = Inr bs" by (rule kc.dec_enc) (simp add: key_ok_def bs)
  then show ?thesis using bs by (simp add: valid_key_def prep_def key_bytes_def)
qed

lemma normalize_members_Inr: "normalize_members n ms = Inr ms' \<Longrightarrow> k \<in> fst ` set ms' \<Longrightarrow> canon_key k"
proof (induction n ms arbitrary: ms' rule: normalize_members.induct)
  case (2 index k0 nick rest)
  obtain c ns where c: "canonicalizeEd25519PublicKey k0 (''membership.members['' @ show_nat index @ ''].pcPubkey'') = Inr c"
      "normalize_members (Suc index) rest = Inr ns" "ms' = (c, nick) # ns"
    using "2.prems"(1) by (auto split: sum.splits)
  then show ?case using "2.IH" [OF c(1,2)] canonicalize_Inr [OF c(1)] "2.prems"(2) by auto
qed simp

lemma normalize_members_canon: "\<forall>m \<in> set ms. canon_key (fst m) \<Longrightarrow> normalize_members n ms = Inr ms"
  by (induction n ms rule: normalize_members.induct) (auto simp: canonicalize_canon_key)

lemma note_member_keys: "set (mkeys (note_member m names)) = insert (fst m) (set (mkeys names))"
  by (auto simp: note_member_def Let_def mkeys_update simp del: set_map)

lemma note_member_wf [simp]: "mwf names \<Longrightarrow> mwf (note_member m names)"
  by (simp add: note_member_def Let_def)

lemma note_members_keys: "set (mkeys (fold note_member ms names)) = fst ` set ms \<union> set (mkeys names)"
  by (induction ms arbitrary: names) (simp_all add: note_member_keys del: set_map)

lemma note_members_wf: "mwf names \<Longrightarrow> mwf (fold note_member ms names)"
  by (induction ms arbitrary: names) simp_all

text \<open>The keys of a membership that includes \<open>self\<close>.\<close>

definition co_members :: "string \<Rightarrow> membership list \<Rightarrow> string set" where
  "co_members self ms = {k. \<exists>m ns. m \<in> set ms \<and> normalize_members 0 (bm_members m) = Inr ns \<and>
     self \<in> fst ` set ns \<and> k \<in> fst ` set ns}"

lemma co_members_Cons: "co_members self (m # ms) = co_members self [m] \<union> co_members self ms"
  by (auto simp: co_members_def)

lemma note_memberships_keys:
  "note_memberships self ms names = Inr names' \<Longrightarrow> mwf names \<Longrightarrow>
     mwf names' \<and> set (mkeys names') = set (mkeys names) \<union> co_members self ms"
proof (induction self ms names rule: note_memberships.induct)
  case (1 self names)
  then show ?case by (simp add: co_members_def)
next
  case (2 self m rest names)
  obtain c ns where c: "canonicalizeEd25519PublicKey (bm_ownerPubkey m) ''membership.ownerPubkey'' = Inr c"
      "normalize_members 0 (bm_members m) = Inr ns"
    using "2.prems" by (auto split: sum.splits)
  have ex: "list_ex (\<lambda>m. fst m = self) ns \<longleftrightarrow> self \<in> fst ` set ns" by (auto simp: list_ex_iff)
  show ?case
  proof (cases "self \<in> fst ` set ns")
    case True
    then have "co_members self [m] = fst ` set ns" using c by (auto simp: co_members_def)
    moreover have "note_memberships self rest (fold note_member ns names) = Inr names'"
      using "2.prems" c ex True by simp
    ultimately show ?thesis
      using "2.IH"(2) [OF c] "2.prems"(2) ex True note_members_keys [of ns names] note_members_wf [of names ns] co_members_Cons [of self m rest]
      by auto
  next
    case False
    then have "co_members self [m] = {}" using c by (auto simp: co_members_def)
    moreover have "note_memberships self rest names = Inr names'" using "2.prems" c ex False by simp
    ultimately show ?thesis using "2.IH"(1) [OF c] "2.prems"(2) ex False co_members_Cons [of self m rest] by simp
  qed
qed

lemma co_members_canon: "k \<in> co_members self ms \<Longrightarrow> canon_key k"
  unfolding co_members_def using normalize_members_Inr by blast

text \<open>With canonical keys, allocation succeeds and keeps them.\<close>

lemma allocation_canonical:
  assumes "distinct (map fst sel)" and "\<forall>k \<in> fst ` set sel. canon_key k"
  shows "\<exists>al. allocateRoutingAliases (map (\<lambda>(k, n). \<lparr>ai_pcPubkey = k, ai_nickname = n\<rparr>) sel) = Inr al \<and>
     distinct (mkeys al) \<and> distinct (mvals al) \<and> set (mkeys al) = fst ` set sel \<and> (\<forall>a \<in> set (mvals al). plain a)"
proof -
  let ?in = "map (\<lambda>(k, n). \<lparr>ai_pcPubkey = k, ai_nickname = n\<rparr>) sel"
  have v: "\<forall>i \<in> set ?in. valid_key i" using assms(2) canon_key_valid by (fastforce)
  have e: "map (pr_pcPubkey \<circ> prep) ?in = map fst sel" using assms(2) canon_key_valid by auto
  have d: "distinct (map (pr_pcPubkey \<circ> prep) ?in)" unfolding e by (rule assms(1))
  have "canonicalizeEd25519PublicKey k [] = Inr k' \<longleftrightarrow> k' = k" if "canon_key k" for k k'
    using canonicalize_canon_key [OF that] by auto
  then have c: "canonicalizeEd25519PublicKey k [] = Inr k' \<longleftrightarrow> k' = k" if "k \<in> fst ` set sel" for k k'
    using assms(2) that by blast
  have "{k. \<exists>i \<in> set ?in. canonicalizeEd25519PublicKey (ai_pcPubkey i) [] = Inr k} = fst ` set sel"
  proof (rule set_eqI)
    fix x
    have "(\<exists>i \<in> set ?in. canonicalizeEd25519PublicKey (ai_pcPubkey i) [] = Inr x) \<longleftrightarrow>
        (\<exists>k \<in> fst ` set sel. canonicalizeEd25519PublicKey k [] = Inr x)" by (simp add: split_def)
    also have "\<dots> \<longleftrightarrow> x \<in> fst ` set sel" using c by blast
    finally show "x \<in> {k. \<exists>i \<in> set ?in. canonicalizeEd25519PublicKey (ai_pcPubkey i) [] = Inr k} \<longleftrightarrow> x \<in> fst ` set sel" by simp
  qed
  then show ?thesis
    using allocation_facts [of ?in] v d by (cases "allocateRoutingAliases ?in") (simp_all add: plain_def)
qed


section \<open>What a snapshot says\<close>

lemma build_names:
  assumes "length my = 32" and "note_memberships (b64_encode my) ms [(b64_encode my, [])] = Inr names"
  shows "\<exists>al. buildTopologySnapshot my ms = Inr \<lparr>tp_self = \<lparr>ri_pcPubkey = b64_encode my, ri_pcLabel = the (mget al (b64_encode my)),
        ri_legacyPcLabel = legacy_label (map (\<lambda>(k, cs). (k, selectRoutingNickname cs)) names) (b64_encode my)\<rparr>,
      tp_siblings = map (\<lambda>(k, l). \<lparr>ri_pcPubkey = k, ri_pcLabel = l,
          ri_legacyPcLabel = legacy_label (map (\<lambda>(k, cs). (k, selectRoutingNickname cs)) names) k\<rparr>)
        (sort_members (filter (\<lambda>(k, _). k \<noteq> b64_encode my) al))\<rparr> \<and>
     distinct (mkeys al) \<and> distinct (mvals al) \<and> set (mkeys al) = insert (b64_encode my) (co_members (b64_encode my) ms) \<and>
     (\<forall>a \<in> set (mvals al). plain a)"
proof -
  let ?self = "b64_encode my" and ?sel = "map (\<lambda>(k, cs). (k, selectRoutingNickname cs)) names"
  have names: "mwf names" "set (mkeys names) = insert ?self (co_members ?self ms)"
    using note_memberships_keys [OF assms(2)] by (simp_all add: mwf_def)
  have keys: "map fst ?sel = mkeys names" by auto
  have "canon_key ?self" using assms(1) unfolding canon_key_def by blast
  then have ck: "\<forall>k \<in> fst ` set ?sel. canon_key k" using names(2) co_members_canon keys by (metis insert_iff list.set_map)
  have d: "distinct (map fst ?sel)" unfolding keys using names(1) by (simp add: mwf_def)
  from allocation_canonical [OF d ck] obtain al where al:
    "allocateRoutingAliases (map (\<lambda>(k, n). \<lparr>ai_pcPubkey = k, ai_nickname = n\<rparr>) ?sel) = Inr al"
    "distinct (mkeys al)" "distinct (mvals al)" "set (mkeys al) = fst ` set ?sel" "\<forall>a \<in> set (mvals al). plain a" by blast
  have ks: "set (mkeys al) = insert ?self (co_members ?self ms)" using al(4) names(2) keys by (metis list.set_map)
  then have "mhas al ?self" by (simp add: mhas_keys)
  then obtain l where l: "mget al ?self = Some l" by (auto simp: mhas_def)
  then have "l \<in> set (mvals al)" by (metis image_eqI map_of_SomeD set_map snd_conv)
  then have "l \<noteq> []" using al(5) by (auto simp: plain_def)
  moreover have "encodeEd25519PublicKey my ''self public key'' = Inr ?self"
    using assms(1) by (simp add: encodeEd25519PublicKey_def ED25519_PUBLIC_KEY_BYTES_def)
  ultimately show ?thesis using assms(2) al ks l
    by (intro exI [of _ al]) (simp add: buildTopologySnapshot_def Let_def)
qed

lemma build_cases:
  assumes "buildTopologySnapshot my ms = Inr t"
  obtains names where "length my = 32" "note_memberships (b64_encode my) ms [(b64_encode my, [])] = Inr names"
proof -
  have "length my = 32"
    using assms by (auto simp: buildTopologySnapshot_def encodeEd25519PublicKey_def ED25519_PUBLIC_KEY_BYTES_def split: if_splits)
  moreover from this obtain names where "note_memberships (b64_encode my) ms [(b64_encode my, [])] = Inr names"
    using assms by (auto simp: buildTopologySnapshot_def encodeEd25519PublicKey_def ED25519_PUBLIC_KEY_BYTES_def split: sum.splits)
  ultimately show ?thesis by (rule that)
qed

lemma selected_ne: "selectRoutingNickname cs = Some n \<Longrightarrow> n \<noteq> []"
proof -
  assume n: "selectRoutingNickname cs = Some n"
  have "best_of (set cs - {[]}) (fold select_step cs None)"
    using best_of_fold [of "{}" None cs] by (simp add: best_of_def)
  then show ?thesis using n by (auto simp: selectRoutingNickname_def best_of_def)
qed

lemma canon_key_ne: "canon_key k \<Longrightarrow> k \<noteq> []"
proof
  assume "canon_key k" "k = []"
  then obtain bs where "length bs = 32" "b64_encode bs = []" by (auto simp: canon_key_def)
  moreover have "decodeEd25519PublicKey (b64_encode bs) [] = Inr bs" by (rule kc.dec_enc) (simp add: key_ok_def calculation(1))
  ultimately show False using decode_checks by (auto simp: decodeEd25519PublicKey_def)
qed

lemma legacy_label_ne: "canon_key k \<Longrightarrow> legacy_label (map (\<lambda>(k, cs). (k, selectRoutingNickname cs)) names) k \<noteq> []"
proof -
  assume k: "canon_key k"
  have "n \<noteq> []" if m: "mget (map (\<lambda>(k, cs). (k, selectRoutingNickname cs)) names) k = Some (Some n)" for n
  proof -
    obtain cs where "Some n = selectRoutingNickname cs" using map_of_SomeD [OF m] by auto
    then show ?thesis using selected_ne by metis
  qed
  then show ?thesis using canon_key_ne [OF k] by (auto simp: legacy_label_def split: option.split)
qed

lemma snapshot_facts:
  assumes "buildTopologySnapshot my ms = Inr t"
  shows "ri_pcPubkey (tp_self t) = b64_encode my \<and>
    set (map ri_pcPubkey (tp_siblings t)) = co_members (b64_encode my) ms - {b64_encode my} \<and>
    distinct (map ri_pcPubkey (tp_siblings t)) \<and> sorted (map (\<lambda>i. u16_key (ri_pcPubkey i)) (tp_siblings t)) \<and>
    distinct (map ri_pcLabel (tp_self t # tp_siblings t)) \<and>
    (\<forall>i \<in> set (tp_self t # tp_siblings t). canon_key (ri_pcPubkey i) \<and> plain (ri_pcLabel i) \<and> ri_legacyPcLabel i \<noteq> [])"
proof -
  obtain names where n: "length my = 32" "note_memberships (b64_encode my) ms [(b64_encode my, [])] = Inr names"
    by (rule build_cases [OF assms])
  let ?self = "b64_encode my"
  obtain al where t: "tp_self t = \<lparr>ri_pcPubkey = ?self, ri_pcLabel = the (mget al ?self),
        ri_legacyPcLabel = legacy_label (map (\<lambda>(k, cs). (k, selectRoutingNickname cs)) names) ?self\<rparr>"
     "tp_siblings t = map (\<lambda>(k, l). \<lparr>ri_pcPubkey = k, ri_pcLabel = l,
          ri_legacyPcLabel = legacy_label (map (\<lambda>(k, cs). (k, selectRoutingNickname cs)) names) k\<rparr>)
        (sort_members (filter (\<lambda>(k, _). k \<noteq> ?self) al))"
    and al: "distinct (mkeys al)" "distinct (mvals al)" "set (mkeys al) = insert ?self (co_members ?self ms)"
      "\<forall>a \<in> set (mvals al). plain a"
    using build_names [OF n] assms by auto
  let ?others = "filter (\<lambda>(k, _). k \<noteq> ?self) al"
  have ps: "map ri_pcPubkey (tp_siblings t) = map fst (sort_members ?others)"
    and ls: "map ri_pcLabel (tp_siblings t) = map snd (sort_members ?others)" by (auto simp: t(2))
  have keys: "set (map ri_pcPubkey (tp_siblings t)) = co_members ?self ms - {?self}"
    unfolding ps using al(3) by force
  have dk: "distinct (map ri_pcPubkey (tp_siblings t))"
    unfolding ps by (rule sort_members_keys, rule distinct_map_filter, rule al(1))
  have "sorted (map (\<lambda>(k, _). u16_key k) (sort_members ?others))" by (simp add: sort_members_def)
  then have so: "sorted (map (\<lambda>i. u16_key (ri_pcPubkey i)) (tp_siblings t))" by (simp add: t(2) comp_def split_def)
  obtain l where l: "mget al ?self = Some l" using al(3) mhas_keys [of al ?self] by (auto simp: mhas_def)
  have "distinct (map snd (sort_members ?others))"
  proof -
    have "mset (map snd (sort_members ?others)) = mset (map snd ?others)" by (simp add: sort_members_def)
    moreover have "distinct (map snd ?others)" by (rule distinct_map_filter, rule al(2))
    ultimately show ?thesis by (metis mset_eq_imp_distinct_iff)
  qed
  moreover have "l \<notin> snd ` set ?others"
  proof
    assume "l \<in> snd ` set ?others"
    then obtain k where k: "(k, l) \<in> set al" "k \<noteq> ?self" by auto
    have "(?self, l) \<in> set al" using l by (rule map_of_SomeD)
    have "inj_on snd (set al)" using al(2) by (simp add: distinct_map)
    from inj_onD [OF this, of "(k, l)" "(?self, l)"] have "(k, l) = (?self, l)"
      using k(1) \<open>(?self, l) \<in> set al\<close> by simp
    then show False using k(2) by simp
  qed
  ultimately have dl: "distinct (map ri_pcLabel (tp_self t # tp_siblings t))" by (simp add: ls t(1) l)
  have "plain (ri_pcLabel i)" if "i \<in> set (tp_self t # tp_siblings t)" for i
  proof -
    have "ri_pcLabel i \<in> set (mvals al)"
      using that map_of_SomeD [OF l] by (auto simp: t l rev_image_eqI)
    then show ?thesis using al(4) by blast
  qed
  moreover have "canon_key (ri_pcPubkey i)" if "i \<in> set (tp_self t # tp_siblings t)" for i
  proof -
    have "canon_key ?self" using n(1) unfolding canon_key_def by blast
    moreover have "ri_pcPubkey i = ?self \<or> ri_pcPubkey i \<in> co_members ?self ms" using that keys by (auto simp: t(1))
    ultimately show ?thesis using co_members_canon by metis
  qed
  moreover from this have "ri_legacyPcLabel i \<noteq> []" if "i \<in> set (tp_self t # tp_siblings t)" for i
  proof -
    have "ri_legacyPcLabel i = legacy_label (map (\<lambda>(k, cs). (k, selectRoutingNickname cs)) names) (ri_pcPubkey i)"
      using that by (auto simp: t)
    then show ?thesis using legacy_label_ne \<open>\<And>i. i \<in> set (tp_self t # tp_siblings t) \<Longrightarrow> canon_key (ri_pcPubkey i)\<close> [OF that] by simp
  qed
  ultimately show ?thesis using keys dk so dl by (simp add: t(1))
qed

text \<open>A snapshot lists exactly the machines that share an owner with this one. Its siblings are the other keys of those
  memberships that contain our own key, each once, in key order; memberships without us contribute
  nothing; and the labels, our own included, are pairwise different and fit for an address.\<close>

theorem snapshot_direct_siblings:
  assumes "buildTopologySnapshot my ms = Inr t"
  shows "ri_pcPubkey (tp_self t) = b64_encode my \<and>
    set (map ri_pcPubkey (tp_siblings t)) = co_members (b64_encode my) ms - {b64_encode my} \<and>
    distinct (map ri_pcPubkey (tp_siblings t)) \<and> sorted (map (\<lambda>i. u16_key (ri_pcPubkey i)) (tp_siblings t)) \<and>
    distinct (map ri_pcLabel (tp_self t # tp_siblings t)) \<and>
    (\<forall>i \<in> set (tp_self t # tp_siblings t). ri_pcLabel i \<noteq> [] \<and> CHR '':'' \<notin> set (ri_pcLabel i))"
  using snapshot_facts [OF assms] by (auto simp: plain_def)


section \<open>What discovery says\<close>

text \<open>The slots come from the owner records, one per key.\<close>

definition slot_ok :: "jv list \<Rightarrow> owner_slot \<Rightarrow> bool" where
  "slot_ok raws s \<longleftrightarrow> length (sl_ownerPk s) = 32 \<and> sl_canonical s = b64_encode (sl_ownerPk s) \<and>
     (\<exists>raw. JStr raw \<in> set raws \<and> decodeEd25519PublicKey raw ''Owner record'' = Inr (sl_ownerPk s))"

lemma mvals_mput: "x \<in> set (mvals (mput k v m)) \<Longrightarrow> x = v \<or> x \<in> set (mvals m)"
  by (induction m) (auto split: if_splits)

lemma slot_step_ok:
  assumes "\<forall>s \<in> set (mvals (fst st)). slot_ok rs s" and "raw \<in> set rs" and "mwf (fst st)"
  shows "(\<forall>s \<in> set (mvals (fst (slot_step sha raw st))). slot_ok rs s) \<and> mwf (fst (slot_step sha raw st))"
proof -
  show ?thesis
  proof (cases "\<exists>s pk. raw = JStr s \<and> decodeEd25519PublicKey s ''Owner record'' = Inr pk")
    case True
    then obtain s pk where s: "raw = JStr s" "decodeEd25519PublicKey s ''Owner record'' = Inr pk" by blast
    have l: "length pk = 32" using decode_only_spelling s(2) by blast
    then have e: "encodeEd25519PublicKey pk ''public key'' = Inr (b64_encode pk)"
      by (simp add: encodeEd25519PublicKey_def ED25519_PUBLIC_KEY_BYTES_def)
    let ?new = "\<lparr>sl_canonical = b64_encode pk, sl_ownerPk = pk, sl_fingerprint = publicKeyFingerprint sha pk\<rparr>"
    have n: "slot_ok rs ?new" using s l assms(2) by (auto simp: slot_ok_def)
    show ?thesis
    proof (cases "mhas (fst st) (b64_encode pk)")
      case True
      then have "slot_step sha raw st = st" using s e by (simp add: slot_step_def)
      then show ?thesis using assms by simp
    next
      case False
      then have "fst (slot_step sha raw st) = mput (b64_encode pk) ?new (fst st)" using s e by (simp add: slot_step_def)
      then show ?thesis using n assms(1,3) mvals_mput by (metis mwf_put)
    qed
  next
    case False
    then have "fst (slot_step sha raw st) = fst st"
      by (auto simp: slot_step_def Let_def split: jv.splits sum.splits)
    then show ?thesis using assms by simp
  qed
qed

lemma slots_ok: "s \<in> set (fst (canonicalOwnerSlots sha raws)) \<Longrightarrow> slot_ok raws s"
proof -
  have all: "(\<forall>s \<in> set (mvals (fst (fold (slot_step sha) xs st))). slot_ok raws s)"
    if "\<forall>s \<in> set (mvals (fst st)). slot_ok raws s" "mwf (fst st)" "set xs \<subseteq> set raws" for xs st
    using that
  proof (induction xs arbitrary: st)
    case Nil
    then show ?case by simp
  next
    case (Cons x xs)
    have "x \<in> set raws" "set xs \<subseteq> set raws" using Cons.prems(3) by simp_all
    note step = slot_step_ok [OF Cons.prems(1) this(1) Cons.prems(2), of sha]
    show ?case unfolding fold_simps comp_apply
      by (rule Cons.IH) (fact conjunct1 [OF step] conjunct2 [OF step] \<open>set xs \<subseteq> set raws\<close>)+
  qed
  show "s \<in> set (fst (canonicalOwnerSlots sha raws)) \<Longrightarrow> slot_ok raws s"
    using all [of "([], [])" raws] by (auto simp: canonicalOwnerSlots_def Let_def split_def)
qed

lemma header_members_canon: "verifyEnvelope V env = Inr h \<Longrightarrow> \<forall>m \<in> set (mh_members h). canon_key (mm_remoteEpk m)"
proof -
  assume "verifyEnvelope V env = Inr h"
  then show ?thesis
  proof (rule verify_cases)
    fix parsed pk version issued raws ms
    assume "canonical_members 0 ms = Inr (mh_members h)"
    from canonical_members_keys [OF this] show ?thesis unfolding canon_key_def by blast
  qed
qed

text \<open>A membership that counts, with the evidence for it.\<close>

definition authentic :: "(byte list \<Rightarrow> byte list) \<Rightarrow> (byte list \<Rightarrow> byte list \<Rightarrow> byte list \<Rightarrow> bool) \<Rightarrow> (string \<Rightarrow> fetch)
    \<Rightarrow> byte list \<Rightarrow> mesh_header \<Rightarrow> bool" where
  "authentic sha V client pk h \<longleftrightarrow> (\<exists>env. client (hex_bytes (sha pk)) = Fetched env \<and> verifyEnvelope V env = Inr h \<and>
     mh_ownerPk h = pk \<and> V pk (me_blob env) (me_sig env))"

lemma discover_slot_Some:
  assumes "fst (discover_slot sha V client self slot) = Some m"
  shows "\<exists>h. authentic sha V client (sl_ownerPk slot) h \<and> m = header_membership h (b64_encode (sl_ownerPk slot)) \<and>
     self \<in> mm_remoteEpk ` set (mh_members h)"
proof -
  obtain env where c: "client (hex_bytes (sha (sl_ownerPk slot))) = Fetched env"
    using assms by (auto simp: discover_slot_def Let_def split: fetch.splits)
  obtain h where h: "verifyEnvelope V env = Inr h"
    using assms c by (auto simp: discover_slot_def Let_def split: sum.splits)
  have eq: "mh_ownerPk h = sl_ownerPk slot" and mem: "list_ex (\<lambda>m. mm_remoteEpk m = self) (mh_members h)"
    using assms c h by (auto simp: discover_slot_def Let_def split: if_splits)
  have "length (mh_ownerPk h) = 32" and s: "V (mh_ownerPk h) (me_blob env) (me_sig env)"
    using h by (rule verify_cases, use decode_only_spelling in blast)+
  then have "encodeEd25519PublicKey (mh_ownerPk h) ''public key'' = Inr (b64_encode (mh_ownerPk h))"
    by (simp add: encodeEd25519PublicKey_def ED25519_PUBLIC_KEY_BYTES_def)
  then have "m = header_membership h (b64_encode (sl_ownerPk slot))"
    using assms c h eq mem by (simp add: discover_slot_def Let_def)
  then show ?thesis using c h eq s mem by (auto simp: authentic_def list_ex_iff)
qed

lemma note_memberships_total:
  "\<forall>m \<in> set ms. canon_key (bm_ownerPubkey m) \<and> (\<forall>k \<in> set (bm_members m). canon_key (fst k)) \<Longrightarrow>
     \<exists>names'. note_memberships self ms names = Inr names'"
  by (induction self ms names rule: note_memberships.induct)
    (auto simp: canonicalize_canon_key normalize_members_canon)

lemma in_map_filter: "x \<in> set (List.map_filter f xs) \<longleftrightarrow> (\<exists>y \<in> set xs. f y = Some x)"
  by (induction xs) (auto simp: List.map_filter_simps split: option.splits)

lemma discovered_membership:
  assumes "m \<in> set (List.map_filter fst (map (discover_slot sha V client self) (fst (canonicalOwnerSlots sha raws))))"
  obtains raw pk h where "JStr raw \<in> set raws" "decodeEd25519PublicKey raw ''Owner record'' = Inr pk" "length pk = 32"
    "authentic sha V client pk h" "m = header_membership h (b64_encode pk)" "self \<in> mm_remoteEpk ` set (mh_members h)"
proof -
  obtain s where s: "s \<in> set (fst (canonicalOwnerSlots sha raws))" "fst (discover_slot sha V client self s) = Some m"
    using assms by (auto simp: in_map_filter)
  from slots_ok [OF s(1)] obtain raw where "JStr raw \<in> set raws" "decodeEd25519PublicKey raw ''Owner record'' = Inr (sl_ownerPk s)"
    "length (sl_ownerPk s) = 32" by (auto simp: slot_ok_def)
  moreover from discover_slot_Some [OF s(2)] obtain h where "authentic sha V client (sl_ownerPk s) h"
    "m = header_membership h (b64_encode (sl_ownerPk s))" "self \<in> mm_remoteEpk ` set (mh_members h)" by blast
  ultimately show ?thesis by (rule that)
qed

lemma discovered_members_canon:
  assumes "m \<in> set (List.map_filter fst (map (discover_slot sha V client self) (fst (canonicalOwnerSlots sha raws))))"
  shows "canon_key (bm_ownerPubkey m) \<and> (\<forall>k \<in> set (bm_members m). canon_key (fst k))"
proof (rule discovered_membership [OF assms])
  fix raw pk h
  assume h: "length pk = 32" "authentic sha V client pk h" "m = header_membership h (b64_encode pk)"
  then have "canon_key (b64_encode pk)" unfolding canon_key_def by blast
  moreover have "\<forall>x \<in> set (mh_members h). canon_key (mm_remoteEpk x)"
    using h(2) header_members_canon unfolding authentic_def by blast
  ultimately show ?thesis using h(3) by (auto simp: header_membership_def)
qed

lemma discover_unfold:
  assumes "length my = 32"
  shows "fst (discoverTopology sha V client owners my) = buildTopologySnapshot my
     (List.map_filter fst (map (discover_slot sha V client (b64_encode my)) (fst (canonicalOwnerSlots sha owners))))"
  using assms by (simp add: discoverTopology_def encodeEd25519PublicKey_def ED25519_PUBLIC_KEY_BYTES_def Let_def split_def)

text \<open>C9: nobody becomes a sibling without a signature. For each sibling discovered there is an owner record
  we hold whose key signed, over the bytes the relay served for that key, a membership that names both the
  sibling and us.\<close>

theorem discovery_authentic:
  assumes "fst (discoverTopology sha V client owners my) = Inr t" and "i \<in> set (tp_siblings t)"
  shows "\<exists>raw pk env h. JStr raw \<in> set owners \<and> decodeEd25519PublicKey raw ''Owner record'' = Inr pk \<and>
     client (hex_bytes (sha pk)) = Fetched env \<and> V pk (me_blob env) (me_sig env) \<and> verifyEnvelope V env = Inr h \<and>
     mh_ownerPk h = pk \<and> {ri_pcPubkey i, b64_encode my} \<subseteq> mm_remoteEpk ` set (mh_members h)"
proof -
  let ?ms = "List.map_filter fst (map (discover_slot sha V client (b64_encode my)) (fst (canonicalOwnerSlots sha owners)))"
  have l: "length my = 32"
    using assms(1) by (auto simp: discoverTopology_def encodeEd25519PublicKey_def ED25519_PUBLIC_KEY_BYTES_def split: if_splits)
  have b: "buildTopologySnapshot my ?ms = Inr t" using assms(1) discover_unfold [OF l] by simp
  obtain names where n: "note_memberships (b64_encode my) ?ms [(b64_encode my, [])] = Inr names"
    by (rule build_cases [OF b])
  from build_names [OF l n] b obtain al where sib: "tp_siblings t = map (\<lambda>(k, l). \<lparr>ri_pcPubkey = k, ri_pcLabel = l,
          ri_legacyPcLabel = legacy_label (map (\<lambda>(k, cs). (k, selectRoutingNickname cs)) names) k\<rparr>)
        (sort_members (filter (\<lambda>(k, _). k \<noteq> b64_encode my) al))"
    and al: "set (mkeys al) = insert (b64_encode my) (co_members (b64_encode my) ?ms)" by auto
  from assms(2) obtain lab where "(ri_pcPubkey i, lab) \<in> set al" "ri_pcPubkey i \<noteq> b64_encode my"
    unfolding sib by auto
  then have "ri_pcPubkey i \<in> co_members (b64_encode my) ?ms" using al by force
  then obtain m ns where m: "m \<in> set ?ms" "normalize_members 0 (bm_members m) = Inr ns" "ri_pcPubkey i \<in> fst ` set ns"
    unfolding co_members_def by blast
  have "ns = bm_members m" using normalize_members_canon [of "bm_members m" 0] discovered_members_canon [OF m(1)] m(2) by simp
  then have i: "ri_pcPubkey i \<in> fst ` set (bm_members m)" using m(3) by simp
  show ?thesis
  proof (rule discovered_membership [OF m(1)])
    fix raw pk h
    assume h: "JStr raw \<in> set owners" "decodeEd25519PublicKey raw ''Owner record'' = Inr pk" "length pk = 32"
      "authentic sha V client pk h" "m = header_membership h (b64_encode pk)" "b64_encode my \<in> mm_remoteEpk ` set (mh_members h)"
    have "ri_pcPubkey i \<in> mm_remoteEpk ` set (mh_members h)" using i h(5) by (force simp: header_membership_def)
    then show ?thesis using h unfolding authentic_def by blast
  qed
qed

text \<open>Discovery cannot be made to fail from outside. With a well-formed own key it always produces a snapshot, whatever the owner records
  contain and whatever the relay serves or throws; a bad record or reply costs only its own owner.\<close>

theorem discovery_total:
  assumes "length my = 32"
  shows "\<exists>t. fst (discoverTopology sha V client owners my) = Inr t \<and> ri_pcPubkey (tp_self t) = b64_encode my"
proof -
  let ?ms = "List.map_filter fst (map (discover_slot sha V client (b64_encode my)) (fst (canonicalOwnerSlots sha owners)))"
  obtain names where "note_memberships (b64_encode my) ?ms [(b64_encode my, [])] = Inr names"
    using note_memberships_total [of ?ms] discovered_members_canon by blast
  from build_names [OF assms this] show ?thesis using discover_unfold [OF assms] by auto
qed


section \<open>A small network\<close>

definition net_header :: mesh_header where
  "net_header = \<lparr>mh_version = 3, mh_issuedAt = 17, mh_ownerPk = demo_key,
     mh_members = [\<lparr>mm_remoteEpk = b64_encode (rev demo_key), mm_relayUrl = ''wss://r'', mm_pairedAt = ''t'', mm_nickname = Some ''mac''\<rparr>,
       \<lparr>mm_remoteEpk = b64_encode (rotate1 demo_key), mm_relayUrl = ''wss://r'', mm_pairedAt = ''t'', mm_nickname = Some ''pc''\<rparr>]\<rparr>"

definition net_env :: mesh_envelope where
  "net_env = \<lparr>me_blob = the (canonicalBytes (header_jv net_header)), me_sig = take 4 demo_key\<rparr>"

definition net_client :: "string \<Rightarrow> fetch" where
  "net_client h = Fetched net_env"

lemma net_header_ascii: "case canonicalize (header_jv net_header) of None \<Rightarrow> False | Some s \<Rightarrow> list_all (\<lambda>c. code c < 128) s"
  by code_simp

lemma net_verified: "verifyEnvelope accept_key net_env = Inr net_header"
proof -
  obtain s where s: "canonicalize (header_jv net_header) = Some s" "list_all (\<lambda>c. code c < 128) s"
    using net_header_ascii by (auto split: option.splits)
  then have b: "canonicalBytes (header_jv net_header) = Some (me_blob net_env)" "canonicalize (header_jv net_header) = Some (text_decode (me_blob net_env))"
    using text_decode_ascii [OF s(2)] by (simp_all add: net_env_def canonicalBytes_def)
  have k: "length (mh_ownerPk net_header) = 32" "\<forall>m \<in> set (mh_members net_header). \<exists>k. length k = 32 \<and> mm_remoteEpk m = b64_encode k"
    by (auto simp: net_header_def demo_key_def intro: exI [of _ "rev demo_key"] exI [of _ "rotate1 demo_key"])
  have "accept_key (mh_ownerPk net_header) (me_blob net_env) (take 4 demo_key)"
    by (simp add: accept_key_def net_header_def)
  moreover have "\<bar>mh_version net_header\<bar> < 2 ^ 53" "\<bar>mh_issuedAt net_header\<bar> < 2 ^ 53" by (simp_all add: net_header_def)
  ultimately have "verifyEnvelope accept_key \<lparr>me_blob = me_blob net_env, me_sig = take 4 demo_key\<rparr> = Inr net_header"
    using k b by (intro verify_header_jv)
  then show ?thesis by (simp add: net_env_def)
qed

definition net_topology :: topology where
  "net_topology = (case buildTopologySnapshot (rev demo_key) [header_membership net_header (b64_encode demo_key)] of Inr t \<Rightarrow> t)"

lemma net_co_members:
  "b64_encode (rotate1 demo_key) \<in> co_members (b64_encode (rev demo_key)) [header_membership net_header (b64_encode demo_key)]"
proof -
  let ?ms = "bm_members (header_membership net_header (b64_encode demo_key))"
  have "\<forall>m \<in> set ?ms. canon_key (fst m)"
    by (auto simp: header_membership_def net_header_def canon_key_def demo_key_def
        intro: exI [of _ "rev demo_key"] exI [of _ "rotate1 demo_key"])
  then have "normalize_members 0 ?ms = Inr ?ms" by (rule normalize_members_canon)
  then show ?thesis by (simp add: co_members_def) (simp add: header_membership_def net_header_def)
qed

lemma net_keys: "b64_encode (rotate1 demo_key) \<noteq> b64_encode (rev demo_key)"
  by code_simp

lemma net_canon: "\<forall>m \<in> set [header_membership net_header (b64_encode demo_key)].
     canon_key (bm_ownerPubkey m) \<and> (\<forall>k \<in> set (bm_members m). canon_key (fst k))"
  by (auto simp: header_membership_def net_header_def canon_key_def demo_key_def
      intro: exI [of _ demo_key] exI [of _ "rev demo_key"] exI [of _ "rotate1 demo_key"])

lemma net_snapshot:
  "buildTopologySnapshot (rev demo_key) [header_membership net_header (b64_encode demo_key)] = Inr net_topology"
  "\<exists>i \<in> set (tp_siblings net_topology). ri_pcPubkey i = b64_encode (rotate1 demo_key)"
proof -
  let ?self = "b64_encode (rev demo_key)" and ?ms = "[header_membership net_header (b64_encode demo_key)]"
  have l: "length (rev demo_key) = 32" by (simp add: demo_key_def)
  obtain names where "note_memberships ?self ?ms [(?self, [])] = Inr names"
    using note_memberships_total [OF net_canon] by blast
  from build_names [OF l this] obtain al where
    b: "buildTopologySnapshot (rev demo_key) ?ms = Inr \<lparr>tp_self = \<lparr>ri_pcPubkey = ?self, ri_pcLabel = the (mget al ?self),
        ri_legacyPcLabel = legacy_label (map (\<lambda>(k, cs). (k, selectRoutingNickname cs)) names) ?self\<rparr>,
      tp_siblings = map (\<lambda>(k, l). \<lparr>ri_pcPubkey = k, ri_pcLabel = l,
          ri_legacyPcLabel = legacy_label (map (\<lambda>(k, cs). (k, selectRoutingNickname cs)) names) k\<rparr>)
        (sort_members (filter (\<lambda>(k, _). k \<noteq> ?self) al))\<rparr>"
    and al: "set (mkeys al) = insert ?self (co_members ?self ?ms)" by blast
  show "buildTopologySnapshot (rev demo_key) ?ms = Inr net_topology" using b by (simp add: net_topology_def)
  have "b64_encode (rotate1 demo_key) \<in> set (mkeys al)" unfolding al using net_co_members by (rule insertI2)
  then obtain lab where "(b64_encode (rotate1 demo_key), lab) \<in> set al" unfolding set_map image_iff by (metis prod.collapse)
  then have m: "(b64_encode (rotate1 demo_key), lab) \<in> set (sort_members (filter (\<lambda>(k, _). k \<noteq> ?self) al))"
    using net_keys by simp
  have "ri_pcPubkey ` set (tp_siblings net_topology) = fst ` set (sort_members (filter (\<lambda>(k, _). k \<noteq> ?self) al))"
    unfolding net_topology_def b by (simp add: image_image split_def)
  moreover have "b64_encode (rotate1 demo_key) \<in> fst ` set (sort_members (filter (\<lambda>(k, _). k \<noteq> ?self) al))"
    using m by (rule rev_image_eqI) (rule fst_conv [symmetric])
  ultimately have "b64_encode (rotate1 demo_key) \<in> ri_pcPubkey ` set (tp_siblings net_topology)" by (simp only:)
  then obtain i where "b64_encode (rotate1 demo_key) = ri_pcPubkey i" "i \<in> set (tp_siblings net_topology)" by (rule imageE)
  then show "\<exists>i \<in> set (tp_siblings net_topology). ri_pcPubkey i = b64_encode (rotate1 demo_key)"
    by (intro bexI) (rule sym)
qed

lemma net_slots: "map (\<lambda>s. (sl_canonical s, sl_ownerPk s)) (fst (canonicalOwnerSlots id [JNull, JStr (b64_encode demo_key)])) = [(b64_encode demo_key, demo_key)]"
  by code_simp

lemma net_self: "list_ex (\<lambda>m. mm_remoteEpk m = b64_encode (rev demo_key)) (mh_members net_header)"
  by (simp add: net_header_def)

lemma net_discovered: "fst (discoverTopology id accept_key net_client [JNull, JStr (b64_encode demo_key)] (rev demo_key)) = Inr net_topology"
proof -
  obtain s where s: "fst (canonicalOwnerSlots id [JNull, JStr (b64_encode demo_key)]) = [s]" "sl_ownerPk s = demo_key"
    using net_slots by (auto simp: map_eq_Cons_conv)
  have "mh_ownerPk net_header = demo_key" by (simp add: net_header_def)
  then have d: "discover_slot id accept_key net_client (b64_encode (rev demo_key)) s = (Some (header_membership net_header (b64_encode demo_key)), [])"
    using s(2) net_self net_verified
    by (simp add: discover_slot_def net_client_def bytesEqual_def encodeEd25519PublicKey_def ED25519_PUBLIC_KEY_BYTES_def)
      (simp add: demo_key_def)
  have "length (rev demo_key) = 32" by (simp add: demo_key_def)
  then show ?thesis using discover_unfold [of "rev demo_key"] net_snapshot(1) s(1) d by (simp add: List.map_filter_simps)
qed

lemma snapshot_direct_siblings_witness:
  "b64_encode (rotate1 demo_key) \<in> set (map ri_pcPubkey (tp_siblings net_topology))"
  using snapshot_direct_siblings [OF net_snapshot(1)] net_co_members net_keys by blast

lemma discovery_authentic_witness:
  "\<exists>env h. net_client [] = Fetched env \<and> verifyEnvelope accept_key env = Inr h \<and>
     b64_encode (rotate1 demo_key) \<in> mm_remoteEpk ` set (mh_members h)"
proof -
  obtain i where i: "i \<in> set (tp_siblings net_topology)" "ri_pcPubkey i = b64_encode (rotate1 demo_key)"
    using net_snapshot(2) by blast
  from discovery_authentic [OF net_discovered i(1)] show ?thesis using i(2) unfolding net_client_def by auto
qed

lemma discovery_total_witness:
  "\<exists>t. fst (discoverTopology id accept_key net_client [JNull, JStr ''junk''] demo_key) = Inr t \<and> ri_pcPubkey (tp_self t) = b64_encode demo_key"
  by (rule discovery_total) (simp add: demo_key_def)

end
