(* ===== verification/BrokerRemote.thy ===== *)
theory BrokerRemote
  imports Broker Topology
begin

text \<open>
  The cross-machine router: \<^verbatim>\<open>extension/src/session/broker_remote.ts\<close>, and the frames of
  \<^verbatim>\<open>extension/src/transport/pi_forward_client.ts\<close> it speaks.

  The state of a \<^verbatim>\<open>BrokerRemote\<close> object is the record \<open>remote\<close>. The broker it serves is
  an interface, a record of functions over its own state type \<open>'b\<close>. The host gives the
  random bytes and clock behind \<open>uuidv7()\<close>, and which calls of \<open>pi.sendEnvelopeToPi\<close>
  throw (the client of the repository never does; the code guards against one that does). The clock
  read by the cache is a field of the state that the environment moves. An incoming envelope is the
  JSON value the forward client emits, checked there only for its \<open>from\<close> and \<open>id\<close>.
  A promise of \<^verbatim>\<open>_awaitPeersFill\<close> is a slot number; resolving it is an effect.
\<close>

section \<open>Routing state\<close>

datatype remote_error =
    BadAlias string
  | BadLegacyLabel string
  | RemoteKey key_error
  | SelfKeyChanged
  | AliasConflictsSelf
  | DuplicateSiblingKey
  | DuplicateSiblingAlias
  | RemoteDetached
  | RosterExceeds
  | AddressesExceed
  | SendFailed

record routing =
  rt_self :: identity
  rt_by_label :: "(string, string) jsmap"
  rt_by_key :: "(string, string) jsmap"
  rt_legacy :: "(string, string) jsmap"

definition validateAlias :: "string \<Rightarrow> string \<Rightarrow> remote_error + string" where
  "validateAlias alias field =
     (if alias = [] \<or> CHR '':'' \<in> set alias then Inl (BadAlias field) else Inr alias)"

definition validateLegacyPcLabel :: "string \<Rightarrow> string \<Rightarrow> remote_error + string" where
  "validateLegacyPcLabel label field = (if label = [] then Inl (BadLegacyLabel field) else Inr label)"

text \<open>The checks of one identity, in the order of its fields; the names of the fields are for the messages.\<close>

definition check_identity :: "string \<Rightarrow> string \<Rightarrow> string \<Rightarrow> identity \<Rightarrow> remote_error + identity" where
  "check_identity label_field legacy_field key_field i =
     (case validateAlias (ri_pcLabel i) label_field of
        Inl e \<Rightarrow> Inl e
      | Inr label \<Rightarrow>
          (case validateLegacyPcLabel (ri_legacyPcLabel i) legacy_field of
             Inl e \<Rightarrow> Inl e
           | Inr legacy \<Rightarrow>
               (case canonicalizeEd25519PublicKey (ri_pcPubkey i) key_field of
                  Inl e \<Rightarrow> Inl (RemoteKey e)
                | Inr key \<Rightarrow> Inr \<lparr>ri_pcPubkey = key, ri_pcLabel = label, ri_legacyPcLabel = legacy\<rparr>)))"

definition sibling_field :: "nat \<Rightarrow> string \<Rightarrow> string" where
  "sibling_field n f = ''siblings['' @ show_nat n @ ''].'' @ f"

fun check_siblings :: "nat \<Rightarrow> identity list \<Rightarrow> remote_error + identity list" where
  "check_siblings n [] = Inr []"
| "check_siblings n (i # is) =
     (case check_identity (sibling_field n ''pcLabel'') (sibling_field n ''legacyPcLabel'') (sibling_field n ''pcPubkey'') i of
        Inl e \<Rightarrow> Inl e
      | Inr i' \<Rightarrow> (case check_siblings (Suc n) is of Inl e \<Rightarrow> Inl e | Inr is' \<Rightarrow> Inr (i' # is')))"

fun add_siblings :: "identity list \<Rightarrow> routing \<Rightarrow> remote_error + routing" where
  "add_siblings [] rt = Inr rt"
| "add_siblings (s # ss) rt =
     (if ri_pcLabel s = ri_pcLabel (rt_self rt) then Inl AliasConflictsSelf
      else if mhas (rt_by_key rt) (ri_pcPubkey s) then Inl DuplicateSiblingKey
      else if mhas (rt_by_label rt) (ri_pcLabel s) then Inl DuplicateSiblingAlias
      else add_siblings ss (rt\<lparr>rt_by_label := mput (ri_pcLabel s) (ri_pcPubkey s) (rt_by_label rt),
             rt_by_key := mput (ri_pcPubkey s) (ri_pcLabel s) (rt_by_key rt),
             rt_legacy := mput (ri_pcPubkey s) (ri_legacyPcLabel s) (rt_legacy rt)\<rparr>))"

definition buildRoutingState :: "topology \<Rightarrow> string option \<Rightarrow> remote_error + routing" where
  "buildRoutingState t expected =
     (case check_identity ''self.pcLabel'' ''self.legacyPcLabel'' ''self public key'' (tp_self t) of
        Inl e \<Rightarrow> Inl e
      | Inr self \<Rightarrow>
          if (case expected of None \<Rightarrow> False | Some k \<Rightarrow> k \<noteq> [] \<and> ri_pcPubkey self \<noteq> k) then Inl SelfKeyChanged
          else (case check_siblings 0 (tp_siblings t) of
             Inl e \<Rightarrow> Inl e
           | Inr siblings \<Rightarrow>
               add_siblings
                 (sort_key (\<lambda>s. u16_key (ri_pcPubkey s)) (filter (\<lambda>s. ri_pcPubkey s \<noteq> ri_pcPubkey self) siblings))
                 \<lparr>rt_self = self, rt_by_label = [], rt_by_key = [], rt_legacy = []\<rparr>))"

section \<open>State\<close>

datatype lifecycle = Dormant | Active | Detached

datatype remote_effect =
    Sent string envelope
  | Logged string
  | Resolved nat
  | Subscribed
  | Unsubscribed

record wire_peer =
  wp_cwd :: string
  wp_name :: string
  wp_address :: string

record peer_cache =
  pe_infos :: "wire_peer list"
  pe_pcPubkey :: string
  pe_ts :: int

record remote =
  rm_technical :: string
  rm_ttl :: int
  rm_interval :: int
  rm_routing :: routing
  rm_cache :: "(string, peer_cache) jsmap"
  rm_refresh :: "string list"
  rm_pending :: "(string, nat list) jsmap"
  rm_timer :: bool
  rm_lifecycle :: lifecycle
  rm_slots :: nat
  rm_uuids :: nat
  rm_sends :: nat
  rm_now :: int
  rm_log :: "remote_effect list"

record remote_host =
  rh_ts :: "nat \<Rightarrow> nat"
  rh_rand :: "nat \<Rightarrow> byte list"
  rh_throws :: "nat \<Rightarrow> bool"

record 'b local_broker =
  lb_infos :: "'b \<Rightarrow> peer_info list"
  lb_inject :: "envelope \<Rightarrow> 'b \<Rightarrow> ack_status \<times> 'b"
  lb_attach :: "'b \<Rightarrow> 'b"
  lb_detach :: "'b \<Rightarrow> 'b"

definition CACHE_TTL_MS :: int where "CACHE_TTL_MS = 5 * 60000"
definition REANNOUNCE_INTERVAL_MS :: int where "REANNOUNCE_INTERVAL_MS = 2 * 60000"

text \<open>The constructor without its activation.\<close>

definition new_remote :: "topology \<Rightarrow> int option \<Rightarrow> int option \<Rightarrow> int \<Rightarrow> remote_error + remote" where
  "new_remote t ttl interval now =
     (case buildRoutingState t None of
        Inl e \<Rightarrow> Inl e
      | Inr rt \<Rightarrow> Inr \<lparr>rm_technical = ri_pcPubkey (rt_self rt),
          rm_ttl = (case ttl of None \<Rightarrow> CACHE_TTL_MS | Some n \<Rightarrow> n),
          rm_interval = (case interval of None \<Rightarrow> REANNOUNCE_INTERVAL_MS | Some n \<Rightarrow> n),
          rm_routing = rt, rm_cache = [], rm_refresh = [], rm_pending = [], rm_timer = False, rm_lifecycle = Dormant,
          rm_slots = 0, rm_uuids = 0, rm_sends = 0, rm_now = now, rm_log = []\<rparr>)"

definition put_log :: "remote_effect \<Rightarrow> remote \<Rightarrow> remote" where
  "put_log e r = r\<lparr>rm_log := rm_log r @ [e]\<rparr>"

definition logMetadataOnly :: "string \<Rightarrow> remote \<Rightarrow> remote" where
  "logMetadataOnly message = put_log (Logged message)"

definition dropMetadataOnly :: "string \<Rightarrow> string option \<Rightarrow> remote \<Rightarrow> remote" where
  "dropMetadataOnly reason fingerprint =
     logMetadataOnly (''[broker_remote] event=drop reason='' @ reason @
       (case fingerprint of Some f \<Rightarrow> if f = [] then [] else '' fingerprint='' @ f | None \<Rightarrow> []))"

section \<open>Sending\<close>

definition fresh_id :: "remote_host \<Rightarrow> remote \<Rightarrow> string \<times> remote" where
  "fresh_id h r = (uuidv7 (rh_ts h (rm_uuids r)) (rh_rand h (rm_uuids r)), r\<lparr>rm_uuids := Suc (rm_uuids r)\<rparr>)"

text \<open>\<open>pi.sendEnvelopeToPi\<close>: whether it returned, and the new state.\<close>

definition sendEnvelopeToPi :: "remote_host \<Rightarrow> string \<Rightarrow> envelope \<Rightarrow> remote \<Rightarrow> bool \<times> remote" where
  "sendEnvelopeToPi h toPc env r =
     (let r1 = r\<lparr>rm_sends := Suc (rm_sends r)\<rparr>
      in if rh_throws h (rm_sends r) then (False, r1) else (True, put_log (Sent toPc env) r1))"

definition legacyLabelForPubkey :: "remote \<Rightarrow> string \<Rightarrow> string option" where
  "legacyLabelForPubkey r k = mget (rt_legacy (rm_routing r)) k"

definition control_address :: "string \<Rightarrow> string" where
  "control_address label = label @ '':_broker_remote''"

definition sendControlEnvelope :: "remote_host \<Rightarrow> string \<Rightarrow> jv \<Rightarrow> remote \<Rightarrow> bool \<times> remote" where
  "sendControlEnvelope h toPc body r =
     (let (uid, r1) = fresh_id h r
      in sendEnvelopeToPi h toPc
           (mk_envelope uid (control_address (ri_legacyPcLabel (rt_self (rm_routing r))))
             (ToName (control_address (case legacyLabelForPubkey r toPc of Some l \<Rightarrow> l | None \<Rightarrow> ''?''))) body None) r1)"

definition peers_request_body :: jv where
  "peers_request_body = JObj [(''type'', JStr ''peers_request'')]"

definition wire_peer_jv :: "wire_peer \<Rightarrow> jv" where
  "wire_peer_jv p = JObj [(''cwd'', JStr (wp_cwd p)), (''name'', JStr (wp_name p)), (''address'', JStr (wp_address p))]"

definition wire_of :: "peer_info \<Rightarrow> wire_peer" where
  "wire_of p = \<lparr>wp_cwd = pi_cwd p, wp_name = pi_name p, wp_address = pi_address p\<rparr>"

definition peers_update_body :: "string list \<Rightarrow> wire_peer list \<Rightarrow> jv" where
  "peers_update_body peers detailed = JObj [(''type'', JStr ''peers_update''), (''peers'', JArr (map JStr peers)),
     (''peers_detailed'', JArr (map wire_peer_jv detailed))]"

definition localPeersBody :: "peer_info list \<Rightarrow> remote_error + jv" where
  "localPeersBody detailed =
     (if \<not> isBoundedPeerRoster (map peer_info_jv detailed) then Inl RosterExceeds
      else if \<not> isBoundedPeerAddresses (map (\<lambda>p. JStr (pi_address p)) detailed) then Inl AddressesExceed
      else Inr (peers_update_body (map pi_address detailed) (map wire_of detailed)))"

text \<open>A loop of sends that stops at the first one that throws.\<close>

fun send_all :: "remote_host \<Rightarrow> (string \<times> jv) list \<Rightarrow> remote \<Rightarrow> bool \<times> remote" where
  "send_all h [] r = (True, r)"
| "send_all h ((k, body) # ms) r =
     (let (ok, r1) = sendControlEnvelope h k body r in if ok then send_all h ms r1 else (False, r1))"

definition sibling_keys :: "remote \<Rightarrow> string list" where
  "sibling_keys r = mkeys (rt_by_key (rm_routing r))"

definition bootstrapWithSiblings :: "remote_host \<Rightarrow> peer_info list \<Rightarrow> remote \<Rightarrow> remote_error option \<times> remote" where
  "bootstrapWithSiblings h infos r =
     (case localPeersBody infos of
        Inl e \<Rightarrow> (Some e, r)
      | Inr body \<Rightarrow>
          (let (ok, r1) = send_all h (concat (map (\<lambda>k. [(k, peers_request_body), (k, body)]) (sibling_keys r))) r
           in (if ok then None else Some SendFailed, r1)))"

section \<open>Pending roster fills\<close>

definition clearPendingFills :: "string \<Rightarrow> remote \<Rightarrow> remote" where
  "clearPendingFills k r =
     (case mget (rm_pending r) k of
        None \<Rightarrow> r
      | Some slots \<Rightarrow> (fold (\<lambda>s. put_log (Resolved s)) slots r)\<lparr>rm_pending := mdel k (rm_pending r)\<rparr>)"

definition clearAllPendingFills :: "remote \<Rightarrow> remote" where
  "clearAllPendingFills r = fold clearPendingFills (mkeys (rm_pending r)) r"

definition awaitPeersFill :: "string \<Rightarrow> remote \<Rightarrow> remote" where
  "awaitPeersFill k r =
     (let pending = (case mget (rm_pending r) k of Some slots \<Rightarrow> slots | None \<Rightarrow> [])
      in r\<lparr>rm_pending := mput k (pending @ [rm_slots r]) (rm_pending r), rm_slots := Suc (rm_slots r)\<rparr>)"

text \<open>The timeout of one fill.\<close>

definition fillTimeout :: "string \<Rightarrow> nat \<Rightarrow> remote \<Rightarrow> remote" where
  "fillTimeout k slot r =
     put_log (Resolved slot)
       (case mget (rm_pending r) k of
          None \<Rightarrow> r
        | Some slots \<Rightarrow>
            (let rest = filter (\<lambda>s. s \<noteq> slot) slots
             in r\<lparr>rm_pending := (if rest = [] then mdel k (rm_pending r) else mput k rest (rm_pending r))\<rparr>))"

section \<open>Lifecycle\<close>

definition activate :: "remote_host \<Rightarrow> 'b local_broker \<Rightarrow> remote \<times> 'b \<Rightarrow> remote_error option \<times> remote \<times> 'b" where
  "activate h B s =
     (let (r, b) = s in
      case rm_lifecycle r of
        Active \<Rightarrow> (None, r, b)
      | Detached \<Rightarrow> (Some RemoteDetached, r, b)
      | Dormant \<Rightarrow>
          (let b1 = lb_attach B b;
               (err, r1) = bootstrapWithSiblings h (lb_infos B b1) (put_log Subscribed r)
           in case err of
                None \<Rightarrow> (None, r1\<lparr>rm_refresh := [], rm_timer := (0 < rm_interval r1), rm_lifecycle := Active\<rparr>, b1)
              | Some e \<Rightarrow> (Some e, (put_log Unsubscribed (r1\<lparr>rm_timer := False\<rparr>))\<lparr>rm_lifecycle := Detached\<rparr>, lb_detach B b1)))"

text \<open>The interval callback.\<close>

definition reannounce :: "remote_host \<Rightarrow> peer_info list \<Rightarrow> remote \<Rightarrow> remote" where
  "reannounce h infos r =
     (if rm_lifecycle r \<noteq> Active \<or> sibling_keys r = [] then r
      else (let (err, r1) = bootstrapWithSiblings h infos r
            in case err of
                 None \<Rightarrow> r1\<lparr>rm_refresh := []\<rparr>
               | Some _ \<Rightarrow> logMetadataOnly ''[broker_remote] event=reannounce_failed reason=send_failure'' r1))"

definition detach :: "'b local_broker \<Rightarrow> remote \<times> 'b \<Rightarrow> remote \<times> 'b" where
  "detach B s =
     (let (r, b) = s in
      if rm_lifecycle r = Detached then (r, b)
      else
        (let wasActive = (rm_lifecycle r = Active);
             r1 = (clearAllPendingFills (r\<lparr>rm_lifecycle := Detached, rm_timer := False\<rparr>))\<lparr>rm_refresh := []\<rparr>
         in if \<not> wasActive then (r1, b) else (put_log Unsubscribed r1, lb_detach B b)))"

definition set_add :: "'a \<Rightarrow> 'a list \<Rightarrow> 'a list" where
  "set_add x xs = (if x \<in> set xs then xs else xs @ [x])"

definition refresh_one :: "remote_host \<Rightarrow> jv \<Rightarrow> string \<Rightarrow> remote \<Rightarrow> remote" where
  "refresh_one h body k r =
     (let (ok1, r1) = sendControlEnvelope h k peers_request_body r;
          (ok2, r2) = sendControlEnvelope h k body r1
      in if ok1 \<and> ok2 then r2\<lparr>rm_refresh := removeAll k (rm_refresh r2)\<rparr>
         else logMetadataOnly ''[broker_remote] event=topology_refresh_failed reason=send_failure''
                (r2\<lparr>rm_refresh := set_add k (rm_refresh r2)\<rparr>))"

definition refresh_keys :: "routing \<Rightarrow> routing \<Rightarrow> string list \<Rightarrow> string list" where
  "refresh_keys previous replacement needed =
     (let changed = fold (\<lambda>(k, alias) ks.
            if mget (rt_by_key previous) k \<noteq> Some alias \<or> mget (rt_legacy previous) k \<noteq> mget (rt_legacy replacement) k
            then set_add k ks else ks) (rt_by_key replacement) needed
      in if ri_pcLabel (rt_self previous) \<noteq> ri_pcLabel (rt_self replacement) \<or>
            ri_legacyPcLabel (rt_self previous) \<noteq> ri_legacyPcLabel (rt_self replacement)
         then fold set_add (mkeys (rt_by_key replacement)) changed else changed)"

text \<open>What \<open>setTopology\<close> does before it looks at the lifecycle: forget what belongs to machines that left.\<close>

definition adopt_routing :: "routing \<Rightarrow> remote \<Rightarrow> remote" where
  "adopt_routing replacement r =
     (let present = (\<lambda>k. mhas (rt_by_key replacement) k);
          r1 = r\<lparr>rm_cache := filter (\<lambda>(k, _). present k) (rm_cache r)\<rparr>;
          r2 = fold (\<lambda>k r'. if present k then r' else clearPendingFills k r') (mkeys (rm_pending r1)) r1
      in r2\<lparr>rm_refresh := filter present (rm_refresh r2), rm_routing := replacement\<rparr>)"

definition setTopology :: "remote_host \<Rightarrow> peer_info list \<Rightarrow> topology \<Rightarrow> remote \<Rightarrow> remote_error option \<times> remote" where
  "setTopology h infos next r =
     (if rm_lifecycle r = Detached then (Some RemoteDetached, r)
      else
        (case buildRoutingState next (Some (rm_technical r)) of
           Inl e \<Rightarrow> (Some e, r)
         | Inr replacement \<Rightarrow>
             (let r1 = adopt_routing replacement r
              in if rm_lifecycle r1 \<noteq> Active then (None, r1)
                 else
                   (let keys = refresh_keys (rm_routing r) replacement (rm_refresh r1)
                    in if keys = [] then (None, r1)
                       else (case localPeersBody infos of
                          Inl _ \<Rightarrow> (None, logMetadataOnly ''[broker_remote] event=topology_refresh_failed reason=inventory_failure''
                                    (r1\<lparr>rm_refresh := fold set_add keys (rm_refresh r1)\<rparr>))
                        | Inr body \<Rightarrow> (None, fold (refresh_one h body) keys r1))))))"

definition onLocalPeersChanged :: "remote_host \<Rightarrow> peer_info list \<Rightarrow> remote \<Rightarrow> bool \<times> remote" where
  "onLocalPeersChanged h infos r =
     (if rm_lifecycle r \<noteq> Active \<or> sibling_keys r = [] then (True, r)
      else (case localPeersBody infos of
              Inl _ \<Rightarrow> (True, logMetadataOnly ''[broker_remote] event=local_roster_dropped reason=wire_limits'' r)
            | Inr body \<Rightarrow> send_all h (map (\<lambda>k. (k, body)) (sibling_keys r)) r))"

section \<open>The roster cache\<close>

definition remoteInfosByPubkey :: "string \<Rightarrow> remote \<Rightarrow> wire_peer list \<times> remote" where
  "remoteInfosByPubkey k r =
     (case mget (rm_cache r) k of
        None \<Rightarrow> ([], r)
      | Some entry \<Rightarrow>
          if rm_ttl r < rm_now r - pe_ts entry then ([], r\<lparr>rm_cache := mdel k (rm_cache r)\<rparr>)
          else (pe_infos entry, r))"

definition getRemotePeers :: "string \<Rightarrow> remote \<Rightarrow> string list \<times> remote" where
  "getRemotePeers pcLabel r =
     (case mget (rt_by_label (rm_routing r)) pcLabel of
        None \<Rightarrow> ([], r)
      | Some k \<Rightarrow> if k = [] then ([], r)
                  else (let (infos, r1) = remoteInfosByPubkey k r in (map wp_address infos, r1)))"

text \<open>The siblings with what the cache holds for them, expired entries dropped on the way.\<close>

fun cached_rosters :: "(string \<times> string) list \<Rightarrow> remote \<Rightarrow> (string \<times> wire_peer list) list \<times> remote" where
  "cached_rosters [] r = ([], r)"
| "cached_rosters ((k, label) # ks) r =
     (let (infos, r1) = remoteInfosByPubkey k r; (rest, r2) = cached_rosters ks r1 in ((label, infos) # rest, r2))"

definition all_rosters :: "remote \<Rightarrow> (string \<times> wire_peer list) list \<times> remote" where
  "all_rosters r = cached_rosters (rt_by_key (rm_routing r)) r"

definition getAllRemote :: "remote \<Rightarrow> (string, string list) jsmap \<times> remote" where
  "getAllRemote r =
     (let (rosters, r1) = all_rosters r
      in (fold (\<lambda>(label, infos) m. if infos = [] then m else mput label (map wp_address infos) m) rosters [], r1))"

definition listRemotePeers :: "remote \<Rightarrow> string list \<times> remote" where
  "listRemotePeers r =
     (let (rosters, r1) = all_rosters r
      in (concat (map (\<lambda>(label, infos). map (\<lambda>i. label @ '':'' @ wp_address i) infos) rosters), r1))"

definition listRemotePeerInfos :: "remote \<Rightarrow> peer_info list \<times> remote" where
  "listRemotePeerInfos r =
     (let (rosters, r1) = all_rosters r
      in (concat (map (\<lambda>(label, infos). map (\<lambda>i. \<lparr>pi_pc = Some label, pi_cwd = wp_cwd i, pi_name = wp_name i,
            pi_address = label @ '':'' @ wp_address i\<rparr>) infos) rosters), r1))"

definition setRemoteCache :: "string \<Rightarrow> wire_peer list \<Rightarrow> remote \<Rightarrow> remote" where
  "setRemoteCache k infos r =
     clearPendingFills k (r\<lparr>rm_cache := mput k \<lparr>pe_infos = infos, pe_pcPubkey = k, pe_ts = rm_now r\<rparr> (rm_cache r)\<rparr>)"

section \<open>Outbound\<close>

text \<open>The result is \<open>None\<close> when the send threw.\<close>

definition routeToCanonicalSibling :: "remote_host \<Rightarrow> string \<Rightarrow> envelope \<Rightarrow> remote \<Rightarrow> bool option \<times> remote" where
  "routeToCanonicalSibling h k env r =
     (case e_to env of
        ToList _ \<Rightarrow> (Some False, r)
      | ToName to \<Rightarrow>
          (case (parse_address to, mget (rt_legacy (rm_routing r)) k) of
             (Some (_, peerName), Some legacy) \<Rightarrow>
               if legacy = [] then (Some False, r)
               else
                 (let rewritten = env\<lparr>e_from := ri_legacyPcLabel (rt_self (rm_routing r)) @ '':'' @ e_from env,
                        e_to := ToName (legacy @ '':'' @ peerName)\<rparr>;
                      (ok, r1) = sendEnvelopeToPi h k rewritten r
                  in if \<not> ok then (None, r1)
                     else if mhas (rm_cache r1) k then (Some True, r1)
                     else (let (ok2, r2) = sendControlEnvelope h k peers_request_body r1
                           in if ok2 then (Some True, awaitPeersFill k r2) else (None, r2)))
           | _ \<Rightarrow> (Some False, r)))"

definition tryRouteOutbound :: "remote_host \<Rightarrow> envelope \<Rightarrow> remote \<Rightarrow> bool option \<times> remote" where
  "tryRouteOutbound h env r =
     (case e_to env of
        ToList _ \<Rightarrow> (Some False, r)
      | ToName to \<Rightarrow>
          if rm_lifecycle r \<noteq> Active then (Some False, r)
          else (case parse_address to of
                  None \<Rightarrow> (Some False, r)
                | Some (pcLabel, _) \<Rightarrow>
                    (case mget (rt_by_label (rm_routing r)) pcLabel of
                       None \<Rightarrow> (Some False, r)
                     | Some k \<Rightarrow> if k = [] then (Some False, r) else routeToCanonicalSibling h k env r)))"

section \<open>Inbound\<close>

definition stripRequiredPcPrefix :: "string \<Rightarrow> string option" where
  "stripRequiredPcPrefix value = map_option snd (parse_address value)"

definition stripKnownPcPrefix :: "jv \<Rightarrow> string option \<Rightarrow> string option" where
  "stripKnownPcPrefix value legacy =
     (case value of
        JStr s \<Rightarrow>
          (case legacy of
             Some l \<Rightarrow>
               if starts_with (l @ '':'') s
               then (let remainder = drop (length l + 1) s in if remainder = [] then None else Some remainder)
               else stripRequiredPcPrefix s
           | None \<Rightarrow> stripRequiredPcPrefix s)
      | _ \<Rightarrow> None)"

definition jstr :: "jv \<Rightarrow> string" where
  "jstr v = (case v of JStr s \<Rightarrow> s | _ \<Rightarrow> [])"

definition parsePeersUpdate :: "jv \<Rightarrow> wire_peer list option" where
  "parsePeersUpdate body =
     (case jget body ''peers'' of
        JArr peers \<Rightarrow>
          if \<not> isBoundedPeerAddresses peers then None
          else (case jget body ''peers_detailed'' of
                  JArr detailed \<Rightarrow>
                    if \<not> isBoundedPeerRoster detailed then None
                    else Some (map (\<lambda>e. \<lparr>wp_cwd = jstr (jget e ''cwd''), wp_name = jstr (jget e ''name''),
                                wp_address = jstr (jget e ''address'')\<rparr>) detailed)
                | _ \<Rightarrow> Some (map (\<lambda>a. \<lparr>wp_cwd = [], wp_name = jstr a, wp_address = jstr a\<rparr>) peers))
      | _ \<Rightarrow> None)"

text \<open>The spread \<open>{...env, k: v}\<close>.\<close>

definition with_field :: "string \<Rightarrow> jv \<Rightarrow> jv \<Rightarrow> jv" where
  "with_field k v o' = (case o' of JObj kvs \<Rightarrow> JObj (mput k v kvs) | _ \<Rightarrow> JObj [(k, v)])"

text \<open>\<open>LEGACY_RELAY_ID_RE\<close>: 32 lower-case hex digits.\<close>

definition legacy_relay_id :: "string \<Rightarrow> bool" where
  "legacy_relay_id uid \<longleftrightarrow> length uid = 32 \<and>
     list_all (\<lambda>c. is_digit c \<or> (97 \<le> code c \<and> code c \<le> 102)) uid"

definition normalize_relay_id :: "string \<Rightarrow> string option" where
  "normalize_relay_id uid =
     (if legacy_relay_id uid
      then Some (slice 0 8 uid @ ''-'' @ slice 8 12 uid @ ''-'' @ slice 12 16 uid @ ''-'' @ slice 16 20 uid @ ''-'' @ drop 20 uid)
      else if uuid_re uid then Some uid else None)"

definition transport_error_jv :: "transport_reason \<Rightarrow> jv" where
  "transport_error_jv reason = JObj [(''type'', JStr ''transport_error''), (''reason'',
     JStr (case reason of Offline \<Rightarrow> ''offline'' | NotAuthorized \<Rightarrow> ''not_authorized''
       | BadEnvelope \<Rightarrow> ''bad_envelope'' | UnknownPeer \<Rightarrow> ''unknown_peer''))]"

definition propagateTransportError :: "'b local_broker \<Rightarrow> jv \<Rightarrow> remote \<times> 'b \<Rightarrow> remote \<times> 'b" where
  "propagateTransportError B env s =
     (let (r, b) = s in
      case (jget env ''from'' = JStr ''_relay'', normalize_relay_id (jstr (jget env ''id'')), jget env ''re'',
            stripKnownPcPrefix (jget env ''to'') (Some (ri_legacyPcLabel (rt_self (rm_routing r)))),
            as_transport_error_body (jget env ''body'')) of
        (True, Some uid, JStr re, Some target, Some reason) \<Rightarrow>
          if \<not> uuid_re re \<or> target = ''broadcast'' then (dropMetadataOnly ''invalid_relay_error'' None r, b)
          else (r, snd (lb_inject B \<lparr>e_from = BROKER_NAME, e_to = ToName target, e_id = uid, e_re = Some re,
                  e_body = transport_error_jv reason\<rparr> b))
      | _ \<Rightarrow> (dropMetadataOnly ''invalid_relay_error'' None r, b))"

definition control_endpoint :: string where "control_endpoint = ''_broker_remote''"

definition body_type :: "jv \<Rightarrow> jv" where
  "body_type body = (if is_objlike body then jget body ''type'' else JUndef)"

text \<open>A normalized envelope that is not control traffic: inject it, answer with an ack. The first result is
  false when the last send threw.\<close>

definition deliver_incoming :: "remote_host \<Rightarrow> 'b local_broker \<Rightarrow> string \<Rightarrow> string \<Rightarrow> envelope \<Rightarrow> string \<Rightarrow> remote \<times> 'b
    \<Rightarrow> bool \<times> remote \<times> 'b" where
  "deliver_incoming h B k reply_to normalized target s =
     (let (r, b) = s; (status, b1) = lb_inject B normalized b
      in if body_type (e_body normalized) = JStr ''ack'' then (True, r, b1)
         else (let (uid, r1) = fresh_id h r;
                   ack = \<lparr>e_from = ri_legacyPcLabel (rt_self (rm_routing r)) @ '':'' @ BROKER_NAME, e_to = ToName reply_to,
                          e_id = uid, e_re = Some (e_id normalized), e_body = ack_body status target\<rparr>;
                   (ok, r2) = sendEnvelopeToPi h k ack r1
               in (ok, r2, b1)))"

definition handle_sibling :: "remote_host \<Rightarrow> 'b local_broker \<Rightarrow> string \<Rightarrow> string \<Rightarrow> jv \<Rightarrow> remote \<times> 'b \<Rightarrow> bool \<times> remote \<times> 'b" where
  "handle_sibling h B k localAlias env s =
     (let (r, b) = s in
      case jget env ''to'' of
        JStr _ \<Rightarrow>
          (case (stripKnownPcPrefix (jget env ''from'') (mget (rt_legacy (rm_routing r)) k),
                 stripKnownPcPrefix (jget env ''to'') (Some (ri_legacyPcLabel (rt_self (rm_routing r))))) of
             (Some sender, Some target) \<Rightarrow>
               (case parse (serialize_jv (with_field ''to'' (JStr target)
                       (with_field ''from'' (JStr (localAlias @ '':'' @ sender)) env))) of
                  Inl _ \<Rightarrow> (True, dropMetadataOnly ''invalid_envelope'' None r, b)
                | Inr normalized \<Rightarrow>
                    (case e_to normalized of
                       ToList _ \<Rightarrow> (True, dropMetadataOnly ''invalid_envelope'' None r, b)
                     | ToName to \<Rightarrow>
                         if sender = control_endpoint \<and> target = control_endpoint \<and>
                            body_type (e_body normalized) = JStr ''peers_update''
                         then (case parsePeersUpdate (e_body normalized) of
                                 None \<Rightarrow> (True, dropMetadataOnly ''invalid_peers_update'' None r, b)
                               | Some infos \<Rightarrow> (True, setRemoteCache k infos r, b))
                         else if sender = control_endpoint \<and> target = control_endpoint \<and>
                            body_type (e_body normalized) = JStr ''peers_request''
                         then (let failed = logMetadataOnly ''[broker_remote] event=control_reply_failed reason=inventory_failure''
                               in case localPeersBody (lb_infos B b) of
                                    Inl _ \<Rightarrow> (True, failed r, b)
                                  | Inr body \<Rightarrow>
                                      (let (ok, r1) = sendControlEnvelope h k body r
                                       in (True, if ok then r1 else failed r1, b)))
                         else deliver_incoming h B k (jstr (jget env ''from'')) normalized to (r, b)))
           | _ \<Rightarrow> (True, dropMetadataOnly ''invalid_cross_pc_address'' None r, b))
      | _ \<Rightarrow> (True, dropMetadataOnly ''invalid_to'' None r, b))"

definition handleIncoming :: "(byte list \<Rightarrow> byte list) \<Rightarrow> remote_host \<Rightarrow> 'b local_broker \<Rightarrow> jv \<Rightarrow> string \<Rightarrow> remote \<times> 'b
    \<Rightarrow> bool \<times> remote \<times> 'b" where
  "handleIncoming sha256 h B env fromPc s =
     (let (r, b) = s in
      if rm_lifecycle r \<noteq> Active then (True, r, b)
      else if fromPc = ''_relay'' then (True, propagateTransportError B env (r, b))
      else
        (case decodeEd25519PublicKey fromPc ''from_pc'' of
           Inl _ \<Rightarrow> (True, dropMetadataOnly ''invalid_from_pc'' None r, b)
         | Inr bytes \<Rightarrow>
             (case encodeEd25519PublicKey bytes ''public key'' of
                Inl _ \<Rightarrow> (True, dropMetadataOnly ''invalid_from_pc'' None r, b)
              | Inr k \<Rightarrow>
                  (case mget (rt_by_key (rm_routing r)) k of
                     Some (c # cs) \<Rightarrow> handle_sibling h B k (c # cs) env (r, b)
                   | _ \<Rightarrow> (True, dropMetadataOnly ''unknown_from_pc'' (Some (publicKeyFingerprint sha256 bytes)) r, b)))))"

text \<open>The entry point of federated peers, whose addresses carry no prefix.\<close>

definition handleFederatedIncoming :: "remote_host \<Rightarrow> 'b local_broker \<Rightarrow> jv \<Rightarrow> string \<Rightarrow> remote \<times> 'b \<Rightarrow> bool \<times> remote \<times> 'b" where
  "handleFederatedIncoming h B env k s =
     (let (r, b) = s in
      case jget env ''to'' of
        JStr to \<Rightarrow>
          (case parse (serialize_jv env) of
             Inl _ \<Rightarrow> (True, dropMetadataOnly ''invalid_envelope'' None r, b)
           | Inr normalized \<Rightarrow>
               (let (status, b1) = lb_inject B normalized b
                in if body_type (e_body normalized) = JStr ''ack'' then (True, r, b1)
                   else (let (uid, r1) = fresh_id h r;
                             ack = \<lparr>e_from = BROKER_NAME, e_to = ToName (jstr (jget env ''from'')), e_id = uid,
                                    e_re = Some (e_id normalized), e_body = ack_body status to\<rparr>;
                             (ok, r2) = sendEnvelopeToPi h k ack r1
                         in (ok, r2, b1))))
      | _ \<Rightarrow> (True, dropMetadataOnly ''invalid_to'' None r, b))"

section \<open>Frames of the forward client\<close>

definition pi_envelope_frame :: "string \<Rightarrow> envelope \<Rightarrow> jv" where
  "pi_envelope_frame toPc env = JObj [(''type'', JStr ''pi_envelope''), (''to_pc'', JStr toPc), (''envelope'', env_jv env)]"

text \<open>The line handed to the relay, if any.\<close>

definition forward_send :: "bool \<Rightarrow> string \<Rightarrow> envelope \<Rightarrow> string option" where
  "forward_send detached toPc env = (if detached then None else Some (stringify (pi_envelope_frame toPc env)))"

text \<open>The envelope and sender emitted for a line of the relay, if any.\<close>

definition forward_line :: "string \<Rightarrow> (jv \<times> string) option" where
  "forward_line line =
     (case json_parse line of
        None \<Rightarrow> None
      | Some o' \<Rightarrow>
          if \<not> is_objlike o' \<or> jget o' ''type'' \<noteq> JStr ''pi_envelope_in'' then None
          else (case jget o' ''from_pc'' of
             JStr fromPc \<Rightarrow>
               (let env = jget o' ''envelope''
                in if \<not> is_objlike env then None
                   else (case (jget env ''from'', jget env ''id'') of
                      (JStr _, JStr _) \<Rightarrow> Some (env, fromPc)
                    | _ \<Rightarrow> None))
           | _ \<Rightarrow> None))"

end
