(* ===== verification/RemoteProps.thy ===== *)
theory RemoteProps
  imports BrokerRemote
begin

text \<open>
  The cross-machine router: the invariant of its state over everything that can happen to it, its
  tables against the discovered topology, what it injects into the broker, and a message that
  crosses from one machine to another.
\<close>

section \<open>Routing tables\<close>

definition routing_ok :: "routing \<Rightarrow> bool" where
  "routing_ok rt \<longleftrightarrow>
     mwf (rt_by_label rt) \<and> mwf (rt_by_key rt) \<and> mwf (rt_legacy rt) \<and>
     (\<forall>k l. mget (rt_by_key rt) k = Some l \<longleftrightarrow> mget (rt_by_label rt) l = Some k) \<and>
     mkeys (rt_legacy rt) = mkeys (rt_by_key rt) \<and>
     (\<forall>k l. mget (rt_by_key rt) k = Some l \<longrightarrow> canon_key k \<and> l \<noteq> [] \<and> CHR '':'' \<notin> set l \<and>
        l \<noteq> ri_pcLabel (rt_self rt) \<and> k \<noteq> ri_pcPubkey (rt_self rt)) \<and>
     (\<forall>k l. mget (rt_legacy rt) k = Some l \<longrightarrow> l \<noteq> []) \<and>
     canon_key (ri_pcPubkey (rt_self rt)) \<and> ri_legacyPcLabel (rt_self rt) \<noteq> [] \<and>
     ri_pcLabel (rt_self rt) \<noteq> [] \<and> CHR '':'' \<notin> set (ri_pcLabel (rt_self rt))"

definition identity_ok :: "identity \<Rightarrow> bool" where
  "identity_ok i \<longleftrightarrow> canon_key (ri_pcPubkey i) \<and> ri_pcLabel i \<noteq> [] \<and> CHR '':'' \<notin> set (ri_pcLabel i) \<and> ri_legacyPcLabel i \<noteq> []"

lemma check_identity_Inr: "check_identity a b c i = Inr i' \<Longrightarrow> identity_ok i'"
  by (auto simp: check_identity_def validateAlias_def validateLegacyPcLabel_def identity_ok_def
      dest: canonicalize_Inr split: sum.splits if_splits)

lemma check_identity_id: "identity_ok i \<Longrightarrow> check_identity a b c i = Inr i"
  by (simp add: check_identity_def validateAlias_def validateLegacyPcLabel_def identity_ok_def canonicalize_canon_key)

lemma check_siblings_Inr: "check_siblings n is = Inr is' \<Longrightarrow> \<forall>i \<in> set is'. identity_ok i"
  by (induction n "is" arbitrary: is' rule: check_siblings.induct) (auto dest: check_identity_Inr split: sum.splits)

lemma check_siblings_id: "\<forall>i \<in> set is. identity_ok i \<Longrightarrow> check_siblings n is = Inr is"
  by (induction n "is" rule: check_siblings.induct) (simp_all add: check_identity_id)

definition empty_routing :: "identity \<Rightarrow> routing" where
  "empty_routing self = \<lparr>rt_self = self, rt_by_label = [], rt_by_key = [], rt_legacy = []\<rparr>"

lemma empty_routing_ok: "identity_ok self \<Longrightarrow> routing_ok (empty_routing self)"
  by (simp add: routing_ok_def identity_ok_def empty_routing_def)

lemma add_sibling_ok:
  assumes "routing_ok rt" and "identity_ok s" and "ri_pcPubkey s \<noteq> ri_pcPubkey (rt_self rt)"
    and "ri_pcLabel s \<noteq> ri_pcLabel (rt_self rt)" and "\<not> mhas (rt_by_key rt) (ri_pcPubkey s)" and "\<not> mhas (rt_by_label rt) (ri_pcLabel s)"
  shows "routing_ok (rt\<lparr>rt_by_label := mput (ri_pcLabel s) (ri_pcPubkey s) (rt_by_label rt),
             rt_by_key := mput (ri_pcPubkey s) (ri_pcLabel s) (rt_by_key rt),
             rt_legacy := mput (ri_pcPubkey s) (ri_legacyPcLabel s) (rt_legacy rt)\<rparr>)"
  using assms unfolding routing_ok_def identity_ok_def mhas_def by (simp add: mkeys_update)

lemma add_siblings_ok:
  "add_siblings ss rt = Inr rt' \<Longrightarrow> routing_ok rt \<Longrightarrow> \<forall>s \<in> set ss. identity_ok s \<and> ri_pcPubkey s \<noteq> ri_pcPubkey (rt_self rt) \<Longrightarrow>
     routing_ok rt' \<and> rt_self rt' = rt_self rt"
proof (induction ss rt rule: add_siblings.induct)
  case (2 s ss rt)
  have n: "ri_pcLabel s \<noteq> ri_pcLabel (rt_self rt)" "\<not> mhas (rt_by_key rt) (ri_pcPubkey s)" "\<not> mhas (rt_by_label rt) (ri_pcLabel s)"
    using "2.prems"(1) by (auto split: if_splits)
  have "routing_ok (rt\<lparr>rt_by_label := mput (ri_pcLabel s) (ri_pcPubkey s) (rt_by_label rt),
             rt_by_key := mput (ri_pcPubkey s) (ri_pcLabel s) (rt_by_key rt),
             rt_legacy := mput (ri_pcPubkey s) (ri_legacyPcLabel s) (rt_legacy rt)\<rparr>)"
    using add_sibling_ok [OF "2.prems"(2) _ _ n] "2.prems"(3) by simp
  then show ?case using "2.IH" [OF n] "2.prems"(1,3) n by simp
qed simp

lemma buildRoutingState_cases:
  assumes "buildRoutingState t e = Inr rt"
  obtains self siblings where "identity_ok self" "check_identity ''self.pcLabel'' ''self.legacyPcLabel'' ''self public key'' (tp_self t) = Inr self"
    "\<forall>s \<in> set siblings. identity_ok s"
    "add_siblings (sort_key (\<lambda>s. u16_key (ri_pcPubkey s)) (filter (\<lambda>s. ri_pcPubkey s \<noteq> ri_pcPubkey self) siblings)) (empty_routing self) = Inr rt"
    "\<And>k. e = Some k \<Longrightarrow> k \<noteq> [] \<Longrightarrow> ri_pcPubkey self = k"
proof -
  obtain self where s: "check_identity ''self.pcLabel'' ''self.legacyPcLabel'' ''self public key'' (tp_self t) = Inr self"
    using assms by (auto simp: buildRoutingState_def split: sum.splits)
  have e: "\<And>k. e = Some k \<Longrightarrow> k \<noteq> [] \<Longrightarrow> ri_pcPubkey self = k"
    using assms s by (auto simp: buildRoutingState_def split: if_splits)
  obtain siblings where b: "check_siblings 0 (tp_siblings t) = Inr siblings"
    using assms s by (auto simp: buildRoutingState_def split: sum.splits if_splits)
  show ?thesis
    using that [OF check_identity_Inr [OF s] s check_siblings_Inr [OF b] _ e] assms s b
    by (auto simp: buildRoutingState_def empty_routing_def split: if_splits)
qed

lemma buildRoutingState_ok:
  assumes "buildRoutingState t e = Inr rt"
  shows "routing_ok rt" and "e = Some k \<Longrightarrow> k \<noteq> [] \<Longrightarrow> ri_pcPubkey (rt_self rt) = k"
proof -
  obtain self siblings where s: "identity_ok self" "\<forall>s \<in> set siblings. identity_ok s"
    "add_siblings (sort_key (\<lambda>s. u16_key (ri_pcPubkey s)) (filter (\<lambda>s. ri_pcPubkey s \<noteq> ri_pcPubkey self) siblings)) (empty_routing self) = Inr rt"
    "\<And>k. e = Some k \<Longrightarrow> k \<noteq> [] \<Longrightarrow> ri_pcPubkey self = k"
    using buildRoutingState_cases [OF assms] by metis
  have "rt_self (empty_routing self) = self" by (simp add: empty_routing_def)
  then have "routing_ok rt \<and> rt_self rt = self"
    using add_siblings_ok [OF s(3) empty_routing_ok [OF s(1)]] s(2) by auto
  then show "routing_ok rt" and "e = Some k \<Longrightarrow> k \<noteq> [] \<Longrightarrow> ri_pcPubkey (rt_self rt) = k" using s(4) by auto
qed


section \<open>Discovered topologies are accepted\<close>

lemma add_siblings_exact:
  assumes "distinct (map ri_pcPubkey ss)" and "distinct (map ri_pcLabel ss)"
    and "\<forall>s \<in> set ss. ri_pcLabel s \<noteq> ri_pcLabel (rt_self rt) \<and> ri_pcPubkey s \<notin> set (mkeys (rt_by_key rt)) \<and>
      ri_pcLabel s \<notin> set (mkeys (rt_by_label rt)) \<and> ri_pcPubkey s \<notin> set (mkeys (rt_legacy rt))"
  shows "add_siblings ss rt = Inr (rt\<lparr>rt_by_label := rt_by_label rt @ map (\<lambda>s. (ri_pcLabel s, ri_pcPubkey s)) ss,
     rt_by_key := rt_by_key rt @ map (\<lambda>s. (ri_pcPubkey s, ri_pcLabel s)) ss,
     rt_legacy := rt_legacy rt @ map (\<lambda>s. (ri_pcPubkey s, ri_legacyPcLabel s)) ss\<rparr>)"
  using assms
proof (induction ss arbitrary: rt)
  case Nil
  then show ?case by simp
next
  case (Cons s ss)
  let ?rt = "rt\<lparr>rt_by_label := rt_by_label rt @ [(ri_pcLabel s, ri_pcPubkey s)],
     rt_by_key := rt_by_key rt @ [(ri_pcPubkey s, ri_pcLabel s)], rt_legacy := rt_legacy rt @ [(ri_pcPubkey s, ri_legacyPcLabel s)]\<rparr>"
  have n: "ri_pcLabel s \<noteq> ri_pcLabel (rt_self rt)" "ri_pcPubkey s \<notin> set (mkeys (rt_by_key rt))"
      "ri_pcLabel s \<notin> set (mkeys (rt_by_label rt))" "ri_pcPubkey s \<notin> set (mkeys (rt_legacy rt))"
    using Cons.prems(3) by (meson list.set_intros(1))+
  then have "add_siblings (s # ss) rt = add_siblings ss ?rt"
    by (simp add: mhas_keys mput_fresh del: set_map)
  also have "\<dots> = Inr (?rt\<lparr>rt_by_label := rt_by_label ?rt @ map (\<lambda>s. (ri_pcLabel s, ri_pcPubkey s)) ss,
     rt_by_key := rt_by_key ?rt @ map (\<lambda>s. (ri_pcPubkey s, ri_pcLabel s)) ss,
     rt_legacy := rt_legacy ?rt @ map (\<lambda>s. (ri_pcPubkey s, ri_legacyPcLabel s)) ss\<rparr>)"
  proof (rule Cons.IH)
    show "distinct (map ri_pcPubkey ss)" "distinct (map ri_pcLabel ss)" using Cons.prems(1,2) by simp_all
    show "\<forall>x \<in> set ss. ri_pcLabel x \<noteq> ri_pcLabel (rt_self ?rt) \<and> ri_pcPubkey x \<notin> set (mkeys (rt_by_key ?rt)) \<and>
      ri_pcLabel x \<notin> set (mkeys (rt_by_label ?rt)) \<and> ri_pcPubkey x \<notin> set (mkeys (rt_legacy ?rt))"
    proof
      fix x assume x: "x \<in> set ss"
      then have "ri_pcPubkey x \<noteq> ri_pcPubkey s" "ri_pcLabel x \<noteq> ri_pcLabel s" using Cons.prems(1,2) by (auto simp: rev_image_eqI)
      then show "ri_pcLabel x \<noteq> ri_pcLabel (rt_self ?rt) \<and> ri_pcPubkey x \<notin> set (mkeys (rt_by_key ?rt)) \<and>
          ri_pcLabel x \<notin> set (mkeys (rt_by_label ?rt)) \<and> ri_pcPubkey x \<notin> set (mkeys (rt_legacy ?rt))"
        using Cons.prems(3) x by simp
    qed
  qed
  finally show ?case by simp
qed

definition routing_of :: "topology \<Rightarrow> routing" where
  "routing_of t = \<lparr>rt_self = tp_self t, rt_by_label = map (\<lambda>s. (ri_pcLabel s, ri_pcPubkey s)) (tp_siblings t),
     rt_by_key = map (\<lambda>s. (ri_pcPubkey s, ri_pcLabel s)) (tp_siblings t),
     rt_legacy = map (\<lambda>s. (ri_pcPubkey s, ri_legacyPcLabel s)) (tp_siblings t)\<rparr>"

lemma snapshot_routing:
  assumes "buildTopologySnapshot my ms = Inr t"
  shows "buildRoutingState t (Some (b64_encode my)) = Inr (routing_of t)" and "buildRoutingState t None = Inr (routing_of t)"
proof -
  note facts = snapshot_facts [OF assms]
  have ok: "identity_ok i" if "i \<in> set (tp_self t # tp_siblings t)" for i
    using that facts by (auto simp: identity_ok_def plain_def)
  have other: "ri_pcPubkey i \<noteq> ri_pcPubkey (tp_self t)" if "i \<in> set (tp_siblings t)" for i
  proof -
    have "ri_pcPubkey i \<in> set (map ri_pcPubkey (tp_siblings t))" using that by simp
    then show ?thesis using facts by (metis DiffD2 insertI1)
  qed
  have f: "filter (\<lambda>s. ri_pcPubkey s \<noteq> ri_pcPubkey (tp_self t)) (tp_siblings t) = tp_siblings t"
    using other by simp
  have so: "sort_key (\<lambda>s. u16_key (ri_pcPubkey s)) (tp_siblings t) = tp_siblings t"
    using facts by (intro sort_key_id_if_sorted) blast
  have self_label: "ri_pcLabel i \<noteq> ri_pcLabel (tp_self t)" if "i \<in> set (tp_siblings t)" for i
    using that facts by (metis distinct.simps(2) image_eqI list.map(2) list.set_map)
  have add: "add_siblings (tp_siblings t) (empty_routing (tp_self t)) = Inr (routing_of t)"
    using facts by (subst add_siblings_exact) (auto simp: empty_routing_def routing_of_def self_label)
  have self: "check_identity a b c (tp_self t) = Inr (tp_self t)" for a b c
    by (rule check_identity_id, rule ok) simp
  have sib: "check_siblings 0 (tp_siblings t) = Inr (tp_siblings t)"
    by (rule check_siblings_id) (simp add: ok)
  have key: "ri_pcPubkey (tp_self t) = b64_encode my" using facts by blast
  show "buildRoutingState t (Some (b64_encode my)) = Inr (routing_of t)" "buildRoutingState t None = Inr (routing_of t)"
    using add unfolding empty_routing_def by (simp_all add: buildRoutingState_def self sib f so key flip: key)
qed

text \<open>The router accepts every topology that discovery produces, also as an update of a running router for the
  same machine, and its tables are the snapshot: label to key, key to label, key to
  legacy label, in the order of the keys. None of its internal conflict errors can occur.\<close>

theorem routing_accepts_snapshot:
  assumes "buildTopologySnapshot my ms = Inr t"
  shows "buildRoutingState t None = Inr (routing_of t) \<and> buildRoutingState t (Some (b64_encode my)) = Inr (routing_of t) \<and>
    routing_ok (routing_of t)"
  using snapshot_routing [OF assms] buildRoutingState_ok(1) by metis

lemma routing_accepts_snapshot_witness:
  "buildRoutingState net_topology None = Inr (routing_of net_topology)"
  using routing_accepts_snapshot [OF net_snapshot(1)] by blast


section \<open>What a router keeps\<close>

text \<open>The fills resolved so far, in order.\<close>

definition resolved :: "remote_effect list \<Rightarrow> nat list" where
  "resolved es = List.map_filter (\<lambda>e. case e of Resolved s \<Rightarrow> Some s | _ \<Rightarrow> None) es"

definition fills_ok :: "remote \<Rightarrow> bool" where
  "fills_ok r \<longleftrightarrow> mset (concat (mvals (rm_pending r))) + mset (resolved (rm_log r)) = mset [0..<rm_slots r]"

definition remote_inv :: "remote \<Rightarrow> bool" where
  "remote_inv r \<longleftrightarrow> routing_ok (rm_routing r) \<and> ri_pcPubkey (rt_self (rm_routing r)) = rm_technical r \<and>
     mwf (rm_cache r) \<and> set (mkeys (rm_cache r)) \<subseteq> set (sibling_keys r) \<and>
     mwf (rm_pending r) \<and> set (mkeys (rm_pending r)) \<subseteq> set (sibling_keys r) \<and> [] \<notin> set (mvals (rm_pending r)) \<and>
     set (rm_refresh r) \<subseteq> set (sibling_keys r) \<and> fills_ok r \<and>
     (rm_lifecycle r \<noteq> Active \<longrightarrow> rm_pending r = [] \<and> rm_refresh r = [] \<and> \<not> rm_timer r)"

text \<open>Only counters and effects other than resolved fills differ.\<close>

definition same_core :: "remote \<Rightarrow> remote \<Rightarrow> bool" where
  "same_core r r' \<longleftrightarrow> rm_technical r' = rm_technical r \<and> rm_routing r' = rm_routing r \<and> rm_cache r' = rm_cache r \<and>
     rm_refresh r' = rm_refresh r \<and> rm_pending r' = rm_pending r \<and> rm_timer r' = rm_timer r \<and>
     rm_lifecycle r' = rm_lifecycle r \<and> rm_slots r' = rm_slots r \<and> rm_now r' = rm_now r \<and> rm_ttl r' = rm_ttl r \<and>
     rm_interval r' = rm_interval r \<and> resolved (rm_log r') = resolved (rm_log r)"

lemma resolved_append [simp]: "resolved (xs @ ys) = resolved xs @ resolved ys"
  by (induction xs) (simp_all add: resolved_def List.map_filter_simps split: option.split)

lemma resolved_one [simp]: "resolved [] = []" "resolved [Resolved s] = [s]" "resolved [Sent k e] = []" "resolved [Logged m] = []"
  "resolved [Subscribed] = []" "resolved [Unsubscribed] = []"
  by (simp_all add: resolved_def List.map_filter_simps)

lemma same_core_refl [simp]: "same_core r r"
  by (simp add: same_core_def)

lemma same_core_trans: "same_core a b \<Longrightarrow> same_core b c \<Longrightarrow> same_core a c"
  by (simp add: same_core_def)

lemma same_coreD:
  assumes "same_core r r'"
  shows "rm_technical r' = rm_technical r" "rm_routing r' = rm_routing r" "rm_cache r' = rm_cache r" "rm_refresh r' = rm_refresh r"
    "rm_pending r' = rm_pending r" "rm_timer r' = rm_timer r" "rm_lifecycle r' = rm_lifecycle r" "rm_slots r' = rm_slots r"
    "rm_now r' = rm_now r" "rm_ttl r' = rm_ttl r" "rm_interval r' = rm_interval r" "resolved (rm_log r') = resolved (rm_log r)"
    "sibling_keys r' = sibling_keys r"
  using assms by (simp_all add: same_core_def sibling_keys_def)

lemma same_core_inv: "same_core r r' \<Longrightarrow> remote_inv r' = remote_inv r"
  by (simp add: remote_inv_def fills_ok_def same_coreD)

lemma same_core_log: "resolved [e] = [] \<Longrightarrow> same_core r (put_log e r)"
  by (simp add: same_core_def put_log_def)

lemma same_core_logs [simp]: "same_core r (logMetadataOnly m r)" "same_core r (dropMetadataOnly m f r)"
  by (simp_all add: logMetadataOnly_def dropMetadataOnly_def same_core_log)

lemma same_core_sends: "same_core r (r\<lparr>rm_sends := n\<rparr>)" "same_core r (r\<lparr>rm_uuids := n\<rparr>)"
  by (simp_all add: same_core_def)

lemma same_core_fresh [simp]: "same_core r (snd (fresh_id h r))"
  by (simp add: fresh_id_def same_core_sends)

lemma same_core_send [simp]: "same_core r (snd (sendEnvelopeToPi h k e r))"
  using same_core_trans [OF same_core_sends(1) same_core_log [of "Sent k e"]] same_core_sends(1)
  by (simp add: sendEnvelopeToPi_def Let_def)

lemma same_core_control [simp]: "same_core r (snd (sendControlEnvelope h k body r))"
proof -
  obtain uid r1 where f: "fresh_id h r = (uid, r1)" by fastforce
  then have "same_core r r1" using same_core_fresh [of r h] by simp
  then show ?thesis using same_core_trans [OF _ same_core_send] by (simp add: sendControlEnvelope_def f)
qed

lemma same_core_send_all [simp]: "same_core r (snd (send_all h ms r))"
proof (induction ms arbitrary: r)
  case (Cons m ms)
  obtain k body where m: "m = (k, body)" by fastforce
  have "same_core r (snd (sendControlEnvelope h k body r))" by simp
  then show ?case using same_core_trans [OF _ Cons] by (simp add: m split_def Let_def)
qed simp

lemma same_core_bootstrap [simp]: "same_core r (snd (bootstrapWithSiblings h infos r))"
  by (simp add: bootstrapWithSiblings_def split_def Let_def split: sum.split)


section \<open>The invariant is kept\<close>

text \<open>Everything except the pending fills and the effects is the same.\<close>

definition same_rest :: "remote \<Rightarrow> remote \<Rightarrow> bool" where
  "same_rest r r' \<longleftrightarrow> rm_technical r' = rm_technical r \<and> rm_routing r' = rm_routing r \<and> rm_cache r' = rm_cache r \<and>
     rm_refresh r' = rm_refresh r \<and> rm_timer r' = rm_timer r \<and> rm_lifecycle r' = rm_lifecycle r"

definition fills_in :: "string set \<Rightarrow> remote \<Rightarrow> bool" where
  "fills_in S r \<longleftrightarrow> mwf (rm_pending r) \<and> set (mkeys (rm_pending r)) \<subseteq> S \<and> [] \<notin> set (mvals (rm_pending r)) \<and> fills_ok r"

lemma remote_inv_alt: "remote_inv r \<longleftrightarrow> routing_ok (rm_routing r) \<and> ri_pcPubkey (rt_self (rm_routing r)) = rm_technical r \<and>
     mwf (rm_cache r) \<and> set (mkeys (rm_cache r)) \<subseteq> set (sibling_keys r) \<and> fills_in (set (sibling_keys r)) r \<and>
     set (rm_refresh r) \<subseteq> set (sibling_keys r) \<and>
     (rm_lifecycle r \<noteq> Active \<longrightarrow> rm_pending r = [] \<and> rm_refresh r = [] \<and> \<not> rm_timer r)"
  by (auto simp: remote_inv_def fills_in_def)

lemma same_rest_refl [simp]: "same_rest r r"
  by (simp add: same_rest_def)

lemma same_rest_trans: "same_rest a b \<Longrightarrow> same_rest b c \<Longrightarrow> same_rest a c"
  by (simp add: same_rest_def)

lemma same_rest_keys: "same_rest r r' \<Longrightarrow> sibling_keys r' = sibling_keys r"
  by (simp add: same_rest_def sibling_keys_def)

lemma same_rest_inv:
  assumes "same_rest r r'" and "remote_inv r" and "fills_in (set (sibling_keys r)) r'" and "rm_lifecycle r \<noteq> Active \<longrightarrow> rm_pending r' = []"
  shows "remote_inv r'"
proof -
  have k: "sibling_keys r' = sibling_keys r" using assms(1) by (rule same_rest_keys)
  show ?thesis using assms unfolding remote_inv_alt k by (simp add: same_rest_def)
qed

lemma concat_put: "mset (concat (mvals (mput k v m))) + mset (case mget m k of None \<Rightarrow> [] | Some w \<Rightarrow> w) =
    mset (concat (mvals m)) + mset v"
  by (induction m) (auto split: option.splits)

lemma mdel_absent: "k \<notin> set (mkeys m) \<Longrightarrow> mdel k m = m"
  by (induction m) (auto simp: AList.delete_eq)

lemma concat_del: "mwf m \<Longrightarrow> mget m k = Some v \<Longrightarrow> mset (concat (mvals (mdel k m))) + mset v = mset (concat (mvals m))"
proof (induction m)
  case (Cons p m)
  obtain a w where p: "p = (a, w)" by fastforce
  show ?case
  proof (cases "a = k")
    case True
    then have "k \<notin> set (mkeys m)" using Cons.prems(1) by (simp add: mwf_def p)
    then show ?thesis using True Cons.prems(2) mdel_absent [of k m] by (simp add: p add.commute)
  next
    case False
    then show ?thesis using Cons by (simp add: p mwf_def add.assoc)
  qed
qed simp

lemma mvals_del: "set (mvals (mdel k m)) \<subseteq> set (mvals m)"
  by (auto simp: AList.delete_eq)

lemma mvals_put: "set (mvals (mput k v m)) \<subseteq> insert v (set (mvals m))"
  by (induction m) auto

lemma fold_resolved:
  "rm_pending (fold (\<lambda>s. put_log (Resolved s)) ss r) = rm_pending r"
  "rm_slots (fold (\<lambda>s. put_log (Resolved s)) ss r) = rm_slots r"
  "resolved (rm_log (fold (\<lambda>s. put_log (Resolved s)) ss r)) = resolved (rm_log r) @ ss"
  "same_rest r (fold (\<lambda>s. put_log (Resolved s)) ss r)"
proof (induction ss arbitrary: r)
  case (Cons s ss)
  {
    case 1 show ?case using Cons.IH(1) [of "put_log (Resolved s) r"] by (simp add: put_log_def)
  next
    case 2 show ?case using Cons.IH(2) [of "put_log (Resolved s) r"] by (simp add: put_log_def)
  next
    case 3 show ?case using Cons.IH(3) [of "put_log (Resolved s) r"] by (simp add: put_log_def)
  next
    case 4 show ?case using Cons.IH(4) [of "put_log (Resolved s) r"] by (simp add: put_log_def same_rest_def)
  }
qed simp_all

lemma clear_fills:
  "same_rest r (clearPendingFills k r)"
  "fills_in S r \<Longrightarrow> fills_in (S - {k}) (clearPendingFills k r)"
  "rm_pending (clearPendingFills k r) = mdel k (rm_pending r) \<or> rm_pending (clearPendingFills k r) = rm_pending r \<and> mget (rm_pending r) k = None"
proof -
  show "same_rest r (clearPendingFills k r)"
    using fold_resolved(4) by (simp add: clearPendingFills_def same_rest_def split: option.split)
  show "rm_pending (clearPendingFills k r) = mdel k (rm_pending r) \<or> rm_pending (clearPendingFills k r) = rm_pending r \<and> mget (rm_pending r) k = None"
    by (simp add: clearPendingFills_def split: option.split)
  assume f: "fills_in S r"
  show "fills_in (S - {k}) (clearPendingFills k r)"
  proof (cases "mget (rm_pending r) k")
    case None
    then have "k \<notin> set (mkeys (rm_pending r))" using mhas_keys [of "rm_pending r" k] by (simp add: mhas_def)
    then show ?thesis using f None unfolding clearPendingFills_def fills_in_def by auto
  next
    case (Some ss)
    have e: "mset (concat (mvals (mdel k (rm_pending r)))) + mset ss = mset (concat (mvals (rm_pending r)))"
      using f Some by (intro concat_del) (simp_all add: fills_in_def)
    have "fills_ok (clearPendingFills k r)"
    proof -
      have "mset (concat (mvals (rm_pending r))) + mset (resolved (rm_log r)) = mset [0..<rm_slots r]"
        using f by (simp add: fills_in_def fills_ok_def)
      then have "mset (concat (mvals (mdel k (rm_pending r)))) + mset ss + mset (resolved (rm_log r)) = mset [0..<rm_slots r]"
        unfolding e .
      moreover have "rm_pending (clearPendingFills k r) = mdel k (rm_pending r)" "rm_slots (clearPendingFills k r) = rm_slots r"
        "resolved (rm_log (clearPendingFills k r)) = resolved (rm_log r) @ ss"
        by (simp_all add: clearPendingFills_def Some fold_resolved)
      ultimately show ?thesis by (simp only: fills_ok_def mset_append ac_simps)
    qed
    moreover have "set (mkeys (mdel k (rm_pending r))) \<subseteq> S - {k}" using f by (auto simp: fills_in_def AList.delete_eq)
    moreover have "[] \<notin> set (mvals (mdel k (rm_pending r)))"
      using f subsetD [OF mvals_del [of k "rm_pending r"]] unfolding fills_in_def by metis
    moreover have "rm_pending (clearPendingFills k r) = mdel k (rm_pending r)" by (simp add: clearPendingFills_def Some)
    moreover have "mwf (mdel k (rm_pending r))" using f by (intro mwf_del) (simp only: fills_in_def)
    ultimately show ?thesis by (simp add: fills_in_def)
  qed
qed


lemma clear_fills_list:
  "same_rest r (fold (\<lambda>k r'. if P k then r' else clearPendingFills k r') ks r) \<and>
   (fills_in S r \<longrightarrow> fills_in (S - {k \<in> set ks. \<not> P k}) (fold (\<lambda>k r'. if P k then r' else clearPendingFills k r') ks r))"
proof (induction ks arbitrary: r S)
  case (Cons k ks)
  let ?r = "if P k then r else clearPendingFills k r"
  have 1: "same_rest r ?r" and 2: "fills_in S r \<longrightarrow> fills_in (if P k then S else S - {k}) ?r"
    using clear_fills(1,2) by simp_all
  have e: "S - {x \<in> set (k # ks). \<not> P x} = (if P k then S else S - {k}) - {x \<in> set ks. \<not> P x}" by auto
  show ?case using Cons.IH [of ?r "if P k then S else S - {k}"] 1 2 same_rest_trans [OF 1] unfolding e by simp
qed simp

lemma fills_in_keys: "fills_in S r \<Longrightarrow> set (mkeys (rm_pending r)) \<subseteq> S"
  by (simp add: fills_in_def)

lemma clear_all_fills:
  assumes "fills_in S r"
  shows "same_rest r (clearAllPendingFills r)" and "fills_in {} (clearAllPendingFills r)" and "rm_pending (clearAllPendingFills r) = []"
proof -
  have f: "fills_in (set (mkeys (rm_pending r))) r" using assms by (simp add: fills_in_def)
  have e: "clearAllPendingFills r = fold (\<lambda>k r'. if False then r' else clearPendingFills k r') (mkeys (rm_pending r)) r"
    by (simp add: clearAllPendingFills_def)
  show "same_rest r (clearAllPendingFills r)"
    using clear_fills_list [where P = "\<lambda>_. False"] unfolding e by blast
  have "fills_in (set (mkeys (rm_pending r)) - {k \<in> set (mkeys (rm_pending r)). \<not> False}) (clearAllPendingFills r)"
    using clear_fills_list [where P = "\<lambda>_. False"] f unfolding e by blast
  then show "fills_in {} (clearAllPendingFills r)" by simp
  then show "rm_pending (clearAllPendingFills r) = []" by (simp add: fills_in_def)
qed

lemma fills_in_core: "same_core r r' \<Longrightarrow> fills_in S r' = fills_in S r"
  by (simp add: fills_in_def fills_ok_def same_coreD)

lemma fills_in_mono: "fills_in S r \<Longrightarrow> S \<subseteq> T \<Longrightarrow> fills_in T r"
  by (auto simp: fills_in_def)

text \<open>The invariant reads only part of the state.\<close>

lemma remote_inv_cong:
  assumes "rm_routing r' = rm_routing r" "rm_technical r' = rm_technical r" "rm_cache r' = rm_cache r" "rm_pending r' = rm_pending r"
    "rm_refresh r' = rm_refresh r" "rm_slots r' = rm_slots r" "resolved (rm_log r') = resolved (rm_log r)"
    "rm_lifecycle r' = rm_lifecycle r" "rm_timer r' = rm_timer r"
  shows "remote_inv r' = remote_inv r"
  using assms by (simp add: remote_inv_def fills_ok_def sibling_keys_def)

lemma await_inv:
  assumes "remote_inv r" and "k \<in> set (sibling_keys r)" and "rm_lifecycle r = Active"
  shows "remote_inv (awaitPeersFill k r)"
proof -
  let ?old = "case mget (rm_pending r) k of Some slots \<Rightarrow> slots | None \<Rightarrow> []"
  let ?p = "mput k (?old @ [rm_slots r]) (rm_pending r)"
  have f: "fills_in (set (sibling_keys r)) r" using assms(1) by (simp add: remote_inv_alt)
  have c: "mset (concat (mvals ?p)) + mset ?old = mset (concat (mvals (rm_pending r))) + mset (?old @ [rm_slots r])"
    using concat_put [of k "?old @ [rm_slots r]" "rm_pending r"] by (simp add: option.case_eq_if)
  define new where "new = mset (concat (mvals ?p))"
  define before where "before = mset (concat (mvals (rm_pending r)))"
  have "new + mset ?old = (before + {#rm_slots r#}) + mset ?old"
    using c unfolding new_def [symmetric] before_def [symmetric] by (simp only: mset_append) (simp add: ac_simps)
  then have n: "new = before + {#rm_slots r#}" by (simp only: add_right_cancel)
  have "before + mset (resolved (rm_log r)) = mset [0..<rm_slots r]"
    using f by (simp only: fills_in_def fills_ok_def before_def)
  then have "new + mset (resolved (rm_log r)) = mset [0..<Suc (rm_slots r)]"
    unfolding n by (simp add: upt_Suc_append)
  then have "fills_ok (awaitPeersFill k r)"
    unfolding new_def by (simp add: fills_ok_def awaitPeersFill_def Let_def del: upt_Suc)
  have "[] \<notin> set (mvals ?p)"
    using f mvals_put [of k "?old @ [rm_slots r]" "rm_pending r"] unfolding fills_in_def by auto
  moreover have "mwf ?p" "set (mkeys ?p) \<subseteq> set (sibling_keys r)"
    using f assms(2) by (auto simp: fills_in_def mkeys_update simp del: set_map)
  moreover note \<open>fills_ok (awaitPeersFill k r)\<close>
  ultimately show ?thesis
    using assms unfolding remote_inv_def by (simp add: awaitPeersFill_def Let_def sibling_keys_def del: set_map)
qed


lemma distinct_submset: "mset xs \<subseteq># mset ys \<Longrightarrow> distinct ys \<Longrightarrow> distinct xs"
proof -
  assume sub: "mset xs \<subseteq># mset ys" and d: "distinct ys"
  have "count (mset ys) a \<le> 1" for a using d by (metis distinct_count_atmost_1 le_refl zero_le)
  then have le: "count (mset xs) a \<le> 1" for a
    using mset_subset_eq_count [OF sub, of a] le_trans by blast
  have "count (mset xs) a = (if a \<in> set xs then 1 else 0)" for a
    using le [of a] by (simp add: count_mset_0_iff le_Suc_eq)
  then show "distinct xs" by (simp add: distinct_count_atmost_1)
qed

lemma mset_filter_out: "distinct xs \<Longrightarrow> a \<in> set xs \<Longrightarrow> mset (filter (\<lambda>s. s \<noteq> a) xs) + {#a#} = mset xs"
proof (induction xs)
  case (Cons x xs)
  show ?case
  proof (cases "x = a")
    case True
    then have "filter (\<lambda>s. s \<noteq> a) xs = xs" using Cons.prems(1) by (intro filter_True) auto
    then show ?thesis using True by simp
  next
    case False
    then show ?thesis using Cons by simp
  qed
qed simp

lemma timeout_inv:
  assumes "remote_inv r" and "mget (rm_pending r) k = Some slots" and "slot \<in> set slots"
  shows "remote_inv (fillTimeout k slot r)"
proof -
  let ?rest = "filter (\<lambda>s. s \<noteq> slot) slots"
  let ?p = "if ?rest = [] then mdel k (rm_pending r) else mput k ?rest (rm_pending r)"
  have f: "fills_in (set (sibling_keys r)) r" using assms(1) by (simp add: remote_inv_alt)
  then have w: "mwf (rm_pending r)" and acc: "mset (concat (mvals (rm_pending r))) + mset (resolved (rm_log r)) = mset [0..<rm_slots r]"
    by (simp_all add: fills_in_def fills_ok_def)
  have "mset (concat (mvals (mdel k (rm_pending r)))) + mset slots = mset (concat (mvals (rm_pending r)))"
    using concat_del [OF w assms(2)] .
  then have "mset slots \<subseteq># mset [0..<rm_slots r]" using acc by (metis mset_subset_eq_add_left mset_subset_eq_add_right subset_mset.trans)
  then have "distinct slots" using distinct_upt by (rule distinct_submset)
  then have rest: "mset ?rest + {#slot#} = mset slots"
    using assms(3) by (rule mset_filter_out)
  have p: "mset (concat (mvals ?p)) + {#slot#} = mset (concat (mvals (rm_pending r)))"
  proof (cases "?rest = []")
    case True
    then have "mset slots = {#slot#}" using rest by simp
    then show ?thesis using concat_del [OF w assms(2)] True by simp
  next
    case False
    have "mset (concat (mvals (mput k ?rest (rm_pending r)))) + mset slots = mset (concat (mvals (rm_pending r))) + mset ?rest"
      using concat_put [of k ?rest "rm_pending r"] assms(2) by simp
    then have "mset (concat (mvals (mput k ?rest (rm_pending r)))) + {#slot#} + mset ?rest = mset (concat (mvals (rm_pending r))) + mset ?rest"
      unfolding rest [symmetric] by (simp only: ac_simps)
    then have "mset (concat (mvals (mput k ?rest (rm_pending r)))) + {#slot#} = mset (concat (mvals (rm_pending r)))"
      by (simp only: add_right_cancel)
    then show ?thesis using False by (simp only: if_False)
  qed
  have e: "fillTimeout k slot r = put_log (Resolved slot) (r\<lparr>rm_pending := ?p\<rparr>)"
    by (simp add: fillTimeout_def assms(2) Let_def)
  have "fills_ok (fillTimeout k slot r)"
  proof -
    have "mset (concat (mvals ?p)) + mset (resolved (rm_log r) @ [slot]) = mset [0..<rm_slots r]"
      unfolding acc [symmetric] p [symmetric] by (simp only: mset_append) (simp add: ac_simps)
    then show ?thesis unfolding e by (simp add: fills_ok_def put_log_def)
  qed
  moreover have "mwf ?p" using w by simp
  moreover have "set (mkeys ?p) \<subseteq> set (sibling_keys r)"
    using f assms(2) mhas_keys [of "rm_pending r" k] by (auto simp: fills_in_def mkeys_update mkeys_delete mhas_def simp del: set_map)
  moreover have "[] \<notin> set (mvals ?p)"
  proof (cases "?rest = []")
    case True
    then show ?thesis using f subsetD [OF mvals_del [of k "rm_pending r"]] unfolding fills_in_def by (metis (full_types))
  next
    case False
    then show ?thesis using f subsetD [OF mvals_put [of k ?rest "rm_pending r"], of "[]"] unfolding fills_in_def by (simp only: if_False insert_iff) metis
  qed
  ultimately have "fills_in (set (sibling_keys r)) (fillTimeout k slot r)"
    unfolding fills_in_def e by (simp add: put_log_def)
  moreover have "same_rest r (fillTimeout k slot r)" unfolding e by (simp add: same_rest_def put_log_def)
  moreover have "rm_lifecycle r = Active" using assms(1,2) by (auto simp: remote_inv_def)
  ultimately show ?thesis using same_rest_inv assms(1) by blast
qed

lemma cache_inv:
  assumes "remote_inv r" and "k \<in> set (sibling_keys r)"
  shows "remote_inv (setRemoteCache k infos r)"
proof -
  let ?r = "r\<lparr>rm_cache := mput k \<lparr>pe_infos = infos, pe_pcPubkey = k, pe_ts = rm_now r\<rparr> (rm_cache r)\<rparr>"
  have i: "remote_inv ?r"
    using assms by (auto simp: remote_inv_def sibling_keys_def fills_ok_def mkeys_update simp del: set_map)
  have k: "sibling_keys ?r = sibling_keys r" by (simp add: sibling_keys_def)
  have "fills_in (set (sibling_keys ?r)) (clearPendingFills k ?r)"
    using clear_fills(2) [of "set (sibling_keys ?r)" ?r k] fills_in_mono i unfolding remote_inv_alt by blast
  moreover have "rm_lifecycle ?r \<noteq> Active \<longrightarrow> rm_pending (clearPendingFills k ?r) = []"
    using i by (simp add: remote_inv_def clearPendingFills_def)
  ultimately show ?thesis using same_rest_inv [OF clear_fills(1) i] by (simp add: setRemoteCache_def)
qed

lemma expire_inv: "remote_inv r \<Longrightarrow> remote_inv (snd (remoteInfosByPubkey k r))"
  by (auto simp: remoteInfosByPubkey_def remote_inv_def sibling_keys_def fills_ok_def mkeys_delete simp del: set_map split: option.split)

lemma rosters_inv: "remote_inv r \<Longrightarrow> remote_inv (snd (cached_rosters ks r))"
proof (induction ks arbitrary: r)
  case (Cons p ks)
  obtain k l where p: "p = (k, l)" by fastforce
  obtain infos r1 where 1: "remoteInfosByPubkey k r = (infos, r1)" by fastforce
  obtain rest r2 where 2: "cached_rosters ks r1 = (rest, r2)" by fastforce
  have "remote_inv r1" using expire_inv [OF Cons.prems, of k] 1 by simp
  then show ?case using Cons.IH [of r1] 2 by (simp add: p 1)
qed simp

lemma bootstrap_inv: "remote_inv r \<Longrightarrow> remote_inv (snd (bootstrapWithSiblings h infos r))"
  using same_core_inv [OF same_core_bootstrap] by blast

lemma activate_inv:
  assumes "remote_inv r"
  shows "remote_inv (fst (snd (activate h B (r, b))))"
proof (cases "rm_lifecycle r = Dormant")
  case False
  then show ?thesis using assms by (cases "rm_lifecycle r") (simp_all add: activate_def)
next
  case True
  obtain err r1 where b: "bootstrapWithSiblings h (lb_infos B (lb_attach B b)) (put_log Subscribed r) = (err, r1)" by fastforce
  have c: "same_core r r1"
    using same_core_trans [OF same_core_log [of Subscribed r] same_core_bootstrap [of _ h "lb_infos B (lb_attach B b)"]] b by simp
  have i: "remote_inv r1" using same_core_inv [OF c] assms by simp
  have d: "rm_lifecycle r1 = Dormant" using c True by (simp add: same_coreD)
  show ?thesis
  proof (cases err)
    case None
    have "remote_inv (r1\<lparr>rm_refresh := [], rm_timer := 0 < rm_interval r1, rm_lifecycle := Active\<rparr>)"
      using i by (simp add: remote_inv_def sibling_keys_def fills_ok_def)
    then show ?thesis using True by (simp add: activate_def b None)
  next
    case (Some e)
    have "remote_inv ((put_log Unsubscribed (r1\<lparr>rm_timer := False\<rparr>))\<lparr>rm_lifecycle := Detached\<rparr>)"
      using i d by (auto simp: remote_inv_def sibling_keys_def fills_ok_def put_log_def)
    then show ?thesis using True by (simp add: activate_def b Some)
  qed
qed

lemma reannounce_inv: "remote_inv r \<Longrightarrow> remote_inv (reannounce h infos r)"
proof -
  assume i: "remote_inv r"
  obtain err r1 where b: "bootstrapWithSiblings h infos r = (err, r1)" by fastforce
  have j: "remote_inv r1" using bootstrap_inv [OF i, of h infos] b by simp
  then have "remote_inv (r1\<lparr>rm_refresh := []\<rparr>)" by (simp add: remote_inv_def sibling_keys_def fills_ok_def)
  then show ?thesis
    using i j same_core_inv [OF same_core_logs(1)] by (simp add: reannounce_def b split: option.split)
qed

lemma detach_inv:
  assumes "remote_inv r"
  shows "remote_inv (fst (detach B (r, b)))" and "rm_lifecycle (fst (detach B (r, b))) = Detached"
proof -
  have k: "remote_inv (fst (detach B (r, b))) \<and> rm_lifecycle (fst (detach B (r, b))) = Detached"
  proof (cases "rm_lifecycle r = Detached")
    case True
    then show ?thesis using assms by (simp add: detach_def)
  next
    case False
    let ?r0 = "r\<lparr>rm_lifecycle := Detached, rm_timer := False\<rparr>"
    let ?r1 = "(clearAllPendingFills ?r0)\<lparr>rm_refresh := []\<rparr>"
    have f: "fills_in (set (sibling_keys r)) ?r0" using assms by (simp add: remote_inv_alt fills_in_def fills_ok_def)
    note c = clear_all_fills [OF f]
    have fields: "rm_routing ?r1 = rm_routing r" "rm_technical ?r1 = rm_technical r" "rm_cache ?r1 = rm_cache r"
      "rm_timer ?r1 = False" "rm_lifecycle ?r1 = Detached" "rm_pending ?r1 = []" "rm_refresh ?r1 = []"
      using c(1,3) by (simp_all add: same_rest_def)
    have "fills_ok ?r1" using c(2) by (auto simp: fills_in_def fills_ok_def)
    then have i: "remote_inv ?r1" using assms fields unfolding remote_inv_def sibling_keys_def by simp
    have "remote_inv (put_log Unsubscribed ?r1)" using same_core_inv [OF same_core_log [of Unsubscribed ?r1]] i by simp
    then show ?thesis using i fields False by (simp add: detach_def Let_def put_log_def)
  qed
  then show "remote_inv (fst (detach B (r, b)))" and "rm_lifecycle (fst (detach B (r, b))) = Detached" by simp_all
qed


lemma adopt_inv:
  assumes "remote_inv r" and "routing_ok rt" and "ri_pcPubkey (rt_self rt) = rm_technical r"
  shows "remote_inv (adopt_routing rt r)" and "rm_lifecycle (adopt_routing rt r) = rm_lifecycle r"
    and "rm_routing (adopt_routing rt r) = rt" and "rm_technical (adopt_routing rt r) = rm_technical r"
proof -
  let ?P = "\<lambda>k. mhas (rt_by_key rt) k"
  let ?r1 = "r\<lparr>rm_cache := filter (\<lambda>(k, _). ?P k) (rm_cache r)\<rparr>"
  let ?r2 = "fold (\<lambda>k r'. if ?P k then r' else clearPendingFills k r') (mkeys (rm_pending ?r1)) ?r1"
  have e: "adopt_routing rt r = ?r2\<lparr>rm_refresh := filter ?P (rm_refresh ?r2), rm_routing := rt\<rparr>"
    by (simp add: adopt_routing_def Let_def)
  have f: "fills_in (set (mkeys (rm_pending r))) ?r1" using assms(1) by (simp add: remote_inv_def fills_in_def fills_ok_def)
  have s: "same_rest ?r1 ?r2" and f2: "fills_in (set (mkeys (rm_pending r)) - {k \<in> set (mkeys (rm_pending ?r1)). \<not> ?P k}) ?r2"
    using clear_fills_list [where P = ?P and ks = "mkeys (rm_pending ?r1)" and r = ?r1] f by blast+
  have "set (mkeys (rm_pending r)) - {k \<in> set (mkeys (rm_pending ?r1)). \<not> ?P k} \<subseteq> set (mkeys (rt_by_key rt))"
    using mhas_keys [of "rt_by_key rt"] by auto
  with f2 have f3: "fills_in (set (mkeys (rt_by_key rt))) ?r2" by (rule fills_in_mono)
  have fields: "rm_technical ?r2 = rm_technical r" "rm_cache ?r2 = filter (\<lambda>(k, _). ?P k) (rm_cache r)"
    "rm_refresh ?r2 = rm_refresh r" "rm_timer ?r2 = rm_timer r" "rm_lifecycle ?r2 = rm_lifecycle r"
    using s by (simp_all add: same_rest_def)
  show "rm_lifecycle (adopt_routing rt r) = rm_lifecycle r" "rm_routing (adopt_routing rt r) = rt"
    "rm_technical (adopt_routing rt r) = rm_technical r" unfolding e using fields by simp_all
  have w: "mwf (filter (\<lambda>(k, _). ?P k) (rm_cache r))"
    using assms(1) unfolding remote_inv_def mwf_def by (metis distinct_map_filter)
  have c: "set (mkeys (filter (\<lambda>(k, _). ?P k) (rm_cache r))) \<subseteq> set (mkeys (rt_by_key rt))"
    by (auto simp: mhas_keys simp del: set_map) (force)
  have q: "set (filter ?P (rm_refresh r)) \<subseteq> set (mkeys (rt_by_key rt))"
    using mhas_keys [of "rt_by_key rt"] by auto
  have p: "rm_lifecycle r \<noteq> Active \<longrightarrow> rm_pending ?r2 = []"
    using assms(1) by (auto simp: remote_inv_def)
  have g: "fills_in (set (mkeys (rt_by_key rt))) (adopt_routing rt r)"
    using f3 unfolding e by (simp add: fills_in_def fills_ok_def)
  show "remote_inv (adopt_routing rt r)"
    unfolding remote_inv_alt sibling_keys_def
    using assms w c q p g fields unfolding e by (auto simp: remote_inv_def simp del: set_map)
qed

lemma refresh_inv:
  assumes "remote_inv r" and "k \<in> set (sibling_keys r)" and "rm_lifecycle r = Active"
  shows "remote_inv (refresh_one h body k r)" and "sibling_keys (refresh_one h body k r) = sibling_keys r"
    and "rm_lifecycle (refresh_one h body k r) = Active"
proof -
  obtain ok1 r1 where 1: "sendControlEnvelope h k peers_request_body r = (ok1, r1)" by fastforce
  obtain ok2 r2 where 2: "sendControlEnvelope h k body r1 = (ok2, r2)" by fastforce
  have c: "same_core r r2"
    using same_core_trans [OF same_core_control [of r h k peers_request_body] same_core_control [of _ h k body]] 1 2 by simp
  have i: "remote_inv r2" using same_core_inv [OF c] assms(1) by simp
  have a: "rm_lifecycle r2 = Active" "sibling_keys r2 = sibling_keys r" using same_coreD [OF c] assms(3) by simp_all
  define x where "x = (if ok1 \<and> ok2 then r2\<lparr>rm_refresh := removeAll k (rm_refresh r2)\<rparr> else r2\<lparr>rm_refresh := set_add k (rm_refresh r2)\<rparr>)"
  have x: "remote_inv x" "sibling_keys x = sibling_keys r" "rm_lifecycle x = Active"
    using i a assms(2) by (auto simp: x_def remote_inv_def sibling_keys_def fills_ok_def set_add_def simp del: set_map)
  have r: "refresh_one h body k r = (if ok1 \<and> ok2 then x else logMetadataOnly ''[broker_remote] event=topology_refresh_failed reason=send_failure'' x)"
    by (simp add: refresh_one_def 1 2 x_def)
  have l: "same_core x (refresh_one h body k r)" unfolding r by simp
  show "remote_inv (refresh_one h body k r)" "sibling_keys (refresh_one h body k r) = sibling_keys r"
    "rm_lifecycle (refresh_one h body k r) = Active"
    using x same_core_inv [OF l] same_coreD [OF l] by simp_all
qed

lemma refresh_all_inv:
  "remote_inv r \<Longrightarrow> set ks \<subseteq> set (sibling_keys r) \<Longrightarrow> rm_lifecycle r = Active \<Longrightarrow> remote_inv (fold (refresh_one h body) ks r)"
proof (induction ks arbitrary: r)
  case (Cons k ks)
  have "k \<in> set (sibling_keys r)" using Cons.prems(2) by simp
  note step = refresh_inv [OF Cons.prems(1) this Cons.prems(3), of h body]
  have "set ks \<subseteq> set (sibling_keys (refresh_one h body k r))" unfolding step(2) using Cons.prems(2) by simp
  then show ?case using Cons.IH [OF step(1) _ step(3)] by simp
qed simp

lemma fold_set_add: "set (fold set_add xs ys) = set ys \<union> set xs"
  by (induction xs arbitrary: ys) (auto simp: set_add_def)

lemma refresh_keys_in: "set needed \<subseteq> set (mkeys (rt_by_key rt)) \<Longrightarrow> set (refresh_keys prev rt needed) \<subseteq> set (mkeys (rt_by_key rt))"
proof -
  assume n: "set needed \<subseteq> set (mkeys (rt_by_key rt))"
  have "set (fold (\<lambda>(k, alias) ks. if P k alias then set_add k ks else ks) m needed) \<subseteq> set needed \<union> set (mkeys m)" for P m
  proof (induction m arbitrary: needed)
    case (Cons a m)
    obtain k l where a: "a = (k, l)" by fastforce
    show ?case using Cons [of "if P k l then set_add k needed else needed"] by (auto simp: a set_add_def split: if_splits)
  qed simp
  then have "set (fold (\<lambda>(k, alias) ks. if P k alias then set_add k ks else ks) (rt_by_key rt) needed) \<subseteq> set (mkeys (rt_by_key rt))" for P
    using n by blast
  then show ?thesis by (simp add: refresh_keys_def Let_def fold_set_add del: set_map)
qed

lemma setTopology_inv:
  assumes "remote_inv r"
  shows "remote_inv (snd (setTopology h infos t r))"
proof (cases "rm_lifecycle r = Detached")
  case True
  then show ?thesis using assms by (simp add: setTopology_def)
next
  case False
  show ?thesis
  proof (cases "buildRoutingState t (Some (rm_technical r))")
    case (Inl e)
    then show ?thesis using assms False by (simp add: setTopology_def)
  next
    case (Inr rt)
    have "canon_key (rm_technical r)" using assms by (auto simp: remote_inv_def routing_ok_def)
    then have rt: "routing_ok rt" "ri_pcPubkey (rt_self rt) = rm_technical r"
      using buildRoutingState_ok [OF Inr] canon_key_ne by auto
    note a = adopt_inv [OF assms rt]
    let ?r1 = "adopt_routing rt r"
    let ?keys = "refresh_keys (rm_routing r) rt (rm_refresh ?r1)"
    have "set (rm_refresh ?r1) \<subseteq> set (mkeys (rt_by_key rt))" using a(1,3) by (simp add: remote_inv_def sibling_keys_def)
    then have k: "set ?keys \<subseteq> set (sibling_keys ?r1)" using refresh_keys_in a(3) unfolding sibling_keys_def by metis
    have b: "remote_inv (fold (refresh_one h body) ?keys ?r1)" if "rm_lifecycle r = Active" for body
      using refresh_all_inv [OF a(1) k] a(2) that by simp
    have "remote_inv (?r1\<lparr>rm_refresh := fold set_add ?keys (rm_refresh ?r1)\<rparr>)" if "rm_lifecycle r = Active"
      using a(1,2) k that by (auto simp: remote_inv_def sibling_keys_def fills_ok_def fold_set_add simp del: set_map)
    then have c: "remote_inv (logMetadataOnly m (?r1\<lparr>rm_refresh := fold set_add ?keys (rm_refresh ?r1)\<rparr>))" if "rm_lifecycle r = Active" for m
      using same_core_inv [OF same_core_logs(1)] that by blast
    show ?thesis using False a(1,2) b c by (simp add: setTopology_def Inr Let_def split: sum.split)
  qed
qed


lemma outbound_inv:
  assumes "remote_inv r"
  shows "remote_inv (snd (tryRouteOutbound h env r))"
proof -
  have "remote_inv (snd (routeToCanonicalSibling h k env r))" if k: "mget (rt_by_label (rm_routing r)) l = Some k" and a: "rm_lifecycle r = Active" for l k
  proof -
    have "mget (rt_by_key (rm_routing r)) k = Some l" using assms k by (simp add: remote_inv_def routing_ok_def)
    then have in_keys: "k \<in> set (sibling_keys r)" using mhas_keys [of "rt_by_key (rm_routing r)" k] by (simp add: mhas_def sibling_keys_def)
    have send: "remote_inv (snd (sendEnvelopeToPi h k e r))" for e using same_core_inv [OF same_core_send] assms by blast
    have ctl: "remote_inv r2" "k \<in> set (sibling_keys r2)" "rm_lifecycle r2 = Active"
      if "sendEnvelopeToPi h k e r = (ok, r1)" "sendControlEnvelope h k body r1 = (ok2, r2)" for e ok r1 body ok2 r2
    proof -
      have c: "same_core r r2"
        using same_core_trans [OF same_core_send [of r h k e] same_core_control [of _ h k body]] that by simp
      show "remote_inv r2" "k \<in> set (sibling_keys r2)" "rm_lifecycle r2 = Active"
        using same_core_inv [OF c] same_coreD [OF c] assms in_keys a by simp_all
    qed
    show ?thesis
    proof (cases "\<exists>to pn legacy. e_to env = ToName to \<and> parse_address to = Some pn \<and> mget (rt_legacy (rm_routing r)) k = Some legacy \<and> legacy \<noteq> []")
      case False
      then show ?thesis using assms by (auto simp: routeToCanonicalSibling_def split: dest.split option.split prod.split)
    next
      case True
      then obtain to lab pn legacy where t: "e_to env = ToName to" "parse_address to = Some (lab, pn)" "mget (rt_legacy (rm_routing r)) k = Some legacy" "legacy \<noteq> []"
        by fastforce
      let ?e = "env\<lparr>e_from := ri_legacyPcLabel (rt_self (rm_routing r)) @ '':'' @ e_from env, e_to := ToName (legacy @ '':'' @ pn)\<rparr>"
      obtain ok r1 where 1: "sendEnvelopeToPi h k ?e r = (ok, r1)" by fastforce
      obtain ok2 r2 where 2: "sendControlEnvelope h k peers_request_body r1 = (ok2, r2)" by fastforce
      have i1: "remote_inv r1" using send [of ?e] 1 by simp
      note i2 = ctl [OF 1 2]
      show ?thesis using i1 i2 await_inv [OF i2] 1 2 by (simp add: routeToCanonicalSibling_def t)
    qed
  qed
  then show ?thesis using assms by (auto simp: tryRouteOutbound_def split: dest.split option.split prod.split)
qed

lemma deliver_core: "same_core r (fst (snd (deliver_incoming h B k rep n t (r, b))))"
proof -
  obtain st b1 where 1: "lb_inject B n b = (st, b1)" by fastforce
  obtain uid r1 where 2: "fresh_id h r = (uid, r1)" by fastforce
  have "same_core r r1" using same_core_fresh [of r h] 2 by simp
  then show ?thesis using same_core_trans [OF _ same_core_send] by (simp add: deliver_incoming_def 1 2 split_def Let_def)
qed

lemma sibling_inv:
  assumes "remote_inv r" and "k \<in> set (sibling_keys r)"
  shows "remote_inv (fst (snd (handle_sibling h B k l env (r, b))))"
proof -
  have d: "remote_inv (dropMetadataOnly m f r)" "remote_inv (logMetadataOnly m r)" for m f
    using same_core_inv [OF same_core_logs(2)] same_core_inv [OF same_core_logs(1)] assms(1) by blast+
  have c: "remote_inv (snd (sendControlEnvelope h k body r))" "remote_inv (logMetadataOnly m (snd (sendControlEnvelope h k body r)))" for body m
    using same_core_inv [OF same_core_control] same_core_inv [OF same_core_logs(1)] assms(1) by blast+
  have s: "remote_inv (fst (snd (deliver_incoming h B k rep n t (r, b))))" for rep n t
    using assms(1) by (simp add: same_core_inv [OF deliver_core])
  show ?thesis
    using d c s cache_inv [OF assms] assms(1)
    by (simp add: handle_sibling_def split_def Let_def split: jv.split option.split sum.split dest.split)
qed

lemma transport_core: "same_core r (fst (propagateTransportError B env (r, b)))"
  unfolding propagateTransportError_def prod.case
  by (simp split: prod.split bool.split option.split jv.split)

lemma incoming_inv:
  assumes "remote_inv r"
  shows "remote_inv (fst (snd (handleIncoming sha h B env pc (r, b))))"
proof (cases "rm_lifecycle r = Active \<and> pc \<noteq> ''_relay''")
  case False
  then show ?thesis using assms by (simp add: handleIncoming_def same_core_inv [OF transport_core])
next
  case True
  have d: "remote_inv (dropMetadataOnly m f r)" for m f
    using same_core_inv [OF same_core_logs(2)] assms by blast
  have "remote_inv (fst (snd (handle_sibling h B k (c # cs) env (r, b))))" if "mget (rt_by_key (rm_routing r)) k = Some (c # cs)" for k c cs
    using sibling_inv [OF assms] that mhas_keys [of "rt_by_key (rm_routing r)" k] by (simp add: mhas_def sibling_keys_def)
  then show ?thesis using True d by (simp add: handleIncoming_def split: sum.split option.split list.split)
qed

lemma federated_core: "same_core r (fst (snd (handleFederatedIncoming h B env k (r, b))))"
proof -
  obtain uid r1 where 2: "fresh_id h r = (uid, r1)" by fastforce
  have "same_core r r1" using same_core_fresh [of r h] 2 by simp
  then show ?thesis using same_core_trans [OF _ same_core_send]
    by (simp add: handleFederatedIncoming_def 2 split_def Let_def split: jv.split sum.split)
qed

section \<open>Reachable routers\<close>

text \<open>The router beside its broker. The broker also moves by itself.\<close>

inductive remote_step :: "(byte list \<Rightarrow> byte list) \<Rightarrow> remote_host \<Rightarrow> 'b local_broker \<Rightarrow> remote \<times> 'b \<Rightarrow> remote \<times> 'b \<Rightarrow> bool"
  for sha h B where
  activated: "remote_step sha h B s (snd (activate h B s))"
| detached: "remote_step sha h B s (detach B s)"
| topology: "remote_step sha h B (r, b) (snd (setTopology h (lb_infos B b) t r), b)"
| timer: "rm_timer r \<Longrightarrow> remote_step sha h B (r, b) (reannounce h (lb_infos B b) r, b)"
| incoming: "remote_step sha h B s (snd (handleIncoming sha h B env pc s))"
| federated: "remote_step sha h B s (snd (handleFederatedIncoming h B env pc s))"
| outbound: "remote_step sha h B (r, b) (snd (tryRouteOutbound h env r), b)"
| changed: "remote_step sha h B (r, b) (snd (onLocalPeersChanged h (lb_infos B b) r), b)"
| listing: "remote_step sha h B (r, b) (snd (all_rosters r), b)"
| lookup: "remote_step sha h B (r, b) (snd (getRemotePeers l r), b)"
| expired: "mget (rm_pending r) k = Some slots \<Longrightarrow> slot \<in> set slots \<Longrightarrow> remote_step sha h B (r, b) (fillTimeout k slot r, b)"
| clock: "remote_step sha h B (r, b) (r\<lparr>rm_now := t\<rparr>, b)"
| broker_moves: "remote_step sha h B (r, b) (r, b')"

inductive remote_reachable :: "(byte list \<Rightarrow> byte list) \<Rightarrow> remote_host \<Rightarrow> 'b local_broker \<Rightarrow> remote \<times> 'b \<Rightarrow> bool"
  for sha h B where
  created: "new_remote t ttl interval now = Inr r \<Longrightarrow> remote_reachable sha h B (r, b)"
| stepped: "remote_reachable sha h B s \<Longrightarrow> remote_step sha h B s s' \<Longrightarrow> remote_reachable sha h B s'"

lemma new_remote_inv: "new_remote t ttl interval now = Inr r \<Longrightarrow> remote_inv r"
  by (auto simp: new_remote_def remote_inv_def fills_ok_def dest: buildRoutingState_ok(1) split: sum.splits)

lemma changed_core: "same_core r (snd (onLocalPeersChanged h infos r))"
  by (simp add: onLocalPeersChanged_def split: sum.split)

lemma remote_step_inv: "remote_step sha h B s s' \<Longrightarrow> remote_inv (fst s) \<Longrightarrow> remote_inv (fst s')"
proof (induction rule: remote_step.induct)
  case (activated s) then show ?case using activate_inv by (cases s) simp
next
  case (detached s) then show ?case using detach_inv(1) by (cases s) simp
next
  case (topology r b t) then show ?case using setTopology_inv by simp
next
  case (timer r b) then show ?case using reannounce_inv by simp
next
  case (incoming s env pc) then show ?case using incoming_inv by (cases s) simp
next
  case (federated s env pc) then show ?case by (cases s) (simp add: same_core_inv [OF federated_core])
next
  case (outbound r b env) then show ?case using outbound_inv by simp
next
  case (changed r b) then show ?case using same_core_inv [OF changed_core] by simp
next
  case (listing r b) then show ?case using rosters_inv by (simp add: all_rosters_def)
next
  case (lookup r b l)
  have "remote_inv (snd (remoteInfosByPubkey k r))" for k using expire_inv lookup by simp
  then show ?case using lookup by (auto simp: getRemotePeers_def split_def Let_def split: option.split)
next
  case (expired r k slots slot b) then show ?case using timeout_inv by simp
next
  case (clock r b t) then show ?case using remote_inv_cong [of "r\<lparr>rm_now := t\<rparr>" r] by simp
next
  case (broker_moves r b b') then show ?case by simp
qed

lemma remote_reachable_inv: "remote_reachable sha h B s \<Longrightarrow> remote_inv (fst s)"
proof (induction rule: remote_reachable.induct)
  case (created t ttl interval now r b) then show ?case using new_remote_inv by simp
next
  case (stepped s s') then show ?case using remote_step_inv by blast
qed

end
