(* ===== verification/BrokerProps.thy ===== *)
theory BrokerProps
  imports Broker
begin

text \<open>
  What the broker promises: the registry invariant over every reachable state, who can appear as
  the sender of a routed line, the exact effects of unicast, broadcast and injection, and what
  registering and renaming do to the other peers.
\<close>

section \<open>Effects appended to the log\<close>

definition adds :: "effect list \<Rightarrow> 'r broker \<Rightarrow> 'r broker \<Rightarrow> bool" where
  "adds es b b' \<longleftrightarrow> br_log b' = br_log b @ es"

definition adds_only :: "(effect \<Rightarrow> bool) \<Rightarrow> 'r broker \<Rightarrow> 'r broker \<Rightarrow> bool" where
  "adds_only P b b' \<longleftrightarrow> (\<exists>es. adds es b b' \<and> list_all P es)"

lemma adds_trans: "adds es b b' \<Longrightarrow> adds es' b' b'' \<Longrightarrow> adds (es @ es') b b''"
  by (simp add: adds_def)

lemma adds_only_trans: "adds_only P b b' \<Longrightarrow> adds_only P b' b'' \<Longrightarrow> adds_only P b b''"
  unfolding adds_only_def adds_def by (metis append.assoc list_all_append)

lemma adds_only_refl [simp]: "adds_only P b b"
  by (simp add: adds_only_def adds_def)

lemma adds_only_emit: "P e \<Longrightarrow> adds_only P b (emit e b)"
  by (auto simp: adds_only_def adds_def emit_def)

lemma adds_only_tick [simp]: "adds_only P b (tick b)"
  by (simp add: adds_only_def adds_def tick_def)

lemma adds_only_write: "P (Write c l) \<Longrightarrow> adds_only P b (snd (try_write h c l b))"
  by (simp add: try_write_def adds_only_emit)

lemma adds_only_write_tick: "P (Write c l) \<Longrightarrow> adds_only P b (snd (try_write h c l (tick b)))"
  by (rule adds_only_trans [OF adds_only_tick adds_only_write])

lemma log_simps [simp]:
  "br_log (tick b) = br_log b" "br_log (emit e b) = br_log b @ [e]"
  "br_uuids (tick b) = Suc (br_uuids b)" "br_uuids (emit e b) = br_uuids b"
  "br_peers (tick b) = br_peers b" "br_peers (emit e b) = br_peers b"
  "br_conns (tick b) = br_conns b" "br_conns (emit e b) = br_conns b"
  "br_audit (tick b) = br_audit b" "br_audit (emit e b) = br_audit b"
  by (simp_all add: tick_def emit_def)

lemma offer_frame [simp]:
  "offer_remote R env b = (cl, b1) \<Longrightarrow> br_log b1 = br_log b \<and> br_uuids b1 = br_uuids b \<and>
     br_audit b1 = br_audit b \<and> br_peers b1 = br_peers b \<and> br_conns b1 = br_conns b"
  by (auto simp: offer_remote_def split: dest.splits option.splits prod.splits if_splits)

lemma names_frame:
  "allPeerNames R b = (ns, b1) \<Longrightarrow> br_log b1 = br_log b \<and> br_uuids b1 = br_uuids b \<and>
     br_peers b1 = br_peers b \<and> br_conns b1 = br_conns b"
  "allPeerInfos R b = (ps, b1) \<Longrightarrow> br_log b1 = br_log b \<and> br_uuids b1 = br_uuids b \<and>
     br_peers b1 = br_peers b \<and> br_conns b1 = br_conns b"
  by (auto simp: allPeerNames_def allPeerInfos_def split: option.splits prod.splits)

lemma reg_frame:
  "br_conns (sendRenameAck h c n a b) = br_conns b" "br_peers (sendRenameAck h c n a b) = br_peers b"
  "br_conns (broadcastSystem h body ex b) = br_conns b" "br_peers (broadcastSystem h body ex b) = br_peers b"
  "br_conns (route h R env b) = br_conns b" "br_peers (route h R env b) = br_peers b"
  using same_reg_rename_ack [of b h c n a] same_reg_broadcast [of b h body ex] same_reg_route [of b h R env]
  by (simp_all add: same_reg_def)

section \<open>Who appears as the sender\<close>

definition host_ok :: "host \<Rightarrow> bool" where
  "host_ok h \<longleftrightarrow> (\<forall>n. length (h_rand h n) = 10)"

lemma next_uuid_ok: "host_ok h \<Longrightarrow> uuid_re (next_uuid h b)"
  by (simp add: next_uuid_def host_ok_def uuidv7_uuid)

text \<open>A written line is an envelope from \<open>a\<close> or from the broker.\<close>

definition from_ok :: "string \<Rightarrow> effect \<Rightarrow> bool" where
  "from_ok a e = (case e of Write d l \<Rightarrow> (\<exists>env. parse l = Inr env \<and> e_from env \<in> {a, BROKER_NAME}) | _ \<Rightarrow> True)"

lemma from_ok_env: "wf_env env \<Longrightarrow> wf_json (e_body env) \<Longrightarrow> e_from env \<in> {a, BROKER_NAME} \<Longrightarrow>
    from_ok a (Write d (serialize env))"
  by (simp add: from_ok_def parse_serialize)

lemma broker_env_ok:
  assumes "uuid_re uid" and "to \<noteq> []" and "\<And>r. re = Some r \<Longrightarrow> uuid_re r" and "wf_json body"
  shows "from_ok a (Write d (serialize (broker_env uid to re body)))"
  by (rule from_ok_env) (use assms in \<open>auto simp: broker_env_def wf_env_def BROKER_NAME_def\<close>)

lemma body_wf [simp]: "wf_json (ack_body st t)" "wf_json (peer_event_body ty a)" "wf_json (roster_body ns ps)"
  by (simp_all add: ack_body_def peer_event_body_def roster_body_def list_all_iff)

lemma ack_from_ok:
  assumes "host_ok h" and "wf_env env"
  shows "adds_only (from_ok a) b (sendAckToSender h env st t b)"
proof (cases "mget (br_peers b) (e_from env)")
  case (Some c)
  have "from_ok a (Write c (serialize (broker_env (next_uuid h b) (e_from env) (Some (e_id env)) (ack_body st t))))"
    by (rule broker_env_ok) (use assms in \<open>auto simp: next_uuid_ok wf_env_def\<close>)
  then show ?thesis using Some by (simp add: sendAckToSender_def adds_only_write_tick)
qed (simp add: sendAckToSender_def)

lemma deliver_from_ok:
  assumes h: "host_ok h" and e: "wf_env env" "wf_json (e_body env)" "e_from env = a"
  shows "adds_only (from_ok a) b (snd (snd (deliver_all h env uni ts d st b)))"
proof (induction ts arbitrary: d st b)
  case (Cons t ts)
  note chain = adds_only_trans [OF _ Cons.IH]
  note ack = ack_from_ok [OF h e(1)]
  show ?case
  proof (cases "mget (br_peers b) t")
    case None
    then show ?thesis using Cons.IH chain [OF ack] by (cases uni) simp_all
  next
    case (Some c)
    obtain ok b' where w: "try_write h c (serialize env) b = (ok, b')" by fastforce
    have "from_ok a (Write c (serialize env))" by (rule from_ok_env [OF e(1,2)]) (simp add: e(3))
    then have b': "adds_only (from_ok a) b b'"
      using adds_only_write [of "from_ok a" c "serialize env" b h] w by simp
    show ?thesis using Some w chain [OF b'] chain [OF adds_only_trans [OF b' ack]]
      by (cases uni; cases ok) simp_all
  qed
qed simp

lemma broker_msg_from_ok:
  assumes h: "host_ok h" and e: "wf_env env"
  shows "adds_only (from_ok a) b (handleBrokerMessage h R env b)"
proof -
  obtain ns b1 where 1: "allPeerNames R (tick b) = (ns, b1)" by fastforce
  obtain ps b2 where 2: "allPeerInfos R b1 = (ps, b2)" by fastforce
  have b2: "adds_only P b b2" for P
    using names_frame(1) [OF 1] names_frame(2) [OF 2] by (simp add: adds_only_def adds_def)
  have "adds_only (from_ok a) b2
      (snd (try_write h c (serialize (broker_env (next_uuid h b) (e_from env) (Some (e_id env)) (roster_body ns ps))) b2))" for c
    by (rule adds_only_write, rule broker_env_ok) (use h e in \<open>auto simp: next_uuid_ok wf_env_def\<close>)
  then show ?thesis using 1 2 adds_only_trans [OF b2] b2
    by (auto simp: handleBrokerMessage_def Let_def split: option.splits)
qed

lemma route_from_ok:
  assumes h: "host_ok h" and e: "wf_env env" "wf_json (e_body env)" "e_from env = a"
  shows "adds_only (from_ok a) b (route h R env b)"
proof -
  obtain cl b1 where 1: "offer_remote R env b = (cl, b1)" by fastforce
  obtain d st b2 where 2: "deliver_all h env (is_unicast env) (resolveTargets env b1) [] NoAck b1 = (d, st, b2)"
    using prod_cases3 by blast
  have b1: "adds_only P b b1" for P using offer_frame [OF 1] by (simp add: adds_only_def adds_def)
  have b2: "adds_only (from_ok a) b1 b2"
    using deliver_from_ok [OF h e, of b1 "is_unicast env" "resolveTargets env b1" "[]" NoAck] 2 by simp
  have fin: "adds_only (from_ok a) b2 (emit (Routed env d) (appendAudit env d st False b2))"
    by (simp add: appendAudit_def adds_only_emit adds_only_trans [OF adds_only_emit adds_only_emit] from_ok_def)
  show ?thesis using 1 2 b1 adds_only_trans [OF b1 adds_only_trans [OF b2 fin]]
    by (simp add: route_def broker_msg_from_ok [OF h e(1)])
qed


lemma broadcast_from_ok:
  assumes h: "host_ok h" and b: "wf_json body" and ne: "[] \<notin> set (mkeys (br_peers b))"
  shows "adds_only (from_ok a) b (broadcastSystem h body ex b)"
proof -
  have "adds_only (from_ok a) b (fold (\<lambda>(address, c) b'. if address = ex then b'
             else snd (try_write h c (serialize (broker_env (next_uuid h b') address None body)) (tick b'))) ps b)"
    if "[] \<notin> set (mkeys ps)" for ps
    using that
  proof (induction ps arbitrary: b)
    case (Cons p ps)
    obtain t c where p: "p = (t, c)" by fastforce
    have "adds_only (from_ok a) b (snd (try_write h c (serialize (broker_env (next_uuid h b) t None body)) (tick b)))"
      by (rule adds_only_write_tick, rule broker_env_ok) (use Cons.prems assms p in \<open>auto simp: next_uuid_ok\<close>)
    then show ?case using Cons.IH [of b] adds_only_trans [OF _ Cons.IH] Cons.prems by (simp add: p)
  qed simp
  then show ?thesis using ne by (simp add: broadcastSystem_def)
qed

text \<open>A written line of the second kind: the acknowledgement of a rename, to the peer that asked.\<close>

definition rename_ack_of :: "nat \<Rightarrow> peer_conn \<Rightarrow> effect \<Rightarrow> bool" where
  "rename_ack_of c p e \<longleftrightarrow> e = Write c (serialize_jv (name_ack ''rename_ack'' (pc_address p) (pc_name p)))"

lemma rename_from_ok:
  assumes h: "host_ok h" and c: "br_conns b c = Some conn" and ne: "[] \<notin> set (mkeys (br_peers b))"
  shows "\<exists>p. br_conns (handleRename h c conn msg b) c = Some p \<and>
     adds_only (\<lambda>e. from_ok a e \<or> rename_ack_of c p e) b (handleRename h c conn msg b)"
proof -
  have ack: "adds_only (\<lambda>e. from_ok a e \<or> rename_ack_of c p e) b' (sendRenameAck h c (pc_name p) (pc_address p) b')"
    for p and b' :: "'a broker"
    unfolding sendRenameAck_def by (rule adds_only_write) (simp add: rename_ack_of_def)
  show ?thesis
  proof (cases "\<exists>name. jget msg ''name'' = JStr name \<and> name \<noteq> []")
    case False
    then have "handleRename h c conn msg b = sendRenameAck h c (pc_name conn) (pc_address conn) b"
      by (auto simp: handleRename_def split: jv.splits)
    then show ?thesis using ack [of conn b] c by (auto simp: reg_frame)
  next
    case True
    then obtain name where nm: "jget msg ''name'' = JStr name" "name \<noteq> []" by blast
    define b1 where "b1 = b\<lparr>br_peers := mdel (pc_address conn) (br_peers b)\<rparr>"
    show ?thesis
    proof (cases "identityForRegister (br_peers b1) (pc_cwd conn) name False")
      case None
      let ?b = "b1\<lparr>br_peers := mput (pc_address conn) c (br_peers b1)\<rparr>"
      have "handleRename h c conn msg b = sendRenameAck h c (pc_name conn) (pc_address conn) ?b"
        using nm None by (simp add: handleRename_def b1_def [symmetric] Let_def)
      moreover have "adds_only P b ?b" for P by (simp add: b1_def adds_only_def adds_def)
      ultimately show ?thesis using adds_only_trans [OF _ ack [of conn ?b]] c by (auto simp: reg_frame b1_def)
    next
      case (Some idt)
      then obtain n t rep where i: "identityForRegister (br_peers b1) (pc_cwd conn) name False = Some (n, t, rep)"
        by (cases idt) simp
      let ?q = "conn\<lparr>pc_name := n, pc_address := t\<rparr>"
      define b3 where "b3 = (set_conn c ?q b1)\<lparr>br_peers := mput t c (br_peers (set_conn c ?q b1))\<rparr>"
      let ?b4 = "broadcastSystem h (peer_event_body ''peer_left'' (pc_address conn)) t b3"
      let ?b5 = "broadcastSystem h (peer_event_body ''peer_joined'' t) t ?b4"
      have eq: "handleRename h c conn msg b = sendRenameAck h c (pc_name ?q) (pc_address ?q) ?b5"
        using nm i by (simp add: handleRename_def b1_def [symmetric] b3_def Let_def)
      have "t \<noteq> []" using identity_Some(1,2) [OF i] compose_ne by metis
      then have n3: "[] \<notin> set (mkeys (br_peers b3))"
        using ne by (auto simp: b3_def b1_def mkeys_update mkeys_delete)
      have b3: "adds_only P b b3" for P by (simp add: b3_def b1_def adds_only_def adds_def set_conn_def)
      have "adds_only (from_ok a) b ?b5"
        by (intro adds_only_trans [OF adds_only_trans [OF b3 broadcast_from_ok [OF h _ n3]] broadcast_from_ok [OF h]])
          (use n3 in \<open>simp_all add: reg_frame\<close>)
      then have "adds_only (\<lambda>e. from_ok a e \<or> rename_ack_of c ?q e) b ?b5"
        unfolding adds_only_def by (auto simp: list_all_iff)
      then have "adds_only (\<lambda>e. from_ok a e \<or> rename_ack_of c ?q e) b (handleRename h c conn msg b)"
        unfolding eq by (rule adds_only_trans [OF _ ack])
      moreover have "br_conns (handleRename h c conn msg b) c = Some ?q" by (simp add: eq reg_frame b3_def)
      ultimately show ?thesis by blast
    qed
  qed
qed

lemma peers_ne:
  assumes "broker_reachable h R b"
  shows "[] \<notin> set (mkeys (br_peers b))"
proof
  assume "[] \<in> set (mkeys (br_peers b))"
  then obtain c where "mget (br_peers b) [] = Some c" by (metis domD dom_map_of_conv_image_fst list.set_map)
  then show False using broker_reachable_inv [OF assms] address_ne [of b "[]" c] by (simp add: broker_inv_def reg_ok_def)
qed

text \<open>A line of a registered peer that is not a rename only has envelopes written.\<close>

lemma line_from_ok:
  assumes "host_ok h" and "br_conns b c = Some p" and "pc_name p \<noteq> []" and "pc_address p \<noteq> []"
    and nr: "\<not> (case json_parse line of None \<Rightarrow> False | Some v \<Rightarrow> jget v ''type'' = JStr ''rename'')"
  shows "adds_only (from_ok (pc_address p)) b (handleLine h R c line b)"
proof (cases "parse line")
  case (Inl e)
  then show ?thesis using assms(2,3) nr by (simp add: handleLine_def)
next
  case (Inr env)
  have "wf_env (env\<lparr>e_from := pc_address p\<rparr>)" "wf_json (e_body env)"
    using parse_wf [OF Inr] parse_body_wf [OF Inr] assms(4) by (simp_all add: wf_env_def)
  then have "adds_only (from_ok (pc_address p)) b (route h R (env\<lparr>e_from := pc_address p\<rparr>) b)"
    by (intro route_from_ok [OF assms(1)]) simp_all
  then show ?thesis using assms(2,3) nr Inr by (simp add: handleLine_def)
qed

text \<open>C2: a registered peer cannot speak as somebody else. Whatever line a live registered peer
  sends, in every state the broker can reach, each line the broker writes in response is one of
  two: it parses as an envelope whose sender is the address the peer was registered under, or the
  broker itself; or the line sent was a rename, and it is the acknowledgement of that rename,
  written to the peer itself, with the name and address the peer has from then on.\<close>

theorem sender_forced:
  assumes "broker_reachable h R b" and "host_ok h" and "br_conns b c = Some p"
    and "\<not> pc_destroyed p" and "pc_name p \<noteq> []"
  shows "\<exists>es p'. br_log (handleLine h R c line b) = br_log b @ es \<and>
     br_conns (handleLine h R c line b) c = Some p' \<and>
     (\<forall>d l. Write d l \<in> set es \<longrightarrow>
        (\<exists>env. parse l = Inr env \<and> e_from env \<in> {pc_address p, BROKER_NAME}) \<or>
        (\<exists>v. json_parse line = Some v \<and> jget v ''type'' = JStr ''rename'') \<and> d = c \<and>
          l = serialize_jv (name_ack ''rename_ack'' (pc_address p') (pc_name p')))"
proof (cases "case json_parse line of None \<Rightarrow> False | Some v \<Rightarrow> jget v ''type'' = JStr ''rename''")
  case True
  then obtain v where v: "json_parse line = Some v" "jget v ''type'' = JStr ''rename''" by (auto split: option.splits)
  have "handleLine h R c line b = handleRename h c p v b" using assms(3,5) v by (simp add: handleLine_def)
  then show ?thesis using rename_from_ok [OF assms(2,3) peers_ne [OF assms(1)], of v "pc_address p"] v
    by (fastforce simp: adds_only_def adds_def list_all_iff from_ok_def rename_ack_of_def)
next
  case False
  have "filed b c" using broker_reachable_inv [OF assms(1)] assms(3,4) by (auto simp: broker_inv_def live_ok_def)
  then have "mget (br_peers b) (pc_address p) = Some c" using assms(3,5) by (auto simp: filed_def)
  then have "pc_address p \<noteq> []"
    using broker_reachable_inv [OF assms(1)] address_ne [of b "pc_address p" c] by (simp add: broker_inv_def reg_ok_def)
  from line_from_ok [OF assms(2,3,5) this False, of R]
  have "\<exists>es. br_log (handleLine h R c line b) = br_log b @ es \<and> list_all (from_ok (pc_address p)) es"
    by (simp add: adds_only_def adds_def)
  moreover have "br_conns (handleLine h R c line b) c = Some p"
    using assms(3,5) False by (auto simp: handleLine_def reg_frame split: sum.split)
  ultimately show ?thesis by (fastforce simp: list_all_iff from_ok_def)
qed

section \<open>Unicast\<close>

text \<open>The effects of an acknowledgement to a registered, writable sender.\<close>

definition ack_line :: "host \<Rightarrow> nat \<Rightarrow> envelope \<Rightarrow> ack_status \<Rightarrow> string \<Rightarrow> string" where
  "ack_line h n env st t =
     serialize (broker_env (uuidv7 (h_ts h n) (h_rand h n)) (e_from env) (Some (e_id env)) (ack_body st t))"

lemma ack_adds:
  assumes "mget (br_peers b) (e_from env) = Some s" and "\<not> h_throws h s"
  shows "adds [Write s (ack_line h (br_uuids b) env st t)] b (sendAckToSender h env st t b)"
  using assms by (simp add: adds_def sendAckToSender_def try_write_def ack_line_def next_uuid_def)

lemma audit_adds [simp]: "br_log (appendAudit env d st v b) = br_log b @ (if br_audit b then [Audit env d st v] else [])"
  by (simp add: appendAudit_def)

lemma ack_audit [simp]: "br_audit (sendAckToSender h env st t b) = br_audit b"
  by (simp add: sendAckToSender_def try_write_def split: option.splits)

definition unicast_effects :: "host \<Rightarrow> nat \<Rightarrow> nat \<Rightarrow> envelope \<Rightarrow> string \<Rightarrow> nat option \<Rightarrow> effect list \<times> string list \<times> ack_status" where
  "unicast_effects h n s env t found =
     (case found of
        None \<Rightarrow> ([Write s (ack_line h n env UnknownTarget t)], [], UnknownTarget)
      | Some c \<Rightarrow> if h_throws h c then ([], [], NoAck)
          else ([Write c (serialize env), Write s (ack_line h n env Received t)], [t], Received))"

text \<open>C3: a unicast that no remote router claims has exactly these effects, in this order. The
  target is on this broker: its socket gets the line once, the sender gets a \<open>received\<close> ack naming
  the target. It is not: the sender gets an \<open>unknown_peer\<close> ack and nothing else is written. The
  target's write throws: nothing is written. Then the audit record and the callback, with the
  names actually delivered to. The registry does not change.\<close>

theorem unicast_delivery:
  assumes "e_to env = ToName t" and "t \<notin> {''broadcast'', BROKER_NAME, e_from env}"
    and "mget (br_peers b) (e_from env) = Some s" and "\<not> h_throws h s"
    and "offer_remote R env b = (False, b1)"
    and "unicast_effects h (br_uuids b) s env t (mget (br_peers b) t) = (ws, d, st)"
  shows "br_log (route h R env b) = br_log b @ ws @ (if br_audit b then [Audit env d st False] else []) @ [Routed env d] \<and>
    br_peers (route h R env b) = br_peers b \<and> br_conns (route h R env b) = br_conns b"
proof -
  note fr = offer_frame [OF assms(5)]
  have s1: "mget (br_peers b1) (e_from env) = Some s" using fr assms(3) by simp
  have dl: "deliver_all h env True [t] [] NoAck b1 = (d, st, b2) \<Longrightarrow> br_log b2 = br_log b @ ws \<and> br_audit b2 = br_audit b" for b2
  proof (cases "mget (br_peers b) t")
    case None
    assume "deliver_all h env True [t] [] NoAck b1 = (d, st, b2)"
    then show ?thesis using None fr assms(6) ack_adds [of b1 env s h UnknownTarget t, OF s1 assms(4)]
      by (auto simp: unicast_effects_def adds_def)
  next
    case (Some c)
    assume a: "deliver_all h env True [t] [] NoAck b1 = (d, st, b2)"
    let ?b = "emit (Write c (serialize env)) b1"
    have "mget (br_peers ?b) (e_from env) = Some s" using s1 by simp
    from ack_adds [of ?b, OF this assms(4)] show ?thesis using Some a fr assms(6)
      by (auto simp: unicast_effects_def adds_def try_write_def split: if_splits)
  qed
  obtain d' st' b2 where d': "deliver_all h env True [t] [] NoAck b1 = (d', st', b2)"
    using prod_cases3 by blast
  have "d' = d" "st' = st" using d' assms(6) fr
    by (auto simp: unicast_effects_def try_write_def split: option.splits if_splits)
  then have "br_log b2 = br_log b @ ws" "br_audit b2 = br_audit b" using dl d' by blast+
  moreover have "route h R env b = emit (Routed env d) (appendAudit env d st False b2)"
    using assms(1,2,5) d' \<open>d' = d\<close> \<open>st' = st\<close> by (simp add: route_def resolveTargets_def is_unicast_def)
  moreover have "same_reg b (route h R env b)" by (rule same_reg_route)
  ultimately show ?thesis by (simp add: same_reg_def)
qed

section \<open>Broadcast\<close>

lemma deliver_multicast:
  assumes "\<forall>t\<in>set ts. \<exists>c. mget (br_peers b) t = Some c \<and> \<not> h_throws h c"
  shows "\<exists>b'. deliver_all h env False ts d st b = (d @ ts, st, b') \<and>
     br_log b' = br_log b @ map (\<lambda>t. Write (the (mget (br_peers b) t)) (serialize env)) ts \<and> br_audit b' = br_audit b"
  using assms
proof (induction ts arbitrary: d b)
  case (Cons t ts)
  then obtain c where "mget (br_peers b) t = Some c" "\<not> h_throws h c" by auto
  then show ?case using Cons.IH [of "emit (Write c (serialize env)) b" "d @ [t]"] Cons.prems
    by (auto simp: try_write_def)
qed simp

text \<open>C4: a broadcast reaches the folder, the whole folder and nothing but the folder. In a state
  where the invariant holds, with no router claiming it and no socket failing, it writes the line once
  to every peer registered in the sender's directory other than the sender, to nobody
  else, and acknowledges nothing.\<close>

theorem broadcast_scope:
  assumes "broker_reachable h R' b" and "e_to env = ToName ''broadcast''"
    and "mget (br_peers b) (e_from env) = Some s" and "br_conns b s = Some ps"
    and "offer_remote R env b = (False, b1)" and "\<And>c. \<not> h_throws h c"
  shows "\<exists>ds. distinct ds \<and>
     set ds = {a. \<exists>c p. mget (br_peers b) a = Some c \<and> br_conns b c = Some p \<and> pc_cwd p = pc_cwd ps \<and> a \<noteq> e_from env} \<and>
     br_log (route h R env b) = br_log b @ map (\<lambda>a. Write (the (mget (br_peers b) a)) (serialize env)) ds @
       (if br_audit b then [Audit env ds NoAck False] else []) @ [Routed env ds]"
proof -
  note fr = offer_frame [OF assms(5)]
  have r: "reg_ok b" using broker_reachable_inv [OF assms(1)] by (simp add: broker_inv_def)
  then have wf: "mwf (br_peers b)" by (simp add: reg_ok_def)
  define ds where "ds = resolveTargets env b1"
  have conn: "\<exists>p. br_conns b c = Some p \<and> pc_address p = a" if "(a, c) \<in> set (br_peers b)" for a c
  proof -
    have "mget (br_peers b) a = Some c" using that wf by (simp add: mwf_def)
    from reg_okD [OF r this] show ?thesis by (auto simp: entry_ok_def)
  qed
  have ds: "ds = map fst (filter (\<lambda>(a, c). a \<noteq> e_from env \<and> pc_cwd (the (br_conns b c)) = pc_cwd ps) (br_peers b))"
  proof -
    have "map pc_address (filter (\<lambda>p. pc_address p \<noteq> e_from env \<and> pc_cwd p = pc_cwd ps)
             (map (\<lambda>c. the (br_conns b c)) (map snd xs))) =
          map fst (filter (\<lambda>(a, c). a \<noteq> e_from env \<and> pc_cwd (the (br_conns b c)) = pc_cwd ps) xs)"
      if "set xs \<subseteq> set (br_peers b)" for xs
      using that by (induction xs) (auto dest!: conn)
    then show ?thesis using assms(2-4) fr by (simp add: ds_def resolveTargets_def)
  qed
  have "distinct ds" using wf distinct_map_filter unfolding ds mwf_def by blast
  moreover have sd: "set ds = {a. \<exists>c p. mget (br_peers b) a = Some c \<and> br_conns b c = Some p \<and> pc_cwd p = pc_cwd ps \<and> a \<noteq> e_from env}"
  proof (intro set_eqI iffI)
    fix a assume "a \<in> set ds"
    then obtain c where c: "(a, c) \<in> set (br_peers b)" "a \<noteq> e_from env" "pc_cwd (the (br_conns b c)) = pc_cwd ps"
      by (auto simp: ds)
    then show "a \<in> {a. \<exists>c p. mget (br_peers b) a = Some c \<and> br_conns b c = Some p \<and> pc_cwd p = pc_cwd ps \<and> a \<noteq> e_from env}"
      using conn [OF c(1)] wf by (auto simp: mwf_def)
  next
    fix a assume "a \<in> {a. \<exists>c p. mget (br_peers b) a = Some c \<and> br_conns b c = Some p \<and> pc_cwd p = pc_cwd ps \<and> a \<noteq> e_from env}"
    then show "a \<in> set ds" by (force simp: ds dest: map_of_SomeD)
  qed
  moreover have "\<forall>t\<in>set ds. \<exists>c. mget (br_peers b1) t = Some c \<and> \<not> h_throws h c" using sd fr assms(6) by auto
  ultimately have "distinct ds" and "set ds = {a. \<exists>c p. mget (br_peers b) a = Some c \<and> br_conns b c = Some p \<and> pc_cwd p = pc_cwd ps \<and> a \<noteq> e_from env}"
    and ex: "\<exists>b2. deliver_all h env False ds [] NoAck b1 = (ds, NoAck, b2) \<and>
     br_log b2 = br_log b1 @ map (\<lambda>t. Write (the (mget (br_peers b1) t)) (serialize env)) ds \<and> br_audit b2 = br_audit b1"
    using deliver_multicast [of ds b1 h env "[]" NoAck] by auto
  moreover from ex obtain b2 where "deliver_all h env False ds [] NoAck b1 = (ds, NoAck, b2)"
     "br_log b2 = br_log b1 @ map (\<lambda>t. Write (the (mget (br_peers b1) t)) (serialize env)) ds" "br_audit b2 = br_audit b1"
    by blast
  ultimately show ?thesis using assms(2,5) fr
    by (intro exI [of _ ds]) (simp add: route_def is_unicast_def BROKER_NAME_def ds_def [symmetric])
qed


section \<open>Injection from another machine\<close>

text \<open>What arrives from another machine is delivered to one local peer or not at all.
  \<open>denied\<close>: nothing was written and nothing changed. \<open>received\<close>: the envelope is valid, addressed to
  a single registered peer (never the broker, never a broadcast), and that peer's socket got
  one line, which parses back to the envelope as validated. A valid
  unicast to a registered, writable peer is always received.\<close>

theorem inject_unicast_only:
  "(case injectFromRemote h env b of
      (Denied, b') \<Rightarrow> b' = b \<and>
         \<not> (\<exists>v t c. parse (serialize env) = Inr v \<and> e_to v = ToName t \<and> t \<notin> {''broadcast'', BROKER_NAME} \<and>
              mget (br_peers b) t = Some c \<and> \<not> h_throws h c)
    | (Received, b') \<Rightarrow> br_peers b' = br_peers b \<and> br_conns b' = br_conns b \<and>
        (\<exists>v t c. parse (serialize env) = Inr v \<and> e_to v = ToName t \<and> t \<notin> {''broadcast'', BROKER_NAME} \<and>
           mget (br_peers b) t = Some c \<and> parse (serialize v) = Inr v \<and>
           br_log b' = br_log b @ Write c (serialize v) #
             (if br_audit b then [Audit v [t] Received True] else []) @ [Routed v [t]])
    | _ \<Rightarrow> False)"
proof (rule inject_cases [of h env b], goal_cases)
  case 1
  moreover have "\<not> (\<exists>v t c. parse (serialize env) = Inr v \<and> e_to v = ToName t \<and> t \<notin> {''broadcast'', BROKER_NAME} \<and>
              mget (br_peers b) t = Some c \<and> \<not> h_throws h c)"
    using 1 by (auto simp: injectFromRemote_def try_write_def split: if_splits)
  ultimately show ?case by simp
next
  case (2 v t c)
  have "parse (serialize v) = Inr v" using 2(1) by (intro parse_serialize parse_wf parse_body_wf)
  moreover have "same_reg b (snd (injectFromRemote h env b))" by (rule same_reg_inject)
  ultimately show ?case using 2 by (simp add: same_reg_def)
qed

section \<open>Registering, renaming\<close>

lemma broadcast_log: "\<exists>es. br_log (broadcastSystem h body ex b) = br_log b @ es \<and> list_all (\<lambda>e. \<exists>d l. e = Write d l) es"
proof -
  have "adds_only (\<lambda>e. \<exists>d l. e = Write d l) b (fold (\<lambda>(address, c) b'. if address = ex then b'
             else snd (try_write h c (serialize (broker_env (next_uuid h b') address None body)) (tick b'))) ps b)" for ps
  proof (induction ps arbitrary: b)
    case (Cons p ps)
    obtain a c where p: "p = (a, c)" by fastforce
    have w: "adds_only (\<lambda>e. \<exists>d l. e = Write d l) b (snd (try_write h c l (tick b)))" for l
      by (rule adds_only_write_tick) simp
    show ?case using Cons.IH [of b] adds_only_trans [OF w Cons.IH] by (simp add: p)
  qed simp
  then show ?thesis by (simp add: broadcastSystem_def adds_only_def adds_def)
qed

text \<open>The effect of one \<open>register\<close> line on the registry.\<close>

lemma register_cases:
  assumes "br_conns b c = Some q"
  obtains (refused) "handleRegister h c line b = destroy_conn c b"
  | (assigned) req name cwd nm a rep b2 where
      "json_parse line = Some req" "jget req ''type'' = JStr ''register''" "jget req ''name'' = JStr name"
      "jget req ''cwd'' = JStr cwd \<or> jget req ''cwd'' = JUndef \<and> cwd = []" "isValidRegisteredCwd cwd"
      "identityForRegister (br_peers b) cwd name (jget req ''takeover'' = JBool True) = Some (nm, a, rep)"
      "b2 = (if rep then dropPeerAt a (set_conn c (q\<lparr>pc_cwd := cwd, pc_name := nm, pc_address := a\<rparr>) b)
         else set_conn c (q\<lparr>pc_cwd := cwd, pc_name := nm, pc_address := a\<rparr>) b)"
      "handleRegister h c line b = broadcastSystem h (peer_event_body ''peer_joined'' a) a
         (snd (try_write h c (serialize_jv (name_ack ''register_ack'' a nm)) (b2\<lparr>br_peers := mput a c (br_peers b2)\<rparr>)))"
proof (cases "\<exists>req name cwd nm a rep. json_parse line = Some req \<and> is_objlike req \<and> jget req ''type'' = JStr ''register'' \<and>
        jget req ''name'' = JStr name \<and>
        (if jget req ''cwd'' = JUndef then JStr [] else jget req ''cwd'') = JStr cwd \<and> isValidRegisteredCwd cwd \<and>
        identityForRegister (br_peers b) cwd name (jget req ''takeover'' = JBool True) = Some (nm, a, rep)")
  case True
  then obtain req name cwd nm a rep where g: "json_parse line = Some req" "is_objlike req"
      "jget req ''type'' = JStr ''register''" "jget req ''name'' = JStr name"
      "(if jget req ''cwd'' = JUndef then JStr [] else jget req ''cwd'') = JStr cwd" "isValidRegisteredCwd cwd"
      "identityForRegister (br_peers b) cwd name (jget req ''takeover'' = JBool True) = Some (nm, a, rep)"
    by blast
  have cw: "jget req ''cwd'' = JStr cwd \<or> jget req ''cwd'' = JUndef \<and> cwd = []"
    using g(5) by (cases "jget req ''cwd'' = JUndef") auto
  let ?b2 = "if rep then dropPeerAt a (set_conn c (q\<lparr>pc_cwd := cwd, pc_name := nm, pc_address := a\<rparr>) b)
         else set_conn c (q\<lparr>pc_cwd := cwd, pc_name := nm, pc_address := a\<rparr>) b"
  have "handleRegister h c line b = broadcastSystem h (peer_event_body ''peer_joined'' a) a
         (snd (try_write h c (serialize_jv (name_ack ''register_ack'' a nm)) (?b2\<lparr>br_peers := mput a c (br_peers ?b2)\<rparr>)))"
    using g assms by (simp add: handleRegister_def Let_def)
  then show ?thesis by (rule assigned [OF g(1,3,4) cw g(6,7) refl])
next
  case False
  have "handleRegister h c line b = destroy_conn c b"
  proof (cases "json_parse line")
    case (Some req)
    let ?cw = "if jget req ''cwd'' = JUndef then JStr [] else jget req ''cwd''"
    have idn: "identityForRegister (br_peers b) cwd name (jget req ''takeover'' = JBool True) = None"
      if "is_objlike req" "jget req ''type'' = JStr ''register''" "jget req ''name'' = JStr name" "?cw = JStr cwd"
        "isValidRegisteredCwd cwd" for name cwd
    proof (rule ccontr)
      assume "\<not> ?thesis"
      then obtain nm a rep where "identityForRegister (br_peers b) cwd name (jget req ''takeover'' = JBool True) = Some (nm, a, rep)"
        by (metis not_Some_eq prod_cases3)
      then show False using False Some that by blast
    qed
    show ?thesis
    proof (cases "is_objlike req \<and> jget req ''type'' = JStr ''register''")
      case True
      note t = this
      show ?thesis
      proof (cases "jget req ''name''")
        case (JStr name)
        then show ?thesis using Some t idn [of name] by (cases ?cw) (simp_all add: handleRegister_def)
      qed (use Some in \<open>simp_all add: handleRegister_def\<close>)
    qed (use Some in \<open>simp add: handleRegister_def\<close>)
  qed (simp add: handleRegister_def)
  then show ?thesis by (rule refused)
qed

text \<open>C5: registering displaces nobody by accident. If a peer that was filed under an address is no
  longer filed under it after somebody else's \<open>register\<close> line, then that line asked for a takeover, gave a
  non-empty directory, and composes to exactly that address; the newcomer now holds the
  address and the displaced socket is destroyed. All other entries are as before.\<close>

theorem register_displaces_only_takeover:
  assumes "broker_reachable h' R' b" and "br_conns b c = Some q" and "pc_name q = []"
    and "mget (br_peers b) a = Some d" and "mget (br_peers (handleRegister h c line b)) a \<noteq> Some d"
  shows "\<exists>req name cwd p. json_parse line = Some req \<and> jget req ''takeover'' = JBool True \<and>
     jget req ''name'' = JStr name \<and> jget req ''cwd'' = JStr cwd \<and> cwd \<noteq> [] \<and>
     a = compose_address None cwd (sanitize_mesh_name name) \<and>
     mget (br_peers (handleRegister h c line b)) a = Some c \<and>
     br_conns (handleRegister h c line b) d = Some p \<and> pc_destroyed p \<and>
     (\<forall>x. x \<noteq> a \<longrightarrow> mget (br_peers (handleRegister h c line b)) x = mget (br_peers b) x)"
proof -
  have r: "reg_ok b" using broker_reachable_inv [OF assms(1)] by (simp add: broker_inv_def)
  have dc: "d \<noteq> c" using unfiled_unnamed [OF r assms(2,3), of a] assms(4) by auto
  obtain pd where pd: "br_conns b d = Some pd" using reg_okD [OF r assms(4)] by (auto simp: entry_ok_def)
  show ?thesis
    using assms(2)
  proof (cases rule: register_cases [where h = h and line = line])
    case refused
    then show ?thesis using assms(4,5) by simp
  next
    case (assigned req name cwd nm a' rep b2)
    have sr: "same_reg (b2\<lparr>br_peers := mput a' c (br_peers b2)\<rparr>) (handleRegister h c line b)"
      unfolding assigned(8) by (rule same_reg_trans [OF same_reg_write same_reg_broadcast])
    then have peers: "br_peers (handleRegister h c line b) = mput a' c (br_peers b2)"
      and conns: "br_conns (handleRegister h c line b) = br_conns b2" by (simp_all add: same_reg_def)
    have b2p: "mget (br_peers b2) x = mget (br_peers b) x" if "x \<noteq> a'" for x
      using that by (simp add: assigned(7) dropPeerAt_simps)
    then have aa: "a = a'" using assms(4,5) peers by (metis mget_put)
    then have rep: rep using assms(4) identity_Some(4) [OF assigned(6)] by (simp add: mhas_def)
    from identity_Some(5) [OF assigned(6) rep] have tk: "jget req ''takeover'' = JBool True" "cwd \<noteq> []" "nm = sanitize_mesh_name name"
      by simp_all
    have "\<exists>p. br_conns b2 d = Some p \<and> pc_destroyed p"
      using dc pd rep assms(4) by (simp add: assigned(7) dropPeerAt_simps aa)
    then show ?thesis using assigned(1,3,4) tk identity_Some(1) [OF assigned(6)] peers conns b2p aa by auto
  qed
qed


section \<open>Chunks\<close>

text \<open>Overwriting the buffer of one connection commutes with everything the broker does with a line.\<close>

definition with_buf :: "nat \<Rightarrow> string \<Rightarrow> 'r broker \<Rightarrow> 'r broker" where
  "with_buf c r b = b\<lparr>br_conns := (br_conns b)(c := map_option (\<lambda>p. p\<lparr>pc_buf := r\<rparr>) (br_conns b c))\<rparr>"

named_theorems buf \<open>operations that commute with overwriting a buffer\<close>

lemma with_buf_fields [buf]:
  "br_peers (with_buf c r b) = br_peers b" "br_log (with_buf c r b) = br_log b" "br_uuids (with_buf c r b) = br_uuids b"
  "br_router (with_buf c r b) = br_router b" "br_audit (with_buf c r b) = br_audit b"
  "br_orphaned (with_buf c r b) = br_orphaned b"
  by (simp_all add: with_buf_def)

lemma with_buf_conns:
  "br_conns (with_buf c r b) d = (if d = c then map_option (\<lambda>p. p\<lparr>pc_buf := r\<rparr>) (br_conns b c) else br_conns b d)"
  by (simp add: with_buf_def)

lemma with_buf_the [buf]:
  "pc_cwd (the (br_conns (with_buf c r b) d)) = pc_cwd (the (br_conns b d))"
  "pc_address (the (br_conns (with_buf c r b) d)) = pc_address (the (br_conns b d))"
  "conn_info (the (br_conns (with_buf c r b) d)) = conn_info (the (br_conns b d))"
  by (cases "br_conns b d"; auto simp: with_buf_def conn_info_def)+

lemma with_buf_basic [buf]:
  "tick (with_buf c r b) = with_buf c r (tick b)" "emit e (with_buf c r b) = with_buf c r (emit e b)"
  "next_uuid h (with_buf c r b) = next_uuid h b"
  "try_write h d l (with_buf c r b) = (fst (try_write h d l b), with_buf c r (snd (try_write h d l b)))"
  "(with_buf c r b)\<lparr>br_peers := m\<rparr> = with_buf c r (b\<lparr>br_peers := m\<rparr>)"
  "(with_buf c r b)\<lparr>br_router := x\<rparr> = with_buf c r (b\<lparr>br_router := x\<rparr>)"
  by (simp_all add: with_buf_def tick_def emit_def next_uuid_def try_write_def)

lemma with_buf_destroy [buf]: "destroy_conn d (with_buf c r b) = with_buf c r (destroy_conn d b)"
  by (cases "br_conns b c") (auto simp: destroy_conn_def with_buf_def emit_def fun_eq_iff)

lemma with_buf_names [buf]:
  "allPeerNames R (with_buf c r b) = (fst (allPeerNames R b), with_buf c r (snd (allPeerNames R b)))"
  "allPeerInfos R (with_buf c r b) = (fst (allPeerInfos R b), with_buf c r (snd (allPeerInfos R b)))"
  by (auto simp: allPeerNames_def allPeerInfos_def peerNames_def localPeerInfos_def buf split: option.splits prod.splits)

lemma with_buf_ack [buf]: "sendAckToSender h env st t (with_buf c r b) = with_buf c r (sendAckToSender h env st t b)"
  by (simp add: sendAckToSender_def buf split: option.splits)

lemma with_buf_broadcast [buf]: "broadcastSystem h body ex (with_buf c r b) = with_buf c r (broadcastSystem h body ex b)"
proof -
  let ?f = "\<lambda>(address, d) b'. if address = ex then b'
             else snd (try_write h d (serialize (broker_env (next_uuid h b') address None body)) (tick b'))"
  have "fold ?f ps (with_buf c r b) = with_buf c r (fold ?f ps b)" for ps
    by (induction ps arbitrary: b) (simp_all add: buf split: prod.splits)
  then show ?thesis by (simp add: broadcastSystem_def buf)
qed

lemma with_buf_deliver [buf]:
  "deliver_all h env uni ts d st (with_buf c r b) =
     (let (d', st', b') = deliver_all h env uni ts d st b in (d', st', with_buf c r b'))"
proof (induction ts arbitrary: d st b)
  case (Cons t ts)
  show ?case
  proof (cases "mget (br_peers b) t")
    case None
    then show ?thesis using Cons by (cases uni) (simp_all add: buf)
  next
    case (Some e)
    obtain ok b' where "try_write h e (serialize env) b = (ok, b')" by fastforce
    then show ?thesis using Some Cons by (cases uni; cases ok) (simp_all add: buf)
  qed
qed simp

lemma with_buf_offer [buf]:
  "offer_remote R env (with_buf c r b) = (fst (offer_remote R env b), with_buf c r (snd (offer_remote R env b)))"
proof -
  have w: "exact_windows_local to (with_buf c r b) = exact_windows_local to b" for to
    by (simp add: exact_windows_local_def buf split: option.split)
  show ?thesis
  proof (cases "e_to env")
    case (ToName to)
    then show ?thesis
      by (cases "br_router b") (auto simp: offer_remote_def w buf case_prod_beta Let_def)
  qed (simp add: offer_remote_def)
qed

lemma with_buf_route [buf]: "route h R env (with_buf c r b) = with_buf c r (route h R env b)"
proof -
  have m: "handleBrokerMessage h R env (with_buf c r b) = with_buf c r (handleBrokerMessage h R env b)"
  proof -
    obtain ns b1 where 1: "allPeerNames R (tick b) = (ns, b1)" by fastforce
    obtain ps b2 where 2: "allPeerInfos R b1 = (ps, b2)" by fastforce
    show ?thesis using 1 2
      by (simp add: handleBrokerMessage_def with_buf_basic with_buf_names with_buf_fields Let_def split: option.split)
  qed
  have t: "resolveTargets env (with_buf c r b) = resolveTargets env b" for b
    by (simp add: resolveTargets_def buf filter_map comp_def split: dest.splits option.splits)
  have a: "appendAudit env d st v (with_buf c r b) = with_buf c r (appendAudit env d st v b)" for d st v b
    by (simp add: appendAudit_def buf)
  obtain cl b1 where 1: "offer_remote R env b = (cl, b1)" by fastforce
  obtain d st b2 where 2: "deliver_all h env (is_unicast env) (resolveTargets env b1) [] NoAck b1 = (d, st, b2)"
    using prod_cases3 by blast
  show ?thesis using 1 2 by (simp add: route_def m t a buf)
qed

lemma with_buf_probes [buf]:
  "tryBrokerPing h d l (with_buf c r b) = (fst (tryBrokerPing h d l b), with_buf c r (snd (tryBrokerPing h d l b)))"
  "tryObserverProbe h R d l (with_buf c r b) = (fst (tryObserverProbe h R d l b), with_buf c r (snd (tryObserverProbe h R d l b)))"
proof -
  obtain ns b1 where 1: "allPeerNames R (tick b) = (ns, b1)" by fastforce
  obtain ps b2 where 2: "allPeerInfos R b1 = (ps, b2)" by fastforce
  show "tryObserverProbe h R d l (with_buf c r b) = (fst (tryObserverProbe h R d l b), with_buf c r (snd (tryObserverProbe h R d l b)))"
    using 1 2 by (simp add: tryObserverProbe_def with_buf_basic with_buf_names Let_def)
  show "tryBrokerPing h d l (with_buf c r b) = (fst (tryBrokerPing h d l b), with_buf c r (snd (tryBrokerPing h d l b)))"
    by (simp add: tryBrokerPing_def with_buf_basic)
qed

lemma with_buf_set_conn: "set_conn c (p\<lparr>pc_buf := r\<rparr>) (with_buf c r b) = with_buf c r (set_conn c p b)"
  by (simp add: with_buf_def set_conn_def)

lemma with_buf_drop [buf]: "dropPeerAt a (with_buf c r b) = with_buf c r (dropPeerAt a b)"
proof (cases "mget (br_peers b) a")
  case (Some d)
  have "(with_buf c r b)\<lparr>br_peers := mdel a (br_peers b),
       br_conns := (br_conns (with_buf c r b))(d := map_option (\<lambda>p. p\<lparr>pc_address := []\<rparr>) (br_conns (with_buf c r b) d))\<rparr> =
     with_buf c r (b\<lparr>br_peers := mdel a (br_peers b),
       br_conns := (br_conns b)(d := map_option (\<lambda>p. p\<lparr>pc_address := []\<rparr>) (br_conns b d))\<rparr>)"
    by (cases "br_conns b c") (auto simp: with_buf_def fun_eq_iff)
  then show ?thesis using Some by (simp add: dropPeerAt_def buf)
qed (simp add: dropPeerAt_def buf)


lemma with_buf_set_conn_other [buf]: "d \<noteq> c \<Longrightarrow> set_conn d p (with_buf c r b) = with_buf c r (set_conn d p b)"
  by (simp add: with_buf_def set_conn_def fun_upd_twist)

text \<open>Writing back an updated copy of the record of a connection.\<close>

lemma with_buf_set_upd:
  assumes "br_conns b d = Some q" and "\<And>p. f (p\<lparr>pc_buf := r\<rparr>) = (f p)\<lparr>pc_buf := r\<rparr>"
  shows "set_conn d (f (the (br_conns (with_buf c r b) d))) (with_buf c r b) = with_buf c r (set_conn d (f q) b)"
  using assms by (cases "d = c") (simp_all add: with_buf_def set_conn_def fun_upd_twist)

text \<open>The handler in two stages: the request as validated, then the assignment.\<close>

definition register_request :: "string \<Rightarrow> (string \<times> string \<times> bool) option" where
  "register_request line =
     (case json_parse line of
        None \<Rightarrow> None
      | Some req \<Rightarrow>
          if \<not> is_objlike req \<or> jget req ''type'' \<noteq> JStr ''register'' then None
          else (case jget req ''name'' of
             JStr name \<Rightarrow>
               (case (if jget req ''cwd'' = JUndef then JStr [] else jget req ''cwd'') of
                  JStr cwd \<Rightarrow>
                    if \<not> isValidRegisteredCwd cwd then None
                    else Some (name, cwd, jget req ''takeover'' = JBool True)
                | _ \<Rightarrow> None)
           | _ \<Rightarrow> None))"

definition register_as :: "host \<Rightarrow> nat \<Rightarrow> peer_conn \<Rightarrow> string \<Rightarrow> string \<times> string \<times> bool \<Rightarrow> 'r broker \<Rightarrow> 'r broker" where
  "register_as h c q cwd i b =
     (case i of (nm, a, rep) \<Rightarrow>
       (let b1 = set_conn c (q\<lparr>pc_cwd := cwd, pc_name := nm, pc_address := a\<rparr>) b;
            b2 = (if rep then dropPeerAt a b1 else b1);
            b3 = b2\<lparr>br_peers := mput a c (br_peers b2)\<rparr>
        in broadcastSystem h (peer_event_body ''peer_joined'' a) a
             (snd (try_write h c (serialize_jv (name_ack ''register_ack'' a nm)) b3))))"

lemma handleRegister_stages:
  "handleRegister h c line b =
     (case register_request line of
        None \<Rightarrow> destroy_conn c b
      | Some (name, cwd, tk) \<Rightarrow>
          (case identityForRegister (br_peers b) cwd name tk of
             None \<Rightarrow> destroy_conn c b
           | Some i \<Rightarrow> register_as h c (the (br_conns b c)) cwd i b))"
proof (cases "json_parse line")
  case (Some req)
  let ?cw = "if jget req ''cwd'' = JUndef then JStr [] else jget req ''cwd''"
  show ?thesis
  proof (cases "is_objlike req \<and> jget req ''type'' = JStr ''register''")
    case True
    show ?thesis
    proof (cases "jget req ''name''")
      case (JStr name)
      note n = this
      show ?thesis
      proof (cases ?cw)
        case (JStr cwd)
        show ?thesis
        proof (cases "identityForRegister (br_peers b) cwd name (jget req ''takeover'' = JBool True)")
          case None
          then show ?thesis using Some True n JStr by (simp add: handleRegister_def register_request_def)
        next
          case i: (Some i)
          then show ?thesis using Some True n JStr
            by (cases i) (simp add: handleRegister_def register_request_def register_as_def Let_def)
        qed
      qed (use Some True n in \<open>simp_all add: handleRegister_def register_request_def\<close>)
    qed (use Some True in \<open>simp_all add: handleRegister_def register_request_def\<close>)
  qed (use Some in \<open>auto simp: handleRegister_def register_request_def\<close>)
qed (simp add: handleRegister_def register_request_def)

lemma with_buf_register_as:
  assumes "br_conns b d = Some q"
  shows "register_as h d (the (br_conns (with_buf c r b) d)) cwd i (with_buf c r b) =
      with_buf c r (register_as h d q cwd i b)"
proof -
  obtain nm a rep where i: "i = (nm, a, rep)" by (cases i)
  define b1 where "b1 = set_conn d (q\<lparr>pc_cwd := cwd, pc_name := nm, pc_address := a\<rparr>) b"
  have 1: "set_conn d ((the (br_conns (with_buf c r b) d))\<lparr>pc_cwd := cwd, pc_name := nm, pc_address := a\<rparr>) (with_buf c r b)
      = with_buf c r b1"
    unfolding b1_def by (rule with_buf_set_upd [OF assms]) simp
  define b2 where "b2 = (if rep then dropPeerAt a b1 else b1)"
  have 2: "(if rep then dropPeerAt a (with_buf c r b1) else with_buf c r b1) = with_buf c r b2"
    by (simp add: b2_def with_buf_drop)
  show ?thesis
    by (simp only: register_as_def i prod.case Let_def 1 2 b1_def [symmetric] b2_def [symmetric]
        with_buf_fields with_buf_basic snd_conv with_buf_broadcast)
qed

lemma with_buf_register:
  assumes "br_conns b d = Some q"
  shows "handleRegister h d line (with_buf c r b) = with_buf c r (handleRegister h d line b)"
  by (simp add: handleRegister_stages with_buf_register_as [OF assms] with_buf_fields with_buf_destroy assms
      split: option.split)


lemma with_buf_rename_ack [buf]: "sendRenameAck h d n a (with_buf c r b) = with_buf c r (sendRenameAck h d n a b)"
  by (simp add: sendRenameAck_def with_buf_basic)

text \<open>A rename writes back the caller's copy of the record, so it is taken with its buffer.\<close>

lemma with_buf_rename:
  assumes "br_conns b d = Some q"
  shows "handleRename h d (the (br_conns (with_buf c r b) d)) msg (with_buf c r b) = with_buf c r (handleRename h d q msg b)"
proof -
  let ?q = "the (br_conns (with_buf c r b) d)"
  have q: "pc_name ?q = pc_name q" "pc_address ?q = pc_address q" "pc_cwd ?q = pc_cwd q"
    using assms by (cases "d = c"; simp add: with_buf_conns)+
  define b1 where "b1 = b\<lparr>br_peers := mdel (pc_address q) (br_peers b)\<rparr>"
  have b1: "(with_buf c r b)\<lparr>br_peers := mdel (pc_address q) (br_peers b)\<rparr> = with_buf c r b1"
    by (simp add: b1_def with_buf_basic)
  have set1: "set_conn d (?q\<lparr>pc_name := n, pc_address := a\<rparr>) (with_buf c r b1) = with_buf c r (set_conn d (q\<lparr>pc_name := n, pc_address := a\<rparr>) b1)" for n a
  proof -
    have "br_conns b1 d = Some q" "the (br_conns (with_buf c r b1) d) = ?q" using assms by (simp_all add: b1_def with_buf_conns)
    with with_buf_set_upd [OF this(1), of "\<lambda>p. p\<lparr>pc_name := n, pc_address := a\<rparr>" r c] show ?thesis by simp
  qed
  show ?thesis
  proof (cases "jget msg ''name''")
    case (JStr name)
    then show ?thesis
      by (cases "identityForRegister (br_peers b1) (pc_cwd q) name False")
        (auto simp: handleRename_def q b1 b1_def [symmetric] with_buf_fields with_buf_rename_ack with_buf_basic set1 with_buf_broadcast)
  qed (simp_all add: handleRename_def q with_buf_rename_ack)
qed

lemma handleLine_with_buf: "handleLine h R d line (with_buf c r b) = with_buf c r (handleLine h R d line b)"
proof (cases "br_conns b d")
  case None
  then have "br_conns (with_buf c r b) d = None" by (cases "d = c") (simp_all add: with_buf_conns)
  then show ?thesis using None by (simp add: handleLine_def)
next
  case (Some q)
  obtain q' where q': "br_conns (with_buf c r b) d = Some q'" "pc_name q' = pc_name q" "pc_address q' = pc_address q"
    using Some by (cases "d = c") (auto simp: with_buf_conns)
  show ?thesis
  proof (cases "pc_name q = []")
    case True
    obtain x b1 where 1: "tryBrokerPing h d line b = (x, b1)" by fastforce
    obtain y b2 where 2: "tryObserverProbe h R d line b1 = (y, b2)" by fastforce
    have "same_reg b b2"
      using same_reg_trans [OF same_reg_ping same_reg_observer, of b h R d line] 1 2
        same_reg_ping [of b h d line] same_reg_observer [of b1 h R d line] same_reg_trans by (metis snd_conv)
    then have "br_conns b2 d = Some q" using Some by (simp add: same_reg_def)
    from with_buf_register [OF this] show ?thesis using Some True q' 1 2
      by (simp add: handleLine_def with_buf_probes)
  next
    case False
    then show ?thesis using Some q' with_buf_rename [OF Some, of h c r "the (json_parse line)"]
      by (simp add: handleLine_def with_buf_route split: sum.split)
  qed
qed

lemma lines_with_buf: "fold (handleLine h R d) ls (with_buf c r b) = with_buf c r (fold (handleLine h R d) ls b)"
  by (induction ls arbitrary: b) (simp_all add: handleLine_with_buf)


lemma handleLine_conn:
  assumes "br_conns b c = Some p"
  shows "\<exists>p'. br_conns (handleLine h R c line b) c = Some p'"
proof -
  have s: "\<exists>p'. br_conns b'' c = Some p'" if "same_reg b' b''" "\<exists>p'. br_conns b' c = Some p'" for b' b'' :: "'r broker"
    using that by (simp add: same_reg_def)
  have reg: "\<exists>p'. br_conns (handleRegister h c line b') c = Some p'" if "br_conns b' c = Some q" for b' :: "'r broker" and q
    using that
  proof (cases rule: register_cases [where h = h and line = line])
    case (assigned req name cwd nm a rep b2)
    then show ?thesis
      by (simp only: assigned(8), intro s [OF same_reg_trans [OF same_reg_write same_reg_broadcast]])
        (auto simp: assigned(7) dropPeerAt_simps)
  qed (use that in simp)
  have ren: "\<exists>p'. br_conns (handleRename h c p msg b) c = Some p'" for msg
    using assms by (auto simp: handleRename_def Let_def reg_frame split: jv.split option.split)
  obtain x b1 where 1: "tryBrokerPing h c line b = (x, b1)" by fastforce
  obtain y b2 where 2: "tryObserverProbe h R c line b1 = (y, b2)" by fastforce
  have "same_reg b b1" "same_reg b1 b2"
    using same_reg_ping [of b h c line] same_reg_observer [of b1 h R c line] 1 2 by simp_all
  then have "br_conns b1 c = Some p" "br_conns b2 c = Some p" using assms by (simp_all add: same_reg_def)
  then show ?thesis using assms 1 2 reg [of b2] ren s [OF same_reg_route [of b]]
    by (auto simp: handleLine_def split: sum.split)
qed

lemma lines_conn: "br_conns b c = Some p \<Longrightarrow> \<exists>p'. br_conns (fold (handleLine h R c) ls b) c = Some p'"
proof (induction ls arbitrary: b p)
  case (Cons l ls)
  obtain p' where "br_conns (handleLine h R c l b) c = Some p'" using handleLine_conn [OF Cons.prems] by blast
  from Cons.IH [OF this] show ?case by simp
qed simp

text \<open>Handling a buffer in one go or in two.\<close>

lemma onData_append:
  "onData h R c (x @ y) b = onData h R c y (onData h R c x b)"
proof (cases "br_conns b c")
  case (Some p)
  obtain l1 r1 where 1: "take_lines (pc_buf p @ x) = (l1, r1)" by fastforce
  obtain l2 r2 where 2: "take_lines (r1 @ y) = (l2, r2)" by fastforce
  have 12: "take_lines (pc_buf p @ x @ y) = (l1 @ l2, r2)"
    using take_lines_append [of "pc_buf p @ x" y] 1 2 by simp
  define b0 where "b0 = set_conn c (p\<lparr>pc_buf := r1\<rparr>) b"
  define b1 where "b1 = fold (handleLine h R c) l1 b0"
  have w0: "with_buf c r b0 = set_conn c (p\<lparr>pc_buf := r\<rparr>) b" for r
    by (simp add: b0_def with_buf_def set_conn_def)
  then have "b1 = with_buf c r1 b1" using lines_with_buf [of h R c l1 c r1 b0] by (simp add: b1_def b0_def)
  moreover obtain p1 where p1: "br_conns b1 c = Some p1"
    using lines_conn [of b0 c "p\<lparr>pc_buf := r1\<rparr>" h R l1] by (auto simp: b1_def b0_def)
  ultimately have buf: "pc_buf p1 = r1" by (metis with_buf_conns option.inject option.map(2) peer_conn.select_convs(4) peer_conn.surjective peer_conn.update_convs(4))
  have "set_conn c (p1\<lparr>pc_buf := r2\<rparr>) b1 = with_buf c r2 b1" using p1 by (simp add: with_buf_def set_conn_def)
  then have "onData h R c y b1 = fold (handleLine h R c) l2 (with_buf c r2 b1)"
    using p1 buf 2 by (simp add: onData_def)
  moreover have "onData h R c (x @ y) b = fold (handleLine h R c) l2 (fold (handleLine h R c) l1 (with_buf c r2 b0))"
    using Some 12 by (simp add: onData_def w0)
  moreover have "onData h R c x b = b1" using Some 1 by (simp add: onData_def b1_def b0_def)
  ultimately show ?thesis by (simp add: lines_with_buf b1_def)
qed (simp add: onData_def)


text \<open>A socket that was destroyed delivers no more data: a chunk reaches \<open>onData\<close> on a live
  connection only.\<close>

definition live_conn :: "nat \<Rightarrow> 'r broker \<Rightarrow> bool" where
  "live_conn c b \<longleftrightarrow> (case br_conns b c of None \<Rightarrow> False | Some p \<Rightarrow> \<not> pc_destroyed p)"

definition receive :: "host \<Rightarrow> 'r router_ops \<Rightarrow> nat \<Rightarrow> string \<Rightarrow> 'r broker \<Rightarrow> 'r broker" where
  "receive h R c chunk b = (if live_conn c b then onData h R c chunk b else b)"

text \<open>C6: the broker does not depend on how the transport cuts the stream. Let a stream arrive on a
  connection in any number of chunks, cut anywhere, in the middle of a line or of a registration.
  As long as the connection is still live when the last chunk comes, the state and the effects are
  exactly those of the whole stream in one chunk. The condition is needed: a line the broker
  answers by destroying the socket silences the chunks after it, while the lines behind it in the
  same chunk are still handled (\<open>destroyed_still_registers\<close> in \<open>BrokerRuns\<close>).\<close>

theorem chunks_equivalent:
  assumes "xs \<noteq> []" and "live_conn c (fold (receive h R c) (butlast xs) b)"
  shows "fold (receive h R c) xs b = receive h R c (concat xs) b"
  using assms
proof (induction xs rule: rev_induct)
  case (snoc y xs)
  show ?case
  proof (cases "xs = []")
    case False
    define b1 where "b1 = fold (receive h R c) xs b"
    have l1: "live_conn c b1" using snoc.prems(2) by (simp add: b1_def)
    have dead: "\<not> live_conn c d \<Longrightarrow> fold (receive h R c) zs d = d" for zs and d :: "'a broker"
      by (induction zs) (simp_all add: receive_def)
    have "b1 = receive h R c (last xs) (fold (receive h R c) (butlast xs) b)"
      unfolding b1_def by (subst append_butlast_last_id [OF False, symmetric]) (simp del: append_butlast_last_id)
    then have "live_conn c (fold (receive h R c) (butlast xs) b)" using l1 by (auto simp: receive_def split: if_splits)
    from snoc.IH [OF False this] have "b1 = receive h R c (concat xs) b" by (simp add: b1_def)
    moreover have "live_conn c b" using l1 dead [of b xs] unfolding b1_def by metis
    ultimately have b1: "b1 = onData h R c (concat xs) b" and lb: "live_conn c b" by (simp_all add: receive_def)
    have "fold (receive h R c) (xs @ [y]) b = onData h R c y b1" using l1 by (simp add: b1_def [symmetric]) (simp add: receive_def)
    also have "\<dots> = receive h R c (concat (xs @ [y])) b" by (simp add: b1 lb onData_append receive_def)
    finally show ?thesis .
  qed simp
qed simp


section \<open>The registry in every reachable state\<close>

text \<open>C1: in every state a broker can reach, from its start through any sequence of connections, chunks
  of input, closings, injections and router changes, the registry is sound. No address occurs
  twice and no connection holds two addresses; there are at most 1024 entries; each entry's
  connection carries that very address, which is the encoding of its directory and its name, within the
  wire limits; and a live connection that has a name can be reached under its address.\<close>

theorem registry_sound:
  assumes "broker_reachable h R b"
  shows "distinct (mkeys (br_peers b)) \<and> distinct (mvals (br_peers b)) \<and> length (br_peers b) \<le> 1024 \<and>
    (\<forall>a c. mget (br_peers b) a = Some c \<longrightarrow> (\<exists>p. br_conns b c = Some p \<and> pc_address p = a \<and>
       a = compose_address None (pc_cwd p) (pc_name p) \<and> isValidRegisteredCwd (pc_cwd p) \<and>
       isBoundedPeerInfo (peer_info_jv (conn_info p)))) \<and>
    (\<forall>c p. br_conns b c = Some p \<and> \<not> pc_destroyed p \<and> pc_name p \<noteq> [] \<longrightarrow> mget (br_peers b) (pc_address p) = Some c)"
proof -
  have inv: "broker_inv b" by (rule broker_reachable_inv [OF assms])
  then have r: "reg_ok b" by (simp add: broker_inv_def)
  have "distinct (mvals (br_peers b))"
  proof -
    have k: "distinct (mkeys (br_peers b))" using r by (simp add: reg_ok_def mwf_def)
    have "inj_on snd (set (br_peers b))"
    proof (rule inj_onI)
      fix x y assume xy: "x \<in> set (br_peers b)" "y \<in> set (br_peers b)" "snd x = snd y"
      then have "mget (br_peers b) (fst x) = Some (snd x)" "mget (br_peers b) (fst y) = Some (snd x)"
        using k xy by (metis map_of_is_SomeI prod.collapse)+
      then have "fst x = fst y" by (rule entry_ok_unique [OF r])
      then show "x = y" using xy(3) by (rule prod_eqI)
    qed
    then show ?thesis using k by (simp add: distinct_map)
  qed
  moreover have "mget (br_peers b) (pc_address p) = Some c"
    if "br_conns b c = Some p \<and> \<not> pc_destroyed p \<and> pc_name p \<noteq> []" for c p
    using inv that by (auto simp: broker_inv_def live_ok_def filed_def)
  moreover have "distinct (mkeys (br_peers b))" "length (br_peers b) \<le> 1024"
    using r by (simp_all add: reg_ok_def mwf_def MAX_PEERS_UPDATE_ENTRIES_def)
  moreover have "\<exists>p. br_conns b c = Some p \<and> pc_address p = a \<and> a = compose_address None (pc_cwd p) (pc_name p) \<and>
      isValidRegisteredCwd (pc_cwd p) \<and> isBoundedPeerInfo (peer_info_jv (conn_info p))"
    if "mget (br_peers b) a = Some c" for a c
    using reg_okD [OF r that] unfolding entry_ok_def by blast
  ultimately show ?thesis by blast
qed

section \<open>Renaming\<close>

text \<open>A rename moves the peer's own entry and no other. Afterwards the peer is filed under exactly one
  address \<open>a\<close>, which is either the old one or one nobody held; the old address is free unless it was
  kept; every other entry is as before, and no other connection was touched. The
  line that answers it carries the name and address in force.\<close>

theorem rename_moves_own_entry:
  assumes "broker_reachable h' R' b" and "br_conns b c = Some p" and "mget (br_peers b) (pc_address p) = Some c"
    and "\<not> h_throws h c"
  shows "\<exists>nm a es. mget (br_peers (handleRename h c p msg b)) a = Some c \<and>
     br_conns (handleRename h c p msg b) c = Some (p\<lparr>pc_name := nm, pc_address := a\<rparr>) \<and>
     (a \<noteq> pc_address p \<longrightarrow> mget (br_peers b) a = None \<and> mget (br_peers (handleRename h c p msg b)) (pc_address p) = None) \<and>
     (\<forall>x. x \<notin> {a, pc_address p} \<longrightarrow> mget (br_peers (handleRename h c p msg b)) x = mget (br_peers b) x) \<and>
     (\<forall>d. d \<noteq> c \<longrightarrow> br_conns (handleRename h c p msg b) d = br_conns b d) \<and>
     br_log (handleRename h c p msg b) = br_log b @ es @ [Write c (serialize_jv (name_ack ''rename_ack'' a nm))]"
proof -
  have ackd: "br_log (sendRenameAck h c n a b') = br_log b' @ [Write c (serialize_jv (name_ack ''rename_ack'' a n))]" for n a and b' :: "'r broker"
    using assms(4) by (simp add: sendRenameAck_def try_write_def)
  have same: ?thesis if "handleRename h c p msg b = sendRenameAck h c (pc_name p) (pc_address p) b0"
      "\<And>x. mget (br_peers b0) x = mget (br_peers b) x" "br_conns b0 = br_conns b" "br_log b0 = br_log b" for b0
    by (rule exI [of _ "pc_name p"], rule exI [of _ "pc_address p"], rule exI [of _ "[]"])
      (use assms that in \<open>simp add: reg_frame ackd\<close>)
  show ?thesis
  proof (cases "\<exists>name. jget msg ''name'' = JStr name \<and> name \<noteq> []")
    case False
    then have "handleRename h c p msg b = sendRenameAck h c (pc_name p) (pc_address p) b"
      by (auto simp: handleRename_def split: jv.split)
    then show ?thesis by (rule same) simp_all
  next
    case True
    then obtain name where n: "jget msg ''name'' = JStr name" "name \<noteq> []" by blast
    define b1 where "b1 = b\<lparr>br_peers := mdel (pc_address p) (br_peers b)\<rparr>"
    show ?thesis
    proof (cases "identityForRegister (br_peers b1) (pc_cwd p) name False")
      case None
      show ?thesis
        by (rule same [of "b1\<lparr>br_peers := mput (pc_address p) c (br_peers b1)\<rparr>"])
          (use n None assms(3) in \<open>auto simp: handleRename_def b1_def\<close>)
    next
      case (Some i)
      obtain nm a rep where i: "i = (nm, a, rep)" by (cases i)
      note idt = Some [unfolded i]
      have free: "\<not> mhas (br_peers b1) a" using identity_Some(4,5) [OF idt] by blast
      define b3 where "b3 = (set_conn c (p\<lparr>pc_name := nm, pc_address := a\<rparr>) b1)\<lparr>br_peers := mput a c (br_peers b1)\<rparr>"
      define b5 where "b5 = broadcastSystem h (peer_event_body ''peer_joined'' a) a
            (broadcastSystem h (peer_event_body ''peer_left'' (pc_address p)) a b3)"
      have res: "handleRename h c p msg b = sendRenameAck h c nm a b5"
        using n idt by (simp add: handleRename_def b1_def [symmetric] b3_def b5_def Let_def)
      obtain e1 where e1: "br_log (broadcastSystem h (peer_event_body ''peer_left'' (pc_address p)) a b3) = br_log b3 @ e1"
        using broadcast_log by blast
      obtain e2 where e2: "br_log b5 = br_log (broadcastSystem h (peer_event_body ''peer_left'' (pc_address p)) a b3) @ e2"
        using broadcast_log unfolding b5_def by blast
      have log: "br_log (handleRename h c p msg b) = br_log b @ (e1 @ e2) @ [Write c (serialize_jv (name_ack ''rename_ack'' a nm))]"
        by (simp add: res ackd e1 e2) (simp add: b3_def b1_def set_conn_def)
      have peers: "br_peers (handleRename h c p msg b) = mput a c (br_peers b1)"
        and conns: "br_conns (handleRename h c p msg b) = (br_conns b)(c \<mapsto> p\<lparr>pc_name := nm, pc_address := a\<rparr>)"
        by (simp_all add: res reg_frame b5_def b3_def b1_def set_conn_def)
      show ?thesis
        by (rule exI [of _ nm], rule exI [of _ a], rule exI [of _ "e1 @ e2"])
          (use free in \<open>auto simp: peers conns log b1_def mhas_def\<close>)
    qed
  qed
qed

section \<open>A displaced broker\<close>

text \<open>\<open>orphan\<close> clears the registry and destroys every registered peer, and what connects later is destroyed on
  arrival; but it does not touch a connection that was accepted before and has not registered yet. Such
  a connection still gets itself filed in the displaced registry with its next line.\<close>

theorem orphan_leaves_pending:
  assumes "broker_reachable h' R' b" and "br_conns b c = Some p" and "pc_name p = []" and "\<not> pc_destroyed p"
  shows "br_peers (orphan b) = [] \<and> br_conns (orphan b) c = Some p \<and> br_orphaned (orphan b) \<and>
    mget (br_peers (handleRegister h c (serialize_jv (JObj [(''type'', JStr ''register''), (''name'', JStr ''x'')])) (orphan b))) ''x'' = Some c"
proof -
  have r: "reg_ok b" using broker_reachable_inv [OF assms(1)] by (simp add: broker_inv_def)
  have "c \<notin> set (mvals (br_peers b))"
  proof
    assume "c \<in> set (mvals (br_peers b))"
    then obtain a where "(a, c) \<in> set (br_peers b)" by auto
    then have "mget (br_peers b) a = Some c" using r by (simp add: reg_ok_def mwf_def)
    then show False using unfiled_unnamed [OF r assms(2,3)] by blast
  qed
  then have conn: "br_conns (orphan b) c = Some p"
    using assms(2) by (simp add: orphan_def emit_def destroy_all_def fold_destroy)
  have or: "br_orphaned (fold destroy_conn cs b0) = br_orphaned b0" for cs and b0 :: "'r broker"
    by (induction cs arbitrary: b0) (simp_all add: destroy_conn_def emit_def)
  have peers: "br_peers (orphan b) = []" by (simp add: orphan_def emit_def)
  have rq: "register_request (serialize_jv (JObj [(''type'', JStr ''register''), (''name'', JStr ''x'')])) = Some (''x'', [], False)"
    by (simp add: register_request_def json_parse_line isValidRegisteredCwd_def)
  have idt: "identityForRegister [] [] ''x'' False = Some (''x'', ''x'', False)" by code_simp
  have "mget (br_peers (handleRegister h c (serialize_jv (JObj [(''type'', JStr ''register''), (''name'', JStr ''x'')])) (orphan b))) ''x'' = Some c"
    by (simp add: handleRegister_stages rq peers idt register_as_def reg_frame Let_def)
      (simp add: try_write_def)
  then show ?thesis using conn peers by (simp add: orphan_def or destroy_all_def emit_def)
qed

end
