(* ===== verification/BrokerRuns.thy ===== *)
theory BrokerRuns
  imports BrokerProps
begin

text \<open>
  Concrete runs of the broker: three peers in two folders and a connection that has not
  registered yet. The properties of \<open>BrokerProps\<close> are applied to them.
\<close>

definition demo_host :: host where
  "demo_host = \<lparr>h_ts = (\<lambda>_. 5), h_rand = (\<lambda>_. replicate 10 0), h_throws = (\<lambda>_. False)\<rparr>"

definition demo_router :: "unit router_ops" where
  "demo_router = \<lparr>try_outbound = (\<lambda>_ r. (False, r)), remote_peers = (\<lambda>r. ([], r)), remote_infos = (\<lambda>r. ([], r))\<rparr>"

definition reg_line :: "string \<Rightarrow> string \<Rightarrow> bool \<Rightarrow> string" where
  "reg_line name cwd tk = serialize_jv (JObj [(''type'', JStr ''register''), (''name'', JStr name),
     (''cwd'', JStr cwd), (''takeover'', JBool tk)])"

definition join_mesh :: "nat \<Rightarrow> string \<Rightarrow> string \<Rightarrow> unit broker \<Rightarrow> unit broker" where
  "join_mesh c name cwd b = onData demo_host demo_router c (reg_line name cwd False) (handleConnection c b)"

definition demo :: "unit broker" where
  "demo = handleConnection 13 (join_mesh 12 ''c'' ''/z'' (join_mesh 11 ''b'' ''/w'' (join_mesh 10 ''a'' ''/w'' (new_broker False))))"

definition conn_a :: peer_conn where
  "conn_a = \<lparr>pc_name = ''a'', pc_cwd = ''/w'', pc_address = ''/w@a'', pc_buf = [], pc_destroyed = False\<rparr>"

definition env_to :: "dest \<Rightarrow> envelope" where
  "env_to d = \<lparr>e_from = ''/w@a'', e_to = d, e_id = uuidv7 7 (replicate 10 0), e_re = None, e_body = JStr ''hi''\<rparr>"

lemma demo_host_simps [simp]: "h_throws demo_host c = False" "host_ok demo_host"
  by (simp_all add: demo_host_def host_ok_def)

lemma broadcast_rest:
  "br_router (broadcastSystem h body ex b) = br_router b \<and> br_audit (broadcastSystem h body ex b) = br_audit b \<and>
     br_orphaned (broadcastSystem h body ex b) = br_orphaned b"
proof -
  have "br_router (fold f ps b) = br_router b \<and> br_audit (fold f ps b) = br_audit b \<and> br_orphaned (fold f ps b) = br_orphaned b"
    if "\<And>x b. br_router (f x b) = br_router b \<and> br_audit (f x b) = br_audit b \<and> br_orphaned (f x b) = br_orphaned b"
    for f :: "string \<times> nat \<Rightarrow> 'a broker \<Rightarrow> 'a broker" and ps
    by (induction ps arbitrary: b) (simp_all add: that)
  then show ?thesis
    by (auto simp: broadcastSystem_def try_write_def tick_def emit_def split: prod.splits)
qed

text \<open>What one newcomer with a free name does to the broker.\<close>

lemma join_effect:
  assumes "identityForRegister (br_peers b) cwd name False = Some (nm, a, False)" and "isValidRegisteredCwd cwd"
    and "\<not> br_orphaned b"
  shows "br_peers (join_mesh c name cwd b) = mput a c (br_peers b)"
    "br_conns (join_mesh c name cwd b) = (br_conns b)(c \<mapsto> \<lparr>pc_name = nm, pc_cwd = cwd, pc_address = a, pc_buf = [], pc_destroyed = False\<rparr>)"
    "br_router (join_mesh c name cwd b) = br_router b" "br_audit (join_mesh c name cwd b) = br_audit b"
    "br_orphaned (join_mesh c name cwd b) = False"
proof -
  define v where "v = JObj [(''type'', JStr ''register''), (''name'', JStr name), (''cwd'', JStr cwd), (''takeover'', JBool False)]"
  have w: "wf_json v" by (simp add: v_def)
  have tl: "take_lines (reg_line name cwd False) = ([stringify v], [])"
    using serialize_line [OF w, of "[]"] by (simp add: reg_line_def v_def)
  have js: "json_parse (stringify v) = Some v" using json_round_trip [OF w, of "[]"] by simp
  have rq: "register_request (stringify v) = Some (name, cwd, False)"
    using assms(2) by (simp add: register_request_def js) (simp add: v_def)
  have "join_mesh c name cwd b = handleRegister demo_host c (stringify v) (set_conn c new_conn b)"
    using assms(3) by (simp add: join_mesh_def onData_def handleConnection_def tl new_conn_def handleLine_def
        tryBrokerPing_def tryObserverProbe_def probe_type_def js) (simp add: set_conn_def v_def)
  then have e: "join_mesh c name cwd b = register_as demo_host c new_conn cwd (nm, a, False) (set_conn c new_conn b)"
    by (simp add: handleRegister_stages rq assms(1))
  show "br_peers (join_mesh c name cwd b) = mput a c (br_peers b)"
    "br_conns (join_mesh c name cwd b) = (br_conns b)(c \<mapsto> \<lparr>pc_name = nm, pc_cwd = cwd, pc_address = a, pc_buf = [], pc_destroyed = False\<rparr>)"
    "br_router (join_mesh c name cwd b) = br_router b" "br_audit (join_mesh c name cwd b) = br_audit b"
    "br_orphaned (join_mesh c name cwd b) = False"
    unfolding e register_as_def using assms(3)
    by (simp_all add: reg_frame broadcast_rest try_write_def emit_def set_conn_def new_conn_def)
qed

lemma demo_ids:
  "identityForRegister [] ''/w'' ''a'' False = Some (''a'', ''/w@a'', False)"
  "identityForRegister [(''/w@a'', 10)] ''/w'' ''b'' False = Some (''b'', ''/w@b'', False)"
  "identityForRegister [(''/w@a'', 10), (''/w@b'', 11)] ''/z'' ''c'' False = Some (''c'', ''/z@c'', False)"
  "isValidRegisteredCwd ''/w''" "isValidRegisteredCwd ''/z''"
  by code_simp+

definition demo_a :: "unit broker" where "demo_a = join_mesh 10 ''a'' ''/w'' (new_broker False)"
definition demo_b :: "unit broker" where "demo_b = join_mesh 11 ''b'' ''/w'' demo_a"
definition demo_c :: "unit broker" where "demo_c = join_mesh 12 ''c'' ''/z'' demo_b"

lemma demo_a:
  "br_peers demo_a = [(''/w@a'', 10)]" "br_conns demo_a = [10 \<mapsto> conn_a]" "\<not> br_orphaned demo_a"
  "br_router demo_a = None" "\<not> br_audit demo_a"
  using join_effect [of "new_broker False" "''/w''" "''a''" "''a''" "''/w@a''" 10]
  by (simp_all add: demo_a_def conn_a_def new_broker_def demo_ids)

lemma demo_b:
  "br_peers demo_b = [(''/w@a'', 10), (''/w@b'', 11)]"
  "br_conns demo_b = [10 \<mapsto> conn_a, 11 \<mapsto> \<lparr>pc_name = ''b'', pc_cwd = ''/w'', pc_address = ''/w@b'', pc_buf = [], pc_destroyed = False\<rparr>]"
  "\<not> br_orphaned demo_b" "br_router demo_b = None" "\<not> br_audit demo_b"
  using join_effect [of demo_a "''/w''" "''b''" "''b''" "''/w@b''" 11]
  by (simp_all add: demo_b_def demo_ids demo_a)

lemma demo_c:
  "br_peers demo_c = [(''/w@a'', 10), (''/w@b'', 11), (''/z@c'', 12)]"
  "br_conns demo_c = [10 \<mapsto> conn_a, 11 \<mapsto> \<lparr>pc_name = ''b'', pc_cwd = ''/w'', pc_address = ''/w@b'', pc_buf = [], pc_destroyed = False\<rparr>,
     12 \<mapsto> \<lparr>pc_name = ''c'', pc_cwd = ''/z'', pc_address = ''/z@c'', pc_buf = [], pc_destroyed = False\<rparr>]"
  "\<not> br_orphaned demo_c" "br_router demo_c = None" "\<not> br_audit demo_c"
  using join_effect [of demo_b "''/z''" "''c''" "''c''" "''/z@c''" 12]
  by (simp_all add: demo_c_def demo_ids demo_b)

lemma demo_peers: "br_peers demo = [(''/w@a'', 10), (''/w@b'', 11), (''/z@c'', 12)]"
  and demo_conns: "br_conns demo 10 = Some conn_a" "br_conns demo 13 = Some new_conn"
    "map_option pc_cwd (br_conns demo 11) = Some ''/w''" "map_option pc_cwd (br_conns demo 12) = Some ''/z''"
  and demo_none: "br_router demo = None" "br_audit demo = False"
  using demo_c by (simp_all add: demo_def demo_c_def demo_b_def demo_a_def handleConnection_def Let_def)
    (simp_all add: set_conn_def)

lemma join_reachable:
  assumes "broker_reachable demo_host demo_router b" and "br_conns b c = None" and "\<not> br_orphaned b"
  shows "broker_reachable demo_host demo_router (join_mesh c name cwd b)"
  unfolding join_mesh_def
proof (rule broker_reachable.step [OF broker_reachable.step [OF assms(1) broker_step.connect [of b c]]])
  show "broker_step demo_host demo_router (handleConnection c b)
      (onData demo_host demo_router c (reg_line name cwd False) (handleConnection c b))"
    by (rule broker_step.data [where p = new_conn]) (use assms(3) in \<open>simp_all add: handleConnection_def new_conn_def\<close>)
qed (rule assms(2))

lemma demo_reachable: "broker_reachable demo_host demo_router demo"
proof -
  have "broker_reachable demo_host demo_router demo_a" unfolding demo_a_def
    by (rule join_reachable [OF broker_reachable.start]) (simp_all add: new_broker_def)
  then have "broker_reachable demo_host demo_router demo_b" unfolding demo_b_def
    by (rule join_reachable) (simp_all add: demo_a)
  then have "broker_reachable demo_host demo_router demo_c" unfolding demo_c_def
    by (rule join_reachable) (simp_all add: demo_b)
  then have "broker_reachable demo_host demo_router (handleConnection 13 demo_c)"
    by (rule broker_reachable.step) (rule broker_step.connect, simp add: demo_c)
  then show ?thesis by (simp add: demo_def demo_c_def demo_b_def demo_a_def)
qed

section \<open>Applications\<close>

lemma registry_sound_witness:
  "mkeys (br_peers demo) = [''/w@a'', ''/w@b'', ''/z@c''] \<and> distinct (mkeys (br_peers demo)) \<and> length (br_peers demo) \<le> 1024"
  using registry_sound [OF demo_reachable] by (simp add: demo_peers)

lemma sender_forced_witness:
  "\<exists>es p'. br_log (handleLine demo_host demo_router 10 (serialize (env_to (ToName ''/w@b''))) demo) = br_log demo @ es \<and>
     br_conns (handleLine demo_host demo_router 10 (serialize (env_to (ToName ''/w@b''))) demo) 10 = Some p' \<and>
     (\<forall>d l. Write d l \<in> set es \<longrightarrow> (\<exists>env. parse l = Inr env \<and> e_from env \<in> {''/w@a'', BROKER_NAME}))"
proof -
  have "wf_json (env_jv (env_to (ToName ''/w@b'')))" by (rule env_jv_wf) (simp add: env_to_def)
  then have "\<nexists>v. json_parse (serialize (env_to (ToName ''/w@b''))) = Some v \<and> jget v ''type'' = JStr ''rename''"
    by (simp add: serialize_def json_parse_line) (simp add: env_jv_def)
  with sender_forced [OF demo_reachable _ demo_conns(1), of "serialize (env_to (ToName ''/w@b''))"] show ?thesis
    by (auto simp: conn_a_def)
qed

lemma bad_line: "take_lines [CHR ''x'', NL] = ([''x''], [])"
  by code_simp

text \<open>A connection that registers, its line cut in the middle.\<close>

definition reg_d :: "string list" where
  "reg_d = [take 20 (reg_line ''d'' ''/w'' False), drop 20 (reg_line ''d'' ''/w'' False)]"

lemma chunks_equivalent_witness:
  "fold (receive demo_host demo_router 13) reg_d demo = receive demo_host demo_router 13 (reg_line ''d'' ''/w'' False) demo \<and>
   mget (br_peers (fold (receive demo_host demo_router 13) reg_d demo)) ''/w@d'' = Some 13"
proof -
  have tl: "take_lines (take 20 (reg_line ''d'' ''/w'' False)) = ([], take 20 (reg_line ''d'' ''/w'' False))" by code_simp
  have l0: "live_conn 13 demo" by (simp add: live_conn_def demo_conns) (simp add: new_conn_def)
  then have l: "live_conn 13 (fold (receive demo_host demo_router 13) (butlast reg_d) demo)"
    using demo_conns(2) by (simp add: reg_d_def receive_def onData_def live_conn_def new_conn_def tl)
  have "reg_d \<noteq> []" "concat reg_d = reg_line ''d'' ''/w'' False" by (simp_all add: reg_d_def)
  with chunks_equivalent [OF _ l]
  have eq: "fold (receive demo_host demo_router 13) reg_d demo = receive demo_host demo_router 13 (reg_line ''d'' ''/w'' False) demo"
    by simp
  have "receive demo_host demo_router 13 (reg_line ''d'' ''/w'' False) demo = join_mesh 13 ''d'' ''/w'' demo_c"
    using l0 by (simp add: receive_def join_mesh_def demo_def demo_c_def demo_b_def demo_a_def)
  moreover have "identityForRegister (br_peers demo_c) ''/w'' ''d'' False = Some (''d'', ''/w@d'', False)"
    unfolding demo_c(1) by code_simp
  ultimately have "mget (br_peers (receive demo_host demo_router 13 (reg_line ''d'' ''/w'' False) demo)) ''/w@d'' = Some 13"
    using join_effect(1) [OF _ demo_ids(4) demo_c(3)] by simp
  then show ?thesis using eq by simp
qed

text \<open>The first line is refused and the socket destroyed; the register line behind it in the same
  chunk still registers the dead connection.\<close>

lemma bad_then_register:
  assumes "br_conns b c = Some new_conn" and "isValidRegisteredCwd cwd"
    and "identityForRegister (br_peers b) cwd name False = Some (nm, a, False)"
  shows "mget (br_peers (receive demo_host demo_router c (''x'' @ NL # reg_line name cwd False) b)) a = Some c \<and>
    \<not> live_conn c (receive demo_host demo_router c (''x'' @ NL # reg_line name cwd False) b)"
proof -
  define v where "v = JObj [(''type'', JStr ''register''), (''name'', JStr name), (''cwd'', JStr cwd), (''takeover'', JBool False)]"
  have w: "wf_json v" by (simp add: v_def)
  have "take_lines (reg_line name cwd False) = ([stringify v], [])"
    using serialize_line [OF w, of "[]"] by (simp add: reg_line_def v_def)
  then have tl: "take_lines (CHR ''x'' # NL # reg_line name cwd False) = ([''x'', stringify v], [])"
    using take_lines_append [of "''x'' @ [NL]" "reg_line name cwd False"] by (simp add: bad_line)
  have js: "json_parse (stringify v) = Some v" using json_round_trip [OF w, of "[]"] by simp
  have x: "json_parse ''x'' = None" by code_simp
  have rq: "register_request (stringify v) = Some (name, cwd, False)"
    using assms(2) by (simp add: register_request_def js) (simp add: v_def)
  define d where "d = destroy_conn c (set_conn c new_conn b)"
  have d: "br_conns d c = Some (new_conn\<lparr>pc_destroyed := True\<rparr>)" "br_peers d = br_peers b" by (simp_all add: d_def)
  have "handleLine demo_host demo_router c ''x'' (set_conn c new_conn b) = d"
    by (simp add: handleLine_def tryBrokerPing_def tryObserverProbe_def probe_type_def x handleRegister_stages register_request_def d_def)
      (simp add: new_conn_def)
  moreover have "handleLine demo_host demo_router c (stringify v) d =
      register_as demo_host c (new_conn\<lparr>pc_destroyed := True\<rparr>) cwd (nm, a, False) d"
    by (simp add: handleLine_def tryBrokerPing_def tryObserverProbe_def probe_type_def js d handleRegister_stages rq assms(3))
      (simp add: new_conn_def v_def)
  ultimately have "receive demo_host demo_router c (''x'' @ NL # reg_line name cwd False) b =
      register_as demo_host c (new_conn\<lparr>pc_destroyed := True\<rparr>) cwd (nm, a, False) d"
    using assms(1) by (simp add: receive_def live_conn_def onData_def) (simp add: new_conn_def tl)
  then show ?thesis by (simp add: register_as_def live_conn_def reg_frame d try_write_def emit_def Let_def)
qed

lemma destroyed_still_registers:
  "mget (br_peers (receive demo_host demo_router 13 (''x'' @ NL # reg_line ''d'' ''/w'' False) demo)) ''/w@d'' = Some 13 \<and>
   \<not> live_conn 13 (receive demo_host demo_router 13 (''x'' @ NL # reg_line ''d'' ''/w'' False) demo)"
  by (rule bad_then_register [OF demo_conns(2) demo_ids(4)]) (simp add: demo_peers, code_simp)

lemma unicast_delivery_witness:
  "br_log (route demo_host demo_router (env_to (ToName ''/w@b'')) demo) = br_log demo @
     [Write 11 (serialize (env_to (ToName ''/w@b''))),
      Write 10 (ack_line demo_host (br_uuids demo) (env_to (ToName ''/w@b'')) Received ''/w@b'')] @
     [Routed (env_to (ToName ''/w@b'')) [''/w@b'']]"
  using unicast_delivery [of "env_to (ToName ''/w@b'')" "''/w@b''" demo 10 demo_host demo_router demo
      "[Write 11 (serialize (env_to (ToName ''/w@b''))),
      Write 10 (ack_line demo_host (br_uuids demo) (env_to (ToName ''/w@b'')) Received ''/w@b'')]" "[''/w@b'']" Received]
  by (simp add: env_to_def BROKER_NAME_def demo_peers demo_none offer_remote_def unicast_effects_def)

lemma broadcast_scope_witness:
  "\<exists>ds. distinct ds \<and> set ds = {''/w@b''} \<and>
     br_log (route demo_host demo_router (env_to (ToName ''broadcast'')) demo) = br_log demo @
       map (\<lambda>a. Write (the (mget (br_peers demo) a)) (serialize (env_to (ToName ''broadcast'')))) ds @
       [Routed (env_to (ToName ''broadcast'')) ds]"
proof -
  have "{a. \<exists>c p. mget (br_peers demo) a = Some c \<and> br_conns demo c = Some p \<and> pc_cwd p = pc_cwd conn_a \<and> a \<noteq> ''/w@a''} = {''/w@b''}"
    using demo_conns by (auto simp: demo_peers conn_a_def split: if_splits)
  then show ?thesis
    using broadcast_scope [OF demo_reachable, of "env_to (ToName ''broadcast'')" 10 conn_a demo_router demo]
    by (simp add: env_to_def demo_peers demo_none demo_conns offer_remote_def)
qed

definition takeover_req :: jv where
  "takeover_req = JObj [(''type'', JStr ''register''), (''name'', JStr ''b''), (''cwd'', JStr ''/w''), (''takeover'', JBool True)]"

definition after_takeover :: "unit broker" where
  "after_takeover = handleRegister demo_host 13 (stringify takeover_req) demo"

lemma after_takeover_peers: "mget (br_peers after_takeover) ''/w@b'' = Some 13"
proof -
  have "wf_json takeover_req" by (simp add: takeover_req_def)
  from json_round_trip [OF this, of "[]"] have rq: "register_request (stringify takeover_req) = Some (''b'', ''/w'', True)"
    by (simp add: register_request_def demo_ids(4)) (simp add: takeover_req_def demo_ids(4))
  have idt: "identityForRegister [(''/w@a'', 10), (''/w@b'', 11), (''/z@c'', 12)] ''/w'' ''b'' True = Some (''b'', ''/w@b'', True)"
    by code_simp
  show ?thesis
    by (simp add: after_takeover_def handleRegister_stages rq demo_peers idt register_as_def reg_frame try_write_def Let_def)
qed

lemma register_displaces_only_takeover_witness:
  "\<exists>req name cwd p. json_parse (stringify takeover_req) = Some req \<and> jget req ''takeover'' = JBool True \<and>
     jget req ''name'' = JStr name \<and> jget req ''cwd'' = JStr cwd \<and> cwd \<noteq> [] \<and>
     ''/w@b'' = compose_address None cwd (sanitize_mesh_name name) \<and>
     mget (br_peers after_takeover) ''/w@b'' = Some 13 \<and>
     br_conns after_takeover 11 = Some p \<and> pc_destroyed p \<and>
     (\<forall>x. x \<noteq> ''/w@b'' \<longrightarrow> mget (br_peers after_takeover) x = mget (br_peers demo) x)"
  unfolding after_takeover_def
  by (rule register_displaces_only_takeover [OF demo_reachable demo_conns(2)])
    (use after_takeover_peers in \<open>simp_all add: new_conn_def demo_peers after_takeover_def\<close>)

definition renamed :: "unit broker" where
  "renamed = handleRename demo_host 10 conn_a (JObj [(''name'', JStr ''b'')]) demo"

lemma rename_moves_own_entry_witness:
  "\<exists>nm a es. mget (br_peers renamed) a = Some 10 \<and>
     br_conns renamed 10 = Some (conn_a\<lparr>pc_name := nm, pc_address := a\<rparr>) \<and>
     (a \<noteq> pc_address conn_a \<longrightarrow> mget (br_peers demo) a = None \<and> mget (br_peers renamed) (pc_address conn_a) = None) \<and>
     (\<forall>x. x \<notin> {a, pc_address conn_a} \<longrightarrow> mget (br_peers renamed) x = mget (br_peers demo) x) \<and>
     (\<forall>d. d \<noteq> 10 \<longrightarrow> br_conns renamed d = br_conns demo d) \<and>
     br_log renamed = br_log demo @ es @ [Write 10 (serialize_jv (name_ack ''rename_ack'' a nm))]"
proof -
  have "mget (br_peers demo) (pc_address conn_a) = Some 10" by (simp add: demo_peers conn_a_def)
  from rename_moves_own_entry [OF demo_reachable demo_conns(1) this, of demo_host "JObj [(''name'', JStr ''b'')]"]
  show ?thesis unfolding renamed_def by simp
qed

lemma orphan_leaves_pending_witness:
  "mget (br_peers (handleRegister demo_host 13 (serialize_jv (JObj [(''type'', JStr ''register''), (''name'', JStr ''x'')])) (orphan demo))) ''x'' = Some 13"
  using orphan_leaves_pending [OF demo_reachable demo_conns(2), of demo_host] by (simp add: new_conn_def)

end
