(* ===== verification/RemoteMesh.thy ===== *)
theory RemoteMesh
  imports RemoteProps BrokerRuns
begin

text \<open>
  The router and the broker together. What the router needs from the broker is the
  contract \<open>broker_contract\<close>; the model of the broker keeps it. On top of it: activation
  announces the local peers to every sibling, no frame reaches a local peer except under the name of its
  authenticated sender, a message crosses from one machine to another, and the router never takes a message
  away from a local peer.
\<close>

section \<open>What the router needs from the broker\<close>

locale broker_contract =
  fixes B :: "'b local_broker" and inv :: "'b \<Rightarrow> bool"
  assumes inject_keeps: "inv b \<Longrightarrow> inv (snd (lb_inject B env b))"
    and attach_keeps: "inv b \<Longrightarrow> inv (lb_attach B b)"
    and detach_keeps: "inv b \<Longrightarrow> inv (lb_detach B b)"
    and infos_bounded: "inv b \<Longrightarrow> isBoundedPeerRoster (map peer_info_jv (lb_infos B b))"
    and attach_infos: "lb_infos B (lb_attach B b) = lb_infos B b"
    and denied_keeps: "fst (lb_inject B env b) \<noteq> Received \<Longrightarrow> snd (lb_inject B env b) = b"
begin

lemma body_exists:
  assumes "inv b"
  shows "localPeersBody (lb_infos B b) = Inr (peers_update_body (map pi_address (lb_infos B b)) (map wire_of (lb_infos B b)))"
proof -
  have r: "isBoundedPeerRoster (map peer_info_jv (lb_infos B b))" using assms by (rule infos_bounded)
  then have "isBoundedPeerAddresses (map (\<lambda>p. JStr (pi_address p)) (lb_infos B b))"
    by (simp add: isBoundedPeerRoster_def isBoundedPeerAddresses_def list_all_iff peer_info_jv_bounded)
  then show ?thesis using r by (simp add: localPeersBody_def)
qed

lemma incoming_keeps:
  assumes "inv b"
  shows "inv (snd (snd (handleIncoming sha h B env pc (r, b))))"
proof -
  have d: "inv (snd (snd (deliver_incoming h B k rep n t (r, b))))" for k rep n t r
    using inject_keeps [OF assms] by (simp add: deliver_incoming_def split_def Let_def)
  have s: "inv (snd (snd (handle_sibling h B k l env (r, b))))" for k l
    using d assms by (simp add: handle_sibling_def split_def Let_def split: jv.split option.split sum.split dest.split)
  have "inv (snd (propagateTransportError B env (r, b)))"
    using inject_keeps [OF assms] assms unfolding propagateTransportError_def prod.case
    by (simp split: prod.split bool.split option.split jv.split)
  then show ?thesis using s assms by (simp add: handleIncoming_def split: sum.split option.split list.split)
qed

lemma activate_keeps: "inv b \<Longrightarrow> inv (snd (snd (activate h B (r, b))))"
  using attach_keeps detach_keeps by (auto simp: activate_def split_def Let_def split: lifecycle.split option.split)

text \<open>A sound broker never makes activation fail.\<close>

lemma activation_succeeds:
  assumes "inv b" and "rm_lifecycle r = Dormant" and "\<And>r. fst (send_all h ms r)"
    and "ms = concat (map (\<lambda>k. [(k, peers_request_body), (k, peers_update_body (map pi_address (lb_infos B b)) (map wire_of (lb_infos B b)))]) (sibling_keys r))"
  shows "activate h B (r, b) =
    (None, (snd (send_all h ms (put_log Subscribed r)))\<lparr>rm_refresh := [], rm_timer := 0 < rm_interval r, rm_lifecycle := Active\<rparr>, lb_attach B b)"
proof -
  have k: "sibling_keys (put_log Subscribed r) = sibling_keys r" by (simp add: sibling_keys_def put_log_def)
  have b: "bootstrapWithSiblings h (lb_infos B (lb_attach B b)) (put_log Subscribed r) = (None, snd (send_all h ms (put_log Subscribed r)))"
    using body_exists [OF assms(1)] assms(3) by (simp add: bootstrapWithSiblings_def attach_infos assms(4) k split_def Let_def)
  have "same_core r (snd (send_all h ms (put_log Subscribed r)))"
    using same_core_trans [OF same_core_log [of Subscribed r] same_core_send_all] by simp
  then have "rm_interval (snd (send_all h ms (put_log Subscribed r))) = rm_interval r" by (rule same_coreD(11))
  then show ?thesis using assms(2) by (simp add: activate_def b Let_def)
qed

end

text \<open>The broker of the repository as the interface of a router with number \<open>i\<close>.\<close>

definition broker_ops :: "host \<Rightarrow> nat \<Rightarrow> 'r \<Rightarrow> 'r broker local_broker" where
  "broker_ops h i r0 = \<lparr>lb_infos = localPeerInfos, lb_inject = injectFromRemote h,
     lb_attach = setRemoteRouter (Some (i, r0)), lb_detach = clearRemoteRouter i\<rparr>"

lemma broker_ops_simps [simp]:
  "lb_infos (broker_ops h i r0) = localPeerInfos" "lb_inject (broker_ops h i r0) = injectFromRemote h"
  "lb_attach (broker_ops h i r0) = setRemoteRouter (Some (i, r0))" "lb_detach (broker_ops h i r0) = clearRemoteRouter i"
  by (simp_all add: broker_ops_def)

lemma local_infos_bounded:
  assumes "broker_inv b"
  shows "isBoundedPeerRoster (map peer_info_jv (localPeerInfos b))"
proof -
  have reg: "reg_ok b" using assms by (simp add: broker_inv_def)
  have "isBoundedPeerInfo (peer_info_jv (conn_info (the (br_conns b c))))" if "c \<in> set (mvals (br_peers b))" for c
  proof -
    obtain a where "(a, c) \<in> set (br_peers b)" using \<open>c \<in> set (mvals (br_peers b))\<close> by auto
    then have "mget (br_peers b) a = Some c" using reg by (simp add: reg_ok_def mwf_mget [symmetric])
    then have "entry_ok b a c" using reg by (rule reg_okD [rotated])
    then show ?thesis by (auto elim: entry_okD)
  qed
  then show ?thesis using reg by (simp add: isBoundedPeerRoster_def localPeerInfos_def list_all_iff reg_ok_def)
qed

interpretation lb: broker_contract "broker_ops h i r0" broker_inv for h i r0
proof unfold_locales
  fix b :: "'a broker" and env
  assume i: "broker_inv b"
  show "broker_inv (snd (lb_inject (broker_ops h i r0) env b))"
    using i by (simp add: same_reg_inv [OF same_reg_inject])
  show "broker_inv (lb_attach (broker_ops h i r0) b)" "broker_inv (lb_detach (broker_ops h i r0) b)"
    using i by (simp_all add: same_reg_inv [OF same_reg_router(1)] same_reg_inv [OF same_reg_router(2)])
  show "isBoundedPeerRoster (map peer_info_jv (lb_infos (broker_ops h i r0) b))" using local_infos_bounded [OF i] by simp
next
  fix b :: "'a broker"
  show "lb_infos (broker_ops h i r0) (lb_attach (broker_ops h i r0) b) = lb_infos (broker_ops h i r0) b"
    by (simp add: localPeerInfos_def setRemoteRouter_def)
next
  fix b :: "'a broker" and env
  assume "fst (lb_inject (broker_ops h i r0) env b) \<noteq> Received"
  then show "snd (lb_inject (broker_ops h i r0) env b) = b" by (cases rule: inject_cases [of h env b]) simp_all
qed


section \<open>Announcing the local peers\<close>

definition sent_bodies :: "remote_effect list \<Rightarrow> (string \<times> jv) list" where
  "sent_bodies es = List.map_filter (\<lambda>e. case e of Sent k env \<Rightarrow> Some (k, e_body env) | _ \<Rightarrow> None) es"

lemma sent_bodies_append [simp]: "sent_bodies (xs @ ys) = sent_bodies xs @ sent_bodies ys"
  by (induction xs) (simp_all add: sent_bodies_def List.map_filter_simps split: option.split)

lemma sent_bodies_one [simp]: "sent_bodies [] = []" "sent_bodies [Sent k env] = [(k, e_body env)]"
  "sent_bodies [Logged m] = []" "sent_bodies [Subscribed] = []" "sent_bodies [Resolved n] = []"
  by (simp_all add: sent_bodies_def List.map_filter_simps)

lemma send_no_throw:
  assumes "\<forall>n. \<not> rh_throws h n"
  shows "fst (sendEnvelopeToPi h k env r)" and "rm_log (snd (sendEnvelopeToPi h k env r)) = rm_log r @ [Sent k env]"
    and "fst (sendControlEnvelope h k body r)" and "sent_bodies (rm_log (snd (sendControlEnvelope h k body r))) = sent_bodies (rm_log r) @ [(k, body)]"
  using assms by (simp_all add: sendEnvelopeToPi_def sendControlEnvelope_def fresh_id_def put_log_def mk_envelope_def Let_def)

lemma send_all_no_throw:
  assumes "\<forall>n. \<not> rh_throws h n"
  shows "fst (send_all h ms r) \<and> sent_bodies (rm_log (snd (send_all h ms r))) = sent_bodies (rm_log r) @ ms"
proof (induction ms arbitrary: r)
  case (Cons m ms)
  obtain k body where m: "m = (k, body)" by fastforce
  note s = send_no_throw(3,4) [OF assms, of k body r]
  show ?case using Cons [of "snd (sendControlEnvelope h k body r)"] s by (simp add: m split_def Let_def)
qed simp

lemma roster_parses: "localPeersBody infos = Inr body \<Longrightarrow> parsePeersUpdate body = Some (map wire_of infos)"
proof -
  assume b: "localPeersBody infos = Inr body"
  then have body: "body = peers_update_body (map pi_address infos) (map wire_of infos)"
    and roster: "isBoundedPeerRoster (map peer_info_jv infos)" and addrs: "isBoundedPeerAddresses (map (\<lambda>p. JStr (pi_address p)) infos)"
    by (simp_all add: localPeersBody_def split: if_splits)
  have w: "isBoundedPeerInfo (wire_peer_jv (wire_of p)) \<longleftrightarrow> isBoundedPeerInfo (peer_info_jv p)" for p
    unfolding peer_info_jv_bounded by (simp add: isBoundedPeerInfo_def wire_peer_jv_def wire_of_def)
  have "isBoundedPeerRoster (map wire_peer_jv (map wire_of infos))"
    using roster by (simp add: isBoundedPeerRoster_def list_all_iff w)
  moreover have "map (\<lambda>e. \<lparr>wp_cwd = jstr (jget e ''cwd''), wp_name = jstr (jget e ''name''), wp_address = jstr (jget e ''address'')\<rparr>)
      (map wire_peer_jv (map wire_of infos)) = map wire_of infos"
    by (simp add: wire_peer_jv_def jstr_def)
  ultimately show ?thesis using addrs by (simp add: body parsePeersUpdate_def peers_update_body_def comp_def)
qed

text \<open>Activating the router of a sound broker succeeds, whatever peers are registered, when the relay client takes the
  sends: the router is attached and each sibling is sent, in order, a request for its roster and the local
  roster, which is within the wire limits and which the receiver reads back as exactly the registered
  peers.\<close>

theorem activation_announces:
  fixes r0 :: 'r
  assumes "broker_inv b" and "rm_lifecycle r = Dormant" and "\<forall>n. \<not> rh_throws h n"
  shows "\<exists>r' body. activate h (broker_ops bh i r0) (r, b) = (None, r', setRemoteRouter (Some (i, r0)) b) \<and>
    rm_lifecycle r' = Active \<and> parsePeersUpdate body = Some (map wire_of (localPeerInfos b)) \<and>
    sent_bodies (rm_log r') = sent_bodies (rm_log r) @ concat (map (\<lambda>k. [(k, peers_request_body), (k, body)]) (sibling_keys r))"
proof -
  let ?body = "peers_update_body (map pi_address (localPeerInfos b)) (map wire_of (localPeerInfos b))"
  let ?ms = "concat (map (\<lambda>k. [(k, peers_request_body), (k, ?body)]) (sibling_keys r))"
  have a: "activate h (broker_ops bh i r0) (r, b) =
      (None, (snd (send_all h ?ms (put_log Subscribed r)))\<lparr>rm_refresh := [], rm_timer := 0 < rm_interval r, rm_lifecycle := Active\<rparr>,
       setRemoteRouter (Some (i, r0)) b)"
  proof (rule lb.activation_succeeds [OF assms(1,2), unfolded broker_ops_simps])
    show "fst (send_all h ?ms r)" for r using send_all_no_throw [OF assms(3)] by (rule conjunct1)
  qed (rule refl)
  have "parsePeersUpdate ?body = Some (map wire_of (localPeerInfos b))"
    by (rule roster_parses, rule lb.body_exists [OF assms(1), unfolded broker_ops_simps])
  moreover have "sent_bodies (rm_log (snd (send_all h ?ms (put_log Subscribed r)))) = sent_bodies (rm_log r) @ ?ms"
    using send_all_no_throw [OF assms(3), of ?ms "put_log Subscribed r"] by (simp add: put_log_def)
  ultimately show ?thesis using a
    by (intro exI [of _ "(snd (send_all h ?ms (put_log Subscribed r)))\<lparr>rm_refresh := [], rm_timer := 0 < rm_interval r, rm_lifecycle := Active\<rparr>"]
        exI [of _ ?body] conjI) simp_all
qed

section \<open>Nothing is injected under a false name\<close>

text \<open>Where an injected envelope may come from.\<close>

definition origin_ok :: "remote \<Rightarrow> string \<Rightarrow> envelope \<Rightarrow> bool" where
  "origin_ok r pc v \<longleftrightarrow>
     (if pc = ''_relay'' then e_from v = BROKER_NAME \<and> (\<exists>reason. e_body v = transport_error_jv reason)
      else (\<exists>key label sender. decodeEd25519PublicKey pc ''from_pc'' = Inr key \<and>
              mget (rt_by_key (rm_routing r)) (b64_encode key) = Some label \<and> e_from v = label @ '':'' @ sender))"

definition injected :: "envelope \<Rightarrow> nat \<Rightarrow> 'r broker \<Rightarrow> 'r broker" where
  "injected v c b = emit (Routed v [case e_to v of ToName t \<Rightarrow> t])
     (appendAudit v [case e_to v of ToName t \<Rightarrow> t] Received True (emit (Write c (serialize v)) b))"

lemma inject_outcome:
  "snd (injectFromRemote h env b) = b \<or>
   (\<exists>v t c. parse (serialize env) = Inr v \<and> e_to v = ToName t \<and> mget (br_peers b) t = Some c \<and> snd (injectFromRemote h env b) = injected v c b)"
  by (cases rule: inject_cases [of h env b]) (auto simp: injected_def)

lemma parse_serialize_eq: "wf_json (e_body env) \<Longrightarrow> parse (serialize env) = parse_env_jv (env_jv env)"
  using json_parse_line [OF env_jv_wf] by (simp add: parse_def serialize_def)

lemma parse_env_fields:
  "parse_env_jv (JObj kvs) = Inr v \<Longrightarrow> mget kvs ''from'' = Some (JStr (e_from v)) \<and> mget kvs ''body'' = Some (e_body v) \<and>
     mget kvs ''id'' = Some (JStr (e_id v)) \<and> parse_to (jget (JObj kvs) ''to'') = Inr (e_to v)"
  by (auto simp: parse_env_jv_def mhas_def split: if_splits jv.splits sum.splits option.splits)

lemma parse_from: "parse (serialize env) = Inr v \<Longrightarrow> wf_json (e_body env) \<Longrightarrow> e_from v = e_from env \<and> e_body v = e_body env"
  using parse_env_fields [of _ v] by (fastforce simp: parse_serialize_eq env_jv_def)

lemma transport_error_wf [simp]: "wf_json (transport_error_jv reason)"
  by (simp add: transport_error_jv_def)


lemma with_field_wf: "wf_json env \<Longrightarrow> wf_json v \<Longrightarrow> wf_json (with_field k v env)"
  using mkeys_update [of k v] by (cases env) (auto simp: with_field_def list_all_mput simp del: set_map)

lemma with_field_get: "jget (with_field k v env) k = v"
  by (cases env) (simp_all add: with_field_def)

lemma with_field_other: "k' \<noteq> k \<Longrightarrow> is_objlike env \<Longrightarrow> jget env k' \<noteq> JUndef \<Longrightarrow> jget (with_field k v env) k' = jget env k'"
  by (cases env) (simp_all add: with_field_def)

lemma parse_fields: "parse_env_jv raw = Inr v \<Longrightarrow> jget raw ''from'' = JStr (e_from v) \<and> jget raw ''body'' = e_body v \<and> parse_to (jget raw ''to'') = Inr (e_to v)"
  by (auto simp: parse_env_jv_def split: if_splits jv.splits sum.splits)

lemma jget_wf: "wf_json raw \<Longrightarrow> jget raw k \<noteq> JUndef \<Longrightarrow> wf_json (jget raw k)"
  by (cases raw) (auto simp: list_all_iff dest: map_of_SomeD split: option.splits)

lemma forward_line_ok: "forward_line line = Some (env, pc) \<Longrightarrow> is_objlike env \<and> wf_json env \<and> (\<exists>f i. jget env ''from'' = JStr f \<and> jget env ''id'' = JStr i)"
proof -
  assume a: "forward_line line = Some (env, pc)"
  then obtain o' where o: "json_parse line = Some o'" "env = jget o' ''envelope''" "is_objlike env"
      "\<exists>f i. jget env ''from'' = JStr f \<and> jget env ''id'' = JStr i"
    by (auto simp: forward_line_def Let_def split: option.splits if_splits jv.splits)
  have "wf_json o'" using o(1) by (rule json_parse_wf)
  moreover have "env \<noteq> JUndef" using o(3) by auto
  ultimately show ?thesis using jget_wf o by blast
qed

lemma inject_origin:
  assumes "e_from env = x" and "wf_json (e_body env)" and "snd (injectFromRemote h env b) \<noteq> b"
  obtains v c t where "snd (injectFromRemote h env b) = injected v c b" "e_from v = x" "e_body v = e_body env" "e_to v = ToName t"
    "mget (br_peers b) t = Some c"
proof -
  from inject_outcome [of h env b] assms(3) obtain v t c where
    "parse (serialize env) = Inr v" "e_to v = ToName t" "mget (br_peers b) t = Some c" "snd (injectFromRemote h env b) = injected v c b" by blast
  then show ?thesis using parse_from [of env v] assms that by blast
qed

lemma deliver_broker: "snd (snd (deliver_incoming h (broker_ops bh i r0) k rep n t (r, b))) = snd (injectFromRemote bh n b)"
  by (simp add: deliver_incoming_def split_def Let_def)

lemma sibling_origin:
  assumes "wf_json env" and "snd (snd (handle_sibling h (broker_ops bh i r0) k l env (r, b))) \<noteq> b"
  obtains v c t sender where "snd (snd (handle_sibling h (broker_ops bh i r0) k l env (r, b))) = injected v c b"
    "e_from v = l @ '':'' @ sender" "e_to v = ToName t" "mget (br_peers b) t = Some c"
proof -
  let ?B = "broker_ops bh i r0"
  obtain to where to: "jget env ''to'' = JStr to"
    using assms(2) by (cases "jget env ''to''") (simp_all add: handle_sibling_def)
  obtain sender target where st: "stripKnownPcPrefix (jget env ''from'') (mget (rt_legacy (rm_routing r)) k) = Some sender"
      "stripKnownPcPrefix (jget env ''to'') (Some (ri_legacyPcLabel (rt_self (rm_routing r)))) = Some target"
    using assms(2) to by (auto simp: handle_sibling_def split: option.splits)
  let ?raw = "with_field ''to'' (JStr target) (with_field ''from'' (JStr (l @ '':'' @ sender)) env)"
  obtain n where n: "parse (serialize_jv ?raw) = Inr n"
    using assms(2) to st by (cases "parse (serialize_jv ?raw)") (simp_all add: handle_sibling_def)
  have "json_parse (serialize_jv ?raw) = Some ?raw"
    using assms(1) by (intro json_parse_line with_field_wf) simp_all
  then have pe: "parse_env_jv ?raw = Inr n" using n by (simp add: parse_def)
  have "jget ?raw ''from'' = JStr (l @ '':'' @ sender)"
    by (subst with_field_other) (simp_all add: with_field_get with_field_def split: jv.split)
  then have frm: "e_from n = l @ '':'' @ sender" using parse_fields [OF pe] by simp
  have w: "wf_json (e_body n)" using n by (rule parse_body_wf)
  have "snd (snd (handle_sibling h ?B k l env (r, b))) = b \<or>
      (\<exists>rep t. snd (snd (handle_sibling h ?B k l env (r, b))) = snd (snd (deliver_incoming h ?B k rep n t (r, b))))"
    using to st n by (auto simp: handle_sibling_def split_def Let_def split: dest.split option.split sum.split)
  then have e: "snd (snd (handle_sibling h ?B k l env (r, b))) = snd (injectFromRemote bh n b)"
    using assms(2) by (auto simp: deliver_broker)
  show ?thesis
    by (rule inject_origin [OF frm w, of bh b]) (use assms(2) that in \<open>auto simp: e\<close>)
qed

lemma transport_outcome:
  "snd (propagateTransportError B env (r, b)) = b \<or>
   (\<exists>ve reason. snd (propagateTransportError B env (r, b)) = snd (lb_inject B ve b) \<and> e_from ve = BROKER_NAME \<and>
      e_body ve = transport_error_jv reason)"
proof (cases "\<exists>uid re t reason. normalize_relay_id (jstr (jget env ''id'')) = Some uid \<and> jget env ''re'' = JStr re \<and>
    stripKnownPcPrefix (jget env ''to'') (Some (ri_legacyPcLabel (rt_self (rm_routing r)))) = Some t \<and>
    as_transport_error_body (jget env ''body'') = Some reason")
  case False
  then have "snd (propagateTransportError B env (r, b)) = b"
    unfolding propagateTransportError_def prod.case by (auto split: bool.split option.split jv.split)
  then show ?thesis by blast
next
  case True
  then obtain uid re t reason where e: "normalize_relay_id (jstr (jget env ''id'')) = Some uid" "jget env ''re'' = JStr re"
    "stripKnownPcPrefix (jget env ''to'') (Some (ri_legacyPcLabel (rt_self (rm_routing r)))) = Some t"
    "as_transport_error_body (jget env ''body'') = Some reason" by blast
  let ?ve = "\<lparr>e_from = BROKER_NAME, e_to = ToName t, e_id = uid, e_re = Some re, e_body = transport_error_jv reason\<rparr>"
  have "snd (propagateTransportError B env (r, b)) = b \<or> snd (propagateTransportError B env (r, b)) = snd (lb_inject B ?ve b)"
    unfolding propagateTransportError_def prod.case by (cases "jget env ''from'' = JStr ''_relay''") (simp_all add: e)
  moreover have "e_from ?ve = BROKER_NAME" "e_body ?ve = transport_error_jv reason" by simp_all
  ultimately show ?thesis by blast
qed

text \<open>C11: no line of the relay can speak under a false name. Whatever the line, the local broker either stays as it was or delivers one
  envelope to one registered peer; that envelope is from the label of the sibling whose authenticated key
  the frame carries, or, for the sentinel of the relay, a transport error from the broker.\<close>

theorem incoming_authenticated:
  assumes "forward_line line = Some (env, pc)"
    and "handleIncoming sha h (broker_ops bh i r0) env pc (r, b) = (ok, r', b')"
  shows "b' = b \<or> (\<exists>v c t. b' = injected v c b \<and> e_to v = ToName t \<and> mget (br_peers b) t = Some c \<and> origin_ok r pc v)"
proof (cases "b' = b")
  case False
  have wf: "wf_json env" using forward_line_ok [OF assms(1)] by blast
  have act: "rm_lifecycle r = Active" using assms(2) False by (auto simp: handleIncoming_def split: if_splits)
  show ?thesis
  proof (cases "pc = ''_relay''")
    case True
    then have b': "b' = snd (propagateTransportError (broker_ops bh i r0) env (r, b))"
      using assms(2) act by (auto simp: handleIncoming_def split_def)
    obtain reason ve where ve: "b' = snd (injectFromRemote bh ve b)" "e_from ve = BROKER_NAME" "e_body ve = transport_error_jv reason"
      using b' False transport_outcome [of "broker_ops bh i r0" env r b] by auto
    have w: "wf_json (e_body ve)" using ve(3) by simp
    show ?thesis
      by (rule inject_origin [OF ve(2) w, of bh b]) (use ve False True in \<open>auto simp: origin_ok_def\<close>)
  next
    case other: False
    obtain key where key: "decodeEd25519PublicKey pc ''from_pc'' = Inr key"
      using assms(2) act other False by (auto simp: handleIncoming_def split: sum.splits)
    have "length key = 32" using key decode_only_spelling by blast
    then have e: "encodeEd25519PublicKey key f = Inr (b64_encode key)" for f
      by (simp add: encodeEd25519PublicKey_def ED25519_PUBLIC_KEY_BYTES_def)
    obtain x xs where l: "mget (rt_by_key (rm_routing r)) (b64_encode key) = Some (x # xs)"
      using assms(2) act other False key e by (auto simp: handleIncoming_def split: option.splits list.splits)
    have b': "b' = snd (snd (handle_sibling h (broker_ops bh i r0) (b64_encode key) (x # xs) env (r, b)))"
      using assms(2) act other key e l by (simp add: handleIncoming_def)
    show ?thesis
      by (rule sibling_origin [OF wf False [unfolded b']]) (use b' key l other in \<open>auto simp: origin_ok_def\<close>)
  qed
qed simp


section \<open>From machine to machine\<close>

lemma relay_no_key: "isl (decodeEd25519PublicKey ''_relay'' [])"
  by code_simp

lemma strip_known: "r \<noteq> [] \<Longrightarrow> stripKnownPcPrefix (JStr (l @ '':'' @ r)) (Some l) = Some r"
  by (simp add: stripKnownPcPrefix_def starts_with_iff)

lemma with_field_env:
  "with_field ''from'' (JStr x) (env_jv e) = env_jv (e\<lparr>e_from := x\<rparr>)"
  "with_field ''to'' (JStr t) (env_jv e) = env_jv (e\<lparr>e_to := ToName t\<rparr>)"
  by (simp_all add: with_field_def env_jv_def)

lemma env_jv_get: "jget (env_jv e) ''from'' = JStr (e_from e)" "jget (env_jv e) ''to'' = dest_jv (e_to e)" "jget (env_jv e) ''id'' = JStr (e_id e)"
  by (simp_all add: env_jv_def)

text \<open>The frame the relay makes of a forwarded envelope.\<close>

definition relay_frame :: "string \<Rightarrow> envelope \<Rightarrow> string" where
  "relay_frame pc env = stringify (JObj [(''type'', JStr ''pi_envelope_in''), (''from_pc'', JStr pc), (''envelope'', env_jv env)])"

lemma relay_frame_parses: "wf_json (e_body env) \<Longrightarrow> forward_line (relay_frame pc env) = Some (env_jv env, pc)"
proof -
  assume w: "wf_json (e_body env)"
  let ?v = "JObj [(''type'', JStr ''pi_envelope_in''), (''from_pc'', JStr pc), (''envelope'', env_jv env)]"
  have "wf_json ?v" using env_jv_wf [OF w] by simp
  then have "json_parse (relay_frame pc env) = Some ?v" using json_round_trip [of ?v "[]"] by (simp add: relay_frame_def)
  moreover have "is_objlike (env_jv env)" by (simp add: env_jv_def)
  ultimately show ?thesis by (simp add: forward_line_def env_jv_get)
qed

lemma outbound_rewrites:
  assumes "rm_lifecycle r = Active" and "\<forall>n. \<not> rh_throws h n" and "mget (rt_by_label (rm_routing r)) lab = Some k" and "k \<noteq> []"
    and "mget (rt_legacy (rm_routing r)) k = Some leg" and "leg \<noteq> []"
    and "e_to env = ToName (lab @ '':'' @ addr)" and "lab \<noteq> []" and "CHR '':'' \<notin> set lab" and "addr \<noteq> []"
  shows "\<exists>r'. tryRouteOutbound h env r = (Some True, r') \<and>
    Sent k (env\<lparr>e_from := ri_legacyPcLabel (rt_self (rm_routing r)) @ '':'' @ e_from env, e_to := ToName (leg @ '':'' @ addr)\<rparr>) \<in> set (rm_log r')"
proof -
  let ?e = "env\<lparr>e_from := ri_legacyPcLabel (rt_self (rm_routing r)) @ '':'' @ e_from env, e_to := ToName (leg @ '':'' @ addr)\<rparr>"
  have pa: "parse_address (lab @ '':'' @ addr) = Some (lab, addr)" unfolding parse_address_split using assms(8-10) by simp
  obtain r1 where s: "sendEnvelopeToPi h k ?e r = (True, r1)" "rm_log r1 = rm_log r @ [Sent k ?e]"
    using send_no_throw(1,2) [OF assms(2), of k ?e r] by (cases "sendEnvelopeToPi h k ?e r") simp
  obtain r2 where c: "sendControlEnvelope h k peers_request_body r1 = (True, r2)"
    using send_no_throw(3) [OF assms(2), of k peers_request_body r1] by (cases "sendControlEnvelope h k peers_request_body r1") simp
  have "\<exists>e. rm_log r2 = rm_log r1 @ [e]"
    using c assms(2) by (auto simp: sendControlEnvelope_def fresh_id_def sendEnvelopeToPi_def put_log_def Let_def)
  then have "Sent k ?e \<in> set (rm_log (awaitPeersFill k r2))" using s(2) by (auto simp: awaitPeersFill_def Let_def)
  moreover have "tryRouteOutbound h env r = routeToCanonicalSibling h k env r"
    unfolding tryRouteOutbound_def assms(7) dest.case pa using assms(1,3,4) by simp
  moreover have "routeToCanonicalSibling h k env r = (Some True, if mhas (rm_cache r1) k then r1 else awaitPeersFill k r2)"
    unfolding routeToCanonicalSibling_def assms(7) dest.case pa using assms(5,6) s(1) c by simp
  moreover have "Sent k ?e \<in> set (rm_log r1)" using s(2) by simp
  ultimately show ?thesis by auto
qed

text \<open>C10: a message crosses from one machine to another unchanged. Machine A routes an envelope addressed to a sibling label; it sends the sibling's key a
  rewritten envelope. Machine B, given that envelope in a frame that names the key of A, writes to the addressed local peer exactly the
  original envelope, with the sender prefixed by the label B knows A by and the target without its prefix,
  and, when it is not itself an ack, sends A an ack that refers to it. The machines need to agree on their
  legacy labels.\<close>

theorem cross_machine_delivery:
  assumes "rm_lifecycle ra = Active" and "\<forall>n. \<not> rh_throws ha n" and "mget (rt_by_label (rm_routing ra)) lab = Some kb" and "kb \<noteq> []"
    and "mget (rt_legacy (rm_routing ra)) kb = Some (ri_legacyPcLabel (rt_self (rm_routing rb)))" and "ri_legacyPcLabel (rt_self (rm_routing rb)) \<noteq> []"
    and "e_to env = ToName (lab @ '':'' @ addr)" and "lab \<noteq> []" and "CHR '':'' \<notin> set lab"
    and "rm_lifecycle rb = Active" and "\<forall>n. \<not> rh_throws hb n" and "length ka = 32"
    and "mget (rt_by_key (rm_routing rb)) (b64_encode ka) = Some la" and "la \<noteq> []"
    and "mget (rt_legacy (rm_routing rb)) (b64_encode ka) = Some (ri_legacyPcLabel (rt_self (rm_routing ra)))"
    and "wf_env env" and "wf_json (e_body env)" and "e_from env \<noteq> control_endpoint"
    and "mget (br_peers b) addr = Some c" and "\<not> h_throws bh c" and "addr \<notin> {[], ''broadcast'', BROKER_NAME}"
  shows "\<exists>wire ra' ok rb' b'. tryRouteOutbound ha env ra = (Some True, ra') \<and> Sent kb wire \<in> set (rm_log ra') \<and>
    forward_line (relay_frame (b64_encode ka) wire) = Some (env_jv wire, b64_encode ka) \<and>
    handleIncoming sha hb (broker_ops bh i r0) (env_jv wire) (b64_encode ka) (rb, b) = (ok, rb', b') \<and>
    b' = injected (env\<lparr>e_from := la @ '':'' @ e_from env, e_to := ToName addr\<rparr>) c b \<and>
    (body_type (e_body env) \<noteq> JStr ''ack'' \<longrightarrow>
       (\<exists>ack. Sent (b64_encode ka) ack \<in> set (rm_log rb') \<and> e_re ack = Some (e_id env) \<and> e_body ack = ack_body Received addr))"
proof -
  let ?lega = "ri_legacyPcLabel (rt_self (rm_routing ra))" and ?legb = "ri_legacyPcLabel (rt_self (rm_routing rb))"
  let ?ka = "b64_encode ka" and ?B = "broker_ops bh i r0"
  define wire where "wire = env\<lparr>e_from := ?lega @ '':'' @ e_from env, e_to := ToName (?legb @ '':'' @ addr)\<rparr>"
  define n where "n = env\<lparr>e_from := la @ '':'' @ e_from env, e_to := ToName addr\<rparr>"
  have addr: "addr \<noteq> []" "addr \<noteq> ''broadcast''" "addr \<noteq> BROKER_NAME" using assms(21) by auto
  have "e_from env \<noteq> []" using assms(16) by (simp add: wf_env_def)
  have out: "\<exists>ra'. tryRouteOutbound ha env ra = (Some True, ra') \<and> Sent kb wire \<in> set (rm_log ra')"
    using outbound_rewrites [OF assms(1,2,3,4,5,6,7,8,9) addr(1)] by (simp add: wire_def)
  have dec: "decodeEd25519PublicKey ?ka f = Inr ka" for f by (rule kc.dec_enc) (simp add: key_ok_def assms(12))
  have enc: "encodeEd25519PublicKey ka f = Inr ?ka" for f
    using assms(12) by (simp add: encodeEd25519PublicKey_def ED25519_PUBLIC_KEY_BYTES_def)
  have nr: "?ka \<noteq> ''_relay''"
  proof
    assume "?ka = ''_relay''"
    then show False using dec [of "[]"] relay_no_key by simp
  qed
  have hi: "handleIncoming sha hb ?B (env_jv wire) ?ka (rb, b) = handle_sibling hb ?B ?ka la (env_jv wire) (rb, b)"
    using assms(10,13,14) nr dec enc by (cases la) (simp_all add: handleIncoming_def)
  have wfn: "wf_env n" using assms(16) addr(1) by (auto simp: wf_env_def n_def)
  have pn: "parse (serialize_jv (env_jv n)) = Inr n"
    using parse_serialize [OF wfn] assms(17) by (simp add: serialize_def n_def)
  have raw: "with_field ''to'' (JStr addr) (with_field ''from'' (JStr (la @ '':'' @ e_from env)) (env_jv wire)) = env_jv n"
    by (simp add: with_field_env wire_def n_def)
  have sf: "stripKnownPcPrefix (JStr (e_from wire)) (Some ?lega) = Some (e_from env)"
    "stripKnownPcPrefix (JStr (?legb @ '':'' @ addr)) (Some ?legb) = Some addr"
    using strip_known \<open>e_from env \<noteq> []\<close> addr(1) by (simp_all add: wire_def)
  have hs: "handle_sibling hb ?B ?ka la (env_jv wire) (rb, b) = deliver_incoming hb ?B ?ka (e_from wire) n addr (rb, b)"
    unfolding handle_sibling_def prod.case env_jv_get
    using assms(15,18) sf raw pn by (simp add: wire_def n_def jstr_def)
  have "parse (serialize n) = Inr n" using parse_serialize [OF wfn] assms(17) by (simp add: n_def)
  moreover have "e_to n = ToName addr" by (simp add: n_def)
  ultimately have inj: "injectFromRemote bh n b = (Received, injected n c b)"
    using addr(2,3) assms(19,20) by (simp add: injectFromRemote_def try_write_def injected_def)
  have di: "snd (snd (deliver_incoming hb ?B ?ka (e_from wire) n addr (rb, b))) = injected n c b"
    using inj by (simp add: deliver_broker)
  have ack: "\<exists>ack. Sent ?ka ack \<in> set (rm_log (fst (snd (deliver_incoming hb ?B ?ka (e_from wire) n addr (rb, b))))) \<and>
      e_re ack = Some (e_id env) \<and> e_body ack = ack_body Received addr" if "body_type (e_body env) \<noteq> JStr ''ack''"
    using that inj assms(11)
    by (simp add: deliver_incoming_def fresh_id_def sendEnvelopeToPi_def put_log_def Let_def n_def) (metis envelope.select_convs(4,5))
  have rel: "forward_line (relay_frame ?ka wire) = Some (env_jv wire, ?ka)"
    by (rule relay_frame_parses) (simp add: wire_def assms(17))
  obtain ra' where "tryRouteOutbound ha env ra = (Some True, ra')" "Sent kb wire \<in> set (rm_log ra')" using out by blast
  obtain ok rb' b' where d: "deliver_incoming hb ?B ?ka (e_from wire) n addr (rb, b) = (ok, rb', b')" by (metis prod_cases3)
  have "handleIncoming sha hb ?B (env_jv wire) ?ka (rb, b) = (ok, rb', b')" using hi hs d by simp
  moreover have "b' = injected n c b" using di d by simp
  moreover have "body_type (e_body env) \<noteq> JStr ''ack'' \<longrightarrow>
      (\<exists>ack. Sent ?ka ack \<in> set (rm_log rb') \<and> e_re ack = Some (e_id env) \<and> e_body ack = ack_body Received addr)" using ack d by simp
  moreover note rel \<open>tryRouteOutbound ha env ra = (Some True, ra')\<close> \<open>Sent kb wire \<in> set (rm_log ra')\<close>
  ultimately show ?thesis unfolding n_def by blast
qed

section \<open>Rosters\<close>

lemma control_update:
  assumes "rm_lifecycle rb = Active" and "length ka = 32" and "mget (rt_by_key (rm_routing rb)) (b64_encode ka) = Some la" and "la \<noteq> []"
    and "mget (rt_legacy (rm_routing rb)) (b64_encode ka) = Some lega"
    and "wf_env e" and "wf_json (e_body e)" and "e_from e = control_address lega"
    and "e_to e = ToName (control_address (ri_legacyPcLabel (rt_self (rm_routing rb))))"
    and "body_type (e_body e) = JStr ''peers_update''" and "parsePeersUpdate (e_body e) = Some infos"
  shows "handleIncoming sha h B (env_jv e) (b64_encode ka) (rb, b) = (True, setRemoteCache (b64_encode ka) infos rb, b)"
proof -
  let ?ka = "b64_encode ka" and ?legb = "ri_legacyPcLabel (rt_self (rm_routing rb))"
  define n where "n = e\<lparr>e_from := la @ '':'' @ control_endpoint, e_to := ToName control_endpoint\<rparr>"
  have dec: "decodeEd25519PublicKey ?ka f = Inr ka" for f by (rule kc.dec_enc) (simp add: key_ok_def assms(2))
  have enc: "encodeEd25519PublicKey ka f = Inr ?ka" for f
    using assms(2) by (simp add: encodeEd25519PublicKey_def ED25519_PUBLIC_KEY_BYTES_def)
  have nr: "?ka \<noteq> ''_relay''" using dec [of "[]"] relay_no_key by auto
  have hi: "handleIncoming sha h B (env_jv e) ?ka (rb, b) = handle_sibling h B ?ka la (env_jv e) (rb, b)"
    using assms(1,3,4) nr dec enc by (cases la) (simp_all add: handleIncoming_def)
  have ce: "control_endpoint \<noteq> []" "control_address l = l @ '':'' @ control_endpoint" for l by (simp_all add: control_endpoint_def control_address_def)
  have sf: "stripKnownPcPrefix (JStr (control_address l)) (Some l) = Some control_endpoint" for l
    unfolding ce(2) using ce(1) by (rule strip_known)
  have "wf_env n" using assms(6) by (auto simp: wf_env_def n_def control_endpoint_def)
  then have pn: "parse (serialize_jv (env_jv n)) = Inr n"
    using parse_serialize assms(7) by (simp add: serialize_def n_def)
  have raw: "with_field ''to'' (JStr control_endpoint) (with_field ''from'' (JStr (la @ '':'' @ control_endpoint)) (env_jv e)) = env_jv n"
    by (simp add: with_field_env n_def)
  have to: "jget (env_jv e) ''to'' = JStr (control_address ?legb)" and frm: "jget (env_jv e) ''from'' = JStr (control_address lega)"
    using assms(8,9) by (simp_all add: env_jv_get)
  have ne: "e_to n = ToName control_endpoint" "e_body n = e_body e" by (simp_all add: n_def)
  have "handle_sibling h B ?ka la (env_jv e) (rb, b) = (True, setRemoteCache ?ka infos rb, b)"
    unfolding handle_sibling_def prod.case to frm jv.case
    using raw pn by (simp add: assms(5,10,11) sf ne)
  then show ?thesis using hi by simp
qed

section \<open>What is listed can be reached\<close>

lemma cached_rosters_in:
  "(label, infos) \<in> set (fst (cached_rosters ks r)) \<Longrightarrow> i \<in> set infos \<Longrightarrow>
     \<exists>k entry. (k, label) \<in> set ks \<and> mget (rm_cache r) k = Some entry \<and> i \<in> set (pe_infos entry) \<and> rm_now r - pe_ts entry \<le> rm_ttl r"
proof (induction ks arbitrary: r)
  case (Cons p ks)
  obtain k l where p: "p = (k, l)" by fastforce
  obtain got r1 where 1: "remoteInfosByPubkey k r = (got, r1)" by fastforce
  obtain rest r2 where 2: "cached_rosters ks r1 = (rest, r2)" by fastforce
  have r1: "r1 = r \<or> r1 = r\<lparr>rm_cache := mdel k (rm_cache r)\<rparr>"
    using 1 by (auto simp: remoteInfosByPubkey_def split: option.splits if_splits)
  have "(label, infos) = (l, got) \<or> (label, infos) \<in> set (fst (cached_rosters ks r1))"
    using Cons.prems(1) by (simp add: p 1 2)
  then show ?case
  proof
    assume "(label, infos) = (l, got)"
    then show ?thesis using 1 Cons.prems(2) p by (auto simp: remoteInfosByPubkey_def split: option.splits if_splits)
  next
    assume "(label, infos) \<in> set (fst (cached_rosters ks r1))"
    from Cons.IH [OF this Cons.prems(2)] obtain k' entry where e: "(k', label) \<in> set ks" "mget (rm_cache r1) k' = Some entry"
      "i \<in> set (pe_infos entry)" "rm_now r1 - pe_ts entry \<le> rm_ttl r1" by blast
    have "mget (rm_cache r) k' = Some entry" "rm_now r - pe_ts entry \<le> rm_ttl r"
      using r1 e(2,4) by (auto split: if_splits)
    then show ?thesis using e(1,3) p by auto
  qed
qed simp

lemma routeTo_claims:
  assumes "routing_ok (rm_routing r)" and "rm_lifecycle r = Active" and "\<forall>n. \<not> rh_throws h n"
    and "mget (rt_by_key (rm_routing r)) k = Some label" and "addr \<noteq> []" and "e_to env = ToName (label @ '':'' @ addr)"
  shows "fst (tryRouteOutbound h env r) = Some True"
proof -
  have l: "label \<noteq> []" "CHR '':'' \<notin> set label" "canon_key k" "mget (rt_by_label (rm_routing r)) label = Some k"
    using assms(1,4) by (auto simp: routing_ok_def)
  have "mhas (rt_legacy (rm_routing r)) k"
  proof -
    have "mhas (rt_by_key (rm_routing r)) k" using assms(4) by (simp add: mhas_def)
    then show ?thesis using assms(1) unfolding mhas_keys routing_ok_def by simp
  qed
  then obtain leg where leg: "mget (rt_legacy (rm_routing r)) k = Some leg" by (auto simp: mhas_def)
  have "leg \<noteq> []" using assms(1) leg by (auto simp: routing_ok_def)
  from outbound_rewrites [OF assms(2,3) l(4) canon_key_ne [OF l(3)] leg this assms(6) l(1,2) assms(5)]
  show ?thesis by fastforce
qed

text \<open>Whatever the router lists can be reached. Each remote peer in its listing comes from the roster of a current
  sibling no older than the cache lifetime, is shown under that sibling's label, and a message to the
  address shown is taken by the router.\<close>

theorem listed_peers_routable:
  assumes "remote_reachable sha h B (r, b)" and "rm_lifecycle r = Active" and "\<forall>n. \<not> rh_throws h n"
    and "p \<in> set (fst (listRemotePeerInfos r))"
  shows "\<exists>k label entry i. mget (rt_by_key (rm_routing r)) k = Some label \<and> mget (rm_cache r) k = Some entry \<and>
    rm_now r - pe_ts entry \<le> rm_ttl r \<and> i \<in> set (pe_infos entry) \<and> pi_pc p = Some label \<and> pi_address p = label @ '':'' @ wp_address i \<and>
    (\<forall>env. wp_address i \<noteq> [] \<and> e_to env = ToName (pi_address p) \<longrightarrow> fst (tryRouteOutbound h env r) = Some True)"
proof -
  have ok: "routing_ok (rm_routing r)" using remote_reachable_inv [OF assms(1)] by (simp add: remote_inv_def)
  obtain label infos i where li: "(label, infos) \<in> set (fst (all_rosters r))" "i \<in> set infos" "pi_pc p = Some label" "pi_address p = label @ '':'' @ wp_address i"
    using assms(4) by (auto simp: listRemotePeerInfos_def split_def Let_def)
  obtain k entry where k: "(k, label) \<in> set (rt_by_key (rm_routing r))" "mget (rm_cache r) k = Some entry" "i \<in> set (pe_infos entry)"
    "rm_now r - pe_ts entry \<le> rm_ttl r"
    using cached_rosters_in li(1,2) unfolding all_rosters_def by blast
  have "mget (rt_by_key (rm_routing r)) k = Some label" using ok k(1) mwf_mget unfolding routing_ok_def by metis
  then show ?thesis using k li routeTo_claims [OF ok assms(2,3)] by metis
qed

section \<open>Local peers stay local\<close>

text \<open>The router as the interface of the broker. A throw in the router ends the routing of that envelope.\<close>

definition remote_router :: "remote_host \<Rightarrow> remote router_ops" where
  "remote_router h = \<lparr>
     try_outbound = (\<lambda>env r. (case tryRouteOutbound h env r of (Some claimed, r') \<Rightarrow> (claimed, r') | (None, r') \<Rightarrow> (True, r'))),
     remote_peers = listRemotePeers, remote_infos = listRemotePeerInfos\<rparr>"

lemma local_prefix:
  assumes "entry_ok b a c" and "br_conns b c = Some p" and "\<not> isWindowsDriveAbsolutePath (pc_cwd p)"
    and "parse_address a = Some (lab, rest)"
  shows "\<not> plain lab"
proof -
  have p: "a = compose_address None (pc_cwd p) (pc_name p)" "mesh_name (pc_name p)" "isValidRegisteredCwd (pc_cwd p)"
    using assms(1,2) by (auto simp: entry_ok_def)
  have a: "a = lab @ '':'' @ rest" "lab \<noteq> []" using assms(4) unfolding parse_address_split by auto
  have "pc_cwd p \<noteq> []"
  proof
    assume "pc_cwd p = []"
    then have "pc_name p = lab @ '':'' @ rest" using p(1) a(1) by (simp add: compose_address_def)
    then have "CHR '':'' \<in> set (pc_name p)" by simp
    then show False using mesh_name_chars(3) [OF p(2)] by contradiction
  qed
  then have "is_slash (hd (pc_cwd p))"
    using p(3) assms(3) by (cases "pc_cwd p" rule: unc_absolute.cases)
      (auto simp: isValidRegisteredCwd_def posix_absolute_def is_slash_def hd_is_def split: if_splits)
  moreover have "hd lab = hd (pc_cwd p)"
    using \<open>pc_cwd p \<noteq> []\<close> p(1) a by (cases "pc_cwd p"; cases lab) (simp_all add: compose_address_def)
  ultimately have "CHR ''/'' \<in> set lab \<or> BSL \<in> set lab" using a(2) hd_in_set [of lab] by (auto simp: is_slash_def)
  then show ?thesis by (auto simp: plain_def BSL_def)
qed

text \<open>The router never takes a message away from a local peer. If the router's tables come from a discovered topology, an envelope to the
  address of a registered local peer is not claimed, whether its directory is a POSIX, a UNC or a Windows
  drive path, although such addresses may contain colons.\<close>

theorem local_peers_stay_local:
  assumes "broker_inv b" and "br_router b = Some (i, r)" and "buildTopologySnapshot my ms = Inr t" and "rm_routing r = routing_of t"
    and "mget (br_peers b) a = Some c" and "e_to env = ToName a"
  shows "offer_remote (remote_router h) env b = (False, b)"
proof -
  obtain p where p: "br_conns b c = Some p" and e: "entry_ok b a c"
    using assms(1,5) reg_okD unfolding broker_inv_def by (metis entry_okD)
  show ?thesis
  proof (cases "isWindowsDriveAbsolutePath (pc_cwd p)")
    case True
    then show ?thesis using assms(2,5,6) p by (simp add: offer_remote_def exact_windows_local_def)
  next
    case False
    have "mget (rt_by_label (rm_routing r)) lab = None" if "parse_address a = Some (lab, rest)" for lab rest
    proof -
      have "\<not> plain lab" using local_prefix [OF e p False that] .
      then have "lab \<notin> set (map ri_pcLabel (tp_siblings t))" using snapshot_facts [OF assms(3)] by auto
      then have "\<not> mhas (rt_by_label (routing_of t)) lab" by (simp add: mhas_keys routing_of_def comp_def del: set_map)
      then show ?thesis by (simp add: assms(4) mhas_def)
    qed
    then have "tryRouteOutbound h env r = (Some False, r)"
      by (simp add: tryRouteOutbound_def assms(6) split: option.split prod.split)
    then show ?thesis using False assms(2,5,6) p
      by (simp add: offer_remote_def exact_windows_local_def remote_router_def)
  qed
qed


section \<open>Reachable routers\<close>

text \<open>C12: in every state a router can reach, through any sequence of activation, detaching, topology changes, timers, incoming and
  outbound traffic, what it remembers is about current siblings only: cached rosters, pending fills and refreshes
  to retry. Every roster fill it started is either still pending for exactly one sibling or has been resolved exactly once. An
  inactive router has no timer, no pending fill and nothing to retry, and its own key never changes.\<close>

theorem router_state_sound:
  assumes "remote_reachable sha h B (r, b)"
  shows "set (mkeys (rm_cache r)) \<union> set (mkeys (rm_pending r)) \<union> set (rm_refresh r) \<subseteq> set (sibling_keys r) \<and>
    mset (concat (mvals (rm_pending r))) + mset (resolved (rm_log r)) = mset [0..<rm_slots r] \<and>
    (rm_lifecycle r \<noteq> Active \<longrightarrow> \<not> rm_timer r \<and> rm_pending r = [] \<and> rm_refresh r = []) \<and>
    ri_pcPubkey (rt_self (rm_routing r)) = rm_technical r \<and> routing_ok (rm_routing r)"
  using remote_reachable_inv [OF assms] by (auto simp: remote_inv_def fills_ok_def)

section \<open>Two machines\<close>

definition quiet :: remote_host where
  "quiet = \<lparr>rh_ts = (\<lambda>_. 5), rh_rand = (\<lambda>_. replicate 10 0), rh_throws = (\<lambda>_. False)\<rparr>"

definition machine_a :: routing where
  "machine_a = \<lparr>rt_self = \<lparr>ri_pcPubkey = b64_encode demo_key, ri_pcLabel = ''ann'', ri_legacyPcLabel = ''Ann''\<rparr>,
     rt_by_label = [(''bob'', b64_encode (rev demo_key))], rt_by_key = [(b64_encode (rev demo_key), ''bob'')],
     rt_legacy = [(b64_encode (rev demo_key), ''Bob: the 2nd'')]\<rparr>"

definition machine_b :: routing where
  "machine_b = \<lparr>rt_self = \<lparr>ri_pcPubkey = b64_encode (rev demo_key), ri_pcLabel = ''bob'', ri_legacyPcLabel = ''Bob: the 2nd''\<rparr>,
     rt_by_label = [(''ann'', b64_encode demo_key)], rt_by_key = [(b64_encode demo_key, ''ann'')],
     rt_legacy = [(b64_encode demo_key, ''Ann'')]\<rparr>"

definition running :: "routing \<Rightarrow> remote" where
  "running rt = \<lparr>rm_technical = ri_pcPubkey (rt_self rt), rm_ttl = CACHE_TTL_MS, rm_interval = REANNOUNCE_INTERVAL_MS, rm_routing = rt,
     rm_cache = [], rm_refresh = [], rm_pending = [], rm_timer = True, rm_lifecycle = Active, rm_slots = 0, rm_uuids = 0, rm_sends = 0,
     rm_now = 0, rm_log = []\<rparr>"

definition to_bob :: envelope where
  "to_bob = (env_to (ToName ''bob:/w@a''))\<lparr>e_from := ''/home/ann@x''\<rparr>"

lemma uuid_demo: "uuid_re (uuidv7 7 (replicate 10 0))"
  by code_simp

lemma cross_machine_delivery_witness:
  "\<exists>wire ok rb' b'. handleIncoming id quiet (broker_ops demo_host 7 ()) (env_jv wire) (b64_encode demo_key) (running machine_b, demo) = (ok, rb', b') \<and>
     b' = injected (to_bob\<lparr>e_from := ''ann:/home/ann@x'', e_to := ToName ''/w@a''\<rparr>) 10 demo"
proof -
  have k: "b64_encode (rev demo_key) \<noteq> []" by code_simp
  have w: "wf_env to_bob" using uuid_demo by (simp add: wf_env_def to_bob_def env_to_def)
  show ?thesis
    using cross_machine_delivery [of "running machine_a" quiet "''bob''" "b64_encode (rev demo_key)" "running machine_b" to_bob "''/w@a''"
        quiet demo_key "''ann''" demo 10 demo_host id 7 "()"] k w
    by (simp add: running_def machine_a_def machine_b_def quiet_def to_bob_def env_to_def demo_peers control_endpoint_def BROKER_NAME_def)
      (auto simp: demo_key_def)
qed

lemma demo_sound: "broker_inv demo"
  using broker_reachable_inv [OF demo_reachable] .

definition dormant_b :: remote where
  "dormant_b = (running machine_b)\<lparr>rm_timer := False, rm_lifecycle := Dormant\<rparr>"

lemma activation_announces_witness:
  "\<exists>r' body. activate quiet (broker_ops demo_host 7 ()) (dormant_b, demo) = (None, r', setRemoteRouter (Some (7, ())) demo) \<and>
     parsePeersUpdate body = Some (map wire_of (localPeerInfos demo)) \<and>
     sent_bodies (rm_log r') = [(b64_encode demo_key, peers_request_body), (b64_encode demo_key, body)]"
proof -
  have d: "rm_lifecycle dormant_b = Dormant" "\<forall>n. \<not> rh_throws quiet n" "sent_bodies (rm_log dormant_b) = []" "sibling_keys dormant_b = [b64_encode demo_key]"
    by (simp_all add: dormant_b_def quiet_def running_def sibling_keys_def machine_b_def)
  from activation_announces [OF demo_sound d(1,2), of demo_host 7 "()"] show ?thesis unfolding d(3,4) by auto
qed


definition top_b :: topology where
  "top_b = \<lparr>tp_self = rt_self machine_b,
     tp_siblings = [\<lparr>ri_pcPubkey = b64_encode demo_key, ri_pcLabel = ''ann'', ri_legacyPcLabel = ''Ann''\<rparr>]\<rparr>"

lemma demo_canon: "canon_key (b64_encode demo_key)" "canon_key (b64_encode (rev demo_key))"
  by (auto simp: canon_key_def demo_key_def intro: exI [of _ demo_key] exI [of _ "rev demo_key"])

lemma demo_keys_differ: "b64_encode demo_key \<noteq> b64_encode (rev demo_key)"
  by code_simp

lemma dormant_b_new: "new_remote top_b None None 0 = Inr dormant_b"
proof -
  have i: "identity_ok (rt_self machine_b)" "\<forall>i \<in> set (tp_siblings top_b). identity_ok i"
    using demo_canon by (simp_all add: identity_ok_def machine_b_def top_b_def)
  have "tp_self top_b = rt_self machine_b" by (simp add: top_b_def)
  then have "buildRoutingState top_b None = Inr machine_b"
    using check_identity_id [OF i(1)] check_siblings_id [OF i(2)] demo_keys_differ
    by (simp add: buildRoutingState_def) (simp add: top_b_def machine_b_def mhas_def)
  then show ?thesis by (simp add: new_remote_def dormant_b_def running_def)
qed

definition active_b :: remote where
  "active_b = fst (snd (activate quiet (broker_ops demo_host 7 ()) (dormant_b, demo)))"

lemma active_b: "remote_reachable id quiet (broker_ops demo_host 7 ()) (active_b, setRemoteRouter (Some (7, ())) demo)"
  "rm_routing active_b = machine_b" "rm_lifecycle active_b = Active" "rm_ttl active_b = CACHE_TTL_MS"
proof -
  let ?B = "broker_ops demo_host 7 ()"
  let ?ms = "concat (map (\<lambda>k. [(k, peers_request_body), (k, peers_update_body (map pi_address (localPeerInfos demo)) (map wire_of (localPeerInfos demo)))]) (sibling_keys dormant_b))"
  have q: "\<forall>n. \<not> rh_throws quiet n" by (simp add: quiet_def)
  have d: "rm_lifecycle dormant_b = Dormant" by (simp add: dormant_b_def)
  have a: "activate quiet ?B (dormant_b, demo) = (None, (snd (send_all quiet ?ms (put_log Subscribed dormant_b)))
      \<lparr>rm_refresh := [], rm_timer := 0 < rm_interval dormant_b, rm_lifecycle := Active\<rparr>, setRemoteRouter (Some (7, ())) demo)"
  proof (rule lb.activation_succeeds [OF demo_sound d, unfolded broker_ops_simps])
    show "fst (send_all quiet ?ms r)" for r using send_all_no_throw [OF q] by (rule conjunct1)
  qed (rule refl)
  have c: "same_core dormant_b (snd (send_all quiet ?ms (put_log Subscribed dormant_b)))"
    by (rule same_core_trans [OF same_core_log same_core_send_all]) simp
  show "rm_routing active_b = machine_b" "rm_lifecycle active_b = Active" "rm_ttl active_b = CACHE_TTL_MS"
    unfolding active_b_def a using same_coreD(2,10) [OF c] by (simp_all add: dormant_b_def running_def)
  have "remote_reachable id quiet ?B (snd (activate quiet ?B (dormant_b, demo)))"
    using remote_reachable.stepped [OF remote_reachable.created [OF dormant_b_new] remote_step.activated] .
  then show "remote_reachable id quiet ?B (active_b, setRemoteRouter (Some (7, ())) demo)"
    unfolding active_b_def a by simp
qed

text \<open>A roster that machine A announces.\<close>

definition ann_roster :: envelope where
  "ann_roster = \<lparr>e_from = control_address ''Ann'', e_to = ToName (control_address ''Bob: the 2nd''), e_id = uuidv7 7 (replicate 10 0), e_re = None,
     e_body = peers_update_body [''/h@x''] [\<lparr>wp_cwd = ''/h'', wp_name = ''x'', wp_address = ''/h@x''\<rparr>]\<rparr>"

lemma fold_now: "rm_now (fold (\<lambda>s. put_log (Resolved s)) ss r) = rm_now r \<and> rm_ttl (fold (\<lambda>s. put_log (Resolved s)) ss r) = rm_ttl r"
  by (induction ss arbitrary: r) (simp_all add: put_log_def)

definition informed_b :: remote where
  "informed_b = setRemoteCache (b64_encode demo_key) [\<lparr>wp_cwd = ''/h'', wp_name = ''x'', wp_address = ''/h@x''\<rparr>] active_b"

lemma ann_roster_handled:
  "handleIncoming id quiet (broker_ops demo_host 7 ()) (env_jv ann_roster) (b64_encode demo_key) (active_b, b) = (True, informed_b, b)"
  unfolding informed_b_def
proof (rule control_update)
  show "wf_env ann_roster" using uuid_demo by (simp add: wf_env_def ann_roster_def control_address_def)
  show "parsePeersUpdate (e_body ann_roster) = Some [\<lparr>wp_cwd = ''/h'', wp_name = ''x'', wp_address = ''/h@x''\<rparr>]"
    by (simp add: ann_roster_def) code_simp
  show "wf_json (e_body ann_roster)" by (simp add: ann_roster_def peers_update_body_def wire_peer_jv_def)
  show "''ann'' \<noteq> []" by simp
  show "length demo_key = 32" by (simp add: demo_key_def)
qed (simp_all add: active_b machine_b_def ann_roster_def body_type_def peers_update_body_def)

lemma informed_b: "remote_reachable id quiet (broker_ops demo_host 7 ()) (informed_b, setRemoteRouter (Some (7, ())) demo)"
  "rm_lifecycle informed_b = Active"
  "fst (listRemotePeerInfos informed_b) = [\<lparr>pi_pc = Some ''ann'', pi_cwd = ''/h'', pi_name = ''x'', pi_address = ''ann:/h@x''\<rparr>]"
proof -
  show "remote_reachable id quiet (broker_ops demo_host 7 ()) (informed_b, setRemoteRouter (Some (7, ())) demo)"
    using remote_reachable.stepped [OF active_b(1) remote_step.incoming, of "env_jv ann_roster" "b64_encode demo_key"]
    unfolding ann_roster_handled by simp
  have s: "same_rest (active_b\<lparr>rm_cache := mput (b64_encode demo_key) \<lparr>pe_infos = [\<lparr>wp_cwd = ''/h'', wp_name = ''x'', wp_address = ''/h@x''\<rparr>],
       pe_pcPubkey = b64_encode demo_key, pe_ts = rm_now active_b\<rparr> (rm_cache active_b)\<rparr>) informed_b"
    unfolding informed_b_def setRemoteCache_def by (rule clear_fills(1))
  show "rm_lifecycle informed_b = Active" using s active_b(3) by (simp add: same_rest_def)
  have now: "rm_now informed_b = rm_now active_b" "rm_ttl informed_b = rm_ttl active_b"
    unfolding informed_b_def setRemoteCache_def clearPendingFills_def using fold_now by (simp_all split: option.split)
  have rt: "rm_routing informed_b = machine_b" using s active_b(2) by (simp add: same_rest_def)
  have "mget (rm_cache informed_b) (b64_encode demo_key) = Some \<lparr>pe_infos = [\<lparr>wp_cwd = ''/h'', wp_name = ''x'', wp_address = ''/h@x''\<rparr>],
       pe_pcPubkey = b64_encode demo_key, pe_ts = rm_now active_b\<rparr>" using s by (simp add: same_rest_def)
  then show "fst (listRemotePeerInfos informed_b) = [\<lparr>pi_pc = Some ''ann'', pi_cwd = ''/h'', pi_name = ''x'', pi_address = ''ann:/h@x''\<rparr>]"
    using now active_b(4) by (simp add: listRemotePeerInfos_def all_rosters_def rt machine_b_def remoteInfosByPubkey_def CACHE_TTL_MS_def)
qed

lemma listed_peers_routable_witness:
  "fst (tryRouteOutbound quiet (env_to (ToName ''ann:/h@x'')) informed_b) = Some True"
proof -
  have q: "\<forall>n. \<not> rh_throws quiet n" by (simp add: quiet_def)
  have p: "\<lparr>pi_pc = Some ''ann'', pi_cwd = ''/h'', pi_name = ''x'', pi_address = ''ann:/h@x''\<rparr> \<in> set (fst (listRemotePeerInfos informed_b))"
    by (simp add: informed_b(3))
  let ?env = "env_to (ToName ''ann:/h@x'')"
  from listed_peers_routable [OF informed_b(1,2) q p] show ?thesis unfolding peer_info.select_convs
  proof (elim exE conjE)
    fix k label entry i
    assume l: "Some ''ann'' = Some label" "''ann:/h@x'' = label @ '':'' @ wp_address i"
      and all: "\<forall>env. wp_address i \<noteq> [] \<and> e_to env = ToName ''ann:/h@x'' \<longrightarrow> fst (tryRouteOutbound quiet env informed_b) = Some True"
    have "wp_address i \<noteq> []" using l by auto
    then show ?thesis using all [rule_format, of ?env] by (simp add: env_to_def)
  qed
qed

lemma router_state_sound_witness: "set (mkeys (rm_cache informed_b)) \<subseteq> set (sibling_keys informed_b)"
  using router_state_sound [OF informed_b(1)] by blast

lemma incoming_authenticated_witness:
  "\<exists>b'. b' = snd (snd (handleIncoming id quiet (broker_ops demo_host 7 ()) (env_jv ann_roster) (b64_encode demo_key) (active_b, demo))) \<and>
     (b' = demo \<or> (\<exists>v c. b' = injected v c demo \<and> origin_ok active_b (b64_encode demo_key) v))"
proof -
  have "wf_json (e_body ann_roster)" by (simp add: ann_roster_def peers_update_body_def wire_peer_jv_def)
  from incoming_authenticated [OF relay_frame_parses [OF this] ann_roster_handled, of demo]
  show ?thesis unfolding ann_roster_handled by auto
qed

definition net_broker :: "remote broker" where
  "net_broker = \<lparr>br_conns = [10 \<mapsto> conn_a], br_peers = [(''/w@a'', 10)], br_orphaned = False, br_audit = False,
     br_router = Some (7, running (routing_of net_topology)), br_uuids = 0, br_log = []\<rparr>"

lemma demo_a_reachable: "broker_reachable demo_host demo_router demo_a"
  unfolding demo_a_def by (rule join_reachable [OF broker_reachable.start]) (simp_all add: new_broker_def)

lemma net_broker_sound: "broker_inv net_broker"
proof -
  have "entry_ok demo_a ''/w@a'' 10"
    using demo_a(1) broker_reachable_inv [OF demo_a_reachable] by (intro reg_okD) (simp_all add: broker_inv_def)
  then have e: "entry_ok net_broker ''/w@a'' 10" unfolding entry_ok_def demo_a(2) by (simp add: net_broker_def)
  then show ?thesis
    by (auto simp: broker_inv_def reg_ok_def live_ok_def filed_def mwf_def MAX_PEERS_UPDATE_ENTRIES_def)
      (auto simp: net_broker_def conn_a_def split: if_splits)
qed

lemma local_peers_stay_local_witness:
  "offer_remote (remote_router quiet) (env_to (ToName ''/w@a'')) net_broker = (False, net_broker)"
  by (rule local_peers_stay_local [OF net_broker_sound _ net_snapshot(1), where i = 7 and r = "running (routing_of net_topology)" and a = "''/w@a''" and c = 10])
    (simp_all add: net_broker_def running_def env_to_def)

end
