(* ===== verification/SelfRevoke.thy ===== *)
theory SelfRevoke
  imports Topology
begin

text \<open>
  Membership sweeps and self-revocation: \<^verbatim>\<open>extension/src/mesh/self_revoke.ts\<close>.

  A sweep is an async method; the object allows one at a time, so its maps are changed by one sweep only. What
  can happen while it awaits is that the producer is stopped or re-paired, which only bumps
  \<^verbatim>\<open>lifecycleGeneration\<close>. So every awaited call returns, besides its result, by how much the
  generation grew meanwhile and the new state \<open>'w\<close> of the world; \<open>re_yield\<close> is the same for
  awaits of the class's own methods. The mesh client, the storage and the callbacks are fields of
  \<open>rev_env\<close>, SHA-256 and Ed25519 verification are arguments. The calls made and the lines logged are recorded in
  \<open>sr_events\<close>, with the generation at which they were made. Tokens of the storage are opaque.
\<close>

section \<open>State\<close>

record 'tok rev_slot =
  rs_canonical :: string
  rs_raws :: "(string \<times> 'tok) list"
  rs_ownerPk :: "byte list"
  rs_fingerprint :: string

record 'tok pending_rev =
  pd_version :: int
  pd_previous :: "int option"
  pd_fingerprint :: string
  pd_tokens :: "(string, 'tok) jsmap"

datatype 'tok removal = Removed 'tok | is_StaleToken: StaleToken | NoSuchPeer | is_NoAuthority: NoAuthority

datatype rev_fetch = Got mesh_envelope | GotNothing | FetchUnavailable | FetchInvalid | FetchFailed

datatype rev_event =
    AskRemove nat string string
  | AskRevoke nat string string
  | AskOwners nat "string list"
  | AskTopology nat topology
  | LogLine string

record ('tok, 'w) rev_env =
  re_snapshot :: "'w \<Rightarrow> (jv \<times> 'tok) list option \<times> nat \<times> 'w"
  re_get :: "string \<Rightarrow> int option \<Rightarrow> 'w \<Rightarrow> rev_fetch \<times> nat \<times> 'w"
  re_remove :: "string \<Rightarrow> 'tok option \<Rightarrow> (nat \<Rightarrow> bool) \<Rightarrow> 'w \<Rightarrow> 'tok removal option \<times> nat \<times> 'w"
  re_revoke :: "(string \<Rightarrow> string \<Rightarrow> 'w \<Rightarrow> bool \<times> nat \<times> 'w) option"
  re_owners :: "(string list \<Rightarrow> 'w \<Rightarrow> bool \<times> nat \<times> 'w) option"
  re_topology :: "(topology \<Rightarrow> 'w \<Rightarrow> bool \<times> nat \<times> 'w) option"
  re_yield :: "'w \<Rightarrow> nat \<times> 'w"

record ('tok, 'w) revoker =
  sr_myPubkey :: "byte list"
  sr_lastSeen :: "(string, int) jsmap"
  sr_pending :: "(string, 'tok pending_rev) jsmap"
  sr_membership :: "(string, membership) jsmap"
  sr_previous :: "topology option"
  sr_inflight :: bool
  sr_timer :: bool
  sr_generation :: nat
  sr_events :: "rev_event list"
  sr_world :: 'w

definition topologyEquals :: "topology option \<Rightarrow> topology \<Rightarrow> bool" where
  "topologyEquals left right =
     (case left of
        None \<Rightarrow> False
      | Some l \<Rightarrow>
          ri_pcPubkey (tp_self l) = ri_pcPubkey (tp_self right) \<and> ri_pcLabel (tp_self l) = ri_pcLabel (tp_self right) \<and>
          ri_legacyPcLabel (tp_self l) = ri_legacyPcLabel (tp_self right) \<and> length (tp_siblings l) = length (tp_siblings right) \<and>
          list_all (\<lambda>(i, j). ri_pcPubkey i = ri_pcPubkey j \<and> ri_pcLabel i = ri_pcLabel j \<and> ri_legacyPcLabel i = ri_legacyPcLabel j)
            (zip (tp_siblings l) (tp_siblings right)))"

definition new_revoker :: "byte list \<Rightarrow> 'w \<Rightarrow> key_error + ('tok, 'w) revoker" where
  "new_revoker my w =
     (case encodeEd25519PublicKey my ''self public key'' of
        Inl e \<Rightarrow> Inl e
      | Inr _ \<Rightarrow> Inr \<lparr>sr_myPubkey = my, sr_lastSeen = [], sr_pending = [], sr_membership = [], sr_previous = None,
          sr_inflight = False, sr_timer = False, sr_generation = 0, sr_events = [], sr_world = w\<rparr>)"

definition hasAuthority :: "nat \<Rightarrow> ('tok, 'w) revoker \<Rightarrow> bool" where
  "hasAuthority generation r \<longleftrightarrow> generation = sr_generation r"

definition invalidateStorageAuthority :: "('tok, 'w) revoker \<Rightarrow> ('tok, 'w) revoker" where
  "invalidateStorageAuthority r = r\<lparr>sr_generation := sr_generation r + 1\<rparr>"

definition stop_revoker :: "('tok, 'w) revoker \<Rightarrow> ('tok, 'w) revoker" where
  "stop_revoker r = (invalidateStorageAuthority r)\<lparr>sr_timer := False\<rparr>"

definition event :: "rev_event \<Rightarrow> ('tok, 'w) revoker \<Rightarrow> ('tok, 'w) revoker" where
  "event e r = r\<lparr>sr_events := sr_events r @ [e]\<rparr>"

text \<open>An await ends: the generation may have grown.\<close>

definition resume :: "nat \<Rightarrow> 'w \<Rightarrow> ('tok, 'w) revoker \<Rightarrow> ('tok, 'w) revoker" where
  "resume grown w r = r\<lparr>sr_generation := sr_generation r + grown, sr_world := w\<rparr>"

definition yield_to :: "('tok, 'w) rev_env \<Rightarrow> ('tok, 'w) revoker \<Rightarrow> ('tok, 'w) revoker" where
  "yield_to E r = (let (n, w) = re_yield E (sr_world r) in resume n w r)"

text \<open>Log only with authority.\<close>

definition log_if :: "nat \<Rightarrow> string \<Rightarrow> ('tok, 'w) revoker \<Rightarrow> ('tok, 'w) revoker" where
  "log_if generation message r = (if hasAuthority generation r then event (LogLine message) r else r)"

definition fp_line :: "string \<Rightarrow> string \<Rightarrow> string" where
  "fp_line ev fp = ''[mesh] event='' @ ev @ '' owner_fp='' @ fp"

section \<open>Owner slots\<close>

text \<open>The two maps of \<^verbatim>\<open>_canonicalOwnerSlots\<close>: the raw handles and the key bytes of each canonical owner.\<close>

definition collect_owner :: "(byte list \<Rightarrow> byte list) \<Rightarrow> jv \<times> 'tok
    \<Rightarrow> (string, (string, 'tok) jsmap) jsmap \<times> (string, byte list) jsmap \<times> string list
    \<Rightarrow> (string, (string, 'tok) jsmap) jsmap \<times> (string, byte list) jsmap \<times> string list" where
  "collect_owner sha256 record st =
     (let (handles, bytes, log) = st;
          bad = (handles, bytes, log @ [fp_line ''invalid_owner_record'' (rawOwnerFingerprint sha256 (fst record))])
      in case fst record of
           JStr raw \<Rightarrow>
             (case decodeEd25519PublicKey raw ''Owner record'' of
                Inl _ \<Rightarrow> bad
              | Inr ownerPk \<Rightarrow>
                  (case encodeEd25519PublicKey ownerPk ''public key'' of
                     Inl _ \<Rightarrow> bad
                   | Inr canonical \<Rightarrow>
                       (mput canonical (mput raw (snd record) (case mget handles canonical of Some hs \<Rightarrow> hs | None \<Rightarrow> [])) handles,
                        if mhas bytes canonical then bytes else mput canonical ownerPk bytes, log)))
         | _ \<Rightarrow> bad)"

definition canonical_slots :: "(byte list \<Rightarrow> byte list) \<Rightarrow> (jv \<times> 'tok) list \<Rightarrow> 'tok rev_slot list \<times> string list" where
  "canonical_slots sha256 records =
     (let (handles, bytes, log) = fold (collect_owner sha256) records ([], [], [])
      in (map (\<lambda>(canonical, hs). let ownerPk = the (mget bytes canonical) in
                \<lparr>rs_canonical = canonical, rs_raws = sort_members hs, rs_ownerPk = ownerPk,
                 rs_fingerprint = publicKeyFingerprint sha256 ownerPk\<rparr>)
            (sort_members handles), log))"

section \<open>Callbacks and pending revocations\<close>

definition invokeRevokeCallback :: "('tok, 'w) rev_env \<Rightarrow> string \<Rightarrow> string \<Rightarrow> string \<Rightarrow> nat \<Rightarrow> ('tok, 'w) revoker \<Rightarrow> ('tok, 'w) revoker" where
  "invokeRevokeCallback E raw canonical fp generation r =
     (if \<not> hasAuthority generation r then r
      else (case re_revoke E of
              None \<Rightarrow> r
            | Some f \<Rightarrow>
                (let (ok, n, w) = f raw canonical (sr_world r);
                     r1 = resume n w (event (AskRevoke (sr_generation r) raw canonical) r)
                 in if ok then r1 else log_if generation (fp_line ''owner_revoke_callback_failed'' fp) r1)))"

definition set_floor :: "string \<Rightarrow> int option \<Rightarrow> ('tok, 'w) revoker \<Rightarrow> ('tok, 'w) revoker" where
  "set_floor owner previous r =
     r\<lparr>sr_lastSeen := (case previous of None \<Rightarrow> mdel owner (sr_lastSeen r) | Some v \<Rightarrow> mput owner v (sr_lastSeen r))\<rparr>"

text \<open>The loop over the raw handles of a pending revocation. The pending object is shared with the map, so a change
  of its tokens is written back. The first result is the value returned early, if any.\<close>

fun retry_handles :: "('tok, 'w) rev_env \<Rightarrow> 'tok rev_slot \<Rightarrow> nat \<Rightarrow> string list \<Rightarrow> 'tok pending_rev \<Rightarrow> ('tok, 'w) revoker
    \<Rightarrow> bool option \<times> 'tok pending_rev \<times> ('tok, 'w) revoker" where
  "retry_handles E slot g [] p r = (None, p, r)"
| "retry_handles E slot g (raw # raws) p r =
     (if \<not> hasAuthority g r then (Some False, p, r)
      else
        (let (outcome, n, w) = re_remove E raw (mget (pd_tokens p) raw) (\<lambda>current. g = current) (sr_world r);
             r1 = resume n w (event (AskRemove (sr_generation r) raw (rs_canonical slot)) r)
         in case outcome of
              None \<Rightarrow> (Some False, p, log_if g (fp_line ''owner_storage_remove_failed'' (rs_fingerprint slot)) r1)
            | Some out \<Rightarrow>
                if \<not> hasAuthority g r1 then (Some False, p, r1)
                else if is_StaleToken out
                then (Some True, p, set_floor (rs_canonical slot) (pd_previous p) (r1\<lparr>sr_pending := mdel (rs_canonical slot) (sr_pending r1)\<rparr>))
                else if is_NoAuthority out then (Some False, p, r1)
                else
                  (let rest = mdel raw (pd_tokens p);
                       p' = p\<lparr>pd_tokens := (case out of Removed token \<Rightarrow> map (\<lambda>(k, _). (k, token)) rest | _ \<Rightarrow> rest)\<rparr>;
                       r2 = r1\<lparr>sr_pending := mput (rs_canonical slot) p' (sr_pending r1)\<rparr>;
                       r3 = yield_to E (invokeRevokeCallback E raw (rs_canonical slot) (pd_fingerprint p') g r2)
                   in if \<not> hasAuthority g r3 then (Some False, p', r3) else retry_handles E slot g raws p' r3)))"

definition retryPending :: "('tok, 'w) rev_env \<Rightarrow> 'tok rev_slot \<Rightarrow> nat \<Rightarrow> ('tok, 'w) revoker \<Rightarrow> bool \<times> ('tok, 'w) revoker" where
  "retryPending E slot g r =
     (case mget (sr_pending r) (rs_canonical slot) of
        None \<Rightarrow> (False, r)
      | Some p \<Rightarrow>
          (case retry_handles E slot g (mkeys (pd_tokens p)) p r of
             (Some b, _, r') \<Rightarrow> (b, r')
           | (None, p', r') \<Rightarrow>
               (False, if pd_tokens p' = [] then r'\<lparr>sr_pending := mdel (rs_canonical slot) (sr_pending r')\<rparr> else r')))"

section \<open>Pruning\<close>

text \<open>The first result is true when authority was lost.\<close>

fun prune_handles :: "('tok, 'w) rev_env \<Rightarrow> string \<Rightarrow> nat \<Rightarrow> string list \<Rightarrow> 'tok pending_rev \<Rightarrow> ('tok, 'w) revoker
    \<Rightarrow> bool \<times> 'tok pending_rev \<times> ('tok, 'w) revoker" where
  "prune_handles E owner g [] p r = (False, p, r)"
| "prune_handles E owner g (raw # raws) p r =
     (if \<not> hasAuthority g r then (True, p, r)
      else
        (let p' = p\<lparr>pd_tokens := mdel raw (pd_tokens p)\<rparr>;
             r1 = r\<lparr>sr_pending := mput owner p' (sr_pending r)\<rparr>;
             r2 = yield_to E (invokeRevokeCallback E raw owner (pd_fingerprint p') g r1)
         in if \<not> hasAuthority g r2 then (True, p', r2) else prune_handles E owner g raws p' r2))"

fun prune_pending :: "('tok, 'w) rev_env \<Rightarrow> string list \<Rightarrow> nat \<Rightarrow> (string \<times> 'tok pending_rev) list \<Rightarrow> ('tok, 'w) revoker
    \<Rightarrow> bool \<times> ('tok, 'w) revoker" where
  "prune_pending E current g [] r = (False, r)"
| "prune_pending E current g ((owner, p) # rest) r =
     (if owner \<in> set current then prune_pending E current g rest r
      else (case prune_handles E owner g (mkeys (pd_tokens p)) p r of
              (True, _, r') \<Rightarrow> (True, r')
            | (False, p', r') \<Rightarrow>
                prune_pending E current g rest
                  (if pd_tokens p' = [] then r'\<lparr>sr_pending := mdel owner (sr_pending r')\<rparr> else r')))"

definition pruneStateNotIn :: "('tok, 'w) rev_env \<Rightarrow> 'tok rev_slot list \<Rightarrow> nat \<Rightarrow> ('tok, 'w) revoker \<Rightarrow> ('tok, 'w) revoker" where
  "pruneStateNotIn E slots g r =
     (let current = map rs_canonical slots
      in case prune_pending E current g (sr_pending r) r of
           (True, r') \<Rightarrow> r'
         | (False, r') \<Rightarrow>
             (let kept = (\<lambda>owner. owner \<in> set current \<or> mhas (sr_pending r') owner)
              in r'\<lparr>sr_membership := filter (\<lambda>p. kept (fst p)) (sr_membership r'),
                    sr_lastSeen := filter (\<lambda>p. kept (fst p)) (sr_lastSeen r')\<rparr>))"

section \<open>One owner\<close>

definition drop_membership :: "string \<Rightarrow> ('tok, 'w) revoker \<Rightarrow> ('tok, 'w) revoker" where
  "drop_membership owner r = r\<lparr>sr_membership := mdel owner (sr_membership r)\<rparr>"

definition show_since :: "int option \<Rightarrow> string" where
  "show_since since = (case since of None \<Rightarrow> ''none'' | Some v \<Rightarrow> show_int v)"

text \<open>A header that belongs to the slot.\<close>

definition accept_header :: "('tok, 'w) rev_env \<Rightarrow> 'tok rev_slot \<Rightarrow> nat \<Rightarrow> int option \<Rightarrow> mesh_header \<Rightarrow> ('tok, 'w) revoker
    \<Rightarrow> bool \<times> ('tok, 'w) revoker" where
  "accept_header E slot g since header r =
     (let owner = rs_canonical slot; membership = header_membership header (b64_encode (mh_ownerPk header)) in
      if \<not> hasAuthority g r then (False, r)
      else if list_ex (\<lambda>m. fst m = b64_encode (sr_myPubkey r)) (bm_members membership)
      then (False, r\<lparr>sr_pending := mdel owner (sr_pending r), sr_lastSeen := mput owner (mh_version header) (sr_lastSeen r),
                     sr_membership := mput owner membership (sr_membership r)\<rparr>)
      else
        (let previous = mget (sr_lastSeen r) owner;
             r1 = r\<lparr>sr_lastSeen := mput owner (mh_version header) (sr_lastSeen r), sr_membership := mdel owner (sr_membership r),
                    sr_pending := mput owner \<lparr>pd_version = mh_version header, pd_previous = previous, pd_fingerprint = rs_fingerprint slot,
                      pd_tokens = fold (\<lambda>(k, t). mput k t) (rs_raws slot) []\<rparr> (sr_pending r)\<rparr>;
             r2 = event (LogLine (fp_line ''self_revoked'' (rs_fingerprint slot) @ '' received_version='' @ show_int (mh_version header) @
                    '' since='' @ show_since since @ '' member_count='' @ show_nat (length (mh_members header)))) r1;
             (stale, r3) = retryPending E slot g r2;
             r4 = yield_to E r3
         in if stale then (True, set_floor owner previous (r4\<lparr>sr_pending := mdel owner (sr_pending r4)\<rparr>))
            else (False, r4)))"

definition checkOwnerSlot :: "(byte list \<Rightarrow> byte list) \<Rightarrow> (byte list \<Rightarrow> byte list \<Rightarrow> byte list \<Rightarrow> bool) \<Rightarrow> ('tok, 'w) rev_env
    \<Rightarrow> 'tok rev_slot \<Rightarrow> nat \<Rightarrow> ('tok, 'w) revoker \<Rightarrow> bool \<times> ('tok, 'w) revoker" where
  "checkOwnerSlot sha256 V E slot g r =
     (let owner = rs_canonical slot; since = mget (sr_lastSeen r) owner;
          (got, n, w) = re_get E (hex_bytes (sha256 (rs_ownerPk slot))) since (sr_world r);
          r1 = resume n w r;
          rejected = (\<lambda>message r'. retryPending E slot g (event (LogLine (fp_line message (rs_fingerprint slot))) (drop_membership owner r')));
          failed = (\<lambda>message drop.
            if \<not> hasAuthority g r1 then (False, r1)
            else (let (stale, r2) = retryPending E slot g r1; r3 = yield_to E r2
                  in if stale \<or> \<not> hasAuthority g r3 then (stale, r3)
                     else (False, event (LogLine (fp_line message (rs_fingerprint slot))) (if drop then drop_membership owner r3 else r3))))
      in case got of
           FetchUnavailable \<Rightarrow> failed ''owner_fetch_unavailable'' False
         | FetchInvalid \<Rightarrow> failed ''owner_fetch_invalid'' True
         | FetchFailed \<Rightarrow> failed ''owner_fetch_failed'' True
         | GotNothing \<Rightarrow> if \<not> hasAuthority g r1 then (False, r1) else retryPending E slot g r1
         | Got env \<Rightarrow>
             if \<not> hasAuthority g r1 then (False, r1)
             else
               (let r2 = yield_to E r1 in
                case verifyEnvelope V env of
                  Inl _ \<Rightarrow> if \<not> hasAuthority g r2 then (False, r2) else rejected ''owner_envelope_invalid'' r2
                | Inr header \<Rightarrow>
                    if \<not> hasAuthority g r2 then (False, r2)
                    else if \<not> bytesEqual (mh_ownerPk header) (rs_ownerPk slot) then rejected ''owner_slot_mismatch'' r2
                    else (case mget (sr_lastSeen r2) owner of
                            Some lastSeen \<Rightarrow>
                              if mh_version header \<le> lastSeen
                              then retryPending E slot g (event (LogLine (fp_line ''owner_rollback'' (rs_fingerprint slot) @
                                     '' received_version='' @ show_int (mh_version header) @ '' retained_version='' @ show_int lastSeen)) r2)
                              else accept_header E slot g since header r2
                          | None \<Rightarrow> accept_header E slot g since header r2)))"

section \<open>Sweeps\<close>

definition publishTopology :: "('tok, 'w) rev_env \<Rightarrow> topology \<Rightarrow> nat \<Rightarrow> ('tok, 'w) revoker \<Rightarrow> ('tok, 'w) revoker" where
  "publishTopology E nxt g r =
     (if \<not> hasAuthority g r \<or> topologyEquals (sr_previous r) nxt then r
      else
        (let (ok, r1) = (case re_topology E of
               None \<Rightarrow> (True, r)
             | Some f \<Rightarrow> (let (ok, n, w) = f nxt (sr_world r) in (ok, resume n w (event (AskTopology (sr_generation r) nxt) r))))
         in if \<not> ok then log_if g ''[mesh] event=topology_callback_failed'' r1
            else if hasAuthority g r1 then r1\<lparr>sr_previous := Some nxt\<rparr> else r1))"

text \<open>\<open>buildTopologySnapshot\<close> over the memberships held, and its publication; an error is the rejection of the sweep.\<close>

definition publish_current :: "('tok, 'w) rev_env \<Rightarrow> nat \<Rightarrow> ('tok, 'w) revoker \<Rightarrow> topology_error option \<times> ('tok, 'w) revoker" where
  "publish_current E g r =
     (case buildTopologySnapshot (sr_myPubkey r) (mvals (sr_membership r)) of
        Inl e \<Rightarrow> (Some e, r)
      | Inr t \<Rightarrow> (None, publishTopology E t g r))"

text \<open>The loop over the slots; true when the sweep goes on to publish.\<close>

fun check_slots :: "(byte list \<Rightarrow> byte list) \<Rightarrow> (byte list \<Rightarrow> byte list \<Rightarrow> byte list \<Rightarrow> bool) \<Rightarrow> ('tok, 'w) rev_env
    \<Rightarrow> 'tok rev_slot list \<Rightarrow> nat \<Rightarrow> ('tok, 'w) revoker \<Rightarrow> bool \<times> ('tok, 'w) revoker" where
  "check_slots sha256 V E [] g r = (True, r)"
| "check_slots sha256 V E (slot # slots) g r =
     (let (stale, r1) = checkOwnerSlot sha256 V E slot g r; r2 = yield_to E r1
      in if \<not> hasAuthority g r2 \<or> stale then (False, r2) else check_slots sha256 V E slots g r2)"

definition announce_owners :: "('tok, 'w) rev_env \<Rightarrow> string list \<Rightarrow> nat \<Rightarrow> ('tok, 'w) revoker \<Rightarrow> ('tok, 'w) revoker" where
  "announce_owners E owners g r =
     (case re_owners E of
        None \<Rightarrow> r
      | Some f \<Rightarrow>
          (let (ok, n, w) = f owners (sr_world r); r1 = resume n w (event (AskOwners (sr_generation r) owners) r)
           in if ok then r1 else log_if g ''[mesh] event=authoritative_owners_callback_failed'' r1))"

definition runSweep :: "(byte list \<Rightarrow> byte list) \<Rightarrow> (byte list \<Rightarrow> byte list \<Rightarrow> byte list \<Rightarrow> bool) \<Rightarrow> ('tok, 'w) rev_env
    \<Rightarrow> nat \<Rightarrow> ('tok, 'w) revoker \<Rightarrow> topology_error option \<times> ('tok, 'w) revoker" where
  "runSweep sha256 V E g r =
     (let (snapshot, n, w) = re_snapshot E (sr_world r); r1 = resume n w r
      in case snapshot of
           None \<Rightarrow>
             if \<not> hasAuthority g r1 then (None, r1)
             else publish_current E g (event (LogLine ''[mesh] event=owner_list_unavailable'') r1)
         | Some records \<Rightarrow>
             if \<not> hasAuthority g r1 then (None, r1)
             else
               (let (slots, log) = canonical_slots sha256 records;
                    r2 = fold (\<lambda>line. event (LogLine line)) log r1;
                    r3 = announce_owners E (map rs_canonical slots) g r2
                in if \<not> hasAuthority g r3 then (None, r3)
                   else
                     (let r4 = yield_to E (pruneStateNotIn E slots g r3)
                      in if \<not> hasAuthority g r4 then (None, r4)
                         else (let (go, r5) = check_slots sha256 V E slots g r4
                               in if \<not> go then (None, r5) else publish_current E g r5))))"

text \<open>A call while a sweep is in flight joins it and changes nothing.\<close>

definition checkOnce :: "(byte list \<Rightarrow> byte list) \<Rightarrow> (byte list \<Rightarrow> byte list \<Rightarrow> byte list \<Rightarrow> bool) \<Rightarrow> ('tok, 'w) rev_env
    \<Rightarrow> ('tok, 'w) revoker \<Rightarrow> topology_error option \<times> ('tok, 'w) revoker" where
  "checkOnce sha256 V E r =
     (if sr_inflight r then (None, r)
      else (let (e, r1) = runSweep sha256 V E (sr_generation r) (r\<lparr>sr_inflight := True\<rparr>) in (e, r1\<lparr>sr_inflight := False\<rparr>)))"

text \<open>\<open>start\<close>: whether it triggers a sweep at once.\<close>

definition start_revoker :: "('tok, 'w) revoker \<Rightarrow> bool \<times> ('tok, 'w) revoker" where
  "start_revoker r = (if sr_timer r then (False, r) else (True, r\<lparr>sr_timer := True\<rparr>))"

text \<open>A sweep started by the timer or by \<open>start\<close>: a rejection is logged.\<close>

definition timer_sweep :: "(byte list \<Rightarrow> byte list) \<Rightarrow> (byte list \<Rightarrow> byte list \<Rightarrow> byte list \<Rightarrow> bool) \<Rightarrow> ('tok, 'w) rev_env
    \<Rightarrow> ('tok, 'w) revoker \<Rightarrow> ('tok, 'w) revoker" where
  "timer_sweep sha256 V E r =
     (case checkOnce sha256 V E r of
        (None, r1) \<Rightarrow> r1
      | (Some _, r1) \<Rightarrow> event (LogLine ''[mesh] event=self_revoke_sweep_failed'') r1)"

end
