(* ===== verification/RevokeProps.thy ===== *)
theory RevokeProps
  imports SelfRevoke
begin

text \<open>
  What the membership sweeps guarantee: a machine removes a pairing only on the word of the owner that
  signed it out, floors of versions do not go back, nothing is called after authority is lost, and a sweep
  never fails by itself.
\<close>

section \<open>Frames\<close>

text \<open>A stored handle of an owner: another spelling of the same key. Only such handles are removed, and only when \<open>P\<close>
  holds, which will say that the owner signed this machine out.\<close>

definition handle_of :: "string \<Rightarrow> string \<Rightarrow> bool" where
  "handle_of raw owner \<longleftrightarrow> (case decodeEd25519PublicKey raw ''Owner record'' of Inl _ \<Rightarrow> False | Inr k \<Rightarrow> b64_encode k = owner)"

text \<open>The calls that the handling of one owner makes in a sweep with generation \<open>g\<close>.\<close>

definition call_ok :: "bool \<Rightarrow> string \<Rightarrow> nat \<Rightarrow> rev_event \<Rightarrow> bool" where
  "call_ok P owner g e \<longleftrightarrow> (case e of
       AskRemove g' raw o' \<Rightarrow> P \<and> g' = g \<and> o' = owner \<and> handle_of raw owner
     | AskRevoke g' raw o' \<Rightarrow> P \<and> g' = g \<and> o' = owner \<and> handle_of raw owner
     | LogLine _ \<Rightarrow> True | _ \<Rightarrow> False)"

definition calls :: "bool \<Rightarrow> string \<Rightarrow> nat \<Rightarrow> ('tok, 'w) revoker \<Rightarrow> ('tok, 'w) revoker \<Rightarrow> bool" where
  "calls P owner g r r' \<longleftrightarrow> sr_myPubkey r' = sr_myPubkey r \<and> sr_previous r' = sr_previous r \<and>
     sr_generation r \<le> sr_generation r' \<and> (\<exists>es. sr_events r' = sr_events r @ es \<and> list_all (call_ok P owner g) es)"

definition maps_wf :: "('tok, 'w) revoker \<Rightarrow> bool" where
  "maps_wf r \<longleftrightarrow> mwf (sr_lastSeen r) \<and> mwf (sr_pending r) \<and> mwf (sr_membership r)"

text \<open>What is known of an owner: the floor, the pending revocation and the membership.\<close>

definition look :: "('tok, 'w) revoker \<Rightarrow> string \<Rightarrow> int option \<times> 'tok pending_rev option \<times> membership option" where
  "look r owner = (mget (sr_lastSeen r) owner, mget (sr_pending r) owner, mget (sr_membership r) owner)"

text \<open>The handling of an owner touches nothing of the others.\<close>

definition frame :: "bool \<Rightarrow> string \<Rightarrow> nat \<Rightarrow> ('tok, 'w) revoker \<Rightarrow> ('tok, 'w) revoker \<Rightarrow> bool" where
  "frame P owner g r r' \<longleftrightarrow> calls P owner g r r' \<and> (maps_wf r \<longrightarrow> maps_wf r') \<and> (\<forall>o'. o' \<noteq> owner \<longrightarrow> look r' o' = look r o')"

lemma calls_trans: "calls P owner g a b \<Longrightarrow> calls P owner g b c \<Longrightarrow> calls P owner g a c"
  unfolding calls_def by (elim conjE exE) (intro conjI, simp_all)

lemma frame_refl [simp]: "frame P owner g r r"
  by (simp add: frame_def calls_def)

lemma frame_trans: "frame P owner g a b \<Longrightarrow> frame P owner g b c \<Longrightarrow> frame P owner g a c"
  unfolding frame_def by (elim conjE, intro conjI, erule (1) calls_trans) simp_all

lemma event_frame [simp]: "frame P owner g r (event e r) \<longleftrightarrow> call_ok P owner g e" "look (event e r) = look r"
  by (simp_all add: frame_def calls_def event_def look_def maps_wf_def fun_eq_iff)

lemma log_ok [simp]: "call_ok P owner g (LogLine m)"
  by (simp add: call_ok_def)

lemma resume_frame [simp]: "frame P owner g r (resume n w r)" "look (resume n w r) = look r"
  by (simp_all add: frame_def calls_def resume_def look_def maps_wf_def fun_eq_iff)

lemma yield_frame [simp]: "frame P owner g r (yield_to E r)" "look (yield_to E r) = look r"
  by (simp_all add: yield_to_def split_def Let_def)

lemma log_if_frame [simp]: "frame P owner g r (log_if g' m r)" "look (log_if g' m r) = look r"
  by (simp_all add: log_if_def)

lemma map_frame [simp]: "frame P owner g r (r\<lparr>sr_pending := mput owner p (sr_pending r)\<rparr>)"
  "frame P owner g r (r\<lparr>sr_pending := mdel owner (sr_pending r)\<rparr>)"
  "frame P owner g r (drop_membership owner r)" "frame P owner g r (set_floor owner v r)"
  by (simp_all add: frame_def calls_def set_floor_def drop_membership_def look_def maps_wf_def split: option.split)

lemma map_look [simp]:
  "look (r\<lparr>sr_pending := mput owner p (sr_pending r)\<rparr>) owner = (mget (sr_lastSeen r) owner, Some p, mget (sr_membership r) owner)"
  "look (r\<lparr>sr_pending := mdel owner (sr_pending r)\<rparr>) owner = (mget (sr_lastSeen r) owner, None, mget (sr_membership r) owner)"
  "look (drop_membership owner r) owner = (mget (sr_lastSeen r) owner, mget (sr_pending r) owner, None)"
  "look (set_floor owner v r) owner = (v, mget (sr_pending r) owner, mget (sr_membership r) owner)"
  by (simp_all add: set_floor_def drop_membership_def look_def split: option.split)

lemma callback_frame:
  assumes "P" and "handle_of raw owner"
  shows "frame P owner g r (invokeRevokeCallback E raw owner fp g r)" and "look (invokeRevokeCallback E raw owner fp g r) = look r"
proof -
  have 1: "frame P owner g r (resume n w (event (AskRevoke g raw owner) r))" for n w
    by (rule frame_trans [OF _ resume_frame(1)]) (simp add: call_ok_def assms)
  show "frame P owner g r (invokeRevokeCallback E raw owner fp g r)"
    using 1 frame_trans [OF 1 log_if_frame(1)]
    by (auto simp: invokeRevokeCallback_def hasAuthority_def split_def Let_def split: option.split)
  show "look (invokeRevokeCallback E raw owner fp g r) = look r"
    by (auto simp: invokeRevokeCallback_def split_def Let_def split: option.split)
qed

text \<open>The same revocation with fewer handles left.\<close>

definition left_over :: "'tok pending_rev \<Rightarrow> string set" where
  "left_over p = set (mkeys (pd_tokens p))"

definition shrunk :: "'tok pending_rev \<Rightarrow> 'tok pending_rev \<Rightarrow> bool" where
  "shrunk p p' \<longleftrightarrow> pd_version p' = pd_version p \<and> pd_previous p' = pd_previous p \<and> pd_fingerprint p' = pd_fingerprint p \<and>
     left_over p' \<subseteq> left_over p"

lemma shrunk_refl [simp]: "shrunk p p"
  by (simp add: shrunk_def)

lemma shrunk_trans: "shrunk a b \<Longrightarrow> shrunk b c \<Longrightarrow> shrunk a c"
  by (auto simp: shrunk_def)

lemma mkeys_renew: "mkeys (map (\<lambda>(k, _). (k, t)) m) = mkeys m"
  by (induction m) auto

lemma left_over_mdel: "left_over (p\<lparr>pd_tokens := mdel raw (pd_tokens p)\<rparr>) \<subseteq> left_over p"
  unfolding left_over_def by (auto simp: mkeys_delete)

lemma left_over_renew: "left_over (p\<lparr>pd_tokens := map (\<lambda>(k, _). (k, t)) (mdel raw (pd_tokens p))\<rparr>) \<subseteq> left_over p"
proof -
  have "left_over (p\<lparr>pd_tokens := map (\<lambda>(k, _). (k, t)) m\<rparr>) = left_over (p\<lparr>pd_tokens := m\<rparr>)" for m
    unfolding left_over_def by force
  then show ?thesis using left_over_mdel by simp
qed

lemma retry_handles_frame:
  assumes "P"
  shows "retry_handles E slot g raws p r = (res, p', r') \<Longrightarrow> look r (rs_canonical slot) = (ls, Some p, mb) \<Longrightarrow>
     \<forall>raw \<in> set raws. handle_of raw (rs_canonical slot) \<Longrightarrow>
     frame P (rs_canonical slot) g r r' \<and> shrunk p p' \<and>
     look r' (rs_canonical slot) = (if res = Some True then (pd_previous p, None, mb) else (ls, Some p', mb))"
proof (induction raws arbitrary: p r res p' r')
  case Nil
  then show ?case by simp
next
  case (Cons raw raws)
  let ?o = "rs_canonical slot"
  have h: "handle_of raw ?o" using Cons.prems(3) by simp
  show ?case
  proof (cases "hasAuthority g r")
    case False
    then have "res = Some False" "p' = p" "r' = r" using Cons.prems(1) by simp_all
    then show ?thesis using Cons.prems(2) by simp
  next
    case True
    then have g: "sr_generation r = g" by (simp add: hasAuthority_def)
    obtain out n w where rem: "re_remove E raw (mget (pd_tokens p) raw) (\<lambda>current. g = current) (sr_world r) = (out, n, w)" using prod_cases3 by blast
    define r1 where "r1 = resume n w (event (AskRemove g raw ?o) r)"
    have c1: "frame P ?o g r r1" unfolding r1_def
      by (rule frame_trans [OF _ resume_frame(1)]) (simp add: call_ok_def assms h)
    have l1: "look r1 ?o = (ls, Some p, mb)" using Cons.prems(2) by (simp add: r1_def)
    have eq: "retry_handles E slot g (raw # raws) p r = (case out of
              None \<Rightarrow> (Some False, p, log_if g (fp_line ''owner_storage_remove_failed'' (rs_fingerprint slot)) r1)
            | Some out \<Rightarrow>
                if \<not> hasAuthority g r1 then (Some False, p, r1)
                else if is_StaleToken out
                then (Some True, p, set_floor ?o (pd_previous p) (r1\<lparr>sr_pending := mdel ?o (sr_pending r1)\<rparr>))
                else if is_NoAuthority out then (Some False, p, r1)
                else
                  (let rest = mdel raw (pd_tokens p);
                       p' = p\<lparr>pd_tokens := (case out of Removed token \<Rightarrow> map (\<lambda>(k, _). (k, token)) rest | _ \<Rightarrow> rest)\<rparr>;
                       r2 = r1\<lparr>sr_pending := mput ?o p' (sr_pending r1)\<rparr>;
                       r3 = yield_to E (invokeRevokeCallback E raw ?o (pd_fingerprint p') g r2)
                   in if \<not> hasAuthority g r3 then (Some False, p', r3) else retry_handles E slot g raws p' r3))"
      using True rem g by (cases out) (simp_all add: r1_def Let_def)
    show ?thesis
    proof (cases out)
      case None
      then have "res = Some False" "p' = p" "r' = log_if g (fp_line ''owner_storage_remove_failed'' (rs_fingerprint slot)) r1"
        using Cons.prems(1) eq by simp_all
      then show ?thesis using l1 frame_trans [OF c1 log_if_frame(1)] by simp
    next
      case out: (Some o1)
      consider (quit) "res = Some False" "p' = p" "r' = r1"
        | (stale) "res = Some True" "p' = p" "r' = set_floor ?o (pd_previous p) (r1\<lparr>sr_pending := mdel ?o (sr_pending r1)\<rparr>)"
        | (go) "hasAuthority g r1" "\<not> is_StaleToken o1" "\<not> is_NoAuthority o1"
        using Cons.prems(1) eq out by (auto split: if_splits)
      then show ?thesis
      proof cases
        case quit
        then show ?thesis using c1 l1 by simp
      next
        case stale
        have "frame P ?o g r r'" unfolding stale by (rule frame_trans [OF c1], rule frame_trans [OF map_frame(2) map_frame(4)])
        moreover have "mget (sr_membership r1) ?o = mb" using l1 by (simp add: look_def)
        ultimately show ?thesis using stale by simp
      next
        case go
        define p2 where "p2 = p\<lparr>pd_tokens := (case o1 of Removed token \<Rightarrow> map (\<lambda>(k, _). (k, token)) (mdel raw (pd_tokens p)) | _ \<Rightarrow> mdel raw (pd_tokens p))\<rparr>"
        define r2 where "r2 = r1\<lparr>sr_pending := mput ?o p2 (sr_pending r1)\<rparr>"
        define r3 where "r3 = yield_to E (invokeRevokeCallback E raw ?o (pd_fingerprint p2) g r2)"
        have eq2: "retry_handles E slot g (raw # raws) p r = (if \<not> hasAuthority g r3 then (Some False, p2, r3) else retry_handles E slot g raws p2 r3)"
          using eq out go by (simp add: p2_def r2_def r3_def Let_def)
        have s: "shrunk p p2" 
          by (cases o1) (simp_all only: p2_def shrunk_def left_over_renew left_over_mdel removal.simps, simp_all)
        have pv: "pd_previous p2 = pd_previous p" by (simp add: p2_def)
        have "frame P ?o g r r2" unfolding r2_def by (rule frame_trans [OF c1 map_frame(1)])
        moreover have "frame P ?o g r2 r3" unfolding r3_def
          using frame_trans [OF callback_frame(1) [OF assms h] yield_frame(1)] .
        ultimately have c: "frame P ?o g r r3" by (rule frame_trans)
        have "look r3 ?o = look r2 ?o" unfolding r3_def yield_frame(2) callback_frame(2) [OF assms h] ..
        then have l3: "look r3 ?o = (ls, Some p2, mb)" using l1 by (simp add: r2_def look_def)
        show ?thesis
        proof (cases "hasAuthority g r3")
          case False
          then have "res = Some False" "p' = p2" "r' = r3" using Cons.prems(1) eq2 by simp_all
          then show ?thesis using c l3 s by simp
        next
          case True
          then have rec: "retry_handles E slot g raws p2 r3 = (res, p', r')" using Cons.prems(1) eq2 by simp
          have "\<forall>raw \<in> set raws. handle_of raw ?o" using Cons.prems(3) by simp
          note ih = Cons.IH [OF rec l3 this]
          show ?thesis using ih pv frame_trans [OF c, of r'] shrunk_trans [OF s, of p'] by simp
        qed
      qed
    qed
  qed
qed

text \<open>A retry ends stale, with the revocation done, or with fewer handles left.\<close>

lemma retryPending_frame:
  assumes "retryPending E slot g r = (stale, r')" and "look r (rs_canonical slot) = (ls, pd, mb)"
    and "\<And>p. pd = Some p \<Longrightarrow> P \<and> (\<forall>raw \<in> left_over p. handle_of raw (rs_canonical slot))"
  shows "frame P (rs_canonical slot) g r r'"
    and "if stale then \<exists>p. pd = Some p \<and> look r' (rs_canonical slot) = (pd_previous p, None, mb)
       else \<exists>pd'. look r' (rs_canonical slot) = (ls, pd', mb) \<and> (\<forall>p'. pd' = Some p' \<longrightarrow> (\<exists>p. pd = Some p \<and> shrunk p p'))"
proof -
  let ?o = "rs_canonical slot"
  have "frame P ?o g r r' \<and> (if stale then \<exists>p. pd = Some p \<and> look r' ?o = (pd_previous p, None, mb)
       else \<exists>pd'. look r' ?o = (ls, pd', mb) \<and> (\<forall>p'. pd' = Some p' \<longrightarrow> (\<exists>p. pd = Some p \<and> shrunk p p')))"
  proof (cases pd)
    case None
    then have "mget (sr_pending r) ?o = None" using assms(2) by (simp add: look_def)
    then have "stale = False" "r' = r" using assms(1) by (simp_all add: retryPending_def)
    then show ?thesis using assms(2) None by simp
  next
    case (Some p)
    then have m: "mget (sr_pending r) ?o = Some p" using assms(2) by (simp add: look_def)
    obtain res p' r1 where h: "retry_handles E slot g (mkeys (pd_tokens p)) p r = (res, p', r1)" using prod_cases3 by blast
    note f = retry_handles_frame [OF conjunct1 [OF assms(3) [OF Some]] h assms(2) [unfolded Some] conjunct2 [OF assms(3) [OF Some], unfolded left_over_def]]
    show ?thesis
    proof (cases res)
      case None
      then have e: "stale = False" "r' = (if pd_tokens p' = [] then r1\<lparr>sr_pending := mdel ?o (sr_pending r1)\<rparr> else r1)"
        using assms(1) m h by (simp_all add: retryPending_def)
      have "frame P ?o g r r'" unfolding e using f frame_trans [OF conjunct1 [OF f] map_frame(2)] by simp
      then show ?thesis using f None e Some by (auto simp: look_def)
    next
      case res: (Some b)
      then have "stale = b" "r' = r1" using assms(1) m h by (simp_all add: retryPending_def)
      then show ?thesis using f res Some by (cases b) auto
    qed
  qed
  then show "frame P ?o g r r'"
    and "if stale then \<exists>p. pd = Some p \<and> look r' ?o = (pd_previous p, None, mb)
       else \<exists>pd'. look r' ?o = (ls, pd', mb) \<and> (\<forall>p'. pd' = Some p' \<longrightarrow> (\<exists>p. pd = Some p \<and> shrunk p p'))" by blast+
qed

section \<open>What an owner has said\<close>

text \<open>A header that the owner signed: the envelope verifies and names the owner's key.\<close>

definition vouched :: "(byte list \<Rightarrow> byte list \<Rightarrow> byte list \<Rightarrow> bool) \<Rightarrow> string \<Rightarrow> mesh_header \<Rightarrow> bool" where
  "vouched V owner h \<longleftrightarrow> (\<exists>env. verifyEnvelope V env = Inr h) \<and> b64_encode (mh_ownerPk h) = owner"

definition listed :: "byte list \<Rightarrow> mesh_header \<Rightarrow> bool" where
  "listed my h \<longleftrightarrow> list_ex (\<lambda>m. mm_remoteEpk m = b64_encode my) (mh_members h)"

text \<open>The owner signed a header without this machine.\<close>

definition signed_out :: "(byte list \<Rightarrow> byte list \<Rightarrow> byte list \<Rightarrow> bool) \<Rightarrow> byte list \<Rightarrow> string \<Rightarrow> bool" where
  "signed_out V my owner \<longleftrightarrow> (\<exists>h. vouched V owner h \<and> \<not> listed my h)"

text \<open>A membership is the owner's word, at the floor, and excludes a pending revocation; a pending revocation is the
  owner's word as well, at the floor, and lists handles of the owner only.\<close>

definition owner_ok :: "(byte list \<Rightarrow> byte list \<Rightarrow> byte list \<Rightarrow> bool) \<Rightarrow> byte list \<Rightarrow> string
    \<Rightarrow> int option \<times> 'tok pending_rev option \<times> membership option \<Rightarrow> bool" where
  "owner_ok V my owner L \<longleftrightarrow> (case L of (ls, pd, mb) \<Rightarrow>
     (\<forall>m. mb = Some m \<longrightarrow> pd = None \<and>
        (\<exists>h. vouched V owner h \<and> listed my h \<and> m = header_membership h owner \<and> ls = Some (mh_version h))) \<and>
     (\<forall>p. pd = Some p \<longrightarrow> (\<forall>raw \<in> left_over p. handle_of raw owner) \<and>
        (\<exists>h. vouched V owner h \<and> \<not> listed my h \<and> ls = Some (mh_version h))))"

text \<open>How the knowledge of an owner may move. Unless the pairing turned out to be a new one, the floor does not go down and a
  new membership is above it; if it did, nothing is left of the old word.\<close>

definition owner_move :: "bool \<Rightarrow> int option \<times> 'tok pending_rev option \<times> membership option
    \<Rightarrow> int option \<times> 'tok pending_rev option \<times> membership option \<Rightarrow> bool" where
  "owner_move stale L L' \<longleftrightarrow> (case (L, L') of ((ls, pd, mb), (ls', pd', mb')) \<Rightarrow>
     if stale then pd' = None \<and> mb' = None
     else (\<forall>v. ls = Some v \<longrightarrow> (\<exists>v'. ls' = Some v' \<and> v \<le> v')) \<and>
       (mb' = mb \<or> mb' = None \<or> (\<exists>v'. ls' = Some v' \<and> (\<forall>v. ls = Some v \<longrightarrow> v < v'))))"

lemma owner_move_refl [simp]: "owner_move False L L"
  by (simp add: owner_move_def split: prod.split)

lemma owner_move_drop [simp]: "owner_move False (ls, pd, mb) (ls, pd', None)"
  by (simp add: owner_move_def)

lemma owner_move_trans: "owner_move False a b \<Longrightarrow> owner_move s b c \<Longrightarrow> owner_move s a c"
proof (cases s)
  case False
  obtain l1 p1 m1 l2 p2 m2 l3 p3 m3 where e: "a = (l1, p1, m1)" "b = (l2, p2, m2)" "c = (l3, p3, m3)" by (metis prod_cases3)
  assume ab: "owner_move False a b" and bc: "owner_move s b c"
  have ab1: "\<exists>v'. l2 = Some v' \<and> v \<le> v'" if "l1 = Some v" for v using ab e that by (simp add: owner_move_def)
  have bc1: "\<exists>v'. l3 = Some v' \<and> v \<le> v'" if "l2 = Some v" for v using bc e False that by (simp add: owner_move_def)
  have ab2: "m2 = m1 \<or> m2 = None \<or> (\<exists>v'. l2 = Some v' \<and> (\<forall>v. l1 = Some v \<longrightarrow> v < v'))" using ab e by (simp add: owner_move_def)
  have bc2: "m3 = m2 \<or> m3 = None \<or> (\<exists>v'. l3 = Some v' \<and> (\<forall>v. l2 = Some v \<longrightarrow> v < v'))" using bc e False by (simp add: owner_move_def)
  have "\<exists>v'. l3 = Some v' \<and> v \<le> v'" if l: "l1 = Some v" for v
  proof -
    obtain v2 where v2: "l2 = Some v2" "v \<le> v2" using ab1 [OF l] by blast
    obtain v3 where "l3 = Some v3" "v2 \<le> v3" using bc1 [OF v2(1)] by blast
    then show ?thesis using v2(2) by simp
  qed
  moreover have "m3 = m1 \<or> m3 = None \<or> (\<exists>v'. l3 = Some v' \<and> (\<forall>v. l1 = Some v \<longrightarrow> v < v'))"
  proof -
    from bc2 consider "m3 = m2" | "m3 = None" | v' where "l3 = Some v'" "\<forall>v. l2 = Some v \<longrightarrow> v < v'" by blast
    then show ?thesis
    proof cases
      case 1
      then show ?thesis using ab2 bc1 by (metis order_less_le_trans)
    next
      case 3
      then have "v < v'" if "l1 = Some v" for v using ab1 [OF that] by fastforce
      then show ?thesis using 3 by blast
    qed simp
  qed
  ultimately show ?thesis using e False by (simp add: owner_move_def)
qed (simp add: owner_move_def split: prod.splits)

definition slot_good :: "'tok rev_slot \<Rightarrow> bool" where
  "slot_good slot \<longleftrightarrow> rs_canonical slot = b64_encode (rs_ownerPk slot) \<and> (\<forall>raw \<in> fst ` set (rs_raws slot). handle_of raw (rs_canonical slot))"

text \<open>A part of the handling of an owner, given that what was known is sound.\<close>

definition part :: "(byte list \<Rightarrow> byte list \<Rightarrow> byte list \<Rightarrow> bool) \<Rightarrow> string \<Rightarrow> nat \<Rightarrow> bool \<Rightarrow> ('tok, 'w) revoker \<Rightarrow> ('tok, 'w) revoker \<Rightarrow> bool" where
  "part V owner g stale r r' \<longleftrightarrow> (owner_ok V (sr_myPubkey r) owner (look r owner) \<longrightarrow>
     frame (signed_out V (sr_myPubkey r) owner) owner g r r' \<and> owner_ok V (sr_myPubkey r) owner (look r' owner) \<and>
     owner_move stale (look r owner) (look r' owner))"

lemma part_refl [simp]: "part V owner g False r r"
  by (simp add: part_def)

lemma part_trans:
  assumes "part V owner g False a b" and "part V owner g s b c"
  shows "part V owner g s a c"
proof -
  have "frame P owner g a b \<Longrightarrow> sr_myPubkey b = sr_myPubkey a" for P by (simp add: frame_def calls_def)
  then show ?thesis using assms unfolding part_def using frame_trans owner_move_trans by metis
qed

lemma part_quiet: "frame False owner g r r' \<Longrightarrow> look r' owner = look r owner \<Longrightarrow> part V owner g False r r'"
  unfolding part_def
proof (intro impI conjI)
  assume f: "frame False owner g r r'" and l: "look r' owner = look r owner"
  have "call_ok False owner g e \<Longrightarrow> call_ok P owner g e" for P e by (cases e) (simp_all add: call_ok_def)
  then show "frame P owner g r r'" for P using f unfolding frame_def calls_def list_all_iff by blast
qed simp_all

lemma part_simps [simp]: "part V owner g False r (resume n w r)" "part V owner g False r (yield_to E r)"
  "part V owner g False r (event (LogLine m) r)"
  by (rule part_quiet; simp)+

lemma part_drop [simp]: "part V owner g False r (drop_membership owner r)"
  by (simp add: part_def owner_ok_def look_def [of r])

lemma part_retry:
  assumes "retryPending E slot g r = (stale, r')"
  shows "part V (rs_canonical slot) g stale r r'"
proof -
  let ?o = "rs_canonical slot" and ?P = "signed_out V (sr_myPubkey r) (rs_canonical slot)"
  obtain ls pd mb where l: "look r ?o = (ls, pd, mb)" using prod_cases3 by blast
  show ?thesis unfolding part_def l
  proof
    assume ok: "owner_ok V (sr_myPubkey r) ?o (ls, pd, mb)"
    have pd: "?P \<and> (\<forall>raw \<in> left_over p. handle_of raw ?o)" if "pd = Some p" for p
      using ok that by (auto simp: owner_ok_def signed_out_def)
    note f = retryPending_frame [OF assms l pd]
    have "owner_ok V (sr_myPubkey r) ?o (look r' ?o) \<and> owner_move stale (ls, pd, mb) (look r' ?o)"
    proof (cases stale)
      case True
      then obtain p where p: "pd = Some p" "look r' ?o = (pd_previous p, None, mb)" using f(2) by auto
      then have "mb = None" using ok by (cases mb) (simp_all add: owner_ok_def)
      then show ?thesis using p True by (simp add: owner_ok_def owner_move_def)
    next
      case False
      then obtain pd' where p: "look r' ?o = (ls, pd', mb)" "\<forall>p'. pd' = Some p' \<longrightarrow> (\<exists>p. pd = Some p \<and> shrunk p p')" using f(2) by auto
      have "owner_ok V (sr_myPubkey r) ?o (ls, pd', mb)"
      proof (cases pd')
        case None
        then show ?thesis using ok by (simp add: owner_ok_def)
      next
        case (Some p')
        then obtain p0 where p0: "pd = Some p0" "shrunk p0 p'" using p(2) by blast
        then have "left_over p' \<subseteq> left_over p0" by (simp add: shrunk_def)
        then show ?thesis using ok Some p0(1) by (auto simp: owner_ok_def)
      qed
      then show ?thesis using p False by (simp add: owner_move_def)
    qed
    then show "frame ?P ?o g r r' \<and> owner_ok V (sr_myPubkey r) ?o (look r' ?o) \<and> owner_move stale (ls, pd, mb) (look r' ?o)"
      using f(1) by blast
  qed
qed

lemma fold_put_keys: "fst ` set (fold (\<lambda>(k, t). AList.update k t) xs m) = fst ` set xs \<union> fst ` set m"
proof (induction xs arbitrary: m)
  case (Cons kv xs)
  obtain k v where kv: "kv = (k, v)" by fastforce
  have "fst ` set (mput k v m) = insert k (fst ` set m)" using mkeys_update [of k v m] by (metis Un_insert_right empty_set insert_absorb list.set_map list.simps(15) set_append sup_bot.right_neutral)
  then show ?case using Cons.IH [of "mput k v m"] kv by simp
qed simp

lemma header_lists: "list_ex (\<lambda>m. fst m = b64_encode my) (bm_members (header_membership h o')) \<longleftrightarrow> listed my h"
  by (auto simp: header_membership_def listed_def list_ex_iff)

text \<open>A header that passed the checks is the owner's word, newer than the floor.\<close>

lemma part_accept:
  assumes "accept_header E slot g since h r = (stale, r')" and "slot_good slot"
    and "vouched V (rs_canonical slot) h" and "\<And>v. mget (sr_lastSeen r) (rs_canonical slot) = Some v \<Longrightarrow> v < mh_version h"
  shows "part V (rs_canonical slot) g stale r r'"
proof -
  let ?o = "rs_canonical slot" and ?my = "sr_myPubkey r"
  have o: "b64_encode (mh_ownerPk h) = ?o" using assms(3) by (simp add: vouched_def)
  consider (lost) "\<not> hasAuthority g r" "stale = False" "r' = r"
    | (stay) "hasAuthority g r" "listed ?my h" "stale = False" "r' = r\<lparr>sr_pending := mdel ?o (sr_pending r), sr_lastSeen := mput ?o (mh_version h) (sr_lastSeen r),
                     sr_membership := mput ?o (header_membership h ?o) (sr_membership r)\<rparr>"
    | (out) "hasAuthority g r" "\<not> listed ?my h"
    using assms(1) by (auto simp: accept_header_def Let_def header_lists o split: if_splits)
  then show ?thesis
  proof cases
    case lost
    then show ?thesis by simp
  next
    case stay
    have f: "frame P ?o g r r'" for P using stay(4) by (simp add: frame_def calls_def look_def maps_wf_def)
    have l: "look r' ?o = (Some (mh_version h), None, Some (header_membership h ?o))" using stay(4) by (simp add: look_def)
    have "owner_ok V ?my ?o (look r' ?o)" unfolding l using stay(2) assms(3) by (auto simp: owner_ok_def)
    moreover have "owner_move False (look r ?o) (look r' ?o)" unfolding l using assms(4) by (auto simp: owner_move_def look_def less_imp_le)
    ultimately show ?thesis using f stay(3) by (simp add: part_def)
  next
    case out
    define p where "p = \<lparr>pd_version = mh_version h, pd_previous = mget (sr_lastSeen r) ?o, pd_fingerprint = rs_fingerprint slot,
                      pd_tokens = fold (\<lambda>(k, t). mput k t) (rs_raws slot) []\<rparr>"
    define r1 where "r1 = r\<lparr>sr_lastSeen := mput ?o (mh_version h) (sr_lastSeen r), sr_membership := mdel ?o (sr_membership r),
                    sr_pending := mput ?o p (sr_pending r)\<rparr>"
    define r2 where "r2 = event (LogLine (fp_line ''self_revoked'' (rs_fingerprint slot) @ '' received_version='' @ show_int (mh_version h) @
                    '' since='' @ show_since since @ '' member_count='' @ show_nat (length (mh_members h)))) r1"
    obtain st r3 where r3: "retryPending E slot g r2 = (st, r3)" by fastforce
    define r4 where "r4 = yield_to E r3"
    have eq: "(stale, r') = (if st then (True, set_floor ?o (mget (sr_lastSeen r) ?o) (r4\<lparr>sr_pending := mdel ?o (sr_pending r4)\<rparr>)) else (False, r4))"
      using assms(1) out r3 by (cases st) (simp_all add: accept_header_def Let_def header_lists o r4_def r2_def r1_def p_def)
    have "frame P ?o g r r1" for P by (simp add: r1_def frame_def calls_def look_def maps_wf_def)
    have l1: "look r1 ?o = (Some (mh_version h), Some p, None)" by (simp add: r1_def look_def)
    have my1: "sr_myPubkey r1 = ?my" by (simp add: r1_def)
    have "left_over p = fst ` set (rs_raws slot)" using fold_put_keys [of "rs_raws slot" "[]"] by (simp add: left_over_def p_def)
    then have "owner_ok V ?my ?o (look r1 ?o)" unfolding l1 using out(2) assms(2,3) by (auto simp: owner_ok_def slot_good_def)
    moreover have "owner_move False (look r ?o) (look r1 ?o)" unfolding l1 using assms(4) by (auto simp: owner_move_def look_def less_imp_le)
    ultimately have p1: "part V ?o g False r r1" using \<open>\<And>P. frame P ?o g r r1\<close> by (simp add: part_def)
    have "part V ?o g False r r2" unfolding r2_def by (rule part_trans [OF p1]) simp
    note p3 = part_trans [OF this part_retry [OF r3]]
    show ?thesis
    proof (cases st)
      case False
      then have st: "st = False" by simp
      have "stale = False" "r' = r4" using eq False by simp_all
      then show ?thesis using part_trans [OF p3 [unfolded st]] by (simp add: r4_def)
    next
      case True
      then have e: "stale = True" "r' = set_floor ?o (mget (sr_lastSeen r) ?o) (r4\<lparr>sr_pending := mdel ?o (sr_pending r4)\<rparr>)" using eq by simp_all
      have fr: "frame P ?o g r3 r'" for P unfolding e r4_def
        by (rule frame_trans [OF yield_frame(1)], rule frame_trans [OF map_frame(2) map_frame(4)])
      show ?thesis unfolding part_def
      proof
        assume "owner_ok V ?my ?o (look r ?o)"
        then have f: "frame (signed_out V ?my ?o) ?o g r r3" "owner_move True (look r ?o) (look r3 ?o)"
          using p3 True by (simp_all add: part_def)
        then have "mget (sr_membership r3) ?o = None" by (auto simp: owner_move_def look_def)
        moreover have "sr_membership r4 = sr_membership r3" by (simp add: r4_def yield_to_def split_def Let_def resume_def)
        ultimately have "look r' ?o = (mget (sr_lastSeen r) ?o, None, None)" unfolding e by simp
        then show "frame (signed_out V ?my ?o) ?o g r r' \<and> owner_ok V ?my ?o (look r' ?o) \<and> owner_move stale (look r ?o) (look r' ?o)"
          using frame_trans [OF f(1) fr] e(1) by (simp add: owner_ok_def owner_move_def split: prod.split)
      qed
    qed
  qed
qed

lemma part_check:
  assumes "checkOwnerSlot sha256 V E slot g r = (stale, r')" and "slot_good slot"
  shows "part V (rs_canonical slot) g stale r r'"
proof -
  let ?o = "rs_canonical slot" and ?f = "\<lambda>m. fp_line m (rs_fingerprint slot)"
  obtain got n w where get: "re_get E (hex_bytes (sha256 (rs_ownerPk slot))) (mget (sr_lastSeen r) ?o) (sr_world r) = (got, n, w)" using prod_cases3 by blast
  define r1 where "r1 = resume n w r"
  have p1: "part V ?o g False r r1" by (simp add: r1_def)
  have failed: "part V ?o g stale r r'"
    if f: "(if \<not> hasAuthority g r1 then (False, r1)
            else (let (stale, r2) = retryPending E slot g r1; r3 = yield_to E r2
                  in if stale \<or> \<not> hasAuthority g r3 then (stale, r3)
                     else (False, event (LogLine (?f message)) (if drop then drop_membership ?o r3 else r3)))) = (stale, r')" for message drop
  proof (cases "hasAuthority g r1")
    case True
    obtain st r2 where r2: "retryPending E slot g r1 = (st, r2)" by fastforce
    note p2 = part_trans [OF p1 part_retry [OF r2]]
    show ?thesis
    proof (cases st)
      case st: True
      then have "stale = True" "r' = yield_to E r2" using f True r2 by (simp_all add: Let_def)
      then show ?thesis using p2 st by (simp add: part_def) (use frame_trans [OF _ yield_frame(1)] in blast)
    next
      case False
      then have st: "st = False" by simp
      note p3 = part_trans [OF p2 [unfolded st] part_simps(2) [where E = E]]
      have "stale = False" "r' = yield_to E r2 \<or> r' = event (LogLine (?f message)) (yield_to E r2) \<or>
          r' = event (LogLine (?f message)) (drop_membership ?o (yield_to E r2))"
        using f True r2 False by (auto simp: Let_def split: if_splits)
      then show ?thesis using p3 part_trans [OF p3 part_simps(3)] part_trans [OF part_trans [OF p3 part_drop] part_simps(3)] by auto
    qed
  qed (use f p1 in simp)
  have later: "part V ?o g stale r r'" if "part V ?o g False r ra" "retryPending E slot g ra = (stale, r')" for ra
    by (rule part_trans [OF that(1) part_retry [OF that(2)]])
  have rejected: "part V ?o g stale r r'" if "part V ?o g False r ra"
    "retryPending E slot g (event (LogLine (?f message)) (drop_membership ?o ra)) = (stale, r')" for ra message
    by (rule later [OF part_trans [OF part_trans [OF that(1) part_drop] part_simps(3)] that(2)])
  show ?thesis
  proof (cases got)
    case GotNothing
    then show ?thesis using assms(1) get later [OF p1] p1 by (auto simp: checkOwnerSlot_def r1_def [symmetric] Let_def split: if_splits)
  next
    case (Got env)
    show ?thesis
    proof (cases "hasAuthority g r1")
      case False
      then show ?thesis using assms(1) get p1 Got by (simp add: checkOwnerSlot_def r1_def [symmetric] Let_def)
    next
      case True
      define r2 where "r2 = yield_to E r1"
      have p2: "part V ?o g False r r2" unfolding r2_def by (rule part_trans [OF p1 part_simps(2)])
      show ?thesis
      proof (cases "verifyEnvelope V env")
        case (Inl e)
        then show ?thesis using assms(1) get p2 Got True rejected [OF p2]
          by (auto simp: checkOwnerSlot_def r1_def [symmetric] r2_def [symmetric] Let_def split: if_splits)
      next
        case (Inr h)
        consider (lost) "\<not> hasAuthority g r2" | (foreign) "hasAuthority g r2" "mh_ownerPk h \<noteq> rs_ownerPk slot"
          | (old) v where "hasAuthority g r2" "mh_ownerPk h = rs_ownerPk slot" "mget (sr_lastSeen r2) ?o = Some v" "mh_version h \<le> v"
          | (new) "hasAuthority g r2" "mh_ownerPk h = rs_ownerPk slot" "\<And>v. mget (sr_lastSeen r2) ?o = Some v \<Longrightarrow> v < mh_version h"
          by (metis not_le)
        then show ?thesis
        proof cases
          case lost
          then show ?thesis using assms(1) get p2 Got True Inr by (simp add: checkOwnerSlot_def r1_def [symmetric] r2_def [symmetric] Let_def)
        next
          case foreign
          then show ?thesis using assms(1) get Got True Inr rejected [OF p2]
            by (simp add: checkOwnerSlot_def r1_def [symmetric] r2_def [symmetric] Let_def bytesEqual_def)
        next
          case old
          then show ?thesis using assms(1) get Got True Inr later [OF part_trans [OF p2 part_simps(3)]]
            by (simp add: checkOwnerSlot_def r1_def [symmetric] r2_def [symmetric] Let_def bytesEqual_def)
        next
          case new
          have v: "vouched V ?o h" using Inr new(2) assms(2) by (auto simp: vouched_def slot_good_def)
          have "accept_header E slot g (mget (sr_lastSeen r) ?o) h r2 = (stale, r')"
          proof (cases "mget (sr_lastSeen r2) ?o")
            case None
            then show ?thesis using assms(1) get Got True Inr new(1,2)
              by (simp add: checkOwnerSlot_def r1_def [symmetric] r2_def [symmetric] Let_def bytesEqual_def)
          next
            case (Some v)
            then have "\<not> mh_version h \<le> v" using new(3) by fastforce
            then show ?thesis using assms(1) get Got True Inr new(1,2) Some
              by (simp add: checkOwnerSlot_def r1_def [symmetric] r2_def [symmetric] Let_def bytesEqual_def)
          qed
          from part_trans [OF p2 part_accept [OF this assms(2) v new(3)]] show ?thesis .
        qed
      qed
    qed
  next
    case FetchUnavailable
    show ?thesis by (rule failed [of "''owner_fetch_unavailable''" False])
        (use assms(1) get FetchUnavailable in \<open>simp only: checkOwnerSlot_def r1_def Let_def split_def fst_conv snd_conv rev_fetch.case\<close>)
  next
    case FetchInvalid
    show ?thesis by (rule failed [of "''owner_fetch_invalid''" True])
        (use assms(1) get FetchInvalid in \<open>simp only: checkOwnerSlot_def r1_def Let_def split_def fst_conv snd_conv rev_fetch.case\<close>)
  next
    case FetchFailed
    show ?thesis by (rule failed [of "''owner_fetch_failed''" True])
        (use assms(1) get FetchFailed in \<open>simp only: checkOwnerSlot_def r1_def Let_def split_def fst_conv snd_conv rev_fetch.case\<close>)
  qed
qed

section \<open>Owner slots\<close>

definition slots_inv :: "(string, (string, 'tok) jsmap) jsmap \<times> (string, byte list) jsmap \<times> string list \<Rightarrow> bool" where
  "slots_inv st \<longleftrightarrow> (case st of (handles, bytes, log) \<Rightarrow> mwf handles \<and> mwf bytes \<and> (\<forall>c. mhas handles c \<longrightarrow> mhas bytes c) \<and>
     (\<forall>c k. mget bytes c = Some k \<longrightarrow> b64_encode k = c) \<and>
     (\<forall>c hs. mget handles c = Some hs \<longrightarrow> (\<forall>raw \<in> fst ` set hs. handle_of raw c)))"

lemma keys_mput: "fst ` set (mput k v m) = insert k (fst ` set m)"
  using mkeys_update [of k v m] by (metis Un_insert_right empty_set insert_absorb list.set_map list.simps(15) set_append sup_bot.right_neutral)

lemma keys_mputD: "(a, b) \<in> set (mput k v m) \<Longrightarrow> a = k \<or> a \<in> fst ` set m"
  using keys_mput [of k v m] by (metis fst_conv imageI insertE)

lemma collect_inv: "slots_inv st \<Longrightarrow> slots_inv (collect_owner sha256 rec st)"
proof -
  assume i: "slots_inv st"
  obtain handles bytes log where st: "st = (handles, bytes, log)" using prod_cases3 by blast
  have bad: "slots_inv (handles, bytes, l)" for l using i st by (simp add: slots_inv_def)
  show ?thesis
  proof (cases "fst rec")
    case (JStr raw)
    show ?thesis
    proof (cases "decodeEd25519PublicKey raw ''Owner record''")
      case (Inl e)
      then show ?thesis using bad JStr st by (simp add: collect_owner_def)
    next
      case (Inr k)
      then have "length k = 32" by (rule decode_only_spelling [THEN conjunct1])
      then have e: "encodeEd25519PublicKey k ''public key'' = Inr (b64_encode k)" by (simp add: encodeEd25519PublicKey_def ED25519_PUBLIC_KEY_BYTES_def)
      have h: "handle_of raw (b64_encode k)" using Inr by (simp add: handle_of_def)
      have "mhas bytes c" if "mhas handles c" for c using i st that by (simp add: slots_inv_def)
      moreover have "handle_of raw' c" if "mget handles c = Some hs" "(raw', t) \<in> set hs" for c hs raw' t
        using i st that by (fastforce simp: slots_inv_def)
      moreover have "b64_encode k' = c" if "mget bytes c = Some k'" for c k' using i st that by (simp add: slots_inv_def)
      ultimately show ?thesis using i st JStr Inr e h
        by (auto simp: collect_owner_def slots_inv_def dest!: keys_mputD split: option.splits if_splits)
    qed
  qed (use bad st in \<open>simp_all add: collect_owner_def\<close>)
qed

lemma canonical_slots_good: "s \<in> set (fst (canonical_slots sha256 records)) \<Longrightarrow> slot_good s"
proof -
  assume s: "s \<in> set (fst (canonical_slots sha256 records))"
  obtain handles bytes log where st: "fold (collect_owner sha256) records ([], [], []) = (handles, bytes, log)" using prod_cases3 by blast
  have "slots_inv (fold (collect_owner sha256) records st)" if "slots_inv st" for st :: "(string, (string, 'a) jsmap) jsmap \<times> (string, byte list) jsmap \<times> string list"
    using that by (induction records arbitrary: st) (simp_all add: collect_inv)
  moreover have "slots_inv ([], [], [])" by (simp add: slots_inv_def mhas_def)
  ultimately have i: "slots_inv (handles, bytes, log)" unfolding st [symmetric] by blast
  obtain c hs where c: "(c, hs) \<in> set handles" "s = \<lparr>rs_canonical = c, rs_raws = sort_members hs, rs_ownerPk = the (mget bytes c),
      rs_fingerprint = publicKeyFingerprint sha256 (the (mget bytes c))\<rparr>"
    using s st by (auto simp: canonical_slots_def Let_def)
  have m: "mget handles c = Some hs" using c(1) i by (auto simp: slots_inv_def mwf_mget)
  then have "mhas bytes c" using i by (simp add: slots_inv_def mhas_def)
  then obtain k where "mget bytes c = Some k" by (auto simp: mhas_def)
  then show ?thesis using i m c(2) by (simp add: slots_inv_def slot_good_def)
qed

section \<open>Sweeps\<close>

text \<open>Every removal is asked of the storage on the word of the owner, and every topology announced is built from headers of
  owners that list this machine.\<close>

definition event_ok :: "(byte list \<Rightarrow> byte list \<Rightarrow> byte list \<Rightarrow> bool) \<Rightarrow> byte list \<Rightarrow> rev_event \<Rightarrow> bool" where
  "event_ok V my e \<longleftrightarrow> (case e of
       AskRemove _ raw owner \<Rightarrow> signed_out V my owner \<and> handle_of raw owner
     | AskRevoke _ raw owner \<Rightarrow> signed_out V my owner \<and> handle_of raw owner
     | AskTopology _ t \<Rightarrow> (\<exists>ms. buildTopologySnapshot my ms = Inr t \<and>
         (\<forall>m \<in> set ms. \<exists>h owner. vouched V owner h \<and> listed my h \<and> m = header_membership h owner))
     | _ \<Rightarrow> True)"

definition rev_inv :: "(byte list \<Rightarrow> byte list \<Rightarrow> byte list \<Rightarrow> bool) \<Rightarrow> ('tok, 'w) revoker \<Rightarrow> bool" where
  "rev_inv V r \<longleftrightarrow> length (sr_myPubkey r) = 32 \<and> maps_wf r \<and> (\<forall>owner. owner_ok V (sr_myPubkey r) owner (look r owner)) \<and>
     list_all (event_ok V (sr_myPubkey r)) (sr_events r)"

definition tagged :: "nat \<Rightarrow> rev_event \<Rightarrow> bool" where
  "tagged g e \<longleftrightarrow> (case e of AskRemove g' _ _ \<Rightarrow> g' = g | AskRevoke g' _ _ \<Rightarrow> g' = g | AskOwners g' _ \<Rightarrow> g' = g
     | AskTopology g' _ \<Rightarrow> g' = g | LogLine _ \<Rightarrow> True)"

definition sweeps :: "(byte list \<Rightarrow> byte list \<Rightarrow> byte list \<Rightarrow> bool) \<Rightarrow> nat \<Rightarrow> ('tok, 'w) revoker \<Rightarrow> ('tok, 'w) revoker \<Rightarrow> bool" where
  "sweeps V g r r' \<longleftrightarrow> (rev_inv V r \<longrightarrow> rev_inv V r' \<and> sr_myPubkey r' = sr_myPubkey r \<and> sr_generation r \<le> sr_generation r' \<and>
     (\<exists>es. sr_events r' = sr_events r @ es \<and> list_all (tagged g) es))"

lemma sweeps_refl [simp]: "sweeps V g r r"
  by (simp add: sweeps_def)

lemma sweeps_trans:
  assumes "sweeps V g a b" and "sweeps V g b c"
  shows "sweeps V g a c"
  unfolding sweeps_def
proof (intro impI)
  assume i: "rev_inv V a"
  then obtain es where es: "rev_inv V b" "sr_events b = sr_events a @ es" "list_all (tagged g) es"
    "sr_myPubkey b = sr_myPubkey a" "sr_generation a \<le> sr_generation b" using assms(1) by (auto simp: sweeps_def)
  then obtain fs where "rev_inv V c" "sr_events c = sr_events b @ fs" "list_all (tagged g) fs"
    "sr_myPubkey c = sr_myPubkey b" "sr_generation b \<le> sr_generation c" using assms(2) by (auto simp: sweeps_def)
  then show "rev_inv V c \<and> sr_myPubkey c = sr_myPubkey a \<and> sr_generation a \<le> sr_generation c \<and>
     (\<exists>es. sr_events c = sr_events a @ es \<and> list_all (tagged g) es)" using es by (intro conjI exI [of _ "es @ fs"]) simp_all
qed

lemma part_sweeps:
  assumes "part V owner g stale r r'"
  shows "sweeps V g r r'"
  unfolding sweeps_def
proof
  assume i: "rev_inv V r"
  let ?P = "signed_out V (sr_myPubkey r) owner"
  have f: "frame ?P owner g r r'" "owner_ok V (sr_myPubkey r) owner (look r' owner)"
    using assms i by (simp_all add: part_def rev_inv_def)
  then obtain es where es: "sr_myPubkey r' = sr_myPubkey r" "sr_generation r \<le> sr_generation r'" "sr_events r' = sr_events r @ es"
    "list_all (call_ok ?P owner g) es" "maps_wf r'" "\<forall>o'. o' \<noteq> owner \<longrightarrow> look r' o' = look r o'"
    using i by (auto simp: frame_def calls_def rev_inv_def)
  have "event_ok V (sr_myPubkey r) e \<and> tagged g e" if "call_ok ?P owner g e" for e
    using that by (cases e) (simp_all add: event_ok_def tagged_def call_ok_def)
  then have "list_all (event_ok V (sr_myPubkey r)) es" "list_all (tagged g) es" using es(4) by (simp_all add: list_all_iff)
  moreover have "owner_ok V (sr_myPubkey r) o' (look r' o')" for o' using f(2) es(6) i by (cases "o' = owner") (simp_all add: rev_inv_def)
  ultimately show "rev_inv V r' \<and> sr_myPubkey r' = sr_myPubkey r \<and> sr_generation r \<le> sr_generation r' \<and>
     (\<exists>es. sr_events r' = sr_events r @ es \<and> list_all (tagged g) es)"
    using es i by (simp add: rev_inv_def)
qed

lemma sweeps_simps [simp]: "sweeps V g r (resume n w r)" "sweeps V g r (yield_to E r)"
  "sweeps V g r (event (LogLine m) r)" "sweeps V g r (log_if g' m r)"
  by (rule part_sweeps [OF part_simps(1)], rule part_sweeps [OF part_simps(2)], rule part_sweeps [OF part_simps(3)])
    (simp add: log_if_def part_sweeps [OF part_simps(3)])

lemma prune_handles_frame:
  assumes "P"
  shows "prune_handles E owner g raws p r = (b, p', r') \<Longrightarrow> look r owner = (ls, Some p, mb) \<Longrightarrow> \<forall>raw \<in> set raws. handle_of raw owner \<Longrightarrow>
     frame P owner g r r' \<and> shrunk p p' \<and> look r' owner = (ls, Some p', mb)"
proof (induction raws arbitrary: p r)
  case (Cons raw raws)
  have h: "handle_of raw owner" using Cons.prems(3) by simp
  define p2 where "p2 = p\<lparr>pd_tokens := mdel raw (pd_tokens p)\<rparr>"
  define r1 where "r1 = r\<lparr>sr_pending := mput owner p2 (sr_pending r)\<rparr>"
  define r2 where "r2 = yield_to E (invokeRevokeCallback E raw owner (pd_fingerprint p2) g r1)"
  have s: "shrunk p p2" by (simp add: shrunk_def p2_def left_over_mdel)
  have c: "frame P owner g r r2" unfolding r2_def
    by (rule frame_trans [OF _ yield_frame(1)], rule frame_trans [OF _ callback_frame(1) [OF assms h]]) (simp add: r1_def)
  have "look r2 owner = look r1 owner" unfolding r2_def yield_frame(2) callback_frame(2) [OF assms h] ..
  then have l: "look r2 owner = (ls, Some p2, mb)" using Cons.prems(2) by (simp add: r1_def look_def)
  have eq: "prune_handles E owner g (raw # raws) p r = (if \<not> hasAuthority g r then (True, p, r)
      else if \<not> hasAuthority g r2 then (True, p2, r2) else prune_handles E owner g raws p2 r2)"
    by (simp add: r2_def r1_def p2_def Let_def)
  consider "p' = p" "r' = r" | "p' = p2" "r' = r2" | "prune_handles E owner g raws p2 r2 = (b, p', r')"
    using Cons.prems(1) eq by (auto split: if_splits)
  then show ?case
  proof cases
    case 3
    have "\<forall>raw \<in> set raws. handle_of raw owner" using Cons.prems(3) by simp
    from Cons.IH [OF 3 l this] show ?thesis using frame_trans [OF c, of r'] shrunk_trans [OF s, of p'] by simp
  qed (use Cons.prems(2) c l s in simp_all)
qed simp

lemma prune_pending_sweeps:
  "prune_pending E current g ps r = (b, r') \<Longrightarrow> distinct (mkeys ps) \<Longrightarrow> \<forall>(owner, p) \<in> set ps. mget (sr_pending r) owner = Some p \<Longrightarrow>
     sweeps V g r r'"
proof (induction ps arbitrary: r)
  case (Cons op ps)
  obtain owner p where op: "op = (owner, p)" by fastforce
  have d: "distinct (mkeys ps)" "\<forall>(o', p') \<in> set ps. o' \<noteq> owner"
    using Cons.prems(2) op by (auto simp: image_iff)
  have tl: "\<forall>(owner, p) \<in> set ps. mget (sr_pending r) owner = Some p" using Cons.prems(3) by simp
  show ?case
  proof (cases "owner \<in> set current")
    case True
    then show ?thesis using Cons.IH [OF _ d(1) tl] Cons.prems(1) op by simp
  next
    case False
    let ?P = "signed_out V (sr_myPubkey r) owner"
    obtain lost p' r1 where h: "prune_handles E owner g (mkeys (pd_tokens p)) p r = (lost, p', r1)" using prod_cases3 by blast
    define r2 where "r2 = (if pd_tokens p' = [] then r1\<lparr>sr_pending := mdel owner (sr_pending r1)\<rparr> else r1)"
    have eq: "prune_pending E current g (op # ps) r = (if lost then (True, r1) else prune_pending E current g ps r2)"
      using h False op by (cases lost) (simp_all add: r2_def)
    obtain ls mb where l: "look r owner = (ls, Some p, mb)" using Cons.prems(3) op by (simp add: look_def)
    have parts: "part V owner g False r r1 \<and> part V owner g False r r2 \<and> frame True owner g r r2"
      if "owner_ok V (sr_myPubkey r) owner (look r owner)"
    proof -
      have P: "?P" and hs: "\<forall>raw \<in> set (mkeys (pd_tokens p)). handle_of raw owner"
        using that l by (auto simp: owner_ok_def signed_out_def left_over_def)
      note f = prune_handles_frame [OF P h l hs]
      have mb: "mb = None" using that l by (cases mb) (simp_all add: owner_ok_def)
      have sub: "left_over p' \<subseteq> left_over p" using f by (simp add: shrunk_def)
      have ok: "owner_ok V (sr_myPubkey r) owner (look r1 owner)" using that f l sub by (auto simp: owner_ok_def)
      have 1: "part V owner g False r r1" using f ok l by (simp add: part_def owner_move_def)
      have fr: "frame P' owner g r1 r2" for P' by (simp add: r2_def)
      have "look r2 owner = (ls, if pd_tokens p' = [] then None else Some p', mb)" using f by (auto simp: r2_def look_def)
      then have "part V owner g False r r2" using f ok l mb frame_trans [OF conjunct1 [OF f] fr]
        by (auto simp: part_def owner_move_def owner_ok_def)
      moreover have "frame True owner g r r2" using frame_trans [OF conjunct1 [OF f] fr] P by simp
      ultimately show ?thesis using 1 by blast
    qed
    show ?thesis
    proof (cases "rev_inv V r")
      case inv: True
      then have ok: "owner_ok V (sr_myPubkey r) owner (look r owner)" by (simp add: rev_inv_def)
      note ps = parts [OF ok]
      show ?thesis
      proof (cases lost)
        case True
        then have "r' = r1" using eq Cons.prems(1) by simp
        then show ?thesis using ps part_sweeps by blast
      next
        case False
        have "frame True owner g r r2" using ps by blast
        then have "\<forall>(o', p') \<in> set ps. mget (sr_pending r2) o' = Some p'"
          using tl d(2) by (fastforce simp: frame_def look_def)
        from Cons.IH [OF _ d(1) this] show ?thesis using eq False Cons.prems(1) ps sweeps_trans part_sweeps by metis
      qed
    qed (simp add: sweeps_def)
  qed
qed simp

lemma mget_filter: "mget (filter (\<lambda>p. Q (fst p)) m) k = (if Q k then mget m k else None)"
  by (induction m) auto

lemma mwf_filter: "mwf m \<Longrightarrow> mwf (filter Q m)"
  by (simp add: mwf_def distinct_map_filter)

lemma prune_sweeps: "sweeps V g r (pruneStateNotIn E slots g r)"
proof (cases "rev_inv V r")
  case True
  let ?cur = "map rs_canonical slots"
  obtain b r1 where p: "prune_pending E ?cur g (sr_pending r) r = (b, r1)" by fastforce
  have "mwf (sr_pending r)" using True by (simp add: rev_inv_def maps_wf_def)
  then have s: "sweeps V g r r1" by (intro prune_pending_sweeps [OF p]) (auto simp: mwf_def)
  define kept where "kept = (\<lambda>owner. owner \<in> set ?cur \<or> mhas (sr_pending r1) owner)"
  define r2 where "r2 = r1\<lparr>sr_membership := filter (\<lambda>p. kept (fst p)) (sr_membership r1), sr_lastSeen := filter (\<lambda>p. kept (fst p)) (sr_lastSeen r1)\<rparr>"
  have "sweeps V g r1 r2" unfolding sweeps_def
  proof
    assume i: "rev_inv V r1"
    have "owner_ok V (sr_myPubkey r1) o' (look r2 o')" for o'
    proof -
      have l: "look r2 o' = (if kept o' then look r1 o' else (None, mget (sr_pending r1) o', None))"
        by (simp add: r2_def look_def mget_filter)
      have "mget (sr_pending r1) o' = None" if "\<not> kept o'" using that by (simp add: kept_def mhas_def)
      then show ?thesis using i l by (simp add: rev_inv_def owner_ok_def)
    qed
    then show "rev_inv V r2 \<and> sr_myPubkey r2 = sr_myPubkey r1 \<and> sr_generation r1 \<le> sr_generation r2 \<and>
       (\<exists>es. sr_events r2 = sr_events r1 @ es \<and> list_all (tagged g) es)"
      using i by (simp add: rev_inv_def r2_def maps_wf_def mwf_filter)
  qed
  moreover have "pruneStateNotIn E slots g r = (if b then r1 else r2)"
    by (cases b) (simp_all add: pruneStateNotIn_def p r2_def kept_def Let_def)
  ultimately show ?thesis using s sweeps_trans by auto
qed (simp add: sweeps_def)

lemma check_slots_sweeps: "check_slots sha256 V E slots g r = (b, r') \<Longrightarrow> \<forall>s \<in> set slots. slot_good s \<Longrightarrow> sweeps V g r r'"
proof (induction slots arbitrary: r)
  case (Cons slot slots)
  obtain stale r1 where c: "checkOwnerSlot sha256 V E slot g r = (stale, r1)" by fastforce
  have "sweeps V g r r1" using part_sweeps [OF part_check [OF c]] Cons.prems(2) by simp
  then have 2: "sweeps V g r (yield_to E r1)" by (rule sweeps_trans) simp
  show ?case
  proof (cases "\<not> hasAuthority g (yield_to E r1) \<or> stale")
    case True
    then show ?thesis using Cons.prems(1) c 2 by (simp add: Let_def)
  next
    case False
    then have "check_slots sha256 V E slots g (yield_to E r1) = (b, r')" using Cons.prems(1) c by (simp add: Let_def)
    from Cons.IH [OF this] show ?thesis using Cons.prems(2) 2 sweeps_trans by simp
  qed
qed simp

lemma sweeps_event: "event_ok V (sr_myPubkey r) e \<Longrightarrow> tagged g e \<Longrightarrow> sweeps V g r (event e r)"
  by (simp add: sweeps_def rev_inv_def) (simp add: event_def maps_wf_def)

lemma sweeps_previous [simp]: "sweeps V g r (r\<lparr>sr_previous := t\<rparr>)" "sweeps V g r (r\<lparr>sr_inflight := f\<rparr>)" "sweeps V g r (r\<lparr>sr_timer := f\<rparr>)"
  "sweeps V g r (invalidateStorageAuthority r)"
  by (simp_all add: sweeps_def rev_inv_def maps_wf_def look_def invalidateStorageAuthority_def)

lemma announce_sweeps: "hasAuthority g r \<Longrightarrow> sweeps V g r (announce_owners E owners g r)"
proof (cases "re_owners E")
  case (Some f)
  assume g: "hasAuthority g r"
  obtain ok n w where f: "f owners (sr_world r) = (ok, n, w)" using prod_cases3 by blast
  define r1 where "r1 = resume n w (event (AskOwners (sr_generation r) owners) r)"
  have "sweeps V g r r1" unfolding r1_def using g
    by (intro sweeps_trans [OF sweeps_event sweeps_simps(1)]) (simp_all add: event_ok_def tagged_def hasAuthority_def)
  moreover have "announce_owners E owners g r = (if ok then r1 else log_if g ''[mesh] event=authoritative_owners_callback_failed'' r1)"
    using Some f by (simp add: announce_owners_def r1_def Let_def)
  ultimately show ?thesis using sweeps_trans [OF \<open>sweeps V g r r1\<close> sweeps_simps(4)] by metis
qed (simp add: announce_owners_def)

lemma memberships_vouched:
  assumes "rev_inv V r" and "m \<in> set (mvals (sr_membership r))"
  shows "\<exists>h owner. vouched V owner h \<and> listed (sr_myPubkey r) h \<and> m = header_membership h owner"
proof -
  obtain o' where "(o', m) \<in> set (sr_membership r)" using assms(2) by auto
  then have "mget (sr_membership r) o' = Some m" using assms(1) by (simp add: rev_inv_def maps_wf_def mwf_mget)
  moreover have "owner_ok V (sr_myPubkey r) o' (look r o')" using assms(1) by (simp add: rev_inv_def)
  ultimately show ?thesis by (auto simp: owner_ok_def look_def)
qed

lemma vouched_canon: "vouched V owner h \<Longrightarrow> canon_key (bm_ownerPubkey (header_membership h owner)) \<and>
   (\<forall>k \<in> set (bm_members (header_membership h owner)). canon_key (fst k))"
proof -
  assume v: "vouched V owner h"
  then obtain env where h: "verifyEnvelope V env = Inr h" "b64_encode (mh_ownerPk h) = owner" by (auto simp: vouched_def)
  have "length (mh_ownerPk h) = 32"
    by (rule verify_cases [OF h(1)]) (use decode_only_spelling in blast)
  then have "canon_key owner" using h(2) by (auto simp: canon_key_def)
  then show ?thesis using header_members_canon [OF h(1)] by (auto simp: header_membership_def)
qed

text \<open>The snapshot over the memberships held can always be built.\<close>

lemma snapshot_total:
  assumes "rev_inv V r"
  shows "\<exists>t. buildTopologySnapshot (sr_myPubkey r) (mvals (sr_membership r)) = Inr t"
proof -
  have "\<forall>m \<in> set (mvals (sr_membership r)). canon_key (bm_ownerPubkey m) \<and> (\<forall>k \<in> set (bm_members m). canon_key (fst k))"
    using memberships_vouched [OF assms] vouched_canon by metis
  then obtain names where "note_memberships (b64_encode (sr_myPubkey r)) (mvals (sr_membership r)) [(b64_encode (sr_myPubkey r), [])] = Inr names"
    using note_memberships_total by blast
  then show ?thesis using build_names assms by (meson rev_inv_def)
qed

lemma publish_sweeps:
  assumes "publish_current E g r = (e, r')"
  shows "sweeps V g r r' \<and> (rev_inv V r \<longrightarrow> e = None)"
proof (cases "rev_inv V r")
  case True
  obtain t where t: "buildTopologySnapshot (sr_myPubkey r) (mvals (sr_membership r)) = Inr t" using snapshot_total [OF True] by blast
  then have e: "e = None" "r' = publishTopology E t g r" using assms by (simp_all add: publish_current_def)
  have ok: "event_ok V (sr_myPubkey r) (AskTopology (sr_generation r) t)"
    using t memberships_vouched [OF True] by (auto simp: event_ok_def)
  have "sweeps V g r (publishTopology E t g r)"
  proof (cases "\<not> hasAuthority g r \<or> topologyEquals (sr_previous r) t")
    case False
    show ?thesis
    proof (cases "re_topology E")
      case None
      then show ?thesis using False by (simp add: publishTopology_def)
    next
      case (Some f)
      obtain fine n w where f: "f t (sr_world r) = (fine, n, w)" using prod_cases3 by blast
      define r1 where "r1 = resume n w (event (AskTopology (sr_generation r) t) r)"
      have s: "sweeps V g r r1" unfolding r1_def using False ok
        by (intro sweeps_trans [OF sweeps_event sweeps_simps(1)]) (simp_all add: tagged_def hasAuthority_def)
      have "publishTopology E t g r = log_if g ''[mesh] event=topology_callback_failed'' r1 \<or>
          publishTopology E t g r = r1\<lparr>sr_previous := Some t\<rparr> \<or> publishTopology E t g r = r1"
        using False Some f by (auto simp: publishTopology_def r1_def Let_def)
      then show ?thesis using s sweeps_trans [OF s sweeps_simps(4)] sweeps_trans [OF s sweeps_previous(1)] by metis
    qed
  qed (simp add: publishTopology_def)
  then show ?thesis using e by simp
qed (simp add: sweeps_def)

lemma fold_log_sweeps: "sweeps V g r (fold (\<lambda>line. event (LogLine line)) log r)" "sr_generation (fold (\<lambda>line. event (LogLine line)) log r) = sr_generation r"
proof (induction log arbitrary: r)
  case (Cons l log)
  {
    case 1
    show ?case using sweeps_trans [OF sweeps_simps(3) Cons.IH(1)] by simp
  next
    case 2
    show ?case by (simp add: Cons.IH(2)) (simp add: event_def)
  }
qed simp_all

lemma runSweep_sweeps:
  assumes "runSweep sha256 V E g r = (e, r')"
  shows "sweeps V g r r' \<and> (rev_inv V r \<longrightarrow> e = None)"
proof -
  obtain snapshot n w where sn: "re_snapshot E (sr_world r) = (snapshot, n, w)" using prod_cases3 by blast
  define r1 where "r1 = resume n w r"
  have 1: "sweeps V g r r1" by (simp add: r1_def)
  have publ: "sweeps V g r r' \<and> (rev_inv V r \<longrightarrow> e = None)" if "sweeps V g r ra" "publish_current E g ra = (e, r')" for ra
  proof -
    have "rev_inv V r \<Longrightarrow> rev_inv V ra" using that(1) by (simp add: sweeps_def)
    then show ?thesis using sweeps_trans [OF that(1)] publish_sweeps [OF that(2), of V] by blast
  qed
  show ?thesis
  proof (cases "hasAuthority g r1")
    case False
    then have "e = None" "r' = r1" using assms sn by (auto simp: runSweep_def r1_def [symmetric] split: option.splits)
    then show ?thesis using 1 by simp
  next
    case g: True
    show ?thesis
    proof (cases snapshot)
      case None
      then have "publish_current E g (event (LogLine ''[mesh] event=owner_list_unavailable'') r1) = (e, r')"
        using assms sn g by (simp add: runSweep_def r1_def [symmetric])
      then show ?thesis using publ [OF sweeps_trans [OF 1 sweeps_simps(3)]] by blast
    next
      case (Some records)
      obtain slots log where sl: "canonical_slots sha256 records = (slots, log)" by fastforce
      have good: "\<forall>s \<in> set slots. slot_good s" using canonical_slots_good [of _ sha256 records] sl by simp
      define r2 where "r2 = fold (\<lambda>line. event (LogLine line)) log r1"
      have 2: "sweeps V g r r2" unfolding r2_def by (rule sweeps_trans [OF 1 fold_log_sweeps(1)])
      have "hasAuthority g r2" using g by (simp add: r2_def hasAuthority_def fold_log_sweeps(2))
      define r3 where "r3 = announce_owners E (map rs_canonical slots) g r2"
      have 3: "sweeps V g r r3" unfolding r3_def using \<open>hasAuthority g r2\<close> by (intro sweeps_trans [OF 2] announce_sweeps)
      define r4 where "r4 = yield_to E (pruneStateNotIn E slots g r3)"
      have 4: "sweeps V g r r4" unfolding r4_def by (rule sweeps_trans [OF sweeps_trans [OF 3 prune_sweeps] sweeps_simps(2)])
      obtain go r5 where c: "check_slots sha256 V E slots g r4 = (go, r5)" by fastforce
      have 5: "sweeps V g r r5" by (rule sweeps_trans [OF 4 check_slots_sweeps [OF c good]])
      have eq: "runSweep sha256 V E g r = (if \<not> hasAuthority g r3 then (None, r3) else if \<not> hasAuthority g r4 then (None, r4)
          else if \<not> go then (None, r5) else publish_current E g r5)"
        using sn g Some sl c by (simp add: runSweep_def r1_def [symmetric] r2_def [symmetric] r3_def [symmetric] r4_def [symmetric] Let_def)
      consider "e = None" "r' = r3" | "e = None" "r' = r4" | "e = None" "r' = r5" | "publish_current E g r5 = (e, r')"
        using assms eq by (metis prod.inject)
      then show ?thesis using 3 4 5 publ [OF 5] by cases simp_all
    qed
  qed
qed

lemma checkOnce_sweeps:
  assumes "checkOnce sha256 V E r = (e, r')"
  shows "sweeps V (sr_generation r) r r' \<and> (rev_inv V r \<longrightarrow> e = None)"
proof (cases "sr_inflight r")
  case False
  obtain e1 r1 where run: "runSweep sha256 V E (sr_generation r) (r\<lparr>sr_inflight := True\<rparr>) = (e1, r1)" by fastforce
  then have e: "e = e1" "r' = r1\<lparr>sr_inflight := False\<rparr>" using assms False by (simp_all add: checkOnce_def)
  note s = runSweep_sweeps [OF run]
  have 0: "sweeps V (sr_generation r) r (r\<lparr>sr_inflight := True\<rparr>)" by simp
  have "sweeps V (sr_generation r) r r'" unfolding e
    by (rule sweeps_trans [OF sweeps_trans [OF 0 conjunct1 [OF s]] sweeps_previous(2)])
  moreover have "rev_inv V r \<Longrightarrow> rev_inv V (r\<lparr>sr_inflight := True\<rparr>)" using 0 by (simp add: sweeps_def)
  ultimately show ?thesis using s e by blast
qed (use assms in \<open>simp add: checkOnce_def\<close>)

end
