(* ===== verification/RevokeRuns.thy ===== *)
theory RevokeRuns
  imports RevokeProps
begin

text \<open>
  Runs of the revoker of \<^verbatim>\<open>extension/src/mesh/self_revoke.ts\<close>: any sequence of sweeps, whatever the mesh client,
  the storage and the callbacks answer, of starts and of stops; and what holds in all of them.
\<close>

section \<open>Runs\<close>

inductive revoker_step :: "(byte list \<Rightarrow> byte list) \<Rightarrow> (byte list \<Rightarrow> byte list \<Rightarrow> byte list \<Rightarrow> bool) \<Rightarrow> ('tok, 'w) revoker \<Rightarrow> ('tok, 'w) revoker \<Rightarrow> bool"
  for sha256 V where
  check: "revoker_step sha256 V r (snd (checkOnce sha256 V E r))"
| timer: "revoker_step sha256 V r (timer_sweep sha256 V E r)"
| start: "revoker_step sha256 V r (snd (start_revoker r))"
| stop: "revoker_step sha256 V r (stop_revoker r)"
| invalidate: "revoker_step sha256 V r (invalidateStorageAuthority r)"

inductive revoker_reachable :: "(byte list \<Rightarrow> byte list) \<Rightarrow> (byte list \<Rightarrow> byte list \<Rightarrow> byte list \<Rightarrow> bool) \<Rightarrow> byte list \<Rightarrow> ('tok, 'w) revoker \<Rightarrow> bool"
  for sha256 V my where
  init: "new_revoker my w = Inr r \<Longrightarrow> revoker_reachable sha256 V my r"
| step: "revoker_reachable sha256 V my r \<Longrightarrow> revoker_step sha256 V r r' \<Longrightarrow> revoker_reachable sha256 V my r'"

lemma timer_sweeps: "sweeps V (sr_generation r) r (timer_sweep sha256 V E r)"
proof -
  obtain e r1 where c: "checkOnce sha256 V E r = (e, r1)" by fastforce
  note s = checkOnce_sweeps [OF c]
  have "timer_sweep sha256 V E r = r1 \<or> timer_sweep sha256 V E r = event (LogLine ''[mesh] event=self_revoke_sweep_failed'') r1"
    by (cases e) (simp_all add: timer_sweep_def c)
  then show ?thesis using s sweeps_trans [OF conjunct1 [OF s] sweeps_simps(3)] by metis
qed

lemma step_sweeps: "revoker_step sha256 V r r' \<Longrightarrow> sweeps V (sr_generation r) r r'"
proof (induction rule: revoker_step.induct)
  case (check r E)
  then show ?case using checkOnce_sweeps [of sha256 V E r] by (metis prod.collapse)
next
  case (stop r)
  then show ?case unfolding stop_revoker_def by (rule sweeps_trans [OF sweeps_previous(4) sweeps_previous(3)])
qed (simp_all add: timer_sweeps start_revoker_def)

lemma new_revoker_inv: "new_revoker my w = Inr r \<Longrightarrow> rev_inv V r \<and> sr_myPubkey r = my"
  by (auto simp: new_revoker_def encodeEd25519PublicKey_def ED25519_PUBLIC_KEY_BYTES_def rev_inv_def maps_wf_def look_def owner_ok_def
      split: if_splits)

text \<open>The invariant of every run.\<close>

lemma revoker_reachable_inv: "revoker_reachable sha256 V my r \<Longrightarrow> rev_inv V r \<and> sr_myPubkey r = my"
proof (induction rule: revoker_reachable.induct)
  case (step r r')
  then show ?case using step_sweeps by (metis sweeps_def)
qed (rule new_revoker_inv)

section \<open>What holds in every run\<close>

lemma listed_iff: "listed my h \<longleftrightarrow> b64_encode my \<in> mm_remoteEpk ` set (mh_members h)"
  by (force simp: listed_def list_ex_iff)

lemma signed_out_iff: "signed_out V my owner \<longleftrightarrow> (\<exists>env h. verifyEnvelope V env = Inr h \<and> b64_encode (mh_ownerPk h) = owner \<and>
     b64_encode my \<notin> mm_remoteEpk ` set (mh_members h))"
  unfolding signed_out_def vouched_def listed_iff by blast

text \<open>C13: a pairing is given up only on the word of its owner. Whenever the revoker asks the storage to remove a stored
  handle, or tells the application of a removal, there is an envelope that verifies under the owner's own
  key and whose members do not include this machine, and the handle is a spelling of that key. No answer
  of the relay, of the storage or of a callback, and no error, brings about a removal otherwise.\<close>

theorem revocation_authorized:
  assumes "revoker_reachable sha256 V my r"
    and "AskRemove g raw owner \<in> set (sr_events r) \<or> AskRevoke g raw owner \<in> set (sr_events r)"
  shows "\<exists>env h pk. verifyEnvelope V env = Inr h \<and> mh_ownerPk h = pk \<and> owner = b64_encode pk \<and>
     decodeEd25519PublicKey raw ''Owner record'' = Inr pk \<and> b64_encode my \<notin> mm_remoteEpk ` set (mh_members h)"
proof -
  note i = revoker_reachable_inv [OF assms(1)]
  have "signed_out V my owner \<and> handle_of raw owner"
    using assms(2) i by (auto simp: rev_inv_def list_all_iff event_ok_def)
  then obtain env h pk where e: "verifyEnvelope V env = Inr h" "b64_encode (mh_ownerPk h) = owner"
    "b64_encode my \<notin> mm_remoteEpk ` set (mh_members h)" "decodeEd25519PublicKey raw ''Owner record'' = Inr pk" "b64_encode pk = owner"
    by (auto simp: signed_out_iff handle_of_def split: sum.splits)
  have "length (mh_ownerPk h) = 32" by (rule verify_cases [OF e(1)]) (use decode_only_spelling in blast)
  moreover have "length pk = 32" using e(4) by (rule decode_only_spelling [THEN conjunct1])
  ultimately have "mh_ownerPk h = pk" using kc.enc_inj [of "mh_ownerPk h" pk] e(2,5) by (simp add: key_ok_def)
  then show ?thesis using e by blast
qed

section \<open>Where the topologies come from\<close>

text \<open>The topologies announced so far, and the owners that have a membership.\<close>

definition topologies :: "('tok, 'w) revoker \<Rightarrow> rev_event list" where
  "topologies r = filter (\<lambda>e. case e of AskTopology _ _ \<Rightarrow> True | _ \<Rightarrow> False) (sr_events r)"

abbreviation members_of :: "('tok, 'w) revoker \<Rightarrow> string set" where
  "members_of r \<equiv> set (mkeys (sr_membership r))"

lemma topologies_simps [simp]:
  "topologies (resume n w r) = topologies r" "topologies (yield_to E r) = topologies r"
  "topologies (event (LogLine m) r) = topologies r" "topologies (event (AskRevoke n raw c) r) = topologies r"
  "topologies (event (AskOwners n os) r) = topologies r" "topologies (log_if g m r) = topologies r"
  "topologies (invokeRevokeCallback E raw c fp g r) = topologies r"
  "topologies (r\<lparr>sr_pending := pd\<rparr>) = topologies r" "topologies (r\<lparr>sr_inflight := fl\<rparr>) = topologies r"
  by (simp_all add: topologies_def resume_def yield_to_def event_def log_if_def invokeRevokeCallback_def split_def Let_def
      split: option.splits)

lemma membership_simps [simp]:
  "sr_membership (resume n w r) = sr_membership r" "sr_membership (yield_to E r) = sr_membership r"
  "sr_membership (event e r) = sr_membership r" "sr_membership (log_if g m r) = sr_membership r"
  "sr_membership (invokeRevokeCallback E raw c fp g r) = sr_membership r"
  by (simp_all add: resume_def yield_to_def event_def log_if_def invokeRevokeCallback_def split_def Let_def split: option.splits)

lemma members_mget: "x \<in> members_of r \<longleftrightarrow> (\<exists>m. mget (sr_membership r) x = Some m)"
  by (metis domD domI dom_map_of_conv_image_fst set_map)

lemma prune_handles_keeps: "prune_handles E owner g raws p r = (b, p', r') \<Longrightarrow>
    topologies r' = topologies r \<and> sr_membership r' = sr_membership r \<and> (b \<longrightarrow> \<not> hasAuthority g r')"
proof (induction raws arbitrary: p r)
  case (Cons raw raws)
  define p1 where "p1 = p\<lparr>pd_tokens := mdel raw (pd_tokens p)\<rparr>"
  define r2 where "r2 = yield_to E (invokeRevokeCallback E raw owner (pd_fingerprint p1) g (r\<lparr>sr_pending := mput owner p1 (sr_pending r)\<rparr>))"
  have 2: "topologies r2 = topologies r" "sr_membership r2 = sr_membership r" by (simp_all add: r2_def)
  have "prune_handles E owner g (raw # raws) p r =
      (if \<not> hasAuthority g r then (True, p, r) else if \<not> hasAuthority g r2 then (True, p1, r2) else prune_handles E owner g raws p1 r2)"
    by (simp add: r2_def p1_def Let_def)
  then show ?case using Cons.prems Cons.IH [of p1 r2] 2 by (auto split: if_splits)
qed simp

lemma prune_pending_keeps: "prune_pending E current g ps r = (b, r') \<Longrightarrow>
    topologies r' = topologies r \<and> sr_membership r' = sr_membership r \<and> (b \<longrightarrow> \<not> hasAuthority g r')"
proof (induction ps arbitrary: r)
  case (Cons op ps)
  obtain owner p where op: "op = (owner, p)" by fastforce
  obtain b1 p1 r1 where h: "prune_handles E owner g (mkeys (pd_tokens p)) p r = (b1, p1, r1)" using prod_cases3 by blast
  note k = prune_handles_keeps [OF h]
  define r2 where "r2 = (if pd_tokens p1 = [] then r1\<lparr>sr_pending := mdel owner (sr_pending r1)\<rparr> else r1)"
  have 2: "topologies r2 = topologies r1" "sr_membership r2 = sr_membership r1" by (simp_all add: r2_def)
  have "prune_pending E current g (op # ps) r = (if owner \<in> set current then prune_pending E current g ps r
      else if b1 then (True, r1) else prune_pending E current g ps r2)"
    using h by (simp add: op r2_def)
  then show ?case using Cons.prems Cons.IH [of r] Cons.IH [of r2] k 2 by (auto split: if_splits)
qed simp

text \<open>After the pruning only owners of the list just read have a membership, or the authority is gone.\<close>

lemma prune_members:
  assumes "rev_inv V r" and "g \<le> sr_generation r"
  shows "topologies (pruneStateNotIn E slots g r) = topologies r"
    and "members_of (pruneStateNotIn E slots g r) \<subseteq> members_of r"
    and "hasAuthority g (yield_to E (pruneStateNotIn E slots g r)) \<Longrightarrow>
       members_of (pruneStateNotIn E slots g r) \<subseteq> set (map rs_canonical slots)"
proof -
  let ?cur = "map rs_canonical slots" and ?r' = "pruneStateNotIn E slots g r"
  obtain b r1 where p: "prune_pending E ?cur g (sr_pending r) r = (b, r1)" by fastforce
  note k = prune_pending_keeps [OF p]
  have "mwf (sr_pending r)" using assms(1) by (simp add: rev_inv_def maps_wf_def)
  then have s: "sweeps V g r r1" by (intro prune_pending_sweeps [OF p]) (auto simp: mwf_def)
  then have i1: "rev_inv V r1" "sr_generation r \<le> sr_generation r1" using assms(1) by (simp_all add: sweeps_def)
  define kept where "kept = (\<lambda>owner. owner \<in> set ?cur \<or> mhas (sr_pending r1) owner)"
  have e: "?r' = (if b then r1 else r1\<lparr>sr_membership := filter (\<lambda>p. kept (fst p)) (sr_membership r1),
      sr_lastSeen := filter (\<lambda>p. kept (fst p)) (sr_lastSeen r1)\<rparr>)"
    by (cases b) (simp_all add: pruneStateNotIn_def p kept_def Let_def)
  show "topologies ?r' = topologies r" using k by (simp add: e topologies_def)
  show "members_of ?r' \<subseteq> members_of r" using k by (auto simp: e)
  assume a: "hasAuthority g (yield_to E ?r')"
  have nb: "\<not> b"
  proof
    assume b
    then have "g < sr_generation r1" using k i1(2) assms(2) by (auto simp: hasAuthority_def)
    then show False using a \<open>b\<close> by (simp add: e hasAuthority_def yield_to_def resume_def split_def Let_def)
  qed
  show "members_of ?r' \<subseteq> set ?cur"
  proof
    fix x assume "x \<in> members_of ?r'"
    then have x: "x \<in> members_of r1" "kept x" using nb by (auto simp: e)
    then obtain m where "mget (sr_membership r1) x = Some m" unfolding members_mget by blast
    moreover have "owner_ok V (sr_myPubkey r1) x (look r1 x)" using i1(1) by (simp add: rev_inv_def)
    ultimately have "mget (sr_pending r1) x = None" by (simp add: owner_ok_def look_def)
    then show "x \<in> set ?cur" using x(2) by (simp add: kept_def mhas_def)
  qed
qed

text \<open>Checking an owner announces no topology and gives a membership to that owner at most.\<close>

lemma check_members:
  assumes "checkOwnerSlot sha256 V E s g r = (stale, r')" and "slot_good s" and "rev_inv V r"
  shows "topologies r' = topologies r \<and> members_of r' \<subseteq> insert (rs_canonical s) (members_of r)"
proof -
  let ?P = "signed_out V (sr_myPubkey r) (rs_canonical s)"
  have f: "frame ?P (rs_canonical s) g r r'"
    using part_check [OF assms(1,2)] assms(3) by (simp add: part_def rev_inv_def)
  then obtain es where es: "sr_events r' = sr_events r @ es" "list_all (call_ok ?P (rs_canonical s) g) es"
    by (auto simp: frame_def calls_def)
  then have "filter (\<lambda>e. case e of AskTopology _ _ \<Rightarrow> True | _ \<Rightarrow> False) es = []"
    by (auto simp: filter_empty_conv list_all_iff call_ok_def split: rev_event.splits)
  then have "topologies r' = topologies r" using es(1) by (simp add: topologies_def)
  moreover have "members_of r' \<subseteq> insert (rs_canonical s) (members_of r)"
  proof
    fix x assume "x \<in> members_of r'"
    moreover have "x \<noteq> rs_canonical s \<Longrightarrow> look r' x = look r x" using f by (simp add: frame_def)
    ultimately show "x \<in> insert (rs_canonical s) (members_of r)" unfolding insert_iff members_mget by (cases "x = rs_canonical s") (simp_all add: look_def)
  qed
  ultimately show ?thesis ..
qed

lemma check_slots_members: "check_slots sha256 V E slots g r = (b, r') \<Longrightarrow> \<forall>s \<in> set slots. slot_good s \<Longrightarrow> rev_inv V r \<Longrightarrow>
    topologies r' = topologies r \<and> members_of r' \<subseteq> set (map rs_canonical slots) \<union> members_of r"
proof (induction slots arbitrary: r)
  case (Cons s slots)
  obtain stale r1 where c: "checkOwnerSlot sha256 V E s g r = (stale, r1)" by fastforce
  have g: "slot_good s" using Cons.prems(2) by simp
  note k = check_members [OF c g Cons.prems(3)]
  have i: "rev_inv V (yield_to E r1)"
    using sweeps_trans [OF part_sweeps [OF part_check [OF c g]] sweeps_simps(2) [where E = E]] Cons.prems(3) by (simp add: sweeps_def)
  have eq: "check_slots sha256 V E (s # slots) g r = (if \<not> hasAuthority g (yield_to E r1) \<or> stale then (False, yield_to E r1)
      else check_slots sha256 V E slots g (yield_to E r1))" by (simp add: c Let_def)
  show ?case
  proof (cases "\<not> hasAuthority g (yield_to E r1) \<or> stale")
    case True
    then have "r' = yield_to E r1" using Cons.prems(1) unfolding eq by simp
    then show ?thesis using k by auto
  next
    case False
    then have "check_slots sha256 V E slots g (yield_to E r1) = (b, r')" using Cons.prems(1) unfolding eq by simp
    from Cons.IH [OF this _ i] have "topologies r' = topologies r1" "members_of r' \<subseteq> set (map rs_canonical slots) \<union> members_of r1"
      using Cons.prems(2) by simp_all
    note l = this
    have "members_of r' \<subseteq> set (map rs_canonical slots) \<union> insert (rs_canonical s) (members_of r)"
      by (rule order_trans [OF l(2) Un_mono [OF subset_refl conjunct2 [OF k]]])
    then show ?thesis using l(1) k by simp
  qed
qed simp

text \<open>A topology built from memberships of the owners \<open>os\<close>.\<close>

definition built_from :: "(byte list \<Rightarrow> byte list \<Rightarrow> byte list \<Rightarrow> bool) \<Rightarrow> byte list \<Rightarrow> string set \<Rightarrow> rev_event \<Rightarrow> bool" where
  "built_from V my os e \<longleftrightarrow> (\<exists>g t ms. e = AskTopology g t \<and> buildTopologySnapshot my ms = Inr t \<and>
     (\<forall>m \<in> set ms. \<exists>h owner. owner \<in> os \<and> vouched V owner h \<and> listed my h \<and> m = header_membership h owner))"

lemma publish_members:
  assumes "publish_current E g r = (e, r')" and "rev_inv V r" and "members_of r \<subseteq> os"
  shows "sr_membership r' = sr_membership r \<and> (\<exists>ts. topologies r' = topologies r @ ts \<and> list_all (built_from V (sr_myPubkey r) os) ts)"
proof (cases "buildTopologySnapshot (sr_myPubkey r) (mvals (sr_membership r))")
  case (Inl x)
  then show ?thesis using assms(1) by (auto simp: publish_current_def)
next
  case (Inr t)
  then have r': "r' = publishTopology E t g r" using assms(1) by (simp add: publish_current_def)
  have "\<exists>h owner. owner \<in> os \<and> vouched V owner h \<and> listed (sr_myPubkey r) h \<and> m = header_membership h owner"
    if mem: "m \<in> set (mvals (sr_membership r))" for m
  proof -
    obtain x where x: "(x, m) \<in> set (sr_membership r)" using mem by auto
    then have "mget (sr_membership r) x = Some m" using assms(2) by (simp add: rev_inv_def maps_wf_def mwf_mget)
    moreover have "owner_ok V (sr_myPubkey r) x (look r x)" using assms(2) by (simp add: rev_inv_def)
    moreover have "x \<in> os" using x assms(3) by force
    ultimately show ?thesis by (auto simp: owner_ok_def look_def)
  qed
  then have b: "built_from V (sr_myPubkey r) os (AskTopology n t)" for n using Inr by (auto simp: built_from_def)
  show ?thesis
  proof (cases "(\<not> hasAuthority g r \<or> topologyEquals (sr_previous r) t) \<or> re_topology E = None")
    case True
    then show ?thesis by (auto simp: r' publishTopology_def topologies_def)
  next
    case False
    then obtain f where f: "re_topology E = Some f" by blast
    obtain ok n w where o: "f t (sr_world r) = (ok, n, w)" using prod_cases3 by blast
    have "topologies r' = topologies r @ [AskTopology (sr_generation r) t]" "sr_membership r' = sr_membership r"
      using False f o by (auto simp: r' publishTopology_def Let_def topologies_def event_def resume_def log_if_def)
    then show ?thesis using b by simp
  qed
qed

text \<open>Every owner slot stands for a record of the list.\<close>

definition record_owner :: "(jv \<times> 'tok) list \<Rightarrow> string \<Rightarrow> bool" where
  "record_owner records owner \<longleftrightarrow> (\<exists>raw tok k. (JStr raw, tok) \<in> set records \<and>
     decodeEd25519PublicKey raw ''Owner record'' = Inr k \<and> b64_encode k = owner)"

lemma record_owner_mono: "record_owner rs owner \<Longrightarrow> set rs \<subseteq> set rs' \<Longrightarrow> record_owner rs' owner"
  unfolding record_owner_def by blast

lemma slots_of_records:
  assumes "s \<in> set (fst (canonical_slots sha256 records))"
  shows "record_owner records (rs_canonical s)"
proof -
  define keys where "keys = (\<lambda>st :: (string, (string, 'a) jsmap) jsmap \<times> (string, byte list) jsmap \<times> string list. fst ` set (fst st))"
  have one: "keys (collect_owner sha256 rec st) \<subseteq> keys st \<union> Collect (record_owner [rec])" for rec st
  proof (cases "\<exists>raw k. fst rec = JStr raw \<and> decodeEd25519PublicKey raw ''Owner record'' = Inr k")
    case True
    then obtain raw k where r: "fst rec = JStr raw" "decodeEd25519PublicKey raw ''Owner record'' = Inr k" by blast
    then have "length k = 32" using decode_only_spelling [THEN conjunct1] by blast
    then have e: "encodeEd25519PublicKey k ''public key'' = Inr (b64_encode k)"
      by (simp add: encodeEd25519PublicKey_def ED25519_PUBLIC_KEY_BYTES_def)
    have "record_owner [rec] (b64_encode k)" using r unfolding record_owner_def
      by (intro exI [of _ raw] exI [of _ "snd rec"] exI [of _ k]) (simp add: prod_eq_iff)
    then show ?thesis using r e by (cases st) (auto simp: collect_owner_def keys_def keys_mput dest!: keys_mputD)
  next
    case False
    then have "keys (collect_owner sha256 rec st) = keys st"
    proof (cases "fst rec")
      case (JStr raw)
      then obtain e where "decodeEd25519PublicKey raw ''Owner record'' = Inl e" using False by (metis sumE)
      then show ?thesis using JStr by (cases st) (simp add: collect_owner_def keys_def)
    qed (cases st, simp add: collect_owner_def keys_def)+
    then show ?thesis by blast
  qed
  have "keys (fold (collect_owner sha256) rs st) \<subseteq> keys st \<union> Collect (record_owner rs)" for rs st
  proof (induction rs arbitrary: st)
    case (Cons a rs)
    have "Collect (record_owner [a]) \<union> Collect (record_owner rs) \<subseteq> Collect (record_owner (a # rs))"
      using record_owner_mono [of "[a]" _ "a # rs"] record_owner_mono [of rs _ "a # rs"] by auto
    then show ?case using Cons.IH [of "collect_owner sha256 a st"] one [of a st] by simp blast
  qed simp
  from this [of records "([], [], [])"]
  have "keys (fold (collect_owner sha256) records ([], [], [])) \<subseteq> Collect (record_owner records)" by (simp add: keys_def)
  moreover have "rs_canonical s \<in> keys (fold (collect_owner sha256) records ([], [], []))"
    using assms by (force simp: canonical_slots_def Let_def keys_def split: prod.splits)
  ultimately show ?thesis by blast
qed

text \<open>What a whole sweep does: the topologies it announces are built from memberships of owners in the
  list it read; if it could read none, of the owners of the memberships held.\<close>

lemma checkOnce_topologies:
  assumes "checkOnce sha256 V E r = (e, r')" and "rev_inv V r" and "\<forall>o' \<in> members_of r. record_owner S o'"
  shows "(\<exists>ts. topologies r' = topologies r @ ts \<and> list_all (built_from V (sr_myPubkey r)
       (Collect (record_owner (case fst (re_snapshot E (sr_world r)) of Some records \<Rightarrow> records | None \<Rightarrow> S)))) ts) \<and>
     (\<forall>o' \<in> members_of r'. record_owner S o' \<or>
       (\<exists>records. fst (re_snapshot E (sr_world r)) = Some records \<and> record_owner records o'))"
proof (cases "sr_inflight r")
  case True
  then have "r' = r" using assms(1) by (simp add: checkOnce_def)
  then show ?thesis using assms(3) by simp
next
  case False
  let ?g = "sr_generation r" and ?r0 = "r\<lparr>sr_inflight := True\<rparr>"
  obtain rn where run: "runSweep sha256 V E ?g ?r0 = (e, rn)" and rn: "r' = rn\<lparr>sr_inflight := False\<rparr>"
    using assms(1) False by (auto simp: checkOnce_def split: prod.splits)
  obtain snapshot n w where sn: "re_snapshot E (sr_world r) = (snapshot, n, w)" using prod_cases3 by blast
  define r1 where "r1 = resume n w ?r0"
  have "sweeps V ?g r ?r0" "sweeps V ?g ?r0 r1" by (simp_all add: r1_def)
  then have i1: "rev_inv V r1" using assms(2) by (simp add: sweeps_def)
  have m1: "topologies r1 = topologies r" "sr_membership r1 = sr_membership r" "sr_myPubkey r1 = sr_myPubkey r" "?g \<le> sr_generation r1"
    by (simp_all add: r1_def) (simp_all add: resume_def)
  have quiet: ?thesis if "topologies rn = topologies r" "\<And>o'. o' \<in> members_of rn \<Longrightarrow> record_owner S o' \<or>
       (\<exists>records. snapshot = Some records \<and> record_owner records o')"
    using that by (simp add: rn sn)
  show ?thesis
  proof (cases "hasAuthority ?g r1")
    case False
    then have "rn = r1" using run sn by (auto simp: runSweep_def r1_def [symmetric] split: option.splits)
    then show ?thesis using quiet m1 assms(3) by simp
  next
    case g: True
    show ?thesis
    proof (cases snapshot)
      case None
      define rl where "rl = event (LogLine ''[mesh] event=owner_list_unavailable'') r1"
      have p: "publish_current E ?g rl = (e, rn)" using run sn g None by (simp add: runSweep_def r1_def [symmetric] rl_def)
      have "sweeps V ?g r1 rl" by (simp add: rl_def)
      then have il: "rev_inv V rl" using i1 by (simp add: sweeps_def)
      have ml: "members_of rl \<subseteq> Collect (record_owner S)" using assms(3) m1 by (auto simp: rl_def)
      have kl: "topologies rl = topologies r" "sr_membership rl = sr_membership r" "sr_myPubkey rl = sr_myPubkey r"
        using m1 by (simp_all add: rl_def) (simp add: event_def)
      show ?thesis using publish_members [OF p il ml] kl assms(3) sn None by (simp add: rn)
    next
      case (Some records)
      obtain slots log where sl: "canonical_slots sha256 records = (slots, log)" by fastforce
      have good: "\<forall>s \<in> set slots. slot_good s" using canonical_slots_good [of _ sha256 records] sl by simp
      have recs: "set (map rs_canonical slots) \<subseteq> Collect (record_owner records)"
        using slots_of_records [of _ sha256 records] sl by auto
      define r2 where "r2 = fold (\<lambda>line. event (LogLine line)) log r1"
      have fl: "topologies (fold (\<lambda>line. event (LogLine line)) ls x) = topologies x \<and>
          sr_membership (fold (\<lambda>line. event (LogLine line)) ls x) = sr_membership x" for ls and x :: "('a, 'b) revoker"
        by (induction ls arbitrary: x) simp_all
      have s2: "sweeps V ?g r1 r2" by (simp add: r2_def fold_log_sweeps)
      have g2: "hasAuthority ?g r2" using g by (simp add: r2_def hasAuthority_def fold_log_sweeps(2))
      define r3 where "r3 = announce_owners E (map rs_canonical slots) ?g r2"
      have s3: "sweeps V ?g r1 r3" unfolding r3_def by (rule sweeps_trans [OF s2 announce_sweeps [OF g2]])
      have "topologies r3 = topologies r2 \<and> sr_membership r3 = sr_membership r2"
        by (simp add: r3_def announce_owners_def split_def Let_def split: option.split)
      then have k3: "topologies r3 = topologies r" "sr_membership r3 = sr_membership r" using m1 fl by (simp_all add: r2_def)
      have i3: "rev_inv V r3" "sr_myPubkey r3 = sr_myPubkey r" "?g \<le> sr_generation r3"
        using s3 i1 m1 by (simp_all add: sweeps_def)
      note pr = prune_members [OF i3(1,3), of E slots]
      define r4 where "r4 = yield_to E (pruneStateNotIn E slots ?g r3)"
      have k4: "topologies r4 = topologies r" "members_of r4 \<subseteq> members_of r"
        using pr(1,2) k3 by (simp_all add: r4_def)
      have s4: "sweeps V ?g r3 r4" unfolding r4_def by (rule sweeps_trans [OF prune_sweeps sweeps_simps(2)])
      have i4: "rev_inv V r4" "sr_myPubkey r4 = sr_myPubkey r" using s4 i3 by (simp_all add: sweeps_def)
      obtain go r5 where c: "check_slots sha256 V E slots ?g r4 = (go, r5)" by fastforce
      note k5 = check_slots_members [OF c good i4(1)]
      have "sweeps V ?g r4 r5" by (rule check_slots_sweeps [OF c good])
      then have i5: "rev_inv V r5" "sr_myPubkey r5 = sr_myPubkey r" using i4 by (simp_all add: sweeps_def)
      have eq: "runSweep sha256 V E ?g ?r0 = (if \<not> hasAuthority ?g r3 then (None, r3) else if \<not> hasAuthority ?g r4 then (None, r4)
          else if \<not> go then (None, r5) else publish_current E ?g r5)"
        using sn g Some sl c by (simp add: runSweep_def r1_def [symmetric] r2_def [symmetric] r3_def [symmetric] r4_def [symmetric] Let_def)
      have old: "record_owner S o'" if "o' \<in> members_of r4" for o' using that k4(2) assms(3) by blast
      show ?thesis
      proof (cases "hasAuthority ?g r3 \<and> hasAuthority ?g r4")
        case False
        then have "rn = r3 \<or> rn = r4" using run unfolding eq by (auto split: if_splits)
        then show ?thesis using quiet k3 k4(1) old assms(3) by (elim disjE) simp_all
      next
        case True
        then have "members_of r4 \<subseteq> set (map rs_canonical slots)" using pr(3) by (simp add: r4_def)
        then have m5: "members_of r5 \<subseteq> Collect (record_owner records)" "topologies r5 = topologies r"
          using k5 recs k4(1) by (blast, simp)
        show ?thesis
        proof (cases go)
          case False
          then have "rn = r5" using run True unfolding eq by simp
          then show ?thesis using quiet m5 Some by auto
        next
          case True
          then have "publish_current E ?g r5 = (e, rn)" using run \<open>hasAuthority ?g r3 \<and> hasAuthority ?g r4\<close> unfolding eq by simp
          from publish_members [OF this i5(1) m5(1)] m5 i5(2) show ?thesis by (auto simp: rn sn Some)
        qed
      qed
    qed
  qed
qed

lemma vouched_record:
  assumes "vouched V owner h" and "record_owner R owner"
  shows "\<exists>env raw tok. verifyEnvelope V env = Inr h \<and> (JStr raw, tok) \<in> set R \<and>
     decodeEd25519PublicKey raw ''Owner record'' = Inr (mh_ownerPk h)"
proof -
  obtain env where e: "verifyEnvelope V env = Inr h" "b64_encode (mh_ownerPk h) = owner" using assms(1) by (auto simp: vouched_def)
  obtain raw tok k where k: "(JStr raw, tok) \<in> set R" "decodeEd25519PublicKey raw ''Owner record'' = Inr k" "b64_encode k = owner"
    using assms(2) unfolding record_owner_def by blast
  have "length (mh_ownerPk h) = 32" by (rule verify_cases [OF e(1)]) (use decode_only_spelling in blast)
  moreover have "length k = 32" using k(2) by (rule decode_only_spelling [THEN conjunct1])
  ultimately have "mh_ownerPk h = k" using kc.enc_inj [of "mh_ownerPk h" k] e(2) k(3) by (simp add: key_ok_def)
  then show ?thesis using e(1) k by blast
qed

text \<open>Runs together with the owner records that their sweeps have read so far.\<close>

definition records_read :: "('tok, 'w) rev_env \<Rightarrow> ('tok, 'w) revoker \<Rightarrow> (jv \<times> 'tok) list" where
  "records_read E r = (case fst (re_snapshot E (sr_world r)) of Some records \<Rightarrow> records | None \<Rightarrow> [])"

inductive revoker_history :: "(byte list \<Rightarrow> byte list) \<Rightarrow> (byte list \<Rightarrow> byte list \<Rightarrow> byte list \<Rightarrow> bool) \<Rightarrow> byte list
    \<Rightarrow> (jv \<times> 'tok) list \<Rightarrow> ('tok, 'w) revoker \<Rightarrow> bool" for sha256 V my where
  h_init: "new_revoker my w = Inr r \<Longrightarrow> revoker_history sha256 V my [] r"
| h_check: "revoker_history sha256 V my S r \<Longrightarrow> revoker_history sha256 V my (S @ records_read E r) (snd (checkOnce sha256 V E r))"
| h_timer: "revoker_history sha256 V my S r \<Longrightarrow> revoker_history sha256 V my (S @ records_read E r) (timer_sweep sha256 V E r)"
| h_start: "revoker_history sha256 V my S r \<Longrightarrow> revoker_history sha256 V my S (snd (start_revoker r))"
| h_stop: "revoker_history sha256 V my S r \<Longrightarrow> revoker_history sha256 V my S (stop_revoker r)"
| h_invalidate: "revoker_history sha256 V my S r \<Longrightarrow> revoker_history sha256 V my S (invalidateStorageAuthority r)"

lemma history_reachable: "revoker_history sha256 V my S r \<Longrightarrow> revoker_reachable sha256 V my r"
  by (induction rule: revoker_history.induct) (blast intro: revoker_reachable.intros revoker_step.intros)+

lemma read_so_far:
  assumes "record_owner S o' \<or> (\<exists>records. fst (re_snapshot E (sr_world r)) = Some records \<and> record_owner records o')"
  shows "record_owner (S @ records_read E r) o'"
  using assms record_owner_mono [of S o' "S @ records_read E r"] record_owner_mono [of "records_read E r" o' "S @ records_read E r"]
  by (auto simp: records_read_def)

text \<open>Every membership held belongs to an owner of one of the lists read.\<close>

lemma history_members: "revoker_history sha256 V my S r \<Longrightarrow> \<forall>o' \<in> members_of r. record_owner S o'"
proof (induction rule: revoker_history.induct)
  case (h_init w r)
  then show ?case by (auto simp: new_revoker_def split: sum.splits)
next
  case (h_check S r E)
  obtain e r' where c: "checkOnce sha256 V E r = (e, r')" by fastforce
  have "rev_inv V r" using revoker_reachable_inv [OF history_reachable [OF h_check(1)]] ..
  from checkOnce_topologies [OF c this h_check(2)] show ?case
    unfolding c snd_conv by (blast intro: read_so_far)
next
  case (h_timer S r E)
  obtain e r' where c: "checkOnce sha256 V E r = (e, r')" by fastforce
  have "rev_inv V r" using revoker_reachable_inv [OF history_reachable [OF h_timer(1)]] ..
  moreover have "sr_membership (timer_sweep sha256 V E r) = sr_membership r'" by (simp add: timer_sweep_def c split: option.split)
  ultimately show ?case using checkOnce_topologies [OF c _ h_timer(2)] by (metis read_so_far)
qed (simp_all add: start_revoker_def stop_revoker_def invalidateStorageAuthority_def)

text \<open>C15: every topology announced is signed for by owners this machine is paired with. In any run, and whatever the
  mesh client, the storage and the callbacks answer, a topology announced by a sweep has this machine as its own
  entry, and each of its siblings stands together with this machine in a header that verifies under the key of
  an owner whose record is in the list of owners the sweep read; if the list could not be read, in one of the
  lists read before. An envelope that another key signed vouches for nobody.\<close>

theorem announced_topology_vouched:
  assumes "revoker_history sha256 V my S r" and "checkOnce sha256 V E r = (e, r')"
    and "sr_events r' = sr_events r @ new" and "AskTopology g t \<in> set new"
  shows "ri_pcPubkey (tp_self t) = b64_encode my \<and>
     (\<forall>i \<in> set (tp_siblings t). \<exists>env h raw tok. verifyEnvelope V env = Inr h \<and>
        (JStr raw, tok) \<in> set (case fst (re_snapshot E (sr_world r)) of Some records \<Rightarrow> records | None \<Rightarrow> S) \<and>
        decodeEd25519PublicKey raw ''Owner record'' = Inr (mh_ownerPk h) \<and>
        b64_encode my \<in> mm_remoteEpk ` set (mh_members h) \<and> ri_pcPubkey i \<in> mm_remoteEpk ` set (mh_members h))"
proof -
  let ?R = "case fst (re_snapshot E (sr_world r)) of Some records \<Rightarrow> records | None \<Rightarrow> S"
  have inv: "rev_inv V r" "sr_myPubkey r = my" using revoker_reachable_inv [OF history_reachable [OF assms(1)]] by simp_all
  obtain ts where ts: "topologies r' = topologies r @ ts" "list_all (built_from V my (Collect (record_owner ?R))) ts"
    using checkOnce_topologies [OF assms(2) inv(1) history_members [OF assms(1)]] inv(2) by blast
  have "AskTopology g t \<in> set ts" using ts(1) assms(3,4) by (auto simp: topologies_def)
  then have "built_from V my (Collect (record_owner ?R)) (AskTopology g t)" using ts(2) by (simp add: list_all_iff)
  then obtain ms where ms: "buildTopologySnapshot my ms = Inr t"
    "\<forall>m \<in> set ms. \<exists>h owner. record_owner ?R owner \<and> vouched V owner h \<and> listed my h \<and> m = header_membership h owner"
    unfolding built_from_def by auto
  note sf = snapshot_facts [OF ms(1)]
  have "\<exists>env h raw tok. verifyEnvelope V env = Inr h \<and> (JStr raw, tok) \<in> set ?R \<and>
      decodeEd25519PublicKey raw ''Owner record'' = Inr (mh_ownerPk h) \<and>
      b64_encode my \<in> mm_remoteEpk ` set (mh_members h) \<and> ri_pcPubkey i \<in> mm_remoteEpk ` set (mh_members h)"
    if i: "i \<in> set (tp_siblings t)" for i
  proof -
    have "ri_pcPubkey i \<in> co_members (b64_encode my) ms" using sf i by auto
    then obtain m ns where m: "m \<in> set ms" "normalize_members 0 (bm_members m) = Inr ns" "ri_pcPubkey i \<in> fst ` set ns"
      by (auto simp: co_members_def)
    obtain h owner where h: "record_owner ?R owner" "vouched V owner h" "listed my h" "m = header_membership h owner"
      using ms(2) m(1) by blast
    have "\<forall>k \<in> set (bm_members m). canon_key (fst k)" using vouched_canon [OF h(2)] h(4) by simp
    then have "ns = bm_members m" using m(2) normalize_members_canon by simp
    then have "ri_pcPubkey i \<in> mm_remoteEpk ` set (mh_members h)" using m(3) h(4) by (auto simp: header_membership_def)
    moreover have "b64_encode my \<in> mm_remoteEpk ` set (mh_members h)" using h(3) by (simp only: listed_iff)
    ultimately show ?thesis using vouched_record [OF h(2,1)] by blast
  qed
  then show ?thesis using sf by blast
qed

text \<open>A sweep never rejects, and acts with the authority it started with. Whatever is answered, \<open>checkOnce\<close> in a
  reachable state returns without an error; and every call to the storage or to a callback is
  made while the generation is still the one of the start of the sweep, so that nothing is called after a stop or a
  new pairing was noticed.\<close>

theorem sweep_guarded:
  assumes "revoker_reachable sha256 V my r" and "checkOnce sha256 V E r = (e, r')"
  shows "e = None \<and> (\<exists>new. sr_events r' = sr_events r @ new \<and>
     (\<forall>raw owner g. AskRemove g raw owner \<in> set new \<or> AskRevoke g raw owner \<in> set new \<longrightarrow> g = sr_generation r) \<and>
     (\<forall>owners g. AskOwners g owners \<in> set new \<longrightarrow> g = sr_generation r) \<and>
     (\<forall>t g. AskTopology g t \<in> set new \<longrightarrow> g = sr_generation r))"
proof -
  note i = revoker_reachable_inv [OF assms(1)]
  note c = checkOnce_sweeps [OF assms(2)]
  obtain new where "sr_events r' = sr_events r @ new" "\<forall>x \<in> set new. tagged (sr_generation r) x"
    using c i by (auto simp: sweeps_def list_all_iff)
  then show ?thesis using c i by (fastforce simp: tagged_def)
qed

section \<open>Floors of versions\<close>

text \<open>When the storage reports that the pairing was replaced, the floor becomes the one kept with the pending revocation.\<close>

lemma floor_simps [simp]:
  "sr_lastSeen (resume n w r) = sr_lastSeen r" "sr_lastSeen (yield_to E r) = sr_lastSeen r" "sr_lastSeen (event e r) = sr_lastSeen r"
  "sr_pending (resume n w r) = sr_pending r" "sr_pending (yield_to E r) = sr_pending r" "sr_pending (event e r) = sr_pending r"
  "mget (sr_lastSeen (set_floor owner v r)) owner = v"
  by (simp_all add: resume_def yield_to_def split_def Let_def event_def set_floor_def split: option.split)

lemma retry_handles_floor: "retry_handles E slot g raws p r = (Some True, p', r') \<Longrightarrow>
    mget (sr_lastSeen r') (rs_canonical slot) = pd_previous p"
proof (induction raws arbitrary: p r)
  case (Cons raw raws)
  obtain outcome n w where o: "re_remove E raw (mget (pd_tokens p) raw) (\<lambda>current. g = current) (sr_world r) = (outcome, n, w)"
    using prod_cases3 by blast
  show ?case
  proof (cases "outcome = Some StaleToken")
    case True
    then show ?thesis using Cons.prems o by (auto simp: Let_def split: if_splits)
  next
    case False
    then obtain p2 r2 where "retry_handles E slot g raws p2 r2 = (Some True, p', r')" "pd_previous p2 = pd_previous p"
      using Cons.prems o by (auto simp: Let_def split: if_splits option.splits removal.splits)
    then show ?thesis using Cons.IH by metis
  qed
qed simp

lemma retry_floor:
  assumes "retryPending E slot g r = (True, r')"
  shows "\<exists>p. mget (sr_pending r) (rs_canonical slot) = Some p \<and> mget (sr_lastSeen r') (rs_canonical slot) = pd_previous p"
proof (cases "mget (sr_pending r) (rs_canonical slot)")
  case (Some p)
  obtain res p' r1 where h: "retry_handles E slot g (mkeys (pd_tokens p)) p r = (res, p', r1)" using prod_cases3 by blast
  then have "res = Some True" "r' = r1" using assms Some by (auto simp: retryPending_def split: option.splits)
  then show ?thesis using Some retry_handles_floor [of E slot g "mkeys (pd_tokens p)" p r p' r1] h by simp
qed (use assms in \<open>simp add: retryPending_def\<close>)

lemma accept_floor:
  assumes "accept_header E slot g since h r = (True, r')"
  shows "mget (sr_lastSeen r') (rs_canonical slot) = mget (sr_lastSeen r) (rs_canonical slot)"
  using assms by (auto simp: accept_header_def Let_def split: prod.splits if_splits)

text \<open>The answer to the fetch for a slot is a newer word of its owner.\<close>

definition newer_word :: "(byte list \<Rightarrow> byte list) \<Rightarrow> (byte list \<Rightarrow> byte list \<Rightarrow> byte list \<Rightarrow> bool) \<Rightarrow> ('tok, 'w) rev_env
    \<Rightarrow> 'tok rev_slot \<Rightarrow> ('tok, 'w) revoker \<Rightarrow> bool" where
  "newer_word sha256 V E s r \<longleftrightarrow>
     (case fst (re_get E (hex_bytes (sha256 (rs_ownerPk s))) (mget (sr_lastSeen r) (rs_canonical s)) (sr_world r)) of
        Got env \<Rightarrow> (case verifyEnvelope V env of
            Inl _ \<Rightarrow> False
          | Inr h \<Rightarrow> mh_ownerPk h = rs_ownerPk s \<and>
              (case mget (sr_lastSeen r) (rs_canonical s) of None \<Rightarrow> True | Some v \<Rightarrow> v < mh_version h))
      | _ \<Rightarrow> False)"

lemma check_floor:
  assumes "checkOwnerSlot sha256 V E s g r = (True, r')"
  shows "if newer_word sha256 V E s r then mget (sr_lastSeen r') (rs_canonical s) = mget (sr_lastSeen r) (rs_canonical s)
     else \<exists>p. mget (sr_pending r) (rs_canonical s) = Some p \<and> mget (sr_lastSeen r') (rs_canonical s) = pd_previous p"
proof -
  let ?o = "rs_canonical s" and ?f = "\<lambda>m. LogLine (fp_line m (rs_fingerprint s))"
  obtain got n w where get: "re_get E (hex_bytes (sha256 (rs_ownerPk s))) (mget (sr_lastSeen r) ?o) (sr_world r) = (got, n, w)" using prod_cases3 by blast
  define r1 where "r1 = resume n w r"
  define r2 where "r2 = yield_to E r1"
  have k: "sr_pending r1 = sr_pending r" "sr_lastSeen r1 = sr_lastSeen r" "sr_pending r2 = sr_pending r" "sr_lastSeen r2 = sr_lastSeen r"
    by (simp_all add: r1_def r2_def)
  have later: "\<exists>p. mget (sr_pending r) ?o = Some p \<and> mget (sr_lastSeen r') ?o = pd_previous p"
    if "retryPending E s g ra = (True, r'')" "sr_lastSeen r' = sr_lastSeen r''" "sr_pending ra = sr_pending r" for ra r''
    using retry_floor [OF that(1)] that(2,3) by simp
  show ?thesis
  proof (cases "\<exists>env. got = Got env")
    case False
    then have "\<not> newer_word sha256 V E s r" using get by (simp add: newer_word_def split: rev_fetch.split)
    moreover obtain r'' where "retryPending E s g r1 = (True, r'')" "sr_lastSeen r' = sr_lastSeen r''"
      using False assms get by (cases got) (auto simp: checkOwnerSlot_def r1_def [symmetric] Let_def split: if_splits prod.splits)
    ultimately show ?thesis using later k(1) by simp
  next
    case True
    then obtain env where env: "got = Got env" by blast
    show ?thesis
    proof (cases "verifyEnvelope V env")
      case (Inl e)
      then have "\<not> newer_word sha256 V E s r" using get env by (simp add: newer_word_def)
      moreover have "retryPending E s g (event (?f ''owner_envelope_invalid'') (drop_membership ?o r2)) = (True, r')"
        using assms get env Inl by (auto simp: checkOwnerSlot_def r1_def [symmetric] r2_def [symmetric] Let_def split: if_splits)
      ultimately show ?thesis using later [OF _ refl] k(3) by (simp add: drop_membership_def)
    next
      case (Inr h)
      have nw: "newer_word sha256 V E s r \<longleftrightarrow> mh_ownerPk h = rs_ownerPk s \<and>
          (case mget (sr_lastSeen r) ?o of None \<Rightarrow> True | Some v \<Rightarrow> v < mh_version h)"
        using get env Inr by (simp add: newer_word_def)
      consider (foreign) "mh_ownerPk h \<noteq> rs_ownerPk s"
          "retryPending E s g (event (?f ''owner_slot_mismatch'') (drop_membership ?o r2)) = (True, r')"
        | (old) v l where "mh_ownerPk h = rs_ownerPk s" "mget (sr_lastSeen r) ?o = Some v" "mh_version h \<le> v"
          "retryPending E s g (event (LogLine l) r2) = (True, r')"
        | (new) "newer_word sha256 V E s r" "accept_header E s g (mget (sr_lastSeen r) ?o) h r2 = (True, r')"
        using assms get env Inr k unfolding nw
        by (auto simp: checkOwnerSlot_def r1_def [symmetric] r2_def [symmetric] Let_def bytesEqual_def not_le
            split: if_splits option.splits)
      then show ?thesis
      proof cases
        case foreign
        then show ?thesis using nw later [OF foreign(2) refl] k(3) by (simp add: drop_membership_def)
      next
        case old
        then show ?thesis using nw later [OF old(4) refl] k(3) by simp
      next
        case new
        then show ?thesis using accept_floor [OF new(2)] k(4) by simp
      qed
    qed
  qed
qed

text \<open>C14: no roll-back, and no floor left over from a word that no longer counts. Handling an owner whose pairing is
  still the one known never lowers the floor of accepted versions, and a membership that replaces another, or is
  new, is strictly above the old floor and at the new one. If the storage reports that the pairing was replaced,
  no membership and no pending revocation of that owner is left, and the floor is back where it was before the
  word that revoked the old pairing: if the fetch just brought that word, where it was before this check (no
  floor, if there was none); otherwise a revocation was pending, and the floor is the one from before it. The
  other owners are untouched.\<close>

theorem owner_no_rollback:
  assumes "revoker_reachable sha256 V my r" and "s \<in> set (fst (canonical_slots sha256 records))"
    and "checkOwnerSlot sha256 V E s g r = (replaced, r')"
  shows "(if replaced then mget (sr_membership r') (rs_canonical s) = None \<and> mget (sr_pending r') (rs_canonical s) = None \<and>
       (if newer_word sha256 V E s r then mget (sr_lastSeen r') (rs_canonical s) = mget (sr_lastSeen r) (rs_canonical s)
        else \<exists>p. mget (sr_pending r) (rs_canonical s) = Some p \<and> mget (sr_lastSeen r') (rs_canonical s) = pd_previous p)
     else (\<forall>v. mget (sr_lastSeen r) (rs_canonical s) = Some v \<longrightarrow> (\<exists>v' \<ge> v. mget (sr_lastSeen r') (rs_canonical s) = Some v')) \<and>
       (\<forall>m. mget (sr_membership r') (rs_canonical s) = Some m \<and> mget (sr_membership r) (rs_canonical s) \<noteq> Some m \<longrightarrow>
          (\<exists>v'. mget (sr_lastSeen r') (rs_canonical s) = Some v' \<and> (\<forall>v. mget (sr_lastSeen r) (rs_canonical s) = Some v \<longrightarrow> v < v')))) \<and>
    (\<forall>other. other \<noteq> rs_canonical s \<longrightarrow> mget (sr_lastSeen r') other = mget (sr_lastSeen r) other \<and>
       mget (sr_membership r') other = mget (sr_membership r) other)"
proof -
  note i = revoker_reachable_inv [OF assms(1)]
  have "part V (rs_canonical s) g replaced r r'" by (rule part_check [OF assms(3) canonical_slots_good [OF assms(2)]])
  then have "frame (signed_out V my (rs_canonical s)) (rs_canonical s) g r r'" "owner_move replaced (look r (rs_canonical s)) (look r' (rs_canonical s))"
    using i unfolding part_def rev_inv_def by blast+
  then have moved: "(if replaced then mget (sr_membership r') (rs_canonical s) = None \<and> mget (sr_pending r') (rs_canonical s) = None
     else (\<forall>v. mget (sr_lastSeen r) (rs_canonical s) = Some v \<longrightarrow> (\<exists>v' \<ge> v. mget (sr_lastSeen r') (rs_canonical s) = Some v')) \<and>
       (\<forall>m. mget (sr_membership r') (rs_canonical s) = Some m \<and> mget (sr_membership r) (rs_canonical s) \<noteq> Some m \<longrightarrow>
          (\<exists>v'. mget (sr_lastSeen r') (rs_canonical s) = Some v' \<and> (\<forall>v. mget (sr_lastSeen r) (rs_canonical s) = Some v \<longrightarrow> v < v')))) \<and>
    (\<forall>other. other \<noteq> rs_canonical s \<longrightarrow> mget (sr_lastSeen r') other = mget (sr_lastSeen r) other \<and>
       mget (sr_membership r') other = mget (sr_membership r) other)"
    by (auto simp: frame_def owner_move_def look_def split: if_splits)
  show ?thesis
  proof (cases replaced)
    case True
    then show ?thesis using moved check_floor [of sha256 V E s g r r'] assms(3) by simp
  qed (use moved in simp)
qed

section \<open>Two runs\<close>

text \<open>The owner \<open>demo_key\<close> has signed \<open>net_header\<close>, which lists \<open>rev demo_key\<close> and \<open>rotate1 demo_key\<close>, not
  \<open>demo_key\<close> itself.\<close>

definition rev_demo :: "(nat, unit) rev_env" where
  "rev_demo = \<lparr>re_snapshot = (\<lambda>w. (Some [(JStr (b64_encode demo_key), 0)], 0, w)), re_get = (\<lambda>_ _ w. (Got net_env, 0, w)),
     re_remove = (\<lambda>_ _ _ w. (Some (Removed 1), 0, w)), re_revoke = Some (\<lambda>_ _ w. (True, 0, w)), re_owners = None,
     re_topology = Some (\<lambda>_ w. (True, 0, w)), re_yield = (\<lambda>w. (0, w))\<rparr>"

definition rev_start :: "byte list \<Rightarrow> (nat, unit) revoker" where
  "rev_start my = \<lparr>sr_myPubkey = my, sr_lastSeen = [], sr_pending = [], sr_membership = [], sr_previous = None,
     sr_inflight = False, sr_timer = False, sr_generation = 0, sr_events = [], sr_world = ()\<rparr>"

definition rev_slot0 :: "nat rev_slot" where
  "rev_slot0 = \<lparr>rs_canonical = b64_encode demo_key, rs_raws = [(b64_encode demo_key, 0)], rs_ownerPk = demo_key,
     rs_fingerprint = publicKeyFingerprint id demo_key\<rparr>"

lemma rev_start_reachable: "length my = 32 \<Longrightarrow> revoker_reachable id accept_key my (rev_start my)"
  by (rule init [where w = "()"]) (simp add: new_revoker_def rev_start_def encodeEd25519PublicKey_def ED25519_PUBLIC_KEY_BYTES_def)

lemma rev_slots: "canonical_slots id [(JStr (b64_encode demo_key), 0)] = ([rev_slot0], [])"
  by code_simp

lemma demo_yield [simp]: "yield_to rev_demo r = r"
  by (simp add: yield_to_def rev_demo_def resume_def)

lemma resume_0 [simp]: "resume 0 () r = (r :: (nat, unit) revoker)"
  by (simp add: resume_def)

lemma demo_fields [simp]: "re_snapshot rev_demo () = (Some [(JStr (b64_encode demo_key), 0)], 0, ())" "re_get rev_demo h s () = (Got net_env, 0, ())"
  "re_remove rev_demo raw t f () = (Some (Removed 1), 0, ())" "re_revoke rev_demo = Some (\<lambda>_ _ w. (True, 0, w))" "re_owners rev_demo = None"
  "re_topology rev_demo = Some (\<lambda>_ w. (True, 0, w))"
  by (simp_all add: rev_demo_def)

lemma demo_check:
  "checkOwnerSlot id accept_key rev_demo rev_slot0 0 (rev_start my) = accept_header rev_demo rev_slot0 0 None net_header (rev_start my)"
  by (simp add: checkOwnerSlot_def net_verified hasAuthority_def rev_start_def bytesEqual_def rev_slot0_def Let_def)
    (simp add: net_header_def)

lemma demo_sweep:
  assumes "checkOwnerSlot id accept_key rev_demo rev_slot0 0 ((rev_start my)\<lparr>sr_inflight := True\<rparr>) = (False, r1)" and "sr_generation r1 = 0"
  shows "checkOnce id accept_key rev_demo (rev_start my) =
     (case publish_current rev_demo 0 r1 of (e, r2) \<Rightarrow> (e, r2\<lparr>sr_inflight := False\<rparr>))"
  using assms by (simp add: rev_start_def checkOnce_def runSweep_def rev_slots announce_owners_def pruneStateNotIn_def hasAuthority_def split_def Let_def)

lemma net_lists: "listed (rev demo_key) net_header" "\<not> listed demo_key net_header"
proof -
  show "listed (rev demo_key) net_header" by (simp add: listed_def net_header_def)
  have "b64_encode demo_key \<noteq> b64_encode (rev demo_key)" "b64_encode demo_key \<noteq> b64_encode (rotate1 demo_key)" by code_simp+
  then show "\<not> listed demo_key net_header" by (simp add: listed_def net_header_def)
qed

definition rev_out :: "(nat, unit) revoker" where
  "rev_out = snd (checkOnce id accept_key rev_demo (rev_start demo_key))"

definition rev_in :: "(nat, unit) revoker" where
  "rev_in = snd (checkOnce id accept_key rev_demo (rev_start (rev demo_key)))"

lemma demo_not_listed:
  "checkOwnerSlot id accept_key rev_demo rev_slot0 0 ((rev_start demo_key)\<lparr>sr_inflight := True\<rparr>) =
     (False, (rev_start demo_key)\<lparr>sr_inflight := True, sr_lastSeen := [(b64_encode demo_key, 3)],
       sr_events := [LogLine (fp_line ''self_revoked'' (publicKeyFingerprint id demo_key) @ '' received_version='' @ show_int 3 @
           '' since='' @ show_since None @ '' member_count='' @ show_nat 2),
         AskRemove 0 (b64_encode demo_key) (b64_encode demo_key), AskRevoke 0 (b64_encode demo_key) (b64_encode demo_key)]\<rparr>)"
proof -
  have n: "mh_version net_header = 3" "mh_ownerPk net_header = demo_key" "length (mh_members net_header) = 2" by (simp_all add: net_header_def)
  have c: "rs_canonical rev_slot0 = b64_encode demo_key" "rs_ownerPk rev_slot0 = demo_key" "rs_raws rev_slot0 = [(b64_encode demo_key, 0)]"
    "rs_fingerprint rev_slot0 = publicKeyFingerprint id demo_key" by (simp_all add: rev_slot0_def)
  show ?thesis
    using net_lists(2)
    by (simp add: checkOwnerSlot_def accept_header_def header_lists net_verified hasAuthority_def rev_start_def bytesEqual_def c n retryPending_def
        invokeRevokeCallback_def event_def Let_def)
qed

lemma demo_listed:
  "checkOwnerSlot id accept_key rev_demo rev_slot0 0 ((rev_start (rev demo_key))\<lparr>sr_inflight := True\<rparr>) =
     (False, (rev_start (rev demo_key))\<lparr>sr_inflight := True, sr_lastSeen := [(b64_encode demo_key, 3)],
       sr_membership := [(b64_encode demo_key, header_membership net_header (b64_encode demo_key))]\<rparr>)"
proof -
  have n: "mh_version net_header = 3" "mh_ownerPk net_header = demo_key" by (simp_all add: net_header_def)
  have c: "rs_canonical rev_slot0 = b64_encode demo_key" "rs_ownerPk rev_slot0 = demo_key" by (simp_all add: rev_slot0_def)
  show ?thesis
    using net_lists(1)
    by (simp add: checkOwnerSlot_def accept_header_def header_lists net_verified hasAuthority_def rev_start_def bytesEqual_def c n Let_def)
qed

lemma publish_events: "set (sr_events r) \<subseteq> set (sr_events (snd (publish_current E g r)))"
  by (auto simp: publish_current_def publishTopology_def Let_def split_def log_if_def event_def resume_def split: sum.split option.split)

lemma rev_out_events: "AskRevoke 0 (b64_encode demo_key) (b64_encode demo_key) \<in> set (sr_events rev_out)"
proof -
  define r1 where "r1 = (rev_start demo_key)\<lparr>sr_inflight := True, sr_lastSeen := [(b64_encode demo_key, 3)],
       sr_events := [LogLine (fp_line ''self_revoked'' (publicKeyFingerprint id demo_key) @ '' received_version='' @ show_int 3 @
           '' since='' @ show_since None @ '' member_count='' @ show_nat 2),
         AskRemove 0 (b64_encode demo_key) (b64_encode demo_key), AskRevoke 0 (b64_encode demo_key) (b64_encode demo_key)]\<rparr>"
  have "sr_generation r1 = 0" by (simp add: r1_def rev_start_def)
  note d = demo_sweep [OF demo_not_listed [folded r1_def] this]
  have "AskRevoke 0 (b64_encode demo_key) (b64_encode demo_key) \<in> set (sr_events r1)" by (simp add: r1_def)
  then have "AskRevoke 0 (b64_encode demo_key) (b64_encode demo_key) \<in> set (sr_events (snd (publish_current rev_demo 0 r1)))"
    using publish_events by (rule rev_subsetD)
  then show ?thesis unfolding rev_out_def d by (simp add: split_def)
qed

lemma rev_in_events: "AskTopology 0 net_topology \<in> set (sr_events rev_in)"
proof -
  define r1 where "r1 = (rev_start (rev demo_key))\<lparr>sr_inflight := True, sr_lastSeen := [(b64_encode demo_key, 3)],
       sr_membership := [(b64_encode demo_key, header_membership net_header (b64_encode demo_key))]\<rparr>"
  have "sr_generation r1 = 0" by (simp add: r1_def rev_start_def)
  note d = demo_sweep [OF demo_listed [folded r1_def] this]
  have "publish_current rev_demo 0 r1 = (None, publishTopology rev_demo net_topology 0 r1)"
    using net_snapshot(1) by (simp add: publish_current_def r1_def rev_start_def)
  moreover have "AskTopology 0 net_topology \<in> set (sr_events (publishTopology rev_demo net_topology 0 r1))"
    by (simp add: publishTopology_def r1_def rev_start_def hasAuthority_def topologyEquals_def event_def resume_def)
  ultimately show ?thesis unfolding rev_in_def d by (simp add: split_def)
qed

lemma rev_reachable: "revoker_reachable id accept_key demo_key rev_out" "revoker_reachable id accept_key (rev demo_key) rev_in"
proof -
  have "length demo_key = 32" "length (rev demo_key) = 32" by (simp_all add: demo_key_def)
  note s = this [THEN rev_start_reachable]
  show "revoker_reachable id accept_key demo_key rev_out" unfolding rev_out_def by (rule revoker_reachable.step [OF s(1) check])
  show "revoker_reachable id accept_key (rev demo_key) rev_in" unfolding rev_in_def by (rule revoker_reachable.step [OF s(2) check])
qed

lemma revocation_authorized_witness:
  "\<exists>env h pk. verifyEnvelope accept_key env = Inr h \<and> mh_ownerPk h = pk \<and> b64_encode demo_key = b64_encode pk \<and>
     decodeEd25519PublicKey (b64_encode demo_key) ''Owner record'' = Inr pk \<and> b64_encode demo_key \<notin> mm_remoteEpk ` set (mh_members h)"
  by (rule revocation_authorized [OF rev_reachable(1), of 0]) (rule disjI2 [OF rev_out_events])

lemma announced_topology_vouched_witness:
  "\<exists>new. sr_events rev_in = new \<and> AskTopology 0 net_topology \<in> set new \<and> tp_siblings net_topology \<noteq> [] \<and>
     (\<forall>i \<in> set (tp_siblings net_topology). \<exists>env h. verifyEnvelope accept_key env = Inr h \<and> mh_ownerPk h = demo_key \<and>
        ri_pcPubkey i \<in> mm_remoteEpk ` set (mh_members h))"
proof -
  have "length (rev demo_key) = 32" by (simp add: demo_key_def)
  then have h: "revoker_history id accept_key (rev demo_key) [] (rev_start (rev demo_key))"
    by (intro h_init [where w = "()"]) (simp add: new_revoker_def rev_start_def encodeEd25519PublicKey_def ED25519_PUBLIC_KEY_BYTES_def)
  obtain e where c: "checkOnce id accept_key rev_demo (rev_start (rev demo_key)) = (e, rev_in)"
    unfolding rev_in_def by (metis prod.collapse)
  have ev: "sr_events rev_in = sr_events (rev_start (rev demo_key)) @ sr_events rev_in" by (simp add: rev_start_def)
  have key: "decodeEd25519PublicKey (b64_encode demo_key) ''Owner record'' = Inr demo_key" by code_simp
  have sib: "tp_siblings net_topology \<noteq> []" using net_snapshot(2) by auto
  from announced_topology_vouched [OF h c ev rev_in_events]
  have "\<forall>i \<in> set (tp_siblings net_topology). \<exists>env h raw tok. verifyEnvelope accept_key env = Inr h \<and>
      (JStr raw, tok) \<in> set [(JStr (b64_encode demo_key), 0 :: nat)] \<and>
      decodeEd25519PublicKey raw ''Owner record'' = Inr (mh_ownerPk h) \<and> ri_pcPubkey i \<in> mm_remoteEpk ` set (mh_members h)"
    by (fastforce simp: rev_start_def)
  then have "\<forall>i \<in> set (tp_siblings net_topology). \<exists>env h. verifyEnvelope accept_key env = Inr h \<and> mh_ownerPk h = demo_key \<and>
      ri_pcPubkey i \<in> mm_remoteEpk ` set (mh_members h)"
    using key by fastforce
  then show ?thesis using rev_in_events sib by blast
qed

lemma sweep_guarded_witness:
  "fst (checkOnce id accept_key rev_demo (rev_start demo_key)) = None"
proof -
  have "length demo_key = 32" by (simp add: demo_key_def)
  from sweep_guarded [OF rev_start_reachable [OF this], of rev_demo] show ?thesis by (metis prod.collapse)
qed

text \<open>The storage of this run knows a newer pairing than the one the sweep read.\<close>

definition rev_stale :: "(nat, unit) rev_env" where
  "rev_stale = rev_demo\<lparr>re_remove := (\<lambda>_ _ _ w. (Some StaleToken, 0, w))\<rparr>"

lemma stale_fields: "re_get rev_stale h s () = (Got net_env, 0, ())" "re_remove rev_stale raw t a () = (Some StaleToken, 0, ())"
  "yield_to rev_stale q = q"
  by (simp_all add: rev_stale_def yield_to_def) (simp_all add: rev_demo_def)

lemma stale_check: "fst (checkOwnerSlot id accept_key rev_stale rev_slot0 0 (rev_start demo_key))"
proof -
  have n: "mh_version net_header = 3" "mh_ownerPk net_header = demo_key" by (simp_all add: net_header_def)
  have c: "rs_canonical rev_slot0 = b64_encode demo_key" "rs_ownerPk rev_slot0 = demo_key" "rs_raws rev_slot0 = [(b64_encode demo_key, 0)]"
    by (simp_all add: rev_slot0_def)
  show ?thesis using net_lists(2)
    by (simp add: checkOwnerSlot_def accept_header_def header_lists net_verified hasAuthority_def rev_start_def bytesEqual_def c stale_fields n
        retryPending_def event_def Let_def)
qed

text \<open>The word of version 3 signs this machine out, the pairing turns out to be a new one, and no floor is left.\<close>

lemma owner_no_rollback_witness:
  "fst (checkOwnerSlot id accept_key rev_stale rev_slot0 0 (rev_start demo_key)) \<and>
   mget (sr_lastSeen (snd (checkOwnerSlot id accept_key rev_stale rev_slot0 0 (rev_start demo_key)))) (b64_encode demo_key) = None \<and>
   mget (sr_pending (snd (checkOwnerSlot id accept_key rev_stale rev_slot0 0 (rev_start demo_key)))) (b64_encode demo_key) = None"
proof -
  have l: "length demo_key = 32" by (simp add: demo_key_def)
  have s: "rev_slot0 \<in> set (fst (canonical_slots id [(JStr (b64_encode demo_key), 0)]))" by (simp add: rev_slots)
  have c: "rs_canonical rev_slot0 = b64_encode demo_key" "rs_ownerPk rev_slot0 = demo_key" by (simp_all add: rev_slot0_def)
  obtain st r' where ch: "checkOwnerSlot id accept_key rev_stale rev_slot0 0 (rev_start demo_key) = (st, r')" by fastforce
  then have st: "st" using stale_check by simp
  have "sr_lastSeen (rev_start demo_key) = []" "sr_world (rev_start demo_key) = ()" by (simp_all add: rev_start_def)
  moreover have "mh_ownerPk net_header = demo_key" by (simp add: net_header_def)
  ultimately have "newer_word id accept_key rev_stale rev_slot0 (rev_start demo_key)"
    by (simp add: newer_word_def stale_fields net_verified c)
  with owner_no_rollback [OF rev_start_reachable [OF l] s ch] st have
    "mget (sr_lastSeen r') (b64_encode demo_key) = mget (sr_lastSeen (rev_start demo_key)) (b64_encode demo_key)"
    "mget (sr_pending r') (b64_encode demo_key) = None" unfolding c by simp_all
  then show ?thesis using ch st by (simp add: rev_start_def)
qed

end
