(* ===== verification/JsonPretty.thy ===== *)
theory JsonPretty
  imports Json
begin

text \<open>
  \<^verbatim>\<open>JSON.stringify(value, null, 2)\<close>, the form in which the program writes its own files, and the round trip through
  \<^verbatim>\<open>JSON.parse\<close>: what is written is read back. \<open>pretty k v\<close> is the text of \<open>v\<close> inside a structure that
  is indented by \<open>k\<close> spaces.
\<close>

definition line_at :: "nat \<Rightarrow> string" where
  "line_at k = NL # replicate k (CHR '' '')"

fun pretty :: "nat \<Rightarrow> jv \<Rightarrow> string"
  and pretty_elems :: "nat \<Rightarrow> bool \<Rightarrow> jv list \<Rightarrow> string"
  and pretty_members :: "nat \<Rightarrow> bool \<Rightarrow> (string \<times> jv) list \<Rightarrow> string"
where
  "pretty k (JArr vs) = (if vs = [] then ''[]'' else CHR ''['' # pretty_elems (k + 2) True vs @ line_at k @ '']'')"
| "pretty k (JObj kvs) =
     (if list_all (\<lambda>p. snd p = JUndef) kvs then ''{}'' else CHR ''{'' # pretty_members (k + 2) True kvs @ line_at k @ ''}'')"
| "pretty k v = stringify v"
| "pretty_elems k first [] = []"
| "pretty_elems k first (v # vs) = (if first then [] else '','') @ line_at k @ pretty k v @ pretty_elems k False vs"
| "pretty_members k first [] = []"
| "pretty_members k first ((key, v) # kvs) =
     (if v = JUndef then pretty_members k first kvs
      else (if first then [] else '','') @ line_at k @ quote key @ '': '' @ pretty k v @ pretty_members k False kvs)"

text \<open>White space in front of a value, a member or the rest of a list is skipped.\<close>

lemma is_ws_line [simp]: "is_ws NL" "is_ws (CHR '' '')"
  by (simp_all add: is_ws_def NL_def)

lemma skip_line [simp]: "skip_ws (line_at k @ s) = skip_ws s"
  by (induction k) (simp_all add: line_at_def skip_ws_def)

lemma skip_blank [simp]: "skip_ws (CHR '' '' # s) = skip_ws s" "skip_ws (NL # s) = skip_ws s"
  by (simp_all add: skip_ws_def)

lemma delim_line [simp]: "delim (line_at k @ s)"
  by (simp add: line_at_def)

lemma p_value_skip: "skip_ws s = skip_ws t \<Longrightarrow> p_value (Suc n) s = p_value (Suc n) t"
  by simp

lemma p_elems_skip: "skip_ws s = skip_ws t \<Longrightarrow> p_elems (Suc (Suc n)) s = p_elems (Suc (Suc n)) t"
  by simp

lemma p_members_skip: "skip_ws s = skip_ws t \<Longrightarrow> p_members (Suc n) s = p_members (Suc n) t"
  by simp

lemma pretty_start:
  assumes "wf_json v"
  obtains c cs where "pretty k v = c # cs" "\<not> is_ws c" "c \<notin> {CHR '']'', CHR ''}'', CHR '',''}"
proof -
  obtain d ds where d: "stringify v = d # ds" "\<not> is_ws d" "d \<notin> {CHR '']'', CHR ''}'', CHR '',''}" using stringify_start [OF assms] .
  have "\<exists>c cs. pretty k v = c # cs \<and> \<not> is_ws c \<and> c \<notin> {CHR '']'', CHR ''}'', CHR '',''}"
    using d by (cases v) (auto split: if_splits)
  then show ?thesis using that by blast
qed


lemma pretty_elems_False: "pretty_elems k False vs = (if vs = [] then [] else CHR '','' # pretty_elems k True vs)"
  by (cases vs) auto

lemma pretty_members_False:
  "list_all (\<lambda>p. wf_json (snd p)) kvs \<Longrightarrow>
     pretty_members k False kvs = (if kvs = [] then [] else CHR '','' # pretty_members k True kvs)"
  by (cases kvs) (auto dest: not_undef)

lemma p_elems_comma: "p_value n s = Some (v, CHR '','' # cs) \<Longrightarrow>
    p_elems (Suc n) s = map_option (\<lambda>(vs, q). (v # vs, q)) (p_elems n cs)"
  by (simp del: p_value.simps)

lemma p_members_comma: "p_value n (CHR '' '' # s) = Some (v, CHR '','' # cs) \<Longrightarrow>
    p_members (Suc n) (line_at k @ quote key @ CHR '':'' # CHR '' '' # s) = map_option (\<lambda>(kvs, q). ((key, v) # kvs, q)) (p_members n cs)"
  by (simp add: quote_def p_string_quote del: p_value.simps)

lemma parse_pretty_aux:
  fixes b b' :: bool
  shows "wf_json v \<Longrightarrow> delim r \<Longrightarrow> 2 * length (pretty k v) + 1 \<le> n \<Longrightarrow> p_value n (pretty k v @ r) = Some (v, r)"
  "list_all wf_json vs \<Longrightarrow> vs \<noteq> [] \<Longrightarrow> 2 * length (pretty_elems k' True vs) + 2 \<le> n \<Longrightarrow>
     p_elems n (pretty_elems k' True vs @ line_at j @ CHR '']'' # r) = Some (vs, r)"
  "list_all (\<lambda>p. wf_json (snd p)) kvs \<Longrightarrow> kvs \<noteq> [] \<Longrightarrow> 2 * length (pretty_members k'' True kvs) + 2 \<le> n \<Longrightarrow>
     p_members n (pretty_members k'' True kvs @ line_at j @ CHR ''}'' # r) = Some (kvs, r)"
proof (induction k v and k' b vs and k'' b' kvs arbitrary: n r and n r j and n r j
    rule: pretty_pretty_elems_pretty_members.induct)
  case (1 k vs)
  then obtain m where m: "n = Suc m" by (cases n) auto
  show ?case
  proof (cases vs)
    case Nil then show ?thesis using m by (simp add: DQ_def hd_is_def)
  next
    case (Cons w ws)
    then obtain c cs where c: "pretty (k + 2) w = c # cs" "\<not> is_ws c" "c \<notin> {CHR '']'', CHR ''}'', CHR '',''}"
      using pretty_start [of w "k + 2"] "1.prems"(1) by auto
    have "\<not> hd_is (CHR '']'') (skip_ws (pretty_elems (k + 2) True vs @ line_at k @ CHR '']'' # r))"
      using Cons c by (simp add: hd_is_def)
    moreover have "p_elems m (pretty_elems (k + 2) True vs @ line_at k @ CHR '']'' # r) = Some (vs, r)"
      using "1.IH" [of m k r] "1.prems" Cons m by simp
    ultimately show ?thesis using m Cons by (simp add: DQ_def)
  qed
next
  case (2 k kvs)
  then obtain m where m: "n = Suc m" by (cases n) auto
  show ?case
  proof (cases kvs)
    case Nil then show ?thesis using m by (simp add: DQ_def hd_is_def)
  next
    case (Cons w ws)
    then obtain key x where w: "kvs = (key, x) # ws" "wf_json x" using "2.prems"(1) by (cases w) auto
    have ne: "\<not> list_all (\<lambda>p. snd p = JUndef) kvs" using w not_undef by auto
    have "\<not> hd_is (CHR ''}'') (skip_ws (pretty_members (k + 2) True kvs @ line_at k @ CHR ''}'' # r))"
      using not_undef [OF w(2)] w by (simp add: hd_is_def quote_def DQ_def is_ws_def)
    moreover have "p_members m (pretty_members (k + 2) True kvs @ line_at k @ CHR ''}'' # r) = Some (kvs, r)"
    proof (rule "2.IH" [OF ne])
      have "pretty k (JObj kvs) = CHR ''{'' # pretty_members (k + 2) True kvs @ line_at k @ ''}''" using ne by (simp only: pretty.simps if_False)
      then show "2 * length (pretty_members (k + 2) True kvs) + 2 \<le> m" using "2.prems"(3) m by simp
    qed (use "2.prems" Cons in simp_all)
    ultimately show ?thesis using m "2.prems"(1) ne by (simp add: DQ_def mk_obj_distinct)
  qed
next
  case (5 k b v vs)
  then obtain m where m: "n = Suc (Suc m)" by (cases n; cases "n - 1") auto
  have v: "p_value (Suc m) (line_at k @ pretty k v @ d) = Some (v, d)" if "delim d" for d
    using "5.IH"(1) [of d "Suc m"] "5.prems" m that p_value_skip [of "line_at k @ pretty k v @ d" "pretty k v @ d" m] by simp
  show ?case
  proof (cases vs)
    case Nil then show ?thesis using v [of "line_at j @ CHR '']'' # r"] m by (simp del: p_value.simps)
  next
    case (Cons w ws)
    have e: "pretty_elems k True (v # vs) = line_at k @ pretty k v @ CHR '','' # pretty_elems k True vs"
      using Cons pretty_elems_False [of k vs] by simp
    have "p_elems (Suc m) (pretty_elems k True vs @ line_at j @ CHR '']'' # r) = Some (vs, r)"
      by (rule "5.IH"(2)) (use "5.prems" Cons m e in simp_all)
    then show ?thesis unfolding e using v [of "CHR '','' # pretty_elems k True vs @ line_at j @ CHR '']'' # r"] m
      by (simp add: p_elems_comma del: p_value.simps p_elems.simps)
  qed
next
  case (7 k b key v kvs)
  then obtain m where m: "n = Suc (Suc m)" by (cases n; cases "n - 1") auto
  have u: "v \<noteq> JUndef" using "7.prems"(1) by auto
  have v: "p_value (Suc m) (CHR '' '' # pretty k v @ d) = Some (v, d)" if "delim d" for d
    using "7.IH"(2) [OF u, of d "Suc m"] u "7.prems" m that p_value_skip [of "CHR '' '' # pretty k v @ d" "pretty k v @ d" m]
    by (simp add: quote_def)
  have q: "p_string (concat (map esc_char s) @ DQ # t) = Some (s, t)" for s t by (rule p_string_quote)
  show ?case
  proof (cases kvs)
    case Nil
    then show ?thesis using v [of "line_at j @ CHR ''}'' # r"] m u q by (simp add: quote_def del: p_value.simps)
  next
    case (Cons w ws)
    have e: "pretty_members k True ((key, v) # kvs) = line_at k @ quote key @ '': '' @ pretty k v @ CHR '','' # pretty_members k True kvs"
      using "7.prems"(1) Cons pretty_members_False [of kvs k] u by simp
    have "p_members (Suc m) (pretty_members k True kvs @ line_at j @ CHR ''}'' # r) = Some (kvs, r)"
      by (rule "7.IH"(3) [OF u]) (use "7.prems" Cons m e in simp_all)
    then show ?thesis unfolding e
      using v [of "CHR '','' # pretty_members k True kvs @ line_at j @ CHR ''}'' # r"] m
      by (simp add: p_members_comma del: p_value.simps p_members.simps)
  qed
qed (simp_all add: parse_stringify_aux(1) del: p_value.simps stringify.simps)

text \<open>What is written to a file is read back from it.\<close>

theorem pretty_round_trip:
  assumes "wf_json v"
  shows "json_parse (pretty 0 v) = Some v"
proof -
  have "p_value (2 * length (pretty 0 v) + 2) (pretty 0 v) = Some (v, [])"
    using parse_pretty_aux(1) [of v "[]" 0 "2 * length (pretty 0 v) + 2"] assms by simp
  then show ?thesis by (simp add: json_parse_def)
qed

end
