(* ===== verification/PeerStore.thy ===== *)
theory PeerStore
  imports JsonPretty SelfRevoke
begin

text \<open>
  The file of pairings: the part \<^verbatim>\<open>peers.json\<close> of \<^verbatim>\<open>extension/src/pairing/storage.ts\<close>.

  The store is the file, as far as the process can read it, and the process's own table of provenance tokens, one for each
  owner. A token is a fresh object, here a number never used before. The mutations are queued by
  \<^verbatim>\<open>_serializePeerMutation\<close>, so each is one step; another process may write the file between two
  of them. The text of the file is written by \<open>pretty\<close> and read by \<open>json_parse\<close>. What the disk does
  is an argument: it works, the directory cannot be made, or the write fails and leaves some file behind.
\<close>

section \<open>Provenance\<close>

text \<open>A table that holds one token per key, makes one on demand and replaces it on request. \<open>issued\<close> are
  the tokens given out so far.\<close>

locale provenance =
  fixes holds :: "'s \<Rightarrow> 'k \<Rightarrow> 't option"
    and obtain_tok :: "'k \<Rightarrow> 's \<Rightarrow> 't \<times> 's"
    and renew :: "'k \<Rightarrow> 's \<Rightarrow> 't \<times> 's"
    and issued :: "'s \<Rightarrow> 't set"
    and ok :: "'s \<Rightarrow> bool"
  assumes known: "holds s k = Some t \<Longrightarrow> obtain_tok k s = (t, s)"
    and fresh: "ok s \<Longrightarrow> holds s k = None \<Longrightarrow> obtain_tok k s = (t, s') \<Longrightarrow>
      t \<notin> issued s \<and> issued s' = insert t (issued s) \<and> holds s' = (holds s)(k \<mapsto> t) \<and> ok s'"
    and renewed: "ok s \<Longrightarrow> renew k s = (t, s') \<Longrightarrow>
      t \<notin> issued s \<and> issued s' = insert t (issued s) \<and> holds s' = (holds s)(k \<mapsto> t) \<and> ok s'"
    and held_issued: "ok s \<Longrightarrow> holds s k = Some t \<Longrightarrow> t \<in> issued s"
begin

lemma obtain_holds: "ok s \<Longrightarrow> obtain_tok k s = (t, s') \<Longrightarrow> holds s' k = Some t \<and> ok s' \<and> t \<in> issued s' \<and> issued s \<subseteq> issued s'"
  using known [of s k] fresh [of s k t s'] held_issued by (cases "holds s k") auto

text \<open>Asking for a token changes no token there is.\<close>

lemma obtain_keeps: "ok s \<Longrightarrow> obtain_tok k s = (t, s') \<Longrightarrow> holds s k' = Some u \<Longrightarrow> holds s' k' = Some u"
  using known [of s k] fresh [of s k t s'] by (cases "holds s k") auto

text \<open>A token that a key has lost never comes back.\<close>

lemma obtain_lost: "ok s \<Longrightarrow> obtain_tok k s = (t, s') \<Longrightarrow> u \<in> issued s \<Longrightarrow> holds s k' \<noteq> Some u \<Longrightarrow> holds s' k' \<noteq> Some u"
  using known [of s k] fresh [of s k t s'] by (cases "holds s k") auto

lemma renew_lost: "ok s \<Longrightarrow> renew k s = (t, s') \<Longrightarrow> u \<in> issued s \<Longrightarrow> holds s k' \<noteq> Some u \<or> k' = k \<Longrightarrow> holds s' k' \<noteq> Some u"
  using renewed [of s k t s'] by auto

lemma renew_keeps: "ok s \<Longrightarrow> renew k s = (t, s') \<Longrightarrow> k' \<noteq> k \<Longrightarrow> holds s' k' = holds s k'"
  using renewed [of s k t s'] by auto

end

section \<open>The store\<close>

datatype peers_file = NoFile | CannotRead | Contents string

record store =
  ps_file :: peers_file
  ps_tokens :: "(string, nat) jsmap"
  ps_next :: nat

record peer_record =
  pr_name :: string
  pr_remote_epk :: string
  pr_paired_at :: string

datatype disk = DiskOk | MkdirFails | WriteFails peers_file

datatype commit_check = NoCheck | CheckThrows | CheckSays bool

datatype store_error = ReadFailed | PeersNotJson | NullContainer | InvalidContainer | DiskFailed

definition peer_jv :: "peer_record \<Rightarrow> jv" where
  "peer_jv r = JObj [(''name'', JStr (pr_name r)), (''remote_epk'', JStr (pr_remote_epk r)), (''paired_at'', JStr (pr_paired_at r))]"

definition peers_text :: "jv list \<Rightarrow> string" where
  "peers_text peers = pretty 0 (JObj [(''peers'', JArr peers)])"

definition listPeers :: "peers_file \<Rightarrow> jv list" where
  "listPeers f =
     (case f of
        Contents raw \<Rightarrow>
          (case json_parse raw of
             Some parsed \<Rightarrow> (case jget parsed ''peers'' of JArr peers \<Rightarrow> peers | _ \<Rightarrow> [])
           | None \<Rightarrow> [])
      | _ \<Rightarrow> [])"

text \<open>Reading \<^verbatim>\<open>peers\<close> of \<^verbatim>\<open>null\<close> throws.\<close>

definition readPeerContainerStrict :: "peers_file \<Rightarrow> store_error + jv list" where
  "readPeerContainerStrict f =
     (case f of
        NoFile \<Rightarrow> Inr []
      | CannotRead \<Rightarrow> Inl ReadFailed
      | Contents raw \<Rightarrow>
          (case json_parse raw of
             None \<Rightarrow> Inl PeersNotJson
           | Some parsed \<Rightarrow>
               if parsed = JNull then Inl NullContainer
               else (case jget parsed ''peers'' of JArr peers \<Rightarrow> Inr peers | _ \<Rightarrow> Inl InvalidContainer)))"

definition pairingAllowList :: "jv list \<Rightarrow> string list" where
  "pairingAllowList peers =
     concat (map (\<lambda>p. case jget p ''remote_epk'' of
        JStr raw \<Rightarrow> (case canonicalizeEd25519PublicKey raw ''peer allow-list'' of Inr owner \<Rightarrow> [owner] | Inl _ \<Rightarrow> [])
      | _ \<Rightarrow> []) peers)"

text \<open>\<open>handle_is raw peer\<close>: the test of \<open>findIndex\<close> and, negated, of the two \<open>filter\<close>s.\<close>

definition handle_is :: "string \<Rightarrow> jv \<Rightarrow> bool" where
  "handle_is raw peer \<longleftrightarrow> is_objlike peer \<and> jget peer ''remote_epk'' = JStr raw"

definition raw_owner :: "jv \<Rightarrow> jv" where
  "raw_owner peer = (if is_objlike peer then jget peer ''remote_epk'' else peer)"

text \<open>A JavaScript \<open>Set\<close>: objects and arrays are equal to themselves only.\<close>

definition js_set_add :: "jv \<Rightarrow> jv list \<Rightarrow> jv list" where
  "js_set_add v seen = (if \<not> is_objlike v \<and> v \<in> set seen then seen else seen @ [v])"

definition owner_set :: "jv list \<Rightarrow> jv list" where
  "owner_set peers = fold (\<lambda>p. js_set_add (raw_owner p)) peers []"

definition listOwnerPubkeys :: "peers_file \<Rightarrow> jv list" where
  "listOwnerPubkeys f = owner_set (listPeers f)"

section \<open>Tokens\<close>

definition ownerSlotKey :: "jv \<Rightarrow> string" where
  "ownerSlotKey v =
     (case v of
        JStr raw \<Rightarrow>
          (case canonicalizeEd25519PublicKey raw ''Owner record'' of
             Inr owner \<Rightarrow> ''owner:'' @ owner
           | Inl _ \<Rightarrow> ''raw:string:'' @ raw)
      | _ \<Rightarrow> ''raw:quarantine:'' @ js_typeof v)"

definition new_token :: "string \<Rightarrow> store \<Rightarrow> nat \<times> store" where
  "new_token slot s = (ps_next s, s\<lparr>ps_tokens := mput slot (ps_next s) (ps_tokens s), ps_next := Suc (ps_next s)\<rparr>)"

definition tokenForSlot :: "string \<Rightarrow> store \<Rightarrow> nat \<times> store" where
  "tokenForSlot slot s = (case mget (ps_tokens s) slot of Some t \<Rightarrow> (t, s) | None \<Rightarrow> new_token slot s)"

definition invalidateOwnerSlot :: "jv \<Rightarrow> store \<Rightarrow> nat \<times> store" where
  "invalidateOwnerSlot v s = new_token (ownerSlotKey v) s"

section \<open>Mutations\<close>

definition addPeer :: "peer_record \<Rightarrow> disk \<Rightarrow> store \<Rightarrow> (store_error + unit) \<times> store" where
  "addPeer r io s =
     (let peers = listPeers (ps_file s);
          before = takeWhile (\<lambda>p. \<not> handle_is (pr_remote_epk r) p) peers;
          peers' = (if length before < length peers then peers[length before := peer_jv r] else peers @ [peer_jv r])
      in case io of
           MkdirFails \<Rightarrow> (Inl DiskFailed, s)
         | WriteFails f \<Rightarrow> (Inl DiskFailed, s\<lparr>ps_file := f\<rparr>)
         | DiskOk \<Rightarrow> (Inr (), snd (invalidateOwnerSlot (JStr (pr_remote_epk r)) (s\<lparr>ps_file := Contents (peers_text peers')\<rparr>))))"

fun token_all :: "jv list \<Rightarrow> store \<Rightarrow> (jv \<times> nat) list \<times> store" where
  "token_all [] s = ([], s)"
| "token_all (v # vs) s =
     (let (t, s1) = tokenForSlot (ownerSlotKey v) s; (rest, s2) = token_all vs s1 in ((v, t) # rest, s2))"

definition snapshotOwnerPubkeys :: "store \<Rightarrow> (store_error + (jv \<times> nat) list) \<times> store" where
  "snapshotOwnerPubkeys s =
     (case readPeerContainerStrict (ps_file s) of
        Inl e \<Rightarrow> (Inl e, s)
      | Inr peers \<Rightarrow> (let (records, s1) = token_all (owner_set peers) s in (Inr records, s1)))"

definition conditionalRemovePeer :: "string \<Rightarrow> nat option \<Rightarrow> commit_check \<Rightarrow> disk \<Rightarrow> store
    \<Rightarrow> (store_error + nat removal) \<times> store" where
  "conditionalRemovePeer remoteEpk expected canCommit io s =
     (let slot = ownerSlotKey (JStr remoteEpk); (t, s1) = tokenForSlot slot s
      in if Some t \<noteq> expected then (Inr StaleToken, s1)
         else case readPeerContainerStrict (ps_file s1) of
                Inl e \<Rightarrow> (Inl e, s1)
              | Inr peers \<Rightarrow>
                  (let filtered = filter (\<lambda>p. \<not> handle_is remoteEpk p) peers
                   in if length filtered = length peers then (Inr NoSuchPeer, s1)
                      else if io = MkdirFails then (Inl DiskFailed, s1)
                      else
                        (let (t2, s2) = tokenForSlot slot s1
                         in if Some t2 \<noteq> expected then (Inr StaleToken, s2)
                            else if canCommit = CheckThrows \<or> canCommit = CheckSays False then (Inr NoAuthority, s2)
                            else (case io of
                                    WriteFails f \<Rightarrow> (Inl DiskFailed, s2\<lparr>ps_file := f\<rparr>)
                                  | _ \<Rightarrow>
                                      (let (t3, s3) = invalidateOwnerSlot (JStr remoteEpk) (s2\<lparr>ps_file := Contents (peers_text filtered)\<rparr>)
                                       in (Inr (Removed t3), s3))))))"

definition removePeer :: "string \<Rightarrow> commit_check \<Rightarrow> disk \<Rightarrow> store \<Rightarrow> (store_error + bool) \<times> store" where
  "removePeer remoteEpk canCommit io s =
     (let peers = listPeers (ps_file s); filtered = filter (\<lambda>p. \<not> handle_is remoteEpk p) peers
      in if length filtered = length peers then (Inr False, s)
         else if io = MkdirFails then (Inl DiskFailed, s)
         else if canCommit = CheckThrows \<or> canCommit = CheckSays False then (Inr False, s)
         else (case io of
                 WriteFails f \<Rightarrow> (Inl DiskFailed, s\<lparr>ps_file := f\<rparr>)
               | _ \<Rightarrow> (Inr True, snd (invalidateOwnerSlot (JStr remoteEpk) (s\<lparr>ps_file := Contents (peers_text filtered)\<rparr>)))))"


section \<open>What is written is read back\<close>

lemma wf_peers: "jget parsed ''peers'' = JArr peers \<Longrightarrow> wf_json parsed \<Longrightarrow> list_all wf_json peers"
proof -
  assume h: "jget parsed ''peers'' = JArr peers" "wf_json parsed"
  then obtain kvs where o: "parsed = JObj kvs" by (cases parsed) auto
  then have "mget kvs ''peers'' = Some (JArr peers)" using h(1) by (auto split: option.splits)
  then have "(''peers'', JArr peers) \<in> set kvs" by (rule map_of_SomeD)
  then have "wf_json (JArr peers)" using h(2) o by (auto simp: list_all_iff)
  then show ?thesis by simp
qed

lemma listPeers_wf [simp]: "list_all wf_json (listPeers f)"
  by (auto simp: listPeers_def split: peers_file.split option.split jv.split dest: wf_peers json_parse_wf)

lemma strict_list: "readPeerContainerStrict f = Inr peers \<Longrightarrow> listPeers f = peers \<and> list_all wf_json peers"
  by (auto simp: listPeers_def readPeerContainerStrict_def split: peers_file.splits option.splits jv.splits if_splits
      dest: wf_peers json_parse_wf)

lemma peer_jv_wf [simp]: "wf_json (peer_jv r)"
  by (simp add: peer_jv_def)

lemma peers_text_parse: "list_all wf_json peers \<Longrightarrow> json_parse (peers_text peers) = Some (JObj [(''peers'', JArr peers)])"
  unfolding peers_text_def by (rule pretty_round_trip) simp

lemma read_written [simp]: "list_all wf_json peers \<Longrightarrow> listPeers (Contents (peers_text peers)) = peers"
  "list_all wf_json peers \<Longrightarrow> readPeerContainerStrict (Contents (peers_text peers)) = Inr peers"
  by (simp_all add: listPeers_def readPeerContainerStrict_def peers_text_parse)

lemma list_all_filter [simp]: "list_all P xs \<Longrightarrow> list_all P (filter Q xs)"
  by (auto simp: list_all_iff)

lemma filter_same: "length (filter P xs) = length xs \<longleftrightarrow> list_all P xs"
  by (metis filter_True length_filter_less list_all_iff order.irrefl)

section \<open>Tokens\<close>

definition store_ok :: "store \<Rightarrow> bool" where
  "store_ok s \<longleftrightarrow> (\<forall>k t. mget (ps_tokens s) k = Some t \<longrightarrow> t < ps_next s)"

lemma new_token_moves:
  assumes "store_ok s" and "new_token k s = (t, s')"
  shows "t = ps_next s" and "ps_next s' = Suc (ps_next s)" and "mget (ps_tokens s') = (mget (ps_tokens s))(k \<mapsto> t)" and "store_ok s'"
proof -
  have e: "t = ps_next s" "s' = s\<lparr>ps_tokens := mput k (ps_next s) (ps_tokens s), ps_next := Suc (ps_next s)\<rparr>"
    using assms(2) by (auto simp: new_token_def)
  show "t = ps_next s" "ps_next s' = Suc (ps_next s)" "mget (ps_tokens s') = (mget (ps_tokens s))(k \<mapsto> t)"
    by (simp_all add: e fun_eq_iff)
  show "store_ok s'" using assms(1) by (simp add: e store_ok_def less_Suc_eq)
qed

interpretation pv: provenance "\<lambda>s. mget (ps_tokens s)" tokenForSlot new_token "\<lambda>s. {..<ps_next s}" store_ok
proof
  show "tokenForSlot k s = (t, s)" if "mget (ps_tokens s) k = Some t" for s k t
    using that by (simp add: tokenForSlot_def)
  show r: "t \<notin> {..<ps_next s} \<and> {..<ps_next s'} = insert t {..<ps_next s} \<and> mget (ps_tokens s') = (mget (ps_tokens s))(k \<mapsto> t) \<and> store_ok s'"
    if "store_ok s" "new_token k s = (t, s')" for s k t s'
    using new_token_moves [OF that] by (simp add: lessThan_Suc)
  show "t \<notin> {..<ps_next s} \<and> {..<ps_next s'} = insert t {..<ps_next s} \<and> mget (ps_tokens s') = (mget (ps_tokens s))(k \<mapsto> t) \<and> store_ok s'"
    if "store_ok s" "mget (ps_tokens s) k = None" "tokenForSlot k s = (t, s')" for s k t s'
    using that(2,3) by (intro r [OF that(1)]) (simp add: tokenForSlot_def)
  show "t \<in> {..<ps_next s}" if "store_ok s" "mget (ps_tokens s) k = Some t" for s k t
    using that by (simp add: store_ok_def)
qed

lemma file_update [simp]: "store_ok (s\<lparr>ps_file := f\<rparr>) = store_ok s"
  by (simp add: store_ok_def)

lemma tokenForSlot_cases:
  assumes "tokenForSlot slot s = (t, s')"
  obtains "mget (ps_tokens s) slot = Some t" "s' = s" | "mget (ps_tokens s) slot = None" "new_token slot s = (t, s')"
  using assms by (cases "mget (ps_tokens s) slot") (simp_all add: tokenForSlot_def)

lemma new_token_file: "new_token slot s = (t, s') \<Longrightarrow> ps_file s' = ps_file s"
  by (auto simp: new_token_def)

lemma tokenForSlot_file: "tokenForSlot slot s = (t, s') \<Longrightarrow> ps_file s' = ps_file s"
  by (erule tokenForSlot_cases) (simp_all add: new_token_file)

lemma tokenForSlot_again: "tokenForSlot slot s = (t, s') \<Longrightarrow> tokenForSlot slot s' = (t, s')"
  by (erule tokenForSlot_cases) (auto simp: tokenForSlot_def new_token_def)

text \<open>A second look at the token in the same step sees the same token.\<close>

lemma conditionalRemovePeer_eq:
  assumes "tokenForSlot (ownerSlotKey (JStr raw)) s = (t, s1)"
  shows "conditionalRemovePeer raw expected canCommit io s =
     (if Some t \<noteq> expected then (Inr StaleToken, s1)
      else case readPeerContainerStrict (ps_file s) of
             Inl e \<Rightarrow> (Inl e, s1)
           | Inr peers \<Rightarrow>
               if list_all (\<lambda>p. \<not> handle_is raw p) peers then (Inr NoSuchPeer, s1)
               else if io = MkdirFails then (Inl DiskFailed, s1)
               else if canCommit = CheckThrows \<or> canCommit = CheckSays False then (Inr NoAuthority, s1)
               else (case io of
                       WriteFails f \<Rightarrow> (Inl DiskFailed, s1\<lparr>ps_file := f\<rparr>)
                     | _ \<Rightarrow> (Inr (Removed (ps_next s1)),
                           snd (new_token (ownerSlotKey (JStr raw)) (s1\<lparr>ps_file := Contents (peers_text (filter (\<lambda>p. \<not> handle_is raw p) peers))\<rparr>)))))"
  unfolding conditionalRemovePeer_def Let_def assms prod.case tokenForSlot_again [OF assms] tokenForSlot_file [OF assms] filter_same
  by (simp add: invalidateOwnerSlot_def new_token_def split: sum.split disk.split)

section \<open>Sequences of operations\<close>

datatype store_op =
    AddPeer peer_record disk
  | Snapshot
  | RemoveIf string "nat option" commit_check disk
  | RemovePeer string commit_check disk
  | OtherProcess peers_file

fun run_op :: "store_op \<Rightarrow> store \<Rightarrow> store" where
  "run_op (AddPeer r io) s = snd (addPeer r io s)"
| "run_op Snapshot s = snd (snapshotOwnerPubkeys s)"
| "run_op (RemoveIf raw expected canCommit io) s = snd (conditionalRemovePeer raw expected canCommit io s)"
| "run_op (RemovePeer raw canCommit io) s = snd (removePeer raw canCommit io s)"
| "run_op (OtherProcess f) s = s\<lparr>ps_file := f\<rparr>"

text \<open>The handle whose pairing an operation of this process changed: a pairing stored, or removed, successfully. The
  tokens live in the memory of the process, so what another process writes to the file does not count.\<close>

fun changed_handle :: "store_op \<Rightarrow> store \<Rightarrow> string option" where
  "changed_handle (AddPeer r io) s = (if fst (addPeer r io s) = Inr () then Some (pr_remote_epk r) else None)"
| "changed_handle (RemoveIf raw expected canCommit io) s =
     (case fst (conditionalRemovePeer raw expected canCommit io s) of Inr (Removed _) \<Rightarrow> Some raw | _ \<Rightarrow> None)"
| "changed_handle (RemovePeer raw canCommit io) s = (if fst (removePeer raw canCommit io s) = Inr True then Some raw else None)"
| "changed_handle _ s = None"

definition run_ops :: "store_op list \<Rightarrow> store \<Rightarrow> store" where
  "run_ops ops s = fold run_op ops s"

fun owner_changed_here :: "string \<Rightarrow> store_op list \<Rightarrow> store \<Rightarrow> bool" where
  "owner_changed_here slot [] s = False"
| "owner_changed_here slot (op # ops) s =
     ((case changed_handle op s of Some raw \<Rightarrow> ownerSlotKey (JStr raw) = slot | None \<Rightarrow> False) \<or> owner_changed_here slot ops (run_op op s))"

definition fresh_store :: "peers_file \<Rightarrow> store" where
  "fresh_store f = \<lparr>ps_file = f, ps_tokens = [], ps_next = 0\<rparr>"

text \<open>What a step does to the tokens issued so far: they stay where they are, except for one slot, which loses its own.\<close>

definition token_step :: "string option \<Rightarrow> store \<Rightarrow> store \<Rightarrow> bool" where
  "token_step slot s s' \<longleftrightarrow> (store_ok s \<longrightarrow> store_ok s' \<and> ps_next s \<le> ps_next s' \<and>
     (\<forall>k t. t < ps_next s \<longrightarrow> (mget (ps_tokens s') k = Some t \<longleftrightarrow> mget (ps_tokens s) k = Some t \<and> slot \<noteq> Some k)))"

lemma token_step_refl [simp]: "token_step None s s" "token_step None s (s\<lparr>ps_file := f\<rparr>)"
  by (simp_all add: token_step_def)

lemma token_step_trans: "token_step None a b \<Longrightarrow> token_step slot b c \<Longrightarrow> token_step slot a c"
  unfolding token_step_def
  by (intro impI) simp

lemma token_step_obtain: "tokenForSlot k s = (t, s') \<Longrightarrow> token_step None s s'"
  unfolding token_step_def
proof (intro impI conjI allI iffI)
  assume o: "tokenForSlot k s = (t, s')" and ok: "store_ok s"
  note h = pv.obtain_holds [OF ok o]
  show "store_ok s'" "ps_next s \<le> ps_next s'" using h by auto
  show "mget (ps_tokens s') k' = Some u" if "mget (ps_tokens s) k' = Some u \<and> None \<noteq> Some k'" for k' u
    using pv.obtain_keeps [OF ok o] that by blast
  show "mget (ps_tokens s) k' = Some u" if "u < ps_next s" "mget (ps_tokens s') k' = Some u" for k' u
    using pv.obtain_lost [OF ok o, of u k'] that by auto
qed simp

lemma token_step_new: "token_step (Some k) s (snd (new_token k s))"
  unfolding token_step_def
proof (intro impI conjI allI)
  assume ok: "store_ok s"
  obtain t s' where n: "new_token k s = (t, s')" by fastforce
  note m = new_token_moves [OF ok n]
  show "store_ok (snd (new_token k s))" "ps_next s \<le> ps_next (snd (new_token k s))" using m n by simp_all
  show "(mget (ps_tokens (snd (new_token k s))) k' = Some u) = (mget (ps_tokens s) k' = Some u \<and> Some k \<noteq> Some k')" if "u < ps_next s" for k' u
    using m n that by auto
qed

lemma token_step_write: "token_step (Some k) s (snd (new_token k (s\<lparr>ps_file := f\<rparr>)))"
  by (rule token_step_trans [OF token_step_refl(2) token_step_new])

lemma token_step_all: "token_all vs s = (records, s') \<Longrightarrow> token_step None s s'"
proof (induction vs arbitrary: s records s')
  case (Cons v vs)
  obtain t s1 where t: "tokenForSlot (ownerSlotKey v) s = (t, s1)" by fastforce
  obtain rest s2 where rest: "token_all vs s1 = (rest, s2)" by fastforce
  have "token_step None s1 s'" using Cons.IH [OF rest] Cons.prems t rest by simp
  with token_step_obtain [OF t] show ?case by (rule token_step_trans)
qed simp

lemma run_op_step: "token_step (map_option (\<lambda>raw. ownerSlotKey (JStr raw)) (changed_handle op s)) s (run_op op s)"
proof (cases op)
  case (AddPeer r io)
  then show ?thesis
    by (cases io) (simp_all add: addPeer_def Let_def invalidateOwnerSlot_def token_step_write)
next
  case Snapshot
  then show ?thesis
    by (auto simp: snapshotOwnerPubkeys_def token_step_all split: sum.split prod.split)
next
  case (RemoveIf raw expected canCommit io)
  obtain t s1 where t: "tokenForSlot (ownerSlotKey (JStr raw)) s = (t, s1)" by fastforce
  note s1 = token_step_obtain [OF t]
  show ?thesis
    unfolding RemoveIf run_op.simps changed_handle.simps conditionalRemovePeer_eq [OF t]
    using s1 token_step_trans [OF s1 token_step_refl(2)] token_step_trans [OF s1 token_step_write]
    by (auto split: sum.split disk.split)
next
  case (RemovePeer raw canCommit io)
  then show ?thesis
    by (simp add: removePeer_def Let_def invalidateOwnerSlot_def token_step_write split: disk.split)
qed simp

lemma run_ops_tokens:
  assumes "store_ok s" and "t < ps_next s"
  shows "store_ok (run_ops ops s) \<and> ps_next s \<le> ps_next (run_ops ops s) \<and>
     (mget (ps_tokens (run_ops ops s)) slot = Some t \<longleftrightarrow> mget (ps_tokens s) slot = Some t \<and> \<not> owner_changed_here slot ops s)"
  using assms
proof (induction ops arbitrary: s)
  case Nil
  then show ?case by (simp add: run_ops_def)
next
  case (Cons op ops)
  have st: "store_ok (run_op op s)" "ps_next s \<le> ps_next (run_op op s)"
    "mget (ps_tokens (run_op op s)) slot = Some t \<longleftrightarrow> mget (ps_tokens s) slot = Some t \<and>
       map_option (\<lambda>raw. ownerSlotKey (JStr raw)) (changed_handle op s) \<noteq> Some slot"
    using run_op_step [of op s] Cons.prems by (simp_all add: token_step_def)
  have "run_ops (op # ops) s = run_ops ops (run_op op s)" by (simp add: run_ops_def)
  moreover have "t < ps_next (run_op op s)" using st(2) Cons.prems(2) by simp
  ultimately show ?case using Cons.IH [OF st(1)] st(2,3) by (auto split: option.splits)
qed

lemma fresh_store_ok [simp]: "store_ok (fresh_store f)"
  by (simp add: fresh_store_def store_ok_def)

lemma run_ops_ok: "store_ok (run_ops ops (fresh_store f))"
proof (induction ops rule: rev_induct)
  case (snoc op ops)
  then show ?case using run_op_step [of op "run_ops ops (fresh_store f)"] by (simp add: run_ops_def token_step_def)
qed (simp add: run_ops_def)

lemma token_all_records:
  assumes "store_ok s" and "token_all vs s = (records, s')" and "(v, t) \<in> set records"
  shows "t < ps_next s' \<and> mget (ps_tokens s') (ownerSlotKey v) = Some t \<and> v \<in> set vs"
  using assms
proof (induction vs arbitrary: s records s')
  case (Cons w vs)
  obtain u s1 where u: "tokenForSlot (ownerSlotKey w) s = (u, s1)" by fastforce
  obtain rest s2 where rest: "token_all vs s1 = (rest, s2)" by fastforce
  have e: "records = (w, u) # rest" "s' = s2" using Cons.prems(2) u rest by simp_all
  note h = pv.obtain_holds [OF Cons.prems(1) u]
  have ts: "token_step None s1 s2" by (rule token_step_all [OF rest])
  have hu: "mget (ps_tokens s1) (ownerSlotKey w) = Some u" "u < ps_next s1" "store_ok s1" using h by simp_all
  have "mget (ps_tokens s2) (ownerSlotKey w) = Some u \<and> u < ps_next s2"
    using ts hu unfolding token_step_def by (meson less_le_trans option.distinct(1))
  moreover have "(v, t) \<in> set rest \<Longrightarrow> t < ps_next s' \<and> mget (ps_tokens s') (ownerSlotKey v) = Some t \<and> v \<in> set vs"
    using Cons.IH [OF hu(3)] rest e by blast
  ultimately show ?case using Cons.prems(3) e by auto
qed simp

text \<open>C20: a removal is refused as stale exactly when this process has changed the owner's pairing since the snapshot.
  Take any history of the store, a snapshot, and any operations after it, by this process or, on the file, by
  another. The token that the snapshot gave for a stored handle is refused if and only if one of the operations of this
  process stored or removed, successfully, a pairing of the same owner, under whatever spelling of the key. What
  another process writes is not noticed: as long as this process did not touch the owner, the removal takes
  every record with the handle out of the file as it then is, also one that another process has paired anew since.\<close>

theorem stale_iff_owner_changed:
  assumes "snapshotOwnerPubkeys (run_ops before (fresh_store f)) = (Inr records, s)" and "(JStr raw, t) \<in> set records"
  shows "(fst (conditionalRemovePeer raw (Some t) canCommit io (run_ops ops s)) = Inr StaleToken \<longleftrightarrow>
       owner_changed_here (ownerSlotKey (JStr raw)) ops s) \<and>
     (\<not> owner_changed_here (ownerSlotKey (JStr raw)) ops s \<longrightarrow>
       (\<forall>peers. readPeerContainerStrict (ps_file (run_ops ops s)) = Inr peers \<and> (\<exists>p \<in> set peers. handle_is raw p) \<longrightarrow>
         (\<exists>t' s'. conditionalRemovePeer raw (Some t) (CheckSays True) DiskOk (run_ops ops s) = (Inr (Removed t'), s') \<and>
            readPeerContainerStrict (ps_file s') = Inr (filter (\<lambda>p. \<not> handle_is raw p) peers))))"
proof -
  let ?slot = "ownerSlotKey (JStr raw)" and ?s0 = "run_ops before (fresh_store f)" and ?s2 = "run_ops ops s"
  have ok0: "store_ok ?s0" by (rule run_ops_ok)
  obtain vs where vs: "token_all vs ?s0 = (records, s)"
    using assms(1) by (auto simp: snapshotOwnerPubkeys_def split: sum.splits prod.splits)
  note h = token_all_records [OF ok0 vs assms(2)]
  have ok: "store_ok s" using token_step_all [OF vs] ok0 by (simp add: token_step_def)
  note r = run_ops_tokens [OF ok conjunct1 [OF h], of ops ?slot]
  obtain u s1 where u: "tokenForSlot ?slot ?s2 = (u, s1)" by fastforce
  have "u = t \<longleftrightarrow> mget (ps_tokens ?s2) ?slot = Some t"
    using u
  proof (cases rule: tokenForSlot_cases)
    case 2
    then have "u = ps_next ?s2" using new_token_moves(1) r by blast
    then show ?thesis using 2(1) r h by simp
  qed simp
  also have "\<dots> \<longleftrightarrow> \<not> owner_changed_here ?slot ops s" using r h by simp
  finally have fresh: "u = t \<longleftrightarrow> \<not> owner_changed_here ?slot ops s" .
  then have "fst (conditionalRemovePeer raw (Some t) canCommit io ?s2) = Inr StaleToken \<longleftrightarrow> owner_changed_here ?slot ops s"
    unfolding conditionalRemovePeer_eq [OF u] by (auto split: sum.split disk.split)
  moreover have "\<exists>t' s'. conditionalRemovePeer raw (Some t) (CheckSays True) DiskOk ?s2 = (Inr (Removed t'), s') \<and>
      readPeerContainerStrict (ps_file s') = Inr (filter (\<lambda>p. \<not> handle_is raw p) peers)"
    if "\<not> owner_changed_here ?slot ops s" "readPeerContainerStrict (ps_file ?s2) = Inr peers" "\<exists>p \<in> set peers. handle_is raw p" for peers
  proof -
    have "readPeerContainerStrict (Contents (peers_text (filter (\<lambda>p. \<not> handle_is raw p) peers))) =
        Inr (filter (\<lambda>p. \<not> handle_is raw p) peers)"
      using strict_list [OF that(2)] by simp
    then show ?thesis using that fresh
      unfolding conditionalRemovePeer_eq [OF u] by (auto simp: list_all_iff new_token_def)
  qed
  ultimately show ?thesis by blast
qed


section \<open>What the mutations do to the file\<close>

text \<open>A conditional removal removes exactly the records with the given raw handle, only when the file was read in full, a
  record with it was there, the token is the current one and the caller still has authority; the records that stay keep
  their place and their content, also those the program cannot interpret. In every other case, errors included, the
  file is as before, unless the write itself failed.\<close>

theorem removal_exact:
  assumes "conditionalRemovePeer raw expected canCommit io s = (res, s')"
  shows "if \<exists>t. res = Inr (Removed t)
     then (\<exists>peers. readPeerContainerStrict (ps_file s) = Inr peers \<and> (\<exists>p \<in> set peers. handle_is raw p) \<and>
            readPeerContainerStrict (ps_file s') = Inr (filter (\<lambda>p. \<not> handle_is raw p) peers)) \<and>
          expected = Some (fst (tokenForSlot (ownerSlotKey (JStr raw)) s)) \<and> (canCommit = NoCheck \<or> canCommit = CheckSays True)
     else ps_file s' = ps_file s \<or> (res = Inl DiskFailed \<and> io = WriteFails (ps_file s'))"
proof -
  let ?slot = "ownerSlotKey (JStr raw)"
  obtain t s1 where t: "tokenForSlot ?slot s = (t, s1)" by fastforce
  note f = tokenForSlot_file [OF t]
  note e = assms [unfolded conditionalRemovePeer_eq [OF t]]
  show ?thesis
  proof (cases "Some t = expected")
    case cur: True
    show ?thesis
    proof (cases "readPeerContainerStrict (ps_file s)")
      case (Inr peers)
      let ?out = "Contents (peers_text (filter (\<lambda>p. \<not> handle_is raw p) peers))"
      have w: "readPeerContainerStrict ?out = Inr (filter (\<lambda>p. \<not> handle_is raw p) peers)"
        using strict_list [OF Inr] by simp
      have n: "ps_file (snd (new_token ?slot (s1\<lparr>ps_file := ?out\<rparr>))) = ?out" by (simp add: new_token_def)
      show ?thesis
      proof (cases "list_all (\<lambda>p. \<not> handle_is raw p) peers \<or> io = MkdirFails \<or> canCommit = CheckThrows \<or> canCommit = CheckSays False")
        case True
        then show ?thesis using e cur Inr f by (auto split: if_splits)
      next
        case False
        have c: "canCommit = NoCheck \<or> canCommit = CheckSays True" using False by (cases canCommit) auto
        have p: "\<exists>p \<in> set peers. handle_is raw p" using False by (auto simp: list_all_iff)
        show ?thesis using e cur Inr f False w n c p t by (cases io) auto
      qed
    qed (use e cur f in auto)
  qed (use e f in auto)
qed

lemma takeWhile_update:
  assumes "length (takeWhile P xs) < length xs" and "P' = (\<lambda>x. \<not> P x)" and "P' y"
  shows "filter P' (xs[length (takeWhile P xs) := y]) = y # tl (filter P' xs) \<and> filter P (xs[length (takeWhile P xs) := y]) = filter P xs"
  using assms
proof (induction xs)
  case (Cons x xs)
  then show ?case by (cases "P x") auto
qed simp

lemma handle_peer_jv [simp]: "handle_is raw (peer_jv r) \<longleftrightarrow> raw = pr_remote_epk r"
  by (auto simp: handle_is_def peer_jv_def)

text \<open>Storing a pairing replaces the first record with the same raw handle, or appends; every other record that could be read is
  kept, in order; and the file can be read in full afterwards. It reads the old file leniently, though: when that
  cannot be read or parsed, although it may hold pairings, the new file has the new pairing alone.\<close>

theorem pairing_stored:
  assumes "addPeer r io s = (res, s')"
  shows "(res = Inr () \<longleftrightarrow> io = DiskOk) \<and>
     (io = DiskOk \<longrightarrow> (\<exists>peers. readPeerContainerStrict (ps_file s') = Inr peers \<and> peer_jv r \<in> set peers \<and>
        filter (\<lambda>p. \<not> handle_is (pr_remote_epk r) p) peers = filter (\<lambda>p. \<not> handle_is (pr_remote_epk r) p) (listPeers (ps_file s)) \<and>
        filter (handle_is (pr_remote_epk r)) peers = peer_jv r # tl (filter (handle_is (pr_remote_epk r)) (listPeers (ps_file s))) \<and>
        (readPeerContainerStrict (ps_file s) \<in> range Inl \<longrightarrow> peers = [peer_jv r])))"
proof (cases io)
  case DiskOk
  let ?h = "handle_is (pr_remote_epk r)" and ?old = "listPeers (ps_file s)"
  let ?b = "takeWhile (\<lambda>p. \<not> ?h p) ?old"
  define peers where "peers = (if length ?b < length ?old then ?old[length ?b := peer_jv r] else ?old @ [peer_jv r])"
  have res: "res = Inr ()" "ps_file s' = Contents (peers_text peers)"
    using assms DiskOk by (auto simp: addPeer_def Let_def invalidateOwnerSlot_def new_token_def peers_def)
  have "filter ?h peers = peer_jv r # tl (filter ?h ?old) \<and> filter (\<lambda>p. \<not> ?h p) peers = filter (\<lambda>p. \<not> ?h p) ?old \<and> set peers \<subseteq> insert (peer_jv r) (set ?old)"
  proof (cases "length ?b < length ?old")
    case True
    then show ?thesis using takeWhile_update [of "\<lambda>p. \<not> ?h p" ?old ?h "peer_jv r"] set_update_subset_insert [of ?old "length ?b" "peer_jv r"]
      by (simp add: peers_def)
  next
    case False
    then have "takeWhile (\<lambda>p. \<not> ?h p) ?old = ?old" using length_takeWhile_le [of "\<lambda>p. \<not> ?h p" ?old] by (metis append_eq_conv_conj linorder_neqE_nat not_le takeWhile_eq_take take_all)
    then have "\<forall>p \<in> set ?old. \<not> ?h p" by (metis takeWhile_eq_all_conv)
    then show ?thesis using False by (simp add: peers_def)
  qed
  note p = this
  have "list_all wf_json peers" using p listPeers_wf [of "ps_file s"] peer_jv_wf [of r] by (auto simp: list_all_iff)
  then have rd: "readPeerContainerStrict (ps_file s') = Inr peers" using res by simp
  have "peer_jv r \<in> set (filter ?h peers)" using p by (metis list.set_intros(1))
  then have "peer_jv r \<in> set peers" by simp
  moreover have "peers = [peer_jv r]" if "readPeerContainerStrict (ps_file s) \<in> range Inl"
  proof -
    have "?old = []" using that by (auto simp: listPeers_def readPeerContainerStrict_def split: peers_file.splits option.splits jv.splits if_splits)
    then show ?thesis by (simp add: peers_def)
  qed
  ultimately show ?thesis using res DiskOk p rd by auto
qed (use assms in \<open>auto simp: addPeer_def Let_def\<close>)

section \<open>An example\<close>

definition demo_peer :: peer_record where
  "demo_peer = \<lparr>pr_name = ''phone'', pr_remote_epk = b64_encode demo_key, pr_paired_at = []\<rparr>"

definition demo_file :: peers_file where
  "demo_file = Contents (peers_text [peer_jv demo_peer])"

lemma demo_read [simp]: "readPeerContainerStrict demo_file = Inr [peer_jv demo_peer]" "listPeers demo_file = [peer_jv demo_peer]"
  by (simp_all add: demo_file_def)

lemma demo_snapshot: "snapshotOwnerPubkeys (fresh_store demo_file) = (Inr [(JStr (b64_encode demo_key), 0)],
    \<lparr>ps_file = demo_file, ps_tokens = [(ownerSlotKey (JStr (b64_encode demo_key)), 0)], ps_next = 1\<rparr>)"
  by (simp add: snapshotOwnerPubkeys_def fresh_store_def owner_set_def raw_owner_def js_set_add_def tokenForSlot_def new_token_def peer_jv_def demo_peer_def)

text \<open>A pairing stored again after the snapshot, by this process and by another.\<close>

lemma stale_iff_owner_changed_witness:
  "fst (conditionalRemovePeer (b64_encode demo_key) (Some 0) (CheckSays True) DiskOk
     (run_ops [AddPeer demo_peer DiskOk] (snd (snapshotOwnerPubkeys (fresh_store demo_file))))) = Inr StaleToken \<and>
   (\<exists>t' s'. conditionalRemovePeer (b64_encode demo_key) (Some 0) (CheckSays True) DiskOk
      (run_ops [OtherProcess demo_file] (snd (snapshotOwnerPubkeys (fresh_store demo_file)))) = (Inr (Removed t'), s') \<and>
      readPeerContainerStrict (ps_file s') = Inr [])"
proof -
  let ?s = "snd (snapshotOwnerPubkeys (fresh_store demo_file))"
  have sn: "snapshotOwnerPubkeys (run_ops [] (fresh_store demo_file)) = (Inr [(JStr (b64_encode demo_key), 0)], ?s)"
    by (simp add: run_ops_def demo_snapshot)
  have m: "(JStr (b64_encode demo_key), 0) \<in> set [(JStr (b64_encode demo_key), 0 :: nat)]" by simp
  have here: "owner_changed_here (ownerSlotKey (JStr (b64_encode demo_key))) [AddPeer demo_peer DiskOk] ?s"
    by (simp add: addPeer_def Let_def demo_peer_def)
  have other: "\<not> owner_changed_here (ownerSlotKey (JStr (b64_encode demo_key))) [OtherProcess demo_file] ?s" by simp
  have f: "readPeerContainerStrict (ps_file (run_ops [OtherProcess demo_file] ?s)) = Inr [peer_jv demo_peer]" by (simp add: run_ops_def)
  have h: "handle_is (b64_encode demo_key) (peer_jv demo_peer)" by (simp add: demo_peer_def)
  note c = stale_iff_owner_changed [OF sn m]
  from c [of "CheckSays True" DiskOk "[AddPeer demo_peer DiskOk]"] here
  have 1: "fst (conditionalRemovePeer (b64_encode demo_key) (Some 0) (CheckSays True) DiskOk (run_ops [AddPeer demo_peer DiskOk] ?s)) = Inr StaleToken"
    by blast
  from c [of NoCheck DiskOk "[OtherProcess demo_file]"] other f h
  have "\<exists>t' s'. conditionalRemovePeer (b64_encode demo_key) (Some 0) (CheckSays True) DiskOk (run_ops [OtherProcess demo_file] ?s) = (Inr (Removed t'), s') \<and>
      readPeerContainerStrict (ps_file s') = Inr (filter (\<lambda>p. \<not> handle_is (b64_encode demo_key) p) [peer_jv demo_peer])"
    by (metis list.set_intros(1))
  with 1 h show ?thesis by simp
qed

lemma removal_exact_witness:
  "readPeerContainerStrict (ps_file (snd (conditionalRemovePeer (b64_encode demo_key) (Some 0) NoCheck DiskOk
     (snd (snapshotOwnerPubkeys (fresh_store demo_file)))))) = Inr []"
proof -
  let ?s = "snd (snapshotOwnerPubkeys (fresh_store demo_file))"
  obtain res s' where c: "conditionalRemovePeer (b64_encode demo_key) (Some 0) NoCheck DiskOk ?s = (res, s')" by fastforce
  have t: "tokenForSlot (ownerSlotKey (JStr (b64_encode demo_key))) ?s = (0, ?s)" by (simp add: demo_snapshot tokenForSlot_def)
  have f: "ps_file ?s = demo_file" by (simp add: demo_snapshot)
  have "\<exists>t. res = Inr (Removed t)"
    using c [unfolded conditionalRemovePeer_eq [OF t]] by (auto simp: f demo_peer_def)
  then show ?thesis using removal_exact [OF c] by (auto simp: f c demo_peer_def)
qed

text \<open>A file that cannot be read is replaced.\<close>

lemma pairing_stored_witness:
  "readPeerContainerStrict (ps_file (snd (addPeer demo_peer DiskOk (fresh_store CannotRead)))) = Inr [peer_jv demo_peer]"
proof -
  obtain res s' where c: "addPeer demo_peer DiskOk (fresh_store CannotRead) = (res, s')" by fastforce
  have "readPeerContainerStrict (ps_file (fresh_store CannotRead)) \<in> range Inl" by (simp add: fresh_store_def readPeerContainerStrict_def)
  then show ?thesis using pairing_stored [OF c] c by auto
qed

end
