(* ===== verification/PeerTrust.thy ===== *)
theory PeerTrust
  imports PeerStore
begin

text \<open>
  Who is trusted: \<^verbatim>\<open>extension/src/pairing/peer_trust.ts\<close>, the gate that this machine applies to a sender whom the
  relay has authenticated, and \<^verbatim>\<open>extension/src/pairing/signed_allow_list.ts\<close>, the list that it signs for the relay to apply.
  The results of \<open>inspectPeerRecord\<close> and \<open>findKnownPeer\<close> come with the lines they log. Signing is an argument.
\<close>

section \<open>Records\<close>

record inspected =
  ip_record :: peer_record
  ip_rawHandle :: string
  ip_runtimeKey :: "string option"

definition invalid_record_line :: "(byte list \<Rightarrow> byte list) \<Rightarrow> jv \<Rightarrow> string" where
  "invalid_record_line sha256 v = ''[un-bien] event=invalid_owner_record owner_fp='' @ rawOwnerFingerprint sha256 v"

definition str_or :: "string \<Rightarrow> jv \<Rightarrow> string" where
  "str_or fallback v = (case v of JStr s \<Rightarrow> s | _ \<Rightarrow> fallback)"

definition inspectPeerRecord :: "(byte list \<Rightarrow> byte list) \<Rightarrow> jv \<Rightarrow> inspected option \<times> string list" where
  "inspectPeerRecord sha256 record =
     (if \<not> is_objlike record then (None, [invalid_record_line sha256 record])
      else (case jget record ''remote_epk'' of
              JStr rawHandle \<Rightarrow>
                (let safe = \<lparr>pr_name = str_or ''Unknown Owner'' (jget record ''name''), pr_remote_epk = rawHandle,
                             pr_paired_at = str_or [] (jget record ''paired_at'')\<rparr>
                 in case canonicalizeEd25519PublicKey rawHandle ''stored Owner public key'' of
                      Inr runtimeKey \<Rightarrow> (Some \<lparr>ip_record = safe, ip_rawHandle = rawHandle, ip_runtimeKey = Some runtimeKey\<rparr>, [])
                    | Inl _ \<Rightarrow> (Some \<lparr>ip_record = safe, ip_rawHandle = rawHandle, ip_runtimeKey = None\<rparr>,
                               [invalid_record_line sha256 (JStr rawHandle)]))
            | other \<Rightarrow> (None, [invalid_record_line sha256 other])))"

definition runtimeOwnerFingerprint :: "(byte list \<Rightarrow> byte list) \<Rightarrow> string \<Rightarrow> string" where
  "runtimeOwnerFingerprint sha256 runtimeKey =
     (case decodeEd25519PublicKey runtimeKey ''Owner runtime key'' of
        Inr bytes \<Rightarrow> publicKeyFingerprint sha256 bytes
      | Inl _ \<Rightarrow> rawOwnerFingerprint sha256 (JStr runtimeKey))"

fun find_record :: "(byte list \<Rightarrow> byte list) \<Rightarrow> string \<Rightarrow> jv list \<Rightarrow> peer_record option \<times> string list" where
  "find_record sha256 runtimeKey [] = (None, [])"
| "find_record sha256 runtimeKey (record # records) =
     (let (found, log) = inspectPeerRecord sha256 record
      in case found of
           Some i \<Rightarrow>
             if ip_runtimeKey i = Some runtimeKey then (Some (ip_record i), log)
             else (let (r, log') = find_record sha256 runtimeKey records in (r, log @ log'))
         | None \<Rightarrow> (let (r, log') = find_record sha256 runtimeKey records in (r, log @ log')))"

definition findKnownPeer :: "(byte list \<Rightarrow> byte list) \<Rightarrow> string \<Rightarrow> peers_file \<Rightarrow> peer_record option \<times> string list" where
  "findKnownPeer sha256 appPeerId f =
     (case canonicalizeEd25519PublicKey appPeerId ''Relay Owner key'' of
        Inl _ \<Rightarrow> (None, [])
      | Inr runtimeKey \<Rightarrow> find_record sha256 runtimeKey (listPeers f))"

section \<open>The signed allow-list\<close>

definition allow_list_jv :: "string \<Rightarrow> string list \<Rightarrow> int \<Rightarrow> int \<Rightarrow> jv" where
  "allow_list_jv machine_pk owners version issued_at =
     JObj [(''machine_pk'', JStr machine_pk), (''owners'', JArr (map JStr owners)), (''version'', JInt version), (''issued_at'', JInt issued_at)]"

datatype sign_error = BadMachineKey key_error | NotCanonical

record signed_allow_list =
  sa_blob :: string
  sa_sig :: string

definition buildSignedAllowList :: "(byte list \<Rightarrow> byte list \<Rightarrow> byte list) \<Rightarrow> byte list \<times> byte list \<Rightarrow> string list \<Rightarrow> int \<Rightarrow> int
    \<Rightarrow> sign_error + signed_allow_list" where
  "buildSignedAllowList sign kp owners version now =
     (case encodeEd25519PublicKey (fst kp) ''machine_pk'' of
        Inl e \<Rightarrow> Inl (BadMachineKey e)
      | Inr machine_pk \<Rightarrow>
          (case canonicalBytes (allow_list_jv machine_pk owners version now) of
             None \<Rightarrow> Inl NotCanonical
           | Some blobBytes \<Rightarrow> Inr \<lparr>sa_blob = b64_encode blobBytes, sa_sig = b64_encode (sign (snd kp) blobBytes)\<rparr>))"

section \<open>Who is known\<close>

text \<open>A record of the owner with the key \<open>bs\<close>.\<close>

definition record_of :: "byte list \<Rightarrow> jv \<Rightarrow> bool" where
  "record_of bs p \<longleftrightarrow> (\<exists>raw. jget p ''remote_epk'' = JStr raw \<and> decodeEd25519PublicKey raw [] = Inr bs)"

lemma jget_objlike: "jget p k \<noteq> JUndef \<Longrightarrow> is_objlike p"
  by (cases p) auto

lemma canonicalize_cases:
  "canonicalizeEd25519PublicKey raw f = (case decodeEd25519PublicKey raw f of Inl e \<Rightarrow> Inl e | Inr bs \<Rightarrow> Inr (b64_encode bs))"
  by (auto simp: canonicalizeEd25519PublicKey_def encodeEd25519PublicKey_def ED25519_PUBLIC_KEY_BYTES_def
      split: sum.split dest: decode_only_spelling)

text \<open>The name of the field matters to the error alone.\<close>

lemma decode_any_field: "decodeEd25519PublicKey raw f = Inr bs \<longleftrightarrow> decodeEd25519PublicKey raw [] = Inr bs"
  using decode_only_spelling decode_spelling by metis

lemma canonicalize_Inr_iff: "canonicalizeEd25519PublicKey raw f = Inr c \<longleftrightarrow> (\<exists>bs. decodeEd25519PublicKey raw [] = Inr bs \<and> c = b64_encode bs)"
  unfolding canonicalize_cases decode_any_field [of raw f, symmetric] by (auto split: sum.split)

lemma decode_length: "decodeEd25519PublicKey raw f = Inr bs \<Longrightarrow> length bs = 32"
  using decode_only_spelling by blast

lemma b64_key_inj: "length a = 32 \<Longrightarrow> length b = 32 \<Longrightarrow> b64_encode a = b64_encode b \<longleftrightarrow> a = b"
  using kc.enc_inj [of a b] by (auto simp: key_ok_def)

lemma inspect_runtime:
  assumes "length bs = 32"
  shows "(\<exists>i. fst (inspectPeerRecord sha256 p) = Some i \<and> ip_runtimeKey i = Some (b64_encode bs)) \<longleftrightarrow> record_of bs p"
proof (cases "jget p ''remote_epk''")
  case (JStr raw)
  have o: "is_objlike p" using JStr by (intro jget_objlike [of p "''remote_epk''"]) simp
  have "canonicalizeEd25519PublicKey raw f = Inr (b64_encode bs) \<longleftrightarrow> decodeEd25519PublicKey raw [] = Inr bs" for f
    unfolding canonicalize_Inr_iff using assms decode_length b64_key_inj by blast
  then show ?thesis using JStr o by (auto simp: inspectPeerRecord_def record_of_def Let_def split: sum.split)
qed (auto simp: inspectPeerRecord_def record_of_def)

lemma find_record_known:
  assumes "length bs = 32"
  shows "fst (find_record sha256 (b64_encode bs) ps) =
     (case filter (record_of bs) ps of p # _ \<Rightarrow> map_option ip_record (fst (inspectPeerRecord sha256 p)) | [] \<Rightarrow> None)"
proof (induction ps)
  case (Cons p ps)
  obtain found log where i: "inspectPeerRecord sha256 p = (found, log)" by fastforce
  show ?case using Cons inspect_runtime [OF assms, of sha256 p]
    by (cases found) (auto simp: i split_def Let_def)
qed simp

lemma known_iff:
  assumes "decodeEd25519PublicKey app [] = Inr bs"
  shows "fst (findKnownPeer sha256 app f) \<noteq> None \<longleftrightarrow> (\<exists>p \<in> set (listPeers f). record_of bs p)"
proof -
  have l: "length bs = 32" using decode_length [OF assms] .
  have c: "canonicalizeEd25519PublicKey app g = Inr (b64_encode bs)" for g using canonicalize_Inr_iff assms by blast
  show ?thesis
  proof (cases "filter (record_of bs) (listPeers f)")
    case Nil
    then show ?thesis by (simp add: findKnownPeer_def c find_record_known [OF l] filter_empty_conv)
  next
    case (Cons p ps)
    then have p: "p \<in> set (listPeers f)" "record_of bs p" using filter_eq_ConsD by fastforce+
    then have "fst (inspectPeerRecord sha256 p) \<noteq> None" using inspect_runtime [OF l, of sha256 p] by auto
    then show ?thesis using Cons p by (auto simp: findKnownPeer_def c find_record_known [OF l])
  qed
qed

lemma allow_list_iff: "length bs = 32 \<Longrightarrow> b64_encode bs \<in> set (pairingAllowList ps) \<longleftrightarrow> (\<exists>p \<in> set ps. record_of bs p)"
proof -
  assume l: "length bs = 32"
  have "b64_encode bs \<in> set (case jget p ''remote_epk'' of
        JStr raw \<Rightarrow> (case canonicalizeEd25519PublicKey raw ''peer allow-list'' of Inr owner \<Rightarrow> [owner] | Inl _ \<Rightarrow> []) | _ \<Rightarrow> []) \<longleftrightarrow> record_of bs p" for p
  proof (cases "jget p ''remote_epk''")
    case (JStr raw)
    have "canonicalizeEd25519PublicKey raw f = Inr (b64_encode bs) \<longleftrightarrow> decodeEd25519PublicKey raw [] = Inr bs" for f
      unfolding canonicalize_Inr_iff using l decode_length b64_key_inj by blast
    from this [of "''peer allow-list''"] show ?thesis using JStr
      by (cases "canonicalizeEd25519PublicKey raw ''peer allow-list''") (auto simp: record_of_def)
  qed (auto simp: record_of_def)
  then show ?thesis by (auto simp: pairingAllowList_def)
qed

text \<open>The gate that this machine applies and the list that it signs for the relay are the same gate. Whatever the file of
  pairings holds, a sender is known exactly when the sender's key, in any of its spellings, is the key of a record, in any of
  its spellings, and that is when its canonical text is on the list; a text that is no key is never known.\<close>

theorem gates_agree:
  "(fst (findKnownPeer sha256 app f) \<noteq> None) \<longleftrightarrow>
     (\<exists>bs. decodeEd25519PublicKey app [] = Inr bs \<and> b64_encode bs \<in> set (pairingAllowList (listPeers f)) \<and>
        (\<exists>p \<in> set (listPeers f). \<exists>raw. jget p ''remote_epk'' = JStr raw \<and> decodeEd25519PublicKey raw [] = Inr bs))"
proof (cases "decodeEd25519PublicKey app []")
  case (Inr bs)
  then show ?thesis
    using known_iff [OF Inr] allow_list_iff [OF decode_length [OF Inr]] by (auto simp: record_of_def)
next
  case (Inl e)
  then have "\<nexists>bs. decodeEd25519PublicKey app ''Relay Owner key'' = Inr bs" using decode_any_field by (metis sum.distinct(1))
  then have "\<exists>e. canonicalizeEd25519PublicKey app ''Relay Owner key'' = Inl e" unfolding canonicalize_cases by (auto split: sum.split)
  then show ?thesis using Inl by (auto simp: findKnownPeer_def)
qed

section \<open>What is signed\<close>

lemma allow_list_wf: "wf_json (allow_list_jv pk owners version now)"
  by (simp add: allow_list_jv_def list_all_iff)

lemma canon_allow_list: "canon_jv (allow_list_jv pk owners version now) =
    JObj [(''issued_at'', JInt now), (''machine_pk'', JStr pk), (''owners'', JArr (map JStr owners)), (''version'', JInt version)]"
proof -
  have "u16_key ''issued_at'' < u16_key ''machine_pk''" "u16_key ''issued_at'' < u16_key ''owners''" "u16_key ''issued_at'' < u16_key ''version''"
    "u16_key ''machine_pk'' < u16_key ''owners''" "u16_key ''machine_pk'' < u16_key ''version''" "u16_key ''owners'' < u16_key ''version''"
    by code_simp+
  then have "sort_members [(''machine_pk'', a), (''owners'', b), (''version'', c), (''issued_at'', d)] =
      [(''issued_at'', d), (''machine_pk'', a), (''owners'', b), (''version'', c)]" for a b c d :: jv
    by (simp add: sort_members_def not_le less_imp_le)
  then show ?thesis by (simp add: allow_list_jv_def comp_def)
qed

text \<open>The list is signed as it is sent. It is built exactly when the machine's key has 32 bytes; the signature is over the very
  bytes of the blob, and these are JSON that parses to this machine's key, the owners of the pairings, one entry for each
  readable record in the order of the file, the version and the time, so that the relay can act on what it verified.\<close>

theorem allow_list_signed:
  "\<exists>body. buildSignedAllowList sign (pk, sk) (pairingAllowList peers) version now =
     (if length pk = 32 then Inr \<lparr>sa_blob = b64_encode (map char_byte body), sa_sig = b64_encode (sign sk (map char_byte body))\<rparr>
      else Inl (BadMachineKey (MeshPublicKeyError ''machine_pk'' (WrongLength (length pk))))) \<and>
     json_parse body = Some (JObj [(''issued_at'', JInt now), (''machine_pk'', JStr (b64_encode pk)),
       (''owners'', JArr (map JStr (pairingAllowList peers))), (''version'', JInt version)])"
proof (intro exI conjI)
  let ?v = "allow_list_jv (b64_encode pk) (pairingAllowList peers) version now"
  define body where "body = stringify (canon_jv ?v)"
  have c: "canonicalize ?v = Some body" unfolding body_def by (rule canonicalize_canon [OF allow_list_wf])
  have "json_parse body = Some (canon_jv ?v)"
    using json_round_trip [of "canon_jv ?v" "[]"] canon_wf [OF allow_list_wf] by (simp add: body_def)
  then show "json_parse body = Some (JObj [(''issued_at'', JInt now), (''machine_pk'', JStr (b64_encode pk)),
       (''owners'', JArr (map JStr (pairingAllowList peers))), (''version'', JInt version)])"
    unfolding canon_allow_list .
  show "buildSignedAllowList sign (pk, sk) (pairingAllowList peers) version now =
     (if length pk = 32 then Inr \<lparr>sa_blob = b64_encode (map char_byte body), sa_sig = b64_encode (sign sk (map char_byte body))\<rparr>
      else Inl (BadMachineKey (MeshPublicKeyError ''machine_pk'' (WrongLength (length pk)))))"
    by (simp add: buildSignedAllowList_def encodeEd25519PublicKey_def ED25519_PUBLIC_KEY_BYTES_def canonicalBytes_def c)
qed

end
