(* ===== verification/StoreRevoke.thy ===== *)
theory StoreRevoke
  imports PeerTrust RevokeRuns
begin

text \<open>
  The sweeps on the file of pairings: the revoker of \<^verbatim>\<open>mesh/self_revoke.ts\<close> with the storage of
  \<^verbatim>\<open>pairing/storage.ts\<close>, put together as \<^verbatim>\<open>commands/lifecycle.ts\<close> does, while nothing else happens in the process and
  the disk works. It shows what a sweep does to the file, as a function of what the owners have signed.
\<close>

text \<open>\<open>get\<close> is what the relay answers to the fetch of an owner's envelope, the callbacks say whether they
  return or throw.\<close>

definition store_env :: "(string \<Rightarrow> int option \<Rightarrow> rev_fetch) \<Rightarrow> nat \<Rightarrow> (string \<Rightarrow> string \<Rightarrow> bool) \<Rightarrow> (string list \<Rightarrow> bool) \<Rightarrow> (topology \<Rightarrow> bool)
    \<Rightarrow> (nat, store) rev_env" where
  "store_env get generation onRevoke onAuthoritativeOwners onTopologyChanged =
     \<lparr>re_snapshot = (\<lambda>w. case snapshotOwnerPubkeys w of (Inr records, w') \<Rightarrow> (Some records, 0, w') | (Inl _, w') \<Rightarrow> (None, 0, w')),
      re_get = (\<lambda>hash since w. (get hash since, 0, w)),
      re_remove = (\<lambda>raw token canCommit w. case conditionalRemovePeer raw token (CheckSays (canCommit generation)) DiskOk w of
         (Inr outcome, w') \<Rightarrow> (Some outcome, 0, w') | (Inl _, w') \<Rightarrow> (None, 0, w')),
      re_revoke = Some (\<lambda>raw canonical w. (onRevoke raw canonical, 0, w)),
      re_owners = Some (\<lambda>owners w. (onAuthoritativeOwners owners, 0, w)),
      re_topology = Some (\<lambda>t w. (onTopologyChanged t, 0, w)),
      re_yield = (\<lambda>w. (0, w))\<rparr>"

text \<open>The owner of a slot has, in the envelope now offered, signed a list without this machine, newer than the last one seen.\<close>

definition leaves_out :: "(byte list \<Rightarrow> byte list) \<Rightarrow> (byte list \<Rightarrow> byte list \<Rightarrow> byte list \<Rightarrow> bool) \<Rightarrow> (string \<Rightarrow> int option \<Rightarrow> rev_fetch)
    \<Rightarrow> byte list \<Rightarrow> int option \<Rightarrow> byte list \<Rightarrow> bool" where
  "leaves_out sha256 V get my floor owner \<longleftrightarrow>
     (case get (hex_bytes (sha256 owner)) floor of
        Got env \<Rightarrow>
          (case verifyEnvelope V env of
             Inr h \<Rightarrow> mh_ownerPk h = owner \<and> (\<forall>v. floor = Some v \<longrightarrow> v < mh_version h) \<and> \<not> listed my h
           | Inl _ \<Rightarrow> False)
      | _ \<Rightarrow> False)"

section \<open>Nothing else happens\<close>

lemma resume_zero [simp]: "resume 0 (sr_world r) r = r"
  by (simp add: resume_def)

lemma quiet_yield [simp]: "yield_to (store_env get gen a b c) r = r"
  by (simp add: yield_to_def store_env_def)

text \<open>What stays when only events are logged.\<close>

definition logged :: "('tok, 'w) revoker \<Rightarrow> ('tok, 'w) revoker \<Rightarrow> bool" where
  "logged r r' \<longleftrightarrow> (\<exists>es. r' = r\<lparr>sr_events := es\<rparr>)"

lemma logged_refl [simp]: "logged r r"
  unfolding logged_def by (rule exI [of _ "sr_events r"]) simp

lemma logged_event [simp]: "logged r (event e r)" "logged r (log_if g m r)"
  by (auto simp: logged_def event_def log_if_def intro: exI [of _ "sr_events r"])

lemma logged_trans: "logged a b \<Longrightarrow> logged b c \<Longrightarrow> logged a c"
  by (auto simp: logged_def)

lemma logged_call [simp]: "logged r (log_if g m (event e r))"
  by (rule logged_trans [OF logged_event(1) logged_event(2)])

lemma logged_same: "logged r r' \<Longrightarrow> sr_world r' = sr_world r \<and> sr_generation r' = sr_generation r \<and> sr_myPubkey r' = sr_myPubkey r \<and>
    sr_lastSeen r' = sr_lastSeen r \<and> sr_pending r' = sr_pending r \<and> sr_membership r' = sr_membership r"
  by (auto simp: logged_def)

lemma quiet_call: "resume 0 (sr_world r) (event e r) = event e r"
  by (simp add: resume_def event_def)

lemma quiet_callback: "logged r (invokeRevokeCallback (store_env get gen a b c) raw owner fp g r)"
  by (simp add: invokeRevokeCallback_def store_env_def quiet_call split_def Let_def)

lemma quiet_owners: "logged r (announce_owners (store_env get gen a b c) owners g r)"
  by (simp add: announce_owners_def store_env_def quiet_call split_def Let_def)

section \<open>Removing the handles of an owner\<close>

text \<open>A slot of the table of tokens holds the token expected for each handle.\<close>

definition removes :: "string list \<Rightarrow> string \<Rightarrow> jv list \<Rightarrow> store \<Rightarrow> store \<Rightarrow> bool" where
  "removes raws slot ps w w' \<longleftrightarrow>
     readPeerContainerStrict (ps_file w') = Inr (filter (\<lambda>p. \<forall>raw \<in> set raws. \<not> handle_is raw p) ps) \<and> store_ok w' \<and>
     (\<forall>k. k \<noteq> slot \<longrightarrow> mget (ps_tokens w') k = mget (ps_tokens w) k)"

lemma remove_one:
  assumes "store_ok w" and "readPeerContainerStrict (ps_file w) = Inr ps"
    and "mget (ps_tokens w) (ownerSlotKey (JStr raw)) = Some t"
  obtains out t' w' where "conditionalRemovePeer raw (Some t) (CheckSays True) DiskOk w = (Inr out, w')"
    "removes [raw] (ownerSlotKey (JStr raw)) ps w w'" "mget (ps_tokens w') (ownerSlotKey (JStr raw)) = Some t'"
    "out = Removed t' \<or> out = NoSuchPeer \<and> t' = t"
proof -
  let ?slot = "ownerSlotKey (JStr raw)" and ?ps = "filter (\<lambda>p. \<not> handle_is raw p) ps"
  have tok: "tokenForSlot ?slot w = (t, w)" using assms(3) by (simp add: tokenForSlot_def)
  show ?thesis
  proof (cases "list_all (\<lambda>p. \<not> handle_is raw p) ps")
    case True
    then have "?ps = ps" by (simp add: list_all_iff)
    moreover have "conditionalRemovePeer raw (Some t) (CheckSays True) DiskOk w = (Inr NoSuchPeer, w)"
      unfolding conditionalRemovePeer_eq [OF tok] using assms(2) True by simp
    ultimately show ?thesis using that [of NoSuchPeer w t] assms by (simp add: removes_def)
  next
    case False
    let ?w1 = "w\<lparr>ps_file := Contents (peers_text ?ps)\<rparr>"
    obtain t' w' where n: "new_token ?slot ?w1 = (t', w')" by fastforce
    have m: "mget (ps_tokens w') = (mget (ps_tokens ?w1))(?slot \<mapsto> t')" "store_ok w'" "t' = ps_next ?w1"
      using new_token_moves [OF _ n] assms(1) by simp_all
    have "conditionalRemovePeer raw (Some t) (CheckSays True) DiskOk w = (Inr (Removed t'), w')"
      unfolding conditionalRemovePeer_eq [OF tok] using assms(2) False n m(3) by simp
    moreover have "removes [raw] ?slot ps w w'"
      using m new_token_file [OF n] strict_list [OF assms(2)] by (simp add: removes_def)
    ultimately show ?thesis using that [of "Removed t'" w' t'] m by simp
  qed
qed

lemma removes_trans:
  assumes "removes raws slot ps w w1" and "removes raws' slot (filter (\<lambda>p. \<forall>raw \<in> set raws. \<not> handle_is raw p) ps) w1 w2"
  shows "removes (raws @ raws') slot ps w w2"
  using assms unfolding removes_def by (auto simp: conj_ac intro: filter_cong)

lemma mget_renew: "mget (map (\<lambda>(k, _). (k, t)) m) k = (if mhas m k then Some t else None)"
  by (induction m) (auto simp: mhas_def)

text \<open>A handle that waits for removal: it belongs to the slot, and its token is the current one.\<close>

definition due :: "string \<Rightarrow> (string, nat) jsmap \<Rightarrow> store \<Rightarrow> string \<Rightarrow> bool" where
  "due slot tokens w raw \<longleftrightarrow> ownerSlotKey (JStr raw) = slot \<and>
     (\<exists>t. mget tokens raw = Some t \<and> mget (ps_tokens w) slot = Some t)"

lemma quiet_retry_handles:
  assumes "sr_generation r = g" and "store_ok (sr_world r)" and "readPeerContainerStrict (ps_file (sr_world r)) = Inr ps"
    and "\<forall>raw \<in> set raws. due K (pd_tokens p) (sr_world r) raw" and "distinct raws"
  shows "\<exists>p' r'. retry_handles (store_env get g a b c) slot g raws p r = (None, p', r') \<and> sr_generation r' = g \<and>
     removes raws K ps (sr_world r) (sr_world r') \<and> mkeys (pd_tokens p') = filter (\<lambda>k. k \<notin> set raws) (mkeys (pd_tokens p))"
  using assms
proof (induction raws arbitrary: p r ps)
  case Nil
  then show ?case by (simp add: removes_def)
next
  case (Cons raw raws)
  let ?E = "store_env get g a b c" and ?w = "sr_world r" and ?ps = "filter (\<lambda>p. \<not> handle_is raw p) ps"
  obtain t where t: "mget (pd_tokens p) raw = Some t" "mget (ps_tokens ?w) K = Some t" "ownerSlotKey (JStr raw) = K"
    using Cons.prems(4) by (auto simp: due_def)
  obtain out t' w' where rm: "conditionalRemovePeer raw (Some t) (CheckSays True) DiskOk ?w = (Inr out, w')"
      "removes [raw] K ps ?w w'" "mget (ps_tokens w') K = Some t'" "out = Removed t' \<or> out = NoSuchPeer \<and> t' = t"
    using remove_one [OF Cons.prems(2,3)] t(2,3) by blast
  define r1 where "r1 = resume 0 w' (event (AskRemove (sr_generation r) raw (rs_canonical slot)) r)"
  define p2 where "p2 = p\<lparr>pd_tokens := (case out of Removed token \<Rightarrow> map (\<lambda>(k, _). (k, token)) (mdel raw (pd_tokens p)) | _ \<Rightarrow> mdel raw (pd_tokens p))\<rparr>"
  have t2: "mget (pd_tokens p2) k = Some t'" if "mget (pd_tokens p) k = Some t" "k \<noteq> raw" for k
    using rm(4) that by (auto simp: p2_def mget_renew mhas_def)
  have k2: "mkeys (pd_tokens p2) = filter (\<lambda>x. x \<noteq> raw) (mkeys (pd_tokens p))"
    using rm(4) mkeys_renew [of t' "mdel raw (pd_tokens p)"] mkeys_delete [of raw "pd_tokens p"] by (auto simp: p2_def)
  define r2 where "r2 = r1\<lparr>sr_pending := mput (rs_canonical slot) p2 (sr_pending r1)\<rparr>"
  define r3 where "r3 = invokeRevokeCallback ?E raw (rs_canonical slot) (pd_fingerprint p2) g r2"
  have "logged r2 r3" unfolding r3_def by (rule quiet_callback)
  from logged_same [OF this] have w3: "sr_world r3 = w'" "sr_generation r3 = g"
    using Cons.prems(1) by (auto simp: r2_def r1_def resume_def event_def)
  have eq: "retry_handles ?E slot g (raw # raws) p r = retry_handles ?E slot g raws p2 r3"
  proof -
    have "re_remove ?E raw (mget (pd_tokens p) raw) (\<lambda>current. g = current) ?w = (Some out, 0, w')"
      using rm(1) t(1) by (simp add: store_env_def)
    moreover have "\<not> is_StaleToken out" "\<not> is_NoAuthority out" using rm(4) by auto
    moreover have "hasAuthority g r" "hasAuthority g r1" "hasAuthority g r3"
      using Cons.prems(1) w3(2) by (simp_all add: hasAuthority_def r1_def resume_def event_def)
    ultimately show ?thesis
      by (simp only: retry_handles.simps Let_def prod.case option.case r1_def [symmetric] p2_def [symmetric] r2_def [symmetric]
        quiet_yield r3_def [symmetric] not_True_eq_False if_False simp_thms)
  qed
  have rd: "readPeerContainerStrict (ps_file (sr_world r3)) = Inr ?ps" "store_ok (sr_world r3)"
    using rm(2) w3(1) by (simp_all add: removes_def)
  have "due K (pd_tokens p2) (sr_world r3) raw'" if "raw' \<in> set raws" for raw'
  proof -
    have "raw' \<noteq> raw" using that Cons.prems(5) by auto
    moreover have "due K (pd_tokens p) ?w raw'" using Cons.prems(4) that by simp
    ultimately show ?thesis using rm(3) w3(1) t(2) t2 by (auto simp: due_def)
  qed
  then have du: "\<forall>raw' \<in> set raws. due K (pd_tokens p2) (sr_world r3) raw'" by blast
  obtain p' r' where ih: "retry_handles ?E slot g raws p2 r3 = (None, p', r')" "sr_generation r' = g"
      "removes raws K ?ps (sr_world r3) (sr_world r')" "mkeys (pd_tokens p') = filter (\<lambda>k. k \<notin> set raws) (mkeys (pd_tokens p2))"
    using Cons.IH [OF w3(2) rd(2,1) du] Cons.prems(5) by auto
  have "removes ([raw] @ raws) K ps ?w (sr_world r')"
    by (rule removes_trans [where ?w1.0 = w']) (use rm(2) ih(3) w3(1) in simp_all)
  moreover have "mkeys (pd_tokens p') = filter (\<lambda>k. k \<notin> set (raw # raws)) (mkeys (pd_tokens p))"
    using ih(4) k2 by (auto simp: conj_ac intro: filter_cong)
  ultimately show ?case using eq ih(1,2) by auto
qed

text \<open>The revocation of an owner takes its handles out of the file, and nothing is left pending.\<close>

lemma quiet_retryPending:
  assumes "sr_generation r = g" and "store_ok (sr_world r)" and "readPeerContainerStrict (ps_file (sr_world r)) = Inr ps"
    and "mget (sr_pending r) (rs_canonical slot) = Some p" and "distinct (mkeys (pd_tokens p))"
    and "\<forall>raw \<in> set (mkeys (pd_tokens p)). due K (pd_tokens p) (sr_world r) raw"
  shows "\<exists>r'. retryPending (store_env get g a b c) slot g r = (False, r') \<and> sr_generation r' = g \<and>
     removes (mkeys (pd_tokens p)) K ps (sr_world r) (sr_world r') \<and> mget (sr_pending r') (rs_canonical slot) = None"
proof -
  obtain p' r' where h: "retry_handles (store_env get g a b c) slot g (mkeys (pd_tokens p)) p r = (None, p', r')" "sr_generation r' = g"
      "removes (mkeys (pd_tokens p)) K ps (sr_world r) (sr_world r')" "mkeys (pd_tokens p') = filter (\<lambda>k. k \<notin> set (mkeys (pd_tokens p))) (mkeys (pd_tokens p))"
    using quiet_retry_handles [OF assms(1,2,3,6,5)] by blast
  have "mkeys (pd_tokens p') = []" using h(4) by (simp add: filter_empty_conv)
  then have "pd_tokens p' = []" by simp
  then show ?thesis using h assms(4) by (simp add: retryPending_def)
qed

section \<open>One owner\<close>

text \<open>A slot whose handles have current tokens.\<close>

definition slot_due :: "store \<Rightarrow> nat rev_slot \<Rightarrow> bool" where
  "slot_due w s \<longleftrightarrow> distinct (mkeys (rs_raws s)) \<and>
     (\<forall>raw \<in> set (mkeys (rs_raws s)). due (''owner:'' @ rs_canonical s) (rs_raws s) w raw)"

definition slot_raws :: "nat rev_slot \<Rightarrow> string list" where
  "slot_raws s = mkeys (rs_raws s)"

lemma fold_put_fresh: "distinct (mkeys (m @ xs)) \<Longrightarrow> fold (\<lambda>(k, t). mput k t) xs m = m @ xs"
  by (rule mk_obj_append)

text \<open>What handling an owner does: either nothing to the file, or all handles of the owner go.\<close>

definition handled :: "bool \<Rightarrow> nat rev_slot \<Rightarrow> jv list \<Rightarrow> (nat, store) revoker \<Rightarrow> (nat, store) revoker \<Rightarrow> bool" where
  "handled out s ps r r' \<longleftrightarrow> sr_generation r' = sr_generation r \<and> mget (sr_pending r') (rs_canonical s) = None \<and>
     (if out then removes (slot_raws s) (''owner:'' @ rs_canonical s) ps (sr_world r) (sr_world r') else sr_world r' = sr_world r)"

lemma handled_logged: "logged r r' \<Longrightarrow> mget (sr_pending r) (rs_canonical s) = None \<Longrightarrow> handled False s ps r r'"
  using logged_same [of r r'] by (simp add: handled_def)

lemma quiet_accept:
  assumes "sr_generation r = g" and "store_ok (sr_world r)" and "readPeerContainerStrict (ps_file (sr_world r)) = Inr ps"
    and "slot_due (sr_world r) s" and "mget (sr_pending r) (rs_canonical s) = None"
  shows "\<exists>r'. accept_header (store_env get g a b c) s g since h r = (False, r') \<and> handled (\<not> listed (sr_myPubkey r) h) s ps r r'"
proof (cases "listed (sr_myPubkey r) h")
  case True
  then show ?thesis using assms(1,5) by (simp add: accept_header_def Let_def hasAuthority_def header_lists handled_def)
next
  case False
  let ?E = "store_env get g a b c" and ?o = "rs_canonical s"
  define p where "p = \<lparr>pd_version = mh_version h, pd_previous = mget (sr_lastSeen r) ?o, pd_fingerprint = rs_fingerprint s,
      pd_tokens = fold (\<lambda>(k, t). mput k t) (rs_raws s) []\<rparr>"
  define r1 where "r1 = r\<lparr>sr_lastSeen := mput ?o (mh_version h) (sr_lastSeen r), sr_membership := mdel ?o (sr_membership r),
      sr_pending := mput ?o p (sr_pending r)\<rparr>"
  define r2 where "r2 = event (LogLine (fp_line ''self_revoked'' (rs_fingerprint s) @ '' received_version='' @ show_int (mh_version h) @
      '' since='' @ show_since since @ '' member_count='' @ show_nat (length (mh_members h)))) r1"
  have d: "distinct (mkeys (rs_raws s))" using assms(4) by (simp add: slot_due_def)
  then have t: "pd_tokens p = rs_raws s" using fold_put_fresh [of "[]" "rs_raws s"] by (simp add: p_def)
  have r2: "sr_generation r2 = g" "sr_world r2 = sr_world r" "mget (sr_pending r2) ?o = Some p"
    using assms(1) by (simp_all add: r2_def event_def r1_def)
  obtain r' where r': "retryPending ?E s g r2 = (False, r')" "sr_generation r' = g"
      "removes (mkeys (pd_tokens p)) (''owner:'' @ ?o) ps (sr_world r2) (sr_world r')" "mget (sr_pending r') ?o = None"
    using quiet_retryPending [OF r2(1) _ _ r2(3)] assms(2,3,4) r2(2) t d by (metis slot_due_def)
  have "accept_header ?E s g since h r = (False, r')"
    using False assms(1) r'(1) by (simp add: accept_header_def Let_def hasAuthority_def header_lists r2_def r1_def p_def)
  then show ?thesis using False r' r2(2) assms(1) t by (auto simp: handled_def slot_raws_def)
qed

text \<open>The handling of an owner in a sweep: the handles go exactly when the owner has left this machine out.\<close>

lemma quiet_check:
  assumes "sr_generation r = g" and "store_ok (sr_world r)" and "readPeerContainerStrict (ps_file (sr_world r)) = Inr ps"
    and "slot_due (sr_world r) s" and "mget (sr_pending r) (rs_canonical s) = None"
  shows "\<exists>r'. checkOwnerSlot sha256 V (store_env get g a b c) s g r = (False, r') \<and>
     handled (leaves_out sha256 V get (sr_myPubkey r) (mget (sr_lastSeen r) (rs_canonical s)) (rs_ownerPk s)) s ps r r'"
proof -
  let ?E = "store_env get g a b c" and ?o = "rs_canonical s" and ?since = "mget (sr_lastSeen r) (rs_canonical s)"
  have getE: "re_get ?E h0 since w = (get h0 since, 0, w)" for h0 since w by (simp add: store_env_def)
  have auth: "hasAuthority g r" using assms(1) by (simp add: hasAuthority_def)
  have retry: "retryPending ?E s g r' = (False, r')" if "mget (sr_pending r') ?o = None" for r'
    using that by (simp add: retryPending_def)
  have line: "handled False s ps r (event (LogLine m) r)" for m using handled_logged [OF logged_event(1) assms(5)] .
  have drop: "handled False s ps r (event (LogLine m) (drop_membership ?o r))" for m
    using assms(5) by (simp add: handled_def event_def drop_membership_def)
  have pend: "mget (sr_pending (event (LogLine m) r)) ?o = None" "mget (sr_pending (event (LogLine m) (drop_membership ?o r))) ?o = None" for m
    using assms(5) by (simp_all add: event_def drop_membership_def)
  show ?thesis
  proof (cases "get (hex_bytes (sha256 (rs_ownerPk s))) ?since")
    case (Got env)
    show ?thesis
    proof (cases "verifyEnvelope V env")
      case (Inl e)
      then show ?thesis using Got auth drop retry [OF pend(2)]
        by (simp add: checkOwnerSlot_def getE Let_def leaves_out_def)
    next
      case (Inr h)
      consider (other) "mh_ownerPk h \<noteq> rs_ownerPk s" | (old) v where "mh_ownerPk h = rs_ownerPk s" "?since = Some v" "mh_version h \<le> v"
        | (new) "mh_ownerPk h = rs_ownerPk s" "\<forall>v. ?since = Some v \<longrightarrow> v < mh_version h" by fastforce
      then show ?thesis
      proof cases
        case other
        then show ?thesis using Got Inr auth drop retry [OF pend(2)] by (simp add: checkOwnerSlot_def getE Let_def leaves_out_def)
      next
        case old
        then show ?thesis using Got Inr auth line retry [OF pend(1)] by (simp add: checkOwnerSlot_def getE Let_def leaves_out_def)
      next
        case new
        have "checkOwnerSlot sha256 V ?E s g r = accept_header ?E s g ?since h r"
          using Got Inr auth new by (cases ?since) (auto simp: checkOwnerSlot_def getE Let_def)
        moreover have "leaves_out sha256 V get (sr_myPubkey r) ?since (rs_ownerPk s) = (\<not> listed (sr_myPubkey r) h)"
          using Got Inr new by (simp add: leaves_out_def)
        ultimately show ?thesis using quiet_accept [OF assms] by simp
      qed
    qed
  next
    case GotNothing
    then show ?thesis using auth retry [OF assms(5)] handled_logged [OF logged_refl assms(5)]
      by (simp add: checkOwnerSlot_def getE Let_def leaves_out_def)
  qed (use auth retry [OF assms(5)] line drop in \<open>simp_all add: checkOwnerSlot_def getE Let_def leaves_out_def\<close>)
qed

section \<open>All owners\<close>

definition slot_out :: "(byte list \<Rightarrow> byte list) \<Rightarrow> (byte list \<Rightarrow> byte list \<Rightarrow> byte list \<Rightarrow> bool) \<Rightarrow> (string \<Rightarrow> int option \<Rightarrow> rev_fetch)
    \<Rightarrow> (nat, store) revoker \<Rightarrow> nat rev_slot \<Rightarrow> bool" where
  "slot_out sha256 V get r s \<longleftrightarrow> leaves_out sha256 V get (sr_myPubkey r) (mget (sr_lastSeen r) (rs_canonical s)) (rs_ownerPk s)"

text \<open>Handling one owner leaves the tokens of the others, and what is known of them.\<close>

lemma slot_due_after:
  assumes "slot_due w s'" and "rs_canonical s' \<noteq> rs_canonical s" and "removes raws (''owner:'' @ rs_canonical s) ps w w'"
  shows "slot_due w' s'"
  using assms by (auto simp: slot_due_def due_def removes_def)

lemma handled_world:
  assumes "handled out s ps r r'" and "store_ok (sr_world r)" and "readPeerContainerStrict (ps_file (sr_world r)) = Inr ps"
  shows "store_ok (sr_world r')" and "readPeerContainerStrict (ps_file (sr_world r')) = Inr (filter (\<lambda>p. out \<longrightarrow> (\<forall>raw \<in> set (slot_raws s). \<not> handle_is raw p)) ps)"
    and "slot_due (sr_world r) s' \<Longrightarrow> rs_canonical s' \<noteq> rs_canonical s \<Longrightarrow> slot_due (sr_world r') s'"
  using assms slot_due_after [of "sr_world r" s' s] by (auto simp: handled_def removes_def split: if_splits)

lemma quiet_slots:
  assumes "rev_inv V r" and "sr_generation r = g" and "store_ok (sr_world r)" and "readPeerContainerStrict (ps_file (sr_world r)) = Inr ps"
    and "\<forall>s \<in> set slots. slot_due (sr_world r) s \<and> slot_good s \<and> mget (sr_pending r) (rs_canonical s) = None"
    and "distinct (map rs_canonical slots)"
  shows "\<exists>r'. check_slots sha256 V (store_env get g a b c) slots g r = (True, r') \<and> sr_generation r' = g \<and>
     readPeerContainerStrict (ps_file (sr_world r')) =
       Inr (filter (\<lambda>p. \<forall>s \<in> set slots. slot_out sha256 V get r s \<longrightarrow> (\<forall>raw \<in> set (slot_raws s). \<not> handle_is raw p)) ps)"
  using assms
proof (induction slots arbitrary: r ps)
  case (Cons s slots)
  let ?E = "store_env get g a b c" and ?out = "slot_out sha256 V get r s"
  let ?ps = "filter (\<lambda>p. ?out \<longrightarrow> (\<forall>raw \<in> set (slot_raws s). \<not> handle_is raw p)) ps"
  have s: "slot_due (sr_world r) s" "slot_good s" "mget (sr_pending r) (rs_canonical s) = None" using Cons.prems(5) by simp_all
  obtain r1 where r1: "checkOwnerSlot sha256 V ?E s g r = (False, r1)" "handled ?out s ps r r1"
    using quiet_check [OF Cons.prems(2,3,4) s(1,3)] unfolding slot_out_def by blast
  note w = handled_world [OF r1(2) Cons.prems(3,4)]
  have part: "part V (rs_canonical s) g False r r1" by (rule part_check [OF r1(1) s(2)])
  have inv: "rev_inv V r1" "sr_myPubkey r1 = sr_myPubkey r" using part_sweeps [OF part] Cons.prems(1) by (simp_all add: sweeps_def)
  have look: "look r1 o' = look r o'" if "o' \<noteq> rs_canonical s" for o'
    using part Cons.prems(1) that by (auto simp: part_def rev_inv_def frame_def)
  have g1: "sr_generation r1 = g" using r1(2) Cons.prems(2) by (simp add: handled_def)
  have ne: "rs_canonical s' \<noteq> rs_canonical s" if "s' \<in> set slots" for s' using Cons.prems(6) that by (auto simp: rev_image_eqI)
  have "slot_due (sr_world r1) s' \<and> slot_good s' \<and> mget (sr_pending r1) (rs_canonical s') = None" if "s' \<in> set slots" for s'
    using w(3) [OF _ ne [OF that]] look [OF ne [OF that]] Cons.prems(5) that by (simp add: look_def)
  then have all: "\<forall>s' \<in> set slots. slot_due (sr_world r1) s' \<and> slot_good s' \<and> mget (sr_pending r1) (rs_canonical s') = None" by blast
  obtain r' where r': "check_slots sha256 V ?E slots g r1 = (True, r')" "sr_generation r' = g"
      "readPeerContainerStrict (ps_file (sr_world r')) =
         Inr (filter (\<lambda>p. \<forall>s \<in> set slots. slot_out sha256 V get r1 s \<longrightarrow> (\<forall>raw \<in> set (slot_raws s). \<not> handle_is raw p)) ?ps)"
    using Cons.IH [OF inv(1) g1 w(1,2) all] Cons.prems(6) by auto
  have "slot_out sha256 V get r1 s' = slot_out sha256 V get r s'" if "s' \<in> set slots" for s'
    using look [OF ne [OF that]] inv(2) by (simp add: slot_out_def look_def)
  then have "readPeerContainerStrict (ps_file (sr_world r')) =
      Inr (filter (\<lambda>p. \<forall>s \<in> set (s # slots). slot_out sha256 V get r s \<longrightarrow> (\<forall>raw \<in> set (slot_raws s). \<not> handle_is raw p)) ps)"
    using r'(3) by (auto intro: filter_cong)
  then show ?case using r1(1) r'(1,2) g1 by (simp add: hasAuthority_def)
qed simp

section \<open>The slots of a snapshot\<close>

text \<open>Each readable handle of the records is in the slot of its key, and each slot has nothing else.\<close>

definition slots_of :: "(jv \<times> 'tok) list \<Rightarrow> (string, (string, 'tok) jsmap) jsmap \<Rightarrow> bool" where
  "slots_of seen handles \<longleftrightarrow>
     (\<forall>c hs. mget handles c = Some hs \<longrightarrow> mwf hs \<and> (\<forall>raw t. mget hs raw = Some t \<longrightarrow> (JStr raw, t) \<in> set seen)) \<and>
     (\<forall>raw t bs. (JStr raw, t) \<in> set seen \<longrightarrow> decodeEd25519PublicKey raw ''Owner record'' = Inr bs \<longrightarrow>
        (\<exists>hs. mget handles (b64_encode bs) = Some hs \<and> mhas hs raw))"

lemma collect_slots_of:
  assumes "slots_of seen handles" and "collect_owner sha256 rec (handles, bytes, log) = (handles', bytes', log')"
  shows "slots_of (seen @ [rec]) handles'"
proof -
  obtain v t where rec: "rec = (v, t)" by fastforce
  consider (skip) "handles' = handles" "\<And>raw bs. v = JStr raw \<Longrightarrow> decodeEd25519PublicKey raw ''Owner record'' \<noteq> Inr bs"
    | (put) raw bs where "v = JStr raw" "decodeEd25519PublicKey raw ''Owner record'' = Inr bs"
        "handles' = mput (b64_encode bs) (mput raw t (case mget handles (b64_encode bs) of Some hs \<Rightarrow> hs | None \<Rightarrow> [])) handles"
  proof (cases "\<exists>raw. v = JStr raw")
    case True
    then obtain raw where JStr: "v = JStr raw" by blast
    show ?thesis
    proof (cases "decodeEd25519PublicKey raw ''Owner record''")
      case (Inl e)
      then have "handles' = handles" using assms(2) JStr rec by (simp add: collect_owner_def)
      then show ?thesis by (rule skip) (use JStr Inl in auto)
    next
      case (Inr bs)
      then have "encodeEd25519PublicKey bs ''public key'' = Inr (b64_encode bs)"
        using decode_length by (simp add: encodeEd25519PublicKey_def ED25519_PUBLIC_KEY_BYTES_def)
      then show ?thesis using assms(2) JStr rec Inr put by (simp add: collect_owner_def Let_def)
    qed
  next
    case False
    then have "handles' = handles" using assms(2) rec by (cases v) (simp_all add: collect_owner_def)
    then show ?thesis by (rule skip) (use False in blast)
  qed
  then show ?thesis
  proof cases
    case skip
    then show ?thesis using assms(1) rec by (auto simp: slots_of_def)
  next
    case put
    have h: "mwf hs \<and> (\<forall>raw t. mget hs raw = Some t \<longrightarrow> (JStr raw, t) \<in> set seen)" if "mget handles c = Some hs" for c hs
      using assms(1) that by (simp add: slots_of_def)
    have k: "\<exists>hs. mget handles (b64_encode bs') = Some hs \<and> mhas hs raw'"
      if "(JStr raw', t') \<in> set seen" "decodeEd25519PublicKey raw' ''Owner record'' = Inr bs'" for raw' t' bs'
      using assms(1) that unfolding slots_of_def by blast
    show ?thesis unfolding slots_of_def
    proof (intro conjI allI impI)
      fix c hs
      assume hs: "mget handles' c = Some hs"
      then show "mwf hs" using h put(3) mwf_put [OF mwf_Nil, of raw t] by (auto split: if_splits option.splits)
      fix raw' t'
      assume "mget hs raw' = Some t'"
      then show "(JStr raw', t') \<in> set (seen @ [rec])" using hs h put rec by (auto split: if_splits option.splits)
    next
      fix raw' t' bs'
      assume m: "(JStr raw', t') \<in> set (seen @ [rec])" "decodeEd25519PublicKey raw' ''Owner record'' = Inr bs'"
      show "\<exists>hs. mget handles' (b64_encode bs') = Some hs \<and> mhas hs raw'"
      proof (cases "b64_encode bs' = b64_encode bs")
        case True
        then show ?thesis using m k [of raw' t' bs'] put rec by (auto simp: mhas_def split: option.splits)
      next
        case False
        then have "(JStr raw', t') \<in> set seen" using m put(1,2) rec by auto
        then show ?thesis using k m(2) False put(3) by simp
      qed
    qed
  qed
qed

lemma fold_slots_of: "fold (collect_owner sha256) recs (handles, bytes, log) = (handles', bytes', log') \<Longrightarrow> slots_of seen handles \<Longrightarrow>
    slots_of (seen @ recs) handles'"
proof (induction recs arbitrary: seen handles bytes log)
  case (Cons rec recs)
  obtain h b l where c: "collect_owner sha256 rec (handles, bytes, log) = (h, b, l)" using prod_cases3 by blast
  have "slots_of ((seen @ [rec]) @ recs) handles'"
    using Cons.IH [of h b l "seen @ [rec]"] Cons.prems collect_slots_of [OF Cons.prems(2) c] c by simp
  then show ?case by simp
qed simp

lemma slot_key_length:
  assumes "canonical_slots sha256 records = (slots, log)" and "s \<in> set slots"
  shows "length (rs_ownerPk s) = 32"
proof -
  have "\<forall>c k. mget bytes c = Some k \<longrightarrow> length k = 32"
    if "fold (collect_owner sha256) recs (h0, b0, l0) = (handles, bytes, l)" "\<forall>c k. mget b0 c = Some k \<longrightarrow> length k = 32" for recs h0 b0 l0 handles bytes l
    using that
  proof (induction recs arbitrary: h0 b0 l0)
    case (Cons rec recs)
    obtain h b l' where c: "collect_owner sha256 rec (h0, b0, l0) = (h, b, l')" using prod_cases3 by blast
    have "\<forall>c k. mget b c = Some k \<longrightarrow> length k = 32"
      using c Cons.prems(2) by (auto simp: collect_owner_def Let_def dest: decode_length split: jv.splits sum.splits if_splits)
    then show ?case using Cons.IH Cons.prems(1) c by auto
  qed auto
  note len = this
  obtain handles bytes l where st: "fold (collect_owner sha256) records ([], [], []) = (handles, bytes, l)" using prod_cases3 by blast
  have b: "length k = 32" if "mget bytes c = Some k" for c k using len [OF st] that by simp
  have "slots_inv (fold (collect_owner sha256) records st)" if "slots_inv st" for st
    using that by (induction records arbitrary: st) (simp_all add: collect_inv)
  moreover have "slots_inv ([], [], [])" by (simp add: slots_inv_def mhas_def)
  ultimately have i: "slots_inv (handles, bytes, l)" unfolding st [symmetric] by blast
  obtain c hs where c: "(c, hs) \<in> set handles" "rs_ownerPk s = the (mget bytes c)"
    using assms st by (auto simp: canonical_slots_def Let_def)
  then have "mget handles c = Some hs" using i by (auto simp: slots_inv_def mwf_mget)
  then have "mhas bytes c" using i by (simp add: slots_inv_def mhas_def)
  then show ?thesis using b c(2) by (auto simp: mhas_def)
qed

lemma canonical_slots_content:
  assumes "canonical_slots sha256 records = (slots, log)"
  shows "distinct (map rs_canonical slots)"
    and "s \<in> set slots \<Longrightarrow> distinct (mkeys (rs_raws s)) \<and> (\<forall>raw t. mget (rs_raws s) raw = Some t \<longrightarrow> (JStr raw, t) \<in> set records)"
    and "(JStr raw, t) \<in> set records \<Longrightarrow> decodeEd25519PublicKey raw ''Owner record'' = Inr bs \<Longrightarrow>
      \<exists>s \<in> set slots. rs_canonical s = b64_encode bs \<and> raw \<in> set (slot_raws s)"
proof -
  obtain handles bytes l where st: "fold (collect_owner sha256) records ([], [], []) = (handles, bytes, l)" using prod_cases3 by blast
  have so: "slots_of records handles" using fold_slots_of [OF st, of "[]"] by (simp add: slots_of_def)
  have "slots_inv (fold (collect_owner sha256) records st)" if "slots_inv st" for st
    using that by (induction records arbitrary: st) (simp_all add: collect_inv)
  moreover have "slots_inv ([], [], [])" by (simp add: slots_inv_def mhas_def)
  ultimately have i: "slots_inv (handles, bytes, l)" unfolding st [symmetric] by blast
  have wf: "mwf handles" using i by (simp add: slots_inv_def)
  have sl: "slots = map (\<lambda>(canonical, hs). \<lparr>rs_canonical = canonical, rs_raws = sort_members hs, rs_ownerPk = the (mget bytes canonical),
      rs_fingerprint = publicKeyFingerprint sha256 (the (mget bytes canonical))\<rparr>) (sort_members handles)"
    using assms st by (simp add: canonical_slots_def Let_def split_def)
  have keys: "map rs_canonical slots = mkeys (sort_members handles)" unfolding sl by (induction "sort_members handles") auto
  show "distinct (map rs_canonical slots)" unfolding keys using wf by (intro sort_members_keys) (simp add: mwf_def)
  have get_sort: "mget (sort_members m) k = mget m k" if "mwf m" for m :: "(string, 'a) jsmap" and k
    using that sort_members_keys [of m] map_of_inject_set [of "sort_members m" m] by (simp add: mwf_def)
  have hs: "mwf hs \<and> (\<forall>raw t. mget hs raw = Some t \<longrightarrow> (JStr raw, t) \<in> set records)" if "(c, hs) \<in> set handles" for c hs
    using so that wf by (auto simp: slots_of_def mwf_mget)
  show "distinct (mkeys (rs_raws s)) \<and> (\<forall>raw t. mget (rs_raws s) raw = Some t \<longrightarrow> (JStr raw, t) \<in> set records)" if "s \<in> set slots"
  proof -
    have "\<exists>c hs'. (c, hs') \<in> set handles \<and> rs_raws s = sort_members hs'" using that unfolding sl by fastforce
    then obtain c hs' where "(c, hs') \<in> set handles" "rs_raws s = sort_members hs'" by blast
    then show ?thesis using hs [of c hs'] get_sort [of hs'] sort_members_keys [of hs'] by (simp add: mwf_def)
  qed
  show "\<exists>s \<in> set slots. rs_canonical s = b64_encode bs \<and> raw \<in> set (slot_raws s)"
    if r: "(JStr raw, t) \<in> set records" "decodeEd25519PublicKey raw ''Owner record'' = Inr bs"
  proof -
    obtain hs' where h: "mget handles (b64_encode bs) = Some hs'" "mhas hs' raw" using so r unfolding slots_of_def by blast
    then have "(b64_encode bs, hs') \<in> set (sort_members handles)" by (simp add: map_of_SomeD)
    moreover have "raw \<in> fst ` set (sort_members hs')" using h(2) by (simp add: mhas_keys)
    ultimately show ?thesis unfolding sl slot_raws_def by force
  qed
qed

section \<open>A sweep\<close>

lemma owner_set_raw: "handle_is raw p \<Longrightarrow> p \<in> set ps \<Longrightarrow> JStr raw \<in> set (owner_set ps)"
proof -
  assume h: "handle_is raw p" "p \<in> set ps"
  have mono: "v \<in> set acc \<Longrightarrow> v \<in> set (fold (\<lambda>p. js_set_add (raw_owner p)) qs acc)" for v qs acc
    by (induction qs arbitrary: acc) (simp_all add: js_set_add_def)
  have "JStr raw \<in> set (fold (\<lambda>p. js_set_add (raw_owner p)) qs acc)" if "p \<in> set qs" for qs acc
    using that
  proof (induction qs arbitrary: acc)
    case (Cons q qs)
    show ?case
    proof (cases "q = p")
      case True
      have "raw_owner p = JStr raw" using h(1) by (simp add: raw_owner_def handle_is_def)
      then have "JStr raw \<in> set (js_set_add (raw_owner q) acc)" using True by (auto simp: js_set_add_def)
      then show ?thesis using mono by simp
    qed (use Cons in auto)
  qed simp
  then show ?thesis using h(2) by (simp add: owner_set_def)
qed

lemma token_all_covers: "token_all vs s = (records, s') \<Longrightarrow> v \<in> set vs \<Longrightarrow> \<exists>t. (v, t) \<in> set records"
proof (induction vs arbitrary: s records s')
  case (Cons w vs)
  obtain t s1 rest s2 where "tokenForSlot (ownerSlotKey w) s = (t, s1)" "token_all vs s1 = (rest, s2)" by fastforce
  then show ?case using Cons.IH [of s1 rest s2] Cons.prems by auto
qed simp

lemma token_all_file: "token_all vs s = (records, s') \<Longrightarrow> ps_file s' = ps_file s"
proof (induction vs arbitrary: s records s')
  case (Cons w vs)
  obtain t s1 rest s2 where t: "tokenForSlot (ownerSlotKey w) s = (t, s1)" "token_all vs s1 = (rest, s2)" by fastforce
  then show ?case using Cons.IH [OF t(2)] Cons.prems tokenForSlot_file [OF t(1)] by auto
qed simp

lemma owner_slot_key: "decodeEd25519PublicKey raw f = Inr bs \<Longrightarrow> ownerSlotKey (JStr raw) = ''owner:'' @ b64_encode bs"
  using canonicalize_Inr_iff [of raw "''Owner record''" "b64_encode bs"] decode_any_field [of raw f bs] by (simp add: ownerSlotKey_def)

text \<open>After the snapshot, every slot of it has the current tokens.\<close>

lemma snapshot_slots:
  assumes "store_ok w" and "snapshotOwnerPubkeys w = (Inr records, w')" and "canonical_slots sha256 records = (slots, log)" and "s \<in> set slots"
  shows "slot_due w' s \<and> slot_good s"
proof -
  obtain ps where "token_all (owner_set ps) w = (records, w')"
    using assms(2) by (auto simp: snapshotOwnerPubkeys_def split: sum.splits prod.splits)
  note ta = token_all_records [OF assms(1) this]
  have good: "slot_good s" using canonical_slots_good [of s sha256 records] assms(3,4) by simp
  note c = canonical_slots_content(2) [OF assms(3,4)]
  have "due (''owner:'' @ rs_canonical s) (rs_raws s) w' raw" if m: "raw \<in> set (mkeys (rs_raws s))" for raw
  proof -
    obtain t where t: "mget (rs_raws s) raw = Some t" using m jm.has_iff [of "rs_raws s" raw] by auto
    have "handle_of raw (rs_canonical s)" using good m unfolding slot_good_def set_map by blast
    then obtain bs where "decodeEd25519PublicKey raw ''Owner record'' = Inr bs" "b64_encode bs = rs_canonical s"
      by (auto simp: handle_of_def split: sum.splits)
    then have k: "ownerSlotKey (JStr raw) = ''owner:'' @ rs_canonical s" using owner_slot_key [of raw "''Owner record''" bs] by simp
    have "(JStr raw, t) \<in> set records" using c t by blast
    from ta [OF this] show ?thesis using t k by (simp add: due_def)
  qed
  then show ?thesis using good c unfolding slot_due_def by blast
qed

lemma prune_quiet:
  assumes "sr_pending r = []"
  shows "sr_world (pruneStateNotIn E slots g r) = sr_world r" "sr_generation (pruneStateNotIn E slots g r) = sr_generation r"
    "sr_pending (pruneStateNotIn E slots g r) = []" "sr_myPubkey (pruneStateNotIn E slots g r) = sr_myPubkey r"
    "s \<in> set slots \<Longrightarrow> mget (sr_lastSeen (pruneStateNotIn E slots g r)) (rs_canonical s) = mget (sr_lastSeen r) (rs_canonical s)"
proof -
  have e: "pruneStateNotIn E slots g r = r\<lparr>sr_membership := filter (\<lambda>p. fst p \<in> set (map rs_canonical slots)) (sr_membership r),
      sr_lastSeen := filter (\<lambda>p. fst p \<in> set (map rs_canonical slots)) (sr_lastSeen r)\<rparr>"
    using assms by (simp add: pruneStateNotIn_def mhas_def)
  show "sr_world (pruneStateNotIn E slots g r) = sr_world r" "sr_generation (pruneStateNotIn E slots g r) = sr_generation r"
    "sr_pending (pruneStateNotIn E slots g r) = []" "sr_myPubkey (pruneStateNotIn E slots g r) = sr_myPubkey r"
    unfolding e using assms by simp_all
  show "mget (sr_lastSeen (pruneStateNotIn E slots g r)) (rs_canonical s) = mget (sr_lastSeen r) (rs_canonical s)" if "s \<in> set slots"
    unfolding e using that by (simp add: mget_filter [of "\<lambda>o'. o' \<in> rs_canonical ` set slots"])
qed

lemma publish_world: "publish_current (store_env get gen a b c) g r = (e, r') \<Longrightarrow> sr_world r' = sr_world r"
proof -
  assume p: "publish_current (store_env get gen a b c) g r = (e, r')"
  have "sr_world (publishTopology (store_env get gen a b c) t g r) = sr_world r" for t
    using logged_same [OF logged_call] by (auto simp: publishTopology_def store_env_def quiet_call Let_def split_def)
      (simp_all add: event_def)
  then show ?thesis using p by (auto simp: publish_current_def split: sum.splits)
qed

lemma logged_lines: "logged r (fold (\<lambda>line. event (LogLine line)) log r) \<and> sweeps V g r (fold (\<lambda>line. event (LogLine line)) log r)"
proof (induction log arbitrary: r)
  case (Cons line log)
  then show ?case using logged_trans [OF logged_event(1)] sweeps_trans [OF sweeps_simps(3)] by fastforce
qed simp


lemma sweep_world:
  assumes "rev_inv V r" and "sr_pending r = []" and "store_ok (sr_world r)"
    and "readPeerContainerStrict (ps_file (sr_world r)) = Inr peers"
    and "runSweep sha256 V (store_env get (sr_generation r) a b c) (sr_generation r) r = (e, r')"
  obtains records w slots log where "snapshotOwnerPubkeys (sr_world r) = (Inr records, w)"
    "token_all (owner_set peers) (sr_world r) = (records, w)" "canonical_slots sha256 records = (slots, log)"
    "readPeerContainerStrict (ps_file (sr_world r')) =
       Inr (filter (\<lambda>p. \<forall>s \<in> set slots. slot_out sha256 V get r s \<longrightarrow> (\<forall>raw \<in> set (slot_raws s). \<not> handle_is raw p)) peers)"
proof -
  let ?g = "sr_generation r" and ?E = "store_env get (sr_generation r) a b c"
  obtain records w where ta: "token_all (owner_set peers) (sr_world r) = (records, w)" by fastforce
  then have sn: "snapshotOwnerPubkeys (sr_world r) = (Inr records, w)" using assms(4) by (simp add: snapshotOwnerPubkeys_def)
  obtain slots log where cs: "canonical_slots sha256 records = (slots, log)" by fastforce
  define r1 where "r1 = resume 0 w r"
  define r2 where "r2 = fold (\<lambda>line. event (LogLine line)) log r1"
  define r3 where "r3 = announce_owners ?E (map rs_canonical slots) ?g r2"
  define r4 where "r4 = pruneStateNotIn ?E slots ?g r3"
  have w: "store_ok w" "ps_file w = ps_file (sr_world r)" using token_all_file [OF ta] token_step_all [OF ta] assms(3) by (simp_all add: token_step_def)
  have r1: "sr_world r1 = w" "sr_generation r1 = ?g" "sr_pending r1 = []" "sr_lastSeen r1 = sr_lastSeen r" "sr_myPubkey r1 = sr_myPubkey r"
    using assms(2) by (simp_all add: r1_def resume_def)
  have l2: "logged r1 r2" "sweeps V ?g r1 r2" unfolding r2_def using logged_lines by blast+
  have l3: "logged r2 r3" unfolding r3_def by (rule quiet_owners)
  note same3 = logged_same [OF logged_trans [OF l2(1) l3]]
  have g2: "hasAuthority ?g r2" "hasAuthority ?g r3" using logged_same [OF l2(1)] same3 r1 by (simp_all add: hasAuthority_def)
  have s3: "sweeps V ?g r2 r3" unfolding r3_def by (rule announce_sweeps [OF g2(1)])
  have "sweeps V ?g r r1" unfolding r1_def by (rule sweeps_simps)
  from sweeps_trans [OF sweeps_trans [OF this l2(2)] sweeps_trans [OF s3 prune_sweeps]]
  have inv4: "rev_inv V r4" using assms(1) unfolding r4_def sweeps_def by blast
  have p3: "sr_pending r3 = []" using same3 r1 by simp
  note pr = prune_quiet [OF p3, where E = ?E and slots = slots and g = ?g, folded r4_def]
  have w4: "sr_world r4 = w" "sr_generation r4 = ?g" using pr same3 r1 by simp_all
  have rd4: "store_ok (sr_world r4)" "readPeerContainerStrict (ps_file (sr_world r4)) = Inr peers" using w w4 assms(4) by simp_all
  have "\<forall>s \<in> set slots. slot_due (sr_world r4) s \<and> slot_good s \<and> mget (sr_pending r4) (rs_canonical s) = None"
    using snapshot_slots [OF assms(3) sn cs] w4 pr by simp
  from quiet_slots [OF inv4 w4(2) rd4 this canonical_slots_content(1) [OF cs], of sha256 get a b c]
  obtain r5 where r5: "check_slots sha256 V ?E slots ?g r4 = (True, r5)"
      "readPeerContainerStrict (ps_file (sr_world r5)) =
         Inr (filter (\<lambda>p. \<forall>s \<in> set slots. slot_out sha256 V get r4 s \<longrightarrow> (\<forall>raw \<in> set (slot_raws s). \<not> handle_is raw p)) peers)" by blast
  have "slot_out sha256 V get r4 s = slot_out sha256 V get r s" if "s \<in> set slots" for s
    using that pr same3 r1 by (simp add: slot_out_def)
  then have out: "filter (\<lambda>p. \<forall>s \<in> set slots. slot_out sha256 V get r4 s \<longrightarrow> (\<forall>raw \<in> set (slot_raws s). \<not> handle_is raw p)) peers =
      filter (\<lambda>p. \<forall>s \<in> set slots. slot_out sha256 V get r s \<longrightarrow> (\<forall>raw \<in> set (slot_raws s). \<not> handle_is raw p)) peers"
    by (auto intro: filter_cong)
  have "hasAuthority ?g r1" "hasAuthority ?g r4" using r1 w4 by (simp_all add: hasAuthority_def)
  moreover have "re_snapshot ?E (sr_world r) = (Some records, 0, w)" using sn by (simp add: store_env_def)
  ultimately have "runSweep sha256 V ?E ?g r = publish_current ?E ?g r5"
    using cs g2 r5(1) by (simp add: runSweep_def Let_def r1_def [symmetric] r2_def [symmetric] r3_def [symmetric] r4_def [symmetric])
  then have "sr_world r' = sr_world r5" using publish_world assms(5) by metis
  then show ?thesis using that [OF sn ta cs] r5(2) out by simp
qed

text \<open>C21: what a sweep does to the pairings. In any state of the revoker that a run can reach, with no revocation left over and no sweep in
  flight, and any history of the file, a sweep that nothing disturbs removes exactly the records of those owners whose
  envelope, as the relay now offers it, verifies under their own key, is newer than the last one accepted from them and does not
  list this machine. All other records, also the unreadable ones, stay as they are and in order; afterwards a sender with the key of such an owner
  is unknown, and one with the key of another is known if it was before.\<close>

theorem sweep_revokes_exactly:
  assumes "revoker_reachable sha256 V my r" and "sr_pending r = []" and "\<not> sr_inflight r"
    and "sr_world r = run_ops ops (fresh_store f)" and "readPeerContainerStrict (ps_file (sr_world r)) = Inr peers"
    and "checkOnce sha256 V (store_env get (sr_generation r) a b c) r = (e, r')"
  shows "readPeerContainerStrict (ps_file (sr_world r')) =
       Inr (filter (\<lambda>p. \<not> (\<exists>bs. record_of bs p \<and> leaves_out sha256 V get my (mget (sr_lastSeen r) (b64_encode bs)) bs)) peers) \<and>
     (\<forall>app key. decodeEd25519PublicKey app [] = Inr key \<longrightarrow>
       (fst (findKnownPeer sha256 app (ps_file (sr_world r'))) \<noteq> None \<longleftrightarrow>
         fst (findKnownPeer sha256 app (ps_file (sr_world r))) \<noteq> None \<and> \<not> leaves_out sha256 V get my (mget (sr_lastSeen r) (b64_encode key)) key))"
proof -
  let ?E = "store_env get (sr_generation r) a b c" and ?r0 = "r\<lparr>sr_inflight := True\<rparr>"
  let ?out = "\<lambda>bs. leaves_out sha256 V get my (mget (sr_lastSeen r) (b64_encode bs)) bs"
  note inv = revoker_reachable_inv [OF assms(1)]
  have ok: "store_ok (sr_world ?r0)" using run_ops_ok [of ops f] assms(4) by simp
  have inv0: "rev_inv V ?r0" "sr_myPubkey ?r0 = my" using inv sweeps_previous(2) [of V "sr_generation r" r True] by (simp_all add: sweeps_def)
  obtain r1 where r1: "runSweep sha256 V ?E (sr_generation r) ?r0 = (e, r1)" "sr_world r' = sr_world r1"
    using assms(3,6) by (auto simp: checkOnce_def split: prod.splits)
  obtain records w slots log where sw: "snapshotOwnerPubkeys (sr_world ?r0) = (Inr records, w)"
    "token_all (owner_set peers) (sr_world ?r0) = (records, w)" "canonical_slots sha256 records = (slots, log)"
    "readPeerContainerStrict (ps_file (sr_world r1)) =
       Inr (filter (\<lambda>p. \<forall>s \<in> set slots. slot_out sha256 V get ?r0 s \<longrightarrow> (\<forall>raw \<in> set (slot_raws s). \<not> handle_is raw p)) peers)"
    by (rule sweep_world [OF inv0(1) _ ok, of peers sha256 get a b c e r1]) (use assms(2,5) r1(1) in simp_all)
  have "(\<forall>s \<in> set slots. slot_out sha256 V get ?r0 s \<longrightarrow> (\<forall>raw \<in> set (slot_raws s). \<not> handle_is raw p)) \<longleftrightarrow> \<not> (\<exists>bs. record_of bs p \<and> ?out bs)"
    if p: "p \<in> set peers" for p
  proof -
    have "s \<in> set slots \<and> slot_out sha256 V get ?r0 s \<and> raw \<in> set (slot_raws s) \<and> handle_is raw p \<Longrightarrow> record_of (rs_ownerPk s) p \<and> ?out (rs_ownerPk s)" for s raw
    proof -
      assume h: "s \<in> set slots \<and> slot_out sha256 V get ?r0 s \<and> raw \<in> set (slot_raws s) \<and> handle_is raw p"
      have g: "slot_good s" using snapshot_slots [OF ok sw(1,3)] h by blast
      then have "handle_of raw (rs_canonical s)" using h g unfolding slot_good_def slot_raws_def set_map by blast
      then obtain bs where bs: "decodeEd25519PublicKey raw ''Owner record'' = Inr bs" "b64_encode bs = b64_encode (rs_ownerPk s)"
        using g by (auto simp: handle_of_def slot_good_def split: sum.splits)
      have "length (rs_ownerPk s) = 32" using slot_key_length [OF sw(3)] h by blast
      then have "bs = rs_ownerPk s" using bs decode_length b64_key_inj by metis
      then have "decodeEd25519PublicKey raw [] = Inr (rs_ownerPk s)" using bs(1) decode_any_field by metis
      then show "record_of (rs_ownerPk s) p \<and> ?out (rs_ownerPk s)" using h g inv0(2) by (auto simp: record_of_def handle_is_def slot_out_def slot_good_def)
    qed
    moreover have "\<exists>s raw. s \<in> set slots \<and> slot_out sha256 V get ?r0 s \<and> raw \<in> set (slot_raws s) \<and> handle_is raw p" if ro: "record_of bs p" "?out bs" for bs
    proof -
      obtain raw where raw: "jget p ''remote_epk'' = JStr raw" "decodeEd25519PublicKey raw [] = Inr bs" using ro(1) by (auto simp: record_of_def)
      then have hp: "handle_is raw p" using jget_objlike [of p "''remote_epk''"] by (simp add: handle_is_def)
      obtain t where t: "(JStr raw, t) \<in> set records" using token_all_covers [OF sw(2) owner_set_raw [OF hp p]] by blast
      have dr: "decodeEd25519PublicKey raw ''Owner record'' = Inr bs" using raw(2) decode_any_field by metis
      obtain s where s: "s \<in> set slots" "rs_canonical s = b64_encode bs" "raw \<in> set (slot_raws s)"
        using canonical_slots_content(3) [OF sw(3) t dr] by blast
      have "slot_good s" using snapshot_slots [OF ok sw(1,3)] s by blast
      moreover have "length (rs_ownerPk s) = 32" using slot_key_length [OF sw(3)] s by blast
      ultimately have "rs_ownerPk s = bs" using s(2) decode_length [OF raw(2)] b64_key_inj by (simp add: slot_good_def)
      then have "slot_out sha256 V get ?r0 s" using ro(2) s(2) inv0(2) by (simp add: slot_out_def)
      then show ?thesis using s hp by blast
    qed
    ultimately show ?thesis by blast
  qed
  then have same: "filter (\<lambda>p. \<forall>s \<in> set slots. slot_out sha256 V get ?r0 s \<longrightarrow> (\<forall>raw \<in> set (slot_raws s). \<not> handle_is raw p)) peers =
      filter (\<lambda>p. \<not> (\<exists>bs. record_of bs p \<and> ?out bs)) peers" by (rule filter_cong [OF refl])
  have fl: "readPeerContainerStrict (ps_file (sr_world r')) = Inr (filter (\<lambda>p. \<not> (\<exists>bs. record_of bs p \<and> ?out bs)) peers)"
    using sw(4) unfolding r1(2) same .
  have "record_of key p \<Longrightarrow> record_of bs p \<Longrightarrow> bs = key" for key bs p by (auto simp: record_of_def)
  then have "fst (findKnownPeer sha256 app (ps_file (sr_world r'))) \<noteq> None \<longleftrightarrow>
      fst (findKnownPeer sha256 app (ps_file (sr_world r))) \<noteq> None \<and> \<not> ?out key" if "decodeEd25519PublicKey app [] = Inr key" for app key
    unfolding known_iff [OF that] using strict_list [OF fl] strict_list [OF assms(5)] by auto
  then show ?thesis using fl by blast
qed


text \<open>A machine paired with the owner \<open>demo_key\<close>, whose signed list does not have it.\<close>

definition paired_start :: "(nat, store) revoker" where
  "paired_start = \<lparr>sr_myPubkey = demo_key, sr_lastSeen = [], sr_pending = [], sr_membership = [], sr_previous = None,
     sr_inflight = False, sr_timer = False, sr_generation = 0, sr_events = [],
     sr_world = run_ops [] (fresh_store demo_file)\<rparr>"

lemma sweep_revokes_exactly_witness:
  "readPeerContainerStrict (ps_file (sr_world (snd (checkOnce id accept_key
     (store_env (\<lambda>_ _. Got net_env) 0 (\<lambda>_ _. True) (\<lambda>_. True) (\<lambda>_. True)) paired_start)))) = Inr []"
proof -
  let ?peer = "peer_jv demo_peer"
  have reach: "revoker_reachable id accept_key demo_key paired_start"
    by (rule init [where w = "sr_world paired_start"])
      (simp add: new_revoker_def paired_start_def encodeEd25519PublicKey_def ED25519_PUBLIC_KEY_BYTES_def demo_key_def)
  have len: "length demo_key = 32" by (simp add: demo_key_def)
  have dec: "decodeEd25519PublicKey (b64_encode demo_key) [] = Inr demo_key" by (rule decode_spelling [OF len b64_encode_spelling [OF len]])
  have ro: "record_of bs ?peer \<longleftrightarrow> bs = demo_key" for bs by (auto simp: record_of_def peer_jv_def demo_peer_def dec)
  have out: "leaves_out id accept_key (\<lambda>_ _. Got net_env) demo_key None demo_key"
    using net_lists(2) by (simp add: leaves_out_def net_verified) (simp add: net_header_def)
  obtain e r' where c: "checkOnce id accept_key (store_env (\<lambda>_ _. Got net_env) (sr_generation paired_start) (\<lambda>_ _. True) (\<lambda>_. True) (\<lambda>_. True)) paired_start = (e, r')"
    by fastforce
  have rd: "readPeerContainerStrict (ps_file (sr_world paired_start)) = Inr [?peer]"
    by (simp add: paired_start_def run_ops_def fresh_store_def)
  note sweep_revokes_exactly [OF reach _ _ _ rd c, of "[]"]
  then have "readPeerContainerStrict (ps_file (sr_world r')) =
      Inr (filter (\<lambda>p. \<not> (\<exists>bs. record_of bs p \<and> leaves_out id accept_key (\<lambda>_ _. Got net_env) demo_key (mget (sr_lastSeen paired_start) (b64_encode bs)) bs)) [?peer])"
    by (simp add: paired_start_def)
  then show ?thesis using c out ro by (simp add: paired_start_def)
qed

end
