(* ===== verification/Channel.thy ===== *)
theory Channel
  imports Mesh
begin

text \<open>
  The frames between an agent and a phone: \<^verbatim>\<open>extension/src/transport/peer_channel.ts\<close>, the predicate and the
  handshake of \<^verbatim>\<open>session/rpc_envelope.ts\<close>, the capabilities of \<^verbatim>\<open>session/capabilities.ts\<close>.

  The relay carries one JSON object per line with the members \<^verbatim>\<open>peer\<close> and \<^verbatim>\<open>ct\<close>, both strings (it writes them itself, see
  \<^verbatim>\<open>relay/src/protocol/outer.rs\<close>). \<^verbatim>\<open>ct\<close> is the Base64 text of the JSON text of a message.
  \<open>from_base64\<close> is \<^verbatim>\<open>Buffer.from(s, "base64")\<close> on any text: it takes both alphabets, skips
  other characters and stops at a padding character. \<open>buffer_text\<close> is \<^verbatim>\<open>toString("utf8")\<close>.
\<close>

section \<open>Base64 of texts\<close>

definition from_base64 :: "string \<Rightarrow> byte list" where
  "from_base64 s = b64_decode (filter b64_ok (to_std (takeWhile (\<lambda>c. c \<noteq> CHR ''='') s)))"

definition buffer_text :: "byte list \<Rightarrow> string" where
  "buffer_text bs = utf8_run 0 128 191 [] (map (\<lambda>b. char_of (unat b)) bs)"

definition to_base64 :: "string \<Rightarrow> string" where
  "to_base64 s = b64_encode (map char_byte s)"

section \<open>Planes\<close>

definition ENVELOPE_KIND :: string where "ENVELOPE_KIND = ''env''"
definition UB_KIND :: string where "UB_KIND = ''ub''"
definition RPC_KIND :: string where "RPC_KIND = ''rpc''"
definition EVT_KIND :: string where "EVT_KIND = ''evt''"
definition HELLO_KIND :: string where "HELLO_KIND = ''hello''"

definition isEnvelopeFrame :: "jv \<Rightarrow> bool" where
  "isEnvelopeFrame obj \<longleftrightarrow>
     jget obj ''type'' = JStr RPC_KIND \<or> jget obj ''type'' = JStr EVT_KIND \<or> jget obj ''type'' = JStr UB_KIND \<or>
     jget obj ''type'' = JStr ENVELOPE_KIND \<or>
     jget obj ''rpc'' \<noteq> JUndef \<or> jget obj ''evt'' \<noteq> JUndef \<or> jget obj ''ub'' \<noteq> JUndef"

definition BASE_CAPABILITIES :: "string list" where
  "BASE_CAPABILITIES = [''thinking'', ''models'', ''cancel'', ''queued_messages'', ''images'', ''tool_result_images'', ''panels'',
     ''rpc_envelope'']"

text \<open>The two flags are the effective settings of the local configuration.\<close>

definition sessionCapabilities :: "bool \<Rightarrow> bool \<Rightarrow> string list" where
  "sessionCapabilities launch terminate =
     BASE_CAPABILITIES @ (if launch then [''remote_launch''] else []) @ (if terminate then [''remote_terminate''] else [])"

definition helloEnvelope :: "string list \<Rightarrow> string option \<Rightarrow> jv" where
  "helloEnvelope caps sessionId =
     JObj [(''type'', JStr UB_KIND), (''protocolVersion'', JInt 1),
           (''ub'', JObj ([(''type'', JStr HELLO_KIND), (''caps'', JArr (map JStr caps))] @
              (case sessionId of Some (c # r) \<Rightarrow> [(''sessionId'', JStr (c # r))] | _ \<Rightarrow> [])))]"

section \<open>Sending\<close>

definition outer_line :: "string \<Rightarrow> string option \<Rightarrow> jv \<Rightarrow> string" where
  "outer_line peer room msg =
     stringify (JObj ([(''peer'', JStr peer)] @ (case room of Some r \<Rightarrow> [(''room'', JStr r)] | None \<Rightarrow> []) @
       [(''ct'', JStr (to_base64 (stringify msg)))]))"

definition outer_room :: "bool \<Rightarrow> string option \<Rightarrow> string option" where
  "outer_room includeRoomInOuter myRoomId = (if includeRoomInOuter then myRoomId else None)"

text \<open>The lines written: \<open>open\<close> says whether the socket of the relay is open; \<open>relay.send\<close> throws otherwise, which the
  channel swallows.\<close>

definition channel_send :: "bool \<Rightarrow> bool \<Rightarrow> string option \<Rightarrow> string \<Rightarrow> jv \<Rightarrow> string list" where
  "channel_send is_open includeRoom myRoomId peer msg =
     (if is_open then [outer_line peer (outer_room includeRoom myRoomId) msg] else [])"

definition nullish :: "jv \<Rightarrow> jv \<Rightarrow> jv" where
  "nullish v w = (if v = JUndef \<or> v = JNull then w else v)"

definition plane_stamp :: "jv \<Rightarrow> string" where
  "plane_stamp env =
     (if jget env ''ub'' = JUndef then (if jget env ''evt'' = JUndef then RPC_KIND else EVT_KIND) else UB_KIND)"

fun members :: "jv \<Rightarrow> (string \<times> jv) list" where
  "members (JObj kvs) = kvs"
| "members _ = []"

definition stamped :: "int \<Rightarrow> string option \<Rightarrow> jv \<Rightarrow> jv" where
  "stamped now sid env =
     JObj (mput ''sessionId'' (nullish (jget env ''sessionId'') (case sid of Some x \<Rightarrow> JStr x | None \<Rightarrow> JUndef))
       (mput ''ts'' (nullish (jget env ''ts'') (JInt now))
         (mput ''type'' (nullish (jget env ''type'') (JStr (plane_stamp env))) (members env))))"

definition envelopeLine :: "bool \<Rightarrow> string option \<Rightarrow> string \<Rightarrow> int \<Rightarrow> string option \<Rightarrow> jv \<Rightarrow> string" where
  "envelopeLine includeRoom myRoomId peer now sid env = outer_line peer (outer_room includeRoom myRoomId) (stamped now sid env)"

definition sendEnvelope :: "bool \<Rightarrow> bool \<Rightarrow> string option \<Rightarrow> string \<Rightarrow> int \<Rightarrow> string option \<Rightarrow> jv \<Rightarrow> string list" where
  "sendEnvelope is_open includeRoom myRoomId peer now sid env =
     (if is_open then [envelopeLine includeRoom myRoomId peer now sid env] else [])"

section \<open>Receiving\<close>

text \<open>What a line is: no JSON; \<^verbatim>\<open>null\<close>, whose members cannot be read; an object without the two texts; or a frame.\<close>

datatype outer = NoFrame | NullFrame | Frame string string

definition read_outer :: "string \<Rightarrow> outer" where
  "read_outer line =
     (case json_parse line of
        None \<Rightarrow> NoFrame
      | Some JNull \<Rightarrow> NullFrame
      | Some v \<Rightarrow> (case (jget v ''peer'', jget v ''ct'') of
            (JStr (p # ps), JStr (c # cs)) \<Rightarrow> Frame (p # ps) (c # cs)
          | _ \<Rightarrow> NoFrame))"

definition read_inner :: "string \<Rightarrow> jv option" where
  "read_inner ct = json_parse (buffer_text (from_base64 ct))"

datatype dispatch = Ignored | Thrown | ToPlanes jv | ToStock jv

definition onLine :: "string \<Rightarrow> string \<Rightarrow> dispatch" where
  "onLine remotePeerId line =
     (case read_outer line of
        NoFrame \<Rightarrow> Ignored
      | NullFrame \<Rightarrow> Thrown
      | Frame peer ct \<Rightarrow>
          if peer \<noteq> remotePeerId then Ignored
          else (case read_inner ct of
                  None \<Rightarrow> Ignored
                | Some msg \<Rightarrow>
                    if \<not> is_objlike msg then Ignored
                    else if isEnvelopeFrame msg then ToPlanes msg
                    else (case jget msg ''type'' of JStr t \<Rightarrow> ToStock msg | _ \<Rightarrow> Ignored)))"

section \<open>Frames arrive\<close>

lemma takeWhile_body: "takeWhile (\<lambda>c. c \<noteq> CHR ''='') (b64_body bs @ replicate n (CHR ''='')) = b64_body bs"
proof -
  have "takeWhile (\<lambda>c. c \<noteq> CHR ''='') (b64_body bs) = b64_body bs" using b64_body_chars b64_ok_not by (auto simp: takeWhile_eq_all_conv)
  moreover have "\<And>c. c \<in> set (b64_body bs) \<Longrightarrow> c \<noteq> CHR ''=''" using b64_body_chars b64_ok_not by blast
  ultimately show ?thesis by (cases n) (simp_all add: takeWhile_append)
qed

lemma from_base64_encode [simp]: "from_base64 (b64_encode bs) = bs"
proof -
  have "filter b64_ok (b64_body bs) = b64_body bs" using b64_body_chars by (simp add: filter_id_conv)
  then show ?thesis
    by (simp add: from_base64_def b64_encode_split b64_pad_def takeWhile_body to_std_ok [OF b64_body_ok] b64_decode_body)
qed

lemma buffer_text_of: "buffer_text (from_base64 (to_base64 s)) = utf8_run 0 128 191 [] s"
  by (simp add: buffer_text_def to_base64_def comp_def)

lemma to_base64_ne: "s \<noteq> [] \<Longrightarrow> to_base64 s \<noteq> []"
  unfolding to_base64_def by (cases "map char_byte s" rule: b64_encode.cases) auto

definition text_ok :: "string \<Rightarrow> bool" where
  "text_ok s \<longleftrightarrow> utf8_run 0 128 191 [] s = s"

lemma text_ok_ascii: "list_all (\<lambda>c. code c < 128) s \<Longrightarrow> text_ok s"
  by (simp add: text_ok_def utf8_run_ascii)

lemma json_parse_text: "wf_json v \<Longrightarrow> json_parse (stringify v) = Some v"
  using json_round_trip [of v "[]"] by simp

lemma outer_parses:
  "json_parse (outer_line peer room msg) =
     Some (JObj ([(''peer'', JStr peer)] @ (case room of Some r \<Rightarrow> [(''room'', JStr r)] | None \<Rightarrow> []) @
       [(''ct'', JStr (to_base64 (stringify msg)))]))"
  unfolding outer_line_def by (rule json_parse_text) (auto split: option.split)

lemma read_outer_line:
  assumes "peer \<noteq> []" and "wf_json msg"
  shows "read_outer (outer_line peer room msg) = Frame peer (to_base64 (stringify msg))"
proof -
  obtain p ps where p: "peer = p # ps" using assms by (cases peer) auto
  have "stringify msg \<noteq> []" using stringify_start [OF assms(2)] by fastforce
  then obtain c cs where c: "to_base64 (stringify msg) = c # cs" using to_base64_ne by (cases "to_base64 (stringify msg)") auto
  show ?thesis unfolding read_outer_def outer_parses p c by (cases room) simp_all
qed

lemma read_inner_line: "wf_json msg \<Longrightarrow> text_ok (stringify msg) \<Longrightarrow> read_inner (to_base64 (stringify msg)) = Some msg"
  unfolding read_inner_def buffer_text_of text_ok_def by (simp add: json_parse_text)

section \<open>An envelope reaches its channel\<close>

lemma jget_members: "(case mget (members v) k of None \<Rightarrow> JUndef | Some x \<Rightarrow> x) = jget v k"
  by (cases v) simp_all

lemma stamped_obj: "is_objlike (stamped now sid env)" "jget (stamped now sid env) ''rpc'' = jget env ''rpc''"
  "jget (stamped now sid env) ''evt'' = jget env ''evt''" "jget (stamped now sid env) ''ub'' = jget env ''ub''"
  "jget (stamped now sid env) ''type'' = nullish (jget env ''type'') (JStr (plane_stamp env))"
  by (simp_all add: stamped_def jget_members)

lemma stamped_frame:
  assumes "isEnvelopeFrame env \<or> jget env ''type'' = JUndef \<or> jget env ''type'' = JNull"
  shows "isEnvelopeFrame (stamped now sid env)"
  using assms by (auto simp: isEnvelopeFrame_def stamped_obj nullish_def plane_stamp_def RPC_KIND_def EVT_KIND_def
      UB_KIND_def ENVELOPE_KIND_def)

lemma jget_json_wf: "wf_json v \<Longrightarrow> jget v k = JUndef \<or> wf_json (jget v k)"
proof (cases v)
  case (JObj kvs)
  assume "wf_json v"
  then show ?thesis using JObj by (cases "mget kvs k") (auto simp: list_all_iff dest: map_of_SomeD)
qed simp_all

lemma stamped_wf:
  assumes "wf_json env"
  shows "wf_json (stamped now (Some sid) env)"
proof -
  have m: "list_all (\<lambda>p. wf_json (snd p)) (members env)" "distinct (mkeys (members env))"
    using assms by (cases env; simp)+
  have n: "wf_json (nullish (jget env k) w)" if "wf_json w" for k w
    using jget_json_wf [OF assms, of k] that by (auto simp: nullish_def)
  have "mwf (members env)" using m(2) by (simp add: mwf_def)
  then have "mwf (mput ''sessionId'' a (mput ''ts'' b (mput ''type'' c (members env))))" for a b c by simp
  then show ?thesis unfolding stamped_def
    using m(1) by (simp add: mwf_def list_all_mput n)
qed

text \<open>C30: what one end of a channel sends, the channel for it at the other end hands on: an envelope with its stamps, to the
  dispatcher of the planes, whatever planes it is of; any other channel ignores the line; and the line has no line feed, so that
  the relay does not cut it.\<close>

theorem channel_round_trip:
  assumes "peer \<noteq> []" and "wf_json env" and "isEnvelopeFrame env \<or> jget env ''type'' = JUndef \<or> jget env ''type'' = JNull"
    and "text_ok (stringify (stamped now (Some sid) env))"
  shows "sendEnvelope True inc room peer now (Some sid) env = [envelopeLine inc room peer now (Some sid) env] \<and>
    onLine peer (envelopeLine inc room peer now (Some sid) env) = ToPlanes (stamped now (Some sid) env) \<and>
    (other \<noteq> peer \<longrightarrow> onLine other (envelopeLine inc room peer now (Some sid) env) = Ignored) \<and>
    NL \<notin> set (envelopeLine inc room peer now (Some sid) env)"
proof -
  note w = stamped_wf [OF assms(2), of now sid]
  have r: "read_outer (envelopeLine inc room peer now (Some sid) env) = Frame peer (to_base64 (stringify (stamped now (Some sid) env)))"
    unfolding envelopeLine_def by (rule read_outer_line [OF assms(1) w])
  moreover have "NL \<notin> set (envelopeLine inc room peer now (Some sid) env)"
    unfolding envelopeLine_def outer_line_def by (rule stringify_no_NL(1)) (auto split: option.split)
  ultimately show ?thesis
    using read_inner_line [OF w assms(4)] stamped_frame [OF assms(3)] by (simp add: sendEnvelope_def onLine_def stamped_obj)
qed

definition demo_env :: jv where
  "demo_env = JObj [(''ub'', JObj [(''type'', JStr ''session_sync'')])]"

lemma demo_env_ok: "list_all (\<lambda>c. code c < 128) (stringify (stamped 7 (Some ''s'') demo_env))" "wf_json demo_env"
  "jget demo_env ''type'' = JUndef"
  by code_simp+

lemma channel_round_trip_witness:
  "onLine ''phone'' (envelopeLine False None ''phone'' 7 (Some ''s'') demo_env) = ToPlanes (stamped 7 (Some ''s'') demo_env)"
  using channel_round_trip [of "''phone''" demo_env 7 "''s''" False None "[]"] demo_env_ok text_ok_ascii by blast

end
