(* ===== verification/RelayLife.thy ===== *)
theory RelayLife
  imports Topology
begin

text \<open>
  The life of the connection to the relay: \<^verbatim>\<open>extension/src/session/relay_lifecycle.ts\<close> (teardown, reconnection, the state told
  to clients, the set of attached owners), the starting and stopping of \<^verbatim>\<open>commands/lifecycle.ts\<close> and what
  \<^verbatim>\<open>index.ts\<close> adds to it (shutdown of a session, the bridge, the loss of an owner).

  The record \<open>life\<close> is the state of the module. A function that awaits is cut at its awaits: what it still has to do is a
  \<open>task\<close> in the state, resumed by a later input with the result of what it waited for. Connections, channels and
  producers are numbers that are never used twice. What leaves the module is logged in order. Repainting the footer, the metadata
  of the room and the choice of the model are left out.
\<close>

section \<open>State\<close>

type_synonym keypair = "byte list \<times> byte list"

datatype connectivity = Connected | Reconnecting | Disconnected

datatype notice =
    AlreadyStarted | KeychainLocked | IdentityMissing | NoRelayConfigured | NoSessionId
  | Connecting string string | RoomAlreadyOpen | RelayConnectFailed | Started string string
  | AlreadyStopped | Stopped | AllDisconnected | AlreadyJoined | JoinedAs string | JoinFailed | RevokedBy string

datatype life_event =
    Opened nat string
  | Published nat
  | ListPush nat keypair
  | Shut nat
  | Scheduled nat
  | RelayState connectivity "string option" "string option"
  | ProducerStarted nat
  | ProducerStopped nat
  | TopologySet nat topology
  | BridgeTry nat nat string
  | BridgeOff nat
  | MeshClosed nat
  | PairingsRefreshed
  | Notice notice
  | Raised

record channel =
  ch_id :: nat
  ch_relay :: nat
  ch_peer :: string

text \<open>Suspended functions. The flag of the start tasks says that \<^verbatim>\<open>_handleControl\<close> waits for the start
  and reports the state when it is over. The tasks of the root command carry its generation; the first waits for another
  one to end, the flag says that it is a restart.\<close>

datatype task =
    StartIdentity nat bool
  | StartConnect nat nat string string string bool
  | StartSweep nat nat nat string string bool
  | ReconnectWait nat nat string
  | JoinWait nat nat
  | StopWait
  | ShutdownWait
  | RootQueued nat bool
  | RootSetup nat
  | RootJoin nat bool bool nat
  | RootEnd

record mesh_node =
  mn_id :: nat
  mn_topology :: "topology option"

record life =
  rl_started :: bool
  rl_relay :: "nat option"
  rl_url :: "string option"
  rl_short :: string
  rl_listener :: "(nat \<times> nat) option"
  rl_installed :: "(nat \<times> nat) list"
  rl_rootGen :: nat
  rl_gen :: nat
  rl_timer :: "(nat \<times> string) option"
  rl_attempt :: nat
  rl_active :: "(string, channel) jsmap"
  rl_attached :: "channel list"
  rl_turn :: "string option"
  rl_disposed :: bool
  rl_cached :: "keypair option"
  rl_room :: "string option"
  rl_deferred :: bool
  rl_startedAt :: "int option"
  rl_lastStatus :: "connectivity option"
  rl_producer :: "nat option"
  rl_epoch :: nat
  rl_readyEpoch :: "nat option"
  rl_topology :: "topology option"
  rl_mesh :: "mesh_node option"
  rl_joinGen :: nat
  rl_tasks :: "task list"
  rl_next :: nat
  rl_log :: "life_event list"

definition say :: "life_event \<Rightarrow> 'z life_scheme \<Rightarrow> 'z life_scheme" where
  "say e s = s\<lparr>rl_log := rl_log s @ [e]\<rparr>"

definition await :: "task \<Rightarrow> 'z life_scheme \<Rightarrow> 'z life_scheme" where
  "await t s = s\<lparr>rl_tasks := rl_tasks s @ [t]\<rparr>"

section \<open>The relay URL\<close>

text \<open>Lower case matters to the tests for a scheme only, which are ASCII.\<close>

definition url_lower :: "string \<Rightarrow> string" where
  "url_lower s = map (\<lambda>c. if 65 \<le> code c \<and> code c \<le> 90 then char_of (code c + 32) else c) s"

definition toWebSocketUrl :: "string \<Rightarrow> string" where
  "toWebSocketUrl url =
     (if starts_with ''https://'' (url_lower url) then ''wss://'' @ drop (length ''https://'') url
      else if starts_with ''http://'' (url_lower url) then ''ws://'' @ drop (length ''http://'') url
      else url)"

definition toHttpUrl :: "string \<Rightarrow> string" where
  "toHttpUrl url =
     (if starts_with ''wss://'' (url_lower url) then ''https://'' @ drop (length ''wss://'') url
      else if starts_with ''ws://'' (url_lower url) then ''http://'' @ drop (length ''ws://'') url
      else url)"

text \<open>\<open>env\<close> is the variable \<^verbatim>\<open>UNBIEN_RELAY\<close>, \<open>cfg\<close> the field \<^verbatim>\<open>relay\<close> of the global configuration.\<close>

definition resolveRelayUrl :: "string option \<Rightarrow> string option \<Rightarrow> string option" where
  "resolveRelayUrl env cfg =
     (case env of
        Some (c # r) \<Rightarrow> Some (toHttpUrl (c # r))
      | _ \<Rightarrow> (case cfg of Some (c # r) \<Rightarrow> Some (toHttpUrl (c # r)) | _ \<Rightarrow> None))"

section \<open>The state told to clients\<close>

definition relayStatus :: "'z life_scheme \<Rightarrow> connectivity" where
  "relayStatus s = (if \<not> rl_started s then Disconnected else if rl_relay s \<noteq> None then Connected else Reconnecting)"

definition emitRelayState :: "bool \<Rightarrow> 'z life_scheme \<Rightarrow> 'z life_scheme" where
  "emitRelayState force s =
     (let status = relayStatus s
      in if \<not> force \<and> rl_lastStatus s = Some status then s
         else say (RelayState status (rl_url s) (rl_room s)) (s\<lparr>rl_lastStatus := Some status\<rparr>))"

section \<open>Channels of owners\<close>

text \<open>The constructor of \<^verbatim>\<open>PlainPeerChannel\<close> subscribes to the messages of the relay, \<^verbatim>\<open>detach\<close> ends that.\<close>

definition open_channel :: "nat \<Rightarrow> string \<Rightarrow> 'z life_scheme \<Rightarrow> channel \<times> 'z life_scheme" where
  "open_channel relay peer s =
     (let ch = \<lparr>ch_id = rl_next s, ch_relay = relay, ch_peer = peer\<rparr>
      in (ch, s\<lparr>rl_attached := rl_attached s @ [ch], rl_next := Suc (rl_next s)\<rparr>))"

definition detach_channel :: "channel \<Rightarrow> 'z life_scheme \<Rightarrow> 'z life_scheme" where
  "detach_channel ch s = s\<lparr>rl_attached := filter (\<lambda>c. c \<noteq> ch) (rl_attached s)\<rparr>"

definition shortid :: "string \<Rightarrow> string" where
  "shortid = take 8"

definition attachPeerChannel :: "string \<Rightarrow> channel \<Rightarrow> 'z life_scheme \<Rightarrow> 'z life_scheme" where
  "attachPeerChannel peer ch s = s\<lparr>rl_active := mput peer ch (rl_active s), rl_short := shortid peer\<rparr>"

definition detachPeerChannel :: "string \<Rightarrow> 'z life_scheme \<Rightarrow> 'z life_scheme" where
  "detachPeerChannel peer s =
     (case mget (rl_active s) peer of
        None \<Rightarrow> s
      | Some ch \<Rightarrow>
          (let s1 = detach_channel ch s; active = mdel peer (rl_active s1); s2 = s1\<lparr>rl_active := active\<rparr>
           in if rl_short s2 = shortid peer
              then s2\<lparr>rl_short := (case mkeys active of [] \<Rightarrow> [] | k # _ \<Rightarrow> shortid k)\<rparr>
              else s2))"

definition detach_all :: "'z life_scheme \<Rightarrow> 'z life_scheme" where
  "detach_all s = (fold detach_channel (mvals (rl_active s)) s)\<lparr>rl_active := [], rl_short := [], rl_turn := None\<rparr>"

definition onPeerDisconnect :: "string option \<Rightarrow> 'z life_scheme \<Rightarrow> 'z life_scheme" where
  "onPeerDisconnect peer s =
     (if \<not> rl_started s then s
      else
        (case (case peer of Some p \<Rightarrow> Some p | None \<Rightarrow> (if rl_active s = [] then None else Some (last (mkeys (rl_active s))))) of
           None \<Rightarrow> s
         | Some target \<Rightarrow>
             if target = [] \<or> \<not> mhas (rl_active s) target then s
             else
               (let s1 = detachPeerChannel target s
                in if rl_active s1 \<noteq> [] then s1 else say (Notice AllDisconnected) (s1\<lparr>rl_turn := None\<rparr>))))"

definition revokeActiveOwnerRuntime :: "string \<Rightarrow> 'z life_scheme \<Rightarrow> 'z life_scheme" where
  "revokeActiveOwnerRuntime owner s =
     (if \<not> mhas (rl_active s) owner then s
      else say (Notice (RevokedBy owner)) (detachPeerChannel owner (say PairingsRefreshed s)))"

section \<open>The bridge\<close>

definition set_mesh_topology :: "topology \<Rightarrow> 'z life_scheme \<Rightarrow> 'z life_scheme" where
  "set_mesh_topology t s =
     (case rl_mesh s of
        Some n \<Rightarrow> say (TopologySet (mn_id n) t) (s\<lparr>rl_mesh := Some (n\<lparr>mn_topology := Some t\<rparr>)\<rparr>)
      | None \<Rightarrow> s)"

definition attachBridgeIfReady :: "'z life_scheme \<Rightarrow> 'z life_scheme" where
  "attachBridgeIfReady s =
     (case (rl_mesh s, rl_relay s, rl_url s, rl_cached s) of
        (Some n, Some relay, Some (c # url), Some _) \<Rightarrow>
          if rl_producer s \<noteq> None then
            if rl_readyEpoch s \<noteq> Some (rl_epoch s) then s
            else (case rl_topology s of
                    None \<Rightarrow> s
                  | Some t \<Rightarrow> say (BridgeTry (mn_id n) relay (c # url)) (if mn_topology n = None then set_mesh_topology t s else s))
          else say (BridgeTry (mn_id n) relay (c # url)) s
      | _ \<Rightarrow> s)"

definition detachBridge :: "'z life_scheme \<Rightarrow> 'z life_scheme" where
  "detachBridge s = (case rl_mesh s of Some n \<Rightarrow> say (BridgeOff (mn_id n)) s | None \<Rightarrow> s)"

section \<open>Teardown\<close>

definition stopAutoListener :: "'z life_scheme \<Rightarrow> 'z life_scheme" where
  "stopAutoListener s =
     (case rl_listener s of
        Some l \<Rightarrow> s\<lparr>rl_installed := filter (\<lambda>x. x \<noteq> l) (rl_installed s), rl_listener := None\<rparr>
      | None \<Rightarrow> s)"

definition stop_producer :: "'z life_scheme \<Rightarrow> 'z life_scheme" where
  "stop_producer s =
     (let s1 = s\<lparr>rl_producer := None, rl_epoch := Suc (rl_epoch s), rl_readyEpoch := None, rl_topology := None\<rparr>
      in case rl_producer s of Some p \<Rightarrow> say (ProducerStopped p) s1 | None \<Rightarrow> s1)"

definition close_relay :: "'z life_scheme \<Rightarrow> 'z life_scheme" where
  "close_relay s =
     (let s1 = s\<lparr>rl_relay := None, rl_url := None\<rparr>
      in case rl_relay s of Some c \<Rightarrow> say (Shut c) s1 | None \<Rightarrow> s1)"

definition goIdle :: "'z life_scheme \<Rightarrow> 'z life_scheme" where
  "goIdle s =
     (let s1 = s\<lparr>rl_rootGen := Suc (rl_rootGen s), rl_gen := Suc (rl_gen s), rl_timer := None, rl_attempt := 0\<rparr>;
          s2 = detach_all (stopAutoListener s1);
          s3 = close_relay (detachBridge (stop_producer s2))
      in emitRelayState False (s3\<lparr>rl_started := False\<rparr>))"

section \<open>Reconnection\<close>

definition RECONNECT_BACKOFFS_MS :: "nat list" where
  "RECONNECT_BACKOFFS_MS = [1000, 2000, 5000, 10000, 30000]"

definition isCurrentReconnect :: "nat \<Rightarrow> string \<Rightarrow> 'z life_scheme \<Rightarrow> bool" where
  "isCurrentReconnect gen url s \<longleftrightarrow> gen = rl_gen s \<and> rl_started s \<and> rl_relay s = None \<and> rl_url s = Some url"

definition scheduleReconnect :: "nat \<Rightarrow> string \<Rightarrow> 'z life_scheme \<Rightarrow> 'z life_scheme" where
  "scheduleReconnect gen url s =
     (if rl_timer s \<noteq> None \<or> rl_cached s = None \<or> \<not> isCurrentReconnect gen url s then s
      else
        (let delay = RECONNECT_BACKOFFS_MS ! min (rl_attempt s) (length RECONNECT_BACKOFFS_MS - 1)
         in say (Scheduled delay) (s\<lparr>rl_attempt := Suc (rl_attempt s), rl_timer := Some (gen, url)\<rparr>)))"

definition open_connection :: "string \<Rightarrow> 'z life_scheme \<Rightarrow> nat \<times> 'z life_scheme" where
  "open_connection url s = (rl_next s, say (Opened (rl_next s) (toWebSocketUrl url)) (s\<lparr>rl_next := Suc (rl_next s)\<rparr>))"

definition attemptReconnect :: "nat \<Rightarrow> string \<Rightarrow> 'z life_scheme \<Rightarrow> 'z life_scheme" where
  "attemptReconnect gen url s =
     (if rl_cached s = None \<or> \<not> isCurrentReconnect gen url s then s
      else (let (c, s1) = open_connection url s in await (ReconnectWait c gen url) s1))"

definition timer_fires :: "'z life_scheme \<Rightarrow> 'z life_scheme" where
  "timer_fires s =
     (case rl_timer s of
        None \<Rightarrow> s
      | Some (gen, url) \<Rightarrow>
          (let s1 = s\<lparr>rl_timer := None\<rparr>
           in if isCurrentReconnect gen url s1 then attemptReconnect gen url s1 else s1))"

definition onRelayClose :: "nat \<Rightarrow> 'z life_scheme \<Rightarrow> 'z life_scheme" where
  "onRelayClose closed s =
     (if rl_relay s \<noteq> Some closed \<or> \<not> rl_started s then s
      else
        (let s1 = detach_all (stopAutoListener (s\<lparr>rl_gen := Suc (rl_gen s)\<rparr>));
             s2 = detachBridge (s1\<lparr>rl_relay := None\<rparr>);
             s3 = emitRelayState False (s2\<lparr>rl_started := True\<rparr>)
         in case rl_url s3 of
              Some (c # url) \<Rightarrow> scheduleReconnect (rl_gen s3) (c # url) s3
            | _ \<Rightarrow> s3))"

definition installAutoListener :: "nat \<Rightarrow> 'z life_scheme \<Rightarrow> 'z life_scheme" where
  "installAutoListener relay s =
     s\<lparr>rl_installed := rl_installed s @ [(relay, rl_gen s)], rl_listener := Some (relay, rl_gen s)\<rparr>"

definition hasListenerAuthority :: "nat \<times> nat \<Rightarrow> 'z life_scheme \<Rightarrow> bool" where
  "hasListenerAuthority l s \<longleftrightarrow> \<not> rl_disposed s \<and> rl_started s \<and> rl_relay s = Some (fst l) \<and> rl_gen s = snd l"

definition pushPairingAllowList :: "nat \<Rightarrow> 'z life_scheme \<Rightarrow> 'z life_scheme" where
  "pushPairingAllowList relay s = (case rl_cached s of Some kp \<Rightarrow> say (ListPush relay kp) s | None \<Rightarrow> s)"

definition setupRelayConnection :: "nat \<Rightarrow> 'z life_scheme \<Rightarrow> 'z life_scheme" where
  "setupRelayConnection relay s =
     installAutoListener relay (pushPairingAllowList relay (say (Published relay) (s\<lparr>rl_relay := Some relay\<rparr>)))"

text \<open>The result of \<open>connect\<close>; a rejection of the hello because the room is open is told apart.\<close>

datatype connect_result = ConnectOk | ConnectRoomOpen | ConnectError

definition reconnect_result :: "nat \<Rightarrow> nat \<Rightarrow> string \<Rightarrow> connect_result \<Rightarrow> 'z life_scheme \<Rightarrow> 'z life_scheme" where
  "reconnect_result c gen url res s =
     (if res \<noteq> ConnectOk then
        (let s1 = say (Shut c) s in if isCurrentReconnect gen url s1 then scheduleReconnect gen url s1 else s1)
      else if \<not> isCurrentReconnect gen url s then say (Shut c) s
      else emitRelayState False (attachBridgeIfReady (setupRelayConnection c (s\<lparr>rl_attempt := 0\<rparr>))))"


section \<open>Owners\<close>

definition attachOwner :: "nat \<Rightarrow> string \<Rightarrow> 'z life_scheme \<Rightarrow> channel \<times> 'z life_scheme" where
  "attachOwner relay peer s =
     (let s1 = (if mhas (rl_active s) peer then detachPeerChannel peer s else s);
          (ch, s2) = open_channel relay peer s1
      in (ch, attachPeerChannel peer ch s2))"

section \<open>Starting\<close>

definition isCurrentCandidate :: "nat \<Rightarrow> 'z life_scheme \<Rightarrow> bool" where
  "isCurrentCandidate gen s \<longleftrightarrow> \<not> rl_disposed s \<and> gen = rl_gen s \<and> \<not> rl_started s \<and> rl_relay s = None"

definition finish :: "bool \<Rightarrow> 'z life_scheme \<Rightarrow> 'z life_scheme" where
  "finish ctl s = (if ctl then emitRelayState True s else s)"

definition cmdStart :: "bool \<Rightarrow> 'z life_scheme \<Rightarrow> 'z life_scheme" where
  "cmdStart ctl s =
     (if rl_started s then finish ctl (say (Notice AlreadyStarted) s)
      else await (StartIdentity (Suc (rl_gen s)) ctl) (s\<lparr>rl_gen := Suc (rl_gen s)\<rparr>))"

datatype identity_answer = Identity keypair | KeyringUnavailable | PairedIdentityMissing | IdentityThrows

definition identity_result :: "nat \<Rightarrow> bool \<Rightarrow> identity_answer \<Rightarrow> string option \<Rightarrow> string option \<Rightarrow> string option
    \<Rightarrow> 'z life_scheme \<Rightarrow> 'z life_scheme" where
  "identity_result gen ctl res env cfg room s =
     (if \<not> isCurrentCandidate gen s then finish ctl s
      else (case res of
              KeyringUnavailable \<Rightarrow> finish ctl (say (Notice KeychainLocked) s)
            | PairedIdentityMissing \<Rightarrow> finish ctl (say (Notice IdentityMissing) s)
            | IdentityThrows \<Rightarrow> say Raised s
            | Identity kp \<Rightarrow>
                (let s1 = s\<lparr>rl_cached := Some kp\<rparr>
                 in case resolveRelayUrl env cfg of
                      None \<Rightarrow> finish ctl (say (Notice NoRelayConfigured) s1)
                    | Some url \<Rightarrow>
                        (case room of
                           None \<Rightarrow> finish ctl (say (Notice NoSessionId) (s1\<lparr>rl_deferred := True\<rparr>))
                         | Some roomId \<Rightarrow>
                             (let (c, s2) = open_connection url (say (Notice (Connecting url roomId)) s1)
                              in await (StartConnect c gen url (shortid (b64_encode (fst kp))) roomId ctl) s2)))))"

definition start_result :: "nat \<Rightarrow> nat \<Rightarrow> string \<Rightarrow> string \<Rightarrow> string \<Rightarrow> bool \<Rightarrow> connect_result \<Rightarrow> int
    \<Rightarrow> 'z life_scheme \<Rightarrow> 'z life_scheme" where
  "start_result c gen url short room ctl res now s =
     (if res \<noteq> ConnectOk then
        (let s1 = say (Shut c) s
         in if \<not> isCurrentCandidate gen s1 then finish ctl s1
            else finish ctl (say (Notice (if res = ConnectRoomOpen then RoomAlreadyOpen else RelayConnectFailed)) s1))
      else if \<not> isCurrentCandidate gen s then finish ctl (say (Shut c) s)
      else
        (let s1 = setupRelayConnection c (s\<lparr>rl_relay := Some c, rl_url := Some url, rl_short := short, rl_room := Some room,
                    rl_started := True, rl_startedAt := (case rl_startedAt s of None \<Rightarrow> Some now | old \<Rightarrow> old)\<rparr>)
         in if rl_producer s1 = None then
              (let p = rl_next s1; e = Suc (rl_epoch s1);
                   s2 = s1\<lparr>rl_epoch := e, rl_readyEpoch := None, rl_topology := None, rl_producer := Some p, rl_next := Suc p\<rparr>
               in await (StartSweep c p e short url ctl) (say (ProducerStarted p) s2))
            else finish ctl (say (Notice (Started short url)) (emitRelayState False (attachBridgeIfReady s1)))))"

definition sweep_result :: "nat \<Rightarrow> nat \<Rightarrow> nat \<Rightarrow> string \<Rightarrow> string \<Rightarrow> bool \<Rightarrow> 'z life_scheme \<Rightarrow> 'z life_scheme" where
  "sweep_result c p e short url ctl s =
     (if rl_disposed s \<or> rl_producer s \<noteq> Some p \<or> rl_epoch s \<noteq> e \<or> rl_relay s \<noteq> Some c then finish ctl s
      else finish ctl (say (Notice (Started short url)) (emitRelayState False s)))"

section \<open>The callbacks of the producer\<close>

definition producer_guard :: "nat \<Rightarrow> nat \<Rightarrow> 'z life_scheme \<Rightarrow> bool" where
  "producer_guard p e s \<longleftrightarrow> rl_producer s = Some p \<and> rl_epoch s = e"

definition onRevoke :: "nat \<Rightarrow> nat \<Rightarrow> string \<Rightarrow> 'z life_scheme \<Rightarrow> 'z life_scheme" where
  "onRevoke p e owner s = (if producer_guard p e s then revokeActiveOwnerRuntime owner s else s)"

fun reconcile :: "nat \<Rightarrow> nat \<Rightarrow> string set \<Rightarrow> string list \<Rightarrow> 'z life_scheme \<Rightarrow> 'z life_scheme" where
  "reconcile p e present [] s = s"
| "reconcile p e present (owner # owners) s =
     (if \<not> producer_guard p e s then s
      else if owner \<in> present then reconcile p e present owners s
      else reconcile p e present owners (revokeActiveOwnerRuntime owner s))"

definition onAuthoritativeOwners :: "nat \<Rightarrow> nat \<Rightarrow> string list \<Rightarrow> 'z life_scheme \<Rightarrow> 'z life_scheme" where
  "onAuthoritativeOwners p e owners s =
     (if producer_guard p e s then reconcile p e (set owners) (mkeys (rl_active s)) s else s)"

definition onTopologyChanged :: "nat \<Rightarrow> nat \<Rightarrow> topology \<Rightarrow> 'z life_scheme \<Rightarrow> 'z life_scheme" where
  "onTopologyChanged p e t s =
     (if producer_guard p e s
      then attachBridgeIfReady ((set_mesh_topology t (s\<lparr>rl_topology := Some t\<rparr>))\<lparr>rl_readyEpoch := Some e\<rparr>)
      else s)"

section \<open>Stopping, joining the mesh, the end of a session\<close>

definition leave_mesh :: "'z life_scheme \<Rightarrow> 'z life_scheme" where
  "leave_mesh s = (case rl_mesh s of Some n \<Rightarrow> say (MeshClosed (mn_id n)) (s\<lparr>rl_mesh := None\<rparr>) | None \<Rightarrow> s)"

definition cmdStop :: "'z life_scheme \<Rightarrow> 'z life_scheme" where
  "cmdStop s =
     (let s1 = s\<lparr>rl_rootGen := Suc (rl_rootGen s), rl_joinGen := Suc (rl_joinGen s)\<rparr>
      in if rl_mesh s1 = None \<and> \<not> rl_started s1 then say (Notice AlreadyStopped) (s1\<lparr>rl_gen := Suc (rl_gen s1)\<rparr>)
         else
           (let s2 = (if rl_started s1 then goIdle s1 else detachBridge (s1\<lparr>rl_gen := Suc (rl_gen s1)\<rparr>))
            in await StopWait (leave_mesh s2)))"

definition cmdJoin :: "'z life_scheme \<Rightarrow> 'z life_scheme" where
  "cmdJoin s =
     (if rl_mesh s \<noteq> None then say (Notice AlreadyJoined) s
      else await (JoinWait (rl_next s) (Suc (rl_joinGen s))) (s\<lparr>rl_joinGen := Suc (rl_joinGen s), rl_next := Suc (rl_next s)\<rparr>))"

definition join_result :: "nat \<Rightarrow> nat \<Rightarrow> string option \<Rightarrow> 'z life_scheme \<Rightarrow> 'z life_scheme" where
  "join_result node gen res s =
     (if rl_disposed s \<or> gen \<noteq> rl_joinGen s \<or> rl_mesh s \<noteq> None then say (MeshClosed node) s
      else (case res of
              Some assigned \<Rightarrow>
                attachBridgeIfReady (say (Notice (JoinedAs assigned)) (s\<lparr>rl_mesh := Some \<lparr>mn_id = node, mn_topology = None\<rparr>\<rparr>))
            | None \<Rightarrow> say (Notice JoinFailed) s))"

definition shutdown_rest :: "'z life_scheme \<Rightarrow> 'z life_scheme" where
  "shutdown_rest s = leave_mesh (if \<not> rl_started s then detachBridge s else goIdle s)"

text \<open>With owners attached, the end of the session is broadcast and awaited, for a second at most.\<close>

definition session_shutdown :: "'z life_scheme \<Rightarrow> 'z life_scheme" where
  "session_shutdown s =
     (let s1 = s\<lparr>rl_disposed := True, rl_rootGen := Suc (rl_rootGen s), rl_gen := Suc (rl_gen s), rl_joinGen := Suc (rl_joinGen s)\<rparr>
      in if rl_active s1 \<noteq> [] then await ShutdownWait s1 else shutdown_rest s1)"

section \<open>The root command\<close>

text \<open>\<^verbatim>\<open>_cmdRoot\<close> sets the agent up in its folder, joins the mesh and starts the relay, if that is configured. Only one runs
  at a time: \<open>root_busy\<close> is \<^verbatim>\<open>_cmdRootInFlight\<close>, another one waits for it. A root keeps the generation it began under and
  ends without further effect at its next await once a stop, the end of the session or switching the relay off has raised it.

  What is waited for before the mesh is joined, the lock of the folder and the wizard of the first run, is one answer: nothing
  when the lock is refused or the wizard is left, otherwise whether the wizard ran and whether the configuration starts the relay.
  The end of a start that the root waits for may come at any time; it leads to the printing of the status only, which is left out.\<close>

definition isCurrentRootLifecycle :: "nat \<Rightarrow> 'z life_scheme \<Rightarrow> bool" where
  "isCurrentRootLifecycle gen s \<longleftrightarrow> \<not> rl_disposed s \<and> gen = rl_rootGen s"

fun is_root :: "task \<Rightarrow> bool" where
  "is_root (RootSetup g) \<longleftrightarrow> True"
| "is_root (RootJoin g wizard auto node) \<longleftrightarrow> True"
| "is_root RootEnd \<longleftrightarrow> True"
| "is_root _ \<longleftrightarrow> False"

definition root_busy :: "'z life_scheme \<Rightarrow> bool" where
  "root_busy s \<longleftrightarrow> list_ex is_root (rl_tasks s)"

definition root_begin :: "nat \<Rightarrow> 'z life_scheme \<Rightarrow> 'z life_scheme" where
  "root_begin gen s = (if isCurrentRootLifecycle gen s then await (RootSetup gen) s else s)"

definition cmdRoot :: "bool \<Rightarrow> 'z life_scheme \<Rightarrow> 'z life_scheme" where
  "cmdRoot restart s =
     (if root_busy s then await (RootQueued (rl_rootGen s) restart) s else root_begin (rl_rootGen s) s)"

definition queued_result :: "nat \<Rightarrow> bool \<Rightarrow> 'z life_scheme \<Rightarrow> 'z life_scheme" where
  "queued_result gen restart s =
     (if root_busy s then await (RootQueued gen restart) s
      else if restart then root_begin gen s else s)"

definition root_start :: "nat \<Rightarrow> bool \<Rightarrow> bool \<Rightarrow> 'z life_scheme \<Rightarrow> 'z life_scheme" where
  "root_start gen wizard auto s =
     (if \<not> isCurrentRootLifecycle gen s \<or> rl_mesh s = None then s
      else if auto \<and> (wizard \<or> \<not> rl_started s) then await RootEnd (cmdStart False s)
      else s)"

definition setup_result :: "nat \<Rightarrow> (bool \<times> bool) option \<Rightarrow> 'z life_scheme \<Rightarrow> 'z life_scheme" where
  "setup_result gen res s =
     (if \<not> isCurrentRootLifecycle gen s then s
      else (case res of
              None \<Rightarrow> s
            | Some (wizard, auto) \<Rightarrow>
                if wizard \<or> rl_mesh s = None then await (RootJoin gen wizard auto (rl_next s)) (cmdJoin s)
                else root_start gen wizard auto s))"

definition join_waits :: "nat \<Rightarrow> 'z life_scheme \<Rightarrow> bool" where
  "join_waits node s \<longleftrightarrow> list_ex (\<lambda>t. case t of JoinWait n g \<Rightarrow> n = node | _ \<Rightarrow> False) (rl_tasks s)"

definition joined_result :: "nat \<Rightarrow> bool \<Rightarrow> bool \<Rightarrow> nat \<Rightarrow> 'z life_scheme \<Rightarrow> 'z life_scheme" where
  "joined_result gen wizard auto node s =
     (if join_waits node s then await (RootJoin gen wizard auto node) s else root_start gen wizard auto s)"

text \<open>The parts of \<^verbatim>\<open>session_start\<close> that concern the relay; \<open>sid\<close> says whether the session has an id. A session that begins
  after the end of another one in the same instance starts the root command again. The start on the very first session
  is the input of the root command.\<close>

definition session_start :: "bool \<Rightarrow> 'z life_scheme \<Rightarrow> 'z life_scheme" where
  "session_start sid s =
     (let s1 = (if rl_deferred s \<and> sid then cmdStart False (s\<lparr>rl_deferred := False\<rparr>) else s)
      in if rl_disposed s1 then cmdRoot True (s1\<lparr>rl_disposed := False\<rparr>) else s1)"

datatype control = RelayOn | RelayOff | RelayToggle | RelayStatus

definition relay_up :: "'z life_scheme \<Rightarrow> 'z life_scheme" where
  "relay_up s = (if \<not> rl_started s then cmdStart True s else emitRelayState True s)"

definition handleControl :: "control \<Rightarrow> 'z life_scheme \<Rightarrow> 'z life_scheme" where
  "handleControl cmd s =
     (case cmd of
        RelayOn \<Rightarrow> relay_up s
      | RelayOff \<Rightarrow>
          emitRelayState True
            (if \<not> rl_started s then s\<lparr>rl_rootGen := Suc (rl_rootGen s), rl_gen := Suc (rl_gen s)\<rparr> else goIdle s)
      | RelayToggle \<Rightarrow> if \<not> rl_started s then cmdStart True s else emitRelayState True (goIdle s)
      | RelayStatus \<Rightarrow> emitRelayState True s)"

section \<open>Inputs\<close>

datatype answer =
    GotIdentity identity_answer "string option" "string option" "string option"
  | GotConnect connect_result int
  | GotJoin "string option"
  | GotSetup "(bool \<times> bool) option"
  | Done

fun resume_task :: "task \<Rightarrow> answer \<Rightarrow> ('z life_scheme \<Rightarrow> 'z life_scheme) option" where
  "resume_task (StartIdentity gen ctl) (GotIdentity res env cfg room) = Some (identity_result gen ctl res env cfg room)"
| "resume_task (StartConnect c gen url short room ctl) (GotConnect res now) = Some (start_result c gen url short room ctl res now)"
| "resume_task (StartSweep c p e short url ctl) Done = Some (sweep_result c p e short url ctl)"
| "resume_task (ReconnectWait c gen url) (GotConnect res now) = Some (reconnect_result c gen url res)"
| "resume_task (JoinWait node gen) (GotJoin res) = Some (join_result node gen res)"
| "resume_task StopWait Done = Some (say (Notice Stopped))"
| "resume_task ShutdownWait Done = Some shutdown_rest"
| "resume_task (RootQueued gen restart) Done = Some (queued_result gen restart)"
| "resume_task (RootSetup gen) (GotSetup res) = Some (setup_result gen res)"
| "resume_task (RootJoin gen wizard auto node) Done = Some (joined_result gen wizard auto node)"
| "resume_task RootEnd Done = Some (\<lambda>s. s)"
| "resume_task _ _ = None"

datatype input =
    StartCmd | StopCmd | JoinCmd | RootCmd | Control control
  | Shutdown | SessionStart bool
  | TimerFires | RelayClosed nat
  | PeerAttach "nat \<times> nat" string | PeerGone "string option"
  | Revoke nat nat string | OwnersSeen nat nat "string list" | TopologyFound nat nat topology
  | Resume task answer

fun life_step :: "input \<Rightarrow> 'z life_scheme \<Rightarrow> 'z life_scheme" where
  "life_step StartCmd s = cmdStart False s"
| "life_step StopCmd s = cmdStop s"
| "life_step JoinCmd s = cmdJoin s"
| "life_step RootCmd s = cmdRoot False s"
| "life_step (Control cmd) s = handleControl cmd s"
| "life_step Shutdown s = session_shutdown s"
| "life_step (SessionStart sid) s = session_start sid s"
| "life_step TimerFires s = timer_fires s"
| "life_step (RelayClosed c) s = onRelayClose c s"
| "life_step (PeerAttach l peer) s = (if hasListenerAuthority l s then snd (attachOwner (fst l) peer s) else s)"
| "life_step (PeerGone peer) s = onPeerDisconnect peer s"
| "life_step (Revoke p e owner) s = onRevoke p e owner s"
| "life_step (OwnersSeen p e owners) s = onAuthoritativeOwners p e owners s"
| "life_step (TopologyFound p e t) s = onTopologyChanged p e t s"
| "life_step (Resume t a) s =
     (if t \<in> set (rl_tasks s)
      then (case resume_task t a of Some f \<Rightarrow> f (s\<lparr>rl_tasks := remove1 t (rl_tasks s)\<rparr>) | None \<Rightarrow> s)
      else s)"

definition life_run :: "input list \<Rightarrow> 'z life_scheme \<Rightarrow> 'z life_scheme" where
  "life_run is s = fold life_step is s"

definition fresh_life :: life where
  "fresh_life = \<lparr>rl_started = False, rl_relay = None, rl_url = None, rl_short = [], rl_listener = None, rl_installed = [],
     rl_rootGen = 0, rl_gen = 0, rl_timer = None, rl_attempt = 0, rl_active = [], rl_attached = [], rl_turn = None,
     rl_disposed = False, rl_cached = None, rl_room = None, rl_deferred = False, rl_startedAt = None, rl_lastStatus = None,
     rl_producer = None, rl_epoch = 0, rl_readyEpoch = None, rl_topology = None, rl_mesh = None, rl_joinGen = 0, rl_tasks = [],
     rl_next = 0, rl_log = []\<rparr>"


section \<open>What the small steps leave alone\<close>

text \<open>The events that count for the connections.\<close>

fun is_tracked :: "life_event \<Rightarrow> bool" where
  "is_tracked (Opened c u) \<longleftrightarrow> True"
| "is_tracked (Published c) \<longleftrightarrow> True"
| "is_tracked (Shut c) \<longleftrightarrow> True"
| "is_tracked (Scheduled d) \<longleftrightarrow> True"
| "is_tracked _ \<longleftrightarrow> False"

definition tracked :: "'z life_scheme \<Rightarrow> life_event list" where
  "tracked s = filter is_tracked (rl_log s)"

lemma say_fields [simp]:
  "rl_started (say e s) = rl_started s" "rl_relay (say e s) = rl_relay s" "rl_url (say e s) = rl_url s" "rl_listener (say e s) = rl_listener s"
  "rl_installed (say e s) = rl_installed s" "rl_gen (say e s) = rl_gen s" "rl_timer (say e s) = rl_timer s" "rl_attempt (say e s) = rl_attempt s"
  "rl_active (say e s) = rl_active s" "rl_attached (say e s) = rl_attached s" "rl_disposed (say e s) = rl_disposed s"
  "rl_cached (say e s) = rl_cached s" "rl_producer (say e s) = rl_producer s" "rl_epoch (say e s) = rl_epoch s" "rl_tasks (say e s) = rl_tasks s"
  "rl_next (say e s) = rl_next s" "rl_lastStatus (say e s) = rl_lastStatus s" "rl_deferred (say e s) = rl_deferred s" "rl_room (say e s) = rl_room s"
  "tracked (say e s) = tracked s @ (if is_tracked e then [e] else [])"
  by (simp_all add: say_def tracked_def)

lemma tracked_update [simp]:
  "tracked (s\<lparr>rl_started := a\<rparr>) = tracked s" "tracked (s\<lparr>rl_relay := b\<rparr>) = tracked s" "tracked (s\<lparr>rl_url := d\<rparr>) = tracked s"
  "tracked (s\<lparr>rl_gen := n\<rparr>) = tracked s" "tracked (s\<lparr>rl_rootGen := n\<rparr>) = tracked s" "tracked (s\<lparr>rl_joinGen := n\<rparr>) = tracked s"
  "tracked (s\<lparr>rl_timer := f\<rparr>) = tracked s" "tracked (s\<lparr>rl_attempt := n\<rparr>) = tracked s" "tracked (s\<lparr>rl_disposed := a\<rparr>) = tracked s"
  "tracked (s\<lparr>rl_cached := g\<rparr>) = tracked s" "tracked (s\<lparr>rl_room := h\<rparr>) = tracked s" "tracked (s\<lparr>rl_short := i\<rparr>) = tracked s"
  "tracked (s\<lparr>rl_startedAt := j\<rparr>) = tracked s" "tracked (s\<lparr>rl_deferred := a\<rparr>) = tracked s" "tracked (s\<lparr>rl_tasks := k\<rparr>) = tracked s"
  "tracked (s\<lparr>rl_next := n\<rparr>) = tracked s" "tracked (s\<lparr>rl_epoch := n\<rparr>) = tracked s" "tracked (s\<lparr>rl_readyEpoch := l\<rparr>) = tracked s"
  "tracked (s\<lparr>rl_topology := m\<rparr>) = tracked s" "tracked (s\<lparr>rl_producer := l\<rparr>) = tracked s" "tracked (s\<lparr>rl_turn := d\<rparr>) = tracked s"
  "tracked (s\<lparr>rl_lastStatus := o'\<rparr>) = tracked s" "tracked (s\<lparr>rl_mesh := p\<rparr>) = tracked s"
  "tracked (s\<lparr>rl_active := q\<rparr>) = tracked s" "tracked (s\<lparr>rl_attached := r\<rparr>) = tracked s"
  "tracked (s\<lparr>rl_installed := t\<rparr>) = tracked s" "tracked (s\<lparr>rl_listener := u\<rparr>) = tracked s"
  by (simp_all add: tracked_def)

lemma fold_detach: "fold detach_channel chs s = s\<lparr>rl_attached := filter (\<lambda>c. c \<notin> set chs) (rl_attached s)\<rparr>"
proof (induction chs arbitrary: s)
  case (Cons a chs)
  then show ?case by (simp add: detach_channel_def [of a])
qed simp

lemma detach_all_eq: "detach_all s = s\<lparr>rl_attached := filter (\<lambda>c. c \<notin> set (mvals (rl_active s))) (rl_attached s),
    rl_active := [], rl_short := [], rl_turn := None\<rparr>"
  by (simp add: detach_all_def fold_detach)

lemma await_fields [simp]:
  "rl_started (await t s) = rl_started s" "rl_relay (await t s) = rl_relay s" "rl_url (await t s) = rl_url s"
  "rl_listener (await t s) = rl_listener s" "rl_installed (await t s) = rl_installed s" "rl_gen (await t s) = rl_gen s"
  "rl_timer (await t s) = rl_timer s" "rl_attempt (await t s) = rl_attempt s" "rl_active (await t s) = rl_active s"
  "rl_attached (await t s) = rl_attached s" "rl_disposed (await t s) = rl_disposed s" "rl_cached (await t s) = rl_cached s"
  "rl_producer (await t s) = rl_producer s" "rl_epoch (await t s) = rl_epoch s" "rl_next (await t s) = rl_next s"
  "rl_lastStatus (await t s) = rl_lastStatus s" "rl_deferred (await t s) = rl_deferred s" "rl_room (await t s) = rl_room s"
  "tracked (await t s) = tracked s"
  by (simp_all add: await_def)

lemma emit_fields [simp]:
  "rl_started (emitRelayState f s) = rl_started s" "rl_relay (emitRelayState f s) = rl_relay s"
  "rl_url (emitRelayState f s) = rl_url s" "rl_listener (emitRelayState f s) = rl_listener s"
  "rl_installed (emitRelayState f s) = rl_installed s" "rl_gen (emitRelayState f s) = rl_gen s"
  "rl_timer (emitRelayState f s) = rl_timer s" "rl_attempt (emitRelayState f s) = rl_attempt s"
  "rl_active (emitRelayState f s) = rl_active s" "rl_attached (emitRelayState f s) = rl_attached s"
  "rl_disposed (emitRelayState f s) = rl_disposed s" "rl_cached (emitRelayState f s) = rl_cached s"
  "rl_producer (emitRelayState f s) = rl_producer s" "rl_epoch (emitRelayState f s) = rl_epoch s"
  "rl_tasks (emitRelayState f s) = rl_tasks s" "rl_next (emitRelayState f s) = rl_next s"
  "rl_deferred (emitRelayState f s) = rl_deferred s" "rl_room (emitRelayState f s) = rl_room s"
  "tracked (emitRelayState f s) = tracked s"
  by (simp_all add: emitRelayState_def Let_def)

lemma finish_fields [simp]:
  "rl_started (finish f s) = rl_started s" "rl_relay (finish f s) = rl_relay s" "rl_url (finish f s) = rl_url s"
  "rl_listener (finish f s) = rl_listener s" "rl_installed (finish f s) = rl_installed s" "rl_gen (finish f s) = rl_gen s"
  "rl_timer (finish f s) = rl_timer s" "rl_attempt (finish f s) = rl_attempt s" "rl_active (finish f s) = rl_active s"
  "rl_attached (finish f s) = rl_attached s" "rl_disposed (finish f s) = rl_disposed s"
  "rl_cached (finish f s) = rl_cached s" "rl_producer (finish f s) = rl_producer s" "rl_epoch (finish f s) = rl_epoch s"
  "rl_tasks (finish f s) = rl_tasks s" "rl_next (finish f s) = rl_next s" "rl_deferred (finish f s) = rl_deferred s"
  "rl_room (finish f s) = rl_room s" "tracked (finish f s) = tracked s"
  by (simp_all add: finish_def)

lemma mesh_topology_fields [simp]:
  "rl_started (set_mesh_topology t s) = rl_started s" "rl_relay (set_mesh_topology t s) = rl_relay s"
  "rl_url (set_mesh_topology t s) = rl_url s" "rl_listener (set_mesh_topology t s) = rl_listener s"
  "rl_installed (set_mesh_topology t s) = rl_installed s" "rl_gen (set_mesh_topology t s) = rl_gen s"
  "rl_timer (set_mesh_topology t s) = rl_timer s" "rl_attempt (set_mesh_topology t s) = rl_attempt s"
  "rl_active (set_mesh_topology t s) = rl_active s" "rl_attached (set_mesh_topology t s) = rl_attached s"
  "rl_disposed (set_mesh_topology t s) = rl_disposed s" "rl_cached (set_mesh_topology t s) = rl_cached s"
  "rl_producer (set_mesh_topology t s) = rl_producer s" "rl_epoch (set_mesh_topology t s) = rl_epoch s"
  "rl_tasks (set_mesh_topology t s) = rl_tasks s" "rl_next (set_mesh_topology t s) = rl_next s"
  "rl_lastStatus (set_mesh_topology t s) = rl_lastStatus s" "rl_deferred (set_mesh_topology t s) = rl_deferred s"
  "rl_room (set_mesh_topology t s) = rl_room s" "tracked (set_mesh_topology t s) = tracked s"
  by (simp_all add: set_mesh_topology_def split: option.split)

lemma bridge_fields [simp]:
  "rl_started (attachBridgeIfReady s) = rl_started s" "rl_relay (attachBridgeIfReady s) = rl_relay s"
  "rl_url (attachBridgeIfReady s) = rl_url s" "rl_listener (attachBridgeIfReady s) = rl_listener s"
  "rl_installed (attachBridgeIfReady s) = rl_installed s" "rl_gen (attachBridgeIfReady s) = rl_gen s"
  "rl_timer (attachBridgeIfReady s) = rl_timer s" "rl_attempt (attachBridgeIfReady s) = rl_attempt s"
  "rl_active (attachBridgeIfReady s) = rl_active s" "rl_attached (attachBridgeIfReady s) = rl_attached s"
  "rl_disposed (attachBridgeIfReady s) = rl_disposed s" "rl_cached (attachBridgeIfReady s) = rl_cached s"
  "rl_producer (attachBridgeIfReady s) = rl_producer s" "rl_epoch (attachBridgeIfReady s) = rl_epoch s"
  "rl_tasks (attachBridgeIfReady s) = rl_tasks s" "rl_next (attachBridgeIfReady s) = rl_next s"
  "rl_lastStatus (attachBridgeIfReady s) = rl_lastStatus s" "rl_deferred (attachBridgeIfReady s) = rl_deferred s"
  "rl_room (attachBridgeIfReady s) = rl_room s" "tracked (attachBridgeIfReady s) = tracked s"
  by (simp_all add: attachBridgeIfReady_def split: option.split list.split)

lemma detachBridge_fields [simp]:
  "rl_started (detachBridge s) = rl_started s" "rl_relay (detachBridge s) = rl_relay s" "rl_url (detachBridge s) = rl_url s"
  "rl_listener (detachBridge s) = rl_listener s" "rl_installed (detachBridge s) = rl_installed s"
  "rl_gen (detachBridge s) = rl_gen s" "rl_timer (detachBridge s) = rl_timer s" "rl_attempt (detachBridge s) = rl_attempt s"
  "rl_active (detachBridge s) = rl_active s" "rl_attached (detachBridge s) = rl_attached s"
  "rl_disposed (detachBridge s) = rl_disposed s" "rl_cached (detachBridge s) = rl_cached s"
  "rl_producer (detachBridge s) = rl_producer s" "rl_epoch (detachBridge s) = rl_epoch s"
  "rl_tasks (detachBridge s) = rl_tasks s" "rl_next (detachBridge s) = rl_next s"
  "rl_lastStatus (detachBridge s) = rl_lastStatus s" "rl_deferred (detachBridge s) = rl_deferred s"
  "rl_room (detachBridge s) = rl_room s" "tracked (detachBridge s) = tracked s"
  by (simp_all add: detachBridge_def split: option.split)

lemma leave_mesh_fields [simp]:
  "rl_started (leave_mesh s) = rl_started s" "rl_relay (leave_mesh s) = rl_relay s" "rl_url (leave_mesh s) = rl_url s"
  "rl_listener (leave_mesh s) = rl_listener s" "rl_installed (leave_mesh s) = rl_installed s"
  "rl_gen (leave_mesh s) = rl_gen s" "rl_timer (leave_mesh s) = rl_timer s" "rl_attempt (leave_mesh s) = rl_attempt s"
  "rl_active (leave_mesh s) = rl_active s" "rl_attached (leave_mesh s) = rl_attached s"
  "rl_disposed (leave_mesh s) = rl_disposed s" "rl_cached (leave_mesh s) = rl_cached s"
  "rl_producer (leave_mesh s) = rl_producer s" "rl_epoch (leave_mesh s) = rl_epoch s" "rl_tasks (leave_mesh s) = rl_tasks s"
  "rl_next (leave_mesh s) = rl_next s" "rl_lastStatus (leave_mesh s) = rl_lastStatus s"
  "rl_deferred (leave_mesh s) = rl_deferred s" "rl_room (leave_mesh s) = rl_room s" "tracked (leave_mesh s) = tracked s"
  by (simp_all add: leave_mesh_def split: option.split)

lemma push_fields [simp]:
  "rl_started (pushPairingAllowList c s) = rl_started s" "rl_relay (pushPairingAllowList c s) = rl_relay s"
  "rl_url (pushPairingAllowList c s) = rl_url s" "rl_listener (pushPairingAllowList c s) = rl_listener s"
  "rl_installed (pushPairingAllowList c s) = rl_installed s" "rl_gen (pushPairingAllowList c s) = rl_gen s"
  "rl_timer (pushPairingAllowList c s) = rl_timer s" "rl_attempt (pushPairingAllowList c s) = rl_attempt s"
  "rl_active (pushPairingAllowList c s) = rl_active s" "rl_attached (pushPairingAllowList c s) = rl_attached s"
  "rl_disposed (pushPairingAllowList c s) = rl_disposed s" "rl_cached (pushPairingAllowList c s) = rl_cached s"
  "rl_producer (pushPairingAllowList c s) = rl_producer s" "rl_epoch (pushPairingAllowList c s) = rl_epoch s"
  "rl_tasks (pushPairingAllowList c s) = rl_tasks s" "rl_next (pushPairingAllowList c s) = rl_next s"
  "rl_lastStatus (pushPairingAllowList c s) = rl_lastStatus s" "rl_deferred (pushPairingAllowList c s) = rl_deferred s"
  "rl_room (pushPairingAllowList c s) = rl_room s" "tracked (pushPairingAllowList c s) = tracked s"
  by (simp_all add: pushPairingAllowList_def split: option.split)

lemma stop_producer_fields [simp]:
  "rl_started (stop_producer s) = rl_started s" "rl_relay (stop_producer s) = rl_relay s"
  "rl_url (stop_producer s) = rl_url s" "rl_listener (stop_producer s) = rl_listener s"
  "rl_installed (stop_producer s) = rl_installed s" "rl_gen (stop_producer s) = rl_gen s"
  "rl_timer (stop_producer s) = rl_timer s" "rl_attempt (stop_producer s) = rl_attempt s"
  "rl_active (stop_producer s) = rl_active s" "rl_attached (stop_producer s) = rl_attached s"
  "rl_disposed (stop_producer s) = rl_disposed s" "rl_cached (stop_producer s) = rl_cached s"
  "rl_tasks (stop_producer s) = rl_tasks s" "rl_next (stop_producer s) = rl_next s"
  "rl_lastStatus (stop_producer s) = rl_lastStatus s" "rl_deferred (stop_producer s) = rl_deferred s"
  "rl_room (stop_producer s) = rl_room s" "tracked (stop_producer s) = tracked s"
  by (simp_all add: stop_producer_def Let_def split: option.split)

lemma detach_all_fields [simp]:
  "rl_started (detach_all s) = rl_started s" "rl_relay (detach_all s) = rl_relay s" "rl_url (detach_all s) = rl_url s"
  "rl_listener (detach_all s) = rl_listener s" "rl_installed (detach_all s) = rl_installed s"
  "rl_gen (detach_all s) = rl_gen s" "rl_timer (detach_all s) = rl_timer s" "rl_attempt (detach_all s) = rl_attempt s"
  "rl_disposed (detach_all s) = rl_disposed s" "rl_cached (detach_all s) = rl_cached s"
  "rl_producer (detach_all s) = rl_producer s" "rl_epoch (detach_all s) = rl_epoch s" "rl_tasks (detach_all s) = rl_tasks s"
  "rl_next (detach_all s) = rl_next s" "rl_lastStatus (detach_all s) = rl_lastStatus s"
  "rl_deferred (detach_all s) = rl_deferred s" "rl_room (detach_all s) = rl_room s" "tracked (detach_all s) = tracked s"
  by (simp_all add: detach_all_eq)

lemma detach_peer_fields [simp]:
  "rl_started (detachPeerChannel p s) = rl_started s" "rl_relay (detachPeerChannel p s) = rl_relay s"
  "rl_url (detachPeerChannel p s) = rl_url s" "rl_listener (detachPeerChannel p s) = rl_listener s"
  "rl_installed (detachPeerChannel p s) = rl_installed s" "rl_gen (detachPeerChannel p s) = rl_gen s"
  "rl_timer (detachPeerChannel p s) = rl_timer s" "rl_attempt (detachPeerChannel p s) = rl_attempt s"
  "rl_disposed (detachPeerChannel p s) = rl_disposed s" "rl_cached (detachPeerChannel p s) = rl_cached s"
  "rl_producer (detachPeerChannel p s) = rl_producer s" "rl_epoch (detachPeerChannel p s) = rl_epoch s"
  "rl_tasks (detachPeerChannel p s) = rl_tasks s" "rl_next (detachPeerChannel p s) = rl_next s"
  "rl_lastStatus (detachPeerChannel p s) = rl_lastStatus s" "rl_deferred (detachPeerChannel p s) = rl_deferred s"
  "rl_room (detachPeerChannel p s) = rl_room s" "tracked (detachPeerChannel p s) = tracked s"
  by (simp_all add: detachPeerChannel_def detach_channel_def Let_def split: option.split)

lemma stop_listener_fields [simp]:
  "rl_started (stopAutoListener s) = rl_started s" "rl_relay (stopAutoListener s) = rl_relay s"
  "rl_url (stopAutoListener s) = rl_url s" "rl_gen (stopAutoListener s) = rl_gen s"
  "rl_timer (stopAutoListener s) = rl_timer s" "rl_attempt (stopAutoListener s) = rl_attempt s"
  "rl_active (stopAutoListener s) = rl_active s" "rl_attached (stopAutoListener s) = rl_attached s"
  "rl_disposed (stopAutoListener s) = rl_disposed s" "rl_cached (stopAutoListener s) = rl_cached s"
  "rl_producer (stopAutoListener s) = rl_producer s" "rl_epoch (stopAutoListener s) = rl_epoch s"
  "rl_tasks (stopAutoListener s) = rl_tasks s" "rl_next (stopAutoListener s) = rl_next s"
  "rl_lastStatus (stopAutoListener s) = rl_lastStatus s" "rl_deferred (stopAutoListener s) = rl_deferred s"
  "rl_room (stopAutoListener s) = rl_room s" "tracked (stopAutoListener s) = tracked s"
  by (simp_all add: stopAutoListener_def split: option.split)

lemma install_fields [simp]:
  "rl_started (installAutoListener c s) = rl_started s" "rl_relay (installAutoListener c s) = rl_relay s"
  "rl_url (installAutoListener c s) = rl_url s" "rl_gen (installAutoListener c s) = rl_gen s"
  "rl_timer (installAutoListener c s) = rl_timer s" "rl_attempt (installAutoListener c s) = rl_attempt s"
  "rl_active (installAutoListener c s) = rl_active s" "rl_attached (installAutoListener c s) = rl_attached s"
  "rl_disposed (installAutoListener c s) = rl_disposed s" "rl_cached (installAutoListener c s) = rl_cached s"
  "rl_producer (installAutoListener c s) = rl_producer s" "rl_epoch (installAutoListener c s) = rl_epoch s"
  "rl_tasks (installAutoListener c s) = rl_tasks s" "rl_next (installAutoListener c s) = rl_next s"
  "rl_lastStatus (installAutoListener c s) = rl_lastStatus s" "rl_deferred (installAutoListener c s) = rl_deferred s"
  "rl_room (installAutoListener c s) = rl_room s" "tracked (installAutoListener c s) = tracked s"
  by (simp_all add: installAutoListener_def)

lemma gone_fields [simp]:
  "rl_started (onPeerDisconnect p s) = rl_started s" "rl_relay (onPeerDisconnect p s) = rl_relay s"
  "rl_url (onPeerDisconnect p s) = rl_url s" "rl_listener (onPeerDisconnect p s) = rl_listener s"
  "rl_installed (onPeerDisconnect p s) = rl_installed s" "rl_gen (onPeerDisconnect p s) = rl_gen s"
  "rl_timer (onPeerDisconnect p s) = rl_timer s" "rl_attempt (onPeerDisconnect p s) = rl_attempt s"
  "rl_disposed (onPeerDisconnect p s) = rl_disposed s" "rl_cached (onPeerDisconnect p s) = rl_cached s"
  "rl_producer (onPeerDisconnect p s) = rl_producer s" "rl_epoch (onPeerDisconnect p s) = rl_epoch s"
  "rl_tasks (onPeerDisconnect p s) = rl_tasks s" "rl_next (onPeerDisconnect p s) = rl_next s"
  "rl_lastStatus (onPeerDisconnect p s) = rl_lastStatus s" "rl_deferred (onPeerDisconnect p s) = rl_deferred s"
  "rl_room (onPeerDisconnect p s) = rl_room s" "tracked (onPeerDisconnect p s) = tracked s"
  by (simp_all add: onPeerDisconnect_def Let_def split: option.split)

lemma revoke_owner_fields [simp]:
  "rl_started (revokeActiveOwnerRuntime p s) = rl_started s" "rl_relay (revokeActiveOwnerRuntime p s) = rl_relay s"
  "rl_url (revokeActiveOwnerRuntime p s) = rl_url s" "rl_listener (revokeActiveOwnerRuntime p s) = rl_listener s"
  "rl_installed (revokeActiveOwnerRuntime p s) = rl_installed s" "rl_gen (revokeActiveOwnerRuntime p s) = rl_gen s"
  "rl_timer (revokeActiveOwnerRuntime p s) = rl_timer s" "rl_attempt (revokeActiveOwnerRuntime p s) = rl_attempt s"
  "rl_disposed (revokeActiveOwnerRuntime p s) = rl_disposed s" "rl_cached (revokeActiveOwnerRuntime p s) = rl_cached s"
  "rl_producer (revokeActiveOwnerRuntime p s) = rl_producer s" "rl_epoch (revokeActiveOwnerRuntime p s) = rl_epoch s"
  "rl_tasks (revokeActiveOwnerRuntime p s) = rl_tasks s" "rl_next (revokeActiveOwnerRuntime p s) = rl_next s"
  "rl_lastStatus (revokeActiveOwnerRuntime p s) = rl_lastStatus s"
  "rl_deferred (revokeActiveOwnerRuntime p s) = rl_deferred s" "rl_room (revokeActiveOwnerRuntime p s) = rl_room s"
  "tracked (revokeActiveOwnerRuntime p s) = tracked s"
  by (simp_all add: revokeActiveOwnerRuntime_def)

lemma attach_fields [simp]:
  "rl_started (snd (attachOwner c p s)) = rl_started s" "rl_relay (snd (attachOwner c p s)) = rl_relay s"
  "rl_url (snd (attachOwner c p s)) = rl_url s" "rl_listener (snd (attachOwner c p s)) = rl_listener s"
  "rl_installed (snd (attachOwner c p s)) = rl_installed s" "rl_gen (snd (attachOwner c p s)) = rl_gen s"
  "rl_timer (snd (attachOwner c p s)) = rl_timer s" "rl_attempt (snd (attachOwner c p s)) = rl_attempt s"
  "rl_disposed (snd (attachOwner c p s)) = rl_disposed s" "rl_cached (snd (attachOwner c p s)) = rl_cached s"
  "rl_producer (snd (attachOwner c p s)) = rl_producer s" "rl_epoch (snd (attachOwner c p s)) = rl_epoch s"
  "rl_tasks (snd (attachOwner c p s)) = rl_tasks s" "rl_lastStatus (snd (attachOwner c p s)) = rl_lastStatus s"
  "rl_deferred (snd (attachOwner c p s)) = rl_deferred s" "rl_room (snd (attachOwner c p s)) = rl_room s"
  "tracked (snd (attachOwner c p s)) = tracked s"
  by (simp_all add: attachOwner_def open_channel_def attachPeerChannel_def Let_def)

lemma root_gen_kept [simp]:
  "rl_rootGen (say e s) = rl_rootGen s" "rl_rootGen (await t s) = rl_rootGen s" "rl_rootGen (emitRelayState f s) = rl_rootGen s"
  "rl_rootGen (finish f s) = rl_rootGen s" "rl_rootGen (set_mesh_topology tp s) = rl_rootGen s"
  "rl_rootGen (attachBridgeIfReady s) = rl_rootGen s" "rl_rootGen (detachBridge s) = rl_rootGen s"
  "rl_rootGen (leave_mesh s) = rl_rootGen s" "rl_rootGen (pushPairingAllowList c s) = rl_rootGen s"
  "rl_rootGen (stop_producer s) = rl_rootGen s" "rl_rootGen (detach_all s) = rl_rootGen s"
  "rl_rootGen (detachPeerChannel p s) = rl_rootGen s" "rl_rootGen (stopAutoListener s) = rl_rootGen s"
  "rl_rootGen (installAutoListener c s) = rl_rootGen s" "rl_rootGen (close_relay s) = rl_rootGen s"
  "rl_rootGen (snd (open_connection u s)) = rl_rootGen s" "rl_rootGen (scheduleReconnect g u s) = rl_rootGen s"
  "rl_rootGen (setupRelayConnection c s) = rl_rootGen s"
  by (simp_all add: say_def await_def emitRelayState_def finish_def set_mesh_topology_def attachBridgeIfReady_def detachBridge_def
      leave_mesh_def pushPairingAllowList_def stop_producer_def detach_all_eq detachPeerChannel_def detach_channel_def stopAutoListener_def
      installAutoListener_def close_relay_def open_connection_def scheduleReconnect_def setupRelayConnection_def Let_def
      split: option.split list.split)

lemma root_gen_kept2 [simp]:
  "rl_rootGen (onPeerDisconnect q s) = rl_rootGen s" "rl_rootGen (revokeActiveOwnerRuntime p s) = rl_rootGen s"
  "rl_rootGen (snd (attachOwner c p s)) = rl_rootGen s"
  by (simp_all add: onPeerDisconnect_def revokeActiveOwnerRuntime_def attachOwner_def open_channel_def attachPeerChannel_def Let_def
      split: option.split)

end
