(* ===== verification/Pairing.thy ===== *)
theory Pairing
  imports Names Channel PeerTrust RelayLife
begin

text \<open>
  Pairing: \<^verbatim>\<open>extension/src/pairing/qr.ts\<close>, the listener and \<^verbatim>\<open>_handlePairRequest\<close> of
  \<^verbatim>\<open>session/relay_lifecycle.ts\<close>, and the commands of \<^verbatim>\<open>commands/pairing.ts\<close>.

  The state of the process is a \<open>machine\<close>: the life of its relay connection, the active QR token, the file of
  pairings with its tokens, and the functions that wait. A function that awaits the disk is cut twice: at the moment the
  disk does its work (\<open>disk_step\<close>) and at the moment the function goes on (\<open>go_on\<close>); anything may happen
  between them. \<open>site\<close> gathers what a function reads of its surroundings when it goes on: whether the socket is
  open, the clock, the names. A device name is a string, as the protocol's type says; drawing the QR code and the text of
  notices are left out.
\<close>

section \<open>The QR token\<close>

definition TOKEN_TTL_MS :: int where "TOKEN_TTL_MS = 60000"
definition PAIR_TTL_MIN_MS :: int where "PAIR_TTL_MIN_MS = 10000"
definition PAIR_TTL_MAX_MS :: int where "PAIR_TTL_MAX_MS = 600000"

text \<open>A number that is not finite is \<open>None\<close>.\<close>

definition clampPairTtlMs :: "int option \<Rightarrow> int" where
  "clampPairTtlMs ttlMs =
     (case ttlMs of None \<Rightarrow> TOKEN_TTL_MS | Some t \<Rightarrow> min PAIR_TTL_MAX_MS (max PAIR_TTL_MIN_MS t))"

record qr_token =
  qt_token :: string
  qt_expiresAt :: int
  qt_consumed :: bool

definition issueToken :: "string \<Rightarrow> int \<Rightarrow> int \<Rightarrow> qr_token option" where
  "issueToken token ttlMs now = Some \<lparr>qt_token = token, qt_expiresAt = now + ttlMs, qt_consumed = False\<rparr>"

datatype token_status = TokenOk | TokenExpired | TokenConsumed | TokenUnknown

definition consumeToken :: "jv \<Rightarrow> int \<Rightarrow> qr_token option \<Rightarrow> token_status \<times> qr_token option" where
  "consumeToken token now active =
     (case active of
        None \<Rightarrow> (TokenUnknown, active)
      | Some a \<Rightarrow>
          if token \<noteq> JStr (qt_token a) then (TokenUnknown, active)
          else if qt_consumed a then (TokenConsumed, active)
          else if now > qt_expiresAt a then (TokenExpired, active)
          else (TokenOk, Some (a\<lparr>qt_consumed := True\<rparr>)))"

section \<open>The text of the QR code\<close>

text \<open>\<^verbatim>\<open>slice(0, n)\<close> counts UTF-16 code units; half a surrogate pair becomes U+FFFD in \<^verbatim>\<open>URLSearchParams\<close>.\<close>

fun take_units :: "nat \<Rightarrow> string list \<Rightarrow> string" where
  "take_units n [] = []"
| "take_units n (g # gs) =
     (if n = 0 then []
      else if jslen g \<le> n then g @ take_units (n - jslen g) gs
      else REPLACEMENT)"

definition form_char :: "char \<Rightarrow> string" where
  "form_char c =
     (if c = CHR '' '' then ''+''
      else if alnum c \<or> c \<in> set ''*-._'' then [c]
      else percent c)"

definition form_encode :: "string \<Rightarrow> string" where
  "form_encode s = concat (map form_char s)"

definition form_params :: "(string \<times> string) list \<Rightarrow> string" where
  "form_params kvs = join ''&'' (map (\<lambda>(k, v). form_encode k @ ''='' @ form_encode v) kvs)"

definition buildQRUri :: "string \<Rightarrow> byte list \<Rightarrow> string \<Rightarrow> string option \<Rightarrow> string" where
  "buildQRUri token longtermEdPk sessionName roomId =
     ''unbien://pair?'' @
     form_params ([(''t'', token), (''epk'', toBase64UrlNoPad longtermEdPk), (''n'', take_units 80 (chars sessionName))] @
       (case roomId of Some (c # r) \<Rightarrow> [(''rm'', c # r)] | _ \<Rightarrow> []))"

text \<open>A decimal text as a double: the nearest one, ties to even, if it is finite.\<close>

fun bits :: "nat \<Rightarrow> nat" where
  "bits n = (if n = 0 then 0 else Suc (bits (n div 2)))"

declare bits.simps [simp del]

definition to_double :: "nat \<Rightarrow> nat" where
  "to_double n =
     (if bits n \<le> 53 then n
      else (let u = 2 ^ (bits n - 53); q = n div u; r = n mod u
            in (if 2 * r > u \<or> 2 * r = u \<and> odd q then q + 1 else q) * u))"

definition finite_number :: "nat \<Rightarrow> bool" where
  "finite_number n \<longleftrightarrow> bits n \<le> 1024"

text \<open>\<^verbatim>\<open>/--ttl\s+(\d+)/\<close>: the digits of the first match.\<close>

fun ttl_match :: "string list \<Rightarrow> string option" where
  "ttl_match [] = None"
| "ttl_match (g # gs) =
     (let s = g # gs; after = drop 5 s; digits = dropWhile js_space after;
          ds = takeWhile (\<lambda>x. length x = 1 \<and> is_digit (hd x)) digits
      in if take 5 s = map (\<lambda>c. [c]) ''--ttl'' \<and> after \<noteq> digits \<and> ds \<noteq> [] then Some (concat ds)
         else ttl_match gs)"

definition pair_ttl :: "string \<Rightarrow> int" where
  "pair_ttl args =
     (case ttl_match (chars args) of
        None \<Rightarrow> TOKEN_TTL_MS
      | Some ds \<Rightarrow>
          (let seconds = to_double (read_nat ds); ms = to_double (seconds * 1000)
           in clampPairTtlMs (if finite_number seconds \<and> finite_number ms then Some (int ms) else None)))"

section \<open>The process\<close>

datatype pair_task =
    Lookup "nat \<times> nat" string jv "(peer_record option \<times> string list) option"
  | PairLookup "nat \<times> nat" string jv "(peer_record option \<times> string list) option"
  | Storing "nat \<times> nat" string jv string string "nat option" nat "bool option"
  | Refresh "jv list option"
  | RevokeList string "jv list option"
  | RevokeStore inspected "bool option"
  | BootPair string bool
  | BootRevoke string bool

datatype pair_notice =
    FirstTimeSetup | StartingFirst | StartDeferred | RelayNeeded | NoSessionRoom | QrReady int
  | RevokeUsage | NoMatchingPeer | AmbiguousShortid nat | PeerRevoked string string

datatype pair_event =
    Looked string "peer_record option"
  | Issued string int
  | Accepted string string int
  | Refused string token_status
  | Stored string bool
  | Unpaired string
  | Attached nat string string
  | Routed nat string dispatch
  | Sent nat string
  | Rejected
  | AuthorityInvalidated nat
  | FreshCheck nat
  | PairedWith string string string
  | PairCode string string
  | Told pair_notice
  | Warned "string list"

record machine =
  mc_life :: life
  mc_qr :: "qr_token option"
  mc_store :: store
  mc_tasks :: "pair_task list"
  mc_hasPairings :: bool
  mc_log :: "pair_event list"

record site =
  st_open :: bool
  st_now :: int
  st_iso :: string
  st_display :: string
  st_version :: string
  st_hostname :: string
  st_caps :: "string list"
  st_sid :: "string option"
  st_rootSid :: "string option"
  st_derivedRoom :: "string option"
  st_config :: bool
  st_token :: string
  st_error :: string

definition tell :: "pair_event \<Rightarrow> machine \<Rightarrow> machine" where
  "tell e s = s\<lparr>mc_log := mc_log s @ [e]\<rparr>"

definition wait_for :: "pair_task \<Rightarrow> machine \<Rightarrow> machine" where
  "wait_for t s = s\<lparr>mc_tasks := mc_tasks s @ [t]\<rparr>"

definition on_life :: "(life \<Rightarrow> life) \<Rightarrow> machine \<Rightarrow> machine" where
  "on_life f s = s\<lparr>mc_life := f (mc_life s)\<rparr>"

section \<open>Frames out\<close>

text \<open>\<open>relay.send\<close> throws when the socket is not open. Nobody catches what the listener throws: \<open>Rejected\<close>.\<close>

definition send_inner :: "site \<Rightarrow> nat \<Rightarrow> string \<Rightarrow> jv \<Rightarrow> machine \<Rightarrow> machine" where
  "send_inner e c peer msg s = tell (if st_open e then Sent c (outer_line peer None msg) else Rejected) s"

definition PROTOCOL_VERSION :: int where "PROTOCOL_VERSION = 1"

definition pair_ok_jv :: "site \<Rightarrow> life \<Rightarrow> jv \<Rightarrow> string \<Rightarrow> jv" where
  "pair_ok_jv e l inner roomId =
     JObj [(''type'', JStr ''pair_ok''), (''in_reply_to'', jget inner ''id''), (''session_name'', JStr (st_display e)),
       (''session_started_at'', JInt (case rl_startedAt l of Some t \<Rightarrow> t | None \<Rightarrow> st_now e)), (''room_id'', JStr roomId),
       (''harness'', JObj [(''name'', JStr ''Pi coding agent''), (''version'', JStr (st_version e))]),
       (''hostname'', JStr (st_hostname e)), (''protocol_version'', JInt PROTOCOL_VERSION),
       (''capabilities'', JArr (map JStr (st_caps e)))]"

definition pair_error_jv :: "jv \<Rightarrow> string \<Rightarrow> string \<Rightarrow> jv" where
  "pair_error_jv inner reason message =
     JObj [(''type'', JStr ''pair_error''), (''in_reply_to'', jget inner ''id''), (''code'', JStr reason), (''message'', JStr message)]"

definition unknown_peer_jv :: jv where
  "unknown_peer_jv =
     JObj [(''type'', JStr ''error''), (''code'', JStr ''unknown_peer''), (''message'', JStr (''Peer not paired '' @
       map char_of [226 :: nat, 128, 148] @ '' re-scan QR''))]"

definition no_room_text :: string where
  "no_room_text = ''No session room yet '' @ map char_of [226 :: nat, 128, 148] @
     '' retry pairing once this session has started (design 01M1CAW0).''"

definition token_code :: "token_status \<Rightarrow> string" where
  "token_code status =
     (case status of TokenExpired \<Rightarrow> ''token_expired'' | TokenConsumed \<Rightarrow> ''token_consumed'' | _ \<Rightarrow> ''token_unknown'')"

definition token_text :: "token_status \<Rightarrow> string" where
  "token_text status =
     (case status of
        TokenExpired \<Rightarrow> ''Ephemeral token expired. Generate a new QR with /unbien pair.''
      | TokenConsumed \<Rightarrow> ''Token already consumed by another pair_request.''
      | _ \<Rightarrow> ''Token was not issued by this Pi.'')"

section \<open>Owners\<close>

definition attach_owner :: "site \<Rightarrow> nat \<Rightarrow> string \<Rightarrow> string \<Rightarrow> machine \<Rightarrow> channel \<times> machine" where
  "attach_owner e c peer name s =
     (let (ch, l) = attachOwner c peer (mc_life s);
          s1 = tell (Attached (ch_id ch) peer name) (s\<lparr>mc_life := l\<rparr>);
          sid = (case st_sid e of Some x \<Rightarrow> Some x | None \<Rightarrow> st_rootSid e);
          lines = sendEnvelope (st_open e) False (rl_room l) peer (st_now e) sid (helloEnvelope (st_caps e) (st_sid e))
      in (ch, fold (\<lambda>x. tell (Sent c x)) lines s1))"

text \<open>\<^verbatim>\<open>_refreshPairingsCache\<close>: the list is read, then the relay gets the allow-list again.\<close>

definition refreshPairingsCache :: "machine \<Rightarrow> machine" where
  "refreshPairingsCache s = wait_for (Refresh None) s"

definition refresh_result :: "jv list \<Rightarrow> machine \<Rightarrow> machine" where
  "refresh_result peers s =
     (let s1 = s\<lparr>mc_hasPairings := (peers \<noteq> [])\<rparr>
      in case rl_relay (mc_life s1) of Some c \<Rightarrow> on_life (pushPairingAllowList c) s1 | None \<Rightarrow> s1)"

section \<open>The pair request\<close>

definition emitPairOk :: "site \<Rightarrow> nat \<Rightarrow> string \<Rightarrow> jv \<Rightarrow> string \<Rightarrow> machine \<Rightarrow> machine" where
  "emitPairOk e c peer inner roomId s = send_inner e c peer (pair_ok_jv e (mc_life s) inner roomId) s"

definition send_error :: "site \<Rightarrow> nat \<Rightarrow> string \<Rightarrow> jv \<Rightarrow> string \<Rightarrow> string \<Rightarrow> machine \<Rightarrow> machine" where
  "send_error e c peer inner reason message s = send_inner e c peer (pair_error_jv inner reason message) s"

definition device_name :: "jv \<Rightarrow> string" where
  "device_name inner = str_or [] (jget inner ''device_name'')"

text \<open>The owner is in the file: confirm again, without a token.\<close>

definition reconfirm :: "site \<Rightarrow> nat \<times> nat \<Rightarrow> string \<Rightarrow> jv \<Rightarrow> peer_record \<Rightarrow> machine \<Rightarrow> machine" where
  "reconfirm e l peer inner known s =
     (if \<not> hasListenerAuthority l (mc_life s) then s
      else (case rl_room (mc_life s) of
              Some (r # room) \<Rightarrow>
                emitPairOk e (fst l) peer inner (r # room)
                  (if mhas (rl_active (mc_life s)) peer then s else snd (attach_owner e (fst l) peer (pr_name known) s))
            | _ \<Rightarrow> send_error e (fst l) peer inner ''internal_error'' no_room_text s))"

text \<open>A new owner: the token decides.\<close>

definition first_pairing :: "site \<Rightarrow> nat \<times> nat \<Rightarrow> string \<Rightarrow> jv \<Rightarrow> machine \<Rightarrow> machine" where
  "first_pairing e l peer inner s =
     (let (status, active) = consumeToken (jget inner ''token'') (st_now e) (mc_qr s); s1 = s\<lparr>mc_qr := active\<rparr>
      in if status \<noteq> TokenOk then
           send_error e (fst l) peer inner (token_code status) (token_text status) (tell (Refused peer status) s1)
         else
           (let s2 = tell (Accepted (str_or [] (jget inner ''token'')) peer (st_now e)) s1
            in case rl_room (mc_life s2) of
                 Some (r # room) \<Rightarrow>
                   (let s3 = (case rl_producer (mc_life s2) of Some p \<Rightarrow> tell (AuthorityInvalidated p) s2 | None \<Rightarrow> s2)
                    in wait_for (Storing l peer inner (r # room) (st_iso e) (rl_producer (mc_life s3)) (rl_epoch (mc_life s3)) None) s3)
               | _ \<Rightarrow> send_error e (fst l) peer inner ''internal_error'' no_room_text s2))"

definition pair_lookup_result :: "site \<Rightarrow> nat \<times> nat \<Rightarrow> string \<Rightarrow> jv \<Rightarrow> peer_record option \<Rightarrow> machine \<Rightarrow> machine" where
  "pair_lookup_result e l peer inner known s =
     (case known of Some r \<Rightarrow> reconfirm e l peer inner r s | None \<Rightarrow> first_pairing e l peer inner s)"

definition storing_result :: "site \<Rightarrow> nat \<times> nat \<Rightarrow> string \<Rightarrow> jv \<Rightarrow> string \<Rightarrow> string \<Rightarrow> nat option \<Rightarrow> nat \<Rightarrow> bool
    \<Rightarrow> machine \<Rightarrow> machine" where
  "storing_result e l peer inner roomId pairedAt producer producerEpoch stored s =
     (if \<not> hasListenerAuthority l (mc_life s) then s
      else if \<not> stored then
        send_error e (fst l) peer inner ''internal_error'' (''Failed to persist peer: '' @ st_error e) s
      else
        (let s1 = refreshPairingsCache s;
             s2 = (case producer of
                     Some p \<Rightarrow>
                       if rl_producer (mc_life s1) = Some p \<and> rl_epoch (mc_life s1) = producerEpoch then tell (FreshCheck p) s1 else s1
                   | None \<Rightarrow> s1);
             s3 = snd (attach_owner e (fst l) peer (device_name inner) s2);
             s4 = emitPairOk e (fst l) peer inner roomId s3
         in if st_open e then tell (PairedWith (device_name inner) peer pairedAt) s4 else s4))"

section \<open>The listener\<close>

definition lookup_result :: "site \<Rightarrow> nat \<times> nat \<Rightarrow> string \<Rightarrow> jv \<Rightarrow> peer_record option \<Rightarrow> machine \<Rightarrow> machine" where
  "lookup_result e l peer inner known s =
     (if \<not> hasListenerAuthority l (mc_life s) then s
      else (case known of
              Some r \<Rightarrow>
                (let (ch, s1) = attach_owner e (fst l) peer (pr_name r) s
                 in tell (Routed (ch_id ch) peer (if isEnvelopeFrame inner then ToPlanes inner else ToStock inner)) s1)
            | None \<Rightarrow> send_inner e (fst l) peer unknown_peer_jv s))"

definition onMsg :: "nat \<times> nat \<Rightarrow> string \<Rightarrow> machine \<Rightarrow> machine" where
  "onMsg l line s =
     (case read_outer line of
        NoFrame \<Rightarrow> s
      | NullFrame \<Rightarrow> tell Rejected s
      | Frame peer ct \<Rightarrow>
          if \<not> hasListenerAuthority l (mc_life s) then s
          else (case read_inner ct of
                  None \<Rightarrow> s
                | Some inner \<Rightarrow>
                    (case jget inner ''type'' of
                       JStr type \<Rightarrow>
                         if type = ''pair_request'' then wait_for (PairLookup l peer inner None) s
                         else if mhas (rl_active (mc_life s)) peer then s
                         else wait_for (Lookup l peer inner None) s
                     | _ \<Rightarrow> s)))"

text \<open>The listener of a channel.\<close>

definition channel_line :: "channel \<Rightarrow> string \<Rightarrow> machine \<Rightarrow> machine" where
  "channel_line ch line s =
     (case onLine (ch_peer ch) line of
        Ignored \<Rightarrow> s
      | Thrown \<Rightarrow> tell Rejected s
      | d \<Rightarrow> tell (Routed (ch_id ch) (ch_peer ch) d) s)"

text \<open>The relay emits a line to its listeners in the order they were added: the automatic one first.\<close>

definition line_arrives :: "nat \<Rightarrow> string \<Rightarrow> machine \<Rightarrow> machine" where
  "line_arrives c line s =
     fold (\<lambda>ch. channel_line ch line) (filter (\<lambda>ch. ch_relay ch = c) (rl_attached (mc_life s)))
       (fold (\<lambda>l. onMsg l line) (filter (\<lambda>l. fst l = c) (rl_installed (mc_life s))) s)"

section \<open>Commands\<close>

definition pair_ready :: "site \<Rightarrow> string \<Rightarrow> machine \<Rightarrow> machine" where
  "pair_ready e args s =
     (let l = mc_life s
      in if \<not> rl_started l \<or> rl_relay l = None then tell (Told (if rl_deferred l then StartDeferred else RelayNeeded)) s
         else
           (let ttl = pair_ttl args;
                s1 = tell (Issued (st_token e) (st_now e + ttl)) (s\<lparr>mc_qr := issueToken (st_token e) ttl (st_now e)\<rparr>)
            in case (case rl_room l of Some r \<Rightarrow> Some r | None \<Rightarrow> st_derivedRoom e) of
                 None \<Rightarrow> tell (Told NoSessionRoom) s1
               | Some roomId \<Rightarrow>
                   (case rl_cached l of
                      None \<Rightarrow> tell Rejected s1
                    | Some kp \<Rightarrow>
                        tell (Told (QrReady (st_now e + ttl)))
                          (tell (PairCode (st_token e) (buildQRUri (st_token e) (fst kp) (st_display e) (Some roomId))) s1))))"

definition boot_pair :: "site \<Rightarrow> string \<Rightarrow> machine \<Rightarrow> machine" where
  "boot_pair e args s =
     (if \<not> rl_started (mc_life s) then wait_for (BootPair args True) (on_life (cmdStart False) s)
      else pair_ready e args s)"

definition cmdPair :: "site \<Rightarrow> string \<Rightarrow> machine \<Rightarrow> machine" where
  "cmdPair e args s =
     (if \<not> rl_started (mc_life s) then
        (if \<not> st_config e then tell (Told FirstTimeSetup) s
         else
           (let s1 = tell (Told StartingFirst) s
            in if rl_mesh (mc_life s1) = None then wait_for (BootPair args False) (on_life cmdJoin s1)
               else boot_pair e args s1))
      else pair_ready e args s)"

definition revoke_ready :: "string \<Rightarrow> machine \<Rightarrow> machine" where
  "revoke_ready shortId s =
     (if \<not> rl_started (mc_life s) \<or> rl_relay (mc_life s) = None then tell (Told RelayNeeded) s
      else wait_for (RevokeList shortId None) s)"

definition boot_revoke :: "string \<Rightarrow> machine \<Rightarrow> machine" where
  "boot_revoke shortId s =
     (if \<not> rl_started (mc_life s) then wait_for (BootRevoke shortId True) (on_life (cmdStart False) s)
      else revoke_ready shortId s)"

definition cmdRevoke :: "site \<Rightarrow> string \<Rightarrow> machine \<Rightarrow> machine" where
  "cmdRevoke e arg s =
     (let shortId = trimmed arg
      in if shortId = [] then tell (Told RevokeUsage) s
         else if \<not> rl_started (mc_life s) then
           (if \<not> st_config e then tell (Told FirstTimeSetup) s
            else
              (let s1 = tell (Told StartingFirst) s
               in if rl_mesh (mc_life s1) = None then wait_for (BootRevoke shortId False) (on_life cmdJoin s1)
                  else boot_revoke shortId s1))
         else revoke_ready shortId s)"

fun inspect_all :: "(byte list \<Rightarrow> byte list) \<Rightarrow> jv list \<Rightarrow> inspected list \<times> string list" where
  "inspect_all sha256 [] = ([], [])"
| "inspect_all sha256 (p # ps) =
     (let (i, log) = inspectPeerRecord sha256 p; (rest, log') = inspect_all sha256 ps
      in ((case i of Some x \<Rightarrow> x # rest | None \<Rightarrow> rest), log @ log'))"

definition revoke_list_result :: "(byte list \<Rightarrow> byte list) \<Rightarrow> string \<Rightarrow> jv list \<Rightarrow> machine \<Rightarrow> machine" where
  "revoke_list_result sha256 shortId peers s =
     (let (found, log) = inspect_all sha256 peers;
          s1 = tell (Warned log) s;
          matches = filter (\<lambda>i. starts_with shortId (ip_rawHandle i)) found
      in case matches of
           [] \<Rightarrow> tell (Told NoMatchingPeer) s1
         | [i] \<Rightarrow> wait_for (RevokeStore i None) s1
         | _ \<Rightarrow> tell (Told (AmbiguousShortid (length matches))) s1)"

text \<open>Whether the handle was still in the file does not matter; \<open>removed\<close> says that the removal did not throw.\<close>

definition revoke_store_result :: "inspected \<Rightarrow> bool \<Rightarrow> machine \<Rightarrow> machine" where
  "revoke_store_result i removed s =
     (if \<not> removed then tell Rejected s
      else
        (let s1 = refreshPairingsCache s;
             s2 = (case ip_runtimeKey i of
                     Some k \<Rightarrow> if mhas (rl_active (mc_life s1)) k then on_life (detachPeerChannel k) s1 else s1
                   | None \<Rightarrow> s1)
         in tell (Told (PeerRevoked (pr_name (ip_record i)) (shortid (ip_rawHandle i)))) s2))"

section \<open>Steps\<close>

text \<open>The disk does what a waiting function asked for.\<close>

fun disk_step :: "(byte list \<Rightarrow> byte list) \<Rightarrow> pair_task \<Rightarrow> disk \<Rightarrow> machine \<Rightarrow> (pair_task \<times> machine) option" where
  "disk_step sha256 (Lookup l peer inner None) d s =
     (let r = findKnownPeer sha256 peer (ps_file (mc_store s)) in Some (Lookup l peer inner (Some r), tell (Looked peer (fst r)) s))"
| "disk_step sha256 (PairLookup l peer inner None) d s =
     (let r = findKnownPeer sha256 peer (ps_file (mc_store s)) in Some (PairLookup l peer inner (Some r), tell (Looked peer (fst r)) s))"
| "disk_step sha256 (Storing l peer inner room at p e None) d s =
     (let (r, st) = addPeer \<lparr>pr_name = device_name inner, pr_remote_epk = peer, pr_paired_at = at\<rparr> d (mc_store s); ok = (r = Inr ())
      in Some (Storing l peer inner room at p e (Some ok), tell (Stored peer ok) (s\<lparr>mc_store := st\<rparr>)))"
| "disk_step sha256 (Refresh None) d s = Some (Refresh (Some (listPeers (ps_file (mc_store s)))), s)"
| "disk_step sha256 (RevokeList shortId None) d s = Some (RevokeList shortId (Some (listPeers (ps_file (mc_store s)))), s)"
| "disk_step sha256 (RevokeStore i None) d s =
     (let (r, st) = removePeer (ip_rawHandle i) NoCheck d (mc_store s); s1 = s\<lparr>mc_store := st\<rparr>
      in Some (RevokeStore i (Some (case r of Inr _ \<Rightarrow> True | Inl _ \<Rightarrow> False)),
           (if r = Inr True then tell (Unpaired (ip_rawHandle i)) s1 else s1)))"
| "disk_step _ _ _ _ = None"

text \<open>A function goes on. The start or the join that a command waits for is over at some time, any time here.\<close>

fun go_on :: "(byte list \<Rightarrow> byte list) \<Rightarrow> pair_task \<Rightarrow> site \<Rightarrow> (machine \<Rightarrow> machine) option" where
  "go_on sha256 (Lookup l peer inner (Some r)) e = Some (\<lambda>s. lookup_result e l peer inner (fst r) (tell (Warned (snd r)) s))"
| "go_on sha256 (PairLookup l peer inner (Some r)) e = Some (\<lambda>s. pair_lookup_result e l peer inner (fst r) (tell (Warned (snd r)) s))"
| "go_on sha256 (Storing l peer inner room at p ep (Some ok)) e = Some (storing_result e l peer inner room at p ep ok)"
| "go_on sha256 (Refresh (Some peers)) e = Some (refresh_result peers)"
| "go_on sha256 (RevokeList shortId (Some peers)) e = Some (revoke_list_result sha256 shortId peers)"
| "go_on sha256 (RevokeStore i (Some removed)) e = Some (revoke_store_result i removed)"
| "go_on sha256 (BootPair args False) e = Some (boot_pair e args)"
| "go_on sha256 (BootPair args True) e = Some (pair_ready e args)"
| "go_on sha256 (BootRevoke shortId False) e = Some (boot_revoke shortId)"
| "go_on sha256 (BootRevoke shortId True) e = Some (revoke_ready shortId)"
| "go_on _ _ _ = None"

datatype pair_input =
    LifeIn input
  | LineIn nat string
  | DiskIn pair_task disk
  | GoOn pair_task site
  | PairCmd string site
  | RevokeCmd string site
  | RefreshIn
  | StoreIn store_op

text \<open>Owners are attached by the listener alone, so the input of \<open>RelayLife\<close> that stands for it has no effect here.
  \<open>StoreIn\<close> is a sweep of this process, or another process, that works on the file.\<close>

fun pair_step :: "(byte list \<Rightarrow> byte list) \<Rightarrow> pair_input \<Rightarrow> machine \<Rightarrow> machine" where
  "pair_step sha256 (LifeIn i) s = (case i of PeerAttach l p \<Rightarrow> s | _ \<Rightarrow> on_life (life_step i) s)"
| "pair_step sha256 (LineIn c line) s = line_arrives c line s"
| "pair_step sha256 (DiskIn t d) s =
     (if t \<in> set (mc_tasks s)
      then (case disk_step sha256 t d s of
              Some (t', s') \<Rightarrow> s'\<lparr>mc_tasks := remove1 t (mc_tasks s) @ [t']\<rparr>
            | None \<Rightarrow> s)
      else s)"
| "pair_step sha256 (GoOn t e) s =
     (if t \<in> set (mc_tasks s)
      then (case go_on sha256 t e of Some f \<Rightarrow> f (s\<lparr>mc_tasks := remove1 t (mc_tasks s)\<rparr>) | None \<Rightarrow> s)
      else s)"
| "pair_step sha256 (PairCmd args e) s = cmdPair e args s"
| "pair_step sha256 (RevokeCmd arg e) s = cmdRevoke e arg s"
| "pair_step sha256 RefreshIn s = refreshPairingsCache s"
| "pair_step sha256 (StoreIn op) s = s\<lparr>mc_store := run_op op (mc_store s)\<rparr>"

definition pair_run :: "(byte list \<Rightarrow> byte list) \<Rightarrow> pair_input list \<Rightarrow> machine \<Rightarrow> machine" where
  "pair_run sha256 is s = fold (pair_step sha256) is s"

definition fresh_machine :: "peers_file \<Rightarrow> machine" where
  "fresh_machine f =
     \<lparr>mc_life = fresh_life, mc_qr = None, mc_store = fresh_store f, mc_tasks = [],
      mc_hasPairings = False, mc_log = []\<rparr>"

end
