(* ===== verification/RelayLifeProps.thy ===== *)
theory RelayLifeProps
  imports RelayLife
begin

text \<open>
  The invariants of the connection's life: what every sequence of inputs keeps, and from it what is shown of
  \<^verbatim>\<open>relay_lifecycle.ts\<close>: no connection is lost, a stop wins, a lost connection is always being restored, nothing listens to a connection
  that is not the current one, and clients know the state.
\<close>

section \<open>Larger steps\<close>

lemma status_emitted [simp]: "rl_lastStatus (emitRelayState f s) = Some (relayStatus s)"
  by (simp add: emitRelayState_def Let_def)

lemma relayStatus_say [simp]: "relayStatus (say e s) = relayStatus s"
  by (simp add: relayStatus_def)

lemma stopAutoListener_listener [simp]: "rl_listener (stopAutoListener s) = None"
  by (simp add: stopAutoListener_def split: option.split)

lemma detach_all_active [simp]: "rl_active (detach_all s) = []"
  "rl_attached (detach_all s) = filter (\<lambda>c. c \<notin> set (mvals (rl_active s))) (rl_attached s)"
  by (simp_all add: detach_all_eq)

lemma close_relay_fields [simp]:
  "rl_started (close_relay s) = rl_started s" "rl_relay (close_relay s) = None" "rl_url (close_relay s) = None"
  "rl_listener (close_relay s) = rl_listener s" "rl_installed (close_relay s) = rl_installed s" "rl_gen (close_relay s) = rl_gen s"
  "rl_timer (close_relay s) = rl_timer s" "rl_attempt (close_relay s) = rl_attempt s" "rl_active (close_relay s) = rl_active s"
  "rl_attached (close_relay s) = rl_attached s" "rl_disposed (close_relay s) = rl_disposed s" "rl_cached (close_relay s) = rl_cached s"
  "rl_producer (close_relay s) = rl_producer s" "rl_tasks (close_relay s) = rl_tasks s" "rl_next (close_relay s) = rl_next s"
  "rl_lastStatus (close_relay s) = rl_lastStatus s" "rl_deferred (close_relay s) = rl_deferred s"
  "tracked (close_relay s) = tracked s @ (case rl_relay s of Some c \<Rightarrow> [Shut c] | None \<Rightarrow> [])"
  by (simp_all add: close_relay_def Let_def split: option.split)

lemma stop_producer_none [simp]: "rl_producer (stop_producer s) = None"
  by (simp add: stop_producer_def Let_def split: option.split)

lemma goIdle_fields [simp]:
  "\<not> rl_started (goIdle s)" "rl_relay (goIdle s) = None" "rl_url (goIdle s) = None" "rl_listener (goIdle s) = None"
  "rl_installed (goIdle s) = rl_installed (stopAutoListener s)" "rl_gen (goIdle s) = Suc (rl_gen s)" "rl_timer (goIdle s) = None"
  "rl_attempt (goIdle s) = 0" "rl_active (goIdle s) = []"
  "rl_attached (goIdle s) = filter (\<lambda>c. c \<notin> set (mvals (rl_active s))) (rl_attached s)" "rl_disposed (goIdle s) = rl_disposed s"
  "rl_cached (goIdle s) = rl_cached s" "rl_producer (goIdle s) = None" "rl_tasks (goIdle s) = rl_tasks s" "rl_next (goIdle s) = rl_next s"
  "rl_lastStatus (goIdle s) = Some Disconnected" "rl_deferred (goIdle s) = rl_deferred s"
  "tracked (goIdle s) = tracked s @ (case rl_relay s of Some c \<Rightarrow> [Shut c] | None \<Rightarrow> [])"
  by (simp_all add: goIdle_def Let_def relayStatus_def, simp add: stopAutoListener_def split: option.split)

lemma setup_fields [simp]:
  "rl_started (setupRelayConnection c s) = rl_started s" "rl_relay (setupRelayConnection c s) = Some c"
  "rl_url (setupRelayConnection c s) = rl_url s" "rl_listener (setupRelayConnection c s) = Some (c, rl_gen s)"
  "rl_installed (setupRelayConnection c s) = rl_installed s @ [(c, rl_gen s)]" "rl_gen (setupRelayConnection c s) = rl_gen s"
  "rl_timer (setupRelayConnection c s) = rl_timer s" "rl_attempt (setupRelayConnection c s) = rl_attempt s"
  "rl_active (setupRelayConnection c s) = rl_active s" "rl_attached (setupRelayConnection c s) = rl_attached s"
  "rl_disposed (setupRelayConnection c s) = rl_disposed s" "rl_cached (setupRelayConnection c s) = rl_cached s"
  "rl_producer (setupRelayConnection c s) = rl_producer s" "rl_epoch (setupRelayConnection c s) = rl_epoch s"
  "rl_tasks (setupRelayConnection c s) = rl_tasks s" "rl_next (setupRelayConnection c s) = rl_next s"
  "rl_lastStatus (setupRelayConnection c s) = rl_lastStatus s" "rl_deferred (setupRelayConnection c s) = rl_deferred s"
  "tracked (setupRelayConnection c s) = tracked s @ [Published c]"
  by (simp_all add: setupRelayConnection_def, simp_all add: installAutoListener_def)

lemma opened_fields [simp]:
  "fst (open_connection u s) = rl_next s" "rl_next (snd (open_connection u s)) = Suc (rl_next s)"
  "tracked (snd (open_connection u s)) = tracked s @ [Opened (rl_next s) (toWebSocketUrl u)]"
  "rl_started (snd (open_connection u s)) = rl_started s" "rl_relay (snd (open_connection u s)) = rl_relay s"
  "rl_url (snd (open_connection u s)) = rl_url s" "rl_listener (snd (open_connection u s)) = rl_listener s"
  "rl_installed (snd (open_connection u s)) = rl_installed s" "rl_gen (snd (open_connection u s)) = rl_gen s"
  "rl_timer (snd (open_connection u s)) = rl_timer s" "rl_attempt (snd (open_connection u s)) = rl_attempt s"
  "rl_active (snd (open_connection u s)) = rl_active s" "rl_attached (snd (open_connection u s)) = rl_attached s"
  "rl_disposed (snd (open_connection u s)) = rl_disposed s" "rl_cached (snd (open_connection u s)) = rl_cached s"
  "rl_producer (snd (open_connection u s)) = rl_producer s" "rl_epoch (snd (open_connection u s)) = rl_epoch s"
  "rl_tasks (snd (open_connection u s)) = rl_tasks s" "rl_lastStatus (snd (open_connection u s)) = rl_lastStatus s"
  "rl_deferred (snd (open_connection u s)) = rl_deferred s"
  by (simp_all add: open_connection_def)

lemma await_tasks [simp]: "rl_tasks (await t s) = rl_tasks s @ [t]"
  by (simp add: await_def)

section \<open>Candidates and timers\<close>

fun gen_of :: "task \<Rightarrow> nat option" where
  "gen_of (StartIdentity g ctl) = Some g"
| "gen_of (StartConnect c g url short room ctl) = Some g"
| "gen_of (ReconnectWait c g url) = Some g"
| "gen_of _ = None"

text \<open>The tasks that may still publish a connection.\<close>

definition live :: "'z life_scheme \<Rightarrow> task list" where
  "live s = filter (\<lambda>t. gen_of t = Some (rl_gen s)) (rl_tasks s)"

definition ending :: "'z life_scheme \<Rightarrow> bool" where
  "ending s \<longleftrightarrow> ShutdownWait \<in> set (rl_tasks s)"

definition up_ok :: "'z life_scheme \<Rightarrow> bool" where
  "up_ok s \<longleftrightarrow>
     (if rl_started s then (\<exists>c u. rl_url s = Some (c # u)) \<and> rl_cached s \<noteq> None \<and> (rl_disposed s \<longrightarrow> ending s)
      else rl_relay s = None \<and> rl_url s = None \<and> rl_timer s = None \<and> rl_producer s = None \<and> rl_attempt s = 0)"

fun task_ok :: "'z life_scheme \<Rightarrow> task \<Rightarrow> bool" where
  "task_ok s (StartIdentity g ctl) \<longleftrightarrow> g \<le> rl_gen s"
| "task_ok s (StartConnect c g url short room ctl) \<longleftrightarrow> g \<le> rl_gen s \<and> url \<noteq> [] \<and> rl_cached s \<noteq> None"
| "task_ok s (ReconnectWait c g url) \<longleftrightarrow>
     g \<le> rl_gen s \<and> (g = rl_gen s \<longrightarrow> rl_started s \<and> rl_relay s = None \<and> rl_url s = Some url)"
| "task_ok s _ \<longleftrightarrow> True"

definition single :: "'z life_scheme \<Rightarrow> bool" where
  "single s \<longleftrightarrow> length (live s) + (if rl_timer s = None then 0 else 1) \<le> 1 \<and>
     (rl_relay s \<noteq> None \<longrightarrow> live s = [] \<and> rl_timer s = None \<and> rl_attempt s = 0)"

definition timer_ok :: "'z life_scheme \<Rightarrow> bool" where
  "timer_ok s \<longleftrightarrow> (\<forall>g u. rl_timer s = Some (g, u) \<longrightarrow>
     rl_started s \<and> rl_relay s = None \<and> rl_url s = Some u \<and> g \<le> rl_gen s \<and> (g = rl_gen s \<or> ending s))"

definition restoring :: "'z life_scheme \<Rightarrow> bool" where
  "restoring s \<longleftrightarrow> (rl_started s \<and> rl_relay s = None \<longrightarrow>
     rl_timer s \<noteq> None \<or> (\<exists>c u. ReconnectWait c (rl_gen s) u \<in> set (rl_tasks s)) \<or> ending s)"

definition steady :: "'z life_scheme \<Rightarrow> bool" where
  "steady s \<longleftrightarrow> up_ok s \<and> (\<forall>t \<in> set (rl_tasks s). task_ok s t) \<and> single s \<and> timer_ok s"

definition core_inv :: "'z life_scheme \<Rightarrow> bool" where
  "core_inv s \<longleftrightarrow> steady s \<and> restoring s"

lemmas core_defs = core_inv_def steady_def up_ok_def single_def timer_ok_def restoring_def live_def ending_def

text \<open>Steps that leave these fields alone keep the invariant.\<close>

definition same_core :: "'z life_scheme \<Rightarrow> 'z life_scheme \<Rightarrow> bool" where
  "same_core s s' \<longleftrightarrow> rl_started s' = rl_started s \<and> rl_relay s' = rl_relay s \<and> rl_url s' = rl_url s \<and> rl_gen s' = rl_gen s \<and>
     rl_timer s' = rl_timer s \<and> rl_attempt s' = rl_attempt s \<and> rl_disposed s' = rl_disposed s \<and> rl_cached s' = rl_cached s \<and>
     rl_producer s' = rl_producer s \<and> rl_tasks s' = rl_tasks s"

lemma task_ok_same: "same_core s s' \<Longrightarrow> task_ok s' t = task_ok s t"
  by (cases t) (simp_all add: same_core_def)

lemma same_core_cong:
  assumes "same_core s s'"
  shows "core_inv s' = core_inv s" and "steady s' = steady s"
proof -
  have t: "task_ok s' t = task_ok s t" for t by (rule task_ok_same [OF assms])
  have "up_ok s' = up_ok s" "single s' = single s" "timer_ok s' = timer_ok s" "restoring s' = restoring s"
    using assms by (simp_all add: same_core_def core_defs)
  then show "core_inv s' = core_inv s" "steady s' = steady s"
    using assms by (simp_all add: core_inv_def steady_def t same_core_def)
qed

section \<open>Every step keeps it\<close>

lemma old_live: "\<forall>t \<in> set (rl_tasks s). task_ok s t \<Longrightarrow> filter (\<lambda>t. gen_of t = Some (Suc (rl_gen s))) (rl_tasks s) = []"
proof -
  assume a: "\<forall>t \<in> set (rl_tasks s). task_ok s t"
  have "gen_of t \<noteq> Some (Suc (rl_gen s))" if "t \<in> set (rl_tasks s)" for t
    using a [rule_format, OF that] by (cases t) auto
  then show ?thesis by (simp add: filter_empty_conv)
qed

text \<open>A new generation leaves no candidate alive.\<close>

lemma task_ok_older:
  assumes "task_ok s t" and "rl_gen s < rl_gen s'" and "rl_cached s' = rl_cached s"
  shows "task_ok s' t"
  using assms by (cases t) auto

lemma steady_goIdle:
  assumes "steady s"
  shows "steady (goIdle s)"
proof -
  have t: "\<forall>t \<in> set (rl_tasks s). task_ok s t" using assms by (simp add: steady_def)
  then have "\<forall>t \<in> set (rl_tasks s). task_ok (goIdle s) t" using task_ok_older [of s _ "goIdle s"] by simp
  moreover have "live (goIdle s) = []" using old_live [OF t] by (simp add: live_def)
  ultimately show ?thesis by (simp add: steady_def up_ok_def single_def timer_ok_def)
qed

lemma core_goIdle: "core_inv s \<Longrightarrow> core_inv (goIdle s)"
  by (simp add: core_inv_def steady_goIdle restoring_def)

lemma core_bump_idle:
  assumes "steady s" and "\<not> rl_started s" and "same_core (s\<lparr>rl_gen := Suc (rl_gen s)\<rparr>) s'"
  shows "core_inv s'"
proof -
  let ?s = "s\<lparr>rl_gen := Suc (rl_gen s)\<rparr>"
  have t: "\<forall>t \<in> set (rl_tasks s). task_ok s t" using assms by (simp add: steady_def)
  then have "\<forall>t \<in> set (rl_tasks s). task_ok ?s t" using task_ok_older [of s _ ?s] by simp
  moreover have "live ?s = []" using old_live [OF t] by (simp add: live_def)
  ultimately have "core_inv ?s" using assms(1,2) by (simp add: core_inv_def steady_def up_ok_def single_def timer_ok_def restoring_def)
  then show ?thesis using same_core_cong [OF assms(3)] by simp
qed

lemma core_quiet: "core_inv s \<Longrightarrow> same_core s s' \<Longrightarrow> core_inv s'"
  using same_core_cong by blast

text \<open>A task that cannot publish may come and go.\<close>

lemma core_await:
  assumes "core_inv s" and "gen_of t = None" and "t \<noteq> ShutdownWait" and "same_core (await t s) s'"
  shows "core_inv s'"
proof -
  have k: "task_ok x t" "task_ok (await t s) u = task_ok s u" for x u
    using assms(2) by (cases t; simp) (cases u; simp)
  have e: "ending (await t s) = ending s" "live (await t s) = live s" using assms(2,3) by (auto simp: ending_def live_def)
  have w: "ReconnectWait c g u \<noteq> t" for c g u using assms(2) by auto
  have "up_ok (await t s) = up_ok s" "single (await t s) = single s" "timer_ok (await t s) = timer_ok s" "restoring (await t s) = restoring s"
    by (simp_all add: up_ok_def single_def timer_ok_def restoring_def e w)
  then have "core_inv (await t s)" using assms(1) by (simp add: core_inv_def steady_def k)
  then show ?thesis using same_core_cong [OF assms(4)] by simp
qed


lemma core_await_live:
  assumes s: "steady s" and l: "live s = []" "rl_timer s = None" "rl_relay s = None" and t: "task_ok s t" "gen_of t = Some (rl_gen s)"
    and r: "restoring s \<or> (\<exists>c u. t = ReconnectWait c (rl_gen s) u)" and c: "same_core (await t s) s'"
  shows "core_inv s'"
proof -
  have k: "task_ok (await t s) u = task_ok s u" for u by (cases u) simp_all
  have e: "ending (await t s) = ending s" "live (await t s) = [t]" using t(2) l(1) by (auto simp: ending_def live_def)
  have "up_ok (await t s) = up_ok s" by (simp add: up_ok_def e)
  moreover have "single (await t s)" "timer_ok (await t s)" using l by (simp_all add: single_def timer_ok_def e)
  moreover have "restoring (await t s)" using r by (auto simp: restoring_def e)
  ultimately have "core_inv (await t s)" using s t(1) by (simp add: core_inv_def steady_def k)
  then show ?thesis using same_core_cong [OF c] by simp
qed

text \<open>Taking a task off the list.\<close>

definition resumed :: "task \<Rightarrow> 'z life_scheme \<Rightarrow> 'z life_scheme" where
  "resumed t s = s\<lparr>rl_tasks := remove1 t (rl_tasks s)\<rparr>"

lemma resumed_fields [simp]:
  "rl_started (resumed t s) = rl_started s" "rl_relay (resumed t s) = rl_relay s" "rl_url (resumed t s) = rl_url s"
  "rl_listener (resumed t s) = rl_listener s" "rl_installed (resumed t s) = rl_installed s" "rl_gen (resumed t s) = rl_gen s"
  "rl_timer (resumed t s) = rl_timer s" "rl_attempt (resumed t s) = rl_attempt s" "rl_active (resumed t s) = rl_active s"
  "rl_attached (resumed t s) = rl_attached s" "rl_disposed (resumed t s) = rl_disposed s" "rl_cached (resumed t s) = rl_cached s"
  "rl_producer (resumed t s) = rl_producer s" "rl_epoch (resumed t s) = rl_epoch s" "rl_tasks (resumed t s) = remove1 t (rl_tasks s)"
  "rl_next (resumed t s) = rl_next s" "rl_lastStatus (resumed t s) = rl_lastStatus s" "rl_deferred (resumed t s) = rl_deferred s"
  "tracked (resumed t s) = tracked s" "relayStatus (resumed t s) = relayStatus s" "rl_log (resumed t s) = rl_log s"
  by (simp_all add: resumed_def relayStatus_def)

lemma live_resumed: "live (resumed t s) = remove1 t (live s)"
  by (simp add: live_def filter_remove1)

lemma steady_resumed:
  assumes "steady s" and "t \<noteq> ShutdownWait"
  shows "steady (resumed t s)"
proof -
  have k: "task_ok (resumed t s) u = task_ok s u" for u by (cases u) simp_all
  have e: "ending (resumed t s) = ending s" using assms(2) by (simp add: ending_def in_set_remove1)
  have l: "length (live (resumed t s)) \<le> length (live s)" by (simp add: live_resumed length_remove1)
  have n: "live s = [] \<Longrightarrow> live (resumed t s) = []" by (simp add: live_resumed)
  have "single (resumed t s)" using assms(1) l n by (auto simp: steady_def single_def)
  moreover have "\<forall>u \<in> set (remove1 t (rl_tasks s)). task_ok s u" using assms(1) notin_set_remove1 by (fastforce simp: steady_def)
  ultimately show ?thesis using assms by (simp add: steady_def k up_ok_def timer_ok_def e)
qed

lemma core_resumed:
  assumes "core_inv s" and "t \<noteq> ShutdownWait" and "\<And>c u. t \<noteq> ReconnectWait c (rl_gen s) u"
  shows "core_inv (resumed t s)"
proof -
  have e: "ending (resumed t s) = ending s" using assms(2) by (simp add: ending_def in_set_remove1)
  have "ReconnectWait c (rl_gen s) u \<in> set (remove1 t (rl_tasks s)) \<longleftrightarrow> ReconnectWait c (rl_gen s) u \<in> set (rl_tasks s)" for c u
    using assms(3) [of c u] by (simp add: in_set_remove1)
  then have "restoring (resumed t s)" using assms(1) by (simp add: core_inv_def restoring_def e)
  then show ?thesis using assms(1) steady_resumed [of s t, OF _ assms(2)] by (simp add: core_inv_def)
qed

lemma resumed_alone:
  assumes "steady s" and "t \<in> set (rl_tasks s)" and "gen_of t = Some (rl_gen s)"
  shows "live (resumed t s) = []" and "rl_timer s = None" and "rl_relay s = None"
proof -
  have t: "t \<in> set (live s)" using assms by (simp add: live_def)
  have n: "length (live s) + (if rl_timer s = None then 0 else 1) \<le> 1" "rl_relay s \<noteq> None \<longrightarrow> live s = []"
    using assms(1) by (auto simp: steady_def single_def)
  have m: "rl_timer s = None" using n(1) t by (cases "live s") (auto split: if_splits)
  have "live s = [t]" using n(1) t by (cases "live s") (auto split: if_splits)
  then show "live (resumed t s) = []" "rl_timer s = None" "rl_relay s = None" using n(2) m by (auto simp: live_resumed)
qed

section \<open>Starts\<close>

lemma current_candidate_gen: "isCurrentCandidate gen s \<Longrightarrow> gen = rl_gen s"
  by (simp add: isCurrentCandidate_def)

lemma core_cached:
  assumes "core_inv s"
  shows "core_inv (s\<lparr>rl_cached := Some kp\<rparr>)"
proof -
  have "task_ok (s\<lparr>rl_cached := Some kp\<rparr>) t" if "task_ok s t" for t using that by (cases t) simp_all
  moreover have "up_ok (s\<lparr>rl_cached := Some kp\<rparr>)" using assms by (simp add: core_inv_def steady_def up_ok_def ending_def split: if_splits)
  ultimately show ?thesis using assms
    by (simp add: core_inv_def steady_def single_def timer_ok_def restoring_def live_def ending_def)
qed

lemma same_core_simps:
  "same_core s (say e s)" "same_core s (finish f s)" "same_core s (emitRelayState f s)" "same_core s (attachBridgeIfReady s)"
  "same_core s (detachBridge s)" "same_core s (set_mesh_topology t s)" "same_core s (leave_mesh s)"
  "same_core s (snd (open_connection u s))" "same_core s (detachPeerChannel p s)" "same_core s (onPeerDisconnect q s)"
  "same_core s (revokeActiveOwnerRuntime p s)" "same_core s (snd (attachOwner c p s))" "same_core s (detach_all s)" "same_core s (stopAutoListener s)"
  "same_core s (s\<lparr>rl_deferred := b\<rparr>)" "same_core s (s\<lparr>rl_topology := tp\<rparr>)" "same_core s (s\<lparr>rl_readyEpoch := e'\<rparr>)"
  "same_core s (s\<lparr>rl_rootGen := n\<rparr>)" "same_core s (s\<lparr>rl_joinGen := n\<rparr>)" "same_core s (s\<lparr>rl_mesh := m\<rparr>)" "same_core s (s\<lparr>rl_next := n\<rparr>)"
  by (simp_all add: same_core_def)

lemma core_steps:
  "core_inv s \<Longrightarrow> core_inv (say e s)" "core_inv s \<Longrightarrow> core_inv (finish f s)" "core_inv s \<Longrightarrow> core_inv (emitRelayState f s)"
  "core_inv s \<Longrightarrow> core_inv (attachBridgeIfReady s)" "core_inv s \<Longrightarrow> core_inv (detachBridge s)" "core_inv s \<Longrightarrow> core_inv (set_mesh_topology t s)"
  "core_inv s \<Longrightarrow> core_inv (leave_mesh s)" "core_inv s \<Longrightarrow> core_inv (onPeerDisconnect q s)" "core_inv s \<Longrightarrow> core_inv (revokeActiveOwnerRuntime p s)"
  "core_inv s \<Longrightarrow> core_inv (snd (attachOwner c p s))" "core_inv s \<Longrightarrow> core_inv (s\<lparr>rl_deferred := b\<rparr>)"
  by (erule core_quiet, rule same_core_simps)+

lemma core_identity:
  assumes "core_inv s" and "gen = rl_gen s \<Longrightarrow> live s = [] \<and> rl_timer s = None"
  shows "core_inv (identity_result gen ctl res env cfg room s)"
proof (cases "isCurrentCandidate gen s")
  case True
  then have g: "gen = rl_gen s" "\<not> rl_started s" "rl_relay s = None" by (simp_all add: isCurrentCandidate_def)
  then have l: "live s = []" "rl_timer s = None" using assms(2) by simp_all
  have started: "core_inv (await (StartConnect c gen url sh r ctl) (snd (open_connection url (say e (s\<lparr>rl_cached := Some kp\<rparr>)))))"
    if "url \<noteq> []" for c url sh r e kp
  proof (rule core_await_live [of "s\<lparr>rl_cached := Some kp\<rparr>" "StartConnect c gen url sh r ctl"])
    show "steady (s\<lparr>rl_cached := Some kp\<rparr>)" "restoring (s\<lparr>rl_cached := Some kp\<rparr>) \<or> (\<exists>c' u. StartConnect c gen url sh r ctl = ReconnectWait c' (rl_gen (s\<lparr>rl_cached := Some kp\<rparr>)) u)"
      using core_cached [OF assms(1)] by (simp_all add: core_inv_def)
  qed (use l g that in \<open>simp_all add: live_def same_core_def await_def\<close>)
  have ne: "resolveRelayUrl env cfg = Some url \<Longrightarrow> url \<noteq> []" for url
    by (auto simp: resolveRelayUrl_def toHttpUrl_def split: option.splits list.splits if_splits)
  show ?thesis
  proof (cases res)
    case (Identity kp)
    show ?thesis
    proof (cases "resolveRelayUrl env cfg")
      case None
      then show ?thesis using True Identity core_cached [OF assms(1), of kp] by (simp add: identity_result_def core_steps)
    next
      case (Some url)
      then show ?thesis using True Identity core_cached [OF assms(1), of kp] started [OF ne [OF Some]]
        by (cases room) (simp_all add: identity_result_def core_steps Let_def split_def)
    qed
  qed (use True assms(1) in \<open>simp_all add: identity_result_def core_steps\<close>)
next
  case False
  then show ?thesis using assms(1) by (simp add: identity_result_def core_steps)
qed


lemma core_publish:
  assumes s: "steady s" and l: "live s = []" "rl_timer s = None" "rl_attempt s' = 0"
    and u: "rl_url s' = Some (c' # u)" "rl_cached s' = rl_cached s" "rl_cached s \<noteq> None" "rl_disposed s' \<longrightarrow> ending s"
    and p: "rl_started s'" "rl_relay s' = Some c" "rl_timer s' = None" "rl_gen s' = rl_gen s" "rl_tasks s' = rl_tasks s"
  shows "core_inv s'"
proof -
  have e: "ending s' = ending s" "live s' = []" using l p by (simp_all add: ending_def live_def)
  have "task_ok s' t" if "t \<in> set (rl_tasks s)" for t
  proof -
    have "task_ok s t" "gen_of t \<noteq> Some (rl_gen s)" using that s l(1) by (simp_all add: steady_def live_def filter_empty_conv)
    then show ?thesis using p u by (cases t) simp_all
  qed
  then show ?thesis using l u p e by (simp add: core_inv_def steady_def up_ok_def single_def timer_ok_def restoring_def)
qed

lemma core_start:
  assumes "core_inv s" and "gen = rl_gen s \<Longrightarrow> live s = [] \<and> rl_timer s = None" and "url \<noteq> []" and "rl_cached s \<noteq> None"
  shows "core_inv (start_result c gen url short room ctl res now s)"
proof (cases "isCurrentCandidate gen s \<and> res = ConnectOk")
  case True
  then have g: "gen = rl_gen s" "\<not> rl_started s" "rl_relay s = None" "\<not> rl_disposed s" by (simp_all add: isCurrentCandidate_def)
  then have l: "live s = []" "rl_timer s = None" using assms(2) by simp_all
  have p: "rl_producer s = None" "rl_attempt s = 0" using assms(1) g(2) by (simp_all add: core_inv_def steady_def up_ok_def)
  obtain h u where "url = h # u" using assms(3) by (cases url) auto
  define s0 where "s0 = s\<lparr>rl_relay := Some c, rl_url := Some url, rl_short := short, rl_room := Some room,
                    rl_started := True, rl_startedAt := (case rl_startedAt s of None \<Rightarrow> Some now | old \<Rightarrow> old)\<rparr>"
  define s1 where "s1 = setupRelayConnection c s0"
  define s2 where "s2 = say (ProducerStarted (rl_next s1)) (s1\<lparr>rl_epoch := Suc (rl_epoch s1), rl_readyEpoch := None,
     rl_topology := None, rl_producer := Some (rl_next s1), rl_next := Suc (rl_next s1)\<rparr>)"
  have f: "rl_attempt s2 = 0" "rl_url s2 = Some (h # u)" "rl_cached s2 = rl_cached s" "rl_disposed s2 \<longrightarrow> ending s" "rl_started s2"
      "rl_relay s2 = Some c" "rl_timer s2 = None" "rl_gen s2 = rl_gen s" "rl_tasks s2 = rl_tasks s"
    by (simp_all add: s2_def s1_def s0_def p g l \<open>url = h # u\<close>)
  have "core_inv s2"
    by (rule core_publish [of s s2, OF _ l f(1,2,3) assms(4) f(4-9)]) (use assms(1) in \<open>simp add: core_inv_def\<close>)
  then have "core_inv (await (StartSweep c (rl_next s1) (Suc (rl_epoch s1)) short url ctl) s2)"
    by (rule core_await) (simp_all add: same_core_def)
  then show ?thesis using True p by (simp add: start_result_def Let_def s0_def s1_def s2_def)
next
  case False
  then show ?thesis using assms(1) by (auto simp: start_result_def Let_def intro!: core_steps)
qed

lemma core_sweep: "core_inv s \<Longrightarrow> core_inv (sweep_result c p e short url ctl s)"
  by (simp add: sweep_result_def core_steps)

section \<open>Reconnects\<close>

lemma core_schedule:
  assumes "steady s" and "isCurrentReconnect gen url s \<Longrightarrow> live s = []"
    and "restoring s \<or> isCurrentReconnect gen url s"
  shows "core_inv (scheduleReconnect gen url s)"
proof (cases "rl_timer s \<noteq> None \<or> rl_cached s = None \<or> \<not> isCurrentReconnect gen url s")
  case True
  have "rl_cached s \<noteq> None" if "rl_started s" using assms(1) that by (simp add: steady_def up_ok_def)
  then have "restoring s" using True assms(3) by (auto simp: restoring_def isCurrentReconnect_def)
  then show ?thesis using True assms(1) by (auto simp: scheduleReconnect_def core_inv_def)
next
  case False
  then have d: "rl_timer s = None" "isCurrentReconnect gen url s" by blast+
  then have c: "gen = rl_gen s" "rl_started s" "rl_relay s = None" "rl_url s = Some url" "rl_timer s = None" "live s = []"
    using assms(2) by (simp_all only: isCurrentReconnect_def)
  let ?s = "s\<lparr>rl_attempt := Suc (rl_attempt s), rl_timer := Some (rl_gen s, url)\<rparr>"
  have k: "task_ok ?s t = task_ok s t" for t by (cases t) simp_all
  have e: "ending ?s = ending s" "live ?s = []" using c(6) by (simp_all add: ending_def live_def)
  have "up_ok ?s" using assms(1) c by (simp add: steady_def up_ok_def e)
  then have "core_inv ?s" using assms(1) c by (simp add: core_inv_def steady_def k single_def timer_ok_def restoring_def e)
  then show ?thesis using False c(1) by (cases "rl_timer s") (auto simp: scheduleReconnect_def Let_def core_steps)
qed

lemma core_reconnect:
  assumes s: "steady s" and l: "gen = rl_gen s \<Longrightarrow> live s = [] \<and> rl_timer s = None" and r: "restoring s \<or> isCurrentReconnect gen url s"
  shows "core_inv (reconnect_result c gen url res s)"
proof (cases "isCurrentReconnect gen url s")
  case True
  then have g: "gen = rl_gen s" "rl_started s" "rl_relay s = None" "rl_url s = Some url" by (simp_all add: isCurrentReconnect_def)
  then have q: "live s = []" "rl_timer s = None" using l by simp_all
  obtain h u where u: "url = h # u" "rl_cached s \<noteq> None" "rl_disposed s \<longrightarrow> ending s" using s g by (auto simp: steady_def up_ok_def)
  define s1 where "s1 = setupRelayConnection c (s\<lparr>rl_attempt := 0\<rparr>)"
  have "core_inv s1"
    by (rule core_publish [of s s1 h u c, OF s q]) (use g q u in \<open>simp_all add: s1_def\<close>)
  then have ok: "core_inv (emitRelayState False (attachBridgeIfReady s1))" by (intro core_steps)
  have "steady (say (Shut c) s) = steady s" by (rule same_core_cong(2)) (rule same_core_simps)
  then have "steady (say (Shut c) s)" "isCurrentReconnect gen url (say (Shut c) s)" "live (say (Shut c) s) = []"
    using s g q by (simp_all add: isCurrentReconnect_def live_def)
  then have "core_inv (scheduleReconnect gen url (say (Shut c) s))" by (intro core_schedule) simp_all
  then show ?thesis using ok True by (auto simp: reconnect_result_def Let_def s1_def isCurrentReconnect_def)
next
  case False
  then have "core_inv s" using s r by (simp add: core_inv_def)
  then show ?thesis using False by (auto simp: reconnect_result_def Let_def isCurrentReconnect_def intro!: core_steps)
qed

lemma core_timer:
  assumes "core_inv s"
  shows "core_inv (timer_fires s)"
proof (cases "rl_timer s")
  case None
  then show ?thesis using assms by (simp add: timer_fires_def)
next
  case (Some gu)
  obtain gen url where gu: "gu = (gen, url)" by (cases gu) auto
  let ?s = "s\<lparr>rl_timer := None\<rparr>"
  have s: "steady s" and t: "rl_started s" "rl_relay s = None" "rl_url s = Some url" "gen = rl_gen s \<or> ending s" "live s = []"
    "rl_cached s \<noteq> None"
    using assms Some gu by (auto simp: core_inv_def steady_def timer_ok_def single_def up_ok_def)
  have k: "task_ok ?s u = task_ok s u" for u by (cases u) simp_all
  have e: "ending ?s = ending s" "live ?s = []" using t(5) by (simp_all add: ending_def live_def)
  have st: "steady ?s" using s t by (simp add: steady_def k up_ok_def single_def timer_ok_def e)
  show ?thesis
  proof (cases "isCurrentReconnect gen url ?s")
    case True
    then have "gen = rl_gen ?s" by (simp add: isCurrentReconnect_def)
    then have "core_inv (await (ReconnectWait c gen url) (snd (open_connection url ?s)))" for c
      by (intro core_await_live [OF st, of "ReconnectWait c gen url"]) (use t e in \<open>simp_all add: same_core_def\<close>)
    then show ?thesis using True Some gu t by (auto simp add: timer_fires_def attemptReconnect_def split_def Let_def)
  next
    case False
    then have "ending s" using t by (auto simp: isCurrentReconnect_def)
    then show ?thesis using False Some gu st by (simp add: timer_fires_def core_inv_def restoring_def e)
  qed
qed

lemma core_closed:
  assumes "core_inv s"
  shows "core_inv (onRelayClose c s)"
proof (cases "rl_relay s = Some c \<and> rl_started s")
  case True
  define s1 where "s1 = emitRelayState False ((detachBridge ((detach_all (stopAutoListener (s\<lparr>rl_gen := Suc (rl_gen s)\<rparr>)))\<lparr>rl_relay := None\<rparr>))
      \<lparr>rl_started := True\<rparr>)"
  have s: "steady s" using assms by (simp add: core_inv_def)
  then have t: "\<forall>t \<in> set (rl_tasks s). task_ok s t" by (simp add: steady_def)
  have f: "rl_started s1" "rl_relay s1 = None" "rl_gen s1 = Suc (rl_gen s)" "rl_url s1 = rl_url s" "rl_tasks s1 = rl_tasks s"
    "rl_timer s1 = rl_timer s" "rl_cached s1 = rl_cached s" "rl_disposed s1 = rl_disposed s" "rl_producer s1 = rl_producer s"
    "rl_attempt s1 = rl_attempt s" by (simp_all add: s1_def)
  obtain h u where u: "rl_url s = Some (h # u)" using s True by (auto simp: steady_def up_ok_def)
  have e: "ending s1 = ending s" "live s1 = []" using f old_live [OF t] by (simp_all add: ending_def live_def)
  have "\<forall>t \<in> set (rl_tasks s). task_ok s1 t" using t task_ok_older [of s _ s1] f by simp
  moreover have "rl_timer s = None" using s True by (auto simp: steady_def single_def)
  ultimately have "steady s1" using s f e True by (simp add: steady_def up_ok_def single_def timer_ok_def)
  moreover have "isCurrentReconnect (rl_gen s1) (h # u) s1" using f u by (simp add: isCurrentReconnect_def)
  ultimately have "core_inv (scheduleReconnect (rl_gen s1) (h # u) s1)" using e by (intro core_schedule) simp_all
  moreover have "onRelayClose c s = scheduleReconnect (rl_gen s1) (h # u) s1"
    using True u f(4) by (simp add: onRelayClose_def Let_def s1_def [symmetric])
  ultimately show ?thesis by simp
next
  case False
  then show ?thesis using assms by (simp add: onRelayClose_def)
qed


section \<open>Stops and sessions\<close>

lemma core_idle:
  assumes "\<forall>t \<in> set (rl_tasks s). task_ok s t"
  shows "core_inv (goIdle s)"
proof -
  have "\<forall>t \<in> set (rl_tasks s). task_ok (goIdle s) t" using assms task_ok_older [of s _ "goIdle s"] by simp
  moreover have "live (goIdle s) = []" using old_live [OF assms] by (simp add: live_def)
  ultimately show ?thesis by (simp add: core_inv_def restoring_def steady_def up_ok_def single_def timer_ok_def)
qed

lemma core_disposed:
  assumes "core_inv s" and "\<not> b \<or> \<not> rl_started s"
  shows "core_inv (s\<lparr>rl_disposed := b\<rparr>)"
proof -
  have k: "task_ok (s\<lparr>rl_disposed := b\<rparr>) t = task_ok s t" for t by (cases t) simp_all
  have e: "ending (s\<lparr>rl_disposed := b\<rparr>) = ending s" "live (s\<lparr>rl_disposed := b\<rparr>) = live s" by (simp_all add: ending_def live_def)
  have "up_ok (s\<lparr>rl_disposed := b\<rparr>)" using assms by (simp add: core_inv_def steady_def up_ok_def e split: if_splits)
  then show ?thesis using assms by (simp add: core_inv_def steady_def k single_def timer_ok_def restoring_def e)
qed

lemma core_resumed_idle:
  assumes "core_inv s" and "\<not> rl_started s"
  shows "core_inv (resumed t s)"
proof -
  have k: "task_ok (resumed t s) u = task_ok s u" for u by (cases u) simp_all
  have l: "length (live (resumed t s)) \<le> length (live s)" by (simp add: live_resumed length_remove1)
  have "single (resumed t s)" using assms l by (auto simp: core_inv_def steady_def up_ok_def single_def)
  moreover have "\<forall>u \<in> set (remove1 t (rl_tasks s)). task_ok s u" using assms(1) notin_set_remove1 by (fastforce simp: core_inv_def steady_def)
  ultimately show ?thesis using assms by (simp add: core_inv_def steady_def k up_ok_def timer_ok_def restoring_def)
qed

lemma core_rest: "\<forall>t \<in> set (rl_tasks s). task_ok s t \<Longrightarrow> \<not> rl_started s \<longrightarrow> core_inv s \<Longrightarrow> core_inv (shutdown_rest s)"
  by (simp add: shutdown_rest_def core_steps core_idle)

lemma core_cmdStart: "core_inv s \<Longrightarrow> core_inv (cmdStart ctl s)"
proof (cases "rl_started s")
  case False
  assume c: "core_inv s"
  let ?s = "s\<lparr>rl_gen := Suc (rl_gen s)\<rparr>"
  have "core_inv ?s" using c False by (intro core_bump_idle [of s]) (simp_all add: core_inv_def same_core_def)
  moreover have "live ?s = []" using old_live [of s] c by (simp add: core_inv_def steady_def live_def)
  ultimately have "core_inv (await (StartIdentity (Suc (rl_gen s)) ctl) ?s)"
    by (intro core_await_live [of ?s "StartIdentity (Suc (rl_gen s)) ctl"])
      (use c False in \<open>simp_all add: core_inv_def steady_def up_ok_def same_core_def\<close>)
  then show ?thesis using False by (simp add: cmdStart_def)
qed (simp add: cmdStart_def core_steps)

lemma core_fields:
  "core_inv s \<Longrightarrow> core_inv (s\<lparr>rl_rootGen := n\<rparr>)" "core_inv s \<Longrightarrow> core_inv (s\<lparr>rl_joinGen := n\<rparr>)"
  "core_inv s \<Longrightarrow> core_inv (s\<lparr>rl_mesh := m\<rparr>)" "core_inv s \<Longrightarrow> core_inv (s\<lparr>rl_next := n\<rparr>)"
  "core_inv s \<Longrightarrow> core_inv (s\<lparr>rl_topology := tp\<rparr>)" "core_inv s \<Longrightarrow> core_inv (s\<lparr>rl_readyEpoch := e'\<rparr>)"
  by (erule core_quiet, rule same_core_simps)+

lemma core_waiting: "core_inv s \<Longrightarrow> gen_of t = None \<Longrightarrow> t \<noteq> ShutdownWait \<Longrightarrow> core_inv (await t s)"
  by (erule core_await) (simp_all add: same_core_def)

lemma core_idle_gen: "core_inv s \<Longrightarrow> \<not> rl_started s \<Longrightarrow> core_inv (s\<lparr>rl_gen := Suc (rl_gen s)\<rparr>)"
  by (rule core_bump_idle [of s]) (simp_all add: core_inv_def same_core_def)

lemma core_cmdStop:
  assumes "core_inv s"
  shows "core_inv (cmdStop s)"
proof -
  define x where "x = s\<lparr>rl_rootGen := Suc (rl_rootGen s), rl_joinGen := Suc (rl_joinGen s)\<rparr>"
  have x: "core_inv x" unfolding x_def by (intro core_fields assms)
  have "core_inv (say (Notice AlreadyStopped) (x\<lparr>rl_gen := Suc (rl_gen x)\<rparr>))" if "\<not> rl_started x"
    by (intro core_steps core_idle_gen x that)
  moreover have "core_inv (await StopWait (leave_mesh (if rl_started x then goIdle x else detachBridge (x\<lparr>rl_gen := Suc (rl_gen x)\<rparr>))))"
    using x core_goIdle core_idle_gen by (intro core_waiting core_steps) (auto intro: core_steps)
  moreover have "cmdStop s = (if rl_mesh x = None \<and> \<not> rl_started x then say (Notice AlreadyStopped) (x\<lparr>rl_gen := Suc (rl_gen x)\<rparr>)
      else await StopWait (leave_mesh (if rl_started x then goIdle x else detachBridge (x\<lparr>rl_gen := Suc (rl_gen x)\<rparr>))))"
    by (simp only: cmdStop_def Let_def x_def)
  ultimately show ?thesis by presburger
qed

lemma core_cmdJoin: "core_inv s \<Longrightarrow> core_inv (cmdJoin s)"
  by (auto simp: cmdJoin_def intro!: core_waiting core_steps core_fields)

lemma core_join: "core_inv s \<Longrightarrow> core_inv (join_result node gen res s)"
  by (auto simp: join_result_def intro!: core_steps core_fields split: option.split)

lemma core_shutdown:
  assumes "core_inv s"
  shows "core_inv (session_shutdown s)"
proof -
  define x where "x = s\<lparr>rl_disposed := True, rl_rootGen := Suc (rl_rootGen s), rl_gen := Suc (rl_gen s), rl_joinGen := Suc (rl_joinGen s)\<rparr>"
  have t0: "\<forall>t \<in> set (rl_tasks s). task_ok s t" using assms by (simp add: core_inv_def steady_def)
  have t: "\<forall>t \<in> set (rl_tasks x). task_ok x t" using t0 task_ok_older [of s _ x] by (simp add: x_def)
  have l: "live x = []" using old_live [OF t0] by (simp add: live_def x_def)
  have i: "core_inv x" if "\<not> rl_started s"
  proof -
    have "core_inv (s\<lparr>rl_disposed := True\<rparr>)" using assms that by (intro core_disposed) simp_all
    then show ?thesis using that by (intro core_bump_idle [of "s\<lparr>rl_disposed := True\<rparr>"]) (simp_all add: core_inv_def x_def same_core_def)
  qed
  have "core_inv (await ShutdownWait x)"
  proof -
    have k: "task_ok (await ShutdownWait x) u = task_ok x u" for u by (cases u) simp_all
    have e: "ending (await ShutdownWait x)" "live (await ShutdownWait x) = []" using l by (simp_all add: ending_def live_def)
    have "up_ok (await ShutdownWait x)" using assms by (simp add: core_inv_def steady_def up_ok_def x_def e [unfolded x_def] split: if_splits)
    moreover have "single (await ShutdownWait x)" using assms e by (auto simp: core_inv_def steady_def single_def x_def)
    moreover have "timer_ok (await ShutdownWait x)" using assms e by (auto simp: core_inv_def steady_def timer_ok_def x_def)
    ultimately show ?thesis using t e by (simp add: core_inv_def steady_def k restoring_def)
  qed
  moreover have "core_inv (shutdown_rest x)" using core_rest [OF t] i by (simp add: x_def)
  ultimately show ?thesis by (simp add: session_shutdown_def Let_def x_def)
qed

lemma core_root_begin: "core_inv s \<Longrightarrow> core_inv (root_begin g s)"
  by (simp add: root_begin_def core_waiting)

lemma core_cmdRoot: "core_inv s \<Longrightarrow> core_inv (cmdRoot restart s)"
  by (simp add: cmdRoot_def core_waiting core_root_begin)

lemma core_queued: "core_inv s \<Longrightarrow> core_inv (queued_result g restart s)"
  by (simp add: queued_result_def core_waiting core_root_begin)

lemma core_root_start: "core_inv s \<Longrightarrow> core_inv (root_start g wizard auto s)"
  by (simp add: root_start_def core_waiting core_cmdStart)

lemma core_setup: "core_inv s \<Longrightarrow> core_inv (setup_result g res s)"
  by (simp add: setup_result_def core_waiting core_cmdJoin core_root_start split: option.split)

lemma core_joined: "core_inv s \<Longrightarrow> core_inv (joined_result g wizard auto node s)"
  by (simp add: joined_result_def core_waiting core_root_start)

lemma core_session: "core_inv s \<Longrightarrow> core_inv (session_start sid s)"
  by (auto simp: session_start_def Let_def intro!: core_cmdRoot core_disposed core_cmdStart core_steps)

lemma core_off: "core_inv s \<Longrightarrow> \<not> rl_started s \<Longrightarrow> core_inv (s\<lparr>rl_rootGen := n, rl_gen := Suc (rl_gen s)\<rparr>)"
  by (rule core_bump_idle [of s]) (simp_all add: core_inv_def same_core_def)

lemma core_control: "core_inv s \<Longrightarrow> core_inv (handleControl cmd s)"
  by (cases cmd) (auto simp: handleControl_def relay_up_def intro!: core_cmdStart core_goIdle core_steps core_off)

lemma core_reconcile: "core_inv s \<Longrightarrow> core_inv (reconcile p e present owners s)"
  by (induction p e present owners s rule: reconcile.induct) (auto intro: core_steps)

lemma core_topology: "core_inv s \<Longrightarrow> core_inv (onTopologyChanged p e t s)"
  by (auto simp: onTopologyChanged_def intro!: core_steps core_fields)


text \<open>The answers that fit a task, one case each.\<close>

lemma resume_cases:
  assumes "resume_task t a = Some f"
  obtains (identity) gen ctl res env cfg room where "t = StartIdentity gen ctl" "f = identity_result gen ctl res env cfg room"
  | (connect) c gen url short room ctl res now where "t = StartConnect c gen url short room ctl" "f = start_result c gen url short room ctl res now"
  | (sweep) c p e short url ctl where "t = StartSweep c p e short url ctl" "f = sweep_result c p e short url ctl"
  | (reconnect) c gen url res where "t = ReconnectWait c gen url" "f = reconnect_result c gen url res"
  | (joined) node gen res where "t = JoinWait node gen" "f = join_result node gen res"
  | (stopped) "t = StopWait" "f = say (Notice Stopped)"
  | (over) "t = ShutdownWait" "f = shutdown_rest"
  | (queued) gen restart where "t = RootQueued gen restart" "f = queued_result gen restart"
  | (rootsetup) gen res where "t = RootSetup gen" "f = setup_result gen res"
  | (rootjoined) gen wizard auto node where "t = RootJoin gen wizard auto node" "f = joined_result gen wizard auto node"
  | (rootend) "t = RootEnd" "f = (\<lambda>s. s)"
  using assms by (cases "(t, a)" rule: resume_task.cases) auto

lemma core_resume:
  assumes "core_inv s" and "t \<in> set (rl_tasks s)" and "resume_task t a = Some f"
  shows "core_inv (f (resumed t s))"
  using assms(3)
proof (cases rule: resume_cases)
  case (identity gen ctl res env cfg room)
  have "core_inv (resumed t s)" using assms(1) identity(1) by (intro core_resumed) simp_all
  moreover have "gen = rl_gen s \<Longrightarrow> live (resumed t s) = [] \<and> rl_timer s = None"
    using resumed_alone [of s t] assms(1,2) identity(1) by (simp add: core_inv_def)
  ultimately show ?thesis unfolding identity(2) by (intro core_identity) simp_all
next
  case (connect c gen url short room ctl res now)
  have c: "core_inv (resumed t s)" using assms(1) connect(1) by (intro core_resumed) simp_all
  have g: "gen = rl_gen (resumed t s) \<Longrightarrow> live (resumed t s) = [] \<and> rl_timer (resumed t s) = None"
    using resumed_alone [of s t] assms(1,2) connect(1) by (simp add: core_inv_def)
  have "task_ok s t" using assms(1,2) by (simp add: core_inv_def steady_def)
  then have u: "url \<noteq> []" "rl_cached (resumed t s) \<noteq> None" unfolding connect(1) task_ok.simps resumed_fields by blast+
  show ?thesis unfolding connect(2) by (rule core_start) (fact c g u)+
next
  case (sweep c p e short url ctl)
  then show ?thesis using assms(1) by (simp add: core_sweep core_resumed)
next
  case (reconnect c gen url res)
  have s: "steady (resumed t s)" using assms(1) reconnect(1) by (intro steady_resumed) (simp_all add: core_inv_def)
  have a: "gen = rl_gen s \<Longrightarrow> live (resumed t s) = [] \<and> rl_timer s = None"
    using resumed_alone [of s t] assms(1,2) reconnect(1) by (simp add: core_inv_def)
  have "restoring (resumed t s) \<or> isCurrentReconnect gen url (resumed t s)"
  proof (cases "gen = rl_gen s")
    case True
    have "task_ok s t" using assms(1,2) by (simp add: core_inv_def steady_def)
    then show ?thesis using True reconnect(1) by (simp add: isCurrentReconnect_def)
  next
    case False
    then have "core_inv (resumed t s)" using assms(1) reconnect(1) by (intro core_resumed) simp_all
    then show ?thesis by (simp add: core_inv_def)
  qed
  then show ?thesis unfolding reconnect(2) using s a by (intro core_reconnect) simp_all
next
  case (joined node gen res)
  then show ?thesis using assms(1) by (simp add: core_join core_resumed)
next
  case stopped
  then show ?thesis using assms(1) by (simp add: core_steps core_resumed)
next
  case (queued gen restart)
  then show ?thesis using assms(1) by (simp add: core_queued core_resumed)
next
  case (rootsetup gen res)
  then show ?thesis using assms(1) by (simp add: core_setup core_resumed)
next
  case (rootjoined gen wizard auto node)
  then show ?thesis using assms(1) by (simp add: core_joined core_resumed)
next
  case rootend
  then show ?thesis using assms(1) by (simp add: core_resumed)
next
  case over
  have k: "task_ok (resumed t s) u = task_ok s u" for u by (cases u) simp_all
  have "\<forall>u \<in> set (rl_tasks (resumed t s)). task_ok (resumed t s) u"
    using assms(1) notin_set_remove1 by (fastforce simp: core_inv_def steady_def k)
  then show ?thesis unfolding over(2) using core_resumed_idle [OF assms(1)] by (intro core_rest) simp_all
qed

lemma life_step_resume:
  "life_step (Resume t a) s =
     (if t \<in> set (rl_tasks s) then (case resume_task t a of Some f \<Rightarrow> f (resumed t s) | None \<Rightarrow> s) else s)"
  by (simp add: resumed_def cong: option.case_cong)

lemma core_step: "core_inv s \<Longrightarrow> core_inv (life_step i s)"
proof (cases i)
  case (Resume t a)
  assume "core_inv s"
  then show ?thesis unfolding Resume life_step_resume using core_resume by (auto split: option.split)
qed (simp_all add: core_cmdStart core_cmdStop core_cmdJoin core_cmdRoot core_control core_shutdown core_session core_timer core_closed core_steps
    core_topology onRevoke_def onAuthoritativeOwners_def core_reconcile)

lemma life_run_simps [simp]: "life_run [] s = s" "life_run (i # is) s = life_run is (life_step i s)"
  "life_run (is @ js) s = life_run js (life_run is s)"
  by (simp_all add: life_run_def)

lemma core_run: "core_inv s \<Longrightarrow> core_inv (life_run is s)"
  by (induction "is" arbitrary: s) (simp_all add: core_step)

lemma core_fresh: "core_inv fresh_life"
  by (simp add: core_defs fresh_life_def)


section \<open>Listeners and channels\<close>

definition listener_ok :: "'z life_scheme \<Rightarrow> bool" where
  "listener_ok s \<longleftrightarrow>
     (case rl_relay s of
        None \<Rightarrow> rl_listener s = None
      | Some c \<Rightarrow> \<exists>g. rl_listener s = Some (c, g) \<and> (g = rl_gen s \<or> (g < rl_gen s \<and> ending s))) \<and>
     rl_installed s = (case rl_listener s of None \<Rightarrow> [] | Some l \<Rightarrow> [l])"

definition channels_ok :: "'z life_scheme \<Rightarrow> bool" where
  "channels_ok s \<longleftrightarrow>
     (rl_relay s = None \<longrightarrow> rl_active s = []) \<and>
     mwf (rl_active s) \<and> distinct (rl_attached s) \<and> set (rl_attached s) = set (mvals (rl_active s)) \<and>
     (\<forall>k ch. (k, ch) \<in> set (rl_active s) \<longrightarrow> ch_peer ch = k \<and> rl_relay s = Some (ch_relay ch) \<and> ch_id ch < rl_next s)"

definition links_inv :: "'z life_scheme \<Rightarrow> bool" where
  "links_inv s \<longleftrightarrow> listener_ok s \<and> channels_ok s"

definition same_links :: "'z life_scheme \<Rightarrow> 'z life_scheme \<Rightarrow> bool" where
  "same_links s s' \<longleftrightarrow> rl_relay s' = rl_relay s \<and> rl_listener s' = rl_listener s \<and> rl_installed s' = rl_installed s \<and>
     rl_active s' = rl_active s \<and> rl_attached s' = rl_attached s \<and> rl_next s \<le> rl_next s' \<and>
     (rl_relay s = None \<or> (rl_gen s' = rl_gen s \<and> (ending s \<longrightarrow> ending s')) \<or> (rl_gen s \<le> rl_gen s' \<and> ending s'))"

lemma listener_same: "listener_ok s \<Longrightarrow> same_links s s' \<Longrightarrow> listener_ok s'"
proof (cases "rl_relay s")
  case (Some c)
  assume l: "listener_ok s" and l': "same_links s s'"
  obtain g where g: "rl_listener s = Some (c, g)" "g = rl_gen s \<or> (g < rl_gen s \<and> ending s)" using l Some by (auto simp: listener_ok_def)
  have "g = rl_gen s' \<or> (g < rl_gen s' \<and> ending s')" using l' Some g(2) by (auto simp: same_links_def)
  then show ?thesis using l l' Some g by (simp add: listener_ok_def same_links_def)
qed (simp add: listener_ok_def same_links_def)

lemma channels_same: "channels_ok s \<Longrightarrow> same_links s s' \<Longrightarrow> channels_ok s'"
  unfolding channels_ok_def same_links_def by (metis order.strict_trans2)

lemma links_same: "links_inv s \<Longrightarrow> same_links s s' \<Longrightarrow> links_inv s'"
  using listener_same channels_same by (auto simp: links_inv_def)

lemma same_links_refl [simp]: "same_links s s"
  by (simp add: same_links_def)

lemma same_links_trans: "same_links a b \<Longrightarrow> same_links b c \<Longrightarrow> same_links a c"
  by (auto simp: same_links_def)

lemma ending_cong: "rl_tasks s' = rl_tasks s \<Longrightarrow> ending s' = ending s"
  by (simp add: ending_def)

lemma same_links_simps:
  "same_links s (say e s)" "same_links s (finish f s)" "same_links s (emitRelayState f s)" "same_links s (attachBridgeIfReady s)"
  "same_links s (detachBridge s)" "same_links s (set_mesh_topology t s)" "same_links s (leave_mesh s)"
  "same_links s (snd (open_connection u s))" "same_links s (await tk s)" "same_links s (scheduleReconnect g u s)"
  "same_links s (s\<lparr>rl_deferred := b\<rparr>)" "same_links s (s\<lparr>rl_topology := tp\<rparr>)" "same_links s (s\<lparr>rl_readyEpoch := e'\<rparr>)"
  "same_links s (s\<lparr>rl_rootGen := n\<rparr>)" "same_links s (s\<lparr>rl_joinGen := n\<rparr>)" "same_links s (s\<lparr>rl_mesh := m\<rparr>)"
  "same_links s (s\<lparr>rl_cached := kp\<rparr>)" "same_links s (s\<lparr>rl_timer := tm\<rparr>)" "same_links s (s\<lparr>rl_disposed := b\<rparr>)"
  by (simp_all add: same_links_def scheduleReconnect_def Let_def) (simp_all add: ending_def)

lemma links_steps:
  "links_inv s \<Longrightarrow> links_inv (say e s)" "links_inv s \<Longrightarrow> links_inv (finish f s)" "links_inv s \<Longrightarrow> links_inv (emitRelayState f s)"
  "links_inv s \<Longrightarrow> links_inv (attachBridgeIfReady s)" "links_inv s \<Longrightarrow> links_inv (detachBridge s)" "links_inv s \<Longrightarrow> links_inv (set_mesh_topology t s)"
  "links_inv s \<Longrightarrow> links_inv (leave_mesh s)" "links_inv s \<Longrightarrow> links_inv (snd (open_connection u s))" "links_inv s \<Longrightarrow> links_inv (await tk s)"
  "links_inv s \<Longrightarrow> links_inv (scheduleReconnect g u s)" "links_inv s \<Longrightarrow> links_inv (s\<lparr>rl_deferred := b\<rparr>)"
  "links_inv s \<Longrightarrow> links_inv (s\<lparr>rl_topology := tp\<rparr>)" "links_inv s \<Longrightarrow> links_inv (s\<lparr>rl_readyEpoch := e'\<rparr>)"
  "links_inv s \<Longrightarrow> links_inv (s\<lparr>rl_mesh := m\<rparr>)" "links_inv s \<Longrightarrow> links_inv (s\<lparr>rl_cached := kp\<rparr>)"
  "links_inv s \<Longrightarrow> links_inv (s\<lparr>rl_timer := tm\<rparr>)" "links_inv s \<Longrightarrow> links_inv (s\<lparr>rl_disposed := b\<rparr>)"
  by (erule links_same, rule same_links_simps)+

text \<open>Without a connection there is no listener and no channel.\<close>

lemma links_down: "rl_relay s = None \<Longrightarrow> links_inv s \<longleftrightarrow>
    rl_listener s = None \<and> rl_installed s = [] \<and> rl_active s = [] \<and> rl_attached s = []"
  by (auto simp: links_inv_def listener_ok_def channels_ok_def mwf_def)

lemma links_none_installed: "links_inv s \<Longrightarrow> rl_installed (stopAutoListener s) = []"
  by (cases "rl_listener s") (simp_all add: links_inv_def listener_ok_def stopAutoListener_def)

lemma links_none_attached: "links_inv s \<Longrightarrow> filter (\<lambda>c. c \<notin> set (mvals (rl_active s))) (rl_attached s) = []"
  by (simp add: links_inv_def channels_ok_def filter_empty_conv del: set_map)

lemma links_goIdle: "links_inv s \<Longrightarrow> links_inv (goIdle s)"
  by (simp add: links_down links_none_installed links_none_attached del: set_map)

lemma links_published:
  assumes "rl_listener s = None" "rl_installed s = []" "rl_active s = []" "rl_attached s = []"
  shows "links_inv (setupRelayConnection c s)"
  using assms by (simp add: links_inv_def listener_ok_def channels_ok_def mwf_def)

lemma links_closed:
  assumes "links_inv s"
  shows "links_inv (onRelayClose c s)"
proof (cases "rl_relay s = Some c \<and> rl_started s")
  case True
  define s1 where "s1 = emitRelayState False ((detachBridge ((detach_all (stopAutoListener (s\<lparr>rl_gen := Suc (rl_gen s)\<rparr>)))\<lparr>rl_relay := None\<rparr>))
      \<lparr>rl_started := True\<rparr>)"
  have i: "rl_installed (stopAutoListener (s\<lparr>rl_gen := Suc (rl_gen s)\<rparr>)) = []"
    using links_none_installed [OF assms] by (cases "rl_listener s") (simp_all add: stopAutoListener_def)
  have "links_inv s1" using i links_none_attached [OF assms] by (simp add: links_down s1_def del: set_map)
  then show ?thesis using True
    by (auto simp: onRelayClose_def Let_def s1_def [symmetric] intro!: links_steps split: option.split list.split)
next
  case False
  then show ?thesis using assms by (simp add: onRelayClose_def)
qed

lemma channel_value_unique:
  assumes "links_inv s" and "mget (rl_active s) p = Some ch"
  shows "set (mvals (mdel p (rl_active s))) = set (mvals (rl_active s)) - {ch}"
proof -
  have c: "\<forall>k ch. (k, ch) \<in> set (rl_active s) \<longrightarrow> ch_peer ch = k" "mwf (rl_active s)" using assms(1) by (auto simp: links_inv_def channels_ok_def)
  have u: "k = p \<longleftrightarrow> v = ch" if "(k, v) \<in> set (rl_active s)" for k v
  proof
    show "v = ch" if "k = p" using that \<open>(k, v) \<in> _\<close> assms(2) c(2) by (simp add: mwf_def)
    show "k = p" if "v = ch" using that \<open>(k, v) \<in> _\<close> c(1) map_of_SomeD [OF assms(2)] by metis
  qed
  have "set (mdel p (rl_active s)) = {x \<in> set (rl_active s). snd x \<noteq> ch}"
    using u by (fastforce simp: AList.delete_eq)
  then show ?thesis by auto
qed

lemma links_detach:
  assumes "links_inv s"
  shows "links_inv (detachPeerChannel p s)"
proof (cases "mget (rl_active s) p")
  case None
  then show ?thesis using assms by (simp add: detachPeerChannel_def)
next
  case (Some ch)
  have a: "rl_active (detachPeerChannel p s) = mdel p (rl_active s)" "rl_attached (detachPeerChannel p s) = filter (\<lambda>c. c \<noteq> ch) (rl_attached s)"
    using Some by (simp_all add: detachPeerChannel_def detach_channel_def Let_def)
  have c: "channels_ok s" and l: "listener_ok (detachPeerChannel p s)"
    using assms by (cases "rl_relay s"; simp add: links_inv_def listener_ok_def ending_def)+
  have "mwf (mdel p (rl_active s))" using c by (simp add: channels_ok_def)
  moreover have "set (filter (\<lambda>c. c \<noteq> ch) (rl_attached s)) = set (mvals (mdel p (rl_active s)))"
    unfolding channel_value_unique [OF assms Some] using c by (auto simp: channels_ok_def simp del: set_map)
  moreover have "set (mdel p (rl_active s)) \<subseteq> set (rl_active s)" by (auto simp: AList.delete_eq)
  ultimately have "channels_ok (detachPeerChannel p s)" using c Some unfolding channels_ok_def a detach_peer_fields by fastforce
  then show ?thesis using l by (simp add: links_inv_def)
qed

lemma links_attach:
  assumes "links_inv s" and "rl_relay s = Some c"
  shows "links_inv (snd (attachOwner c p s))"
proof -
  define x where "x = (if mhas (rl_active s) p then detachPeerChannel p s else s)"
  define ch where "ch = \<lparr>ch_id = rl_next x, ch_relay = c, ch_peer = p\<rparr>"
  have x: "links_inv x" "rl_relay x = Some c" using assms links_detach [OF assms(1)] by (simp_all add: x_def)
  have cx: "channels_ok x" "listener_ok x" using x by (simp_all add: links_inv_def)
  have n: "mget (rl_active x) p = None"
  proof (cases "mget (rl_active s) p")
    case (Some ch')
    then have "rl_active x = mdel p (rl_active s)" by (simp add: x_def mhas_def detachPeerChannel_def detach_channel_def Let_def)
    then show ?thesis by (simp add: delete_conv_fun)
  qed (simp add: x_def mhas_def)
  have new: "ch \<notin> set (rl_attached x)" "ch \<notin> snd ` set (rl_active x)" using cx(1) by (force simp: channels_ok_def ch_def)+
  have fr: "mput p ch (rl_active x) = rl_active x @ [(p, ch)]" using n by (intro mput_fresh) (simp add: mhas_def)
  have o: "snd (attachOwner c p s) = attachPeerChannel p ch (x\<lparr>rl_attached := rl_attached x @ [ch], rl_next := Suc (rl_next x)\<rparr>)"
    unfolding attachOwner_def Let_def x_def [symmetric] by (simp add: open_channel_def Let_def ch_def)
  have f: "rl_active (snd (attachOwner c p s)) = rl_active x @ [(p, ch)]" "rl_attached (snd (attachOwner c p s)) = rl_attached x @ [ch]"
    "rl_next (snd (attachOwner c p s)) = Suc (rl_next x)" "rl_relay (snd (attachOwner c p s)) = Some c"
    "rl_listener (snd (attachOwner c p s)) = rl_listener x" "rl_installed (snd (attachOwner c p s)) = rl_installed x"
    "rl_gen (snd (attachOwner c p s)) = rl_gen x" "ending (snd (attachOwner c p s)) = ending x"
    using x(2) by (simp_all add: o attachPeerChannel_def fr ending_def)
  have "distinct (rl_attached x @ [ch])" using cx new by (simp add: channels_ok_def)
  moreover have "mwf (rl_active x @ [(p, ch)])" using cx n by (auto simp: channels_ok_def mwf_def map_of_eq_None_iff)
  moreover have "set (rl_attached x @ [ch]) = set (mvals (rl_active x @ [(p, ch)]))" using cx by (simp add: channels_ok_def)
  moreover have "ch_peer ch = p" "ch_relay ch = c" "ch_id ch < Suc (rl_next x)" by (simp_all add: ch_def)
  ultimately have "channels_ok (snd (attachOwner c p s))" using cx x unfolding channels_ok_def f
    by (intro conjI allI impI) (auto simp del: set_map simp: less_Suc_eq)
  moreover have "listener_ok (snd (attachOwner c p s))" using cx(2) x(2) unfolding listener_ok_def f by simp
  ultimately show ?thesis by (simp add: links_inv_def)
qed


lemma same_links_resumed: "rl_relay s = None \<or> t \<noteq> ShutdownWait \<Longrightarrow> same_links s (resumed t s)"
  by (auto simp: same_links_def ending_def in_set_remove1)

lemma links_idle_gen: "links_inv s \<Longrightarrow> rl_relay s = None \<Longrightarrow> links_inv (s\<lparr>rl_gen := n\<rparr>)"
  by (erule links_same) (simp add: same_links_def)

lemma links_identity: "links_inv s \<Longrightarrow> links_inv (identity_result gen ctl res env cfg room s)"
  by (auto simp: identity_result_def Let_def split_def intro!: links_steps split: identity_answer.split option.split)

lemma links_start:
  assumes "links_inv s"
  shows "links_inv (start_result c gen url short room ctl res now s)"
proof (cases "isCurrentCandidate gen s \<and> res = ConnectOk")
  case True
  then have d: "rl_listener s = None" "rl_installed s = []" "rl_active s = []" "rl_attached s = []"
    using assms by (simp_all add: isCurrentCandidate_def links_down)
  define s1 where "s1 = setupRelayConnection c (s\<lparr>rl_relay := Some c, rl_url := Some url, rl_short := short, rl_room := Some room,
                    rl_started := True, rl_startedAt := (case rl_startedAt s of None \<Rightarrow> Some now | old \<Rightarrow> old)\<rparr>)"
  have "links_inv s1" unfolding s1_def by (rule links_published) (use d in simp_all)
  moreover have "links_inv (s1\<lparr>rl_epoch := e, rl_readyEpoch := None, rl_topology := None, rl_producer := Some p, rl_next := Suc (rl_next s1)\<rparr>)" for e p
    by (rule links_same [OF \<open>links_inv s1\<close>]) (simp add: same_links_def ending_def)
  ultimately show ?thesis using True by (auto simp: start_result_def Let_def s1_def [symmetric] intro!: links_steps)
next
  case False
  then show ?thesis using assms by (auto simp: start_result_def Let_def intro!: links_steps)
qed

lemma links_sweep: "links_inv s \<Longrightarrow> links_inv (sweep_result c p e short url ctl s)"
  by (simp add: sweep_result_def links_steps)

lemma links_reconnect:
  assumes "links_inv s"
  shows "links_inv (reconnect_result c gen url res s)"
proof (cases "isCurrentReconnect gen url s \<and> res = ConnectOk")
  case True
  then have "links_inv (setupRelayConnection c (s\<lparr>rl_attempt := 0\<rparr>))"
    using assms by (intro links_published) (simp_all add: isCurrentReconnect_def links_down)
  then show ?thesis using True by (simp add: reconnect_result_def links_steps)
next
  case False
  then show ?thesis using assms by (auto simp: reconnect_result_def Let_def intro!: links_steps)
qed

lemma links_timer: "links_inv s \<Longrightarrow> links_inv (timer_fires s)"
  by (auto simp: timer_fires_def attemptReconnect_def Let_def split_def intro!: links_steps split: option.split)

lemma links_cmdStart: "core_inv s \<Longrightarrow> links_inv s \<Longrightarrow> links_inv (cmdStart ctl s)"
  by (auto simp: cmdStart_def core_inv_def steady_def up_ok_def intro!: links_steps links_idle_gen)

lemma idle_relay: "core_inv s \<Longrightarrow> \<not> rl_started s \<Longrightarrow> rl_relay s = None"
  by (simp add: core_inv_def steady_def up_ok_def)

lemma links_plain: "links_inv s \<Longrightarrow> links_inv (s\<lparr>rl_rootGen := n, rl_joinGen := k\<rparr>)" "links_inv s \<Longrightarrow> links_inv (s\<lparr>rl_joinGen := k, rl_next := Suc (rl_next s)\<rparr>)"
  by (erule links_same, simp add: same_links_def ending_def)+

lemma links_cmdStop:
  assumes "core_inv s" and "links_inv s"
  shows "links_inv (cmdStop s)"
proof -
  define x where "x = s\<lparr>rl_rootGen := Suc (rl_rootGen s), rl_joinGen := Suc (rl_joinGen s)\<rparr>"
  have x: "links_inv x" "rl_started x = rl_started s" "rl_relay x = rl_relay s" using links_plain(1) [OF assms(2)] by (simp_all add: x_def)
  have "links_inv (x\<lparr>rl_gen := Suc (rl_gen x)\<rparr>)" if "\<not> rl_started s"
    using links_idle_gen [OF x(1)] idle_relay [OF assms(1) that] x by simp
  then show ?thesis unfolding cmdStop_def Let_def x_def [symmetric]
    using x links_goIdle by (auto intro!: links_steps)
qed

lemma links_cmdJoin: "links_inv s \<Longrightarrow> links_inv (cmdJoin s)"
  by (auto simp: cmdJoin_def intro!: links_steps links_plain)

lemma links_join: "links_inv s \<Longrightarrow> links_inv (join_result node gen res s)"
  by (auto simp: join_result_def intro!: links_steps split: option.split)

lemma links_rest: "links_inv s \<Longrightarrow> links_inv (shutdown_rest s)"
  using links_goIdle by (auto simp: shutdown_rest_def intro!: links_steps)

lemma links_goIdle_like:
  assumes "links_inv s" and "rl_listener x = rl_listener s" "rl_installed x = rl_installed s" "rl_active x = rl_active s" "rl_attached x = rl_attached s"
  shows "links_inv (goIdle x)"
proof -
  have "rl_installed (stopAutoListener x) = rl_installed (stopAutoListener s)"
    using assms(2,3) by (cases "rl_listener s") (simp_all add: stopAutoListener_def)
  then show ?thesis using links_none_installed [OF assms(1)] links_none_attached [OF assms(1)]
    by (simp add: links_down assms(4,5) del: set_map)
qed

lemma links_shutdown:
  assumes "core_inv s" and "links_inv s"
  shows "links_inv (session_shutdown s)"
proof (cases "rl_active s = []")
  case True
  define x where "x = s\<lparr>rl_disposed := True, rl_rootGen := Suc (rl_rootGen s), rl_gen := Suc (rl_gen s), rl_joinGen := Suc (rl_joinGen s)\<rparr>"
  have e: "session_shutdown s = shutdown_rest x" using True by (simp add: session_shutdown_def Let_def x_def)
  have g: "links_inv (goIdle x)" by (rule links_goIdle_like [OF assms(2)]) (simp_all add: x_def)
  have "links_inv x" if "\<not> rl_started s"
    by (rule links_same [OF assms(2)]) (use idle_relay [OF assms(1) that] in \<open>simp add: x_def same_links_def\<close>)
  then show ?thesis using g unfolding e shutdown_rest_def by (auto simp: x_def intro!: links_steps)
next
  case False
  show ?thesis
    by (rule links_same [OF assms(2)]) (use False in \<open>simp add: session_shutdown_def same_links_def ending_def await_def\<close>)
qed

lemma links_revoke: "links_inv s \<Longrightarrow> links_inv (revokeActiveOwnerRuntime p s)"
  by (auto simp: revokeActiveOwnerRuntime_def intro!: links_steps links_detach)

lemma links_reconcile: "links_inv s \<Longrightarrow> links_inv (reconcile p e present owners s)"
  by (induction p e present owners s rule: reconcile.induct) (auto intro: links_revoke)

lemma links_gone: "links_inv s \<Longrightarrow> links_inv (onPeerDisconnect p s)"
proof -
  assume l: "links_inv s"
  then have d: "links_inv (detachPeerChannel q s)" for q by (rule links_detach)
  have "links_inv ((detachPeerChannel q s)\<lparr>rl_turn := None\<rparr>)" for q
    by (rule links_same [OF d]) (simp add: same_links_def ending_def)
  then show ?thesis using l d by (auto simp: onPeerDisconnect_def Let_def intro!: links_steps split: option.split)
qed

lemma links_cmdRoot: "links_inv s \<Longrightarrow> links_inv (cmdRoot restart s)"
  by (simp add: cmdRoot_def root_begin_def links_steps)

lemma links_queued: "links_inv s \<Longrightarrow> links_inv (queued_result g restart s)"
  by (simp add: queued_result_def root_begin_def links_steps)

lemma links_root_start: "core_inv s \<Longrightarrow> links_inv s \<Longrightarrow> links_inv (root_start g wizard auto s)"
  by (simp add: root_start_def links_steps links_cmdStart)

lemma links_setup: "core_inv s \<Longrightarrow> links_inv s \<Longrightarrow> links_inv (setup_result g res s)"
  by (simp add: setup_result_def links_steps links_cmdJoin links_root_start split: option.split)

lemma links_joined: "core_inv s \<Longrightarrow> links_inv s \<Longrightarrow> links_inv (joined_result g wizard auto node s)"
  by (simp add: joined_result_def links_steps links_root_start)

lemma links_session: "core_inv s \<Longrightarrow> links_inv s \<Longrightarrow> links_inv (session_start sid s)"
  by (auto simp: session_start_def Let_def intro!: links_cmdRoot links_steps links_cmdStart core_steps)

lemma links_control: "core_inv s \<Longrightarrow> links_inv s \<Longrightarrow> links_inv (handleControl cmd s)"
proof -
  assume c: "core_inv s" and l: "links_inv s"
  have "links_inv (s\<lparr>rl_rootGen := Suc (rl_rootGen s), rl_gen := Suc (rl_gen s)\<rparr>)" if "\<not> rl_started s"
    by (rule links_same [OF l]) (use idle_relay [OF c that] in \<open>simp add: same_links_def\<close>)
  then show ?thesis using l c links_goIdle
    by (cases cmd) (auto simp: handleControl_def relay_up_def intro!: links_steps links_cmdStart)
qed

lemma links_topology: "links_inv s \<Longrightarrow> links_inv (onTopologyChanged p e t s)"
  by (auto simp: onTopologyChanged_def intro!: links_steps)

lemma links_resume:
  assumes "core_inv s" and "links_inv s" and "t \<in> set (rl_tasks s)" and "resume_task t a = Some f"
  shows "links_inv (f (resumed t s))"
  using assms(4)
proof (cases rule: resume_cases)
  case over
  show ?thesis
  proof (cases "rl_started s")
    case True
    have "links_inv (goIdle (resumed t s))" by (rule links_goIdle_like [OF assms(2)]) simp_all
    then show ?thesis using True by (simp add: over(2) shutdown_rest_def links_steps)
  next
    case False
    have "links_inv (resumed t s)"
      by (rule links_same [OF assms(2)], rule same_links_resumed) (simp add: idle_relay [OF assms(1) False])
    then show ?thesis by (simp add: over(2) links_rest)
  qed
next
  case (rootsetup gen res)
  then show ?thesis using links_same [OF assms(2) same_links_resumed [of s t]] core_resumed [OF assms(1)] by (simp add: links_setup)
next
  case (rootjoined gen wizard auto node)
  then show ?thesis using links_same [OF assms(2) same_links_resumed [of s t]] core_resumed [OF assms(1)] by (simp add: links_joined)
qed (use links_same [OF assms(2) same_links_resumed [of s t]] in
  \<open>simp_all add: links_identity links_start links_sweep links_reconnect links_join links_queued links_steps\<close>)

lemma links_step: "core_inv s \<Longrightarrow> links_inv s \<Longrightarrow> links_inv (life_step i s)"
proof (cases i)
  case (Resume t a)
  assume "core_inv s" "links_inv s"
  then show ?thesis unfolding Resume life_step_resume using links_resume by (auto split: option.split)
next
  case (PeerAttach l p)
  assume "core_inv s" "links_inv s"
  then show ?thesis using PeerAttach by (simp add: hasListenerAuthority_def links_attach)
qed (simp_all add: links_cmdStart links_cmdStop links_cmdJoin links_cmdRoot links_control links_shutdown links_session links_timer links_closed
    links_topology onRevoke_def onAuthoritativeOwners_def links_reconcile links_revoke links_gone)

lemma links_run: "core_inv s \<Longrightarrow> links_inv s \<Longrightarrow> links_inv (life_run is s)"
  by (induction "is" arbitrary: s) (simp_all add: core_step links_step)

lemma links_fresh: "links_inv fresh_life"
  by (simp add: links_inv_def listener_ok_def channels_ok_def mwf_def fresh_life_def)

end
