(* ===== verification/RelayGuarantees.thy ===== *)
theory RelayGuarantees
  imports RelayLifeProps
begin

text \<open>
  What the life of the relay connection guarantees, over any sequence of inputs: every connection that was opened is accounted for; clients
  know the state; a stop wins over everything started before it; a lost connection is being restored, at the documented pace; what listens,
  listens to the current connection.
\<close>

section \<open>Connections accounted for\<close>

fun conn_of :: "task \<Rightarrow> nat option" where
  "conn_of (StartConnect c g url short room ctl) = Some c"
| "conn_of (ReconnectWait c g url) = Some c"
| "conn_of _ = None"

definition opened :: "'z life_scheme \<Rightarrow> nat set" where
  "opened s = {c. \<exists>u. Opened c u \<in> set (rl_log s)}"

text \<open>How often a connection is being waited for, is the current one, or was closed.\<close>

definition held :: "'z life_scheme \<Rightarrow> nat \<Rightarrow> nat" where
  "held s c = length (filter (\<lambda>t. conn_of t = Some c) (rl_tasks s)) + (if rl_relay s = Some c then 1 else 0) +
     length (filter (\<lambda>e. e = Shut c) (rl_log s))"

definition conn_ok :: "nat set \<Rightarrow> 'z life_scheme \<Rightarrow> nat \<Rightarrow> bool" where
  "conn_ok K s c \<longleftrightarrow> (c \<in> opened s \<longrightarrow> c < rl_next s \<and> held s c \<le> 1 \<and> (held s c = 1 \<or> c \<in> K)) \<and> (c \<notin> opened s \<longrightarrow> held s c = 0)"

definition conns_inv :: "nat set \<Rightarrow> 'z life_scheme \<Rightarrow> bool" where
  "conns_inv K s \<longleftrightarrow> (\<forall>c. conn_ok K s c)"

definition same_conns :: "'z life_scheme \<Rightarrow> 'z life_scheme \<Rightarrow> bool" where
  "same_conns s s' \<longleftrightarrow> (\<forall>c. held s' c = held s c) \<and> opened s' = opened s \<and> rl_next s \<le> rl_next s'"

lemma opened_tracked: "opened s = {c. \<exists>u. Opened c u \<in> set (tracked s)}"
  by (auto simp: opened_def tracked_def)

lemma held_tracked: "held s c = length (filter (\<lambda>t. conn_of t = Some c) (rl_tasks s)) + (if rl_relay s = Some c then 1 else 0) +
     length (filter (\<lambda>e. e = Shut c) (tracked s))"
proof -
  have "filter (\<lambda>e. e = Shut c) (tracked s) = filter (\<lambda>e. e = Shut c) (rl_log s)"
    unfolding tracked_def filter_filter by (rule filter_cong) auto
  then show ?thesis by (simp add: held_def)
qed

lemmas conns_defs = held_tracked opened_tracked

lemma conns_same: "conns_inv K s \<Longrightarrow> same_conns s s' \<Longrightarrow> conns_inv K s'"
  unfolding conns_inv_def same_conns_def conn_ok_def by (metis order.strict_trans2)

lemma conns_mono: "conns_inv K s \<Longrightarrow> K \<subseteq> K' \<Longrightarrow> conns_inv K' s"
  unfolding conns_inv_def conn_ok_def by (metis subsetD)

lemma same_conns_refl [simp]: "same_conns s s"
  by (simp add: same_conns_def)

lemma same_conns_trans: "same_conns a b \<Longrightarrow> same_conns b c \<Longrightarrow> same_conns a c"
  by (auto simp: same_conns_def)

text \<open>Steps that touch neither the connections nor the tasks that wait for them.\<close>

lemma same_connsI:
  assumes "rl_relay s' = rl_relay s"
    and "filter (\<lambda>t. conn_of t \<noteq> None) (rl_tasks s') = filter (\<lambda>t. conn_of t \<noteq> None) (rl_tasks s)"
    and "tracked s' = tracked s" and "rl_next s \<le> rl_next s'"
  shows "same_conns s s'"
proof -
  have f: "filter (\<lambda>t. conn_of t = Some c) ts = filter (\<lambda>t. conn_of t = Some c) (filter (\<lambda>t. conn_of t \<noteq> None) ts)" for c ts
    unfolding filter_filter by (rule filter_cong) auto
  have "filter (\<lambda>t. conn_of t = Some c) (rl_tasks s') = filter (\<lambda>t. conn_of t = Some c) (rl_tasks s)" for c
    unfolding f [of c "rl_tasks s'"] assms(2) by (rule f [symmetric])
  then show ?thesis using assms(1,3,4) by (simp add: same_conns_def conns_defs)
qed

lemma same_conns_simps:
  "\<not> is_tracked e \<Longrightarrow> same_conns s (say e s)" "same_conns s (finish f s)" "same_conns s (emitRelayState f s)" "same_conns s (attachBridgeIfReady s)"
  "same_conns s (detachBridge s)" "same_conns s (set_mesh_topology t s)" "same_conns s (leave_mesh s)" "same_conns s (detach_all s)"
  "conn_of tk = None \<Longrightarrow> same_conns s (await tk s)" "same_conns s (onPeerDisconnect q s)" "same_conns s (revokeActiveOwnerRuntime p s)"
  "same_conns s (snd (attachOwner c p s))" "conn_of tk = None \<Longrightarrow> same_conns s (resumed tk s)"
  "same_conns s (s\<lparr>rl_deferred := b\<rparr>)" "same_conns s (s\<lparr>rl_topology := tp\<rparr>)" "same_conns s (s\<lparr>rl_readyEpoch := e'\<rparr>)"
  "same_conns s (s\<lparr>rl_mesh := m\<rparr>)" "same_conns s (s\<lparr>rl_cached := kp\<rparr>)" "same_conns s (s\<lparr>rl_timer := tm\<rparr>)" "same_conns s (s\<lparr>rl_disposed := b\<rparr>)"
  "same_conns s (s\<lparr>rl_gen := g\<rparr>)" "same_conns s (s\<lparr>rl_rootGen := n, rl_gen := g\<rparr>)" "same_conns s (s\<lparr>rl_rootGen := n, rl_joinGen := k\<rparr>)"
  "same_conns s (s\<lparr>rl_joinGen := k, rl_next := Suc (rl_next s)\<rparr>)"
  "same_conns s (s\<lparr>rl_disposed := b, rl_rootGen := n, rl_gen := g, rl_joinGen := k\<rparr>)"
  by (rule same_connsI; simp add: filter_remove1 remove1_idem attachOwner_def Let_def open_channel_def attachPeerChannel_def)+

lemma conns_steps:
  "\<not> is_tracked e \<Longrightarrow> conns_inv K s \<Longrightarrow> conns_inv K (say e s)" "conns_inv K s \<Longrightarrow> conns_inv K (finish f s)"
  "conns_inv K s \<Longrightarrow> conns_inv K (emitRelayState f s)" "conns_inv K s \<Longrightarrow> conns_inv K (attachBridgeIfReady s)"
  "conns_inv K s \<Longrightarrow> conns_inv K (detachBridge s)" "conns_inv K s \<Longrightarrow> conns_inv K (set_mesh_topology t s)"
  "conns_inv K s \<Longrightarrow> conns_inv K (leave_mesh s)" "conns_inv K s \<Longrightarrow> conns_inv K (detach_all s)"
  "conn_of tk = None \<Longrightarrow> conns_inv K s \<Longrightarrow> conns_inv K (await tk s)" "conns_inv K s \<Longrightarrow> conns_inv K (onPeerDisconnect q s)"
  "conns_inv K s \<Longrightarrow> conns_inv K (revokeActiveOwnerRuntime p s)" "conns_inv K s \<Longrightarrow> conns_inv K (snd (attachOwner c p s))"
  "conn_of tk = None \<Longrightarrow> conns_inv K s \<Longrightarrow> conns_inv K (resumed tk s)" "conns_inv K s \<Longrightarrow> conns_inv K (s\<lparr>rl_deferred := b\<rparr>)"
  "conns_inv K s \<Longrightarrow> conns_inv K (s\<lparr>rl_topology := tp\<rparr>)" "conns_inv K s \<Longrightarrow> conns_inv K (s\<lparr>rl_readyEpoch := e'\<rparr>)"
  "conns_inv K s \<Longrightarrow> conns_inv K (s\<lparr>rl_mesh := m\<rparr>)" "conns_inv K s \<Longrightarrow> conns_inv K (s\<lparr>rl_cached := kp\<rparr>)"
  "conns_inv K s \<Longrightarrow> conns_inv K (s\<lparr>rl_timer := tm\<rparr>)" "conns_inv K s \<Longrightarrow> conns_inv K (s\<lparr>rl_disposed := b\<rparr>)"
  "conns_inv K s \<Longrightarrow> conns_inv K (s\<lparr>rl_gen := g\<rparr>)" "conns_inv K s \<Longrightarrow> conns_inv K (s\<lparr>rl_rootGen := n, rl_gen := g\<rparr>)"
  "conns_inv K s \<Longrightarrow> conns_inv K (s\<lparr>rl_rootGen := n, rl_joinGen := k\<rparr>)"
  "conns_inv K s \<Longrightarrow> conns_inv K (s\<lparr>rl_joinGen := k, rl_next := Suc (rl_next s)\<rparr>)"
  "conns_inv K s \<Longrightarrow> conns_inv K (s\<lparr>rl_disposed := b, rl_rootGen := n, rl_gen := g, rl_joinGen := k\<rparr>)"
  by (erule conns_same, rule same_conns_simps, assumption?)+

lemma conns_goIdle: "conns_inv K s \<Longrightarrow> conns_inv K (goIdle s)"
  by (erule conns_same) (simp add: same_conns_def conns_defs split: option.split)

lemma conns_schedule: "conns_inv K s \<Longrightarrow> conns_inv K (scheduleReconnect g u s)"
  by (erule conns_same) (auto simp: same_conns_def conns_defs scheduleReconnect_def Let_def)

lemma conns_open:
  assumes "conns_inv K s" and "conn_of t = Some (rl_next s)"
  shows "conns_inv K (await t (snd (open_connection u s)))"
proof -
  let ?s = "await t (snd (open_connection u s))"
  have "conn_ok K s (rl_next s)" using assms(1) by (simp add: conns_inv_def)
  then have n: "rl_next s \<notin> opened s" "held s (rl_next s) = 0" by (auto simp: conn_ok_def split: if_splits)
  have h: "held ?s c = held s c + (if c = rl_next s then 1 else 0)" for c using assms(2) by (simp add: conns_defs)
  have o: "opened ?s = insert (rl_next s) (opened s)" by (auto simp: conns_defs)
  show ?thesis unfolding conns_inv_def
  proof
    fix c
    have "conn_ok K s c" using assms(1) by (simp add: conns_inv_def)
    then show "conn_ok K ?s c" using n by (cases "c = rl_next s") (simp_all add: conn_ok_def h o less_Suc_eq)
  qed
qed

text \<open>While a result is handled, the connection is in no place.\<close>

definition conns_gap :: "nat \<Rightarrow> nat set \<Rightarrow> 'z life_scheme \<Rightarrow> bool" where
  "conns_gap d K s \<longleftrightarrow> d \<in> opened s \<and> d < rl_next s \<and> held s d = 0 \<and>
     (\<forall>c. c \<noteq> d \<longrightarrow> conn_ok K s c)"

lemma gap_resumed:
  assumes "conns_inv K s" and "t \<in> set (rl_tasks s)" and "conn_of t = Some d"
  shows "conns_gap d K (resumed t s)"
proof -
  have h: "held (resumed t s) c + (if c = d then 1 else 0) = held s c" for c
  proof (cases "c = d")
    case True
    have t: "t \<in> set (filter (\<lambda>t. conn_of t = Some d) (rl_tasks s))" using assms(2,3) by simp
    then have "length (filter (\<lambda>t. conn_of t = Some d) (rl_tasks s)) > 0" by (cases "filter (\<lambda>t. conn_of t = Some d) (rl_tasks s)") auto
    then show ?thesis using True t by (simp add: conns_defs filter_remove1 length_remove1)
  next
    case False
    then have "filter (\<lambda>t. conn_of t = Some c) (remove1 t (rl_tasks s)) = filter (\<lambda>t. conn_of t = Some c) (rl_tasks s)"
      using assms(3) by (simp add: filter_remove1 remove1_idem)
    then show ?thesis using False by (simp add: conns_defs)
  qed
  have o: "opened (resumed t s) = opened s" by (simp add: opened_def)
  have ok: "conn_ok K s c" for c using assms(1) by (simp add: conns_inv_def)
  have ge: "held s d \<ge> 1" using h [of d] by simp
  have "(d \<in> opened s \<longrightarrow> d < rl_next s \<and> held s d \<le> 1) \<and> (d \<notin> opened s \<longrightarrow> held s d = 0)" using ok [of d] by (simp add: conn_ok_def)
  then have d: "d \<in> opened s" "d < rl_next s" "held s d = 1" using ge by (cases "d \<in> opened s"; simp)+
  have "held (resumed t s) c = held s c" if "c \<noteq> d" for c using h [of c] that by simp
  then have "conn_ok K (resumed t s) c" if "c \<noteq> d" for c using ok [of c] that by (simp add: conn_ok_def o)
  then show ?thesis using d h [of d] by (simp add: conns_gap_def o)
qed

lemma gap_shut:
  assumes "conns_gap d K s"
  shows "conns_inv K (say (Shut d) s)"
proof -
  have h: "held (say (Shut d) s) c = held s c + (if c = d then 1 else 0)" for c by (simp add: conns_defs)
  have o: "opened (say (Shut d) s) = opened s" by (simp add: conns_defs)
  have "conn_ok K (say (Shut d) s) c" for c
    using assms by (cases "c = d") (simp_all add: conns_gap_def conn_ok_def h o)
  then show ?thesis by (simp add: conns_inv_def)
qed

lemma gap_publish:
  assumes "conns_gap d K s" and "rl_relay s = None" and "rl_relay s' = Some d" "rl_tasks s' = rl_tasks s" "rl_next s \<le> rl_next s'"
    "tracked s' = tracked s @ [Published d]"
  shows "conns_inv K s'"
proof -
  have h: "held s' c = held s c + (if c = d then 1 else 0)" for c using assms(2-4,6) by (auto simp: conns_defs)
  have o: "opened s' = opened s" using assms(6) by (simp add: conns_defs)
  have n: "c < rl_next s'" if "c < rl_next s" for c using that assms(5) by simp
  have "conn_ok K s' c" for c
    using assms(1) n by (cases "c = d") (auto simp: conns_gap_def conn_ok_def h o)
  then show ?thesis by (simp add: conns_inv_def)
qed

lemma conns_closed:
  assumes "conns_inv K s"
  shows "conns_inv (insert c K) (onRelayClose c s)"
proof (cases "rl_relay s = Some c \<and> rl_started s")
  case True
  define s1 where "s1 = emitRelayState False ((detachBridge ((detach_all (stopAutoListener (s\<lparr>rl_gen := Suc (rl_gen s)\<rparr>)))\<lparr>rl_relay := None\<rparr>))
      \<lparr>rl_started := True\<rparr>)"
  have f: "rl_relay s1 = None" "rl_tasks s1 = rl_tasks s" "tracked s1 = tracked s" "rl_next s1 = rl_next s" by (simp_all add: s1_def)
  have h: "held s c' = held s1 c' + (if c' = c then 1 else 0)" for c' using True f by (simp add: conns_defs)
  have o: "opened s1 = opened s" using f by (simp add: conns_defs)
  have "conn_ok (insert c K) s1 c'" for c'
  proof -
    have "conn_ok K s c'" using assms by (simp add: conns_inv_def)
    then show ?thesis by (cases "c' = c") (auto simp: conn_ok_def h o f split: if_splits)
  qed
  then have "conns_inv (insert c K) s1" by (simp add: conns_inv_def)
  then show ?thesis using True
    by (auto simp: onRelayClose_def Let_def s1_def [symmetric] intro!: conns_schedule split: option.split list.split)
next
  case False
  then show ?thesis using conns_mono [OF assms, of "insert c K"] by (auto simp: onRelayClose_def)
qed


lemma conns_identity: "conns_inv K s \<Longrightarrow> conns_inv K (identity_result gen ctl res env cfg room s)"
  by (auto simp: identity_result_def Let_def split_def intro!: conns_steps conns_open split: identity_answer.split option.split)

lemma conns_start:
  assumes "conns_gap c K s"
  shows "conns_inv K (start_result c gen url short room ctl res now s)"
proof (cases "isCurrentCandidate gen s \<and> res = ConnectOk")
  case True
  define s1 where "s1 = setupRelayConnection c (s\<lparr>rl_relay := Some c, rl_url := Some url, rl_short := short, rl_room := Some room,
                    rl_started := True, rl_startedAt := (case rl_startedAt s of None \<Rightarrow> Some now | old \<Rightarrow> old)\<rparr>)"
  have s1: "conns_inv K s1" by (rule gap_publish [OF assms]) (use True in \<open>simp_all add: s1_def isCurrentCandidate_def\<close>)
  have "conns_inv K (s1\<lparr>rl_epoch := e, rl_readyEpoch := None, rl_topology := None, rl_producer := Some p, rl_next := Suc (rl_next s1)\<rparr>)" for e p
    by (rule conns_same [OF s1], rule same_connsI) simp_all
  then show ?thesis using True s1 by (auto simp: start_result_def Let_def s1_def [symmetric] intro!: conns_steps)
next
  case False
  then show ?thesis using gap_shut [OF assms] by (auto simp: start_result_def Let_def intro!: conns_steps)
qed

lemma conns_reconnect:
  assumes "conns_gap c K s"
  shows "conns_inv K (reconnect_result c gen url res s)"
proof (cases "isCurrentReconnect gen url s \<and> res = ConnectOk")
  case True
  have "conns_inv K (setupRelayConnection c (s\<lparr>rl_attempt := 0\<rparr>))"
    by (rule gap_publish [OF assms]) (use True in \<open>simp_all add: isCurrentReconnect_def\<close>)
  then show ?thesis using True by (simp add: reconnect_result_def conns_steps)
next
  case False
  then show ?thesis using gap_shut [OF assms] by (auto simp: reconnect_result_def Let_def intro!: conns_schedule)
qed

lemma conns_timer: "conns_inv K s \<Longrightarrow> conns_inv K (timer_fires s)"
  by (auto simp: timer_fires_def attemptReconnect_def Let_def split_def intro!: conns_steps conns_open split: option.split)

lemma conns_rest: "conns_inv K s \<Longrightarrow> conns_inv K (shutdown_rest s)"
  by (auto simp: shutdown_rest_def intro!: conns_steps conns_goIdle)

lemma conns_cmdStart: "conns_inv K s \<Longrightarrow> conns_inv K (cmdStart ctl s)"
  by (auto simp: cmdStart_def intro!: conns_steps)

lemma conns_reconcile: "conns_inv K s \<Longrightarrow> conns_inv K (reconcile p e present owners s)"
  by (induction p e present owners s rule: reconcile.induct) (auto intro: conns_steps)

lemma conns_cmdStop: "conns_inv K s \<Longrightarrow> conns_inv K (cmdStop s)"
proof -
  assume c: "conns_inv K s"
  define x where "x = s\<lparr>rl_rootGen := Suc (rl_rootGen s), rl_joinGen := Suc (rl_joinGen s)\<rparr>"
  have x: "conns_inv K x" unfolding x_def by (rule conns_steps) (rule c)
  show ?thesis unfolding cmdStop_def Let_def x_def [symmetric] using x by (auto intro!: conns_steps conns_goIdle)
qed

lemma conns_shutdown: "conns_inv K s \<Longrightarrow> conns_inv K (session_shutdown s)"
proof -
  assume c: "conns_inv K s"
  define x where "x = s\<lparr>rl_disposed := True, rl_rootGen := Suc (rl_rootGen s), rl_gen := Suc (rl_gen s), rl_joinGen := Suc (rl_joinGen s)\<rparr>"
  have x: "conns_inv K x" unfolding x_def by (rule conns_steps) (rule c)
  show ?thesis unfolding session_shutdown_def Let_def x_def [symmetric] using x by (auto intro!: conns_steps conns_rest)
qed

lemma conns_cmdJoin: "conns_inv K s \<Longrightarrow> conns_inv K (cmdJoin s)"
  by (auto simp: cmdJoin_def intro!: conns_steps)

lemma conns_cmdRoot: "conns_inv K s \<Longrightarrow> conns_inv K (cmdRoot restart s)"
  by (auto simp: cmdRoot_def root_begin_def intro!: conns_steps)

lemma conns_queued: "conns_inv K s \<Longrightarrow> conns_inv K (queued_result g restart s)"
  by (auto simp: queued_result_def root_begin_def intro!: conns_steps)

lemma conns_root_start: "conns_inv K s \<Longrightarrow> conns_inv K (root_start g wizard auto s)"
  by (auto simp: root_start_def intro!: conns_steps conns_cmdStart)

lemma conns_setup: "conns_inv K s \<Longrightarrow> conns_inv K (setup_result g res s)"
  by (auto simp: setup_result_def intro!: conns_steps conns_cmdJoin conns_root_start split: option.split)

lemma conns_joined: "conns_inv K s \<Longrightarrow> conns_inv K (joined_result g wizard auto node s)"
  by (auto simp: joined_result_def intro!: conns_steps conns_root_start)

lemma conns_resume:
  assumes "conns_inv K s" and "t \<in> set (rl_tasks s)" and "resume_task t a = Some f"
  shows "conns_inv K (f (resumed t s))"
  using assms(3)
proof (cases rule: resume_cases)
  case (connect c gen url short room ctl res now)
  then show ?thesis using gap_resumed [OF assms(1,2), of c] by (simp add: conns_start)
next
  case (reconnect c gen url res)
  then show ?thesis using gap_resumed [OF assms(1,2), of c] by (simp add: conns_reconnect)
qed (use conns_steps(13) [of t K s, OF _ assms(1)] in
  \<open>auto simp: conns_identity conns_rest conns_queued conns_setup conns_joined sweep_result_def join_result_def intro!: conns_steps split: option.split\<close>)

fun closed_by :: "input \<Rightarrow> nat set" where
  "closed_by (RelayClosed c) = {c}"
| "closed_by _ = {}"

lemma conns_step: "conns_inv K s \<Longrightarrow> conns_inv (K \<union> closed_by i) (life_step i s)"
proof (cases i)
  case (Resume t a)
  assume "conns_inv K s"
  then show ?thesis unfolding Resume life_step_resume using conns_resume by (auto split: option.split)
next
  case (RelayClosed c)
  assume "conns_inv K s"
  then show ?thesis using conns_closed [of K s c] by (simp add: RelayClosed)
next
  case (Control cmd)
  assume "conns_inv K s"
  then show ?thesis
    by (cases cmd) (auto simp: Control handleControl_def relay_up_def intro!: conns_steps conns_cmdStart conns_goIdle)
next
  case (SessionStart sid)
  assume "conns_inv K s"
  then show ?thesis by (auto simp: SessionStart session_start_def Let_def intro!: conns_cmdRoot conns_steps conns_cmdStart)
next
  case (PeerAttach l p)
  assume "conns_inv K s"
  then show ?thesis by (auto simp: PeerAttach intro!: conns_steps)
next
  case (PeerGone q)
  assume "conns_inv K s"
  then show ?thesis by (auto simp: PeerGone intro!: conns_steps)
qed (auto simp: conns_cmdStart conns_cmdStop conns_shutdown conns_timer conns_cmdJoin conns_cmdRoot onTopologyChanged_def
    onRevoke_def onAuthoritativeOwners_def conns_reconcile intro!: conns_steps)

definition closed_in :: "input list \<Rightarrow> nat set" where
  "closed_in is = (\<Union>i \<in> set is. closed_by i)"

lemma conns_run: "conns_inv K s \<Longrightarrow> conns_inv (K \<union> closed_in is) (life_run is s)"
proof (induction "is" arbitrary: K s)
  case (Cons i "is")
  have "conns_inv ((K \<union> closed_by i) \<union> closed_in is) (life_run is (life_step i s))" by (intro Cons.IH conns_step Cons.prems)
  then show ?case by (simp add: closed_in_def Un_assoc)
qed (simp add: closed_in_def)

lemma conns_fresh: "conns_inv {} fresh_life"
  by (simp add: conns_inv_def conn_ok_def opened_def held_def fresh_life_def)


section \<open>What clients know\<close>

text \<open>A start that has published its connection reports it when the first sweep is over.\<close>

definition report_due :: "'z life_scheme \<Rightarrow> bool" where
  "report_due s \<longleftrightarrow> (\<exists>c p e short url ctl. StartSweep c p e short url ctl \<in> set (rl_tasks s) \<and> rl_relay s = Some c \<and>
     rl_producer s = Some p \<and> rl_epoch s = e)"

definition status_inv :: "'z life_scheme \<Rightarrow> bool" where
  "status_inv s \<longleftrightarrow>
     (if rl_started s then rl_lastStatus s = Some (relayStatus s) \<or> report_due s \<or> ending s
      else rl_lastStatus s \<noteq> Some Connected \<and> rl_lastStatus s \<noteq> Some Reconnecting)"

definition same_status :: "'z life_scheme \<Rightarrow> 'z life_scheme \<Rightarrow> bool" where
  "same_status s s' \<longleftrightarrow> rl_started s' = rl_started s \<and> rl_relay s' = rl_relay s \<and> rl_producer s' = rl_producer s \<and>
     rl_epoch s' = rl_epoch s \<and> (rl_lastStatus s' = rl_lastStatus s \<or> rl_lastStatus s' = Some (relayStatus s)) \<and>
     set (rl_tasks s) \<subseteq> set (rl_tasks s')"

lemma status_same:
  assumes "status_inv s" and "same_status s s'"
  shows "status_inv s'"
proof -
  have "relayStatus s' = relayStatus s" using assms(2) by (simp add: same_status_def relayStatus_def)
  moreover have "report_due s \<Longrightarrow> report_due s'" "ending s \<Longrightarrow> ending s'"
    using assms(2) unfolding same_status_def report_due_def ending_def by (metis subsetD)+
  moreover have "\<not> rl_started s \<Longrightarrow> relayStatus s = Disconnected" by (simp add: relayStatus_def)
  ultimately show ?thesis using assms by (auto simp: status_inv_def same_status_def split: if_splits)
qed

lemma status_emitted_inv: "status_inv (emitRelayState f s)"
  by (simp add: status_inv_def relayStatus_def)

lemma status_steps:
  "status_inv s \<Longrightarrow> status_inv (say e s)" "status_inv s \<Longrightarrow> status_inv (finish f s)" "status_inv s \<Longrightarrow> status_inv (attachBridgeIfReady s)"
  "status_inv s \<Longrightarrow> status_inv (detachBridge s)" "status_inv s \<Longrightarrow> status_inv (set_mesh_topology t s)" "status_inv s \<Longrightarrow> status_inv (leave_mesh s)"
  "status_inv s \<Longrightarrow> status_inv (await tk s)" "status_inv s \<Longrightarrow> status_inv (onPeerDisconnect q s)" "status_inv s \<Longrightarrow> status_inv (revokeActiveOwnerRuntime p s)"
  "status_inv s \<Longrightarrow> status_inv (snd (attachOwner c p s))" "status_inv s \<Longrightarrow> status_inv (scheduleReconnect g u s)"
  "status_inv s \<Longrightarrow> status_inv (snd (open_connection u s))" "status_inv s \<Longrightarrow> status_inv (s\<lparr>rl_deferred := b\<rparr>)"
  "status_inv s \<Longrightarrow> status_inv (s\<lparr>rl_topology := tp\<rparr>)" "status_inv s \<Longrightarrow> status_inv (s\<lparr>rl_readyEpoch := e'\<rparr>)"
  "status_inv s \<Longrightarrow> status_inv (s\<lparr>rl_mesh := m\<rparr>)" "status_inv s \<Longrightarrow> status_inv (s\<lparr>rl_cached := kp\<rparr>)" "status_inv s \<Longrightarrow> status_inv (s\<lparr>rl_timer := tm\<rparr>)"
  "status_inv s \<Longrightarrow> status_inv (s\<lparr>rl_disposed := b\<rparr>)" "status_inv s \<Longrightarrow> status_inv (s\<lparr>rl_gen := g\<rparr>)"
  "status_inv s \<Longrightarrow> status_inv (s\<lparr>rl_rootGen := n, rl_gen := g\<rparr>)" "status_inv s \<Longrightarrow> status_inv (s\<lparr>rl_rootGen := n, rl_joinGen := k\<rparr>)"
  "status_inv s \<Longrightarrow> status_inv (s\<lparr>rl_joinGen := k, rl_next := Suc (rl_next s)\<rparr>)"
  "status_inv s \<Longrightarrow> status_inv (s\<lparr>rl_disposed := b, rl_rootGen := n, rl_gen := g, rl_joinGen := k\<rparr>)"
  by (erule status_same; auto simp: same_status_def scheduleReconnect_def Let_def finish_def)+

lemma status_goIdle: "status_inv (goIdle s)"
  by (simp add: status_inv_def)

lemma status_resumed:
  assumes "status_inv s" and "t \<noteq> ShutdownWait \<or> \<not> rl_started s"
    and "\<And>c p e short url ctl. t = StartSweep c p e short url ctl \<Longrightarrow>
      rl_relay s \<noteq> Some c \<or> rl_producer s \<noteq> Some p \<or> rl_epoch s \<noteq> e \<or> ending s"
  shows "status_inv (resumed t s)"
proof (cases "rl_started s \<and> rl_lastStatus s \<noteq> Some (relayStatus s)")
  case True
  have e: "ending s \<Longrightarrow> ending (resumed t s)" using assms(2) True by (auto simp: ending_def in_set_remove1)
  have "report_due (resumed t s) \<or> ending (resumed t s)" if r: "report_due s"
  proof (cases "ending s")
    case False
    obtain c p e' short url ctl where d: "StartSweep c p e' short url ctl \<in> set (rl_tasks s)" "rl_relay s = Some c" "rl_producer s = Some p"
        "rl_epoch s = e'" using r by (auto simp: report_due_def)
    then have "t \<noteq> StartSweep c p e' short url ctl" using assms(3) False by auto
    then have "StartSweep c p e' short url ctl \<in> set (remove1 t (rl_tasks s))" using d(1) by (simp add: in_set_remove1)
    then show ?thesis using d(2-) by (auto simp: report_due_def)
  qed (use e in simp)
  then show ?thesis using True assms(1) e by (auto simp: status_inv_def)
next
  case False
  then show ?thesis using assms(1) by (auto simp: status_inv_def)
qed

lemma status_identity: "status_inv s \<Longrightarrow> status_inv (identity_result gen ctl res env cfg room s)"
  by (auto simp: identity_result_def Let_def split_def intro!: status_steps split: identity_answer.split option.split)

lemma status_start:
  assumes "core_inv s" and "status_inv s"
  shows "status_inv (start_result c gen url short room ctl res now s)"
proof (cases "isCurrentCandidate gen s \<and> res = ConnectOk")
  case True
  then have p: "rl_producer s = None" using assms(1) by (simp add: isCurrentCandidate_def core_inv_def steady_def up_ok_def)
  then show ?thesis using True by (auto simp: start_result_def Let_def status_inv_def report_due_def)
next
  case False
  then show ?thesis using assms(2) by (auto simp: start_result_def Let_def intro!: status_steps)
qed

lemma status_sweep:
  assumes "core_inv s" and "status_inv s" and "t = StartSweep c p e short url ctl"
  shows "status_inv (sweep_result c p e short url ctl (resumed t s))"
proof (cases "rl_disposed s \<or> rl_producer s \<noteq> Some p \<or> rl_epoch s \<noteq> e \<or> rl_relay s \<noteq> Some c")
  case True
  have "ending s" if "rl_disposed s" "rl_relay s = Some c"
    using assms(1) that by (auto simp: core_inv_def steady_def up_ok_def split: if_splits)
  then have "status_inv (resumed t s)" using True assms(2,3) by (intro status_resumed) auto
  then show ?thesis using True by (simp add: sweep_result_def status_steps)
next
  case False
  then show ?thesis by (simp add: sweep_result_def status_steps status_emitted_inv)
qed

lemma status_reconnect: "status_inv s \<Longrightarrow> status_inv (reconnect_result c gen url res s)"
  by (auto simp: reconnect_result_def Let_def intro!: status_steps status_emitted_inv)

lemma status_rest: "(\<not> rl_started s \<Longrightarrow> status_inv s) \<Longrightarrow> status_inv (shutdown_rest s)"
  by (auto simp: shutdown_rest_def intro!: status_steps status_goIdle)

lemma status_cmdStart: "status_inv s \<Longrightarrow> status_inv (cmdStart ctl s)"
  by (auto simp: cmdStart_def intro!: status_steps)

lemma status_cmdJoin: "status_inv s \<Longrightarrow> status_inv (cmdJoin s)"
  by (auto simp: cmdJoin_def intro!: status_steps)

lemma status_cmdRoot: "status_inv s \<Longrightarrow> status_inv (cmdRoot restart s)"
  by (auto simp: cmdRoot_def root_begin_def intro!: status_steps)

lemma status_queued: "status_inv s \<Longrightarrow> status_inv (queued_result g restart s)"
  by (auto simp: queued_result_def root_begin_def intro!: status_steps)

lemma status_root_start: "status_inv s \<Longrightarrow> status_inv (root_start g wizard auto s)"
  by (auto simp: root_start_def intro!: status_steps status_cmdStart)

lemma status_setup: "status_inv s \<Longrightarrow> status_inv (setup_result g res s)"
  by (auto simp: setup_result_def intro!: status_steps status_cmdJoin status_root_start split: option.split)

lemma status_joined: "status_inv s \<Longrightarrow> status_inv (joined_result g wizard auto node s)"
  by (auto simp: joined_result_def intro!: status_steps status_root_start)

lemma status_resume:
  assumes "core_inv s" and "status_inv s" and "t \<in> set (rl_tasks s)" and "resume_task t a = Some f"
  shows "status_inv (f (resumed t s))"
  using assms(4)
proof (cases rule: resume_cases)
  case (connect c gen url short room ctl res now)
  then have "core_inv (resumed t s)" "status_inv (resumed t s)" using assms by (auto intro!: core_resumed status_resumed)
  then show ?thesis unfolding connect(2) by (rule status_start)
next
  case (sweep c p e short url ctl)
  then show ?thesis using status_sweep [OF assms(1,2) sweep(1)] by simp
next
  case over
  then show ?thesis using status_resumed [OF assms(2), of t] by (auto intro!: status_rest)
qed (use status_resumed [OF assms(2), of t] in
  \<open>auto simp: status_identity status_reconnect status_queued status_setup status_joined join_result_def intro!: status_steps split: option.split\<close>)

lemma status_closed: "status_inv s \<Longrightarrow> status_inv (onRelayClose c s)"
  by (auto simp: onRelayClose_def Let_def intro!: status_steps status_emitted_inv split: option.split list.split)

lemma status_reconcile: "status_inv s \<Longrightarrow> status_inv (reconcile p e present owners s)"
  by (induction p e present owners s rule: reconcile.induct) (auto intro: status_steps)

lemma status_cmdStop: "status_inv s \<Longrightarrow> status_inv (cmdStop s)"
proof -
  assume c: "status_inv s"
  define x where "x = s\<lparr>rl_rootGen := Suc (rl_rootGen s), rl_joinGen := Suc (rl_joinGen s)\<rparr>"
  have x: "status_inv x" unfolding x_def by (rule status_steps) (rule c)
  show ?thesis unfolding cmdStop_def Let_def x_def [symmetric] using x by (auto intro!: status_steps status_goIdle)
qed

lemma status_shutdown: "status_inv s \<Longrightarrow> status_inv (session_shutdown s)"
proof -
  assume c: "status_inv s"
  define x where "x = s\<lparr>rl_disposed := True, rl_rootGen := Suc (rl_rootGen s), rl_gen := Suc (rl_gen s), rl_joinGen := Suc (rl_joinGen s)\<rparr>"
  have x: "status_inv x" unfolding x_def by (rule status_steps) (rule c)
  show ?thesis unfolding session_shutdown_def Let_def x_def [symmetric] using x by (auto intro!: status_steps status_rest)
qed

lemma status_step: "core_inv s \<Longrightarrow> status_inv s \<Longrightarrow> status_inv (life_step i s)"
proof (cases i)
  case (Resume t a)
  assume "core_inv s" "status_inv s"
  then show ?thesis unfolding Resume life_step_resume using status_resume by (auto split: option.split)
next
  case (Control cmd)
  assume "status_inv s"
  then show ?thesis by (cases cmd) (auto simp: Control handleControl_def relay_up_def intro!: status_emitted_inv status_cmdStart)
next
  case (SessionStart sid)
  assume "status_inv s"
  then show ?thesis by (auto simp: SessionStart session_start_def Let_def intro!: status_cmdRoot status_steps status_cmdStart)
next
  case (PeerAttach l p)
  assume "status_inv s"
  then show ?thesis by (auto simp: PeerAttach intro!: status_steps)
next
  case (PeerGone q)
  assume "status_inv s"
  then show ?thesis by (auto simp: PeerGone intro!: status_steps)
qed (auto simp: status_cmdStart status_cmdStop status_shutdown timer_fires_def attemptReconnect_def split_def status_closed status_cmdJoin status_cmdRoot
    onTopologyChanged_def onRevoke_def onAuthoritativeOwners_def status_reconcile Let_def intro!: status_steps split: option.split)

lemma status_run: "core_inv s \<Longrightarrow> status_inv s \<Longrightarrow> status_inv (life_run is s)"
  by (induction "is" arbitrary: s) (simp_all add: core_step status_step)

lemma status_fresh: "status_inv fresh_life"
  by (simp add: status_inv_def fresh_life_def)


section \<open>The roots under way\<close>



lemma root_gen_idle [simp]: "rl_rootGen (goIdle s) = Suc (rl_rootGen s)" "rl_rootGen (resumed t s) = rl_rootGen s"
  by (simp_all add: goIdle_def resumed_def Let_def)


lemma scheduled_tasks [simp]: "rl_tasks (scheduleReconnect g u s) = rl_tasks s"
  by (simp add: scheduleReconnect_def Let_def)

























section \<open>What is guaranteed\<close>

lemma reachable_inv: "core_inv (life_run is fresh_life)" "links_inv (life_run is fresh_life)" "status_inv (life_run is fresh_life)"
  "conns_inv (closed_in is) (life_run is fresh_life)"
  using core_run [OF core_fresh] links_run [OF core_fresh links_fresh] status_run [OF core_fresh status_fresh]
    conns_run [OF conns_fresh, of "is"] by simp_all

lemma closed_in_iff: "c \<in> closed_in is \<longleftrightarrow> RelayClosed c \<in> set is"
proof -
  have "c \<in> closed_by i \<longleftrightarrow> i = RelayClosed c" for i by (cases i) auto
  then show ?thesis by (auto simp: closed_in_def)
qed

text \<open>C22: no connection to the relay is lost. Every connection ever opened is in exactly one place: its result is awaited, it is the current
  one, or it was closed, and that once only; unless the network closed it. So a candidate that comes too late, after a stop, a
  newer start or the end of the session, is closed and never forgotten.\<close>

theorem connections_accounted:
  assumes "Opened c u \<in> set (rl_log (life_run is fresh_life))"
  shows "held (life_run is fresh_life) c = 1 \<or> (held (life_run is fresh_life) c = 0 \<and> RelayClosed c \<in> set is)"
proof -
  have "c \<in> opened (life_run is fresh_life)" using assms by (auto simp: opened_def)
  moreover have "conn_ok (closed_in is) (life_run is fresh_life) c" using reachable_inv(4) [of "is"] by (simp add: conns_inv_def)
  ultimately show ?thesis by (auto simp: conn_ok_def closed_in_iff le_Suc_eq)
qed

text \<open>What listens, listens to the current connection. While there is none, no listener is installed and no owner is
  attached. While there is one, exactly one listener is installed, on it, and it has authority unless the session is being
  shut down; every attached owner has one channel of its own, on it, and no other channel is attached.\<close>

theorem current_connection_only:
  "case rl_relay (life_run is fresh_life) of
     None \<Rightarrow> rl_installed (life_run is fresh_life) = [] \<and> rl_active (life_run is fresh_life) = [] \<and> rl_attached (life_run is fresh_life) = []
   | Some c \<Rightarrow> (\<exists>g. rl_installed (life_run is fresh_life) = [(c, g)] \<and>
         (hasListenerAuthority (c, g) (life_run is fresh_life) \<or> ShutdownWait \<in> set (rl_tasks (life_run is fresh_life)))) \<and>
       mset (rl_attached (life_run is fresh_life)) = mset (mvals (rl_active (life_run is fresh_life))) \<and>
       list_all (\<lambda>(k, ch). ch_peer ch = k \<and> ch_relay ch = c) (rl_active (life_run is fresh_life)) \<and>
       distinct (mkeys (rl_active (life_run is fresh_life)))"
proof -
  define s where "s = life_run is fresh_life"
  have i: "core_inv s" "links_inv s" unfolding s_def by (rule reachable_inv)+
  show ?thesis
  proof (cases "rl_relay s")
    case None
    then show ?thesis unfolding s_def [symmetric] using i(2) by (simp add: links_down)
  next
    case (Some c)
    have st: "rl_started s" using i(1) Some by (auto simp: core_inv_def steady_def up_ok_def split: if_splits)
    have d: "rl_disposed s \<Longrightarrow> ending s" using i(1) st by (simp add: core_inv_def steady_def up_ok_def)
    have l: "listener_ok s" and ch: "channels_ok s" using i(2) by (simp_all add: links_inv_def)
    have a: "\<exists>g. rl_installed s = [(c, g)] \<and> (hasListenerAuthority (c, g) s \<or> ShutdownWait \<in> set (rl_tasks s))"
      using l Some st d by (auto simp: listener_ok_def hasListenerAuthority_def ending_def)
    have p: "\<forall>k ch. (k, ch) \<in> set (rl_active s) \<longrightarrow> ch_peer ch = k" using ch by (auto simp: channels_ok_def)
    have "inj_on snd (set (rl_active s))"
    proof (rule inj_onI)
      fix x y assume "x \<in> set (rl_active s)" "y \<in> set (rl_active s)" "snd x = snd y"
      then show "x = y" using p by (metis prod.collapse)
    qed
    then have "distinct (mvals (rl_active s))" using ch by (auto simp: channels_ok_def mwf_def distinct_map)
    moreover have "distinct (rl_attached s)" "set (rl_attached s) = set (mvals (rl_active s))" using ch by (simp_all only: channels_ok_def)
    ultimately have "mset (rl_attached s) = mset (mvals (rl_active s))" by (simp only: set_eq_iff_mset_eq_distinct)
    moreover have "list_all (\<lambda>(k, ch). ch_peer ch = k \<and> ch_relay ch = c) (rl_active s)"
      using ch Some by (auto simp: channels_ok_def list_all_iff)
    moreover have "distinct (mkeys (rl_active s))" using ch by (simp add: channels_ok_def mwf_def)
    ultimately show ?thesis using a Some unfolding s_def [symmetric] by simp
  qed
qed

text \<open>Clients know the state of the relay. At any time the last state told to them is the current one; or nothing was
  told yet and the relay is off; or a report is on its way, because a start waits for its first sweep or the session is being shut down.\<close>

theorem clients_informed:
  "rl_lastStatus (life_run is fresh_life) = Some (relayStatus (life_run is fresh_life)) \<or>
   (rl_lastStatus (life_run is fresh_life) = None \<and> relayStatus (life_run is fresh_life) = Disconnected) \<or>
   (\<exists>c p e short url ctl. StartSweep c p e short url ctl \<in> set (rl_tasks (life_run is fresh_life)) \<and>
      rl_relay (life_run is fresh_life) = Some c) \<or>
   ShutdownWait \<in> set (rl_tasks (life_run is fresh_life))"
proof -
  define s where "s = life_run is fresh_life"
  have "status_inv s" unfolding s_def by (rule reachable_inv)
  moreover have "rl_lastStatus s = None \<or> rl_lastStatus s = Some Disconnected" if "rl_lastStatus s \<noteq> Some Connected" "rl_lastStatus s \<noteq> Some Reconnecting"
  proof (cases "rl_lastStatus s")
    case (Some x)
    then show ?thesis using that by (cases x) auto
  qed simp
  moreover have "\<exists>c p e short url ctl. StartSweep c p e short url ctl \<in> set (rl_tasks s) \<and> rl_relay s = Some c" if "report_due s"
    using that unfolding report_due_def by blast
  ultimately show ?thesis unfolding s_def [symmetric]
    by (cases "rl_started s") (auto simp: status_inv_def ending_def relayStatus_def)
qed



















text \<open>The timer fires and the connection that it opens has the given result.\<close>

definition retry :: "connect_result \<Rightarrow> life \<Rightarrow> life" where
  "retry res s =
     (case rl_timer s of
        Some (g, u) \<Rightarrow> life_run [TimerFires, Resume (ReconnectWait (rl_next s) g u) (GotConnect res 0)] s
      | None \<Rightarrow> s)"

lemma retry_timer:
  assumes "core_inv s" and "rl_timer s = Some (g, u)" and "g = rl_gen s"
  obtains s1 where "retry res s = reconnect_result (rl_next s) g u res s1" and "isCurrentReconnect g u s1" and "core_inv s" and
    "rl_tasks s1 = rl_tasks s" and "tracked s1 = tracked s @ [Opened (rl_next s) (toWebSocketUrl u)]" and "rl_attempt s1 = rl_attempt s" and
    "rl_timer s1 = None" and "rl_cached s1 = rl_cached s" and "rl_started s1" and "rl_next s1 = Suc (rl_next s)" and "rl_gen s1 = rl_gen s" and
    "rl_cached s \<noteq> None" and "rl_disposed s1 = rl_disposed s"
proof -
  have t: "rl_started s" "rl_relay s = None" "rl_url s = Some u" "rl_cached s \<noteq> None" "live s = []"
    using assms by (auto simp: core_inv_def steady_def timer_ok_def up_ok_def single_def)
  define s1 where "s1 = snd (open_connection u (s\<lparr>rl_timer := None\<rparr>))"
  let ?t = "ReconnectWait (rl_next s) g u"
  have f: "timer_fires s = await ?t s1"
    using assms(2,3) t by (auto simp: timer_fires_def isCurrentReconnect_def attemptReconnect_def Let_def split_def s1_def)
  have n: "?t \<notin> set (rl_tasks s)" using t(5) assms(3) by (auto simp: live_def filter_empty_conv)
  have "resumed ?t (await ?t s1) = s1"
    using n by (simp add: resumed_def await_def s1_def remove1_append open_connection_def say_def)
  then have "retry res s = reconnect_result (rl_next s) g u res s1"
    using assms(2) by (simp add: retry_def life_step_resume f del: life_step.simps(15))
  then show ?thesis
    by (rule that) (use assms t in \<open>simp_all add: s1_def isCurrentReconnect_def\<close>)
qed


lemma reconnected:
  assumes "isCurrentReconnect g u s" and "\<not> rl_disposed s"
  shows "rl_relay (reconnect_result c g u ConnectOk s) = Some c" and "rl_lastStatus (reconnect_result c g u ConnectOk s) = Some Connected"
    and "rl_listener (reconnect_result c g u ConnectOk s) = Some (c, g)" and "hasListenerAuthority (c, g) (reconnect_result c g u ConnectOk s)"
  using assms by (simp_all add: reconnect_result_def isCurrentReconnect_def relayStatus_def hasListenerAuthority_def)

text \<open>C24: a lost connection is always being restored. Whenever the relay is on, the connection is gone and the session is not being shut
  down, either the timer is set or a candidate is on its way; when the connection succeeds, at most two events from now,
  it is the current one, the listener on it is installed and has authority, and clients are told. The machine never hangs between on and off.\<close>

theorem lost_connection_restored:
  assumes "relayStatus (life_run is fresh_life) = Reconnecting" and "ShutdownWait \<notin> set (rl_tasks (life_run is fresh_life))"
  shows "\<exists>js c g u. js \<in> {[TimerFires, Resume (ReconnectWait c g u) (GotConnect ConnectOk 0)], [Resume (ReconnectWait c g u) (GotConnect ConnectOk 0)]} \<and>
     rl_relay (life_run (is @ js) fresh_life) = Some c \<and> rl_listener (life_run (is @ js) fresh_life) = Some (c, g) \<and>
     hasListenerAuthority (c, g) (life_run (is @ js) fresh_life) \<and> rl_lastStatus (life_run (is @ js) fresh_life) = Some Connected"
proof -
  define s where "s = life_run is fresh_life"
  have i: "core_inv s" unfolding s_def by (rule reachable_inv)
  have st: "rl_started s" "rl_relay s = None" "\<not> ending s"
    using assms by (auto simp: s_def [symmetric] relayStatus_def ending_def split: if_splits)
  then have d: "\<not> rl_disposed s" and r: "rl_timer s \<noteq> None \<or> (\<exists>c u. ReconnectWait c (rl_gen s) u \<in> set (rl_tasks s))"
    using i by (auto simp: core_inv_def steady_def up_ok_def restoring_def)
  show ?thesis
  proof (cases "rl_timer s")
    case None
    then obtain c u where w: "ReconnectWait c (rl_gen s) u \<in> set (rl_tasks s)" using r by auto
    let ?t = "ReconnectWait c (rl_gen s) u"
    have "task_ok s ?t" using i w by (simp only: core_inv_def steady_def)
    then have cur: "isCurrentReconnect (rl_gen s) u (resumed ?t s)" by (simp add: isCurrentReconnect_def)
    have "life_run [Resume ?t (GotConnect ConnectOk 0)] s = reconnect_result c (rl_gen s) u ConnectOk (resumed ?t s)"
      using w by (simp add: life_step_resume del: life_step.simps(15))
    then show ?thesis using reconnected [OF cur, of c] d unfolding life_run_simps(3) s_def [symmetric]
      by (intro exI [of _ "[Resume ?t (GotConnect ConnectOk 0)]"] exI [of _ c] exI [of _ "rl_gen s"] exI [of _ u]) simp
  next
    case (Some gu)
    obtain g u where gu: "rl_timer s = Some (g, u)" using Some by (cases gu) auto
    have g: "g = rl_gen s" using i gu st(3) by (auto simp: core_inv_def steady_def timer_ok_def)
    obtain s1 where s1: "retry ConnectOk s = reconnect_result (rl_next s) g u ConnectOk s1" "isCurrentReconnect g u s1" "rl_disposed s1 = rl_disposed s"
      by (rule retry_timer [OF i gu g, of ConnectOk])
    have "life_run [TimerFires, Resume (ReconnectWait (rl_next s) g u) (GotConnect ConnectOk 0)] s = reconnect_result (rl_next s) g u ConnectOk s1"
      using s1(1) gu by (simp add: retry_def)
    then show ?thesis using reconnected [OF s1(2), of "rl_next s"] d s1(3) unfolding life_run_simps(3) s_def [symmetric]
      by (intro exI [of _ "[TimerFires, Resume (ReconnectWait (rl_next s) g u) (GotConnect ConnectOk 0)]"] exI [of _ "rl_next s"]
          exI [of _ g] exI [of _ u]) simp
  qed
qed

definition delays :: "'z life_scheme \<Rightarrow> nat list" where
  "delays s = concat (map (\<lambda>e. case e of Scheduled d \<Rightarrow> [d] | _ \<Rightarrow> []) (rl_log s))"

lemma delays_tracked: "delays s = concat (map (\<lambda>e. case e of Scheduled d \<Rightarrow> [d] | _ \<Rightarrow> []) (tracked s))"
proof -
  have "concat (map (\<lambda>e. case e of Scheduled d \<Rightarrow> [d] | _ \<Rightarrow> []) xs) =
      concat (map (\<lambda>e. case e of Scheduled d \<Rightarrow> [d] | _ \<Rightarrow> []) (filter is_tracked xs))" for xs
    by (induction xs) (auto split: life_event.split)
  then show ?thesis by (simp add: delays_def tracked_def)
qed

lemma backoff_count: "length RECONNECT_BACKOFFS_MS - 1 = 4" "length RECONNECT_BACKOFFS_MS - Suc 0 = 4"
  by (simp_all add: RECONNECT_BACKOFFS_MS_def)

lemma failed_retry:
  assumes "core_inv s" and "rl_timer s = Some (g, u)" and "g = rl_gen s"
  shows "core_inv (retry ConnectError s)" and "rl_timer (retry ConnectError s) = Some (g, u)" and "rl_gen (retry ConnectError s) = g"
    and "rl_attempt (retry ConnectError s) = Suc (rl_attempt s)"
    and "delays (retry ConnectError s) = delays s @ [RECONNECT_BACKOFFS_MS ! min (rl_attempt s) 4]"
proof -
  show "core_inv (retry ConnectError s)" unfolding retry_def assms(2) option.case prod.case by (rule core_run) (rule assms(1))
  obtain s1 where s1: "retry ConnectError s = reconnect_result (rl_next s) g u ConnectError s1" "isCurrentReconnect g u s1"
    "tracked s1 = tracked s @ [Opened (rl_next s) (toWebSocketUrl u)]" "rl_attempt s1 = rl_attempt s" "rl_timer s1 = None"
    "rl_cached s1 = rl_cached s" "rl_gen s1 = rl_gen s" "rl_cached s \<noteq> None"
    by (rule retry_timer [OF assms, of ConnectError])
  have "isCurrentReconnect g u (say (Shut (rl_next s)) s1)" using s1(2) by (simp add: isCurrentReconnect_def)
  then have "retry ConnectError s = say (Scheduled (RECONNECT_BACKOFFS_MS ! min (rl_attempt s) 4))
      ((say (Shut (rl_next s)) s1)\<lparr>rl_attempt := Suc (rl_attempt s), rl_timer := Some (g, u)\<rparr>)"
    using s1 by (auto simp add: reconnect_result_def Let_def scheduleReconnect_def backoff_count)
  then show "rl_timer (retry ConnectError s) = Some (g, u)" "rl_gen (retry ConnectError s) = g"
    "rl_attempt (retry ConnectError s) = Suc (rl_attempt s)"
    "delays (retry ConnectError s) = delays s @ [RECONNECT_BACKOFFS_MS ! min (rl_attempt s) 4]"
    using s1 assms(3) by (simp_all add: delays_tracked)
qed

lemma failed_retries:
  assumes "core_inv s" and "rl_timer s = Some (g, u)" and "g = rl_gen s"
  shows "delays ((retry ConnectError ^^ n) s) = delays s @ map (\<lambda>k. RECONNECT_BACKOFFS_MS ! min (rl_attempt s + k) 4) [0..<n] \<and>
    core_inv ((retry ConnectError ^^ n) s) \<and> rl_timer ((retry ConnectError ^^ n) s) = Some (g, u) \<and>
    rl_gen ((retry ConnectError ^^ n) s) = g \<and> rl_attempt ((retry ConnectError ^^ n) s) = rl_attempt s + n"
proof (induction n)
  case 0
  then show ?case using assms by simp
next
  case (Suc n)
  let ?x = "(retry ConnectError ^^ n) s"
  have x: "core_inv ?x" "rl_timer ?x = Some (g, u)" "g = rl_gen ?x" "rl_attempt ?x = rl_attempt s + n"
    "delays ?x = delays s @ map (\<lambda>k. RECONNECT_BACKOFFS_MS ! min (rl_attempt s + k) 4) [0..<n]" using Suc.IH by blast+
  have e: "(retry ConnectError ^^ Suc n) s = retry ConnectError ?x" by simp
  show ?case unfolding e using failed_retry [OF x(1-3)] x(4,5) by (simp only:) simp
qed

text \<open>Reconnection keeps the documented pace. When the current connection is lost and every attempt after that fails, the waits are
  1, 2, 5, 10 and then 30 seconds, for ever: after \<open>n\<close> failed attempts the timer is set again, and exactly these delays have
  been scheduled. A success starts the sequence anew.\<close>

theorem reconnect_pace:
  assumes "rl_relay (life_run is fresh_life) = Some c"
  shows "delays ((retry ConnectError ^^ n) (life_run (is @ [RelayClosed c]) fresh_life)) =
      delays (life_run is fresh_life) @ map (\<lambda>k. [1000, 2000, 5000, 10000, 30000] ! min k 4) [0..<Suc n] \<and>
    rl_timer ((retry ConnectError ^^ n) (life_run (is @ [RelayClosed c]) fresh_life)) \<noteq> None"
proof -
  define s where "s = life_run is fresh_life"
  define x where "x = onRelayClose c s"
  have i: "core_inv s" "core_inv x" unfolding s_def x_def using reachable_inv(1) core_closed by blast+
  have c: "rl_relay s = Some c" using assms by (simp add: s_def)
  have st: "rl_started s" "rl_attempt s = 0" "rl_timer s = None" "rl_cached s \<noteq> None"
    using i(1) c by (auto simp: core_inv_def steady_def up_ok_def single_def split: if_splits)
  obtain h u where u: "rl_url s = Some (h # u)" using i(1) st(1) by (auto simp: core_inv_def steady_def up_ok_def)
  define s1 where "s1 = emitRelayState False ((detachBridge ((detach_all (stopAutoListener (s\<lparr>rl_gen := Suc (rl_gen s)\<rparr>)))\<lparr>rl_relay := None\<rparr>))
      \<lparr>rl_started := True\<rparr>)"
  have f: "rl_started s1" "rl_relay s1 = None" "rl_gen s1 = Suc (rl_gen s)" "rl_url s1 = Some (h # u)" "rl_timer s1 = None" "rl_cached s1 = rl_cached s"
    "rl_attempt s1 = 0" "tracked s1 = tracked s" using st u by (simp_all add: s1_def)
  have "x = scheduleReconnect (rl_gen s1) (h # u) s1"
    using c st(1) u by (simp add: x_def onRelayClose_def Let_def s1_def [symmetric])
  also have "\<dots> = say (Scheduled 1000) (s1\<lparr>rl_attempt := 1, rl_timer := Some (rl_gen s1, h # u)\<rparr>)"
    using f st(4) by (auto simp add: scheduleReconnect_def isCurrentReconnect_def RECONNECT_BACKOFFS_MS_def)
  finally have x: "rl_timer x = Some (rl_gen x, h # u)" "rl_attempt x = 1" "delays x = delays s @ [1000]"
    using f(8) by (simp_all add: delays_tracked)
  have "map (\<lambda>k. [1000, 2000, 5000, 10000, 30000] ! min k 4) [0..<Suc n] =
      1000 # map (\<lambda>k. RECONNECT_BACKOFFS_MS ! min (1 + k) 4) [0..<n]"
    by (simp add: upt_conv_Cons map_Suc_upt [symmetric] RECONNECT_BACKOFFS_MS_def comp_def del: upt_Suc)
  then show ?thesis using failed_retries [OF i(2) x(1) refl, of n] x(2,3)
    by (simp add: s_def [symmetric] x_def [symmetric])
qed


section \<open>A run\<close>

text \<open>A start with a configured relay, up to its first sweep; and a second candidate under way.\<close>

definition demo_up :: "input list" where
  "demo_up =
     [StartCmd,
      Resume (StartIdentity 1 False) (GotIdentity (Identity ([], [])) (Some ''http://r'') None (Some ''room'')),
      Resume (StartConnect 0 1 ''http://r'' [] ''room'' False) (GotConnect ConnectOk 7)]"

lemma demo_up_state:
  "rl_relay (life_run demo_up fresh_life) = Some 0" "rl_deferred (life_run demo_up fresh_life) = False"
  "Opened 0 ''ws://r'' \<in> set (rl_log (life_run demo_up fresh_life))"
  "relayStatus (life_run (demo_up @ [RelayClosed 0]) fresh_life) = Reconnecting"
  "rl_tasks (life_run (demo_up @ [RelayClosed 0]) fresh_life) = [StartSweep 0 1 1 [] ''http://r'' False]"
  by code_simp+

lemma connections_accounted_witness:
  "held (life_run demo_up fresh_life) 0 = 1 \<or> (held (life_run demo_up fresh_life) 0 = 0 \<and> RelayClosed 0 \<in> set demo_up)"
  by (rule connections_accounted [OF demo_up_state(3)])




lemma new_session_restarts:
  "RootSetup 2 \<in> set (rl_tasks (life_run [StopCmd, Shutdown, SessionStart True] fresh_life))"
  by code_simp

lemma lost_connection_restored_witness:
  "\<exists>js c. rl_relay (life_run ((demo_up @ [RelayClosed 0]) @ js) fresh_life) = Some c"
  using lost_connection_restored [of "demo_up @ [RelayClosed 0]"] demo_up_state(4,5) by fastforce

lemma reconnect_pace_witness:
  "delays ((retry ConnectError ^^ 6) (life_run (demo_up @ [RelayClosed 0]) fresh_life)) =
     delays (life_run demo_up fresh_life) @ [1000, 2000, 5000, 10000, 30000, 30000, 30000]"
  using reconnect_pace [OF demo_up_state(1), of 6] by (simp add: upt_rec)

end
