(* ===== verification/PairingProps.thy ===== *)
theory PairingProps
  imports Pairing RelayGuarantees
begin

text \<open>
  What the runs of a \<open>machine\<close> keep: the invariants of the relay connection, those of the QR token, and the
  evidence behind every owner that is served.
\<close>

section \<open>Only the listener attaches\<close>

lemma attached_small:
  "rl_attached (goIdle s) = filter (\<lambda>c. c \<notin> set (mvals (rl_active s))) (rl_attached s)"
  "rl_attached (scheduleReconnect g u s) = rl_attached s"
  "rl_attached (setupRelayConnection c s) = rl_attached s"
  "rl_attached (snd (open_connection u s)) = rl_attached s"
  "set (rl_attached (detachPeerChannel p s)) \<subseteq> set (rl_attached s)"
  "rl_attached (say e s) = rl_attached s"
  by (auto simp: scheduleReconnect_def Let_def open_connection_def detachPeerChannel_def detach_channel_def split: option.split)

lemma attached_revoke: "set (rl_attached (revokeActiveOwnerRuntime p s)) \<subseteq> set (rl_attached s)"
  using attached_small(5) [of p "say PairingsRefreshed s"] by (auto simp: revokeActiveOwnerRuntime_def)

lemma attached_gone: "set (rl_attached (onPeerDisconnect q s)) \<subseteq> set (rl_attached s)"
  using attached_small(5) by (auto simp: onPeerDisconnect_def Let_def split: option.split)

lemma attached_reconcile: "set (rl_attached (reconcile p e present owners s)) \<subseteq> set (rl_attached s)"
proof (induction owners arbitrary: s)
  case (Cons a owners)
  show ?case using Cons [of s] order.trans [OF Cons attached_revoke, of a s] by simp
qed simp

lemma attached_timer: "rl_attached (timer_fires s) = rl_attached s"
  by (simp add: timer_fires_def attemptReconnect_def Let_def split_def attached_small split: option.split)

lemma attached_start: "rl_attached (cmdStart ctl s) = rl_attached s"
  by (simp add: cmdStart_def)

lemma attached_join: "rl_attached (cmdJoin s) = rl_attached s"
  by (simp add: cmdJoin_def)

lemma attached_closed: "set (rl_attached (onRelayClose c s)) \<subseteq> set (rl_attached s)"
  by (auto simp: onRelayClose_def Let_def attached_small split: option.split list.split)

lemma attached_rest: "set (rl_attached (shutdown_rest s)) \<subseteq> set (rl_attached s)"
  by (simp add: shutdown_rest_def attached_small)

lemma attached_stop: "set (rl_attached (cmdStop s)) \<subseteq> set (rl_attached s)"
  by (auto simp: cmdStop_def Let_def attached_small)

lemma attached_shutdown: "set (rl_attached (session_shutdown s)) \<subseteq> set (rl_attached s)"
  by (auto simp: session_shutdown_def shutdown_rest_def Let_def attached_small)

lemma attached_control: "set (rl_attached (handleControl cmd s)) \<subseteq> set (rl_attached s)"
  by (auto simp: handleControl_def relay_up_def attached_start attached_small split: control.split)

lemma attached_identity: "rl_attached (identity_result gen ctl res env cfg room s) = rl_attached s"
  by (simp add: identity_result_def Let_def split_def attached_small split: identity_answer.split option.split)

lemma attached_connected: "rl_attached (start_result c gen url short room ctl res now s) = rl_attached s"
  by (simp add: start_result_def Let_def attached_small)

lemma attached_again: "rl_attached (reconnect_result c gen url res s) = rl_attached s"
  by (simp add: reconnect_result_def Let_def attached_small)

lemma attached_swept: "rl_attached (sweep_result c p e short url ctl s) = rl_attached s"
  by (simp add: sweep_result_def)

lemma attached_joined: "rl_attached (join_result node gen res s) = rl_attached s"
  by (simp add: join_result_def split: option.split)

lemma attached_begin: "rl_attached (root_begin g s) = rl_attached s"
  by (simp add: root_begin_def)

lemma attached_root: "rl_attached (cmdRoot restart s) = rl_attached s" "rl_attached (queued_result g restart s) = rl_attached s"
  by (simp_all add: cmdRoot_def queued_result_def attached_begin)

lemma attached_root_start: "rl_attached (root_start g wizard auto s) = rl_attached s"
  by (simp add: root_start_def attached_start)

lemma attached_setup: "rl_attached (setup_result g res s) = rl_attached s" "rl_attached (joined_result g wizard auto node s) = rl_attached s"
  by (simp_all add: setup_result_def joined_result_def attached_join attached_root_start split: option.split)

lemma attached_session: "rl_attached (session_start sid s) = rl_attached s"
  by (simp add: session_start_def Let_def attached_root attached_start)

lemma attached_resume:
  assumes "resume_task t a = Some f"
  shows "set (rl_attached (f s)) \<subseteq> set (rl_attached s)"
  using assms attached_rest [of s]
  by (cases "(t, a)" rule: resume_task.cases)
     (auto simp: attached_identity attached_connected attached_again attached_swept attached_joined
       attached_root attached_setup)

lemma attached_step: "\<forall>l p. i \<noteq> PeerAttach l p \<Longrightarrow> set (rl_attached (life_step i s)) \<subseteq> set (rl_attached s)"
proof (cases i)
  case (Resume t a)
  then show ?thesis using attached_resume [of t a _ "s\<lparr>rl_tasks := remove1 t (rl_tasks s)\<rparr>"] by (auto split: option.split)
qed (simp_all add: attached_start attached_stop attached_join attached_control attached_shutdown attached_timer attached_closed
    attached_gone attached_revoke attached_reconcile attached_root attached_session onRevoke_def onAuthoritativeOwners_def
    onTopologyChanged_def Let_def)

section \<open>Evidence\<close>

text \<open>An owner is known, or redeems a token.\<close>

definition evidence :: "string \<Rightarrow> machine \<Rightarrow> bool" where
  "evidence p s \<longleftrightarrow> (\<exists>r. Looked p (Some r) \<in> set (mc_log s)) \<or> (\<exists>t n. Accepted t p n \<in> set (mc_log s))"

fun serves :: "pair_event \<Rightarrow> string option" where
  "serves (Attached ch p name) = Some p"
| "serves (Routed ch p d) = Some p"
| "serves _ = None"

fun task_evidence :: "pair_task \<Rightarrow> machine \<Rightarrow> bool" where
  "task_evidence (Lookup l p inner (Some (Some r, log))) s \<longleftrightarrow> evidence p s"
| "task_evidence (PairLookup l p inner (Some (Some r, log))) s \<longleftrightarrow> evidence p s"
| "task_evidence (Storing l p inner room at pr ep ok) s \<longleftrightarrow> evidence p s"
| "task_evidence _ s \<longleftrightarrow> True"

definition served_inv :: "machine \<Rightarrow> bool" where
  "served_inv s \<longleftrightarrow>
     (\<forall>ch \<in> set (rl_attached (mc_life s)). evidence (ch_peer ch) s) \<and>
     (\<forall>e \<in> set (mc_log s). \<forall>p. serves e = Some p \<longrightarrow> evidence p s) \<and>
     (\<forall>t \<in> set (mc_tasks s). task_evidence t s)"

section \<open>Tokens\<close>

fun is_qr :: "pair_event \<Rightarrow> bool" where
  "is_qr (Issued t x) \<longleftrightarrow> True"
| "is_qr (Accepted t p n) \<longleftrightarrow> True"
| "is_qr _ \<longleftrightarrow> False"

definition redeemed_ok :: "pair_event list \<Rightarrow> bool" where
  "redeemed_ok q \<longleftrightarrow> (\<forall>xs t p n ys. q = xs @ Accepted t p n # ys \<longrightarrow> (\<exists>us x. xs = us @ [Issued t x] \<and> n \<le> x))"

definition qr_inv :: "machine \<Rightarrow> bool" where
  "qr_inv s \<longleftrightarrow> redeemed_ok (filter is_qr (mc_log s)) \<and>
     (\<forall>a. mc_qr s = Some a \<and> \<not> qt_consumed a \<longrightarrow> (\<exists>us. filter is_qr (mc_log s) = us @ [Issued (qt_token a) (qt_expiresAt a)]))"

definition sound :: "machine \<Rightarrow> bool" where
  "sound s \<longleftrightarrow> core_inv (mc_life s) \<and> links_inv (mc_life s) \<and> qr_inv s \<and> served_inv s"

section \<open>The small operations\<close>

lemma machine_fields [simp]:
  "mc_life (tell e s) = mc_life s" "mc_qr (tell e s) = mc_qr s" "mc_store (tell e s) = mc_store s" "mc_tasks (tell e s) = mc_tasks s"
  "mc_log (tell e s) = mc_log s @ [e]"
  "mc_life (wait_for t s) = mc_life s" "mc_qr (wait_for t s) = mc_qr s" "mc_store (wait_for t s) = mc_store s"
  "mc_tasks (wait_for t s) = mc_tasks s @ [t]" "mc_log (wait_for t s) = mc_log s"
  "mc_life (on_life f s) = f (mc_life s)" "mc_qr (on_life f s) = mc_qr s" "mc_store (on_life f s) = mc_store s"
  "mc_tasks (on_life f s) = mc_tasks s" "mc_log (on_life f s) = mc_log s"
  by (simp_all add: tell_def wait_for_def on_life_def)

lemma evidence_same [simp]:
  "evidence p (wait_for t s) = evidence p s" "evidence p (on_life f s) = evidence p s" "evidence p (s\<lparr>mc_store := st\<rparr>) = evidence p s"
  "evidence p (s\<lparr>mc_tasks := ts\<rparr>) = evidence p s" "evidence p (s\<lparr>mc_qr := q\<rparr>) = evidence p s"
  "evidence p (s\<lparr>mc_hasPairings := b\<rparr>) = evidence p s" "evidence p (s\<lparr>mc_life := l\<rparr>) = evidence p s"
  by (simp_all add: evidence_def)

lemma evidence_tell [simp]:
  "evidence p (tell e s) \<longleftrightarrow> evidence p s \<or> (\<exists>r. e = Looked p (Some r)) \<or> (\<exists>t n. e = Accepted t p n)"
  by (auto simp: evidence_def)

lemma task_evidence_cong: "(\<And>p. evidence p s \<Longrightarrow> evidence p s') \<Longrightarrow> task_evidence t s \<Longrightarrow> task_evidence t s'"
  by (cases "(t, s)" rule: task_evidence.cases) auto

lemma redeemed_snoc:
  assumes "redeemed_ok q" and "\<forall>t p n. e = Accepted t p n \<longrightarrow> (\<exists>us x. q = us @ [Issued t x] \<and> n \<le> x)"
  shows "redeemed_ok (q @ [e])"
  unfolding redeemed_ok_def
proof (intro allI impI)
  fix xs t p n ys assume h: "q @ [e] = xs @ Accepted t p n # ys"
  show "\<exists>us x. xs = us @ [Issued t x] \<and> n \<le> x"
  proof (cases ys rule: rev_cases)
    case Nil
    then show ?thesis using h assms(2) by simp
  next
    case (snoc zs z)
    then have "q = xs @ Accepted t p n # zs" using h by (metis append_Cons append_assoc butlast_snoc)
    then show ?thesis using assms(1) unfolding redeemed_ok_def by blast
  qed
qed

subsection \<open>What keeps the invariant\<close>

lemma served_tell:
  assumes "served_inv s" and "\<And>p. serves e = Some p \<Longrightarrow> evidence p s"
  shows "served_inv (tell e s)"
  unfolding served_inv_def
proof (intro conjI ballI allI impI)
  show "evidence (ch_peer ch) (tell e s)" if "ch \<in> set (rl_attached (mc_life (tell e s)))" for ch
    using that assms(1) by (simp add: served_inv_def)
  show "evidence p (tell e s)" if "e' \<in> set (mc_log (tell e s))" "serves e' = Some p" for e' p
    using that assms by (auto simp: served_inv_def)
  show "task_evidence t (tell e s)" if "t \<in> set (mc_tasks (tell e s))" for t
    using that assms(1) by (auto simp: served_inv_def intro: task_evidence_cong)
qed

lemma sound_tell:
  assumes "sound s" and "\<not> is_qr e" and "\<And>p. serves e = Some p \<Longrightarrow> evidence p s"
  shows "sound (tell e s)"
  using assms served_tell [of s e] by (simp add: sound_def qr_inv_def)

lemma sound_plain: "sound s \<Longrightarrow> \<not> is_qr e \<Longrightarrow> serves e = None \<Longrightarrow> sound (tell e s)"
  by (rule sound_tell) simp_all

lemma sound_wait:
  assumes "sound s" and "task_evidence t s"
  shows "sound (wait_for t s)"
proof -
  have "task_evidence t' (wait_for t s)" if "task_evidence t' s" for t' by (rule task_evidence_cong [OF _ that]) simp
  then show ?thesis using assms by (auto simp: sound_def qr_inv_def served_inv_def)
qed

lemma sound_on_life:
  assumes "sound s" and "core_inv (f (mc_life s))" and "links_inv (f (mc_life s))" and "set (rl_attached (f (mc_life s))) \<subseteq> set (rl_attached (mc_life s))"
  shows "sound (on_life f s)"
proof -
  have "task_evidence t (on_life f s)" if "task_evidence t s" for t by (rule task_evidence_cong [OF _ that]) simp
  then show ?thesis using assms by (auto simp: sound_def qr_inv_def served_inv_def)
qed

lemma sound_life_step: "sound s \<Longrightarrow> \<forall>l p. i \<noteq> PeerAttach l p \<Longrightarrow> sound (on_life (life_step i) s)"
  by (rule sound_on_life) (simp_all add: sound_def core_step links_step attached_step)

lemma sound_fields [simp]: "sound (s\<lparr>mc_store := st\<rparr>) = sound s" "sound (s\<lparr>mc_hasPairings := b\<rparr>) = sound s"
proof -
  have "task_evidence t (s\<lparr>mc_store := st\<rparr>) = task_evidence t s" "task_evidence t (s\<lparr>mc_hasPairings := b\<rparr>) = task_evidence t s" for t
    by (cases "(t, s)" rule: task_evidence.cases; simp)+
  then show "sound (s\<lparr>mc_store := st\<rparr>) = sound s" "sound (s\<lparr>mc_hasPairings := b\<rparr>) = sound s"
    by (simp_all add: sound_def qr_inv_def served_inv_def)
qed

lemma sound_tasks: "sound s \<Longrightarrow> \<forall>t \<in> set ts. task_evidence t s \<Longrightarrow> sound (s\<lparr>mc_tasks := ts\<rparr>)"
proof -
  have "task_evidence t (s\<lparr>mc_tasks := ts\<rparr>) = task_evidence t s" for t by (cases "(t, s)" rule: task_evidence.cases; simp)
  then show "sound s \<Longrightarrow> \<forall>t \<in> set ts. task_evidence t s \<Longrightarrow> sound (s\<lparr>mc_tasks := ts\<rparr>)" by (simp add: sound_def qr_inv_def served_inv_def)
qed

lemma sound_issue: "sound s \<Longrightarrow> sound (tell (Issued t (n + ttl)) (s\<lparr>mc_qr := issueToken t ttl n\<rparr>))"
proof -
  assume h: "sound s"
  let ?s = "s\<lparr>mc_qr := issueToken t ttl n\<rparr>"
  have "task_evidence t' ?s = task_evidence t' s" for t' by (cases "(t', s)" rule: task_evidence.cases; simp)
  then have "served_inv ?s" using h by (simp add: sound_def served_inv_def)
  then have "served_inv (tell (Issued t (n + ttl)) ?s)" by (rule served_tell) simp
  then show ?thesis using h by (auto simp: sound_def qr_inv_def issueToken_def intro: redeemed_snoc)
qed

lemma sound_consume:
  assumes "sound s" and "consumeToken v n (mc_qr s) = (status, q)"
  shows "sound (if status = TokenOk then tell (Accepted (str_or [] v) p n) (s\<lparr>mc_qr := q\<rparr>) else s\<lparr>mc_qr := q\<rparr>)"
proof -
  have t: "task_evidence t (s\<lparr>mc_qr := q\<rparr>) = task_evidence t s" for t by (cases "(t, s)" rule: task_evidence.cases; simp)
  have sv: "served_inv (s\<lparr>mc_qr := q\<rparr>)" using assms(1) t by (simp add: sound_def served_inv_def)
  show ?thesis
  proof (cases "status = TokenOk")
    case True
    then obtain a where a: "mc_qr s = Some a" "v = JStr (qt_token a)" "\<not> qt_consumed a" "n \<le> qt_expiresAt a" "q = Some (a\<lparr>qt_consumed := True\<rparr>)"
      using assms(2) by (auto simp: consumeToken_def split: option.splits if_splits)
    then obtain us where us: "filter is_qr (mc_log s) = us @ [Issued (qt_token a) (qt_expiresAt a)]" "redeemed_ok (filter is_qr (mc_log s))"
      using assms(1) by (auto simp: sound_def qr_inv_def)
    have "redeemed_ok (filter is_qr (mc_log s) @ [Accepted (str_or [] v) p n])"
      by (rule redeemed_snoc [OF us(2)]) (use us(1) a in \<open>simp add: str_or_def\<close>)
    moreover have "served_inv (tell (Accepted (str_or [] v) p n) (s\<lparr>mc_qr := q\<rparr>))" by (rule served_tell [OF sv]) simp
    ultimately show ?thesis using True assms(1) a by (simp add: sound_def qr_inv_def)
  next
    case False
    then have "q = mc_qr s" using assms(2) by (auto simp: consumeToken_def split: option.splits if_splits)
    then show ?thesis using False assms(1) sv by (simp add: sound_def qr_inv_def)
  qed
qed

subsection \<open>The functions keep it\<close>

lemma attachOwner_channel: "ch_peer (fst (attachOwner c p l)) = p" "ch_relay (fst (attachOwner c p l)) = c"
  "set (rl_attached (snd (attachOwner c p l))) \<subseteq> insert (fst (attachOwner c p l)) (set (rl_attached l))"
  using attached_small(5) [of p l] by (auto simp: attachOwner_def open_channel_def attachPeerChannel_def Let_def)

lemma attach_owner_eq:
  "attach_owner e c p name s =
     (let ch = fst (attachOwner c p (mc_life s)); s1 = tell (Attached (ch_id ch) p name) (s\<lparr>mc_life := snd (attachOwner c p (mc_life s))\<rparr>)
      in (ch, if st_open e
              then tell (Sent c (envelopeLine False (rl_room (snd (attachOwner c p (mc_life s)))) p (st_now e)
                     (case st_sid e of Some x \<Rightarrow> Some x | None \<Rightarrow> st_rootSid e) (helloEnvelope (st_caps e) (st_sid e)))) s1
              else s1))"
  by (simp add: attach_owner_def sendEnvelope_def Let_def split_def)

lemma attach_owner_fields [simp]:
  "mc_life (snd (attach_owner e c p name s)) = snd (attachOwner c p (mc_life s))" "mc_qr (snd (attach_owner e c p name s)) = mc_qr s"
  "mc_store (snd (attach_owner e c p name s)) = mc_store s" "mc_tasks (snd (attach_owner e c p name s)) = mc_tasks s"
  "fst (attach_owner e c p name s) = fst (attachOwner c p (mc_life s))"
  by (simp_all add: attach_owner_eq Let_def)

lemma evidence_attach [intro]: "evidence q s \<Longrightarrow> evidence q (snd (attach_owner e c p name s))"
  by (simp add: attach_owner_eq Let_def)

lemma sound_attach:
  assumes "sound s" and "hasListenerAuthority l (mc_life s)" and "evidence p s"
  shows "sound (snd (attach_owner e (fst l) p name s))"
proof -
  let ?l = "snd (attachOwner (fst l) p (mc_life s))"
  have i: "core_inv ?l" "links_inv ?l"
    using assms(1,2) by (simp_all add: sound_def core_steps links_attach hasListenerAuthority_def)
  have t: "task_evidence t (s\<lparr>mc_life := ?l\<rparr>) = task_evidence t s" for t by (cases "(t, s)" rule: task_evidence.cases; simp)
  have "served_inv (s\<lparr>mc_life := ?l\<rparr>)"
    using assms(1,3) attachOwner_channel [of "fst l" p "mc_life s"] t by (auto simp: sound_def served_inv_def)
  then have "sound (s\<lparr>mc_life := ?l\<rparr>)" using assms(1) i by (simp add: sound_def qr_inv_def)
  then have "sound (tell (Attached (ch_id (fst (attachOwner (fst l) p (mc_life s)))) p name) (s\<lparr>mc_life := ?l\<rparr>))"
    using assms(3) by (intro sound_tell) auto
  then show ?thesis by (auto simp: attach_owner_eq Let_def intro: sound_tell)
qed

lemma sound_send: "sound s \<Longrightarrow> sound (send_inner e c p msg s)"
  by (auto simp: send_inner_def intro: sound_tell)

lemma sound_answers: "sound s \<Longrightarrow> sound (send_error e c p inner r m s)" "sound s \<Longrightarrow> sound (emitPairOk e c p inner room s)"
  by (simp_all add: send_error_def emitPairOk_def sound_send)

lemma sound_refresh: "sound s \<Longrightarrow> sound (refreshPairingsCache s)"
  by (simp add: refreshPairingsCache_def sound_wait)

lemma sound_refreshed:
  assumes "sound s"
  shows "sound (refresh_result peers s)"
proof -
  have "sound (on_life (pushPairingAllowList c) s')" if "sound s'" for c s'
    by (rule sound_on_life [OF that])
       (use that in \<open>simp_all add: sound_def pushPairingAllowList_def core_steps links_steps split: option.split\<close>)
  then show ?thesis using assms by (simp add: refresh_result_def Let_def split: option.split)
qed

lemma sound_reconfirm: "sound s \<Longrightarrow> evidence p s \<Longrightarrow> sound (reconfirm e l p inner r s)"
  by (simp add: reconfirm_def sound_answers sound_attach split: option.split list.split)

lemma sound_first:
  assumes "sound s"
  shows "sound (first_pairing e l p inner s)"
proof -
  obtain status q where c: "consumeToken (jget inner ''token'') (st_now e) (mc_qr s) = (status, q)" by fastforce
  note k = sound_consume [OF assms c, of p]
  show ?thesis
  proof (cases "status = TokenOk")
    case True
    then have "sound (tell (Accepted (str_or [] (jget inner ''token'')) p (st_now e)) (s\<lparr>mc_qr := q\<rparr>))" using k by simp
    then show ?thesis using True unfolding first_pairing_def c Let_def prod.case
      by (auto simp: sound_answers intro!: sound_wait sound_plain split: option.split list.split)
  next
    case False
    then have "sound (tell (Refused p status) (s\<lparr>mc_qr := q\<rparr>))" using k by (intro sound_tell) simp_all
    then show ?thesis using False unfolding first_pairing_def c Let_def prod.case by (simp add: sound_answers)
  qed
qed

lemma sound_stored:
  assumes "sound s" and "evidence p s"
  shows "sound (storing_result e l p inner room at pr ep ok s)"
proof (cases "hasListenerAuthority l (mc_life s) \<and> ok")
  case True
  let ?s1 = "refreshPairingsCache s"
  have s1: "sound ?s1" "hasListenerAuthority l (mc_life ?s1)" "evidence p ?s1" using assms True by (simp_all add: sound_refresh) (simp_all add: refreshPairingsCache_def)
  define s2 where "s2 = (case pr of Some q \<Rightarrow>
      if rl_producer (mc_life ?s1) = Some q \<and> rl_epoch (mc_life ?s1) = ep then tell (FreshCheck q) ?s1 else ?s1 | None \<Rightarrow> ?s1)"
  have "sound s2" "hasListenerAuthority l (mc_life s2)" "evidence p s2"
    using s1 unfolding s2_def by (auto intro: sound_plain split: option.split)
  then show ?thesis unfolding storing_result_def Let_def s2_def [symmetric] using True by (simp add: sound_answers sound_attach sound_plain)
qed (use assms in \<open>auto simp: storing_result_def Let_def sound_answers\<close>)

lemma sound_lookup:
  assumes "sound s" and "\<And>r. known = Some r \<Longrightarrow> evidence p s"
  shows "sound (lookup_result e l p inner known s)"
proof (cases known)
  case (Some r)
  have "sound (tell (Routed (ch_id (fst (attach_owner e (fst l) p (pr_name r) s))) p d) (snd (attach_owner e (fst l) p (pr_name r) s)))"
    if "hasListenerAuthority l (mc_life s)" for d
    using sound_attach [OF assms(1) that, of p] assms(2) [OF Some] by (intro sound_tell) auto
  then show ?thesis using Some assms(1) by (simp add: lookup_result_def Let_def split_def)
qed (use assms(1) in \<open>simp add: lookup_result_def sound_send\<close>)

lemma sound_onMsg: "sound s \<Longrightarrow> sound (onMsg l line s)"
  by (auto simp: onMsg_def Let_def intro: sound_tell sound_wait split: outer.split option.split jv.split)

lemma onMsg_life [simp]: "mc_life (onMsg l line s) = mc_life s"
  by (auto simp: onMsg_def Let_def split: outer.split option.split jv.split)

lemma sound_channel: "sound s \<Longrightarrow> evidence (ch_peer ch) s \<Longrightarrow> sound (channel_line ch line s)"
  by (auto simp: channel_line_def intro: sound_tell split: dispatch.split)

lemma channel_life [simp]: "mc_life (channel_line ch line s) = mc_life s"
  by (simp add: channel_line_def split: dispatch.split)

lemma channel_evidence: "evidence p s \<Longrightarrow> evidence p (channel_line ch line s)"
  by (auto simp: channel_line_def split: dispatch.split)

lemma sound_line:
  assumes "sound s"
  shows "sound (line_arrives c line s)"
proof -
  have a: "sound (fold (\<lambda>l. onMsg l line) ls s) \<and> mc_life (fold (\<lambda>l. onMsg l line) ls s) = mc_life s" for ls
    using assms by (induction ls arbitrary: s) (simp_all add: sound_onMsg)
  have b: "sound (fold (\<lambda>ch. channel_line ch line) chs s')" if "sound s'" "\<forall>ch \<in> set chs. evidence (ch_peer ch) s'" for chs s'
    using that by (induction chs arbitrary: s') (simp_all add: sound_channel channel_evidence)
  have "\<forall>ch \<in> set (rl_attached (mc_life s')). evidence (ch_peer ch) s'" if "sound s'" for s' using that by (simp add: sound_def served_inv_def)
  then show ?thesis unfolding line_arrives_def using a by (intro b) force+
qed

lemma sound_pair_ready: "sound s \<Longrightarrow> sound (pair_ready e args s)"
  by (auto simp: pair_ready_def Let_def intro!: sound_plain sound_issue split: option.split)

lemma sound_start: "sound s \<Longrightarrow> sound (on_life (cmdStart False) s)"
  using sound_life_step [of s StartCmd] by (simp add: on_life_def)

lemma sound_join: "sound s \<Longrightarrow> sound (on_life cmdJoin s)"
  using sound_life_step [of s JoinCmd] by (simp add: on_life_def)

lemma sound_boot: "sound s \<Longrightarrow> sound (boot_pair e args s)" "sound s \<Longrightarrow> sound (boot_revoke sh s)" "sound s \<Longrightarrow> sound (revoke_ready sh s)"
  by (simp_all add: boot_pair_def boot_revoke_def revoke_ready_def sound_pair_ready sound_wait sound_start sound_plain)

lemma sound_commands: "sound s \<Longrightarrow> sound (cmdPair e args s)" "sound s \<Longrightarrow> sound (cmdRevoke e arg s)"
  by (simp_all add: cmdPair_def cmdRevoke_def Let_def sound_boot sound_pair_ready sound_wait sound_join sound_plain)

lemma sound_revoke_list: "sound s \<Longrightarrow> sound (revoke_list_result sha sh peers s)"
  by (auto simp: revoke_list_result_def Let_def split_def intro!: sound_plain sound_wait split: list.split)

lemma sound_detach: "sound s \<Longrightarrow> sound (on_life (detachPeerChannel k) s)"
  by (rule sound_on_life) (auto simp: sound_def links_detach attached_small intro: core_quiet same_core_simps)

lemma sound_revoke_store: "sound s \<Longrightarrow> sound (revoke_store_result i removed s)"
  by (auto simp: revoke_store_result_def Let_def intro!: sound_plain sound_detach sound_refresh split: option.split)

lemma lookup_evidence: "task_evidence (Lookup l p inner (Some r)) (tell (Looked p (fst r)) s)"
  "task_evidence (PairLookup l p inner (Some r)) (tell (Looked p (fst r)) s)"
  by (cases r; cases "fst r"; simp)+

lemma sound_disk:
  assumes "sound s" and "t \<in> set (mc_tasks s)" and "disk_step sha t d s = Some (t', s')"
  shows "sound s' \<and> task_evidence t' s' \<and> mc_tasks s' = mc_tasks s \<and> (\<forall>p. evidence p s \<longrightarrow> evidence p s')"
proof -
  have t: "task_evidence t s" using assms(1,2) by (simp add: sound_def served_inv_def)
  have k: "sound (tell (Looked p r) s)" for p r using assms(1) by (intro sound_plain) simp_all
  show ?thesis using assms(1,3) t k
    by (cases "(sha, t, d, s)" rule: disk_step.cases) (auto simp: Let_def split_def lookup_evidence intro!: sound_plain split: if_splits)
qed

lemma sound_go_on:
  assumes "sound s" and "task_evidence t s" and "go_on sha t e = Some f"
  shows "sound (f s)"
proof -
  have w: "sound (tell (Warned log) s)" for log using assms(1) by (intro sound_plain) simp_all
  have lk: "sound (lookup_result e l p inner (fst r) (tell (Warned (snd r)) s))" if "t = Lookup l p inner (Some r)" for l p inner r
    by (rule sound_lookup [OF w]) (use assms(2) that in \<open>cases r; auto\<close>)
  have pl: "sound (pair_lookup_result e l p inner (fst r) (tell (Warned (snd r)) s))" if "t = PairLookup l p inner (Some r)" for l p inner r
    using assms(2) that w by (cases r) (auto simp: pair_lookup_result_def intro!: sound_reconfirm sound_first split: option.split)
  show ?thesis using assms lk pl
    by (cases "(sha, t, e)" rule: go_on.cases)
       (auto simp: sound_stored sound_refreshed sound_revoke_list sound_revoke_store sound_boot sound_pair_ready)
qed

lemma sound_step: "sound s \<Longrightarrow> sound (pair_step sha i s)"
proof (cases i)
  case (LifeIn x)
  assume "sound s"
  then show ?thesis using LifeIn sound_life_step [of s x] by (auto split: input.split)
next
  case (DiskIn t d)
  assume s: "sound s"
  show ?thesis
  proof (cases "t \<in> set (mc_tasks s) \<and> disk_step sha t d s \<noteq> None")
    case True
    then obtain t' s' where d: "disk_step sha t d s = Some (t', s')" by auto
    have e: "sound s'" "task_evidence t' s'" "mc_tasks s' = mc_tasks s" using sound_disk [OF s _ d] True by blast+
    have "sound (s'\<lparr>mc_tasks := remove1 t (mc_tasks s) @ [t']\<rparr>)"
      by (rule sound_tasks [OF e(1)]) (use e s in \<open>auto simp: sound_def served_inv_def dest: notin_set_remove1\<close>)
    then show ?thesis using True d DiskIn by simp
  qed (use s DiskIn in \<open>auto split: option.split\<close>)
next
  case (GoOn t e)
  assume s: "sound s"
  have r: "sound (s\<lparr>mc_tasks := remove1 t (mc_tasks s)\<rparr>)"
    by (rule sound_tasks [OF s]) (use s in \<open>auto simp: sound_def served_inv_def dest: notin_set_remove1\<close>)
  have "task_evidence t (s\<lparr>mc_tasks := remove1 t (mc_tasks s)\<rparr>)" if "t \<in> set (mc_tasks s)"
    by (rule task_evidence_cong [where s = s]) (use that s in \<open>simp_all add: sound_def served_inv_def\<close>)
  then show ?thesis using s GoOn sound_go_on [OF r] by (auto split: option.split)
qed (simp_all add: sound_line sound_commands sound_refresh)

lemma pair_run_simps [simp]: "pair_run sha [] s = s" "pair_run sha (is @ [i]) s = pair_step sha i (pair_run sha is s)"
  by (simp_all add: pair_run_def)

lemma sound_fresh: "sound (fresh_machine f)"
  using core_fresh links_fresh by (simp add: sound_def fresh_machine_def qr_inv_def redeemed_ok_def served_inv_def) (simp add: fresh_life_def)

lemma sound_run: "sound (pair_run sha is (fresh_machine f))"
  by (induction "is" rule: rev_induct) (simp_all add: sound_fresh sound_step)

end
