(* ===== verification/PairingGuarantees.thy ===== *)
theory PairingGuarantees
  imports PairingProps
begin

text \<open>
  What pairing guarantees: a token pairs one device, in time; nobody is served without a pairing; every line goes to one place;
  a scan leads to a pairing; a revoke command takes it back, but not from a message on its way.
\<close>

section \<open>Tokens\<close>

lemma filter_snoc:
  assumes "filter P xs = us @ [x]"
  obtains as bs where "xs = as @ x # bs" "filter P bs = []"
proof -
  have "rev (filter P xs) = x # rev us" using assms by simp
  then have "filter P (rev xs) = x # rev us" by (simp add: rev_filter)
  then obtain bs as where "rev xs = bs @ x # as" "\<forall>b \<in> set bs. \<not> P b" by (auto simp: filter_eq_Cons_iff)
  then have "xs = rev as @ x # rev bs" "filter P (rev bs) = []" by (simp_all add: rev_swap)
  then show ?thesis by (rule that)
qed

text \<open>C26: a QR token pairs at most one device, before it expires, and only while it is the last one shown. Whenever a token is accepted in a run,
  it was issued before, the time is at most its expiry, and between its issue and its acceptance no token was issued and none was accepted.\<close>

theorem token_redeemed_once:
  assumes "mc_log (pair_run sha is (fresh_machine f)) = xs @ Accepted t p n # ys"
  shows "\<exists>as x bs. xs = as @ Issued t x # bs \<and> n \<le> x \<and>
    list_all (\<lambda>e. case e of Issued _ _ \<Rightarrow> False | Accepted _ _ _ \<Rightarrow> False | _ \<Rightarrow> True) bs"
proof -
  have "redeemed_ok (filter is_qr (mc_log (pair_run sha is (fresh_machine f))))" using sound_run by (simp add: sound_def qr_inv_def)
  moreover have "filter is_qr (mc_log (pair_run sha is (fresh_machine f))) = filter is_qr xs @ Accepted t p n # filter is_qr ys"
    by (simp add: assms)
  ultimately obtain us x where u: "filter is_qr xs = us @ [Issued t x]" "n \<le> x" unfolding redeemed_ok_def by metis
  obtain as bs where "xs = as @ Issued t x # bs" "filter is_qr bs = []" using filter_snoc [OF u(1)] by blast
  moreover have "list_all (\<lambda>e. case e of Issued _ _ \<Rightarrow> False | Accepted _ _ _ \<Rightarrow> False | _ \<Rightarrow> True) bs"
  proof -
    have "case e of Issued _ _ \<Rightarrow> False | Accepted _ _ _ \<Rightarrow> False | _ \<Rightarrow> True" if "\<not> is_qr e" for e using that by (cases e) simp_all
    then show ?thesis using \<open>filter is_qr bs = []\<close> by (simp add: list_all_iff filter_empty_conv)
  qed
  ultimately show ?thesis using u(2) by blast
qed

section \<open>Where a known owner was read\<close>

fun is_looked :: "pair_event \<Rightarrow> bool" where
  "is_looked (Looked p r) \<longleftrightarrow> True"
| "is_looked _ \<longleftrightarrow> False"

definition looks :: "machine \<Rightarrow> pair_event list" where
  "looks s = filter is_looked (mc_log s)"

lemma looks_small [simp]:
  "looks (tell e s) = looks s @ (if is_looked e then [e] else [])" "looks (wait_for t s) = looks s" "looks (on_life g s) = looks s"
  "looks (s\<lparr>mc_store := st\<rparr>) = looks s" "looks (s\<lparr>mc_tasks := ts\<rparr>) = looks s" "looks (s\<lparr>mc_qr := q\<rparr>) = looks s"
  "looks (s\<lparr>mc_hasPairings := b\<rparr>) = looks s" "looks (snd (attach_owner e' c p name s)) = looks s"
  by (simp_all add: looks_def attach_owner_eq Let_def)

lemma looks_functions [simp]:
  "looks (send_inner e c p msg s) = looks s" "looks (send_error e c p inner r m s) = looks s" "looks (emitPairOk e c p inner room s) = looks s"
  "looks (refreshPairingsCache s) = looks s" "looks (refresh_result peers s) = looks s" "looks (onMsg l line s) = looks s"
  "looks (channel_line ch line s) = looks s" "looks (pair_ready e args s) = looks s" "looks (revoke_ready sh s) = looks s"
  by (simp_all add: send_inner_def send_error_def emitPairOk_def refreshPairingsCache_def refresh_result_def onMsg_def channel_line_def
      pair_ready_def revoke_ready_def Let_def split: option.split outer.split jv.split dispatch.split)

lemma looks_commands [simp]:
  "looks (boot_pair e args s) = looks s" "looks (boot_revoke sh s) = looks s" "looks (cmdPair e args s) = looks s" "looks (cmdRevoke e arg s) = looks s"
  by (simp_all add: boot_pair_def boot_revoke_def cmdPair_def cmdRevoke_def Let_def)

lemma looks_results [simp]:
  "looks (reconfirm e l p inner r s) = looks s" "looks (first_pairing e l p inner s) = looks s" "looks (lookup_result e l p inner k s) = looks s"
  "looks (storing_result e l p inner room at pr ep ok s) = looks s" "looks (revoke_list_result sha sh peers s) = looks s"
  "looks (revoke_store_result i removed s) = looks s"
  by (simp_all add: reconfirm_def first_pairing_def lookup_result_def storing_result_def revoke_list_result_def revoke_store_result_def Let_def
      split_def split: option.split list.split)

lemma looks_lines [simp]: "looks (line_arrives c line s) = looks s"
proof -
  have a: "looks (fold (\<lambda>l. onMsg l line) ls s) = looks s" for ls s by (induction ls arbitrary: s) simp_all
  have b: "looks (fold (\<lambda>ch. channel_line ch line) chs s) = looks s" for chs s by (induction chs arbitrary: s) simp_all
  show ?thesis by (simp add: line_arrives_def a b)
qed

lemma looks_go_on: "go_on sha t e = Some g \<Longrightarrow> looks (g s) = looks s"
  by (cases "(sha, t, e)" rule: go_on.cases) (auto simp: pair_lookup_result_def split: option.split)

lemma looks_disk: "disk_step sha t d s = Some (t', s') \<Longrightarrow>
    looks s' = looks s \<or> (\<exists>p. looks s' = looks s @ [Looked p (fst (findKnownPeer sha p (ps_file (mc_store s))))])"
  by (cases "(sha, t, d, s)" rule: disk_step.cases) (auto simp: Let_def split_def split: if_splits)

lemma looks_step: "looks (pair_step sha i s) = looks s \<or>
    (\<exists>p. looks (pair_step sha i s) = looks s @ [Looked p (fst (findKnownPeer sha p (ps_file (mc_store s))))])"
proof (cases i)
  case (DiskIn t d)
  then show ?thesis using looks_disk [of sha t d s] by (auto split: option.split)
next
  case (GoOn t e)
  then show ?thesis using looks_go_on [of sha t e] by (auto split: option.split)
next
  case (LifeIn x)
  then show ?thesis by (auto split: input.split)
qed simp_all

lemma looked_source:
  assumes "Looked p (Some r) \<in> set (mc_log (pair_run sha is (fresh_machine f)))"
  shows "\<exists>js ks. is = js @ ks \<and> fst (findKnownPeer sha p (ps_file (mc_store (pair_run sha js (fresh_machine f))))) = Some r"
proof -
  have "Looked p (Some r) \<in> set (looks (pair_run sha is (fresh_machine f)))" using assms by (simp add: looks_def)
  then show ?thesis
  proof (induction "is" rule: rev_induct)
    case Nil
    then show ?case by (simp add: looks_def fresh_machine_def)
  next
    case (snoc i "is")
    let ?s = "pair_run sha is (fresh_machine f)"
    consider "Looked p (Some r) \<in> set (looks ?s)" | "fst (findKnownPeer sha p (ps_file (mc_store ?s))) = Some r"
      using snoc.prems looks_step [of sha i ?s] by auto
    then show ?case
    proof cases
      case 1
      then show ?thesis using snoc.IH by (metis append_assoc)
    next
      case 2
      then show ?thesis by (intro exI [of _ "is"] exI [of _ "[i]"]) simp
    qed
  qed
qed

text \<open>C25: nobody is served without a pairing. An owner that is attached, or for whom anything was attached or routed in the run, was in the
  file of pairings at some moment of the run, or redeemed a token in it.\<close>

theorem only_paired_served:
  assumes "mhas (rl_active (mc_life (pair_run sha is (fresh_machine f)))) p \<or>
    (\<exists>e \<in> set (mc_log (pair_run sha is (fresh_machine f))). serves e = Some p)"
  shows "(\<exists>js ks. is = js @ ks \<and> fst (findKnownPeer sha p (ps_file (mc_store (pair_run sha js (fresh_machine f))))) \<noteq> None) \<or>
    (\<exists>t n. Accepted t p n \<in> set (mc_log (pair_run sha is (fresh_machine f))))"
proof -
  let ?s = "pair_run sha is (fresh_machine f)"
  have s: "links_inv (mc_life ?s)" "served_inv ?s" using sound_run [of sha "is" f] by (simp_all add: sound_def)
  have "evidence p ?s" if "mhas (rl_active (mc_life ?s)) p"
  proof -
    obtain ch where "(p, ch) \<in> set (rl_active (mc_life ?s))" using \<open>mhas _ p\<close> by (auto simp: mhas_def dest: map_of_SomeD)
    then have "ch_peer ch = p" "ch \<in> set (rl_attached (mc_life ?s))" using s(1) by (force simp: links_inv_def channels_ok_def)+
    then show ?thesis using s(2) by (auto simp: served_inv_def)
  qed
  then have "evidence p ?s" using assms s(2) by (auto simp: served_inv_def)
  then show ?thesis unfolding evidence_def using looked_source [of p _ sha "is" f] by fastforce
qed

section \<open>Every line goes to one place\<close>

lemma fold_skip: "\<forall>x \<in> set xs. \<forall>s. f x s = s \<Longrightarrow> fold f xs s = s"
  by (induction xs) simp_all

lemma onLine_other: "read_outer line = Frame p ct \<Longrightarrow> q \<noteq> p \<Longrightarrow> onLine q line = Ignored"
  by (simp add: onLine_def)

text \<open>Of the attached channels, only the sender's own reacts.\<close>

lemma channels_react:
  assumes "links_inv (mc_life s)" and "rl_relay (mc_life s) = Some c" and "read_outer line = Frame p ct"
  shows "fold (\<lambda>ch. channel_line ch line) (filter (\<lambda>ch. ch_relay ch = c) (rl_attached (mc_life s))) s' =
    (case mget (rl_active (mc_life s)) p of Some ch \<Rightarrow> channel_line ch line s' | None \<Rightarrow> s')"
proof -
  let ?l = "mc_life s"
  have c: "set (rl_attached ?l) = snd ` set (rl_active ?l)" "distinct (rl_attached ?l)" "mwf (rl_active ?l)"
    "\<forall>k ch. (k, ch) \<in> set (rl_active ?l) \<longrightarrow> ch_peer ch = k \<and> ch_relay ch = c"
    using assms(1,2) by (auto simp: links_inv_def channels_ok_def)
  have f: "filter (\<lambda>ch. ch_relay ch = c) (rl_attached ?l) = rl_attached ?l" using c(1,4) by (force simp: filter_id_conv)
  have skip: "channel_line ch line t = t" if "ch_peer ch \<noteq> p" for ch t
    using onLine_other [OF assms(3) that] by (simp add: channel_line_def)
  show ?thesis
  proof (cases "mget (rl_active ?l) p")
    case None
    then have "\<forall>ch \<in> set (rl_attached ?l). ch_peer ch \<noteq> p" using c(1,4) by (force simp: map_of_eq_None_iff)
    then show ?thesis unfolding f using None skip by (simp add: fold_skip)
  next
    case (Some ch)
    then have a: "ch \<in> set (rl_attached ?l)" using c(1) map_of_SomeD by force
    have u: "ch' = ch" if "ch' \<in> set (rl_attached ?l)" "ch_peer ch' = p" for ch'
    proof -
      have "(p, ch') \<in> set (rl_active ?l)" using that c(1,4) by force
      then show ?thesis using c(3) Some by (simp add: mwf_def)
    qed
    obtain xs ys where xy: "rl_attached ?l = xs @ ch # ys" using split_list [OF a] by blast
    have "\<forall>x \<in> set xs. ch_peer x \<noteq> p" "\<forall>y \<in> set ys. ch_peer y \<noteq> p" using u c(2) unfolding xy by auto
    then have "fold (\<lambda>ch. channel_line ch line) xs s' = s'" "fold (\<lambda>ch. channel_line ch line) ys (channel_line ch line s') = channel_line ch line s'"
      using skip by (simp_all add: fold_skip)
    then show ?thesis unfolding f unfolding xy using Some by simp
  qed
qed

text \<open>C28: what becomes of a message that the relay delivers while the listener has authority, exactly. A pair request is
  looked up by the listener, whether its sender is attached or not; if the sender is attached, its channel hands the
  same message on as well. Any other message of an attached owner is handed on by its channel, once,
  and not by the listener; one of an owner who is not attached is looked up, once. A message without a string type
  that carries a plane all the same is taken by a channel and dropped by the listener; any other without one is
  dropped by both.\<close>

theorem line_goes_to_one_place:
  assumes "s = pair_run sha is (fresh_machine f)" and "rl_installed (mc_life s) = [(c, g)]" and "hasListenerAuthority (c, g) (mc_life s)"
    and "read_outer line = Frame p ct" and "read_inner ct = Some inner" and "is_objlike inner"
  shows "line_arrives c line s =
    (case mget (rl_active (mc_life s)) p of
       Some ch \<Rightarrow>
         (let s1 = (if jget inner ''type'' = JStr ''pair_request'' then wait_for (PairLookup (c, g) p inner None) s else s)
          in if isEnvelopeFrame inner then tell (Routed (ch_id ch) p (ToPlanes inner)) s1
             else (case jget inner ''type'' of JStr _ \<Rightarrow> tell (Routed (ch_id ch) p (ToStock inner)) s1 | _ \<Rightarrow> s1))
     | None \<Rightarrow>
         (case jget inner ''type'' of
            JStr t \<Rightarrow> wait_for (if t = ''pair_request'' then PairLookup (c, g) p inner None else Lookup (c, g) p inner None) s
          | _ \<Rightarrow> s))"
proof -
  have l: "links_inv (mc_life s)" using sound_run assms(1) by (simp add: sound_def)
  have r: "rl_relay (mc_life s) = Some c" using assms(3) by (simp add: hasListenerAuthority_def)
  have o: "fold (\<lambda>l. onMsg l line) (filter (\<lambda>l. fst l = c) (rl_installed (mc_life s))) s = onMsg (c, g) line s" by (simp add: assms(2))
  have m: "onMsg (c, g) line s = (case jget inner ''type'' of
      JStr t \<Rightarrow> if t = ''pair_request'' then wait_for (PairLookup (c, g) p inner None) s
        else if mhas (rl_active (mc_life s)) p then s else wait_for (Lookup (c, g) p inner None) s
    | _ \<Rightarrow> s)"
    using assms(3,4,5) by (simp add: onMsg_def)
  have ch: "channel_line x line t = (if isEnvelopeFrame inner then tell (Routed (ch_id x) p (ToPlanes inner)) t
      else (case jget inner ''type'' of JStr _ \<Rightarrow> tell (Routed (ch_id x) p (ToStock inner)) t | _ \<Rightarrow> t))" if "ch_peer x = p" for x t
    using that assms(4,5,6) by (simp add: channel_line_def onLine_def split: jv.split)
  have cp: "ch_peer x = p" if "mget (rl_active (mc_life s)) p = Some x" for x
    using that l map_of_SomeD by (fastforce simp: links_inv_def channels_ok_def)
  show ?thesis
  proof (cases "mget (rl_active (mc_life s)) p")
    case None
    then show ?thesis unfolding line_arrives_def o channels_react [OF l r assms(4)] m by (auto simp: mhas_def split: jv.split)
  next
    case (Some x)
    then show ?thesis unfolding line_arrives_def o channels_react [OF l r assms(4)] m using ch [OF cp [OF Some]]
      by (auto simp: mhas_def Let_def split: jv.split)
  qed
qed

section \<open>A scan leads to a pairing\<close>

lemma addPeer_listed: "peer_jv r \<in> set (listPeers (ps_file (snd (addPeer r DiskOk st))))" "fst (addPeer r DiskOk st) = Inr ()"
proof -
  let ?old = "listPeers (ps_file st)" and ?h = "handle_is (pr_remote_epk r)"
  let ?b = "takeWhile (\<lambda>p. \<not> ?h p) ?old"
  define peers where "peers = (if length ?b < length ?old then ?old[length ?b := peer_jv r] else ?old @ [peer_jv r])"
  have "ps_file (snd (addPeer r DiskOk st)) = Contents (peers_text peers)"
    by (simp add: addPeer_def Let_def invalidateOwnerSlot_def new_token_def peers_def)
  moreover have "peer_jv r \<in> set peers" by (simp add: peers_def set_update_memI)
  moreover have "set peers \<subseteq> insert (peer_jv r) (set ?old)" using set_update_subset_insert [of ?old "length ?b" "peer_jv r"] by (simp add: peers_def)
  then have "list_all wf_json peers" using listPeers_wf [of "ps_file st"] by (auto simp: list_all_iff)
  ultimately show "peer_jv r \<in> set (listPeers (ps_file (snd (addPeer r DiskOk st))))" by simp
  show "fst (addPeer r DiskOk st) = Inr ()" by (simp add: addPeer_def Let_def)
qed

lemma added_is_known:
  assumes "decodeEd25519PublicKey p [] = Inr bs" and "pr_remote_epk r = p"
  shows "fst (findKnownPeer sha p (ps_file (snd (addPeer r DiskOk st)))) \<noteq> None"
proof -
  have "record_of bs (peer_jv r)" using assms by (simp add: record_of_def peer_jv_def)
  then show ?thesis unfolding known_iff [OF assms(1)] using addPeer_listed(1) by blast
qed

lemma attached_has: "mhas (rl_active (snd (attachOwner c p l))) p"
  by (simp add: attachOwner_def open_channel_def attachPeerChannel_def Let_def)

lemma pairing_steps:
  assumes "s = pair_run sha is (fresh_machine f)" and "rl_installed (mc_life s) = [(c, g)]" and "hasListenerAuthority (c, g) (mc_life s)"
    and "rl_room (mc_life s) = Some (r # room)" and "mc_qr s = Some a" and "\<not> qt_consumed a" and "st_now e \<le> qt_expiresAt a"
    and "read_outer line = Frame p ct" and "read_inner ct = Some inner" and "is_objlike inner"
    and "jget inner ''type'' = JStr ''pair_request''" and "jget inner ''token'' = JStr (qt_token a)"
    and "\<not> mhas (rl_active (mc_life s)) p" and "findKnownPeer sha p (ps_file (mc_store s)) = (None, log)"
    and "decodeEd25519PublicKey p [] = Inr bs" and "st_open e'"
  shows "\<exists>t. let s' = pair_run sha
      [LineIn c line, DiskIn (PairLookup (c, g) p inner None) DiskOk, GoOn (PairLookup (c, g) p inner (Some (None, log))) e,
       DiskIn (t None) DiskOk, GoOn (t (Some True)) e'] s
    in mhas (rl_active (mc_life s')) p \<and> fst (findKnownPeer sha p (ps_file (mc_store s'))) \<noteq> None \<and>
       Sent c (outer_line p None (pair_ok_jv e' (mc_life s') inner (r # room))) \<in> set (mc_log s') \<and>
       Accepted (qt_token a) p (st_now e) \<in> set (mc_log s') \<and> mc_qr s' = Some (a\<lparr>qt_consumed := True\<rparr>)"
proof -
  define t where "t = (\<lambda>ok. Storing (c, g) p inner (r # room) (st_iso e) (rl_producer (mc_life s)) (rl_epoch (mc_life s)) ok)"
  define rec where "rec = \<lparr>pr_name = device_name inner, pr_remote_epk = p, pr_paired_at = st_iso e\<rparr>"
  define s1 where "s1 = pair_step sha (LineIn c line) s"
  define s2 where "s2 = pair_step sha (DiskIn (PairLookup (c, g) p inner None) DiskOk) s1"
  define s3 where "s3 = pair_step sha (GoOn (PairLookup (c, g) p inner (Some (None, log))) e) s2"
  define s4 where "s4 = pair_step sha (DiskIn (t None) DiskOk) s3"
  define s5 where "s5 = pair_step sha (GoOn (t (Some True)) e') s4"
  have l: "links_inv (mc_life s)" using sound_run assms(1) by (simp add: sound_def)
  have rl: "rl_relay (mc_life s) = Some c" using assms(3) by (simp add: hasListenerAuthority_def)
  have n: "mget (rl_active (mc_life s)) p = None" using assms(13) by (simp add: mhas_def)
  have s1: "s1 = wait_for (PairLookup (c, g) p inner None) s"
    unfolding s1_def by (simp add: line_arrives_def assms(2) channels_react [OF l rl assms(8)] n onMsg_def assms(3,8,9,11))
  have s2: "PairLookup (c, g) p inner (Some (None, log)) \<in> set (mc_tasks s2)" "mc_life s2 = mc_life s" "mc_qr s2 = mc_qr s" "mc_store s2 = mc_store s"
    by (simp_all add: s2_def s1 assms(14) Let_def)
  have now: "\<not> qt_expiresAt a < st_now e" using assms(7) by simp
  have s3: "t None \<in> set (mc_tasks s3)" "mc_life s3 = mc_life s" "mc_qr s3 = Some (a\<lparr>qt_consumed := True\<rparr>)" "mc_store s3 = mc_store s"
    "Accepted (qt_token a) p (st_now e) \<in> set (mc_log s3)"
    using s2(1) by (simp_all add: s3_def pair_lookup_result_def first_pairing_def Let_def consumeToken_def s2 assms(4,5,6,12) now t_def str_or_def split: option.split)
  have s4: "t (Some True) \<in> set (mc_tasks s4)" "mc_life s4 = mc_life s" "mc_qr s4 = Some (a\<lparr>qt_consumed := True\<rparr>)"
    "mc_store s4 = snd (addPeer rec DiskOk (mc_store s))" "Accepted (qt_token a) p (st_now e) \<in> set (mc_log s4)"
    using s3 addPeer_listed(2) [of rec "mc_store s"] by (simp_all add: s4_def t_def split_def Let_def rec_def)
  have s5: "s5 = storing_result e' (c, g) p inner (r # room) (st_iso e) (rl_producer (mc_life s)) (rl_epoch (mc_life s)) True
      (s4\<lparr>mc_tasks := remove1 (t (Some True)) (mc_tasks s4)\<rparr>)"
    using s4(1) by (simp add: s5_def t_def)
  have o: "mc_life s5 = snd (attachOwner c p (mc_life s))" "mc_store s5 = mc_store s4" "mc_qr s5 = mc_qr s4"
    "Sent c (outer_line p None (pair_ok_jv e' (mc_life s5) inner (r # room))) \<in> set (mc_log s5)"
    "Accepted (qt_token a) p (st_now e) \<in> set (mc_log s5)"
    using assms(3,16) s4(5) by (simp_all add: s5 storing_result_def Let_def s4(2) refreshPairingsCache_def emitPairOk_def send_inner_def attach_owner_eq split: option.split)
  have "mhas (rl_active (mc_life s5)) p" by (simp add: o(1) attached_has)
  moreover have "fst (findKnownPeer sha p (ps_file (mc_store s5))) \<noteq> None"
    unfolding o(2) s4(4) by (rule added_is_known [OF assms(15)]) (simp add: rec_def)
  moreover have "pair_run sha [LineIn c line, DiskIn (PairLookup (c, g) p inner None) DiskOk,
      GoOn (PairLookup (c, g) p inner (Some (None, log))) e, DiskIn (t None) DiskOk, GoOn (t (Some True)) e'] s = s5"
    unfolding pair_run_def s5_def s4_def s3_def s2_def s1_def by (simp only: fold_simps)
  ultimately show ?thesis using o s4(3) by (intro exI [of _ t]) (simp add: Let_def)
qed

text \<open>C27: scanning a fresh code leads to a pairing. While the listener has authority on an open connection and the session has a room, a
  pair request of an unknown device that carries the active token, in time, ends in these steps with the device attached, known
  to the machine from its file, told \<open>pair_ok\<close> with the room of the session, and the token consumed.\<close>

theorem pairing_completes:
  assumes "s = pair_run sha is (fresh_machine f)" and "rl_installed (mc_life s) = [(c, g)]" and "hasListenerAuthority (c, g) (mc_life s)"
    and "rl_room (mc_life s) = Some (r # room)" and "mc_qr s = Some a" and "\<not> qt_consumed a" and "st_now e \<le> qt_expiresAt a"
    and "read_outer line = Frame p ct" and "read_inner ct = Some inner" and "is_objlike inner"
    and "jget inner ''type'' = JStr ''pair_request''" and "jget inner ''token'' = JStr (qt_token a)"
    and "\<not> mhas (rl_active (mc_life s)) p" and "findKnownPeer sha p (ps_file (mc_store s)) = (None, log)"
    and "decodeEd25519PublicKey p [] = Inr bs" and "st_open e'"
  shows "\<exists>t. let s' = pair_run sha
      [LineIn c line, DiskIn (PairLookup (c, g) p inner None) DiskOk, GoOn (PairLookup (c, g) p inner (Some (None, log))) e,
       DiskIn (t None) DiskOk, GoOn (t (Some True)) e'] s
    in mhas (rl_active (mc_life s')) p \<and> fst (findKnownPeer sha p (ps_file (mc_store s'))) \<noteq> None \<and>
       Sent c (outer_line p None (pair_ok_jv e' (mc_life s') inner (r # room))) \<in> set (mc_log s') \<and>
       Accepted (qt_token a) p (st_now e) \<in> set (mc_log s') \<and> mc_qr s' = Some (a\<lparr>qt_consumed := True\<rparr>)"
  using assms by (rule pairing_steps)

section \<open>Revocation by command\<close>

lemma detached_gone: "links_inv l \<Longrightarrow> \<not> mhas (rl_active (detachPeerChannel p l)) p \<and>
    (\<forall>q. q \<noteq> p \<longrightarrow> mget (rl_active (detachPeerChannel p l)) q = mget (rl_active l) q)"
  by (cases "mget (rl_active l) p") (simp_all add: detachPeerChannel_def detach_channel_def Let_def mhas_def delete_conv_fun)

lemma removePeer_listed:
  "listPeers (ps_file (snd (removePeer raw NoCheck DiskOk st))) = filter (\<lambda>x. \<not> handle_is raw x) (listPeers (ps_file st))"
  "fst (removePeer raw NoCheck DiskOk st) \<in> range Inr"
proof -
  have w: "list_all wf_json (filter (\<lambda>x. \<not> handle_is raw x) (listPeers (ps_file st)))" by simp
  have "filter (\<lambda>x. \<not> handle_is raw x) (listPeers (ps_file st)) = listPeers (ps_file st)"
    if "length (filter (\<lambda>x. \<not> handle_is raw x) (listPeers (ps_file st))) = length (listPeers (ps_file st))"
    using that unfolding filter_same by (simp add: filter_id_conv list_all_iff)
  then show "listPeers (ps_file (snd (removePeer raw NoCheck DiskOk st))) = filter (\<lambda>x. \<not> handle_is raw x) (listPeers (ps_file st))"
    using w by (auto simp: removePeer_def Let_def invalidateOwnerSlot_def new_token_def)
  show "fst (removePeer raw NoCheck DiskOk st) \<in> range Inr" by (auto simp: removePeer_def Let_def)
qed

text \<open>C29: the revoke command. Once the handle is chosen and the disk works, its records leave the file, every other one stays, the owner
  loses its channel, and no other owner does. It does not reach a message of the same owner for which
  the file was read before: when that look-up goes on, the owner is attached again, although the file no longer knows him.\<close>

theorem revoke_command:
  assumes "s = pair_run sha is (fresh_machine f)" and "RevokeStore i None \<in> set (mc_tasks s)" and "ip_runtimeKey i = Some p"
    and "s' = pair_run sha [DiskIn (RevokeStore i None) DiskOk, GoOn (RevokeStore i (Some True)) e] s"
  shows "listPeers (ps_file (mc_store s')) = filter (\<lambda>x. \<not> handle_is (ip_rawHandle i) x) (listPeers (ps_file (mc_store s))) \<and>
    \<not> mhas (rl_active (mc_life s')) p \<and> (\<forall>q. q \<noteq> p \<longrightarrow> mget (rl_active (mc_life s')) q = mget (rl_active (mc_life s)) q) \<and>
    (\<forall>l inner r log. Lookup l p inner (Some (Some r, log)) \<in> set (mc_tasks s) \<and> hasListenerAuthority l (mc_life s) \<longrightarrow>
       mhas (rl_active (mc_life (pair_step sha (GoOn (Lookup l p inner (Some (Some r, log))) e) s'))) p)"
proof -
  define s1 where "s1 = pair_step sha (DiskIn (RevokeStore i None) DiskOk) s"
  have l: "links_inv (mc_life s)" using sound_run assms(1) by (simp add: sound_def)
  obtain b where b: "fst (removePeer (ip_rawHandle i) NoCheck DiskOk (mc_store s)) = Inr b" using removePeer_listed(2) by blast
  have s1: "mc_life s1 = mc_life s" "mc_store s1 = snd (removePeer (ip_rawHandle i) NoCheck DiskOk (mc_store s))"
    "mc_tasks s1 = remove1 (RevokeStore i None) (mc_tasks s) @ [RevokeStore i (Some True)]"
    using assms(2) b by (simp_all add: s1_def split_def Let_def)
  have s': "s' = revoke_store_result i True (s1\<lparr>mc_tasks := remove1 (RevokeStore i (Some True)) (mc_tasks s1)\<rparr>)"
    unfolding assms(4) pair_run_def fold_simps s1_def [symmetric] using s1(3) by simp
  have life: "mc_life s' = (if mhas (rl_active (mc_life s)) p then detachPeerChannel p (mc_life s) else mc_life s)"
    and st: "mc_store s' = mc_store s1"
    and ts: "set (mc_tasks s) - {RevokeStore i None, RevokeStore i (Some True)} \<subseteq> set (mc_tasks s')"
    using s1 assms(3) by (auto simp: s' revoke_store_result_def Let_def refreshPairingsCache_def remove1_append in_set_remove1)
  have again: "mhas (rl_active (mc_life (pair_step sha (GoOn (Lookup lk p inner (Some (Some r, log))) e) s'))) p"
    if "Lookup lk p inner (Some (Some r, log)) \<in> set (mc_tasks s)" "hasListenerAuthority lk (mc_life s)" for lk inner r log
  proof -
    have "hasListenerAuthority lk (mc_life s')" using that(2) life by (simp add: hasListenerAuthority_def)
    moreover have "Lookup lk p inner (Some (Some r, log)) \<in> set (mc_tasks s')" using that(1) ts by auto
    ultimately show ?thesis by (simp add: lookup_result_def Let_def split_def attached_has)
  qed
  have "\<not> mhas (rl_active (mc_life s')) p \<and> (\<forall>q. q \<noteq> p \<longrightarrow> mget (rl_active (mc_life s')) q = mget (rl_active (mc_life s)) q)"
    using detached_gone [OF l, of p] life by simp
  then show ?thesis using removePeer_listed(1) st s1(2) again by simp
qed

section \<open>A run\<close>

definition demo_site :: site where
  "demo_site = \<lparr>st_open = True, st_now = 7, st_iso = ''now'', st_display = ''work'', st_version = ''1'', st_hostname = ''host'',
     st_caps = BASE_CAPABILITIES, st_sid = Some ''sid'', st_rootSid = None, st_derivedRoom = None, st_config = True,
     st_token = ''tok'', st_error = []\<rparr>"

definition phone :: string where "phone = b64_encode demo_key"

definition demo_request :: jv where
  "demo_request = JObj [(''type'', JStr ''pair_request''), (''id'', JStr ''q''), (''token'', JStr ''tok''), (''device_name'', JStr ''phone'')]"

definition demo_start :: "pair_input list" where
  "demo_start = map LifeIn demo_up @ [PairCmd [] demo_site]"

lemma demo_life:
  "rl_started (life_run demo_up fresh_life)" "rl_relay (life_run demo_up fresh_life) = Some 0"
  "rl_room (life_run demo_up fresh_life) = Some ''room''" "rl_cached (life_run demo_up fresh_life) = Some ([], [])"
  "rl_installed (life_run demo_up fresh_life) = [(0, 1)]" "rl_active (life_run demo_up fresh_life) = []"
  "hasListenerAuthority (0, 1) (life_run demo_up fresh_life)"
  by code_simp+

lemma demo_up_machine: "pair_run sha (map LifeIn demo_up) (fresh_machine f) = (fresh_machine f)\<lparr>mc_life := life_run demo_up fresh_life\<rparr>"
  by (simp add: demo_up_def pair_run_def on_life_def fresh_machine_def)

lemma demo_ttl: "pair_ttl [] = 60000"
  by code_simp

lemma demo_machine:
  "mc_life (pair_run sha demo_start (fresh_machine f)) = life_run demo_up fresh_life"
  "mc_qr (pair_run sha demo_start (fresh_machine f)) = Some \<lparr>qt_token = ''tok'', qt_expiresAt = 60007, qt_consumed = False\<rparr>"
  "mc_store (pair_run sha demo_start (fresh_machine f)) = fresh_store f"
  "mc_tasks (pair_run sha demo_start (fresh_machine f)) = []"
  unfolding demo_start_def pair_run_simps demo_up_machine
  by (simp_all add: cmdPair_def pair_ready_def Let_def demo_life demo_ttl issueToken_def demo_site_def) (simp_all add: fresh_machine_def)

lemma demo_ascii: "list_all (\<lambda>c. code c < 128) (stringify demo_request)" "wf_json demo_request" "is_objlike demo_request"
  by code_simp+

lemma demo_line: "read_outer (outer_line phone None demo_request) = Frame phone (to_base64 (stringify demo_request))"
  "read_inner (to_base64 (stringify demo_request)) = Some demo_request" "decodeEd25519PublicKey phone [] = Inr demo_key"
proof -
  have "phone \<noteq> []" by (simp add: phone_def demo_key_def upt_rec)
  then show "read_outer (outer_line phone None demo_request) = Frame phone (to_base64 (stringify demo_request))"
    by (rule read_outer_line) (rule demo_ascii)
  show "read_inner (to_base64 (stringify demo_request)) = Some demo_request"
    by (rule read_inner_line [OF demo_ascii(2) text_ok_ascii [OF demo_ascii(1)]])
  show "decodeEd25519PublicKey phone [] = Inr demo_key" unfolding phone_def by (rule kc.dec_enc) (simp add: key_ok_def demo_key_def)
qed

lemma demo_unknown: "findKnownPeer sha phone NoFile = (None, [])"
  by (simp add: findKnownPeer_def listPeers_def split: sum.split)

lemma demo_pairing:
  "\<exists>t. let s' = pair_run sha
      [LineIn 0 (outer_line phone None demo_request), DiskIn (PairLookup (0, 1) phone demo_request None) DiskOk,
       GoOn (PairLookup (0, 1) phone demo_request (Some (None, []))) demo_site, DiskIn (t None) DiskOk, GoOn (t (Some True)) demo_site]
      (pair_run sha demo_start (fresh_machine NoFile))
    in mhas (rl_active (mc_life s')) phone \<and> fst (findKnownPeer sha phone (ps_file (mc_store s'))) \<noteq> None \<and>
       Sent 0 (outer_line phone None (pair_ok_jv demo_site (mc_life s') demo_request ''room'')) \<in> set (mc_log s') \<and>
       Accepted ''tok'' phone 7 \<in> set (mc_log s') \<and> mc_qr s' = Some \<lparr>qt_token = ''tok'', qt_expiresAt = 60007, qt_consumed = True\<rparr>"
proof -
  let ?s = "pair_run sha demo_start (fresh_machine NoFile)" and ?a = "\<lparr>qt_token = ''tok'', qt_expiresAt = 60007, qt_consumed = False\<rparr>"
  have t: "jget demo_request ''type'' = JStr ''pair_request''" "jget demo_request ''token'' = JStr (qt_token ?a)"
    by (simp_all add: demo_request_def)
  have u: "findKnownPeer sha phone (ps_file (mc_store ?s)) = (None, [])" by (simp add: demo_machine fresh_store_def demo_unknown)
  show ?thesis
    using pairing_steps [of ?s sha demo_start NoFile 0 1 "CHR ''r''" "''oom''" ?a demo_site "outer_line phone None demo_request" phone
        "to_base64 (stringify demo_request)" demo_request "[]" demo_key demo_site]
      demo_machine demo_life demo_line demo_ascii(3) t u by (simp add: demo_site_def mhas_def)
qed

lemma pairing_completes_witness:
  "\<exists>is. mhas (rl_active (mc_life (pair_run (\<lambda>x. x) is (fresh_machine NoFile)))) phone"
proof -
  let ?s = "pair_run (\<lambda>x. x) demo_start (fresh_machine NoFile)" and ?a = "\<lparr>qt_token = ''tok'', qt_expiresAt = 60007, qt_consumed = False\<rparr>"
  have t: "jget demo_request ''type'' = JStr ''pair_request''" "jget demo_request ''token'' = JStr (qt_token ?a)"
    by (simp_all add: demo_request_def)
  have u: "findKnownPeer (\<lambda>x. x) phone (ps_file (mc_store ?s)) = (None, [])" by (simp add: demo_machine fresh_store_def demo_unknown)
  obtain js where "mhas (rl_active (mc_life (pair_run (\<lambda>x. x) js ?s))) phone"
    using pairing_completes [of ?s "\<lambda>x. x" demo_start NoFile 0 1 "CHR ''r''" "''oom''" ?a demo_site "outer_line phone None demo_request" phone
        "to_base64 (stringify demo_request)" demo_request "[]" demo_key demo_site]
      demo_machine demo_life demo_line demo_ascii(3) t u by (simp add: demo_site_def mhas_def Let_def) blast
  then show ?thesis by (intro exI [of _ "demo_start @ js"]) (simp add: pair_run_def)
qed

lemma demo_accepted: "\<exists>is. Accepted ''tok'' phone 7 \<in> set (mc_log (pair_run (\<lambda>x. x) is (fresh_machine NoFile))) \<and>
    mhas (rl_active (mc_life (pair_run (\<lambda>x. x) is (fresh_machine NoFile)))) phone"
proof -
  obtain js where "Accepted ''tok'' phone 7 \<in> set (mc_log (pair_run (\<lambda>x. x) js (pair_run (\<lambda>x. x) demo_start (fresh_machine NoFile))))"
    "mhas (rl_active (mc_life (pair_run (\<lambda>x. x) js (pair_run (\<lambda>x. x) demo_start (fresh_machine NoFile))))) phone"
    using demo_pairing [of "\<lambda>x. x"] by (auto simp: Let_def)
  then show ?thesis by (intro exI [of _ "demo_start @ js"]) (simp add: pair_run_def)
qed

lemma token_redeemed_once_witness:
  "\<exists>is xs ys as x bs. mc_log (pair_run (\<lambda>x. x) is (fresh_machine NoFile)) = xs @ Accepted ''tok'' phone 7 # ys \<and>
     xs = as @ Issued ''tok'' x # bs \<and> 7 \<le> x"
proof -
  obtain "is" where "Accepted ''tok'' phone 7 \<in> set (mc_log (pair_run (\<lambda>x. x) is (fresh_machine NoFile)))" using demo_accepted by blast
  then obtain xs ys where l: "mc_log (pair_run (\<lambda>x. x) is (fresh_machine NoFile)) = xs @ Accepted ''tok'' phone 7 # ys" using split_list by metis
  show ?thesis using token_redeemed_once [OF l] l by blast
qed

lemma only_paired_served_witness:
  "\<exists>is. (\<exists>js ks. is = js @ ks \<and> fst (findKnownPeer (\<lambda>x. x) phone (ps_file (mc_store (pair_run (\<lambda>x. x) js (fresh_machine NoFile))))) \<noteq> None) \<or>
     (\<exists>t n. Accepted t phone n \<in> set (mc_log (pair_run (\<lambda>x. x) is (fresh_machine NoFile))))"
proof -
  obtain "is" where "mhas (rl_active (mc_life (pair_run (\<lambda>x. x) is (fresh_machine NoFile)))) phone" using demo_accepted by blast
  then show ?thesis using only_paired_served [of "\<lambda>x. x" "is" NoFile phone] by (intro exI [of _ "is"]) blast
qed

lemma line_goes_to_one_place_witness:
  "line_arrives 0 (outer_line phone None demo_request) (pair_run (\<lambda>x. x) demo_start (fresh_machine NoFile)) =
     wait_for (PairLookup (0, 1) phone demo_request None) (pair_run (\<lambda>x. x) demo_start (fresh_machine NoFile))"
proof -
  let ?s = "pair_run (\<lambda>x. x) demo_start (fresh_machine NoFile)"
  have i: "rl_installed (mc_life ?s) = [(0, 1)]" "hasListenerAuthority (0, 1) (mc_life ?s)" unfolding demo_machine by (rule demo_life)+
  have n: "mget (rl_active (mc_life ?s)) phone = None" by (simp add: demo_machine demo_life)
  have "jget demo_request ''type'' = JStr ''pair_request''" by (simp add: demo_request_def)
  then show ?thesis unfolding line_goes_to_one_place [OF refl i demo_line(1,2) demo_ascii(3)] n by simp
qed

text \<open>A phone in the file is revoked by the first letters of its key.\<close>

definition demo_revoke :: "pair_input list" where
  "demo_revoke = map LifeIn demo_up @
     [RevokeCmd ''AAEC'' demo_site, DiskIn (RevokeList ''AAEC'' None) DiskOk, GoOn (RevokeList ''AAEC'' (Some [peer_jv demo_peer])) demo_site]"

lemma demo_chosen: "RevokeStore \<lparr>ip_record = demo_peer, ip_rawHandle = phone, ip_runtimeKey = Some phone\<rparr> None
    \<in> set (mc_tasks (pair_run sha demo_revoke (fresh_machine demo_file)))"
proof -
  have t: "trimmed ''AAEC'' = ''AAEC''" "starts_with ''AAEC'' phone" by code_simp+
  have c: "canonicalizeEd25519PublicKey phone g = Inr phone" for g
    unfolding canonicalize_Inr_iff using demo_line(3) by (auto simp: phone_def)
  have i: "fst (inspect_all sha [peer_jv demo_peer]) = [\<lparr>ip_record = demo_peer, ip_rawHandle = phone, ip_runtimeKey = Some phone\<rparr>]"
    using c by (simp add: inspectPeerRecord_def peer_jv_def demo_peer_def phone_def [symmetric] str_or_def Let_def)
  have r: "pair_run sha (map LifeIn demo_up @ [RevokeCmd ''AAEC'' demo_site]) (fresh_machine demo_file) =
      ((fresh_machine demo_file)\<lparr>mc_life := life_run demo_up fresh_life, mc_tasks := [RevokeList ''AAEC'' None]\<rparr>)"
    unfolding pair_run_simps demo_up_machine
    by (simp add: cmdRevoke_def revoke_ready_def t demo_life wait_for_def fresh_machine_def)
  have "pair_run sha demo_revoke (fresh_machine demo_file) = revoke_list_result sha ''AAEC'' [peer_jv demo_peer]
      ((fresh_machine demo_file)\<lparr>mc_life := life_run demo_up fresh_life, mc_tasks := []\<rparr>)"
    using r unfolding demo_revoke_def pair_run_def fold_append comp_def fold_simps
    by (simp add: fresh_machine_def fresh_store_def)
  then show ?thesis using i t(2) by (simp add: revoke_list_result_def Let_def split_def)
qed

lemma revoke_command_witness:
  "\<not> mhas (rl_active (mc_life (pair_run (\<lambda>x. x)
     [DiskIn (RevokeStore \<lparr>ip_record = demo_peer, ip_rawHandle = phone, ip_runtimeKey = Some phone\<rparr> None) DiskOk,
      GoOn (RevokeStore \<lparr>ip_record = demo_peer, ip_rawHandle = phone, ip_runtimeKey = Some phone\<rparr> (Some True)) demo_site]
     (pair_run (\<lambda>x. x) demo_revoke (fresh_machine demo_file))))) phone"
  using revoke_command [OF refl demo_chosen _ refl, of phone "\<lambda>x. x" demo_site] by simp

end
