(* ===== verification/RelayClient.thy ===== *)
theory RelayClient
  imports Names Channel
begin

text \<open>
  The WebSocket client of the relay: \<^verbatim>\<open>extension/src/transport/relay_client.ts\<close>.

  The record \<open>relay_client\<close> is one client and its socket. Its handlers are the steps: the socket opens, delivers a frame, pings, fails or
  closes; a timer fires; the owner of the client sends or closes. Times are milliseconds. The socket itself, Ed25519 and the
  events of other emitters are not modelled; verification is an argument and may throw (\<open>None\<close>). The
  nonce of a challenge is a string, as the protocol's type says.
\<close>

section \<open>The identity of the relay\<close>

definition AUTH_TIMEOUT_MS :: int where "AUTH_TIMEOUT_MS = 5000"
definition LIVENESS_TIMEOUT_MS :: int where "LIVENESS_TIMEOUT_MS = 70000"
definition LIVENESS_CHECK_MS :: int where "LIVENESS_CHECK_MS = 20000"

type_synonym verifier = "byte list \<Rightarrow> byte list \<Rightarrow> byte list \<Rightarrow> bool option"

record relay_identity =
  ri_pubkey :: string
  ri_name :: string
  ri_url :: string
  ri_endpoints :: "string list"

datatype ack_problem = BadSig | WrongNonce | PinMismatch | Malformed

datatype ack_check = AckOk relay_identity | AckBad ack_problem | AckThrows

definition str_field :: "jv \<Rightarrow> string \<Rightarrow> string option" where
  "str_field v k = (case jget v k of JStr s \<Rightarrow> Some s | _ \<Rightarrow> None)"

definition endpoints_of :: "jv \<Rightarrow> string list" where
  "endpoints_of v =
     (case jget v ''endpoints'' of
        JArr es \<Rightarrow> concat (map (\<lambda>e. case e of JStr (c # s) \<Rightarrow> [c # s] | _ \<Rightarrow> []) es)
      | _ \<Rightarrow> [])"

definition ack_text :: "string \<Rightarrow> string \<Rightarrow> string \<Rightarrow> string \<Rightarrow> string" where
  "ack_text nonce pubkey name url = nonce @ ''|'' @ pubkey @ ''|'' @ name @ ''|'' @ url"

definition filled :: "string option \<Rightarrow> bool" where
  "filled x \<longleftrightarrow> x \<noteq> None \<and> x \<noteq> Some []"

definition verifyRelayIdentityAck :: "verifier \<Rightarrow> jv \<Rightarrow> string \<Rightarrow> string option \<Rightarrow> ack_check" where
  "verifyRelayIdentityAck verify frame received expected =
     (let pk = str_field frame ''relay_pubkey''; nm = (case str_field frame ''relay_name'' of Some n \<Rightarrow> n | None \<Rightarrow> []);
          ur = (case str_field frame ''relay_url'' of Some u \<Rightarrow> u | None \<Rightarrow> []);
          nonce = str_field frame ''nonce''; sg = str_field frame ''sig''
      in if \<not> filled pk \<or> \<not> filled nonce \<or> \<not> filled sg \<or> nonce \<noteq> Some received
         then AckBad (if nonce = None then Malformed else WrongNonce)
         else
           (let pkBytes = from_base64 (the pk)
            in if length pkBytes \<noteq> 32 then AckBad BadSig
               else (case verify pkBytes (map char_byte (ack_text (the nonce) (the pk) nm ur)) (from_base64 (the sg)) of
                       None \<Rightarrow> AckThrows
                     | Some False \<Rightarrow> AckBad BadSig
                     | Some True \<Rightarrow>
                         if expected \<noteq> None \<and> expected \<noteq> pk then AckBad PinMismatch
                         else AckOk \<lparr>ri_pubkey = the pk, ri_name = nm, ri_url = ur, ri_endpoints = endpoints_of frame\<rparr>)))"

section \<open>The client\<close>

datatype sock = SConnecting | SOpen | SClosing | SClosed

datatype phase = Fresh | WaitOpen | WaitChallenge | Ready | Failed

datatype connect_error =
    SocketError | AuthTimeout | ChallengeNotJson | ChallengeNull | RoomOpen | HelloRefused | NotAChallenge

datatype rc_event =
    Wrote string
  | Emitted string
  | IdentityVerified relay_identity
  | IdentityRefused ack_problem "string option" "string option"
  | Terminated
  | CloseCalled
  | EmittedClose
  | Resolved
  | Failing connect_error

record relay_client =
  rc_keys :: "byte list \<times> byte list"
  rc_pin :: "string option"
  rc_held :: bool
  rc_sock :: sock
  rc_phase :: phase
  rc_room :: "string option"
  rc_meta :: "jv option"
  rc_settled :: bool
  rc_last :: int
  rc_timer :: bool
  rc_nonce :: "string option"
  rc_identity :: "relay_identity option"
  rc_log :: "rc_event list"

definition new_client :: "byte list \<times> byte list \<Rightarrow> string option \<Rightarrow> relay_client" where
  "new_client keys pin =
     \<lparr>rc_keys = keys, rc_pin = pin, rc_held = False, rc_sock = SClosed, rc_phase = Fresh, rc_room = None, rc_meta = None,
      rc_settled = False, rc_last = 0, rc_timer = False, rc_nonce = None, rc_identity = None, rc_log = []\<rparr>"

definition rc_say :: "rc_event \<Rightarrow> relay_client \<Rightarrow> relay_client" where
  "rc_say e s = s\<lparr>rc_log := rc_log s @ [e]\<rparr>"

text \<open>A frame for a socket that is closing is dropped by it.\<close>

definition rawSend :: "string \<Rightarrow> relay_client \<Rightarrow> relay_client" where
  "rawSend line s = (if rc_sock s = SOpen then rc_say (Wrote line) s else s)"

definition ws_terminate :: "relay_client \<Rightarrow> relay_client" where
  "ws_terminate s = rc_say Terminated (s\<lparr>rc_sock := (if rc_sock s = SClosed then SClosed else SClosing)\<rparr>)"

text \<open>A promise is settled once.\<close>

definition settle_connect :: "rc_event \<Rightarrow> relay_client \<Rightarrow> relay_client" where
  "settle_connect e s = (if rc_settled s then s else rc_say e (s\<lparr>rc_settled := True\<rparr>))"

definition stopLiveness :: "relay_client \<Rightarrow> relay_client" where
  "stopLiveness s = s\<lparr>rc_timer := False\<rparr>"

definition startLiveness :: "relay_client \<Rightarrow> relay_client" where
  "startLiveness s = (stopLiveness s)\<lparr>rc_timer := True\<rparr>"

section \<open>Connecting\<close>

text \<open>\<open>connect\<close> makes the socket. The callers make a client for each attempt and connect it once; the model covers that use, and a
  second call, which would replace the socket of the client, is not a step of it.\<close>

definition connect :: "string option \<Rightarrow> jv option \<Rightarrow> relay_client \<Rightarrow> relay_client" where
  "connect roomId roomMeta s =
     (if rc_phase s \<noteq> Fresh then s
      else s\<lparr>rc_held := True, rc_sock := SConnecting, rc_phase := WaitOpen, rc_room := roomId, rc_meta := roomMeta\<rparr>)"

definition hello_jv :: "relay_client \<Rightarrow> jv" where
  "hello_jv s =
     JObj ([(''type'', JStr ''hello''), (''pubkey'', JStr (b64_encode (fst (rc_keys s))))] @
       (if filled (rc_room s) then [(''room_id'', JStr (the (rc_room s)))] else []) @
       (case rc_meta s of Some v \<Rightarrow> [(''room_meta'', v)] | None \<Rightarrow> []))"

definition on_open :: "relay_client \<Rightarrow> relay_client" where
  "on_open s =
     (if rc_phase s \<noteq> WaitOpen \<or> rc_sock s \<noteq> SConnecting then s
      else rawSend (stringify (hello_jv s)) (s\<lparr>rc_sock := SOpen, rc_phase := WaitChallenge\<rparr>))"

text \<open>The \<^verbatim>\<open>catch\<close> of the open handler.\<close>

definition auth_failed :: "connect_error \<Rightarrow> relay_client \<Rightarrow> relay_client" where
  "auth_failed err s = settle_connect (Failing err) (ws_terminate (s\<lparr>rc_phase := Failed\<rparr>))"

definition auth_jv :: "byte list \<Rightarrow> jv" where
  "auth_jv sg = JObj [(''type'', JStr ''auth''), (''sig'', JStr (b64_encode sg))]"

definition authenticated :: "string \<Rightarrow> string \<Rightarrow> int \<Rightarrow> relay_client \<Rightarrow> relay_client" where
  "authenticated nonce line now s =
     (let s1 = rawSend line (s\<lparr>rc_nonce := Some nonce\<rparr>)
      in settle_connect Resolved (startLiveness (s1\<lparr>rc_phase := Ready, rc_last := now\<rparr>)))"

definition on_challenge :: "(byte list \<Rightarrow> byte list \<Rightarrow> byte list) \<Rightarrow> string \<Rightarrow> int \<Rightarrow> relay_client \<Rightarrow> relay_client" where
  "on_challenge sign raw now s =
     (case json_parse raw of
        None \<Rightarrow> auth_failed ChallengeNotJson s
      | Some JNull \<Rightarrow> auth_failed ChallengeNull s
      | Some challenge \<Rightarrow>
          if jget challenge ''type'' = JStr ''error'' then
            auth_failed (if jget challenge ''code'' = JStr ''room_already_open'' then RoomOpen else HelloRefused) s
          else (case (jget challenge ''type'', jget challenge ''nonce'') of
                  (JStr t, JStr (c # n)) \<Rightarrow>
                    if t \<noteq> ''challenge'' then auth_failed NotAChallenge s
                    else
                      authenticated (c # n) (stringify (auth_jv (sign (snd (rc_keys s)) (from_base64 (c # n))))) now s
                | _ \<Rightarrow> auth_failed NotAChallenge s))"

definition on_auth_timeout :: "relay_client \<Rightarrow> relay_client" where
  "on_auth_timeout s = (if rc_phase s = WaitChallenge then auth_failed AuthTimeout s else s)"

definition on_error :: "relay_client \<Rightarrow> relay_client" where
  "on_error s = (if rc_phase s = Fresh then s else settle_connect (Failing SocketError) s)"

section \<open>Frames\<close>

fun contains :: "string \<Rightarrow> string \<Rightarrow> bool" where
  "contains w [] \<longleftrightarrow> w = []"
| "contains w (c # s) \<longleftrightarrow> starts_with w (c # s) \<or> contains w s"

definition mentions_ack :: "string \<Rightarrow> bool" where
  "mentions_ack line \<longleftrightarrow> contains (quote ''identity_ack'') line"

fun split_lines :: "string \<Rightarrow> string list" where
  "split_lines [] = [[]]"
| "split_lines (c # s) =
     (if c = NL then [] # split_lines s
      else (case split_lines s of [] \<Rightarrow> [[c]] | l # ls \<Rightarrow> (c # l) # ls))"

definition frame_lines :: "string \<Rightarrow> string list" where
  "frame_lines text = filter (\<lambda>l. l \<noteq> []) (map trimmed (split_lines text))"

definition process_line :: "verifier \<Rightarrow> string \<Rightarrow> relay_client \<Rightarrow> relay_client" where
  "process_line verify line s =
     (if mentions_ack line then
        (case json_parse line of
           None \<Rightarrow> s
         | Some frame \<Rightarrow>
             if jget frame ''type'' \<noteq> JStr ''identity_ack'' then s
             else (case verifyRelayIdentityAck verify frame (case rc_nonce s of Some n \<Rightarrow> n | None \<Rightarrow> []) (rc_pin s) of
                     AckThrows \<Rightarrow> s
                   | AckOk i \<Rightarrow> rc_say (Emitted line) (rc_say (IdentityVerified i) (s\<lparr>rc_identity := Some i\<rparr>))
                   | AckBad reason \<Rightarrow>
                       ws_terminate (stopLiveness (rc_say (IdentityRefused reason (rc_pin s) (str_field frame ''relay_pubkey'')) s))))
      else rc_say (Emitted line) s)"

definition on_message :: "(byte list \<Rightarrow> byte list \<Rightarrow> byte list) \<Rightarrow> verifier \<Rightarrow> string \<Rightarrow> int \<Rightarrow> relay_client \<Rightarrow> relay_client" where
  "on_message sign verify text now s =
     (case rc_phase s of
        WaitChallenge \<Rightarrow> on_challenge sign text now s
      | Ready \<Rightarrow> if rc_sock s = SClosed then s else fold (process_line verify) (frame_lines text) (s\<lparr>rc_last := now\<rparr>)
      | _ \<Rightarrow> s)"

definition on_ping :: "int \<Rightarrow> relay_client \<Rightarrow> relay_client" where
  "on_ping now s = (if rc_phase s = Ready then s\<lparr>rc_last := now\<rparr> else s)"

definition on_close :: "relay_client \<Rightarrow> relay_client" where
  "on_close s =
     (let s1 = s\<lparr>rc_sock := SClosed\<rparr>
      in if rc_phase s = Ready \<and> rc_sock s \<noteq> SClosed then rc_say EmittedClose (stopLiveness s1) else s1)"

definition liveness_tick :: "int \<Rightarrow> relay_client \<Rightarrow> relay_client" where
  "liveness_tick now s =
     (if rc_timer s \<and> now - rc_last s > LIVENESS_TIMEOUT_MS then ws_terminate (stopLiveness s) else s)"

section \<open>The public operations\<close>

definition isOpen :: "relay_client \<Rightarrow> bool" where
  "isOpen s \<longleftrightarrow> rc_held s \<and> rc_sock s = SOpen"

text \<open>\<open>None\<close> is the exception \<^verbatim>\<open>relay: not connected\<close>.\<close>

definition send_line :: "string \<Rightarrow> relay_client \<Rightarrow> relay_client option" where
  "send_line line s = (if \<not> rc_held s \<or> rc_sock s \<noteq> SOpen then None else Some (rc_say (Wrote line) s))"

definition sendControl :: "jv \<Rightarrow> relay_client \<Rightarrow> relay_client" where
  "sendControl frame s = (if \<not> rc_held s \<or> rc_sock s \<noteq> SOpen then s else rc_say (Wrote (stringify frame)) s)"

definition close_client :: "relay_client \<Rightarrow> relay_client" where
  "close_client s =
     (let s1 = stopLiveness s
      in if rc_held s1
         then (rc_say CloseCalled (s1\<lparr>rc_sock := (if rc_sock s1 = SClosed then SClosed else SClosing)\<rparr>))\<lparr>rc_held := False\<rparr>
         else s1)"

datatype rc_input =
    RcConnect "string option" "jv option" | RcOpen | RcMessage string int | RcAuthTimeout | RcError | RcPing int | RcClose | RcTick int
  | RcSend string | RcControl jv | RcCloseCall

fun rc_step :: "(byte list \<Rightarrow> byte list \<Rightarrow> byte list) \<Rightarrow> verifier \<Rightarrow> rc_input \<Rightarrow> relay_client \<Rightarrow> relay_client" where
  "rc_step sign verify (RcConnect roomId roomMeta) s = connect roomId roomMeta s"
| "rc_step sign verify RcOpen s = on_open s"
| "rc_step sign verify (RcMessage text now) s = on_message sign verify text now s"
| "rc_step sign verify RcAuthTimeout s = on_auth_timeout s"
| "rc_step sign verify RcError s = on_error s"
| "rc_step sign verify (RcPing now) s = on_ping now s"
| "rc_step sign verify RcClose s = on_close s"
| "rc_step sign verify (RcTick now) s = liveness_tick now s"
| "rc_step sign verify (RcSend line) s = (case send_line line s of Some s' \<Rightarrow> s' | None \<Rightarrow> s)"
| "rc_step sign verify (RcControl frame) s = sendControl frame s"
| "rc_step sign verify RcCloseCall s = close_client s"

definition rc_run :: "(byte list \<Rightarrow> byte list \<Rightarrow> byte list) \<Rightarrow> verifier \<Rightarrow> rc_input list \<Rightarrow> relay_client \<Rightarrow> relay_client" where
  "rc_run sign verify is s = fold (rc_step sign verify) is s"

section \<open>What the frames become\<close>

definition emitted :: "relay_client \<Rightarrow> string list" where
  "emitted s = concat (map (\<lambda>e. case e of Emitted l \<Rightarrow> [l] | _ \<Rightarrow> []) (rc_log s))"

definition checked :: "verifier \<Rightarrow> relay_client \<Rightarrow> string \<Rightarrow> ack_check option" where
  "checked verify s line =
     (case json_parse line of
        Some frame \<Rightarrow>
          if jget frame ''type'' = JStr ''identity_ack''
          then Some (verifyRelayIdentityAck verify frame (case rc_nonce s of Some n \<Rightarrow> n | None \<Rightarrow> []) (rc_pin s)) else None
      | None \<Rightarrow> None)"

definition passes :: "verifier \<Rightarrow> relay_client \<Rightarrow> string \<Rightarrow> bool" where
  "passes verify s line \<longleftrightarrow> \<not> mentions_ack line \<or> (\<exists>i. checked verify s line = Some (AckOk i))"

definition refuses :: "verifier \<Rightarrow> relay_client \<Rightarrow> string \<Rightarrow> bool" where
  "refuses verify s line \<longleftrightarrow> mentions_ack line \<and> (\<exists>r. checked verify s line = Some (AckBad r))"

lemma process_line_checked:
  "process_line verify line s =
     (if \<not> mentions_ack line then rc_say (Emitted line) s
      else (case checked verify s line of
              Some (AckOk i) \<Rightarrow> rc_say (Emitted line) (rc_say (IdentityVerified i) (s\<lparr>rc_identity := Some i\<rparr>))
            | Some (AckBad reason) \<Rightarrow>
                ws_terminate (stopLiveness (rc_say (IdentityRefused reason (rc_pin s)
                  (case json_parse line of Some frame \<Rightarrow> str_field frame ''relay_pubkey'' | None \<Rightarrow> None)) s))
            | _ \<Rightarrow> s))"
  by (simp add: process_line_def checked_def split: option.split ack_check.split)

lemma rc_fields [simp]:
  "rc_nonce (rc_say e s) = rc_nonce s" "rc_pin (rc_say e s) = rc_pin s" "rc_sock (rc_say e s) = rc_sock s" "rc_phase (rc_say e s) = rc_phase s"
  "rc_timer (rc_say e s) = rc_timer s" "rc_identity (rc_say e s) = rc_identity s" "rc_last (rc_say e s) = rc_last s" "rc_held (rc_say e s) = rc_held s"
  "rc_settled (rc_say e s) = rc_settled s" "rc_log (rc_say e s) = rc_log s @ [e]" "rc_keys (rc_say e s) = rc_keys s"
  by (simp_all add: rc_say_def)

lemma emitted_simps [simp]:
  "emitted (rc_say e s) = emitted s @ (case e of Emitted l \<Rightarrow> [l] | _ \<Rightarrow> [])" "emitted (stopLiveness s) = emitted s"
  "emitted (s\<lparr>rc_identity := i\<rparr>) = emitted s" "emitted (s\<lparr>rc_last := n\<rparr>) = emitted s" "emitted (s\<lparr>rc_sock := k\<rparr>) = emitted s"
  "emitted (ws_terminate s) = emitted s" "emitted (s\<lparr>rc_timer := b\<rparr>) = emitted s"
  by (simp_all add: emitted_def stopLiveness_def ws_terminate_def)

lemma process_line_keeps:
  "rc_nonce (process_line verify line s) = rc_nonce s" "rc_pin (process_line verify line s) = rc_pin s"
  "rc_phase (process_line verify line s) = rc_phase s" "rc_last (process_line verify line s) = rc_last s"
  "rc_keys (process_line verify line s) = rc_keys s" "rc_settled (process_line verify line s) = rc_settled s" "rc_held (process_line verify line s) = rc_held s"
  by (simp_all add: process_line_checked ws_terminate_def stopLiveness_def split: option.split ack_check.split)

lemma process_line_effect:
  "emitted (process_line verify line s) = emitted s @ (if passes verify s line then [line] else [])"
  "rc_sock (process_line verify line s) = (if refuses verify s line \<and> rc_sock s \<noteq> SClosed then SClosing else rc_sock s)"
  "rc_timer (process_line verify line s) = (rc_timer s \<and> \<not> refuses verify s line)"
  by (auto simp: process_line_checked passes_def refuses_def ws_terminate_def stopLiveness_def split: option.split ack_check.split)

lemma passes_cong:
  assumes "rc_nonce s' = rc_nonce s" and "rc_pin s' = rc_pin s"
  shows "checked verify s' = checked verify s" and "passes verify s' = passes verify s" and "refuses verify s' = refuses verify s"
proof -
  show c: "checked verify s' = checked verify s" unfolding checked_def assms by (rule refl)
  show "passes verify s' = passes verify s" "refuses verify s' = refuses verify s" unfolding passes_def refuses_def c by (rule refl)+
qed

lemma process_lines:
  "emitted (fold (process_line verify) ls s) = emitted s @ filter (passes verify s) ls \<and>
   rc_sock (fold (process_line verify) ls s) = (if (\<exists>l \<in> set ls. refuses verify s l) \<and> rc_sock s \<noteq> SClosed then SClosing else rc_sock s) \<and>
   rc_timer (fold (process_line verify) ls s) = (rc_timer s \<and> \<not> (\<exists>l \<in> set ls. refuses verify s l))"
proof (induction ls arbitrary: s)
  case (Cons l ls)
  note p = passes_cong(2,3) [OF process_line_keeps(1,2), of verify verify l s]
  show ?case unfolding fold_simps comp_def using Cons [of "process_line verify l s"] by (auto simp: p process_line_effect)
qed simp

lemma process_lines_keep:
  "rc_nonce (fold (process_line verify) ls s) = rc_nonce s \<and> rc_pin (fold (process_line verify) ls s) = rc_pin s \<and>
   rc_phase (fold (process_line verify) ls s) = rc_phase s \<and> rc_last (fold (process_line verify) ls s) = rc_last s \<and>
   rc_keys (fold (process_line verify) ls s) = rc_keys s \<and> rc_settled (fold (process_line verify) ls s) = rc_settled s"
  by (induction ls arbitrary: s) (simp_all add: process_line_keeps)

text \<open>C32: what a frame becomes on an authenticated connection. Its lines are handed on one by one, trimmed, in order, except the empty ones and those that
  contain the text \<^verbatim>\<open>"identity_ack"\<close>: of these only an acknowledgement that verifies is handed on. One that does not verify
  closes the socket for sending. It does not stop the lines around it; and a line of another kind that
  merely contains that text, such as an envelope whose body has it as a value, is lost.\<close>

theorem frame_handed_on:
  assumes "rc_phase s = Ready" and "rc_sock s \<noteq> SClosed"
  shows "emitted (on_message sign verify text now s) = emitted s @ filter (passes verify s) (frame_lines text) \<and>
    ((\<exists>l \<in> set (frame_lines text). refuses verify s l) \<longrightarrow>
       send_line line (on_message sign verify text now s) = None \<and> \<not> rc_timer (on_message sign verify text now s)) \<and>
    (json_parse l = Some v \<and> jget v ''type'' \<noteq> JStr ''identity_ack'' \<and> mentions_ack l \<longrightarrow> \<not> passes verify s l)"
proof -
  have c: "passes verify (s\<lparr>rc_last := now\<rparr>) = passes verify s" "refuses verify (s\<lparr>rc_last := now\<rparr>) = refuses verify s"
    by (intro passes_cong; simp)+
  have o: "on_message sign verify text now s = fold (process_line verify) (frame_lines text) (s\<lparr>rc_last := now\<rparr>)"
    using assms by (simp add: on_message_def)
  have "\<not> passes verify s l" if "json_parse l = Some v" "jget v ''type'' \<noteq> JStr ''identity_ack''" "mentions_ack l"
    using that by (simp add: passes_def checked_def)
  then show ?thesis unfolding o using process_lines [of verify "frame_lines text" "s\<lparr>rc_last := now\<rparr>"] assms(2)
    by (auto simp: c send_line_def)
qed

section \<open>What every run keeps\<close>

definition vouches :: "verifier \<Rightarrow> string \<Rightarrow> relay_identity \<Rightarrow> bool" where
  "vouches verify nonce i \<longleftrightarrow>
     nonce \<noteq> [] \<and> length (from_base64 (ri_pubkey i)) = 32 \<and>
     (\<exists>sg. verify (from_base64 (ri_pubkey i)) (map char_byte (ack_text nonce (ri_pubkey i) (ri_name i) (ri_url i))) sg = Some True)"

definition ident_inv :: "verifier \<Rightarrow> string option \<Rightarrow> relay_client \<Rightarrow> bool" where
  "ident_inv verify pin s \<longleftrightarrow>
     rc_pin s = pin \<and> (rc_phase s \<noteq> Ready \<longrightarrow> rc_identity s = None) \<and>
     (\<forall>i. rc_identity s = Some i \<longrightarrow> (\<exists>n. rc_nonce s = Some n \<and> vouches verify n i) \<and> (pin = None \<or> pin = Some (ri_pubkey i)))"

definition settled_events :: "relay_client \<Rightarrow> nat" where
  "settled_events s = length (filter (\<lambda>e. case e of Resolved \<Rightarrow> True | Failing _ \<Rightarrow> True | _ \<Rightarrow> False) (rc_log s))"

definition client_inv :: "relay_client \<Rightarrow> bool" where
  "client_inv s \<longleftrightarrow>
     (rc_phase s = Ready \<and> rc_sock s = SOpen \<longrightarrow> rc_timer s) \<and> (\<not> rc_held s \<longrightarrow> rc_sock s \<noteq> SOpen \<and> rc_sock s \<noteq> SConnecting) \<and>
     settled_events s = (if rc_settled s then 1 else 0) \<and> (rc_phase s = Ready \<or> rc_phase s = Failed \<longrightarrow> rc_settled s) \<and>
     (rc_phase s = Fresh \<longrightarrow> \<not> rc_settled s \<and> \<not> rc_held s) \<and> (rc_phase s = WaitOpen \<longrightarrow> rc_sock s \<noteq> SOpen)"

text \<open>The time of an input that something arrives with.\<close>

fun arrival :: "rc_input \<Rightarrow> int option" where
  "arrival (RcMessage text t) = Some t"
| "arrival (RcPing t) = Some t"
| "arrival _ = None"

text \<open>The time at which something arrived last.\<close>

definition last_arrival :: "rc_input list \<Rightarrow> int option" where
  "last_arrival is = fold (\<lambda>i before. case arrival i of Some t \<Rightarrow> Some t | None \<Rightarrow> before) is None"

definition last_inv :: "rc_input list \<Rightarrow> relay_client \<Rightarrow> bool" where
  "last_inv is s \<longleftrightarrow> (rc_phase s = Ready \<and> rc_sock s = SOpen \<longrightarrow> last_arrival is = Some (rc_last s))"

lemma last_arrival_snoc: "last_arrival (is @ [i]) = (case arrival i of Some t \<Rightarrow> Some t | None \<Rightarrow> last_arrival is)"
  by (cases "arrival i") (simp_all add: last_arrival_def)

lemma last_arrival_quiet:
  assumes "arrival i = Some t" and "\<forall>j \<in> set quiet. arrival j = None"
  shows "last_arrival (before @ i # quiet) = Some t"
  using assms(2)
proof (induction quiet rule: rev_induct)
  case Nil
  then show ?case using assms(1) by (simp add: last_arrival_snoc)
next
  case (snoc j js)
  then show ?case using last_arrival_snoc [of "before @ i # js" j] by simp
qed

lemma verify_ok:
  assumes ok: "verifyRelayIdentityAck verify frame received expected = AckOk i"
  shows "vouches verify received i \<and> (expected = None \<or> expected = Some (ri_pubkey i))"
proof -
  define nm where "nm = (case str_field frame ''relay_name'' of Some n \<Rightarrow> n | None \<Rightarrow> [])"
  define ur where "ur = (case str_field frame ''relay_url'' of Some u \<Rightarrow> u | None \<Rightarrow> [])"
  have g: "filled (str_field frame ''relay_pubkey'') \<and> filled (str_field frame ''nonce'') \<and> str_field frame ''nonce'' = Some received"
    using ok unfolding verifyRelayIdentityAck_def Let_def by (simp split: if_split_asm)
  then obtain pk where pk: "str_field frame ''relay_pubkey'' = Some pk" by (auto simp: filled_def)
  have nonce: "str_field frame ''nonce'' = Some received" and ne: "received \<noteq> []" using g by (auto simp: filled_def)
  define res where "res = verify (from_base64 pk) (map char_byte (ack_text received pk nm ur)) (from_base64 (the (str_field frame ''sig'')))"
  have "(if length (from_base64 pk) \<noteq> 32 then AckBad BadSig
      else (case res of None \<Rightarrow> AckThrows | Some False \<Rightarrow> AckBad BadSig
        | Some True \<Rightarrow> if expected \<noteq> None \<and> expected \<noteq> Some pk then AckBad PinMismatch
             else AckOk \<lparr>ri_pubkey = pk, ri_name = nm, ri_url = ur, ri_endpoints = endpoints_of frame\<rparr>)) = AckOk i"
    using ok unfolding verifyRelayIdentityAck_def Let_def pk nonce nm_def[symmetric] ur_def[symmetric] option.sel res_def[symmetric]
    by (cases "res"; cases "the res"; cases expected) (simp_all split: if_split_asm)
  then have "length (from_base64 pk) = 32 \<and> res = Some True \<and> (expected = None \<or> expected = Some pk) \<and>
      i = \<lparr>ri_pubkey = pk, ri_name = nm, ri_url = ur, ri_endpoints = endpoints_of frame\<rparr>"
    by (simp split: if_split_asm option.split_asm bool.split_asm)
  then show ?thesis using ne by (auto simp: vouches_def res_def)
qed

lemma settled_say [simp]:
  "settled_events (rc_say e s) = settled_events s + (case e of Resolved \<Rightarrow> 1 | Failing _ \<Rightarrow> 1 | _ \<Rightarrow> 0)"
  by (cases e) (simp_all add: settled_events_def)

lemma settled_fields [simp]:
  "settled_events (s\<lparr>rc_sock := k\<rparr>) = settled_events s" "settled_events (s\<lparr>rc_phase := p\<rparr>) = settled_events s"
  "settled_events (s\<lparr>rc_settled := b\<rparr>) = settled_events s" "settled_events (s\<lparr>rc_last := n\<rparr>) = settled_events s"
  "settled_events (s\<lparr>rc_timer := b\<rparr>) = settled_events s" "settled_events (s\<lparr>rc_nonce := q\<rparr>) = settled_events s"
  "settled_events (s\<lparr>rc_identity := i\<rparr>) = settled_events s" "settled_events (s\<lparr>rc_held := b\<rparr>) = settled_events s"
  "settled_events (s\<lparr>rc_room := r\<rparr>) = settled_events s" "settled_events (s\<lparr>rc_meta := v\<rparr>) = settled_events s"
  by (simp_all add: settled_events_def)

lemma checked_ok:
  assumes "checked verify s line = Some (AckOk i)" and "rc_nonce s = Some n"
  shows "vouches verify n i \<and> (rc_pin s = None \<or> rc_pin s = Some (ri_pubkey i))"
proof -
  obtain frame where "verifyRelayIdentityAck verify frame n (rc_pin s) = AckOk i"
    using assms by (simp add: checked_def split: option.split_asm if_split_asm)
  then show ?thesis by (rule verify_ok)
qed

lemma ident_line:
  assumes p: "rc_phase s = Ready" and v: "ident_inv verify pin s" and n: "rc_nonce s \<noteq> None"
  shows "ident_inv verify pin (process_line verify line s)"
proof -
  obtain q where q: "rc_nonce s = Some q" using n by auto
  have pin: "rc_pin s = pin" using v by (simp add: ident_inv_def)
  have new: "vouches verify q i \<and> (pin = None \<or> pin = Some (ri_pubkey i))" if "checked verify s line = Some (AckOk i)" for i
    using checked_ok [OF that q] pin by simp
  have i: "rc_identity (process_line verify line s) = rc_identity s \<or>
      (\<exists>i. rc_identity (process_line verify line s) = Some i \<and> checked verify s line = Some (AckOk i))"
    by (simp add: process_line_checked ws_terminate_def stopLiveness_def split: option.split ack_check.split)
  show ?thesis unfolding ident_inv_def process_line_keeps using i v new p q by (auto simp: ident_inv_def)
qed

lemma ident_lines: "rc_phase s = Ready \<Longrightarrow> ident_inv verify pin s \<Longrightarrow> rc_nonce s \<noteq> None \<Longrightarrow> ident_inv verify pin (fold (process_line verify) ls s)"
  by (induction ls arbitrary: s) (simp_all add: ident_line process_line_keeps)

lemma process_line_settled: "settled_events (process_line verify line s) = settled_events s"
  by (simp add: process_line_checked ws_terminate_def stopLiveness_def split: option.split ack_check.split)

lemma client_line:
  assumes "client_inv s" and "rc_phase s = Ready"
  shows "client_inv (process_line verify line s)"
  using assms unfolding client_inv_def process_line_keeps process_line_effect process_line_settled by auto

lemma client_lines: "client_inv s \<Longrightarrow> rc_phase s = Ready \<Longrightarrow> client_inv (fold (process_line verify) ls s)"
  by (induction ls arbitrary: s) (simp_all add: client_line process_line_keeps)

definition nonce_inv :: "relay_client \<Rightarrow> bool" where
  "nonce_inv s \<longleftrightarrow> (rc_phase s = Ready \<longrightarrow> rc_nonce s \<noteq> None)"

lemma challenge_cases:
  "(\<exists>err. on_challenge sign raw now s = auth_failed err s) \<or>
   (\<exists>n line. n \<noteq> [] \<and> on_challenge sign raw now s = authenticated n line now s)"
proof (cases "json_parse raw")
  case (Some v)
  have two: "\<exists>err. (if b then auth_failed e1 s else auth_failed e2 s) = auth_failed err s" for b e1 e2 by (cases b) auto
  show ?thesis
  proof (cases "v = JNull \<or> jget v ''type'' = JStr ''error''")
    case True
    then show ?thesis unfolding on_challenge_def Some option.case by (cases v) auto
  next
    case False
    then have o: "on_challenge sign raw now s = (case (jget v ''type'', jget v ''nonce'') of
        (JStr t, JStr (c # n)) \<Rightarrow>
          if t \<noteq> ''challenge'' then auth_failed NotAChallenge s
          else authenticated (c # n) (stringify (auth_jv (sign (snd (rc_keys s)) (from_base64 (c # n))))) now s
      | _ \<Rightarrow> auth_failed NotAChallenge s)"
      unfolding on_challenge_def Some option.case by (cases v) simp_all
    show ?thesis
    proof (cases "\<exists>t c n. jget v ''type'' = JStr t \<and> jget v ''nonce'' = JStr (c # n)")
      case True
      then obtain t c n where f: "jget v ''type'' = JStr t" "jget v ''nonce'' = JStr (c # n)" by blast
      show ?thesis
      proof (cases "t = ''challenge''")
        case True
        then show ?thesis unfolding o f by (intro disjI2 exI [of _ "c # n"] exI conjI) simp_all
      qed (simp add: o f, blast)
    next
      case False
      then have "on_challenge sign raw now s = auth_failed NotAChallenge s" unfolding o
        by (cases "jget v ''type''"; simp; cases "jget v ''nonce''"; simp split: list.split)
      then show ?thesis by blast
    qed
  qed
qed (auto simp: on_challenge_def)

lemma message_cases:
  "(\<exists>err. on_message sign verify raw now s = auth_failed err s \<and> rc_phase s = WaitChallenge) \<or>
   (\<exists>n line. n \<noteq> [] \<and> on_message sign verify raw now s = authenticated n line now s \<and> rc_phase s = WaitChallenge) \<or>
   (rc_phase s = Ready \<and> on_message sign verify raw now s = fold (process_line verify) (frame_lines raw) (s\<lparr>rc_last := now\<rparr>)) \<or>
   on_message sign verify raw now s = s"
  using challenge_cases [of sign raw now s] by (cases "rc_phase s") (auto simp: on_message_def)

lemmas client_ops = connect_def on_open_def authenticated_def auth_failed_def settle_connect_def rawSend_def ws_terminate_def startLiveness_def
  stopLiveness_def on_auth_timeout_def on_error_def on_ping_def on_close_def liveness_tick_def send_line_def sendControl_def close_client_def Let_def

lemma step_pin: "rc_pin (rc_step sign verify i s) = rc_pin s"
proof (cases i)
  case (RcMessage raw now)
  show ?thesis unfolding RcMessage rc_step.simps
    using message_cases [of sign verify raw now s] by (auto simp: client_ops process_lines_keep)
qed (simp_all add: client_ops)

lemma step_ident:
  assumes v: "ident_inv verify pin s" and n: "nonce_inv s"
  shows "ident_inv verify pin (rc_step sign verify i s) \<and> nonce_inv (rc_step sign verify i s)"
proof (cases i)
  case (RcMessage raw now)
  have r: "ident_inv verify pin (fold (process_line verify) ls (s\<lparr>rc_last := now\<rparr>))" if "rc_phase s = Ready" for ls
    using that v n by (intro ident_lines) (auto simp: ident_inv_def nonce_inv_def)
  show ?thesis unfolding RcMessage rc_step.simps
    using message_cases [of sign verify raw now s] v n r
    by (elim disjE exE conjE) (simp_all add: client_ops ident_inv_def nonce_inv_def process_lines_keep)
qed (use v n in \<open>simp_all add: client_ops ident_inv_def nonce_inv_def\<close>)

lemma step_client:
  assumes v: "client_inv s"
  shows "client_inv (rc_step sign verify i s)"
proof (cases i)
  case (RcMessage raw now)
  have r: "client_inv (fold (process_line verify) ls (s\<lparr>rc_last := now\<rparr>))" if "rc_phase s = Ready" for ls
    using that v by (intro client_lines) (simp_all add: client_inv_def)
  show ?thesis unfolding RcMessage rc_step.simps
    using message_cases [of sign verify raw now s] v r
    by (elim disjE exE conjE) (auto simp: client_ops client_inv_def)
qed (use v in \<open>auto simp: client_ops client_inv_def\<close>)

lemma failed_phase [simp]: "rc_phase (auth_failed err s) = Failed"
  by (cases "rc_settled s") (simp_all add: client_ops)

lemma authenticated_phase [simp]: "rc_phase (authenticated n line now s) = Ready"
  "rc_last (authenticated n line now s) = now"
  by (simp_all add: client_ops)

lemma step_last:
  assumes v: "last_inv is s"
  shows "last_inv (is @ [i]) (rc_step sign verify i s)"
proof (cases i)
  case (RcMessage raw now)
  then have a: "last_arrival (is @ [i]) = Some now" by (simp add: last_arrival_snoc)
  have "rc_last (rc_step sign verify i s) = now \<or> rc_phase (rc_step sign verify i s) \<noteq> Ready \<or> rc_sock (rc_step sign verify i s) \<noteq> SOpen"
  proof (cases "rc_phase s")
    case WaitChallenge
    then have "rc_step sign verify i s = on_challenge sign raw now s" using RcMessage by (simp add: on_message_def)
    then show ?thesis using challenge_cases [of sign raw now s] by (elim disjE exE conjE) simp_all
  next
    case Ready
    then show ?thesis using RcMessage by (simp add: on_message_def process_lines_keep)
  qed (use RcMessage in \<open>simp_all add: on_message_def\<close>)
  then show ?thesis using a by (auto simp: last_inv_def)
next
  case (RcSend line)
  then show ?thesis using v by (simp add: last_inv_def last_arrival_snoc client_ops)
qed (use v in \<open>auto simp: client_ops last_inv_def last_arrival_snoc\<close>)

lemma run_snoc: "rc_run sign verify (is @ [i]) s = rc_step sign verify i (rc_run sign verify is s)"
  by (simp add: rc_run_def)

lemma run_facts:
  "rc_pin (rc_run sign verify is (new_client keys pin)) = pin \<and> ident_inv verify pin (rc_run sign verify is (new_client keys pin)) \<and>
   nonce_inv (rc_run sign verify is (new_client keys pin)) \<and> client_inv (rc_run sign verify is (new_client keys pin)) \<and>
   last_inv is (rc_run sign verify is (new_client keys pin))"
proof (induction "is" rule: rev_induct)
  case Nil
  show ?case by (simp add: rc_run_def new_client_def ident_inv_def nonce_inv_def client_inv_def last_inv_def settled_events_def)
next
  case (snoc i js)
  then show ?case unfolding run_snoc
    using step_ident [of verify pin "rc_run sign verify js (new_client keys pin)" sign i] step_client step_last by (simp add: step_pin)
qed

lemma unopened:
  assumes "RcOpen \<notin> set is" and "RcError \<notin> set is"
  shows "rc_phase (rc_run sign verify is (new_client keys pin)) \<in> {Fresh, WaitOpen} \<and>
    \<not> rc_settled (rc_run sign verify is (new_client keys pin))"
  using assms
proof (induction "is" rule: rev_induct)
  case Nil
  show ?case by (simp add: rc_run_def new_client_def)
next
  case (snoc i js)
  let ?s = "rc_run sign verify js (new_client keys pin)"
  have v: "rc_phase ?s = Fresh \<or> rc_phase ?s = WaitOpen" "\<not> rc_settled ?s" "i \<noteq> RcOpen" "i \<noteq> RcError" using snoc by auto
  show ?case unfolding run_snoc using v by (cases i) (auto simp: client_ops on_message_def)
qed

section \<open>What a client guarantees\<close>

text \<open>C31: the identity a client reports was vouched for on its own connection. After any sequence of events of a new client,
  a recorded identity carries a signature that verifies, under a key of 32 bytes, for the nonce of the challenge that this connection answered, and its key
  is the pinned one where a pin was given. Before authentication there is none.\<close>

theorem identity_bound:
  assumes "s = rc_run sign verify is (new_client keys pin)" and "rc_identity s = Some i"
  shows "rc_phase s = Ready \<and> (\<exists>n. rc_nonce s = Some n \<and> vouches verify n i) \<and> (pin = None \<or> pin = Some (ri_pubkey i))"
  using run_facts [of sign verify "is" keys pin] assms by (auto simp: ident_inv_def)

text \<open>C33: a silent connection is given up, and only a silent one. Take an authenticated connection that is still open
  after any sequence of events, in which a frame or a ping arrived at time \<open>t\<close> and none after it. Its timer runs.
  When it fires at most 70 seconds after \<open>t\<close>, nothing happens, however long the silence before \<open>t\<close> was: a frame and
  a ping each count as a sign of life. When it fires later, the socket can no longer be written, and its closing
  is told to the owner, once.\<close>

theorem silent_connection_closed:
  assumes s: "s = rc_run sign verify (before @ i # quiet) (new_client keys pin)" and t: "arrival i = Some t"
    and q: "\<forall>j \<in> set quiet. arrival j = None" and r: "rc_phase s = Ready" and o: "isOpen s"
  shows "rc_timer s \<and> (now - t \<le> 70000 \<longrightarrow> liveness_tick now s = s) \<and>
    (now - t > 70000 \<longrightarrow>
       send_line line (liveness_tick now s) = None \<and>
       rc_log (on_close (liveness_tick now s)) = rc_log s @ [Terminated, EmittedClose] \<and>
       rc_log (on_close (on_close (liveness_tick now s))) = rc_log s @ [Terminated, EmittedClose])"
proof -
  have "rc_timer s" and "rc_last s = t"
    using run_facts [of sign verify "before @ i # quiet" keys pin] last_arrival_quiet [OF t q, of before] r o unfolding s[symmetric]
    by (simp_all add: client_inv_def last_inv_def isOpen_def)
  then show ?thesis using r o by (auto simp: client_ops LIVENESS_TIMEOUT_MS_def isOpen_def)
qed

text \<open>A connection attempt ends at most once, and ends for sure once the socket is open. Its promise is settled at most once, and is settled when
  the client is authenticated or has failed. When the socket has opened and no challenge has come, the timeout fails the attempt and gives the socket up, and so
  does any first frame, unless it is a challenge. But the timeout starts at the opening: until the socket opens or fails, nothing else
  that happens, such as closing the client, settles the promise.\<close>

theorem connect_settles:
  assumes "s = rc_run sign verify is (new_client keys pin)"
  shows "settled_events s \<le> 1 \<and> (rc_phase s \<in> {Ready, Failed} \<longrightarrow> settled_events s = 1) \<and>
    (rc_phase s = WaitChallenge \<longrightarrow>
       rc_phase (rc_step sign verify RcAuthTimeout s) = Failed \<and> rc_sock (rc_step sign verify RcAuthTimeout s) \<noteq> SOpen \<and>
       rc_phase (rc_step sign verify (RcMessage raw now) s) \<in> {Ready, Failed} \<and>
       settled_events (rc_step sign verify (RcMessage raw now) s) = 1) \<and>
    (RcOpen \<notin> set is \<and> RcError \<notin> set is \<longrightarrow> settled_events s = 0)"
proof -
  have c: "client_inv s" using run_facts [of sign verify "is" keys pin] unfolding assms by simp
  have p: "rc_phase (rc_step sign verify (RcMessage raw now) s) \<in> {Ready, Failed}" if "rc_phase s = WaitChallenge"
    using that challenge_cases [of sign raw now s] by (auto simp: on_message_def)
  have q: "settled_events (rc_step sign verify (RcMessage raw now) s) = 1" if "rc_phase s = WaitChallenge"
    using step_client [OF c, of sign verify "RcMessage raw now"] p [OF that] by (auto simp: client_inv_def)
  have u: "settled_events s = 0" if "RcOpen \<notin> set is \<and> RcError \<notin> set is"
    using unopened [of "is" sign verify keys pin] that c unfolding assms by (auto simp: client_inv_def)
  show ?thesis using c p q u by (auto simp: client_inv_def client_ops)
qed

section \<open>A client and its relay\<close>

definition demo_ack_sign :: "byte list \<Rightarrow> byte list \<Rightarrow> byte list" where
  "demo_ack_sign key msg = msg"

definition demo_ack_verify :: verifier where
  "demo_ack_verify key msg sg = Some (sg = [1])"

definition demo_challenge :: string where
  "demo_challenge = stringify (JObj [(''type'', JStr ''challenge''), (''nonce'', JStr ''AAAA'')])"

definition demo_ack :: "byte list \<Rightarrow> string" where
  "demo_ack sg = stringify (JObj [(''type'', JStr ''identity_ack''), (''relay_pubkey'', JStr (b64_encode (replicate 32 7))),
     (''nonce'', JStr ''AAAA''), (''sig'', JStr (b64_encode sg))])"

definition demo_client_inputs :: "rc_input list" where
  "demo_client_inputs = [RcConnect None None, RcOpen, RcMessage demo_challenge 5, RcMessage (demo_ack [1]) 9]"

definition demo_client :: relay_client where
  "demo_client = rc_run demo_ack_sign demo_ack_verify demo_client_inputs (new_client ([], []) (Some (b64_encode (replicate 32 7))))"

lemma demo_challenge_parsed:
  "json_parse demo_challenge = Some (JObj [(''type'', JStr ''challenge''), (''nonce'', JStr ''AAAA'')])"
  unfolding demo_challenge_def by (rule json_parse_text) simp

lemma demo_ack_parsed:
  "json_parse (demo_ack sg) = Some (JObj [(''type'', JStr ''identity_ack''), (''relay_pubkey'', JStr (b64_encode (replicate 32 7))),
     (''nonce'', JStr ''AAAA''), (''sig'', JStr (b64_encode sg))])"
  unfolding demo_ack_def by (rule json_parse_text) simp

lemma demo_key_length: "from_base64 (b64_encode (replicate 32 7)) = replicate 32 7"
  by code_simp

lemma demo_sig: "from_base64 (b64_encode [1]) = [1]"
  by code_simp

lemma demo_ack_lines: "frame_lines (demo_ack [1]) = [demo_ack [1]]"
  by code_simp

lemma demo_ack_mentions: "mentions_ack (demo_ack [1])"
  by code_simp

lemma demo_ack_checked:
  assumes "rc_nonce s = Some ''AAAA''"
    and "rc_pin s = Some (b64_encode (replicate 32 7))"
  shows "checked demo_ack_verify s (demo_ack [1]) =
    Some (AckOk \<lparr>ri_pubkey = b64_encode (replicate 32 7), ri_name = [], ri_url = [], ri_endpoints = []\<rparr>)"
proof -
  define pk sg where "pk = b64_encode (replicate 32 7)" and "sg = b64_encode [1]"
  have k: "pk \<noteq> []" "from_base64 pk = replicate 32 7" "sg \<noteq> []" "from_base64 sg = [1]"
    unfolding pk_def sg_def demo_key_length demo_sig by code_simp+
  show ?thesis unfolding checked_def demo_ack_parsed pk_def[symmetric] sg_def[symmetric]
    using assms [folded pk_def] by (simp add: verifyRelayIdentityAck_def Let_def str_field_def filled_def k demo_ack_verify_def endpoints_of_def)
qed

lemma demo_client_value:
  "rc_identity demo_client = Some \<lparr>ri_pubkey = b64_encode (replicate 32 7), ri_name = [], ri_url = [], ri_endpoints = []\<rparr> \<and>
   rc_phase demo_client = Ready \<and> rc_sock demo_client = SOpen \<and> rc_held demo_client \<and> rc_last demo_client = 9 \<and>
   rc_nonce demo_client = Some ''AAAA'' \<and> rc_pin demo_client = Some (b64_encode (replicate 32 7))"
  by (simp add: demo_client_def rc_run_def demo_client_inputs_def new_client_def on_message_def on_challenge_def demo_challenge_parsed client_ops
      process_line_checked demo_ack_lines demo_ack_mentions demo_ack_checked)

theorem frame_handed_on_witness:
  "emitted (on_message demo_ack_sign demo_ack_verify (demo_ack [1]) 12 demo_client) =
     emitted demo_client @ filter (passes demo_ack_verify demo_client) (frame_lines (demo_ack [1]))"
  using frame_handed_on [of demo_client demo_ack_sign demo_ack_verify "demo_ack [1]" 12] demo_client_value by simp

theorem identity_bound_witness: "\<exists>n. rc_nonce demo_client = Some n \<and>
    vouches demo_ack_verify n \<lparr>ri_pubkey = b64_encode (replicate 32 7), ri_name = [], ri_url = [], ri_endpoints = []\<rparr>"
  using identity_bound [OF demo_client_def] demo_client_value by blast

text \<open>A ping a minute after the acknowledgement: a tick at second 90 leaves the connection alone, one at second 140 ends it.\<close>

definition pinged_client :: relay_client where
  "pinged_client = on_ping 60000 demo_client"

theorem silent_connection_closed_witness:
  "liveness_tick 90000 pinged_client = pinged_client \<and>
   rc_log (on_close (liveness_tick 140000 pinged_client)) = rc_log pinged_client @ [Terminated, EmittedClose]"
proof -
  have s: "pinged_client = rc_run demo_ack_sign demo_ack_verify (demo_client_inputs @ RcPing 60000 # []) (new_client ([], []) (Some (b64_encode (replicate 32 7))))"
    by (simp add: pinged_client_def demo_client_def rc_run_def)
  have "rc_phase pinged_client = Ready" "isOpen pinged_client"
    using demo_client_value by (simp_all add: pinged_client_def on_ping_def isOpen_def)
  then show ?thesis
    using silent_connection_closed [OF s, of 60000 90000 "[]"] silent_connection_closed [OF s, of 60000 140000 "[]"] by simp
qed

theorem connect_settles_witness: "settled_events demo_client = 1"
  using connect_settles [OF demo_client_def] demo_client_value by simp

end
