(* ===== verification/SessionPeer.thy ===== *)
theory SessionPeer
  imports BrokerProps
begin

text \<open>
  A client of the local mesh: \<^verbatim>\<open>extension/src/session/peer.ts\<close>.

  The record \<open>session_peer\<close> is the state of one \<^verbatim>\<open>SessionPeer\<close>. Its steps are the calls of its owner and what happens to it: data
  or the close of a socket, a timer, the outcome of an election, of a connection. An asynchronous function is cut where it waits
  for such an outcome; what it does then is a task (\<open>sp_task\<close>). An \<open>await\<close> of something already settled is no cut,
  except that the code after a registration runs as a task, because it runs after the rest of the data that settled it. The election
  itself is in the theory \<^verbatim>\<open>Election\<close>, the other end of the socket in \<^verbatim>\<open>Broker\<close>; here a broker of one's own and a socket are numbers. The inode
  that \<^verbatim>\<open>lstatSync\<close> reports, \<open>None\<close> when it throws, is an input. Bodies are JSON values. The handlers of messages are one
  event.
\<close>

section \<open>State\<close>

datatype ack_outcome = AckReceived | AckBusy | AckDenied | AckTimeout | AckUnknown

record ack_result =
  ar_status :: ack_outcome
  ar_id :: string
  ar_target :: "string option"
  ar_reason :: "transport_reason option"

datatype call_error = CallTimeout | PeerLeaving | NotConnected | TransportFailed transport_reason string

datatype join_error = ElectionFailed | LoopbackFailed | AckLate | BadAck

datatype join_for = ForStart | ForRename | ForFailover | ForDisplaced

datatype sp_role = Leader | Follower

datatype sp_task =
    Joining join_for
  | Loopback join_for
  | Joined join_for sp_role string
  | NotJoined join_for join_error
  | FailoverDelay nat
  | ReelectDelay

datatype sp_event =
    Sent nat string
  | SocketDestroyed nat
  | Asked string
  | Answered string envelope
  | AskFailed string call_error
  | AckWanted string
  | AckGiven ack_result
  | Dispatched envelope
  | JoinDone join_for string
  | JoinFailed join_for join_error
  | Reconnected
  | RenameDone string
  | RenameFailed
  | BrokerClosed nat
  | BrokerOrphaned nat

record session_peer =
  so_name :: string
  so_cwd :: "string option"
  so_takeover :: bool
  so_watchMs :: int
  sp_name :: string
  sp_address :: string
  sp_role :: sp_role
  sp_broker :: "nat option"
  sp_socket :: "nat option"
  sp_open :: "nat list"
  sp_buf :: string
  sp_pending :: "(string, unit) jsmap"
  sp_acks :: "(string, string) jsmap"
  sp_left :: bool
  sp_ino :: "nat option"
  sp_watch :: bool
  sp_reelect :: bool
  sp_preAck :: "nat option"
  sp_regs :: "(nat, join_for \<times> sp_role) jsmap"
  sp_control :: "nat option"
  sp_renames :: "nat list"
  sp_next :: nat
  sp_tasks :: "sp_task list"
  sp_log :: "sp_event list"

definition new_peer :: "string \<Rightarrow> string option \<Rightarrow> bool \<Rightarrow> int \<Rightarrow> session_peer" where
  "new_peer nm cwd takeover watchMs =
     \<lparr>so_name = nm, so_cwd = cwd, so_takeover = takeover, so_watchMs = watchMs, sp_name = nm, sp_address = nm, sp_role = Follower,
      sp_broker = None, sp_socket = None, sp_open = [], sp_buf = [], sp_pending = [], sp_acks = [], sp_left = False, sp_ino = None,
      sp_watch = False, sp_reelect = False, sp_preAck = None, sp_regs = [], sp_control = None, sp_renames = [], sp_next = 0,
      sp_tasks = [], sp_log = []\<rparr>"

definition peer_say :: "sp_event \<Rightarrow> session_peer \<Rightarrow> session_peer" where
  "peer_say e s = s\<lparr>sp_log := sp_log s @ [e]\<rparr>"

definition add_task :: "sp_task \<Rightarrow> session_peer \<Rightarrow> session_peer" where
  "add_task t s = s\<lparr>sp_tasks := sp_tasks s @ [t]\<rparr>"

definition drop_task :: "sp_task \<Rightarrow> session_peer \<Rightarrow> session_peer" where
  "drop_task t s = s\<lparr>sp_tasks := remove1 t (sp_tasks s)\<rparr>"

definition sock_write :: "nat \<Rightarrow> string \<Rightarrow> session_peer \<Rightarrow> session_peer" where
  "sock_write k line s = (if k \<in> set (sp_open s) then peer_say (Sent k line) s else s)"

section \<open>Acknowledgements\<close>

definition hasExactAckType :: "jv \<Rightarrow> bool" where
  "hasExactAckType body = (is_objlike body \<and> has_own body ''type'' \<and> jget body ''type'' = JStr ''ack'')"

definition ack_status_of :: "string \<Rightarrow> ack_outcome option" where
  "ack_status_of t =
     (if t = ''received'' then Some AckReceived else if t = ''busy'' then Some AckBusy
      else if t = ''denied'' then Some AckDenied else if t = ''unknown_peer'' then Some AckUnknown else None)"

definition asAckBody :: "jv \<Rightarrow> (ack_outcome \<times> string) option" where
  "asAckBody body =
     (if \<not> hasExactAckType body \<or> \<not> has_own body ''status'' \<or> \<not> has_own body ''target'' then None
      else (case (jget body ''status'', jget body ''target'') of
              (JStr t, JStr target) \<Rightarrow> map_option (\<lambda>st. (st, target)) (ack_status_of t)
            | _ \<Rightarrow> None))"

definition expectedAckSender :: "string \<Rightarrow> string" where
  "expectedAckSender dst =
     (if dst = [] \<or> CHR '':'' \<notin> set dst \<or> starts_with ''/'' dst \<or> isWindowsDriveAbsolutePath dst \<or> starts_with [BSL, BSL] dst
      then BROKER_NAME
      else (let label = takeWhile (\<lambda>c. c \<noteq> CHR '':'') dst; rest = drop (length label + 1) dst
            in if label \<noteq> [] \<and> rest \<noteq> [] \<and> \<not> list_ex line_terminator (chars rest) then label @ '':broker'' else BROKER_NAME))"

section \<open>Messages\<close>

text \<open>
  Writing an envelope: \<open>None\<close> is the exception \<^verbatim>\<open>session peer not connected\<close>. The name and the id of the envelope are those
  of the moment of the call.
\<close>

definition writeEnvelope :: "envelope \<Rightarrow> session_peer \<Rightarrow> session_peer option" where
  "writeEnvelope env s =
     (case sp_socket s of
        None \<Rightarrow> None
      | Some k \<Rightarrow> if k \<notin> set (sp_open s) then None else Some (sock_write k (serialize env) s))"

definition send_env :: "string \<Rightarrow> dest \<Rightarrow> jv \<Rightarrow> string option \<Rightarrow> session_peer \<Rightarrow> session_peer option" where
  "send_env uid to body re s = writeEnvelope (mk_envelope uid (sp_name s) to body re) s"

definition give_ack :: "ack_outcome \<Rightarrow> string \<Rightarrow> string option \<Rightarrow> transport_reason option \<Rightarrow> session_peer \<Rightarrow> session_peer" where
  "give_ack st uid target reason s =
     peer_say (AckGiven \<lparr>ar_status = st, ar_id = uid, ar_target = target, ar_reason = reason\<rparr>) (s\<lparr>sp_acks := mdel uid (sp_acks s)\<rparr>)"

definition ack_timed_out :: "string \<Rightarrow> session_peer \<Rightarrow> session_peer" where
  "ack_timed_out uid s = (if mhas (sp_acks s) uid then give_ack AckTimeout uid None None s else s)"

definition sendWithAck :: "string \<Rightarrow> string \<Rightarrow> jv \<Rightarrow> string option \<Rightarrow> session_peer \<Rightarrow> session_peer" where
  "sendWithAck uid to body re s =
     (let s1 = peer_say (AckWanted uid) (s\<lparr>sp_acks := mput uid (expectedAckSender to) (sp_acks s)\<rparr>)
      in case send_env uid (ToName to) body re s1 of Some s2 \<Rightarrow> s2 | None \<Rightarrow> give_ack AckTimeout uid None None s1)"

definition fail_call :: "call_error \<Rightarrow> string \<Rightarrow> session_peer \<Rightarrow> session_peer" where
  "fail_call err uid s = peer_say (AskFailed uid err) (s\<lparr>sp_pending := mdel uid (sp_pending s)\<rparr>)"

definition request_timed_out :: "string \<Rightarrow> session_peer \<Rightarrow> session_peer" where
  "request_timed_out uid s = (if mhas (sp_pending s) uid then fail_call CallTimeout uid s else s)"

definition request :: "string \<Rightarrow> string \<Rightarrow> jv \<Rightarrow> session_peer \<Rightarrow> session_peer" where
  "request uid to body s =
     (let s1 = peer_say (Asked uid) (s\<lparr>sp_pending := mput uid () (sp_pending s)\<rparr>)
      in case send_env uid (ToName to) body None s1 of Some s2 \<Rightarrow> s2 | None \<Rightarrow> fail_call NotConnected uid s1)"

definition consumeAckTransportError :: "string \<Rightarrow> transport_reason \<Rightarrow> session_peer \<Rightarrow> session_peer" where
  "consumeAckTransportError correlationId reason s =
     (let uid = lower correlationId
      in if \<not> mhas (sp_acks s) uid then s
         else give_ack (case reason of UnknownPeer \<Rightarrow> AckUnknown | Offline \<Rightarrow> AckTimeout | _ \<Rightarrow> AckDenied) uid None (Some reason) s)"

definition rejectRequestTransportError :: "string \<Rightarrow> transport_reason \<Rightarrow> session_peer \<Rightarrow> session_peer" where
  "rejectRequestTransportError correlationId reason s =
     (let uid = lower correlationId
      in if \<not> mhas (sp_pending s) uid then s else fail_call (TransportFailed reason uid) uid s)"

section \<open>Registration\<close>

definition register_line :: "session_peer \<Rightarrow> string" where
  "register_line s =
     serialize_jv (JObj ([(''type'', JStr ''register''), (''name'', JStr (so_name s))] @
       (case so_cwd s of None \<Rightarrow> [] | Some d \<Rightarrow> [(''cwd'', JStr d)]) @
       (if so_takeover s then [(''takeover'', JBool True)] else [])))"

definition wireSocket :: "nat \<Rightarrow> session_peer \<Rightarrow> session_peer" where
  "wireSocket k s = s\<lparr>sp_socket := Some k, sp_buf := [], sp_open := k # sp_open s\<rparr>"

definition registerOver :: "join_for \<Rightarrow> sp_role \<Rightarrow> nat \<Rightarrow> session_peer \<Rightarrow> session_peer" where
  "registerOver why r k s =
     sock_write k (register_line s)
       (s\<lparr>sp_preAck := Some (sp_next s), sp_regs := mput (sp_next s) (why, r) (sp_regs s), sp_next := sp_next s + 1\<rparr>)"

text \<open>The promise of a registration: settled once, its timer cleared by the listener.\<close>

definition reg_settle :: "nat \<Rightarrow> (join_error + string) \<Rightarrow> session_peer \<Rightarrow> session_peer" where
  "reg_settle n out s =
     (case mget (sp_regs s) n of
        None \<Rightarrow> s
      | Some (why, r) \<Rightarrow>
          add_task (case out of Inr nm \<Rightarrow> Joined why r nm | Inl err \<Rightarrow> NotJoined why err) (s\<lparr>sp_regs := mdel n (sp_regs s)\<rparr>))"

definition ack_field :: "jv \<Rightarrow> string \<Rightarrow> string \<Rightarrow> jv" where
  "ack_field v k k' = (case jget v k of JStr x \<Rightarrow> JStr x | _ \<Rightarrow> jget v k')"

definition preAckListener :: "nat \<Rightarrow> jv \<Rightarrow> session_peer \<Rightarrow> session_peer" where
  "preAckListener n ack s =
     (case (jget ack ''type'' = JStr ''register_ack'', ack_field ack ''name_assigned'' ''address_assigned'',
            ack_field ack ''address_assigned'' ''name_assigned'') of
        (True, JStr nm, JStr address) \<Rightarrow> reg_settle n (Inr nm) (s\<lparr>sp_name := nm, sp_address := address, sp_preAck := None\<rparr>)
      | _ \<Rightarrow> reg_settle n (Inl BadAck) s)"

definition register_timed_out :: "nat \<Rightarrow> session_peer \<Rightarrow> session_peer" where
  "register_timed_out n s = reg_settle n (Inl AckLate) s"

section \<open>Renaming in place\<close>

definition renameInPlace :: "string \<Rightarrow> session_peer \<Rightarrow> session_peer" where
  "renameInPlace newName s =
     (let s1 = s\<lparr>sp_control := Some (sp_next s), sp_renames := sp_next s # sp_renames s, sp_next := sp_next s + 1\<rparr>
      in case sp_socket s of
           None \<Rightarrow> s1
         | Some k \<Rightarrow> sock_write k (serialize_jv (JObj [(''type'', JStr ''rename''), (''name'', JStr newName)])) s1)"

definition rename_timed_out :: "nat \<Rightarrow> session_peer \<Rightarrow> session_peer" where
  "rename_timed_out n s =
     (if n \<notin> set (sp_renames s) then s
      else peer_say RenameFailed (s\<lparr>sp_control := None, sp_renames := removeAll n (sp_renames s)\<rparr>))"

definition controlListener :: "nat \<Rightarrow> jv \<Rightarrow> session_peer \<Rightarrow> session_peer" where
  "controlListener n ack s =
     (let s1 = s\<lparr>sp_renames := removeAll n (sp_renames s)\<rparr>; live = n \<in> set (sp_renames s)
      in case jget ack ''name_assigned'' of
           JStr nm \<Rightarrow> (if live then peer_say (RenameDone nm) else (\<lambda>x. x)) (s1\<lparr>sp_name := nm, so_name := nm\<rparr>)
         | _ \<Rightarrow> (if live then peer_say RenameFailed else (\<lambda>x. x)) s1)"

section \<open>What arrives\<close>

definition dispatchToHandlers :: "envelope \<Rightarrow> session_peer \<Rightarrow> session_peer" where
  "dispatchToHandlers env s = peer_say (Dispatched env) s"

definition ends_with :: "string \<Rightarrow> string \<Rightarrow> bool" where
  "ends_with w s \<longleftrightarrow> starts_with (rev w) (rev s)"

definition handle_ack :: "envelope \<Rightarrow> session_peer \<Rightarrow> session_peer" where
  "handle_ack env s =
     (case (e_re env, asAckBody (e_body env)) of
        (Some uid, Some (st, target)) \<Rightarrow>
          if mget (sp_acks s) uid = Some (e_from env) then give_ack st uid (Some target) None s else s
      | _ \<Rightarrow> s)"

definition handle_reply :: "envelope \<Rightarrow> session_peer \<Rightarrow> session_peer" where
  "handle_reply env s =
     (case e_re env of
        Some uid \<Rightarrow>
          if mhas (sp_pending s) uid then peer_say (Answered uid env) (s\<lparr>sp_pending := mdel uid (sp_pending s)\<rparr>)
          else dispatchToHandlers env s
      | None \<Rightarrow> dispatchToHandlers env s)"

definition trusted_error :: "envelope \<Rightarrow> (string \<times> transport_reason) option" where
  "trusted_error env =
     (case (e_re env, as_transport_error_body (e_body env)) of
        (Some uid, Some reason) \<Rightarrow> if e_from env = BROKER_NAME then Some (uid, reason) else None
      | _ \<Rightarrow> None)"

definition handle_envelope :: "envelope \<Rightarrow> session_peer \<Rightarrow> session_peer" where
  "handle_envelope env s =
     (if has_transport_error_type (e_body env) then
        (case trusted_error env of
           Some (uid, reason) \<Rightarrow> rejectRequestTransportError uid reason (consumeAckTransportError uid reason s)
         | None \<Rightarrow> dispatchToHandlers env s)
      else if (e_from env = BROKER_NAME \<or> ends_with '':broker'' (e_from env)) \<and> hasExactAckType (e_body env) then handle_ack env s
      else handle_reply env s)"

definition sp_handleLine :: "string \<Rightarrow> session_peer \<Rightarrow> session_peer" where
  "sp_handleLine line s =
     (case sp_preAck s of
        Some n \<Rightarrow> (case json_parse line of Some v \<Rightarrow> preAckListener n v s | None \<Rightarrow> s)
      | None \<Rightarrow>
          (case (sp_control s, json_parse line) of
             (Some n, Some v) \<Rightarrow>
               if jget v ''type'' = JStr ''rename_ack'' then controlListener n v (s\<lparr>sp_control := None\<rparr>)
               else (case parse line of Inl _ \<Rightarrow> s | Inr env \<Rightarrow> handle_envelope env s)
           | _ \<Rightarrow> (case parse line of Inl _ \<Rightarrow> s | Inr env \<Rightarrow> handle_envelope env s)))"

definition sp_onData :: "string \<Rightarrow> session_peer \<Rightarrow> session_peer" where
  "sp_onData chunk s =
     (let (ls, rest) = take_lines (sp_buf s @ chunk)
      in fold sp_handleLine (filter (\<lambda>l. l \<noteq> []) ls) (s\<lparr>sp_buf := rest\<rparr>))"

section \<open>Teardown\<close>

definition stopDisplacementWatch :: "session_peer \<Rightarrow> session_peer" where
  "stopDisplacementWatch s = s\<lparr>sp_watch := False\<rparr>"

definition drop_socket :: "session_peer \<Rightarrow> session_peer" where
  "drop_socket s =
     (case sp_socket s of
        None \<Rightarrow> s
      | Some k \<Rightarrow> peer_say (SocketDestroyed k) (s\<lparr>sp_socket := None, sp_open := removeAll k (sp_open s)\<rparr>))"

definition drop_broker :: "nat option \<Rightarrow> session_peer \<Rightarrow> session_peer" where
  "drop_broker inode s =
     (case sp_broker s of
        None \<Rightarrow> s
      | Some b \<Rightarrow>
          (let fileOwned = (sp_ino s \<noteq> None \<and> inode = sp_ino s)
           in peer_say (if fileOwned then BrokerClosed b else BrokerOrphaned b) (s\<lparr>sp_broker := None\<rparr>)))"

definition teardownConn :: "nat option \<Rightarrow> session_peer \<Rightarrow> session_peer" where
  "teardownConn inode s =
     (let s1 = (stopDisplacementWatch s)\<lparr>sp_ino := None\<rparr>;
          s2 = fold (fail_call PeerLeaving) (mkeys (sp_pending s1)) s1;
          s3 = fold (\<lambda>uid. give_ack AckTimeout uid None None) (mkeys (sp_acks s2)) s2
      in drop_broker inode (drop_socket s3))"

section \<open>Joining\<close>

datatype elected_as = Leads nat | Follows nat | Fails

definition start :: "session_peer \<Rightarrow> session_peer" where
  "start s = add_task (Joining ForStart) s"

definition rename_peer :: "string \<Rightarrow> nat option \<Rightarrow> session_peer \<Rightarrow> session_peer" where
  "rename_peer newName inode s = add_task (Joining ForRename) ((teardownConn inode s)\<lparr>so_name := newName, sp_name := newName\<rparr>)"

definition leave :: "nat option \<Rightarrow> session_peer \<Rightarrow> session_peer" where
  "leave inode s = teardownConn inode (s\<lparr>sp_left := True\<rparr>)"

definition join_result_of :: "join_for \<Rightarrow> elected_as \<Rightarrow> session_peer \<Rightarrow> session_peer" where
  "join_result_of why out s =
     (case out of
        Fails \<Rightarrow> add_task (NotJoined why ElectionFailed) s
      | Leads b \<Rightarrow> add_task (Loopback why) (s\<lparr>sp_role := Leader, sp_broker := Some b\<rparr>)
      | Follows k \<Rightarrow> registerOver why Follower k (wireSocket k (s\<lparr>sp_role := Follower\<rparr>)))"

text \<open>The connection of a leader to its own server: \<open>None\<close> is an error of the socket.\<close>

definition loopback_result :: "join_for \<Rightarrow> nat option \<Rightarrow> session_peer \<Rightarrow> session_peer" where
  "loopback_result why k s =
     (case k of None \<Rightarrow> add_task (NotJoined why LoopbackFailed) s | Some k \<Rightarrow> registerOver why Leader k (wireSocket k s))"

definition startDisplacementWatch :: "nat option \<Rightarrow> session_peer \<Rightarrow> session_peer" where
  "startDisplacementWatch inode s =
     (let s1 = stopDisplacementWatch s in if so_watchMs s \<le> 0 then s1 else s1\<lparr>sp_ino := inode, sp_watch := True\<rparr>)"

definition joined :: "join_for \<Rightarrow> sp_role \<Rightarrow> string \<Rightarrow> nat option \<Rightarrow> session_peer \<Rightarrow> session_peer" where
  "joined why r nm inode s =
     (let s1 = (if r = Leader then startDisplacementWatch inode s else s)
      in case why of
           ForStart \<Rightarrow> peer_say (JoinDone why nm) s1
         | ForRename \<Rightarrow> peer_say (JoinDone why nm) s1
         | ForFailover \<Rightarrow> peer_say Reconnected s1
         | ForDisplaced \<Rightarrow> (peer_say Reconnected s1)\<lparr>sp_reelect := False\<rparr>)"

definition not_joined :: "join_for \<Rightarrow> join_error \<Rightarrow> session_peer \<Rightarrow> session_peer" where
  "not_joined why err s =
     (case why of
        ForStart \<Rightarrow> peer_say (JoinFailed why err) s
      | ForRename \<Rightarrow> peer_say (JoinFailed why err) s
      | ForFailover \<Rightarrow> s
      | ForDisplaced \<Rightarrow> s\<lparr>sp_reelect := False\<rparr>)"

section \<open>Failover and displacement\<close>

definition onSocketClose :: "nat \<Rightarrow> session_peer \<Rightarrow> session_peer" where
  "onSocketClose k s =
     (if sp_left s then s else if sp_socket s \<noteq> Some k then s else add_task (FailoverDelay k) s)"

definition failover :: "nat \<Rightarrow> session_peer \<Rightarrow> session_peer" where
  "failover k s = (if sp_left s \<or> sp_socket s \<noteq> Some k then s else add_task (Joining ForFailover) s)"

definition reelectAfterDisplacement :: "nat option \<Rightarrow> session_peer \<Rightarrow> session_peer" where
  "reelectAfterDisplacement inode s =
     add_task ReelectDelay ((teardownConn inode (stopDisplacementWatch s))\<lparr>sp_role := Follower, sp_broker := None\<rparr>)"

definition reelect_delayed :: "session_peer \<Rightarrow> session_peer" where
  "reelect_delayed s = (if sp_left s then s\<lparr>sp_reelect := False\<rparr> else add_task (Joining ForDisplaced) s)"

definition checkDisplacement :: "nat option \<Rightarrow> session_peer \<Rightarrow> session_peer" where
  "checkDisplacement inode s =
     (if sp_left s \<or> sp_role s \<noteq> Leader \<or> sp_broker s = None \<or> sp_reelect s then s
      else if inode \<noteq> None \<and> inode = sp_ino s then s
      else reelectAfterDisplacement inode (s\<lparr>sp_reelect := True\<rparr>))"

section \<open>The steps of a peer\<close>

datatype sp_input =
    PeStart
  | PeSend string dest jv "string option"
  | PeSendAck string string jv "string option"
  | PeRequest string string jv
  | PeRename string "nat option"
  | PeRenameInPlace string
  | PeLeave "nat option"
  | PeElected join_for elected_as
  | PeLoopback join_for "nat option"
  | PeResume sp_task "nat option"
  | PeData nat string
  | PeClosed nat
  | PeAckTimer string
  | PeCallTimer string
  | PeRegTimer nat
  | PeRenameTimer nat
  | PeWatch "nat option"

fun run_task :: "sp_task \<Rightarrow> nat option \<Rightarrow> session_peer \<Rightarrow> session_peer" where
  "run_task (Joined why r nm) inode s = joined why r nm inode s"
| "run_task (NotJoined why err) inode s = not_joined why err s"
| "run_task (FailoverDelay k) inode s = failover k s"
| "run_task ReelectDelay inode s = reelect_delayed s"
| "run_task (Joining why) inode s = s"
| "run_task (Loopback why) inode s = s"

fun waits_outside :: "sp_task \<Rightarrow> bool" where
  "waits_outside (Joining why) = True"
| "waits_outside (Loopback why) = True"
| "waits_outside _ = False"

fun sp_step :: "sp_input \<Rightarrow> session_peer \<Rightarrow> session_peer" where
  "sp_step PeStart s = start s"
| "sp_step (PeSend uid to body re) s = (case send_env uid to body re s of Some s' \<Rightarrow> s' | None \<Rightarrow> s)"
| "sp_step (PeSendAck uid to body re) s = sendWithAck uid to body re s"
| "sp_step (PeRequest uid to body) s = request uid to body s"
| "sp_step (PeRename nm inode) s = rename_peer nm inode s"
| "sp_step (PeRenameInPlace nm) s = renameInPlace nm s"
| "sp_step (PeLeave inode) s = leave inode s"
| "sp_step (PeElected why out) s =
     (if Joining why \<in> set (sp_tasks s) then join_result_of why out (drop_task (Joining why) s) else s)"
| "sp_step (PeLoopback why k) s =
     (if Loopback why \<in> set (sp_tasks s) then loopback_result why k (drop_task (Loopback why) s) else s)"
| "sp_step (PeResume t inode) s =
     (if t \<in> set (sp_tasks s) \<and> \<not> waits_outside t then run_task t inode (drop_task t s) else s)"
| "sp_step (PeData k chunk) s = (if k \<in> set (sp_open s) then sp_onData chunk s else s)"
| "sp_step (PeClosed k) s = (if k \<in> set (sp_open s) then onSocketClose k (s\<lparr>sp_open := removeAll k (sp_open s)\<rparr>) else s)"
| "sp_step (PeAckTimer uid) s = ack_timed_out uid s"
| "sp_step (PeCallTimer uid) s = request_timed_out uid s"
| "sp_step (PeRegTimer n) s = register_timed_out n s"
| "sp_step (PeRenameTimer n) s = rename_timed_out n s"
| "sp_step (PeWatch inode) s = (if sp_watch s then checkDisplacement inode s else s)"

definition sp_run :: "sp_input list \<Rightarrow> session_peer \<Rightarrow> session_peer" where
  "sp_run ins s = fold sp_step ins s"

end
