(* ===== verification/MeshNode.thy ===== *)
theory MeshNode
  imports SessionPeer BrokerRemote RelayLife
begin

text \<open>
  The node that joins the local mesh to the relay: \<^verbatim>\<open>extension/src/session/mesh_node.ts\<close>, with the bridge of
  \<^verbatim>\<open>session/bridge.ts\<close>.

  The record \<open>relay_node\<close> is one \<^verbatim>\<open>MeshNode\<close>; it contains its \<^verbatim>\<open>SessionPeer\<close>. Relays are the node's own, numbered as they are made, or
  the host's; a bridge is a number and the router inside it is told by events. An attempt to attach a bridge is
  cut at its three waits: for the keys, for the connection of a relay, for the bridge (\<open>attempt\<close>). The promise of the serialized loop is
  \<open>run_state\<close>: between the end of the loop and the callback that clears it, it counts as running, and the callers that wait for
  it go on later, each as a task. What the waits bring is an input, in particular the topology that discovery
  finds when the node has none, and whether activating the bridge throws. The room of a relay, a hash, and the log are left out.
\<close>

section \<open>Topology of a node\<close>

datatype node_error = NodeBad remote_error | TechnicalKeyChanged | KeyMismatch

fun own_siblings :: "nat \<Rightarrow> identity \<Rightarrow> string list \<Rightarrow> string list \<Rightarrow> identity list \<Rightarrow> remote_error + identity list" where
  "own_siblings n self keys aliases [] = Inr []"
| "own_siblings n self keys aliases (i # rest) =
     (case canonicalizeEd25519PublicKey (ri_pcPubkey i) (sibling_field n ''pcPubkey'') of
        Inl e \<Rightarrow> Inl (RemoteKey e)
      | Inr key \<Rightarrow>
          if key = ri_pcPubkey self then own_siblings (Suc n) self keys aliases rest
          else (case validateAlias (ri_pcLabel i) (sibling_field n ''pcLabel'') of
             Inl e \<Rightarrow> Inl e
           | Inr label \<Rightarrow>
               (case validateLegacyPcLabel (ri_legacyPcLabel i) (sibling_field n ''legacyPcLabel'') of
                  Inl e \<Rightarrow> Inl e
                | Inr legacy \<Rightarrow>
                    if label = ri_pcLabel self \<or> label \<in> set aliases then Inl DuplicateSiblingAlias
                    else if key \<in> set keys then Inl DuplicateSiblingKey
                    else (case own_siblings (Suc n) self (key # keys) (label # aliases) rest of
                            Inl e \<Rightarrow> Inl e
                          | Inr is' \<Rightarrow> Inr (\<lparr>ri_pcPubkey = key, ri_pcLabel = label, ri_legacyPcLabel = legacy\<rparr> # is')))))"

definition own_self :: "identity \<Rightarrow> remote_error + identity" where
  "own_self i =
     (case canonicalizeEd25519PublicKey (ri_pcPubkey i) ''self public key'' of
        Inl e \<Rightarrow> Inl (RemoteKey e)
      | Inr key \<Rightarrow>
          (case validateAlias (ri_pcLabel i) ''self.pcLabel'' of
             Inl e \<Rightarrow> Inl e
           | Inr label \<Rightarrow>
               (case validateLegacyPcLabel (ri_legacyPcLabel i) ''self.legacyPcLabel'' of
                  Inl e \<Rightarrow> Inl e
                | Inr legacy \<Rightarrow> Inr \<lparr>ri_pcPubkey = key, ri_pcLabel = label, ri_legacyPcLabel = legacy\<rparr>)))"

definition ownTopology :: "topology \<Rightarrow> remote_error + topology" where
  "ownTopology t =
     (case own_self (tp_self t) of
        Inl e \<Rightarrow> Inl e
      | Inr self \<Rightarrow>
          (case own_siblings 0 self [] [] (tp_siblings t) of
             Inl e \<Rightarrow> Inl e
           | Inr siblings \<Rightarrow> Inr \<lparr>tp_self = self, tp_siblings = sort_key (\<lambda>s. u16_key (ri_pcPubkey s)) siblings\<rparr>))"

definition node_topologyEquals :: "topology option \<Rightarrow> topology \<Rightarrow> bool" where
  "node_topologyEquals left right =
     (case left of
        None \<Rightarrow> False
      | Some l \<Rightarrow>
          ri_pcPubkey (tp_self l) = ri_pcPubkey (tp_self right) \<and> ri_pcLabel (tp_self l) = ri_pcLabel (tp_self right) \<and>
          ri_legacyPcLabel (tp_self l) = ri_legacyPcLabel (tp_self right) \<and>
          length (tp_siblings l) = length (tp_siblings right) \<and>
          list_all2 (\<lambda>x y. ri_pcPubkey x = ri_pcPubkey y \<and> ri_pcLabel x = ri_pcLabel y \<and> ri_legacyPcLabel x = ri_legacyPcLabel y)
            (tp_siblings l) (tp_siblings right))"

section \<open>The bridge\<close>

text \<open>The first check of the bridge's own copy is that the topology is about the machine whose key it uses.\<close>

definition bridgeTopology :: "byte list \<Rightarrow> topology \<Rightarrow> node_error + topology" where
  "bridgeTopology pk t =
     (case encodeEd25519PublicKey pk ''relay public key'' of
        Inl e \<Rightarrow> Inl (NodeBad (RemoteKey e))
      | Inr expected \<Rightarrow>
          (case canonicalizeEd25519PublicKey (ri_pcPubkey (tp_self t)) ''self public key'' of
             Inl e \<Rightarrow> Inl (NodeBad (RemoteKey e))
           | Inr key \<Rightarrow>
               if key \<noteq> expected then Inl KeyMismatch
               else (case ownTopology t of Inl e \<Rightarrow> Inl (NodeBad e) | Inr t' \<Rightarrow> Inr t')))"

text \<open>The result is the topology of the bridge. A given topology bypasses discovery.\<close>

definition attachCrossPcBridge :: "byte list \<Rightarrow> topology option \<Rightarrow> topology \<Rightarrow> node_error + topology" where
  "attachCrossPcBridge pk given discovered =
     (case bridgeTopology pk (case given of Some t \<Rightarrow> t | None \<Rightarrow> discovered) of
        Inl e \<Rightarrow> Inl e
      | Inr t \<Rightarrow> (case buildRoutingState t None of Inl e \<Rightarrow> Inl (NodeBad e) | Inr _ \<Rightarrow> Inr t))"

section \<open>State\<close>

type_synonym keys = "byte list \<times> byte list"

datatype relay_ref = Own nat | Host nat

record bridge_params =
  bp_relayUrl :: string
  bp_keypair :: "keys option"
  bp_timeoutMs :: "int option"
  bp_cwd :: "string option"
  bp_sessionName :: "string option"
  bp_injected :: "nat option"

definition keypairEquals :: "keys option \<Rightarrow> keys option \<Rightarrow> bool" where
  "keypairEquals l r =
     (case (l, r) of (None, None) \<Rightarrow> True | (Some a, Some b) \<Rightarrow> fst a = fst b \<and> snd a = snd b | _ \<Rightarrow> False)"

definition bridgeParamsEqual :: "bridge_params option \<Rightarrow> bridge_params \<Rightarrow> bool" where
  "bridgeParamsEqual left right =
     (case left of
        None \<Rightarrow> False
      | Some l \<Rightarrow>
          bp_relayUrl l = bp_relayUrl right \<and> bp_cwd l = bp_cwd right \<and> bp_sessionName l = bp_sessionName right \<and>
          bp_timeoutMs l = bp_timeoutMs right \<and> bp_injected l = bp_injected right \<and> keypairEquals (bp_keypair l) (bp_keypair right))"

text \<open>Parameters are compared as objects too: each assignment has its number.\<close>

type_synonym params = "nat \<times> bridge_params"

datatype attempt =
    WaitKeys nat params nat nat
  | WaitRelay nat params nat nat keys nat
  | WaitBridge nat params nat nat keys relay_ref "topology option" bool

datatype run_state = NoRun | Trying attempt | Ran bool

datatype caller = ByConnect string | ByAttach | ByFailover | ByRetry

datatype mn_task = Resume caller bool | Started string | StartFailed

datatype mn_event =
    RelayMade nat string string
  | RelayShut relay_ref
  | RelayLost relay_ref
  | BridgeBuilt nat
  | BridgeActivated nat
  | BridgeDetached nat
  | BridgePublished nat relay_ref
  | RouterTold nat topology
  | RouterPeers nat "string list"
  | ConnectDone "string option"
  | AttachDone bool

record relay_node =
  mn_peer :: session_peer
  mn_starting :: nat
  mn_latest :: "topology option"
  mn_revision :: nat
  mn_gen :: nat
  mn_run :: run_state
  mn_waiters :: "caller list"
  mn_queued :: bool
  mn_closed :: bool
  mn_bridge :: "nat option"
  mn_relay :: "relay_ref option"
  mn_relayOwned :: bool
  mn_handler :: bool
  mn_keypair :: "keys option"
  mn_params :: "params option"
  mn_wired :: bool
  mn_shut :: "relay_ref list"
  mn_open :: "relay_ref list"
  mn_timer :: "int option"
  mn_backoff :: nat
  mn_next :: nat
  mn_tasks :: "mn_task list"
  mn_log :: "mn_event list"

definition mn_say :: "mn_event \<Rightarrow> relay_node \<Rightarrow> relay_node" where
  "mn_say e s = s\<lparr>mn_log := mn_log s @ [e]\<rparr>"

definition mn_task_add :: "mn_task \<Rightarrow> relay_node \<Rightarrow> relay_node" where
  "mn_task_add t s = s\<lparr>mn_tasks := mn_tasks s @ [t]\<rparr>"

text \<open>The options of the constructor that belong to the bridge, if there are any, are its first parameters.\<close>

definition new_node :: "session_peer \<Rightarrow> bridge_params option \<Rightarrow> relay_node" where
  "new_node p bridge =
     \<lparr>mn_peer = p, mn_starting = 0, mn_latest = None, mn_revision = 0, mn_gen = 0, mn_run = NoRun, mn_waiters = [], mn_queued = False,
      mn_closed = False, mn_bridge = None, mn_relay = None, mn_relayOwned = False, mn_handler = False, mn_keypair = None,
      mn_params = map_option (\<lambda>b. (0, b\<lparr>bp_keypair := None, bp_injected := None\<rparr>)) bridge, mn_wired = False, mn_shut = [], mn_open = [],
      mn_timer = None, mn_backoff = 0, mn_next = 1, mn_tasks = [], mn_log = []\<rparr>"

section \<open>Relays and teardown\<close>

definition relayIsClosed :: "relay_ref \<Rightarrow> relay_node \<Rightarrow> bool" where
  "relayIsClosed k s \<longleftrightarrow> k \<notin> set (mn_open s)"

definition closeOwnedRelay :: "relay_ref \<Rightarrow> relay_node \<Rightarrow> relay_node" where
  "closeOwnedRelay k s =
     (if k \<in> set (mn_shut s) then s
      else mn_say (RelayShut k) (s\<lparr>mn_shut := k # mn_shut s, mn_open := removeAll k (mn_open s)\<rparr>))"

definition teardownPublishedBridge :: "bool \<Rightarrow> relay_node \<Rightarrow> relay_node" where
  "teardownPublishedBridge closeOwned s =
     (let s1 = s\<lparr>mn_bridge := None, mn_relay := None, mn_relayOwned := False, mn_handler := False\<rparr>;
          s2 = (case mn_bridge s of Some b \<Rightarrow> mn_say (BridgeDetached b) s1 | None \<Rightarrow> s1)
      in case mn_relay s of
           Some k \<Rightarrow> if closeOwned \<and> mn_relayOwned s then closeOwnedRelay k s2 else s2
         | None \<Rightarrow> s2)"

definition clearRelayReconnectTimer :: "relay_node \<Rightarrow> relay_node" where
  "clearRelayReconnectTimer s = s\<lparr>mn_timer := None\<rparr>"

definition RELAY_RECONNECT_BACKOFFS_MS :: "int list" where
  "RELAY_RECONNECT_BACKOFFS_MS = [1000, 2000, 5000, 10000, 30000]"

definition scheduleRelayReconnect :: "relay_node \<Rightarrow> relay_node" where
  "scheduleRelayReconnect s =
     (if mn_closed s \<or> mn_timer s \<noteq> None then s
      else (case mn_params s of
              None \<Rightarrow> s
            | Some (_, p) \<Rightarrow>
                if bp_injected p \<noteq> None then s
                else s\<lparr>mn_timer := Some (RELAY_RECONNECT_BACKOFFS_MS ! min (mn_backoff s) (length RELAY_RECONNECT_BACKOFFS_MS - 1))\<rparr>))"

definition onSelfRelayClosed :: "relay_ref \<Rightarrow> relay_node \<Rightarrow> relay_node" where
  "onSelfRelayClosed k s =
     (if Some k \<noteq> mn_relay s \<or> \<not> mn_relayOwned s then s
      else scheduleRelayReconnect (teardownPublishedBridge False (mn_say (RelayLost k) (s\<lparr>mn_gen := mn_gen s + 1\<rparr>))))"

section \<open>The topology kept\<close>

definition node_setTopology :: "topology \<Rightarrow> relay_node \<Rightarrow> node_error + relay_node" where
  "node_setTopology t s =
     (case ownTopology t of
        Inl e \<Rightarrow> Inl (NodeBad e)
      | Inr own \<Rightarrow>
          if mn_latest s \<noteq> None \<and> ri_pcPubkey (tp_self (the (mn_latest s))) \<noteq> ri_pcPubkey (tp_self own) then Inl TechnicalKeyChanged
          else (let s1 = (if \<not> node_topologyEquals (mn_latest s) own then s\<lparr>mn_revision := mn_revision s + 1\<rparr> else s)\<lparr>mn_latest := Some own\<rparr>
                in Inr (case mn_bridge s of Some b \<Rightarrow> mn_say (RouterTold b own) s1 | None \<Rightarrow> s1)))"

section \<open>One attempt\<close>

definition leads :: "relay_node \<Rightarrow> bool" where
  "leads s \<longleftrightarrow> sp_role (mn_peer s) = Leader"

text \<open>The result says whether the attempt now waits; if not, it has returned.\<close>

definition try_bridge :: "nat \<Rightarrow> params \<Rightarrow> nat \<Rightarrow> nat \<Rightarrow> keys \<Rightarrow> relay_ref \<Rightarrow> relay_node \<Rightarrow> bool \<times> relay_node" where
  "try_bridge gen p rv br key k s =
     (if relayIsClosed k s then (False, if bp_injected (snd p) = None then closeOwnedRelay k s else s)
      else (True, s\<lparr>mn_run := Trying (WaitBridge gen p rv br key k (mn_latest s) False)\<rparr>))"

definition with_keys :: "nat \<Rightarrow> params \<Rightarrow> nat \<Rightarrow> nat \<Rightarrow> keys \<Rightarrow> relay_node \<Rightarrow> bool \<times> relay_node" where
  "with_keys gen p rv br key s =
     (if gen \<noteq> mn_gen s \<or> Some p \<noteq> mn_params s then (False, s)
      else (case bp_injected (snd p) of
              Some k \<Rightarrow> try_bridge gen p rv br key (Host k) s
            | None \<Rightarrow>
                (let name = (case bp_sessionName (snd p) of Some n \<Rightarrow> n | None \<Rightarrow> sp_name (mn_peer s)); k = mn_next s
                 in (True, mn_say (RelayMade k (toWebSocketUrl (bp_relayUrl (snd p))) name)
                       (s\<lparr>mn_next := k + 1, mn_run := Trying (WaitRelay gen p rv br key k)\<rparr>)))))"

definition attempt_starts :: "relay_node \<Rightarrow> bool \<times> relay_node" where
  "attempt_starts s =
     (if mn_closed s \<or> mn_bridge s \<noteq> None \<or> \<not> leads s then (False, s)
      else (case (sp_broker (mn_peer s), mn_params s) of
              (Some br, Some p) \<Rightarrow>
                (case (bp_keypair (snd p), mn_keypair s) of
                   (Some key, _) \<Rightarrow> with_keys (mn_gen s) p (mn_revision s) br key s
                 | (None, Some key) \<Rightarrow> with_keys (mn_gen s) p (mn_revision s) br key s
                 | (None, None) \<Rightarrow> (True, s\<lparr>mn_run := Trying (WaitKeys (mn_gen s) p (mn_revision s) br)\<rparr>))
            | _ \<Rightarrow> (False, s)))"

text \<open>
  One more turn of the loop. An attempt that returns at once has changed no generation and queued nothing, so that the loop
  ends with it.
\<close>

definition loop_turn :: "relay_node \<Rightarrow> relay_node" where
  "loop_turn s =
     (case attempt_starts (s\<lparr>mn_queued := False\<rparr>) of
        (True, s1) \<Rightarrow> s1
      | (False, s1) \<Rightarrow> s1\<lparr>mn_run := Ran True\<rparr>)"

definition attempt_ended :: "nat \<Rightarrow> bool \<Rightarrow> relay_node \<Rightarrow> relay_node" where
  "attempt_ended gen ok s = (if gen \<noteq> mn_gen s \<or> (ok \<and> mn_queued s) then loop_turn s else s\<lparr>mn_run := Ran ok\<rparr>)"

definition requestBridge :: "caller \<Rightarrow> relay_node \<Rightarrow> relay_node" where
  "requestBridge who s =
     (if mn_closed s then mn_task_add (Resume who False) s
      else (let s1 = s\<lparr>mn_queued := True, mn_waiters := mn_waiters s @ [who]\<rparr>
            in if mn_run s \<noteq> NoRun then s1 else loop_turn s1))"

definition attemptIsStale :: "nat \<Rightarrow> params \<Rightarrow> nat \<Rightarrow> relay_ref \<Rightarrow> bool \<Rightarrow> relay_node \<Rightarrow> bool" where
  "attemptIsStale gen p br k candidateClosed s \<longleftrightarrow>
     mn_closed s \<or> gen \<noteq> mn_gen s \<or> Some p \<noteq> mn_params s \<or> \<not> leads s \<or> sp_broker (mn_peer s) \<noteq> Some br \<or>
     candidateClosed \<or> relayIsClosed k s"

definition keys_result :: "keys option \<Rightarrow> relay_node \<Rightarrow> relay_node" where
  "keys_result out s =
     (case mn_run s of
        Trying (WaitKeys gen p rv br) \<Rightarrow>
          (case out of
             None \<Rightarrow> attempt_ended gen False s
           | Some key \<Rightarrow>
               (case with_keys gen p rv br key s of (True, s1) \<Rightarrow> s1 | (False, s1) \<Rightarrow> attempt_ended gen True s1))
      | _ \<Rightarrow> s)"

definition relay_result :: "bool \<Rightarrow> relay_node \<Rightarrow> relay_node" where
  "relay_result ok s =
     (case mn_run s of
        Trying (WaitRelay gen p rv br key k) \<Rightarrow>
          if ok then
            (case try_bridge gen p rv br key (Own k) (s\<lparr>mn_open := Own k # mn_open s\<rparr>) of
               (True, s1) \<Rightarrow> s1 | (False, s1) \<Rightarrow> attempt_ended gen True s1)
          else attempt_ended gen True (closeOwnedRelay (Own k) s)
      | _ \<Rightarrow> s)"

definition drop_candidate :: "nat option \<Rightarrow> params \<Rightarrow> relay_ref \<Rightarrow> relay_node \<Rightarrow> relay_node" where
  "drop_candidate b p k s =
     (let s1 = (case b of Some n \<Rightarrow> mn_say (BridgeDetached n) s | None \<Rightarrow> s)
      in if bp_injected (snd p) = None then closeOwnedRelay k s1 else s1)"

text \<open>The topology of the node and of the new bridge become one: \<open>None\<close> when a check throws.\<close>

definition merge_topology :: "nat \<Rightarrow> nat \<Rightarrow> topology \<Rightarrow> relay_node \<Rightarrow> relay_node option" where
  "merge_topology b rv t s =
     (case mn_latest s of
        None \<Rightarrow> (case node_setTopology t s of Inl _ \<Rightarrow> None | Inr s1 \<Rightarrow> Some s1)
      | Some l \<Rightarrow>
          if mn_revision s = rv then Some s
          else (case buildRoutingState l (Some (ri_pcPubkey (tp_self t))) of
                  Inl _ \<Rightarrow> None
                | Inr _ \<Rightarrow> Some (mn_say (RouterTold b l) s)))"

definition publish :: "nat \<Rightarrow> params \<Rightarrow> keys \<Rightarrow> relay_ref \<Rightarrow> relay_node \<Rightarrow> relay_node" where
  "publish b p key k s =
     (let own = (bp_injected (snd p) = None);
          s1 = mn_say (BridgePublished b k)
            (s\<lparr>mn_bridge := Some b, mn_relay := Some k, mn_relayOwned := own, mn_handler := own, mn_keypair := Some key\<rparr>)
      in if own then (clearRelayReconnectTimer s1)\<lparr>mn_backoff := 0\<rparr> else s1)"

definition bridge_result :: "topology \<Rightarrow> bool \<Rightarrow> relay_node \<Rightarrow> relay_node" where
  "bridge_result discovered activates s =
     (case mn_run s of
        Trying (WaitBridge gen p rv br key k given candidateClosed) \<Rightarrow>
          (case attachCrossPcBridge (fst key) given discovered of
             Inl _ \<Rightarrow> attempt_ended gen False (drop_candidate None p k s)
           | Inr t \<Rightarrow>
               (let b = mn_next s; s1 = mn_say (BridgeBuilt b) (s\<lparr>mn_next := b + 1\<rparr>)
                in if attemptIsStale gen p br k candidateClosed s1 then attempt_ended gen True (drop_candidate (Some b) p k s1)
                   else (case merge_topology b rv t s1 of
                           None \<Rightarrow> attempt_ended gen False (drop_candidate (Some b) p k s1)
                         | Some s2 \<Rightarrow>
                             if \<not> activates then attempt_ended gen False (drop_candidate (Some b) p k s2)
                             else (let s3 = mn_say (BridgeActivated b) s2
                                   in if attemptIsStale gen p br k candidateClosed s3
                                      then attempt_ended gen True (drop_candidate (Some b) p k s3)
                                      else attempt_ended gen True (publish b p key k s3)))))
      | _ \<Rightarrow> s)"

section \<open>What the callers do\<close>

definition retry_if_unbridged :: "relay_node \<Rightarrow> relay_node" where
  "retry_if_unbridged s =
     (case mn_params s of
        None \<Rightarrow> s
      | Some (_, p) \<Rightarrow> if bp_injected p = None \<and> leads s \<and> mn_relay s = None then scheduleRelayReconnect s else s)"

definition node_resume :: "caller \<Rightarrow> bool \<Rightarrow> relay_node \<Rightarrow> relay_node" where
  "node_resume who ok s =
     (case who of
        ByConnect nm \<Rightarrow>
          if \<not> ok then mn_say (ConnectDone None) s
          else if mn_queued s then requestBridge who s
          else mn_say (ConnectDone (Some nm)) (retry_if_unbridged s)
      | ByAttach \<Rightarrow>
          if \<not> ok then mn_say (AttachDone False) s
          else if mn_queued s then requestBridge who s else mn_say (AttachDone True) s
      | ByFailover \<Rightarrow> retry_if_unbridged s
      | ByRetry \<Rightarrow>
          if ok \<and> mn_relay s \<noteq> None then s
          else scheduleRelayReconnect (s\<lparr>mn_backoff := mn_backoff s + 1\<rparr>))"

definition loop_settles :: "relay_node \<Rightarrow> relay_node" where
  "loop_settles s =
     (case mn_run s of
        Ran ok \<Rightarrow> fold (\<lambda>w. mn_task_add (Resume w ok)) (mn_waiters s) (s\<lparr>mn_run := NoRun, mn_waiters := []\<rparr>)
      | _ \<Rightarrow> s)"

definition attemptRelayReconnect :: "relay_node \<Rightarrow> relay_node" where
  "attemptRelayReconnect s =
     (case mn_params s of
        None \<Rightarrow> s
      | Some (_, p) \<Rightarrow>
          if mn_closed s \<or> bp_injected p \<noteq> None then s
          else if \<not> leads s \<or> mn_bridge s \<noteq> None then s
          else requestBridge ByRetry (s\<lparr>mn_queued := True\<rparr>))"

definition node_timer_fires :: "relay_node \<Rightarrow> relay_node" where
  "node_timer_fires s = (if mn_timer s = None then s else attemptRelayReconnect (s\<lparr>mn_timer := None\<rparr>))"

definition node_reconnected :: "relay_node \<Rightarrow> relay_node" where
  "node_reconnected s =
     (if mn_closed s \<or> mn_params s = None then s
      else requestBridge ByFailover
             ((teardownPublishedBridge True (clearRelayReconnectTimer (s\<lparr>mn_gen := mn_gen s + 1\<rparr>)))\<lparr>mn_queued := True\<rparr>))"

section \<open>The public operations\<close>

definition connect_node :: "relay_node \<Rightarrow> relay_node" where
  "connect_node s =
     (if mn_closed s then mn_say (ConnectDone None) s
      else s\<lparr>mn_starting := mn_starting s + 1, mn_peer := start (mn_peer s)\<rparr>)"

definition node_started :: "string \<Rightarrow> relay_node \<Rightarrow> relay_node" where
  "node_started nm s =
     (if mn_closed s then mn_say (ConnectDone None) s
      else (let s1 = s\<lparr>mn_wired := True\<rparr>
            in if mn_params s1 = None then mn_say (ConnectDone (Some nm)) s1 else requestBridge (ByConnect nm) s1))"

definition attachBridge :: "bridge_params \<Rightarrow> relay_node \<Rightarrow> relay_node" where
  "attachBridge p s =
     (if mn_closed s then mn_say (AttachDone False) s
      else (let s1 = (if bridgeParamsEqual (map_option snd (mn_params s)) p then s
                      else (teardownPublishedBridge True (clearRelayReconnectTimer (s\<lparr>mn_gen := mn_gen s + 1\<rparr>)))
                             \<lparr>mn_params := Some (mn_next s, p), mn_next := mn_next s + 1\<rparr>)
            in requestBridge ByAttach (s1\<lparr>mn_wired := True, mn_queued := True\<rparr>)))"

definition node_detachBridge :: "relay_node \<Rightarrow> relay_node" where
  "node_detachBridge s =
     teardownPublishedBridge True
       (clearRelayReconnectTimer (s\<lparr>mn_gen := mn_gen s + 1, mn_queued := False, mn_params := None\<rparr>))"

definition close_node :: "nat option \<Rightarrow> relay_node \<Rightarrow> relay_node" where
  "close_node inode s =
     (if mn_closed s then s
      else (let s1 = node_detachBridge (s\<lparr>mn_closed := True\<rparr>) in s1\<lparr>mn_peer := leave inode (mn_peer s1)\<rparr>))"

definition node_peersChanged :: "string list \<Rightarrow> relay_node \<Rightarrow> relay_node" where
  "node_peersChanged names s = (case mn_bridge s of Some b \<Rightarrow> mn_say (RouterPeers b names) s | None \<Rightarrow> s)"

text \<open>The rosters a node hands out are those of the broker without itself.\<close>

definition str_items :: "jv \<Rightarrow> string list" where
  "str_items v = (case v of JArr vs \<Rightarrow> concat (map (\<lambda>x. case x of JStr t \<Rightarrow> [t] | _ \<Rightarrow> []) vs) | _ \<Rightarrow> [])"

definition node_listPeers :: "session_peer \<Rightarrow> envelope \<Rightarrow> string list" where
  "node_listPeers p reply = filter (\<lambda>x. x \<noteq> sp_address p) (str_items (jget (e_body reply) ''peers''))"

section \<open>Steps\<close>

text \<open>What the node takes from its peer: reconnections at once, the outcome of a start as a task.\<close>

fun heed :: "sp_event \<Rightarrow> relay_node \<Rightarrow> relay_node" where
  "heed Reconnected s = (if mn_wired s then node_reconnected s else s)"
| "heed (JoinDone ForStart nm) s = (if 0 < mn_starting s then mn_task_add (Started nm) (s\<lparr>mn_starting := mn_starting s - 1\<rparr>) else s)"
| "heed (sp_event.JoinFailed ForStart err) s = (if 0 < mn_starting s then mn_task_add StartFailed (s\<lparr>mn_starting := mn_starting s - 1\<rparr>) else s)"
| "heed _ s = s"

definition peer_steps :: "sp_input \<Rightarrow> relay_node \<Rightarrow> relay_node" where
  "peer_steps i s =
     (let p = sp_step i (mn_peer s)
      in fold heed (drop (length (sp_log (mn_peer s))) (sp_log p)) (s\<lparr>mn_peer := p\<rparr>))"

definition relay_closes :: "relay_ref \<Rightarrow> relay_node \<Rightarrow> relay_node" where
  "relay_closes k s =
     (if k \<notin> set (mn_open s) then s
      else (let s1 = s\<lparr>mn_open := removeAll k (mn_open s)\<rparr>;
                s2 = (case mn_run s1 of
                        Trying (WaitBridge gen p rv br key k' given c) \<Rightarrow>
                          if k' = k then s1\<lparr>mn_run := Trying (WaitBridge gen p rv br key k' given True)\<rparr> else s1
                      | _ \<Rightarrow> s1)
            in if mn_handler s2 \<and> mn_relay s2 = Some k then onSelfRelayClosed k s2 else s2))"

datatype mn_input =
    MnConnect | MnAttach bridge_params | MnTopology topology | MnDetach | MnClose "nat option" | MnLocalPeers "string list"
  | MnPeer sp_input | MnKeys "keys option" | MnRelay bool | MnBridge topology bool | MnSettle | MnTask mn_task | MnTimer
  | MnHostRelay nat | MnRelayClosed relay_ref

fun run_mn_task :: "mn_task \<Rightarrow> relay_node \<Rightarrow> relay_node" where
  "run_mn_task (Resume who ok) s = node_resume who ok s"
| "run_mn_task (Started nm) s = node_started nm s"
| "run_mn_task StartFailed s = mn_say (ConnectDone None) s"

fun mn_step :: "mn_input \<Rightarrow> relay_node \<Rightarrow> relay_node" where
  "mn_step MnConnect s = connect_node s"
| "mn_step (MnAttach p) s = attachBridge p s"
| "mn_step (MnTopology t) s = (case node_setTopology t s of Inl _ \<Rightarrow> s | Inr s' \<Rightarrow> s')"
| "mn_step MnDetach s = node_detachBridge s"
| "mn_step (MnClose inode) s = close_node inode s"
| "mn_step (MnLocalPeers names) s = node_peersChanged names s"
| "mn_step (MnPeer i) s = (if i = PeStart then s else peer_steps i s)"
| "mn_step (MnKeys out) s = keys_result out s"
| "mn_step (MnRelay ok) s = relay_result ok s"
| "mn_step (MnBridge discovered activates) s = bridge_result discovered activates s"
| "mn_step MnSettle s = loop_settles s"
| "mn_step (MnTask t) s = (if t \<in> set (mn_tasks s) then run_mn_task t (s\<lparr>mn_tasks := remove1 t (mn_tasks s)\<rparr>) else s)"
| "mn_step MnTimer s = node_timer_fires s"
| "mn_step (MnHostRelay n) s = s\<lparr>mn_open := Host n # mn_open s\<rparr>"
| "mn_step (MnRelayClosed k) s = relay_closes k s"

definition mn_run_all :: "mn_input list \<Rightarrow> relay_node \<Rightarrow> relay_node" where
  "mn_run_all ins s = fold mn_step ins s"

end
