(* ===== verification/MeshNodeProps.thy ===== *)
theory MeshNodeProps
  imports MeshNode RemoteProps
begin

text \<open>
  What a mesh node guarantees: no bridge and no relay of its own is lost or given up twice, the relays of the host are left
  alone, its topology is canonical, closing is final, and a lost relay is replaced.
\<close>

section \<open>The accounts of a node\<close>

definition built :: "relay_node \<Rightarrow> nat list" where
  "built s = concat (map (\<lambda>e. case e of BridgeBuilt b \<Rightarrow> [b] | _ \<Rightarrow> []) (mn_log s))"

definition detached :: "relay_node \<Rightarrow> nat list" where
  "detached s = concat (map (\<lambda>e. case e of BridgeDetached b \<Rightarrow> [b] | _ \<Rightarrow> []) (mn_log s))"

definition made :: "relay_node \<Rightarrow> relay_ref list" where
  "made s = concat (map (\<lambda>e. case e of RelayMade k u n \<Rightarrow> [Own k] | _ \<Rightarrow> []) (mn_log s))"

definition given_up :: "relay_node \<Rightarrow> relay_ref list" where
  "given_up s = concat (map (\<lambda>e. case e of RelayShut k \<Rightarrow> [k] | RelayLost k \<Rightarrow> [k] | _ \<Rightarrow> []) (mn_log s))"

definition candidate :: "relay_node \<Rightarrow> relay_ref list" where
  "candidate s =
     (case mn_run s of
        Trying (WaitRelay gen p rv br key k) \<Rightarrow> [Own k]
      | Trying (WaitBridge gen p rv br key k given c) \<Rightarrow> if bp_injected (snd p) = None then [k] else []
      | _ \<Rightarrow> [])"

definition opt_list :: "'a option \<Rightarrow> 'a list" where
  "opt_list x = (case x of Some a \<Rightarrow> [a] | None \<Rightarrow> [])"

definition node_held :: "relay_node \<Rightarrow> relay_ref list" where
  "node_held s = (if mn_relayOwned s then opt_list (mn_relay s) else [])"

text \<open>The accounts, with the candidate relays of the attempt under way as an argument, and the state of the loop left out.\<close>

definition accounts :: "relay_ref list \<Rightarrow> relay_node \<Rightarrow> bool" where
  "accounts cs s \<longleftrightarrow>
     mset (built s) = mset (detached s) + mset (opt_list (mn_bridge s)) \<and>
     mset (made s) = mset (given_up s) + mset cs + mset (node_held s) \<and>
     distinct (built s) \<and> (\<forall>b \<in> set (built s). b < mn_next s) \<and>
     distinct (made s) \<and> (\<forall>k \<in> set (made s). \<exists>n. k = Own n \<and> n < mn_next s) \<and>
     set (mn_shut s) \<subseteq> set (given_up s) \<and>
     (mn_bridge s = None \<longleftrightarrow> mn_relay s = None) \<and> (mn_handler s = mn_relayOwned s) \<and> (mn_relayOwned s \<longrightarrow> mn_relay s \<noteq> None) \<and>
     (mn_closed s \<longrightarrow> mn_bridge s = None \<and> mn_params s = None \<and> mn_timer s = None)"

definition node_inv :: "relay_node \<Rightarrow> bool" where
  "node_inv s \<longleftrightarrow> accounts (candidate s) s \<and> (\<forall>a. mn_run s = Trying a \<longrightarrow> mn_bridge s = None) \<and>
     (\<forall>gen p rv br key k. mn_run s = Trying (WaitRelay gen p rv br key k) \<longrightarrow> bp_injected (snd p) = None) \<and>
     (\<forall>gen p rv br key k given c. mn_run s = Trying (WaitBridge gen p rv br key k given c) \<longrightarrow> bp_injected (snd p) \<noteq> None \<longrightarrow> (\<exists>n. k = Host n))"

lemma mn_say_fields [simp]:
  "mn_log (mn_say e s) = mn_log s @ [e]" "mn_next (mn_say e s) = mn_next s" "mn_bridge (mn_say e s) = mn_bridge s" "mn_relay (mn_say e s) = mn_relay s"
  "mn_relayOwned (mn_say e s) = mn_relayOwned s" "mn_handler (mn_say e s) = mn_handler s" "mn_shut (mn_say e s) = mn_shut s"
  "mn_closed (mn_say e s) = mn_closed s" "mn_params (mn_say e s) = mn_params s" "mn_timer (mn_say e s) = mn_timer s" "mn_run (mn_say e s) = mn_run s"
  "mn_gen (mn_say e s) = mn_gen s" "mn_latest (mn_say e s) = mn_latest s" "mn_peer (mn_say e s) = mn_peer s" "mn_open (mn_say e s) = mn_open s"
  "mn_queued (mn_say e s) = mn_queued s" "mn_waiters (mn_say e s) = mn_waiters s" "mn_tasks (mn_say e s) = mn_tasks s" "mn_backoff (mn_say e s) = mn_backoff s"
  "mn_wired (mn_say e s) = mn_wired s" "mn_revision (mn_say e s) = mn_revision s" "mn_keypair (mn_say e s) = mn_keypair s" "mn_starting (mn_say e s) = mn_starting s"
  by (simp_all add: mn_say_def)

lemma logs_say [simp]:
  "built (mn_say e s) = built s @ (case e of BridgeBuilt b \<Rightarrow> [b] | _ \<Rightarrow> [])"
  "detached (mn_say e s) = detached s @ (case e of BridgeDetached b \<Rightarrow> [b] | _ \<Rightarrow> [])"
  "made (mn_say e s) = made s @ (case e of RelayMade k u n \<Rightarrow> [Own k] | _ \<Rightarrow> [])"
  "given_up (mn_say e s) = given_up s @ (case e of RelayShut k \<Rightarrow> [k] | RelayLost k \<Rightarrow> [k] | _ \<Rightarrow> [])"
  by (simp_all add: built_def detached_def made_def given_up_def)

lemma acc_fields [simp]:
  "accounts cs (s\<lparr>mn_peer := a\<rparr>) = accounts cs s" "accounts cs (s\<lparr>mn_starting := b\<rparr>) = accounts cs s" "accounts cs (s\<lparr>mn_latest := c\<rparr>) = accounts cs s"
  "accounts cs (s\<lparr>mn_revision := d\<rparr>) = accounts cs s" "accounts cs (s\<lparr>mn_gen := e\<rparr>) = accounts cs s" "accounts cs (s\<lparr>mn_run := f\<rparr>) = accounts cs s"
  "accounts cs (s\<lparr>mn_waiters := g\<rparr>) = accounts cs s" "accounts cs (s\<lparr>mn_queued := h\<rparr>) = accounts cs s" "accounts cs (s\<lparr>mn_keypair := i\<rparr>) = accounts cs s"
  "accounts cs (s\<lparr>mn_wired := j\<rparr>) = accounts cs s" "accounts cs (s\<lparr>mn_open := k\<rparr>) = accounts cs s" "accounts cs (s\<lparr>mn_backoff := l\<rparr>) = accounts cs s"
  "accounts cs (s\<lparr>mn_tasks := m\<rparr>) = accounts cs s"
  by (simp_all add: accounts_def built_def detached_def made_def given_up_def node_held_def)

fun neutral :: "mn_event \<Rightarrow> bool" where
  "neutral (BridgeBuilt b) = False"
| "neutral (BridgeDetached b) = False"
| "neutral (RelayMade k u n) = False"
| "neutral (RelayShut k) = False"
| "neutral (RelayLost k) = False"
| "neutral _ = True"

lemma acc_say [simp]: "neutral e \<Longrightarrow> accounts cs (mn_say e s) = accounts cs s"
  by (cases e) (simp_all add: accounts_def node_held_def)

lemma acc_task [simp]: "accounts cs (mn_task_add t s) = accounts cs s"
  by (simp add: mn_task_add_def)

lemma acc_timer: "accounts cs s \<Longrightarrow> \<not> mn_closed s \<Longrightarrow> accounts cs (s\<lparr>mn_timer := t\<rparr>)"
  by (simp add: accounts_def built_def detached_def made_def given_up_def node_held_def cong: conj_cong)

lemma acc_clear [intro]: "accounts cs s \<Longrightarrow> accounts cs (clearRelayReconnectTimer s)"
  by (simp add: clearRelayReconnectTimer_def accounts_def built_def detached_def made_def given_up_def node_held_def)

lemma acc_schedule [intro]: "accounts cs s \<Longrightarrow> accounts cs (scheduleRelayReconnect s)"
  by (simp add: scheduleRelayReconnect_def acc_timer split: option.split)

text \<open>A candidate is closed once: it is not among those given up.\<close>

lemma fresh_candidate:
  assumes "accounts cs s" and "k \<in> set cs"
  shows "k \<notin> set (given_up s)" and "k \<notin> set (mn_shut s)"
proof -
  have "distinct (given_up s @ cs @ node_held s)" using assms(1) unfolding accounts_def
    by (metis (no_types, opaque_lifting) mset_append mset_eq_imp_distinct_iff union_assoc)
  then show "k \<notin> set (given_up s)" using assms(2) by auto
  then show "k \<notin> set (mn_shut s)" using assms(1) by (auto simp: accounts_def)
qed

lemma acc_shut:
  assumes "accounts (k # cs) s"
  shows "accounts cs (closeOwnedRelay k s)"
proof -
  have "k \<notin> set (mn_shut s)" using fresh_candidate(2) [OF assms] by simp
  then show ?thesis using assms
    by (auto simp: accounts_def closeOwnedRelay_def node_held_def built_def detached_def made_def given_up_def)
qed

lemma acc_unpublish: "accounts cs s \<Longrightarrow> accounts (node_held s @ cs) (teardownPublishedBridge False s)"
  by (cases "mn_bridge s"; cases "mn_relay s"; cases "mn_relayOwned s")
    (auto simp: accounts_def teardownPublishedBridge_def node_held_def opt_list_def built_def detached_def made_def given_up_def)

lemma teardown_closes:
  "teardownPublishedBridge True s =
     (if mn_relayOwned s \<and> mn_relay s \<noteq> None then closeOwnedRelay (the (mn_relay s)) (teardownPublishedBridge False s)
      else teardownPublishedBridge False s)"
  by (simp add: teardownPublishedBridge_def Let_def split: option.split)

lemma acc_teardown [intro]: "accounts cs s \<Longrightarrow> accounts cs (teardownPublishedBridge True s)"
  using acc_unpublish [of cs s] acc_shut [of "the (mn_relay s)" cs "teardownPublishedBridge False s"]
  by (cases "mn_relay s"; cases "mn_relayOwned s") (simp_all add: teardown_closes node_held_def opt_list_def)

lemma acc_lost:
  assumes "accounts cs s"
  shows "accounts cs (onSelfRelayClosed k s)"
proof (cases "Some k \<noteq> mn_relay s \<or> \<not> mn_relayOwned s")
  case True
  then show ?thesis using assms by (auto simp: onSelfRelayClosed_def)
next
  case False
  then obtain b where b: "mn_bridge s = Some b" "mn_relay s = Some k" "mn_relayOwned s" using assms by (auto simp: accounts_def)
  have "accounts cs (teardownPublishedBridge False (mn_say (RelayLost k) (s\<lparr>mn_gen := mn_gen s + 1\<rparr>)))"
    using assms b by (auto simp: accounts_def teardownPublishedBridge_def node_held_def opt_list_def built_def detached_def made_def given_up_def mn_say_def)
  then show ?thesis using False by (auto simp: onSelfRelayClosed_def)
qed

lemma acc_drop:
  assumes "accounts (if bp_injected (snd p) = None then [k] else []) s"
  shows "accounts [] (drop_candidate None p k s)"
  using assms acc_shut [of k "[]" s] by (cases "bp_injected (snd p)") (simp_all add: drop_candidate_def)

lemma acc_detach_new:
  assumes "accounts cs s"
  shows "accounts cs (mn_say (BridgeDetached (mn_next s)) (mn_say (BridgeBuilt (mn_next s)) (s\<lparr>mn_next := mn_next s + 1\<rparr>)))"
  using assms by (auto simp: accounts_def node_held_def built_def detached_def made_def given_up_def mn_say_def less_Suc_eq)

section \<open>The loop keeps the accounts\<close>

lemma candidate_run: "candidate (s\<lparr>mn_run := r\<rparr>) =
    (case r of
        Trying (WaitRelay gen p rv br key k) \<Rightarrow> [Own k]
      | Trying (WaitBridge gen p rv br key k given c) \<Rightarrow> if bp_injected (snd p) = None then [k] else []
      | _ \<Rightarrow> [])"
  by (simp add: candidate_def)

lemma inv_settled: "accounts [] s \<Longrightarrow> node_inv (s\<lparr>mn_run := Ran ok\<rparr>)"
  by (simp add: node_inv_def candidate_run)

lemma try_own:
  assumes "accounts [Own k] s" and "mn_bridge s = None" and "bp_injected (snd p) = None" and "try_bridge gen p rv br key (Own k) s = (w, s1)"
  shows "if w then node_inv s1 else accounts [] s1"
  using assms acc_shut [of "Own k" "[]" s] by (auto simp: try_bridge_def node_inv_def candidate_run split: if_split_asm)

lemma try_host:
  assumes "accounts [] s" and "mn_bridge s = None" and "bp_injected (snd p) = Some n" and "try_bridge gen p rv br key (Host n) s = (w, s1)"
  shows "if w then node_inv s1 else accounts [] s1"
  using assms by (auto simp: try_bridge_def node_inv_def candidate_run split: if_split_asm)

lemma acc_make: "accounts [] s \<Longrightarrow> accounts [Own (mn_next s)] (mn_say (RelayMade (mn_next s) u nm) (s\<lparr>mn_next := mn_next s + 1, mn_run := r\<rparr>))"
  by (auto simp: accounts_def node_held_def built_def detached_def made_def given_up_def mn_say_def less_Suc_eq)

lemma keys_inv:
  assumes "accounts [] s" and "mn_bridge s = None" and "with_keys gen p rv br key s = (w, s1)"
  shows "if w then node_inv s1 else accounts [] s1"
proof (cases "gen \<noteq> mn_gen s \<or> Some p \<noteq> mn_params s")
  case True
  then show ?thesis using assms by (auto simp: with_keys_def)
next
  case ok: False
  show ?thesis
  proof (cases "bp_injected (snd p)")
    case (Some n)
    have "try_bridge gen p rv br key (Host n) s = (w, s1)" using assms(3) ok Some by (simp add: with_keys_def split: if_split_asm)
    then show ?thesis by (rule try_host [where n = n, OF assms(1,2) Some])
  next
    case None
    then show ?thesis using assms ok acc_make [OF assms(1)]
      by (auto simp: with_keys_def Let_def node_inv_def candidate_def split: if_split_asm)
  qed
qed

lemma starts_inv:
  assumes "accounts [] s" and "attempt_starts s = (w, s1)"
  shows "if w then node_inv s1 else accounts [] s1"
proof -
  have k: "if w then node_inv s1 else accounts [] s1" if "with_keys gen p rv br key s = (w, s1)" "mn_bridge s = None" for gen p rv br key
    by (rule keys_inv [OF assms(1) that(2,1)])
  have n: "node_inv (s\<lparr>mn_run := Trying (WaitKeys gen p rv br)\<rparr>)" if "mn_bridge s = None" for gen p rv br
    using assms(1) that by (simp add: node_inv_def candidate_run)
  show ?thesis using assms(2) k n assms(1)
    by (auto simp: attempt_starts_def split: if_split_asm option.split_asm)
qed

lemma turn_inv: "accounts [] s \<Longrightarrow> node_inv (loop_turn s)"
  using starts_inv [of "s\<lparr>mn_queued := False\<rparr>"] inv_settled
  by (cases "attempt_starts (s\<lparr>mn_queued := False\<rparr>)") (auto simp: loop_turn_def split: bool.split)

lemma ended_inv: "accounts [] s \<Longrightarrow> node_inv (attempt_ended gen ok s)"
  by (simp add: attempt_ended_def turn_inv inv_settled)

lemma node_fields [simp]:
  "node_inv (s\<lparr>mn_peer := a\<rparr>) = node_inv s" "node_inv (s\<lparr>mn_starting := b\<rparr>) = node_inv s" "node_inv (s\<lparr>mn_latest := c\<rparr>) = node_inv s"
  "node_inv (s\<lparr>mn_revision := d\<rparr>) = node_inv s" "node_inv (s\<lparr>mn_gen := e\<rparr>) = node_inv s" "node_inv (s\<lparr>mn_waiters := g\<rparr>) = node_inv s"
  "node_inv (s\<lparr>mn_queued := h\<rparr>) = node_inv s" "node_inv (s\<lparr>mn_keypair := i\<rparr>) = node_inv s" "node_inv (s\<lparr>mn_wired := j\<rparr>) = node_inv s"
  "node_inv (s\<lparr>mn_open := k\<rparr>) = node_inv s" "node_inv (s\<lparr>mn_backoff := l\<rparr>) = node_inv s" "node_inv (s\<lparr>mn_tasks := m\<rparr>) = node_inv s"
  "node_inv (mn_task_add t s) = node_inv s"
  by (simp_all add: node_inv_def candidate_def mn_task_add_def)

lemma node_say [simp]: "neutral e \<Longrightarrow> node_inv (mn_say e s) = node_inv s"
  by (simp add: node_inv_def candidate_def)

lemma request_node: "node_inv s \<Longrightarrow> node_inv (requestBridge who s)"
proof -
  assume v: "node_inv s"
  show ?thesis
  proof (cases "mn_closed s \<or> mn_run s \<noteq> NoRun")
    case True
    then show ?thesis using v by (auto simp: requestBridge_def Let_def)
  next
    case False
    then have "accounts [] s" using v by (simp add: node_inv_def candidate_def)
    then show ?thesis using False by (simp add: requestBridge_def Let_def turn_inv)
  qed
qed

section \<open>The results of the waits\<close>

definition owes :: "relay_ref list \<Rightarrow> nat \<Rightarrow> relay_node \<Rightarrow> bool" where
  "owes cs b s \<longleftrightarrow> accounts cs (mn_say (BridgeDetached b) s)"

lemma owes_fields [simp]:
  "owes cs b (s\<lparr>mn_latest := c\<rparr>) = owes cs b s" "owes cs b (s\<lparr>mn_revision := d\<rparr>) = owes cs b s"
  "neutral e \<Longrightarrow> owes cs b (mn_say e s) = owes cs b s"
  by (cases e; simp add: owes_def accounts_def node_held_def built_def detached_def made_def given_up_def)+

lemma owes_new: "accounts cs s \<Longrightarrow> owes cs (mn_next s) (mn_say (BridgeBuilt (mn_next s)) (s\<lparr>mn_next := mn_next s + 1\<rparr>))"
  unfolding owes_def by (rule acc_detach_new)

lemma drop_owed: "owes (if bp_injected (snd p) = None then [k] else []) b s \<Longrightarrow> accounts [] (drop_candidate (Some b) p k s)"
  using acc_drop [of p k "mn_say (BridgeDetached b) s"] by (simp add: owes_def drop_candidate_def)

lemma setTopology_keeps:
  assumes "node_setTopology t s = Inr s'"
  shows "owes cs b s' = owes cs b s" "accounts cs s' = accounts cs s" "mn_bridge s' = mn_bridge s" "mn_closed s' = mn_closed s"
    "mn_gen s' = mn_gen s" "mn_params s' = mn_params s" "mn_open s' = mn_open s" "mn_peer s' = mn_peer s" "mn_run s' = mn_run s"
  using assms by (auto simp: node_setTopology_def Let_def split: sum.split_asm if_split_asm option.split_asm option.split)

lemma setTopology_node: "node_setTopology t s = Inr s' \<Longrightarrow> node_inv s' = node_inv s"
  using setTopology_keeps(2,3,9) [of t s s'] by (simp add: node_inv_def candidate_def)

lemma merge_keeps:
  assumes "merge_topology b rv t s = Some s'"
  shows "owes cs n s' = owes cs n s" "mn_bridge s' = mn_bridge s" "mn_closed s' = mn_closed s" "mn_gen s' = mn_gen s" "mn_params s' = mn_params s"
  using assms by (auto simp: merge_topology_def setTopology_keeps split: option.split_asm sum.split_asm if_split_asm)

lemma publish_inv:
  assumes "owes (if bp_injected (snd p) = None then [k] else []) b s" and "mn_bridge s = None" and "\<not> mn_closed s"
  shows "accounts [] (publish b p key k s)"
proof -
  have r: "mn_relay s = None" "\<not> mn_relayOwned s" using assms(1,2) by (auto simp: owes_def accounts_def)
  show ?thesis
  proof (cases "bp_injected (snd p)")
    case None
    then show ?thesis using assms r
      by (auto simp: owes_def accounts_def publish_def Let_def clearRelayReconnectTimer_def node_held_def opt_list_def built_def detached_def made_def
          given_up_def mn_say_def)
  next
    case (Some n)
    then show ?thesis using assms r
      by (auto simp: owes_def accounts_def publish_def Let_def node_held_def opt_list_def built_def detached_def made_def given_up_def mn_say_def)
  qed
qed

lemma keys_result_inv: "node_inv s \<Longrightarrow> node_inv (keys_result out s)"
proof (cases "\<exists>gen p rv br. mn_run s = Trying (WaitKeys gen p rv br)")
  case True
  assume v: "node_inv s"
  from True obtain gen p rv br where r: "mn_run s = Trying (WaitKeys gen p rv br)" by blast
  have a: "accounts [] s" "mn_bridge s = None" using v r by (auto simp: node_inv_def candidate_def)
  show ?thesis using keys_inv [OF a, of gen p rv br] ended_inv a(1)
    by (auto simp: keys_result_def r split: option.split prod.split bool.split)
qed (auto simp: keys_result_def split: run_state.split attempt.split)

lemma relay_result_inv: "node_inv s \<Longrightarrow> node_inv (relay_result ok s)"
proof (cases "\<exists>gen p rv br key k. mn_run s = Trying (WaitRelay gen p rv br key k)")
  case True
  assume v: "node_inv s"
  from True obtain gen p rv br key k where r: "mn_run s = Trying (WaitRelay gen p rv br key k)" by blast
  have a: "accounts [Own k] s" "mn_bridge s = None" using v r by (auto simp: node_inv_def candidate_def)
  have p: "bp_injected (snd p) = None" using v r unfolding node_inv_def by blast
  show ?thesis using try_own [of k "s\<lparr>mn_open := Own k # mn_open s\<rparr>" p gen rv br key] ended_inv a p acc_shut [OF a(1)]
    by (auto simp: relay_result_def r split: prod.split bool.split)
qed (auto simp: relay_result_def split: run_state.split attempt.split)

lemma bridge_result_inv: "node_inv s \<Longrightarrow> node_inv (bridge_result discovered activates s)"
proof (cases "\<exists>gen p rv br key k given c. mn_run s = Trying (WaitBridge gen p rv br key k given c)")
  case True
  assume v: "node_inv s"
  from True obtain gen p rv br key k given c where r: "mn_run s = Trying (WaitBridge gen p rv br key k given c)" by blast
  let ?cs = "if bp_injected (snd p) = None then [k] else []"
  have a: "accounts ?cs s" "mn_bridge s = None" using v r by (auto simp: node_inv_def candidate_def)
  define b s1 where "b = mn_next s" and "s1 = mn_say (BridgeBuilt b) (s\<lparr>mn_next := b + 1\<rparr>)"
  have o1: "owes ?cs b s1" unfolding b_def s1_def by (rule owes_new [OF a(1)])
  have b1: "mn_bridge s1 = None" using a(2) by (simp add: s1_def)
  have d: "node_inv (attempt_ended gen ok (drop_candidate (Some b) p k s'))" if "owes ?cs b s'" for ok s'
    by (rule ended_inv [OF drop_owed [OF that]])
  show ?thesis
  proof (cases "attachCrossPcBridge (fst key) given discovered")
    case (Inl e)
    then show ?thesis using ended_inv [OF acc_drop [OF a(1)]] by (simp add: bridge_result_def r)
  next
    case (Inr t)
    have e: "bridge_result discovered activates s =
        (if attemptIsStale gen p br k c s1 then attempt_ended gen True (drop_candidate (Some b) p k s1)
         else (case merge_topology b rv t s1 of
                 None \<Rightarrow> attempt_ended gen False (drop_candidate (Some b) p k s1)
               | Some s2 \<Rightarrow>
                   if \<not> activates then attempt_ended gen False (drop_candidate (Some b) p k s2)
                   else (if attemptIsStale gen p br k c (mn_say (BridgeActivated b) s2)
                         then attempt_ended gen True (drop_candidate (Some b) p k (mn_say (BridgeActivated b) s2))
                         else attempt_ended gen True (publish b p key k (mn_say (BridgeActivated b) s2)))))"
      unfolding bridge_result_def r b_def s1_def Let_def by (simp add: Inr)
    show ?thesis
    proof (cases "merge_topology b rv t s1")
      case None
      then show ?thesis unfolding e using d [OF o1] by simp
    next
      case (Some s2)
      have o2: "owes ?cs b s2" "mn_bridge s2 = None" using merge_keeps(1,2) [OF Some] o1 b1 by auto
      have o3: "owes ?cs b (mn_say (BridgeActivated b) s2)" using o2(1) by simp
      have p: "node_inv (attempt_ended gen True (publish b p key k (mn_say (BridgeActivated b) s2)))"
        if "\<not> attemptIsStale gen p br k c (mn_say (BridgeActivated b) s2)"
        using that o2(2) by (intro ended_inv publish_inv [OF o3]) (auto simp: attemptIsStale_def)
      show ?thesis unfolding e Some option.case using d [OF o1] d [OF o2(1)] d [OF o3] p by simp
    qed
  qed
qed (auto simp: bridge_result_def split: run_state.split attempt.split)

section \<open>Every step keeps them\<close>

lemma node_acc: "node_inv s \<Longrightarrow> accounts (candidate s) s' \<Longrightarrow> mn_run s' = mn_run s \<Longrightarrow> mn_bridge s' = None \<or> mn_bridge s' = mn_bridge s \<Longrightarrow> node_inv s'"
  by (auto simp: node_inv_def candidate_def)

lemma clear_keeps [simp]: "mn_run (clearRelayReconnectTimer s) = mn_run s" "mn_bridge (clearRelayReconnectTimer s) = mn_bridge s"
  "mn_closed (clearRelayReconnectTimer s) = mn_closed s" "mn_params (clearRelayReconnectTimer s) = mn_params s" "mn_timer (clearRelayReconnectTimer s) = None"
  "mn_gen (clearRelayReconnectTimer s) = mn_gen s"
  by (simp_all add: clearRelayReconnectTimer_def)

lemma shut_keeps [simp]: "mn_run (closeOwnedRelay k s) = mn_run s" "mn_bridge (closeOwnedRelay k s) = mn_bridge s" "mn_closed (closeOwnedRelay k s) = mn_closed s"
  "mn_params (closeOwnedRelay k s) = mn_params s" "mn_timer (closeOwnedRelay k s) = mn_timer s" "mn_peer (closeOwnedRelay k s) = mn_peer s"
  "mn_gen (closeOwnedRelay k s) = mn_gen s" "mn_relay (closeOwnedRelay k s) = mn_relay s" "mn_latest (closeOwnedRelay k s) = mn_latest s"
  by (simp_all add: closeOwnedRelay_def)

lemma teardown_node_keeps [simp]: "mn_run (teardownPublishedBridge c s) = mn_run s" "mn_bridge (teardownPublishedBridge c s) = None"
  "mn_closed (teardownPublishedBridge c s) = mn_closed s" "mn_params (teardownPublishedBridge c s) = mn_params s"
  "mn_timer (teardownPublishedBridge c s) = mn_timer s" "mn_peer (teardownPublishedBridge c s) = mn_peer s" "mn_gen (teardownPublishedBridge c s) = mn_gen s"
  "mn_relay (teardownPublishedBridge c s) = None" "mn_latest (teardownPublishedBridge c s) = mn_latest s"
  by (simp_all add: teardownPublishedBridge_def Let_def split: option.split)

lemma schedule_keeps [simp]: "mn_run (scheduleRelayReconnect s) = mn_run s" "mn_bridge (scheduleRelayReconnect s) = mn_bridge s"
  "mn_closed (scheduleRelayReconnect s) = mn_closed s" "mn_params (scheduleRelayReconnect s) = mn_params s" "mn_latest (scheduleRelayReconnect s) = mn_latest s"
  "mn_gen (scheduleRelayReconnect s) = mn_gen s" "mn_peer (scheduleRelayReconnect s) = mn_peer s" "mn_relay (scheduleRelayReconnect s) = mn_relay s"
  by (simp_all add: scheduleRelayReconnect_def split: option.split)

lemma node_teardown: "node_inv s \<Longrightarrow> node_inv (teardownPublishedBridge True s)"
  by (rule node_acc) (auto simp: node_inv_def intro: acc_teardown)

lemma node_clear: "node_inv s \<Longrightarrow> node_inv (clearRelayReconnectTimer s)"
  by (rule node_acc) (auto simp: node_inv_def intro: acc_clear)

lemma node_schedule: "node_inv s \<Longrightarrow> node_inv (scheduleRelayReconnect s)"
  by (rule node_acc) (auto simp: node_inv_def intro: acc_schedule)

lemma retry_inv: "node_inv s \<Longrightarrow> node_inv (retry_if_unbridged s)"
  by (auto simp: retry_if_unbridged_def node_schedule split: option.split)

lemma resume_inv: "node_inv s \<Longrightarrow> node_inv (node_resume who ok s)"
  by (cases who) (simp_all add: node_resume_def request_node retry_inv node_schedule)

lemma settles_inv: "node_inv s \<Longrightarrow> node_inv (loop_settles s)"
proof (cases "\<exists>ok. mn_run s = Ran ok")
  case True
  assume v: "node_inv s"
  from True obtain ok where r: "mn_run s = Ran ok" by blast
  have "node_inv (fold (\<lambda>w. mn_task_add (Resume w ok)) ws s')" if "node_inv s'" for ws s'
    using that by (induction ws arbitrary: s') simp_all
  moreover have "node_inv (s\<lparr>mn_run := NoRun, mn_waiters := []\<rparr>)" using v r by (simp add: node_inv_def candidate_def)
  ultimately show ?thesis by (simp add: loop_settles_def r)
qed (auto simp: loop_settles_def split: run_state.split)

lemma reconnected_inv: "node_inv s \<Longrightarrow> node_inv (node_reconnected s)"
  by (simp add: node_reconnected_def request_node node_teardown node_clear)

lemma timer_inv: "node_inv s \<Longrightarrow> node_inv (node_timer_fires s)"
proof -
  assume v: "node_inv s"
  have "node_inv (s\<lparr>mn_timer := None\<rparr>)" using node_clear [OF v] by (simp add: clearRelayReconnectTimer_def)
  then show ?thesis using v by (auto simp: node_timer_fires_def attemptRelayReconnect_def request_node split: option.split)
qed

lemma lost_inv: "node_inv s \<Longrightarrow> node_inv (onSelfRelayClosed k s)"
proof (rule node_acc)
  assume "node_inv s"
  then show "accounts (candidate s) (onSelfRelayClosed k s)" by (intro acc_lost) (simp add: node_inv_def)
qed (simp_all add: onSelfRelayClosed_def)

lemma relay_closes_inv: "node_inv s \<Longrightarrow> node_inv (relay_closes k s)"
proof (cases "k \<in> set (mn_open s)")
  case True
  assume v: "node_inv s"
  define s1 where "s1 = s\<lparr>mn_open := removeAll k (mn_open s)\<rparr>"
  have v1: "node_inv s1" using v by (simp add: s1_def)
  define s2 where "s2 = (case mn_run s1 of
      Trying (WaitBridge gen p rv br key k' given c) \<Rightarrow> if k' = k then s1\<lparr>mn_run := Trying (WaitBridge gen p rv br key k' given True)\<rparr> else s1
    | _ \<Rightarrow> s1)"
  have "node_inv (s1\<lparr>mn_run := Trying (WaitBridge gen p rv br key k' given True)\<rparr>)"
    if r: "mn_run s1 = Trying (WaitBridge gen p rv br key k' given c)" for gen p rv br key k' given c
  proof -
    have "bp_injected (snd p) \<noteq> None \<longrightarrow> (\<exists>n. k' = Host n)" using v1 r unfolding node_inv_def by blast
    then show ?thesis using v1 r by (auto simp: node_inv_def candidate_def)
  qed
  then have "node_inv s2" unfolding s2_def using v1 by (auto split: run_state.split attempt.split)
  then show ?thesis using True lost_inv [of s2 k]
    by (simp add: relay_closes_def Let_def s1_def[symmetric] s2_def[symmetric])
qed (simp add: relay_closes_def)

lemma attach_inv: "node_inv s \<Longrightarrow> node_inv (attachBridge p s)"
proof -
  assume v: "node_inv s"
  have "node_inv (t\<lparr>mn_params := q, mn_next := mn_next t + 1\<rparr>)" if "node_inv t" "\<not> mn_closed t" for t q
  proof -
    have "accounts (candidate t) (t\<lparr>mn_params := q, mn_next := mn_next t + 1\<rparr>)" using that
      by (auto simp: node_inv_def accounts_def node_held_def built_def detached_def made_def given_up_def less_Suc_eq)
    then show ?thesis using that(1) by (intro node_acc [OF that(1)]) simp_all
  qed
  note fresh = this
  define t where "t = teardownPublishedBridge True (clearRelayReconnectTimer (s\<lparr>mn_gen := mn_gen s + 1\<rparr>))"
  have n: "mn_next t = mn_next s"
    by (simp add: t_def teardownPublishedBridge_def clearRelayReconnectTimer_def closeOwnedRelay_def Let_def split: option.split)
  have "node_inv t" "mn_closed t = mn_closed s" using v by (simp_all add: t_def node_teardown node_clear)
  then have "\<not> mn_closed s \<Longrightarrow> node_inv (t\<lparr>mn_params := Some (mn_next s, p), mn_next := mn_next s + 1\<rparr>)"
    using fresh [of t "Some (mn_next s, p)"] n by simp
  then have "\<not> mn_closed s \<Longrightarrow> node_inv (t\<lparr>mn_params := Some (mn_next s, p), mn_next := mn_next s + 1, mn_wired := True, mn_queued := True\<rparr>)"
    by simp
  then show ?thesis using v by (simp add: attachBridge_def Let_def t_def request_node)
qed

lemma node_detach_inv: "node_inv s \<Longrightarrow> node_inv (node_detachBridge s)"
proof -
  assume v: "node_inv s"
  have "accounts (candidate s) (s\<lparr>mn_gen := g, mn_queued := False, mn_params := None\<rparr>)" for g
    using v by (auto simp: node_inv_def accounts_def node_held_def built_def detached_def made_def given_up_def)
  then have "node_inv (s\<lparr>mn_gen := g, mn_queued := False, mn_params := None\<rparr>)" for g
    by (intro node_acc [OF v]) simp_all
  then show ?thesis by (simp add: node_detachBridge_def node_teardown node_clear)
qed

lemma node_close_inv:
  assumes v: "node_inv s"
  shows "node_inv (close_node inode s)"
proof (cases "mn_closed s")
  case False
  have d: "node_inv (node_detachBridge s)" by (rule node_detach_inv [OF v])
  have f: "mn_bridge (node_detachBridge s) = None" "mn_params (node_detachBridge s) = None" "mn_timer (node_detachBridge s) = None"
    by (simp_all add: node_detachBridge_def)
  have e: "node_detachBridge (s\<lparr>mn_closed := True\<rparr>) = (node_detachBridge s)\<lparr>mn_closed := True\<rparr>"
    by (simp add: node_detachBridge_def teardownPublishedBridge_def clearRelayReconnectTimer_def closeOwnedRelay_def mn_say_def Let_def split: option.split)
  have "node_inv ((node_detachBridge s)\<lparr>mn_closed := True\<rparr>)"
    by (rule node_acc [OF d]) (use d f in \<open>auto simp: node_inv_def accounts_def node_held_def built_def detached_def made_def given_up_def\<close>)
  then show ?thesis using False e by (simp add: close_node_def Let_def)
qed (simp add: close_node_def v)

lemma heed_inv: "node_inv s \<Longrightarrow> node_inv (heed e s)"
  by (induction e s rule: heed.induct) (simp_all add: reconnected_inv)

lemma heeds_inv: "node_inv s \<Longrightarrow> node_inv (fold heed es s)"
  by (induction es arbitrary: s) (simp_all add: heed_inv)

lemma mn_step_inv: "node_inv s \<Longrightarrow> node_inv (mn_step i s)"
proof -
  assume v: "node_inv s"
  have t: "node_inv (run_mn_task t (s\<lparr>mn_tasks := ts\<rparr>))" for t ts
    using v by (cases t) (simp_all add: resume_inv node_started_def Let_def request_node)
  show ?thesis
  proof (cases i)
    case (MnTopology x)
    then show ?thesis using v setTopology_node by (auto split: sum.split)
  qed (use v t in \<open>simp_all add: connect_node_def attach_inv node_detach_inv node_close_inv keys_result_inv relay_result_inv bridge_result_inv
      settles_inv timer_inv relay_closes_inv node_peersChanged_def peer_steps_def heeds_inv Let_def split: option.split\<close>)
qed

lemma new_node_inv: "node_inv (new_node p bridge)"
  by (simp add: node_inv_def new_node_def accounts_def candidate_def node_held_def opt_list_def built_def detached_def made_def given_up_def)

lemma mn_run_snoc: "mn_run_all (ins @ [i]) s = mn_step i (mn_run_all ins s)"
  by (simp add: mn_run_all_def)

lemma mn_run_inv: "node_inv (mn_run_all ins (new_node p bridge))"
  by (induction ins rule: rev_induct) (simp_all add: mn_run_snoc mn_step_inv new_node_inv mn_run_all_def)

section \<open>What a node guarantees\<close>

lemma mset_parts: "mset xs = mset ys + mset zs \<Longrightarrow> distinct xs \<Longrightarrow> distinct (ys @ zs) \<and> set xs = set ys \<union> set zs"
  by (metis mset_append mset_eq_imp_distinct_iff mset_eq_setD set_append)

text \<open>A node loses no bridge and no relay. In every run each bridge that was built is either the published one or was detached, once;
  each relay the node made is node_held by the attempt under way, serves the published bridge, was closed by the node, once,
  or closed by itself; a node never closes a relay of the host; and a closed node has no bridge, no
  parameters and no timer.\<close>

theorem node_accounts:
  assumes "s = mn_run_all ins (new_node p bridge)"
  shows "distinct (detached s @ opt_list (mn_bridge s)) \<and> set (built s) = set (detached s) \<union> set (opt_list (mn_bridge s)) \<and>
    distinct (given_up s @ candidate s @ node_held s) \<and> set (made s) = set (given_up s) \<union> set (candidate s) \<union> set (node_held s) \<and>
    (\<forall>n. RelayShut (Host n) \<notin> set (mn_log s)) \<and> (mn_bridge s = None \<longleftrightarrow> mn_relay s = None) \<and>
    (mn_closed s \<longrightarrow> mn_bridge s = None \<and> mn_params s = None \<and> mn_timer s = None)"
proof -
  have v: "accounts (candidate s) s" using mn_run_inv [of ins p bridge] unfolding assms node_inv_def by blast
  have b: "distinct (detached s @ opt_list (mn_bridge s)) \<and> set (built s) = set (detached s) \<union> set (opt_list (mn_bridge s))"
    using v by (intro mset_parts) (simp_all add: accounts_def)
  have r: "distinct (given_up s @ candidate s @ node_held s) \<and> set (made s) = set (given_up s) \<union> set (candidate s @ node_held s)"
    using v by (intro mset_parts) (simp_all add: accounts_def add.assoc)
  have "RelayShut (Host n) \<notin> set (mn_log s)" for n
  proof
    assume "RelayShut (Host n) \<in> set (mn_log s)"
    then have "Host n \<in> set (given_up s)" by (force simp: given_up_def)
    then have "Host n \<in> set (made s)" using r by auto
    then show False using v by (auto simp: accounts_def)
  qed
  then show ?thesis using b r v by (auto simp: accounts_def)
qed

section \<open>The topology of a node\<close>

definition own_ok :: "topology \<Rightarrow> bool" where
  "own_ok t \<longleftrightarrow>
     (\<forall>i \<in> set (tp_self t # tp_siblings t). identity_ok i) \<and> distinct (map ri_pcPubkey (tp_self t # tp_siblings t)) \<and>
     distinct (map ri_pcLabel (tp_self t # tp_siblings t)) \<and> sorted (map (\<lambda>i. u16_key (ri_pcPubkey i)) (tp_siblings t))"

lemma identity_made: "canonicalizeEd25519PublicKey raw f = Inr key \<Longrightarrow> validateAlias l g = Inr label \<Longrightarrow> validateLegacyPcLabel m h = Inr legacy \<Longrightarrow>
    identity_ok \<lparr>ri_pcPubkey = key, ri_pcLabel = label, ri_legacyPcLabel = legacy\<rparr>"
  by (auto simp: identity_ok_def validateAlias_def validateLegacyPcLabel_def dest: canonicalize_Inr split: if_split_asm)

lemma own_self_ok: "own_self i = Inr j \<Longrightarrow> identity_ok j"
  by (auto simp: own_self_def identity_made split: sum.split_asm)

lemma own_siblings_ok:
  "own_siblings n self keys aliases is = Inr is' \<Longrightarrow>
     (\<forall>i \<in> set is'. identity_ok i \<and> ri_pcPubkey i \<noteq> ri_pcPubkey self \<and> ri_pcLabel i \<noteq> ri_pcLabel self \<and>
        ri_pcPubkey i \<notin> set keys \<and> ri_pcLabel i \<notin> set aliases) \<and>
     distinct (map ri_pcPubkey is') \<and> distinct (map ri_pcLabel is')"
proof (induction n self keys aliases "is" arbitrary: is' rule: own_siblings.induct)
  case (2 n self keys aliases i rest)
  obtain key where k: "canonicalizeEd25519PublicKey (ri_pcPubkey i) (sibling_field n ''pcPubkey'') = Inr key"
    using "2.prems" by (cases "canonicalizeEd25519PublicKey (ri_pcPubkey i) (sibling_field n ''pcPubkey'')") simp_all
  show ?case
  proof (cases "key = ri_pcPubkey self")
    case True
    then show ?thesis using "2.IH"(1) [OF k True] "2.prems" k by simp
  next
    case False
    obtain label legacy where l: "validateAlias (ri_pcLabel i) (sibling_field n ''pcLabel'') = Inr label"
      "validateLegacyPcLabel (ri_legacyPcLabel i) (sibling_field n ''legacyPcLabel'') = Inr legacy"
      using "2.prems" k False by (auto split: sum.split_asm)
    have d: "\<not> (label = ri_pcLabel self \<or> label \<in> set aliases)" "key \<notin> set keys"
      using "2.prems" k False l by (auto split: if_split_asm)
    obtain js where j: "own_siblings (Suc n) self (key # keys) (label # aliases) rest = Inr js"
      "is' = \<lparr>ri_pcPubkey = key, ri_pcLabel = label, ri_legacyPcLabel = legacy\<rparr> # js"
      using "2.prems" k False l d by (auto split: sum.split_asm)
    show ?thesis using "2.IH"(2) [OF k False l d j(1)] identity_made [OF k l] False d unfolding j(2) by auto
  qed
qed simp

lemma own_ok_result: "ownTopology t = Inr t' \<Longrightarrow> own_ok t'"
proof -
  assume a: "ownTopology t = Inr t'"
  obtain self siblings where s: "own_self (tp_self t) = Inr self" "own_siblings 0 self [] [] (tp_siblings t) = Inr siblings"
    "t' = \<lparr>tp_self = self, tp_siblings = sort_key (\<lambda>s. u16_key (ri_pcPubkey s)) siblings\<rparr>"
    using a by (auto simp: ownTopology_def split: sum.split_asm)
  have d: "distinct (map f (sort_key g xs)) = distinct (map f xs)" for f :: "identity \<Rightarrow> string" and g :: "identity \<Rightarrow> nat list" and xs
    by (metis mset_map mset_sort mset_eq_imp_distinct_iff)
  show ?thesis using own_self_ok [OF s(1)] own_siblings_ok [OF s(2)] unfolding s(3) own_ok_def by (auto simp: d)
qed

lemma own_routing:
  assumes "own_ok t" and "e = None \<or> e = Some (ri_pcPubkey (tp_self t))"
  shows "\<exists>rt. buildRoutingState t e = Inr rt"
proof -
  let ?ss = "tp_siblings t"
  have i: "identity_ok (tp_self t)" "\<forall>i \<in> set ?ss. identity_ok i" using assms(1) by (auto simp: own_ok_def)
  have f: "filter (\<lambda>s. ri_pcPubkey s \<noteq> ri_pcPubkey (tp_self t)) ?ss = ?ss"
  proof (rule filter_True)
    have "ri_pcPubkey (tp_self t) \<notin> ri_pcPubkey ` set ?ss" using assms(1) by (simp add: own_ok_def)
    then show "\<forall>s \<in> set ?ss. ri_pcPubkey s \<noteq> ri_pcPubkey (tp_self t)" by (metis imageI)
  qed
  have srt: "sort_key (\<lambda>s. u16_key (ri_pcPubkey s)) ?ss = ?ss" using assms(1) by (simp add: own_ok_def sorted_sort_id sort_key_id_if_sorted)
  have "add_siblings ?ss (empty_routing (tp_self t)) = Inr (empty_routing (tp_self t)\<lparr>
     rt_by_label := map (\<lambda>s. (ri_pcLabel s, ri_pcPubkey s)) ?ss, rt_by_key := map (\<lambda>s. (ri_pcPubkey s, ri_pcLabel s)) ?ss,
     rt_legacy := map (\<lambda>s. (ri_pcPubkey s, ri_legacyPcLabel s)) ?ss\<rparr>)"
  proof (subst add_siblings_exact)
    have "ri_pcLabel (tp_self t) \<notin> ri_pcLabel ` set ?ss" using assms(1) by (simp add: own_ok_def)
    then have "\<forall>s \<in> set ?ss. ri_pcLabel s \<noteq> ri_pcLabel (tp_self t)" by (metis imageI)
    then show "\<forall>s \<in> set ?ss. ri_pcLabel s \<noteq> ri_pcLabel (rt_self (empty_routing (tp_self t))) \<and>
        ri_pcPubkey s \<notin> set (mkeys (rt_by_key (empty_routing (tp_self t)))) \<and>
        ri_pcLabel s \<notin> set (mkeys (rt_by_label (empty_routing (tp_self t)))) \<and> ri_pcPubkey s \<notin> set (mkeys (rt_legacy (empty_routing (tp_self t))))"
      by (simp add: empty_routing_def)
  qed (use assms(1) in \<open>simp_all add: own_ok_def empty_routing_def\<close>)
  then show ?thesis using assms(2) unfolding buildRoutingState_def check_identity_id [OF i(1)] check_siblings_id [OF i(2)]
    by (auto simp: f srt empty_routing_def)
qed

lemma identity_eq: "x = y \<longleftrightarrow> ri_pcPubkey x = ri_pcPubkey y \<and> ri_pcLabel x = ri_pcLabel y \<and> ri_legacyPcLabel x = ri_legacyPcLabel y"
  for x y :: identity
  by (cases x; cases y) simp

lemma topology_eq: "x = y \<longleftrightarrow> tp_self x = tp_self y \<and> tp_siblings x = tp_siblings y" for x y :: topology
  by (cases x; cases y) simp

lemma node_topologyEquals_iff: "node_topologyEquals l t \<longleftrightarrow> l = Some t"
proof (cases l)
  case (Some u)
  have e: "(\<lambda>x y. ri_pcPubkey x = ri_pcPubkey y \<and> ri_pcLabel x = ri_pcLabel y \<and> ri_legacyPcLabel x = ri_legacyPcLabel y) =
      ((=) :: identity \<Rightarrow> identity \<Rightarrow> bool)"
    by (intro ext) (rule identity_eq [symmetric])
  show ?thesis
    unfolding node_topologyEquals_def Some option.case e list.rel_eq option.inject topology_eq [of u t] identity_eq [of "tp_self u" "tp_self t"] by auto
qed (simp add: node_topologyEquals_def)

text \<open>What a node knows of topologies: its own and those it told its routers.\<close>

definition told :: "relay_node \<Rightarrow> topology list" where
  "told s = concat (map (\<lambda>e. case e of RouterTold b t \<Rightarrow> [t] | _ \<Rightarrow> []) (mn_log s))"

definition views :: "relay_node \<Rightarrow> topology option \<times> topology list \<times> nat" where
  "views s = (mn_latest s, told s, mn_revision s)"

lemma views_say [simp]: "(\<forall>b t. e \<noteq> RouterTold b t) \<Longrightarrow> views (mn_say e s) = views s"
  by (cases e) (simp_all add: views_def told_def)

lemma views_fields [simp]:
  "views (s\<lparr>mn_peer := a\<rparr>) = views s" "views (s\<lparr>mn_starting := b\<rparr>) = views s" "views (s\<lparr>mn_gen := e\<rparr>) = views s" "views (s\<lparr>mn_run := f\<rparr>) = views s"
  "views (s\<lparr>mn_waiters := g\<rparr>) = views s" "views (s\<lparr>mn_queued := h\<rparr>) = views s" "views (s\<lparr>mn_keypair := i\<rparr>) = views s" "views (s\<lparr>mn_wired := j\<rparr>) = views s"
  "views (s\<lparr>mn_open := k\<rparr>) = views s" "views (s\<lparr>mn_backoff := l\<rparr>) = views s" "views (s\<lparr>mn_tasks := m\<rparr>) = views s" "views (s\<lparr>mn_closed := n\<rparr>) = views s"
  "views (s\<lparr>mn_bridge := q\<rparr>) = views s" "views (s\<lparr>mn_relay := r\<rparr>) = views s" "views (s\<lparr>mn_relayOwned := t\<rparr>) = views s" "views (s\<lparr>mn_handler := u\<rparr>) = views s"
  "views (s\<lparr>mn_params := v\<rparr>) = views s" "views (s\<lparr>mn_shut := w\<rparr>) = views s" "views (s\<lparr>mn_timer := x\<rparr>) = views s" "views (s\<lparr>mn_next := y\<rparr>) = views s"
  by (simp_all add: views_def told_def)

lemma views_ops [simp]:
  "views (closeOwnedRelay k s) = views s" "views (clearRelayReconnectTimer s) = views s" "views (mn_task_add t s) = views s"
  "views (scheduleRelayReconnect s) = views s"
  by (simp_all add: closeOwnedRelay_def clearRelayReconnectTimer_def mn_task_add_def scheduleRelayReconnect_def split: option.split)

lemma views_teardown [simp]: "views (teardownPublishedBridge c s) = views s"
  by (simp add: teardownPublishedBridge_def Let_def split: option.split)

lemma views_lost [simp]: "views (onSelfRelayClosed k s) = views s"
  by (simp add: onSelfRelayClosed_def)

lemma views_keys [simp]: "views (snd (with_keys gen p rv br key s)) = views s"
  by (simp add: with_keys_def try_bridge_def Let_def split: option.split)

lemma views_starts [simp]: "views (snd (attempt_starts s)) = views s"
  by (simp add: attempt_starts_def split: option.split)

lemma views_turn [simp]: "views (loop_turn s) = views s"
  using views_starts [of "s\<lparr>mn_queued := False\<rparr>"]
  by (cases "attempt_starts (s\<lparr>mn_queued := False\<rparr>)") (auto simp: loop_turn_def split: bool.split)

lemma views_ended [simp]: "views (attempt_ended gen ok s) = views s"
  by (simp add: attempt_ended_def)

lemma views_request [simp]: "views (requestBridge who s) = views s"
  by (simp add: requestBridge_def Let_def)

lemma views_resume [simp]: "views (node_resume who ok s) = views s" "views (retry_if_unbridged s) = views s"
  by (cases who; simp add: node_resume_def retry_if_unbridged_def split: option.split)
    (simp add: retry_if_unbridged_def split: option.split)

lemma views_keys_result [simp]: "views (keys_result out s) = views s"
proof -
  have "views s1 = views s" if "with_keys gen p rv br key s = (w, s1)" for gen p rv br key w s1
    using views_keys [of gen p rv br key s] that by simp
  then show ?thesis by (auto simp: keys_result_def split: run_state.split attempt.split option.split prod.split bool.split)
qed

lemma views_relay_result [simp]: "views (relay_result ok s) = views s"
  by (auto simp: relay_result_def try_bridge_def split: run_state.split attempt.split prod.split)

lemma views_drop [simp]: "views (drop_candidate b p k s) = views s"
  by (simp add: drop_candidate_def Let_def split: option.split)

lemma views_publish [simp]: "views (publish b p key k s) = views s"
  by (simp add: publish_def Let_def)

lemma views_settles [simp]: "views (loop_settles s) = views s"
proof -
  have "views (fold (\<lambda>w. mn_task_add (Resume w ok)) ws s') = views s'" for ok ws s' by (induction ws arbitrary: s') simp_all
  then show ?thesis by (simp add: loop_settles_def split: run_state.split)
qed

lemma views_reconnected [simp]: "views (node_reconnected s) = views s" "views (node_timer_fires s) = views s" "views (relay_closes k s) = views s"
  by (auto simp: node_reconnected_def node_timer_fires_def attemptRelayReconnect_def relay_closes_def Let_def split: option.split run_state.split attempt.split)

lemma views_heeds [simp]: "views (fold heed es s) = views s"
proof (induction es arbitrary: s)
  case (Cons e es)
  have "views (heed e s) = views s" by (induction e s rule: heed.induct) simp_all
  then show ?case using Cons.IH [of "heed e s"] by simp
qed simp

definition topo_inv :: "relay_node \<Rightarrow> bool" where
  "topo_inv s \<longleftrightarrow> (\<forall>t. mn_latest s = Some t \<longrightarrow> own_ok t) \<and> (\<forall>t \<in> set (told s). own_ok t)"

lemma topo_views: "views s' = views s \<Longrightarrow> topo_inv s' = topo_inv s"
  by (simp add: topo_inv_def views_def)

lemma topo_set: "topo_inv s \<Longrightarrow> node_setTopology t s = Inr s' \<Longrightarrow> topo_inv s'"
  by (auto simp: node_setTopology_def topo_inv_def told_def Let_def dest: own_ok_result split: sum.split_asm if_split_asm option.split_asm)

lemma topo_merge: "topo_inv s \<Longrightarrow> merge_topology b rv t s = Some s' \<Longrightarrow> topo_inv s'"
  by (auto simp: merge_topology_def intro: topo_set split: option.split_asm sum.split_asm if_split_asm)
    (auto simp: topo_inv_def told_def)

lemma topo_bridge: "topo_inv s \<Longrightarrow> topo_inv (bridge_result discovered activates s)"
proof -
  assume v: "topo_inv s"
  have w: "topo_inv (mn_say (BridgeBuilt b) (s\<lparr>mn_next := n\<rparr>))" for b n
    using v by (rule topo_views [THEN iffD2, rotated]) simp
  have e: "topo_inv s'" if "views s' = views x" "topo_inv x" for s' x using topo_views [OF that(1)] that(2) by simp
  show ?thesis
  proof (cases "\<exists>gen p rv br key k given c t. mn_run s = Trying (WaitBridge gen p rv br key k given c) \<and> attachCrossPcBridge (fst key) given discovered = Inr t")
    case True
    then obtain gen p rv br key k given c t where r: "mn_run s = Trying (WaitBridge gen p rv br key k given c)"
      "attachCrossPcBridge (fst key) given discovered = Inr t" by blast
    define s1 where "s1 = mn_say (BridgeBuilt (mn_next s)) (s\<lparr>mn_next := mn_next s + 1\<rparr>)"
    have w1: "topo_inv s1" using w by (simp add: s1_def)
    show ?thesis
    proof (cases "merge_topology (mn_next s) rv t s1")
      case None
      then show ?thesis using w1 unfolding bridge_result_def r Let_def s1_def[symmetric]
        by (auto simp: r s1_def[symmetric] intro: e)
    next
      case (Some s2)
      have "topo_inv s2" by (rule topo_merge [OF w1 Some])
      then show ?thesis using w1 Some unfolding bridge_result_def r Let_def s1_def[symmetric]
        by (auto simp: r s1_def[symmetric] intro: e)
    qed
  next
    case False
    then have "views (bridge_result discovered activates s) = views s"
      by (auto simp: bridge_result_def split: run_state.split attempt.split sum.split)
    then show ?thesis using v e by blast
  qed
qed

lemma step_views:
  assumes "\<forall>t. i \<noteq> MnTopology t" and "\<forall>d a. i \<noteq> MnBridge d a"
  shows "views (mn_step i s) = views s"
proof (cases i)
  case (MnTask t)
  have "views (run_mn_task t x) = views x" for x by (cases t) (simp_all add: node_started_def Let_def)
  then show ?thesis by (simp add: MnTask)
qed (use assms in \<open>simp_all add: connect_node_def attachBridge_def node_detachBridge_def close_node_def node_peersChanged_def peer_steps_def
    Let_def split: option.split\<close>)

lemma mn_step_topo:
  assumes v: "topo_inv s"
  shows "topo_inv (mn_step i s)"
proof (cases "\<exists>t. i = MnTopology t")
  case True
  then show ?thesis using v topo_set [OF v] by (auto split: sum.split)
next
  case False
  show ?thesis
  proof (cases "\<exists>d a. i = MnBridge d a")
    case True
    then show ?thesis using topo_bridge [OF v] by auto
  next
    case no: False
    have "views (mn_step i s) = views s" using False no by (intro step_views) auto
    then show ?thesis using v topo_views by blast
  qed
qed

lemma mn_run_topo: "topo_inv (mn_run_all ins (new_node p bridge))"
proof (induction ins rule: rev_induct)
  case Nil
  show ?case by (simp add: mn_run_all_def new_node_def topo_inv_def told_def)
qed (simp add: mn_run_snoc mn_step_topo)

text \<open>The topology of a node is always well formed. In every run the topology a node keeps, and every one it told a router of its own, is
  canonical: keys in their one text, no key and no label twice, none of them the node's own, the siblings in the order of their keys; and a
  router with the node's key accepts it. A new topology is refused without a trace, or replaces the old one
  under the same key of the machine, counts as a revision exactly when it differs, and reaches the router.\<close>

theorem node_topology:
  assumes "s = mn_run_all ins (new_node p bridge)"
  shows "(\<forall>t. mn_latest s = Some t \<or> t \<in> set (told s) \<longrightarrow> own_ok t \<and> (\<exists>rt. buildRoutingState t (Some (ri_pcPubkey (tp_self t))) = Inr rt)) \<and>
    (\<forall>e. node_setTopology t s = Inl e \<longrightarrow> mn_step (MnTopology t) s = s) \<and>
    (\<forall>s'. node_setTopology t s = Inr s' \<longrightarrow>
       (\<forall>old. mn_latest s = Some old \<longrightarrow> ri_pcPubkey (tp_self (the (mn_latest s'))) = ri_pcPubkey (tp_self old)) \<and>
       (mn_revision s' = mn_revision s \<longleftrightarrow> mn_latest s' = mn_latest s) \<and>
       told s' = told s @ (if mn_bridge s = None then [] else [the (mn_latest s')]))"
proof -
  have v: "topo_inv s" unfolding assms by (rule mn_run_topo)
  then have "own_ok t" if "mn_latest s = Some t \<or> t \<in> set (told s)" for t using that by (auto simp: topo_inv_def)
  moreover have "\<exists>rt. buildRoutingState t (Some (ri_pcPubkey (tp_self t))) = Inr rt" if "own_ok t" for t by (rule own_routing [OF that]) simp
  moreover have "(\<forall>old. mn_latest s = Some old \<longrightarrow> ri_pcPubkey (tp_self (the (mn_latest s'))) = ri_pcPubkey (tp_self old)) \<and>
       (mn_revision s' = mn_revision s \<longleftrightarrow> mn_latest s' = mn_latest s) \<and>
       told s' = told s @ (if mn_bridge s = None then [] else [the (mn_latest s')])" if st: "node_setTopology t s = Inr s'" for s'
  proof -
    obtain own where o: "ownTopology t = Inr own" "\<not> (mn_latest s \<noteq> None \<and> ri_pcPubkey (tp_self (the (mn_latest s))) \<noteq> ri_pcPubkey (tp_self own))"
      using st by (auto simp: node_setTopology_def split: sum.split_asm if_split_asm)
    show ?thesis using st o(2)
      by (cases "mn_bridge s"; cases "mn_latest s = Some own") (auto simp: node_setTopology_def o(1) node_topologyEquals_iff Let_def told_def)
  qed
  ultimately show ?thesis by (simp add: mn_step.simps)
qed

end
