(* ===== verification/MeshNodeLife.thy ===== *)
theory MeshNodeLife
  imports MeshNodeProps
begin

text \<open>
  The life of a bridge: a closed node never opens anything again, and a node that leads replaces a relay that was lost. The
  invariant behind the second is that what a node has published fits its parameters, its topology and its keys.
\<close>

section \<open>A closed node\<close>

definition shut_down :: "relay_node \<Rightarrow> bool" where
  "shut_down s \<longleftrightarrow> mn_closed s \<and> mn_bridge s = None \<and> mn_relay s = None \<and> mn_params s = None \<and> mn_timer s = None"

fun inert :: "mn_event \<Rightarrow> bool" where
  "inert (RelayMade k u n) = False"
| "inert (BridgeActivated b) = False"
| "inert (BridgePublished b k) = False"
| "inert (RouterTold b t) = False"
| "inert (RouterPeers b ns) = False"
| "inert _ = True"

definition still :: "relay_node \<Rightarrow> relay_node \<Rightarrow> bool" where
  "still s s' \<longleftrightarrow> shut_down s' \<and> (\<exists>es. mn_log s' = mn_log s @ es \<and> list_all inert es)"

lemma still_refl [intro]: "shut_down s \<Longrightarrow> still s s"
  by (simp add: still_def)

lemma still_trans: "still s t \<Longrightarrow> still t u \<Longrightarrow> still s u"
  by (auto simp: still_def)

lemma still_shut: "still s t \<Longrightarrow> shut_down t"
  by (simp add: still_def)

lemma still_say: "still s t \<Longrightarrow> inert e \<Longrightarrow> still s (mn_say e t)"
  by (auto simp: still_def shut_down_def)

lemma still_fields [simp]:
  "still s (t\<lparr>mn_peer := a\<rparr>) = still s t" "still s (t\<lparr>mn_starting := b\<rparr>) = still s t" "still s (t\<lparr>mn_latest := c\<rparr>) = still s t"
  "still s (t\<lparr>mn_revision := d\<rparr>) = still s t" "still s (t\<lparr>mn_gen := e\<rparr>) = still s t" "still s (t\<lparr>mn_run := f\<rparr>) = still s t"
  "still s (t\<lparr>mn_waiters := g\<rparr>) = still s t" "still s (t\<lparr>mn_queued := h\<rparr>) = still s t" "still s (t\<lparr>mn_keypair := i\<rparr>) = still s t"
  "still s (t\<lparr>mn_wired := j\<rparr>) = still s t" "still s (t\<lparr>mn_open := k\<rparr>) = still s t" "still s (t\<lparr>mn_backoff := l\<rparr>) = still s t"
  "still s (t\<lparr>mn_tasks := m\<rparr>) = still s t" "still s (t\<lparr>mn_next := n\<rparr>) = still s t" "still s (t\<lparr>mn_relayOwned := q\<rparr>) = still s t"
  "still s (t\<lparr>mn_handler := r\<rparr>) = still s t" "still s (t\<lparr>mn_shut := v\<rparr>) = still s t" "still s (mn_task_add u t) = still s t"
  by (simp_all add: still_def shut_down_def mn_task_add_def)

lemma shut_fields [simp]:
  "shut_down s \<Longrightarrow> mn_closed s" "shut_down s \<Longrightarrow> mn_bridge s = None" "shut_down s \<Longrightarrow> mn_relay s = None" "shut_down s \<Longrightarrow> mn_params s = None"
  "shut_down s \<Longrightarrow> mn_timer s = None"
  by (simp_all add: shut_down_def)

lemma closed_shut: "accounts cs s \<Longrightarrow> mn_closed s \<Longrightarrow> shut_down s"
  by (auto simp: shut_down_def accounts_def simp del: shut_fields)

lemma still_close_relay: "still s t \<Longrightarrow> still s (closeOwnedRelay k t)"
  by (simp add: closeOwnedRelay_def still_say)

lemma still_drop: "still s t \<Longrightarrow> still s (drop_candidate b p k t)"
  by (simp add: drop_candidate_def Let_def still_say still_close_relay split: option.split)

lemma still_turn: "still s t \<Longrightarrow> still s (loop_turn t)"
  by (simp add: loop_turn_def attempt_starts_def still_shut [THEN shut_fields(1)])

lemma still_ended: "still s t \<Longrightarrow> still s (attempt_ended gen ok t)"
  by (simp add: attempt_ended_def still_turn)

lemma still_request: "still s t \<Longrightarrow> still s (requestBridge who t)"
  by (simp add: requestBridge_def Let_def still_shut [THEN shut_fields(1)])

lemma still_schedule: "still s t \<Longrightarrow> scheduleRelayReconnect t = t"
  by (simp add: scheduleRelayReconnect_def still_shut [THEN shut_fields(1)])

lemma still_retry: "still s t \<Longrightarrow> retry_if_unbridged t = t"
  by (simp add: retry_if_unbridged_def still_shut [THEN shut_fields(4)])

lemma still_resume: "still s t \<Longrightarrow> still s (node_resume who ok t)"
  by (cases who) (simp_all add: node_resume_def still_say still_request still_retry still_schedule)

lemma still_settles: "still s t \<Longrightarrow> still s (loop_settles t)"
proof -
  have "still s (fold (\<lambda>w. mn_task_add (Resume w ok)) ws t')" if "still s t'" for ok ws t' using that by (induction ws arbitrary: t') simp_all
  then show "still s t \<Longrightarrow> still s (loop_settles t)" by (simp add: loop_settles_def split: run_state.split)
qed

lemma still_teardown: "shut_down t \<Longrightarrow> teardownPublishedBridge c t = t\<lparr>mn_relayOwned := False, mn_handler := False\<rparr>"
  by (simp add: teardownPublishedBridge_def)

lemma still_detach: "still s t \<Longrightarrow> still s (node_detachBridge t)"
proof -
  assume q: "still s t"
  have "still s (t\<lparr>mn_gen := g, mn_queued := False, mn_params := None, mn_timer := None\<rparr>)" for g using q unfolding still_def shut_down_def by simp
  note a = this [of "mn_gen t + 1"]
  show ?thesis unfolding node_detachBridge_def clearRelayReconnectTimer_def using a still_teardown [OF still_shut [OF a]] by simp
qed

lemma still_keys: "still s t \<Longrightarrow> still s (keys_result out t)"
proof -
  assume q: "still s t"
  have "with_keys gen p rv br key t = (False, t)" for gen p rv br key using q by (simp add: with_keys_def still_shut [THEN shut_fields(4)])
  then show ?thesis using q by (auto simp: keys_result_def still_ended split: run_state.split attempt.split option.split)
qed

lemma still_relay: "still s t \<Longrightarrow> still s (relay_result ok t)"
  by (auto simp: relay_result_def try_bridge_def still_ended still_close_relay split: run_state.split attempt.split)

lemma still_bridge: "still s t \<Longrightarrow> still s (bridge_result discovered activates t)"
proof -
  assume q: "still s t"
  have b: "still s (mn_say (BridgeBuilt n) (t\<lparr>mn_next := m\<rparr>))" for n m using q by (intro still_say) simp_all
  have c: "attemptIsStale gen p br k c (mn_say e (t\<lparr>mn_next := m\<rparr>))" for gen p br k c e m
    using still_shut [OF q] by (simp add: attemptIsStale_def)
  show ?thesis using q b
    by (auto simp: bridge_result_def Let_def c still_ended still_drop split: run_state.split attempt.split sum.split)
qed

lemma still_heeds: "still s t \<Longrightarrow> still s (fold heed es t)"
proof (induction es arbitrary: t)
  case (Cons e es)
  have "node_reconnected t = t" using still_shut [OF Cons.prems] by (simp add: node_reconnected_def)
  then have "still s (heed e t)" using Cons.prems by (induction e t rule: heed.induct) simp_all
  then show ?case using Cons.IH by simp
qed simp

lemma still_topology: "shut_down s \<Longrightarrow> node_setTopology t s = Inr s' \<Longrightarrow> still s s'"
  by (auto simp: node_setTopology_def Let_def still_refl split: sum.split_asm if_split_asm)

lemma still_step: "shut_down s \<Longrightarrow> still s (mn_step i s)"
proof -
  assume q: "shut_down s"
  have r: "still s s" by (rule still_refl [OF q])
  have t: "still s (run_mn_task t (s\<lparr>mn_tasks := ts\<rparr>))" for t ts
    using r q by (cases t) (simp_all add: still_resume still_say node_started_def)
  have l: "still s (relay_closes k s)" for k
    using r q by (auto simp: relay_closes_def Let_def split: run_state.split attempt.split)
  have m: "still s (attachBridge p s)" "still s (connect_node s)" for p
    using r q by (simp_all add: attachBridge_def connect_node_def still_say)
  show ?thesis
    by (cases i) (use r q t l m in \<open>auto simp: still_detach close_node_def still_keys still_relay still_bridge still_settles node_timer_fires_def
        node_peersChanged_def peer_steps_def still_heeds Let_def intro: still_topology split: sum.split\<close>)
qed

lemma still_run: "shut_down s \<Longrightarrow> still s (mn_run_all ins s)"
proof (induction ins rule: rev_induct)
  case (snoc i ins)
  then show ?case unfolding mn_run_snoc by (meson still_shut still_step still_trans)
qed (simp add: mn_run_all_def still_refl)

section \<open>What is published fits\<close>

text \<open>A published bridge goes with the parameters, the topology and the keys the node has; an attempt with the revision it began with.\<close>

definition key_fits :: "params \<Rightarrow> keys \<Rightarrow> bool" where
  "key_fits p key \<longleftrightarrow> (bp_keypair (snd p) = None \<or> bp_keypair (snd p) = Some key)"

definition published_fits :: "relay_node \<Rightarrow> bool" where
  "published_fits s \<longleftrightarrow>
     (mn_bridge s \<noteq> None \<longrightarrow>
       (\<exists>p t key. mn_params s = Some p \<and> mn_latest s = Some t \<and> mn_keypair s = Some key \<and> key_fits p key \<and>
          encodeEd25519PublicKey (fst key) ''relay public key'' = Inr (ri_pcPubkey (tp_self t)) \<and>
          (mn_relayOwned s \<longleftrightarrow> bp_injected (snd p) = None)))"

fun attempt_ok :: "nat \<Rightarrow> topology option \<Rightarrow> run_state \<Rightarrow> bool" where
  "attempt_ok r l (Trying (WaitKeys gen p rv br)) \<longleftrightarrow> rv \<le> r \<and> bp_keypair (snd p) = None"
| "attempt_ok r l (Trying (WaitRelay gen p rv br key k)) \<longleftrightarrow> rv \<le> r \<and> key_fits p key"
| "attempt_ok r l (Trying (WaitBridge gen p rv br key k given c)) \<longleftrightarrow> rv \<le> r \<and> key_fits p key \<and> (rv = r \<longrightarrow> given = l)"
| "attempt_ok r l NoRun \<longleftrightarrow> True"
| "attempt_ok r l (Ran ok) \<longleftrightarrow> True"

definition attempt_fits :: "relay_node \<Rightarrow> bool" where
  "attempt_fits s \<longleftrightarrow> attempt_ok (mn_revision s) (mn_latest s) (mn_run s)"

definition fits :: "relay_node \<Rightarrow> bool" where
  "fits s \<longleftrightarrow> published_fits s \<and> attempt_fits s"

lemma published_fields [simp]:
  "published_fits (s\<lparr>mn_peer := a\<rparr>) = published_fits s" "published_fits (s\<lparr>mn_starting := b\<rparr>) = published_fits s"
  "published_fits (s\<lparr>mn_revision := d\<rparr>) = published_fits s" "published_fits (s\<lparr>mn_gen := e\<rparr>) = published_fits s"
  "published_fits (s\<lparr>mn_run := f\<rparr>) = published_fits s" "published_fits (s\<lparr>mn_waiters := g\<rparr>) = published_fits s"
  "published_fits (s\<lparr>mn_queued := h\<rparr>) = published_fits s" "published_fits (s\<lparr>mn_wired := j\<rparr>) = published_fits s"
  "published_fits (s\<lparr>mn_open := k\<rparr>) = published_fits s" "published_fits (s\<lparr>mn_backoff := l\<rparr>) = published_fits s"
  "published_fits (s\<lparr>mn_tasks := m\<rparr>) = published_fits s" "published_fits (s\<lparr>mn_next := n\<rparr>) = published_fits s"
  "published_fits (s\<lparr>mn_timer := q\<rparr>) = published_fits s" "published_fits (s\<lparr>mn_shut := r\<rparr>) = published_fits s"
  "published_fits (s\<lparr>mn_closed := u\<rparr>) = published_fits s" "published_fits (s\<lparr>mn_log := v\<rparr>) = published_fits s"
  "published_fits (mn_say w s) = published_fits s" "published_fits (mn_task_add x s) = published_fits s"
  by (simp_all add: published_fits_def mn_say_def mn_task_add_def)

lemma attempt_fields [simp]:
  "attempt_fits (s\<lparr>mn_peer := a\<rparr>) = attempt_fits s" "attempt_fits (s\<lparr>mn_starting := b\<rparr>) = attempt_fits s"
  "attempt_fits (s\<lparr>mn_gen := e\<rparr>) = attempt_fits s" "attempt_fits (s\<lparr>mn_waiters := g\<rparr>) = attempt_fits s"
  "attempt_fits (s\<lparr>mn_queued := h\<rparr>) = attempt_fits s" "attempt_fits (s\<lparr>mn_wired := j\<rparr>) = attempt_fits s"
  "attempt_fits (s\<lparr>mn_open := k\<rparr>) = attempt_fits s" "attempt_fits (s\<lparr>mn_backoff := l\<rparr>) = attempt_fits s"
  "attempt_fits (s\<lparr>mn_tasks := m\<rparr>) = attempt_fits s" "attempt_fits (s\<lparr>mn_next := n\<rparr>) = attempt_fits s"
  "attempt_fits (s\<lparr>mn_timer := q\<rparr>) = attempt_fits s" "attempt_fits (s\<lparr>mn_shut := r\<rparr>) = attempt_fits s"
  "attempt_fits (s\<lparr>mn_closed := u\<rparr>) = attempt_fits s" "attempt_fits (s\<lparr>mn_log := v\<rparr>) = attempt_fits s"
  "attempt_fits (s\<lparr>mn_params := w\<rparr>) = attempt_fits s" "attempt_fits (s\<lparr>mn_bridge := x\<rparr>) = attempt_fits s"
  "attempt_fits (s\<lparr>mn_relay := y\<rparr>) = attempt_fits s" "attempt_fits (s\<lparr>mn_relayOwned := z\<rparr>) = attempt_fits s"
  "attempt_fits (s\<lparr>mn_handler := a'\<rparr>) = attempt_fits s" "attempt_fits (s\<lparr>mn_keypair := b'\<rparr>) = attempt_fits s"
  "attempt_fits (mn_say c' s) = attempt_fits s" "attempt_fits (mn_task_add d' s) = attempt_fits s"
  by (simp_all add: attempt_fits_def mn_say_def mn_task_add_def)

lemma fits_ops [simp]:
  "published_fits (closeOwnedRelay k s) = published_fits s" "attempt_fits (closeOwnedRelay k s) = attempt_fits s"
  "published_fits (clearRelayReconnectTimer s) = published_fits s" "attempt_fits (clearRelayReconnectTimer s) = attempt_fits s"
  "published_fits (scheduleRelayReconnect s) = published_fits s" "attempt_fits (scheduleRelayReconnect s) = attempt_fits s"
  "published_fits (teardownPublishedBridge b s)" "attempt_fits (teardownPublishedBridge b s) = attempt_fits s"
  "published_fits (drop_candidate n p k s) = published_fits s" "attempt_fits (drop_candidate n p k s) = attempt_fits s"
  "published_fits (retry_if_unbridged s) = published_fits s" "attempt_fits (retry_if_unbridged s) = attempt_fits s"
  by (simp_all add: closeOwnedRelay_def clearRelayReconnectTimer_def scheduleRelayReconnect_def teardownPublishedBridge_def drop_candidate_def
      retry_if_unbridged_def Let_def split: option.split)
    (simp add: published_fits_def)?

lemma try_fits:
  assumes "published_fits s" and "rv \<le> mn_revision s" and "key_fits p key" and "try_bridge gen p rv br key k s = (w, s1)"
  shows "published_fits s1 \<and> (w \<longrightarrow> attempt_fits s1)"
  using assms by (auto simp: try_bridge_def attempt_fits_def split: if_split_asm)

lemma keys_fits:
  assumes "published_fits s" and "rv \<le> mn_revision s" and "key_fits p key" and "with_keys gen p rv br key s = (w, s1)"
  shows "published_fits s1 \<and> (w \<longrightarrow> attempt_fits s1)"
  using assms try_fits [OF assms(1-3)]
  by (auto simp: with_keys_def Let_def attempt_fits_def split: if_split_asm option.split_asm)

lemma starts_fits:
  assumes "published_fits s" and "attempt_starts s = (w, s1)"
  shows "published_fits s1 \<and> (w \<longrightarrow> attempt_fits s1)"
proof -
  have "key_fits p key" if "bp_keypair (snd p) = None \<or> bp_keypair (snd p) = Some key" for p key using that by (simp add: key_fits_def)
  then have k: "published_fits s1 \<and> (w \<longrightarrow> attempt_fits s1)"
    if "with_keys gen p (mn_revision s) br key s = (w, s1)" "bp_keypair (snd p) = None \<or> bp_keypair (snd p) = Some key" for gen p br key
    using keys_fits [OF assms(1) order.refl _ that(1)] that(2) by blast
  have n: "attempt_fits (s\<lparr>mn_run := Trying (WaitKeys gen p (mn_revision s) br)\<rparr>)" if "bp_keypair (snd p) = None" for gen p br
    using that by (simp add: attempt_fits_def)
  show ?thesis using assms k n
    by (auto simp: attempt_starts_def split: if_split_asm option.split_asm)
qed

lemma turn_fits: "published_fits s \<Longrightarrow> fits (loop_turn s)"
  using starts_fits [of "s\<lparr>mn_queued := False\<rparr>"]
  by (cases "attempt_starts (s\<lparr>mn_queued := False\<rparr>)") (auto simp: loop_turn_def fits_def attempt_fits_def split: bool.split)

lemma ended_fits: "published_fits s \<Longrightarrow> fits (attempt_ended gen ok s)"
  using turn_fits [of s] by (simp add: attempt_ended_def fits_def) (simp add: attempt_fits_def)

lemma request_fits: "fits s \<Longrightarrow> fits (requestBridge who s)"
  using turn_fits [of "s\<lparr>mn_queued := True, mn_waiters := mn_waiters s @ [who]\<rparr>"] by (simp add: requestBridge_def Let_def fits_def)

lemma set_fits: "node_setTopology t s = Inr s' \<Longrightarrow> published_fits s \<Longrightarrow> published_fits s'"
  by (auto simp: node_setTopology_def Let_def published_fits_def split: sum.split_asm if_split_asm option.split_asm)

lemma attempt_later: "attempt_ok r l a \<Longrightarrow> attempt_ok (Suc r) l' a"
  by (induction r l a rule: attempt_ok.induct) auto

lemma set_attempt: "node_setTopology t s = Inr s' \<Longrightarrow> attempt_fits s \<Longrightarrow> attempt_fits s'"
  by (auto simp: node_setTopology_def Let_def attempt_fits_def node_topologyEquals_iff dest: attempt_later
      split: sum.split_asm if_split_asm option.split_asm)

lemma attempt_wait [simp]: "attempt_fits (s\<lparr>mn_run := r\<rparr>) = attempt_ok (mn_revision s) (mn_latest s) r"
  by (simp add: attempt_fits_def)

lemma keys_result_fits: "fits s \<Longrightarrow> fits (keys_result out s)"
proof (cases "\<exists>gen p rv br. mn_run s = Trying (WaitKeys gen p rv br)")
  case True
  assume v: "fits s"
  from True obtain gen p rv br where r: "mn_run s = Trying (WaitKeys gen p rv br)" by blast
  have a: "published_fits s" "rv \<le> mn_revision s" "key_fits p key" for key using v by (auto simp: fits_def attempt_fits_def r key_fits_def)
  have e: "fits s1" if "with_keys gen p rv br key s = (True, s1)" for key s1 using keys_fits [OF a that] by (simp add: fits_def)
  have f: "fits (attempt_ended gen ok s1)" if "with_keys gen p rv br key s = (False, s1)" for key s1 ok
    using keys_fits [OF a that] by (simp add: ended_fits)
  show ?thesis using e f ended_fits [OF a(1)] by (auto simp: keys_result_def r split: option.split prod.split bool.split)
qed (auto simp: keys_result_def split: run_state.split attempt.split)

lemma relay_result_fits: "fits s \<Longrightarrow> fits (relay_result ok s)"
proof (cases "\<exists>gen p rv br key k. mn_run s = Trying (WaitRelay gen p rv br key k)")
  case True
  assume v: "fits s"
  from True obtain gen p rv br key k where r: "mn_run s = Trying (WaitRelay gen p rv br key k)" by blast
  let ?s = "s\<lparr>mn_open := Own k # mn_open s\<rparr>"
  have a: "published_fits ?s" "rv \<le> mn_revision ?s" "key_fits p key" using v by (auto simp: fits_def attempt_fits_def r)
  have e: "fits s1" if "try_bridge gen p rv br key (Own k) ?s = (True, s1)" for s1 using try_fits [OF a that] by (simp add: fits_def)
  have f: "fits (attempt_ended gen b s1)" if "try_bridge gen p rv br key (Own k) ?s = (False, s1)" for s1 b
    using try_fits [OF a that] by (simp add: ended_fits)
  show ?thesis using e f ended_fits a(1) by (auto simp: relay_result_def r split: prod.split bool.split)
qed (auto simp: relay_result_def split: run_state.split attempt.split)

lemma own_key: "ownTopology t = Inr t' \<Longrightarrow> canonicalizeEd25519PublicKey (ri_pcPubkey (tp_self t)) ''self public key'' = Inr (ri_pcPubkey (tp_self t'))"
  by (auto simp: ownTopology_def own_self_def split: sum.split_asm)

lemma canon_same: "canon_key k \<Longrightarrow> canonicalizeEd25519PublicKey k f = Inr k' \<Longrightarrow> k' = k"
  using canonicalize_canon_key [of k f] by simp

lemma attach_result:
  assumes "attachCrossPcBridge pk given discovered = Inr t"
  shows "encodeEd25519PublicKey pk ''relay public key'' = Inr (ri_pcPubkey (tp_self t))" "own_ok t"
    "given = Some l \<Longrightarrow> own_ok l \<Longrightarrow> ri_pcPubkey (tp_self l) = ri_pcPubkey (tp_self t)"
proof -
  let ?g = "case given of Some t \<Rightarrow> t | None \<Rightarrow> discovered"
  obtain e where e: "encodeEd25519PublicKey pk ''relay public key'' = Inr e" "canonicalizeEd25519PublicKey (ri_pcPubkey (tp_self ?g)) ''self public key'' = Inr e"
    "ownTopology ?g = Inr t"
    using assms by (auto simp: attachCrossPcBridge_def bridgeTopology_def split: sum.split_asm if_split_asm)
  have k: "ri_pcPubkey (tp_self t) = e" using own_key [OF e(3)] e(2) by simp
  show "encodeEd25519PublicKey pk ''relay public key'' = Inr (ri_pcPubkey (tp_self t))" using e(1) k by simp
  show "own_ok t" by (rule own_ok_result [OF e(3)])
  show "ri_pcPubkey (tp_self l) = ri_pcPubkey (tp_self t)" if "given = Some l" "own_ok l"
    using canon_same [of "ri_pcPubkey (tp_self l)" "''self public key''" e] e(2) that k by (auto simp: own_ok_def identity_ok_def)
qed

lemma routing_key:
  assumes "own_ok l" and "buildRoutingState l (Some key) = Inr rt" and "key \<noteq> []"
  shows "key = ri_pcPubkey (tp_self l)"
proof -
  have "identity_ok (tp_self l)" "\<forall>i \<in> set (tp_siblings l). identity_ok i" using assms(1) by (auto simp: own_ok_def)
  then show ?thesis using assms(2,3) by (auto simp: buildRoutingState_def check_identity_id check_siblings_id Let_def split: if_split_asm sum.split_asm)
qed

lemma encoded_nonempty: "encodeEd25519PublicKey pk f = Inr k \<Longrightarrow> k \<noteq> []"
  using canon_key_ne by (auto simp: encodeEd25519PublicKey_def ED25519_PUBLIC_KEY_BYTES_def canon_key_def split: if_split_asm)

text \<open>After the topologies have become one, the node's topology is about the machine of the new bridge.\<close>

lemma merge_fits:
  assumes "merge_topology b rv t s = Some s'" and "attachCrossPcBridge pk given discovered = Inr t" and "topo_inv s"
    and "rv = mn_revision s \<longrightarrow> given = mn_latest s"
  shows "\<exists>l. mn_latest s' = Some l \<and> encodeEd25519PublicKey pk ''relay public key'' = Inr (ri_pcPubkey (tp_self l))"
proof (cases "mn_latest s")
  case None
  then have st: "node_setTopology t s = Inr s'" using assms(1) by (auto simp: merge_topology_def split: sum.split_asm)
  then obtain own where own: "ownTopology t = Inr own" by (auto simp: node_setTopology_def split: sum.split_asm)
  have o: "node_setTopology t s = Inr s'" "ownTopology t = Inr own" "mn_latest s' = Some own"
    using st own None by (auto simp: node_setTopology_def Let_def split: option.split_asm if_split_asm)
  have "own_ok t" by (rule attach_result(2) [OF assms(2)])
  then have "ri_pcPubkey (tp_self own) = ri_pcPubkey (tp_self t)"
    using own_key [OF o(2)] canon_same by (auto simp: own_ok_def identity_ok_def)
  then show ?thesis using o(3) attach_result(1) [OF assms(2)] by simp
next
  case (Some l)
  then have ok: "own_ok l" using assms(3) by (simp add: topo_inv_def)
  have l: "mn_latest s' = Some l" using assms(1) Some by (auto simp: merge_topology_def split: if_split_asm sum.split_asm)
  have "ri_pcPubkey (tp_self l) = ri_pcPubkey (tp_self t)"
  proof (cases "mn_revision s = rv")
    case True
    then show ?thesis using attach_result(3) [OF assms(2) _ ok] assms(4) Some by simp
  next
    case False
    then obtain rt where "buildRoutingState l (Some (ri_pcPubkey (tp_self t))) = Inr rt"
      using assms(1) Some by (auto simp: merge_topology_def split: sum.split_asm)
    moreover have "ri_pcPubkey (tp_self t) \<noteq> []" using attach_result(1) [OF assms(2)] by (rule encoded_nonempty)
    ultimately show ?thesis using routing_key [OF ok] by simp
  qed
  then show ?thesis using l attach_result(1) [OF assms(2)] by simp
qed

lemma bridge_fits:
  assumes "fits s" and "topo_inv s" and "node_inv s"
  shows "fits (bridge_result discovered activates s)"
proof (cases "\<exists>gen p rv br key k given c t. mn_run s = Trying (WaitBridge gen p rv br key k given c) \<and> attachCrossPcBridge (fst key) given discovered = Inr t")
  case True
  then obtain gen p rv br key k given c t where r: "mn_run s = Trying (WaitBridge gen p rv br key k given c)"
    "attachCrossPcBridge (fst key) given discovered = Inr t" by blast
  define s1 where "s1 = mn_say (BridgeBuilt (mn_next s)) (s\<lparr>mn_next := mn_next s + 1\<rparr>)"
  have k: "key_fits p key" "rv = mn_revision s \<longrightarrow> given = mn_latest s" "published_fits s"
    using assms(1) by (auto simp: fits_def attempt_fits_def r)
  have s1: "published_fits s1" "topo_inv s1" "mn_revision s1 = mn_revision s" "mn_latest s1 = mn_latest s"
    using k(3) assms(2) by (simp_all add: s1_def topo_inv_def told_def mn_say_def)
  have p: "fits (attempt_ended gen True (publish (mn_next s) p key k (mn_say (BridgeActivated b) s2)))"
    if m: "merge_topology (mn_next s) rv t s1 = Some s2" and st: "\<not> attemptIsStale gen p br k c (mn_say (BridgeActivated b) s2)" for s2 b
  proof -
    have "\<exists>l. mn_latest s2 = Some l \<and> encodeEd25519PublicKey (fst key) ''relay public key'' = Inr (ri_pcPubkey (tp_self l))"
      using k(2) s1(3,4) by (intro merge_fits [OF m r(2) s1(2)]) simp
    moreover have "mn_params s2 = Some p" using st by (simp add: attemptIsStale_def)
    ultimately have "published_fits (publish (mn_next s) p key k (mn_say (BridgeActivated b) s2))"
      using k(1) by (cases p; cases key) (auto simp: published_fits_def publish_def Let_def clearRelayReconnectTimer_def)
    then show ?thesis by (rule ended_fits)
  qed
  have d: "published_fits s2" if "merge_topology (mn_next s) rv t s1 = Some s2" for s2
    using that s1(1) by (auto simp: merge_topology_def dest: set_fits split: option.split_asm sum.split_asm if_split_asm)
  show ?thesis
  proof (cases "merge_topology (mn_next s) rv t s1")
    case None
    then show ?thesis using s1(1) unfolding bridge_result_def r Let_def s1_def[symmetric] by (simp add: r s1_def[symmetric] ended_fits)
  next
    case (Some s2)
    then show ?thesis using s1(1) d [OF Some] p [OF Some] unfolding bridge_result_def r Let_def s1_def[symmetric]
      by (simp add: r s1_def[symmetric] ended_fits)
  qed
next
  case False
  then show ?thesis using assms(1)
    by (auto simp: bridge_result_def fits_def intro!: ended_fits [unfolded fits_def] split: run_state.split attempt.split sum.split)
qed

lemma settles_fits: "fits s \<Longrightarrow> fits (loop_settles s)"
proof -
  assume v: "fits s"
  have "fits (fold (\<lambda>w. mn_task_add (Resume w ok)) ws s')" if "fits s'" for ok ws s'
    using that by (induction ws arbitrary: s') (simp_all add: fits_def)
  moreover have "fits (s\<lparr>mn_run := NoRun, mn_waiters := []\<rparr>)" using v by (simp add: fits_def)
  ultimately show ?thesis using v by (simp add: loop_settles_def split: run_state.split)
qed

lemma resume_fits: "fits s \<Longrightarrow> fits (node_resume who ok s)"
  using request_fits by (cases who) (auto simp: node_resume_def fits_def)

lemma reconnected_fits: "fits s \<Longrightarrow> fits (node_reconnected s)"
  by (auto simp: node_reconnected_def fits_def intro!: request_fits [unfolded fits_def])

lemma timer_fits: "fits s \<Longrightarrow> fits (node_timer_fires s)"
  by (auto simp: node_timer_fires_def attemptRelayReconnect_def fits_def intro!: request_fits [unfolded fits_def] split: option.split)

lemma lost_fits: "fits s \<Longrightarrow> fits (onSelfRelayClosed k s)"
  by (simp add: onSelfRelayClosed_def fits_def)

lemma closes_fits: "fits s \<Longrightarrow> fits (relay_closes k s)"
proof -
  assume v: "fits s"
  have "fits (s\<lparr>mn_open := ks, mn_run := Trying (WaitBridge gen p rv br key k' given True)\<rparr>)"
    if "mn_run s = Trying (WaitBridge gen p rv br key k' given c)" for ks gen p rv br key k' given c
    using v that by (simp add: fits_def) (simp add: attempt_fits_def)
  then show ?thesis using v lost_fits
    by (auto simp: relay_closes_def Let_def fits_def split: run_state.split attempt.split)
qed

lemma attach_fits: "fits s \<Longrightarrow> fits (attachBridge p s)"
proof -
  assume v: "fits s"
  have "published_fits (teardownPublishedBridge True t\<lparr>mn_params := q, mn_next := n\<rparr>)" for t q n by (simp add: published_fits_def)
  then show ?thesis using v by (auto simp: attachBridge_def Let_def fits_def intro!: request_fits [unfolded fits_def])
qed

lemma heeds_fits: "fits s \<Longrightarrow> fits (fold heed es s)"
proof (induction es arbitrary: s)
  case (Cons e es)
  have "fits (heed e s)" using Cons.prems by (induction e s rule: heed.induct) (simp_all add: reconnected_fits, simp_all add: fits_def)
  then show ?case using Cons.IH by simp
qed simp

lemma detach_fits: "fits s \<Longrightarrow> fits (node_detachBridge s)"
  by (simp add: node_detachBridge_def fits_def)

lemma mn_step_fits:
  assumes "fits s" and "topo_inv s" and "node_inv s"
  shows "fits (mn_step i s)"
proof -
  have t: "fits (run_mn_task t (s\<lparr>mn_tasks := ts\<rparr>))" for t ts
    using assms(1) resume_fits [of "s\<lparr>mn_tasks := ts\<rparr>"] request_fits [of "s\<lparr>mn_tasks := ts, mn_wired := True\<rparr>"]
    by (cases t) (simp_all add: node_started_def Let_def fits_def)
  have c: "fits (close_node inode s)" for inode
    using assms(1) detach_fits [of "s\<lparr>mn_closed := True\<rparr>"] by (simp add: close_node_def Let_def fits_def)
  have p: "fits (peer_steps x s)" for x
    using assms(1) by (auto simp: peer_steps_def Let_def fits_def intro!: heeds_fits [unfolded fits_def])
  have n: "fits (connect_node s)" "fits (node_peersChanged ns s)" for ns
    using assms(1) by (simp_all add: connect_node_def node_peersChanged_def fits_def split: option.split)
  have x: "fits s'" if "node_setTopology u s = Inr s'" for u s' using assms(1) set_fits [OF that] set_attempt [OF that] by (simp add: fits_def)
  have h: "fits (s\<lparr>mn_open := ks\<rparr>)" "fits (node_timer_fires s)" "fits (loop_settles s)" for ks
    using assms(1) timer_fits settles_fits by (simp_all add: fits_def)
  show ?thesis
    by (cases i) (use assms t c p n x h in \<open>auto simp: attach_fits detach_fits keys_result_fits relay_result_fits bridge_fits closes_fits
        split: sum.split\<close>)
qed

lemma mn_run_fits: "fits (mn_run_all ins (new_node p bridge))"
proof (induction ins rule: rev_induct)
  case Nil
  show ?case by (simp add: mn_run_all_def new_node_def fits_def published_fits_def attempt_fits_def)
qed (simp add: mn_run_snoc mn_step_fits mn_run_topo mn_run_inv)

section \<open>A lost relay is replaced\<close>

lemma own_siblings_id:
  "\<forall>i \<in> set ss. identity_ok i \<and> ri_pcPubkey i \<noteq> ri_pcPubkey self \<and> ri_pcLabel i \<noteq> ri_pcLabel self \<and> ri_pcPubkey i \<notin> set keys \<and>
       ri_pcLabel i \<notin> set aliases \<Longrightarrow>
     distinct (map ri_pcPubkey ss) \<Longrightarrow> distinct (map ri_pcLabel ss) \<Longrightarrow> own_siblings n self keys aliases ss = Inr ss"
proof (induction ss arbitrary: n keys aliases)
  case (Cons i ss)
  have i: "identity_ok i" "ri_pcPubkey i \<noteq> ri_pcPubkey self" "ri_pcLabel i \<noteq> ri_pcLabel self" "ri_pcPubkey i \<notin> set keys" "ri_pcLabel i \<notin> set aliases"
    using Cons.prems(1) by auto
  have "own_siblings (Suc n) self (ri_pcPubkey i # keys) (ri_pcLabel i # aliases) ss = Inr ss"
    using Cons.prems by (intro Cons.IH) (auto simp: image_iff)
  then show ?case using i by (simp add: identity_ok_def canonicalize_canon_key validateAlias_def validateLegacyPcLabel_def)
qed simp

lemma own_id: "own_ok t \<Longrightarrow> ownTopology t = Inr t"
proof -
  assume t: "own_ok t"
  have s: "identity_ok (tp_self t)" using t by (simp add: own_ok_def)
  then have "own_self (tp_self t) = Inr (tp_self t)"
    by (simp add: own_self_def identity_ok_def canonicalize_canon_key validateAlias_def validateLegacyPcLabel_def)
  moreover have "own_siblings 0 (tp_self t) [] [] (tp_siblings t) = Inr (tp_siblings t)"
    using t by (intro own_siblings_id) (auto simp: own_ok_def image_iff)
  moreover have "sort_key (\<lambda>s. u16_key (ri_pcPubkey s)) (tp_siblings t) = tp_siblings t"
    using t by (simp add: own_ok_def sort_key_id_if_sorted)
  ultimately show ?thesis by (simp add: ownTopology_def)
qed

lemma attach_own:
  assumes "own_ok t" and "encodeEd25519PublicKey pk ''relay public key'' = Inr (ri_pcPubkey (tp_self t))"
  shows "attachCrossPcBridge pk (Some t) d = Inr t"
proof -
  have "canonicalizeEd25519PublicKey (ri_pcPubkey (tp_self t)) f = Inr (ri_pcPubkey (tp_self t))" for f
    using assms(1) by (intro canonicalize_canon_key) (simp add: own_ok_def identity_ok_def)
  moreover obtain rt where "buildRoutingState t None = Inr rt" using own_routing [OF assms(1), of None] by blast
  ultimately show ?thesis by (simp add: attachCrossPcBridge_def bridgeTopology_def assms(2) own_id [OF assms(1)])
qed

lemma retry_starts:
  assumes "mn_timer s \<noteq> None" and "\<not> mn_closed s" and "mn_params s = Some p" and "bp_injected (snd p) = None" and "leads s"
    and "sp_broker (mn_peer s) = Some br" and "mn_bridge s = None" and "mn_run s = NoRun" and "mn_keypair s = Some key" and "key_fits p key"
  shows "mn_step MnTimer s =
     mn_say (RelayMade (mn_next s) (toWebSocketUrl (bp_relayUrl (snd p))) (case bp_sessionName (snd p) of Some n \<Rightarrow> n | None \<Rightarrow> sp_name (mn_peer s)))
       (s\<lparr>mn_timer := None, mn_waiters := mn_waiters s @ [ByRetry], mn_queued := False, mn_next := mn_next s + 1,
          mn_run := Trying (WaitRelay (mn_gen s) p (mn_revision s) br key (mn_next s))\<rparr>)"
proof -
  obtain i q where p: "p = (i, q)" by (cases p)
  show ?thesis using assms unfolding p
    by (auto simp: node_timer_fires_def attemptRelayReconnect_def requestBridge_def Let_def loop_turn_def attempt_starts_def with_keys_def leads_def
        key_fits_def mn_say_def cong: option.case_cong)
qed

lemma relay_opens:
  assumes "mn_run s = Trying (WaitRelay gen p rv br key k)"
  shows "mn_step (MnRelay True) s =
     s\<lparr>mn_open := Own k # mn_open s, mn_run := Trying (WaitBridge gen p rv br key (Own k) (mn_latest s) False)\<rparr>"
  using assms by (simp add: relay_result_def try_bridge_def relayIsClosed_def)

lemma relay_unreachable:
  assumes "mn_run s = Trying (WaitRelay (mn_gen s) p rv br key k)" and "\<not> mn_queued s"
  shows "mn_step (MnRelay False) s = (closeOwnedRelay (Own k) s)\<lparr>mn_run := Ran True\<rparr>"
  using assms by (simp add: relay_result_def attempt_ended_def closeOwnedRelay_def)

lemma bridge_opens:
  assumes "mn_run s = Trying (WaitBridge (mn_gen s) p (mn_revision s) br key (Own k) (mn_latest s) False)" and "mn_latest s = Some t" and "own_ok t"
    and "encodeEd25519PublicKey (fst key) ''relay public key'' = Inr (ri_pcPubkey (tp_self t))" and "mn_params s = Some p" and "leads s"
    and "sp_broker (mn_peer s) = Some br" and "\<not> mn_closed s" and "Own k \<in> set (mn_open s)" and "\<not> mn_queued s" and "bp_injected (snd p) = None"
  shows "mn_step (MnBridge d True) s =
     (clearRelayReconnectTimer (mn_say (BridgePublished (mn_next s) (Own k)) ((mn_say (BridgeActivated (mn_next s)) (mn_say (BridgeBuilt (mn_next s))
        (s\<lparr>mn_next := mn_next s + 1\<rparr>)))\<lparr>mn_bridge := Some (mn_next s), mn_relay := Some (Own k), mn_relayOwned := True, mn_handler := True,
           mn_keypair := Some key\<rparr>)))\<lparr>mn_backoff := 0, mn_run := Ran True\<rparr>"
proof -
  have a: "attachCrossPcBridge (fst key) (Some t) d = Inr t" by (rule attach_own [OF assms(3,4)])
  have st: "\<not> attemptIsStale (mn_gen s) p br (Own k) False s'" if "mn_closed s' = mn_closed s" "mn_gen s' = mn_gen s" "mn_params s' = mn_params s"
    "mn_peer s' = mn_peer s" "mn_open s' = mn_open s" for s'
    using assms(5-9) that by (simp add: attemptIsStale_def leads_def relayIsClosed_def)
  have m: "merge_topology b (mn_revision s) t s' = Some s'" if "mn_latest s' = Some t" "mn_revision s' = mn_revision s" for b s'
    using that by (simp add: merge_topology_def)
  show ?thesis using assms(1,2,10,11) by (simp add: bridge_result_def a st m Let_def publish_def attempt_ended_def clearRelayReconnectTimer_def)
qed

lemma relay_loss:
  assumes "mn_relay s = Some k" and "mn_relayOwned s" and "mn_handler s" and "k \<in> set (mn_open s)" and "mn_run s = NoRun" and "mn_bridge s = Some b"
    and "\<not> mn_closed s" and "mn_params s = Some p" and "bp_injected (snd p) = None"
  shows "\<exists>s1. mn_step (MnRelayClosed k) s = s1 \<and> mn_log s1 = mn_log s @ [RelayLost k, BridgeDetached b] \<and> mn_bridge s1 = None \<and> mn_relay s1 = None \<and>
     mn_timer s1 = Some (case mn_timer s of Some d \<Rightarrow> d | None \<Rightarrow> RELAY_RECONNECT_BACKOFFS_MS ! min (mn_backoff s) 4) \<and> mn_closed s1 = mn_closed s \<and>
     mn_params s1 = mn_params s \<and> mn_peer s1 = mn_peer s \<and> mn_run s1 = NoRun \<and> mn_keypair s1 = mn_keypair s \<and> mn_latest s1 = mn_latest s \<and>
     mn_next s1 = mn_next s \<and> mn_backoff s1 = mn_backoff s \<and> mn_shut s1 = mn_shut s"
proof -
  obtain i q where p: "p = (i, q)" by (cases p)
  show ?thesis using assms unfolding p
    by (simp add: relay_closes_def Let_def onSelfRelayClosed_def teardownPublishedBridge_def scheduleRelayReconnect_def RELAY_RECONNECT_BACKOFFS_MS_def
        mn_say_def eval_nat_numeral split: option.split)
qed

section \<open>What the life of a bridge guarantees\<close>

lemma settled_tasks: "fold (\<lambda>w. mn_task_add (Resume w ok)) ws s = s\<lparr>mn_tasks := mn_tasks s @ map (\<lambda>w. Resume w ok) ws\<rparr>"
  by (induction ws arbitrary: s) (simp_all add: mn_task_add_def)

text \<open>A relay that could not be reached.\<close>

lemma retry_later:
  assumes "mn_run s = Trying (WaitRelay (mn_gen s) q rv br key k)" and "\<not> mn_queued s" and "ByRetry \<in> set (mn_waiters s)" and "mn_relay s = None"
    and "mn_bridge s = None" and "mn_timer s = None" and "\<not> mn_closed s" and "mn_params s = Some q" and "bp_injected (snd q) = None" and "Own k \<notin> set (mn_shut s)"
  shows "let t = mn_run_all [MnRelay False, MnSettle, MnTask (Resume ByRetry True)] s
     in mn_bridge t = None \<and> RelayShut (Own k) \<in> set (mn_log t) \<and> mn_timer t = Some (RELAY_RECONNECT_BACKOFFS_MS ! min (mn_backoff s + 1) 4)"
proof -
  obtain i r where q: "q = (i, r)" by (cases q)
  define t where "t = (closeOwnedRelay (Own k) s)\<lparr>mn_run := Ran True\<rparr>"
  have t: "mn_step (MnRelay False) s = t" unfolding t_def by (rule relay_unreachable [OF assms(1,2)])
  have f: "mn_log t = mn_log s @ [RelayShut (Own k)]" "mn_waiters t = mn_waiters s" "mn_relay t = None" "mn_bridge t = None" "mn_timer t = None"
    "\<not> mn_closed t" "mn_params t = Some (i, r)" "bp_injected r = None" "mn_backoff t = mn_backoff s" "mn_run t = Ran True"
    using assms q by (simp_all add: t_def closeOwnedRelay_def)
  have m: "Resume ByRetry True \<in> set (mn_tasks t @ map (\<lambda>w. Resume w True) (mn_waiters s))" using assms(3) by force
  have n: "RELAY_RECONNECT_BACKOFFS_MS ! min b 4 = RELAY_RECONNECT_BACKOFFS_MS ! min b (length RELAY_RECONNECT_BACKOFFS_MS - 1)" for b
    by (simp add: RELAY_RECONNECT_BACKOFFS_MS_def eval_nat_numeral)
  have r: "mn_run_all [MnRelay False, MnSettle, MnTask (Resume ByRetry True)] s =
      node_resume ByRetry True (loop_settles t\<lparr>mn_tasks := remove1 (Resume ByRetry True) (mn_tasks (loop_settles t))\<rparr>)"
    using m f(2,10) unfolding mn_run_all_def fold_simps t by (simp add: loop_settles_def settled_tasks)
  show ?thesis unfolding r n using f by (simp add: loop_settles_def settled_tasks node_resume_def scheduleRelayReconnect_def)
qed

text \<open>Closing is final. Once a node was closed, nothing that happens later, whatever attempt was under way, gives it a bridge, a relay or
  a timer; it makes no relay and activates, publishes or feeds no router any more, and its own calls are refused.\<close>

theorem close_final:
  assumes "s = mn_run_all later (close_node inode (mn_run_all ins (new_node p bridge)))"
  shows "mn_closed s \<and> mn_bridge s = None \<and> mn_relay s = None \<and> mn_params s = None \<and> mn_timer s = None \<and>
    (\<exists>es. mn_log s = mn_log (close_node inode (mn_run_all ins (new_node p bridge))) @ es \<and>
      (\<forall>e \<in> set es. (\<forall>k u n. e \<noteq> RelayMade k u n) \<and> (\<forall>b. e \<noteq> BridgeActivated b) \<and> (\<forall>b k. e \<noteq> BridgePublished b k) \<and>
         (\<forall>b t. e \<noteq> RouterTold b t) \<and> (\<forall>b ns. e \<noteq> RouterPeers b ns))) \<and>
    mn_log (mn_step MnConnect s) = mn_log s @ [ConnectDone None] \<and> mn_log (mn_step (MnAttach q) s) = mn_log s @ [AttachDone False]"
proof -
  let ?c = "close_node inode (mn_run_all ins (new_node p bridge))"
  have v: "node_inv ?c" by (rule node_close_inv [OF mn_run_inv])
  have "mn_closed ?c" by (simp add: close_node_def Let_def node_detachBridge_def)
  then have d: "shut_down ?c" using v closed_shut by (auto simp: node_inv_def)
  have q: "still ?c s" unfolding assms by (rule still_run [OF d])
  then obtain es where es: "mn_log s = mn_log ?c @ es" "list_all inert es" by (auto simp: still_def)
  have i: "(\<forall>k u n. e \<noteq> RelayMade k u n) \<and> (\<forall>b. e \<noteq> BridgeActivated b) \<and> (\<forall>b k. e \<noteq> BridgePublished b k) \<and>
      (\<forall>b t. e \<noteq> RouterTold b t) \<and> (\<forall>b ns. e \<noteq> RouterPeers b ns)" if "e \<in> set es" for e
    using es(2) that by (cases e) (auto simp: list_all_iff)
  have f: "mn_closed s" "mn_bridge s = None" "mn_relay s = None" "mn_params s = None" "mn_timer s = None" using still_shut [OF q] by simp_all
  have "\<exists>es. mn_log s = mn_log ?c @ es \<and>
      (\<forall>e \<in> set es. (\<forall>k u n. e \<noteq> RelayMade k u n) \<and> (\<forall>b. e \<noteq> BridgeActivated b) \<and> (\<forall>b k. e \<noteq> BridgePublished b k) \<and>
         (\<forall>b t. e \<noteq> RouterTold b t) \<and> (\<forall>b ns. e \<noteq> RouterPeers b ns))"
    using es(1) i by blast
  moreover have "mn_log (mn_step MnConnect s) = mn_log s @ [ConnectDone None]" "mn_log (mn_step (MnAttach q) s) = mn_log s @ [AttachDone False]"
    using f(1) by (simp_all add: connect_node_def attachBridge_def)
  ultimately show ?thesis using f by blast
qed

text \<open>A lost relay is replaced. When the relay of a published bridge closes, in any run of a node that still leads, the bridge is
  detached at once and a timer is set, or already was, to the next delay of the list. When it fires, a new relay is made; once
  that is connected and the bridge built, a new bridge on it is published with the same topology, and the delays
  start over. A relay that cannot be reached is closed, and the next timer waits for the next delay.\<close>

theorem lost_relay_replaced:
  assumes "s = mn_run_all ins (new_node p bridge)" and "mn_relay s = Some k" and "mn_relayOwned s" and "k \<in> set (mn_open s)" and "mn_run s = NoRun"
    and "leads s" and "sp_broker (mn_peer s) = Some br" and "s1 = mn_step (MnRelayClosed k) s" and "k' = Own (mn_next s)"
  shows "mn_bridge s1 = None \<and> RelayLost k \<in> set (mn_log s1) \<and> BridgeDetached (the (mn_bridge s)) \<in> set (mn_log s1) \<and>
    mn_timer s1 = Some (case mn_timer s of Some d \<Rightarrow> d | None \<Rightarrow> RELAY_RECONNECT_BACKOFFS_MS ! min (mn_backoff s) 4) \<and>
    (let t = mn_run_all [MnTimer, MnRelay True, MnBridge found True] s1
     in mn_relay t = Some k' \<and> k' \<noteq> k \<and> mn_bridge t = Some (mn_next s + 1) \<and> mn_relayOwned t \<and> mn_latest t = mn_latest s \<and> mn_backoff t = 0) \<and>
    (let t = mn_run_all [MnTimer, MnRelay False, MnSettle, MnTask (Resume ByRetry True)] s1
     in mn_bridge t = None \<and> RelayShut k' \<in> set (mn_log t) \<and> mn_timer t = Some (RELAY_RECONNECT_BACKOFFS_MS ! min (mn_backoff s + 1) 4))"
proof -
  have a: "accounts [] s" using mn_run_inv [of ins p bridge] assms(1,5) by (simp add: node_inv_def candidate_def)
  obtain b where b: "mn_bridge s = Some b" "mn_handler s" "\<not> mn_closed s" using a assms(2,3) by (auto simp: accounts_def)
  obtain q l key where f: "mn_params s = Some q" "mn_latest s = Some l" "mn_keypair s = Some key" "key_fits q key"
    "encodeEd25519PublicKey (fst key) ''relay public key'' = Inr (ri_pcPubkey (tp_self l))" "bp_injected (snd q) = None"
    using mn_run_fits [of ins p bridge] b(1) assms(1,3) unfolding fits_def published_fits_def by blast
  have l: "own_ok l" using mn_run_topo [of ins p bridge] f(2) assms(1) by (simp add: topo_inv_def)
  have "mset (made s) = mset (given_up s) + {#k#}" using a assms(2,3) by (simp add: accounts_def node_held_def opt_list_def)
  then have "k \<in> set (made s)" "set (given_up s) \<subseteq> set (made s)" by (auto simp flip: set_mset_mset)
  note made = this
  then have fresh: "k' \<noteq> k" using a assms(9) by (auto simp: accounts_def)
  have c: "mn_log s1 = mn_log s @ [RelayLost k, BridgeDetached b]" "mn_bridge s1 = None" "mn_relay s1 = None"
    "mn_timer s1 = Some (case mn_timer s of Some d \<Rightarrow> d | None \<Rightarrow> RELAY_RECONNECT_BACKOFFS_MS ! min (mn_backoff s) 4)" "mn_closed s1 = mn_closed s"
    "mn_params s1 = mn_params s" "mn_peer s1 = mn_peer s" "mn_run s1 = NoRun" "mn_keypair s1 = mn_keypair s" "mn_latest s1 = mn_latest s"
    "mn_next s1 = mn_next s" "mn_backoff s1 = mn_backoff s" "mn_shut s1 = mn_shut s"
    using relay_loss [OF assms(2,3) b(2) assms(4,5) b(1,3) f(1,6)] unfolding assms(8) by blast+
  define s2 where "s2 = mn_step MnTimer s1"
  have s2: "s2 = mn_say (RelayMade (mn_next s1) (toWebSocketUrl (bp_relayUrl (snd q)))
        (case bp_sessionName (snd q) of Some n \<Rightarrow> n | None \<Rightarrow> sp_name (mn_peer s1)))
       (s1\<lparr>mn_timer := None, mn_waiters := mn_waiters s1 @ [ByRetry], mn_queued := False, mn_next := mn_next s1 + 1,
          mn_run := Trying (WaitRelay (mn_gen s1) q (mn_revision s1) br key (mn_next s1))\<rparr>)"
    unfolding s2_def by (rule retry_starts) (use c b f assms(6,7) in \<open>simp_all add: leads_def\<close>)
  define s3 where "s3 = mn_step (MnRelay True) s2"
  have s3: "s3 = s2\<lparr>mn_open := k' # mn_open s2, mn_run := Trying (WaitBridge (mn_gen s1) q (mn_revision s1) br key k' (mn_latest s2) False)\<rparr>"
    unfolding s3_def using relay_opens [of s2 "mn_gen s1" q "mn_revision s1" br key "mn_next s1"] c(11) assms(9) by (simp add: s2)
  have p: "mn_relay (mn_step (MnBridge found True) s3) = Some k'" "mn_bridge (mn_step (MnBridge found True) s3) = Some (mn_next s + 1)"
    "mn_relayOwned (mn_step (MnBridge found True) s3)" "mn_latest (mn_step (MnBridge found True) s3) = mn_latest s"
    "mn_backoff (mn_step (MnBridge found True) s3) = 0"
  proof -
    have "mn_step (MnBridge found True) s3 =
       (clearRelayReconnectTimer (mn_say (BridgePublished (mn_next s3) (Own (mn_next s))) ((mn_say (BridgeActivated (mn_next s3)) (mn_say (BridgeBuilt (mn_next s3))
          (s3\<lparr>mn_next := mn_next s3 + 1\<rparr>)))\<lparr>mn_bridge := Some (mn_next s3), mn_relay := Some (Own (mn_next s)), mn_relayOwned := True, mn_handler := True,
             mn_keypair := Some key\<rparr>)))\<lparr>mn_backoff := 0, mn_run := Ran True\<rparr>"
      by (rule bridge_opens) (use c b f l assms(6,7,9) in \<open>simp_all add: s3 s2 leads_def\<close>)
    then show "mn_relay (mn_step (MnBridge found True) s3) = Some k'" "mn_bridge (mn_step (MnBridge found True) s3) = Some (mn_next s + 1)"
      "mn_relayOwned (mn_step (MnBridge found True) s3)" "mn_latest (mn_step (MnBridge found True) s3) = mn_latest s"
      "mn_backoff (mn_step (MnBridge found True) s3) = 0"
      using c assms(9) by (simp_all add: clearRelayReconnectTimer_def s3 s2)
  qed
  have u: "Own (mn_next s) \<notin> set (mn_shut s)" "\<not> mn_queued s2" "ByRetry \<in> set (mn_waiters s2)" "mn_relay s2 = None" "mn_bridge s2 = None" "mn_timer s2 = None"
    "\<not> mn_closed s2" "mn_params s2 = Some q" "mn_shut s2 = mn_shut s" "mn_backoff s2 = mn_backoff s"
    "mn_run s2 = Trying (WaitRelay (mn_gen s2) q (mn_revision s1) br key (mn_next s))"
  proof -
    have "Own (mn_next s) \<notin> set (made s)" using a by (auto simp: accounts_def)
    then show "Own (mn_next s) \<notin> set (mn_shut s)" using a made(2) unfolding accounts_def by blast
  qed (use b c f in \<open>simp_all add: s2\<close>)
  have v: "let t = mn_run_all [MnRelay False, MnSettle, MnTask (Resume ByRetry True)] s2
     in mn_bridge t = None \<and> RelayShut k' \<in> set (mn_log t) \<and> mn_timer t = Some (RELAY_RECONNECT_BACKOFFS_MS ! min (mn_backoff s2 + 1) 4)"
    unfolding assms(9) using u by (intro retry_later [OF u(11,2-8) f(6)]) simp
  have w: "mn_run_all [MnTimer, MnRelay True, MnBridge found True] s1 = mn_step (MnBridge found True) s3"
    "mn_run_all [MnTimer, MnRelay False, MnSettle, MnTask (Resume ByRetry True)] s1 =
     mn_run_all [MnRelay False, MnSettle, MnTask (Resume ByRetry True)] s2"
    by (simp_all add: mn_run_all_def s2_def s3_def)
  show ?thesis unfolding w Let_def using c(1-4) b(1) p fresh v [unfolded u(10) Let_def] by simp
qed

end
