(* ===== verification/SessionPeerProps.thy ===== *)
theory SessionPeerProps
  imports SessionPeer "HOL-Library.Multiset"
begin

text \<open>
  Facts about the client of the local mesh: its promises are settled once, its acknowledgements are those of the broker, and it agrees with the
  broker of \<^verbatim>\<open>Broker\<close> about its name.
\<close>

section \<open>The accounts of a peer\<close>

definition asked :: "session_peer \<Rightarrow> string list" where
  "asked s = concat (map (\<lambda>e. case e of Asked u \<Rightarrow> [u] | _ \<Rightarrow> []) (sp_log s))"

definition closed_calls :: "session_peer \<Rightarrow> string list" where
  "closed_calls s = concat (map (\<lambda>e. case e of Answered u v \<Rightarrow> [u] | AskFailed u err \<Rightarrow> [u] | _ \<Rightarrow> []) (sp_log s))"

definition wanted :: "session_peer \<Rightarrow> string list" where
  "wanted s = concat (map (\<lambda>e. case e of AckWanted u \<Rightarrow> [u] | _ \<Rightarrow> []) (sp_log s))"

definition given :: "session_peer \<Rightarrow> string list" where
  "given s = concat (map (\<lambda>e. case e of AckGiven r \<Rightarrow> [ar_id r] | _ \<Rightarrow> []) (sp_log s))"

fun plain_event :: "sp_event \<Rightarrow> bool" where
  "plain_event (Asked u) = False"
| "plain_event (Answered u v) = False"
| "plain_event (AskFailed u err) = False"
| "plain_event (AckWanted u) = False"
| "plain_event (AckGiven r) = False"
| "plain_event (BrokerClosed b) = False"
| "plain_event _ = True"

definition peer_inv :: "string list \<Rightarrow> (string \<times> string) list \<Rightarrow> session_peer \<Rightarrow> bool" where
  "peer_inv A W s \<longleftrightarrow>
     mwf (sp_pending s) \<and> mwf (sp_acks s) \<and> asked s = A \<and> wanted s = map fst W \<and>
     mset (asked s) = mset (closed_calls s) + mset (mkeys (sp_pending s)) \<and>
     mset (wanted s) = mset (given s) + mset (mkeys (sp_acks s)) \<and>
     (\<forall>b. BrokerClosed b \<notin> set (sp_log s)) \<and>
     (\<forall>u x. mget (sp_acks s) u = Some x \<longrightarrow> (u, x) \<in> set W)"

lemma log_tell [simp]:
  "sp_log (peer_say e s) = sp_log s @ [e]" "sp_pending (peer_say e s) = sp_pending s" "sp_acks (peer_say e s) = sp_acks s" "sp_open (peer_say e s) = sp_open s"
  "sp_socket (peer_say e s) = sp_socket s" "sp_broker (peer_say e s) = sp_broker s" "sp_ino (peer_say e s) = sp_ino s" "sp_tasks (peer_say e s) = sp_tasks s"
  "sp_left (peer_say e s) = sp_left s" "sp_role (peer_say e s) = sp_role s" "sp_reelect (peer_say e s) = sp_reelect s" "sp_preAck (peer_say e s) = sp_preAck s"
  "sp_regs (peer_say e s) = sp_regs s" "sp_control (peer_say e s) = sp_control s" "sp_name (peer_say e s) = sp_name s" "sp_address (peer_say e s) = sp_address s"
  "sp_watch (peer_say e s) = sp_watch s" "sp_buf (peer_say e s) = sp_buf s" "so_name (peer_say e s) = so_name s" "sp_next (peer_say e s) = sp_next s"
  "so_watchMs (peer_say e s) = so_watchMs s" "so_cwd (peer_say e s) = so_cwd s" "so_takeover (peer_say e s) = so_takeover s" "sp_renames (peer_say e s) = sp_renames s"
  by (simp_all add: peer_say_def)

lemma inv_tell [simp]: "plain_event e \<Longrightarrow> peer_inv A W (peer_say e s) = peer_inv A W s"
  by (cases e) (simp_all add: peer_inv_def asked_def closed_calls_def wanted_def given_def)

lemma inv_fields [simp]:
  "peer_inv A W (s\<lparr>so_name := a\<rparr>) = peer_inv A W s" "peer_inv A W (s\<lparr>sp_name := b\<rparr>) = peer_inv A W s" "peer_inv A W (s\<lparr>sp_address := c\<rparr>) = peer_inv A W s"
  "peer_inv A W (s\<lparr>sp_role := d\<rparr>) = peer_inv A W s" "peer_inv A W (s\<lparr>sp_broker := e\<rparr>) = peer_inv A W s" "peer_inv A W (s\<lparr>sp_socket := f\<rparr>) = peer_inv A W s"
  "peer_inv A W (s\<lparr>sp_open := g\<rparr>) = peer_inv A W s" "peer_inv A W (s\<lparr>sp_buf := h\<rparr>) = peer_inv A W s" "peer_inv A W (s\<lparr>sp_left := i\<rparr>) = peer_inv A W s"
  "peer_inv A W (s\<lparr>sp_ino := j\<rparr>) = peer_inv A W s" "peer_inv A W (s\<lparr>sp_watch := k\<rparr>) = peer_inv A W s" "peer_inv A W (s\<lparr>sp_reelect := l\<rparr>) = peer_inv A W s"
  "peer_inv A W (s\<lparr>sp_preAck := m\<rparr>) = peer_inv A W s" "peer_inv A W (s\<lparr>sp_regs := n\<rparr>) = peer_inv A W s" "peer_inv A W (s\<lparr>sp_control := q\<rparr>) = peer_inv A W s"
  "peer_inv A W (s\<lparr>sp_renames := r\<rparr>) = peer_inv A W s" "peer_inv A W (s\<lparr>sp_next := t\<rparr>) = peer_inv A W s" "peer_inv A W (s\<lparr>sp_tasks := u\<rparr>) = peer_inv A W s"
  by (simp_all add: peer_inv_def asked_def closed_calls_def wanted_def given_def)

lemma mset_del: "mwf m \<Longrightarrow> u \<in> set (mkeys m) \<Longrightarrow> mset (mkeys m) = add_mset u (mset (mkeys (mdel u m)))"
proof (induction m)
  case (Cons e m)
  then show ?case by (cases "fst e = u") (auto simp: mwf_def mkeys_delete filter_id_conv)
qed simp

lemma give_ack_inv [intro]: "peer_inv A W s \<Longrightarrow> mhas (sp_acks s) u \<Longrightarrow> peer_inv A W (give_ack st u tg re s)"
  using mset_del [of "sp_acks s" u]
  by (auto simp: peer_inv_def give_ack_def asked_def closed_calls_def wanted_def given_def mhas_keys)

lemma fail_call_inv [intro]: "peer_inv A W s \<Longrightarrow> mhas (sp_pending s) u \<Longrightarrow> peer_inv A W (fail_call err u s)"
  using mset_del [of "sp_pending s" u]
  by (auto simp: peer_inv_def fail_call_def asked_def closed_calls_def wanted_def given_def mhas_keys)

lemma answer_inv: "peer_inv A W s \<Longrightarrow> mhas (sp_pending s) u \<Longrightarrow> peer_inv A W (peer_say (Answered u v) (s\<lparr>sp_pending := mdel u (sp_pending s)\<rparr>))"
  using mset_del [of "sp_pending s" u]
  by (auto simp: peer_inv_def asked_def closed_calls_def wanted_def given_def mhas_keys)

lemma fail_all_inv:
  "peer_inv A W s \<Longrightarrow> distinct ks \<Longrightarrow> set ks \<subseteq> set (mkeys (sp_pending s)) \<Longrightarrow> peer_inv A W (fold (fail_call err) ks s)"
proof (induction ks arbitrary: s)
  case (Cons u ks)
  have k: "mkeys (sp_pending (fail_call err u s)) = filter (\<lambda>x. x \<noteq> u) (mkeys (sp_pending s))"
    by (simp add: fail_call_def mkeys_delete)
  have "set ks \<subseteq> set (mkeys (sp_pending (fail_call err u s)))" unfolding k using Cons.prems by auto
  then show ?case using Cons by (simp add: fail_call_inv mhas_keys)
qed simp

lemma ack_all_inv:
  "peer_inv A W s \<Longrightarrow> distinct ks \<Longrightarrow> set ks \<subseteq> set (mkeys (sp_acks s)) \<Longrightarrow> peer_inv A W (fold (\<lambda>u. give_ack st u tg re) ks s)"
proof (induction ks arbitrary: s)
  case (Cons u ks)
  have k: "mkeys (sp_acks (give_ack st u tg re s)) = filter (\<lambda>x. x \<noteq> u) (mkeys (sp_acks s))"
    by (simp add: give_ack_def mkeys_delete)
  have "set ks \<subseteq> set (mkeys (sp_acks (give_ack st u tg re s)))" unfolding k using Cons.prems by auto
  then show ?case using Cons by (simp add: give_ack_inv mhas_keys)
qed simp

lemma inv_write [simp]: "peer_inv A W (sock_write k line s) = peer_inv A W s"
  by (simp add: sock_write_def)

lemma inv_tasks [simp]: "peer_inv A W (add_task t s) = peer_inv A W s" "peer_inv A W (drop_task t s) = peer_inv A W s"
  by (simp_all add: add_task_def drop_task_def)

lemma inv_send_env: "send_env uid dst body re s = Some s' \<Longrightarrow> peer_inv A W s' = peer_inv A W s"
  by (auto simp: send_env_def writeEnvelope_def split: option.split_asm if_split_asm)

lemma send_env_keeps: "send_env uid dst body re s = Some s' \<Longrightarrow> sp_acks s' = sp_acks s \<and> sp_pending s' = sp_pending s"
  by (auto simp: send_env_def writeEnvelope_def sock_write_def split: option.split_asm if_split_asm)

lemma want_inv:
  assumes "peer_inv A W s" and "uid \<notin> set (map fst W)"
  shows "peer_inv A (W @ [(uid, x)]) (peer_say (AckWanted uid) (s\<lparr>sp_acks := mput uid x (sp_acks s)\<rparr>))"
proof -
  have "uid \<notin> set (mkeys (sp_acks s))" using assms unfolding peer_inv_def by (metis set_mset_mset union_iff)
  then show ?thesis using assms by (auto simp: peer_inv_def asked_def closed_calls_def wanted_def given_def mkeys_update)
qed

lemma ask_inv:
  assumes "peer_inv A W s" and "uid \<notin> set A"
  shows "peer_inv (A @ [uid]) W (peer_say (Asked uid) (s\<lparr>sp_pending := mput uid () (sp_pending s)\<rparr>))"
proof -
  have "uid \<notin> set (mkeys (sp_pending s))" using assms unfolding peer_inv_def by (metis set_mset_mset union_iff)
  then show ?thesis using assms by (auto simp: peer_inv_def asked_def closed_calls_def wanted_def given_def mkeys_update)
qed

lemma sendWithAck_inv:
  assumes "peer_inv A W s" and "uid \<notin> set (map fst W)"
  shows "peer_inv A (W @ [(uid, expectedAckSender dst)]) (sendWithAck uid dst body re s)"
  using want_inv [OF assms, of "expectedAckSender dst"] inv_send_env
  by (auto simp: sendWithAck_def Let_def mhas_keys mkeys_update split: option.split intro!: give_ack_inv)

lemma request_inv:
  assumes "peer_inv A W s" and "uid \<notin> set A"
  shows "peer_inv (A @ [uid]) W (request uid dst body s)"
  using ask_inv [OF assms] inv_send_env
  by (auto simp: request_def Let_def mhas_keys mkeys_update split: option.split intro!: fail_call_inv)

lemma inv_reg_settle [simp]: "peer_inv A W (reg_settle n out s) = peer_inv A W s"
  by (simp add: reg_settle_def split: option.split prod.split sum.split)

lemma inv_preAck [simp]: "peer_inv A W (preAckListener n v s) = peer_inv A W s"
  by (simp add: preAckListener_def split: jv.split bool.split prod.split)

lemma inv_control [simp]: "peer_inv A W (controlListener n v s) = peer_inv A W s"
  by (simp add: controlListener_def Let_def split: jv.split)

lemma handle_envelope_inv:
  assumes v: "peer_inv A W s"
  shows "peer_inv A W (handle_envelope env s)"
proof -
  have c: "peer_inv A W (rejectRequestTransportError u reason (consumeAckTransportError u reason s))" for u reason
  proof -
    have "peer_inv A W (consumeAckTransportError u reason s)" using v by (auto simp: consumeAckTransportError_def Let_def)
    then show ?thesis by (auto simp: rejectRequestTransportError_def Let_def)
  qed
  have a: "peer_inv A W (handle_ack env s)" using v
    by (auto simp: handle_ack_def mhas_def split: option.split)
  have r: "peer_inv A W (handle_reply env s)" using v answer_inv [OF v]
    by (auto simp: handle_reply_def dispatchToHandlers_def split: option.split)
  show ?thesis unfolding handle_envelope_def using v a r c by (auto simp: dispatchToHandlers_def split: option.split)
qed

lemma handleLine_inv_peer: "peer_inv A W s \<Longrightarrow> peer_inv A W (sp_handleLine line s)"
  by (simp add: sp_handleLine_def handle_envelope_inv split: option.split sum.split)

lemma lines_inv: "peer_inv A W s \<Longrightarrow> peer_inv A W (fold sp_handleLine ls s)"
  by (induction ls arbitrary: s) (simp_all add: handleLine_inv_peer)

lemma onData_inv_peer: "peer_inv A W s \<Longrightarrow> peer_inv A W (sp_onData chunk s)"
  by (simp add: sp_onData_def lines_inv split: prod.split)

lemma drop_socket_inv [simp]: "peer_inv A W (drop_socket s) = peer_inv A W s"
  by (simp add: drop_socket_def split: option.split)

lemma drop_socket_fields [simp]:
  "sp_ino (drop_socket s) = sp_ino s" "sp_broker (drop_socket s) = sp_broker s" "sp_pending (drop_socket s) = sp_pending s"
  "sp_acks (drop_socket s) = sp_acks s" "sp_socket (drop_socket s) = None" "sp_tasks (drop_socket s) = sp_tasks s" "sp_left (drop_socket s) = sp_left s"
  "sp_regs (drop_socket s) = sp_regs s"
  by (simp_all add: drop_socket_def split: option.split)

lemma drop_broker_inv: "sp_ino s = None \<Longrightarrow> peer_inv A W (drop_broker inode s) = peer_inv A W s"
  by (simp add: drop_broker_def split: option.split)

lemma settle_all_fields [simp]:
  "sp_ino (fold (fail_call err) ks s) = sp_ino s" "sp_ino (fold (\<lambda>u. give_ack st u tg re) ks s) = sp_ino s"
  "sp_acks (fold (fail_call err) ks s) = sp_acks s" "sp_pending (fold (\<lambda>u. give_ack st u tg re) ks s) = sp_pending s"
  "sp_broker (fold (fail_call err) ks s) = sp_broker s" "sp_broker (fold (\<lambda>u. give_ack st u tg re) ks s) = sp_broker s"
  "sp_tasks (fold (fail_call err) ks s) = sp_tasks s" "sp_tasks (fold (\<lambda>u. give_ack st u tg re) ks s) = sp_tasks s"
  "sp_left (fold (fail_call err) ks s) = sp_left s" "sp_left (fold (\<lambda>u. give_ack st u tg re) ks s) = sp_left s"
  "sp_regs (fold (fail_call err) ks s) = sp_regs s" "sp_regs (fold (\<lambda>u. give_ack st u tg re) ks s) = sp_regs s"
  by (induction ks arbitrary: s; simp add: fail_call_def give_ack_def)+

lemma settle_all_keys:
  "mkeys (sp_pending (fold (fail_call err) ks s)) = filter (\<lambda>u. u \<notin> set ks) (mkeys (sp_pending s))"
  "mkeys (sp_acks (fold (\<lambda>u. give_ack st u tg re) ks s)) = filter (\<lambda>u. u \<notin> set ks) (mkeys (sp_acks s))"
  by (induction ks arbitrary: s; simp add: fail_call_def give_ack_def mkeys_delete conj_commute)+

lemma inv_distinct: "peer_inv A W s \<Longrightarrow> distinct (mkeys (sp_pending s)) \<and> distinct (mkeys (sp_acks s))"
  by (simp add: peer_inv_def mwf_def)

lemma teardown_keeps:
  assumes "peer_inv A W s"
  shows "peer_inv A W (teardownConn inode s)"
proof -
  have 1: "peer_inv A W ((stopDisplacementWatch s)\<lparr>sp_ino := None\<rparr>)" using assms by (simp add: stopDisplacementWatch_def)
  have 2: "peer_inv A W (fold (fail_call PeerLeaving) (mkeys (sp_pending s)) ((stopDisplacementWatch s)\<lparr>sp_ino := None\<rparr>))" (is "peer_inv A W ?s2")
    using inv_distinct [OF assms] by (intro fail_all_inv [OF 1]) (simp_all add: stopDisplacementWatch_def)
  have 3: "peer_inv A W (fold (\<lambda>u. give_ack AckTimeout u None None) (mkeys (sp_acks ?s2)) ?s2)"
    using inv_distinct [OF 2] by (intro ack_all_inv [OF 2]) simp_all
  show ?thesis unfolding teardownConn_def Let_def using 3 by (simp add: drop_broker_inv stopDisplacementWatch_def)
qed

lemma filter_out: "set ks \<subseteq> set ls \<Longrightarrow> filter (\<lambda>u. u \<notin> set ls) ks = []"
  by (auto simp: filter_empty_conv)

lemma settle_all_none:
  "set (mkeys (sp_pending s)) \<subseteq> set ks \<Longrightarrow> sp_pending (fold (fail_call err) ks s) = []"
  "set (mkeys (sp_acks s)) \<subseteq> set ks \<Longrightarrow> sp_acks (fold (\<lambda>u. give_ack st u tg re) ks s) = []"
  using filter_out [of "mkeys (sp_pending s)" ks, folded settle_all_keys(1) [of err ks s]]
    filter_out [of "mkeys (sp_acks s)" ks, folded settle_all_keys(2) [of st tg re ks s]]
  by (blast dest: map_is_Nil_conv [THEN iffD1])+

lemma teardown_keys: "sp_pending (teardownConn inode s) = [] \<and> sp_acks (teardownConn inode s) = []"
  unfolding teardownConn_def Let_def drop_broker_def
  by (simp add: settle_all_none stopDisplacementWatch_def split: option.split)

section \<open>Every step keeps the accounts\<close>

fun call_ids :: "sp_input \<Rightarrow> string list" where
  "call_ids (PeRequest uid dst body) = [uid]"
| "call_ids _ = []"

fun ack_ids :: "sp_input \<Rightarrow> (string \<times> string) list" where
  "ack_ids (PeSendAck uid dst body re) = [(uid, expectedAckSender dst)]"
| "ack_ids _ = []"

lemmas join_ops = start_def join_result_of_def loopback_result_def registerOver_def wireSocket_def joined_def not_joined_def
  startDisplacementWatch_def stopDisplacementWatch_def onSocketClose_def failover_def reelect_delayed_def checkDisplacement_def
  reelectAfterDisplacement_def rename_peer_def leave_def

lemma run_task_inv: "peer_inv A W s \<Longrightarrow> peer_inv A W (run_task t inode s)"
  by (cases t) (simp_all add: join_ops Let_def split: join_for.split)

lemma sp_step_inv:
  assumes v: "peer_inv A W s" and c: "set (call_ids i) \<inter> set A = {}" and w: "set (map fst (ack_ids i)) \<inter> set (map fst W) = {}"
  shows "peer_inv (A @ call_ids i) (W @ ack_ids i) (sp_step i s)"
proof (cases i)
  case (PeSend uid dst body re)
  then show ?thesis using v inv_send_env [of uid dst body re s] by (cases "send_env uid dst body re s") simp_all
next
  case (PeSendAck uid dst body re)
  then show ?thesis using sendWithAck_inv [OF v] w by simp
next
  case (PeRequest uid dst body)
  then show ?thesis using request_inv [OF v] c by simp
next
  case (PeRenameInPlace nm)
  then show ?thesis using v by (simp add: renameInPlace_def Let_def split: option.split)
next
  case (PeResume t inode)
  then show ?thesis using v run_task_inv [of A W "drop_task t s" t inode] by simp
next
  case (PeElected why out)
  then show ?thesis using v by (simp add: join_ops split: elected_as.split)
next
  case (PeLoopback why k)
  then show ?thesis using v by (simp add: join_ops split: option.split)
next
  case (PeWatch inode)
  then show ?thesis using v teardown_keeps [of A W] by (simp add: join_ops)
qed (use v teardown_keeps [of A W] in \<open>auto simp: join_ops onData_inv_peer ack_timed_out_def request_timed_out_def register_timed_out_def
    rename_timed_out_def split: option.split\<close>)

lemma sp_run_snoc: "sp_run (ins @ [i]) s = sp_step i (sp_run ins s)"
  by (simp add: sp_run_def)

lemma new_peer_inv: "peer_inv [] [] (new_peer nm cwd takeover watchMs)"
  by (simp add: peer_inv_def new_peer_def asked_def closed_calls_def wanted_def given_def)

lemma sp_run_inv:
  assumes "distinct (concat (map call_ids ins))" and "distinct (map fst (concat (map ack_ids ins)))"
  shows "peer_inv (concat (map call_ids ins)) (concat (map ack_ids ins)) (sp_run ins (new_peer nm cwd takeover watchMs))"
  using assms
proof (induction ins rule: rev_induct)
  case Nil
  show ?case by (simp add: sp_run_def new_peer_inv)
next
  case (snoc i ins)
  then show ?case unfolding sp_run_snoc using sp_step_inv [of "concat (map call_ids ins)" "concat (map ack_ids ins)"
      "sp_run ins (new_peer nm cwd takeover watchMs)" i] by (auto simp: Int_commute)
qed

section \<open>Promises are settled once\<close>

lemma books:
  assumes "s = sp_run ins (new_peer nm cwd takeover watchMs)"
    and "distinct (concat (map call_ids ins))" and "distinct (map fst (concat (map ack_ids ins)))"
  shows "peer_inv (concat (map call_ids ins)) (concat (map ack_ids ins)) s"
  unfolding assms(1) by (rule sp_run_inv [OF assms(2,3)])

lemma mset_halves:
  assumes "mset xs = mset ys + mset zs" and "distinct xs"
  shows "distinct ys \<and> (\<forall>x \<in> set xs. (x \<in> set ys) \<noteq> (x \<in> set zs))"
proof -
  have d: "distinct (ys @ zs)" using assms by (metis mset_append mset_eq_imp_distinct_iff)
  moreover have "set xs = set ys \<union> set zs" using assms(1) by (metis set_mset_mset set_mset_union)
  ultimately show ?thesis by auto
qed

text \<open>C34: a request and an acknowledged send end once. With fresh ids, whatever happens to a peer, each request has one outcome or
  is still pending, and each acknowledged send likewise; the timer of a pending one ends it; and leaving ends all of them.\<close>

theorem calls_settle_once:
  assumes s: "s = sp_run ins (new_peer nm cwd takeover watchMs)"
    and f: "distinct (concat (map call_ids ins))" "distinct (map fst (concat (map ack_ids ins)))"
  shows "distinct (closed_calls s) \<and> distinct (given s) \<and>
    (\<forall>uid \<in> set (concat (map call_ids ins)). (uid \<in> set (closed_calls s)) \<noteq> mhas (sp_pending s) uid) \<and>
    (\<forall>uid \<in> fst ` set (concat (map ack_ids ins)). (uid \<in> set (given s)) \<noteq> mhas (sp_acks s) uid) \<and>
    \<not> mhas (sp_pending (sp_step (PeCallTimer uid) s)) uid \<and> \<not> mhas (sp_acks (sp_step (PeAckTimer uid) s)) uid \<and>
    set (closed_calls (leave inode s)) = set (concat (map call_ids ins)) \<and>
    set (given (leave inode s)) = fst ` set (concat (map ack_ids ins))"
proof -
  let ?A = "concat (map call_ids ins)" and ?W = "concat (map ack_ids ins)"
  have v: "peer_inv ?A ?W s" by (rule books [OF s f])
  have a: "mset ?A = mset (closed_calls s) + mset (mkeys (sp_pending s))"
    and w: "mset (map fst ?W) = mset (given s) + mset (mkeys (sp_acks s))"
    using v by (auto simp: peer_inv_def)
  have l: "peer_inv ?A ?W (leave inode s)" using teardown_keeps [of ?A ?W "s\<lparr>sp_left := True\<rparr>"] v by (simp add: leave_def)
  have e: "sp_pending (leave inode s) = []" "sp_acks (leave inode s) = []" unfolding leave_def using teardown_keys by auto
  have "mset ?A = mset (closed_calls (leave inode s))" "mset (map fst ?W) = mset (given (leave inode s))"
    using l e by (auto simp: peer_inv_def)
  then have "set (closed_calls (leave inode s)) = set ?A" "set (given (leave inode s)) = set (map fst ?W)"
    by (metis set_mset_mset)+
  moreover have "\<not> mhas (sp_pending (sp_step (PeCallTimer uid) s)) uid" "\<not> mhas (sp_acks (sp_step (PeAckTimer uid) s)) uid"
    by (auto simp: request_timed_out_def ack_timed_out_def fail_call_def give_ack_def mhas_def)
  ultimately show ?thesis using mset_halves [OF a f(1)] mset_halves [OF w f(2)] by (simp add: mhas_keys)
qed

text \<open>C40: the broker of a leader is never closed. Whatever happened to a peer and whichever file is at the path, when it leaves
  while it leads its broker is orphaned, so that its socket stays open and its file in place until the process ends; no
  peer ever closes its broker, although the code closes one whose file is still its own.\<close>

theorem leader_never_closes:
  assumes s: "s = sp_run ins (new_peer nm cwd takeover watchMs)" and b: "sp_broker s = Some b"
    and f: "distinct (concat (map call_ids ins))" "distinct (map fst (concat (map ack_ids ins)))"
  shows "BrokerOrphaned b \<in> set (sp_log (leave (sp_ino s) s)) \<and> BrokerOrphaned b \<in> set (sp_log (leave inode s)) \<and>
    (\<forall>c. BrokerClosed c \<notin> set (sp_log (leave inode s)))"
proof -
  have v: "peer_inv (concat (map call_ids ins)) (concat (map ack_ids ins)) (leave i s)" for i
    using teardown_keeps [of _ _ "s\<lparr>sp_left := True\<rparr>"] books [OF s f] by (simp add: leave_def)
  have "BrokerOrphaned b \<in> set (sp_log (leave i s))" for i
    unfolding leave_def teardownConn_def Let_def by (simp add: drop_broker_def stopDisplacementWatch_def b)
  then show ?thesis using v by (simp add: peer_inv_def)
qed

section \<open>Acknowledgements cannot be forged by a peer\<close>

lemma registered_not_broker:
  assumes "broker_reachable h R b" and "mhas (br_peers b) a"
  shows "a \<noteq> expectedAckSender dst" and "a \<noteq> BROKER_NAME"
proof -
  obtain c where "mget (br_peers b) a = Some c" using assms(2) by (auto simp: mhas_def)
  then have "entry_ok b a c" using broker_reachable_inv [OF assms(1)] by (simp add: broker_inv_def reg_ok_def)
  then obtain p :: peer_conn where p: "a = compose_address None (pc_cwd p) (pc_name p)" "mesh_name (pc_name p)"
    unfolding entry_ok_def by blast
  note m = mesh_name_chars [OF p(2)]
  have tw: "takeWhile (\<lambda>x. x \<noteq> CHR '':'') (rev (pc_name p)) = rev (pc_name p)" using m(3) by (auto simp: takeWhile_eq_all_conv)
  have t: "takeWhile (\<lambda>x. x \<noteq> CHR '':'') (rev a) =
      (if pc_cwd p = [] then rev (pc_name p) else rev (pc_name p) @ CHR ''@'' # takeWhile (\<lambda>x. x \<noteq> CHR '':'') (rev (pc_cwd p)))"
    using m(3) tw by (auto simp: p(1) compose_address_def takeWhile_append)
  show n: "a \<noteq> BROKER_NAME"
  proof
    assume e: "a = BROKER_NAME"
    show False
    proof (cases "pc_cwd p = []")
      case False
      then have "CHR ''@'' \<in> set a" by (simp add: p(1) compose_address_def)
      then show False by (simp add: e BROKER_NAME_def)
    qed (use e m(5) in \<open>simp add: p(1) compose_address_def BROKER_NAME_def\<close>)
  qed
  have "a \<noteq> l @ '':broker''" for l
  proof
    assume e: "a = l @ '':broker''"
    have "takeWhile (\<lambda>x. x \<noteq> CHR '':'') (rev a) = rev ''broker''" by (simp add: e)
    then have r: "CHR ''@'' \<notin> set (takeWhile (\<lambda>x. x \<noteq> CHR '':'') (rev a))" by simp
    show False
    proof (cases "pc_cwd p = []")
      case True
      have "rev (pc_name p) = rev ''broker''" using e t True by simp
      then show False using m(5) by (simp only: rev_is_rev_conv)
    qed (use r(1) t in simp)
  qed
  then show "a \<noteq> expectedAckSender dst" using n by (simp add: expectedAckSender_def Let_def)
qed

lemma sent_log: "sp_log (reg_settle n out s) = sp_log s" "sp_log (preAckListener n v s) = sp_log s"
  by (simp_all add: reg_settle_def preAckListener_def add_task_def split: option.split prod.split sum.split jv.split bool.split)

lemma control_log: "\<exists>es. sp_log (controlListener n v s) = sp_log s @ es \<and> (\<forall>r. AckGiven r \<notin> set es)"
  by (auto simp: controlListener_def Let_def split: jv.split)

definition ack_cause :: "session_peer \<Rightarrow> envelope \<Rightarrow> ack_result \<Rightarrow> bool" where
  "ack_cause s env r \<longleftrightarrow>
     (mget (sp_acks s) (ar_id r) = Some (e_from env) \<and> e_re env = Some (ar_id r) \<and>
        (\<exists>target. ar_target r = Some target \<and> asAckBody (e_body env) = Some (ar_status r, target))) \<or>
     (e_from env = BROKER_NAME \<and> ar_target r = None \<and> mhas (sp_acks s) (ar_id r) \<and>
        (\<exists>uid reason. trusted_error env = Some (uid, reason) \<and> lower uid = ar_id r \<and> ar_reason r = Some reason))"

lemma trusted_from: "trusted_error env = Some p \<Longrightarrow> e_from env = BROKER_NAME"
  by (auto simp: trusted_error_def split: option.split_asm if_split_asm)

lemma envelope_log: "\<exists>es. sp_log (handle_envelope env s) = sp_log s @ es \<and> (\<forall>r. AckGiven r \<in> set es \<longrightarrow> ack_cause s env r)"
proof -
  have a: "\<exists>es. sp_log (handle_ack env s) = sp_log s @ es \<and> (\<forall>r. AckGiven r \<in> set es \<longrightarrow> ack_cause s env r)"
    by (auto simp: handle_ack_def give_ack_def ack_cause_def split: option.split)
  have r: "\<exists>es. sp_log (handle_reply env s) = sp_log s @ es \<and> (\<forall>r. AckGiven r \<in> set es \<longrightarrow> ack_cause s env r)"
    by (auto simp: handle_reply_def dispatchToHandlers_def split: option.split)
  have t: "\<exists>es. sp_log (rejectRequestTransportError u reason (consumeAckTransportError u reason s)) = sp_log s @ es \<and>
      (\<forall>r. AckGiven r \<in> set es \<longrightarrow> ack_cause s env r)" if "trusted_error env = Some (u, reason)" for u reason
    using that trusted_from [OF that]
    by (auto simp: rejectRequestTransportError_def consumeAckTransportError_def Let_def fail_call_def give_ack_def ack_cause_def)
  show ?thesis
    using a r t by (auto simp: handle_envelope_def dispatchToHandlers_def split: option.split)
qed

lemma line_log:
  "\<exists>es. sp_log (sp_handleLine line s) = sp_log s @ es \<and>
     (\<forall>r. AckGiven r \<in> set es \<longrightarrow> (\<exists>env. parse line = Inr env \<and> ack_cause s env r))"
proof (cases "sp_preAck s")
  case None
  have p: "\<exists>es. sp_log (case parse line of Inl _ \<Rightarrow> s | Inr env \<Rightarrow> handle_envelope env s) = sp_log s @ es \<and>
     (\<forall>r. AckGiven r \<in> set es \<longrightarrow> (\<exists>env. parse line = Inr env \<and> ack_cause s env r))"
    using envelope_log by (auto split: sum.split)
  show ?thesis
  proof (cases "\<exists>n v. sp_control s = Some n \<and> json_parse line = Some v \<and> jget v ''type'' = JStr ''rename_ack''")
    case True
    then obtain n v where "sp_control s = Some n" "json_parse line = Some v" "jget v ''type'' = JStr ''rename_ack''" by blast
    then show ?thesis using None control_log [of n v "s\<lparr>sp_control := None\<rparr>"] by (auto simp: sp_handleLine_def)
  next
    case False
    then have "sp_handleLine line s = (case parse line of Inl _ \<Rightarrow> s | Inr env \<Rightarrow> handle_envelope env s)"
      using None by (auto simp: sp_handleLine_def split: option.split)
    then show ?thesis using p by simp
  qed
next
  case (Some n)
  then show ?thesis by (auto simp: sp_handleLine_def sent_log split: option.split)
qed

text \<open>C35: an acknowledgement comes from the broker asked. When a line settles an acknowledged send otherwise than by its timer, the send was made by this
  peer, and the line is an envelope about it: either an acknowledgement from the broker that serves the address it
  was sent to, or a transport error of its own broker. No peer that a broker has registered can be
  that sender, since the broker forces its address on it.\<close>

theorem acks_from_broker:
  assumes s: "s = sp_run ins (new_peer nm cwd takeover watchMs)"
    and f: "distinct (concat (map call_ids ins))" "distinct (map fst (concat (map ack_ids ins)))"
    and n: "sp_log (sp_handleLine line s) = sp_log s @ es" "AckGiven r \<in> set es"
    and b: "broker_reachable h R b"
  shows "\<exists>dst body re env. PeSendAck (ar_id r) dst body re \<in> set ins \<and> parse line = Inr env \<and> \<not> mhas (br_peers b) (e_from env) \<and>
    ((e_from env = expectedAckSender dst \<and> e_re env = Some (ar_id r) \<and>
        (\<exists>target. ar_target r = Some target \<and> asAckBody (e_body env) = Some (ar_status r, target))) \<or>
     (e_from env = BROKER_NAME \<and> ar_target r = None \<and>
        (\<exists>uid reason. trusted_error env = Some (uid, reason) \<and> lower uid = ar_id r \<and> ar_reason r = Some reason)))"
proof -
  let ?W = "concat (map ack_ids ins)"
  have v: "peer_inv (concat (map call_ids ins)) ?W s" by (rule books [OF s f])
  have g: "\<exists>dst body re. PeSendAck u dst body re \<in> set ins \<and> x = expectedAckSender dst" if "mget (sp_acks s) u = Some x" for u x
  proof -
    have "(u, x) \<in> set ?W" using v that by (simp add: peer_inv_def)
    then obtain i where i: "i \<in> set ins" "(u, x) \<in> set (ack_ids i)" unfolding set_concat set_map by blast
    from i(2) have "\<exists>dst body re. i = PeSendAck u dst body re \<and> x = expectedAckSender dst" by (cases i) simp_all
    then show ?thesis using i(1) by blast
  qed
  obtain env where env: "parse line = Inr env" "ack_cause s env r" using line_log [of line s] n by auto
  obtain x where x: "mget (sp_acks s) (ar_id r) = Some x" using env(2) by (auto simp: ack_cause_def mhas_def)
  obtain dst body re where d: "PeSendAck (ar_id r) dst body re \<in> set ins" "x = expectedAckSender dst" using g [OF x] by blast
  have "e_from env = expectedAckSender dst \<or> e_from env = BROKER_NAME" using env(2) x d by (auto simp: ack_cause_def)
  then have "\<not> mhas (br_peers b) (e_from env)" using registered_not_broker [OF b] by metis
  moreover have "(e_from env = expectedAckSender dst \<and> e_re env = Some (ar_id r) \<and>
        (\<exists>target. ar_target r = Some target \<and> asAckBody (e_body env) = Some (ar_status r, target))) \<or>
     (e_from env = BROKER_NAME \<and> ar_target r = None \<and>
        (\<exists>uid reason. trusted_error env = Some (uid, reason) \<and> lower uid = ar_id r \<and> ar_reason r = Some reason))"
    using env(2) x d(2) by (auto simp: ack_cause_def)
  ultimately show ?thesis using d(1) env(1) by (intro exI conjI)
qed

section \<open>A peer and its broker agree\<close>

definition writes :: "nat \<Rightarrow> 'r broker \<Rightarrow> string list" where
  "writes c b = concat (map (\<lambda>e. case e of Write d l \<Rightarrow> if d = c then [l] else [] | _ \<Rightarrow> []) (br_log b))"

lemma writes_simps [simp]:
  "writes c (set_conn d p b) = writes c b" "writes c (b\<lparr>br_peers := m\<rparr>) = writes c b" "writes c (tick b) = writes c b"
  "writes c (emit e b) = writes c b @ (case e of Write d l \<Rightarrow> if d = c then [l] else [] | _ \<Rightarrow> [])"
  by (simp_all add: writes_def set_conn_def)

lemma writes_try [simp]: "writes c (snd (try_write h d line b)) = writes c b @ (if d = c \<and> \<not> h_throws h d then [line] else [])"
  by (simp add: try_write_def)

lemma writes_drop [simp]: "writes c (dropPeerAt a b) = writes c b"
  by (simp add: dropPeerAt_def destroy_conn_def writes_def emit_def split: option.split)

lemma writes_broadcast:
  assumes "\<forall>x. mget (br_peers b) x = Some c \<longrightarrow> x = ex" and "mwf (br_peers b)"
  shows "writes c (broadcastSystem h body ex b) = writes c b"
proof -
  have "writes c (fold (\<lambda>(address, d) b'. if address = ex then b'
             else snd (try_write h d (serialize (broker_env (next_uuid h b') address None body)) (tick b'))) ps b') = writes c b'"
    if "\<forall>x. (x, c) \<in> set ps \<longrightarrow> x = ex" for ps and b' :: "'a broker"
    using that
  proof (induction ps arbitrary: b')
    case (Cons p ps)
    obtain x d where p: "p = (x, d)" by fastforce
    have i: "\<forall>x. (x, c) \<in> set ps \<longrightarrow> x = ex" and x: "d = c \<longrightarrow> x = ex" using Cons.prems by (auto simp: p)
    show ?case using Cons.IH [OF i] x by (auto simp: p)
  qed simp
  moreover have "\<forall>x. (x, c) \<in> set (br_peers b) \<longrightarrow> x = ex" using assms by (auto simp: mwf_def)
  ultimately show ?thesis unfolding broadcastSystem_def by blast
qed

definition register_jv :: "session_peer \<Rightarrow> jv" where
  "register_jv s = JObj ([(''type'', JStr ''register''), (''name'', JStr (so_name s))] @
       (case so_cwd s of None \<Rightarrow> [] | Some d \<Rightarrow> [(''cwd'', JStr d)]) @ (if so_takeover s then [(''takeover'', JBool True)] else []))"

lemma register_line_jv: "register_line s = serialize_jv (register_jv s)"
  by (simp add: register_line_def register_jv_def)

lemma register_jv_wf: "wf_json (register_jv s)"
  by (simp add: register_jv_def split: option.split)

lemma parse_stringify: "wf_json v \<Longrightarrow> json_parse (stringify v) = Some v"
  using json_round_trip [of v "[]"] by simp

lemma register_jv_get:
  "jget (register_jv s) ''type'' = JStr ''register''" "jget (register_jv s) ''name'' = JStr (so_name s)"
  "jget (register_jv s) ''cwd'' = (case so_cwd s of None \<Rightarrow> JUndef | Some d \<Rightarrow> JStr d)"
  "(jget (register_jv s) ''takeover'' = JBool True) = so_takeover s" "is_objlike (register_jv s)"
  by (simp_all add: register_jv_def split: option.split)

definition peer_cwd :: "session_peer \<Rightarrow> string" where
  "peer_cwd s = (case so_cwd s of Some d \<Rightarrow> d | None \<Rightarrow> [])"

lemma register_request_line:
  assumes "isValidRegisteredCwd (peer_cwd s)"
  shows "register_request (stringify (register_jv s)) = Some (so_name s, peer_cwd s, so_takeover s)"
  using assms by (simp add: register_request_def parse_stringify register_jv_wf register_jv_get peer_cwd_def split: option.split_asm option.split)

lemma register_not_probe: "ty \<noteq> ''register'' \<Longrightarrow> probe_type ty (stringify (register_jv s)) = False"
  by (simp add: probe_type_def parse_stringify register_jv_wf register_jv_get)

lemma name_ack_wf: "wf_json (name_ack ty address nm)"
  by (simp add: name_ack_def)

lemma one_line: "wf_json v \<Longrightarrow> take_lines (serialize_jv v) = ([stringify v], [])"
  using serialize_line [of v "[]"] by simp

text \<open>The acknowledgement of a registration, as the peer takes it.\<close>

lemma ack_taken:
  assumes "sp_preAck s = Some n" and "mget (sp_regs s) n = Some (why, r)" and "sp_buf s = []"
  shows "sp_onData (serialize_jv (name_ack ''register_ack'' a nm)) s =
    add_task (Joined why r nm) (s\<lparr>sp_name := nm, sp_address := a, sp_preAck := None, sp_regs := mdel n (sp_regs s)\<rparr>)"
proof -
  let ?v = "name_ack ''register_ack'' a nm"
  have p: "json_parse (stringify ?v) = Some ?v" by (rule parse_stringify [OF name_ack_wf])
  have ne: "stringify ?v \<noteq> []" by (simp add: name_ack_def)
  have b: "s\<lparr>sp_buf := []\<rparr> = s" using assms(3) by (cases s) simp
  have g: "jget ?v ''type'' = JStr ''register_ack''" "jget ?v ''name_assigned'' = JStr nm" "jget ?v ''address_assigned'' = JStr a"
    by (simp_all add: name_ack_def)
  show ?thesis
    using assms ne by (simp add: sp_onData_def one_line name_ack_wf sp_handleLine_def p b preAckListener_def ack_field_def g reg_settle_def)
qed

lemma peers_after_take:
  assumes "broker_inv b" and "br_conns b c = Some new_conn"
  shows "mget (br_peers b) x \<noteq> Some c"
proof
  assume "mget (br_peers b) x = Some c"
  then have "entry_ok b x c" using assms(1) by (simp add: broker_inv_def reg_ok_def)
  then show False using assms(2) mesh_name_chars(1) by (auto simp: entry_ok_def new_conn_def)
qed

lemma same_reg_eq: "same_reg b b' \<Longrightarrow> br_peers b' = br_peers b \<and> br_conns b' = br_conns b"
  by (simp add: same_reg_def)

lemma drop_peers: "br_peers (dropPeerAt a b) = mdel a (br_peers b)"
  by (cases "mget (br_peers b) a") (simp_all add: dropPeerAt_def destroy_conn_def emit_def delete_id map_of_eq_None_iff split: option.split)

lemma drop_conn: "mget (br_peers b) a \<noteq> Some c \<Longrightarrow> br_conns (dropPeerAt a b) c = br_conns b c"
  by (simp add: dropPeerAt_def destroy_conn_def emit_def split: option.split)

text \<open>What a broker does with the registration of a new connection it accepts.\<close>

lemma register_effect:
  assumes v: "broker_inv b" and c: "br_conns b c = Some new_conn" and h: "\<not> h_throws h c"
    and cwd: "isValidRegisteredCwd (peer_cwd s)"
    and i: "identityForRegister (br_peers b) (peer_cwd s) (so_name s) (so_takeover s) = Some (nm, a, rep)"
  shows "writes c (onData h R c (register_line s) b) = writes c b @ [serialize_jv (name_ack ''register_ack'' a nm)] \<and>
    mget (br_peers (onData h R c (register_line s) b)) a = Some c \<and>
    (\<exists>p. br_conns (onData h R c (register_line s) b) c = Some p \<and> pc_name p = nm \<and> pc_address p = a)"
proof -
  define q where "q = new_conn\<lparr>pc_cwd := peer_cwd s, pc_name := nm, pc_address := a\<rparr>"
  define b1 where "b1 = set_conn c q (set_conn c new_conn b)"
  define b2 where "b2 = (if rep then dropPeerAt a b1 else b1)"
  define b3 where "b3 = snd (try_write h c (serialize_jv (name_ack ''register_ack'' a nm)) (b2\<lparr>br_peers := mput a c (br_peers b2)\<rparr>))"
  have tl: "take_lines (pc_buf new_conn @ register_line s) = ([stringify (register_jv s)], [])"
    by (simp add: new_conn_def register_line_jv one_line register_jv_wf)
  have n0: "new_conn\<lparr>pc_buf := []\<rparr> = new_conn" by (simp add: new_conn_def)
  have e: "onData h R c (register_line s) b = broadcastSystem h (peer_event_body ''peer_joined'' a) a b3"
    using register_not_probe [of "''broker_ping''" s] register_not_probe [of "''list_peers''" s]
    by (simp add: onData_def c tl n0 handleLine_def tryBrokerPing_def tryObserverProbe_def handleRegister_stages register_request_line [OF cwd]
        register_as_def i b1_def b2_def b3_def q_def Let_def) (simp add: new_conn_def)
  have p1: "br_peers b1 = br_peers b" "br_conns b1 c = Some q" by (simp_all add: b1_def set_conn_def)
  have free: "mget (br_peers b) x \<noteq> Some c" for x by (rule peers_after_take [OF v c])
  have p2: "br_peers b2 = (if rep then mdel a (br_peers b) else br_peers b)" "br_conns b2 c = Some q"
    using drop_peers [of a b1] drop_conn [of b1 a c] free by (auto simp: b2_def p1)
  have p3: "br_peers b3 = mput a c (br_peers b2)" "br_conns b3 c = Some q"
    by (simp_all add: b3_def try_write_def h p2)
  have s: "br_peers (broadcastSystem h body a b3) = br_peers b3 \<and> br_conns (broadcastSystem h body a b3) = br_conns b3" for body
    by (rule same_reg_eq [OF same_reg_broadcast])
  have wf: "mwf (br_peers b)" using v by (simp add: broker_inv_def reg_ok_def)
  have "writes c (broadcastSystem h body a b3) = writes c b3" for body
    using free wf by (intro writes_broadcast) (auto simp: p3 p2)
  moreover have "writes c b3 = writes c b @ [serialize_jv (name_ack ''register_ack'' a nm)]" using h by (simp add: b3_def b2_def b1_def)
  ultimately show ?thesis unfolding e using s p3 p2 by (simp add: q_def)
qed

text \<open>C36: a peer and the broker that accepts it agree. A new connection to a broker in any reachable state carries the line the peer sends
  when it registers. If the broker has an identity for it, the broker answers on this connection with one line, and the peer that reads it has the very
  name and address the broker has filed the connection under; its join then goes on.\<close>

theorem registration_agrees:
  assumes s: "s = registerOver why r k (wireSocket k s0)"
    and b: "broker_reachable h R b" "br_conns b c = Some new_conn" "\<not> h_throws h c"
    and i: "isValidRegisteredCwd (peer_cwd s0)"
      "identityForRegister (br_peers b) (peer_cwd s0) (so_name s0) (so_takeover s0) = Some (nm, a, rep)"
  shows "sp_log s = sp_log s0 @ [Sent k (register_line s0)] \<and>
    (\<exists>ack p. writes c (onData h R c (register_line s0) b) = writes c b @ [ack] \<and>
       br_conns (onData h R c (register_line s0) b) c = Some p \<and>
       sp_name (sp_onData ack s) = pc_name p \<and> sp_address (sp_onData ack s) = pc_address p \<and>
       mget (br_peers (onData h R c (register_line s0) b)) (sp_address (sp_onData ack s)) = Some c \<and>
       sp_tasks (sp_onData ack s) = sp_tasks s0 @ [Joined why r (sp_name (sp_onData ack s))])"
proof -
  have v: "broker_inv b" by (rule broker_reachable_inv [OF b(1)])
  have w: "register_line (wireSocket k s0\<lparr>sp_preAck := x, sp_regs := y, sp_next := z\<rparr>) = register_line s0" "register_line (wireSocket k s0) = register_line s0" for x y z
    by (simp_all add: register_line_def wireSocket_def)
  have s': "sp_preAck s = Some (sp_next s0)" "mget (sp_regs s) (sp_next s0) = Some (why, r)" "sp_buf s = []" "sp_tasks s = sp_tasks s0"
    "sp_log s = sp_log s0 @ [Sent k (register_line s0)]"
    using w by (simp_all add: s registerOver_def sock_write_def wireSocket_def)
  show ?thesis using register_effect [OF v b(2,3) i, of R] ack_taken [OF s'(1-3), of a nm] s'(4,5)
    by (auto simp: add_task_def)
qed

section \<open>Renaming in place\<close>

definition rename_jv :: "string \<Rightarrow> jv" where
  "rename_jv newName = JObj [(''type'', JStr ''rename''), (''name'', JStr newName)]"

lemma rename_effect:
  assumes v: "broker_inv b" and c: "br_conns b c = Some q" and f: "mget (br_peers b) (pc_address q) = Some c" and h: "\<not> h_throws h c"
  shows "\<exists>nm a p. writes c (handleRename h c q (rename_jv newName) b) = writes c b @ [serialize_jv (name_ack ''rename_ack'' a nm)] \<and>
    br_conns (handleRename h c q (rename_jv newName) b) c = Some p \<and> pc_name p = nm \<and> pc_address p = a \<and>
    mget (br_peers (handleRename h c q (rename_jv newName) b)) a = Some c \<and>
    (a \<noteq> pc_address q \<longrightarrow> mget (br_peers (handleRename h c q (rename_jv newName) b)) (pc_address q) = None)"
proof -
  have g: "jget (rename_jv x) ''name'' = JStr x" for x by (simp add: rename_jv_def)
  have wf: "mwf (br_peers b)" using v by (simp add: broker_inv_def reg_ok_def)
  have uniq: "x = pc_address q" if "mget (br_peers b) x = Some c" for x
  proof -
    have "entry_ok b x c" using v that by (simp add: broker_inv_def reg_ok_def)
    then show ?thesis using c by (auto simp: entry_ok_def)
  qed
  have keep: ?thesis if "handleRename h c q (rename_jv newName) b = sendRenameAck h c (pc_name q) (pc_address q) b'"
    "br_conns b' = br_conns b" "mget (br_peers b') (pc_address q) = Some c" "writes c b' = writes c b" for b'
    using that c h by (simp add: sendRenameAck_def try_write_def)
  define b1 where "b1 = b\<lparr>br_peers := mdel (pc_address q) (br_peers b)\<rparr>"
  show ?thesis
  proof (cases "newName = []")
    case True
    then show ?thesis using f by (intro keep [of b]) (simp_all add: handleRename_def g)
  next
    case False
    show ?thesis
    proof (cases "identityForRegister (br_peers b1) (pc_cwd q) newName False")
      case None
      then show ?thesis using False
        by (intro keep [of "b1\<lparr>br_peers := mput (pc_address q) c (br_peers b1)\<rparr>"]) (simp_all add: handleRename_def g b1_def Let_def)
    next
      case (Some t)
      obtain nm a rep where t: "t = (nm, a, rep)" by (cases t)
      define b3 where "b3 = set_conn c (q\<lparr>pc_name := nm, pc_address := a\<rparr>) b1\<lparr>br_peers := mput a c (br_peers b1)\<rparr>"
      define b5 where "b5 = broadcastSystem h (peer_event_body ''peer_joined'' a) a
        (broadcastSystem h (peer_event_body ''peer_left'' (pc_address q)) a b3)"
      have e: "handleRename h c q (rename_jv newName) b = sendRenameAck h c nm a b5"
        using False Some by (simp add: handleRename_def g t b1_def b3_def b5_def Let_def set_conn_def)
      have p3: "br_peers b3 = mput a c (mdel (pc_address q) (br_peers b))" "br_conns b3 c = Some (q\<lparr>pc_name := nm, pc_address := a\<rparr>)"
        "writes c b3 = writes c b"
        by (simp_all add: b3_def b1_def set_conn_def writes_def)
      have own: "\<forall>x. mget (br_peers b3) x = Some c \<longrightarrow> x = a" "mwf (br_peers b3)" using uniq wf by (auto simp: p3)
      have s: "br_peers (broadcastSystem h body x b') = br_peers b' \<and> br_conns (broadcastSystem h body x b') = br_conns b'" for body x and b' :: "'a broker"
        by (rule same_reg_eq [OF same_reg_broadcast])
      have w: "writes c b5 = writes c b" unfolding b5_def
        using own s by (simp add: writes_broadcast p3(3))
      show ?thesis unfolding e using s p3 w h by (auto simp: sendRenameAck_def try_write_def b5_def)
    qed
  qed
qed

lemma rename_ack_taken:
  assumes "sp_preAck s = None" and "sp_control s = Some n" and "sp_buf s = []"
  shows "sp_onData (serialize_jv (name_ack ''rename_ack'' a nm)) s = controlListener n (name_ack ''rename_ack'' a nm) (s\<lparr>sp_control := None\<rparr>)"
proof -
  let ?v = "name_ack ''rename_ack'' a nm"
  have p: "json_parse (stringify ?v) = Some ?v" by (rule parse_stringify [OF name_ack_wf])
  have ne: "stringify ?v \<noteq> []" by (simp add: name_ack_def)
  have b: "s\<lparr>sp_buf := []\<rparr> = s" using assms(3) by (cases s) simp
  have g: "jget ?v ''type'' = JStr ''rename_ack''" by (simp add: name_ack_def)
  show ?thesis using assms ne by (simp add: sp_onData_def one_line name_ack_wf sp_handleLine_def p b g)
qed

text \<open>C37: after a rename in place a peer knows its name and not its address. A registered peer whose name and address are those of the broker asks for
  a new name; the broker answers with one line, after which the peer reports success with the name the broker has
  filed. But it keeps the old address: whenever the new address differs, the one it reports is registered
  for nobody.\<close>

theorem rename_forgets_address:
  assumes b: "broker_reachable h R b" "br_conns b c = Some q" "pc_name q \<noteq> []" "\<not> pc_destroyed q" "pc_buf q = []" "\<not> h_throws h c"
    and s: "sp_address s = pc_address q" "sp_socket s = Some k" "k \<in> set (sp_open s)" "sp_preAck s = None" "sp_buf s = []"
  shows "\<exists>line ack p. sp_log (renameInPlace newName s) = sp_log s @ [Sent k line] \<and>
    writes c (onData h R c line b) = writes c b @ [ack] \<and> br_conns (onData h R c line b) c = Some p \<and>
    RenameDone (pc_name p) \<in> set (sp_log (sp_onData ack (renameInPlace newName s))) \<and>
    sp_name (sp_onData ack (renameInPlace newName s)) = pc_name p \<and>
    mget (br_peers (onData h R c line b)) (pc_address p) = Some c \<and>
    sp_address (sp_onData ack (renameInPlace newName s)) = pc_address q \<and>
    (pc_address p \<noteq> pc_address q \<longrightarrow>
       mget (br_peers (onData h R c line b)) (sp_address (sp_onData ack (renameInPlace newName s))) = None)"
proof -
  have v: "broker_inv b" by (rule broker_reachable_inv [OF b(1)])
  have f: "mget (br_peers b) (pc_address q) = Some c" using v b(2-4) by (auto simp: broker_inv_def live_ok_def filed_def)
  have wf: "wf_json (rename_jv newName)" by (simp add: rename_jv_def)
  define s1 where "s1 = s\<lparr>sp_control := Some (sp_next s), sp_renames := sp_next s # sp_renames s, sp_next := sp_next s + 1\<rparr>"
  have r: "renameInPlace newName s = peer_say (Sent k (serialize_jv (rename_jv newName))) s1"
    using s(2,3) by (simp add: renameInPlace_def s1_def rename_jv_def sock_write_def)
  have n0: "q\<lparr>pc_buf := []\<rparr> = q" using b(5) by (cases q) simp
  have same: "set_conn c q b = b" using b(2) by (cases b) (auto simp: set_conn_def)
  have g: "jget (rename_jv newName) ''type'' = JStr ''rename''" by (simp add: rename_jv_def)
  have e: "onData h R c (serialize_jv (rename_jv newName)) b = handleRename h c q (rename_jv newName) b"
    using b(2,3,5) by (simp add: onData_def one_line [OF wf] n0 same handleLine_def parse_stringify [OF wf] g)
  obtain nm a p where p: "writes c (handleRename h c q (rename_jv newName) b) = writes c b @ [serialize_jv (name_ack ''rename_ack'' a nm)]"
    "br_conns (handleRename h c q (rename_jv newName) b) c = Some p" "pc_name p = nm" "pc_address p = a"
    "mget (br_peers (handleRename h c q (rename_jv newName) b)) a = Some c"
    "a \<noteq> pc_address q \<longrightarrow> mget (br_peers (handleRename h c q (rename_jv newName) b)) (pc_address q) = None"
    using rename_effect [OF v b(2) f b(6), of newName] by blast
  define s2 where "s2 = sp_onData (serialize_jv (name_ack ''rename_ack'' a nm)) (renameInPlace newName s)"
  have "s2 = controlListener (sp_next s) (name_ack ''rename_ack'' a nm) ((renameInPlace newName s)\<lparr>sp_control := None\<rparr>)"
    unfolding s2_def using s(4,5) by (intro rename_ack_taken) (simp_all add: r s1_def)
  then have t: "RenameDone nm \<in> set (sp_log s2)" "sp_name s2 = nm" "sp_address s2 = pc_address q"
    by (simp_all add: controlListener_def name_ack_def r s1_def s(1))
  have l: "sp_log (renameInPlace newName s) = sp_log s @ [Sent k (serialize_jv (rename_jv newName))]" by (simp add: r s1_def)
  show ?thesis
    by (rule exI [of _ "serialize_jv (rename_jv newName)"], rule exI [of _ "serialize_jv (name_ack ''rename_ack'' a nm)"], rule exI [of _ p])
      (use p t l in \<open>simp add: e s2_def\<close>)
qed

section \<open>Displacement\<close>

lemma teardown_core:
  "sp_tasks (teardownConn inode s) = sp_tasks s" "sp_left (teardownConn inode s) = sp_left s" "sp_socket (teardownConn inode s) = None"
  "sp_watch (teardownConn inode s) = False" "sp_reelect (teardownConn inode s) = sp_reelect s" "sp_broker (teardownConn inode s) = None"
proof -
  have k: "sp_watch (fold (fail_call err) ks x) = sp_watch x \<and> sp_reelect (fold (fail_call err) ks x) = sp_reelect x"
    "sp_watch (fold (\<lambda>u. give_ack st u tg re) ks x) = sp_watch x \<and> sp_reelect (fold (\<lambda>u. give_ack st u tg re) ks x) = sp_reelect x" for err st tg re ks x
    by (induction ks arbitrary: x; simp add: fail_call_def give_ack_def)+
  have d: "sp_watch (drop_socket x) = sp_watch x" "sp_reelect (drop_socket x) = sp_reelect x" for x
    by (simp_all add: drop_socket_def split: option.split)
  show "sp_tasks (teardownConn inode s) = sp_tasks s" "sp_left (teardownConn inode s) = sp_left s" "sp_socket (teardownConn inode s) = None"
    "sp_watch (teardownConn inode s) = False" "sp_reelect (teardownConn inode s) = sp_reelect s" "sp_broker (teardownConn inode s) = None"
    by (auto simp: teardownConn_def Let_def drop_broker_def stopDisplacementWatch_def k d split: option.split)
qed

lemma teardown_orphans: "sp_broker s = Some b \<Longrightarrow> BrokerOrphaned b \<in> set (sp_log (teardownConn inode s))"
  unfolding teardownConn_def Let_def by (simp add: drop_broker_def stopDisplacementWatch_def)

text \<open>C38: a displaced leader comes back. A leader whose watch finds its own file at the path does nothing. When it finds another or none, it gives up its
  broker, its socket and its pending calls, and from then on does one thing only: after the delay it joins again. If that election makes
  it a follower that is accepted, it is a member again under the name it was given, its owner is told once, and the
  watch of displacement is free for the next time.\<close>

theorem displaced_leader_rejoins:
  assumes l: "sp_watch s" "\<not> sp_left s" "sp_role s = Leader" "sp_broker s = Some b" "\<not> sp_reelect s" "sp_tasks s = []"
    and d: "s1 = sp_step (PeWatch inode) s"
  shows "(inode \<noteq> None \<and> inode = sp_ino s \<longrightarrow> s1 = s) \<and>
    (inode = None \<or> inode \<noteq> sp_ino s \<longrightarrow>
       BrokerOrphaned b \<in> set (sp_log s1) \<and> sp_socket s1 = None \<and> sp_pending s1 = [] \<and> sp_acks s1 = [] \<and> sp_tasks s1 = [ReelectDelay] \<and>
       sp_step (PeWatch inode') s1 = s1 \<and>
       (let s2 = sp_run [PeResume ReelectDelay i, PeElected ForDisplaced (Follows k),
                    PeData k (serialize_jv (name_ack ''register_ack'' a nm)), PeResume (Joined ForDisplaced Follower nm) i'] s1
        in sp_role s2 = Follower \<and> sp_socket s2 = Some k \<and> sp_name s2 = nm \<and> sp_address s2 = a \<and> \<not> sp_reelect s2 \<and> sp_tasks s2 = [] \<and>
           sp_log s2 = sp_log s1 @ [Sent k (register_line s1), Reconnected]))"
proof (cases "inode \<noteq> None \<and> inode = sp_ino s")
  case True
  then show ?thesis using l by (auto simp: d checkDisplacement_def)
next
  case False
  define t where "t = teardownConn inode ((s\<lparr>sp_reelect := True\<rparr>)\<lparr>sp_watch := False\<rparr>)"
  have s1: "s1 = add_task ReelectDelay (t\<lparr>sp_role := Follower, sp_broker := None\<rparr>)"
    using False l unfolding d by (auto simp: checkDisplacement_def reelectAfterDisplacement_def stopDisplacementWatch_def t_def)
  have t: "sp_tasks t = []" "\<not> sp_left t" "sp_socket t = None" "\<not> sp_watch t" "sp_reelect t" "sp_pending t = []" "sp_acks t = []"
    "BrokerOrphaned b \<in> set (sp_log t)"
    using l teardown_orphans [of "(s\<lparr>sp_reelect := True\<rparr>)\<lparr>sp_watch := False\<rparr>" b inode] teardown_keys
    by (simp_all add: t_def teardown_core)
  define s3 where "s3 = registerOver ForDisplaced Follower k (wireSocket k (t\<lparr>sp_role := Follower, sp_broker := None\<rparr>))"
  have z: "t\<lparr>sp_broker := None, sp_tasks := [], sp_role := Follower\<rparr> = t\<lparr>sp_role := Follower, sp_broker := None\<rparr>"
    using t(1) by (cases t) simp
  have r2: "sp_run [PeResume ReelectDelay i, PeElected ForDisplaced (Follows k)] s1 = s3"
    using t by (simp add: sp_run_def s1 add_task_def drop_task_def reelect_delayed_def join_result_of_def s3_def z)
  have s3: "sp_preAck s3 = Some (sp_next t)" "mget (sp_regs s3) (sp_next t) = Some (ForDisplaced, Follower)" "sp_buf s3 = []"
    "sp_log s3 = sp_log t @ [Sent k (register_line s1)]" "sp_tasks s3 = []" "k \<in> set (sp_open s3)" "sp_socket s3 = Some k" "sp_role s3 = Follower" "\<not> sp_left s3"
    using t by (simp_all add: s3_def s1 registerOver_def sock_write_def wireSocket_def register_line_def add_task_def)
  have "sp_run [PeResume ReelectDelay i, PeElected ForDisplaced (Follows k),
      PeData k (serialize_jv (name_ack ''register_ack'' a nm)), PeResume (Joined ForDisplaced Follower nm) i'] s1 =
    sp_run [PeData k (serialize_jv (name_ack ''register_ack'' a nm)), PeResume (Joined ForDisplaced Follower nm) i'] s3"
    using r2 by (simp add: sp_run_def)
  also have "\<dots> = (peer_say Reconnected (drop_task (Joined ForDisplaced Follower nm) (sp_onData (serialize_jv (name_ack ''register_ack'' a nm)) s3)))\<lparr>sp_reelect := False\<rparr>"
    using s3(6) by (simp add: sp_run_def ack_taken [OF s3(1-3)] add_task_def joined_def)
  finally show ?thesis using False t s3 by (auto simp: Let_def ack_taken [OF s3(1-3)] add_task_def drop_task_def s1 checkDisplacement_def)
qed

section \<open>Leaving\<close>

definition sent_lines :: "session_peer \<Rightarrow> (nat \<times> string) list" where
  "sent_lines s = concat (map (\<lambda>e. case e of Sent k l \<Rightarrow> [(k, l)] | _ \<Rightarrow> []) (sp_log s))"

definition gone :: "session_peer \<Rightarrow> bool" where
  "gone s \<longleftrightarrow> sp_left s \<and> sp_socket s = None \<and> (\<forall>t \<in> set (sp_tasks s). \<not> waits_outside t)"

lemma sent_simps [simp]:
  "sent_lines (peer_say e s) = sent_lines s @ (case e of Sent k l \<Rightarrow> [(k, l)] | _ \<Rightarrow> [])"
  "sent_lines (s\<lparr>sp_name := b\<rparr>) = sent_lines s" "sent_lines (s\<lparr>sp_address := c\<rparr>) = sent_lines s" "sent_lines (s\<lparr>so_name := b\<rparr>) = sent_lines s"
  "sent_lines (s\<lparr>sp_socket := f\<rparr>) = sent_lines s" "sent_lines (s\<lparr>sp_open := g\<rparr>) = sent_lines s" "sent_lines (s\<lparr>sp_buf := h\<rparr>) = sent_lines s"
  "sent_lines (s\<lparr>sp_left := i\<rparr>) = sent_lines s" "sent_lines (s\<lparr>sp_ino := j\<rparr>) = sent_lines s" "sent_lines (s\<lparr>sp_watch := k\<rparr>) = sent_lines s"
  "sent_lines (s\<lparr>sp_reelect := l\<rparr>) = sent_lines s" "sent_lines (s\<lparr>sp_preAck := m\<rparr>) = sent_lines s" "sent_lines (s\<lparr>sp_regs := n\<rparr>) = sent_lines s"
  "sent_lines (s\<lparr>sp_control := q\<rparr>) = sent_lines s" "sent_lines (s\<lparr>sp_renames := r\<rparr>) = sent_lines s" "sent_lines (s\<lparr>sp_next := t\<rparr>) = sent_lines s"
  "sent_lines (s\<lparr>sp_tasks := u\<rparr>) = sent_lines s" "sent_lines (s\<lparr>sp_pending := v\<rparr>) = sent_lines s" "sent_lines (s\<lparr>sp_acks := w\<rparr>) = sent_lines s"
  "sent_lines (s\<lparr>sp_broker := x\<rparr>) = sent_lines s" "sent_lines (s\<lparr>sp_role := y\<rparr>) = sent_lines s"
  by (simp_all add: sent_lines_def)

text \<open>What a peer that has left may still do: nothing on a socket.\<close>

definition quiet_step :: "session_peer \<Rightarrow> session_peer \<Rightarrow> bool" where
  "quiet_step s s' \<longleftrightarrow> sent_lines s' = sent_lines s \<and> (gone s \<longrightarrow> gone s')"

lemma quiet_trans: "quiet_step s s' \<Longrightarrow> quiet_step s' s'' \<Longrightarrow> quiet_step s s''"
  by (simp add: quiet_step_def)

lemma quiet_fold: "(\<And>x s. quiet_step s (f x s)) \<Longrightarrow> quiet_step s (fold f xs s)"
proof (induction xs arbitrary: s)
  case (Cons x xs)
  show ?case using quiet_trans [OF Cons.prems [of s x] Cons.IH [OF Cons.prems]] by simp
qed (simp add: quiet_step_def)

lemma quiet_reg: "quiet_step s (reg_settle n out s)"
  by (auto simp: quiet_step_def gone_def reg_settle_def add_task_def split: option.split sum.split prod.split)

lemma quiet_settle: "quiet_step s (fail_call err u s)" "quiet_step s (give_ack st u tg re s)"
  by (simp_all add: quiet_step_def gone_def fail_call_def give_ack_def)

lemma quiet_line: "quiet_step s (sp_handleLine line s)"
proof -
  have p: "quiet_step s (preAckListener n v s)" for n v
  proof -
    have "quiet_step s (reg_settle n out (s\<lparr>sp_name := x, sp_address := y, sp_preAck := None\<rparr>))" for out x y
      by (rule quiet_trans [OF _ quiet_reg]) (simp add: quiet_step_def gone_def)
    then show ?thesis using quiet_reg by (simp add: preAckListener_def split: jv.split bool.split)
  qed
  have c: "quiet_step s (controlListener n v (s\<lparr>sp_control := None\<rparr>))" for n v
    by (simp add: quiet_step_def gone_def controlListener_def Let_def split: jv.split)
  have t: "quiet_step s (rejectRequestTransportError u reason (consumeAckTransportError u reason s))" for u reason
  proof (rule quiet_trans)
    show "quiet_step s (consumeAckTransportError u reason s)" using quiet_settle(2) by (simp add: consumeAckTransportError_def Let_def quiet_step_def)
    show "quiet_step s' (rejectRequestTransportError u reason s')" for s' using quiet_settle(1) by (simp add: rejectRequestTransportError_def Let_def quiet_step_def)
  qed
  have a: "quiet_step s (handle_ack env s)" for env
    using quiet_settle(2) by (simp add: handle_ack_def quiet_step_def split: option.split)
  have r: "quiet_step s (handle_reply env s)" for env
    by (simp add: handle_reply_def dispatchToHandlers_def quiet_step_def gone_def split: option.split)
  have d: "quiet_step s (dispatchToHandlers env s)" for env by (simp add: dispatchToHandlers_def quiet_step_def gone_def)
  have e: "quiet_step s (handle_envelope env s)" for env
    using a r t d by (simp add: handle_envelope_def split: option.split)
  have z: "quiet_step s s" by (simp add: quiet_step_def)
  show ?thesis using p c e z by (simp add: sp_handleLine_def split: option.split sum.split)
qed

lemma quiet_data: "quiet_step s (sp_onData chunk s)"
proof -
  have "quiet_step s (fold sp_handleLine ls (s\<lparr>sp_buf := rest\<rparr>))" for ls rest
    by (rule quiet_trans [OF _ quiet_fold [OF quiet_line]]) (simp add: quiet_step_def gone_def)
  then show ?thesis by (simp add: sp_onData_def split: prod.split)
qed

lemma quiet_teardown: "quiet_step s (teardownConn inode s)"
proof -
  have d: "quiet_step x (drop_broker inode (drop_socket x))" for x
    by (simp add: quiet_step_def gone_def drop_broker_def drop_socket_def split: option.split)
  have "quiet_step s ((stopDisplacementWatch s)\<lparr>sp_ino := None\<rparr>)" by (simp add: quiet_step_def gone_def stopDisplacementWatch_def)
  then show ?thesis unfolding teardownConn_def Let_def
    by (intro quiet_trans [OF _ d] quiet_trans [OF _ quiet_fold [OF quiet_settle(2)]] quiet_trans [OF _ quiet_fold [OF quiet_settle(1)]])
qed

fun rejoins :: "sp_input \<Rightarrow> bool" where
  "rejoins PeStart = True"
| "rejoins (PeRename nm inode) = True"
| "rejoins _ = False"

lemma gone_write: "gone s \<Longrightarrow> writeEnvelope env s = None"
  by (simp add: gone_def writeEnvelope_def)

lemma gone_step:
  assumes g: "gone s" and i: "\<not> rejoins i"
  shows "gone (sp_step i s) \<and> sent_lines (sp_step i s) = sent_lines s"
proof -
  have q: "quiet_step s s' \<Longrightarrow> gone s' \<and> sent_lines s' = sent_lines s" for s' using g by (simp add: quiet_step_def)
  show ?thesis
  proof (cases i)
    case (PeSendAck uid dst body re)
    have w: "quiet_step s (give_ack AckTimeout uid None None (peer_say (AckWanted uid) (s\<lparr>sp_acks := m\<rparr>)))" for m
      by (rule quiet_trans [OF _ quiet_settle(2)]) (simp add: quiet_step_def gone_def)
    have e: "sendWithAck uid dst body re s =
        give_ack AckTimeout uid None None (peer_say (AckWanted uid) (s\<lparr>sp_acks := mput uid (expectedAckSender dst) (sp_acks s)\<rparr>))"
      using g by (simp add: sendWithAck_def send_env_def Let_def gone_def writeEnvelope_def)
    show ?thesis unfolding PeSendAck sp_step.simps e by (rule q [OF w])
  next
    case (PeRequest uid dst body)
    have w: "quiet_step s (fail_call NotConnected uid (peer_say (Asked uid) (s\<lparr>sp_pending := m\<rparr>)))" for m
      by (rule quiet_trans [OF _ quiet_settle(1)]) (simp add: quiet_step_def gone_def)
    have e: "request uid dst body s = fail_call NotConnected uid (peer_say (Asked uid) (s\<lparr>sp_pending := mput uid () (sp_pending s)\<rparr>))"
      using g by (simp add: request_def send_env_def Let_def gone_def writeEnvelope_def)
    show ?thesis unfolding PeRequest sp_step.simps e by (rule q [OF w])
  next
    case (PeLeave inode)
    have "quiet_step s (teardownConn inode (s\<lparr>sp_left := True\<rparr>))" by (rule quiet_trans [OF _ quiet_teardown]) (simp add: quiet_step_def gone_def)
    then show ?thesis using q by (simp add: PeLeave leave_def)
  next
    case (PeElected why out)
    then show ?thesis using g waits_outside.simps(1) by (auto simp: gone_def)
  next
    case (PeLoopback why k)
    then show ?thesis using g waits_outside.simps(2) by (auto simp: gone_def)
  next
    case (PeResume t inode)
    have "quiet_step s (run_task t inode (drop_task t s))"
      using g by (cases t) (auto simp: quiet_step_def gone_def drop_task_def joined_def not_joined_def startDisplacementWatch_def stopDisplacementWatch_def
          failover_def reelect_delayed_def Let_def dest: notin_set_remove1 split: join_for.split)
    then show ?thesis using q g by (simp add: PeResume)
  next
    case (PeData k chunk)
    then show ?thesis using q [OF quiet_data] g by simp
  next
    case (PeRegTimer n)
    then show ?thesis using q [OF quiet_reg] by (simp add: register_timed_out_def)
  next
    case (PeAckTimer uid)
    then show ?thesis using q [OF quiet_settle(2)] g by (simp add: ack_timed_out_def)
  next
    case (PeCallTimer uid)
    then show ?thesis using q [OF quiet_settle(1)] g by (simp add: request_timed_out_def)
  next
    case (PeSend uid dst body re)
    then show ?thesis using g by (simp add: send_env_def gone_write)
  qed (use g i in \<open>simp_all add: gone_def renameInPlace_def rename_timed_out_def onSocketClose_def checkDisplacement_def Let_def\<close>)
qed

lemma gone_run: "gone s \<Longrightarrow> \<forall>i \<in> set ins. \<not> rejoins i \<Longrightarrow> gone (sp_run ins s) \<and> sent_lines (sp_run ins s) = sent_lines s"
proof (induction ins rule: rev_induct)
  case (snoc i ins)
  then show ?case unfolding sp_run_snoc using gone_step [of "sp_run ins s" i] by simp
qed (simp add: sp_run_def)

text \<open>C39: leaving is final when no join is under way, and only then. After a peer has left with no election and no connection of its own pending, it writes nothing and
  has no socket, whatever happens, until its owner starts or renames it. But an election that was pending is
  not called off: its outcome registers the peer that has left.\<close>

theorem leave_final_unless_joining:
  shows "((\<forall>t \<in> set (sp_tasks s). \<not> waits_outside t) \<and> (\<forall>i \<in> set ins. \<not> rejoins i) \<longrightarrow>
      sp_socket (sp_run ins (leave inode s)) = None \<and> sent_lines (sp_run ins (leave inode s)) = sent_lines s) \<and>
    (Joining why \<in> set (sp_tasks s) \<longrightarrow>
      sp_left (sp_run [PeElected why (Follows k)] (leave inode s)) \<and> sp_socket (sp_run [PeElected why (Follows k)] (leave inode s)) = Some k \<and>
      sent_lines (sp_run [PeElected why (Follows k)] (leave inode s)) = sent_lines s @ [(k, register_line (leave inode s))])"
proof (intro conjI impI)
  have l: "sp_left (leave inode s)" "sp_socket (leave inode s) = None" "sp_tasks (leave inode s) = sp_tasks s" "sent_lines (leave inode s) = sent_lines s"
    using quiet_teardown [of "s\<lparr>sp_left := True\<rparr>" inode] by (simp_all add: leave_def teardown_core quiet_step_def)
  assume a: "(\<forall>t \<in> set (sp_tasks s). \<not> waits_outside t) \<and> (\<forall>i \<in> set ins. \<not> rejoins i)"
  then have "gone (leave inode s)" using l by (simp add: gone_def)
  then show "sp_socket (sp_run ins (leave inode s)) = None" "sent_lines (sp_run ins (leave inode s)) = sent_lines s"
    using gone_run [of "leave inode s" ins] a l(4) by (simp_all add: gone_def)
next
  assume j: "Joining why \<in> set (sp_tasks s)"
  have l: "sp_left (leave inode s)" "sp_tasks (leave inode s) = sp_tasks s" "sent_lines (leave inode s) = sent_lines s"
    using quiet_teardown [of "s\<lparr>sp_left := True\<rparr>" inode] by (simp_all add: leave_def teardown_core quiet_step_def)
  have e: "sp_run [PeElected why (Follows k)] (leave inode s) =
      registerOver why Follower k (wireSocket k ((drop_task (Joining why) (leave inode s))\<lparr>sp_role := Follower\<rparr>))"
    using j by (simp add: sp_run_def l join_result_of_def)
  show "sp_left (sp_run [PeElected why (Follows k)] (leave inode s))" "sp_socket (sp_run [PeElected why (Follows k)] (leave inode s)) = Some k"
    "sent_lines (sp_run [PeElected why (Follows k)] (leave inode s)) = sent_lines s @ [(k, register_line (leave inode s))]"
    unfolding e using l by (simp_all add: registerOver_def sock_write_def wireSocket_def drop_task_def register_line_def)
qed

end
