(* ===== verification/SessionPeerRuns.thy ===== *)
theory SessionPeerRuns
  imports SessionPeerProps BrokerRuns
begin

text \<open>
  Concrete runs of a client of the local mesh, to which the properties of \<open>SessionPeerProps\<close> are applied: one that joins the broker of \<open>BrokerRuns\<close>,
  asks and sends, leads and leaves.
\<close>

definition peer0 :: session_peer where "peer0 = new_peer ''d'' (Some ''/w'') False 3000"

definition uid1 :: string where "uid1 = uuidv7 8 (replicate 10 0)"
definition uid2 :: string where "uid2 = uuidv7 9 (replicate 10 0)"

definition joining :: "sp_input list" where "joining = [PeStart, PeElected ForStart (Follows 1)]"

definition calling :: "sp_input list" where
  "calling = joining @ [PeData 1 (serialize_jv (name_ack ''register_ack'' ''/w@d'' ''d'')), PeRequest uid1 ''/w@a'' JNull, PeSendAck uid2 ''/w@a'' JNull None]"

definition leading :: "sp_input list" where "leading = [PeStart, PeElected ForStart (Leads 7)]"

lemma joining_state: "sp_run joining peer0 = registerOver ForStart Follower 1 (wireSocket 1 peer0)"
  by (simp add: sp_run_def joining_def peer0_def new_peer_def start_def add_task_def drop_task_def join_result_of_def)

lemma joined_state:
  "sp_run (joining @ [PeData 1 (serialize_jv (name_ack ''register_ack'' ''/w@d'' ''d''))]) peer0 =
   add_task (Joined ForStart Follower ''d'') ((registerOver ForStart Follower 1 (wireSocket 1 peer0))\<lparr>sp_name := ''d'', sp_address := ''/w@d'',
     sp_preAck := None, sp_regs := []\<rparr>)"
proof -
  have f: "sp_preAck (sp_run joining peer0) = Some 0" "mget (sp_regs (sp_run joining peer0)) 0 = Some (ForStart, Follower)"
    "sp_buf (sp_run joining peer0) = []" "1 \<in> set (sp_open (sp_run joining peer0))" "mdel 0 (sp_regs (sp_run joining peer0)) = []"
    unfolding joining_state by (simp_all add: registerOver_def sock_write_def wireSocket_def peer0_def new_peer_def peer_say_def)
  show ?thesis unfolding sp_run_snoc using f ack_taken [OF f(1-3), of "''/w@d''" "''d''"] by (simp add: joining_state)
qed

lemma uids: "uid1 \<noteq> uid2"
  by code_simp

lemma call_ids_calling: "concat (map call_ids calling) = [uid1]" "concat (map ack_ids calling) = [(uid2, BROKER_NAME)]"
proof -
  have "expectedAckSender ''/w@a'' = BROKER_NAME" by (simp add: expectedAckSender_def)
  then show "concat (map call_ids calling) = [uid1]" "concat (map ack_ids calling) = [(uid2, BROKER_NAME)]"
    by (simp_all add: calling_def joining_def)
qed

lemma calls_settle_once_witness:
  "set (closed_calls (leave None (sp_run calling peer0))) = {uid1} \<and> set (given (leave None (sp_run calling peer0))) = {uid2}"
  using calls_settle_once [of "sp_run calling peer0" calling "''d''" "Some ''/w''" False 3000 uid1 None] call_ids_calling
  by (simp add: peer0_def)

lemma leader_never_closes_witness: "BrokerOrphaned 7 \<in> set (sp_log (leave (Some 3) (sp_run leading peer0)))"
proof -
  have b: "sp_broker (sp_run leading peer0) = Some 7"
    by (simp add: sp_run_def leading_def peer0_def new_peer_def start_def add_task_def drop_task_def join_result_of_def)
  have d: "distinct (concat (map call_ids leading))" "distinct (map fst (concat (map ack_ids leading)))" by (simp_all add: leading_def)
  show ?thesis using leader_never_closes [OF _ b d, of "''d''" "Some ''/w''" False 3000 "Some 3"] by (simp add: peer0_def)
qed

lemma demo_accepts: "identityForRegister (br_peers demo) ''/w'' ''d'' False = Some (''d'', ''/w@d'', False)"
  unfolding demo_peers by code_simp

lemma registration_agrees_witness:
  "\<exists>ack p. br_conns (onData demo_host demo_router 13 (register_line peer0) demo) 13 = Some p \<and>
     sp_address (sp_onData ack (registerOver ForStart Follower 1 (wireSocket 1 peer0))) = pc_address p"
proof -
  have i: "isValidRegisteredCwd (peer_cwd peer0)"
    "identityForRegister (br_peers demo) (peer_cwd peer0) (so_name peer0) (so_takeover peer0) = Some (''d'', ''/w@d'', False)"
    using demo_accepts demo_ids by (simp_all add: peer0_def new_peer_def peer_cwd_def)
  have h: "\<not> h_throws demo_host 13" by simp
  show ?thesis using registration_agrees [OF refl demo_reachable demo_conns(2) h i, of ForStart Follower 1] by blast
qed

lemma calling_state:
  "sp_acks (sp_run calling peer0) = [(uid2, BROKER_NAME)]" "sp_preAck (sp_run calling peer0) = None" "sp_control (sp_run calling peer0) = None"
proof -
  let ?s = "sp_run (joining @ [PeData 1 (serialize_jv (name_ack ''register_ack'' ''/w@d'' ''d''))]) peer0"
  have f: "sp_socket ?s = Some 1" "sp_open ?s = [1]" "sp_acks ?s = []" "sp_preAck ?s = None" "sp_control ?s = None"
    unfolding joined_state by (simp_all add: add_task_def registerOver_def sock_write_def wireSocket_def peer0_def new_peer_def peer_say_def)
  have e: "expectedAckSender ''/w@a'' = BROKER_NAME" by (simp add: expectedAckSender_def)
  have r: "sp_run calling peer0 = sendWithAck uid2 ''/w@a'' JNull None (request uid1 ''/w@a'' JNull ?s)"
    by (simp add: calling_def sp_run_def)
  show "sp_acks (sp_run calling peer0) = [(uid2, BROKER_NAME)]" "sp_preAck (sp_run calling peer0) = None" "sp_control (sp_run calling peer0) = None"
    unfolding r using f
    by (simp_all add: sendWithAck_def request_def send_env_def writeEnvelope_def sock_write_def Let_def e)
qed

definition ack_env :: envelope where
  "ack_env = broker_env uid1 ''/w@d'' (Some uid2) (ack_body Received ''/w@a'')"

lemma ack_env_parsed: "parse (serialize ack_env) = Inr ack_env"
proof -
  have u: "is_uuid (JStr uid1)" "is_uuid (JStr uid2)" by code_simp+
  have w: "wf_env ack_env" using u by (simp add: is_uuid_def ack_env_def broker_env_def wf_env_def BROKER_NAME_def)
  have b: "wf_json (e_body ack_env)" by (simp add: ack_env_def broker_env_def ack_body_def)
  show ?thesis by (rule parse_serialize [OF w b])
qed

lemma acks_from_broker_witness: "\<not> mhas (br_peers demo) (e_from ack_env)"
proof -
  let ?s = "sp_run calling peer0"
  have a: "asAckBody (e_body ack_env) = Some (AckReceived, ''/w@a'')" "hasExactAckType (e_body ack_env)" "\<not> has_transport_error_type (e_body ack_env)"
    "e_from ack_env = BROKER_NAME" "e_re ack_env = Some uid2"
    by (simp_all add: ack_env_def broker_env_def ack_body_def asAckBody_def hasExactAckType_def ack_status_of_def status_str_def mhas_def
        has_transport_error_type_def)
  have l: "sp_log (sp_handleLine (serialize ack_env) ?s) = sp_log ?s @ [AckGiven \<lparr>ar_status = AckReceived, ar_id = uid2, ar_target = Some ''/w@a'', ar_reason = None\<rparr>]"
    using calling_state by (simp add: sp_handleLine_def ack_env_parsed handle_envelope_def handle_ack_def a give_ack_def)
  have d: "distinct (concat (map call_ids calling))" "distinct (map fst (concat (map ack_ids calling)))" by (simp_all add: call_ids_calling)
  show ?thesis using acks_from_broker [OF _ d l _ demo_reachable, of "''d''" "Some ''/w''" False 3000] ack_env_parsed by (auto simp: peer0_def)
qed

definition member :: session_peer where
  "member = peer0\<lparr>sp_name := ''a'', sp_address := ''/w@a'', sp_socket := Some 1, sp_open := [1]\<rparr>"

lemma rename_forgets_address_witness:
  "\<exists>ack. sp_address (sp_onData ack (renameInPlace ''e'' member)) = ''/w@a'' \<and> (\<exists>nm. RenameDone nm \<in> set (sp_log (sp_onData ack (renameInPlace ''e'' member))))"
proof -
  have q: "pc_name conn_a \<noteq> []" "\<not> pc_destroyed conn_a" "pc_buf conn_a = []" "pc_address conn_a = ''/w@a''" by (simp_all add: conn_a_def)
  have m: "sp_address member = pc_address conn_a" "sp_socket member = Some 1" "1 \<in> set (sp_open member)" "sp_preAck member = None" "sp_buf member = []"
    by (simp_all add: member_def q peer0_def new_peer_def)
  have h: "\<not> h_throws demo_host 10" by simp
  show ?thesis using rename_forgets_address [OF demo_reachable demo_conns(1) q(1-3) h m, of "''e''"] q(4) by metis
qed

definition leader :: session_peer where
  "leader = peer0\<lparr>sp_role := Leader, sp_broker := Some 7, sp_watch := True, sp_ino := Some 3\<rparr>"

lemma displaced_leader_rejoins_witness:
  "sp_tasks (sp_step (PeWatch (Some 4)) leader) = [ReelectDelay] \<and> BrokerOrphaned 7 \<in> set (sp_log (sp_step (PeWatch (Some 4)) leader))"
proof -
  have l: "sp_watch leader" "\<not> sp_left leader" "sp_role leader = Leader" "sp_broker leader = Some 7" "\<not> sp_reelect leader" "sp_tasks leader = []"
    "sp_ino leader = Some 3"
    by (simp_all add: leader_def peer0_def new_peer_def)
  show ?thesis using displaced_leader_rejoins [OF l(1-6) refl, of "Some 4"] l(7) by simp
qed

lemma leave_final_unless_joining_witness:
  "sp_socket (sp_run [PeElected ForStart (Follows 1)] (leave None (sp_run [PeStart] peer0))) = Some 1 \<and>
   sp_socket (sp_run [PeRequest uid1 ''/w@a'' JNull] (leave None leader)) = None"
proof -
  have j: "Joining ForStart \<in> set (sp_tasks (sp_run [PeStart] peer0))" by (simp add: sp_run_def start_def add_task_def peer0_def new_peer_def)
  have t: "sp_tasks leader = []" by (simp add: leader_def peer0_def new_peer_def)
  show ?thesis using leave_final_unless_joining [of "sp_run [PeStart] peer0" "[]" None ForStart 1] j
      leave_final_unless_joining [of leader "[PeRequest uid1 ''/w@a'' JNull]" None ForStart 1] t by simp
qed

end
