(* ===== verification/MeshNodeRuns.thy ===== *)
theory MeshNodeRuns
  imports MeshNodeLife SessionPeerRuns
begin

text \<open>
  A concrete run of a mesh node, to which the properties of \<open>MeshNodeProps\<close> and \<open>MeshNodeLife\<close> are applied: it starts, leads, makes its relay,
  publishes a bridge, loses the relay and is closed.
\<close>

definition own_keys :: keys where "own_keys = (replicate 32 7, replicate 64 7)"

definition alone :: topology where
  "alone = \<lparr>tp_self = \<lparr>ri_pcPubkey = b64_encode (replicate 32 7), ri_pcLabel = ''pc'', ri_legacyPcLabel = ''pc''\<rparr>, tp_siblings = []\<rparr>"

definition self_bridge :: bridge_params where
  "self_bridge = \<lparr>bp_relayUrl = ''https://r'', bp_keypair = None, bp_timeoutMs = None, bp_cwd = Some ''/w'', bp_sessionName = Some ''d'', bp_injected = None\<rparr>"

definition leads_ins :: "mn_input list" where
  "leads_ins = [MnTopology alone, MnConnect, MnPeer (PeElected ForStart (Leads 7)), MnPeer (PeLoopback ForStart (Some 1)),
     MnPeer (PeData 1 (serialize_jv (name_ack ''register_ack'' ''/w@d'' ''d''))), MnPeer (PeResume (Joined ForStart Leader ''d'') (Some 3))]"

definition bridge_ins :: "mn_input list" where
  "bridge_ins = [MnTask (Started ''d''), MnKeys (Some own_keys), MnRelay True, MnBridge alone True, MnSettle]"

lemma alone_ok: "own_ok alone"
proof -
  have "canon_key (b64_encode (replicate 32 7))" unfolding canon_key_def by (rule exI [of _ "replicate 32 7"]) simp
  then show ?thesis by (simp add: own_ok_def alone_def identity_ok_def)
qed

lemma alone_key: "encodeEd25519PublicKey (fst own_keys) f = Inr (ri_pcPubkey (tp_self alone))"
  by (simp add: encodeEd25519PublicKey_def own_keys_def alone_def ED25519_PUBLIC_KEY_BYTES_def)

text \<open>The peer of the node, step by step.\<close>

lemma peer_unheard:
  assumes "sp_step i (mn_peer s) = q" and "sp_log q = sp_log (mn_peer s) @ es" and "\<forall>e \<in> set es. \<exists>k l. e = SessionPeer.Sent k l"
  shows "peer_steps i s = s\<lparr>mn_peer := q\<rparr>"
proof -
  have "fold heed es t = t" for t using assms(3) by (induction es) auto
  then show ?thesis using assms(1,2) by (simp add: peer_steps_def)
qed

definition peer_led :: session_peer where "peer_led = sp_step (PeElected ForStart (Leads 7)) (start peer0)"
definition peer_wired :: session_peer where "peer_wired = sp_step (PeLoopback ForStart (Some 1)) peer_led"
definition peer_named :: session_peer where
  "peer_named = sp_step (PeData 1 (serialize_jv (name_ack ''register_ack'' ''/w@d'' ''d''))) peer_wired"
definition peer_ready :: session_peer where "peer_ready = sp_step (PeResume (Joined ForStart Leader ''d'') (Some 3)) peer_named"

lemmas peer_ops = start_def add_task_def drop_task_def join_result_of_def loopback_result_def registerOver_def wireSocket_def sock_write_def peer_say_def
  peer0_def new_peer_def

lemma led: "sp_log peer_led = []" "sp_role peer_led = Leader" "sp_broker peer_led = Some 7" "sp_tasks peer_led = [Loopback ForStart]" "sp_open peer_led = []"
    "sp_next peer_led = sp_next peer0" "sp_regs peer_led = []" "so_watchMs peer_led = 3000"
  by (simp_all add: peer_led_def peer_ops)

lemma wired: "peer_wired = registerOver ForStart Leader 1 (wireSocket 1 (drop_task (Loopback ForStart) peer_led))"
  by (simp add: peer_wired_def led loopback_result_def)

lemma wired_fields: "\<exists>l. sp_log peer_wired = [SessionPeer.Sent 1 l]" "sp_role peer_wired = Leader" "sp_broker peer_wired = Some 7" "sp_tasks peer_wired = []"
    "sp_open peer_wired = [1]" "sp_preAck peer_wired = Some (sp_next peer0)" "mget (sp_regs peer_wired) (sp_next peer0) = Some (ForStart, Leader)"
    "sp_buf peer_wired = []" "so_watchMs peer_wired = 3000"
  unfolding wired using led by (simp_all add: registerOver_def wireSocket_def drop_task_def sock_write_def peer_say_def)

lemma named: "peer_named = add_task (Joined ForStart Leader ''d'') (peer_wired\<lparr>sp_name := ''d'', sp_address := ''/w@d'', sp_preAck := None,
    sp_regs := mdel (sp_next peer0) (sp_regs peer_wired)\<rparr>)"
  using ack_taken [OF wired_fields(6,7,8), of "''/w@d''" "''d''"] wired_fields(5) by (simp add: peer_named_def)

lemma ready: "peer_ready = peer_say (JoinDone ForStart ''d'') (startDisplacementWatch (Some 3) (drop_task (Joined ForStart Leader ''d'') peer_named))"
  using wired_fields(4) by (simp add: peer_ready_def named add_task_def joined_def)

lemma ready_fields: "sp_log peer_ready = sp_log peer_named @ [JoinDone ForStart ''d'']" "sp_role peer_ready = Leader" "sp_broker peer_ready = Some 7"
  using wired_fields by (simp_all add: ready named peer_say_def startDisplacementWatch_def stopDisplacementWatch_def drop_task_def add_task_def Let_def)

definition node0 :: relay_node where "node0 = new_node peer0 (Some self_bridge)"

lemma leads_state: "mn_run_all leads_ins node0 =
    node0\<lparr>mn_revision := 1, mn_latest := Some alone, mn_peer := peer_ready, mn_tasks := [Started ''d'']\<rparr>"
proof -
  let ?a = "node0\<lparr>mn_revision := 1, mn_latest := Some alone, mn_starting := 1, mn_peer := start peer0\<rparr>"
  have a: "mn_step MnConnect (mn_step (MnTopology alone) node0) = ?a"
    by (simp add: node0_def new_node_def node_setTopology_def own_id [OF alone_ok] node_topologyEquals_iff connect_node_def)
  have s: "sp_log (start peer0) = []" by (simp add: peer_ops)
  have b: "mn_step (MnPeer (PeElected ForStart (Leads 7))) ?a = ?a\<lparr>mn_peer := peer_led\<rparr>"
    using peer_unheard [of _ ?a peer_led "[]"] led(1) s by (simp add: peer_led_def)
  obtain l where l: "sp_log peer_wired = [SessionPeer.Sent 1 l]" using wired_fields(1) by blast
  have c: "mn_step (MnPeer (PeLoopback ForStart (Some 1))) (?a\<lparr>mn_peer := peer_led\<rparr>) = ?a\<lparr>mn_peer := peer_wired\<rparr>"
    using peer_unheard [of _ "?a\<lparr>mn_peer := peer_led\<rparr>" peer_wired "[SessionPeer.Sent 1 l]"] led(1) l by (simp add: peer_wired_def)
  have d: "mn_step (MnPeer (PeData 1 (serialize_jv (name_ack ''register_ack'' ''/w@d'' ''d'')))) (?a\<lparr>mn_peer := peer_wired\<rparr>) = ?a\<lparr>mn_peer := peer_named\<rparr>"
    using peer_unheard [of _ "?a\<lparr>mn_peer := peer_wired\<rparr>" peer_named "[]"] named by (simp add: peer_named_def add_task_def)
  have e: "mn_step (MnPeer (PeResume (Joined ForStart Leader ''d'') (Some 3))) (?a\<lparr>mn_peer := peer_named\<rparr>) =
      ?a\<lparr>mn_starting := 0, mn_peer := peer_ready, mn_tasks := [Started ''d'']\<rparr>"
    using ready_fields(1) by (simp add: peer_steps_def peer_ready_def [symmetric] Let_def mn_task_add_def node0_def new_node_def del: sp_step.simps)
  have "mn_run_all leads_ins node0 = ?a\<lparr>mn_starting := 0, mn_peer := peer_ready, mn_tasks := [Started ''d'']\<rparr>"
    unfolding mn_run_all_def leads_ins_def fold_simps a b c d e ..
  then show ?thesis by (simp add: node0_def new_node_def)
qed

definition node_led :: relay_node where
  "node_led = node0\<lparr>mn_revision := 1, mn_latest := Some alone, mn_peer := peer_ready, mn_tasks := [Started ''d'']\<rparr>"

abbreviation "params0 \<equiv> (0, self_bridge) :: params"

lemma params0: "self_bridge\<lparr>bp_keypair := None, bp_injected := None\<rparr> = self_bridge"
  by (simp add: self_bridge_def)

definition node_bridged :: relay_node where "node_bridged = mn_run_all bridge_ins node_led"

lemma bridged: "mn_relay node_bridged = Some (Own 1)" "mn_relayOwned node_bridged" "mn_open node_bridged = [Own 1]" "mn_run node_bridged = NoRun"
    "mn_peer node_bridged = peer_ready" "mn_bridge node_bridged = Some 2" "mn_latest node_bridged = Some alone"
proof -
  have l: "leads node_led" "sp_broker (mn_peer node_led) = Some 7" using ready_fields by (simp_all add: leads_def node_led_def)
  let ?k = "node_led\<lparr>mn_tasks := [], mn_wired := True, mn_waiters := [ByConnect ''d''], mn_queued := False, mn_run := Trying (WaitKeys 0 params0 1 7)\<rparr>"
  have k: "mn_step (MnTask (Started ''d'')) node_led = ?k"
    using l by (simp add: node_started_def requestBridge_def Let_def loop_turn_def attempt_starts_def leads_def node_led_def node0_def new_node_def params0)
      (simp add: self_bridge_def)
  let ?r = "mn_say (RelayMade 1 ''wss://r'' ''d'') (?k\<lparr>mn_next := 2, mn_run := Trying (WaitRelay 0 params0 1 7 own_keys 1)\<rparr>)"
  have u: "toWebSocketUrl (bp_relayUrl self_bridge) = ''wss://r''" by code_simp
  have r: "mn_step (MnKeys (Some own_keys)) ?k = ?r"
    using u by (simp add: keys_result_def with_keys_def Let_def node_led_def node0_def new_node_def params0 mn_say_def) (simp add: self_bridge_def)
  let ?b = "?r\<lparr>mn_open := [Own 1], mn_run := Trying (WaitBridge 0 params0 1 7 own_keys (Own 1) (Some alone) False)\<rparr>"
  have b: "mn_step (MnRelay True) ?r = ?b"
    using relay_opens [of ?r 0 params0 1 7 own_keys 1] by (simp add: node_led_def node0_def new_node_def)
  have p: "mn_step (MnBridge alone True) ?b =
     (clearRelayReconnectTimer (mn_say (BridgePublished 2 (Own 1)) ((mn_say (BridgeActivated 2) (mn_say (BridgeBuilt 2)
        (?b\<lparr>mn_next := 3\<rparr>)))\<lparr>mn_bridge := Some 2, mn_relay := Some (Own 1), mn_relayOwned := True, mn_handler := True,
           mn_keypair := Some own_keys\<rparr>)))\<lparr>mn_backoff := 0, mn_run := Ran True\<rparr>"
    using bridge_opens [of ?b params0 7 own_keys 1 alone alone] alone_ok alone_key l
    by (simp add: node_led_def node0_def new_node_def params0 leads_def self_bridge_def)
  have e: "node_bridged = loop_settles (mn_step (MnBridge alone True) ?b)"
    unfolding node_bridged_def mn_run_all_def bridge_ins_def fold_simps k r b by simp
  show "mn_relay node_bridged = Some (Own 1)" "mn_relayOwned node_bridged" "mn_open node_bridged = [Own 1]" "mn_run node_bridged = NoRun"
    "mn_peer node_bridged = peer_ready" "mn_bridge node_bridged = Some 2" "mn_latest node_bridged = Some alone"
    unfolding e p by (simp_all add: loop_settles_def settled_tasks clearRelayReconnectTimer_def node_led_def node0_def new_node_def mn_task_add_def)
qed

lemma bridged_run: "node_bridged = mn_run_all (leads_ins @ bridge_ins) (new_node peer0 (Some self_bridge))"
  using leads_state by (simp add: mn_run_all_def node_bridged_def node_led_def node0_def)

lemma node_accounts_witness: "RelayShut (Host 3) \<notin> set (mn_log node_bridged) \<and> (mn_bridge node_bridged = None \<longleftrightarrow> mn_relay node_bridged = None)"
  using node_accounts [OF bridged_run] by blast

lemma node_topology_witness: "own_ok alone"
  using node_topology [OF bridged_run] bridged(7) by blast

lemma close_final_witness: "mn_bridge (close_node (Some 3) node_bridged) = None \<and> mn_timer (close_node (Some 3) node_bridged) = None"
  using close_final [of "close_node (Some 3) node_bridged" "[]" "Some 3" "leads_ins @ bridge_ins" peer0 "Some self_bridge"]
  by (simp add: bridged_run mn_run_all_def)

lemma lost_relay_replaced_witness:
  "mn_relay (mn_run_all [MnRelayClosed (Own 1), MnTimer, MnRelay True, MnBridge alone True] node_bridged) = Some (Own (mn_next node_bridged))"
proof -
  have l: "leads node_bridged" "sp_broker (mn_peer node_bridged) = Some 7" using ready_fields bridged(5) by (simp_all add: leads_def)
  have o: "Own 1 \<in> set (mn_open node_bridged)" using bridged(3) by simp
  show ?thesis using lost_relay_replaced [OF bridged_run bridged(1,2) o bridged(4) l refl refl, of alone]
    by (simp add: mn_run_all_def Let_def)
qed

end
