(* ===== verification/Inbox.thy ===== *)
theory Inbox
  imports Envelope "HOL-Library.Multiset"
begin

text \<open>
  The inbox of inbound mesh messages with its blocking waits: \<^verbatim>\<open>extension/src/session/mesh_inbox.ts\<close>.

  A promise of \<open>wait\<close> is an entry of one of three lists: the waiter set of the class, the log of settled
  promises with their value, and the promises that \<open>clear\<close> took out of the set without settling them. The
  timer of a waiter can fire as long as the waiter is in the set; the abort listener stays installed until the promise
  is settled. Times are milliseconds as integers; the cap is a natural number (a negative one would make the
  eviction loop run forever).
\<close>

section \<open>Data\<close>

record mesh_msg =
  ms_id :: string
  ms_from :: string
  ms_to :: string
  ms_body :: jv
  ms_re :: "string option"
  ms_sentAt :: int
  ms_deliveredAt :: "int option"

record mesh_filter =
  mf_from :: "string option"
  mf_re :: "string option"
  mf_sinceMs :: "int option"

record waiter =
  wt_ref :: nat
  wt_filter :: mesh_filter
  wt_interrupt :: bool
  wt_start :: int
  wt_signal :: bool

record inbox =
  ib_messages :: "(string, mesh_msg) jsmap"
  ib_order :: "string list"
  ib_waiters :: "waiter list"
  ib_cap :: nat
  ib_next :: nat
  ib_settled :: "(waiter \<times> mesh_msg option) list"
  ib_lost :: "waiter list"

datatype wait_result = Rejected | Now mesh_msg | Blocked nat

section \<open>Operations\<close>

definition INTERRUPT_GRACE_MS :: int where "INTERRUPT_GRACE_MS = 30000"

definition unless :: "'a option \<Rightarrow> ('a \<Rightarrow> bool) \<Rightarrow> bool" where
  "unless f ok = (case f of None \<Rightarrow> True | Some v \<Rightarrow> ok v)"

definition matchesFilter :: "mesh_msg \<Rightarrow> mesh_filter \<Rightarrow> bool" where
  "matchesFilter m f =
     (if \<not> unless (mf_from f) (\<lambda>v. ms_from m = v) then False
      else if \<not> unless (mf_re f) (\<lambda>v. ms_re m = Some v) then False
      else if \<not> unless (mf_sinceMs f) (\<lambda>v. v \<le> ms_sentAt m) then False
      else True)"

definition isInterruptCandidate :: "mesh_msg \<Rightarrow> mesh_filter \<Rightarrow> int \<Rightarrow> bool" where
  "isInterruptCandidate m f waitStartMs =
     (if ms_sentAt m < waitStartMs - INTERRUPT_GRACE_MS then False
      else case mf_from f of Some v \<Rightarrow> ms_from m = v | None \<Rightarrow> ms_re m = None)"

definition new_inbox :: "nat \<Rightarrow> inbox" where
  "new_inbox cap = \<lparr>ib_messages = [], ib_order = [], ib_waiters = [], ib_cap = cap, ib_next = 0, ib_settled = [], ib_lost = []\<rparr>"

text \<open>The eviction loop: the oldest go while there are more than the cap.\<close>

fun evict :: "nat \<Rightarrow> string list \<Rightarrow> (string, mesh_msg) jsmap \<Rightarrow> string list \<times> (string, mesh_msg) jsmap" where
  "evict cap [] messages = ([], messages)"
| "evict cap (oldest # order) messages =
     (if cap < length (oldest # order) then evict cap order (mdel oldest messages) else (oldest # order, messages))"

definition wants :: "mesh_msg \<Rightarrow> waiter \<Rightarrow> bool" where
  "wants msg w \<longleftrightarrow> matchesFilter msg (wt_filter w) \<or> (wt_interrupt w \<and> isInterruptCandidate msg (wt_filter w) (wt_start w))"

definition add_message :: "mesh_msg \<Rightarrow> inbox \<Rightarrow> inbox" where
  "add_message msg ib =
     (if mhas (ib_messages ib) (ms_id msg) then ib
      else
        (let (order, messages) = evict (ib_cap ib) (ib_order ib @ [ms_id msg]) (mput (ms_id msg) msg (ib_messages ib))
         in ib\<lparr>ib_messages := messages, ib_order := order,
               ib_waiters := filter (\<lambda>w. \<not> wants msg w) (ib_waiters ib),
               ib_settled := ib_settled ib @ map (\<lambda>w. (w, Some msg)) (filter (wants msg) (ib_waiters ib))\<rparr>))"

definition get_message :: "string \<Rightarrow> inbox \<Rightarrow> mesh_msg option" where
  "get_message i ib = mget (ib_messages ib) i"

text \<open>The stored messages in order. Every id of the order is a key of the map (lemma \<open>inbox_inv\<close> below).\<close>

definition stored :: "inbox \<Rightarrow> mesh_msg list" where
  "stored ib = map (\<lambda>i. the (mget (ib_messages ib) i)) (ib_order ib)"

definition list_messages :: "mesh_filter \<Rightarrow> int option \<Rightarrow> inbox \<Rightarrow> mesh_msg list" where
  "list_messages f limit ib =
     (let msgs = stored ib;
          msgs = (case mf_from f of None \<Rightarrow> msgs | Some v \<Rightarrow> filter (\<lambda>m. ms_from m = v) msgs);
          msgs = (case mf_re f of None \<Rightarrow> msgs | Some v \<Rightarrow> filter (\<lambda>m. ms_re m = Some v) msgs);
          msgs = (case mf_sinceMs f of None \<Rightarrow> msgs | Some v \<Rightarrow> filter (\<lambda>m. v \<le> ms_sentAt m) msgs)
      in case limit of None \<Rightarrow> msgs | Some n \<Rightarrow> if n > 0 then drop (length msgs - nat n) msgs else msgs)"

definition block_wait :: "mesh_filter \<Rightarrow> bool \<Rightarrow> int \<Rightarrow> bool \<Rightarrow> inbox \<Rightarrow> wait_result \<times> inbox" where
  "block_wait f interrupt now signal ib =
     (Blocked (ib_next ib),
      ib\<lparr>ib_next := Suc (ib_next ib),
         ib_waiters := ib_waiters ib @ [\<lparr>wt_ref = ib_next ib, wt_filter = f, wt_interrupt = interrupt, wt_start = now, wt_signal = signal\<rparr>]\<rparr>)"

text \<open>\<open>signal\<close> is the abort signal, if one is given: whether it has been aborted.\<close>

definition wait_message :: "mesh_filter \<Rightarrow> bool option \<Rightarrow> bool \<Rightarrow> int \<Rightarrow> inbox \<Rightarrow> wait_result \<times> inbox" where
  "wait_message f signal interrupt now ib =
     (if signal = Some True then (Rejected, ib)
      else case find (\<lambda>m. matchesFilter m f) (stored ib) of
        Some m \<Rightarrow> (Now m, ib)
      | None \<Rightarrow>
          if interrupt
          then (case find (\<lambda>m. isInterruptCandidate m f now) (stored ib) of
                  Some m \<Rightarrow> (Now m, ib)
                | None \<Rightarrow> block_wait f interrupt now (signal \<noteq> None) ib)
          else block_wait f interrupt now (signal \<noteq> None) ib)"

text \<open>The timer of a waiter fires.\<close>

definition wait_timeout :: "nat \<Rightarrow> inbox \<Rightarrow> inbox" where
  "wait_timeout i ib =
     (case find (\<lambda>w. wt_ref w = i) (ib_waiters ib) of
        None \<Rightarrow> ib
      | Some w \<Rightarrow> ib\<lparr>ib_waiters := filter (\<lambda>w. wt_ref w \<noteq> i) (ib_waiters ib), ib_settled := ib_settled ib @ [(w, None)]\<rparr>)"

text \<open>The signal of a waiter fires.\<close>

definition wait_abort :: "nat \<Rightarrow> inbox \<Rightarrow> inbox" where
  "wait_abort i ib =
     (case find (\<lambda>w. wt_ref w = i \<and> wt_signal w) (ib_waiters ib @ ib_lost ib) of
        None \<Rightarrow> ib
      | Some w \<Rightarrow> ib\<lparr>ib_waiters := filter (\<lambda>w. wt_ref w \<noteq> i) (ib_waiters ib), ib_lost := filter (\<lambda>w. wt_ref w \<noteq> i) (ib_lost ib),
                     ib_settled := ib_settled ib @ [(w, None)]\<rparr>)"

definition clear_inbox :: "inbox \<Rightarrow> inbox" where
  "clear_inbox ib = ib\<lparr>ib_waiters := [], ib_lost := ib_lost ib @ ib_waiters ib, ib_messages := [], ib_order := []\<rparr>"

definition inbox_size :: "inbox \<Rightarrow> nat" where
  "inbox_size ib = length (ib_messages ib)"

section \<open>The invariant\<close>

definition waits :: "inbox \<Rightarrow> waiter list" where
  "waits ib = ib_waiters ib @ ib_lost ib @ map fst (ib_settled ib)"

definition inbox_inv :: "inbox \<Rightarrow> bool" where
  "inbox_inv ib \<longleftrightarrow> mwf (ib_messages ib) \<and> ib_order ib = mkeys (ib_messages ib) \<and> length (ib_order ib) \<le> ib_cap ib \<and> (\<forall>(i, m) \<in> set (ib_messages ib). ms_id m = i) \<and>
     (\<forall>w \<in> set (ib_waiters ib). \<forall>m \<in> set (stored ib). \<not> wants m w) \<and>
     mset (map wt_ref (waits ib)) = mset [0..<ib_next ib] \<and>
     (\<forall>(w, r) \<in> set (ib_settled ib). \<forall>m. r = Some m \<longrightarrow> wants m w)"

text \<open>The abstract inbox: a bounded queue of messages with different ids.\<close>

definition push_bounded :: "nat \<Rightarrow> mesh_msg \<Rightarrow> mesh_msg list \<Rightarrow> mesh_msg list" where
  "push_bounded cap m q = (if ms_id m \<in> ms_id ` set q then q else drop (Suc (length q) - cap) (q @ [m]))"

lemma evict_drop: "mwf messages \<Longrightarrow> evict cap (mkeys messages) messages =
   (drop (length messages - cap) (mkeys messages), drop (length messages - cap) messages)"
proof (induction messages)
  case (Cons im messages)
  obtain i m where im: "im = (i, m)" by fastforce
  have "i \<notin> set (mkeys messages)" "mwf messages" using Cons.prems im by (auto simp: mwf_def)
  moreover from this(1) have "mdel i messages = messages" by (simp add: delete_idem)
  ultimately show ?case using Cons.IH im by (cases "cap < length ((i, m) # messages)") (simp_all add: Suc_diff_le)
qed simp

lemma stored_vals: "mwf (ib_messages ib) \<Longrightarrow> ib_order ib = mkeys (ib_messages ib) \<Longrightarrow> stored ib = mvals (ib_messages ib)"
  by (auto simp: stored_def mwf_def)

lemma inv_stored: "inbox_inv ib \<Longrightarrow> stored ib = mvals (ib_messages ib) \<and> map ms_id (stored ib) = ib_order ib"
  using stored_vals by (auto simp: inbox_inv_def)

lemma mput_new: "\<not> mhas m k \<Longrightarrow> mput k v m = m @ [(k, v)]"
  by (induction m) (auto simp: mhas_def split: if_splits)

text \<open>Adding a message is the bounded push.\<close>

lemma add_message_new:
  assumes "inbox_inv ib" and "\<not> mhas (ib_messages ib) (ms_id msg)"
  defines "ms \<equiv> drop (Suc (length (ib_messages ib)) - ib_cap ib) (ib_messages ib @ [(ms_id msg, msg)])"
  shows "add_message msg ib = ib\<lparr>ib_messages := ms, ib_order := mkeys ms,
               ib_waiters := filter (\<lambda>w. \<not> wants msg w) (ib_waiters ib),
               ib_settled := ib_settled ib @ map (\<lambda>w. (w, Some msg)) (filter (wants msg) (ib_waiters ib))\<rparr>" and "mwf ms"
proof -
  let ?ms = "ib_messages ib @ [(ms_id msg, msg)]"
  have w: "mwf (ib_messages ib)" "ib_order ib = mkeys (ib_messages ib)" using assms(1) by (simp_all add: inbox_inv_def)
  note p = mput_new [OF assms(2), of msg]
  have wf: "mwf ?ms" using mwf_put [OF w(1), of "ms_id msg" msg] unfolding p .
  have "evict (ib_cap ib) (ib_order ib @ [ms_id msg]) (mput (ms_id msg) msg (ib_messages ib)) = (mkeys ms, ms)"
    using evict_drop [OF wf, of "ib_cap ib"] w(2) by (simp add: p ms_def drop_map [symmetric] del: drop_append)
  then show "add_message msg ib = ib\<lparr>ib_messages := ms, ib_order := mkeys ms,
               ib_waiters := filter (\<lambda>w. \<not> wants msg w) (ib_waiters ib),
               ib_settled := ib_settled ib @ map (\<lambda>w. (w, Some msg)) (filter (wants msg) (ib_waiters ib))\<rparr>"
    using assms(2) by (simp add: add_message_def)
  show "mwf ms" using wf unfolding ms_def mwf_def drop_map [symmetric] by (rule distinct_drop)
qed

lemma add_message_old: "mhas (ib_messages ib) (ms_id msg) \<Longrightarrow> add_message msg ib = ib"
  by (simp add: add_message_def)

lemma mset_filter_split: "mset (filter P xs) + mset (filter (\<lambda>x. \<not> P x) xs) = mset xs"
  by (simp add: mset_filter)

lemma add_message_inv: "inbox_inv ib \<Longrightarrow> inbox_inv (add_message msg ib)"
proof (cases "mhas (ib_messages ib) (ms_id msg)")
  case False
  assume i: "inbox_inv ib"
  define ms where "ms = drop (Suc (length (ib_messages ib)) - ib_cap ib) (ib_messages ib @ [(ms_id msg, msg)])"
  note a = add_message_new [OF i False, folded ms_def]
  have sub: "set ms \<subseteq> insert (ms_id msg, msg) (set (ib_messages ib))"
    unfolding ms_def by (rule order_trans [OF set_drop_subset]) simp
  have st: "stored (add_message msg ib) = mvals ms" unfolding a(1) using a(2) by (simp add: stored_vals)
  have "\<not> wants m w" if "w \<in> set (ib_waiters (add_message msg ib))" "m \<in> set (stored (add_message msg ib))" for w m
  proof -
    have w: "w \<in> set (ib_waiters ib)" "\<not> wants msg w" using that(1) a(1) by simp_all
    have "m = msg \<or> m \<in> set (mvals (ib_messages ib))" using that(2) sub unfolding st by auto
    moreover have "\<not> wants m w" if "m \<in> set (mvals (ib_messages ib))"
      using i w(1) that inv_stored [OF i] unfolding inbox_inv_def by metis
    ultimately show ?thesis using w(2) by blast
  qed
  moreover have "mset (map wt_ref (waits (add_message msg ib))) = mset (map wt_ref (waits ib))"
    using mset_filter_split [of "wants msg" "ib_waiters ib"] unfolding a(1) mset_map
    by (intro arg_cong [where f = "image_mset wt_ref"]) (simp add: waits_def comp_def)
  moreover have "length ms \<le> ib_cap ib" by (simp add: ms_def)
  moreover have "\<forall>(i, m) \<in> set ms. ms_id m = i" using sub i by (auto simp: inbox_inv_def)
  moreover have "ib_messages (add_message msg ib) = ms" "ib_order (add_message msg ib) = mkeys ms" "ib_cap (add_message msg ib) = ib_cap ib"
    "ib_next (add_message msg ib) = ib_next ib" by (simp_all add: a(1))
  moreover have "\<forall>(w, r) \<in> set (ib_settled (add_message msg ib)). \<forall>m. r = Some m \<longrightarrow> wants m w"
    using i by (auto simp: a(1) inbox_inv_def)
  ultimately show ?thesis using i a(2) unfolding inbox_inv_def by simp
qed (simp add: add_message_old)

lemma refs_distinct: "inbox_inv ib \<Longrightarrow> distinct (map wt_ref (waits ib)) \<and> set (map wt_ref (waits ib)) = {0..<ib_next ib}"
proof -
  assume "inbox_inv ib"
  then have m: "mset (map wt_ref (waits ib)) = mset [0..<ib_next ib]" unfolding inbox_inv_def by blast
  then show ?thesis using mset_eq_imp_distinct_iff [OF m] mset_eq_setD [OF m] by simp
qed

lemma find_filter_refs:
  assumes "distinct (map wt_ref ws)" and "w \<in> set ws" and "wt_ref w = i"
  shows "mset ws = mset (filter (\<lambda>w. wt_ref w \<noteq> i) ws) + {#w#}"
proof -
  have "filter (\<lambda>w. wt_ref w = i) ws = [w]"
    using assms
  proof (induction ws)
    case (Cons x ws)
    show ?case
    proof (cases "x = w")
      case True
      then have "wt_ref y \<noteq> i" if "y \<in> set ws" for y using Cons.prems that by (metis distinct.simps(2) imageI list.set_map list.simps(9))
      then have "filter (\<lambda>w. wt_ref w = i) ws = []" by (simp add: filter_empty_conv)
      then show ?thesis using True Cons.prems(3) by simp
    next
      case False
      then have w: "w \<in> set ws" using Cons.prems(2) by simp
      then have "wt_ref x \<noteq> i" using Cons.prems(1,3) by auto
      then show ?thesis using Cons.IH w Cons.prems by simp
    qed
  qed simp
  then show ?thesis using mset_filter_split [of "\<lambda>w. wt_ref w = i" ws] by simp
qed

lemma distinct_waits: "inbox_inv ib \<Longrightarrow> distinct (map wt_ref (ib_waiters ib @ ib_lost ib)) \<and> distinct (map wt_ref (ib_waiters ib))"
  using refs_distinct [of ib] by (auto simp: waits_def)

lemma wait_timeout_inv: "inbox_inv ib \<Longrightarrow> inbox_inv (wait_timeout i ib)"
proof (cases "find (\<lambda>w. wt_ref w = i) (ib_waiters ib)")
  case (Some w)
  assume iv: "inbox_inv ib"
  have w: "w \<in> set (ib_waiters ib)" "wt_ref w = i" using Some by (auto simp: find_Some_iff)
  have "mset (map wt_ref (waits (wait_timeout i ib))) = mset (map wt_ref (waits ib))"
    using find_filter_refs [OF conjunct2 [OF distinct_waits [OF iv]] w] Some unfolding mset_map
    by (intro arg_cong [where f = "image_mset wt_ref"]) (simp add: waits_def wait_timeout_def)
  then show ?thesis using iv Some by (auto simp: inbox_inv_def wait_timeout_def stored_def)
qed (simp add: wait_timeout_def)

lemma wait_abort_inv: "inbox_inv ib \<Longrightarrow> inbox_inv (wait_abort i ib)"
proof (cases "find (\<lambda>w. wt_ref w = i \<and> wt_signal w) (ib_waiters ib @ ib_lost ib)")
  case (Some w)
  assume iv: "inbox_inv ib"
  have w: "w \<in> set (ib_waiters ib @ ib_lost ib)" "wt_ref w = i" using Some by (auto simp: find_Some_iff simp del: set_append)
  have "mset (map wt_ref (waits (wait_abort i ib))) = mset (map wt_ref (waits ib))"
    using find_filter_refs [OF conjunct1 [OF distinct_waits [OF iv]] w] Some unfolding mset_map
    by (intro arg_cong [where f = "image_mset wt_ref"]) (simp add: waits_def wait_abort_def)
  then show ?thesis using iv Some by (auto simp: inbox_inv_def wait_abort_def stored_def)
qed (simp add: wait_abort_def)

lemma clear_inv: "inbox_inv ib \<Longrightarrow> inbox_inv (clear_inbox ib)"
proof -
  assume iv: "inbox_inv ib"
  have "mset (map wt_ref (waits (clear_inbox ib))) = mset (map wt_ref (waits ib))"
    by (simp add: waits_def clear_inbox_def)
  then show ?thesis using iv by (simp add: inbox_inv_def clear_inbox_def)
qed

lemma wait_cases:
  obtains (rejected) "signal = Some True" "wait_message f signal interrupt now ib = (Rejected, ib)"
  | (found) m where "signal \<noteq> Some True" "m \<in> set (stored ib)" "find (\<lambda>m. matchesFilter m f) (stored ib) = Some m" "wait_message f signal interrupt now ib = (Now m, ib)"
  | (broken) m where "signal \<noteq> Some True" "interrupt" "m \<in> set (stored ib)" "find (\<lambda>m. matchesFilter m f) (stored ib) = None"
      "find (\<lambda>m. isInterruptCandidate m f now) (stored ib) = Some m" "wait_message f signal interrupt now ib = (Now m, ib)"
  | (blocked) "signal \<noteq> Some True" "\<forall>m \<in> set (stored ib). \<not> matchesFilter m f \<and> \<not> (interrupt \<and> isInterruptCandidate m f now)"
      "wait_message f signal interrupt now ib = block_wait f interrupt now (signal \<noteq> None) ib"
proof (cases "signal = Some True")
  case False
  show ?thesis
  proof (cases "find (\<lambda>m. matchesFilter m f) (stored ib)")
    case (Some m)
    then have "m \<in> set (stored ib)" by (auto simp: find_Some_iff)
    moreover have "wait_message f signal interrupt now ib = (Now m, ib)" using False Some by (simp add: wait_message_def)
    ultimately show ?thesis using found [OF False _ Some] by blast
  next
    case n: None
    then have no: "\<forall>m \<in> set (stored ib). \<not> matchesFilter m f" by (simp add: find_None_iff)
    show ?thesis
    proof (cases "find (\<lambda>m. isInterruptCandidate m f now) (stored ib)")
      case None
      then have "\<forall>m \<in> set (stored ib). \<not> isInterruptCandidate m f now" by (simp add: find_None_iff)
      moreover have "wait_message f signal interrupt now ib = block_wait f interrupt now (signal \<noteq> None) ib"
        using False n None by (cases interrupt) (simp_all add: wait_message_def)
      ultimately show ?thesis using blocked [OF False] no by blast
    next
      case (Some m)
      then have "m \<in> set (stored ib)" by (auto simp: find_Some_iff)
      moreover have "wait_message f signal interrupt now ib = (if interrupt then (Now m, ib) else block_wait f interrupt now (signal \<noteq> None) ib)"
        using False n Some by (simp add: wait_message_def)
      ultimately show ?thesis using broken [OF False _ _ n Some] blocked [OF False] no by (cases interrupt) simp_all
    qed
  qed
qed (use rejected in \<open>simp add: wait_message_def\<close>)

lemma wait_inv: "inbox_inv ib \<Longrightarrow> inbox_inv (snd (wait_message f signal interrupt now ib))"
proof (rule wait_cases [of signal f interrupt now ib])
  assume iv: "inbox_inv ib"
    and no: "\<forall>m \<in> set (stored ib). \<not> matchesFilter m f \<and> \<not> (interrupt \<and> isInterruptCandidate m f now)"
    and e: "wait_message f signal interrupt now ib = block_wait f interrupt now (signal \<noteq> None) ib"
  have "mset (map wt_ref (waits (snd (wait_message f signal interrupt now ib)))) = mset (map wt_ref (waits ib)) + {#ib_next ib#}"
    by (simp add: e block_wait_def waits_def)
  moreover have "\<forall>m \<in> set (stored ib). \<not> wants m \<lparr>wt_ref = r, wt_filter = f, wt_interrupt = interrupt, wt_start = now, wt_signal = s\<rparr>" for r s
    using no by (simp add: wants_def)
  ultimately show ?thesis using iv by (auto simp: inbox_inv_def e block_wait_def stored_def)
qed simp_all

section \<open>Runs\<close>

inductive inbox_step :: "inbox \<Rightarrow> inbox \<Rightarrow> bool" where
  add: "inbox_step ib (add_message msg ib)"
| wait: "inbox_step ib (snd (wait_message f signal interrupt now ib))"
| timeout: "inbox_step ib (wait_timeout i ib)"
| abort: "inbox_step ib (wait_abort i ib)"
| clear: "inbox_step ib (clear_inbox ib)"

inductive inbox_reachable :: "nat \<Rightarrow> inbox \<Rightarrow> bool" for cap where
  init: "inbox_reachable cap (new_inbox cap)"
| step: "inbox_reachable cap ib \<Longrightarrow> inbox_step ib ib' \<Longrightarrow> inbox_reachable cap ib'"

lemma inbox_step_inv: "inbox_step ib ib' \<Longrightarrow> inbox_inv ib \<Longrightarrow> inbox_inv ib'"
  by (induction rule: inbox_step.induct) (simp_all add: add_message_inv wait_inv wait_timeout_inv wait_abort_inv clear_inv)

lemma inbox_cap_step: "inbox_step ib ib' \<Longrightarrow> ib_cap ib' = ib_cap ib"
proof (induction rule: inbox_step.induct)
  case (wait ib f signal interrupt now)
  then show ?case by (rule wait_cases [of signal f interrupt now ib]) (simp_all add: block_wait_def)
qed (auto simp: add_message_def wait_timeout_def wait_abort_def clear_inbox_def Let_def split_def split: option.split)

lemma inbox_reachable_inv: "inbox_reachable cap ib \<Longrightarrow> inbox_inv ib \<and> ib_cap ib = cap"
  by (induction rule: inbox_reachable.induct)
    (simp_all add: inbox_step_inv inbox_cap_step, simp add: inbox_inv_def new_inbox_def waits_def stored_def)

section \<open>What holds\<close>

lemma matchesFilter_iff: "matchesFilter m f \<longleftrightarrow> unless (mf_from f) (\<lambda>v. ms_from m = v) \<and> unless (mf_re f) (\<lambda>v. ms_re m = Some v) \<and>
   unless (mf_sinceMs f) (\<lambda>v. v \<le> ms_sentAt m)"
  by (simp add: matchesFilter_def)

lemma unless_filter: "(case f of None \<Rightarrow> xs | Some v \<Rightarrow> filter (\<lambda>m. P m v) xs) = filter (\<lambda>m. unless f (P m)) xs"
  by (cases f) (simp_all add: unless_def)

lemma list_all_messages: "list_messages f None ib = filter (\<lambda>m. matchesFilter m f) (stored ib)"
  unfolding list_messages_def matchesFilter_iff Let_def
  by (simp add: unless_filter [where P = "\<lambda>m v. ms_from m = v"] unless_filter [where P = "\<lambda>m v. ms_re m = Some v"]
      unless_filter [where P = "\<lambda>m v. v \<le> ms_sentAt m"] conj_ac)

lemma list_limit: "list_messages f (Some n) ib =
   (if n > 0 then drop (length (list_messages f None ib) - nat n) (list_messages f None ib) else list_messages f None ib)"
  by (simp add: list_messages_def Let_def)

lemma find_map_of: "mwf ms \<Longrightarrow> \<forall>(i, m) \<in> set ms. ms_id m = i \<Longrightarrow> mget ms i = find (\<lambda>m. ms_id m = i) (mvals ms)"
  by (induction ms) (auto simp: mwf_def)

lemma stored_add: "inbox_inv ib \<Longrightarrow> stored (add_message m ib) = push_bounded (ib_cap ib) m (stored ib)"
proof -
  assume i: "inbox_inv ib"
  have ids: "ms_id m \<in> ms_id ` set (stored ib) \<longleftrightarrow> mhas (ib_messages ib) (ms_id m)"
    using inv_stored [OF i] i unfolding inbox_inv_def mhas_keys by (metis list.set_map)
  show ?thesis
  proof (cases "mhas (ib_messages ib) (ms_id m)")
    case True
    then show ?thesis using ids by (simp add: add_message_old push_bounded_def)
  next
    case False
    note a = add_message_new [OF i False]
    have "stored (add_message m ib) = mvals (drop (Suc (length (ib_messages ib)) - ib_cap ib) (ib_messages ib @ [(ms_id m, m)]))"
      unfolding a(1) using a(2) by (simp add: stored_vals)
    also have "\<dots> = push_bounded (ib_cap ib) m (stored ib)"
      using False ids inv_stored [OF i] by (simp add: push_bounded_def drop_map [symmetric] del: drop_append)
    finally show ?thesis .
  qed
qed

text \<open>C16: the inbox is a bounded queue with unique ids. Adding pushes at the end unless the id is already there, and
  drops the oldest past the cap; a list is the queue filtered, or its newest part; a lookup is the
  message with that id; the queue never exceeds the cap. Neither waiting nor time-outs nor aborts change it.\<close>

theorem inbox_is_bounded_queue:
  assumes "inbox_reachable cap ib"
  shows "stored (add_message m ib) = push_bounded cap m (stored ib) \<and>
    list_messages f None ib = filter (\<lambda>m. matchesFilter m f) (stored ib) \<and>
    list_messages f (Some (int (Suc n))) ib = drop (length (list_messages f None ib) - Suc n) (list_messages f None ib) \<and>
    get_message i ib = find (\<lambda>m. ms_id m = i) (stored ib) \<and> inbox_size ib = length (stored ib) \<and>
    length (stored ib) \<le> cap \<and> distinct (map ms_id (stored ib)) \<and>
    stored (snd (wait_message f signal interrupt now ib)) = stored ib \<and> stored (wait_timeout r ib) = stored ib \<and>
    stored (wait_abort r ib) = stored ib \<and> stored (clear_inbox ib) = []"
proof -
  note i = inbox_reachable_inv [OF assms]
  have "stored (snd (wait_message f signal interrupt now ib)) = stored ib"
    by (rule wait_cases [of signal f interrupt now ib]) (simp_all add: block_wait_def stored_def)
  moreover have "get_message i ib = find (\<lambda>m. ms_id m = i) (stored ib)"
    unfolding get_message_def conjunct1 [OF inv_stored [OF conjunct1 [OF i]]]
    by (rule find_map_of) (use i in \<open>simp_all add: inbox_inv_def\<close>)
  moreover have "inbox_size ib = length (stored ib)" "length (stored ib) \<le> cap"
    using i by (auto simp: inbox_size_def stored_def inbox_inv_def)
  moreover have "distinct (map ms_id (stored ib))" unfolding conjunct2 [OF inv_stored [OF conjunct1 [OF i]]]
    using i by (simp add: inbox_inv_def mwf_def)
  moreover have "stored (add_message m ib) = push_bounded cap m (stored ib)" using i stored_add by metis
  moreover have "list_messages f (Some (int (Suc n))) ib = drop (length (list_messages f None ib) - Suc n) (list_messages f None ib)"
    unfolding list_limit by (simp del: of_nat_Suc)
  moreover have "stored (wait_timeout r ib) = stored ib" "stored (wait_abort r ib) = stored ib" "stored (clear_inbox ib) = []"
    by (simp_all add: wait_timeout_def wait_abort_def clear_inbox_def stored_def split: option.split)
  ultimately show ?thesis using list_all_messages by simp
qed

text \<open>How a call of \<open>wait\<close> is answered, in terms of what is stored.\<close>

definition first_such :: "(mesh_msg \<Rightarrow> bool) \<Rightarrow> inbox \<Rightarrow> mesh_msg \<Rightarrow> bool" where
  "first_such P ib m \<longleftrightarrow> (\<exists>older newer. stored ib = older @ m # newer \<and> P m \<and> (\<forall>x \<in> set older. \<not> P x))"

lemma find_first: "find P (stored ib) = Some m \<Longrightarrow> first_such P ib m"
proof -
  assume "find P (stored ib) = Some m"
  then obtain i where i: "i < length (stored ib)" "P (stored ib ! i)" "m = stored ib ! i" "\<forall>j < i. \<not> P (stored ib ! j)"
    by (auto simp: find_Some_iff)
  have "stored ib = take i (stored ib) @ m # drop (Suc i) (stored ib)" using i(1,3) by (simp add: id_take_nth_drop)
  moreover have "\<forall>x \<in> set (take i (stored ib)). \<not> P x" using i(1,4) by (auto simp: in_set_conv_nth)
  ultimately show ?thesis using i(2,3) unfolding first_such_def by blast
qed

lemma wait_answers:
  assumes "wait_message f signal interrupt now ib = (answer, ib')"
  shows "case answer of
     Rejected \<Rightarrow> signal = Some True \<and> ib' = ib
   | Now m \<Rightarrow> signal \<noteq> Some True \<and> ib' = ib \<and>
       (first_such (\<lambda>m. matchesFilter m f) ib m \<or>
        interrupt \<and> (\<forall>x \<in> set (stored ib). \<not> matchesFilter x f) \<and> first_such (\<lambda>m. isInterruptCandidate m f now) ib m)
   | Blocked i \<Rightarrow> signal \<noteq> Some True \<and> i = ib_next ib \<and>
       (\<forall>x \<in> set (stored ib). \<not> matchesFilter x f \<and> \<not> (interrupt \<and> isInterruptCandidate x f now)) \<and>
       ib_waiters ib' = ib_waiters ib @ [\<lparr>wt_ref = i, wt_filter = f, wt_interrupt = interrupt, wt_start = now, wt_signal = (signal \<noteq> None)\<rparr>]"
proof (rule wait_cases [of signal f interrupt now ib])
  fix m assume "interrupt" "find (\<lambda>m. matchesFilter m f) (stored ib) = None" "signal \<noteq> Some True"
    "find (\<lambda>m. isInterruptCandidate m f now) (stored ib) = Some m" "wait_message f signal interrupt now ib = (Now m, ib)"
  then show ?thesis using assms find_first by (auto simp: find_None_iff)
qed (use assms find_first in \<open>auto simp: block_wait_def\<close>)

text \<open>C17: no wait gets a wrong message, two answers, or misses one. In every reachable state a call of \<open>wait\<close> is
  rejected exactly when its signal was aborted before. Else it is answered at once with the oldest stored message
  that its filter accepts; if there is none and early interrupts were asked for, with the oldest recent one that can
  break a mutual wait; and only if no stored message would do does it block, with the filter it was given. Each
  promise handed out by a blocking call is either settled, once, or open; one settled with a message got one that
  its filter accepts or, where early interrupts were asked for, a recent one that can break a mutual wait; and no
  message in the inbox would answer a wait that is still blocked.\<close>

theorem waits_sound:
  assumes "inbox_reachable cap ib"
  shows "(\<forall>f signal interrupt now. case wait_message f signal interrupt now ib of
       (Rejected, ib') \<Rightarrow> signal = Some True \<and> ib' = ib
     | (Now m, ib') \<Rightarrow> signal \<noteq> Some True \<and> ib' = ib \<and>
         (first_such (\<lambda>m. matchesFilter m f) ib m \<or>
          interrupt \<and> (\<forall>x \<in> set (stored ib). \<not> matchesFilter x f) \<and> first_such (\<lambda>m. isInterruptCandidate m f now) ib m)
     | (Blocked i, ib') \<Rightarrow> signal \<noteq> Some True \<and> i = ib_next ib \<and>
         (\<forall>x \<in> set (stored ib). \<not> matchesFilter x f \<and> \<not> (interrupt \<and> isInterruptCandidate x f now)) \<and>
         ib_waiters ib' = ib_waiters ib @ [\<lparr>wt_ref = i, wt_filter = f, wt_interrupt = interrupt, wt_start = now, wt_signal = (signal \<noteq> None)\<rparr>]) \<and>
    distinct (map (\<lambda>s. wt_ref (fst s)) (ib_settled ib)) \<and>
    (\<forall>i < ib_next ib. (\<exists>s \<in> set (ib_settled ib). wt_ref (fst s) = i) \<noteq> (\<exists>w \<in> set (ib_waiters ib) \<union> set (ib_lost ib). wt_ref w = i)) \<and>
    (\<forall>(w, r) \<in> set (ib_settled ib). \<forall>m. r = Some m \<longrightarrow> matchesFilter m (wt_filter w) \<or>
       (wt_interrupt w \<and> isInterruptCandidate m (wt_filter w) (wt_start w))) \<and>
    (\<forall>w \<in> set (ib_waiters ib). \<forall>m \<in> set (stored ib). \<not> matchesFilter m (wt_filter w))"
proof -
  have i: "inbox_inv ib" using inbox_reachable_inv [OF assms] by blast
  note r = refs_distinct [OF i]
  have "distinct (map wt_ref (map fst (ib_settled ib)))" using r by (simp add: waits_def)
  moreover have "(\<exists>s \<in> set (ib_settled ib). wt_ref (fst s) = k) \<noteq> (\<exists>w \<in> set (ib_waiters ib) \<union> set (ib_lost ib). wt_ref w = k)"
    if "k < ib_next ib" for k
  proof -
    have "k \<in> set (map wt_ref (waits ib))" using r that by simp
    then have one: "k \<in> wt_ref ` (set (ib_waiters ib) \<union> set (ib_lost ib)) \<or> k \<in> (\<lambda>s. wt_ref (fst s)) ` set (ib_settled ib)"
      by (simp add: waits_def image_Un image_image)
    have "wt_ref ` (set (ib_waiters ib) \<union> set (ib_lost ib)) \<inter> (\<lambda>s. wt_ref (fst s)) ` set (ib_settled ib) = {}"
      using conjunct1 [OF r] by (auto simp: waits_def)
    then have "\<not> (k \<in> wt_ref ` (set (ib_waiters ib) \<union> set (ib_lost ib)) \<and> k \<in> (\<lambda>s. wt_ref (fst s)) ` set (ib_settled ib))" by blast
    with one show ?thesis unfolding image_iff by metis
  qed
  moreover have "\<forall>(w, r) \<in> set (ib_settled ib). \<forall>m. r = Some m \<longrightarrow> wants m w"
    "\<forall>w \<in> set (ib_waiters ib). \<forall>m \<in> set (stored ib). \<not> wants m w" using i by (simp_all add: inbox_inv_def)
  ultimately have promises: "distinct (map (\<lambda>s. wt_ref (fst s)) (ib_settled ib)) \<and>
    (\<forall>i < ib_next ib. (\<exists>s \<in> set (ib_settled ib). wt_ref (fst s) = i) \<noteq> (\<exists>w \<in> set (ib_waiters ib) \<union> set (ib_lost ib). wt_ref w = i)) \<and>
    (\<forall>(w, r) \<in> set (ib_settled ib). \<forall>m. r = Some m \<longrightarrow> matchesFilter m (wt_filter w) \<or>
       (wt_interrupt w \<and> isInterruptCandidate m (wt_filter w) (wt_start w))) \<and>
    (\<forall>w \<in> set (ib_waiters ib). \<forall>m \<in> set (stored ib). \<not> matchesFilter m (wt_filter w))" by (auto simp: wants_def comp_def)
  show ?thesis
  proof (rule conjI [OF _ promises], intro allI)
    fix f signal interrupt now
    obtain answer ib' where a: "wait_message f signal interrupt now ib = (answer, ib')" by fastforce
    show "case wait_message f signal interrupt now ib of
       (Rejected, ib') \<Rightarrow> signal = Some True \<and> ib' = ib
     | (Now m, ib') \<Rightarrow> signal \<noteq> Some True \<and> ib' = ib \<and>
         (first_such (\<lambda>m. matchesFilter m f) ib m \<or>
          interrupt \<and> (\<forall>x \<in> set (stored ib). \<not> matchesFilter x f) \<and> first_such (\<lambda>m. isInterruptCandidate m f now) ib m)
     | (Blocked i, ib') \<Rightarrow> signal \<noteq> Some True \<and> i = ib_next ib \<and>
         (\<forall>x \<in> set (stored ib). \<not> matchesFilter x f \<and> \<not> (interrupt \<and> isInterruptCandidate x f now)) \<and>
         ib_waiters ib' = ib_waiters ib @ [\<lparr>wt_ref = i, wt_filter = f, wt_interrupt = interrupt, wt_start = now, wt_signal = (signal \<noteq> None)\<rparr>]"
      using wait_answers [OF a] a by (cases answer) simp_all
  qed
qed

text \<open>\<open>clear\<close> stops the timer of a blocked wait and takes it out of the set without settling its promise. A wait
  without a signal then stays open whatever happens next.\<close>

lemma clear_strands_waits:
  assumes "inbox_reachable cap ib" and "w \<in> set (ib_waiters ib)" and "\<not> wt_signal w" and "inbox_step\<^sup>*\<^sup>* (clear_inbox ib) ib'"
  shows "\<forall>r. (w, r) \<notin> set (ib_settled ib')"
proof -
  have r0: "inbox_reachable cap (clear_inbox ib)" using assms(1) clear by (rule inbox_reachable.step)
  have l0: "w \<in> set (ib_lost (clear_inbox ib))" using assms(2) by (simp add: clear_inbox_def)
  from assms(4) have "inbox_reachable cap ib' \<and> w \<in> set (ib_lost ib')"
  proof (induction rule: rtranclp_induct)
    case (step a b)
    have i: "inbox_inv a" using step.IH inbox_reachable_inv by blast
    have "w \<in> set (ib_lost b)" using step.hyps(2) step.IH
    proof (induction rule: inbox_step.induct)
      case (abort ib i)
      then have iv: "inbox_inv ib" and w: "w \<in> set (ib_lost ib)" using inbox_reachable_inv by blast+
      have "wt_ref w \<noteq> i" if "find (\<lambda>w. wt_ref w = i \<and> wt_signal w) (ib_waiters ib @ ib_lost ib) = Some w'" for w'
      proof
        assume e: "wt_ref w = i"
        have w': "w' \<in> set (ib_waiters ib @ ib_lost ib)" "wt_ref w' = i" "wt_signal w'" using that by (auto simp: find_Some_iff simp del: set_append)
        have "w' = w" using conjunct1 [OF distinct_waits [OF iv]] w'(1,2) w e unfolding distinct_map inj_on_def by auto
        then show False using w'(3) assms(3) by simp
      qed
      show ?case
      proof (cases "find (\<lambda>w. wt_ref w = i \<and> wt_signal w) (ib_waiters ib @ ib_lost ib)")
        case None
        then show ?thesis using w unfolding wait_abort_def None by simp
      next
        case (Some w')
        then have "wt_ref w \<noteq> i" using \<open>\<And>w'. find (\<lambda>w. wt_ref w = i \<and> wt_signal w) (ib_waiters ib @ ib_lost ib) = Some w' \<Longrightarrow> wt_ref w \<noteq> i\<close> by blast
        then show ?thesis using w unfolding wait_abort_def Some by simp
      qed
    next
      case (wait ib f signal interrupt now)
      have "ib_lost (snd (wait_message f signal interrupt now ib)) = ib_lost ib"
        by (rule wait_cases [of signal f interrupt now ib]) (simp_all add: block_wait_def)
      then show ?case using wait by simp
    qed (auto simp: add_message_def wait_timeout_def clear_inbox_def Let_def split_def split: option.split)
    then show ?case using step inbox_reachable.step by blast
  qed (use r0 l0 in blast)
  then have "distinct (map wt_ref (waits ib'))" "w \<in> set (ib_lost ib')" using refs_distinct inbox_reachable_inv by blast+
  then show ?thesis by (force simp: waits_def)
qed

text \<open>A blocked wait ends. The first new message its filter accepts (or that may interrupt it) settles it with that
  message, its timer settles it with nothing, and so does its abort signal, if it has one. Not so after
  \<open>clear\<close>: a wait without a signal that was blocked then stays open whatever happens next.\<close>

theorem blocked_wait_settles:
  assumes "inbox_reachable cap ib" and "w \<in> set (ib_waiters ib)"
  shows "(get_message (ms_id m) ib = None \<and> wants m w \<longrightarrow>
      (w, Some m) \<in> set (ib_settled (add_message m ib)) \<and> w \<notin> set (ib_waiters (add_message m ib))) \<and>
    (w, None) \<in> set (ib_settled (wait_timeout (wt_ref w) ib)) \<and>
    (wt_signal w \<longrightarrow> (w, None) \<in> set (ib_settled (wait_abort (wt_ref w) ib))) \<and>
    (\<not> wt_signal w \<longrightarrow> (\<forall>ib' r. inbox_step\<^sup>*\<^sup>* (clear_inbox ib) ib' \<longrightarrow> (w, r) \<notin> set (ib_settled ib')))"
proof -
  have i: "inbox_inv ib" using inbox_reachable_inv [OF assms(1)] by blast
  have uniq: "w' = w" if "w' \<in> set (ib_waiters ib @ ib_lost ib)" "wt_ref w' = wt_ref w" for w'
    using conjunct1 [OF distinct_waits [OF i]] that assms(2) unfolding distinct_map inj_on_def by auto
  have 1: "(w, Some m) \<in> set (ib_settled (add_message m ib)) \<and> w \<notin> set (ib_waiters (add_message m ib))"
    if "get_message (ms_id m) ib = None" "wants m w"
  proof -
    have "\<not> mhas (ib_messages ib) (ms_id m)" using that(1) by (simp add: get_message_def mhas_def)
    from add_message_new(1) [OF i this] show ?thesis using that(2) assms(2) by simp
  qed
  have 2: "(w, None) \<in> set (ib_settled (wait_timeout (wt_ref w) ib))"
  proof (cases "find (\<lambda>w'. wt_ref w' = wt_ref w) (ib_waiters ib)")
    case None
    then show ?thesis using assms(2) by (auto simp: find_None_iff)
  next
    case (Some w')
    then have "w' = w" using uniq by (auto simp: find_Some_iff)
    then show ?thesis using Some by (simp add: wait_timeout_def)
  qed
  have 3: "(w, None) \<in> set (ib_settled (wait_abort (wt_ref w) ib))" if "wt_signal w"
  proof (cases "find (\<lambda>w'. wt_ref w' = wt_ref w \<and> wt_signal w') (ib_waiters ib @ ib_lost ib)")
    case None
    then show ?thesis using assms(2) that by (auto simp: find_None_iff simp del: find.simps)
  next
    case (Some w')
    then have "w' \<in> set (ib_waiters ib @ ib_lost ib)" "wt_ref w' = wt_ref w" by (auto simp: find_Some_iff simp del: set_append)
    then have "w' = w" using uniq by blast
    then show ?thesis using Some by (simp add: wait_abort_def)
  qed
  show ?thesis using 1 2 3 clear_strands_waits [OF assms] by blast
qed

section \<open>A run\<close>

definition hello :: mesh_msg where
  "hello = \<lparr>ms_id = ''m1'', ms_from = ''pc:bob'', ms_to = ''alice'', ms_body = JNull, ms_re = None, ms_sentAt = 5, ms_deliveredAt = None\<rparr>"

definition reply :: mesh_msg where
  "reply = \<lparr>ms_id = ''m2'', ms_from = ''pc:bob'', ms_to = ''alice'', ms_body = JBool True, ms_re = Some ''q'', ms_sentAt = 9, ms_deliveredAt = None\<rparr>"

text \<open>One message, then a wait for the reply to \<open>q\<close>.\<close>

definition inbox1 :: inbox where
  "inbox1 = snd (wait_message \<lparr>mf_from = None, mf_re = Some ''q'', mf_sinceMs = None\<rparr> None False 7 (add_message hello (new_inbox 2)))"

definition waiter1 :: waiter where
  "waiter1 = \<lparr>wt_ref = 0, wt_filter = \<lparr>mf_from = None, mf_re = Some ''q'', mf_sinceMs = None\<rparr>, wt_interrupt = False, wt_start = 7, wt_signal = False\<rparr>"

lemma inbox1_reachable: "inbox_reachable 2 inbox1"
  unfolding inbox1_def by (intro inbox_reachable.step [OF inbox_reachable.step [OF init add] wait])

lemma inbox1_waiter: "waiter1 \<in> set (ib_waiters inbox1)"
  by code_simp

lemma inbox_is_bounded_queue_witness:
  "stored (add_message reply inbox1) = [hello, reply]"
proof -
  have "push_bounded 2 reply (stored inbox1) = [hello, reply]" by code_simp
  then show ?thesis using inbox_is_bounded_queue [OF inbox1_reachable, of reply] by simp
qed

lemma waits_sound_witness:
  "wait_message \<lparr>mf_from = None, mf_re = Some ''q'', mf_sinceMs = None\<rparr> None False 20 (add_message reply inbox1) =
     (Now reply, add_message reply inbox1) \<and>
   first_such (\<lambda>m. matchesFilter m \<lparr>mf_from = None, mf_re = Some ''q'', mf_sinceMs = None\<rparr>) (add_message reply inbox1) reply \<and>
   (\<exists>s \<in> set (ib_settled (add_message reply inbox1)). wt_ref (fst s) = 0) \<noteq>
     (\<exists>w \<in> set (ib_waiters (add_message reply inbox1)) \<union> set (ib_lost (add_message reply inbox1)). wt_ref w = 0)"
proof -
  let ?f = "\<lparr>mf_from = None, mf_re = Some ''q'', mf_sinceMs = None\<rparr>" and ?ib = "add_message reply inbox1"
  note w = waits_sound [OF inbox_reachable.step [OF inbox1_reachable add [of _ reply]]]
  have n: "0 < ib_next ?ib" by code_simp
  have a: "wait_message ?f None False 20 ?ib = (Now reply, ?ib)" by code_simp
  from w have "case wait_message ?f None False 20 ?ib of
       (Rejected, ib') \<Rightarrow> True
     | (Now m, ib') \<Rightarrow> first_such (\<lambda>m. matchesFilter m ?f) ?ib m
     | (Blocked i, ib') \<Rightarrow> True"
    unfolding a by (auto dest!: spec [of _ ?f] spec [of _ "None :: bool option"] spec [of _ False] spec [of _ 20] simp: a)
  then show ?thesis using w n a by simp
qed

lemma blocked_wait_settles_witness:
  "(waiter1, Some reply) \<in> set (ib_settled (add_message reply inbox1)) \<and> (waiter1, None) \<in> set (ib_settled (wait_timeout 0 inbox1))"
proof -
  have "get_message (ms_id reply) inbox1 = None" "wants reply waiter1" "wt_ref waiter1 = 0" by code_simp+
  then show ?thesis using blocked_wait_settles [OF inbox1_reachable inbox1_waiter, of reply] by simp
qed

end
