(* ===== verification/Election.thy ===== *)
theory Election
  imports BrokerRuns
begin

text \<open>
  Leader election on the broker's socket path: \<^verbatim>\<open>extension/src/session/leader_election.ts\<close>.

  The probe of \<^verbatim>\<open>_probeBroker\<close> is a machine over the events of its socket and its two timers. The loop of
  \<open>joinOrLead\<close> runs in an environment that answers each system call and may change the state of the world \<open>'w\<close> at each
  of them; what it does is recorded. The last section puts several joiners on one path.
\<close>

section \<open>The probe\<close>

datatype probe = Live | Dead | Busy

datatype probe_event = Connected | Chunk string | SockError | ConnectTimeout | AckTimeout

record probe_state =
  pb_settled :: "probe option"
  pb_buf :: string
  pb_connectTimer :: bool
  pb_ackTimer :: bool
  pb_sent :: string
  pb_destroyed :: bool

definition new_probe :: probe_state where
  "new_probe = \<lparr>pb_settled = None, pb_buf = [], pb_connectTimer = True, pb_ackTimer = False, pb_sent = [], pb_destroyed = False\<rparr>"

definition settle :: "probe \<Rightarrow> probe_state \<Rightarrow> probe_state" where
  "settle result s =
     (if pb_settled s \<noteq> None then s
      else s\<lparr>pb_settled := Some result, pb_connectTimer := False, pb_ackTimer := False, pb_destroyed := (result \<noteq> Live)\<rparr>)"

text \<open>Is the line an ack of the broker?\<close>

definition is_ack :: "string \<Rightarrow> bool" where
  "is_ack line =
     (case json_parse line of
        None \<Rightarrow> False
      | Some env \<Rightarrow> (let bodyType = jget (jget env ''body'') ''type'' in bodyType = JStr ''broker_pong'' \<or> bodyType = JStr ''list_peers_reply''))"

text \<open>The loop over the lines of the buffer, which stops at the first ack; what is left of the buffer.\<close>

function scan_acks :: "string \<Rightarrow> bool \<times> string" where
  "scan_acks buf =
     (case index_of NL buf of
        None \<Rightarrow> (False, buf)
      | Some i \<Rightarrow>
          if take i buf = [] then scan_acks (drop (Suc i) buf)
          else if is_ack (take i buf) then (True, drop (Suc i) buf)
          else scan_acks (drop (Suc i) buf))"
  by pat_completeness auto
termination
  by (relation "measure length") (auto dest: index_of_Some_length)

declare scan_acks.simps [simp del]

definition ping_lines :: string where
  "ping_lines = serialize_jv (JObj [(''type'', JStr ''broker_ping'')]) @ serialize_jv (JObj [(''type'', JStr ''list_peers'')])"

definition probe_step :: "probe_event \<Rightarrow> probe_state \<Rightarrow> probe_state" where
  "probe_step e s =
     (case e of
        Connected \<Rightarrow> s\<lparr>pb_connectTimer := False, pb_sent := pb_sent s @ ping_lines, pb_ackTimer := True\<rparr>
      | Chunk chunk \<Rightarrow>
          (let (acked, rest) = scan_acks (pb_buf s @ chunk); s1 = s\<lparr>pb_buf := rest\<rparr> in if acked then settle Live s1 else s1)
      | SockError \<Rightarrow> settle Dead s
      | ConnectTimeout \<Rightarrow> if pb_connectTimer s then settle Busy s else s
      | AckTimeout \<Rightarrow> if pb_ackTimer s then settle Busy s else s)"

definition run_probe :: "probe_event list \<Rightarrow> probe_state" where
  "run_probe es = fold probe_step es new_probe"

text \<open>\<open>tryConnect\<close>: whether it resolves to the socket; \<open>None\<close> while it is pending.\<close>

fun tryConnect :: "probe_event list \<Rightarrow> bool option" where
  "tryConnect [] = None"
| "tryConnect (e # es) =
     (case e of Connected \<Rightarrow> Some True | SockError \<Rightarrow> Some False | ConnectTimeout \<Rightarrow> Some False | _ \<Rightarrow> tryConnect es)"

section \<open>Joining or leading\<close>

datatype elect_result = Leader | Follower | NeverAnswered | LostBinds

datatype elect_act = Found bool | Probed probe | Unlinked | Bound bool | Waited

record 'w elect_env =
  el_pipe :: bool
  el_exists :: "'w \<Rightarrow> bool \<times> 'w"
  el_probe :: "'w \<Rightarrow> probe \<times> 'w"
  el_lstat :: "'w \<Rightarrow> bool option \<times> 'w"
  el_unlink :: "'w \<Rightarrow> 'w"
  el_bind :: "'w \<Rightarrow> bool \<times> 'w"
  el_delay :: "'w \<Rightarrow> 'w"

definition MAX_ATTEMPTS :: nat where "MAX_ATTEMPTS = 20"
definition BUSY_MAX_ATTEMPTS :: nat where "BUSY_MAX_ATTEMPTS = 100"

text \<open>\<open>lstat\<close> gives whether the path is a socket, or throws.\<close>

definition removeStaleSock :: "'w elect_env \<Rightarrow> 'w \<Rightarrow> elect_act list \<times> 'w" where
  "removeStaleSock E w =
     (case el_lstat E w of (Some True, w1) \<Rightarrow> ([Unlinked], el_unlink E w1) | (_, w1) \<Rightarrow> ([], w1))"

text \<open>The test before a probe, the probe, and the cleaning after it.\<close>

definition look_for :: "'w elect_env \<Rightarrow> 'w \<Rightarrow> bool \<times> elect_act list \<times> 'w" where
  "look_for E w = (if el_pipe E then (True, [], w) else (let (found, w1) = el_exists E w in (found, [Found found], w1)))"

definition probe_path :: "'w elect_env \<Rightarrow> 'w \<Rightarrow> probe option \<times> elect_act list \<times> 'w" where
  "probe_path E w =
     (let (found, acts, w1) = look_for E w
      in if found then (let (p, w2) = el_probe E w1 in (Some p, acts @ [Probed p], w2)) else (None, acts, w1))"

definition bind_path :: "'w elect_env \<Rightarrow> probe option \<Rightarrow> 'w \<Rightarrow> bool \<times> elect_act list \<times> 'w" where
  "bind_path E p w =
     (let (acts, w1) = (if p = Some Dead \<and> \<not> el_pipe E then removeStaleSock E w else ([], w));
          (bound, w2) = el_bind E w1
      in (bound, acts @ [Bound bound], w2))"

function join_loop :: "'w elect_env \<Rightarrow> nat \<Rightarrow> nat \<Rightarrow> nat \<Rightarrow> nat \<Rightarrow> 'w \<Rightarrow> elect_act list \<Rightarrow> elect_result \<times> elect_act list \<times> 'w" where
  "join_loop E maxAttempts busyMaxAttempts busySeen raceRetries w acts =
     (if raceRetries < maxAttempts \<and> busySeen \<le> busyMaxAttempts then
        (let (p, acts1, w1) = probe_path E w
         in if p = Some Live then (Follower, acts @ acts1, w1)
            else if p = Some Busy
            then join_loop E maxAttempts busyMaxAttempts (Suc busySeen) raceRetries (el_delay E w1) (acts @ acts1 @ [Waited])
            else
              (let (bound, acts2, w2) = bind_path E p w1
               in if bound then (Leader, acts @ acts1 @ acts2, w2)
                  else join_loop E maxAttempts busyMaxAttempts busySeen (Suc raceRetries) (el_delay E w2) (acts @ acts1 @ acts2 @ [Waited])))
      else if busySeen > busyMaxAttempts then (NeverAnswered, acts, w)
      else (LostBinds, acts, w))"
  by pat_completeness auto
termination
  by (relation "measure (\<lambda>(_, maxA, maxB, busy, race, _, _). (maxA - race) + (Suc maxB - busy))") auto

declare join_loop.simps [simp del]

definition joinOrLead :: "'w elect_env \<Rightarrow> nat option \<Rightarrow> nat option \<Rightarrow> 'w \<Rightarrow> elect_result \<times> elect_act list \<times> 'w" where
  "joinOrLead E maxAttempts busyMaxAttempts w =
     join_loop E (case maxAttempts of None \<Rightarrow> MAX_ATTEMPTS | Some n \<Rightarrow> n)
       (case busyMaxAttempts of None \<Rightarrow> BUSY_MAX_ATTEMPTS | Some n \<Rightarrow> n) 0 0 w []"

text \<open>The messages of the two errors.\<close>

definition election_error :: "string \<Rightarrow> nat \<Rightarrow> nat \<Rightarrow> elect_result \<Rightarrow> string option" where
  "election_error sockPath maxAttempts busyMaxAttempts res =
     (case res of
        NeverAnswered \<Rightarrow> Some (''leader election: broker at '' @ sockPath @ '' exists but never answered the liveness probe after '' @
          show_nat (busyMaxAttempts + 1) @ '' attempts (leader busy or hung) '' @ map char_of [226 :: nat, 128, 148] @
          '' refusing to take over its socket file'')
      | LostBinds \<Rightarrow> Some (''leader election failed after '' @ show_nat maxAttempts @ '' bind attempts: '' @ sockPath)
      | _ \<Rightarrow> None)"

section \<open>The probe answers once, and for a reason\<close>

lemma scan_acks_lines: "fst (scan_acks buf) = list_ex is_ack (fst (take_lines buf)) \<and>
    (\<not> list_ex is_ack (fst (take_lines buf)) \<longrightarrow> snd (scan_acks buf) = snd (take_lines buf))"
proof (induction buf rule: scan_acks.induct)
  case (1 buf)
  show ?case
  proof (cases "index_of NL buf")
    case None
    show ?thesis unfolding scan_acks.simps [of buf] take_lines.simps [of buf] None by simp
  next
    case (Some i)
    obtain ls r where tl: "take_lines (drop (Suc i) buf) = (ls, r)" by fastforce
    have t: "take_lines buf = (if i = 0 then ls else take i buf # ls, r)"
      unfolding take_lines.simps [of buf] Some by (simp add: tl)
    have "i < length buf" using index_of_Some_length [OF Some] .
    then have z: "take i buf = [] \<longleftrightarrow> i = 0" by auto
    have sc: "scan_acks buf = (if i = 0 then scan_acks (drop (Suc i) buf)
          else if is_ack (take i buf) then (True, drop (Suc i) buf) else scan_acks (drop (Suc i) buf))"
      unfolding scan_acks.simps [of buf] Some using z by simp
    consider "i = 0" | "i \<noteq> 0" "is_ack (take i buf)" | "i \<noteq> 0" "\<not> is_ack (take i buf)" by blast
    then show ?thesis
    proof cases
      case 1
      then show ?thesis using "1.IH"(1) [OF Some] z sc t tl by simp
    next
      case 2
      then show ?thesis using sc t by simp
    next
      case 3
      then show ?thesis using "1.IH"(2) [OF Some] z sc t tl by simp
    qed
  qed
qed

lemma probe_settled_stays: "pb_settled s \<noteq> None \<Longrightarrow> pb_settled (probe_step e s) = pb_settled s"
  by (cases e) (simp_all add: probe_step_def settle_def split_def Let_def)

lemma probe_settled_run: "pb_settled s \<noteq> None \<Longrightarrow> pb_settled (fold probe_step es s) = pb_settled s"
  by (induction es arbitrary: s) (simp_all add: probe_settled_stays)

text \<open>Whatever way the bytes of an acknowledgement are cut into chunks, the chunk that completes it makes the probe live.\<close>

lemma chunks_live:
  assumes "pb_settled s = None" and "NL \<notin> set (pb_buf s)" and "list_ex is_ack (fst (take_lines (pb_buf s @ concat chunks)))"
  shows "pb_settled (fold probe_step (map Chunk chunks) s) = Some Live"
  using assms
proof (induction chunks arbitrary: s)
  case Nil
  then show ?case by simp
next
  case (Cons chunk chunks)
  let ?buf = "pb_buf s @ chunk"
  define rest where "rest = snd (scan_acks ?buf)"
  have st: "probe_step (Chunk chunk) s = (if list_ex is_ack (fst (take_lines ?buf)) then settle Live (s\<lparr>pb_buf := rest\<rparr>) else s\<lparr>pb_buf := rest\<rparr>)"
    using scan_acks_lines [of ?buf] by (simp add: probe_step_def split_def Let_def rest_def)
  show ?case
  proof (cases "list_ex is_ack (fst (take_lines ?buf))")
    case True
    then have "pb_settled (probe_step (Chunk chunk) s) = Some Live" using Cons.prems(1) by (simp add: st settle_def)
    then show ?thesis using probe_settled_run [of "probe_step (Chunk chunk) s"] by simp
  next
    case False
    then have r: "rest = snd (take_lines ?buf)" using scan_acks_lines [of ?buf] by (simp add: rest_def)
    have "list_ex is_ack (fst (take_lines (rest @ concat chunks)))"
      using Cons.prems(3) False take_lines_append [of ?buf "concat chunks"] by (simp add: r)
    moreover have "NL \<notin> set rest" unfolding r by (rule take_lines_rest_no_NL)
    ultimately show ?thesis using Cons.IH [of "s\<lparr>pb_buf := rest\<rparr>"] Cons.prems(1) False by (simp add: st)
  qed
qed

text \<open>Why a probe ends as it does: dead after an error of the socket, live on an acknowledgement in the data received, busy otherwise.\<close>

definition received :: "probe_event list \<Rightarrow> string" where
  "received es = concat (map (\<lambda>e. case e of Chunk c \<Rightarrow> c | _ \<Rightarrow> []) es)"

lemma probe_reason:
  "pb_settled (fold probe_step es s) = Some r \<Longrightarrow> pb_settled s = None \<Longrightarrow> NL \<notin> set (pb_buf s) \<Longrightarrow>
     (r = Dead \<longrightarrow> SockError \<in> set es) \<and> (r = Live \<longrightarrow> list_ex is_ack (fst (take_lines (pb_buf s @ received es)))) \<and>
     (r = Busy \<longrightarrow> ConnectTimeout \<in> set es \<or> AckTimeout \<in> set es)"
proof (induction es arbitrary: s)
  case (Cons e es)
  have unsettled: ?case if "pb_settled (probe_step e s) = None" "pb_buf (probe_step e s) = pb_buf s" "received (e # es) = received es"
    using Cons.IH [of "probe_step e s"] Cons.prems that by auto
  show ?case
  proof (cases e)
    case (Chunk c)
    let ?buf = "pb_buf s @ c"
    define rest where "rest = snd (scan_acks ?buf)"
    have st: "probe_step e s = (if list_ex is_ack (fst (take_lines ?buf)) then settle Live (s\<lparr>pb_buf := rest\<rparr>) else s\<lparr>pb_buf := rest\<rparr>)"
      using scan_acks_lines [of ?buf] by (simp add: Chunk probe_step_def split_def Let_def rest_def)
    have rc: "received (e # es) = c @ received es" by (simp add: received_def Chunk)
    have ta: "take_lines (pb_buf s @ received (e # es)) = (fst (take_lines ?buf) @ fst (take_lines (snd (take_lines ?buf) @ received es)),
        snd (take_lines (snd (take_lines ?buf) @ received es)))"
      using take_lines_append [of ?buf "received es"] by (simp add: rc)
    show ?thesis
    proof (cases "list_ex is_ack (fst (take_lines ?buf))")
      case True
      then have "pb_settled (probe_step e s) = Some Live" using Cons.prems(2) by (simp add: st settle_def)
      then have "r = Live" using Cons.prems(1) probe_settled_run [of "probe_step e s" es] by simp
      then show ?thesis using True ta by simp
    next
      case False
      then have rest: "rest = snd (take_lines ?buf)" using scan_acks_lines [of ?buf] by (simp add: rest_def)
      have "NL \<notin> set rest" unfolding rest by (rule take_lines_rest_no_NL)
      then show ?thesis using Cons.IH [of "s\<lparr>pb_buf := rest\<rparr>"] Cons.prems(1,2) False ta by (auto simp: st rest)
    qed
  next
    case Connected
    then show ?thesis using Cons.prems by (intro unsettled) (simp_all add: probe_step_def received_def)
  next
    case SockError
    then have "pb_settled (probe_step e s) = Some Dead" using Cons.prems(2) by (simp add: probe_step_def settle_def)
    then have "r = Dead" using Cons.prems(1) probe_settled_run [of "probe_step e s" es] by simp
    then show ?thesis using SockError by simp
  next
    case ConnectTimeout
    show ?thesis
    proof (cases "pb_connectTimer s")
      case True
      then have "pb_settled (probe_step e s) = Some Busy" using Cons.prems(2) ConnectTimeout by (simp add: probe_step_def settle_def)
      then have "r = Busy" using Cons.prems(1) probe_settled_run [of "probe_step e s" es] by simp
      then show ?thesis using ConnectTimeout by simp
    next
      case False
      then show ?thesis using Cons.prems ConnectTimeout by (intro unsettled) (simp_all add: probe_step_def received_def)
    qed
  next
    case AckTimeout
    show ?thesis
    proof (cases "pb_ackTimer s")
      case True
      then have "pb_settled (probe_step e s) = Some Busy" using Cons.prems(2) AckTimeout by (simp add: probe_step_def settle_def)
      then have "r = Busy" using Cons.prems(1) probe_settled_run [of "probe_step e s" es] by simp
      then show ?thesis using AckTimeout by simp
    next
      case False
      then show ?thesis using Cons.prems AckTimeout by (intro unsettled) (simp_all add: probe_step_def received_def)
    qed
  qed
qed simp

text \<open>An error of the socket after the connection was made also counts as a dead leader.\<close>

lemma error_after_connect_dead: "pb_settled (run_probe [Connected, SockError]) = Some Dead"
  by (simp add: run_probe_def probe_step_def new_probe_def settle_def)

section \<open>What the election does\<close>

text \<open>Which action may follow which. A socket file is unlinked only on a dead probe of it, and never for a named pipe; a bind is
  tried only where nothing was found or the occupant was dead; the loop starts again only after a busy probe or a lost
  bind.\<close>

definition allowed :: "bool \<Rightarrow> elect_act \<Rightarrow> elect_act \<Rightarrow> bool" where
  "allowed pipe before a \<longleftrightarrow> (case a of
       Found _ \<Rightarrow> before = Waited \<and> \<not> pipe
     | Probed _ \<Rightarrow> before = (if pipe then Waited else Found True)
     | Unlinked \<Rightarrow> before = Probed Dead \<and> \<not> pipe
     | Bound _ \<Rightarrow> before = Found False \<or> before = Unlinked \<or> before = Probed Dead
     | Waited \<Rightarrow> before = Probed Busy \<or> before = Bound False)"

definition probes :: "elect_act list \<Rightarrow> nat" where
  "probes acts = length (filter (\<lambda>a. case a of Probed _ \<Rightarrow> True | _ \<Rightarrow> False) acts)"

lemma probe_path_acts:
  assumes "probe_path E w = (p, acts, w')"
  obtains q where "p = Some q" "acts = (if el_pipe E then [Probed q] else [Found True, Probed q])"
  | "p = None" "acts = [Found False]" "\<not> el_pipe E"
  using assms by (auto simp: probe_path_def look_for_def Let_def split: if_splits prod.splits)

lemma bind_path_acts:
  assumes "bind_path E p w = (bound, acts, w')"
  obtains "acts = [Bound bound]" | "acts = [Unlinked, Bound bound]" "p = Some Dead" "\<not> el_pipe E"
  using assms by (auto simp: bind_path_def removeStaleSock_def Let_def split: if_splits prod.splits option.splits bool.splits)

text \<open>The state of the loop, as its record shows it.\<close>

definition loop_ok :: "bool \<Rightarrow> nat \<Rightarrow> nat \<Rightarrow> elect_act list \<Rightarrow> bool" where
  "loop_ok pipe busy race acts \<longleftrightarrow> successively (allowed pipe) (Waited # acts) \<and> last (Waited # acts) = Waited \<and>
     count_list acts (Probed Busy) = busy \<and> count_list acts (Bound False) = race \<and> probes acts \<le> busy + race"

lemma loop_ok_start: "loop_ok pipe 0 0 []"
  by (simp add: loop_ok_def probes_def)

lemma loop_ok_append:
  assumes "loop_ok pipe busy race acts" and "successively (allowed pipe) (Waited # added)"
  shows "successively (allowed pipe) (Waited # acts @ added)"
proof (cases added)
  case (Cons a as)
  then have "successively (allowed pipe) added" "allowed pipe Waited a" using assms(2) by simp_all
  then show ?thesis using assms(1) Cons unfolding loop_ok_def append_Cons [symmetric] successively_append_iff by simp
qed (use assms in \<open>simp add: loop_ok_def\<close>)

lemma count_append: "count_list (xs @ ys) a = count_list xs a + count_list ys a"
  by (induction xs) simp_all

lemma probes_append: "probes (xs @ ys) = probes xs + probes ys"
  by (simp add: probes_def)

text \<open>One round with a busy probe, or with a lost bind.\<close>

lemma loop_ok_busy:
  assumes "loop_ok (el_pipe E) busy race acts" and "probe_path E w = (Some Busy, added, w')"
  shows "loop_ok (el_pipe E) (Suc busy) race (acts @ added @ [Waited])"
proof -
  have m: "added = (if el_pipe E then [Probed Busy] else [Found True, Probed Busy])"
    by (rule probe_path_acts [OF assms(2)]) simp_all
  have "successively (allowed (el_pipe E)) (Waited # added @ [Waited])" by (simp add: m allowed_def)
  from loop_ok_append [OF assms(1) this] show ?thesis
    using assms(1) by (simp add: loop_ok_def count_append probes_append m) (simp add: probes_def)
qed

lemma round_bind:
  assumes "loop_ok (el_pipe E) busy race acts" and "probe_path E w = (p, acts1, w1)" and "p \<noteq> Some Live" "p \<noteq> Some Busy"
    and "bind_path E p w1 = (bound, acts2, w2)"
  shows "successively (allowed (el_pipe E)) (Waited # acts @ acts1 @ acts2)" and "last (acts1 @ acts2) = Bound bound"
    and "count_list (acts1 @ acts2) (Probed Busy) = 0" and "count_list (acts1 @ acts2) (Bound False) = (if bound then 0 else 1)"
    and "probes (acts1 @ acts2) \<le> 1" and "acts2 \<noteq> []"
proof -
  have a: "acts1 \<in> {[Found False], [Probed Dead], [Found True, Probed Dead]} \<and> (p = Some Dead \<longleftrightarrow> acts1 \<noteq> [Found False]) \<and>
      (acts1 = [Probed Dead] \<longleftrightarrow> el_pipe E) "
  proof (rule probe_path_acts [OF assms(2)])
    fix q assume q: "p = Some q" "acts1 = (if el_pipe E then [Probed q] else [Found True, Probed q])"
    then have "q = Dead" using assms(3,4) by (cases q) simp_all
    then show ?thesis using q by simp
  qed simp
  have b: "acts2 = [Bound bound] \<or> acts2 = [Unlinked, Bound bound] \<and> p = Some Dead \<and> \<not> el_pipe E"
    by (rule bind_path_acts [OF assms(5)]) simp_all
  have "successively (allowed (el_pipe E)) (Waited # acts1 @ acts2)"
    using a b by (elim conjE disjE insertE) (simp_all add: allowed_def)
  from loop_ok_append [OF assms(1) this] show "successively (allowed (el_pipe E)) (Waited # acts @ acts1 @ acts2)" .
  show "last (acts1 @ acts2) = Bound bound" "count_list (acts1 @ acts2) (Probed Busy) = 0"
    "count_list (acts1 @ acts2) (Bound False) = (if bound then 0 else 1)" "probes (acts1 @ acts2) \<le> 1" "acts2 \<noteq> []"
    using a b by (auto simp: probes_def count_append)
qed

text \<open>What is known when the loop ends with the result \<open>res\<close>.\<close>

definition ended :: "bool \<Rightarrow> nat \<Rightarrow> nat \<Rightarrow> elect_result \<Rightarrow> elect_act list \<Rightarrow> bool" where
  "ended pipe maxA maxB res acts \<longleftrightarrow> successively (allowed pipe) (Waited # acts) \<and>
     (case res of
        Leader \<Rightarrow> last (Waited # acts) = Bound True \<and> count_list acts (Bound False) < maxA \<and> count_list acts (Probed Busy) \<le> maxB
      | Follower \<Rightarrow> last (Waited # acts) = Probed Live \<and> count_list acts (Bound False) < maxA \<and> count_list acts (Probed Busy) \<le> maxB
      | NeverAnswered \<Rightarrow> last (Waited # acts) = Waited \<and> count_list acts (Bound False) < maxA \<and> count_list acts (Probed Busy) = Suc maxB
      | LostBinds \<Rightarrow> last (Waited # acts) = Waited \<and> count_list acts (Bound False) = maxA \<and> count_list acts (Probed Busy) \<le> maxB) \<and>
     probes acts \<le> maxA + maxB + 1"

lemma join_loop_ended:
  "loop_ok (el_pipe E) busy race acts \<Longrightarrow> race \<le> maxA \<and> busy \<le> Suc maxB \<and> (race < maxA \<or> busy \<le> maxB) \<Longrightarrow>
     join_loop E maxA maxB busy race w acts = (res, acts', w') \<Longrightarrow> ended (el_pipe E) maxA maxB res acts'"
proof (induction E maxA maxB busy race w acts rule: join_loop.induct)
  case (1 E maxA maxB busy race w acts)
  note ok = "1.prems"(1) and bd = "1.prems"(2)
  have acc: "last (Waited # acts) = Waited" "successively (allowed (el_pipe E)) (Waited # acts)" "count_list acts (Probed Busy) = busy"
    "count_list acts (Bound False) = race" "probes acts \<le> busy + race" using ok by (simp_all add: loop_ok_def)
  show ?case
  proof (cases "race < maxA \<and> busy \<le> maxB")
    case False
    then have "(res, acts') = (if busy > maxB then (NeverAnswered, acts) else (LostBinds, acts))"
      using "1.prems"(3) by (auto simp: join_loop.simps [of E maxA maxB busy race w acts] split: if_splits)
    then show ?thesis using False bd acc by (auto simp: ended_def split: if_splits)
  next
    case True
    obtain p acts1 w1 where pp: "probe_path E w = (p, acts1, w1)" using prod_cases3 by blast
    obtain bound acts2 w2 where bp: "bind_path E p w1 = (bound, acts2, w2)" using prod_cases3 by blast
    have eq: "join_loop E maxA maxB busy race w acts = (if p = Some Live then (Follower, acts @ acts1, w1)
            else if p = Some Busy then join_loop E maxA maxB (Suc busy) race (el_delay E w1) (acts @ acts1 @ [Waited])
            else if bound then (Leader, acts @ acts1 @ acts2, w2)
            else join_loop E maxA maxB busy (Suc race) (el_delay E w2) (acts @ acts1 @ acts2 @ [Waited]))"
      using True pp bp by (simp add: join_loop.simps [of E maxA maxB busy race w acts])
    consider (live) "p = Some Live" | (busy) "p = Some Busy" | (bind) "p \<noteq> Some Live" "p \<noteq> Some Busy" by blast
    then show ?thesis
    proof cases
      case live
      then have e: "res = Follower" "acts' = acts @ acts1" using "1.prems"(3) eq by simp_all
      have m: "acts1 = (if el_pipe E then [Probed Live] else [Found True, Probed Live])"
        by (rule probe_path_acts [OF pp]) (use live in simp_all)
      have "successively (allowed (el_pipe E)) (Waited # acts1)" by (simp add: m allowed_def)
      from loop_ok_append [OF ok this] have "successively (allowed (el_pipe E)) (Waited # acts @ acts1)" .
      moreover have "count_list acts1 (Bound False) = 0" "count_list acts1 (Probed Busy) = 0" "probes acts1 = 1" "last acts1 = Probed Live" "acts1 \<noteq> []"
        by (simp_all add: m probes_def)
      ultimately show ?thesis using e True acc by (simp add: ended_def count_append probes_append)
    next
      case busy
      then have j: "join_loop E maxA maxB (Suc busy) race (el_delay E w1) (acts @ acts1 @ [Waited]) = (res, acts', w')"
        using "1.prems"(3) eq by simp
      show ?thesis
      proof (rule "1.IH"(1) [OF True pp [symmetric] refl refl _ busy _ _ j])
        show "p \<noteq> Some Live" using busy by simp
        show "loop_ok (el_pipe E) (Suc busy) race (acts @ acts1 @ [Waited])" using loop_ok_busy [OF ok] pp busy by simp
        show "race \<le> maxA \<and> Suc busy \<le> Suc maxB \<and> (race < maxA \<or> Suc busy \<le> maxB)" using True by simp
      qed
    next
      case bind
      note rb = round_bind [OF ok pp bind bp]
      show ?thesis
      proof (cases bound)
        case b: True
        then have e: "res = Leader" "acts' = acts @ acts1 @ acts2" using "1.prems"(3) eq bind by simp_all
        have "last (acts @ acts1 @ acts2) = Bound True" using rb(2,6) b by simp
        then show ?thesis using e rb True acc b by (simp add: ended_def count_append probes_append)
      next
        case b: False
        then have j: "join_loop E maxA maxB busy (Suc race) (el_delay E w2) (acts @ acts1 @ acts2 @ [Waited]) = (res, acts', w')"
          using "1.prems"(3) eq bind by simp
        have "last (Waited # acts @ acts1 @ acts2) = Bound False" using rb(2,6) b by simp
        then have "successively (allowed (el_pipe E)) ((Waited # acts @ acts1 @ acts2) @ [Waited])"
          using rb(1) unfolding successively_append_iff by (simp add: allowed_def)
        then have ok2: "loop_ok (el_pipe E) busy (Suc race) (acts @ acts1 @ acts2 @ [Waited])"
          using rb acc b by (simp add: loop_ok_def count_append probes_append) (simp add: probes_def)
        show ?thesis
        proof (rule "1.IH"(2) [OF True pp [symmetric] refl refl bind(1,2) bp [symmetric] refl refl _ ok2 _ j])
          show "\<not> bound" using b by simp
          show "Suc race \<le> maxA \<and> busy \<le> Suc maxB \<and> (Suc race < maxA \<or> busy \<le> maxB)" using True by simp
        qed
      qed
    qed
  qed
qed

lemma joinOrLead_ended:
  "joinOrLead E maxA maxB w = (res, acts, w') \<Longrightarrow>
     ended (el_pipe E) (case maxA of None \<Rightarrow> MAX_ATTEMPTS | Some n \<Rightarrow> n) (case maxB of None \<Rightarrow> BUSY_MAX_ATTEMPTS | Some n \<Rightarrow> n) res acts"
  unfolding joinOrLead_def by (rule join_loop_ended [OF loop_ok_start]) simp_all

text \<open>C18: what a joiner does follows from what it saw last. In the sequence of the joiner's own acts, in whatever
  environment, a socket file is removed only as the act after a probe that found it dead, and never for a named pipe; a
  bind is tried only where nothing exists or directly after such a probe or removal; after a busy probe the joiner
  waits; the result is a leader exactly if the last act is a successful bind, a follower exactly if it is a live
  probe. This does not say that the file is still the one that was probed: between the two acts another joiner can have
  bound there, and then its live file is removed unprobed (\<open>overlap_run\<close> below).\<close>

theorem election_cautious:
  assumes "joinOrLead E maxA maxB w = (res, acts, w')"
  shows "successively (allowed (el_pipe E)) (Waited # acts) \<and> (res = Leader \<longleftrightarrow> last (Waited # acts) = Bound True) \<and>
     (res = Follower \<longleftrightarrow> last (Waited # acts) = Probed Live)"
  using joinOrLead_ended [OF assms] by (cases res) (simp_all add: ended_def split: if_splits)

text \<open>C19: an election ends, in any environment, within its limits. It gives up as \<open>NeverAnswered\<close> exactly after one busy probe
  more than allowed, as \<open>LostBinds\<close> exactly after the allowed number of lost binds, and it never makes more probes
  than the two limits and one together.\<close>

theorem election_bounded:
  assumes "joinOrLead E (Some maxA) (Some maxB) w = (res, acts, w')"
  shows "probes acts \<le> maxA + maxB + 1 \<and> (res = NeverAnswered \<longleftrightarrow> count_list acts (Probed Busy) = maxB + 1) \<and>
     (res = LostBinds \<longleftrightarrow> count_list acts (Bound False) = maxA) \<and> count_list acts (Bound False) \<le> maxA \<and>
     count_list acts (Probed Busy) \<le> maxB + 1"
  using joinOrLead_ended [OF assms] by (cases res) (simp_all add: ended_def)

section \<open>Joiners on one path\<close>

datatype site = Empty | Stale | Owned nat

text \<open>A POSIX path on which joiner \<open>p\<close> acts: a serving owner answers a probe, a file without a listener refuses it.\<close>

definition site_env :: "nat \<Rightarrow> site elect_env" where
  "site_env p = \<lparr>el_pipe = False, el_exists = (\<lambda>s. (s \<noteq> Empty, s)),
     el_probe = (\<lambda>s. (case s of Owned _ \<Rightarrow> Live | _ \<Rightarrow> Dead, s)), el_lstat = (\<lambda>s. (if s = Empty then None else Some True, s)),
     el_unlink = (\<lambda>s. Empty), el_bind = (\<lambda>s. if s = Empty then (True, Owned p) else (False, s)), el_delay = (\<lambda>s. s)\<rparr>"

definition join_site :: "nat \<Rightarrow> site \<Rightarrow> elect_result \<times> site" where
  "join_site p s = (let (res, acts, s') = joinOrLead (site_env p) None None s in (res, s'))"

lemma join_site_simps: "join_site p (Owned q) = (Follower, Owned q)" "join_site p Empty = (Leader, Owned p)" "join_site p Stale = (Leader, Owned p)"
  by (simp_all add: join_site_def joinOrLead_def join_loop.simps [of _ 20] MAX_ATTEMPTS_def site_env_def probe_path_def look_for_def
      bind_path_def removeStaleSock_def)

fun join_all :: "nat list \<Rightarrow> site \<Rightarrow> elect_result list \<times> site" where
  "join_all [] s = ([], s)"
| "join_all (p # ps) s = (let (r, s1) = join_site p s; (rs, s2) = join_all ps s1 in (r # rs, s2))"

lemma join_all_owned: "join_all ps (Owned q) = (replicate (length ps) Follower, Owned q)"
  by (induction ps) (simp_all add: join_site_simps)

text \<open>Two joiners that overlap. While joiner 1 awaits the answer to its probe of a stale file, joiner 2 runs a whole election: it removes
  the file, binds and leads. Joiner 1 then removes the socket file of joiner 2, without looking again, and
  leads as well.\<close>

definition overlap_env :: "(site \<times> elect_result option) elect_env" where
  "overlap_env = \<lparr>el_pipe = False, el_exists = (\<lambda>(s, o2). (s \<noteq> Empty, (s, o2))),
     el_probe = (\<lambda>(s, o2). (case s of Owned _ \<Rightarrow> Live | _ \<Rightarrow> Dead,
        if o2 = None then (let (r2, s2) = join_site 2 s in (s2, Some r2)) else (s, o2))),
     el_lstat = (\<lambda>(s, o2). (if s = Empty then None else Some True, (s, o2))),
     el_unlink = (\<lambda>(s, o2). (Empty, o2)), el_bind = (\<lambda>(s, o2). if s = Empty then (True, (Owned 1, o2)) else (False, (s, o2))),
     el_delay = id\<rparr>"

lemma overlap_run:
  "fst (joinOrLead overlap_env None None (Stale, None)) = Leader"
  "snd (snd (joinOrLead overlap_env None None (Stale, None))) = (Owned 1, Some Leader)"
  by (simp_all add: joinOrLead_def join_loop.simps [of _ 20] MAX_ATTEMPTS_def overlap_env_def probe_path_def look_for_def
      bind_path_def removeStaleSock_def join_site_simps)

text \<open>Joiners that come one after the other agree on one leader. From an empty path or a stale socket file the first one
  leads and owns the path, and all others follow it; on a path with a serving leader all follow and the path is
  untouched. Joiners that overlap do not: on a stale file both of two may end as leaders, the path with
  the one, the other with a socket that nobody can reach any more.\<close>

theorem election_agreement:
  "join_all (p # ps) Empty = (Leader # replicate (length ps) Follower, Owned p) \<and>
   join_all (p # ps) Stale = (Leader # replicate (length ps) Follower, Owned p) \<and>
   join_all (p # ps) (Owned q) = (replicate (Suc (length ps)) Follower, Owned q) \<and>
   fst (joinOrLead overlap_env None None (Stale, None)) = Leader \<and>
   snd (snd (joinOrLead overlap_env None None (Stale, None))) = (Owned 1, Some Leader)"
  by (simp_all add: join_site_simps join_all_owned overlap_run)

section \<open>A serving broker is never displaced\<close>

text \<open>What a broker wrote to a connection.\<close>

definition written :: "nat \<Rightarrow> effect list \<Rightarrow> string" where
  "written c log = concat (map (\<lambda>e. case e of Write c' line \<Rightarrow> if c' = c then line else [] | _ \<Rightarrow> []) log)"

definition pong :: "string \<Rightarrow> jv" where
  "pong uid = env_jv (broker_env uid ''observer'' None (JObj [(''type'', JStr ''broker_pong'')]))"

lemma pong_line: "take_lines (serialize_jv (pong uid) @ rest) = (stringify (pong uid) # fst (take_lines rest), snd (take_lines rest))"
  "is_ack (stringify (pong uid))"
proof -
  have w: "wf_json (pong uid)" by (simp add: pong_def env_jv_def broker_env_def re_jv_def)
  show "take_lines (serialize_jv (pong uid) @ rest) = (stringify (pong uid) # fst (take_lines rest), snd (take_lines rest))"
    by (rule serialize_line [OF w])
  have "json_parse (stringify (pong uid)) = Some (pong uid)" using json_round_trip [OF w, of "[]"] by simp
  then show "is_ack (stringify (pong uid))" by (simp add: is_ack_def) (simp add: pong_def env_jv_def broker_env_def)
qed

lemma written_append: "written c (xs @ ys) = written c xs @ written c ys"
  by (simp add: written_def)

text \<open>The log of a broker only grows.\<close>

lemma observer_grows: "\<exists>es. br_log (snd (tryObserverProbe h R c line b)) = br_log b @ es"
  by (auto simp: tryObserverProbe_def allPeerNames_def allPeerInfos_def Let_def try_write_def emit_def tick_def split: option.split prod.split)

lemma ping_lines_split: "take_lines ping_lines = ([stringify (JObj [(''type'', JStr ''broker_ping'')]), stringify (JObj [(''type'', JStr ''list_peers'')])], [])"
  using take_lines_stream [of "[JObj [(''type'', JStr ''broker_ping'')], JObj [(''type'', JStr ''list_peers'')]]"] by (simp add: ping_lines_def)

lemma probe_types:
  "probe_type ''broker_ping'' (stringify (JObj [(''type'', JStr t)])) \<longleftrightarrow> t = ''broker_ping''"
  "probe_type ''list_peers'' (stringify (JObj [(''type'', JStr t)])) \<longleftrightarrow> t = ''list_peers''"
  using json_round_trip [of "JObj [(''type'', JStr t)]" "[]"] by (simp_all add: probe_type_def)

lemma set_conn_log: "br_log (set_conn c p b) = br_log b" "br_peers (set_conn c p b) = br_peers b"
  by (simp_all add: set_conn_def)

lemma observer_same: "br_peers (snd (tryObserverProbe h R c line b)) = br_peers b"
  by (auto simp: tryObserverProbe_def allPeerNames_def allPeerInfos_def Let_def try_write_def emit_def tick_def split: option.split prod.split)

lemma broker_answers_ping:
  assumes "br_conns b c = Some p" and "pc_name p = []" and "pc_buf p = []" and "\<not> h_throws h c"
  shows "\<exists>uid es. br_log (onData h R c ping_lines b) = br_log b @ Write c (serialize_jv (pong uid)) # es \<and>
     br_peers (onData h R c ping_lines b) = br_peers b"
proof -
  define l1 where "l1 = stringify (JObj [(''type'', JStr ''broker_ping'')])"
  define l2 where "l2 = stringify (JObj [(''type'', JStr ''list_peers'')])"
  define b0 where "b0 = set_conn c (p\<lparr>pc_buf := []\<rparr>) b"
  have od: "onData h R c ping_lines b = handleLine h R c l2 (handleLine h R c l1 b0)"
    using assms(1,3) ping_lines_split by (simp add: onData_def b0_def l1_def l2_def)
  have c0: "br_conns b0 c = Some (p\<lparr>pc_buf := []\<rparr>)" by (simp add: b0_def set_conn_def)
  define b1 where "b1 = emit (Write c (serialize_jv (pong (next_uuid h b0)))) (tick b0)"
  have 1: "handleLine h R c l1 b0 = b1"
  proof -
    have "probe_type ''broker_ping'' l1" unfolding l1_def probe_types by simp
    then show ?thesis
      using c0 assms(2,4) by (simp add: handleLine_def tryBrokerPing_def try_write_def b1_def pong_def serialize_def)
  qed
  have c1: "br_conns b1 c = Some (p\<lparr>pc_buf := []\<rparr>)" using c0 by (simp add: b1_def emit_def tick_def)
  have "probe_type ''list_peers'' l2" "\<not> probe_type ''broker_ping'' l2" unfolding l2_def probe_types by simp_all
  then have 2: "handleLine h R c l2 b1 = snd (tryObserverProbe h R c l2 b1)"
    using c1 assms(2) by (simp add: handleLine_def tryBrokerPing_def tryObserverProbe_def split_def Let_def)
  obtain es where "br_log (snd (tryObserverProbe h R c l2 b1)) = br_log b1 @ es" using observer_grows by blast
  moreover have "br_log b1 = br_log b @ [Write c (serialize_jv (pong (next_uuid h b0)))]" by (simp add: b1_def emit_def tick_def b0_def set_conn_log)
  moreover have "br_peers (snd (tryObserverProbe h R c l2 b1)) = br_peers b"
    unfolding observer_same by (simp add: b1_def emit_def tick_def b0_def set_conn_log)
  ultimately show ?thesis using od 1 2 by auto
qed

text \<open>The probe recognises a serving broker, and leaves no trace on it. What the probe sends after connecting, given to any
  broker in whatever state over a fresh connection, makes the broker write bytes that, arriving in whatever chunks,
  settle the probe as live; the registry of the broker is unchanged. (That a live probe makes a joiner a
  follower is the election's own contract.)\<close>

theorem serving_broker_is_live:
  assumes "br_conns b c = Some p" and "pc_name p = []" and "pc_buf p = []" and "\<not> h_throws h c"
    and "concat chunks = written c (drop (length (br_log b)) (br_log (onData h R c (pb_sent (run_probe [Connected])) b)))"
  shows "pb_settled (run_probe (Connected # map Chunk chunks)) = Some Live \<and>
     br_peers (onData h R c (pb_sent (run_probe [Connected])) b) = br_peers b"
proof -
  have sent: "pb_sent (run_probe [Connected]) = ping_lines" by (simp add: run_probe_def probe_step_def new_probe_def)
  obtain uid es where b: "br_log (onData h R c ping_lines b) = br_log b @ Write c (serialize_jv (pong uid)) # es"
    "br_peers (onData h R c ping_lines b) = br_peers b" using broker_answers_ping [OF assms(1-4)] by blast
  have "concat chunks = serialize_jv (pong uid) @ written c es" using assms(5) unfolding sent b(1) by (simp add: written_def)
  then have ack: "list_ex is_ack (fst (take_lines (concat chunks)))" using pong_line by simp
  define s where "s = probe_step Connected new_probe"
  have s: "pb_settled s = None" "pb_buf s = []" by (simp_all add: s_def probe_step_def new_probe_def)
  have "pb_settled (fold probe_step (map Chunk chunks) s) = Some Live"
    by (rule chunks_live) (use s ack in simp_all)
  then show ?thesis using b(2) unfolding sent by (simp add: run_probe_def s_def)
qed

section \<open>Witnesses\<close>

lemma election_cautious_witness:
  "\<exists>acts w'. joinOrLead (site_env 0) None None Stale = (Leader, acts, w') \<and> last (Waited # acts) = Bound True"
proof -
  have "fst (join_site 0 Stale) = Leader" by (simp add: join_site_simps)
  then obtain acts w' where j: "joinOrLead (site_env 0) None None Stale = (Leader, acts, w')"
    by (auto simp: join_site_def split: prod.splits)
  then show ?thesis using election_cautious [OF j] by simp
qed

text \<open>A hung broker.\<close>

definition hung_env :: "unit elect_env" where
  "hung_env = \<lparr>el_pipe = False, el_exists = (\<lambda>w. (True, w)), el_probe = (\<lambda>w. (Busy, w)), el_lstat = (\<lambda>w. (Some True, w)),
     el_unlink = id, el_bind = (\<lambda>w. (True, w)), el_delay = id\<rparr>"

lemma election_bounded_witness:
  "fst (joinOrLead hung_env (Some 2) (Some 1) ()) = NeverAnswered \<and>
   count_list (fst (snd (joinOrLead hung_env (Some 2) (Some 1) ()))) (Probed Busy) = 1 + 1"
proof -
  obtain res acts w' where j: "joinOrLead hung_env (Some 2) (Some 1) () = (res, acts, w')" using prod_cases3 by blast
  have "fst (joinOrLead hung_env (Some 2) (Some 1) ()) = NeverAnswered" by code_simp
  then show ?thesis using election_bounded [OF j] j by simp
qed

lemma serving_broker_is_live_witness:
  "pb_settled (run_probe (Connected # map Chunk [written 13 (drop (length (br_log demo)) (br_log (onData demo_host demo_router 13 (pb_sent (run_probe [Connected])) demo)))])) = Some Live"
proof -
  have c: "pc_name new_conn = []" "pc_buf new_conn = []" "\<not> h_throws demo_host 13" by (simp_all add: new_conn_def demo_host_def)
  show ?thesis by (rule conjunct1, rule serving_broker_is_live [OF demo_conns(2) c, of _ demo_router]) simp
qed

end
