(* ===== verification/Spec2Isabelle.thy ===== *)
theory Spec2Isabelle
  imports RemoteMesh RevokeRuns StoreRevoke PairingGuarantees RelayClient MeshNodeRuns Inbox Election
begin

text \<open>
  The agent network of un-bien: a model of the TypeScript extension under \<^verbatim>\<open>src/extension/src\<close> and what it
  guarantees.

  \<^bold>\<open>The program.\<close> Coding agents on one machine find each other on a local socket. One process wins an election for the
  socket path and runs the broker; every other process connects to it, registers a name for its working
  directory and then exchanges JSON lines with five fields: from, to, id, re, body. Machines that were paired with
  the same owner form a mesh: the owner signs a list of member machines, each machine fetches and verifies that list
  and derives from it whom it may talk to and under which label. A second router, next to the broker, exchanges
  rosters and envelopes with the broker of each sibling machine over a relay that is not trusted with more than
  saying from which machine a frame came. A machine that is no longer on the owner's list gives up its pairing.
  The pairings with phones are kept in one file that several processes of the machine write. An agent that is shown
  to a phone holds a connection to the relay, opens it again when it is lost and attaches one channel per paired
  phone to it.
  A phone is paired by a token that the agent shows as a QR code. An agent keeps what it received in an inbox on which its tools can
  block.

  \<^bold>\<open>Parts and theories.\<close> Each theory models the files named, one definition per function, method or handler, with the
  names of the source.
  \<^item> \<open>Prelude\<close>: JavaScript strings and maps. \<open>Json\<close>: \<^verbatim>\<open>JSON.parse\<close> and \<^verbatim>\<open>JSON.stringify\<close>.
  \<^item> \<open>Envelope\<close>: \<^verbatim>\<open>session/envelope.ts\<close>, and the splitting of a byte stream into lines.
  \<^item> \<open>Names\<close>: the naming part of \<^verbatim>\<open>session/local_config.ts\<close>, \<^verbatim>\<open>session/peer_limits.ts\<close>.
  \<^item> \<open>Broker\<close>, \<open>BrokerProps\<close>, \<open>BrokerRuns\<close>: \<^verbatim>\<open>session/broker.ts\<close>; its lemmas; small runs.
  \<^item> \<open>KeyCodec\<close>, \<open>Aliases\<close>: \<^verbatim>\<open>mesh/encoding.ts\<close>, keys and routing labels.
  \<^item> \<open>Mesh\<close>: \<^verbatim>\<open>mesh/canonical.ts\<close>, \<^verbatim>\<open>mesh/types.ts\<close>, \<^verbatim>\<open>mesh/verify.ts\<close>. \<open>Topology\<close>: \<^verbatim>\<open>mesh/siblings.ts\<close>.
  \<^item> \<open>BrokerRemote\<close>, \<open>RemoteProps\<close>, \<open>RemoteMesh\<close>: \<^verbatim>\<open>session/broker_remote.ts\<close> and the frames of
    \<^verbatim>\<open>transport/pi_forward_client.ts\<close>; the invariant of the router; the router together with the broker.
  \<^item> \<open>SelfRevoke\<close>, \<open>RevokeProps\<close>, \<open>RevokeRuns\<close>: \<^verbatim>\<open>mesh/self_revoke.ts\<close>; its lemmas; its runs.
  \<^item> \<open>JsonPretty\<close>: indented JSON. \<open>PeerStore\<close>: the peers file of \<^verbatim>\<open>pairing/storage.ts\<close>. \<open>PeerTrust\<close>:
    \<^verbatim>\<open>pairing/peer_trust.ts\<close>, \<^verbatim>\<open>pairing/signed_allow_list.ts\<close>. \<open>StoreRevoke\<close>: sweeps that act on that file.
  \<^item> \<open>RelayLife\<close>, \<open>RelayLifeProps\<close>, \<open>RelayGuarantees\<close>: the connection part of \<^verbatim>\<open>session/relay_lifecycle.ts\<close>,
    with the handlers of \<^verbatim>\<open>index.ts\<close>, \<^verbatim>\<open>commands\<close> (start, stop, join and the root command) and
    \<^verbatim>\<open>transport/peer_channel.ts\<close> that drive it;
    the invariants of its state; what it guarantees.
  \<^item> \<open>Channel\<close>: the wire of \<^verbatim>\<open>transport/peer_channel.ts\<close>, with the kinds of \<^verbatim>\<open>session/rpc_envelope.ts\<close> and
    \<^verbatim>\<open>session/capabilities.ts\<close>. \<open>Pairing\<close>, \<open>PairingProps\<close>, \<open>PairingGuarantees\<close>: \<^verbatim>\<open>pairing/qr.ts\<close>, the listener and the
    pair request of \<^verbatim>\<open>session/relay_lifecycle.ts\<close>, \<^verbatim>\<open>commands/pairing.ts\<close>; the invariant; what it guarantees.
  \<^item> \<open>RelayClient\<close>: \<^verbatim>\<open>transport/relay_client.ts\<close>, the WebSocket client of the relay.
  \<^item> \<open>SessionPeer\<close>, \<open>SessionPeerProps\<close>, \<open>SessionPeerRuns\<close>: \<^verbatim>\<open>session/peer.ts\<close>, the client of the local mesh; its properties, also
    together with the broker; its runs.
  \<^item> \<open>MeshNode\<close>, \<open>MeshNodeProps\<close>, \<open>MeshNodeLife\<close>, \<open>MeshNodeRuns\<close>: \<^verbatim>\<open>session/mesh_node.ts\<close> with the bridge of
    \<^verbatim>\<open>session/bridge.ts\<close>, which join such a client to the relay; its accounts and its topology; closing and reconnecting; a run.
  \<^item> \<open>Inbox\<close>: \<^verbatim>\<open>session/mesh_inbox.ts\<close>. \<open>Election\<close>: \<^verbatim>\<open>session/leader_election.ts\<close>.

  \<^bold>\<open>State and effects.\<close> The fields of a class are a record (\<open>broker\<close>, \<open>remote\<close>, \<open>revoker\<close>, \<open>life\<close>, \<open>machine\<close>, \<open>relay_client\<close>,
  \<open>session_peer\<close>, \<open>relay_node\<close>, \<open>inbox\<close>, \<open>probe_state\<close>); a
  method takes the record and returns it changed. What goes out of the program (a write on a socket, a destroyed
  socket, an audit line, a frame for the relay, a log line, a call of the storage) is appended to a log in the record,
  in the order the code does it. Errors are values of \<open>error + 'a\<close>. A handler of an event is one step; the runs of a component
  are the inductive relations \<open>broker_reachable\<close>, \<open>remote_reachable\<close>, \<open>revoker_reachable\<close>, \<open>inbox_reachable\<close>. A timer is
  a step that may happen while it is set. Where the code awaits, the model says what may change meanwhile: for the
  sweeps of \<open>SelfRevoke\<close> that is the generation counter, the only field that other code touches during a
  sweep; the handlers of the broker and the router contain no await between their reads and writes, and only the audit line and
  the report of a routed envelope, which \<^verbatim>\<open>_route\<close> awaits at its end, may come later than in the model. \<open>RelayLife\<close> cuts
  its functions at every await into tasks, any of which may resume next (\<open>life_step\<close>); \<open>Pairing\<close> cuts also where the disk is read or written, since other
  processes change the file (\<open>pair_step\<close>); \<open>RelayClient\<close> and \<open>SessionPeer\<close> take what happens to them as a list of
  inputs (\<open>rc_run\<close>, \<open>sp_run\<close>), in any order; so does \<open>MeshNode\<close> (\<open>mn_run_all\<close>), whose attempts to attach a bridge are cut at their three waits.

  \<^bold>\<open>Interfaces.\<close> \<open>js_map\<close> (Prelude) states the laws of a map, \<open>codec\<close> (KeyCodec) those of an encoding with a canonical
  form, \<open>broker_contract\<close> (RemoteMesh) what the router relies on in the broker, \<open>provenance\<close> (PeerStore) what
  the tokens of file handles promise: each is interpreted on the model's
  own definitions, and the theorems about the router and the broker together rest on that interpretation. The broker
  sees the router as a record of operations, \<open>router_ops\<close>.

  \<^bold>\<open>What is shown.\<close>
  \<^item> Broker: in every reachable state the registry and the connections agree, addresses are unique and the registry is
    bounded; no peer can send under another's name; who gets an envelope and what is acknowledged, for each form of
    address; only a takeover displaces; bytes cut into other chunks change nothing while the connection is live; a rename moves just its own entry.
  \<^item> Keys and labels: every spelling of a key decodes, to one canonical text; labels are a bijection, whatever the
    order of the input.
  \<^item> Membership: canonical JSON is parsed back and does not depend on the order of members; an accepted header carries the owner's
    signature over the bytes as received; discovery lists exactly the machines in
    a signed list together with this one, and never fails on bad input.
  \<^item> Router: its state is sound in every run; what comes in is delivered under the label
    of the authenticated machine only; a message crosses from one broker to the other and is acknowledged.
  \<^item> Revocation: a pairing is given up only on the owner's signed word; versions do not roll back, and the word on a pairing that was
    replaced meanwhile leaves no trace; announced topologies are signed for by the owners on record.
  \<^item> Pairings: a handle is stale exactly when the owner changed under it in this process; a write of another process goes unnoticed; a sweep on the real file revokes
    exactly the records it read.
  \<^item> Relay connection: every open connection is the current one or about to be closed; a stop is final until the next start, unless
    a start was deferred or a new session begins;
    a lost connection is retried until it is back. Its client reports only an identity vouched for on that
    connection, hands on every line of a frame but those that mention an acknowledgement, and gives a silent connection up, but none
    from which a frame or a ping came in time.
  \<^item> Pairing: a token is redeemed once, before it expires; nobody is served who was not in the file or redeemed one; a scan leads to
    an attached phone; every line goes to the channel of its sender or to the listener; the revoke command removes the chosen
    records, and what a look-up under way then does. An envelope sent on a channel is read back.
  \<^item> Mesh client: each request and each acknowledged send ends once; only the broker that serves an address can acknowledge; a peer and the broker
    that accepts it agree on its name and address, until a rename in place; a displaced leader joins again; leaving is final unless
    a join is under way; a leader never closes its broker.
  \<^item> Mesh node: no bridge and no relay of its own is lost or given up twice, and the host's relays are left alone; the topology it keeps and tells
    is always one a router accepts; closing is final; a lost relay is replaced, with growing delays.
  \<^item> Inbox: it refines a bounded queue; each wait is answered at once if it can be, and settled at most once, with what it asked for.
  \<^item> Election: a joiner removes a socket file only as the next step after it found that socket dead itself, which two joiners
    that overlap can make too late; the loop is bounded.

  Lemmas that no property names carry these, and some stand for themselves: the round trip of the canonical form and of a signed
  header, what the router accepts, the pace of retries, the gates on a sender, the exactness of a removal, when two joiners agree.

  \<^bold>\<open>Conventions and limits.\<close> A string is its UTF-8 bytes; lengths and comparisons that JavaScript makes on UTF-16 code units are written
  out for them, and unpaired surrogates are outside the model. Numbers that the code treats as integers are
  integers, but for the version and the time of a header, which \<^verbatim>\<open>verify.ts\<close> reads from JSON as doubles: they are rounded as those are
  (\<open>js_integer\<close>). Any other JSON number with a fraction or an exponent keeps its text. The JSON parser runs on fuel, twice the length of the
  text and two, which lemma \<open>parse_fuel_irrelevant\<close> shows to be enough. The identifiers of envelopes and the random
  bytes come from an argument. SHA-256, Ed25519 signing and verification, the socket of the relay, the
  mesh server, the file system and the clock are arguments of the definitions that use them; no law is assumed of
  them but those a theorem names. A client of the relay is connected once, as its callers do it: a second call of \<open>connect\<close>, which
  would open another socket in the code, changes nothing in the model.

  \<^bold>\<open>Not modelled.\<close> Processes, files and sockets as such (\<^verbatim>\<open>daemon\<close>, most of \<^verbatim>\<open>commands\<close>), the rest of the phone side of the extension (most of \<^verbatim>\<open>index.ts\<close>, the
  identity of the machine in \<^verbatim>\<open>pairing/storage.ts\<close>,
  \<^verbatim>\<open>rooms.ts\<close>, \<^verbatim>\<open>subagent_rooms.ts\<close>, the bridges and the builders of the RPC envelopes), the command line tool, the durable
  agents, and the programs in Swift and Rust. They are listed in the manifest with the reason for each.
\<close>

end
